(* ===== verification/Prelude.thy ===== *)
theory Prelude
  imports Main "HOL-Library.Word"
begin

text \<open>
  Shared vocabulary of the development: the machine types of the Go source, Go's three ways
  for a call to end (a result, an error value, a panic), slicing with Go's bounds checks,
  and the generic facts on lists, options and words that the component theories use.
\<close>

unbundle bit_operations_syntax

named_theorems go_simps "unfolding rules of the Go control-flow combinators"
named_theorems go_inv "inversion rules for calls that ended with a result"

type_synonym byte = "8 word"
type_synonym u64 = "64 word"
type_synonym bytes = "byte list"

text \<open>
  A Go byte slice that may be nil.  The code base distinguishes nil (a Zed null) from an
  empty slice (an empty value), so the distinction is kept.
\<close>

type_synonym zbytes = "byte list option"

section \<open>How a call ends\<close>

datatype ('e, 'a) result = Ok 'a | Err 'e | Panic

primrec bindR :: "('e, 'a) result \<Rightarrow> ('a \<Rightarrow> ('e, 'b) result) \<Rightarrow> ('e, 'b) result" where
  "bindR (Ok x) f = f x"
| "bindR (Err e) f = Err e"
| "bindR Panic f = Panic"

definition mapR :: "('a \<Rightarrow> 'b) \<Rightarrow> ('e, 'a) result \<Rightarrow> ('e, 'b) result" where
  "mapR f r = bindR r (\<lambda>x. Ok (f x))"

text \<open>
  The error values of the code base.  An error made by \<open>errors.New\<close> or \<open>fmt.Errorf\<close> is
  identified by its message format; the formatted operands are not kept.
\<close>

datatype goerror = Errorf string

type_synonym 'a go = "(goerror, 'a) result"

primrec isOk :: "('e, 'a) result \<Rightarrow> bool" where
  "isOk (Ok x) = True"
| "isOk (Err e) = False"
| "isOk Panic = False"

lemma bindR_Ok_iff [go_inv]: "bindR r f = Ok y \<longleftrightarrow> (\<exists>x. r = Ok x \<and> f x = Ok y)"
  by (cases r) auto

lemma mapR_simps [simp]: "mapR f (Ok x) = Ok (f x)" "mapR f (Err e) = Err e" "mapR f Panic = Panic"
  by (simp_all add: mapR_def)

lemma mapR_Ok_iff [go_inv]: "mapR f r = Ok y \<longleftrightarrow> (\<exists>x. r = Ok x \<and> y = f x)"
  by (cases r) auto

lemma isOk_iff: "isOk r \<longleftrightarrow> (\<exists>x. r = Ok x)"
  by (cases r) auto

lemma bindR_assoc: "bindR (bindR r f) g = bindR r (\<lambda>x. bindR (f x) g)"
  by (cases r) simp_all

section \<open>Go slices and ints\<close>

text \<open>The bytes of a possibly nil slice: ranging over nil is ranging over nothing.\<close>

definition buf :: "zbytes \<Rightarrow> bytes" where
  "buf z = (case z of None \<Rightarrow> [] | Some b \<Rightarrow> b)"

lemma buf_simps [simp]: "buf None = []" "buf (Some b) = b"
  by (simp_all add: buf_def)

text \<open>
  \<open>s[lo:hi]\<close> with signed bounds.  The callers modelled here always follow such a slice with
  \<open>s[hi:]\<close>, which panics when \<open>hi\<close> exceeds the length, so the capacity plays no role.
\<close>

definition go_slice :: "'a list \<Rightarrow> int \<Rightarrow> int \<Rightarrow> 'a list go" where
  "go_slice s lo hi =
     (if 0 \<le> lo \<and> lo \<le> hi \<and> hi \<le> int (length s)
      then Ok (take (nat hi - nat lo) (drop (nat lo) s)) else Panic)"

text \<open>Go's \<open>int\<close> is 64 bits wide; its arithmetic wraps around.\<close>

definition wrap64 :: "int \<Rightarrow> int" where
  "wrap64 i = signed_take_bit 63 i"

lemma wrap64_id: "- (2 ^ 63) \<le> i \<Longrightarrow> i < 2 ^ 63 \<Longrightarrow> wrap64 i = i"
  by (simp add: wrap64_def signed_take_bit_int_eq_self)

lemma go_slice_nat:
  "m \<le> n \<Longrightarrow> n \<le> length s \<Longrightarrow> go_slice s (int m) (int n) = Ok (take (n - m) (drop m s))"
  by (simp add: go_slice_def)

section \<open>Words\<close>

lemma sint_of_nat_small:
  "n < 2 ^ 63 \<Longrightarrow> sint (of_nat n :: u64) = int n"
proof -
  assume "n < 2 ^ 63"
  then have "int n < 2 ^ 63" by (metis of_nat_less_iff of_nat_numeral of_nat_power)
  then show ?thesis
    by (simp only: sint_uint unat_eq_nat_uint [symmetric] uint_nat unat_of_nat) (simp add: signed_take_bit_int_eq_self \<open>n < 2 ^ 63\<close>)
qed

lemma unat_drop_bit_u64: "unat (drop_bit k x :: u64) = unat x div 2 ^ k"
  unfolding unat_drop_bit_eq by (simp add: drop_bit_eq_div)

lemma ucast_small_byte: "\<not> (0x80 :: u64) \<le> x \<Longrightarrow> ucast (ucast x :: byte) = x"
proof -
  assume "\<not> (0x80 :: u64) \<le> x"
  then have "unat x < 128" by (simp add: word_le_nat_alt)
  then have "unat (ucast (ucast x :: byte) :: u64) = unat x"
    by (simp add: unsigned_ucast_eq unsigned_take_bit_eq take_bit_nat_eq_self)
  then show ?thesis by (simp add: word_unat_eq_iff)
qed

lemma bit_0x80_int: "bit (0x80 :: int) n \<longleftrightarrow> n = 7"
  using bit_exp_iff [of 7 n, where 'a = int] by auto

lemma bit_0x7f_int: "bit (0x7f :: int) n \<longleftrightarrow> n < 7"
  using bit_mask_iff [of 7 n, where 'a = int] by (auto simp: mask_eq_exp_minus_1)

lemma varint_chunk:
  fixes y :: u64
  shows "x OR push_bit k (ucast ((ucast y OR 0x80 :: byte) AND 0x7f)) OR push_bit (k + 7) (drop_bit 7 y)
    = x OR push_bit k y"
proof (rule bit_word_eqI)
  fix n assume "n < LENGTH(64)"
  then show "bit (x OR push_bit k (ucast ((ucast y OR 0x80 :: byte) AND 0x7f)) OR push_bit (k + 7) (drop_bit 7 y)) n
    = bit (x OR push_bit k y) n"
    by (cases "n - k < 7") (auto simp: bit_simps bit_0x80_int bit_0x7f_int)
qed

lemma byte_tag_ge: "\<not> (ucast (y::u64) OR 0x80 :: byte) < 0x80"
proof -
  have "(0x80::byte) \<le> a OR 0x80" for a by (rule le_word_or1)
  then show ?thesis by (simp add: not_less)
qed

lemma ucast_lt: "\<not> (0x80 :: u64) \<le> x \<Longrightarrow> (ucast x :: byte) < 0x80"
proof -
  assume "\<not> (0x80 :: u64) \<le> x"
  then have "unat x < 128" by (simp add: word_le_nat_alt)
  then show ?thesis by (simp add: word_less_nat_alt unsigned_ucast_eq take_bit_nat_eq_self)
qed

end
