(* ===== verification/Types.thy ===== *)
theory Types
  imports Prelude "HOL-Library.Multiset"
begin

text \<open>
  Zed types (\<open>type.go\<close>, \<open>complex.go\<close>): primitive types and their IDs, complex types, the
  type order, and the operations that inspect types.

  A Go type is a pointer; two pointers from one \<open>Context\<close> are equal exactly when the types
  are the same object.  A type is modelled as the tree it points to, with the ID that the
  context gave to each node, so that equality of trees stands for equality of pointers.
  Strings are Go strings, that is byte sequences.
\<close>

type_synonym gostring = bytes

definition str :: "string \<Rightarrow> gostring" where
  "str s = map of_char s"

section \<open>Primitive types\<close>

datatype prim =
    TypeUint8 | TypeUint16 | TypeUint32 | TypeUint64
  | TypeInt8 | TypeInt16 | TypeInt32 | TypeInt64
  | TypeDuration | TypeTime
  | TypeFloat16 | TypeFloat32 | TypeFloat64
  | TypeBool | TypeBytes | TypeString | TypeIP | TypeNet | TypeType | TypeNull

fun prim_ID :: "prim \<Rightarrow> nat" where
  "prim_ID TypeUint8 = 0"
| "prim_ID TypeUint16 = 1"
| "prim_ID TypeUint32 = 2"
| "prim_ID TypeUint64 = 3"
| "prim_ID TypeInt8 = 6"
| "prim_ID TypeInt16 = 7"
| "prim_ID TypeInt32 = 8"
| "prim_ID TypeInt64 = 9"
| "prim_ID TypeDuration = 12"
| "prim_ID TypeTime = 13"
| "prim_ID TypeFloat16 = 14"
| "prim_ID TypeFloat32 = 15"
| "prim_ID TypeFloat64 = 16"
| "prim_ID TypeBool = 23"
| "prim_ID TypeBytes = 24"
| "prim_ID TypeString = 25"
| "prim_ID TypeIP = 26"
| "prim_ID TypeNet = 27"
| "prim_ID TypeType = 28"
| "prim_ID TypeNull = 29"

definition IDTypeComplex :: nat where
  "IDTypeComplex = 30"

definition LookupPrimitive :: "gostring \<Rightarrow> prim option" where
  "LookupPrimitive name =
     (if name = str ''uint8'' then Some TypeUint8
      else if name = str ''uint16'' then Some TypeUint16
      else if name = str ''uint32'' then Some TypeUint32
      else if name = str ''uint64'' then Some TypeUint64
      else if name = str ''int8'' then Some TypeInt8
      else if name = str ''int16'' then Some TypeInt16
      else if name = str ''int32'' then Some TypeInt32
      else if name = str ''int64'' then Some TypeInt64
      else if name = str ''duration'' then Some TypeDuration
      else if name = str ''time'' then Some TypeTime
      else if name = str ''float16'' then Some TypeFloat16
      else if name = str ''float32'' then Some TypeFloat32
      else if name = str ''float64'' then Some TypeFloat64
      else if name = str ''bool'' then Some TypeBool
      else if name = str ''bytes'' then Some TypeBytes
      else if name = str ''string'' then Some TypeString
      else if name = str ''ip'' then Some TypeIP
      else if name = str ''net'' then Some TypeNet
      else if name = str ''type'' then Some TypeType
      else if name = str ''null'' then Some TypeNull
      else None)"

fun PrimitiveName :: "prim \<Rightarrow> gostring" where
  "PrimitiveName TypeUint8 = str ''uint8''"
| "PrimitiveName TypeUint16 = str ''uint16''"
| "PrimitiveName TypeUint32 = str ''uint32''"
| "PrimitiveName TypeUint64 = str ''uint64''"
| "PrimitiveName TypeInt8 = str ''int8''"
| "PrimitiveName TypeInt16 = str ''int16''"
| "PrimitiveName TypeInt32 = str ''int32''"
| "PrimitiveName TypeInt64 = str ''int64''"
| "PrimitiveName TypeDuration = str ''duration''"
| "PrimitiveName TypeTime = str ''time''"
| "PrimitiveName TypeFloat16 = str ''float16''"
| "PrimitiveName TypeFloat32 = str ''float32''"
| "PrimitiveName TypeFloat64 = str ''float64''"
| "PrimitiveName TypeBool = str ''bool''"
| "PrimitiveName TypeBytes = str ''bytes''"
| "PrimitiveName TypeString = str ''string''"
| "PrimitiveName TypeIP = str ''ip''"
| "PrimitiveName TypeNet = str ''net''"
| "PrimitiveName TypeType = str ''type''"
| "PrimitiveName TypeNull = str ''null''"

definition LookupPrimitiveByID :: "int \<Rightarrow> prim go" where
  "LookupPrimitiveByID i =
     (if i < 0 then Err (Errorf ''negative type ID'')
      else if i \<ge> 30 then Err (Errorf ''type ID too large for primitive'')
      else if i = 23 then Ok TypeBool
      else if i = 6 then Ok TypeInt8
      else if i = 0 then Ok TypeUint8
      else if i = 7 then Ok TypeInt16
      else if i = 1 then Ok TypeUint16
      else if i = 8 then Ok TypeInt32
      else if i = 2 then Ok TypeUint32
      else if i = 9 then Ok TypeInt64
      else if i = 3 then Ok TypeUint64
      else if i = 14 then Ok TypeFloat16
      else if i = 15 then Ok TypeFloat32
      else if i = 16 then Ok TypeFloat64
      else if i = 24 then Ok TypeBytes
      else if i = 25 then Ok TypeString
      else if i = 26 then Ok TypeIP
      else if i = 27 then Ok TypeNet
      else if i = 13 then Ok TypeTime
      else if i = 12 then Ok TypeDuration
      else if i = 28 then Ok TypeType
      else if i = 29 then Ok TypeNull
      else Err (Errorf ''primitive type ID not implemented''))"

definition IsInteger :: "nat \<Rightarrow> bool" where "IsInteger i \<longleftrightarrow> i \<le> 11"
definition IsNumber :: "nat \<Rightarrow> bool" where "IsNumber i \<longleftrightarrow> i \<le> 22"
definition IsFloat :: "nat \<Rightarrow> bool" where "IsFloat i \<longleftrightarrow> 14 \<le> i \<and> i \<le> 18"
definition IsSigned :: "nat \<Rightarrow> bool" where "IsSigned i \<longleftrightarrow> 6 \<le> i \<and> i \<le> 13"
definition IsUnsigned :: "nat \<Rightarrow> bool" where "IsUnsigned i \<longleftrightarrow> i \<le> 5"

section \<open>Types\<close>

datatype ztype =
    TypePrimitive prim
  | TypeRecord nat "(gostring \<times> ztype) list"
  | TypeArray nat ztype
  | TypeSet nat ztype
  | TypeMap nat ztype ztype
  | TypeUnion nat "ztype list"
  | TypeEnum nat "gostring list"
  | TypeError nat ztype
  | TypeNamed nat gostring ztype

datatype kind =
  PrimitiveKind | RecordKind | ArrayKind | SetKind | MapKind | UnionKind | EnumKind | ErrorKind

fun kind_iota :: "kind \<Rightarrow> int" where
  "kind_iota PrimitiveKind = 0"
| "kind_iota RecordKind = 1"
| "kind_iota ArrayKind = 2"
| "kind_iota SetKind = 3"
| "kind_iota MapKind = 4"
| "kind_iota UnionKind = 5"
| "kind_iota EnumKind = 6"
| "kind_iota ErrorKind = 7"

fun Kind :: "ztype \<Rightarrow> kind" where
  "Kind (TypePrimitive p) = PrimitiveKind"
| "Kind (TypeRecord i fs) = RecordKind"
| "Kind (TypeArray i t) = ArrayKind"
| "Kind (TypeSet i t) = SetKind"
| "Kind (TypeMap i k v) = MapKind"
| "Kind (TypeUnion i ts) = UnionKind"
| "Kind (TypeEnum i ss) = EnumKind"
| "Kind (TypeError i t) = ErrorKind"
| "Kind (TypeNamed i n t) = Kind t"

text \<open>The \<open>ID\<close> method: for a named type, the ID of the underlying type.\<close>

fun ID :: "ztype \<Rightarrow> nat" where
  "ID (TypePrimitive p) = prim_ID p"
| "ID (TypeRecord i fs) = i"
| "ID (TypeArray i t) = i"
| "ID (TypeSet i t) = i"
| "ID (TypeMap i k v) = i"
| "ID (TypeUnion i ts) = i"
| "ID (TypeEnum i ss) = i"
| "ID (TypeError i t) = i"
| "ID (TypeNamed i n t) = ID t"

definition TypeID :: "ztype \<Rightarrow> nat" where
  "TypeID typ = (case typ of TypeNamed i n t \<Rightarrow> i | _ \<Rightarrow> ID typ)"

fun TypeUnder :: "ztype \<Rightarrow> ztype" where
  "TypeUnder (TypeNamed i n t) = TypeUnder t"
| "TypeUnder t = t"

definition InnerType :: "ztype \<Rightarrow> ztype option" where
  "InnerType typ =
     (case TypeUnder typ of TypeSet i t \<Rightarrow> Some t | TypeArray i t \<Rightarrow> Some t | _ \<Rightarrow> None)"

definition IsUnionType :: "ztype \<Rightarrow> bool" where
  "IsUnionType typ = (case TypeUnder typ of TypeUnion _ _ \<Rightarrow> True | _ \<Rightarrow> False)"

definition IsRecordType :: "ztype \<Rightarrow> bool" where
  "IsRecordType typ = (case TypeUnder typ of TypeRecord _ _ \<Rightarrow> True | _ \<Rightarrow> False)"

fun IsContainerType :: "ztype \<Rightarrow> bool" where
  "IsContainerType (TypeNamed i n t) = IsContainerType t"
| "IsContainerType (TypeSet i t) = True"
| "IsContainerType (TypeArray i t) = True"
| "IsContainerType (TypeRecord i fs) = True"
| "IsContainerType (TypeUnion i ts) = True"
| "IsContainerType (TypeMap i k v) = True"
| "IsContainerType _ = False"

section \<open>The type order\<close>

definition go_cmp :: "'a::linorder \<Rightarrow> 'a \<Rightarrow> int" where
  "go_cmp a b = (if a < b then -1 else if a > b then 1 else 0)"

text \<open>\<open>strings.Compare\<close> and \<open>bytes.Compare\<close>: lexicographic by byte.\<close>

fun strings_Compare :: "gostring \<Rightarrow> gostring \<Rightarrow> int" where
  "strings_Compare [] [] = 0"
| "strings_Compare [] (b # bs) = -1"
| "strings_Compare (a # as) [] = 1"
| "strings_Compare (a # as) (b # bs) =
     (if a < b then -1 else if b < a then 1 else strings_Compare as bs)"

text \<open>The loops of \<open>CompareTypes\<close> return at the first comparison that is not zero.\<close>

fun first_nonzero :: "int list \<Rightarrow> int" where
  "first_nonzero [] = 0"
| "first_nonzero (c # cs) = (if c \<noteq> 0 then c else first_nonzero cs)"

lemma size_TypeUnder: "size (TypeUnder t) \<le> size t"
  by (induction t rule: TypeUnder.induct) auto

lemma size_field_less: "f \<in> set fs \<Longrightarrow> size (snd f) < size (TypeRecord i fs)"
  by (induction fs) (auto simp: size_prod_def prod.size_neq split: prod.splits)

lemma size_union_less: "t \<in> set ts \<Longrightarrow> size t < size (TypeUnion i ts)"
  by (induction ts) auto

text \<open>Components of the underlying type are smaller than the type.\<close>

lemma under_smaller:
  "TypeUnder a = TypeRecord i fs \<Longrightarrow> f \<in> set fs \<Longrightarrow> size (snd f) < size a"
  "TypeUnder a = TypeArray i t \<Longrightarrow> size t < size a"
  "TypeUnder a = TypeSet i t \<Longrightarrow> size t < size a"
  "TypeUnder a = TypeError i t \<Longrightarrow> size t < size a"
  "TypeUnder a = TypeMap i k v \<Longrightarrow> size k < size a"
  "TypeUnder a = TypeMap i k v \<Longrightarrow> size v < size a"
  "TypeUnder a = TypeUnion i ts \<Longrightarrow> x \<in> set ts \<Longrightarrow> size x < size a"
  using size_TypeUnder [of a] size_field_less [of f fs i] size_union_less [of x ts i] by auto

function CompareTypes :: "ztype \<Rightarrow> ztype \<Rightarrow> int" where
  "CompareTypes a b =
     (if ID a = ID b then
        (case a of
           TypeNamed _ an _ \<Rightarrow>
             (case b of TypeNamed _ bn _ \<Rightarrow> strings_Compare an bn | _ \<Rightarrow> 1)
         | _ \<Rightarrow> (case b of TypeNamed _ _ _ \<Rightarrow> -1 | _ \<Rightarrow> 0))
      else if go_cmp (kind_iota (Kind a)) (kind_iota (Kind b)) \<noteq> 0
      then go_cmp (kind_iota (Kind a)) (kind_iota (Kind b))
      else case (TypeUnder a, TypeUnder b) of
        (TypePrimitive _, TypePrimitive _) \<Rightarrow> go_cmp (ID a) (ID b)
      | (TypeRecord _ fa, TypeRecord _ fb) \<Rightarrow>
          (if go_cmp (length fa) (length fb) \<noteq> 0 then go_cmp (length fa) (length fb)
           else if first_nonzero (map (\<lambda>(f, g). strings_Compare (fst f) (fst g)) (zip fa fb)) \<noteq> 0
           then first_nonzero (map (\<lambda>(f, g). strings_Compare (fst f) (fst g)) (zip fa fb))
           else first_nonzero (map (\<lambda>(f, g). CompareTypes (snd f) (snd g)) (zip fa fb)))
      | (TypeArray _ ta, TypeArray _ tb) \<Rightarrow> CompareTypes ta tb
      | (TypeSet _ ta, TypeSet _ tb) \<Rightarrow> CompareTypes ta tb
      | (TypeMap _ ka va, TypeMap _ kb vb) \<Rightarrow>
          (if CompareTypes ka kb \<noteq> 0 then CompareTypes ka kb else CompareTypes va vb)
      | (TypeUnion _ tas, TypeUnion _ tbs) \<Rightarrow>
          (if go_cmp (length tas) (length tbs) \<noteq> 0 then go_cmp (length tas) (length tbs)
           else first_nonzero (map (\<lambda>(x, y). CompareTypes x y) (zip tas tbs)))
      | (TypeEnum _ sa, TypeEnum _ sb) \<Rightarrow>
          (if go_cmp (length sa) (length sb) \<noteq> 0 then go_cmp (length sa) (length sb)
           else first_nonzero (map (\<lambda>(x, y). strings_Compare x y) (zip sa sb)))
      | (TypeError _ ta, TypeError _ tb) \<Rightarrow> CompareTypes ta tb
      | _ \<Rightarrow> 0)"
  by pat_completeness auto
termination
  by (relation "measure (\<lambda>(a, _). size a)")
     (auto dest!: set_zip_leftD dest: under_smaller [OF sym])

declare CompareTypes.simps [simp del]

section \<open>Stable sorting (sort.SliceStable)\<close>

text \<open>
  Elements are taken from left to right and moved left past every element they are less
  than; \<open>acc\<close> is the sorted prefix, last element first.
\<close>

fun insert_left :: "('a \<Rightarrow> 'a \<Rightarrow> bool) \<Rightarrow> 'a \<Rightarrow> 'a list \<Rightarrow> 'a list" where
  "insert_left lt x [] = [x]"
| "insert_left lt x (y # ys) = (if lt x y then y # insert_left lt x ys else x # y # ys)"

fun sort_loop :: "('a \<Rightarrow> 'a \<Rightarrow> bool) \<Rightarrow> 'a list \<Rightarrow> 'a list \<Rightarrow> 'a list" where
  "sort_loop lt acc [] = rev acc"
| "sort_loop lt acc (x # xs) = sort_loop lt (insert_left lt x acc) xs"

definition SliceStable :: "('a \<Rightarrow> 'a \<Rightarrow> bool) \<Rightarrow> 'a list \<Rightarrow> 'a list" where
  "SliceStable lt xs = sort_loop lt [] xs"

abbreviation ordered :: "('a \<Rightarrow> 'a \<Rightarrow> bool) \<Rightarrow> 'a list \<Rightarrow> bool" where
  "ordered lt \<equiv> successively (\<lambda>x y. \<not> lt y x)"

lemma set_insert_left [simp]: "set (insert_left lt x ys) = insert x (set ys)"
  by (induction ys) auto

lemma length_insert_left [simp]: "length (insert_left lt x ys) = Suc (length ys)"
  by (induction ys) auto

lemma mset_insert_left: "mset (insert_left lt x ys) = add_mset x (mset ys)"
  by (induction ys) auto

lemma mset_sort_loop: "mset (sort_loop lt acc xs) = mset acc + mset xs"
  by (induction xs arbitrary: acc) (auto simp: mset_insert_left)

lemma mset_SliceStable [simp]: "mset (SliceStable lt xs) = mset xs"
  by (simp add: SliceStable_def mset_sort_loop)

lemma set_SliceStable [simp]: "set (SliceStable lt xs) = set xs"
  by (metis mset_SliceStable set_mset_mset)

lemma length_SliceStable [simp]: "length (SliceStable lt xs) = length xs"
  by (metis mset_SliceStable size_mset)

lemma successively_insert_left:
  assumes "\<And>x y. lt x y \<Longrightarrow> \<not> lt y x"
  shows "successively (\<lambda>x y. \<not> lt x y) ys \<Longrightarrow> successively (\<lambda>x y. \<not> lt x y) (insert_left lt x ys)"
proof (induction ys)
  case (Cons y ys)
  then show ?case using assms by (cases ys) auto
qed simp

lemma sort_loop_ordered:
  assumes "\<And>x y. lt x y \<Longrightarrow> \<not> lt y x"
  shows "successively (\<lambda>x y. \<not> lt x y) acc \<Longrightarrow> ordered lt (sort_loop lt acc xs)"
proof (induction xs arbitrary: acc)
  case (Cons x xs)
  then show ?case using successively_insert_left [of lt acc x] assms by simp
qed simp

lemma SliceStable_ordered:
  assumes "\<And>x y. lt x y \<Longrightarrow> \<not> lt y x"
  shows "ordered lt (SliceStable lt xs)"
  using sort_loop_ordered [of lt "[]" xs] assms by (simp add: SliceStable_def)

lemma sort_loop_id: "ordered lt (rev acc @ xs) \<Longrightarrow> sort_loop lt acc xs = rev acc @ xs"
proof (induction xs arbitrary: acc)
  case (Cons x xs)
  have "insert_left lt x acc = x # acc"
    using Cons.prems by (cases acc) (auto simp: successively_append_iff)
  with Cons show ?case by simp
qed simp

lemma SliceStable_id: "ordered lt xs \<Longrightarrow> SliceStable lt xs = xs"
  using sort_loop_id [of lt "[]" xs] by (simp add: SliceStable_def)

text \<open>Sorting keys by the values they name sorts the values; only the elements are compared.\<close>

lemma map_insert_left:
  "(\<And>y. y \<in> set ys \<Longrightarrow> lt x y \<longleftrightarrow> lt' (f x) (f y)) \<Longrightarrow> map f (insert_left lt x ys) = insert_left lt' (f x) (map f ys)"
  by (induction ys) auto

lemma map_sort_loop:
  "(\<And>x y. x \<in> set acc \<union> set xs \<Longrightarrow> y \<in> set acc \<union> set xs \<Longrightarrow> lt x y \<longleftrightarrow> lt' (f x) (f y)) \<Longrightarrow>
   map f (sort_loop lt acc xs) = sort_loop lt' (map f acc) (map f xs)"
proof (induction xs arbitrary: acc)
  case (Cons x xs)
  have "map f (insert_left lt x acc) = insert_left lt' (f x) (map f acc)"
    by (rule map_insert_left) (use Cons.prems in auto)
  moreover have "map f (sort_loop lt (insert_left lt x acc) xs) = sort_loop lt' (map f (insert_left lt x acc)) (map f xs)"
    by (rule Cons.IH) (use Cons.prems in auto)
  ultimately show ?case by simp
qed (simp add: rev_map)

lemma map_SliceStable:
  "(\<And>x y. x \<in> set xs \<Longrightarrow> y \<in> set xs \<Longrightarrow> lt x y \<longleftrightarrow> lt' (f x) (f y)) \<Longrightarrow>
   map f (SliceStable lt xs) = SliceStable lt' (map f xs)"
  using map_sort_loop [of "[]" xs lt lt' f] by (simp add: SliceStable_def)

lemma SliceStable_ordered_on:
  assumes "\<And>x y. x \<in> set xs \<Longrightarrow> y \<in> set xs \<Longrightarrow> lt x y \<Longrightarrow> \<not> lt y x"
  shows "ordered lt (SliceStable lt xs)"
proof -
  let ?lt = "\<lambda>x y. lt x y \<and> x \<in> set xs \<and> y \<in> set xs"
  have eq: "SliceStable lt xs = SliceStable ?lt xs"
    using map_SliceStable [of xs lt ?lt "\<lambda>x. x"] by simp
  have "ordered ?lt (SliceStable ?lt xs)"
    by (rule SliceStable_ordered) (use assms in blast)
  then have "ordered lt (SliceStable ?lt xs)"
    by (rule successively_mono) (use set_SliceStable [of ?lt xs] in auto)
  then show ?thesis using eq by simp
qed

section \<open>UniqueTypes\<close>

fun dedup :: "ztype option \<Rightarrow> ztype list \<Rightarrow> ztype list" where
  "dedup prev [] = []"
| "dedup prev (t # ts) = (if Some t \<noteq> prev then t # dedup (Some t) ts else dedup prev ts)"

definition UniqueTypes :: "ztype list \<Rightarrow> ztype list" where
  "UniqueTypes types = dedup None (SliceStable (\<lambda>a b. CompareTypes a b < 0) types)"

section \<open>Facts about comparisons\<close>

lemma go_cmp_antisym: "go_cmp b a = - go_cmp a b"
  by (auto simp: go_cmp_def)

lemma go_cmp_0 [simp]: "go_cmp a b = 0 \<longleftrightarrow> a = b"
  by (auto simp: go_cmp_def)

lemma strings_Compare_antisym: "strings_Compare b a = - strings_Compare a b"
  by (induction a b rule: strings_Compare.induct) auto

lemma strings_Compare_0 [simp]: "strings_Compare a b = 0 \<longleftrightarrow> a = b"
  by (induction a b rule: strings_Compare.induct) auto

lemma first_nonzero_uminus: "first_nonzero (map uminus cs) = - first_nonzero cs"
  by (induction cs) auto

lemma first_nonzero_0: "first_nonzero cs = 0 \<longleftrightarrow> (\<forall>c \<in> set cs. c = 0)"
  by (induction cs) auto

lemma first_nonzero_swap:
  assumes "\<And>x y. (x, y) \<in> set (zip xs ys) \<Longrightarrow> f y x = - f x y"
  shows "first_nonzero (map (\<lambda>(x, y). f x y) (zip ys xs)) = - first_nonzero (map (\<lambda>(x, y). f x y) (zip xs ys))"
proof -
  have "map (\<lambda>(x, y). f x y) (zip ys xs) = map (\<lambda>(x, y). f y x) (zip xs ys)"
    by (subst zip_commute) (simp add: case_prod_unfold)
  also have "\<dots> = map uminus (map (\<lambda>(x, y). f x y) (zip xs ys))"
    using assms by auto
  finally show ?thesis by (simp only: first_nonzero_uminus)
qed

lemma Kind_TypeUnder [simp]: "Kind (TypeUnder t) = Kind t"
  by (induction t rule: TypeUnder.induct) auto

lemma TypeUnder_idem [simp]: "TypeUnder (TypeUnder t) = TypeUnder t"
  by (induction t rule: TypeUnder.induct) auto

lemma ID_TypeUnder [simp]: "ID (TypeUnder t) = ID t"
  by (induction t rule: TypeUnder.induct) auto

lemma TypeUnder_not_Named [simp]: "TypeUnder t \<noteq> TypeNamed i n s"
  by (induction t rule: TypeUnder.induct) auto

lemma kind_iota_inj [simp]: "kind_iota k = kind_iota k' \<longleftrightarrow> k = k'"
  by (cases k; cases k') simp_all

lemma Kind_inv:
  "Kind (TypePrimitive p) = Kind t \<Longrightarrow> \<exists>q. TypeUnder t = TypePrimitive q"
  "Kind (TypeRecord i fs) = Kind t \<Longrightarrow> \<exists>j gs. TypeUnder t = TypeRecord j gs"
  "Kind (TypeArray i x) = Kind t \<Longrightarrow> \<exists>j y. TypeUnder t = TypeArray j y"
  "Kind (TypeSet i x) = Kind t \<Longrightarrow> \<exists>j y. TypeUnder t = TypeSet j y"
  "Kind (TypeMap i x y) = Kind t \<Longrightarrow> \<exists>j x' y'. TypeUnder t = TypeMap j x' y'"
  "Kind (TypeUnion i ts) = Kind t \<Longrightarrow> \<exists>j us. TypeUnder t = TypeUnion j us"
  "Kind (TypeEnum i ss) = Kind t \<Longrightarrow> \<exists>j ss'. TypeUnder t = TypeEnum j ss'"
  "Kind (TypeError i x) = Kind t \<Longrightarrow> \<exists>j y. TypeUnder t = TypeError j y"
  by (induction t rule: TypeUnder.induct) auto

text \<open>Swapping the operands flips the sign, so \<open>CompareTypes(a, b) < 0\<close> is asymmetric.\<close>

lemma CompareTypes_antisym: "CompareTypes b a = - CompareTypes a b"
proof (induction a b rule: CompareTypes.induct)
  case (1 a b)
  consider (same) "ID a = ID b" | (kind) "ID a \<noteq> ID b" "Kind a \<noteq> Kind b"
    | (deep) "ID a \<noteq> ID b" "Kind a = Kind b" by blast
  then show ?case
  proof cases
    case same
    then show ?thesis
      by (auto simp: CompareTypes.simps [of a b] CompareTypes.simps [of b a]
          intro: strings_Compare_antisym split: ztype.split)
  next
    case kind
    then show ?thesis
      by (simp add: CompareTypes.simps [of a b] CompareTypes.simps [of b a] go_cmp_antisym [of "kind_iota (Kind b)" "kind_iota (Kind a)"])
  next
    case deep
    note c = CompareTypes.simps [of a b] CompareTypes.simps [of b a]
    have k: "Kind (TypeUnder a) = Kind b" using deep by simp
    show ?thesis
    proof (cases "TypeUnder a")
      case (TypePrimitive p)
      with deep Kind_inv(1) [of p b] k show ?thesis
        by (auto simp: c go_cmp_antisym [of "ID b" "ID a"])
    next
      case (TypeRecord i fs)
      with deep Kind_inv(2) [of i fs b] k obtain j gs where b: "TypeUnder b = TypeRecord j gs" by auto
      have sw: "first_nonzero (map (\<lambda>(f, g). strings_Compare (fst f) (fst g)) (zip gs fs)) =
        - first_nonzero (map (\<lambda>(f, g). strings_Compare (fst f) (fst g)) (zip fs gs))"
        by (rule first_nonzero_swap) (rule strings_Compare_antisym)
      show ?thesis
      proof (cases "length fs = length gs \<and>
          first_nonzero (map (\<lambda>(f, g). strings_Compare (fst f) (fst g)) (zip fs gs)) = 0")
        case True
        have "first_nonzero (map (\<lambda>(f, g). CompareTypes (snd f) (snd g)) (zip gs fs)) =
          - first_nonzero (map (\<lambda>(f, g). CompareTypes (snd f) (snd g)) (zip fs gs))"
          by (rule first_nonzero_swap) (use "1.IH"(1) deep TypeRecord b True in fastforce)
        with True deep TypeRecord b sw show ?thesis by (simp add: c)
      next
        case False
        with deep TypeRecord b sw show ?thesis
          by (auto simp: c go_cmp_antisym [of "length gs" "length fs"])
      qed
    next
      case (TypeArray i x)
      with deep Kind_inv(3) [of i x b] k "1.IH"(2) show ?thesis by (auto simp: c)
    next
      case (TypeSet i x)
      with deep Kind_inv(4) [of i x b] k "1.IH"(3) show ?thesis by (auto simp: c)
    next
      case (TypeMap i x y)
      with deep Kind_inv(5) [of i x y b] k "1.IH"(4-6) show ?thesis by (auto simp: c)
    next
      case (TypeUnion i ts)
      with deep Kind_inv(6) [of i ts b] k obtain j us where b: "TypeUnder b = TypeUnion j us" by auto
      have "length ts = length us \<Longrightarrow> first_nonzero (map (\<lambda>(x, y). CompareTypes x y) (zip us ts)) =
          - first_nonzero (map (\<lambda>(x, y). CompareTypes x y) (zip ts us))"
        by (rule first_nonzero_swap) (use "1.IH"(7) deep TypeUnion b in fastforce)
      with deep TypeUnion b show ?thesis
        by (auto simp: c go_cmp_antisym [of "length us" "length ts"])
    next
      case (TypeEnum i ss)
      with deep Kind_inv(7) [of i ss b] k obtain j us where b: "TypeUnder b = TypeEnum j us" by auto
      have "first_nonzero (map (\<lambda>(x, y). strings_Compare x y) (zip us ss)) =
          - first_nonzero (map (\<lambda>(x, y). strings_Compare x y) (zip ss us))"
        by (rule first_nonzero_swap) (rule strings_Compare_antisym)
      with deep TypeEnum b show ?thesis
        by (auto simp: c go_cmp_antisym [of "length us" "length ss"])
    next
      case (TypeError i x)
      with deep Kind_inv(8) [of i x b] k "1.IH"(8) show ?thesis by (auto simp: c)
    next
      case (TypeNamed i n x)
      then show ?thesis by simp
    qed
  qed
qed

end
