(* ===== verification/Zcode.thy ===== *)
theory Zcode
  imports Prelude
begin

text \<open>
  The zcode package: tagged values (\<open>bytes.go\<close>), the iterator over them (\<open>iter.go\<close>), the
  nested-value builder (\<open>builder.go\<close>) and the counted-length integers (\<open>counted.go\<close>),
  together with the varint codec of Go's \<open>encoding/binary\<close> that they use.
\<close>

section \<open>Varints of encoding/binary\<close>

function appendUvarint :: "bytes \<Rightarrow> u64 \<Rightarrow> bytes" where
  "appendUvarint dst x =
     (if 0x80 \<le> x then appendUvarint (dst @ [ucast x OR 0x80]) (drop_bit 7 x)
      else dst @ [ucast x])"
  by pat_completeness auto
termination
proof (relation "measure (\<lambda>(_, x). unat x)", simp)
  fix dst :: bytes and x :: u64
  assume "0x80 \<le> x"
  then have "0x80 \<le> unat x" by (simp add: word_le_nat_alt)
  then show "((dst @ [ucast x OR 0x80], drop_bit 7 x), (dst, x)) \<in> measure (\<lambda>(_, x). unat x)"
    by (simp add: unat_drop_bit_u64)
qed

declare appendUvarint.simps [simp del]

text \<open>
  \<open>binary.Uvarint\<close>: the value and the number of bytes read; a count of zero or less reports
  a buffer that is too small or a value that overflows 64 bits.
\<close>

fun uvarint_loop :: "nat \<Rightarrow> u64 \<Rightarrow> bytes \<Rightarrow> u64 \<times> int" where
  "uvarint_loop i x [] = (0, 0)"
| "uvarint_loop i x (b # bs) =
     (if i = 10 then (0, - (int i + 1))
      else if b < 0x80 then
        (if i = 9 \<and> b > 1 then (0, - (int i + 1))
         else (x OR push_bit (7 * i) (ucast b), int i + 1))
      else uvarint_loop (Suc i) (x OR push_bit (7 * i) (ucast (b AND 0x7f))) bs)"

definition uvarint :: "bytes \<Rightarrow> u64 \<times> int" where
  "uvarint b = uvarint_loop 0 0 b"

section \<open>Tagged values (zcode/bytes.go)\<close>

function SizeOfUvarint_loop :: "nat \<Rightarrow> u64 \<Rightarrow> nat" where
  "SizeOfUvarint_loop n u = (if 0x80 \<le> u then SizeOfUvarint_loop (n + 1) (drop_bit 7 u) else n)"
  by pat_completeness auto
termination
proof (relation "measure (\<lambda>(_, x). unat x)", simp)
  fix n :: nat and x :: u64
  assume "0x80 \<le> x"
  then have "0x80 \<le> unat x" by (simp add: word_le_nat_alt)
  then show "((n + 1, drop_bit 7 x), (n, x)) \<in> measure (\<lambda>(_, x). unat x)"
    by (simp add: unat_drop_bit_u64)
qed

declare SizeOfUvarint_loop.simps [simp del]

definition SizeOfUvarint :: "u64 \<Rightarrow> nat" where
  "SizeOfUvarint u = SizeOfUvarint_loop 1 u"

definition toTag :: "nat \<Rightarrow> u64" where
  "toTag n = of_nat n + 1"

definition tagNull :: u64 where
  "tagNull = 0"

definition tagIsNull :: "u64 \<Rightarrow> bool" where
  "tagIsNull t \<longleftrightarrow> t = tagNull"

definition tagLength :: "u64 \<Rightarrow> int go" where
  "tagLength t = (if t = tagNull then Panic else Ok (sint (t - 1)))"

definition Append :: "bytes \<Rightarrow> zbytes \<Rightarrow> bytes" where
  "Append dst val =
     (case val of
        None \<Rightarrow> appendUvarint dst tagNull
      | Some v \<Rightarrow> appendUvarint dst (toTag (length v)) @ v)"

definition DecodeTagLength :: "bytes \<Rightarrow> int go" where
  "DecodeTagLength b =
     (let (u, n) = uvarint b in
      if n \<le> 0 then Panic
      else if tagIsNull u then Ok n
      else Ok (wrap64 (wrap64 (sint u + n) - 1)))"

section \<open>The iterator (zcode/iter.go)\<close>

definition Iter_Done :: "bytes \<Rightarrow> bool" where
  "Iter_Done it \<longleftrightarrow> length it = 0"

definition Iter_Next :: "bytes \<Rightarrow> (zbytes \<times> bytes) go" where
  "Iter_Next it =
     (let (u, n) = uvarint it in
      if n \<le> 0 then Panic
      else if tagIsNull u then bindR (go_slice it n (int (length it))) (\<lambda>rest. Ok (None, rest))
      else bindR (tagLength u) (\<lambda>len.
           let end' = wrap64 (n + len) in
           bindR (go_slice it n end') (\<lambda>val.
           bindR (go_slice it end' (int (length it))) (\<lambda>rest. Ok (Some val, rest)))))"

definition Iter_NextTagAndBody :: "bytes \<Rightarrow> (bytes \<times> bytes) go" where
  "Iter_NextTagAndBody it =
     (let (u, n) = uvarint it in
      if n \<le> 0 then Panic
      else bindR (if tagIsNull u then Ok n else bindR (tagLength u) (\<lambda>len. Ok (wrap64 (n + len))))
             (\<lambda>n'. bindR (go_slice it 0 n') (\<lambda>val.
                   bindR (go_slice it n' (int (length it))) (\<lambda>rest. Ok (val, rest)))))"

definition Bytes_Body :: "bytes \<Rightarrow> zbytes go" where
  "Bytes_Body b = bindR (Iter_Next b) (\<lambda>(val, _). Ok val)"

section \<open>Varint lemmas\<close>

lemma drop_bit_7_less: "(0x80 :: u64) \<le> x \<Longrightarrow> unat (drop_bit 7 x) < unat x"
  by (simp add: unat_drop_bit_u64 word_le_nat_alt)

lemma appendUvarint_append: "appendUvarint dst x = dst @ appendUvarint [] x"
proof (induction x arbitrary: dst rule: measure_induct_rule [of unat])
  case (less x)
  show ?case
  proof (cases "0x80 \<le> x")
    case True
    note IH = less [OF drop_bit_7_less [OF True]]
    show ?thesis
      using IH [of "dst @ [ucast x OR 0x80]"] IH [of "[ucast x OR 0x80]"] True
      by (simp add: appendUvarint.simps [of dst x] appendUvarint.simps [of "[]" x])
  next
    case False
    then show ?thesis by (simp add: appendUvarint.simps [of dst x] appendUvarint.simps [of "[]" x])
  qed
qed

lemma appendUvarint_small: "\<not> 0x80 \<le> x \<Longrightarrow> appendUvarint [] x = [ucast x]"
  by (simp add: appendUvarint.simps [of "[]" x])

lemma appendUvarint_big:
  "0x80 \<le> x \<Longrightarrow> appendUvarint [] x = (ucast x OR 0x80) # appendUvarint [] (drop_bit 7 x)"
  using appendUvarint_append [of "[ucast x OR 0x80]" "drop_bit 7 x"]
  by (simp add: appendUvarint.simps [of "[]" x])

lemma appendUvarint_neq_Nil [simp]: "appendUvarint dst x \<noteq> []"
  by (cases "0x80 \<le> x") (simp_all add: appendUvarint_append [of dst] appendUvarint_small appendUvarint_big)

lemma appendUvarint_0 [simp]: "appendUvarint dst 0 = dst @ [0]"
  by (simp add: appendUvarint_append [of dst] appendUvarint_small)

lemma SizeOfUvarint_loop_eq:
  "SizeOfUvarint_loop n x + 1 = n + length (appendUvarint [] x)"
proof (induction x arbitrary: n rule: measure_induct_rule [of unat])
  case (less x)
  show ?case
  proof (cases "0x80 \<le> x")
    case True
    then show ?thesis
      using less [OF drop_bit_7_less [OF True], of "n + 1"]
      by (simp add: SizeOfUvarint_loop.simps [of n x] appendUvarint_big)
  next
    case False
    then show ?thesis by (simp add: SizeOfUvarint_loop.simps [of n x] appendUvarint_small)
  qed
qed

lemma SizeOfUvarint_length: "SizeOfUvarint x = length (appendUvarint [] x)"
  using SizeOfUvarint_loop_eq [of 1 x] by (simp add: SizeOfUvarint_def)

lemma uvarint_loop_appendUvarint:
  "i \<le> 9 \<Longrightarrow> unat y < 2 ^ (64 - 7 * i) \<Longrightarrow>
   uvarint_loop i x (appendUvarint [] y @ rest)
     = (x OR push_bit (7 * i) y, int (i + length (appendUvarint [] y)))"
proof (induction y arbitrary: i x rule: measure_induct_rule [of unat])
  case (less y)
  show ?case
  proof (cases "0x80 \<le> y")
    case True
    then have ge: "128 \<le> unat y" by (simp add: word_le_nat_alt)
    with less.prems have i: "i < 9" by (cases "i = 9") auto
    then have "64 - 7 * i = 7 + (64 - 7 * Suc i)" by simp
    then have "(2::nat) ^ (64 - 7 * i) = 128 * 2 ^ (64 - 7 * Suc i)"
      by (simp only: power_add) simp
    with less.prems(2) have "unat (drop_bit 7 y) < 2 ^ (64 - 7 * Suc i)"
      by (simp add: unat_drop_bit_u64)
    with i less.IH [OF drop_bit_7_less [OF True], of "Suc i"] True show ?thesis
      using varint_chunk [of x "7 * i" y] by (simp add: appendUvarint_big byte_tag_ge or.assoc add.commute)
  next
    case False
    have "\<not> (i = 9 \<and> (ucast y :: byte) > 1)"
    proof
      assume A: "i = 9 \<and> (ucast y :: byte) > 1"
      with less.prems(2) have "unat y < 2" by simp
      with A show False
        by (simp add: word_less_nat_alt unsigned_ucast_eq take_bit_nat_eq_self)
    qed
    with False less.prems(1) show ?thesis
      by (simp add: appendUvarint_small ucast_lt ucast_small_byte)
  qed
qed

lemma uvarint_appendUvarint:
  "uvarint (appendUvarint [] y @ rest) = (y, int (length (appendUvarint [] y)))"
  using uvarint_loop_appendUvarint [of 0 y 0 rest] unsigned_less [of y, where 'a = nat] by (simp add: uvarint_def)

lemma uvarint_loop_bound:
  "uvarint_loop i x b = (u, n) \<Longrightarrow> n \<le> int (i + length b)"
  by (induction b arbitrary: i x) (fastforce split: if_splits)+

lemma uvarint_bound: "uvarint b = (u, n) \<Longrightarrow> n \<le> int (length b)"
  using uvarint_loop_bound [of 0 0 b u n] by (simp add: uvarint_def)

section \<open>Tagged values are read back\<close>

text \<open>A slice of a running Go program is shorter than \<open>2 ^ 62\<close> bytes.\<close>

definition small :: "'a list \<Rightarrow> bool" where
  "small xs \<longleftrightarrow> length xs < 2 ^ 62"

lemma toTag_facts:
  assumes "small v"
  shows "toTag (length v) \<noteq> 0" "sint (toTag (length v) - 1) = int (length v)"
proof -
  have lt: "length v < 2 ^ 63" using assms by (simp add: small_def)
  have eq: "toTag (length v) = of_nat (Suc (length v))" by (simp add: toTag_def)
  have "unat (toTag (length v)) = Suc (length v)"
    unfolding eq unat_of_nat using lt by simp
  then show "toTag (length v) \<noteq> 0" by auto
  show "sint (toTag (length v) - 1) = int (length v)"
    using sint_of_nat_small [OF lt] by (simp add: toTag_def)
qed

lemma length_appendUvarint_le: "length (appendUvarint [] y) \<le> 10"
proof -
  have "length (appendUvarint [] y) \<le> 10 - i" if "i \<le> 9" "unat y < 2 ^ (64 - 7 * i)" for i
    using that
  proof (induction y arbitrary: i rule: measure_induct_rule [of unat])
    case (less y)
    show ?case
    proof (cases "0x80 \<le> y")
      case True
      then have ge: "128 \<le> unat y" by (simp add: word_le_nat_alt)
      with less.prems have i: "i < 9" by (cases "i = 9") auto
      then have "64 - 7 * i = 7 + (64 - 7 * Suc i)" by simp
      then have "(2::nat) ^ (64 - 7 * i) = 128 * 2 ^ (64 - 7 * Suc i)"
        by (simp only: power_add) simp
      with less.prems(2) have "unat (drop_bit 7 y) < 2 ^ (64 - 7 * Suc i)"
        by (simp add: unat_drop_bit_u64)
      with i less.IH [OF drop_bit_7_less [OF True], of "Suc i"] True show ?thesis
        by (simp add: appendUvarint_big)
    qed (use less.prems(1) in \<open>simp add: appendUvarint_small\<close>)
  qed
  from this [of 0] unsigned_less [of y, where 'a = nat] show ?thesis by simp
qed

lemma Append_append: "Append dst val = dst @ Append [] val"
  by (simp add: Append_def appendUvarint_append [of dst] split: option.split)

lemma Append_neq_Nil [simp]: "Append dst val \<noteq> []"
  by (simp add: Append_def split: option.split)

lemma Iter_Next_Append:
  assumes "small (buf val)"
  shows "Iter_Next (Append [] val @ rest) = Ok (val, rest)"
proof (cases val)
  case None
  then show ?thesis
    using uvarint_appendUvarint [of 0 rest]
    by (simp add: Iter_Next_def Append_def tagNull_def tagIsNull_def go_slice_def)
next
  case (Some v)
  let ?t = "appendUvarint [] (toTag (length v))"
  have sv: "small v" using assms Some by simp
  have w: "wrap64 (int (length ?t) + int (length v)) = int (length ?t + length v)"
    using sv length_appendUvarint_le [of "toTag (length v)"]
    by (simp add: wrap64_id small_def)
  have "uvarint (?t @ v @ rest) = (toTag (length v), int (length ?t))"
    by (rule uvarint_appendUvarint)
  then show ?thesis
    using Some toTag_facts [OF sv] w
    by (simp add: Iter_Next_def Append_def tagIsNull_def tagNull_def tagLength_def go_slice_def
        nat_add_distrib)
qed

lemma Iter_NextTagAndBody_Append:
  assumes "small (buf val)"
  shows "Iter_NextTagAndBody (Append [] val @ rest) = Ok (Append [] val, rest)"
proof (cases val)
  case None
  then show ?thesis
    using uvarint_appendUvarint [of 0 rest]
    by (simp add: Iter_NextTagAndBody_def Append_def tagNull_def tagIsNull_def go_slice_def)
next
  case (Some v)
  let ?t = "appendUvarint [] (toTag (length v))"
  have sv: "small v" using assms Some by simp
  have w: "wrap64 (int (length ?t) + int (length v)) = int (length ?t + length v)"
    using sv length_appendUvarint_le [of "toTag (length v)"]
    by (simp add: wrap64_id small_def)
  have "uvarint (?t @ v @ rest) = (toTag (length v), int (length ?t))"
    by (rule uvarint_appendUvarint)
  then show ?thesis
    using Some toTag_facts [OF sv] w
    by (simp add: Iter_NextTagAndBody_def Append_def tagIsNull_def tagNull_def tagLength_def
        go_slice_def nat_add_distrib)
qed

end
