(* ===== verification/TypeValue.thy ===== *)
theory TypeValue
  imports Types Zcode
begin

text \<open>
  Serialized type values (\<open>type.go\<close>, \<open>EncodeTypeValue\<close> and \<open>AppendTypeValue\<close>).  A type value
  is a preorder listing of the type in which the second use of a named type is a reference
  to its name.  The theory shows that a type value determines the structure of the type:
  the encoding is uniquely decodable.
\<close>

section \<open>The encoding\<close>

fun appendTypeValue :: "bytes \<Rightarrow> ztype \<Rightarrow> (gostring \<rightharpoonup> ztype) \<Rightarrow> bytes \<times> (gostring \<rightharpoonup> ztype)"
  and appendFields :: "bytes \<Rightarrow> (gostring \<times> ztype) list \<Rightarrow> (gostring \<rightharpoonup> ztype) \<Rightarrow> bytes \<times> (gostring \<rightharpoonup> ztype)"
  and appendTypes :: "bytes \<Rightarrow> ztype list \<Rightarrow> (gostring \<rightharpoonup> ztype) \<Rightarrow> bytes \<times> (gostring \<rightharpoonup> ztype)"
where
  "appendTypeValue b (TypeNamed i n t) td =
     (let ref = (td n = Some t);
          b1 = b @ [if ref then 38 else 37];
          b2 = appendUvarint b1 (of_nat (length n)) @ n
      in if ref then (b2, td)
         else (let (b3, td3) = appendTypeValue b2 t td in (b3, td3(n \<mapsto> t))))"
| "appendTypeValue b (TypeRecord i fs) td =
     appendFields (appendUvarint (b @ [30]) (of_nat (length fs))) fs td"
| "appendTypeValue b (TypeUnion i ts) td =
     appendTypes (appendUvarint (b @ [34]) (of_nat (length ts))) ts td"
| "appendTypeValue b (TypeSet i t) td = appendTypeValue (b @ [32]) t td"
| "appendTypeValue b (TypeArray i t) td = appendTypeValue (b @ [31]) t td"
| "appendTypeValue b (TypeEnum i ss) td =
     (foldl (\<lambda>b s. appendUvarint b (of_nat (length s)) @ s)
        (appendUvarint (b @ [35]) (of_nat (length ss))) ss, td)"
| "appendTypeValue b (TypeMap i k v) td =
     (let (b1, td1) = appendTypeValue (b @ [33]) k td in appendTypeValue b1 v td1)"
| "appendTypeValue b (TypeError i t) td = appendTypeValue (b @ [36]) t td"
| "appendTypeValue b (TypePrimitive p) td = (b @ [of_nat (prim_ID p)], td)"
| "appendFields b [] td = (b, td)"
| "appendFields b ((n, t) # fs) td =
     (let b1 = appendUvarint b (of_nat (length n)) @ n;
          (b2, td2) = appendTypeValue b1 t td
      in appendFields b2 fs td2)"
| "appendTypes b [] td = (b, td)"
| "appendTypes b (t # ts) td =
     (let (b1, td1) = appendTypeValue b t td in appendTypes b1 ts td1)"

definition AppendTypeValue :: "bytes \<Rightarrow> ztype \<Rightarrow> bytes" where
  "AppendTypeValue b t = fst (appendTypeValue b t Map.empty)"

definition EncodeTypeValue :: "ztype \<Rightarrow> bytes" where
  "EncodeTypeValue t = AppendTypeValue [] t"

section \<open>The same encoding without the accumulator\<close>

definition emitLen :: "nat \<Rightarrow> bytes" where
  "emitLen k = appendUvarint [] (of_nat k)"

definition emitName :: "gostring \<Rightarrow> bytes" where
  "emitName n = emitLen (length n) @ n"

fun emitT :: "ztype \<Rightarrow> (gostring \<rightharpoonup> ztype) \<Rightarrow> bytes \<times> (gostring \<rightharpoonup> ztype)"
  and emitFs :: "(gostring \<times> ztype) list \<Rightarrow> (gostring \<rightharpoonup> ztype) \<Rightarrow> bytes \<times> (gostring \<rightharpoonup> ztype)"
  and emitTs :: "ztype list \<Rightarrow> (gostring \<rightharpoonup> ztype) \<Rightarrow> bytes \<times> (gostring \<rightharpoonup> ztype)"
where
  "emitT (TypeNamed i n t) td =
     (if td n = Some t then (38 # emitName n, td)
      else (37 # emitName n @ fst (emitT t td), (snd (emitT t td))(n \<mapsto> t)))"
| "emitT (TypeRecord i fs) td =
     (30 # emitLen (length fs) @ fst (emitFs fs td), snd (emitFs fs td))"
| "emitT (TypeUnion i ts) td =
     (34 # emitLen (length ts) @ fst (emitTs ts td), snd (emitTs ts td))"
| "emitT (TypeSet i t) td = (32 # fst (emitT t td), snd (emitT t td))"
| "emitT (TypeArray i t) td = (31 # fst (emitT t td), snd (emitT t td))"
| "emitT (TypeEnum i ss) td = (35 # emitLen (length ss) @ concat (map emitName ss), td)"
| "emitT (TypeMap i k v) td =
     (33 # fst (emitT k td) @ fst (emitT v (snd (emitT k td))), snd (emitT v (snd (emitT k td))))"
| "emitT (TypeError i t) td = (36 # fst (emitT t td), snd (emitT t td))"
| "emitT (TypePrimitive p) td = ([of_nat (prim_ID p)], td)"
| "emitFs [] td = ([], td)"
| "emitFs ((n, t) # fs) td =
     (emitName n @ fst (emitT t td) @ fst (emitFs fs (snd (emitT t td))),
      snd (emitFs fs (snd (emitT t td))))"
| "emitTs [] td = ([], td)"
| "emitTs (t # ts) td =
     (fst (emitT t td) @ fst (emitTs ts (snd (emitT t td))), snd (emitTs ts (snd (emitT t td))))"

lemma appendUvarint_emitLen: "appendUvarint b (of_nat k) = b @ emitLen k"
  by (simp add: emitLen_def appendUvarint_append [of b])

lemma foldl_names: "foldl (\<lambda>b s. appendUvarint b (of_nat (length s)) @ s) b ss = b @ concat (map emitName ss)"
  by (induction ss arbitrary: b) (simp_all add: appendUvarint_emitLen emitName_def)

lemmas foldl_names' = foldl_names [unfolded appendUvarint_emitLen append_assoc]

lemma appendTypeValue_eq:
  "appendTypeValue b t td = (b @ fst (emitT t td), snd (emitT t td))"
  "appendFields b fs td = (b @ fst (emitFs fs td), snd (emitFs fs td))"
  "appendTypes b ts td = (b @ fst (emitTs ts td), snd (emitTs ts td))"
  by (induction b t td and b fs td and b ts td rule: appendTypeValue_appendFields_appendTypes.induct)
     (simp_all add: appendUvarint_emitLen foldl_names' emitName_def Let_def case_prod_unfold)

lemma EncodeTypeValue_eq: "EncodeTypeValue t = fst (emitT t Map.empty)"
  by (simp add: EncodeTypeValue_def AppendTypeValue_def appendTypeValue_eq)

lemma AppendTypeValue_eq: "AppendTypeValue b t = b @ EncodeTypeValue t"
  by (simp add: EncodeTypeValue_def AppendTypeValue_def appendTypeValue_eq)

lemma emitT_neq_Nil [simp]: "fst (emitT t td) \<noteq> []"
  by (cases t) auto

section \<open>Erasing the IDs\<close>

text \<open>The structure of a type: the type with every ID of its context set to zero.\<close>

fun erase :: "ztype \<Rightarrow> ztype" where
  "erase (TypePrimitive p) = TypePrimitive p"
| "erase (TypeRecord i fs) = TypeRecord 0 (map (\<lambda>(n, t). (n, erase t)) fs)"
| "erase (TypeArray i t) = TypeArray 0 (erase t)"
| "erase (TypeSet i t) = TypeSet 0 (erase t)"
| "erase (TypeMap i k v) = TypeMap 0 (erase k) (erase v)"
| "erase (TypeUnion i ts) = TypeUnion 0 (map erase ts)"
| "erase (TypeEnum i ss) = TypeEnum 0 ss"
| "erase (TypeError i t) = TypeError 0 (erase t)"
| "erase (TypeNamed i n t) = TypeNamed 0 n (erase t)"

fun children :: "ztype \<Rightarrow> ztype list" where
  "children (TypePrimitive p) = []"
| "children (TypeRecord i fs) = map snd fs"
| "children (TypeArray i t) = [t]"
| "children (TypeSet i t) = [t]"
| "children (TypeMap i k v) = [k, v]"
| "children (TypeUnion i ts) = ts"
| "children (TypeEnum i ss) = []"
| "children (TypeError i t) = [t]"
| "children (TypeNamed i n t) = [t]"

definition closed :: "ztype set \<Rightarrow> bool" where
  "closed S \<longleftrightarrow> (\<forall>t \<in> S. set (children t) \<subseteq> S)"

lemma erase_idem [simp]: "erase (erase t) = erase t"
  by (induction t) (auto simp: case_prod_unfold)

text \<open>Where erasure does not identify two types, the emitted bytes depend on the structure only.\<close>

definition eraseM :: "(gostring \<rightharpoonup> ztype) \<Rightarrow> (gostring \<rightharpoonup> ztype)" where
  "eraseM td = (\<lambda>n. map_option erase (td n))"

lemma eraseM_upd [simp]: "eraseM (td(n \<mapsto> t)) = (eraseM td)(n \<mapsto> erase t)"
  by (auto simp: eraseM_def)

lemma eraseM_empty [simp]: "eraseM Map.empty = Map.empty"
  by (simp add: eraseM_def)

lemma eraseM_ref:
  "inj_on erase S \<Longrightarrow> t \<in> S \<Longrightarrow> ran td \<subseteq> S \<Longrightarrow> eraseM td n = Some (erase t) \<longleftrightarrow> td n = Some t"
  by (auto simp: eraseM_def ran_def dest: inj_onD)

lemma emit_erase:
  assumes "inj_on erase S" "closed S"
  shows "t \<in> S \<Longrightarrow> ran td \<subseteq> S \<Longrightarrow>
      emitT (erase t) (eraseM td) = (fst (emitT t td), eraseM (snd (emitT t td))) \<and> ran (snd (emitT t td)) \<subseteq> S"
    "snd ` set fs \<subseteq> S \<Longrightarrow> ran td \<subseteq> S \<Longrightarrow>
      emitFs (map (\<lambda>(n, t). (n, erase t)) fs) (eraseM td) = (fst (emitFs fs td), eraseM (snd (emitFs fs td))) \<and> ran (snd (emitFs fs td)) \<subseteq> S"
    "set ts \<subseteq> S \<Longrightarrow> ran td \<subseteq> S \<Longrightarrow>
      emitTs (map erase ts) (eraseM td) = (fst (emitTs ts td), eraseM (snd (emitTs ts td))) \<and> ran (snd (emitTs ts td)) \<subseteq> S"
proof (induction t td and fs td and ts td rule: emitT_emitFs_emitTs.induct)
  case (1 i n t td)
  then have "t \<in> S" using assms(2) by (auto simp: closed_def)
  with 1 have "ran ((snd (emitT t td))(n \<mapsto> t)) \<subseteq> S" if "td n \<noteq> Some t"
    using that by (auto simp: ran_def)
  with 1 \<open>t \<in> S\<close> show ?case
    using eraseM_ref [OF assms(1) \<open>t \<in> S\<close>, of td n] by auto
next
  case (2 i fs td)
  with assms(2) have "snd ` set fs \<subseteq> S" by (fastforce simp: closed_def)
  with 2 show ?case by simp
next
  case (3 i ts td)
  with assms(2) have "set ts \<subseteq> S" by (fastforce simp: closed_def)
  with 3 show ?case by simp
next
  case (7 i k v td)
  with assms(2) have "k \<in> S" "v \<in> S" by (fastforce simp: closed_def)+
  with 7 show ?case by simp
qed (use assms(2) in \<open>fastforce simp: closed_def\<close>)+

section \<open>Unique decodability\<close>

text \<open>Lengths of names and lists are those of Go slices and strings.\<close>

fun lens_ok :: "ztype \<Rightarrow> bool" where
  "lens_ok (TypePrimitive p) = True"
| "lens_ok (TypeRecord i fs) = (small fs \<and> (\<forall>f \<in> set fs. small (fst f) \<and> lens_ok (snd f)))"
| "lens_ok (TypeArray i t) = lens_ok t"
| "lens_ok (TypeSet i t) = lens_ok t"
| "lens_ok (TypeMap i k v) = (lens_ok k \<and> lens_ok v)"
| "lens_ok (TypeUnion i ts) = (small ts \<and> (\<forall>t \<in> set ts. lens_ok t))"
| "lens_ok (TypeEnum i ss) = (small ss \<and> (\<forall>s \<in> set ss. small s))"
| "lens_ok (TypeError i t) = lens_ok t"
| "lens_ok (TypeNamed i n t) = (small n \<and> lens_ok t)"

lemma lens_ok_erase [simp]: "lens_ok (erase t) = lens_ok t"
  by (induction t) (auto simp: small_def)

lemma emitLen_inj:
  assumes "k < 2 ^ 62" "l < 2 ^ 62" "emitLen k @ r = emitLen l @ s"
  shows "k = l \<and> r = s"
proof -
  have "(of_nat k :: u64) = of_nat l" and len: "length (emitLen k) = length (emitLen l)"
    using uvarint_appendUvarint [of "of_nat k" r] uvarint_appendUvarint [of "of_nat l" s] assms(3)
    by (simp_all add: emitLen_def)
  then have "unat (of_nat k :: u64) = unat (of_nat l :: u64)" by simp
  then have "k = l" using assms(1,2) by (simp add: unat_of_nat)
  with assms(3) show ?thesis by simp
qed

lemma emitName_inj:
  assumes "small n" "small m" "emitName n @ r = emitName m @ s"
  shows "n = m \<and> r = s"
proof -
  have "length n = length m \<and> n @ r = m @ s"
    using emitLen_inj [of "length n" "length m" "n @ r" "m @ s"] assms
    by (simp add: emitName_def small_def)
  then show ?thesis by auto
qed

lemma concat_names_inj:
  "length ss = length us \<Longrightarrow> \<forall>s \<in> set ss. small s \<Longrightarrow> \<forall>s \<in> set us. small s \<Longrightarrow>
   concat (map emitName ss) @ r = concat (map emitName us) @ s' \<Longrightarrow> ss = us \<and> r = s'"
proof (induction ss us rule: list_induct2)
  case (Cons x xs y ys)
  then have "x = y \<and> concat (map emitName xs) @ r = concat (map emitName ys) @ s'"
    by (intro emitName_inj) simp_all
  with Cons show ?case by simp
qed simp

lemma prim_byte_less: "(of_nat (prim_ID p) :: byte) < 30"
  by (cases p) simp_all

lemma prim_byte_inj: "(of_nat (prim_ID p) :: byte) = of_nat (prim_ID q) \<longleftrightarrow> p = q"
  by (cases p; cases q) simp_all

lemma prim_byte_neq [simp]: "30 \<le> c \<Longrightarrow> (of_nat (prim_ID p) :: byte) \<noteq> c" "30 \<le> c \<Longrightarrow> c \<noteq> (of_nat (prim_ID p) :: byte)"
  using prim_byte_less [of p] by auto

lemma map_id_iff: "map f xs = xs \<longleftrightarrow> (\<forall>x \<in> set xs. f x = x)"
  by (induction xs) auto

definition uniqueP :: "ztype \<Rightarrow> bool" where
  "uniqueP t \<longleftrightarrow> (\<forall>u td r s. fst (emitT t td) @ r = fst (emitT u td) @ s \<longrightarrow>
     lens_ok t \<longrightarrow> lens_ok u \<longrightarrow> erase t = t \<longrightarrow> erase u = u \<longrightarrow> t = u \<and> r = s)"

lemma uniquePD:
  "uniqueP t \<Longrightarrow> fst (emitT t td) @ r = fst (emitT u td) @ s \<Longrightarrow> lens_ok t \<Longrightarrow> lens_ok u \<Longrightarrow>
   erase t = t \<Longrightarrow> erase u = u \<Longrightarrow> t = u \<and> r = s"
  unfolding uniqueP_def by blast

lemma emitTs_unique:
  "length ts = length us \<Longrightarrow> \<forall>t \<in> set ts. uniqueP t \<Longrightarrow>
   \<forall>t \<in> set ts. lens_ok t \<and> erase t = t \<Longrightarrow> \<forall>t \<in> set us. lens_ok t \<and> erase t = t \<Longrightarrow>
   fst (emitTs ts td) @ r = fst (emitTs us td) @ s \<Longrightarrow> ts = us \<and> r = s"
proof (induction ts us arbitrary: td rule: list_induct2)
  case (Cons x xs y ys)
  have "x = y \<and> fst (emitTs xs (snd (emitT x td))) @ r = fst (emitTs ys (snd (emitT y td))) @ s"
    by (rule uniquePD [of x td]) (use Cons.prems in simp_all)
  with Cons show ?case by simp
qed simp

lemma emitFs_unique:
  "length fs = length gs \<Longrightarrow> \<forall>f \<in> set fs. uniqueP (snd f) \<Longrightarrow>
   \<forall>f \<in> set fs. small (fst f) \<and> lens_ok (snd f) \<and> erase (snd f) = snd f \<Longrightarrow>
   \<forall>f \<in> set gs. small (fst f) \<and> lens_ok (snd f) \<and> erase (snd f) = snd f \<Longrightarrow>
   fst (emitFs fs td) @ r = fst (emitFs gs td) @ s \<Longrightarrow> fs = gs \<and> r = s"
proof (induction fs gs arbitrary: td rule: list_induct2)
  case (Cons x xs y ys)
  obtain n t m u where xy: "x = (n, t)" "y = (m, u)" by fastforce
  have nm: "n = m \<and> fst (emitT t td) @ fst (emitFs xs (snd (emitT t td))) @ r =
      fst (emitT u td) @ fst (emitFs ys (snd (emitT u td))) @ s"
    by (rule emitName_inj) (use Cons.prems xy in simp_all)
  have "t = u \<and> fst (emitFs xs (snd (emitT t td))) @ r = fst (emitFs ys (snd (emitT u td))) @ s"
    by (rule uniquePD [of t td]) (use Cons.prems xy nm in auto)
  with Cons xy nm show ?case by simp
qed simp

text \<open>The first byte tells the kind of node.\<close>

lemma emit_code:
  "30 # x = fst (emitT u td) @ s \<Longrightarrow> \<exists>j fs. u = TypeRecord j fs"
  "31 # x = fst (emitT u td) @ s \<Longrightarrow> \<exists>j t. u = TypeArray j t"
  "32 # x = fst (emitT u td) @ s \<Longrightarrow> \<exists>j t. u = TypeSet j t"
  "33 # x = fst (emitT u td) @ s \<Longrightarrow> \<exists>j k v. u = TypeMap j k v"
  "34 # x = fst (emitT u td) @ s \<Longrightarrow> \<exists>j ts. u = TypeUnion j ts"
  "35 # x = fst (emitT u td) @ s \<Longrightarrow> \<exists>j ss. u = TypeEnum j ss"
  "36 # x = fst (emitT u td) @ s \<Longrightarrow> \<exists>j t. u = TypeError j t"
  "37 # x = fst (emitT u td) @ s \<Longrightarrow> \<exists>j n t. u = TypeNamed j n t \<and> td n \<noteq> Some t"
  "38 # x = fst (emitT u td) @ s \<Longrightarrow> \<exists>j n t. u = TypeNamed j n t \<and> td n = Some t"
  "of_nat (prim_ID p) # x = fst (emitT u td) @ s \<Longrightarrow> u = TypePrimitive p"
  by (cases u; simp add: prim_byte_inj split: if_splits)+

lemma uniquePI:
  assumes "\<And>u td r s. fst (emitT t td) @ r = fst (emitT u td) @ s \<Longrightarrow> lens_ok t \<Longrightarrow> lens_ok u \<Longrightarrow>
     erase t = t \<Longrightarrow> erase u = u \<Longrightarrow> t = u \<and> r = s"
  shows "uniqueP t"
  unfolding uniqueP_def using assms by blast

lemma uniqueP_Record:
  assumes IH: "\<forall>f \<in> set fs. uniqueP (snd f)"
  shows "uniqueP (TypeRecord i fs)"
proof (rule uniquePI)
  fix u td r s
  assume A: "fst (emitT (TypeRecord i fs) td) @ r = fst (emitT u td) @ s" "lens_ok (TypeRecord i fs)"
    "lens_ok u" "erase (TypeRecord i fs) = TypeRecord i fs" "erase u = u"
  obtain j gs where u: "u = TypeRecord j gs" using emit_code(1) A(1) by force
  have L: "length fs = length gs \<and> fst (emitFs fs td) @ r = fst (emitFs gs td) @ s"
    by (rule emitLen_inj) (use A u in \<open>simp_all add: small_def\<close>)
  have "fs = gs \<and> r = s"
    by (rule emitFs_unique [of fs gs td]) (use L A u IH in \<open>auto simp: map_id_iff\<close>)
  with A u show "TypeRecord i fs = u \<and> r = s" by simp
qed

lemma uniqueP_Union:
  assumes IH: "\<forall>t \<in> set ts. uniqueP t"
  shows "uniqueP (TypeUnion i ts)"
proof (rule uniquePI)
  fix u td r s
  assume A: "fst (emitT (TypeUnion i ts) td) @ r = fst (emitT u td) @ s" "lens_ok (TypeUnion i ts)"
    "lens_ok u" "erase (TypeUnion i ts) = TypeUnion i ts" "erase u = u"
  obtain j us where u: "u = TypeUnion j us" using emit_code(5) A(1) by force
  have L: "length ts = length us \<and> fst (emitTs ts td) @ r = fst (emitTs us td) @ s"
    by (rule emitLen_inj) (use A u in \<open>simp_all add: small_def\<close>)
  have "ts = us \<and> r = s"
    by (rule emitTs_unique [of ts us td]) (use L A u IH in \<open>auto simp: map_id_iff\<close>)
  with A u show "TypeUnion i ts = u \<and> r = s" by simp
qed

lemma uniqueP_Enum: "uniqueP (TypeEnum i ss)"
proof (rule uniquePI)
  fix u td r s
  assume A: "fst (emitT (TypeEnum i ss) td) @ r = fst (emitT u td) @ s" "lens_ok (TypeEnum i ss)"
    "lens_ok u" "erase (TypeEnum i ss) = TypeEnum i ss" "erase u = u"
  obtain j us where u: "u = TypeEnum j us" using emit_code(6) A(1) by force
  have L: "length ss = length us \<and> concat (map emitName ss) @ r = concat (map emitName us) @ s"
    by (rule emitLen_inj) (use A u in \<open>simp_all add: small_def\<close>)
  have "ss = us \<and> r = s"
    by (rule concat_names_inj) (use L A u in simp_all)
  with A u show "TypeEnum i ss = u \<and> r = s" by simp
qed

lemma uniqueP_Named:
  assumes IH: "uniqueP t"
  shows "uniqueP (TypeNamed i n t)"
proof (rule uniquePI)
  fix u td r s
  assume A: "fst (emitT (TypeNamed i n t) td) @ r = fst (emitT u td) @ s" "lens_ok (TypeNamed i n t)"
    "lens_ok u" "erase (TypeNamed i n t) = TypeNamed i n t" "erase u = u"
  show "TypeNamed i n t = u \<and> r = s"
  proof (cases "td n = Some t")
    case True
    then obtain j m v where u: "u = TypeNamed j m v" "td m = Some v"
      using emit_code(9) [of "emitName n @ r" u td s] A(1) by auto
    have "n = m \<and> r = s" by (rule emitName_inj) (use True A u in simp_all)
    with True A u show ?thesis by simp
  next
    case False
    then obtain j m v where u: "u = TypeNamed j m v" "td m \<noteq> Some v"
      using emit_code(8) [of "emitName n @ fst (emitT t td) @ r" u td s] A(1) by auto
    have L: "n = m \<and> fst (emitT t td) @ r = fst (emitT v td) @ s"
      by (rule emitName_inj) (use False A u in simp_all)
    have "t = v \<and> r = s" by (rule uniquePD [OF IH, of td]) (use L A u in simp_all)
    with L A u show ?thesis by simp
  qed
qed

lemma uniqueP_Map:
  assumes IH: "uniqueP k" "uniqueP v"
  shows "uniqueP (TypeMap i k v)"
proof (rule uniquePI)
  fix u td r s
  assume A: "fst (emitT (TypeMap i k v) td) @ r = fst (emitT u td) @ s" "lens_ok (TypeMap i k v)"
    "lens_ok u" "erase (TypeMap i k v) = TypeMap i k v" "erase u = u"
  obtain j k' v' where u: "u = TypeMap j k' v'" using emit_code(4) A(1) by force
  have L: "k = k' \<and> fst (emitT v (snd (emitT k td))) @ r = fst (emitT v' (snd (emitT k' td))) @ s"
    by (rule uniquePD [OF IH(1), of td]) (use A u in simp_all)
  have "v = v' \<and> r = s"
    by (rule uniquePD [OF IH(2), of "snd (emitT k td)"]) (use L A u in simp_all)
  with L A u show "TypeMap i k v = u \<and> r = s" by simp
qed

lemma uniqueP_inner:
  assumes IH: "uniqueP t"
  shows "uniqueP (TypeArray i t)" "uniqueP (TypeSet i t)" "uniqueP (TypeError i t)"
proof -
  note IH' = uniquePD [OF IH]
  show "uniqueP (TypeArray i t)"
  proof (rule uniquePI)
    fix u td r s
    assume A: "fst (emitT (TypeArray i t) td) @ r = fst (emitT u td) @ s" "lens_ok (TypeArray i t)"
      "lens_ok u" "erase (TypeArray i t) = TypeArray i t" "erase u = u"
    obtain j v where u: "u = TypeArray j v" using emit_code(2) A(1) by force
    with IH' [of td r v s] A show "TypeArray i t = u \<and> r = s" by simp
  qed
  show "uniqueP (TypeSet i t)"
  proof (rule uniquePI)
    fix u td r s
    assume A: "fst (emitT (TypeSet i t) td) @ r = fst (emitT u td) @ s" "lens_ok (TypeSet i t)"
      "lens_ok u" "erase (TypeSet i t) = TypeSet i t" "erase u = u"
    obtain j v where u: "u = TypeSet j v" using emit_code(3) A(1) by force
    with IH' [of td r v s] A show "TypeSet i t = u \<and> r = s" by simp
  qed
  show "uniqueP (TypeError i t)"
  proof (rule uniquePI)
    fix u td r s
    assume A: "fst (emitT (TypeError i t) td) @ r = fst (emitT u td) @ s" "lens_ok (TypeError i t)"
      "lens_ok u" "erase (TypeError i t) = TypeError i t" "erase u = u"
    obtain j v where u: "u = TypeError j v" using emit_code(7) A(1) by force
    with IH' [of td r v s] A show "TypeError i t = u \<and> r = s" by simp
  qed
qed

lemma uniqueP_Primitive: "uniqueP (TypePrimitive p)"
proof (rule uniquePI)
  fix u td r s
  assume "fst (emitT (TypePrimitive p) td) @ r = fst (emitT u td) @ s"
  moreover from this have "u = TypePrimitive p" using emit_code(10) by force
  ultimately show "TypePrimitive p = u \<and> r = s" by simp
qed

lemma uniqueP_all: "uniqueP t"
proof (induction t)
  case (TypeRecord i fs)
  then show ?case by (intro uniqueP_Record) auto
qed (simp_all add: uniqueP_Primitive uniqueP_Union uniqueP_Enum uniqueP_Named uniqueP_Map uniqueP_inner)

lemma EncodeTypeValue_inj:
  assumes "EncodeTypeValue t = EncodeTypeValue u" "lens_ok t" "lens_ok u" "erase t = t" "erase u = u"
  shows "t = u"
  using uniquePD [OF uniqueP_all, of t Map.empty "[]" u "[]"] assms by (simp add: EncodeTypeValue_eq)

end
