(* ===== verification/Builder.thy ===== *)
theory Builder
  imports Zcode
begin

text \<open>
  The nested-value builder (\<open>zcode/builder.go\<close>).  The builder keeps one flat buffer and a
  stack of body offsets and patches each container's tag when it is closed.  The
  abstract view is a stack of frames, the bodies of the open containers; every operation
  of the builder is shown to implement the operation on frames.
\<close>

section \<open>State and operations\<close>

record builder =
  b_bytes :: zbytes
  b_containers :: "nat list"  \<comment> \<open>body offsets, innermost open container first\<close>

definition NewBuilder :: builder where
  "NewBuilder = \<lparr>b_bytes = None, b_containers = []\<rparr>"

definition Builder_Reset :: "builder \<Rightarrow> builder" where
  "Builder_Reset b = b\<lparr>b_bytes := None, b_containers := []\<rparr>"

definition Builder_Truncate :: "builder \<Rightarrow> builder" where
  "Builder_Truncate b = b\<lparr>b_bytes := map_option (\<lambda>_. []) (b_bytes b), b_containers := []\<rparr>"

definition BeginContainer :: "builder \<Rightarrow> builder" where
  "BeginContainer b =
     (let bs = buf (b_bytes b) @ [0]
      in b\<lparr>b_bytes := Some bs, b_containers := length bs # b_containers b\<rparr>)"

text \<open>Writing \<open>ys\<close> over the bytes of \<open>xs\<close> from offset \<open>off\<close> on.\<close>

definition overwrite :: "'a list \<Rightarrow> nat \<Rightarrow> 'a list \<Rightarrow> 'a list" where
  "overwrite xs off ys = take off xs @ ys @ drop (off + length ys) xs"

definition EndContainer :: "builder \<Rightarrow> builder go" where
  "EndContainer b =
     (case b_containers b of
        [] \<Rightarrow> Panic
      | bodyOff # cs \<Rightarrow>
          (let bs = buf (b_bytes b);
               tag = toTag (length bs - bodyOff);
               tagSize = SizeOfUvarint tag;
               tagOff = bodyOff - 1;
               bs' = (if tagSize > 1 then take (tagOff + tagSize) bs @ drop bodyOff bs else bs);
               enc = appendUvarint [] tag
           in if length enc \<noteq> tagSize then Panic
              else Ok (b\<lparr>b_bytes := Some (overwrite bs' tagOff enc), b_containers := cs\<rparr>)))"

definition TransformContainer :: "(bytes \<Rightarrow> bytes) \<Rightarrow> builder \<Rightarrow> builder go" where
  "TransformContainer transform b =
     (case b_containers b of
        [] \<Rightarrow> Panic
      | bodyOff # _ \<Rightarrow>
          (let bs = buf (b_bytes b)
           in Ok (b\<lparr>b_bytes := Some (take bodyOff bs @ transform (drop bodyOff bs))\<rparr>)))"

definition Builder_Append :: "builder \<Rightarrow> zbytes \<Rightarrow> builder" where
  "Builder_Append b val = b\<lparr>b_bytes := Some (Append (buf (b_bytes b)) val)\<rparr>"

definition Builder_Bytes :: "builder \<Rightarrow> zbytes go" where
  "Builder_Bytes b = (if length (b_containers b) > 0 then Panic else Ok (b_bytes b))"

section \<open>The interface the builder's clients rely on\<close>

text \<open>A Zed value as a tree of leaves and containers, and its tagged serialization.\<close>

datatype zval = Leaf zbytes | Node "zval list"

fun encode_val :: "zval \<Rightarrow> bytes" where
  "encode_val (Leaf v) = Append [] v"
| "encode_val (Node vs) = Append [] (Some (concat (map encode_val vs)))"

text \<open>The calls a client makes on a builder to add a value: a container's parts between
  a begin and an end.\<close>

fun build_val :: "('b \<Rightarrow> 'b) \<Rightarrow> ('b \<Rightarrow> 'b go) \<Rightarrow> ('b \<Rightarrow> zbytes \<Rightarrow> 'b) \<Rightarrow> zval \<Rightarrow> 'b \<Rightarrow> 'b go"
  and build_vals :: "('b \<Rightarrow> 'b) \<Rightarrow> ('b \<Rightarrow> 'b go) \<Rightarrow> ('b \<Rightarrow> zbytes \<Rightarrow> 'b) \<Rightarrow> zval list \<Rightarrow> 'b \<Rightarrow> 'b go"
where
  "build_val bgn endc app (Leaf v) b = Ok (app b v)"
| "build_val bgn endc app (Node vs) b = bindR (build_vals bgn endc app vs (bgn b)) endc"
| "build_vals bgn endc app [] b = Ok b"
| "build_vals bgn endc app (v # vs) b =
     bindR (build_val bgn endc app v b) (\<lambda>b'. build_vals bgn endc app vs b')"

fun push_top :: "bytes \<Rightarrow> bytes list \<Rightarrow> bytes list" where
  "push_top x [] = []"
| "push_top x (f # fs) = (f @ x) # fs"

lemma push_top_push_top [simp]: "push_top y (push_top x fs) = push_top (x @ y) fs"
  by (cases fs) simp_all

lemma push_top_Nil [simp]: "push_top [] fs = fs"
  by (cases fs) simp_all

lemma push_top_eq_Nil [simp]: "push_top x fs = [] \<longleftrightarrow> fs = []"
  by (cases fs) simp_all

text \<open>
  A builder shows its open frames, innermost first.  Beginning a container opens an empty
  frame, appending extends the innermost frame, and ending a container appends the
  innermost frame as one tagged value to the frame below.
\<close>

locale frame_builder =
  fixes frames :: "'b \<Rightarrow> bytes list"
    and bgn :: "'b \<Rightarrow> 'b"
    and endc :: "'b \<Rightarrow> 'b go"
    and app :: "'b \<Rightarrow> zbytes \<Rightarrow> 'b"
    and invar :: "'b \<Rightarrow> bool"
  assumes frames_bgn: "invar b \<Longrightarrow> frames (bgn b) = [] # frames b"
    and frames_app: "invar b \<Longrightarrow> frames (app b v) = push_top (Append [] v) (frames b)"
    and endc_frames: "invar b \<Longrightarrow> frames b = f # g # fs \<Longrightarrow>
      \<exists>b'. endc b = Ok b' \<and> invar b' \<and> frames b' = (g @ Append [] (Some f)) # fs"
    and invar_bgn: "invar b \<Longrightarrow> invar (bgn b)"
    and invar_app: "invar b \<Longrightarrow> invar (app b v)"
    and frames_nonempty: "invar b \<Longrightarrow> frames b \<noteq> []"
begin

definition built :: "zval \<Rightarrow> bool" where
  "built v \<longleftrightarrow> (\<forall>b. invar b \<longrightarrow> (\<exists>b'. build_val bgn endc app v b = Ok b' \<and> invar b' \<and>
     frames b' = push_top (encode_val v) (frames b)))"

lemma build_vals_frames:
  "\<forall>v \<in> set vs. built v \<Longrightarrow> invar b \<Longrightarrow> \<exists>b'. build_vals bgn endc app vs b = Ok b' \<and> invar b' \<and>
     frames b' = push_top (concat (map encode_val vs)) (frames b)"
proof (induction vs arbitrary: b)
  case (Cons v vs)
  then obtain b1 where b1: "build_val bgn endc app v b = Ok b1" "invar b1"
      "frames b1 = push_top (encode_val v) (frames b)"
    by (auto simp: built_def)
  with Cons.IH [OF _ b1(2)] Cons.prems(1) show ?case by auto
qed simp

lemma build_val_frames: "built v"
proof (induction v)
  case (Leaf v)
  show ?case by (auto simp: built_def frames_app invar_app)
next
  case (Node vs)
  show ?case unfolding built_def
  proof (intro allI impI)
    fix b assume inv: "invar b"
    obtain g fs where gfs: "frames b = g # fs"
      using frames_nonempty [OF inv] by (cases "frames b") auto
    obtain b1 where b1: "build_vals bgn endc app vs (bgn b) = Ok b1" "invar b1"
        "frames b1 = concat (map encode_val vs) # g # fs"
      using build_vals_frames [of vs "bgn b"] Node invar_bgn [OF inv] frames_bgn [OF inv] gfs by auto
    with endc_frames [OF b1(2,3)] gfs show "\<exists>b'. build_val bgn endc app (Node vs) b = Ok b' \<and>
        invar b' \<and> frames b' = push_top (encode_val (Node vs)) (frames b)"
      by auto
  qed
qed

lemma build_val_ok:
  assumes "invar b"
  obtains b' where "build_val bgn endc app v b = Ok b'" "invar b'"
    "frames b' = push_top (encode_val v) (frames b)"
  using build_val_frames [of v] assms by (auto simp: built_def)

end

section \<open>The flat buffer implements frames\<close>

text \<open>The frames of a builder: cut the buffer at the recorded offsets, dropping the
  placeholder byte that stands for the tag of each open container.\<close>

fun cut :: "bytes \<Rightarrow> nat list \<Rightarrow> bytes list" where
  "cut bs [] = [bs]"
| "cut bs (off # cs) = drop off bs # cut (take (off - 1) bs) cs"

fun offsets_ok :: "bytes \<Rightarrow> nat list \<Rightarrow> bool" where
  "offsets_ok bs [] = True"
| "offsets_ok bs (off # cs) = (0 < off \<and> off \<le> length bs \<and> offsets_ok (take (off - 1) bs) cs)"

definition Builder_frames :: "builder \<Rightarrow> bytes list" where
  "Builder_frames b = cut (buf (b_bytes b)) (b_containers b)"

definition Builder_inv :: "builder \<Rightarrow> bool" where
  "Builder_inv b \<longleftrightarrow> offsets_ok (buf (b_bytes b)) (b_containers b)"

lemma cut_append: "offsets_ok bs cs \<Longrightarrow> cut (bs @ x) cs = push_top x (cut bs cs)"
  by (cases cs) auto

lemma offsets_ok_append: "offsets_ok bs cs \<Longrightarrow> offsets_ok (bs @ x) cs"
  by (cases cs) auto

lemma cut_neq_Nil [simp]: "cut bs cs \<noteq> []"
  by (cases cs) auto

lemma tagSize_body:
  assumes "1 < SizeOfUvarint (toTag n)"
  shows "SizeOfUvarint (toTag n) \<le> n"
proof -
  have "0x80 \<le> toTag n"
    using assms by (cases "0x80 \<le> toTag n") (simp_all add: SizeOfUvarint_length appendUvarint_small)
  then have "128 \<le> unat (toTag n)" by (simp add: word_le_nat_alt)
  also have "unat (toTag n) \<le> Suc n"
    unfolding toTag_def by (metis Suc_eq_plus1 of_nat_Suc add.commute unat_of_nat mod_less_eq_dividend)
  finally show ?thesis
    using length_appendUvarint_le [of "toTag n"] by (simp add: SizeOfUvarint_length)
qed

lemma EndContainer_eq:
  assumes inv: "Builder_inv b" and cs: "b_containers b = off # cs"
  shows "EndContainer b =
    Ok (b\<lparr>b_bytes := Some (take (off - 1) (buf (b_bytes b)) @ Append [] (Some (drop off (buf (b_bytes b))))),
          b_containers := cs\<rparr>)"
proof -
  let ?bs = "buf (b_bytes b)"
  let ?f = "drop off ?bs"
  let ?tag = "toTag (length ?bs - off)"
  let ?enc = "appendUvarint [] ?tag"
  have off: "0 < off" "off \<le> length ?bs" using inv cs by (simp_all add: Builder_inv_def)
  have "overwrite (if length ?enc > 1 then take (off - 1 + length ?enc) ?bs @ ?f else ?bs) (off - 1) ?enc
      = take (off - 1) ?bs @ ?enc @ ?f"
  proof (cases "length ?enc > 1")
    case True
    then have "length ?enc \<le> length ?bs - off"
      using tagSize_body [of "length ?bs - off"] by (simp add: SizeOfUvarint_length)
    with True off show ?thesis by (simp add: overwrite_def)
  next
    case False
    then have "length ?enc = 1" using appendUvarint_neq_Nil [of "[]" ?tag]
      by (cases ?enc) (auto simp del: appendUvarint_neq_Nil)
    with False off show ?thesis by (simp add: overwrite_def)
  qed
  then show ?thesis
    using cs off
    by (cases off) (simp_all add: EndContainer_def SizeOfUvarint_length Let_def Append_def split: if_splits)
qed

interpretation zb: frame_builder Builder_frames BeginContainer EndContainer Builder_Append Builder_inv
proof unfold_locales
  fix b v
  assume inv: "Builder_inv b"
  show "Builder_frames (BeginContainer b) = [] # Builder_frames b"
    by (simp add: Builder_frames_def BeginContainer_def Let_def)
  show "Builder_frames (Builder_Append b v) = push_top (Append [] v) (Builder_frames b)"
    using inv by (simp add: Builder_frames_def Builder_Append_def Builder_inv_def cut_append
        Append_append [of "buf (b_bytes b)"])
  show "Builder_inv (BeginContainer b)"
    using inv by (simp add: Builder_inv_def BeginContainer_def Let_def)
  show "Builder_inv (Builder_Append b v)"
    using inv by (simp add: Builder_inv_def Builder_Append_def offsets_ok_append
        Append_append [of "buf (b_bytes b)"])
  show "Builder_frames b \<noteq> []"
    by (simp add: Builder_frames_def)
next
  fix b f g fs
  assume inv: "Builder_inv b" and fr: "Builder_frames b = f # g # fs"
  then obtain off cs where cs: "b_containers b = off # cs"
    by (cases "b_containers b") (auto simp: Builder_frames_def)
  show "\<exists>b'. EndContainer b = Ok b' \<and> Builder_inv b' \<and>
      Builder_frames b' = (g @ Append [] (Some f)) # fs"
    unfolding EndContainer_eq [OF inv cs] using inv fr cs
    by (auto simp: Builder_inv_def Builder_frames_def cut_append offsets_ok_append)
qed

section \<open>Values built are the values encoded\<close>

abbreviation build :: "zval list \<Rightarrow> builder \<Rightarrow> builder go" where
  "build \<equiv> build_vals BeginContainer EndContainer Builder_Append"

lemma Builder_inv_New [simp]: "Builder_inv NewBuilder"
  by (simp add: Builder_inv_def NewBuilder_def)

lemma Builder_frames_New [simp]: "Builder_frames NewBuilder = [[]]"
  by (simp add: Builder_frames_def NewBuilder_def)

lemma Builder_frames_single:
  "Builder_frames b = [x] \<Longrightarrow> b_containers b = [] \<and> buf (b_bytes b) = x"
  by (cases "b_containers b") (auto simp: Builder_frames_def)

lemma EndContainer_not_nil: "EndContainer b = Ok b' \<Longrightarrow> b_bytes b' \<noteq> None"
  by (cases "b_containers b") (auto simp: EndContainer_def Let_def SizeOfUvarint_length)

lemma build_val_not_nil:
  "build_val BeginContainer EndContainer Builder_Append v b = Ok b' \<Longrightarrow> b_bytes b' \<noteq> None"
  by (cases v) (auto simp: Builder_Append_def go_inv dest: EndContainer_not_nil)

lemma build_not_nil:
  "build vs b = Ok b' \<Longrightarrow> vs \<noteq> [] \<or> b_bytes b \<noteq> None \<Longrightarrow> b_bytes b' \<noteq> None"
  by (induction vs arbitrary: b) (auto simp: go_inv dest: build_val_not_nil)

lemma built_all [simp]: "zb.built v"
  by (rule zb.build_val_frames)

text \<open>
  C26: The builder produces exactly the tagged serialization of the values it was given.
  Whatever sequence of value trees is added to a new builder, with containers opened and
  closed around their parts, no call panics and \<open>Bytes\<close> returns the concatenation of the
  recursive encodings (nil when nothing was added), although the buffer is written flat and
  tags longer than one byte are patched in by moving the body.
\<close>

theorem Builder_builds_encoding:
  "\<exists>b. build vs NewBuilder = Ok b \<and>
       Builder_Bytes b = Ok (if vs = [] then None else Some (concat (map encode_val vs)))"
proof -
  obtain b where b: "build vs NewBuilder = Ok b"
      "Builder_frames b = [concat (map encode_val vs)]"
    using zb.build_vals_frames [of vs NewBuilder] by auto
  from Builder_frames_single [OF b(2)] build_not_nil [OF b(1)] b(1)
  show ?thesis by (cases "vs = []") (auto simp: Builder_Bytes_def NewBuilder_def)
qed

end
