(* ===== verification/Context.thy ===== *)
theory Context
  imports TypeValue Builder
begin

text \<open>
  The type context (\<open>context.go\<close>): the interning tables, the \<open>Lookup\<close> operations, which
  create a type on first use and return the same one ever after, and the decoder of type
  values.  Each operation runs under the context's lock, so it is modelled as one step on the
  context state.
\<close>

section \<open>State\<close>

record ctx =
  byID :: "ztype option list"
  toType :: "bytes \<rightharpoonup> ztype"
  toValue :: "ztype \<rightharpoonup> bytes"
  typedefs :: "gostring \<rightharpoonup> ztype"
  stringErr :: "ztype option"

definition NewContext :: ctx where
  "NewContext = \<lparr>byID = replicate IDTypeComplex None, toType = Map.empty, toValue = Map.empty,
     typedefs = Map.empty, stringErr = None\<rparr>"

definition Context_Reset :: "ctx \<Rightarrow> ctx" where
  "Context_Reset c = c\<lparr>byID := take IDTypeComplex (byID c), toType := Map.empty,
     toValue := Map.empty, typedefs := Map.empty\<rparr>"

definition nextIDWithLock :: "ctx \<Rightarrow> nat" where
  "nextIDWithLock c = length (byID c)"

definition LookupType :: "ctx \<Rightarrow> int \<Rightarrow> ztype go" where
  "LookupType c i =
     (if i < 0 then Err (Errorf ''type id cannot be negative'')
      else if i < int IDTypeComplex then bindR (LookupPrimitiveByID i) (\<lambda>p. Ok (TypePrimitive p))
      else if i \<ge> int (length (byID c)) then Err (Errorf ''type id not in type context'')
      else case byID c ! nat i of
             Some typ \<Rightarrow> Ok typ
           | None \<Rightarrow> Err (Errorf ''no type found for type id''))"

definition enterWithLock :: "bytes \<Rightarrow> ztype \<Rightarrow> ctx \<Rightarrow> ctx" where
  "enterWithLock tv typ c =
     c\<lparr>toValue := (toValue c)(typ \<mapsto> tv), toType := (toType c)(tv \<mapsto> typ),
       byID := byID c @ [Some typ]\<rparr>"

section \<open>Lookup operations\<close>

fun adjacent_dup :: "gostring \<Rightarrow> gostring list \<Rightarrow> gostring option" where
  "adjacent_dup prev [] = None"
| "adjacent_dup prev (n # ns) = (if n = prev then Some n else adjacent_dup n ns)"

definition duplicateField :: "(gostring \<times> ztype) list \<Rightarrow> gostring option" where
  "duplicateField flds =
     (if length flds < 2 then None
      else case SliceStable (\<lambda>a b. strings_Compare a b < 0) (map fst flds) of
             [] \<Rightarrow> None
           | prev # ns \<Rightarrow> adjacent_dup prev ns)"

definition LookupTypeRecord :: "(gostring \<times> ztype) list \<Rightarrow> ctx \<Rightarrow> (ztype \<times> ctx) go" where
  "LookupTypeRecord flds c =
     (let tv = AppendTypeValue [] (TypeRecord 0 flds) in
      case toType c tv of
        Some typ \<Rightarrow> (case typ of TypeRecord _ _ \<Rightarrow> Ok (typ, c) | _ \<Rightarrow> Panic)
      | None \<Rightarrow>
          (case duplicateField flds of
             Some name \<Rightarrow> Err (Errorf ''duplicate field'')
           | None \<Rightarrow>
               (let typ = TypeRecord (nextIDWithLock c) flds
                in Ok (typ, enterWithLock tv typ c))))"

definition LookupTypeSet :: "ztype \<Rightarrow> ctx \<Rightarrow> (ztype \<times> ctx) go" where
  "LookupTypeSet inner c =
     (let tv = AppendTypeValue [] (TypeSet 0 inner) in
      case toType c tv of
        Some typ \<Rightarrow> (case typ of TypeSet _ _ \<Rightarrow> Ok (typ, c) | _ \<Rightarrow> Panic)
      | None \<Rightarrow> (let typ = TypeSet (nextIDWithLock c) inner in Ok (typ, enterWithLock tv typ c)))"

definition LookupTypeMap :: "ztype \<Rightarrow> ztype \<Rightarrow> ctx \<Rightarrow> (ztype \<times> ctx) go" where
  "LookupTypeMap keyType valType c =
     (let tv = AppendTypeValue [] (TypeMap 0 keyType valType) in
      case toType c tv of
        Some typ \<Rightarrow> (case typ of TypeMap _ _ _ \<Rightarrow> Ok (typ, c) | _ \<Rightarrow> Panic)
      | None \<Rightarrow>
          (let typ = TypeMap (nextIDWithLock c) keyType valType in Ok (typ, enterWithLock tv typ c)))"

definition LookupTypeArray :: "ztype \<Rightarrow> ctx \<Rightarrow> (ztype \<times> ctx) go" where
  "LookupTypeArray inner c =
     (let tv = AppendTypeValue [] (TypeArray 0 inner) in
      case toType c tv of
        Some typ \<Rightarrow> (case typ of TypeArray _ _ \<Rightarrow> Ok (typ, c) | _ \<Rightarrow> Panic)
      | None \<Rightarrow> (let typ = TypeArray (nextIDWithLock c) inner in Ok (typ, enterWithLock tv typ c)))"

definition sortTypes :: "ztype list \<Rightarrow> ztype list" where
  "sortTypes types = SliceStable (\<lambda>a b. CompareTypes a b < 0) types"

definition LookupTypeUnion :: "ztype list \<Rightarrow> ctx \<Rightarrow> (ztype \<times> ctx) go" where
  "LookupTypeUnion types c =
     (let types' = sortTypes types;
          tv = AppendTypeValue [] (TypeUnion 0 types') in
      case toType c tv of
        Some typ \<Rightarrow> (case typ of TypeUnion _ _ \<Rightarrow> Ok (typ, c) | _ \<Rightarrow> Panic)
      | None \<Rightarrow> (let typ = TypeUnion (nextIDWithLock c) types' in Ok (typ, enterWithLock tv typ c)))"

definition LookupTypeEnum :: "gostring list \<Rightarrow> ctx \<Rightarrow> (ztype \<times> ctx) go" where
  "LookupTypeEnum symbols c =
     (let tv = AppendTypeValue [] (TypeEnum 0 symbols) in
      case toType c tv of
        Some typ \<Rightarrow> (case typ of TypeEnum _ _ \<Rightarrow> Ok (typ, c) | _ \<Rightarrow> Panic)
      | None \<Rightarrow> (let typ = TypeEnum (nextIDWithLock c) symbols in Ok (typ, enterWithLock tv typ c)))"

definition LookupTypeDef :: "gostring \<Rightarrow> ctx \<Rightarrow> ztype option" where
  "LookupTypeDef name c = typedefs c name"

text \<open>\<open>utf8.ValidString\<close>.\<close>

fun utf8_valid :: "bytes \<Rightarrow> bool" where
  "utf8_valid [] = True"
| "utf8_valid (a # s) =
     (let cont = (\<lambda>x :: byte. 0x80 \<le> x \<and> x \<le> 0xBF) in
      if a < 0x80 then utf8_valid s
      else if 0xC2 \<le> a \<and> a \<le> 0xDF then
        (case s of b # s' \<Rightarrow> cont b \<and> utf8_valid s' | _ \<Rightarrow> False)
      else if 0xE0 \<le> a \<and> a \<le> 0xEF then
        (case s of
           b # c # s' \<Rightarrow>
             (if a = 0xE0 then 0xA0 else 0x80) \<le> b \<and> b \<le> (if a = 0xED then 0x9F else 0xBF) \<and>
             cont c \<and> utf8_valid s'
         | _ \<Rightarrow> False)
      else if 0xF0 \<le> a \<and> a \<le> 0xF4 then
        (case s of
           b # c # d # s' \<Rightarrow>
             (if a = 0xF0 then 0x90 else 0x80) \<le> b \<and> b \<le> (if a = 0xF4 then 0x8F else 0xBF) \<and>
             cont c \<and> cont d \<and> utf8_valid s'
         | _ \<Rightarrow> False)
      else False)"

definition LookupTypeNamed :: "gostring \<Rightarrow> ztype \<Rightarrow> ctx \<Rightarrow> (ztype \<times> ctx) go" where
  "LookupTypeNamed name inner c =
     (if \<not> utf8_valid name then Err (Errorf ''bad type name: invalid UTF-8'')
      else if LookupPrimitive name \<noteq> None then Err (Errorf ''bad type name: primitive type name'')
      else
        (let tv = AppendTypeValue [] (TypeNamed 0 name inner) in
         case toType c tv of
           Some typ \<Rightarrow>
             (case typ of
                TypeNamed _ _ _ \<Rightarrow> Ok (typ, c\<lparr>typedefs := (typedefs c)(name \<mapsto> typ)\<rparr>)
              | _ \<Rightarrow> Panic)
         | None \<Rightarrow>
             (let typ = TypeNamed (nextIDWithLock c) name inner
              in Ok (typ, enterWithLock tv typ (c\<lparr>typedefs := (typedefs c)(name \<mapsto> typ)\<rparr>)))))"

definition LookupTypeError :: "ztype \<Rightarrow> ctx \<Rightarrow> (ztype \<times> ctx) go" where
  "LookupTypeError inner c =
     (let tv = AppendTypeValue [] (TypeError 0 inner) in
      case toType c tv of
        Some typ \<Rightarrow> (case typ of TypeError _ _ \<Rightarrow> Ok (typ, c) | _ \<Rightarrow> Panic)
      | None \<Rightarrow>
          (let typ = TypeError (nextIDWithLock c) inner;
               c' = enterWithLock tv typ c
           in Ok (typ, if inner = TypePrimitive TypeString then c'\<lparr>stringErr := Some typ\<rparr> else c')))"

definition StringTypeError :: "ctx \<Rightarrow> (ztype \<times> ctx) go" where
  "StringTypeError c =
     (case stringErr c of
        Some typ \<Rightarrow> Ok (typ, c)
      | None \<Rightarrow> LookupTypeError (TypePrimitive TypeString) c)"

section \<open>Decoding type values\<close>

definition MaxEnumSymbols :: int where "MaxEnumSymbols = 100000"
definition MaxRecordFields :: int where "MaxRecordFields = 100000"
definition MaxUnionTypes :: int where "MaxUnionTypes = 100000"

definition DecodeLength :: "bytes \<Rightarrow> (int \<times> bytes) option" where
  "DecodeLength tv =
     (let (namelen, n) = uvarint tv in
      if n \<le> 0 then None else Some (sint namelen, drop (nat n) tv))"

definition DecodeName :: "bytes \<Rightarrow> (gostring \<times> bytes) option go" where
  "DecodeName tv =
     (case DecodeLength tv of
        None \<Rightarrow> Ok None
      | Some (namelen, tv) \<Rightarrow>
          (if namelen > int (length tv) then Ok None
           else bindR (go_slice tv 0 namelen) (\<lambda>name.
                bindR (go_slice tv namelen (int (length tv))) (\<lambda>rest. Ok (Some (name, rest))))))"

fun decodeSymbols :: "nat \<Rightarrow> bytes \<Rightarrow> gostring list \<Rightarrow> (gostring list \<times> bytes) option go" where
  "decodeSymbols 0 tv symbols = Ok (Some (symbols, tv))"
| "decodeSymbols (Suc k) tv symbols =
     bindR (DecodeName tv) (\<lambda>r. case r of
       None \<Rightarrow> Ok None
     | Some (symbol, tv) \<Rightarrow> decodeSymbols k tv (symbols @ [symbol]))"

lemma bindR_cong [fundef_cong]:
  "r = r' \<Longrightarrow> (\<And>x. r' = Ok x \<Longrightarrow> f x = g x) \<Longrightarrow> bindR r f = bindR r' g"
  by (cases r') auto

text \<open>
  The decoder's early returns: a nil remainder from the step before makes it return nil.
  \<open>nextT\<close> follows a step that may have changed the context, \<open>nextN\<close> one that cannot.
\<close>

definition nextT :: "(('a \<times> bytes) option \<times> ctx) go \<Rightarrow> ('a \<Rightarrow> bytes \<Rightarrow> ctx \<Rightarrow> ('b option \<times> ctx) go) \<Rightarrow>
    ('b option \<times> ctx) go" where
  "nextT r f = bindR r (\<lambda>(x, c). case x of None \<Rightarrow> Ok (None, c) | Some (a, tv) \<Rightarrow> f a tv c)"

definition nextN :: "('a \<times> bytes) option go \<Rightarrow> ctx \<Rightarrow> ('a \<Rightarrow> bytes \<Rightarrow> ('b option \<times> ctx) go) \<Rightarrow>
    ('b option \<times> ctx) go" where
  "nextN r c f = bindR r (\<lambda>x. case x of None \<Rightarrow> Ok (None, c) | Some (a, tv) \<Rightarrow> f a tv)"

lemma nextT_cong [fundef_cong]:
  "r = r' \<Longrightarrow> (\<And>a tv c. r' = Ok (Some (a, tv), c) \<Longrightarrow> f a tv c = g a tv c) \<Longrightarrow> nextT r f = nextT r' g"
  by (cases r') (auto simp: nextT_def split: option.split)

lemma nextN_cong [fundef_cong]:
  "r = r' \<Longrightarrow> c = c' \<Longrightarrow> (\<And>a tv. r' = Ok (Some (a, tv)) \<Longrightarrow> f a tv = g a tv) \<Longrightarrow>
   nextN r c f = nextN r' c' g"
  by (cases r') (auto simp: nextN_def split: option.split)

lemma nextT_Ok [go_inv]:
  "nextT r f = Ok (Some y, c') \<longleftrightarrow> (\<exists>a tv c. r = Ok (Some (a, tv), c) \<and> f a tv c = Ok (Some y, c'))"
  by (cases r) (auto simp: nextT_def split: option.splits)

lemma nextN_Ok [go_inv]:
  "nextN r c f = Ok (Some y, c') \<longleftrightarrow> (\<exists>a tv. r = Ok (Some (a, tv)) \<and> f a tv = Ok (Some y, c'))"
  by (cases r) (auto simp: nextN_def split: option.splits)

text \<open>The result of one of the \<open>Lookup\<close> calls inside the decoder: an error makes the decoder
  return nil.\<close>

definition looked_up :: "(ztype \<times> ctx) go \<Rightarrow> bytes \<Rightarrow> ctx \<Rightarrow> ((ztype \<times> bytes) option \<times> ctx) go" where
  "looked_up r tv c =
     (case r of Ok (typ, c') \<Rightarrow> Ok (Some (typ, tv), c') | Err _ \<Rightarrow> Ok (None, c) | Panic \<Rightarrow> Panic)"

function (sequential) DecodeTypeValue :: "ctx \<Rightarrow> bytes \<Rightarrow> ((ztype \<times> bytes) option \<times> ctx) go"
  and decodeFields :: "nat \<Rightarrow> ctx \<Rightarrow> bytes \<Rightarrow> (gostring \<times> ztype) list \<Rightarrow>
        (((gostring \<times> ztype) list \<times> bytes) option \<times> ctx) go"
  and decodeTypes :: "nat \<Rightarrow> ctx \<Rightarrow> zbytes \<Rightarrow> ztype option list \<Rightarrow>
        ((ztype option list \<times> zbytes) \<times> ctx) go"
where
  "DecodeTypeValue c [] = Ok (None, c)"
| "DecodeTypeValue c (code # tv) =
     (if code = 37 then
        nextN (DecodeName tv) c (\<lambda>name tv.
        nextT (DecodeTypeValue c tv) (\<lambda>typ tv c.
        looked_up (LookupTypeNamed name typ c) tv c))
      else if code = 38 then
        nextN (DecodeName tv) c (\<lambda>name tv.
        case LookupTypeDef name c of
          None \<Rightarrow> Ok (None, c)
        | Some typ \<Rightarrow> Ok (Some (typ, tv), c))
      else if code = 30 then
        nextN (Ok (DecodeLength tv)) c (\<lambda>n tv.
        if n > MaxRecordFields then Ok (None, c)
        else if n < 0 then Panic
        else nextT (decodeFields (nat n) c tv []) (\<lambda>flds tv c.
             looked_up (LookupTypeRecord flds c) tv c))
      else if code = 31 then
        nextT (DecodeTypeValue c tv) (\<lambda>inner tv c. looked_up (LookupTypeArray inner c) tv c)
      else if code = 32 then
        nextT (DecodeTypeValue c tv) (\<lambda>inner tv c. looked_up (LookupTypeSet inner c) tv c)
      else if code = 33 then
        nextT (DecodeTypeValue c tv) (\<lambda>keyType tv c.
        nextT (DecodeTypeValue c tv) (\<lambda>valType tv c.
        looked_up (LookupTypeMap keyType valType c) tv c))
      else if code = 34 then
        nextN (Ok (DecodeLength tv)) c (\<lambda>n tv.
        if n > MaxUnionTypes then Ok (None, c)
        else if n < 0 then Panic
        else bindR (decodeTypes (nat n) c (Some tv) []) (\<lambda>((types, tv), c).
             if None \<in> set types then Panic
             else looked_up (LookupTypeUnion (map the types) c) (buf tv) c))
      else if code = 35 then
        nextN (Ok (DecodeLength tv)) c (\<lambda>n tv.
        if n > MaxEnumSymbols then Ok (None, c)
        else nextN (decodeSymbols (nat n) tv []) c (\<lambda>symbols tv.
             looked_up (LookupTypeEnum symbols c) tv c))
      else if code = 36 then
        nextT (DecodeTypeValue c tv) (\<lambda>inner tv c. looked_up (LookupTypeError inner c) tv c)
      else
        (case LookupPrimitiveByID (int (unat code)) of
           Ok p \<Rightarrow> Ok (Some (TypePrimitive p, tv), c)
         | _ \<Rightarrow> Ok (None, c)))"
| "decodeFields 0 c tv flds = Ok (Some (flds, tv), c)"
| "decodeFields (Suc k) c tv flds =
     nextN (DecodeName tv) c (\<lambda>name tv.
     nextT (DecodeTypeValue c tv) (\<lambda>typ tv c.
     decodeFields k c tv (flds @ [(name, typ)])))"
| "decodeTypes 0 c tv types = Ok ((types, tv), c)"
| "decodeTypes (Suc k) c tv types =
     bindR (DecodeTypeValue c (buf tv)) (\<lambda>(r, c). case r of
       None \<Rightarrow> decodeTypes k c None (types @ [None])
     | Some (typ, tv) \<Rightarrow> decodeTypes k c (Some tv) (types @ [Some typ]))"
  by pat_completeness auto

lemma DecodeLength_shrinks: "DecodeLength tv = Some (n, tv') \<Longrightarrow> length tv' < length tv"
  by (cases tv) (auto simp: DecodeLength_def uvarint_def split: prod.splits if_splits)

lemma go_slice_len: "go_slice s lo hi = Ok x \<Longrightarrow> length x \<le> length s"
  by (auto simp: go_slice_def split: if_splits)

lemma DecodeName_shrinks: "DecodeName tv = Ok (Some (n, tv')) \<Longrightarrow> length tv' < length tv"
  by (auto simp: DecodeName_def go_inv split: option.splits if_splits
      dest!: DecodeLength_shrinks go_slice_len)

lemma decodeSymbols_shrinks:
  "decodeSymbols k tv ss = Ok (Some (ss', tv')) \<Longrightarrow> length tv' \<le> length tv"
  by (induction k arbitrary: tv ss) (fastforce simp: go_inv split: option.splits dest: DecodeName_shrinks)+

lemma looked_up_Ok: "looked_up r tv c = Ok (Some (t, rest), c') \<longleftrightarrow> rest = tv \<and> r = Ok (t, c')"
  by (auto simp: looked_up_def split: result.splits)

abbreviation "decode_dom \<equiv> DecodeTypeValue_decodeFields_decodeTypes_dom"

lemma decode_shrinks_partial:
  "decode_dom (Inl (c, tv)) \<Longrightarrow>
     (\<And>t rest c'. DecodeTypeValue c tv = Ok (Some (t, rest), c') \<Longrightarrow> length rest < length tv)"
  "decode_dom (Inr (Inl (k, c, tv1, fs))) \<Longrightarrow>
     (\<And>fs' rest c'. decodeFields k c tv1 fs = Ok (Some (fs', rest), c') \<Longrightarrow> length rest \<le> length tv1)"
  "decode_dom (Inr (Inr (k2, c, tv2, ts))) \<Longrightarrow>
     (\<And>ts' rest c'. decodeTypes k2 c tv2 ts = Ok ((ts', rest), c') \<Longrightarrow> length (buf rest) \<le> length (buf tv2))"
proof (induction rule: DecodeTypeValue_decodeFields_decodeTypes.pinduct)
  case (1 c)
  then show ?case by (simp add: DecodeTypeValue.psimps)
next
  case (2 c code tv)
  note eq = DecodeTypeValue.psimps(2) [OF 2(1)]
  consider "code = 37" | "code = 38" | "code = 30" | "code = 31" | "code = 32" | "code = 33"
    | "code = 34" | "code = 35" | "code = 36"
    | (prim) "code \<notin> {30, 31, 32, 33, 34, 35, 36, 37, 38}" by auto
  then show ?case
  proof cases
    assume code: "code = 37"
    with "2.prems" [unfolded eq] obtain n tv1 t1 c1 where A: "DecodeName tv = Ok (Some (n, tv1))"
        "DecodeTypeValue c tv1 = Ok (Some (t1, rest), c1)"
      by (auto simp: go_inv looked_up_Ok)
    with "2.IH"(1) [OF code A(1)] DecodeName_shrinks [OF A(1)] show ?thesis by fastforce
  next
    assume "code = 38"
    with "2.prems" [unfolded eq] show ?thesis
      by (fastforce simp: go_inv split: option.splits dest: DecodeName_shrinks)
  next
    assume code: "code = 30"
    with "2.prems" [unfolded eq] obtain n tv1 fs c1 where A: "DecodeLength tv = Some (n, tv1)"
        "decodeFields (nat n) c tv1 [] = Ok (Some (fs, rest), c1)" "\<not> n > MaxRecordFields" "\<not> n < 0"
      by (auto simp: go_inv looked_up_Ok split: if_splits)
    with "2.IH"(2) [OF _ _ code _ A(3,4)] DecodeLength_shrinks [OF A(1)] code show ?thesis by fastforce
  next
    assume code: "code = 31"
    with "2.prems" [unfolded eq] obtain t1 c1 where "DecodeTypeValue c tv = Ok (Some (t1, rest), c1)"
      by (auto simp: go_inv looked_up_Ok)
    with "2.IH"(3) code show ?thesis by fastforce
  next
    assume code: "code = 32"
    with "2.prems" [unfolded eq] obtain t1 c1 where "DecodeTypeValue c tv = Ok (Some (t1, rest), c1)"
      by (auto simp: go_inv looked_up_Ok)
    with "2.IH"(4) code show ?thesis by fastforce
  next
    assume code: "code = 33"
    with "2.prems" [unfolded eq] obtain t1 tv1 c1 t2 c2 where A: "DecodeTypeValue c tv = Ok (Some (t1, tv1), c1)"
        "DecodeTypeValue c1 tv1 = Ok (Some (t2, rest), c2)"
      by (auto simp: go_inv looked_up_Ok)
    with "2.IH"(5) "2.IH"(6) [OF _ _ _ _ _ code A(1)] code show ?thesis by fastforce
  next
    assume code: "code = 34"
    with "2.prems" [unfolded eq] obtain n tv1 ts rest' c1 where A: "DecodeLength tv = Some (n, tv1)"
        "decodeTypes (nat n) c (Some tv1) [] = Ok ((ts, rest'), c1)" "rest = buf rest'"
        "\<not> n > MaxUnionTypes" "\<not> n < 0"
      by (auto simp: go_inv looked_up_Ok split: if_splits)
    with "2.IH"(7) [OF _ _ _ _ _ _ code _ A(4,5)] DecodeLength_shrinks [OF A(1)] code show ?thesis by fastforce
  next
    assume code: "code = 35"
    with "2.prems" [unfolded eq] show ?thesis
      by (fastforce simp: go_inv looked_up_Ok split: if_splits
          dest: DecodeLength_shrinks decodeSymbols_shrinks)
  next
    assume code: "code = 36"
    with "2.prems" [unfolded eq] obtain t1 c1 where "DecodeTypeValue c tv = Ok (Some (t1, rest), c1)"
      by (auto simp: go_inv looked_up_Ok)
    with "2.IH"(8) code show ?thesis by fastforce
  next
    case prim
    with "2.prems" [unfolded eq] show ?thesis by (auto split: result.splits)
  qed
next
  case (3 c tv flds)
  then show ?case by (simp add: decodeFields.psimps)
next
  case (4 k c tv flds)
  from "4.prems" obtain n tv1 t1 tv2 c1 where A: "DecodeName tv = Ok (Some (n, tv1))"
      "DecodeTypeValue c tv1 = Ok (Some (t1, tv2), c1)"
      "decodeFields k c1 tv2 (flds @ [(n, t1)]) = Ok (Some (fs', rest), c')"
    by (auto simp: decodeFields.psimps(2) [OF 4(1)] go_inv)
  with "4.IH"(1) [OF A(1)] "4.IH"(2) [OF A(1,2)] DecodeName_shrinks [OF A(1)] show ?case by fastforce
next
  case (5 c tv types)
  then show ?case by (simp add: decodeTypes.psimps)
next
  case (6 k c tv types)
  from "6.prems" obtain r c1 where A: "DecodeTypeValue c (buf tv) = Ok (r, c1)"
    by (auto simp: decodeTypes.psimps(2) [OF 6(1)] go_inv)
  show ?case
  proof (cases r)
    case None
    with A "6.prems" "6.IH"(2) [OF A _ None] show ?thesis
      by (fastforce simp: decodeTypes.psimps(2) [OF 6(1)])
  next
    case (Some x)
    with A "6.prems" "6.IH"(1) "6.IH"(3) [OF A _ Some] show ?thesis
      by (cases x) (fastforce simp: decodeTypes.psimps(2) [OF 6(1)])
  qed
qed

lemma decode_total: "All decode_dom"
  by (relation "measures
      [\<lambda>x. case x of Inl (c, tv) \<Rightarrow> 2 * length tv
          | Inr (Inl (k, c, tv, _)) \<Rightarrow> 2 * length tv + 1
          | Inr (Inr (k, c, tv, _)) \<Rightarrow> 2 * length (buf tv) + 1,
       \<lambda>x. case x of Inl _ \<Rightarrow> 0 | Inr (Inl (k, _)) \<Rightarrow> k | Inr (Inr (k, _)) \<Rightarrow> k]")
     (auto dest!: DecodeName_shrinks DecodeLength_shrinks decode_shrinks_partial(1))

termination DecodeTypeValue
  by (rule decode_total)

lemma decode_shrinks:
  "DecodeTypeValue c tv = Ok (Some (t, rest), c') \<Longrightarrow> length rest < length tv"
  by (rule decode_shrinks_partial(1) [OF spec [OF decode_total]])

declare DecodeTypeValue.simps(2) [simp del] decodeFields.simps(2) [simp del] decodeTypes.simps(2) [simp del]

text \<open>
  \<open>LookupByValue\<close> and \<open>TranslateType\<close>: \<open>None\<close> is the error \<open>bad type value encoding\<close>.  Types
  met before the error stay in the context.
\<close>

definition LookupByValue :: "bytes \<Rightarrow> ctx \<Rightarrow> (ztype option \<times> ctx) go" where
  "LookupByValue tv c =
     (case toType c tv of
        Some typ \<Rightarrow> Ok (Some typ, c)
      | None \<Rightarrow>
          bindR (DecodeTypeValue c tv) (\<lambda>(r, c). case r of
            None \<Rightarrow> Ok (None, c)
          | Some (typ, rest) \<Rightarrow>
              Ok (Some typ, c\<lparr>toValue := (toValue c)(typ \<mapsto> tv), toType := (toType c)(tv \<mapsto> typ)\<rparr>)))"

definition TranslateType :: "ztype \<Rightarrow> ctx \<Rightarrow> (ztype option \<times> ctx) go" where
  "TranslateType ext c = LookupByValue (EncodeTypeValue ext) c"

section \<open>Values made by the context\<close>

text \<open>A value: its type and its bytes, which are nil for a null.\<close>

type_synonym zvalue = "ztype \<times> zbytes"

definition Missing :: bytes where "Missing = str ''missing''"
definition Quiet :: bytes where "Quiet = str ''quiet''"

definition Context_Missing :: "ctx \<Rightarrow> (zvalue \<times> ctx) go" where
  "Context_Missing c = bindR (StringTypeError c) (\<lambda>(typ, c). Ok ((typ, Some Missing), c))"

definition Context_Quiet :: "ctx \<Rightarrow> (zvalue \<times> ctx) go" where
  "Context_Quiet c = bindR (StringTypeError c) (\<lambda>(typ, c). Ok ((typ, Some Quiet), c))"

definition NewError :: "gostring \<Rightarrow> ctx \<Rightarrow> (zvalue \<times> ctx) go" where
  "NewError msg c = bindR (StringTypeError c) (\<lambda>(typ, c). Ok ((typ, Some msg), c))"

text \<open>The type value of a type.  A type of another context is first translated into this one,
  and the lookup is repeated.\<close>

partial_function (option) LookupTypeValue :: "ztype \<Rightarrow> ctx \<Rightarrow> (zvalue \<times> ctx) go option" where
  "LookupTypeValue typ c =
     (case toValue c typ of
        Some bs \<Rightarrow> Some (Ok ((TypePrimitive TypeType, Some bs), c))
      | None \<Rightarrow>
          (case LookupByValue (EncodeTypeValue typ) c of
             Ok (Some typ', c') \<Rightarrow> LookupTypeValue typ' c'
           | Ok (None, c') \<Rightarrow> Some (Context_Missing c')
           | Err e \<Rightarrow> Some (Err e)
           | Panic \<Rightarrow> Some Panic))"

definition MustLookupTypeRecord :: "(gostring \<times> ztype) list \<Rightarrow> ctx \<Rightarrow> (ztype \<times> ctx) go" where
  "MustLookupTypeRecord flds c = (case LookupTypeRecord flds c of Err e \<Rightarrow> Panic | r \<Rightarrow> r)"

definition WrapError :: "gostring \<Rightarrow> zvalue \<Rightarrow> ctx \<Rightarrow> (zvalue \<times> ctx) go" where
  "WrapError msg val c =
     bindR (MustLookupTypeRecord [(str ''message'', TypePrimitive TypeString), (str ''on'', fst val)] c) (\<lambda>(recType, c).
     bindR (LookupTypeError recType c) (\<lambda>(errType, c).
     let b = Builder_Append NewBuilder (Some msg);
         b = Builder_Append b (snd val)
     in bindR (Builder_Bytes b) (\<lambda>bs. Ok ((errType, bs), c))))"

end
