(* ===== verification/ContextInv.thy ===== *)
theory ContextInv
  imports Context
begin

text \<open>
  The invariant of the type context and its consequences.  A well-formed context interns:
  two of its types with the same structure are the same type, so pointer comparison decides
  type equality, and the type order does not depend on the context.
\<close>

section \<open>The invariant\<close>

definition types :: "ctx \<Rightarrow> ztype set" where
  "types c = {t. Some t \<in> set (byID c)}"

fun isPrim :: "ztype \<Rightarrow> bool" where
  "isPrim (TypePrimitive p) = True"
| "isPrim _ = False"

text \<open>The types that belong to a context: primitive types belong to every context.\<close>

definition inC :: "ctx \<Rightarrow> ztype \<Rightarrow> bool" where
  "inC c t \<longleftrightarrow> isPrim t \<or> t \<in> types c"

text \<open>
  The conditions on one node: field names are distinct, union types are in the type order,
  the counts are within the decoder's limits, and a type name is not that of a primitive type.
\<close>

fun node_ok :: "ztype \<Rightarrow> bool" where
  "node_ok (TypeRecord i fs) = (distinct (map fst fs) \<and> int (length fs) \<le> MaxRecordFields)"
| "node_ok (TypeUnion i ts) =
     (ordered (\<lambda>a b. CompareTypes a b < 0) ts \<and> int (length ts) \<le> MaxUnionTypes)"
| "node_ok (TypeEnum i ss) = (int (length ss) \<le> MaxEnumSymbols)"
| "node_ok (TypeNamed i n t) = (utf8_valid n \<and> LookupPrimitive n = None)"
| "node_ok _ = True"

definition wf_ids :: "ctx \<Rightarrow> bool" where
  "wf_ids c \<longleftrightarrow> 30 \<le> length (byID c) \<and> (\<forall>i < 30. byID c ! i = None) \<and>
     (\<forall>i. 30 \<le> i \<and> i < length (byID c) \<longrightarrow>
        (\<exists>t. byID c ! i = Some t \<and> TypeID t = i \<and> \<not> isPrim t))"

text \<open>The types of a context are closed under components, well-formed, and determined by their
  structure.\<close>

definition wf_types :: "ctx \<Rightarrow> bool" where
  "wf_types c \<longleftrightarrow> wf_ids c \<and>
     (\<forall>t \<in> types c. (\<forall>s \<in> set (children t). inC c s) \<and> node_ok t \<and> lens_ok t) \<and>
     inj_on erase (types c)"

text \<open>The structures that types of well-formed contexts have.\<close>

definition canon :: "ztype \<Rightarrow> bool" where
  "canon e \<longleftrightarrow> (\<exists>d t. wf_types d \<and> inC d t \<and> erase t = e)"

definition wf_ctx :: "ctx \<Rightarrow> bool" where
  "wf_ctx c \<longleftrightarrow> wf_types c \<and>
     (\<forall>t \<in> types c. toType c (EncodeTypeValue t) = Some t) \<and>
     (\<forall>tv t. toType c tv = Some t \<longrightarrow>
        inC c t \<and> (\<forall>e. canon e \<and> EncodeTypeValue e = tv \<longrightarrow> erase t = e)) \<and>
     (\<forall>n t. typedefs c n = Some t \<longrightarrow> t \<in> types c \<and> (\<exists>i s. t = TypeNamed i n s))"

lemma wf_typesD:
  assumes "wf_types c"
  shows "wf_ids c"
    "t \<in> types c \<Longrightarrow> s \<in> set (children t) \<Longrightarrow> inC c s"
    "t \<in> types c \<Longrightarrow> node_ok t"
    "t \<in> types c \<Longrightarrow> lens_ok t"
    "inj_on erase (types c)"
  using assms unfolding wf_types_def by blast+

lemma wf_ctxD:
  assumes "wf_ctx c"
  shows "wf_types c"
    "t \<in> types c \<Longrightarrow> s \<in> set (children t) \<Longrightarrow> inC c s"
    "t \<in> types c \<Longrightarrow> node_ok t"
    "t \<in> types c \<Longrightarrow> lens_ok t"
    "t \<in> types c \<Longrightarrow> toType c (EncodeTypeValue t) = Some t"
    "toType c tv = Some t \<Longrightarrow> inC c t"
    "toType c (EncodeTypeValue e) = Some t \<Longrightarrow> canon e \<Longrightarrow> erase t = e"
    "typedefs c n = Some t \<Longrightarrow> t \<in> types c"
    "typedefs c n = Some t \<Longrightarrow> \<exists>i s. t = TypeNamed i n s"
  using assms unfolding wf_ctx_def wf_types_def by blast+

lemma types_TypeID:
  "wf_ids c \<Longrightarrow> t \<in> types c \<Longrightarrow>
   30 \<le> TypeID t \<and> TypeID t < length (byID c) \<and> byID c ! TypeID t = Some t \<and> \<not> isPrim t"
  unfolding wf_ids_def types_def mem_Collect_eq in_set_conv_nth
  by (metis linorder_not_less option.inject option.distinct(1))

lemma inC_Prim [simp]: "inC c (TypePrimitive p)"
  by (simp add: inC_def)

lemma inC_lens_ok: "wf_types c \<Longrightarrow> inC c t \<Longrightarrow> lens_ok t"
  by (cases "isPrim t") (auto simp: inC_def dest: wf_typesD(4) elim: isPrim.elims)

lemma inC_children: "wf_types c \<Longrightarrow> inC c t \<Longrightarrow> s \<in> set (children t) \<Longrightarrow> inC c s"
  by (cases "isPrim t") (auto simp: inC_def [of c t] dest: wf_typesD(2) elim: isPrim.elims)

lemma closed_inC: "wf_types c \<Longrightarrow> closed {t. inC c t}"
  by (auto simp: closed_def intro: inC_children)

section \<open>Interning\<close>

text \<open>The type with another ID at its root; the encoding does not depend on it.\<close>

fun set_id :: "nat \<Rightarrow> ztype \<Rightarrow> ztype" where
  "set_id i (TypePrimitive p) = TypePrimitive p"
| "set_id i (TypeRecord j fs) = TypeRecord i fs"
| "set_id i (TypeArray j t) = TypeArray i t"
| "set_id i (TypeSet j t) = TypeSet i t"
| "set_id i (TypeMap j k v) = TypeMap i k v"
| "set_id i (TypeUnion j ts) = TypeUnion i ts"
| "set_id i (TypeEnum j ss) = TypeEnum i ss"
| "set_id i (TypeError j t) = TypeError i t"
| "set_id i (TypeNamed j n t) = TypeNamed i n t"

lemma set_id_simps [simp]:
  "EncodeTypeValue (set_id i t) = EncodeTypeValue t" "erase (set_id i t) = erase t"
  "children (set_id i t) = children t" "lens_ok (set_id i t) = lens_ok t"
  "node_ok (set_id i t) = node_ok t" "isPrim (set_id i t) = isPrim t"
  "\<not> isPrim t \<Longrightarrow> TypeID (set_id i t) = i"
  by (cases t; simp add: EncodeTypeValue_eq TypeID_def)+

text \<open>Two types of one structure whose children are identified by their structure differ
  at most in the root ID.\<close>

lemma erase_eq_set_id:
  assumes eq: "erase t = erase u"
    and inj: "\<And>x y. x \<in> set (children t) \<Longrightarrow> y \<in> set (children u) \<Longrightarrow> erase x = erase y \<Longrightarrow> x = y"
  shows "t = set_id (TypeID t) u"
proof (cases t)
  case (TypeRecord i fs)
  with eq obtain j gs where u: "u = TypeRecord j gs" by (cases u) simp_all
  have "fs = gs"
  proof (rule nth_equalityI)
    show len: "length fs = length gs" using eq TypeRecord u by (auto dest: map_eq_imp_length_eq)
    fix k assume k: "k < length fs"
    have "map (\<lambda>(n, t). (n, erase t)) fs ! k = map (\<lambda>(n, t). (n, erase t)) gs ! k"
      using eq TypeRecord u by simp
    then have "fst (fs ! k) = fst (gs ! k)" "erase (snd (fs ! k)) = erase (snd (gs ! k))"
      using k len by (auto simp: case_prod_unfold)
    with inj [of "snd (fs ! k)" "snd (gs ! k)"] TypeRecord u k len show "fs ! k = gs ! k"
      by (auto intro: prod_eqI)
  qed
  with TypeRecord u show ?thesis by (simp add: TypeID_def)
next
  case (TypeUnion i ts)
  with eq obtain j us where u: "u = TypeUnion j us" by (cases u) simp_all
  have "ts = us"
  proof (rule nth_equalityI)
    show len: "length ts = length us" using eq TypeUnion u by (auto dest: map_eq_imp_length_eq)
    fix k assume k: "k < length ts"
    have "map erase ts ! k = map erase us ! k" using eq TypeUnion u by simp
    with inj [of "ts ! k" "us ! k"] TypeUnion u k len show "ts ! k = us ! k" by simp
  qed
  with TypeUnion u show ?thesis by (simp add: TypeID_def)
next
  case (TypePrimitive p)
  with eq show ?thesis by (cases u) simp_all
next
  case (TypeArray i x)
  with eq obtain j y where u: "u = TypeArray j y" by (cases u) simp_all
  with TypeArray eq inj [of x y] show ?thesis by (simp add: TypeID_def)
next
  case (TypeSet i x)
  with eq obtain j y where u: "u = TypeSet j y" by (cases u) simp_all
  with TypeSet eq inj [of x y] show ?thesis by (simp add: TypeID_def)
next
  case (TypeError i x)
  with eq obtain j y where u: "u = TypeError j y" by (cases u) simp_all
  with TypeError eq inj [of x y] show ?thesis by (simp add: TypeID_def)
next
  case (TypeNamed i n x)
  with eq obtain j y where u: "u = TypeNamed j n y" by (cases u) simp_all
  with TypeNamed eq inj [of x y] show ?thesis by (simp add: TypeID_def)
next
  case (TypeMap i k v)
  with eq obtain j k' v' where u: "u = TypeMap j k' v'" by (cases u) simp_all
  with TypeMap eq inj [of k k'] inj [of v v'] show ?thesis by (simp add: TypeID_def)
next
  case (TypeEnum i ss)
  with eq show ?thesis by (cases u) (simp_all add: TypeID_def)
qed

lemma children_size: "s \<in> set (children t) \<Longrightarrow> size s < size t"
  by (cases t) (auto dest: size_field_less size_union_less)

text \<open>Pointer comparison decides structural equality.\<close>

lemma isPrim_erase [simp]: "isPrim (erase t) = isPrim t"
  by (cases t) simp_all

lemma erase_inj: "wf_types c \<Longrightarrow> inC c t \<Longrightarrow> inC c u \<Longrightarrow> erase t = erase u \<Longrightarrow> t = u"
proof (cases "isPrim t")
  case True
  assume "erase t = erase u"
  with True show "t = u" by (cases t; cases u) simp_all
next
  case False
  assume A: "wf_types c" "inC c t" "inC c u" "erase t = erase u"
  then have "\<not> isPrim u" using False by (metis isPrim_erase)
  with False A have "t \<in> types c" "u \<in> types c" by (simp_all add: inC_def)
  with wf_typesD(5) [OF A(1)] A(4) show "t = u" by (auto dest: inj_onD)
qed

lemma inj_erase_inC: "wf_types c \<Longrightarrow> inj_on erase {t. inC c t}"
  by (auto intro: inj_onI erase_inj)

text \<open>The encoding of a node depends on its structure only, when its children are in the context.\<close>

lemma Encode_erase:
  assumes wf: "wf_types c" and ch: "\<And>s. s \<in> set (children t) \<Longrightarrow> inC c s"
  shows "EncodeTypeValue (erase t) = EncodeTypeValue t"
proof -
  note E = emit_erase [OF inj_erase_inC [OF wf] closed_inC [OF wf]]
  have E1: "emitT (erase s) Map.empty = (fst (emitT s Map.empty), eraseM (snd (emitT s Map.empty)))"
     "ran (snd (emitT s Map.empty)) \<subseteq> {t. inC c t}" if "inC c s" for s
    using E(1) [of s Map.empty] that by simp_all
  show ?thesis unfolding EncodeTypeValue_eq
  proof (cases t)
    case (TypeRecord i fs)
    with ch E(2) [of fs Map.empty] show "fst (emitT (erase t) Map.empty) = fst (emitT t Map.empty)"
      by (simp add: image_subset_iff)
  next
    case (TypeUnion i ts)
    with ch E(3) [of ts Map.empty] show "fst (emitT (erase t) Map.empty) = fst (emitT t Map.empty)"
      by (simp add: subset_iff)
  next
    case (TypeMap i k v)
    with ch E1 [of k] E(1) [of v "snd (emitT k Map.empty)"]
    show "fst (emitT (erase t) Map.empty) = fst (emitT t Map.empty)" by simp
  qed (use ch E1 in simp_all)
qed

lemma Encode_erase_inC: "wf_types c \<Longrightarrow> inC c t \<Longrightarrow> EncodeTypeValue (erase t) = EncodeTypeValue t"
  by (rule Encode_erase) (auto intro: inC_children)

section \<open>Creating types keeps the invariant\<close>

definition ext_ctx :: "ctx \<Rightarrow> ctx \<Rightarrow> bool" where
  "ext_ctx c c' \<longleftrightarrow> (\<exists>xs. byID c' = byID c @ xs)"

lemma ext_ctx_refl [simp]: "ext_ctx c c"
  by (simp add: ext_ctx_def)

lemma ext_ctx_trans [trans]: "ext_ctx a b \<Longrightarrow> ext_ctx b c \<Longrightarrow> ext_ctx a c"
  by (auto simp: ext_ctx_def)

lemma ext_ctx_types: "ext_ctx c c' \<Longrightarrow> t \<in> types c \<Longrightarrow> t \<in> types c'"
  by (auto simp: ext_ctx_def types_def)

lemma ext_ctx_inC: "ext_ctx c c' \<Longrightarrow> inC c t \<Longrightarrow> inC c' t"
  by (auto simp: inC_def ext_ctx_types)

lemma enter_simps [simp]:
  "byID (enterWithLock tv t c) = byID c @ [Some t]"
  "toType (enterWithLock tv t c) = (toType c)(tv \<mapsto> t)"
  "typedefs (enterWithLock tv t c) = typedefs c"
  "stringErr (enterWithLock tv t c) = stringErr c"
  "types (enterWithLock tv t c) = insert t (types c)"
  by (auto simp: enterWithLock_def types_def)

lemma ext_enter [simp]: "ext_ctx c (enterWithLock tv t c)"
  by (simp add: ext_ctx_def)

lemma inC_enter: "inC (enterWithLock tv t c) s \<longleftrightarrow> s = t \<or> inC c s"
  by (auto simp: inC_def)

lemma wf_ids_enter:
  "wf_ids c \<Longrightarrow> TypeID t = length (byID c) \<Longrightarrow> \<not> isPrim t \<Longrightarrow> wf_ids (enterWithLock tv t c)"
  unfolding wf_ids_def by (auto simp: nth_append less_Suc_eq)

text \<open>A node that may be added: its components are in the context.\<close>

definition internable :: "ctx \<Rightarrow> ztype \<Rightarrow> bool" where
  "internable c n \<longleftrightarrow> \<not> isPrim n \<and> node_ok n \<and> lens_ok n \<and> (\<forall>s \<in> set (children n). inC c s)"

lemma wf_types_enter:
  assumes wf: "wf_types c" and n: "internable c n" and new: "\<And>t. t \<in> types c \<Longrightarrow> erase t \<noteq> erase n"
  shows "wf_types (enterWithLock tv (set_id (length (byID c)) n) c)"
proof -
  let ?t = "set_id (length (byID c)) n"
  have "wf_ids (enterWithLock tv ?t c)"
    using wf_ids_enter [OF wf_typesD(1) [OF wf]] n by (simp add: internable_def)
  moreover have "inj_on erase (insert ?t (types c))"
    using wf_typesD(5) [OF wf] new unfolding inj_on_insert by (auto simp: image_iff) metis
  moreover have "inC (enterWithLock tv ?t c) s" if "t = ?t \<or> t \<in> types c" "s \<in> set (children t)" for t s
    using that n wf_typesD(2) [OF wf] by (auto simp: inC_enter internable_def)
  ultimately show ?thesis
    using n wf_typesD(3,4) [OF wf] unfolding wf_types_def by (auto simp: internable_def)
qed

lemma internable_canon:
  assumes wf: "wf_types c" and n: "internable c n"
  shows "canon (erase n)"
proof (cases "\<exists>t \<in> types c. erase t = erase n")
  case True
  then show ?thesis using wf unfolding canon_def inC_def by blast
next
  case False
  let ?d = "enterWithLock [] (set_id (length (byID c)) n) c"
  have "wf_types ?d" by (rule wf_types_enter [OF wf n]) (use False in blast)
  moreover have "inC ?d (set_id (length (byID c)) n)" by (simp add: inC_enter)
  ultimately show ?thesis unfolding canon_def by (metis set_id_simps(2))
qed

lemma canonD:
  assumes "canon e"
  shows "erase e = e" "lens_ok e"
  using assms inC_lens_ok unfolding canon_def by auto

lemma internable_Encode_erase:
  "wf_types c \<Longrightarrow> internable c n \<Longrightarrow> EncodeTypeValue (erase n) = EncodeTypeValue n"
  by (rule Encode_erase) (auto simp: internable_def)

lemma wf_enter:
  assumes wf: "wf_ctx c" and n: "internable c n" and new: "toType c (EncodeTypeValue n) = None"
  shows "wf_ctx (enterWithLock (EncodeTypeValue n) (set_id (length (byID c)) n) c)"
proof -
  let ?t = "set_id (length (byID c)) n"
  let ?c = "enterWithLock (EncodeTypeValue n) ?t c"
  note wt = wf_ctxD(1) [OF wf]
  have old: "EncodeTypeValue t \<noteq> EncodeTypeValue n" if "t \<in> types c" for t
    using wf_ctxD(5) [OF wf that] new by auto
  have ne: "erase t \<noteq> erase n" if "t \<in> types c" for t
    using old [OF that] Encode_erase_inC [OF wt, of t] internable_Encode_erase [OF wt n] that
    by (metis inC_def)
  have struct: "erase n = e" if "canon e" "EncodeTypeValue e = EncodeTypeValue n" for e
    using EncodeTypeValue_inj [of "erase n" e] internable_Encode_erase [OF wt n] canonD [OF that(1)] that(2) n
    by (simp add: internable_def)
  show ?thesis
    unfolding wf_ctx_def
  proof (intro conjI ballI allI impI)
    show "wf_types ?c" by (rule wf_types_enter [OF wt n ne])
  next
    fix t assume "t \<in> types ?c"
    then show "toType ?c (EncodeTypeValue t) = Some t" using wf_ctxD(5) [OF wf] old by auto
  next
    fix tv t assume "toType ?c tv = Some t"
    then show "inC ?c t" using wf_ctxD(6) [OF wf] by (auto simp: inC_enter split: if_splits)
  next
    fix tv t e
    assume "toType ?c tv = Some t" "canon e \<and> EncodeTypeValue e = tv"
    then show "erase t = e" using struct [of e] wf_ctxD(7) [OF wf] by (auto split: if_splits)
  next
    fix m t assume "typedefs ?c m = Some t"
    then show "t \<in> types ?c" "\<exists>i s. t = TypeNamed i m s" using wf_ctxD(8,9) [OF wf] by auto
  qed
qed

text \<open>What every \<open>Lookup\<close> does with the node it is asked for.\<close>

definition intern :: "ztype \<Rightarrow> ctx \<Rightarrow> ztype \<times> ctx" where
  "intern n c =
     (case toType c (EncodeTypeValue n) of
        Some typ \<Rightarrow> (typ, c)
      | None \<Rightarrow> (set_id (length (byID c)) n,
                 enterWithLock (EncodeTypeValue n) (set_id (length (byID c)) n) c))"

lemma intern_found:
  assumes wf: "wf_ctx c" and n: "internable c n" and t: "toType c (EncodeTypeValue n) = Some t"
  shows "t \<in> types c \<and> t = set_id (TypeID t) n"
proof -
  note wt = wf_ctxD(1) [OF wf]
  have "toType c (EncodeTypeValue (erase n)) = Some t"
    using t internable_Encode_erase [OF wt n] by simp
  then have er: "erase t = erase n" by (rule wf_ctxD(7) [OF wf _ internable_canon [OF wt n]])
  have tC: "inC c t" by (rule wf_ctxD(6) [OF wf t])
  have "t = set_id (TypeID t) n"
  proof (rule erase_eq_set_id [OF er])
    fix x y assume "x \<in> set (children t)" "y \<in> set (children n)" "erase x = erase y"
    with erase_inj [OF wt] inC_children [OF wt tC] n show "x = y" unfolding internable_def by blast
  qed
  moreover from this have "\<not> isPrim t" using n by (metis internable_def set_id_simps(6))
  ultimately show ?thesis using tC by (simp add: inC_def)
qed

lemma intern_spec:
  assumes wf: "wf_ctx c" and n: "internable c n" and r: "intern n c = (t, c')"
  shows "wf_ctx c'" "ext_ctx c c'" "t \<in> types c'" "t = set_id (TypeID t) n"
    "typedefs c' = typedefs c" "toType c' (EncodeTypeValue n) = Some t" "stringErr c' = stringErr c"
proof -
  have "wf_ctx c' \<and> ext_ctx c c' \<and> t \<in> types c' \<and> t = set_id (TypeID t) n \<and> typedefs c' = typedefs c \<and>
    toType c' (EncodeTypeValue n) = Some t \<and> stringErr c' = stringErr c"
  proof (cases "toType c (EncodeTypeValue n)")
    case None
    then have "t = set_id (length (byID c)) n" "c' = enterWithLock (EncodeTypeValue n) t c"
      using r by (auto simp: intern_def)
    then show ?thesis
      using wf_enter [OF wf n None] n by (auto simp: internable_def)
  next
    case (Some s)
    then show ?thesis using r intern_found [OF wf n Some] wf by (simp add: intern_def)
  qed
  then show "wf_ctx c'" "ext_ctx c c'" "t \<in> types c'" "t = set_id (TypeID t) n"
    "typedefs c' = typedefs c" "toType c' (EncodeTypeValue n) = Some t" "stringErr c' = stringErr c"
    by blast+
qed

end
