(* ===== verification/Lookup.thy ===== *)
theory Lookup
  imports ContextInv
begin

text \<open>
  The \<open>Lookup\<close> operations of the context implement one contract, interning, stated as a
  locale and interpreted for each of the eight operations.
\<close>

section \<open>The contract\<close>

text \<open>
  \<open>look x c\<close> returns the type of the context with the structure of \<open>node x\<close>, creating it if
  the context does not have it, and keeps the types the context has.  \<open>pre\<close> is what the caller
  must ensure: the component types come from the context.
\<close>

locale interning =
  fixes look :: "'a \<Rightarrow> ctx \<Rightarrow> (ztype \<times> ctx) go"
    and node :: "'a \<Rightarrow> ztype"
    and pre :: "ctx \<Rightarrow> 'a \<Rightarrow> bool"
  assumes look_ok: "wf_ctx c \<Longrightarrow> pre c x \<Longrightarrow>
      \<exists>t c'. look x c = Ok (t, c') \<and> wf_ctx c' \<and> ext_ctx c c' \<and> t \<in> types c' \<and> erase t = erase (node x)"
    and pre_mono: "ext_ctx c c' \<Longrightarrow> pre c x \<Longrightarrow> pre c' x"
begin

lemma look_result:
  assumes "wf_ctx c" "pre c x" "look x c = Ok (t, c')"
  shows "wf_ctx c'" "ext_ctx c c'" "t \<in> types c'" "erase t = erase (node x)"
  using look_ok [OF assms(1,2)] assms(3) by auto

text \<open>A later call with the same argument returns the same type, whatever was created between.\<close>

lemma look_again:
  assumes c: "wf_ctx c" "pre c x" "look x c = Ok (t, c1)"
    and later: "ext_ctx c1 c2" "wf_ctx c2"
  shows "\<exists>c3. look x c2 = Ok (t, c3)"
proof -
  note r = look_result [OF c]
  have "pre c2 x" using pre_mono ext_ctx_trans r(2) later(1) c(2) by blast
  then obtain t' c3 where l: "look x c2 = Ok (t', c3)" "wf_ctx c3" "ext_ctx c2 c3" "t' \<in> types c3"
      "erase t' = erase (node x)"
    using look_ok [OF later(2)] by blast
  have "t \<in> types c3" using ext_ctx_types l(3) later(1) r(3) by blast
  with erase_inj [OF wf_ctxD(1) [OF l(2)], of t t'] l(4,5) r(4) have "t = t'" by (simp add: inC_def)
  with l(1) show ?thesis by simp
qed

text \<open>Two calls return the same type exactly when they ask for the same structure.\<close>

lemma look_eq_iff:
  assumes "wf_ctx c" "pre c x" "look x c = Ok (t, c1)" "pre c1 y" "look y c1 = Ok (u, c2)"
  shows "t = u \<longleftrightarrow> erase (node x) = erase (node y)"
proof -
  note r = look_result [OF assms(1-3)]
  note r2 = look_result [OF r(1) assms(4,5)]
  have "t \<in> types c2" using ext_ctx_types r2(2) r(3) by blast
  with erase_inj [OF wf_ctxD(1) [OF r2(1)], of t u] r2(3,4) r(4) show ?thesis by (auto simp: inC_def)
qed

end

section \<open>Field names\<close>

lemma strings_Compare_trans:
  "strings_Compare a b \<le> 0 \<Longrightarrow> strings_Compare b c \<le> 0 \<Longrightarrow> strings_Compare a c \<le> 0"
  by (induction a b arbitrary: c rule: strings_Compare.induct)
     (case_tac c; auto split: if_splits)+

lemma strings_lt_iff: "\<not> strings_Compare y x < 0 \<longleftrightarrow> strings_Compare x y \<le> 0"
  using strings_Compare_antisym [of y x] by linarith

lemma strings_lt_asym: "strings_Compare a b < 0 \<Longrightarrow> \<not> strings_Compare b a < 0"
  using strings_Compare_antisym [of a b] by linarith

lemma sorted_strings:
  "sorted_wrt (\<lambda>x y. strings_Compare x y \<le> 0) (SliceStable (\<lambda>a b. strings_Compare a b < 0) xs)"
proof -
  have "ordered (\<lambda>a b. strings_Compare a b < 0) (SliceStable (\<lambda>a b. strings_Compare a b < 0) xs)"
    by (rule SliceStable_ordered) (use strings_lt_asym in blast)
  moreover have "transp (\<lambda>x y. strings_Compare x y \<le> 0)"
    by (rule transpI) (rule strings_Compare_trans)
  ultimately show ?thesis by (simp add: strings_lt_iff successively_conv_sorted_wrt)
qed

lemma adjacent_dup_distinct:
  "sorted_wrt (\<lambda>x y. strings_Compare x y \<le> 0) (p # ns) \<Longrightarrow> adjacent_dup p ns = None \<longleftrightarrow> distinct (p # ns)"
proof (induction ns arbitrary: p)
  case (Cons n ns)
  have "p = n" if "p \<in> set ns"
  proof -
    have "strings_Compare p n \<le> 0" "strings_Compare n p \<le> 0" using Cons.prems that by auto
    then have "strings_Compare p n = 0" using strings_Compare_antisym [of n p] by linarith
    then show ?thesis by simp
  qed
  with Cons show ?case by auto
qed simp

text \<open>The sort-and-scan check finds a duplicate exactly when there is one.\<close>

lemma duplicateField_None_iff: "duplicateField fs = None \<longleftrightarrow> distinct (map fst fs)"
proof (cases "length fs < 2")
  case True
  then show ?thesis by (cases fs rule: remdups_adj.cases) (auto simp: duplicateField_def)
next
  case False
  let ?s = "SliceStable (\<lambda>a b. strings_Compare a b < 0) (map fst fs)"
  have "?s \<noteq> []" using False by (metis length_SliceStable length_map list.size(3) zero_less_numeral)
  then obtain p ns where s: "?s = p # ns" by (cases ?s) auto
  have "distinct ?s \<longleftrightarrow> distinct (map fst fs)"
    by (rule mset_eq_imp_distinct_iff) simp
  with False s adjacent_dup_distinct [of p ns] sorted_strings [of "map fst fs"] show ?thesis
    by (simp add: duplicateField_def)
qed

section \<open>The operations\<close>

lemmas intern_defs = intern_def AppendTypeValue_eq Let_def nextIDWithLock_def

lemma LookupTypeSet_eq:
  assumes "wf_ctx c" "internable c (TypeSet 0 inner)"
  shows "LookupTypeSet inner c = Ok (intern (TypeSet 0 inner) c)"
  using intern_found [OF assms]
  by (auto simp: LookupTypeSet_def intern_defs split: option.split ztype.split)

lemma LookupTypeArray_eq:
  assumes "wf_ctx c" "internable c (TypeArray 0 inner)"
  shows "LookupTypeArray inner c = Ok (intern (TypeArray 0 inner) c)"
  using intern_found [OF assms]
  by (auto simp: LookupTypeArray_def intern_defs split: option.split ztype.split)

lemma LookupTypeMap_eq:
  assumes "wf_ctx c" "internable c (TypeMap 0 k v)"
  shows "LookupTypeMap k v c = Ok (intern (TypeMap 0 k v) c)"
  using intern_found [OF assms]
  by (auto simp: LookupTypeMap_def intern_defs split: option.split ztype.split)

lemma LookupTypeEnum_eq:
  assumes "wf_ctx c" "internable c (TypeEnum 0 ss)"
  shows "LookupTypeEnum ss c = Ok (intern (TypeEnum 0 ss) c)"
  using intern_found [OF assms]
  by (auto simp: LookupTypeEnum_def intern_defs split: option.split ztype.split)

lemma LookupTypeUnion_eq:
  assumes "wf_ctx c" "internable c (TypeUnion 0 (sortTypes ts))"
  shows "LookupTypeUnion ts c = Ok (intern (TypeUnion 0 (sortTypes ts)) c)"
  using intern_found [OF assms]
  by (auto simp: LookupTypeUnion_def intern_defs split: option.split ztype.split)

lemma sortTypes_ordered: "ordered (\<lambda>a b. CompareTypes a b < 0) (sortTypes ts)"
  unfolding sortTypes_def
  by (rule SliceStable_ordered) (metis CompareTypes_antisym neg_less_0_iff_less not_less_iff_gr_or_eq)

lemma sortTypes_again [simp]: "sortTypes (sortTypes ts) = sortTypes ts"
  using SliceStable_id [OF sortTypes_ordered] by (simp add: sortTypes_def)

lemma LookupTypeUnion_sorted [simp]: "LookupTypeUnion (sortTypes ts) = LookupTypeUnion ts"
  by (rule ext) (simp add: LookupTypeUnion_def Let_def)

lemma LookupTypeRecord_eq:
  assumes "wf_ctx c" "internable c (TypeRecord 0 fs)"
  shows "LookupTypeRecord fs c = Ok (intern (TypeRecord 0 fs) c)"
  using intern_found [OF assms] assms(2) duplicateField_None_iff [of fs]
  by (auto simp: LookupTypeRecord_def intern_defs internable_def split: option.split ztype.split)

lemma types_typedefs [simp]: "types (c\<lparr>typedefs := m\<rparr>) = types c"
  and types_stringErr [simp]: "types (c\<lparr>stringErr := e\<rparr>) = types c"
  by (simp_all add: types_def)

lemma ext_ctx_fields [simp]:
  "ext_ctx c (d\<lparr>typedefs := m\<rparr>) = ext_ctx c d" "ext_ctx c (d\<lparr>stringErr := e\<rparr>) = ext_ctx c d"
  by (simp_all add: ext_ctx_def)

lemma wf_stringErr [simp]: "wf_ctx (c\<lparr>stringErr := e\<rparr>) = wf_ctx c"
  by (simp add: wf_ctx_def wf_types_def wf_ids_def inC_def)

lemma wf_typedef:
  assumes "wf_ctx c" "TypeNamed i n s \<in> types c"
  shows "wf_ctx (c\<lparr>typedefs := (typedefs c)(n \<mapsto> TypeNamed i n s)\<rparr>)"
proof -
  let ?c = "c\<lparr>typedefs := (typedefs c)(n \<mapsto> TypeNamed i n s)\<rparr>"
  have same: "wf_types ?c = wf_types c" "inC ?c = inC c" "toType ?c = toType c"
    by (simp_all add: wf_types_def wf_ids_def inC_def fun_eq_iff)
  have "typedefs ?c m = Some t \<Longrightarrow> t \<in> types c \<and> (\<exists>i s. t = TypeNamed i m s)" for m t
    using assms(2) wf_ctxD(8,9) [OF assms(1)] by (auto split: if_splits)
  then show ?thesis
    using assms(1) unfolding wf_ctx_def same types_typedefs by blast
qed

lemma LookupTypeNamed_eq:
  assumes "wf_ctx c" "internable c (TypeNamed 0 n s)" "intern (TypeNamed 0 n s) c = (t, c')"
  shows "LookupTypeNamed n s c = Ok (t, c'\<lparr>typedefs := (typedefs c')(n \<mapsto> t)\<rparr>)"
  using intern_found [OF assms(1,2)] assms(2,3)
  by (auto simp: LookupTypeNamed_def intern_defs internable_def enterWithLock_def
      split: option.splits ztype.split)

lemma LookupTypeError_eq:
  assumes "wf_ctx c" "internable c (TypeError 0 inner)" "intern (TypeError 0 inner) c = (t, c')"
  shows "\<exists>e. LookupTypeError inner c = Ok (t, c'\<lparr>stringErr := e\<rparr>)"
  using intern_found [OF assms(1,2)] assms(3)
  by (auto simp: LookupTypeError_def intern_defs split: option.splits ztype.split intro: exI [of _ "stringErr c"])

lemma intern_erase: "t = set_id i n \<Longrightarrow> erase t = erase n"
  by simp

lemma intern_ok:
  assumes "wf_ctx c" "internable c n"
  shows "\<exists>t c'. Ok (intern n c) = Ok (t, c') \<and> wf_ctx c' \<and> ext_ctx c c' \<and> t \<in> types c' \<and> erase t = erase n"
proof -
  obtain t c' where "intern n c = (t, c')" by (cases "intern n c")
  with intern_spec [OF assms this] intern_erase show ?thesis by metis
qed

lemma internable_mono: "ext_ctx c c' \<Longrightarrow> internable c n \<Longrightarrow> internable c' n"
  by (auto simp: internable_def intro: ext_ctx_inC)

section \<open>The operations meet the contract\<close>

interpretation rec: interning LookupTypeRecord "TypeRecord 0" "\<lambda>c fs. internable c (TypeRecord 0 fs)"
  by unfold_locales (use LookupTypeRecord_eq intern_ok internable_mono in metis)+

interpretation arr: interning LookupTypeArray "TypeArray 0" "\<lambda>c t. internable c (TypeArray 0 t)"
  by unfold_locales (use LookupTypeArray_eq intern_ok internable_mono in metis)+

interpretation set: interning LookupTypeSet "TypeSet 0" "\<lambda>c t. internable c (TypeSet 0 t)"
  by unfold_locales (use LookupTypeSet_eq intern_ok internable_mono in metis)+

interpretation map: interning "\<lambda>(k, v). LookupTypeMap k v" "\<lambda>(k, v). TypeMap 0 k v"
  "\<lambda>c (k, v). internable c (TypeMap 0 k v)"
proof unfold_locales
  fix c :: ctx and x :: "ztype \<times> ztype"
  assume "wf_ctx c" "case x of (k, v) \<Rightarrow> internable c (TypeMap 0 k v)"
  then show "\<exists>t c'. (case x of (k, v) \<Rightarrow> LookupTypeMap k v) c = Ok (t, c') \<and> wf_ctx c' \<and> ext_ctx c c' \<and>
      t \<in> types c' \<and> erase t = erase (case x of (k, v) \<Rightarrow> TypeMap 0 k v)"
    using LookupTypeMap_eq [of c "fst x" "snd x"] intern_ok [of c "TypeMap 0 (fst x) (snd x)"]
    by (simp add: case_prod_unfold)
qed (auto intro: internable_mono)

interpretation uni: interning LookupTypeUnion "\<lambda>ts. TypeUnion 0 (sortTypes ts)"
  "\<lambda>c ts. internable c (TypeUnion 0 (sortTypes ts))"
  by unfold_locales (use LookupTypeUnion_eq intern_ok internable_mono in metis)+

interpretation enu: interning LookupTypeEnum "TypeEnum 0" "\<lambda>c ss. internable c (TypeEnum 0 ss)"
  by unfold_locales (use LookupTypeEnum_eq intern_ok internable_mono in metis)+

lemma LookupTypeNamed_ok:
  assumes "wf_ctx c" "internable c (TypeNamed 0 n s)"
  shows "\<exists>t c'. LookupTypeNamed n s c = Ok (t, c') \<and> wf_ctx c' \<and> ext_ctx c c' \<and> t \<in> types c' \<and>
    erase t = erase (TypeNamed 0 n s) \<and> typedefs c' = (typedefs c)(n \<mapsto> t)"
proof -
  obtain t c' where i: "intern (TypeNamed 0 n s) c = (t, c')" by (cases "intern (TypeNamed 0 n s) c")
  note sp = intern_spec [OF assms i]
  have t: "t = TypeNamed (TypeID t) n s" using sp(4) by simp
  have "wf_ctx (c'\<lparr>typedefs := (typedefs c')(n \<mapsto> t)\<rparr>)"
    using wf_typedef [OF sp(1), of "TypeID t" n s] sp(3) t by simp
  then show ?thesis
    using LookupTypeNamed_eq [OF assms i] sp(2,3,5) intern_erase [OF sp(4)] by auto
qed

interpretation nam: interning "\<lambda>(n, s). LookupTypeNamed n s" "\<lambda>(n, s). TypeNamed 0 n s"
  "\<lambda>c (n, s). internable c (TypeNamed 0 n s)"
proof unfold_locales
  fix c :: ctx and x :: "gostring \<times> ztype"
  assume "wf_ctx c" "case x of (n, s) \<Rightarrow> internable c (TypeNamed 0 n s)"
  then show "\<exists>t c'. (case x of (n, s) \<Rightarrow> LookupTypeNamed n s) c = Ok (t, c') \<and> wf_ctx c' \<and> ext_ctx c c' \<and>
      t \<in> types c' \<and> erase t = erase (case x of (n, s) \<Rightarrow> TypeNamed 0 n s)"
    using LookupTypeNamed_ok [of c "fst x" "snd x"] by (auto simp: case_prod_unfold)
qed (auto intro: internable_mono)

lemma LookupTypeError_ok:
  assumes "wf_ctx c" "internable c (TypeError 0 s)"
  shows "\<exists>t c'. LookupTypeError s c = Ok (t, c') \<and> wf_ctx c' \<and> ext_ctx c c' \<and> t \<in> types c' \<and>
    erase t = erase (TypeError 0 s) \<and> typedefs c' = typedefs c"
proof -
  obtain t c' where i: "intern (TypeError 0 s) c = (t, c')" by (cases "intern (TypeError 0 s) c")
  note sp = intern_spec [OF assms i]
  from LookupTypeError_eq [OF assms i] obtain e where "LookupTypeError s c = Ok (t, c'\<lparr>stringErr := e\<rparr>)" ..
  then show ?thesis using sp(1,2,3,5) intern_erase [OF sp(4)] by auto
qed

interpretation err: interning LookupTypeError "TypeError 0" "\<lambda>c t. internable c (TypeError 0 t)"
  by unfold_locales (use LookupTypeError_ok internable_mono in blast)+

end
