(* ===== verification/Decode.thy ===== *)
theory Decode
  imports Lookup
begin

text \<open>
  The decoder of type values against the encoder.  The type order is the same in every context,
  decoding keeps the invariant of the context, and decoding the value of a type of one context
  in another gives the type of the same structure there.
\<close>

section \<open>The type order does not depend on the context\<close>

lemma TypeUnder_erase: "TypeUnder (erase t) = erase (TypeUnder t)"
  by (induction t rule: TypeUnder.induct) auto

lemma inC_TypeUnder: "wf_types c \<Longrightarrow> inC c t \<Longrightarrow> inC c (TypeUnder t)"
proof (induction t rule: TypeUnder.induct)
  case (1 i n t)
  then show ?case using inC_children [OF 1(2,3), of t] by simp
qed simp_all

lemma Kind_erase [simp]: "Kind (erase t) = Kind t"
  by (induction t) auto

lemma prim_ID_inj [simp]: "prim_ID p = prim_ID q \<longleftrightarrow> p = q"
  by (cases p; cases q) simp_all

lemma isPrim_ID: "isPrim t \<Longrightarrow> ID t < 30"
  using prim_byte_less by (elim isPrim.elims) (simp, case_tac p, simp_all)

lemma inC_ID_inj:
  assumes "wf_types c" "inC c a" "inC c b" "\<And>i n s. a \<noteq> TypeNamed i n s" "\<And>i n s. b \<noteq> TypeNamed i n s"
  shows "ID a = ID b \<longleftrightarrow> a = b"
proof -
  have T: "TypeID a = ID a" "TypeID b = ID b"
    using assms(4,5) by (simp_all add: TypeID_def split: ztype.split)
  note ids = types_TypeID [OF wf_typesD(1) [OF assms(1)]]
  show ?thesis
  proof (cases "isPrim a"; cases "isPrim b")
    assume "isPrim a" "isPrim b"
    then show ?thesis by (cases a; cases b) simp_all
  next
    assume A: "isPrim a" "\<not> isPrim b"
    then have "ID b \<ge> 30" using ids [of b] assms(3) unfolding T inC_def by blast
    then have "ID a \<noteq> ID b" using isPrim_ID [OF A(1)] by simp
    then show ?thesis by metis
  next
    assume A: "\<not> isPrim a" "isPrim b"
    then have "ID a \<ge> 30" using ids [of a] assms(2) unfolding T inC_def by blast
    then have "ID a \<noteq> ID b" using isPrim_ID [OF A(2)] by simp
    then show ?thesis by metis
  next
    assume "\<not> isPrim a" "\<not> isPrim b"
    then have "byID c ! ID a = Some a" "byID c ! ID b = Some b"
      using ids [of a] ids [of b] assms(2,3) unfolding T inC_def by blast+
    then show ?thesis by (metis option.inject)
  qed
qed

text \<open>Two types have the same ID when their underlying types have the same structure.\<close>

lemma ID_eq_iff:
  assumes "wf_types c" "inC c a" "inC c b"
  shows "ID a = ID b \<longleftrightarrow> TypeUnder (erase a) = TypeUnder (erase b)"
proof -
  note U = inC_TypeUnder [OF assms(1,2)] inC_TypeUnder [OF assms(1,3)]
  have "ID a = ID b \<longleftrightarrow> TypeUnder a = TypeUnder b"
    using inC_ID_inj [OF assms(1) U] unfolding ID_TypeUnder by (metis TypeUnder_not_Named)
  also have "\<dots> \<longleftrightarrow> erase (TypeUnder a) = erase (TypeUnder b)"
    using erase_inj [OF assms(1) U] by metis
  finally show ?thesis by (simp only: TypeUnder_erase)
qed

text \<open>Corresponding types of two contexts.\<close>

definition twins :: "ctx \<Rightarrow> ctx \<Rightarrow> ztype \<Rightarrow> ztype \<Rightarrow> bool" where
  "twins c d a b \<longleftrightarrow> inC c a \<and> inC d b \<and> erase a = erase b"

lemma twins_under: "wf_types c \<Longrightarrow> wf_types d \<Longrightarrow> twins c d a b \<Longrightarrow> twins c d (TypeUnder a) (TypeUnder b)"
  by (metis TypeUnder_erase inC_TypeUnder twins_def)

lemma twins_Kind: "twins c d a b \<Longrightarrow> Kind a = Kind b"
  by (metis Kind_erase twins_def)

lemma twins_ID:
  assumes "wf_types c" "wf_types d" "twins c d a a'" "twins c d b b'"
  shows "ID a = ID b \<longleftrightarrow> ID a' = ID b'"
  using ID_eq_iff [OF assms(1), of a b] ID_eq_iff [OF assms(2), of a' b'] assms(3,4)
  by (simp add: twins_def)

lemma twins_inv:
  assumes "wf_types c" "wf_types d"
  shows "twins c d (TypePrimitive p) b \<Longrightarrow> b = TypePrimitive p"
    "twins c d (TypeRecord i fs) b \<Longrightarrow> \<exists>j gs. b = TypeRecord j gs \<and> map fst gs = map fst fs \<and>
       list_all2 (twins c d) (map snd fs) (map snd gs)"
    "twins c d (TypeArray i t) b \<Longrightarrow> \<exists>j u. b = TypeArray j u \<and> twins c d t u"
    "twins c d (TypeSet i t) b \<Longrightarrow> \<exists>j u. b = TypeSet j u \<and> twins c d t u"
    "twins c d (TypeMap i t s) b \<Longrightarrow> \<exists>j u v. b = TypeMap j u v \<and> twins c d t u \<and> twins c d s v"
    "twins c d (TypeUnion i ts) b \<Longrightarrow> \<exists>j us. b = TypeUnion j us \<and> list_all2 (twins c d) ts us"
    "twins c d (TypeEnum i ss) b \<Longrightarrow> \<exists>j. b = TypeEnum j ss"
    "twins c d (TypeError i t) b \<Longrightarrow> \<exists>j u. b = TypeError j u \<and> twins c d t u"
    "twins c d (TypeNamed i n t) b \<Longrightarrow> \<exists>j u. b = TypeNamed j n u \<and> twins c d t u"
proof -
  note ch = inC_children [OF assms(1)] inC_children [OF assms(2)]
  have L: "list_all2 (twins c d) xs ys"
    if "\<And>x. x \<in> set xs \<Longrightarrow> inC c x" "\<And>y. y \<in> set ys \<Longrightarrow> inC d y" "map erase xs = map erase ys" for xs ys
  proof (rule list_all2_all_nthI)
    show l: "length xs = length ys" using that(3) by (metis length_map)
    fix k assume "k < length xs"
    with l that show "twins c d (xs ! k) (ys ! k)" by (auto simp: twins_def) (metis nth_map)
  qed
  { assume "twins c d (TypeRecord i fs) b"
    then obtain j gs where b: "b = TypeRecord j gs" and *: "inC c (TypeRecord i fs)" "inC d (TypeRecord j gs)"
        "map (\<lambda>(n, t). (n, erase t)) fs = map (\<lambda>(n, t). (n, erase t)) gs"
      by (cases b) (auto simp: twins_def)
    have "map fst gs = map fst fs" "map erase (map snd fs) = map erase (map snd gs)"
      using arg_cong [OF *(3), of "map fst"] arg_cong [OF *(3), of "map snd"]
      by (simp_all add: case_prod_unfold comp_def)
    with b L [of "map snd fs" "map snd gs"] ch *(1,2)
    show "\<exists>j gs. b = TypeRecord j gs \<and> map fst gs = map fst fs \<and> list_all2 (twins c d) (map snd fs) (map snd gs)"
      by auto }
  { assume "twins c d (TypeUnion i ts) b"
    then obtain j us where b: "b = TypeUnion j us" and *: "inC c (TypeUnion i ts)" "inC d (TypeUnion j us)"
        "map erase ts = map erase us"
      by (cases b) (auto simp: twins_def)
    with L [of ts us] ch show "\<exists>j us. b = TypeUnion j us \<and> list_all2 (twins c d) ts us" by auto }
qed (cases b; auto simp: twins_def dest: inC_children [OF assms(1)] inC_children [OF assms(2)])+

lemma first_nonzero_cong:
  assumes "list_all2 R xs xs'" "list_all2 R ys ys'"
    "\<And>x y x' y'. (x, y) \<in> set (zip xs ys) \<Longrightarrow> R x x' \<Longrightarrow> R y y' \<Longrightarrow> f x y = g x' y'"
  shows "first_nonzero (map (\<lambda>(x, y). f x y) (zip xs ys)) = first_nonzero (map (\<lambda>(x, y). g x y) (zip xs' ys'))"
proof -
  have "map (\<lambda>(x, y). f x y) (zip xs ys) = map (\<lambda>(x, y). g x y) (zip xs' ys')"
    by (intro nth_equalityI) (use assms in \<open>auto simp: list_all2_conv_all_nth set_zip intro!: assms(3)\<close>)
  then show ?thesis by simp
qed

lemma zip_map_snd:
  "first_nonzero (map (\<lambda>(f, g). h (snd f) (snd g)) (zip fa fb)) =
   first_nonzero (map (\<lambda>(x, y). h x y) (zip (map snd fa) (map snd fb)))"
  "first_nonzero (map (\<lambda>(f, g). k (fst f) (fst g)) (zip fa fb)) =
   first_nonzero (map (\<lambda>(x, y). k x y) (zip (map fst fa) (map fst fb)))"
  by (simp_all add: zip_map1 zip_map2 comp_def case_prod_unfold)

lemma zip_snd_in: "(x, y) \<in> set (zip (map snd fa) (map snd fb)) \<Longrightarrow>
    \<exists>f g. (f, g) \<in> set (zip fa fb) \<and> x = snd f \<and> y = snd g"
  by (force simp: zip_map1 zip_map2)

lemma CompareTypes_deep:
  assumes "ID a \<noteq> ID b" "Kind a = Kind b"
  shows
    "TypeUnder a = TypePrimitive p \<Longrightarrow> TypeUnder b = TypePrimitive q \<Longrightarrow> CompareTypes a b = go_cmp (ID a) (ID b)"
    "TypeUnder a = TypeRecord i fa \<Longrightarrow> TypeUnder b = TypeRecord j fb \<Longrightarrow> CompareTypes a b =
       (if go_cmp (length fa) (length fb) \<noteq> 0 then go_cmp (length fa) (length fb)
        else if first_nonzero (map (\<lambda>(x, y). strings_Compare x y) (zip (map fst fa) (map fst fb))) \<noteq> 0
        then first_nonzero (map (\<lambda>(x, y). strings_Compare x y) (zip (map fst fa) (map fst fb)))
        else first_nonzero (map (\<lambda>(x, y). CompareTypes x y) (zip (map snd fa) (map snd fb))))"
    "TypeUnder a = TypeArray i t \<Longrightarrow> TypeUnder b = TypeArray j u \<Longrightarrow> CompareTypes a b = CompareTypes t u"
    "TypeUnder a = TypeSet i t \<Longrightarrow> TypeUnder b = TypeSet j u \<Longrightarrow> CompareTypes a b = CompareTypes t u"
    "TypeUnder a = TypeError i t \<Longrightarrow> TypeUnder b = TypeError j u \<Longrightarrow> CompareTypes a b = CompareTypes t u"
    "TypeUnder a = TypeMap i k v \<Longrightarrow> TypeUnder b = TypeMap j k' v' \<Longrightarrow> CompareTypes a b =
       (if CompareTypes k k' \<noteq> 0 then CompareTypes k k' else CompareTypes v v')"
    "TypeUnder a = TypeUnion i ts \<Longrightarrow> TypeUnder b = TypeUnion j us \<Longrightarrow> CompareTypes a b =
       (if go_cmp (length ts) (length us) \<noteq> 0 then go_cmp (length ts) (length us)
        else first_nonzero (map (\<lambda>(x, y). CompareTypes x y) (zip ts us)))"
    "TypeUnder a = TypeEnum i sa \<Longrightarrow> TypeUnder b = TypeEnum j sb \<Longrightarrow> CompareTypes a b =
       (if go_cmp (length sa) (length sb) \<noteq> 0 then go_cmp (length sa) (length sb)
        else first_nonzero (map (\<lambda>(x, y). strings_Compare x y) (zip sa sb)))"
  using assms by (simp_all add: CompareTypes.simps [of a b] zip_map_snd [symmetric])

text \<open>Types with equal IDs differ at most in their names.\<close>

definition typeName :: "ztype \<Rightarrow> gostring option" where
  "typeName t = (case t of TypeNamed _ n _ \<Rightarrow> Some n | _ \<Rightarrow> None)"

lemma typeName_erase: "typeName (erase t) = typeName t"
  by (cases t) (simp_all add: typeName_def)

lemma CompareTypes_same:
  "ID a = ID b \<Longrightarrow> CompareTypes a b =
     (case (typeName a, typeName b) of
        (Some n, Some m) \<Rightarrow> strings_Compare n m | (Some n, None) \<Rightarrow> 1 | (None, Some m) \<Rightarrow> -1 | _ \<Rightarrow> 0)"
  by (simp add: CompareTypes.simps [of a b] typeName_def split: ztype.split)

lemma twins_typeName: "twins c d a b \<Longrightarrow> typeName a = typeName b"
  by (metis typeName_erase twins_def)

lemma CompareTypes_twins_record:
  assumes A: "TypeUnder a = TypeRecord i fs" "TypeUnder a' = TypeRecord i' fs'" "map fst fs' = map fst fs"
      "list_all2 (twins c d) (map snd fs) (map snd fs')"
    and B: "TypeUnder b = TypeRecord j gs" "TypeUnder b' = TypeRecord j' gs'" "map fst gs' = map fst gs"
      "list_all2 (twins c d) (map snd gs) (map snd gs')"
    and deep: "ID a \<noteq> ID b" "Kind a = Kind b" "ID a' \<noteq> ID b'" "Kind a' = Kind b'"
    and IH: "\<And>x x' y y'. size x < size a \<Longrightarrow> twins c d x x' \<Longrightarrow> twins c d y y' \<Longrightarrow> CompareTypes x y = CompareTypes x' y'"
  shows "CompareTypes a b = CompareTypes a' b'"
proof -
  have l: "length fs' = length fs" "length gs' = length gs"
    using A(3) B(3) by (metis length_map)+
  have "first_nonzero (map (\<lambda>(x, y). CompareTypes x y) (zip (map snd fs) (map snd gs))) =
    first_nonzero (map (\<lambda>(x, y). CompareTypes x y) (zip (map snd fs') (map snd gs')))"
    by (rule first_nonzero_cong [OF A(4) B(4)])
       (auto intro!: IH dest!: set_zip_leftD intro: under_smaller(1) [OF A(1)])
  then show ?thesis
    using CompareTypes_deep(2) [OF deep(1,2) A(1) B(1)] CompareTypes_deep(2) [OF deep(3,4) A(2) B(2)]
      A(3) B(3) l by presburger
qed

lemma CompareTypes_twins_union:
  assumes A: "TypeUnder a = TypeUnion i ts" "TypeUnder a' = TypeUnion i' ts'" "list_all2 (twins c d) ts ts'"
    and B: "TypeUnder b = TypeUnion j us" "TypeUnder b' = TypeUnion j' us'" "list_all2 (twins c d) us us'"
    and deep: "ID a \<noteq> ID b" "Kind a = Kind b" "ID a' \<noteq> ID b'" "Kind a' = Kind b'"
    and IH: "\<And>x x' y y'. size x < size a \<Longrightarrow> twins c d x x' \<Longrightarrow> twins c d y y' \<Longrightarrow> CompareTypes x y = CompareTypes x' y'"
  shows "CompareTypes a b = CompareTypes a' b'"
proof -
  have l: "length ts' = length ts" "length us' = length us"
    using A(3) B(3) by (metis list_all2_lengthD)+
  have "first_nonzero (map (\<lambda>(x, y). CompareTypes x y) (zip ts us)) =
    first_nonzero (map (\<lambda>(x, y). CompareTypes x y) (zip ts' us'))"
    by (rule first_nonzero_cong [OF A(3) B(3)])
       (auto intro!: IH dest!: set_zip_leftD intro: under_smaller(7) [OF A(1)])
  then show ?thesis
    using CompareTypes_deep(7) [OF deep(1,2) A(1) B(1)] CompareTypes_deep(7) [OF deep(3,4) A(2) B(2)] l
    by presburger
qed

lemma CompareTypes_twins_deep:
  assumes wf: "wf_types c" "wf_types d" and tw: "twins c d a a'" "twins c d b b'"
    and deep: "ID a \<noteq> ID b" "Kind a = Kind b"
    and IH: "\<And>x x' y y'. size x < size a \<Longrightarrow> twins c d x x' \<Longrightarrow> twins c d y y' \<Longrightarrow> CompareTypes x y = CompareTypes x' y'"
  shows "CompareTypes a b = CompareTypes a' b'"
proof -
  note inv = twins_inv [OF wf] and U = twins_under [OF wf tw(1)] twins_under [OF wf tw(2)]
  have deep': "ID a' \<noteq> ID b'" "Kind a' = Kind b'"
    using twins_ID [OF wf tw] deep twins_Kind [OF tw(1)] twins_Kind [OF tw(2)] by simp_all
  note cmp = CompareTypes_deep [OF deep] CompareTypes_deep [OF deep']
  have K: "Kind (TypeUnder a) = Kind b" using deep(2) by simp
  show ?thesis
  proof (cases "TypeUnder a")
    case (TypePrimitive p)
    obtain q where B: "TypeUnder b = TypePrimitive q" using Kind_inv(1) [OF K [unfolded TypePrimitive]] ..
    note A' = inv(1) [OF U(1) [unfolded TypePrimitive]] inv(1) [OF U(2) [unfolded B]]
    have "ID a = prim_ID p" "ID b = prim_ID q" "ID a' = prim_ID p" "ID b' = prim_ID q"
      using TypePrimitive B A' by (metis ID.simps(1) ID_TypeUnder)+
    then show ?thesis using cmp(1) [OF TypePrimitive B] cmp(9) [OF A'] by simp
  next
    case (TypeRecord i fs)
    obtain j gs where B: "TypeUnder b = TypeRecord j gs" using Kind_inv(2) [OF K [unfolded TypeRecord]] by blast
    show ?thesis
      using inv(2) [OF U(1) [unfolded TypeRecord]] inv(2) [OF U(2) [unfolded B]]
        CompareTypes_twins_record [OF TypeRecord _ _ _ B _ _ _ deep deep' IH] by blast
  next
    case (TypeUnion i ts)
    obtain j us where B: "TypeUnder b = TypeUnion j us" using Kind_inv(6) [OF K [unfolded TypeUnion]] by blast
    show ?thesis
      using inv(6) [OF U(1) [unfolded TypeUnion]] inv(6) [OF U(2) [unfolded B]]
        CompareTypes_twins_union [OF TypeUnion _ _ B _ _ deep deep' IH] by blast
  next
    case (TypeArray i t)
    obtain j u where B: "TypeUnder b = TypeArray j u" using Kind_inv(3) [OF K [unfolded TypeArray]] by blast
    show ?thesis
      using inv(3) [OF U(1) [unfolded TypeArray]] inv(3) [OF U(2) [unfolded B]]
        cmp(3) [OF TypeArray B] cmp(11) IH [OF under_smaller(2) [OF TypeArray]] by fastforce
  next
    case (TypeSet i t)
    obtain j u where B: "TypeUnder b = TypeSet j u" using Kind_inv(4) [OF K [unfolded TypeSet]] by blast
    show ?thesis
      using inv(4) [OF U(1) [unfolded TypeSet]] inv(4) [OF U(2) [unfolded B]]
        cmp(4) [OF TypeSet B] cmp(12) IH [OF under_smaller(3) [OF TypeSet]] by fastforce
  next
    case (TypeError i t)
    obtain j u where B: "TypeUnder b = TypeError j u" using Kind_inv(8) [OF K [unfolded TypeError]] by blast
    show ?thesis
      using inv(8) [OF U(1) [unfolded TypeError]] inv(8) [OF U(2) [unfolded B]]
        cmp(5) [OF TypeError B] cmp(13) IH [OF under_smaller(4) [OF TypeError]] by fastforce
  next
    case (TypeMap i k v)
    obtain j k' v' where B: "TypeUnder b = TypeMap j k' v'" using Kind_inv(5) [OF K [unfolded TypeMap]] by blast
    obtain i2 k2 v2 j3 k3 v3 where A': "TypeUnder a' = TypeMap i2 k2 v2" "twins c d k k2" "twins c d v v2"
        "TypeUnder b' = TypeMap j3 k3 v3" "twins c d k' k3" "twins c d v' v3"
      using inv(5) [OF U(1) [unfolded TypeMap]] inv(5) [OF U(2) [unfolded B]] by blast
    have "CompareTypes k k' = CompareTypes k2 k3" "CompareTypes v v' = CompareTypes v2 v3"
      using IH A' under_smaller(5,6) [OF TypeMap] by blast+
    then show ?thesis using cmp(6,14) TypeMap B A'(1,4) by presburger
  next
    case (TypeEnum i ss)
    obtain j us where B: "TypeUnder b = TypeEnum j us" using Kind_inv(7) [OF K [unfolded TypeEnum]] by blast
    show ?thesis
      using inv(7) [OF U(1) [unfolded TypeEnum]] inv(7) [OF U(2) [unfolded B]]
        cmp(8) [OF TypeEnum B] cmp(16) by fastforce
  qed simp
qed

text \<open>Comparing two types gives the same answer in every context that has them.\<close>

lemma CompareTypes_twins:
  assumes wf: "wf_types c" "wf_types d"
  shows "twins c d a a' \<Longrightarrow> twins c d b b' \<Longrightarrow> CompareTypes a b = CompareTypes a' b'"
proof (induction a arbitrary: a' b b' rule: measure_induct_rule [of size])
  case (less a)
  have ID: "ID a = ID b \<longleftrightarrow> ID a' = ID b'" by (rule twins_ID [OF wf less.prems])
  have K: "Kind a = Kind a'" "Kind b = Kind b'" using twins_Kind less.prems by blast+
  consider "ID a = ID b" | "ID a \<noteq> ID b" "Kind a \<noteq> Kind b" | "ID a \<noteq> ID b" "Kind a = Kind b" by blast
  then show ?case
  proof cases
    case 1
    then show ?thesis using ID less.prems twins_typeName by (simp add: CompareTypes_same)
  next
    case 2
    then show ?thesis using ID K by (simp add: CompareTypes.simps [of a b] CompareTypes.simps [of a' b'])
  next
    case 3
    show ?thesis by (rule CompareTypes_twins_deep [OF wf less.prems 3 less.IH])
  qed
qed

end
