(* ===== verification/DecodeWf.thy ===== *)
theory DecodeWf
  imports Decode
begin

text \<open>
  Decoding any byte sequence keeps the invariant of the context: each case of the decoder ends in
  a \<open>Lookup\<close> call whose precondition the decoded components satisfy.
\<close>

section \<open>Decoding any bytes keeps the invariant\<close>

definition good :: "ctx \<Rightarrow> (ztype \<times> ctx) go \<Rightarrow> bool" where
  "good c r \<longleftrightarrow>
     (case r of Ok (t, c') \<Rightarrow> wf_ctx c' \<and> ext_ctx c c' \<and> inC c' t | _ \<Rightarrow> True)"

lemma good_interning:
  assumes "\<exists>t c'. r = Ok (t, c') \<and> wf_ctx c' \<and> ext_ctx c c' \<and> t \<in> types c' \<and> erase t = e"
  shows "good c r"
  using assms by (auto simp: good_def inC_def)

lemma good_Record:
  assumes "wf_ctx c" "\<forall>f \<in> set fs. small (fst f) \<and> inC c (snd f)" "int (length fs) \<le> MaxRecordFields"
  shows "good c (LookupTypeRecord fs c)"
proof (cases "distinct (map fst fs)")
  case True
  with assms have "internable c (TypeRecord 0 fs)"
    by (auto simp: internable_def small_def MaxRecordFields_def intro: inC_lens_ok wf_ctxD(1))
  then show ?thesis
    using LookupTypeRecord_eq [OF assms(1)] intern_ok [OF assms(1)] good_interning by metis
next
  case False
  then obtain name where "duplicateField fs = Some name" using duplicateField_None_iff by (meson not_None_eq)
  then show ?thesis
    using wf_ctxD(6) [OF assms(1)] assms(1)
    by (auto simp: LookupTypeRecord_def AppendTypeValue_eq good_def Let_def split: option.split ztype.split)
qed

lemma good_node:
  assumes wf: "wf_ctx c"
  shows "inC c t \<Longrightarrow> good c (LookupTypeArray t c)" "inC c t \<Longrightarrow> good c (LookupTypeSet t c)"
    "inC c t \<Longrightarrow> good c (LookupTypeError t c)"
    "inC c k \<Longrightarrow> inC c v \<Longrightarrow> good c (LookupTypeMap k v c)"
    "int (length ss) \<le> MaxEnumSymbols \<Longrightarrow> \<forall>s \<in> set ss. small s \<Longrightarrow> good c (LookupTypeEnum ss c)"
    "int (length ts) \<le> MaxUnionTypes \<Longrightarrow> \<forall>t \<in> set ts. inC c t \<Longrightarrow> good c (LookupTypeUnion ts c)"
    "small n \<Longrightarrow> inC c t \<Longrightarrow> good c (LookupTypeNamed n t c)"
proof -
  note lo = inC_lens_ok [OF wf_ctxD(1) [OF wf]]
  show "inC c t \<Longrightarrow> good c (LookupTypeArray t c)"
    by (rule good_interning [OF arr.look_ok [OF wf]]) (simp add: internable_def lo)
  show "inC c t \<Longrightarrow> good c (LookupTypeSet t c)"
    by (rule good_interning [OF set.look_ok [OF wf]]) (simp add: internable_def lo)
  show "inC c t \<Longrightarrow> good c (LookupTypeError t c)"
    by (rule good_interning [OF err.look_ok [OF wf]]) (simp add: internable_def lo)
  show "inC c k \<Longrightarrow> inC c v \<Longrightarrow> good c (LookupTypeMap k v c)"
    using good_interning [OF map.look_ok [OF wf, of "(k, v)"]] by (simp add: internable_def lo)
  show "int (length ss) \<le> MaxEnumSymbols \<Longrightarrow> \<forall>s \<in> set ss. small s \<Longrightarrow> good c (LookupTypeEnum ss c)"
    by (rule good_interning [OF enu.look_ok [OF wf]]) (simp add: internable_def small_def MaxEnumSymbols_def)
  show "int (length ts) \<le> MaxUnionTypes \<Longrightarrow> \<forall>t \<in> set ts. inC c t \<Longrightarrow> good c (LookupTypeUnion ts c)"
    using sortTypes_ordered by (intro good_interning [OF uni.look_ok [OF wf]]) (simp add: internable_def lo sortTypes_def small_def MaxUnionTypes_def)
  show "small n \<Longrightarrow> inC c t \<Longrightarrow> good c (LookupTypeNamed n t c)"
  proof (cases "utf8_valid n \<and> LookupPrimitive n = None")
    case True
    then show "small n \<Longrightarrow> inC c t \<Longrightarrow> good c (LookupTypeNamed n t c)"
      using good_interning [OF nam.look_ok [OF wf, of "(n, t)"]] by (simp add: internable_def lo)
  qed (auto simp: LookupTypeNamed_def good_def)
qed


lemma small_le: "small xs \<Longrightarrow> length ys \<le> length xs \<Longrightarrow> small ys"
  unfolding small_def by (rule le_less_trans)

lemma DecodeName_len: "DecodeName tv = Ok (Some (n, tv')) \<Longrightarrow> length n + length tv' \<le> length tv"
proof -
  assume "DecodeName tv = Ok (Some (n, tv'))"
  then obtain len tv1 where D: "DecodeLength tv = Some (len, tv1)" "go_slice tv1 0 len = Ok n"
      "go_slice tv1 len (int (length tv1)) = Ok tv'"
    by (auto simp: DecodeName_def go_inv split: option.splits if_splits)
  then have "length n + length tv' \<le> length tv1"
    by (auto simp: go_slice_def split: if_splits)
  with DecodeLength_shrinks [OF D(1)] show ?thesis by simp
qed

lemma decodeSymbols_small:
  "decodeSymbols k tv ss = Ok (Some (ss', tv')) \<Longrightarrow> small tv \<Longrightarrow> \<forall>s \<in> set ss. small s \<Longrightarrow>
   (\<forall>s \<in> set ss'. small s) \<and> length ss' = length ss + k"
proof (induction k arbitrary: tv ss)
  case 0 show ?case using 0 by simp
next
  case (Suc k)
  have "\<exists>s tv1. DecodeName tv = Ok (Some (s, tv1)) \<and>
      decodeSymbols k tv1 (ss @ [s]) = Ok (Some (ss', tv'))"
    using Suc.prems(1) by (auto simp: go_inv split: option.splits)
  then obtain s tv1 where s: "DecodeName tv = Ok (Some (s, tv1))"
      "decodeSymbols k tv1 (ss @ [s]) = Ok (Some (ss', tv'))" by blast
  have a: "small tv1" 
    by (rule small_le [OF Suc.prems(2)], use DecodeName_len [OF s(1)] in simp)
  have b: "small s"
    by (rule small_le [OF Suc.prems(2)], use DecodeName_len [OF s(1)] in simp)
  have "(\<forall>s \<in> set ss'. small s) \<and> length ss' = length (ss @ [s]) + k"
    by (rule Suc.IH [OF s(2) a]) (use b Suc.prems(3) in auto)
  then show ?case by simp
qed

text \<open>A step of the decoder: the context stays well formed and keeps its types.\<close>

definition keeps :: "ctx \<Rightarrow> ctx \<Rightarrow> bool" where
  "keeps c c' \<longleftrightarrow> wf_ctx c' \<and> ext_ctx c c'"

lemma keeps_trans: "keeps a b \<Longrightarrow> keeps b c \<Longrightarrow> keeps a c"
  by (auto simp: keeps_def intro: ext_ctx_trans)

lemma looked_up_keeps:
  assumes "good c r" "wf_ctx c" "looked_up r tv c = Ok (x, c')"
  shows "keeps c c' \<and> (\<forall>t rest. x = Some (t, rest) \<longrightarrow> inC c' t \<and> rest = tv)"
  using assms by (auto simp: looked_up_def good_def keeps_def split: result.splits prod.splits)

lemma nextT_cases:
  assumes "nextT r f = Ok (x, c')"
  obtains c1 where "r = Ok (None, c1)" "x = None" "c' = c1"
    | a tv c1 where "r = Ok (Some (a, tv), c1)" "f a tv c1 = Ok (x, c')"
  using assms by (cases r) (auto simp: nextT_def split: option.splits prod.splits)

lemma nextN_cases:
  assumes "nextN r c f = Ok (x, c')"
  obtains "r = Ok None" "x = None" "c' = c"
    | a tv where "r = Ok (Some (a, tv))" "f a tv = Ok (x, c')"
  using assms by (cases r) (auto simp: nextN_def split: option.splits prod.splits)

definition dec_ok :: "ctx \<Rightarrow> (ztype \<times> bytes) option \<Rightarrow> ctx \<Rightarrow> bool" where
  "dec_ok c r c' \<longleftrightarrow> keeps c c' \<and> (\<forall>t rest. r = Some (t, rest) \<longrightarrow> inC c' t)"

lemma dec_ok_trans: "keeps a b \<Longrightarrow> dec_ok b r c \<Longrightarrow> dec_ok a r c"
  by (auto simp: dec_ok_def intro: keeps_trans)

lemma decode_next:
  assumes "nextT r f = Ok (x, c')" "\<And>y c1. r = Ok (y, c1) \<Longrightarrow> dec_ok c y c1"
    "\<And>t tv c1. r = Ok (Some (t, tv), c1) \<Longrightarrow> keeps c c1 \<Longrightarrow> inC c1 t \<Longrightarrow> f t tv c1 = Ok (x, c') \<Longrightarrow> dec_ok c1 x c'"
  shows "dec_ok c x c'"
proof (cases rule: nextT_cases [OF assms(1)])
  case (1 c1)
  then show ?thesis using assms(2) by (auto simp: dec_ok_def)
next
  case (2 a tv c1)
  then have "keeps c c1" "inC c1 a" using assms(2) by (auto simp: dec_ok_def)
  with 2 assms(3) show ?thesis using dec_ok_trans by blast
qed

lemma looked_up_dec:
  "looked_up r tv c = Ok (x, c') \<Longrightarrow> good c r \<Longrightarrow> wf_ctx c \<Longrightarrow> dec_ok c x c'"
  using looked_up_keeps unfolding dec_ok_def by blast

lemma keeps_refl: "wf_ctx c \<Longrightarrow> keeps c c"
  by (simp add: keeps_def)

lemma keeps_wf: "keeps c c' \<Longrightarrow> wf_ctx c'"
  by (simp add: keeps_def)

lemma keeps_inC: "keeps c c' \<Longrightarrow> inC c t \<Longrightarrow> inC c' t"
  by (auto simp: keeps_def intro: ext_ctx_inC)

lemma DecodeName_small:
  "DecodeName tv = Ok (Some (n, tv')) \<Longrightarrow> small tv \<Longrightarrow> small n \<and> small tv'"
  using DecodeName_len [of tv n tv'] by (auto intro: small_le)

lemma DecodeLength_small: "DecodeLength tv = Some (n, tv') \<Longrightarrow> small tv \<Longrightarrow> small tv'"
  using DecodeLength_shrinks [of tv n tv'] by (auto intro: small_le)

definition flds_ok :: "ctx \<Rightarrow> (gostring \<times> ztype) list \<Rightarrow> bool" where
  "flds_ok c fs \<longleftrightarrow> (\<forall>f \<in> set fs. small (fst f) \<and> inC c (snd f))"

definition typs_ok :: "ctx \<Rightarrow> ztype option list \<Rightarrow> bool" where
  "typs_ok c ts \<longleftrightarrow> (\<forall>t. Some t \<in> set ts \<longrightarrow> inC c t)"

lemma small_limit: "length xs \<le> 100000 \<Longrightarrow> small xs"
  by (simp add: small_def)

lemma flds_ok_keeps: "keeps c c' \<Longrightarrow> flds_ok c fs \<Longrightarrow> flds_ok c' fs"
  by (auto simp: flds_ok_def intro: keeps_inC)

lemma typs_ok_keeps: "keeps c c' \<Longrightarrow> typs_ok c ts \<Longrightarrow> typs_ok c' ts"
  by (auto simp: typs_ok_def intro: keeps_inC)

lemma decode_rest_small:
  "DecodeTypeValue c tv = Ok (Some (t, rest), c') \<Longrightarrow> small tv \<Longrightarrow> small rest"
  by (erule small_le) (drule decode_shrinks, simp)

lemma dec_ok_nil: "wf_ctx c \<Longrightarrow> dec_ok c None c"
  by (simp add: dec_ok_def keeps_def)

lemma decode_name:
  assumes "nextN (DecodeName tv) c f = Ok (r, c')" "wf_ctx c" "small tv"
    "\<And>n tv1. DecodeName tv = Ok (Some (n, tv1)) \<Longrightarrow> small n \<Longrightarrow> small tv1 \<Longrightarrow> f n tv1 = Ok (r, c') \<Longrightarrow> dec_ok c r c'"
  shows "dec_ok c r c'"
  by (rule nextN_cases [OF assms(1)]) (use assms dec_ok_nil DecodeName_small in blast)+

lemma decode_length:
  assumes "nextN (Ok (DecodeLength tv)) c (\<lambda>n tv. if n > m then Ok (None, c) else f n tv) = Ok (r, c')"
    "wf_ctx c" "small tv"
    "\<And>n tv1. DecodeLength tv = Some (n, tv1) \<Longrightarrow> small tv1 \<Longrightarrow> \<not> m < n \<Longrightarrow> f n tv1 = Ok (r, c') \<Longrightarrow> dec_ok c r c'"
  shows "dec_ok c r c'"
proof (cases rule: nextN_cases [OF assms(1)])
  case 1
  then show ?thesis using dec_ok_nil [OF assms(2)] by simp
next
  case (2 n tv1)
  then show ?thesis
    using dec_ok_nil [OF assms(2)] assms(4) [of n tv1] DecodeLength_small [OF _ assms(3)]
    by (cases "m < n") simp_all
qed

lemma decode_record:
  assumes "nextT r0 (\<lambda>flds tv c. looked_up (LookupTypeRecord flds c) tv c) = Ok (r, c')"
    and f: "\<And>x c1. r0 = Ok (x, c1) \<Longrightarrow> keeps c c1 \<and>
      (\<forall>fs' rest. x = Some (fs', rest) \<longrightarrow> flds_ok c1 fs' \<and> int (length fs') \<le> MaxRecordFields)"
  shows "dec_ok c r c'"
proof (cases rule: nextT_cases [OF assms(1)])
  case (1 c1)
  then show ?thesis using f by (auto simp: dec_ok_def)
next
  case (2 fs tv c1)
  then have K: "keeps c c1" "flds_ok c1 fs" "int (length fs) \<le> MaxRecordFields" using f by auto
  show ?thesis
    by (rule dec_ok_trans [OF K(1) looked_up_dec [OF 2(2) good_Record]])
       (use K keeps_wf in \<open>auto simp: flds_ok_def\<close>)
qed

lemma decode_union:
  assumes L: "bindR (decodeTypes k c tv []) (\<lambda>((types, tv), c).
             if None \<in> set types then Panic
             else looked_up (LookupTypeUnion (map the types) c) (buf tv) c) = Ok (r, c')"
    and f: "\<And>ts rest c1. decodeTypes k c tv [] = Ok ((ts, rest), c1) \<Longrightarrow> keeps c c1 \<and> typs_ok c1 ts \<and> int (length ts) \<le> MaxUnionTypes"
  shows "dec_ok c r c'"
proof -
  from L obtain ts rest c1 where D: "decodeTypes k c tv [] = Ok ((ts, rest), c1)" "None \<notin> set ts"
      "looked_up (LookupTypeUnion (map the ts) c1) (buf rest) c1 = Ok (r, c')"
    by (auto simp: go_inv split: if_splits)
  note K = f [OF D(1)]
  have "inC c1 (the x)" if "x \<in> set ts" for x
    by (cases "x = None") (use that D(2) K in \<open>auto simp: typs_ok_def\<close>)
  then have "\<forall>t \<in> set (map the ts). inC c1 t" by auto
  with K dec_ok_trans [OF _ looked_up_dec [OF D(3) good_node(6)]] keeps_wf show ?thesis by simp
qed

lemma decode_keeps:
  "\<And>r c'. DecodeTypeValue c tv = Ok (r, c') \<Longrightarrow> wf_ctx c \<Longrightarrow> small tv \<Longrightarrow> dec_ok c r c'"
  "\<And>r c'. decodeFields k c tv1 fs = Ok (r, c') \<Longrightarrow> wf_ctx c \<Longrightarrow> small tv1 \<Longrightarrow> flds_ok c fs \<Longrightarrow>
     keeps c c' \<and> (\<forall>fs' rest. r = Some (fs', rest) \<longrightarrow> flds_ok c' fs' \<and> length fs' = length fs + k)"
  "\<And>ts' rest c'. decodeTypes k2 c tv2 ts = Ok ((ts', rest), c') \<Longrightarrow> wf_ctx c \<Longrightarrow> small (buf tv2) \<Longrightarrow>
     typs_ok c ts \<Longrightarrow> keeps c c' \<and> typs_ok c' ts' \<and> length ts' = length ts + k2"
proof (induction c tv and k c tv1 fs and k2 c tv2 ts rule: DecodeTypeValue_decodeFields_decodeTypes.induct)
  case (1 c)
  then show ?case by (simp add: dec_ok_nil)
next
  case (2 c code tv)
  note wf = "2.prems"(2)
  have sm: "small tv" by (rule small_le [OF "2.prems"(3)]) simp
  note eq = "2.prems"(1) [unfolded DecodeTypeValue.simps(2)]
  note node = looked_up_dec [OF _ good_node(1)] looked_up_dec [OF _ good_node(2)] looked_up_dec [OF _ good_node(3)]
  consider "code = 37" | "code = 38" | "code = 30" | "code = 31" | "code = 32" | "code = 33"
    | "code = 34" | "code = 35" | "code = 36"
    | (prim) "code \<notin> {30, 31, 32, 33, 34, 35, 36, 37, 38}" by auto
  then show ?case
  proof cases
    assume code: "code = 37"
    show ?thesis
      by (rule decode_name [OF eq [unfolded code, simplified] wf sm], erule decode_next)
         (use "2.IH"(1) [OF code] wf in \<open>auto intro: looked_up_dec good_node(7) keeps_wf\<close>)
  next
    assume code: "code = 38"
    show ?thesis
      by (rule decode_name [OF eq [unfolded code, simplified] wf sm])
         (use wf_ctxD(8) [OF wf] dec_ok_nil [OF wf] in \<open>auto simp: dec_ok_def LookupTypeDef_def inC_def split: option.splits\<close>)
  next
    assume code: "code = 30"
    show ?thesis
      by (rule decode_length [OF eq [unfolded code, simplified] wf sm])
         (use "2.IH"(2) code wf in \<open>fastforce simp: flds_ok_def MaxRecordFields_def split: if_splits elim!: decode_record\<close>)
  next
    assume code: "code = 31"
    show ?thesis
      by (rule decode_next [OF eq [unfolded code, simplified]])
         (use "2.IH"(3) code wf sm in \<open>auto intro: node keeps_wf\<close>)
  next
    assume code: "code = 32"
    show ?thesis
      by (rule decode_next [OF eq [unfolded code, simplified]])
         (use "2.IH"(4) code wf sm in \<open>auto intro: node keeps_wf\<close>)
  next
    assume code: "code = 33"
    show ?thesis
      by (rule decode_next [OF eq [unfolded code, simplified]], use "2.IH"(5) code wf sm in simp, erule decode_next)
         (use "2.IH"(6) code sm in \<open>auto intro: looked_up_dec good_node(4) keeps_wf keeps_inC decode_rest_small\<close>)
  next
    assume code: "code = 34"
    show ?thesis
      by (rule decode_length [OF eq [unfolded code, simplified] wf sm])
         (use "2.IH"(7) code wf in \<open>fastforce simp: typs_ok_def MaxUnionTypes_def split: if_splits elim!: decode_union\<close>)
  next
    assume code: "code = 35"
    show ?thesis
    proof (rule decode_length [OF eq [unfolded code, simplified] wf sm])
      fix n tv1
      assume A: "small tv1" "\<not> MaxEnumSymbols < n"
        "nextN (decodeSymbols (nat n) tv1 []) c (\<lambda>symbols tv. looked_up (LookupTypeEnum symbols c) tv c) = Ok (r, c')"
      show "dec_ok c r c'"
      proof (cases rule: nextN_cases [OF A(3)])
        case (2 ss tv2)
        then have "int (length ss) \<le> MaxEnumSymbols" "\<forall>s \<in> set ss. small s"
          using decodeSymbols_small [OF 2(1) A(1)] A(2) by (auto simp: MaxEnumSymbols_def)
        then show ?thesis by (intro looked_up_dec [OF 2(2) good_node(5)] wf)
      qed (simp add: dec_ok_nil wf)
    qed
  next
    assume code: "code = 36"
    show ?thesis
      by (rule decode_next [OF eq [unfolded code, simplified]])
         (use "2.IH"(8) code wf sm in \<open>auto intro: node keeps_wf\<close>)
  next
    case prim
    then show ?thesis using eq dec_ok_nil [OF wf] by (auto simp: dec_ok_def split: result.splits)
  qed
next
  case (3 c tv flds)
  then show ?case by (auto simp: keeps_refl)
next
  case (4 k c tv flds)
  show ?case
  proof (cases rule: nextN_cases [OF "4.prems"(1) [unfolded decodeFields.simps(2)]])
    case (2 n tv1)
    note N = 2(1) and sm = DecodeName_small [OF 2(1) "4.prems"(3)] and IH = "4.IH"(1) [OF 2(1) _ "4.prems"(2)]
    show ?thesis
    proof (cases rule: nextT_cases [OF 2(2)])
      case (2 t tv2 c1)
      then have K: "keeps c c1" "inC c1 t" using IH sm by (auto simp: dec_ok_def)
      have F: "flds_ok c1 (flds @ [(n, t)])"
        using flds_ok_keeps [OF K(1) "4.prems"(4)] K(2) sm by (simp add: flds_ok_def)
      have "small tv2" by (rule decode_rest_small [OF 2(1)]) (simp add: sm)
      from "4.IH"(2) [OF N 2(1,2) keeps_wf [OF K(1)] this F] show ?thesis
        using keeps_trans [OF K(1)] by simp
    qed (use IH sm in \<open>auto simp: dec_ok_def\<close>)
  qed (simp add: keeps_refl "4.prems")
next
  case (5 c tv types)
  then show ?case by (auto simp: keeps_refl)
next
  case (6 k c tv types)
  from "6.prems"(1) obtain r c1 where D: "DecodeTypeValue c (buf tv) = Ok (r, c1)"
    by (auto simp: decodeTypes.simps(2) go_inv)
  note K = "6.IH"(1) [OF D "6.prems"(2,3)]
  have T: "typs_ok c1 types" "keeps c c1" "wf_ctx c1" using K typs_ok_keeps "6.prems"(4) by (auto simp: dec_ok_def keeps_def)
  show ?case
  proof (cases r)
    case None
    with D "6.prems"(1) have "decodeTypes k c1 None (types @ [None]) = Ok ((ts', rest), c')"
      by (simp add: decodeTypes.simps(2))
    then have "keeps c1 c' \<and> typs_ok c' ts' \<and> length ts' = length (types @ [None]) + k"
      by (rule "6.IH"(2) [OF D refl None _ T(3)]) (use T(1) in \<open>simp_all add: typs_ok_def small_limit\<close>)
    then show ?thesis using keeps_trans [OF T(2)] by simp
  next
    case (Some x)
    obtain t tv1 where x: "x = (t, tv1)" by fastforce
    with D Some "6.prems"(1) have "decodeTypes k c1 (Some tv1) (types @ [Some t]) = Ok ((ts', rest), c')"
      by (simp add: decodeTypes.simps(2))
    then have "keeps c1 c' \<and> typs_ok c' ts' \<and> length ts' = length (types @ [Some t]) + k"
    proof (rule "6.IH"(3) [OF D refl Some x [symmetric] _ T(3)])
      show "small (buf (Some tv1))" using decode_rest_small [of c "buf tv" t tv1 c1] D Some x "6.prems"(3) by simp
      show "typs_ok c1 (types @ [Some t])" using T(1) K Some x by (simp add: typs_ok_def dec_ok_def)
    qed
    then show ?thesis using keeps_trans [OF T(2)] by simp
  qed
qed

end
