(* ===== verification/DecodeRT.thy ===== *)
theory DecodeRT
  imports DecodeWf
begin

text \<open>
  Decoding the bytes that the encoder emits: the decoder's typedefs simulate the encoder's, and
  each node decodes to the type of the same structure.
\<close>

section \<open>Decoding what was encoded\<close>

lemma DecodeLength_emit:
  assumes "k < 2 ^ 62"
  shows "DecodeLength (emitLen k @ r) = Some (int k, r)"
proof -
  have k: "k < 2 ^ 63" using assms by simp
  have "0 < length (emitLen k)" unfolding emitLen_def
    by (simp add: appendUvarint_neq_Nil)
  then show ?thesis
    using uvarint_appendUvarint [of "of_nat k" r] sint_of_nat_small [OF k]
    by (simp add: DecodeLength_def emitLen_def)
qed

lemma DecodeName_emit:
  assumes "small n"
  shows "DecodeName (emitName n @ r) = Ok (Some (n, r))"
proof -
  have "DecodeLength (emitName n @ r) = Some (int (length n), n @ r)"
    using DecodeLength_emit [of "length n" "n @ r"] assms by (simp add: emitName_def small_def)
  then show ?thesis
    using go_slice_nat [of 0 "length n" "n @ r"] go_slice_nat [of "length n" "length (n @ r)" "n @ r"]
    by (simp add: DecodeName_def)
qed

lemma decodeSymbols_emit:
  "\<forall>s \<in> set ss. small s \<Longrightarrow>
   decodeSymbols (length ss) (concat (map emitName ss) @ r) acc = Ok (Some (acc @ ss, r))"
  by (induction ss arbitrary: acc) (simp_all add: DecodeName_emit)

lemma typedefs_kept:
  "LookupTypeRecord fs c = Ok (t, c') \<Longrightarrow> typedefs c' = typedefs c"
  "LookupTypeArray s c = Ok (t, c') \<Longrightarrow> typedefs c' = typedefs c"
  "LookupTypeSet s c = Ok (t, c') \<Longrightarrow> typedefs c' = typedefs c"
  "LookupTypeError s c = Ok (t, c') \<Longrightarrow> typedefs c' = typedefs c"
  "LookupTypeMap k v c = Ok (t, c') \<Longrightarrow> typedefs c' = typedefs c"
  "LookupTypeUnion ts c = Ok (t, c') \<Longrightarrow> typedefs c' = typedefs c"
  "LookupTypeEnum ss c = Ok (t, c') \<Longrightarrow> typedefs c' = typedefs c"
  by (auto simp: LookupTypeRecord_def LookupTypeArray_def LookupTypeSet_def LookupTypeError_def
      LookupTypeMap_def LookupTypeUnion_def LookupTypeEnum_def Let_def
      split: option.splits ztype.splits if_splits)

text \<open>The decoder's typedefs cover the names the encoder has emitted.\<close>

definition sim :: "ctx \<Rightarrow> (gostring \<rightharpoonup> ztype) \<Rightarrow> ctx \<Rightarrow> bool" where
  "sim d td c \<longleftrightarrow> (\<forall>n s. td n = Some s \<longrightarrow> (\<exists>i u. typedefs c n = Some (TypeNamed i n u) \<and> twins d c s u))"

lemma twins_keeps: "keeps c c' \<Longrightarrow> twins d c s u \<Longrightarrow> twins d c' s u"
  by (auto simp: twins_def intro: keeps_inC)

lemma sim_keeps: "keeps c c' \<Longrightarrow> typedefs c' = typedefs c \<Longrightarrow> sim d td c \<Longrightarrow> sim d td c'"
  unfolding sim_def by (metis twins_keeps)

lemma sim_empty: "sim d Map.empty c"
  by (simp add: sim_def)

text \<open>What decoding a type of \<open>d\<close> into \<open>c\<close> gives.\<close>

definition decoded :: "ctx \<Rightarrow> ctx \<Rightarrow> (gostring \<rightharpoonup> ztype) \<Rightarrow> ztype \<Rightarrow> ztype \<Rightarrow> ctx \<Rightarrow> bool" where
  "decoded d c td t u c' \<longleftrightarrow> keeps c c' \<and> twins d c' t u \<and> sim d td c'"

lemma decoded_lookup:
  assumes "\<exists>u c'. r = Ok (u, c') \<and> wf_ctx c' \<and> ext_ctx c c' \<and> u \<in> types c' \<and> erase u = erase n"
    and "\<And>u c'. r = Ok (u, c') \<Longrightarrow> typedefs c' = typedefs c"
    and "sim d td c" "inC d t" "erase n = erase t"
  shows "\<exists>u c'. looked_up r rest c = Ok (Some (u, rest), c') \<and> decoded d c td t u c'"
proof -
  from assms(1) obtain u c' where r: "r = Ok (u, c')" "wf_ctx c'" "ext_ctx c c'" "u \<in> types c'" "erase u = erase n"
    by blast
  then have k: "keeps c c'" by (simp add: keeps_def)
  moreover have "sim d td c'" by (rule sim_keeps [OF k assms(2) [OF r(1)] assms(3)])
  ultimately show ?thesis using r assms(4,5)
    by (simp add: looked_up_def decoded_def twins_def inC_def)
qed

lemma decoded_trans:
  "keeps c c1 \<Longrightarrow> \<exists>u c'. X u c' \<and> decoded d c1 td t u c' \<Longrightarrow> \<exists>u c'. X u c' \<and> decoded d c td t u c'"
  by (auto simp: decoded_def intro: keeps_trans)

lemma decodedD:
  "decoded d c td t u c' \<Longrightarrow> wf_ctx c'" "decoded d c td t u c' \<Longrightarrow> keeps c c'"
  "decoded d c td t u c' \<Longrightarrow> sim d td c'" "decoded d c td t u c' \<Longrightarrow> inC c' u"
  "decoded d c td t u c' \<Longrightarrow> erase u = erase t" "decoded d c td t u c' \<Longrightarrow> twins d c' t u"
  unfolding decoded_def twins_def using keeps_wf by auto

lemma decoded_inner:
  assumes "decoded d c td s u c1"
  shows "inC d (TypeArray i s) \<Longrightarrow> \<exists>v c'. looked_up (LookupTypeArray u c1) rest c1 = Ok (Some (v, rest), c') \<and>
      decoded d c td (TypeArray i s) v c'"
    "inC d (TypeSet i s) \<Longrightarrow> \<exists>v c'. looked_up (LookupTypeSet u c1) rest c1 = Ok (Some (v, rest), c') \<and>
      decoded d c td (TypeSet i s) v c'"
    "inC d (TypeError i s) \<Longrightarrow> \<exists>v c'. looked_up (LookupTypeError u c1) rest c1 = Ok (Some (v, rest), c') \<and>
      decoded d c td (TypeError i s) v c'"
proof -
  note D = decodedD [OF assms] and lo = inC_lens_ok [OF wf_ctxD(1) [OF decodedD(1) [OF assms]] decodedD(4) [OF assms]]
  have i: "internable c1 (TypeArray 0 u)" "internable c1 (TypeSet 0 u)" "internable c1 (TypeError 0 u)"
    using D(4) lo by (simp_all add: internable_def)
  show "inC d (TypeArray i s) \<Longrightarrow> \<exists>v c'. looked_up (LookupTypeArray u c1) rest c1 = Ok (Some (v, rest), c') \<and>
      decoded d c td (TypeArray i s) v c'"
    by (rule decoded_trans [OF D(2)], rule decoded_lookup [OF arr.look_ok [OF D(1) i(1)] typedefs_kept(2) D(3)]) (simp_all add: D(5))
  show "inC d (TypeSet i s) \<Longrightarrow> \<exists>v c'. looked_up (LookupTypeSet u c1) rest c1 = Ok (Some (v, rest), c') \<and>
      decoded d c td (TypeSet i s) v c'"
    by (rule decoded_trans [OF D(2)], rule decoded_lookup [OF set.look_ok [OF D(1) i(2)] typedefs_kept(3) D(3)]) (simp_all add: D(5))
  show "inC d (TypeError i s) \<Longrightarrow> \<exists>v c'. looked_up (LookupTypeError u c1) rest c1 = Ok (Some (v, rest), c') \<and>
      decoded d c td (TypeError i s) v c'"
    by (rule decoded_trans [OF D(2)], rule decoded_lookup [OF err.look_ok [OF D(1) i(3)] typedefs_kept(4) D(3)]) (simp_all add: D(5))
qed

lemma decoded_map:
  assumes k: "decoded d c td k u c1" and v: "decoded d c1 td' v w c2" and t: "inC d (TypeMap i k v)"
  shows "\<exists>m c'. looked_up (LookupTypeMap u w c2) rest c2 = Ok (Some (m, rest), c') \<and>
      decoded d c td' (TypeMap i k v) m c'"
proof -
  have "inC c2 u" by (rule keeps_inC [OF decodedD(2) [OF v] decodedD(4) [OF k]])
  then have i: "internable c2 (TypeMap 0 u w)"
    using decodedD(4) [OF v] inC_lens_ok [OF wf_ctxD(1) [OF decodedD(1) [OF v]]] by (simp add: internable_def)
  have "\<exists>m c'. looked_up (LookupTypeMap u w c2) rest c2 = Ok (Some (m, rest), c') \<and>
      decoded d c2 td' (TypeMap i k v) m c'"
    by (rule decoded_lookup [OF map.look_ok [OF decodedD(1) [OF v], of "(u, w)", unfolded split_conv, OF i] typedefs_kept(5) decodedD(3) [OF v] t])
       (simp_all add: decodedD(5) [OF k] decodedD(5) [OF v])
  then show ?thesis by (rule decoded_trans [OF keeps_trans [OF decodedD(2) [OF k] decodedD(2) [OF v]]])
qed

lemma twins_list_erase:
  "list_all2 (twins d c) ts us \<Longrightarrow> map erase us = map erase ts \<and> (\<forall>u \<in> set us. inC c u)"
  by (induction rule: list_all2_induct) (simp_all add: twins_def)

text \<open>A node over the twins of its components can be created.\<close>

lemma twin_record:
  assumes wf: "wf_types d" and wf1: "wf_ctx c" and t: "inC d (TypeRecord i fs)"
    and gs: "map fst gs = map fst fs" "list_all2 (twins d c) (map snd fs) (map snd gs)"
  shows "internable c (TypeRecord 0 gs)" "erase (TypeRecord 0 gs) = erase (TypeRecord i fs)"
proof -
  note E = twins_list_erase [OF gs(2)]
  have "distinct (map fst fs)" "int (length fs) \<le> MaxRecordFields"
    using wf_typesD(3) [OF wf, of "TypeRecord i fs"] t by (simp_all add: inC_def)
  moreover have "small fs" "\<forall>n \<in> set (map fst fs). small n" using inC_lens_ok [OF wf t] by auto
  moreover have "length gs = length fs" using gs(1) by (metis length_map)
  ultimately have "small gs" "\<forall>n \<in> set (map fst gs). small n" "distinct (map fst gs)"
      "int (length gs) \<le> MaxRecordFields"
    unfolding gs(1) by (simp_all add: small_def)
  then show "internable c (TypeRecord 0 gs)"
    using E inC_lens_ok [OF wf_ctxD(1) [OF wf1]] by (auto simp: internable_def)
  have "map (\<lambda>(n, t). (n, erase t)) hs = zip (map fst hs) (map erase (map snd hs))" for hs
    by (induction hs) auto
  then show "erase (TypeRecord 0 gs) = erase (TypeRecord i fs)" using E gs(1) by (metis erase.simps(2))
qed

lemma twin_union:
  assumes wf: "wf_types d" and wf1: "wf_ctx c" and t: "inC d (TypeUnion i ts)" and us: "list_all2 (twins d c) ts us"
  shows "internable c (TypeUnion 0 (sortTypes us))" "erase (TypeUnion 0 (sortTypes us)) = erase (TypeUnion i ts)"
proof -
  note E = twins_list_erase [OF us]
  have "ordered (\<lambda>a b. CompareTypes a b < 0) ts"
    using wf_typesD(3) [OF wf, of "TypeUnion i ts"] t by (simp add: inC_def)
  then have o: "ordered (\<lambda>a b. CompareTypes a b < 0) us"
    using us CompareTypes_twins [OF wf wf_ctxD(1) [OF wf1]] unfolding successively_conv_nth list_all2_conv_all_nth
    by (metis Suc_lessD)
  then have so: "sortTypes us = us" unfolding sortTypes_def by (rule SliceStable_id)
  have "small ts" "int (length ts) \<le> MaxUnionTypes"
    using inC_lens_ok [OF wf t] wf_typesD(3) [OF wf, of "TypeUnion i ts"] t by (simp_all add: inC_def)
  then show "internable c (TypeUnion 0 (sortTypes us))"
    unfolding so using E o inC_lens_ok [OF wf_ctxD(1) [OF wf1]] list_all2_lengthD [OF us]
    by (auto simp: internable_def small_def)
  show "erase (TypeUnion 0 (sortTypes us)) = erase (TypeUnion i ts)" using E so by simp
qed

lemma twin_named:
  assumes wf: "wf_types d" and wf1: "wf_ctx c" and t: "inC d (TypeNamed i n s)" and u: "inC c u"
  shows "internable c (TypeNamed 0 n u)"
proof -
  have "node_ok (TypeNamed i n s)" using wf_typesD(3) [OF wf, of "TypeNamed i n s"] t by (simp add: inC_def)
  moreover have "small n" using inC_lens_ok [OF wf t] by simp
  ultimately show ?thesis using u inC_lens_ok [OF wf_ctxD(1) [OF wf1] u] by (simp add: internable_def)
qed

lemma twin_enum:
  assumes wf: "wf_types d" and t: "inC d (TypeEnum i ss)"
  shows "internable c (TypeEnum 0 ss)"
  using wf_typesD(3) [OF wf, of "TypeEnum i ss"] inC_lens_ok [OF wf t] t by (simp add: internable_def inC_def)

lemma decoded_record:
  assumes wf: "wf_types d" and k: "keeps c c1" and sim: "sim d td c1"
    and t: "inC d (TypeRecord i fs)" and gs: "map fst gs = map fst fs" "list_all2 (twins d c1) (map snd fs) (map snd gs)"
  shows "\<exists>v c'. looked_up (LookupTypeRecord gs c1) rest c1 = Ok (Some (v, rest), c') \<and>
      decoded d c td (TypeRecord i fs) v c'"
  using twin_record [OF wf keeps_wf [OF k] t gs]
  by (intro decoded_trans [OF k] decoded_lookup [OF rec.look_ok [OF keeps_wf [OF k]] typedefs_kept(1) sim t])

lemma decoded_union:
  assumes wf: "wf_types d" and k: "keeps c c1" and sim: "sim d td c1"
    and t: "inC d (TypeUnion i ts)" and us: "list_all2 (twins d c1) ts us"
  shows "\<exists>v c'. looked_up (LookupTypeUnion us c1) rest c1 = Ok (Some (v, rest), c') \<and>
      decoded d c td (TypeUnion i ts) v c'"
  using twin_union [OF wf keeps_wf [OF k] t us]
  by (intro decoded_trans [OF k] decoded_lookup [OF uni.look_ok [OF keeps_wf [OF k]] typedefs_kept(6) sim t])

lemma decoded_named:
  assumes wf: "wf_types d" and u: "decoded d c td s u c1" and t: "inC d (TypeNamed i n s)"
  shows "\<exists>v c'. looked_up (LookupTypeNamed n u c1) rest c1 = Ok (Some (v, rest), c') \<and>
      decoded d c (td(n \<mapsto> s)) (TypeNamed i n s) v c'"
proof -
  note D = decodedD [OF u]
  obtain v c' where v: "LookupTypeNamed n u c1 = Ok (v, c')" "wf_ctx c'" "ext_ctx c1 c'" "v \<in> types c'"
      "erase v = erase (TypeNamed 0 n u)" "typedefs c' = (typedefs c1)(n \<mapsto> v)"
    using LookupTypeNamed_ok [OF D(1) twin_named [OF wf D(1) t D(4)]] by blast
  obtain j w where w: "v = TypeNamed j n w" "erase w = erase u" using v(5) by (cases v) auto
  have k: "keeps c1 c'" using v by (simp add: keeps_def)
  have "inC c' w" using wf_ctxD(2) [OF v(2,4), of w] w by simp
  then have "twins d c' s w" using D(6) w by (simp add: twins_def)
  then have "sim d (td(n \<mapsto> s)) c'"
    using D(3) twins_keeps [OF k] v(6) w unfolding sim_def by (simp, blast)
  then show ?thesis
    using v w t D(2,5) keeps_trans [OF D(2) k] by (simp add: looked_up_def decoded_def twins_def inC_def)
qed

lemma decode_codes:
  "DecodeTypeValue c (37 # tv) =
     nextN (DecodeName tv) c (\<lambda>name tv. nextT (DecodeTypeValue c tv) (\<lambda>typ tv c.
       looked_up (LookupTypeNamed name typ c) tv c))"
  "DecodeTypeValue c (38 # tv) =
     nextN (DecodeName tv) c (\<lambda>name tv.
       case LookupTypeDef name c of None \<Rightarrow> Ok (None, c) | Some typ \<Rightarrow> Ok (Some (typ, tv), c))"
  "DecodeTypeValue c (31 # tv) =
     nextT (DecodeTypeValue c tv) (\<lambda>inner tv c. looked_up (LookupTypeArray inner c) tv c)"
  "DecodeTypeValue c (32 # tv) =
     nextT (DecodeTypeValue c tv) (\<lambda>inner tv c. looked_up (LookupTypeSet inner c) tv c)"
  "DecodeTypeValue c (36 # tv) =
     nextT (DecodeTypeValue c tv) (\<lambda>inner tv c. looked_up (LookupTypeError inner c) tv c)"
  "DecodeTypeValue c (33 # tv) =
     nextT (DecodeTypeValue c tv) (\<lambda>keyType tv c. nextT (DecodeTypeValue c tv) (\<lambda>valType tv c.
       looked_up (LookupTypeMap keyType valType c) tv c))"
  "DecodeTypeValue c (of_nat (prim_ID p) # tv) = Ok (Some (TypePrimitive p, tv), c)"
  by (simp_all add: DecodeTypeValue.simps(2)) (cases p; simp add: LookupPrimitiveByID_def)

lemma decode_counted:
  assumes "k < 2 ^ 62"
  shows "int k \<le> MaxRecordFields \<Longrightarrow> DecodeTypeValue c (30 # emitLen k @ tv) =
      nextT (decodeFields k c tv []) (\<lambda>flds tv c. looked_up (LookupTypeRecord flds c) tv c)"
    "int k \<le> MaxUnionTypes \<Longrightarrow> DecodeTypeValue c (34 # emitLen k @ tv) =
      bindR (decodeTypes k c (Some tv) []) (\<lambda>((types, tv), c). if None \<in> set types then Panic
             else looked_up (LookupTypeUnion (map the types) c) (buf tv) c)"
    "int k \<le> MaxEnumSymbols \<Longrightarrow> DecodeTypeValue c (35 # emitLen k @ tv) =
      nextN (decodeSymbols k tv []) c (\<lambda>symbols tv. looked_up (LookupTypeEnum symbols c) tv c)"
  by (simp_all add: DecodeTypeValue.simps(2) nextN_def DecodeLength_emit [OF assms])

lemma next_Ok [simp]:
  "nextT (Ok (Some (a, tv), c)) f = f a tv c" "nextN (Ok (Some (a, tv))) c g = g a tv"
  by (simp_all add: nextT_def nextN_def)

lemma decode_emit:
  assumes wf: "wf_types d"
  shows "\<And>c rest. inC d t \<Longrightarrow> wf_ctx c \<Longrightarrow> sim d td c \<Longrightarrow>
      \<exists>u c'. DecodeTypeValue c (fst (emitT t td) @ rest) = Ok (Some (u, rest), c') \<and>
        decoded d c (snd (emitT t td)) t u c'"
    "\<And>c rest acc. \<forall>f \<in> set fs. small (fst f) \<and> inC d (snd f) \<Longrightarrow> wf_ctx c \<Longrightarrow> sim d td1 c \<Longrightarrow>
      \<exists>gs c'. decodeFields (length fs) c (fst (emitFs fs td1) @ rest) acc = Ok (Some (acc @ gs, rest), c') \<and>
        keeps c c' \<and> map fst gs = map fst fs \<and> list_all2 (twins d c') (map snd fs) (map snd gs) \<and>
        sim d (snd (emitFs fs td1)) c'"
    "\<And>c rest acc. \<forall>t \<in> set ts. inC d t \<Longrightarrow> wf_ctx c \<Longrightarrow> sim d td2 c \<Longrightarrow>
      \<exists>us c'. decodeTypes (length ts) c (Some (fst (emitTs ts td2) @ rest)) acc =
          Ok ((acc @ map Some us, Some rest), c') \<and>
        keeps c c' \<and> list_all2 (twins d c') ts us \<and> sim d (snd (emitTs ts td2)) c'"
proof (induction t td and fs td1 and ts td2 rule: emitT_emitFs_emitTs.induct)
  case (1 i n t td)
  have sn: "small n" using inC_lens_ok [OF wf "1.prems"(1)] by simp
  have t: "inC d t" using inC_children [OF wf "1.prems"(1)] by simp
  show ?case
  proof (cases "td n = Some t")
    case True
    then obtain j u where u: "typedefs c n = Some (TypeNamed j n u)" "twins d c t u"
      using "1.prems"(3) unfolding sim_def by blast
    then have "inC c (TypeNamed j n u)" using wf_ctxD(8) [OF "1.prems"(2)] by (simp add: inC_def)
    with u True "1.prems" show ?thesis
      by (simp add: decode_codes DecodeName_emit [OF sn] LookupTypeDef_def decoded_def twins_def keeps_refl)
  next
    case False
    obtain u c1 where u: "DecodeTypeValue c (fst (emitT t td) @ rest) = Ok (Some (u, rest), c1)"
        "decoded d c (snd (emitT t td)) t u c1"
      using "1.IH" [OF False t "1.prems"(2,3)] by blast
    with decoded_named [OF wf u(2) "1.prems"(1)] False show ?thesis
      by (simp add: decode_codes DecodeName_emit [OF sn] fun_upd_def)
  qed
next
  case (2 i fs td)
  have nk: "node_ok (TypeRecord i fs)" using wf_typesD(3) [OF wf, of "TypeRecord i fs"] "2.prems"(1) by (simp add: inC_def)
  have sm: "length fs < 2 ^ 62" "\<forall>f \<in> set fs. small (fst f)"
    using inC_lens_ok [OF wf "2.prems"(1)] by (simp_all add: small_def)
  have "\<forall>f \<in> set fs. small (fst f) \<and> inC d (snd f)"
    using sm inC_children [OF wf "2.prems"(1)] by simp
  from "2.IH" [OF this "2.prems"(2,3), of rest "[]"] obtain gs c1 where g:
      "decodeFields (length fs) c (fst (emitFs fs td) @ rest) [] = Ok (Some (gs, rest), c1)" "keeps c c1"
      "map fst gs = map fst fs" "list_all2 (twins d c1) (map snd fs) (map snd gs)" "sim d (snd (emitFs fs td)) c1"
    by auto
  with decoded_record [OF wf g(2,5) "2.prems"(1) g(3,4)] nk show ?case
    by (simp add: decode_counted(1) [OF sm(1)])
next
  case (3 i ts td)
  have nk: "node_ok (TypeUnion i ts)" using wf_typesD(3) [OF wf, of "TypeUnion i ts"] "3.prems"(1) by (simp add: inC_def)
  have sm: "length ts < 2 ^ 62" using inC_lens_ok [OF wf "3.prems"(1)] by (simp add: small_def)
  have "\<forall>t \<in> set ts. inC d t"
    using inC_children [OF wf "3.prems"(1)] by simp
  from "3.IH" [OF this "3.prems"(2,3), of rest "[]"] obtain us c1 where u:
      "decodeTypes (length ts) c (Some (fst (emitTs ts td) @ rest)) [] = Ok ((map Some us, Some rest), c1)" "keeps c c1"
      "list_all2 (twins d c1) ts us" "sim d (snd (emitTs ts td)) c1"
    by auto
  with decoded_union [OF wf u(2,4) "3.prems"(1) u(3)] nk show ?case
    by (simp add: decode_counted(2) [OF sm(1)] comp_def)
next
  case (4 i t td)
  have t: "inC d t" using inC_children [OF wf "4.prems"(1)] by simp
  obtain u c1 where u: "DecodeTypeValue c (fst (emitT t td) @ rest) = Ok (Some (u, rest), c1)"
        "decoded d c (snd (emitT t td)) t u c1"
    using "4.IH" [OF t "4.prems"(2,3)] by blast
  with decoded_inner(2) [OF u(2) "4.prems"(1)] show ?case by (simp add: decode_codes)
next
  case (5 i t td)
  have t: "inC d t" using inC_children [OF wf "5.prems"(1)] by simp
  obtain u c1 where u: "DecodeTypeValue c (fst (emitT t td) @ rest) = Ok (Some (u, rest), c1)"
        "decoded d c (snd (emitT t td)) t u c1"
    using "5.IH" [OF t "5.prems"(2,3)] by blast
  with decoded_inner(1) [OF u(2) "5.prems"(1)] show ?case by (simp add: decode_codes)
next
  case (8 i t td)
  have t: "inC d t" using inC_children [OF wf "8.prems"(1)] by simp
  obtain u c1 where u: "DecodeTypeValue c (fst (emitT t td) @ rest) = Ok (Some (u, rest), c1)"
        "decoded d c (snd (emitT t td)) t u c1"
    using "8.IH" [OF t "8.prems"(2,3)] by blast
  with decoded_inner(3) [OF u(2) "8.prems"(1)] show ?case by (simp add: decode_codes)
next
  case (6 i ss td)
  have nk: "node_ok (TypeEnum i ss)" using wf_typesD(3) [OF wf, of "TypeEnum i ss"] "6.prems"(1) by (simp add: inC_def)
  have sm: "length ss < 2 ^ 62" "\<forall>s \<in> set ss. small s" "small ss"
    using inC_lens_ok [OF wf "6.prems"(1)] by (simp_all add: small_def)
  from decoded_lookup [OF enu.look_ok [OF "6.prems"(2) twin_enum [OF wf "6.prems"(1)]] typedefs_kept(7) "6.prems"(3) "6.prems"(1)]
  show ?case using nk decodeSymbols_emit [OF sm(2), of rest "[]"]
    by (simp add: decode_counted(3) [OF sm(1)])
next
  case (7 i k v td)
  have kv: "inC d k" "inC d v" using inC_children [OF wf "7.prems"(1)] by simp_all
  obtain u c1 where u: "DecodeTypeValue c (fst (emitT k td) @ fst (emitT v (snd (emitT k td))) @ rest) =
      Ok (Some (u, fst (emitT v (snd (emitT k td))) @ rest), c1)" "decoded d c (snd (emitT k td)) k u c1"
    using "7.IH"(1) [OF kv(1) "7.prems"(2,3)] by blast
  obtain w c2 where w: "DecodeTypeValue c1 (fst (emitT v (snd (emitT k td))) @ rest) = Ok (Some (w, rest), c2)"
      "decoded d c1 (snd (emitT v (snd (emitT k td)))) v w c2"
    using "7.IH"(3) [OF kv(2) decodedD(1,3) [OF u(2)]] by blast
  with decoded_map [OF u(2) w(2) "7.prems"(1)] u show ?case by (simp add: decode_codes)
next
  case (9 p td)
  then show ?case by (simp add: decode_codes decoded_def twins_def keeps_refl)
next
  case (10 td)
  then show ?case by (simp add: keeps_refl)
next
  case (11 n t fs td)
  have t: "inC d t" using "11.prems"(1) by simp
  obtain u c1 where u: "DecodeTypeValue c (fst (emitT t td) @ fst (emitFs fs (snd (emitT t td))) @ rest) =
      Ok (Some (u, fst (emitFs fs (snd (emitT t td))) @ rest), c1)" "decoded d c (snd (emitT t td)) t u c1"
    using "11.IH"(1) [OF t "11.prems"(2,3)] by blast
  have "\<forall>f \<in> set fs. small (fst f) \<and> inC d (snd f)" using "11.prems"(1) by simp
  from "11.IH"(3) [OF this decodedD(1,3) [OF u(2)], of rest "acc @ [(n, u)]"] obtain gs c' where g:
      "decodeFields (length fs) c1 (fst (emitFs fs (snd (emitT t td))) @ rest) (acc @ [(n, u)]) =
         Ok (Some (acc @ (n, u) # gs, rest), c')" "keeps c1 c'" "map fst gs = map fst fs"
      "list_all2 (twins d c') (map snd fs) (map snd gs)" "sim d (snd (emitFs fs (snd (emitT t td)))) c'"
    by auto
  have "keeps c c'" "twins d c' t u"
    by (rule keeps_trans [OF decodedD(2) [OF u(2)] g(2)], rule twins_keeps [OF g(2) decodedD(6) [OF u(2)]])
  then show ?case using g u(1) "11.prems"(1)
    by (intro exI [of _ "(n, u) # gs"] exI [of _ c']) (simp add: decodeFields.simps(2) DecodeName_emit)
next
  case (12 td)
  then show ?case by (simp add: keeps_refl)
next
  case (13 t ts td)
  have t: "inC d t" using "13.prems"(1) by simp
  obtain u c1 where u: "DecodeTypeValue c (fst (emitT t td) @ fst (emitTs ts (snd (emitT t td))) @ rest) =
      Ok (Some (u, fst (emitTs ts (snd (emitT t td))) @ rest), c1)" "decoded d c (snd (emitT t td)) t u c1"
    using "13.IH"(1) [OF t "13.prems"(2,3)] by blast
  have "\<forall>t \<in> set ts. inC d t" using "13.prems"(1) by simp
  from "13.IH"(3) [OF this decodedD(1,3) [OF u(2)], of rest "acc @ [Some u]"] obtain us c' where g:
      "decodeTypes (length ts) c1 (Some (fst (emitTs ts (snd (emitT t td))) @ rest)) (acc @ [Some u]) =
         Ok ((acc @ Some u # map Some us, Some rest), c')" "keeps c1 c'"
      "list_all2 (twins d c') ts us" "sim d (snd (emitTs ts (snd (emitT t td)))) c'"
    by auto
  have "keeps c c'" "twins d c' t u"
    by (rule keeps_trans [OF decodedD(2) [OF u(2)] g(2)], rule twins_keeps [OF g(2) decodedD(6) [OF u(2)]])
  then show ?case using g u(1)
    by (intro exI [of _ "u # us"] exI [of _ c']) (simp add: decodeTypes.simps(2))
qed

end
