(* ===== verification/ContextSpec.thy ===== *)
theory ContextSpec
  imports DecodeRT
begin

text \<open>
  The type context as its clients see it: the contexts that a sequence of calls reaches, what
  holds of all of them, and the behaviour of the calls on malformed input.
\<close>

section \<open>Reachable contexts\<close>

text \<open>
  A client passes types it got from the context, within the decoder's limits; byte slices are
  arbitrary.  Calls that return an error leave the context as it was.
\<close>

inductive reachable :: "ctx \<Rightarrow> bool" where
  New: "reachable NewContext"
| Reset: "reachable c \<Longrightarrow> reachable (Context_Reset c)"
| Record: "reachable c \<Longrightarrow> \<forall>f \<in> set fs. small (fst f) \<and> inC c (snd f) \<Longrightarrow>
    int (length fs) \<le> MaxRecordFields \<Longrightarrow> LookupTypeRecord fs c = Ok (t, c') \<Longrightarrow> reachable c'"
| Array: "reachable c \<Longrightarrow> inC c s \<Longrightarrow> LookupTypeArray s c = Ok (t, c') \<Longrightarrow> reachable c'"
| Set: "reachable c \<Longrightarrow> inC c s \<Longrightarrow> LookupTypeSet s c = Ok (t, c') \<Longrightarrow> reachable c'"
| Error: "reachable c \<Longrightarrow> inC c s \<Longrightarrow> LookupTypeError s c = Ok (t, c') \<Longrightarrow> reachable c'"
| Map: "reachable c \<Longrightarrow> inC c k \<Longrightarrow> inC c v \<Longrightarrow> LookupTypeMap k v c = Ok (t, c') \<Longrightarrow> reachable c'"
| Union: "reachable c \<Longrightarrow> int (length ts) \<le> MaxUnionTypes \<Longrightarrow> \<forall>s \<in> set ts. inC c s \<Longrightarrow>
    LookupTypeUnion ts c = Ok (t, c') \<Longrightarrow> reachable c'"
| Enum: "reachable c \<Longrightarrow> int (length ss) \<le> MaxEnumSymbols \<Longrightarrow> \<forall>s \<in> set ss. small s \<Longrightarrow>
    LookupTypeEnum ss c = Ok (t, c') \<Longrightarrow> reachable c'"
| Named: "reachable c \<Longrightarrow> small n \<Longrightarrow> inC c s \<Longrightarrow> LookupTypeNamed n s c = Ok (t, c') \<Longrightarrow> reachable c'"
| StringErr: "reachable c \<Longrightarrow> StringTypeError c = Ok (t, c') \<Longrightarrow> reachable c'"
| Decode: "reachable c \<Longrightarrow> small tv \<Longrightarrow> DecodeTypeValue c tv = Ok (r, c') \<Longrightarrow> reachable c'"
| ByValue: "reachable c \<Longrightarrow> small tv \<Longrightarrow> LookupByValue tv c = Ok (r, c') \<Longrightarrow> reachable c'"

lemma types_of_None: "set xs \<subseteq> {None} \<Longrightarrow> {t. Some t \<in> set xs} = {}"
  by auto

lemma wf_empty:
  assumes "byID c = replicate 30 None" "toType c = Map.empty" "typedefs c = Map.empty"
  shows "wf_ctx c"
  using assms by (auto simp: wf_ctx_def wf_types_def wf_ids_def types_def)

lemma wf_NewContext: "wf_ctx NewContext"
  by (rule wf_empty) (simp_all add: NewContext_def IDTypeComplex_def)

lemma wf_Reset:
  assumes "wf_ctx c"
  shows "wf_ctx (Context_Reset c)"
proof (rule wf_empty)
  have "30 \<le> length (byID c)" "\<forall>i < 30. byID c ! i = None"
    using wf_typesD(1) [OF wf_ctxD(1) [OF assms]] by (simp_all add: wf_ids_def)
  then show "byID (Context_Reset c) = replicate 30 None"
    by (auto simp: Context_Reset_def IDTypeComplex_def intro: nth_equalityI)
qed (simp_all add: Context_Reset_def)

text \<open>Entering a decoded value: the value may be one of several that decode to the type.\<close>

lemma wf_toType:
  assumes wf: "wf_ctx c" and t: "inC c t" and canon: "\<And>e. canon e \<Longrightarrow> EncodeTypeValue e = tv \<Longrightarrow> erase t = e"
  shows "wf_ctx (c\<lparr>toValue := m, toType := (toType c)(tv \<mapsto> t)\<rparr>)"
proof -
  let ?c = "c\<lparr>toValue := m, toType := (toType c)(tv \<mapsto> t)\<rparr>"
  have same: "types ?c = types c" "inC ?c = inC c" "typedefs ?c = typedefs c" "wf_types ?c = wf_types c"
    by (simp_all add: types_def inC_def wf_types_def wf_ids_def fun_eq_iff)
  have own: "toType ?c (EncodeTypeValue s) = Some s" if s: "s \<in> types c" for s
  proof (cases "EncodeTypeValue s = tv")
    case True
    have "canon (erase s)" using s wf_ctxD(1) [OF wf] unfolding canon_def inC_def by blast
    moreover have "EncodeTypeValue (erase s) = tv"
      using Encode_erase_inC [OF wf_ctxD(1) [OF wf], of s] s True by (simp add: inC_def)
    ultimately have "erase t = erase s" by (rule canon)
    then have "t = s" using erase_inj [OF wf_ctxD(1) [OF wf] t, of s] s by (simp add: inC_def)
    with True show ?thesis by simp
  next
    case False
    with wf_ctxD(5) [OF wf s] show ?thesis by simp
  qed
  have "inC c u \<and> (\<forall>e. canon e \<and> EncodeTypeValue e = b \<longrightarrow> erase u = e)" if "toType ?c b = Some u" for b u
  proof (cases "b = tv")
    case True
    with that t canon show ?thesis by auto
  next
    case False
    with that wf_ctxD(6,7) [OF wf] show ?thesis by auto
  qed
  with own wf_ctxD(1,8,9) [OF wf] show ?thesis unfolding wf_ctx_def same by blast
qed

lemma Decode_Encode:
  assumes "wf_types d" "inC d t" "wf_ctx c"
  shows "\<exists>u c'. DecodeTypeValue c (EncodeTypeValue t @ rest) = Ok (Some (u, rest), c') \<and>
    keeps c c' \<and> twins d c' t u"
  using decode_emit(1) [OF assms(1,2,3) sim_empty, of rest]
  unfolding EncodeTypeValue_eq decoded_def by blast

lemma LookupByValue_keeps:
  assumes wf: "wf_ctx c" and tv: "small tv" and r: "LookupByValue tv c = Ok (r, c')"
  shows "keeps c c' \<and> (\<forall>t. r = Some t \<longrightarrow> inC c' t)"
proof (cases "toType c tv")
  case (Some t)
  with r wf show ?thesis by (auto simp: LookupByValue_def keeps_refl dest: wf_ctxD(6))
next
  case None
  with r obtain x c1 where D: "DecodeTypeValue c tv = Ok (x, c1)"
    by (auto simp: LookupByValue_def go_inv)
  note K = decode_keeps(1) [OF D wf tv]
  show ?thesis
  proof (cases x)
    case None
    with D r K \<open>toType c tv = None\<close> show ?thesis by (simp add: LookupByValue_def dec_ok_def)
  next
    case (Some y)
    obtain t rest where y: "y = (t, rest)" by fastforce
    have t: "inC c1 t" "wf_ctx c1" "keeps c c1" using K Some y by (simp_all add: dec_ok_def keeps_def)
    have "wf_ctx (c1\<lparr>toValue := (toValue c1)(t \<mapsto> tv), toType := (toType c1)(tv \<mapsto> t)\<rparr>)"
    proof (rule wf_toType [OF t(2,1)])
      fix e assume e: "canon e" "EncodeTypeValue e = tv"
      then obtain d s where s: "wf_types d" "inC d s" "erase s = e" unfolding canon_def by blast
      then have "EncodeTypeValue s = tv" using e(2) Encode_erase_inC [OF s(1,2)] by simp
      with Decode_Encode [OF s(1,2) wf, of "[]"] D Some y have "twins d c1 s t" by auto
      with s show "erase t = e" by (simp add: twins_def)
    qed
    moreover have "c' = c1\<lparr>toValue := (toValue c1)(t \<mapsto> tv), toType := (toType c1)(tv \<mapsto> t)\<rparr>" "r = Some t"
      using D r Some y \<open>toType c tv = None\<close> by (auto simp: LookupByValue_def)
    ultimately show ?thesis using t by (auto simp: keeps_def ext_ctx_def inC_def types_def)
  qed
qed

lemma good_Ok: "good c r \<Longrightarrow> r = Ok (t, c') \<Longrightarrow> wf_ctx c'"
  by (simp add: good_def)

lemma reachable_wf: "reachable c \<Longrightarrow> wf_ctx c"
proof (induction rule: reachable.induct)
  case (StringErr c t c')
  then show ?case
    using good_Ok [OF good_node(3) [OF _ inC_Prim]] by (auto simp: StringTypeError_def split: option.splits)
next
  case (Decode c tv r c')
  then show ?case using decode_keeps(1) by (auto simp: dec_ok_def keeps_def)
next
  case (ByValue c tv r c')
  then show ?case using LookupByValue_keeps by (auto simp: keeps_def)
qed (auto intro: wf_NewContext wf_Reset good_Ok good_Record good_node)

end
