(* ===== verification/ContextProps.thy ===== *)
theory ContextProps
  imports ContextSpec
begin

text \<open>The properties of the type context, stated on the contexts that clients reach.\<close>

lemma reachable_types: "reachable c \<Longrightarrow> wf_types c"
  by (rule wf_ctxD(1) [OF reachable_wf])

section \<open>One type per structure\<close>

text \<open>C23: in every reachable context, two types are the same pointer exactly when they have the
  same structure, and the ID of a complex type finds it.\<close>

theorem Context_pointer_equality:
  assumes "reachable c" "inC c t" "inC c u"
  shows "(t = u \<longleftrightarrow> erase t = erase u) \<and> (\<not> isPrim t \<longrightarrow> LookupType c (int (TypeID t)) = Ok t)"
proof -
  note wt = reachable_types [OF assms(1)]
  have "LookupType c (int (TypeID t)) = Ok t" if "\<not> isPrim t"
    using types_TypeID [OF wf_typesD(1) [OF wt], of t] that assms(2)
    by (simp add: LookupType_def IDTypeComplex_def inC_def)
  with erase_inj [OF wt assms(2,3)] show ?thesis by auto
qed

text \<open>A context with one complex type, for the concrete instances.\<close>

definition arrayContext :: ctx where
  "arrayContext = enterWithLock [31, 9] (TypeArray 30 (TypePrimitive TypeInt64)) NewContext"

lemma LookupTypeArray_NewContext:
  "LookupTypeArray (TypePrimitive TypeInt64) NewContext = Ok (TypeArray 30 (TypePrimitive TypeInt64), arrayContext)"
  by (simp add: LookupTypeArray_def AppendTypeValue_eq EncodeTypeValue_eq arrayContext_def NewContext_def
      nextIDWithLock_def IDTypeComplex_def Let_def)

lemma arrayContext_facts:
  "reachable arrayContext" "inC arrayContext (TypeArray 30 (TypePrimitive TypeInt64))"
  using reachable.Array [OF reachable.New inC_Prim LookupTypeArray_NewContext]
  by (simp_all add: arrayContext_def inC_def)

theorem Context_pointer_equality_witness:
  "LookupType arrayContext 30 = Ok (TypeArray 30 (TypePrimitive TypeInt64))"
  using Context_pointer_equality [OF arrayContext_facts(1) arrayContext_facts(2) arrayContext_facts(2)]
  by (simp add: TypeID_def)

lemma record_internable:
  assumes "reachable c" "\<forall>f \<in> set fs. small (fst f) \<and> inC c (snd f)" "int (length fs) \<le> MaxRecordFields"
    and "distinct (map fst fs)"
  shows "internable c (TypeRecord 0 fs)"
  using assms inC_lens_ok [OF reachable_types] by (auto simp: internable_def small_def MaxRecordFields_def)

text \<open>A record type with distinct field names can always be looked up; it has the fields
  asked for and the context keeps its types.\<close>

theorem LookupTypeRecord_ok:
  assumes "reachable c" "\<forall>f \<in> set fs. small (fst f) \<and> inC c (snd f)" "int (length fs) \<le> MaxRecordFields"
    and "distinct (map fst fs)"
  shows "\<exists>i c1. LookupTypeRecord fs c = Ok (TypeRecord i fs, c1) \<and> inC c1 (TypeRecord i fs) \<and> ext_ctx c c1"
proof -
  note wf = reachable_wf [OF assms(1)] and i = record_internable [OF assms]
  obtain t c1 where t: "intern (TypeRecord 0 fs) c = (t, c1)" by (cases "intern (TypeRecord 0 fs) c")
  note sp = intern_spec [OF wf i t]
  then obtain j where "t = TypeRecord j fs" by (metis set_id.simps(2))
  with LookupTypeRecord_eq [OF wf i] t sp(2,3) show ?thesis by (auto simp: inC_def)
qed

theorem LookupTypeRecord_ok_witness:
  "\<exists>i c1. LookupTypeRecord [(str ''a'', TypeArray 30 (TypePrimitive TypeInt64))] arrayContext =
      Ok (TypeRecord i [(str ''a'', TypeArray 30 (TypePrimitive TypeInt64))], c1) \<and>
    inC c1 (TypeRecord i [(str ''a'', TypeArray 30 (TypePrimitive TypeInt64))]) \<and> ext_ctx arrayContext c1"
  by (rule LookupTypeRecord_ok [OF arrayContext_facts(1)])
     (simp_all add: small_def str_def MaxRecordFields_def arrayContext_facts(2))

text \<open>Asking again for a record type, in any later context, returns the type created first.\<close>

theorem LookupTypeRecord_again:
  assumes "reachable c" "\<forall>f \<in> set fs. small (fst f) \<and> inC c (snd f)" "int (length fs) \<le> MaxRecordFields"
    and "distinct (map fst fs)" "LookupTypeRecord fs c = Ok (t, c1)" "reachable c2" "ext_ctx c1 c2"
  shows "\<exists>c3. LookupTypeRecord fs c2 = Ok (t, c3)"
  using rec.look_again [OF reachable_wf [OF assms(1)] record_internable [OF assms(1-4)] assms(5,7)
    reachable_wf [OF assms(6)]] .

theorem LookupTypeRecord_again_witness:
  "\<exists>c3. LookupTypeRecord [] (enterWithLock [30, 0] (TypeRecord 30 []) NewContext) = Ok (TypeRecord 30 [], c3)"
proof -
  have r: "LookupTypeRecord [] NewContext = Ok (TypeRecord 30 [], enterWithLock [30, 0] (TypeRecord 30 []) NewContext)"
    by (simp add: LookupTypeRecord_def AppendTypeValue_eq EncodeTypeValue_eq emitLen_def NewContext_def
        duplicateField_def nextIDWithLock_def IDTypeComplex_def Let_def)
  have "reachable (enterWithLock [30, 0] (TypeRecord 30 []) NewContext)"
    by (rule reachable.Record [OF reachable.New _ _ r]) (simp_all add: MaxRecordFields_def)
  then show ?thesis
    by (intro LookupTypeRecord_again [OF reachable.New _ _ _ r]) (simp_all add: MaxRecordFields_def)
qed

text \<open>C27: the order of types, which decides the order of union types, is the same in every
  context that has the types.\<close>

theorem CompareTypes_context_free:
  assumes "reachable c" "reachable d" "inC c a" "inC c b" "inC d a'" "inC d b'"
    and "erase a = erase a'" "erase b = erase b'"
  shows "CompareTypes a b = CompareTypes a' b'"
  by (rule CompareTypes_twins [OF reachable_types [OF assms(1)] reachable_types [OF assms(2)]])
     (use assms in \<open>simp_all add: twins_def\<close>)

text \<open>Two contexts that made two array types in different orders, so that the IDs are exchanged.\<close>

definition twoArrays :: ctx where
  "twoArrays = enterWithLock [31, 25] (TypeArray 31 (TypePrimitive TypeString)) arrayContext"

definition stringFirst :: ctx where
  "stringFirst = enterWithLock [31, 25] (TypeArray 30 (TypePrimitive TypeString)) NewContext"

definition twoArrays' :: ctx where
  "twoArrays' = enterWithLock [31, 9] (TypeArray 31 (TypePrimitive TypeInt64)) stringFirst"

lemma LookupTypeArray_two:
  "LookupTypeArray (TypePrimitive TypeString) arrayContext = Ok (TypeArray 31 (TypePrimitive TypeString), twoArrays)"
  "LookupTypeArray (TypePrimitive TypeString) NewContext = Ok (TypeArray 30 (TypePrimitive TypeString), stringFirst)"
  "LookupTypeArray (TypePrimitive TypeInt64) stringFirst = Ok (TypeArray 31 (TypePrimitive TypeInt64), twoArrays')"
  by (simp_all add: LookupTypeArray_def AppendTypeValue_eq EncodeTypeValue_eq twoArrays_def twoArrays'_def stringFirst_def
      arrayContext_def enterWithLock_def NewContext_def nextIDWithLock_def IDTypeComplex_def Let_def)

lemma twoArrays_facts:
  "reachable twoArrays" "inC twoArrays (TypeArray 30 (TypePrimitive TypeInt64))" "inC twoArrays (TypeArray 31 (TypePrimitive TypeString))"
  "reachable twoArrays'" "inC twoArrays' (TypeArray 31 (TypePrimitive TypeInt64))" "inC twoArrays' (TypeArray 30 (TypePrimitive TypeString))"
  using reachable.Array [OF arrayContext_facts(1) inC_Prim LookupTypeArray_two(1)]
    reachable.Array [OF reachable.Array [OF reachable.New inC_Prim LookupTypeArray_two(2)] inC_Prim LookupTypeArray_two(3)]
  by (simp_all add: twoArrays_def twoArrays'_def stringFirst_def arrayContext_def inC_def)

theorem CompareTypes_context_free_witness:
  "CompareTypes (TypeArray 30 (TypePrimitive TypeInt64)) (TypeArray 31 (TypePrimitive TypeString)) =
   CompareTypes (TypeArray 31 (TypePrimitive TypeInt64)) (TypeArray 30 (TypePrimitive TypeString))"
  by (rule CompareTypes_context_free [OF twoArrays_facts(1,4,2,3,5,6)]) simp_all

section \<open>Type values\<close>

text \<open>C24: decoding the type value of a type of one context in another context consumes exactly
  the value and gives a type of the same structure; the other context keeps its types.\<close>

theorem DecodeTypeValue_EncodeTypeValue:
  assumes "reachable d" "inC d t" "reachable c"
  shows "\<exists>u c'. DecodeTypeValue c (EncodeTypeValue t @ rest) = Ok (Some (u, rest), c') \<and>
    inC c' u \<and> erase u = erase t \<and> ext_ctx c c'"
  using Decode_Encode [OF reachable_types [OF assms(1)] assms(2) reachable_wf [OF assms(3)], of rest]
  by (auto simp: twins_def keeps_def)

theorem DecodeTypeValue_EncodeTypeValue_witness:
  "\<exists>u c'. DecodeTypeValue NewContext [31, 9, 7] = Ok (Some (u, [7]), c') \<and>
    inC c' u \<and> erase u = TypeArray 0 (TypePrimitive TypeInt64) \<and> ext_ctx NewContext c'"
  using DecodeTypeValue_EncodeTypeValue [OF arrayContext_facts reachable.New, of "[7]"]
  by (simp add: EncodeTypeValue_eq)

text \<open>C25: translating a type into another context gives the type of the same structure there,
  and translating it back gives the original type.\<close>

theorem TranslateType_roundtrip:
  assumes "reachable d" "inC d t" "reachable c" "small (EncodeTypeValue t)"
  shows "\<exists>u c'. TranslateType t c = Ok (Some u, c') \<and> reachable c' \<and> inC c' u \<and> erase u = erase t \<and>
    (\<exists>d'. TranslateType u d = Ok (Some t, d'))"
proof -
  have step: "\<exists>u c'. TranslateType t c = Ok (Some u, c') \<and> reachable c' \<and> inC c' u \<and> erase u = erase t"
    if A: "reachable d" "inC d t" "reachable c" "small (EncodeTypeValue t)" for c d t
  proof -
    note wt = reachable_types [OF A(1)] and wf = reachable_wf [OF A(3)]
    have enc: "EncodeTypeValue (erase t) = EncodeTypeValue t" by (rule Encode_erase_inC [OF wt A(2)])
    obtain u c' where u: "LookupByValue (EncodeTypeValue t) c = Ok (Some u, c')" "erase u = erase t"
    proof (cases "toType c (EncodeTypeValue t)")
      case (Some u)
      moreover have "canon (erase t)" using wt A(2) unfolding canon_def by blast
      ultimately have "erase u = erase t" using wf_ctxD(7) [OF wf, of "erase t" u] enc by simp
      with Some that show thesis by (simp add: LookupByValue_def)
    next
      case None
      with Decode_Encode [OF wt A(2) wf, of "[]"] that show thesis
        by (auto simp: LookupByValue_def twins_def)
    qed
    with LookupByValue_keeps [OF wf A(4) u(1)] reachable.ByValue [OF A(3,4) u(1)] show ?thesis
      by (simp add: TranslateType_def)
  qed
  obtain u c' where u: "TranslateType t c = Ok (Some u, c')" "reachable c'" "inC c' u" "erase u = erase t"
    using step [OF assms] by blast
  have "EncodeTypeValue u = EncodeTypeValue t"
    using Encode_erase_inC [OF reachable_types] u assms(1,2) by metis
  with assms(4) have sm: "small (EncodeTypeValue u)" by simp
  have "\<exists>d'. TranslateType u d = Ok (Some t, d')"
  proof -
    obtain v d' where v: "TranslateType u d = Ok (Some v, d')" "reachable d'" "inC d' v" "erase v = erase u"
      using step [OF u(2,3) assms(1) sm] by blast
    have "inC d' t"
      using LookupByValue_keeps [OF reachable_wf [OF assms(1)] sm] v(1) keeps_inC assms(2)
      unfolding TranslateType_def by blast
    with erase_inj [OF reachable_types [OF v(2)] v(3)] v(4) u(4) have "v = t" by simp
    with v(1) show ?thesis by blast
  qed
  with u show ?thesis by blast
qed

theorem TranslateType_roundtrip_witness:
  "\<exists>u c'. TranslateType (TypeArray 30 (TypePrimitive TypeInt64)) NewContext = Ok (Some u, c') \<and>
    reachable c' \<and> inC c' u \<and> erase u = erase (TypeArray 30 (TypePrimitive TypeInt64)) \<and>
    (\<exists>d'. TranslateType u arrayContext = Ok (Some (TypeArray 30 (TypePrimitive TypeInt64)), d'))"
  by (rule TranslateType_roundtrip [OF arrayContext_facts reachable.New]) (simp add: EncodeTypeValue_eq small_def)

text \<open>C28: whatever bytes are decoded, when decoding returns a type it belongs to the context, the
  remaining bytes are fewer, and the context keeps the types it had.\<close>

theorem DecodeTypeValue_any_bytes:
  assumes "reachable c" "small tv" "DecodeTypeValue c tv = Ok (Some (t, rest), c')"
  shows "inC c' t \<and> length rest < length tv \<and> ext_ctx c c' \<and> (\<forall>u. inC c' u \<and> erase u = erase t \<longrightarrow> u = t)"
proof -
  have d: "dec_ok c (Some (t, rest)) c'" by (rule decode_keeps(1) [OF assms(3) reachable_wf [OF assms(1)] assms(2)])
  moreover have "reachable c'" using reachable.Decode assms by blast
  ultimately show ?thesis
    using decode_shrinks [OF assms(3)] erase_inj [OF reachable_types] by (auto simp: dec_ok_def keeps_def)
qed

theorem DecodeTypeValue_any_bytes_witness:
  "\<exists>t rest c'. DecodeTypeValue NewContext [31, 9, 3] = Ok (Some (t, rest), c') \<and> inC c' t \<and> length rest < 3 \<and>
     ext_ctx NewContext c' \<and> (\<forall>u. inC c' u \<and> erase u = erase t \<longrightarrow> u = t)"
proof -
  have d: "DecodeTypeValue NewContext [31, 9, 3] = Ok (Some (TypeArray 30 (TypePrimitive TypeInt64), [3]), arrayContext)"
    using LookupTypeArray_NewContext by (simp add: DecodeTypeValue.simps(2) LookupPrimitiveByID_def nextT_def looked_up_def)
  from DecodeTypeValue_any_bytes [OF reachable.New _ this] d show ?thesis by (auto simp: small_def)
qed

text \<open>C14: \<open>WrapError\<close> wraps any value of the context: the result has the type
  \<open>error({message:string,on:T})\<close> and its bytes hold the message and the value, in this order.\<close>

theorem WrapError_wraps:
  assumes "reachable c" "inC c typ" "small msg" "small (buf val)"
  shows "\<exists>t b c'. WrapError msg (typ, val) c = Ok ((t, Some b), c') \<and> inC c' t \<and>
    erase t = TypeError 0 (TypeRecord 0 [(str ''message'', TypePrimitive TypeString), (str ''on'', erase typ)]) \<and>
    (\<exists>b'. Iter_Next b = Ok (Some msg, b') \<and> Iter_Next b' = Ok (val, []))"
proof -
  let ?fs = "[(str ''message'', TypePrimitive TypeString), (str ''on'', typ)]"
  note wf = reachable_wf [OF assms(1)]
  have i: "internable c (TypeRecord 0 ?fs)"
    using assms(2) inC_lens_ok [OF wf_ctxD(1) [OF wf] assms(2)]
    by (simp add: internable_def small_def MaxRecordFields_def str_def)
  obtain r c1 where r: "LookupTypeRecord ?fs c = Ok (r, c1)" "wf_ctx c1" "r \<in> types c1" "erase r = erase (TypeRecord 0 ?fs)"
    using rec.look_ok [OF wf i] by blast
  have i2: "internable c1 (TypeError 0 r)"
    using r(3) inC_lens_ok [OF wf_ctxD(1) [OF r(2)], of r] by (simp add: internable_def inC_def)
  obtain t c' where t: "LookupTypeError r c1 = Ok (t, c')" "t \<in> types c'" "erase t = erase (TypeError 0 r)"
    using err.look_ok [OF r(2) i2] by blast
  have "WrapError msg (typ, val) c = Ok ((t, Some (Append [] (Some msg) @ Append [] val)), c')"
    using r t by (simp add: WrapError_def MustLookupTypeRecord_def Builder_Append_def NewBuilder_def Builder_Bytes_def
        Append_append [of "Append [] (Some msg)"])
  moreover have "Iter_Next (Append [] val) = Ok (val, [])"
    using Iter_Next_Append [of val "[]"] assms(4) by simp
  ultimately show ?thesis
    using t r(4) Iter_Next_Append [of "Some msg" "Append [] val"] assms(3) by (auto simp: inC_def)
qed

theorem WrapError_wraps_witness:
  "\<exists>t b c'. WrapError (str ''bad'') (TypePrimitive TypeInt64, Some [2]) NewContext = Ok ((t, Some b), c') \<and> inC c' t \<and>
    erase t = TypeError 0 (TypeRecord 0 [(str ''message'', TypePrimitive TypeString),
      (str ''on'', erase (TypePrimitive TypeInt64))]) \<and>
    (\<exists>b'. Iter_Next b = Ok (Some (str ''bad''), b') \<and> Iter_Next b' = Ok (Some [2], []))"
  by (rule WrapError_wraps [OF reachable.New]) (simp_all add: small_def str_def)

section \<open>Malformed type values and other faults\<close>

lemma decodeTypes_add:
  "decodeTypes (m + k) c tv ts = bindR (decodeTypes m c tv ts) (\<lambda>((ts, tv), c). decodeTypes k c tv ts)"
proof (induction m arbitrary: c tv ts)
  case (Suc m)
  then show ?case
    by (cases "DecodeTypeValue c (buf tv)") (auto simp: decodeTypes.simps(2) [of "m + k"] decodeTypes.simps(2) [of m] split: option.splits)
qed simp

lemma decodeTypes_nil: "decodeTypes k c None ts = Ok ((ts @ replicate k None, None), c)"
  by (induction k arbitrary: ts) (simp_all add: decodeTypes.simps(2) replicate_append_same flip: append_assoc)

text \<open>C30: in every context, malformed type values make the decoder panic where it means to return nil: records,
  unions and names with a length that is negative as a signed integer, and a union one of whose components does not
  decode, whatever the components before it are.\<close>

theorem DecodeTypeValue_panics:
  assumes n: "DecodeLength tv = Some (n, rest)"
  shows "(n < 0 \<longrightarrow> (\<forall>code \<in> {30, 34, 37, 38}. DecodeTypeValue c (code # tv) = Panic)) \<and>
    (\<forall>m types tv' c1 c2. int m < n \<and> n \<le> MaxUnionTypes \<and> decodeTypes m c (Some rest) [] = Ok ((types, Some tv'), c1) \<and>
       DecodeTypeValue c1 tv' = Ok (None, c2) \<longrightarrow> DecodeTypeValue c (34 # tv) = Panic)"
proof (intro conjI allI impI)
  assume "n < 0"
  moreover from this have "DecodeName tv = Panic" using n by (simp add: DecodeName_def go_slice_def)
  ultimately show "\<forall>code \<in> {30, 34, 37, 38}. DecodeTypeValue c (code # tv) = Panic"
    using n by (simp add: DecodeTypeValue.simps(2) nextN_def MaxRecordFields_def MaxUnionTypes_def)
next
  fix m types tv' c1 c2
  assume a: "int m < n \<and> n \<le> MaxUnionTypes \<and> decodeTypes m c (Some rest) [] = Ok ((types, Some tv'), c1) \<and>
    DecodeTypeValue c1 tv' = Ok (None, c2)"
  then obtain k where k: "nat n = m + Suc k" by (metis add_Suc_right less_imp_Suc_add zless_nat_eq_int_zless)
  have "decodeTypes (nat n) c (Some rest) [] = Ok ((types @ [None] @ replicate k None, None), c2)"
    unfolding k decodeTypes_add using a by (simp add: decodeTypes.simps(2) decodeTypes_nil)
  then show "DecodeTypeValue c (34 # tv) = Panic" using n a by (simp add: DecodeTypeValue.simps(2) nextN_def)
qed

theorem DecodeTypeValue_panics_witness:
  "DecodeTypeValue arrayContext (37 # replicate 9 0xff @ [1]) = Panic \<and> DecodeTypeValue arrayContext [34, 2, 9] = Panic"
proof
  have "DecodeLength (replicate 9 0xff @ [1]) = Some (-1, [])" by code_simp
  from DecodeTypeValue_panics [OF this] show "DecodeTypeValue arrayContext (37 # replicate 9 0xff @ [1]) = Panic" by simp
  have n: "DecodeLength [2, 9] = Some (2, [9])" by code_simp
  have one: "decodeTypes 1 arrayContext (Some [9]) [] = Ok (([Some (TypePrimitive TypeInt64)], Some []), arrayContext)"
    by (simp add: decodeTypes.simps(2) DecodeTypeValue.simps(2) LookupPrimitiveByID_def)
  have stop: "DecodeTypeValue arrayContext [] = Ok (None, arrayContext)" by simp
  have "int 1 < 2 \<and> (2 :: int) \<le> MaxUnionTypes" by (simp add: MaxUnionTypes_def)
  with one stop conjunct2 [OF DecodeTypeValue_panics [OF n, of arrayContext]] show "DecodeTypeValue arrayContext [34, 2, 9] = Panic" by blast
qed

text \<open>After \<open>Reset\<close>, \<open>StringTypeError\<close> returns a type that the context does not have.\<close>

theorem Reset_keeps_stale_error_type:
  "\<exists>t c1. StringTypeError NewContext = Ok (t, c1) \<and> inC c1 t \<and>
     StringTypeError (Context_Reset c1) = Ok (t, Context_Reset c1) \<and> \<not> inC (Context_Reset c1) t \<and>
     LookupType (Context_Reset c1) (int (TypeID t)) = Err (Errorf ''type id not in type context'')"
  by (simp add: StringTypeError_def LookupTypeError_def AppendTypeValue_eq EncodeTypeValue_eq NewContext_def
      enterWithLock_def nextIDWithLock_def IDTypeComplex_def Context_Reset_def inC_def types_def LookupType_def
      TypeID_def Let_def)

end
