(* ===== verification/Counted.thy ===== *)
theory Counted
  imports Zcode
begin

text \<open>
  Counted-length integers (\<open>zcode/counted.go\<close>) and the encodings of primitive values that
  are built on them (\<open>primitive.go\<close>).  A signed 64-bit integer is a \<open>64 word\<close> read in two's
  complement, as in Go, so \<open>-i\<close> wraps at the smallest integer.
\<close>

section \<open>zcode/counted.go\<close>

fun DecodeCountedUvarint_loop :: "bytes \<Rightarrow> nat \<Rightarrow> u64 \<Rightarrow> u64" where
  "DecodeCountedUvarint_loop b 0 u = u"
| "DecodeCountedUvarint_loop b (Suc n) u =
     DecodeCountedUvarint_loop b n (push_bit 8 u OR ucast (b ! n))"

definition DecodeCountedUvarint :: "bytes \<Rightarrow> u64" where
  "DecodeCountedUvarint b = DecodeCountedUvarint_loop b (length b) 0"

lemma drop_bit_8_less: "(u :: u64) \<noteq> 0 \<Longrightarrow> unat (drop_bit 8 u) < unat u"
  using unat_eq_0 [of u] by (simp add: unat_drop_bit_u64)

function EncodeCountedUvarint_loop :: "bytes \<Rightarrow> u64 \<Rightarrow> nat \<Rightarrow> (bytes \<times> nat) go" where
  "EncodeCountedUvarint_loop dst u n =
     (if u \<noteq> 0 then
        (if n < length dst then EncodeCountedUvarint_loop (dst[n := ucast u]) (drop_bit 8 u) (n + 1)
         else Panic)
      else Ok (dst, n))"
  by pat_completeness auto
termination
  by (relation "measure (\<lambda>(_, u, _). unat u)") (simp_all add: drop_bit_8_less)

declare EncodeCountedUvarint_loop.simps [simp del]

definition EncodeCountedUvarint :: "bytes \<Rightarrow> u64 \<Rightarrow> (bytes \<times> nat) go" where
  "EncodeCountedUvarint dst u = EncodeCountedUvarint_loop dst u 0"

function AppendCountedUvarint_loop :: "zbytes \<Rightarrow> u64 \<Rightarrow> zbytes" where
  "AppendCountedUvarint_loop dst u =
     (if u \<noteq> 0 then AppendCountedUvarint_loop (Some (buf dst @ [ucast u])) (drop_bit 8 u) else dst)"
  by pat_completeness auto
termination
  by (relation "measure (\<lambda>(_, u). unat u)") (simp_all add: drop_bit_8_less)

declare AppendCountedUvarint_loop.simps [simp del]

definition AppendCountedUvarint :: "zbytes \<Rightarrow> u64 \<Rightarrow> bytes" where
  "AppendCountedUvarint dst u =
     (case AppendCountedUvarint_loop dst u of None \<Rightarrow> [] | Some b \<Rightarrow> b)"

definition DecodeCountedVarint :: "bytes \<Rightarrow> u64" where
  "DecodeCountedVarint b =
     (let u = DecodeCountedUvarint b in
      if u AND 1 \<noteq> 0 then
        (let u' = drop_bit 1 u in if u' = 0 then - (2 ^ 63) else - u')
      else drop_bit 1 u)"

definition EncodeCountedVarint :: "bytes \<Rightarrow> u64 \<Rightarrow> (bytes \<times> nat) go" where
  "EncodeCountedVarint dst i =
     (let u = (if 0 \<le> sint i then push_bit 1 i else push_bit 1 (- i) OR 1)
      in EncodeCountedUvarint dst u)"

definition AppendCountedVarint :: "zbytes \<Rightarrow> u64 \<Rightarrow> bytes" where
  "AppendCountedVarint dst i =
     (let u = (if 0 \<le> sint i then push_bit 1 i else push_bit 1 (- i) OR 1)
      in AppendCountedUvarint dst u)"

section \<open>Encodings of primitive values (primitive.go)\<close>

definition EncodeInt :: "u64 \<Rightarrow> bytes go" where
  "EncodeInt i = bindR (EncodeCountedVarint (replicate 8 0) i) (\<lambda>(b, n). Ok (take n b))"

definition AppendInt :: "zbytes \<Rightarrow> u64 \<Rightarrow> bytes" where
  "AppendInt b i = AppendCountedVarint b i"

definition EncodeUint :: "u64 \<Rightarrow> bytes go" where
  "EncodeUint i = bindR (EncodeCountedUvarint (replicate 8 0) i) (\<lambda>(b, n). Ok (take n b))"

definition AppendUint :: "zbytes \<Rightarrow> u64 \<Rightarrow> bytes" where
  "AppendUint b i = AppendCountedUvarint b i"

definition DecodeInt :: "zbytes \<Rightarrow> u64" where
  "DecodeInt zv = DecodeCountedVarint (buf zv)"

definition DecodeUint :: "zbytes \<Rightarrow> u64" where
  "DecodeUint zv = DecodeCountedUvarint (buf zv)"

section \<open>Reference definition: little-endian digits without leading zeros\<close>

function digits256 :: "u64 \<Rightarrow> bytes" where
  "digits256 u = (if u = 0 then [] else ucast u # digits256 (drop_bit 8 u))"
  by pat_completeness auto
termination
  by (relation "measure unat") (simp_all add: drop_bit_8_less)

declare digits256.simps [simp del]

lemma digits256_0 [simp]: "digits256 0 = []"
  by (simp add: digits256.simps)

lemma digits256_step: "u \<noteq> 0 \<Longrightarrow> digits256 u = ucast u # digits256 (drop_bit 8 u)"
  by (simp add: digits256.simps [of u])

lemma DecodeCountedUvarint_loop_foldr:
  "n \<le> length b \<Longrightarrow>
   DecodeCountedUvarint_loop b n u = foldr (\<lambda>x u. push_bit 8 u OR ucast x) (take n b) u"
  by (induction n arbitrary: u) (simp_all add: take_Suc_conv_app_nth)

lemma DecodeCountedUvarint_Nil [simp]: "DecodeCountedUvarint [] = 0"
  by (simp add: DecodeCountedUvarint_def)

lemma DecodeCountedUvarint_Cons:
  "DecodeCountedUvarint (x # b) = push_bit 8 (DecodeCountedUvarint b) OR ucast x"
  by (simp add: DecodeCountedUvarint_def DecodeCountedUvarint_loop_foldr del: DecodeCountedUvarint_loop.simps)

lemma low_byte_join: "push_bit 8 (drop_bit 8 u) OR ucast (ucast u :: byte) = (u :: u64)"
  by (rule bit_word_eqI) (auto simp: bit_simps)

lemma Decode_digits256: "DecodeCountedUvarint (digits256 u) = u"
proof (induction u rule: digits256.induct)
  case (1 u)
  then show ?case
    by (cases "u = 0") (simp_all add: digits256_step DecodeCountedUvarint_Cons low_byte_join)
qed

lemma AppendCountedUvarint_loop_eq:
  "u \<noteq> 0 \<Longrightarrow> AppendCountedUvarint_loop dst u = Some (buf dst @ digits256 u)"
proof (induction dst u rule: AppendCountedUvarint_loop.induct)
  case (1 dst u)
  then show ?case
    by (cases "drop_bit 8 u = 0")
      (simp_all add: AppendCountedUvarint_loop.simps [of dst u] digits256_step [of u]
        AppendCountedUvarint_loop.simps [of _ 0])
qed

lemma AppendCountedUvarint_eq: "AppendCountedUvarint dst u = buf dst @ digits256 u"
proof (cases "u = 0")
  case True
  then show ?thesis
    by (simp add: AppendCountedUvarint_def AppendCountedUvarint_loop.simps [of _ 0] split: option.split)
qed (simp add: AppendCountedUvarint_def AppendCountedUvarint_loop_eq)

lemma length_digits256: "unat u < 256 ^ k \<Longrightarrow> length (digits256 u) \<le> k"
proof (induction k arbitrary: u)
  case 0
  then show ?case by (simp add: unat_eq_0)
next
  case (Suc k)
  show ?case
  proof (cases "u = 0")
    case False
    have "unat (drop_bit 8 u) < 256 ^ k"
      using Suc.prems by (simp add: unat_drop_bit_u64 less_mult_imp_div_less mult.commute)
    with Suc.IH False show ?thesis by (simp add: digits256_step)
  qed simp
qed

lemma EncodeCountedUvarint_loop_eq:
  "n + length (digits256 u) \<le> length dst \<Longrightarrow>
   EncodeCountedUvarint_loop dst u n =
     Ok (take n dst @ digits256 u @ drop (n + length (digits256 u)) dst, n + length (digits256 u))"
proof (induction dst u n rule: EncodeCountedUvarint_loop.induct)
  case (1 dst u n)
  show ?case
  proof (cases "u = 0")
    case True
    then show ?thesis by (simp add: EncodeCountedUvarint_loop.simps)
  next
    case False
    with 1 show ?thesis
      by (simp add: EncodeCountedUvarint_loop.simps [of dst u] digits256_step [of u]
          take_Suc_conv_app_nth list_update_append)
  qed
qed

lemma EncodeCountedUvarint_eq:
  "length (digits256 u) \<le> length dst \<Longrightarrow>
   EncodeCountedUvarint dst u =
     Ok (digits256 u @ drop (length (digits256 u)) dst, length (digits256 u))"
  by (simp add: EncodeCountedUvarint_def EncodeCountedUvarint_loop_eq)

lemma length_digits256_le_8 [simp]: "length (digits256 u) \<le> 8"
  using length_digits256 [of u 8] unsigned_less [of u, where 'a = nat] by simp

lemma EncodeUint_eq: "EncodeUint u = Ok (digits256 u)"
  by (simp add: EncodeUint_def EncodeCountedUvarint_eq)

section \<open>Signed integers\<close>

lemma drop_push_bit:
  "(\<And>n. n < 64 \<Longrightarrow> 64 \<le> n + k \<Longrightarrow> \<not> bit i n) \<Longrightarrow> drop_bit k (push_bit k i) = (i :: u64)"
proof (rule bit_word_eqI)
  fix n assume A: "\<And>n. n < 64 \<Longrightarrow> 64 \<le> n + k \<Longrightarrow> \<not> bit i n" and "n < LENGTH(64)"
  then show "bit (drop_bit k (push_bit k i)) n \<longleftrightarrow> bit i n"
    using A [of n] by (cases "64 \<le> n + k") (auto simp: bit_simps)
qed

lemma bit_63_iff: "bit (i :: u64) 63 \<longleftrightarrow> 2 ^ 63 \<le> unat i"
proof -
  have "bit i 63 \<longleftrightarrow> odd (unat i div 2 ^ 63)"
    unfolding bit_iff_odd [symmetric] by (simp add: bit_unsigned_iff)
  moreover have "unat i div 2 ^ 63 < 2"
    using unsigned_less [of i, where 'a = nat] by (simp add: less_mult_imp_div_less)
  then have "unat i div 2 ^ 63 = 0 \<or> unat i div 2 ^ 63 = 1" by auto
  ultimately show ?thesis by (auto simp: div_eq_0_iff)
qed

lemma drop_push_1: "\<not> bit i 63 \<Longrightarrow> drop_bit 1 (push_bit 1 i) = (i :: u64)"
proof (rule drop_push_bit)
  fix n :: nat
  assume "\<not> bit i 63" "n < 64" "64 \<le> n + 1"
  moreover from this have "n = 63" by simp
  ultimately show "\<not> bit i n" by simp
qed

lemma drop_push_1_or: "\<not> bit i 63 \<Longrightarrow> drop_bit 1 (push_bit 1 i OR 1) = (i :: u64)"
  using drop_push_1 [of i] by (simp only: drop_bit_or) simp

lemma sint_neg_iff: "sint (i :: u64) < 0 \<longleftrightarrow> bit i 63"
  using bit_last_iff [of i] by simp

lemma push_1_even: "push_bit 1 i AND 1 = (0 :: u64)"
  by (simp add: and_one_eq mod_2_eq_odd)

lemma or_1_odd: "(u OR 1) AND 1 \<noteq> (0 :: u64)"
  by (simp add: and_one_eq or_one_eq mod_2_eq_odd)

lemma neg_bit_63: "bit i 63 \<Longrightarrow> i \<noteq> - (2 ^ 63) \<Longrightarrow> \<not> bit (- i :: u64) 63"
proof -
  assume i: "bit i 63" "i \<noteq> - (2 ^ 63)"
  then have "2 ^ 63 < unat i"
    by (auto simp: bit_63_iff le_less word_unat_eq_iff)
  then have "int (2 ^ 63) < int (unat i)" by (simp only: of_nat_less_iff)
  then have "2 ^ 63 < uint i" by simp
  moreover have "uint i < 2 ^ 64" using unsigned_less [of i, where 'a = int] by simp
  ultimately have "uint (- i) < 2 ^ 63"
    by (simp add: uint_word_ariths zmod_zminus1_eq_if)
  then have "int (unat (- i)) < int (2 ^ 63)" by simp
  then have "unat (- i) < 2 ^ 63" by (simp only: of_nat_less_iff)
  then show ?thesis by (simp only: bit_63_iff not_le)
qed

lemma unzigzag:
  "DecodeCountedVarint (digits256 (if 0 \<le> sint i then push_bit 1 i else push_bit 1 (- i) OR 1)) = i"
proof (cases "bit i 63")
  case False
  then have "0 \<le> sint i" using sint_neg_iff [of i] by simp
  then show ?thesis
    using False by (simp add: DecodeCountedVarint_def Decode_digits256 drop_push_1 [simplified] push_1_even [simplified])
next
  case True
  then have neg: "\<not> 0 \<le> sint i" using sint_neg_iff [of i] by simp
  show ?thesis
  proof (cases "i = - (2 ^ 63)")
    case True
    have "sint (- (2 ^ 63) :: u64) < 0" by simp
    then show ?thesis
      using True by (simp add: DecodeCountedVarint_def Decode_digits256)
  next
    case False
    have "- i \<noteq> 0" using True by auto
    then show ?thesis
      using neg drop_push_1_or [OF neg_bit_63 [OF True False]] or_1_odd [of "push_bit 1 (- i)"]
      by (simp add: DecodeCountedVarint_def Decode_digits256 Let_def)
  qed
qed

lemma AppendInt_eq:
  "AppendInt dst i = buf dst @ digits256 (if 0 \<le> sint i then push_bit 1 i else push_bit 1 (- i) OR 1)"
  by (simp add: AppendInt_def AppendCountedVarint_def AppendCountedUvarint_eq Let_def)

lemma EncodeInt_eq:
  "EncodeInt i = Ok (digits256 (if 0 \<le> sint i then push_bit 1 i else push_bit 1 (- i) OR 1))"
  by (simp add: EncodeInt_def EncodeCountedVarint_def EncodeCountedUvarint_eq Let_def)

lemma DecodeInt_AppendInt: "DecodeInt (Some (AppendInt None i)) = i"
  by (simp only: DecodeInt_def AppendInt_eq buf_simps append_Nil unzigzag)

text \<open>
  C29: Signed integers survive their counted-length encoding over the whole 64-bit range,
  the smallest integer included, whose negation overflows.  \<open>EncodeInt\<close> never writes past
  its eight-byte buffer, \<open>AppendInt\<close> appends the same bytes to any buffer (nil included),
  and decoding gives the integer back.
\<close>

theorem Int_roundtrip:
  "\<exists>b. EncodeInt i = Ok b \<and> length b \<le> 8 \<and> (\<forall>dst. AppendInt dst i = buf dst @ b) \<and>
       DecodeInt (Some b) = i"
  by (rule exI, rule conjI, rule EncodeInt_eq)
     (simp only: AppendInt_eq DecodeInt_def buf_simps unzigzag length_digits256_le_8, simp)

lemma digits256_length_iff: "length (digits256 u) \<le> k \<longleftrightarrow> unat u < 256 ^ k"
proof
  assume "length (digits256 u) \<le> k"
  then show "unat u < 256 ^ k"
  proof (induction k arbitrary: u)
    case 0
    then have "u = 0" by (cases "u = 0") (simp_all add: digits256_step)
    then show ?case by simp
  next
    case (Suc k)
    show ?case
    proof (cases "u = 0")
      case False
      with Suc have "unat (drop_bit 8 u) < 256 ^ k" by (simp add: digits256_step)
      then show ?thesis by (simp add: unat_drop_bit_u64 div_less_iff_less_mult mult.commute)
    qed simp
  qed
qed (rule length_digits256)

text \<open>
  Unsigned integers round-trip as well, and their encoding is as short as it can be: it
  fits in \<open>k\<close> bytes exactly when the value is less than \<open>256 ^ k\<close> (zero is the empty body,
  which is not the null value).
\<close>

theorem Uint_roundtrip:
  "\<exists>b. EncodeUint u = Ok b \<and> (\<forall>k. length b \<le> k \<longleftrightarrow> unat u < 256 ^ k) \<and>
       (\<forall>dst. AppendUint dst u = buf dst @ b) \<and> DecodeUint (Some b) = u"
  by (rule exI [of _ "digits256 u"])
     (simp add: EncodeUint_eq digits256_length_iff AppendUint_def AppendCountedUvarint_eq
       DecodeUint_def Decode_digits256)

end
