(* ===== verification/ComplexTypes.thy ===== *)
theory ComplexTypes
  imports Context Counted Lookup
begin

text \<open>
  Operations of the complex types (\<open>complex.go\<close>): field and symbol lookup, the normal form of
  sets and maps, and tagged union values.
\<close>

section \<open>Enums and records\<close>

definition TypeEnum_Symbol :: "gostring list \<Rightarrow> int \<Rightarrow> gostring go" where
  "TypeEnum_Symbol symbols index =
     (if index < 0 \<or> index \<ge> int (length symbols) then Err (Errorf ''enum index out of range'')
      else Ok (symbols ! nat index))"

fun TypeEnum_Lookup_loop :: "int \<Rightarrow> gostring list \<Rightarrow> gostring \<Rightarrow> int" where
  "TypeEnum_Lookup_loop k [] symbol = -1"
| "TypeEnum_Lookup_loop k (s # ss) symbol = (if s = symbol then k else TypeEnum_Lookup_loop (k + 1) ss symbol)"

definition TypeEnum_Lookup :: "gostring list \<Rightarrow> gostring \<Rightarrow> int" where
  "TypeEnum_Lookup symbols symbol = TypeEnum_Lookup_loop 0 symbols symbol"

fun createLUT_loop :: "nat \<Rightarrow> 'k list \<Rightarrow> ('k \<rightharpoonup> nat) \<Rightarrow> ('k \<rightharpoonup> nat)" where
  "createLUT_loop k [] lut = lut"
| "createLUT_loop k (x # xs) lut = createLUT_loop (Suc k) xs (lut(x \<mapsto> k))"

definition TypeRecord_createLUT :: "(gostring \<times> ztype) list \<Rightarrow> (gostring \<rightharpoonup> nat)" where
  "TypeRecord_createLUT flds = createLUT_loop 0 (map fst flds) Map.empty"

definition IndexOfField :: "(gostring \<times> ztype) list \<Rightarrow> gostring \<Rightarrow> nat option" where
  "IndexOfField flds name = TypeRecord_createLUT flds name"

definition TypeOfField :: "(gostring \<times> ztype) list \<Rightarrow> gostring \<Rightarrow> ztype option" where
  "TypeOfField flds name =
     (case TypeRecord_createLUT flds name of None \<Rightarrow> None | Some n \<Rightarrow> Some (snd (flds ! n)))"

definition HasField :: "(gostring \<times> ztype) list \<Rightarrow> gostring \<Rightarrow> bool" where
  "HasField flds name = (TypeRecord_createLUT flds name \<noteq> None)"

definition IsMissing :: "ztype \<Rightarrow> bytes \<Rightarrow> bool" where
  "IsMissing inner zv \<longleftrightarrow> inner = TypePrimitive TypeString \<and> zv = Missing"

definition IsQuiet :: "ztype \<Rightarrow> bytes \<Rightarrow> bool" where
  "IsQuiet inner zv \<longleftrightarrow> inner = TypePrimitive TypeString \<and> zv = Quiet"

section \<open>Normal forms of sets and maps\<close>

text \<open>
  The loops read tagged elements until the iterator is done.  They need not end: an element
  may have a tag that makes the iterator stay where it is.  \<open>sort.Slice\<close> does not promise a
  stable order, so the sort is a parameter.
\<close>

partial_function (option) set_elements :: "bytes \<Rightarrow> bytes list \<Rightarrow> bytes list go option" where
  "set_elements it elements =
     (if Iter_Done it then Some (Ok elements)
      else case Iter_NextTagAndBody it of
             Ok (e, it') \<Rightarrow> set_elements it' (elements @ [e])
           | Err err \<Rightarrow> Some (Err err)
           | Panic \<Rightarrow> Some Panic)"

fun norm_set_loop :: "bytes \<Rightarrow> bytes list \<Rightarrow> bytes \<Rightarrow> bytes" where
  "norm_set_loop prev [] norm = norm"
| "norm_set_loop prev (e # es) norm = norm_set_loop e es (if e \<noteq> prev then norm @ e else norm)"

definition NormalizeSet :: "((bytes \<Rightarrow> bytes \<Rightarrow> bool) \<Rightarrow> bytes list \<Rightarrow> bytes list) \<Rightarrow> bytes \<Rightarrow> bytes go option" where
  "NormalizeSet sort_Slice zv =
     map_option (\<lambda>r. bindR r (\<lambda>elements.
       if length elements < 2 then Ok zv
       else case sort_Slice (\<lambda>a b. strings_Compare a b = -1) elements of
              [] \<Rightarrow> Panic
            | e # es \<Rightarrow> Ok (norm_set_loop e es e)))
       (set_elements zv [])"

partial_function (option) map_elements ::
    "bytes \<Rightarrow> (bytes \<times> bytes) list \<Rightarrow> (bytes \<times> bytes) list go option" where
  "map_elements it elements =
     (if Iter_Done it then Some (Ok elements)
      else case Iter_NextTagAndBody it of
             Ok (key, it') \<Rightarrow>
               (case Iter_NextTagAndBody it' of
                  Ok (val, it'') \<Rightarrow> map_elements it'' (elements @ [(key, val)])
                | Err err \<Rightarrow> Some (Err err)
                | Panic \<Rightarrow> Some Panic)
           | Err err \<Rightarrow> Some (Err err)
           | Panic \<Rightarrow> Some Panic)"

fun norm_map_loop :: "bytes \<Rightarrow> (bytes \<times> bytes) list \<Rightarrow> bytes \<Rightarrow> bytes" where
  "norm_map_loop prev [] norm = norm"
| "norm_map_loop prev ((k, v) # es) norm = norm_map_loop k es (if k \<noteq> prev then norm @ k @ v else norm)"

definition NormalizeMap ::
    "((bytes \<times> bytes \<Rightarrow> bytes \<times> bytes \<Rightarrow> bool) \<Rightarrow> (bytes \<times> bytes) list \<Rightarrow> (bytes \<times> bytes) list) \<Rightarrow>
      bytes \<Rightarrow> bytes go option" where
  "NormalizeMap sort_Slice zv =
     map_option (\<lambda>r. bindR r (\<lambda>elements.
       if length elements < 2 then Ok zv
       else case sort_Slice (\<lambda>a b. strings_Compare (fst a) (fst b) = -1) elements of
              [] \<Rightarrow> Panic
            | (k, v) # es \<Rightarrow> Ok (norm_map_loop k es (k @ v))))
       (map_elements zv [])"

section \<open>Unions\<close>

definition TypeUnion_createLUT :: "ztype list \<Rightarrow> (ztype \<rightharpoonup> nat)" where
  "TypeUnion_createLUT tys = createLUT_loop 0 tys Map.empty"

definition TypeUnion_Type :: "ztype list \<Rightarrow> int \<Rightarrow> ztype go" where
  "TypeUnion_Type tys tag =
     (if tag < 0 \<or> tag \<ge> int (length tys) then Err (Errorf ''bad union tag'') else Ok (tys ! nat tag))"

definition TagOf :: "ztype list \<Rightarrow> ztype \<Rightarrow> int" where
  "TagOf tys typ = (case TypeUnion_createLUT tys typ of Some s \<Rightarrow> int s | None \<Rightarrow> -1)"

text \<open>\<open>Untag\<close> of the union type with the given ID and types.\<close>

definition Untag :: "nat \<Rightarrow> ztype list \<Rightarrow> zbytes \<Rightarrow> (ztype \<times> zbytes) go" where
  "Untag i tys bs =
     (case bs of
        None \<Rightarrow> Ok (TypeUnion i tys, None)
      | Some it \<Rightarrow>
          bindR (Iter_Next it) (\<lambda>(t, it).
          case TypeUnion_Type tys (sint (DecodeInt t)) of
            Ok inner \<Rightarrow> bindR (Iter_Next it) (\<lambda>(val, _). Ok (inner, val))
          | _ \<Rightarrow> Panic))"

definition BuildUnion :: "builder \<Rightarrow> nat \<Rightarrow> zbytes \<Rightarrow> builder go" where
  "BuildUnion b tag val =
     (case val of
        None \<Rightarrow> Ok (Builder_Append b None)
      | Some _ \<Rightarrow>
          bindR (EncodeInt (of_nat tag)) (\<lambda>t.
          EndContainer (Builder_Append (Builder_Append (BeginContainer b) (Some t)) val)))"

section \<open>Field and type tables\<close>

lemma createLUT_loop_notin: "x \<notin> set xs \<Longrightarrow> createLUT_loop k xs lut x = lut x"
  by (induction xs arbitrary: k lut) auto

lemma createLUT_loop_nth:
  "distinct xs \<Longrightarrow> i < length xs \<Longrightarrow> createLUT_loop k xs lut (xs ! i) = Some (k + i)"
  by (induction xs arbitrary: k lut i) (auto simp: nth_Cons createLUT_loop_notin split: nat.split)

text \<open>The table of a list without duplicates maps each element to its position.\<close>

lemma createLUT_loop_iff:
  assumes "distinct xs"
  shows "createLUT_loop 0 xs Map.empty x = Some i \<longleftrightarrow> i < length xs \<and> xs ! i = x"
proof (cases "x \<in> set xs")
  case True
  then obtain j where j: "j < length xs" "xs ! j = x" by (auto simp: in_set_conv_nth)
  then show ?thesis
    using createLUT_loop_nth [OF assms j(1), of 0 Map.empty] assms by (auto simp: nth_eq_iff_index_eq)
next
  case False
  then show ?thesis using createLUT_loop_notin [OF False, of 0 Map.empty] nth_mem by fastforce
qed

lemma TypeEnum_Lookup_loop_spec:
  "TypeEnum_Lookup_loop k ss s = (if s \<in> set ss then k + int (length (takeWhile (\<lambda>x. x \<noteq> s) ss)) else -1)"
  by (induction ss arbitrary: k) auto

section \<open>Elements of a set body\<close>

lemma set_elements_encoded:
  "\<forall>v \<in> set vs. small (buf v) \<Longrightarrow>
   set_elements (concat (map (Append []) vs)) acc = Some (Ok (acc @ map (Append []) vs))"
proof (induction vs arbitrary: acc)
  case Nil
  then show ?case by (simp add: set_elements.simps Iter_Done_def)
next
  case (Cons v vs)
  then show ?case
    by (subst set_elements.simps) (simp add: Iter_Done_def Iter_NextTagAndBody_Append)
qed

lemma map_elements_encoded:
  "\<forall>(k, v) \<in> set es. small (buf k) \<and> small (buf v) \<Longrightarrow>
   map_elements (concat (map (\<lambda>(k, v). Append [] k @ Append [] v) es)) acc =
     Some (Ok (acc @ map (\<lambda>(k, v). (Append [] k, Append [] v)) es))"
proof (induction es arbitrary: acc)
  case Nil
  then show ?case by (simp add: map_elements.simps Iter_Done_def)
next
  case (Cons e es)
  then show ?case
    by (cases e) (subst map_elements.simps, simp add: Iter_Done_def Iter_NextTagAndBody_Append)
qed

text \<open>What \<open>sort.Slice\<close> promises: a permutation and, when \<open>less\<close> is a strict weak order of the elements, one in
  which no element is less than its predecessor.\<close>

definition strictWeak :: "('a \<Rightarrow> 'a \<Rightarrow> bool) \<Rightarrow> 'a set \<Rightarrow> bool" where
  "strictWeak lt S \<longleftrightarrow> (\<forall>x \<in> S. \<not> lt x x) \<and> (\<forall>x \<in> S. \<forall>y \<in> S. \<forall>z \<in> S. lt x y \<longrightarrow> lt y z \<longrightarrow> lt x z) \<and>
     (\<forall>x \<in> S. \<forall>y \<in> S. \<forall>z \<in> S. \<not> lt x y \<and> \<not> lt y x \<longrightarrow> \<not> lt y z \<and> \<not> lt z y \<longrightarrow> \<not> lt x z \<and> \<not> lt z x)"

definition sorts :: "(('a \<Rightarrow> 'a \<Rightarrow> bool) \<Rightarrow> 'a list \<Rightarrow> 'a list) \<Rightarrow> bool" where
  "sorts srt \<longleftrightarrow> (\<forall>lt xs. mset (srt lt xs) = mset xs \<and> (strictWeak lt (set xs) \<longrightarrow> ordered lt (srt lt xs)))"

lemma strictWeakI:
  assumes "\<And>x y. x \<in> S \<Longrightarrow> y \<in> S \<Longrightarrow> lt x y \<Longrightarrow> \<not> lt y x"
    and "\<And>x y z. x \<in> S \<Longrightarrow> y \<in> S \<Longrightarrow> z \<in> S \<Longrightarrow> \<not> lt y x \<Longrightarrow> \<not> lt z y \<Longrightarrow> \<not> lt z x"
  shows "strictWeak lt S"
  unfolding strictWeak_def using assms by (intro conjI ballI impI) metis+

lemma strictWeak_asym: "strictWeak lt S \<Longrightarrow> x \<in> S \<Longrightarrow> y \<in> S \<Longrightarrow> lt x y \<Longrightarrow> \<not> lt y x"
  unfolding strictWeak_def by blast

lemma sorts_mset: "sorts srt \<Longrightarrow> mset (srt lt xs) = mset xs"
  unfolding sorts_def by blast

lemma sorts_ordered: "sorts srt \<Longrightarrow> strictWeak lt (set xs) \<Longrightarrow> ordered lt (srt lt xs)"
  unfolding sorts_def by blast

lemma SliceStable_sorts: "sorts SliceStable"
  unfolding sorts_def by (auto intro: SliceStable_ordered_on dest: strictWeak_asym)

lemma strings_Compare_range: "strings_Compare a b \<in> {-1, 0, 1}"
  by (induction a b rule: strings_Compare.induct) auto

lemma strings_Compare_refl [simp]: "strings_Compare a a = 0"
  by simp

lemma strings_less_iff: "strings_Compare a b = -1 \<longleftrightarrow> strings_Compare a b < 0"
  using strings_Compare_range [of a b] by (cases "strings_Compare a b = 0") auto

abbreviation less_bytes :: "bytes \<Rightarrow> bytes \<Rightarrow> bool" where
  "less_bytes a b \<equiv> strings_Compare a b < 0"

fun dedup_keys :: "bytes \<Rightarrow> (bytes \<times> bytes) list \<Rightarrow> (bytes \<times> bytes) list" where
  "dedup_keys prev [] = []"
| "dedup_keys prev ((k, v) # es) = (if k \<noteq> prev then (k, v) # dedup_keys k es else dedup_keys k es)"

lemma norm_map_loop_eq:
  "norm_map_loop prev es norm = norm @ concat (map (\<lambda>(k, v). k @ v) (dedup_keys prev es))"
  by (induction prev es norm rule: norm_map_loop.induct) auto

lemma norm_set_loop_eq:
  "norm_set_loop prev es norm = norm @ concat (map fst (dedup_keys prev (map (\<lambda>e. (e, [])) es)))"
  by (induction prev es norm rule: norm_set_loop.induct) auto

lemma less_bytes_trans_le:
  "strings_Compare a b \<le> 0 \<Longrightarrow> strings_Compare b c \<le> 0 \<Longrightarrow> a \<noteq> b \<Longrightarrow> less_bytes a c"
proof -
  assume A: "strings_Compare a b \<le> 0" "strings_Compare b c \<le> 0" "a \<noteq> b"
  have "strings_Compare a c \<le> 0" by (rule strings_Compare_trans [OF A(1,2)])
  moreover have "a \<noteq> c"
  proof
    assume "a = c"
    with A(2) have "strings_Compare b a \<le> 0" by simp
    with A(1) strings_Compare_antisym [of a b] have "strings_Compare a b = 0" by linarith
    with A(3) show False by simp
  qed
  ultimately show ?thesis using strings_Compare_0 [of a c] by linarith
qed

lemma dedup_keys_sorted:
  "sorted_wrt (\<lambda>x y. strings_Compare x y \<le> 0) (prev # map fst es) \<Longrightarrow>
   sorted_wrt less_bytes (prev # map fst (dedup_keys prev es)) \<and>
   set (prev # map fst (dedup_keys prev es)) = set (prev # map fst es) \<and> set (dedup_keys prev es) \<subseteq> set es"
proof (induction prev es rule: dedup_keys.induct)
  case (2 prev k v es)
  have s: "sorted_wrt (\<lambda>x y. strings_Compare x y \<le> 0) (k # map fst es)" using 2(3) by simp
  have pk: "strings_Compare prev k \<le> 0" using 2(3) by simp
  show ?case
  proof (cases "k = prev")
    case True
    with 2(2) s show ?thesis by auto
  next
    case False
    note IH = 2(1) [OF False s]
    have "less_bytes prev x" if "x \<in> set (k # map fst (dedup_keys k es))" for x
    proof -
      have "x = k \<or> x \<in> fst ` set es" using IH that by auto
      then have "strings_Compare k x \<le> 0" using s by auto
      with pk False less_bytes_trans_le show ?thesis by metis
    qed
    with IH False show ?thesis by auto
  qed
qed simp

lemma sorts_strings:
  assumes "sorts srt"
  shows "sorted_wrt (\<lambda>x y. strings_Compare x y \<le> 0) (map f (srt (\<lambda>a b. strings_Compare (f a) (f b) = -1) xs))"
    "mset (srt (\<lambda>a b. strings_Compare (f a) (f b) = -1) xs) = mset xs"
proof -
  let ?lt = "\<lambda>a b. strings_Compare (f a) (f b) = -1"
  have "strictWeak ?lt (set xs)"
    by (rule strictWeakI) (use strings_Compare_trans in \<open>auto simp: strings_less_iff strings_lt_asym strings_lt_iff\<close>)
  then have "ordered ?lt (srt ?lt xs)" by (rule sorts_ordered [OF assms])
  then have "successively (\<lambda>x y. strings_Compare x y \<le> 0) (map f (srt ?lt xs))"
    by (simp add: strings_less_iff strings_lt_iff successively_map)
  moreover have "transp (\<lambda>x y. strings_Compare x y \<le> 0)" by (rule transpI) (rule strings_Compare_trans)
  ultimately show "sorted_wrt (\<lambda>x y. strings_Compare x y \<le> 0) (map f (srt ?lt xs))"
    by (simp add: successively_conv_sorted_wrt)
  show "mset (srt ?lt xs) = mset xs" by (rule sorts_mset [OF assms])
qed

section \<open>Properties\<close>

text \<open>C31: \<open>NormalizeSet\<close> gives the normal form of a set body: the same elements, each once, in
  strictly increasing order of their tagged bytes, whatever order the sort leaves equal elements in.\<close>

theorem NormalizeSet_normal_form:
  assumes "sorts srt" "\<forall>v \<in> set vs. small (buf v)"
  shows "\<exists>es. NormalizeSet srt (concat (map (Append []) vs)) = Some (Ok (concat es)) \<and>
    sorted_wrt less_bytes es \<and> set es = set (map (Append []) vs)"
proof -
  let ?es = "map (Append []) vs" and ?lt = "\<lambda>a b. strings_Compare a b = -1"
  have el: "set_elements (concat ?es) [] = Some (Ok ?es)" using set_elements_encoded [OF assms(2), of "[]"] by simp
  show ?thesis
  proof (cases "length vs < 2")
    case True
    then have "sorted_wrt less_bytes ?es" by (cases vs; cases "tl vs") auto
    with True el show ?thesis by (intro exI [of _ ?es]) (simp add: NormalizeSet_def)
  next
    case False
    have m: "mset (srt ?lt ?es) = mset ?es" using sorts_strings(2) [OF assms(1), of id ?es] by simp
    have "length (srt ?lt ?es) = length ?es" by (rule mset_eq_length [OF m])
    with False obtain e es where ees: "srt ?lt ?es = e # es" by (cases "srt ?lt ?es") auto
    let ?d = "e # map fst (dedup_keys e (map (\<lambda>e. (e, [])) es))"
    have "sorted_wrt (\<lambda>x y. strings_Compare x y \<le> 0) (e # es)"
      using sorts_strings(1) [OF assms(1), of id ?es] unfolding id_apply ees by (simp add: id_def)
    then have D: "sorted_wrt less_bytes ?d" "set ?d = set (e # es)"
      using dedup_keys_sorted [of e "map (\<lambda>e. (e, [])) es"] by (simp_all add: comp_def)
    have N: "NormalizeSet srt (concat ?es) = Some (Ok (concat ?d))"
      unfolding NormalizeSet_def el using False ees by (simp add: norm_set_loop_eq)
    show ?thesis
      by (rule exI [of _ ?d], rule conjI [OF N], rule conjI [OF D(1)])
         (simp only: D(2) mset_eq_setD [OF m, symmetric] ees)
  qed
qed

theorem NormalizeSet_normal_form_witness:
  "\<exists>es. NormalizeSet SliceStable (concat (map (Append []) [Some [2], Some [1], Some [2]])) = Some (Ok (concat es)) \<and>
    sorted_wrt less_bytes es \<and> set es = set (map (Append []) [Some [2], Some [1], Some [2 :: byte]])"
  by (rule NormalizeSet_normal_form [OF SliceStable_sorts]) (simp add: small_def)

text \<open>C22: \<open>NormalizeMap\<close> gives the normal form of a map body: the keys of the body, each once, in
  strictly increasing order, each with a value the body has for it.\<close>

theorem NormalizeMap_normal_form:
  assumes "sorts srt" "\<forall>(k, v) \<in> set es. small (buf k) \<and> small (buf v)"
  shows "\<exists>ds. NormalizeMap srt (concat (map (\<lambda>(k, v). Append [] k @ Append [] v) es)) =
      Some (Ok (concat (map (\<lambda>(k, v). k @ v) ds))) \<and>
    sorted_wrt less_bytes (map fst ds) \<and> fst ` set ds = (\<lambda>(k, v). Append [] k) ` set es \<and>
    set ds \<subseteq> (\<lambda>(k, v). (Append [] k, Append [] v)) ` set es"
proof -
  let ?zv = "concat (map (\<lambda>(k, v). Append [] k @ Append [] v) es)"
  let ?es = "map (\<lambda>(k, v). (Append [] k, Append [] v)) es" and ?lt = "\<lambda>a b. strings_Compare (fst a) (fst b) = -1"
  have el: "map_elements ?zv [] = Some (Ok ?es)" using map_elements_encoded [OF assms(2), of "[]"] by simp
  have fst_es: "fst ` set ?es = (\<lambda>(k, v). Append [] k) ` set es" by (simp add: image_image case_prod_unfold)
  have zv: "?zv = concat (map (\<lambda>(k, v). k @ v) ?es)" by (simp add: comp_def case_prod_unfold)
  show ?thesis
  proof (cases "length es < 2")
    case True
    then have "sorted_wrt less_bytes (map fst ?es)" by (cases es; cases "tl es") auto
    moreover have "NormalizeMap srt ?zv = Some (Ok (concat (map (\<lambda>(k, v). k @ v) ?es)))"
      unfolding NormalizeMap_def el zv [symmetric] using True by simp
    ultimately show ?thesis using fst_es by (intro exI [of _ ?es] conjI) (simp_all only: set_map subset_refl)
  next
    case False
    have m: "mset (srt ?lt ?es) = mset ?es" by (rule sorts_strings(2) [OF assms(1), of fst ?es])
    have "length (srt ?lt ?es) = length ?es" by (rule mset_eq_length [OF m])
    with False obtain k v fs where ees: "srt ?lt ?es = (k, v) # fs" by (cases "srt ?lt ?es") auto
    let ?d = "(k, v) # dedup_keys k fs"
    have "sorted_wrt (\<lambda>x y. strings_Compare x y \<le> 0) (k # map fst fs)"
      using sorts_strings(1) [OF assms(1), of fst ?es] unfolding ees by simp
    then have D: "sorted_wrt less_bytes (map fst ?d)" "fst ` set ?d = fst ` set ((k, v) # fs)" "set ?d \<subseteq> set ((k, v) # fs)"
      using dedup_keys_sorted [of k fs] by auto
    have N: "NormalizeMap srt ?zv = Some (Ok (concat (map (\<lambda>(k, v). k @ v) ?d)))"
      unfolding NormalizeMap_def el using False ees by (simp add: norm_map_loop_eq)
    have "fst ` set ?d = (\<lambda>(k, v). Append [] k) ` set es" "set ?d \<subseteq> set ?es"
      using D(2,3) fst_es unfolding mset_eq_setD [OF m, symmetric] ees by simp_all
    then show ?thesis
      by (intro exI [of _ ?d] conjI N D(1)) (simp_all only: set_map)
  qed
qed

theorem NormalizeMap_normal_form_witness:
  "\<exists>ds. NormalizeMap SliceStable (concat (map (\<lambda>(k, v). Append [] k @ Append [] v)
        [(Some [2], Some [7]), (Some [1], None)])) = Some (Ok (concat (map (\<lambda>(k, v). k @ v) ds))) \<and>
    sorted_wrt less_bytes (map fst ds) \<and>
    fst ` set ds = (\<lambda>(k, v). Append [] k) ` set [(Some [2 :: byte], Some [7 :: byte]), (Some [1], None)] \<and>
    set ds \<subseteq> (\<lambda>(k, v). (Append [] k, Append [] v)) ` set [(Some [2], Some [7]), (Some [1], None)]"
  by (rule NormalizeMap_normal_form [OF SliceStable_sorts]) (simp add: small_def)

definition stuck_body :: bytes where
  "stuck_body = 0xf7 # replicate 8 0xff @ [1]"

lemma stuck_body_next: "Iter_NextTagAndBody stuck_body = Ok ([], stuck_body)"
  by code_simp

text \<open>On a set body whose element has the tag \<open>2 ^ 64 - 9\<close>, \<open>NormalizeSet\<close> does not return:
  the length wraps around to minus the size of the tag and the iterator does not advance.\<close>

theorem NormalizeSet_stuck: "NormalizeSet srt stuck_body = None"
proof -
  have nd: "\<not> Iter_Done stuck_body" by code_simp
  have "it \<noteq> stuck_body" if "set_elements it acc = Some r" for it acc r
    by (rule set_elements.raw_induct [OF _ that, of "\<lambda>it acc r. it \<noteq> stuck_body"])
       (use nd stuck_body_next in \<open>fastforce split: if_splits\<close>)
  then have "set_elements stuck_body [] = None" by (metis not_Some_eq)
  then show ?thesis by (simp add: NormalizeSet_def)
qed

text \<open>A union value built with a tag and untagged again gives the type of that tag and the value.\<close>

theorem BuildUnion_Untag:
  assumes "tag < length ts" "tag < 2 ^ 63" "length v < 2 ^ 61"
  shows "\<exists>b it. BuildUnion NewBuilder tag (Some v) = Ok b \<and> Builder_Bytes b = Ok (Some it) \<and>
    (\<exists>body. Bytes_Body it = Ok body \<and> Untag i ts body = Ok (ts ! tag, Some v))"
proof -
  obtain t where t: "EncodeInt (of_nat tag) = Ok t" "DecodeInt (Some t) = of_nat tag" "length t \<le> 8"
    by (simp only: EncodeInt_eq DecodeInt_def buf_simps unzigzag length_digits256_le_8 result.inject)
  let ?body = "Append [] (Some t) @ Append [] (Some v)"
  have st: "small t" "small v" using t(3) assms(3) by (simp_all add: small_def)
  have sb: "small ?body"
    using t(3) assms(3) length_appendUvarint_le [of "toTag (length t)"] length_appendUvarint_le [of "toTag (length v)"]
    by (simp add: small_def Append_def)
  have sint: "sint (of_nat tag :: u64) = int tag" by (rule sint_of_nat_small [OF assms(2)])
  obtain b where b: "build [Node [Leaf (Some t), Leaf (Some v)]] NewBuilder = Ok b"
      "Builder_Bytes b = Ok (Some (Append [] (Some ?body)))"
    using zb.build_vals_frames [of "[Node [Leaf (Some t), Leaf (Some v)]]" NewBuilder]
      Builder_frames_single build_not_nil [of "[Node [Leaf (Some t), Leaf (Some v)]]" NewBuilder]
    by (fastforce simp: Builder_Bytes_def)
  have "BuildUnion NewBuilder tag (Some v) = Ok b"
    using b(1) t(1) by (auto simp: BuildUnion_def go_inv)
  moreover have "Untag i ts (Some ?body) = Ok (ts ! tag, Some v)"
    using Iter_Next_Append [of "Some t" "Append [] (Some v)"] Iter_Next_Append [of "Some v" "[]"] st assms(1) t(2) sint
    by (simp add: Untag_def TypeUnion_Type_def)
  moreover have "Bytes_Body (Append [] (Some ?body)) = Ok (Some ?body)"
    using Iter_Next_Append [of "Some ?body" "[]"] sb by (simp add: Bytes_Body_def)
  ultimately show ?thesis using b(2) by blast
qed

theorem BuildUnion_Untag_witness:
  "\<exists>b it. BuildUnion NewBuilder 1 (Some [5]) = Ok b \<and> Builder_Bytes b = Ok (Some it) \<and>
    (\<exists>body. Bytes_Body it = Ok body \<and>
      Untag 30 [TypePrimitive TypeInt64, TypePrimitive TypeString] body =
        Ok ([TypePrimitive TypeInt64, TypePrimitive TypeString] ! 1, Some [5]))"
  by (rule BuildUnion_Untag) simp_all

text \<open>The lookup table of a record type with distinct field names finds each field at its
  position with its type, and no other name.\<close>

theorem IndexOfField_spec:
  assumes "distinct (map fst flds)"
  shows "(IndexOfField flds name = Some i \<longleftrightarrow> i < length flds \<and> fst (flds ! i) = name) \<and>
    (TypeOfField flds name = Some t \<longleftrightarrow> (name, t) \<in> set flds) \<and> (HasField flds name \<longleftrightarrow> name \<in> fst ` set flds)"
proof -
  have lut: "TypeRecord_createLUT flds name = Some j \<longleftrightarrow> j < length flds \<and> fst (flds ! j) = name" for j
    using createLUT_loop_iff [OF assms, of name j] by (auto simp: TypeRecord_createLUT_def)
  have T: "TypeOfField flds name = Some t \<longleftrightarrow> (name, t) \<in> set flds"
  proof
    assume "TypeOfField flds name = Some t"
    then obtain j where "TypeRecord_createLUT flds name = Some j" "t = snd (flds ! j)"
      by (auto simp: TypeOfField_def split: option.splits)
    with lut have "j < length flds" "flds ! j = (name, t)" by (auto simp: prod_eq_iff)
    then show "(name, t) \<in> set flds" by (metis nth_mem)
  next
    assume "(name, t) \<in> set flds"
    then obtain j where "j < length flds" "flds ! j = (name, t)" by (auto simp: in_set_conv_nth)
    moreover from this have "TypeRecord_createLUT flds name = Some j" by (simp add: lut)
    ultimately show "TypeOfField flds name = Some t" by (simp add: TypeOfField_def)
  qed
  have "HasField flds name \<longleftrightarrow> (\<exists>j. TypeRecord_createLUT flds name = Some j)" by (simp add: HasField_def)
  also have "\<dots> \<longleftrightarrow> name \<in> fst ` set flds"
    unfolding lut by (metis (no_types) image_iff in_set_conv_nth)
  finally show ?thesis using lut T by (simp add: IndexOfField_def)
qed

theorem IndexOfField_spec_witness:
  "HasField [(str ''a'', TypePrimitive TypeInt64), (str ''b'', TypePrimitive TypeString)] (str ''b'')"
  using IndexOfField_spec [of "[(str ''a'', TypePrimitive TypeInt64), (str ''b'', TypePrimitive TypeString)]" "str ''b''"]
  by (simp add: str_def)

end
