(* ===== verification/Mapper.thy ===== *)
theory Mapper
  imports ContextSpec
begin

text \<open>
  The mapper (\<open>mapper.go\<close>): a table from the type IDs of one context to the types of another,
  and the cache in front of it.  The table is a Go slice whose missing entries are nil.
\<close>

section \<open>Operations\<close>

type_synonym mapper = "ztype option list"

definition NewMapper :: mapper where
  "NewMapper = []"

text \<open>\<open>slices.Grow(s[:0], n)[:n]\<close> keeps the elements of \<open>s\<close> and pads with nil.\<close>

definition grow :: "'a option list \<Rightarrow> nat \<Rightarrow> 'a option list" where
  "grow xs n = take n (xs @ replicate (n - length xs) None)"

definition Mapper_Lookup :: "mapper \<Rightarrow> int \<Rightarrow> ztype option" where
  "Mapper_Lookup m i =
     (if i < int IDTypeComplex then
        (case LookupPrimitiveByID i of Ok p \<Rightarrow> Some (TypePrimitive p) | _ \<Rightarrow> None)
      else if i < int (length m) then m ! nat i
      else None)"

definition EnterType :: "nat \<Rightarrow> ztype \<Rightarrow> mapper \<Rightarrow> mapper" where
  "EnterType i typ m =
     (if i < IDTypeComplex then m
      else (let m' = (if i \<ge> length m then grow m (i + 1) else m) in m'[i := Some typ]))"

text \<open>\<open>Enter\<close> translates the type into the output context and enters it under its ID.\<close>

definition Enter :: "ztype \<Rightarrow> mapper \<Rightarrow> ctx \<Rightarrow> (ztype \<times> mapper \<times> ctx) go" where
  "Enter ext m out =
     (let i = TypeID ext in
      if i < IDTypeComplex then bindR (LookupPrimitiveByID (int i)) (\<lambda>p. Ok (TypePrimitive p, m, out))
      else bindR (TranslateType ext out) (\<lambda>(r, out').
           case r of
             None \<Rightarrow> Err (Errorf ''bad type value encoding'')
           | Some typ \<Rightarrow> Ok (typ, EnterType i typ m, out')))"

type_synonym mapper_cache = "ztype option list"

text \<open>An ID that is negative as an \<open>int\<close> indexes the cache out of range.\<close>

definition MapperLookupCache_Lookup :: "mapper \<Rightarrow> int \<Rightarrow> mapper_cache \<Rightarrow> (ztype option \<times> mapper_cache) go" where
  "MapperLookupCache_Lookup m i cache =
     (if i < int (length cache) \<and> i < 0 then Panic
      else if i < int (length cache) \<and> cache ! nat i \<noteq> None then Ok (cache ! nat i, cache)
      else case Mapper_Lookup m i of
             None \<Rightarrow> Ok (None, cache)
           | Some typ \<Rightarrow>
               (let cache' = (if i \<ge> int (length cache) then grow cache (nat i + 1) else cache)
                in Ok (Some typ, cache'[nat i := Some typ])))"

section \<open>Tables\<close>

lemma grow_nth: "i < n \<Longrightarrow> grow xs n ! i = (if i < length xs then xs ! i else None)"
  by (simp add: grow_def nth_append)

lemma length_grow [simp]: "length (grow xs n) = n"
  by (simp add: grow_def)

text \<open>The entry of an ID; \<open>None\<close> when there is none.\<close>

definition entry :: "'a option list \<Rightarrow> nat \<Rightarrow> 'a option" where
  "entry m i = (if i < length m then m ! i else None)"

lemma entry_EnterType:
  "30 \<le> i \<Longrightarrow> entry (EnterType i typ m) j = (if j = i then Some typ else entry m j)"
  by (auto simp: EnterType_def IDTypeComplex_def Let_def entry_def grow_nth nth_list_update)

lemma Mapper_Lookup_entry: "30 \<le> i \<Longrightarrow> Mapper_Lookup m (int i) = entry m i"
  by (simp add: Mapper_Lookup_def IDTypeComplex_def entry_def)

text \<open>A cache that agrees with its mapper.\<close>

definition cache_ok :: "mapper \<Rightarrow> mapper_cache \<Rightarrow> bool" where
  "cache_ok m cache \<longleftrightarrow> (\<forall>i typ. entry cache i = Some typ \<longrightarrow> Mapper_Lookup m (int i) = Some typ)"

lemma cache_ok_empty [simp]: "cache_ok m []"
  by (simp add: cache_ok_def entry_def)

lemma MapperLookupCache_transparent:
  assumes "cache_ok m cache"
  shows "\<exists>cache'. MapperLookupCache_Lookup m (int i) cache = Ok (Mapper_Lookup m (int i), cache') \<and> cache_ok m cache'"
proof (cases "entry cache i")
  case (Some ty)
  with assms show ?thesis
    by (auto simp: MapperLookupCache_Lookup_def cache_ok_def entry_def split: if_splits)
next
  case None
  let ?c = "if i \<ge> length cache then grow cache (i + 1) else cache"
  have "entry (?c[i := Some ty]) j = (if j = i then Some ty else entry cache j)" for j ty
    by (auto simp: entry_def grow_nth nth_list_update)
  then have "cache_ok m (?c[i := Some ty])" if "Mapper_Lookup m (int i) = Some ty" for ty
    using assms that unfolding cache_ok_def by (metis option.inject)
  with None assms show ?thesis
    by (auto simp: MapperLookupCache_Lookup_def entry_def Let_def split: option.splits if_splits)
qed

section \<open>Translation\<close>

text \<open>Translating a type of a well-formed context always succeeds.\<close>

lemma TranslateType_twins:
  assumes "wf_types d" "inC d t" "wf_ctx c"
  shows "\<exists>u c'. TranslateType t c = Ok (Some u, c') \<and> keeps c c' \<and> twins d c' t u"
proof (cases "toType c (EncodeTypeValue t)")
  case (Some u)
  have "canon (erase t)" using assms(1,2) unfolding canon_def by blast
  with Some have "erase u = erase t"
    using wf_ctxD(7) [OF assms(3), of "erase t" u] Encode_erase_inC [OF assms(1,2)] by simp
  with Some assms wf_ctxD(6) [OF assms(3) Some] show ?thesis
    by (simp add: TranslateType_def LookupByValue_def keeps_refl twins_def)
next
  case None
  obtain u c1 where u: "DecodeTypeValue c (EncodeTypeValue t) = Ok (Some (u, []), c1)" "keeps c c1" "twins d c1 t u"
    using Decode_Encode [OF assms, of "[]"] by auto
  let ?c = "c1\<lparr>toValue := (toValue c1)(u \<mapsto> EncodeTypeValue t), toType := (toType c1)(EncodeTypeValue t \<mapsto> u)\<rparr>"
  have "wf_ctx ?c"
  proof (rule wf_toType [OF keeps_wf [OF u(2)]])
    show "inC c1 u" using u(3) by (simp add: twins_def)
    fix e assume e: "canon e" "EncodeTypeValue e = EncodeTypeValue t"
    have "lens_ok t" by (rule inC_lens_ok [OF assms(1,2)])
    with e EncodeTypeValue_inj [of "erase t" e] canonD [OF e(1)] Encode_erase_inC [OF assms(1,2)]
    have "erase t = e" by simp
    with u(3) show "erase u = e" by (simp add: twins_def)
  qed
  with u None show ?thesis
    by (auto simp: TranslateType_def LookupByValue_def keeps_def ext_ctx_def twins_def inC_def types_def)
qed

end
