(* ===== verification/ZngTypes.thy ===== *)
theory ZngTypes
  imports Mapper
begin

text \<open>
  Typedefs of a ZNG stream (\<open>zio/zngio/types.go\<close>, \<open>zio/zngio/buffer.go\<close>).  The encoder maps the
  types of the values it is given into a context of its own and emits a typedef for each type
  it looks up there; the decoder looks the types up in the same order in a local context and
  maps them to the shared context.
\<close>

section \<open>The encoder\<close>

record encoder =
  enc_zctx :: ctx
  encoded :: "ztype \<rightharpoonup> ztype"
  enc_bytes :: bytes

definition NewEncoder :: encoder where
  "NewEncoder = \<lparr>enc_zctx = NewContext, encoded = Map.empty, enc_bytes = []\<rparr>"

definition Encoder_Reset :: "encoder \<Rightarrow> encoder" where
  "Encoder_Reset e = e\<lparr>enc_bytes := [], encoded := Map.empty, enc_zctx := Context_Reset (enc_zctx e)\<rparr>"

definition Encoder_Flush :: "encoder \<Rightarrow> encoder" where
  "Encoder_Flush e = e\<lparr>enc_bytes := []\<rparr>"

definition Encoder_Lookup :: "encoder \<Rightarrow> ztype \<Rightarrow> ztype option" where
  "Encoder_Lookup e external = encoded e external"

text \<open>
  What each \<open>encodeType\<close> method does once the components are encoded: it looks the type up and
  appends the typedef.
\<close>

abbreviation appendLen :: "bytes \<Rightarrow> nat \<Rightarrow> bytes" where
  "appendLen b n \<equiv> appendUvarint b (of_nat n)"

abbreviation appendString :: "bytes \<Rightarrow> gostring \<Rightarrow> bytes" where
  "appendString b s \<equiv> appendLen b (length s) @ s"

definition typedefRecord :: "(gostring \<times> ztype) list \<Rightarrow> encoder \<Rightarrow> (ztype \<times> encoder) go" where
  "typedefRecord flds e =
     bindR (LookupTypeRecord flds (enc_zctx e)) (\<lambda>(typ, c).
     Ok (typ, e\<lparr>enc_zctx := c,
       enc_bytes := foldl (\<lambda>b (name, t). appendLen (appendString b name) (TypeID t))
         (appendLen (enc_bytes e @ [0]) (length flds)) flds\<rparr>))"

text \<open>\<open>LookupTypeUnion\<close> sorts the slice of types in place, so that the IDs are those of the sorted types.\<close>

definition typedefUnion :: "ztype list \<Rightarrow> encoder \<Rightarrow> (ztype \<times> encoder) go" where
  "typedefUnion tys e =
     bindR (LookupTypeUnion tys (enc_zctx e)) (\<lambda>(typ, c).
     let tys = sortTypes tys in
     Ok (typ, e\<lparr>enc_zctx := c,
       enc_bytes := foldl (\<lambda>b t. appendLen b (TypeID t)) (appendLen (enc_bytes e @ [4]) (length tys)) tys\<rparr>))"

definition typedefSet :: "ztype \<Rightarrow> encoder \<Rightarrow> (ztype \<times> encoder) go" where
  "typedefSet inner e =
     bindR (LookupTypeSet inner (enc_zctx e)) (\<lambda>(typ, c).
     Ok (typ, e\<lparr>enc_zctx := c, enc_bytes := appendLen (enc_bytes e @ [2]) (TypeID inner)\<rparr>))"

definition typedefArray :: "ztype \<Rightarrow> encoder \<Rightarrow> (ztype \<times> encoder) go" where
  "typedefArray inner e =
     bindR (LookupTypeArray inner (enc_zctx e)) (\<lambda>(typ, c).
     Ok (typ, e\<lparr>enc_zctx := c, enc_bytes := appendLen (enc_bytes e @ [1]) (TypeID inner)\<rparr>))"

definition typedefEnum :: "gostring list \<Rightarrow> encoder \<Rightarrow> (ztype \<times> encoder) go" where
  "typedefEnum symbols e =
     bindR (LookupTypeEnum symbols (enc_zctx e)) (\<lambda>(typ, c).
     Ok (typ, e\<lparr>enc_zctx := c,
       enc_bytes := foldl appendString (appendLen (enc_bytes e @ [5]) (length symbols)) symbols\<rparr>))"

definition typedefMap :: "ztype \<Rightarrow> ztype \<Rightarrow> encoder \<Rightarrow> (ztype \<times> encoder) go" where
  "typedefMap keyType valType e =
     bindR (LookupTypeMap keyType valType (enc_zctx e)) (\<lambda>(typ, c).
     Ok (typ, e\<lparr>enc_zctx := c,
       enc_bytes := appendLen (appendLen (enc_bytes e @ [3]) (TypeID keyType)) (TypeID valType)\<rparr>))"

definition typedefName :: "gostring \<Rightarrow> ztype \<Rightarrow> encoder \<Rightarrow> (ztype \<times> encoder) go" where
  "typedefName name inner e =
     bindR (LookupTypeNamed name inner (enc_zctx e)) (\<lambda>(typ, c).
     case typ of
       TypeNamed _ n t \<Rightarrow>
         Ok (typ, e\<lparr>enc_zctx := c, enc_bytes := appendLen (appendString (enc_bytes e @ [7]) n) (TypeID t)\<rparr>)
     | _ \<Rightarrow> Panic)"

definition typedefError :: "ztype \<Rightarrow> encoder \<Rightarrow> (ztype \<times> encoder) go" where
  "typedefError inner e =
     bindR (LookupTypeError inner (enc_zctx e)) (\<lambda>(typ, c).
     case typ of
       TypeError _ t \<Rightarrow> Ok (typ, e\<lparr>enc_zctx := c, enc_bytes := appendLen (enc_bytes e @ [6]) (TypeID t)\<rparr>)
     | _ \<Rightarrow> Panic)"

function (sequential) Encode :: "ztype \<Rightarrow> encoder \<Rightarrow> (ztype \<times> encoder) go"
  and encode :: "ztype \<Rightarrow> encoder \<Rightarrow> (ztype \<times> encoder) go"
  and encodeFields :: "(gostring \<times> ztype) list \<Rightarrow> encoder \<Rightarrow> ((gostring \<times> ztype) list \<times> encoder) go"
  and encodeTypes :: "ztype list \<Rightarrow> encoder \<Rightarrow> (ztype list \<times> encoder) go"
where
  "Encode external e =
     (case encoded e external of
        Some typ \<Rightarrow> Ok (typ, e)
      | None \<Rightarrow>
          bindR (encode external e) (\<lambda>(internal, e).
          Ok (internal, e\<lparr>encoded := (encoded e)(external \<mapsto> internal)\<rparr>)))"
| "encode (TypeRecord i fs) e = bindR (encodeFields fs e) (\<lambda>(flds, e). typedefRecord flds e)"
| "encode (TypeSet i t) e = bindR (Encode t e) (\<lambda>(inner, e). typedefSet inner e)"
| "encode (TypeArray i t) e = bindR (Encode t e) (\<lambda>(inner, e). typedefArray inner e)"
| "encode (TypeUnion i ts) e = bindR (encodeTypes ts e) (\<lambda>(tys, e). typedefUnion tys e)"
| "encode (TypeMap i k v) e =
     bindR (Encode k e) (\<lambda>(keyType, e). bindR (Encode v e) (\<lambda>(valType, e). typedefMap keyType valType e))"
| "encode (TypeEnum i ss) e = typedefEnum ss e"
| "encode (TypeNamed i n t) e = bindR (Encode t e) (\<lambda>(inner, e). typedefName n inner e)"
| "encode (TypeError i t) e = bindR (Encode t e) (\<lambda>(inner, e). typedefError inner e)"
| "encode (TypePrimitive p) e = Ok (TypePrimitive p, e)"
| "encodeFields [] e = Ok ([], e)"
| "encodeFields ((n, t) # fs) e =
     bindR (Encode t e) (\<lambda>(child, e). bindR (encodeFields fs e) (\<lambda>(flds, e). Ok ((n, child) # flds, e)))"
| "encodeTypes [] e = Ok ([], e)"
| "encodeTypes (t # ts) e =
     bindR (Encode t e) (\<lambda>(t', e). bindR (encodeTypes ts e) (\<lambda>(tys, e). Ok (t' # tys, e)))"
  by pat_completeness auto
termination
  by (relation "measures
      [\<lambda>x. case x of Inl (Inl (t, _)) \<Rightarrow> size t | Inl (Inr (t, _)) \<Rightarrow> size t
          | Inr (Inl (fs, _)) \<Rightarrow> size_list (size_prod (\<lambda>x. 0) size) fs | Inr (Inr (ts, _)) \<Rightarrow> size_list size ts,
       \<lambda>x. case x of Inl (Inl _) \<Rightarrow> 1 | _ \<Rightarrow> 0]")
     auto

section \<open>The buffer\<close>

text \<open>
  A buffer is the bytes from its offset on.  A read that wants more than there is returns what
  is left and an error; a negative length moves the offset back and the slice expression panics.
\<close>

datatype read_err = NoError | EOF | ErrUnexpectedEOF

definition buffer_read :: "int \<Rightarrow> bytes \<Rightarrow> (zbytes \<times> read_err \<times> bytes) go" where
  "buffer_read n b =
     (let avail = int (length b) in
      if n > avail then
        (if avail = 0 then Ok (None, EOF, b) else Ok (Some b, ErrUnexpectedEOF, []))
      else if n < 0 then Panic
      else Ok (Some (take (nat n) b), NoError, drop (nat n) b))"

text \<open>\<open>binary.ReadUvarint\<close> on a buffer reads what \<open>binary.Uvarint\<close> reads; with no byte to read
  its error is \<open>io.EOF\<close>.\<close>

definition io_EOF :: goerror where "io_EOF = Errorf ''EOF''"

definition ReadUvarint :: "bytes \<Rightarrow> (u64 \<times> bytes) go" where
  "ReadUvarint b =
     (let (u, n) = uvarint b in
      if b = [] then Err io_EOF
      else if n \<le> 0 then Err (Errorf ''unexpected EOF or overflow'')
      else Ok (u, drop (nat n) b))"

definition readUvarintAsInt :: "bytes \<Rightarrow> (int \<times> bytes) go" where
  "readUvarintAsInt b = bindR (ReadUvarint b) (\<lambda>(u, b). Ok (sint u, b))"

definition errBadFormat :: goerror where
  "errBadFormat = Errorf ''malformed zng record''"

text \<open>An error of the step before is replaced by \<open>errBadFormat\<close>.\<close>

definition orBad :: "'a go \<Rightarrow> 'a go" where
  "orBad r = (case r of Err _ \<Rightarrow> Err errBadFormat | _ \<Rightarrow> r)"

definition readCountedString :: "bytes \<Rightarrow> (gostring \<times> bytes) go" where
  "readCountedString b =
     bindR (orBad (readUvarintAsInt b)) (\<lambda>(n, b).
     bindR (buffer_read n b) (\<lambda>(name, err, b).
     if err \<noteq> NoError then Err errBadFormat else Ok (buf name, b)))"

section \<open>The decoder\<close>

record decoder =
  dec_zctx :: ctx
  local_zctx :: ctx
  local_mapper :: mapper

definition Decoder_reset :: "decoder \<Rightarrow> decoder" where
  "Decoder_reset d = d\<lparr>local_zctx := NewContext, local_mapper := NewMapper\<rparr>"

definition NewDecoder :: "ctx \<Rightarrow> decoder" where
  "NewDecoder zctx = \<lparr>dec_zctx = zctx, local_zctx = NewContext, local_mapper = NewMapper\<rparr>"

text \<open>The end of each \<open>readType\<close> method: the type just looked up is entered in the mapper.\<close>

definition mapperEnter :: "ztype \<Rightarrow> ctx \<Rightarrow> decoder \<Rightarrow> decoder go" where
  "mapperEnter typ c d =
     bindR (Enter typ (local_mapper d) (dec_zctx d)) (\<lambda>(_, m, out).
     Ok (d\<lparr>local_zctx := c, local_mapper := m, dec_zctx := out\<rparr>))"

definition readTypeID :: "bytes \<Rightarrow> decoder \<Rightarrow> (ztype \<times> bytes) go" where
  "readTypeID b d =
     bindR (orBad (readUvarintAsInt b)) (\<lambda>(i, b). bindR (LookupType (local_zctx d) i) (\<lambda>t. Ok (t, b)))"

definition readField :: "bytes \<Rightarrow> decoder \<Rightarrow> ((gostring \<times> ztype) \<times> bytes) go" where
  "readField b d =
     bindR (readCountedString b) (\<lambda>(name, b). bindR (readTypeID b d) (\<lambda>(typ, b). Ok ((name, typ), b)))"

text \<open>The loop \<open>for k := 0; k < n; k++\<close> of the list-valued typedefs.\<close>

fun read_loop :: "nat \<Rightarrow> (bytes \<Rightarrow> ('a \<times> bytes) go) \<Rightarrow> bytes \<Rightarrow> ('a list \<times> bytes) go" where
  "read_loop 0 rd b = Ok ([], b)"
| "read_loop (Suc k) rd b =
     bindR (rd b) (\<lambda>(x, b). bindR (read_loop k rd b) (\<lambda>(xs, b). Ok (x # xs, b)))"

definition readTypeRecord :: "bytes \<Rightarrow> decoder \<Rightarrow> (decoder \<times> bytes) go" where
  "readTypeRecord b d =
     bindR (orBad (readUvarintAsInt b)) (\<lambda>(nfields, b).
     bindR (read_loop (nat nfields) (\<lambda>b. readField b d) b) (\<lambda>(flds, b).
     bindR (LookupTypeRecord flds (local_zctx d)) (\<lambda>(typ, c).
     bindR (mapperEnter typ c d) (\<lambda>d. Ok (d, b)))))"

definition readTypeArray :: "bytes \<Rightarrow> decoder \<Rightarrow> (decoder \<times> bytes) go" where
  "readTypeArray b d =
     bindR (readTypeID b d) (\<lambda>(inner, b).
     bindR (LookupTypeArray inner (local_zctx d)) (\<lambda>(typ, c).
     bindR (mapperEnter typ c d) (\<lambda>d. Ok (d, b))))"

definition readTypeSet :: "bytes \<Rightarrow> decoder \<Rightarrow> (decoder \<times> bytes) go" where
  "readTypeSet b d =
     bindR (readTypeID b d) (\<lambda>(inner, b).
     bindR (LookupTypeSet inner (local_zctx d)) (\<lambda>(typ, c).
     bindR (mapperEnter typ c d) (\<lambda>d. Ok (d, b))))"

definition readTypeMap :: "bytes \<Rightarrow> decoder \<Rightarrow> (decoder \<times> bytes) go" where
  "readTypeMap b d =
     bindR (readTypeID b d) (\<lambda>(keyType, b).
     bindR (readTypeID b d) (\<lambda>(valType, b).
     bindR (LookupTypeMap keyType valType (local_zctx d)) (\<lambda>(typ, c).
     bindR (mapperEnter typ c d) (\<lambda>d. Ok (d, b)))))"

definition readTypeUnion :: "bytes \<Rightarrow> decoder \<Rightarrow> (decoder \<times> bytes) go" where
  "readTypeUnion b d =
     bindR (orBad (readUvarintAsInt b)) (\<lambda>(ntyp, b).
     if ntyp = 0 then Err (Errorf ''type union: zero types not allowed'')
     else bindR (read_loop (nat ntyp) (\<lambda>b. readTypeID b d) b) (\<lambda>(tys, b).
          bindR (LookupTypeUnion tys (local_zctx d)) (\<lambda>(typ, c).
          bindR (mapperEnter typ c d) (\<lambda>d. Ok (d, b)))))"

definition readTypeEnum :: "bytes \<Rightarrow> decoder \<Rightarrow> (decoder \<times> bytes) go" where
  "readTypeEnum b d =
     bindR (orBad (readUvarintAsInt b)) (\<lambda>(nsym, b).
     bindR (read_loop (nat nsym) readCountedString b) (\<lambda>(symbols, b).
     bindR (LookupTypeEnum symbols (local_zctx d)) (\<lambda>(typ, c).
     bindR (mapperEnter typ c d) (\<lambda>d. Ok (d, b)))))"

definition readTypeName :: "bytes \<Rightarrow> decoder \<Rightarrow> (decoder \<times> bytes) go" where
  "readTypeName b d =
     bindR (readCountedString b) (\<lambda>(name, b).
     bindR (readTypeID b d) (\<lambda>(inner, b).
     bindR (LookupTypeNamed name inner (local_zctx d)) (\<lambda>(typ, c).
     bindR (mapperEnter typ c d) (\<lambda>d. Ok (d, b)))))"

definition readTypeError :: "bytes \<Rightarrow> decoder \<Rightarrow> (decoder \<times> bytes) go" where
  "readTypeError b d =
     bindR (readTypeID b d) (\<lambda>(inner, b).
     bindR (LookupTypeError inner (local_zctx d)) (\<lambda>(typ, c).
     bindR (mapperEnter typ c d) (\<lambda>d. Ok (d, b))))"

definition readTypedef :: "byte \<Rightarrow> bytes \<Rightarrow> decoder \<Rightarrow> (decoder \<times> bytes) go" where
  "readTypedef code b d =
     (if code = 0 then readTypeRecord b d
      else if code = 2 then readTypeSet b d
      else if code = 1 then readTypeArray b d
      else if code = 3 then readTypeMap b d
      else if code = 4 then readTypeUnion b d
      else if code = 5 then readTypeEnum b d
      else if code = 7 then readTypeName b d
      else if code = 6 then readTypeError b d
      else Err (Errorf ''unknown ZNG typedef code''))"

lemma ReadUvarint_len: "ReadUvarint b = Ok (u, b') \<Longrightarrow> length b' \<le> length b"
  by (auto simp: ReadUvarint_def split: prod.splits if_splits)

lemma orBad_Ok [go_inv]: "orBad r = Ok x \<longleftrightarrow> r = Ok x"
  by (cases r) (simp_all add: orBad_def)

lemma readUvarintAsInt_len: "readUvarintAsInt b = Ok (i, b') \<Longrightarrow> length b' \<le> length b"
  by (auto simp: readUvarintAsInt_def go_inv dest: ReadUvarint_len)

lemma buffer_read_len: "buffer_read n b = Ok (v, err, b') \<Longrightarrow> length b' \<le> length b"
  by (auto simp: buffer_read_def Let_def split: if_splits)

lemma readCountedString_len: "readCountedString b = Ok (s, b') \<Longrightarrow> length b' \<le> length b"
  by (fastforce simp: readCountedString_def go_inv split: if_splits
      dest: readUvarintAsInt_len buffer_read_len)

lemma readTypeID_len: "readTypeID b d = Ok (t, b') \<Longrightarrow> length b' \<le> length b"
  by (auto simp: readTypeID_def go_inv dest: readUvarintAsInt_len)

lemma read_loop_len:
  "(\<And>b x b'. rd b = Ok (x, b') \<Longrightarrow> length b' \<le> length b) \<Longrightarrow> read_loop k rd b = Ok (xs, b') \<Longrightarrow> length b' \<le> length b"
  by (induction k arbitrary: b xs) (fastforce simp: go_inv)+

lemma readField_len: "readField b d = Ok (f, b') \<Longrightarrow> length b' \<le> length b"
  by (fastforce simp: readField_def go_inv dest: readCountedString_len readTypeID_len)

lemma readTypedef_len: "readTypedef code b d = Ok (d', b') \<Longrightarrow> length b' \<le> length b"
proof -
  assume A: "readTypedef code b d = Ok (d', b')"
  have loop: "read_loop k (\<lambda>b. readField b d) x = Ok (y, z) \<Longrightarrow> length z \<le> length x"
    "read_loop k (\<lambda>b. readTypeID b d) x = Ok (y2, z) \<Longrightarrow> length z \<le> length x"
    "read_loop k readCountedString x = Ok (y3, z) \<Longrightarrow> length z \<le> length x" for k x y y2 y3 z
    by (rule read_loop_len; blast dest: readField_len readTypeID_len readCountedString_len)+
  note lens = loop readUvarintAsInt_len readTypeID_len readCountedString_len
  have "readTypeRecord b d = Ok (d', b') \<Longrightarrow> length b' \<le> length b"
    by (auto simp: readTypeRecord_def go_inv dest!: lens)
  moreover have "readTypeUnion b d = Ok (d', b') \<Longrightarrow> length b' \<le> length b"
    by (auto simp: readTypeUnion_def go_inv split: if_splits dest!: lens)
  moreover have "readTypeEnum b d = Ok (d', b') \<Longrightarrow> length b' \<le> length b"
    by (auto simp: readTypeEnum_def go_inv dest!: lens)
  moreover have "readTypeMap b d = Ok (d', b') \<Longrightarrow> length b' \<le> length b"
    by (auto simp: readTypeMap_def go_inv dest!: lens)
  moreover have "readTypeName b d = Ok (d', b') \<Longrightarrow> length b' \<le> length b"
    by (auto simp: readTypeName_def go_inv dest!: lens)
  moreover have "readTypeArray b d = Ok (d', b') \<Longrightarrow> length b' \<le> length b"
    by (auto simp: readTypeArray_def go_inv dest!: lens)
  moreover have "readTypeSet b d = Ok (d', b') \<Longrightarrow> length b' \<le> length b"
    by (auto simp: readTypeSet_def go_inv dest!: lens)
  moreover have "readTypeError b d = Ok (d', b') \<Longrightarrow> length b' \<le> length b"
    by (auto simp: readTypeError_def go_inv dest!: lens)
  ultimately show ?thesis using A by (simp add: readTypedef_def split: if_splits)
qed

function (sequential) Decoder_decode :: "decoder \<Rightarrow> bytes \<Rightarrow> decoder go" where
  "Decoder_decode d [] = Ok d"
| "Decoder_decode d (code # b) = bindR (readTypedef code b d) (\<lambda>(d', b'). Decoder_decode d' b')"
  by pat_completeness auto
termination
  by (relation "measure (\<lambda>(d, b). length b)") (auto dest: readTypedef_len)

section \<open>Encoder and decoder agree\<close>

lemma types_added:
  "LookupTypeRecord fs c = Ok (t, c') \<Longrightarrow> types c' \<subseteq> insert t (types c)"
  "LookupTypeArray s c = Ok (t, c') \<Longrightarrow> types c' \<subseteq> insert t (types c)"
  "LookupTypeSet s c = Ok (t, c') \<Longrightarrow> types c' \<subseteq> insert t (types c)"
  "LookupTypeError s c = Ok (t, c') \<Longrightarrow> types c' \<subseteq> insert t (types c)"
  "LookupTypeMap k v c = Ok (t, c') \<Longrightarrow> types c' \<subseteq> insert t (types c)"
  "LookupTypeUnion ts c = Ok (t, c') \<Longrightarrow> types c' \<subseteq> insert t (types c)"
  "LookupTypeEnum ss c = Ok (t, c') \<Longrightarrow> types c' \<subseteq> insert t (types c)"
  "LookupTypeNamed n s c = Ok (t, c') \<Longrightarrow> types c' \<subseteq> insert t (types c)"
  by (auto simp: LookupTypeRecord_def LookupTypeArray_def LookupTypeSet_def LookupTypeError_def
      LookupTypeMap_def LookupTypeUnion_def LookupTypeEnum_def LookupTypeNamed_def Let_def
      split: option.splits ztype.splits if_splits)

text \<open>
  A decoder in step with an encoder's context: the local context is the same, and the mapper
  maps each of its types to the type of the same structure in the shared context.
\<close>

definition in_step :: "ctx \<Rightarrow> decoder \<Rightarrow> bool" where
  "in_step c d \<longleftrightarrow> local_zctx d = c \<and> wf_ctx c \<and> wf_ctx (dec_zctx d) \<and>
     (\<forall>t \<in> types c. \<exists>u. entry (local_mapper d) (TypeID t) = Some u \<and> twins c (dec_zctx d) t u)"

lemma twins_extl: "ext_ctx c c' \<Longrightarrow> twins c x t u \<Longrightarrow> twins c' x t u"
  by (auto simp: twins_def intro: ext_ctx_inC)

lemma mapperEnter_in_step:
  assumes d: "in_step c d" and k: "keeps c c'" and t: "t \<in> types c'" "types c' \<subseteq> insert t (types c)"
  shows "\<exists>d'. mapperEnter t c' d = Ok d' \<and> in_step c' d' \<and> keeps (dec_zctx d) (dec_zctx d')"
proof -
  have wf: "wf_ctx c'" "ext_ctx c c'" using k by (simp_all add: keeps_def)
  have out: "wf_ctx (dec_zctx d)" using d by (simp add: in_step_def)
  have tC: "inC c' t" using t(1) by (simp add: inC_def)
  obtain u out' where u: "TranslateType t (dec_zctx d) = Ok (Some u, out')" "keeps (dec_zctx d) out'" "twins c' out' t u"
    using TranslateType_twins [OF wf_ctxD(1) [OF wf(1)] tC out] by blast
  note id = types_TypeID [OF wf_typesD(1) [OF wf_ctxD(1) [OF wf(1)]]]
  let ?d = "d\<lparr>local_zctx := c', local_mapper := EnterType (TypeID t) u (local_mapper d), dec_zctx := out'\<rparr>"
  have "mapperEnter t c' d = Ok ?d"
    using u(1) id [OF t(1)] by (simp add: mapperEnter_def Enter_def Let_def IDTypeComplex_def)
  moreover have "\<exists>v. entry (EnterType (TypeID t) u (local_mapper d)) (TypeID s) = Some v \<and> twins c' out' s v"
    if s: "s \<in> types c'" for s
  proof (cases "s = t")
    case True
    then show ?thesis using u(3) id [OF t(1)] by (simp add: entry_EnterType)
  next
    case False
    then have "s \<in> types c" using s t(2) by auto
    then obtain v where "entry (local_mapper d) (TypeID s) = Some v" "twins c (dec_zctx d) s v"
      using d by (auto simp: in_step_def)
    moreover have "TypeID s \<noteq> TypeID t" using False id [OF s] id [OF t(1)] by auto
    ultimately show ?thesis
      using id [OF t(1)] twins_keeps [OF u(2)] twins_extl [OF wf(2)] by (auto simp: entry_EnterType)
  qed
  ultimately show ?thesis using wf(1) keeps_wf [OF u(2)] u(2) by (auto simp: in_step_def)
qed

lemma ReadUvarint_emit: "ReadUvarint (appendUvarint [] u @ rest) = Ok (u, rest)"
  using uvarint_appendUvarint [of u rest] by (simp add: ReadUvarint_def)

lemma readUvarintAsInt_emit: "n < 2 ^ 62 \<Longrightarrow> readUvarintAsInt (emitLen n @ rest) = Ok (int n, rest)"
  using sint_of_nat_small [of n] by (simp add: readUvarintAsInt_def emitLen_def ReadUvarint_emit)

lemma readCountedString_emit: "small s \<Longrightarrow> readCountedString (emitName s @ rest) = Ok (s, rest)"
  by (simp add: readCountedString_def emitName_def small_def readUvarintAsInt_emit orBad_def buffer_read_def)

lemma LookupType_prim: "LookupType c (int (prim_ID p)) = Ok (TypePrimitive p)"
  by (cases p) (simp_all add: LookupType_def IDTypeComplex_def LookupPrimitiveByID_def)

lemma LookupType_inC:
  assumes "wf_ctx c" "inC c t"
  shows "LookupType c (int (TypeID t)) = Ok t"
proof (cases "isPrim t")
  case True
  then show ?thesis by (cases t) (simp_all add: TypeID_def LookupType_prim)
next
  case False
  then show ?thesis
    using types_TypeID [OF wf_typesD(1) [OF wf_ctxD(1) [OF assms(1)]], of t] assms(2)
    by (simp add: LookupType_def IDTypeComplex_def inC_def)
qed

lemma TypeID_bound:
  assumes "wf_ctx c" "inC c t" "length (byID c) < 2 ^ 62"
  shows "TypeID t < 2 ^ 62"
proof (cases "isPrim t")
  case True
  then have "TypeID t < 30" using isPrim_ID [OF True] by (cases t) (simp_all add: TypeID_def)
  then show ?thesis by simp
next
  case False
  then show ?thesis
    using types_TypeID [OF wf_typesD(1) [OF wf_ctxD(1) [OF assms(1)]], of t] assms(2,3) by (simp add: inC_def)
qed

lemma readTypeID_emit:
  assumes "in_step c d" "inC c t" "length (byID c) < 2 ^ 62"
  shows "readTypeID (emitLen (TypeID t) @ rest) d = Ok (t, rest)"
proof -
  have wf: "wf_ctx c" "local_zctx d = c" using assms(1) by (simp_all add: in_step_def)
  show ?thesis
    using LookupType_inC [OF wf(1) assms(2)] readUvarintAsInt_emit [OF TypeID_bound [OF wf(1) assms(2,3)]] wf(2)
    by (simp add: readTypeID_def orBad_def)
qed

lemma read_loop_emit:
  assumes "\<And>x rest. x \<in> set xs \<Longrightarrow> rd (em x @ rest) = Ok (x, rest)"
  shows "read_loop (length xs) rd (concat (map em xs) @ rest) = Ok (xs, rest)"
  using assms by (induction xs) simp_all

end
