(* ===== verification/ZngSync.thy ===== *)
theory ZngSync
  imports ZngTypes
begin

text \<open>
  The typedefs an encoder emits bring a decoder in step with it: the decoder's local context
  becomes equal to the encoder's context and each of its types is mapped to the type of the
  same structure in the shared context.
\<close>

section \<open>What a call of the encoder emits\<close>

definition emits :: "encoder \<Rightarrow> encoder \<Rightarrow> bool" where
  "emits e e' \<longleftrightarrow> keeps (enc_zctx e) (enc_zctx e') \<and>
     (\<exists>w. enc_bytes e' = enc_bytes e @ w \<and>
       (length (byID (enc_zctx e')) < 2 ^ 62 \<longrightarrow>
         (\<forall>d rest. in_step (enc_zctx e) d \<longrightarrow>
           (\<exists>d'. in_step (enc_zctx e') d' \<and> keeps (dec_zctx d) (dec_zctx d') \<and>
             Decoder_decode d (w @ rest) = Decoder_decode d' rest))))"

lemma emits_keeps: "emits e e' \<Longrightarrow> keeps (enc_zctx e) (enc_zctx e')"
  by (simp add: emits_def)

lemma keeps_byID: "keeps c c' \<Longrightarrow> length (byID c) \<le> length (byID c')"
  by (auto simp: keeps_def ext_ctx_def)

lemma emits_refl:
  assumes "wf_ctx (enc_zctx e)" "enc_zctx e' = enc_zctx e" "enc_bytes e' = enc_bytes e"
  shows "emits e e'"
proof -
  have "keeps (dec_zctx d) (dec_zctx d)" if "in_step c d" for c d
    using that keeps_refl by (simp add: in_step_def)
  with assms keeps_refl show ?thesis by (fastforce simp: emits_def)
qed

text \<open>A decoder in step before the bytes is in step after them.\<close>

definition syncs :: "ctx \<Rightarrow> bytes \<Rightarrow> ctx \<Rightarrow> bool" where
  "syncs c w c' \<longleftrightarrow> (\<forall>d rest. in_step c d \<longrightarrow>
     (\<exists>d'. in_step c' d' \<and> keeps (dec_zctx d) (dec_zctx d') \<and>
       Decoder_decode d (w @ rest) = Decoder_decode d' rest))"

lemma syncs_trans: "syncs c w c1 \<Longrightarrow> syncs c1 v c2 \<Longrightarrow> syncs c (w @ v) c2"
  unfolding syncs_def
proof (intro allI impI)
  fix d rest
  assume A: "\<forall>d rest. in_step c d \<longrightarrow> (\<exists>d'. in_step c1 d' \<and> keeps (dec_zctx d) (dec_zctx d') \<and>
      Decoder_decode d (w @ rest) = Decoder_decode d' rest)"
    and B: "\<forall>d rest. in_step c1 d \<longrightarrow> (\<exists>d'. in_step c2 d' \<and> keeps (dec_zctx d) (dec_zctx d') \<and>
      Decoder_decode d (v @ rest) = Decoder_decode d' rest)"
    and d: "in_step c d"
  obtain d1 where d1: "in_step c1 d1" "keeps (dec_zctx d) (dec_zctx d1)"
      "Decoder_decode d (w @ v @ rest) = Decoder_decode d1 (v @ rest)"
    using A d by blast
  obtain d2 where "in_step c2 d2" "keeps (dec_zctx d1) (dec_zctx d2)"
      "Decoder_decode d1 (v @ rest) = Decoder_decode d2 rest"
    using B d1(1) by blast
  then show "\<exists>d'. in_step c2 d' \<and> keeps (dec_zctx d) (dec_zctx d') \<and>
      Decoder_decode d ((w @ v) @ rest) = Decoder_decode d' rest"
    using d1(2,3) keeps_trans by (metis append_assoc)
qed

lemma emits_trans:
  assumes A: "emits e e1" and B: "emits e1 e2"
  shows "emits e e2"
proof -
  obtain w1 where w1: "enc_bytes e1 = enc_bytes e @ w1"
      "length (byID (enc_zctx e1)) < 2 ^ 62 \<Longrightarrow> syncs (enc_zctx e) w1 (enc_zctx e1)"
    using A by (auto simp: emits_def syncs_def)
  obtain w2 where w2: "enc_bytes e2 = enc_bytes e1 @ w2"
      "length (byID (enc_zctx e2)) < 2 ^ 62 \<Longrightarrow> syncs (enc_zctx e1) w2 (enc_zctx e2)"
    using B by (auto simp: emits_def syncs_def)
  have "syncs (enc_zctx e) (w1 @ w2) (enc_zctx e2)" if "length (byID (enc_zctx e2)) < 2 ^ 62"
    using keeps_byID [OF emits_keeps [OF B]] that by (intro syncs_trans [OF w1(2) w2(2)]) simp_all
  with keeps_trans [OF emits_keeps [OF A] emits_keeps [OF B]] w1(1) w2(1) show ?thesis
    unfolding emits_def syncs_def by (intro conjI exI [of _ "w1 @ w2"]) simp_all
qed

text \<open>One typedef: the encoder looks a type up and emits the bytes from which the decoder
  makes the same call.\<close>

lemma typedef_emits:
  assumes look: "\<exists>t c'. L = Ok (t, c') \<and> wf_ctx c' \<and> ext_ctx (enc_zctx e) c' \<and> t \<in> types c' \<and> erase t = erase n"
    and add: "\<And>t c'. L = Ok (t, c') \<Longrightarrow> types c' \<subseteq> insert t (types (enc_zctx e))"
    and td: "\<And>t c'. L = Ok (t, c') \<Longrightarrow> wf_ctx c' \<Longrightarrow> ext_ctx (enc_zctx e) c' \<Longrightarrow> t \<in> types c' \<Longrightarrow> erase t = erase n \<Longrightarrow>
      TD = Ok (t, e\<lparr>enc_zctx := c', enc_bytes := enc_bytes e @ code # w\<rparr>)"
    and rd: "\<And>t c' d rest. L = Ok (t, c') \<Longrightarrow> in_step (enc_zctx e) d \<Longrightarrow> length (byID (enc_zctx e)) < 2 ^ 62 \<Longrightarrow>
      readTypedef code (w @ rest) d = bindR (mapperEnter t c' d) (\<lambda>d. Ok (d, rest))"
  shows "\<exists>t e'. TD = Ok (t, e') \<and> emits e e' \<and> encoded e' = encoded e \<and> inC (enc_zctx e') t \<and> erase t = erase n"
proof -
  obtain t c' where t: "L = Ok (t, c')" "wf_ctx c'" "ext_ctx (enc_zctx e) c'" "t \<in> types c'" "erase t = erase n"
    using look by blast
  let ?e = "e\<lparr>enc_zctx := c', enc_bytes := enc_bytes e @ code # w\<rparr>"
  have k: "keeps (enc_zctx e) c'" using t by (simp add: keeps_def)
  have "\<exists>d'. in_step c' d' \<and> keeps (dec_zctx d) (dec_zctx d') \<and> Decoder_decode d ((code # w) @ rest) = Decoder_decode d' rest"
    if len: "length (byID c') < 2 ^ 62" and st: "in_step (enc_zctx e) d" for d rest
  proof -
    have "length (byID (enc_zctx e)) < 2 ^ 62" using keeps_byID [OF k] len by linarith
    moreover obtain d' where d': "mapperEnter t c' d = Ok d'" "in_step c' d'" "keeps (dec_zctx d) (dec_zctx d')"
      using mapperEnter_in_step [OF st k t(4) add [OF t(1)]] by blast
    ultimately have "readTypedef code (w @ rest) d = Ok (d', rest)" using rd [OF t(1) st] by simp
    with d' show ?thesis by auto
  qed
  then have "emits e ?e" using k unfolding emits_def by (intro conjI exI [of _ "code # w"]) simp_all
  with td [OF t] t(4,5) show ?thesis by (auto simp: inC_def)
qed

section \<open>The typedefs\<close>

lemma foldl_append: "foldl (\<lambda>b x. b @ f x) b xs = b @ concat (map f xs)"
  by (induction xs arbitrary: b) simp_all

lemmas emit_simps = appendUvarint_emitLen foldl_append emitName_def case_prod_unfold

lemma in_step_local: "in_step c d \<Longrightarrow> local_zctx d = c"
  by (simp add: in_step_def)

lemma inner_emits:
  assumes wf: "wf_ctx (enc_zctx e)" and u: "inC (enc_zctx e) u"
  shows "\<exists>t e'. typedefArray u e = Ok (t, e') \<and> emits e e' \<and> encoded e' = encoded e \<and>
      inC (enc_zctx e') t \<and> erase t = erase (TypeArray 0 u)"
    "\<exists>t e'. typedefSet u e = Ok (t, e') \<and> emits e e' \<and> encoded e' = encoded e \<and>
      inC (enc_zctx e') t \<and> erase t = erase (TypeSet 0 u)"
proof -
  have i: "internable (enc_zctx e) (TypeArray 0 u)" "internable (enc_zctx e) (TypeSet 0 u)"
    using u inC_lens_ok [OF wf_ctxD(1) [OF wf] u] by (simp_all add: internable_def)
  show "\<exists>t e'. typedefArray u e = Ok (t, e') \<and> emits e e' \<and> encoded e' = encoded e \<and>
      inC (enc_zctx e') t \<and> erase t = erase (TypeArray 0 u)"
    by (rule typedef_emits [OF arr.look_ok [OF wf i(1)] types_added(2), where code = 1 and w = "emitLen (TypeID u)"])
       (simp_all add: typedefArray_def appendUvarint_emitLen readTypedef_def readTypeArray_def
          readTypeID_emit [OF _ u] in_step_local)
  show "\<exists>t e'. typedefSet u e = Ok (t, e') \<and> emits e e' \<and> encoded e' = encoded e \<and>
      inC (enc_zctx e') t \<and> erase t = erase (TypeSet 0 u)"
    by (rule typedef_emits [OF set.look_ok [OF wf i(2)] types_added(3), where code = 2 and w = "emitLen (TypeID u)"])
       (simp_all add: typedefSet_def appendUvarint_emitLen readTypedef_def readTypeSet_def
          readTypeID_emit [OF _ u] in_step_local)
qed

lemma error_emits:
  assumes wf: "wf_ctx (enc_zctx e)" and u: "inC (enc_zctx e) u"
  shows "\<exists>t e'. typedefError u e = Ok (t, e') \<and> emits e e' \<and> encoded e' = encoded e \<and>
      inC (enc_zctx e') t \<and> erase t = erase (TypeError 0 u)"
proof -
  have i: "internable (enc_zctx e) (TypeError 0 u)"
    using u inC_lens_ok [OF wf_ctxD(1) [OF wf] u] by (simp add: internable_def)
  have td: "typedefError u e = Ok (t, e\<lparr>enc_zctx := c', enc_bytes := enc_bytes e @ 6 # emitLen (TypeID u)\<rparr>)"
    if t: "LookupTypeError u (enc_zctx e) = Ok (t, c')" "wf_ctx c'" "ext_ctx (enc_zctx e) c'" "t \<in> types c'"
      "erase t = erase (TypeError 0 u)" for t c'
  proof -
    obtain j v where v: "t = TypeError j v" "erase v = erase u" using t(5) by (cases t) simp_all
    have "v = u"
      using erase_inj [OF wf_ctxD(1) [OF t(2)] wf_ctxD(2) [OF t(2,4)] ext_ctx_inC [OF t(3) u]] v by simp
    with t(1) v show ?thesis by (simp add: typedefError_def appendUvarint_emitLen)
  qed
  show ?thesis
    by (rule typedef_emits [OF err.look_ok [OF wf i] types_added(4) td])
       (simp_all add: readTypedef_def readTypeError_def readTypeID_emit [OF _ u] in_step_local)
qed

lemma named_emits:
  assumes wf: "wf_ctx (enc_zctx e)" and u: "inC (enc_zctx e) u" and i: "internable (enc_zctx e) (TypeNamed 0 n u)"
  shows "\<exists>t e'. typedefName n u e = Ok (t, e') \<and> emits e e' \<and> encoded e' = encoded e \<and>
      inC (enc_zctx e') t \<and> erase t = erase (TypeNamed 0 n u)"
proof -
  have sn: "small n" using i by (simp add: internable_def)
  have td: "typedefName n u e =
      Ok (t, e\<lparr>enc_zctx := c', enc_bytes := enc_bytes e @ 7 # emitName n @ emitLen (TypeID u)\<rparr>)"
    if t: "LookupTypeNamed n u (enc_zctx e) = Ok (t, c')" "wf_ctx c'" "ext_ctx (enc_zctx e) c'" "t \<in> types c'"
      "erase t = erase (TypeNamed 0 n u)" for t c'
  proof -
    obtain j v where v: "t = TypeNamed j n v" "erase v = erase u" using t(5) by (cases t) simp_all
    have "v = u"
      using erase_inj [OF wf_ctxD(1) [OF t(2)] wf_ctxD(2) [OF t(2,4)] ext_ctx_inC [OF t(3) u]] v by simp
    with t(1) v show ?thesis by (simp add: typedefName_def appendUvarint_emitLen emitName_def)
  qed
  have look: "\<exists>t c'. LookupTypeNamed n u (enc_zctx e) = Ok (t, c') \<and> wf_ctx c' \<and> ext_ctx (enc_zctx e) c' \<and>
      t \<in> types c' \<and> erase t = erase (TypeNamed 0 n u)"
    using LookupTypeNamed_ok [OF wf i] by blast
  show ?thesis
    by (rule typedef_emits [OF look types_added(8) td])
       (simp_all add: readTypedef_def readTypeName_def readTypeID_emit [OF _ u] readCountedString_emit [OF sn] in_step_local)
qed

lemma map_emits:
  assumes wf: "wf_ctx (enc_zctx e)" and u: "inC (enc_zctx e) u" "inC (enc_zctx e) v"
  shows "\<exists>t e'. typedefMap u v e = Ok (t, e') \<and> emits e e' \<and> encoded e' = encoded e \<and>
      inC (enc_zctx e') t \<and> erase t = erase (TypeMap 0 u v)"
proof -
  have i: "internable (enc_zctx e) (TypeMap 0 u v)"
    using u inC_lens_ok [OF wf_ctxD(1) [OF wf]] by (simp add: internable_def)
  show ?thesis
    by (rule typedef_emits [OF map.look_ok [OF wf, of "(u, v)", unfolded split_conv, OF i] types_added(5),
          where code = 3 and w = "emitLen (TypeID u) @ emitLen (TypeID v)"])
       (simp_all add: typedefMap_def appendUvarint_emitLen readTypedef_def readTypeMap_def
          readTypeID_emit [OF _ u(1)] readTypeID_emit [OF _ u(2)] in_step_local)
qed

lemma enum_emits:
  assumes wf: "wf_ctx (enc_zctx e)" and i: "internable (enc_zctx e) (TypeEnum 0 ss)"
  shows "\<exists>t e'. typedefEnum ss e = Ok (t, e') \<and> emits e e' \<and> encoded e' = encoded e \<and>
      inC (enc_zctx e') t \<and> erase t = erase (TypeEnum 0 ss)"
proof -
  have sm: "length ss < 2 ^ 62" "\<And>s. s \<in> set ss \<Longrightarrow> small s" using i by (simp_all add: internable_def small_def)
  have loop: "read_loop (length ss) readCountedString (concat (map emitName ss) @ rest) = Ok (ss, rest)" for rest
    by (rule read_loop_emit) (simp add: readCountedString_emit sm(2))
  show ?thesis
    by (rule typedef_emits [OF enu.look_ok [OF wf i] types_added(7), where code = 5 and w = "emitLen (length ss) @ concat (map emitName ss)"])
       (simp_all add: typedefEnum_def appendUvarint_emitLen foldl_append emitName_def [symmetric] readTypedef_def
          readTypeEnum_def orBad_def readUvarintAsInt_emit [OF sm(1)] loop in_step_local)
qed

lemma union_emits:
  assumes wf: "wf_ctx (enc_zctx e)" and i: "internable (enc_zctx e) (TypeUnion 0 (sortTypes us))" and ne: "us \<noteq> []"
  shows "\<exists>t e'. typedefUnion us e = Ok (t, e') \<and> emits e e' \<and> encoded e' = encoded e \<and>
      inC (enc_zctx e') t \<and> erase t = erase (TypeUnion 0 (sortTypes us))"
proof -
  let ?us = "sortTypes us"
  have sm: "length ?us < 2 ^ 62" "\<And>u. u \<in> set ?us \<Longrightarrow> inC (enc_zctx e) u"
    using i by (simp_all add: internable_def small_def)
  have ne': "?us \<noteq> []" using ne length_SliceStable unfolding sortTypes_def by (metis length_0_conv)
  have loop: "read_loop (length ?us) (\<lambda>b. readTypeID b d) (concat (map (\<lambda>t. emitLen (TypeID t)) ?us) @ rest) = Ok (?us, rest)"
    if "in_step (enc_zctx e) d" "length (byID (enc_zctx e)) < 2 ^ 62" for d rest
    by (rule read_loop_emit) (simp add: readTypeID_emit [OF that(1) sm(2) that(2)])
  show ?thesis
    by (rule typedef_emits [OF uni.look_ok [OF wf i] types_added(6),
          where code = 4 and w = "emitLen (length ?us) @ concat (map (\<lambda>t. emitLen (TypeID t)) ?us)"])
       (simp_all add: typedefUnion_def Let_def emit_simps readTypedef_def readTypeUnion_def orBad_def
          readUvarintAsInt_emit [OF sm(1)] loop ne' in_step_local)
qed

lemma record_emits:
  assumes wf: "wf_ctx (enc_zctx e)" and i: "internable (enc_zctx e) (TypeRecord 0 gs)"
  shows "\<exists>t e'. typedefRecord gs e = Ok (t, e') \<and> emits e e' \<and> encoded e' = encoded e \<and>
      inC (enc_zctx e') t \<and> erase t = erase (TypeRecord 0 gs)"
proof -
  have sm: "length gs < 2 ^ 62" "\<And>g. g \<in> set gs \<Longrightarrow> small (fst g) \<and> inC (enc_zctx e) (snd g)"
    using i by (simp_all add: internable_def small_def)
  have loop: "read_loop (length gs) (\<lambda>b. readField b d)
      (concat (map (\<lambda>f. emitName (fst f) @ emitLen (TypeID (snd f))) gs) @ rest) = Ok (gs, rest)"
    if "in_step (enc_zctx e) d" "length (byID (enc_zctx e)) < 2 ^ 62" for d rest
    by (rule read_loop_emit)
       (use sm(2) in \<open>simp add: readField_def readCountedString_emit readTypeID_emit [OF that(1) _ that(2)]\<close>)
  show ?thesis
    by (rule typedef_emits [OF rec.look_ok [OF wf i] types_added(1),
          where code = 0 and w = "emitLen (length gs) @ concat (map (\<lambda>f. emitName (fst f) @ emitLen (TypeID (snd f))) gs)"])
       (simp_all add: typedefRecord_def emit_simps readTypedef_def readTypeRecord_def orBad_def
          readUvarintAsInt_emit [OF sm(1)] loop [unfolded emitName_def append_assoc] in_step_local)
qed

section \<open>Encoding types\<close>

text \<open>The decoder refuses unions without types.\<close>

fun no_empty_union :: "ztype \<Rightarrow> bool" where
  "no_empty_union (TypePrimitive p) = True"
| "no_empty_union (TypeRecord i fs) = (\<forall>f \<in> set fs. no_empty_union (snd f))"
| "no_empty_union (TypeArray i t) = no_empty_union t"
| "no_empty_union (TypeSet i t) = no_empty_union t"
| "no_empty_union (TypeMap i k v) = (no_empty_union k \<and> no_empty_union v)"
| "no_empty_union (TypeUnion i ts) = (ts \<noteq> [] \<and> (\<forall>t \<in> set ts. no_empty_union t))"
| "no_empty_union (TypeEnum i ss) = True"
| "no_empty_union (TypeError i t) = no_empty_union t"
| "no_empty_union (TypeNamed i n t) = no_empty_union t"

text \<open>An encoder's table maps types to types of the same structure of its own context.\<close>

definition enc_ok :: "encoder \<Rightarrow> bool" where
  "enc_ok e \<longleftrightarrow> wf_ctx (enc_zctx e) \<and>
     (\<forall>x t. encoded e x = Some t \<longrightarrow> inC (enc_zctx e) t \<and> erase t = erase x)"

definition encodes :: "ctx \<Rightarrow> encoder \<Rightarrow> ztype \<Rightarrow> (ztype \<times> encoder) go \<Rightarrow> bool" where
  "encodes D e x r \<longleftrightarrow> (\<exists>t e'. r = Ok (t, e') \<and> emits e e' \<and> enc_ok e' \<and> twins D (enc_zctx e') x t)"

lemma enc_ok_emits: "enc_ok e \<Longrightarrow> emits e e' \<Longrightarrow> encoded e' = encoded e \<Longrightarrow> enc_ok e'"
  using keeps_inC by (fastforce simp: enc_ok_def emits_def keeps_def)

lemma encodes_typedef:
  assumes "\<exists>t e'. r = Ok (t, e') \<and> emits e1 e' \<and> encoded e' = encoded e1 \<and> inC (enc_zctx e') t \<and> erase t = erase n"
    and "emits e e1" "enc_ok e1" "inC D x" "erase n = erase x"
  shows "encodes D e x r"
  using assms emits_trans enc_ok_emits unfolding encodes_def twins_def by metis

lemma encodesE:
  assumes "encodes D e x r"
  obtains t e' where "r = Ok (t, e')" "emits e e'" "enc_ok e'" "wf_ctx (enc_zctx e')" "twins D (enc_zctx e') x t"
    "inC (enc_zctx e') t" "erase t = erase x"
  using assms by (auto simp: encodes_def enc_ok_def twins_def)

lemma Encode_encodes:
  assumes wf: "wf_types D"
  shows "inC D x \<Longrightarrow> no_empty_union x \<Longrightarrow> enc_ok e \<Longrightarrow> encodes D e x (Encode x e)"
    "inC D y \<Longrightarrow> no_empty_union y \<Longrightarrow> enc_ok e2 \<Longrightarrow> encodes D e2 y (encode y e2)"
    "\<forall>f \<in> set fs. inC D (snd f) \<and> no_empty_union (snd f) \<Longrightarrow> enc_ok e3 \<Longrightarrow>
      \<exists>gs e'. encodeFields fs e3 = Ok (gs, e') \<and> emits e3 e' \<and> enc_ok e' \<and> map fst gs = map fst fs \<and>
        list_all2 (twins D (enc_zctx e')) (map snd fs) (map snd gs)"
    "\<forall>t \<in> set ts. inC D t \<and> no_empty_union t \<Longrightarrow> enc_ok e4 \<Longrightarrow>
      \<exists>us e'. encodeTypes ts e4 = Ok (us, e') \<and> emits e4 e' \<and> enc_ok e' \<and> list_all2 (twins D (enc_zctx e')) ts us"
proof (induction x e and y e2 and fs e3 and ts e4 rule: Encode_encode_encodeFields_encodeTypes.induct)
  case (1 x e)
  show ?case
  proof (cases "encoded e x")
    case (Some t)
    then show ?thesis
      using "1.prems" emits_refl [of e e] by (auto simp: encodes_def enc_ok_def twins_def)
  next
    case None
    obtain t e' where t: "encode x e = Ok (t, e')" "emits e e'" "enc_ok e'" "wf_ctx (enc_zctx e')"
        "twins D (enc_zctx e') x t" "inC (enc_zctx e') t" "erase t = erase x"
      using encodesE [OF "1.IH" [OF None "1.prems"]] by metis
    let ?e = "e'\<lparr>encoded := (encoded e')(x \<mapsto> t)\<rparr>"
    have "emits e ?e" using t(2,4) by (rule emits_trans [OF _ emits_refl]) simp_all
    moreover have "enc_ok ?e" using t(3,6,7) by (auto simp: enc_ok_def)
    ultimately show ?thesis using t None by (auto simp: encodes_def)
  qed
next
  case (2 i fs e)
  have "\<forall>f \<in> set fs. inC D (snd f) \<and> no_empty_union (snd f)"
    using inC_children [OF wf "2.prems"(1)] "2.prems"(2) by simp
  then obtain gs e1 where g: "encodeFields fs e = Ok (gs, e1)" "emits e e1" "enc_ok e1" "map fst gs = map fst fs"
      "list_all2 (twins D (enc_zctx e1)) (map snd fs) (map snd gs)"
    using "2.IH" "2.prems"(3) by blast
  have wf1: "wf_ctx (enc_zctx e1)" using g(3) by (simp add: enc_ok_def)
  note tw = twin_record [OF wf wf1 "2.prems"(1) g(4,5)]
  show ?case using encodes_typedef [OF record_emits [OF wf1 tw(1)] g(2,3) "2.prems"(1) tw(2)] g(1) by simp
next
  case (3 i t e)
  then have "encodes D e t (Encode t e)" using inC_children [OF wf "3.prems"(1)] by simp
  then obtain u e1 where u: "Encode t e = Ok (u, e1)" "emits e e1" "enc_ok e1" "wf_ctx (enc_zctx e1)"
      "twins D (enc_zctx e1) t u" "inC (enc_zctx e1) u" "erase u = erase t" by (rule encodesE)
  show ?case using encodes_typedef [OF inner_emits(2) [OF u(4,6)] u(2,3) "3.prems"(1)] u(1,7) by simp
next
  case (4 i t e)
  then have "encodes D e t (Encode t e)" using inC_children [OF wf "4.prems"(1)] by simp
  then obtain u e1 where u: "Encode t e = Ok (u, e1)" "emits e e1" "enc_ok e1" "wf_ctx (enc_zctx e1)"
      "twins D (enc_zctx e1) t u" "inC (enc_zctx e1) u" "erase u = erase t" by (rule encodesE)
  show ?case using encodes_typedef [OF inner_emits(1) [OF u(4,6)] u(2,3) "4.prems"(1)] u(1,7) by simp
next
  case (5 i ts e)
  have "\<forall>t \<in> set ts. inC D t \<and> no_empty_union t"
    using inC_children [OF wf "5.prems"(1)] "5.prems"(2) by simp
  then obtain us e1 where g: "encodeTypes ts e = Ok (us, e1)" "emits e e1" "enc_ok e1"
      "list_all2 (twins D (enc_zctx e1)) ts us"
    using "5.IH" "5.prems"(3) by blast
  have wf1: "wf_ctx (enc_zctx e1)" using g(3) by (simp add: enc_ok_def)
  have ne: "us \<noteq> []" using list_all2_lengthD [OF g(4)] "5.prems"(2) by auto
  note tw = twin_union [OF wf wf1 "5.prems"(1) g(4)]
  show ?case using encodes_typedef [OF union_emits [OF wf1 tw(1) ne] g(2,3) "5.prems"(1) tw(2)] g(1) by simp
next
  case (6 i k v e)
  have "encodes D e k (Encode k e)" using "6.IH"(1) "6.prems" inC_children [OF wf "6.prems"(1)] by simp
  then obtain u e1 where u: "Encode k e = Ok (u, e1)" "emits e e1" "enc_ok e1" "wf_ctx (enc_zctx e1)"
      "twins D (enc_zctx e1) k u" "inC (enc_zctx e1) u" "erase u = erase k" by (rule encodesE)
  have "encodes D e1 v (Encode v e1)"
    using "6.IH"(2) [OF u(1) refl _ _ u(3)] "6.prems" inC_children [OF wf "6.prems"(1)] by simp
  then obtain w e2 where w: "Encode v e1 = Ok (w, e2)" "emits e1 e2" "enc_ok e2" "wf_ctx (enc_zctx e2)"
      "twins D (enc_zctx e2) v w" "inC (enc_zctx e2) w" "erase w = erase v" by (rule encodesE)
  have "inC (enc_zctx e2) u" by (rule keeps_inC [OF emits_keeps [OF w(2)] u(6)])
  from encodes_typedef [OF map_emits [OF w(4) this w(6)] emits_trans [OF u(2) w(2)] w(3) "6.prems"(1)]
  show ?case using u(1,7) w(1,7) by simp
next
  case (7 i ss e)
  have wf1: "wf_ctx (enc_zctx e)" using "7.prems"(3) by (simp add: enc_ok_def)
  show ?case
    using encodes_typedef [OF enum_emits [OF wf1 twin_enum [OF wf "7.prems"(1)]] emits_refl "7.prems"(3,1)] wf1 by simp
next
  case (8 i n t e)
  then have "encodes D e t (Encode t e)" using inC_children [OF wf "8.prems"(1)] by simp
  then obtain u e1 where u: "Encode t e = Ok (u, e1)" "emits e e1" "enc_ok e1" "wf_ctx (enc_zctx e1)"
      "twins D (enc_zctx e1) t u" "inC (enc_zctx e1) u" "erase u = erase t" by (rule encodesE)
  show ?case
    using encodes_typedef [OF named_emits [OF u(4,6) twin_named [OF wf u(4) "8.prems"(1) u(6)]] u(2,3) "8.prems"(1)] u(1,7) by simp
next
  case (9 i t e)
  then have "encodes D e t (Encode t e)" using inC_children [OF wf "9.prems"(1)] by simp
  then obtain u e1 where u: "Encode t e = Ok (u, e1)" "emits e e1" "enc_ok e1" "wf_ctx (enc_zctx e1)"
      "twins D (enc_zctx e1) t u" "inC (enc_zctx e1) u" "erase u = erase t" by (rule encodesE)
  show ?case using encodes_typedef [OF error_emits [OF u(4,6)] u(2,3) "9.prems"(1)] u(1,7) by simp
next
  case (10 p e)
  then show ?case using emits_refl [of e e] by (auto simp: encodes_def enc_ok_def twins_def)
next
  case (11 e)
  then show ?case using emits_refl [of e e] by (simp add: enc_ok_def)
next
  case (12 n t fs e)
  have "encodes D e t (Encode t e)" using "12.IH"(1) "12.prems" by simp
  then obtain u e1 where u: "Encode t e = Ok (u, e1)" "emits e e1" "enc_ok e1" "wf_ctx (enc_zctx e1)"
      "twins D (enc_zctx e1) t u" "inC (enc_zctx e1) u" "erase u = erase t" by (rule encodesE)
  obtain gs e2 where g: "encodeFields fs e1 = Ok (gs, e2)" "emits e1 e2" "enc_ok e2" "map fst gs = map fst fs"
      "list_all2 (twins D (enc_zctx e2)) (map snd fs) (map snd gs)"
    using "12.IH"(2) [OF u(1) refl _ u(3)] "12.prems"(1) by auto
  have "twins D (enc_zctx e2) t u" by (rule twins_keeps [OF emits_keeps [OF g(2)] u(5)])
  with u(1) g emits_trans [OF u(2) g(2)] show ?case by simp
next
  case (13 e)
  then show ?case using emits_refl [of e e] by (simp add: enc_ok_def)
next
  case (14 t ts e)
  have "encodes D e t (Encode t e)" using "14.IH"(1) "14.prems" by simp
  then obtain u e1 where u: "Encode t e = Ok (u, e1)" "emits e e1" "enc_ok e1" "wf_ctx (enc_zctx e1)"
      "twins D (enc_zctx e1) t u" "inC (enc_zctx e1) u" "erase u = erase t" by (rule encodesE)
  obtain us e2 where g: "encodeTypes ts e1 = Ok (us, e2)" "emits e1 e2" "enc_ok e2"
      "list_all2 (twins D (enc_zctx e2)) ts us"
    using "14.IH"(2) [OF u(1) refl _ u(3)] "14.prems"(1) by auto
  have "twins D (enc_zctx e2) t u" by (rule twins_keeps [OF emits_keeps [OF g(2)] u(5)])
  with u(1) g emits_trans [OF u(2) g(2)] show ?case by simp
qed

end
