(* ===== verification/ZngStream.thy ===== *)
theory ZngStream
  imports ZngSync Counted
begin

text \<open>
  ZNG streams (\<open>zio/zngio\<close>: \<open>writer.go\<close>, \<open>frame.go\<close>, \<open>parser.go\<close>, \<open>scanner.go\<close>, \<open>sync.go\<close>).
  The writer collects typedefs and values and writes them as frames; the parser reads the frames
  back, and the scanner turns a values frame into values of the shared context.

  Parameters stand for what is not Zed's own code: \<open>sink\<close> is the underlying writer (the error
  that writing the given bytes has, after those written before), \<open>compress\<close> and
  \<open>uncompress\<close> are the block functions of lz4.  A panic of the type encoder, which no type of a context causes, or
  of \<open>compress\<close> is shown as the error \<open>panic\<close>.
\<close>

section \<open>The writer\<close>

record writer =
  w_out :: bytes
  w_position :: nat
  w_flushed :: nat
  w_compressor :: bool
  w_thresh :: int
  w_types :: encoder
  w_values :: bytes

definition NewWriterWithOpts :: "bool \<Rightarrow> int \<Rightarrow> writer" where
  "NewWriterWithOpts cmp thresh =
     \<lparr>w_out = [], w_position = 0, w_flushed = 0, w_compressor = cmp, w_thresh = thresh,
      w_types = NewEncoder, w_values = []\<rparr>"

type_synonym sink = "bytes \<Rightarrow> bytes \<Rightarrow> goerror option"
type_synonym lz4 = "bytes \<Rightarrow> bytes go"

definition Writer_write :: "sink \<Rightarrow> bytes \<Rightarrow> writer \<Rightarrow> goerror option \<times> writer" where
  "Writer_write sink p w =
     (case sink (w_out w) p of
        Some err \<Rightarrow> (Some err, w)
      | None \<Rightarrow> (None, w\<lparr>w_out := w_out w @ p, w_position := w_position w + length p\<rparr>))"

definition header_code :: "nat \<Rightarrow> nat \<Rightarrow> u64" where
  "header_code blockType sz = push_bit 4 (of_nat blockType) OR (of_nat sz AND 0xf)"

definition writeHeader :: "sink \<Rightarrow> nat \<Rightarrow> nat \<Rightarrow> writer \<Rightarrow> goerror option \<times> writer" where
  "writeHeader sink blockType sz w =
     (let header = [ucast (header_code blockType sz)];
          header = appendUvarint header (of_nat (sz div 16))
      in Writer_write sink header w)"

definition writeCompHeader :: "sink \<Rightarrow> nat \<Rightarrow> nat \<Rightarrow> nat \<Rightarrow> writer \<Rightarrow> goerror option \<times> writer" where
  "writeCompHeader sink blockType sz zlen w =
     (let zlen = zlen + 1 + SizeOfUvarint (of_nat sz);
          header = [ucast (header_code blockType zlen OR 0x40)];
          header = appendUvarint header (of_nat (zlen div 16));
          header = header @ [0];
          header = appendUvarint header (of_nat sz)
      in Writer_write sink header w)"

text \<open>A result without bytes says that the block did not get smaller.\<close>

definition writeBlock :: "sink \<Rightarrow> lz4 \<Rightarrow> nat \<Rightarrow> bytes \<Rightarrow> writer \<Rightarrow> goerror option \<times> writer" where
  "writeBlock sink compress blockType b w =
     (let plain = (case writeHeader sink blockType (length b) w of
                     (Some err, w) \<Rightarrow> (Some err, w)
                   | (None, w) \<Rightarrow> Writer_write sink b w)
      in if length b = 0 then (None, w)
         else if w_compressor w then
           (case compress b of
              Err err \<Rightarrow> (Some err, w)
            | Panic \<Rightarrow> (Some (Errorf ''panic''), w)
            | Ok zbuf \<Rightarrow>
                if length zbuf > 0 then
                  (case writeCompHeader sink blockType (length b) (length zbuf) w of
                     (Some err, w) \<Rightarrow> (Some err, w)
                   | (None, w) \<Rightarrow> Writer_write sink zbuf w)
                else plain)
         else plain)"

definition Writer_flush :: "sink \<Rightarrow> lz4 \<Rightarrow> writer \<Rightarrow> goerror option \<times> writer" where
  "Writer_flush sink compress w =
     (case writeBlock sink compress 0 (enc_bytes (w_types w)) w of
        (Some err, w) \<Rightarrow> (None, w)
      | (None, w) \<Rightarrow>
          (case writeBlock sink compress 1 (w_values w) w of
             (Some err, w) \<Rightarrow> (None, w)
           | (None, w) \<Rightarrow> (None, w\<lparr>w_types := Encoder_Flush (w_types w), w_values := []\<rparr>)))"

definition EndStream :: "sink \<Rightarrow> lz4 \<Rightarrow> writer \<Rightarrow> goerror option \<times> writer" where
  "EndStream sink compress w =
     (case Writer_flush sink compress w of
        (Some err, w) \<Rightarrow> (Some err, w)
      | (None, w) \<Rightarrow>
          if w_flushed w \<noteq> w_position w then
            (case Writer_write sink [0xff] w of
               (Some err, w) \<Rightarrow> (Some err, w)
             | (None, w) \<Rightarrow> (None, w\<lparr>w_flushed := w_position w, w_types := Encoder_Reset (w_types w)\<rparr>))
          else (None, w\<lparr>w_types := Encoder_Reset (w_types w)\<rparr>))"

definition Writer_Write :: "sink \<Rightarrow> lz4 \<Rightarrow> zvalue \<Rightarrow> writer \<Rightarrow> goerror option \<times> writer" where
  "Writer_Write sink compress val w =
     (case (case Encoder_Lookup (w_types w) (fst val) of
              Some typ \<Rightarrow> Ok (typ, w_types w)
            | None \<Rightarrow> Encode (fst val) (w_types w)) of
        Err err \<Rightarrow> (Some err, w)
      | Panic \<Rightarrow> (Some (Errorf ''panic''), w)
      | Ok (typ, enc) \<Rightarrow>
          (let w = w\<lparr>w_types := enc, w_values := Append (appendLen (w_values w) (TypeID typ)) (snd val)\<rparr>
           in if int (length (w_values w)) \<ge> w_thresh w \<or> int (length (enc_bytes (w_types w))) \<ge> w_thresh w
              then Writer_flush sink compress w
              else (None, w)))"

definition WriteControl :: "sink \<Rightarrow> lz4 \<Rightarrow> bytes \<Rightarrow> byte \<Rightarrow> writer \<Rightarrow> goerror option \<times> writer" where
  "WriteControl sink compress b format w =
     (case Writer_flush sink compress w of
        (Some err, w) \<Rightarrow> (Some err, w)
      | (None, w) \<Rightarrow> writeBlock sink compress 2 (format # b) w)"

section \<open>Frames\<close>

text \<open>
  The input is the bytes not read yet.  \<open>limit\<close> bounds the buffer of the peeking reader.  How the
  bytes arrive in that buffer is not modelled: at the end of the input its flag \<open>eof\<close> is set, and
  before the end it is not.  (A read of no bytes at the end gives an empty slice as long as the flag is not set.)
\<close>

definition ErrBufferOverflow :: goerror where "ErrBufferOverflow = Errorf ''buffer too big''"
definition ErrTruncated :: goerror where "ErrTruncated = Errorf ''truncated input''"

definition peeker_Read :: "int \<Rightarrow> int \<Rightarrow> bytes \<Rightarrow> (bytes \<times> bytes) go" where
  "peeker_Read limit n b =
     (if n < 0 then Err (Errorf ''peeker: negative length'')
      else if b = [] then Err io_EOF
      else if n > limit then Err ErrBufferOverflow
      else if n > int (length b) then Err ErrTruncated
      else Ok (take (nat n) b, drop (nat n) b))"

definition peeker_ReadByte :: "bytes \<Rightarrow> (byte \<times> bytes) go" where
  "peeker_ReadByte b = (case b of [] \<Rightarrow> Err io_EOF | x # b \<Rightarrow> Ok (x, b))"

text \<open>A frame: the format and the compressed bytes, when it is compressed, and the buffer for
  the uncompressed bytes.\<close>

datatype frame = Uncompressed bytes | Compressed byte bytes nat

definition decompress :: "(bytes \<Rightarrow> nat \<Rightarrow> bytes go) \<Rightarrow> frame \<Rightarrow> bytes go" where
  "decompress uncompress f =
     (case f of
        Uncompressed b \<Rightarrow> Ok b
      | Compressed fmt zbuf sz \<Rightarrow>
          if fmt \<noteq> 0 then Err (Errorf ''zngio: unknown compression format'')
          else bindR (uncompress zbuf sz) (\<lambda>b.
               if length b \<noteq> sz then Err (Errorf ''zngio: got uncompressed bytes, expected'') else Ok b))"

definition parser_decodeLength :: "byte \<Rightarrow> bytes \<Rightarrow> (int \<times> bytes) go" where
  "parser_decodeLength code b =
     bindR (ReadUvarint b) (\<lambda>(v, b). Ok (sint (push_bit 4 v OR (ucast code AND 0xf)), b))"

definition readFrame :: "int \<Rightarrow> byte \<Rightarrow> bytes \<Rightarrow> (bytes \<times> bytes) go" where
  "readFrame maxSize code b =
     bindR (parser_decodeLength code b) (\<lambda>(sz, b).
     if sz > maxSize then Err (Errorf ''zngio: frame length exceeds maximum allowed'')
     else peeker_Read maxSize sz b)"

definition readCompressedFrame :: "int \<Rightarrow> byte \<Rightarrow> bytes \<Rightarrow> (frame \<times> bytes) go" where
  "readCompressedFrame maxSize code b =
     bindR (parser_decodeLength code b) (\<lambda>(n, b).
     bindR (peeker_ReadByte b) (\<lambda>(format, b).
     bindR (ReadUvarint b) (\<lambda>(u, b).
     let sz = sint u in
     if sz > maxSize then Err (Errorf ''zngio: frame length exceeds maximum allowed'')
     else (let n = wrap64 (n - (1 + int (SizeOfUvarint u))) in
       case peeker_Read maxSize n b of
         Ok (z, b) \<Rightarrow> if sz < 0 then Panic else Ok (Compressed format z (nat sz), b)
       | Err err \<Rightarrow>
           if err = io_EOF then (if sz < 0 then Panic else Ok (Compressed format [] (nat sz), b))
           else if err = ErrBufferOverflow then Err (Errorf ''large value exceeds maximum read buffer'')
           else Err errBadFormat
       | Panic \<Rightarrow> Panic))))"

section \<open>The parser\<close>

definition parser_decodeTypes ::
    "(bytes \<Rightarrow> nat \<Rightarrow> bytes go) \<Rightarrow> int \<Rightarrow> byte \<Rightarrow> decoder \<Rightarrow> bytes \<Rightarrow> (decoder \<times> bytes) go" where
  "parser_decodeTypes uncompress maxSize code d b =
     (if code AND 0x40 \<noteq> 0 then
        bindR (readCompressedFrame maxSize code b) (\<lambda>(f, b).
        bindR (decompress uncompress f) (\<lambda>u.
        bindR (Decoder_decode d u) (\<lambda>d. Ok (d, b))))
      else
        bindR (readFrame maxSize code b) (\<lambda>(u, b).
        bindR (Decoder_decode d u) (\<lambda>d. Ok (d, b))))"

definition decodeValues :: "int \<Rightarrow> byte \<Rightarrow> bytes \<Rightarrow> (frame \<times> bytes) go" where
  "decodeValues maxSize code b =
     (if code AND 0x40 \<noteq> 0 then readCompressedFrame maxSize code b
      else bindR (readFrame maxSize code b) (\<lambda>(u, b). Ok (Uncompressed u, b)))"

datatype parsed = ValuesFrame frame | ControlMessage byte bytes

definition decodeControl ::
    "(bytes \<Rightarrow> nat \<Rightarrow> bytes go) \<Rightarrow> int \<Rightarrow> byte \<Rightarrow> bytes \<Rightarrow> (parsed \<times> bytes) go" where
  "decodeControl uncompress maxSize code b =
     bindR (if code AND 0x40 = 0 then readFrame maxSize code b
            else bindR (readCompressedFrame maxSize code b) (\<lambda>(f, b).
                 bindR (decompress uncompress f) (\<lambda>u. Ok (u, b))))
       (\<lambda>(bs, b). case bs of [] \<Rightarrow> Err errBadFormat | format # msg \<Rightarrow> Ok (ControlMessage format msg, b))"

lemma peeker_Read_len: "peeker_Read limit n b = Ok (x, b') \<Longrightarrow> length b' \<le> length b"
  by (auto simp: peeker_Read_def split: if_splits)

lemma decodeLength_len: "parser_decodeLength code b = Ok (n, b') \<Longrightarrow> length b' \<le> length b"
  by (auto simp: parser_decodeLength_def go_inv dest: ReadUvarint_len)

lemma readFrame_len: "readFrame mx code b = Ok (x, b') \<Longrightarrow> length b' \<le> length b"
  by (fastforce simp: readFrame_def go_inv split: if_splits dest: decodeLength_len peeker_Read_len)

lemma readCompressedFrame_len: "readCompressedFrame mx code b = Ok (f, b') \<Longrightarrow> length b' \<le> length b"
  by (fastforce simp: readCompressedFrame_def peeker_ReadByte_def go_inv Let_def split: if_splits list.splits result.splits
      dest: decodeLength_len peeker_Read_len ReadUvarint_len)

lemma decodeTypes_len: "parser_decodeTypes unc mx code d b = Ok (d', b') \<Longrightarrow> length b' \<le> length b"
  by (fastforce simp: parser_decodeTypes_def go_inv split: if_splits dest: readFrame_len readCompressedFrame_len)

function parser_read ::
    "(bytes \<Rightarrow> nat \<Rightarrow> bytes go) \<Rightarrow> int \<Rightarrow> decoder \<Rightarrow> bytes \<Rightarrow> (parsed \<times> decoder \<times> bytes) go" where
  "parser_read uncompress maxSize d b =
     (case b of
        [] \<Rightarrow> Err io_EOF
      | code # b \<Rightarrow>
          if code = 0xff then parser_read uncompress maxSize (Decoder_reset d) b
          else if code AND 0x80 \<noteq> 0 then Err (Errorf ''zngio: encountered wrong version bit in framing'')
          else if drop_bit 4 code AND 3 = 0 then
            bindR (parser_decodeTypes uncompress maxSize code d b) (\<lambda>(d, b). parser_read uncompress maxSize d b)
          else if drop_bit 4 code AND 3 = 1 then
            bindR (decodeValues maxSize code b) (\<lambda>(f, b). Ok (ValuesFrame f, d, b))
          else if drop_bit 4 code AND 3 = 2 then
            bindR (decodeControl uncompress maxSize code b) (\<lambda>(p, b). Ok (p, d, b))
          else Err (Errorf ''unknown ZNG message frame type''))"
  by pat_completeness auto
termination
  by (relation "measure (\<lambda>(_, _, _, b). length b)") (auto dest!: decodeTypes_len)

declare parser_read.simps [simp del]

section \<open>Values\<close>

definition ReadTag :: "bytes \<Rightarrow> (int \<times> bytes) go" where
  "ReadTag b =
     bindR (ReadUvarint b) (\<lambda>(u, b).
     if tagIsNull u then Ok (-1, b) else bindR (tagLength u) (\<lambda>n. Ok (n, b)))"

definition decodeVal :: "mapper \<Rightarrow> mapper_cache \<Rightarrow> bytes \<Rightarrow> (zvalue \<times> mapper_cache \<times> bytes) go" where
  "decodeVal m cache b =
     bindR (readUvarintAsInt b) (\<lambda>(i, b).
     bindR (orBad (ReadTag b)) (\<lambda>(n, b).
     bindR (if n = 0 then Ok (Some [], b)
            else if n > 0 then
              bindR (buffer_read n b) (\<lambda>(v, err, b). if err = ErrUnexpectedEOF then Err errBadFormat else Ok (v, b))
            else Ok (None, b)) (\<lambda>(v, b).
     bindR (MapperLookupCache_Lookup m i cache) (\<lambda>(t, cache).
     case t of
       None \<Rightarrow> Err (Errorf ''zngio: type ID not in context'')
     | Some typ \<Rightarrow> Ok ((typ, v), cache, b)))))"

lemma ReadUvarint_less: "ReadUvarint b = Ok (u, b') \<Longrightarrow> length b' < length b"
  by (cases b) (auto simp: ReadUvarint_def uvarint_def split: prod.splits if_splits)

lemma readUvarintAsInt_less: "readUvarintAsInt b = Ok (i, b') \<Longrightarrow> length b' < length b"
  by (auto simp: readUvarintAsInt_def go_inv dest: ReadUvarint_less)

lemma ReadTag_len: "ReadTag b = Ok (n, b') \<Longrightarrow> length b' \<le> length b"
  by (auto simp: ReadTag_def go_inv split: if_splits dest: ReadUvarint_len)

lemma decodeVal_less: "decodeVal m cache b = Ok (v, cache', b') \<Longrightarrow> length b' < length b"
  by (auto simp: decodeVal_def go_inv split: if_splits option.splits
      dest!: readUvarintAsInt_less ReadTag_len buffer_read_len)

text \<open>The loop of \<open>scanBatch\<close>; \<open>want\<close> is the filter.\<close>

function (sequential) scanLoop ::
    "(zvalue \<Rightarrow> bool) \<Rightarrow> mapper \<Rightarrow> mapper_cache \<Rightarrow> bytes \<Rightarrow> zvalue list \<Rightarrow> zvalue list go" where
  "scanLoop want m cache [] vals = Ok vals"
| "scanLoop want m cache b vals =
     bindR (decodeVal m cache b) (\<lambda>(v, cache', b').
     scanLoop want m cache' b' (if want v then vals @ [v] else vals))"
  by pat_completeness auto
termination
  by (relation "measure (\<lambda>(_, _, _, b, _). length b)") (auto dest: decodeVal_less)

definition scanBatch ::
    "(ctx \<Rightarrow> bytes \<Rightarrow> bool) option \<Rightarrow> (zvalue \<Rightarrow> bool) \<Rightarrow> bytes \<Rightarrow> decoder \<Rightarrow> zvalue list option go" where
  "scanBatch bufferFilter want b d =
     (case bufferFilter of
        Some bf \<Rightarrow>
          if \<not> bf (local_zctx d) b then Ok None
          else bindR (scanLoop want (local_mapper d) [] b []) (\<lambda>vals. Ok (if vals = [] then None else Some vals))
      | None \<Rightarrow> bindR (scanLoop want (local_mapper d) [] b []) (\<lambda>vals. Ok (if vals = [] then None else Some vals)))"

end
