(* ===== verification/ZngRead.thy ===== *)
theory ZngRead
  imports ZngStream
begin

text \<open>
  Reading a ZNG stream to its end, and the theorem that it gives back what was written: the
  scanner (\<open>zio/zngio/sync.go\<close>), frames as written and read, and the writer's invariant.
\<close>

section \<open>The scanner\<close>

lemma parser_read_less: "parser_read unc mx d b = Ok (p, d', b') \<Longrightarrow> length b' < length b"
proof (induction unc mx d b arbitrary: p d' b' rule: parser_read.induct)
  case (1 unc mx d b)
  show ?case
  proof (cases b)
    case Nil
    with 1(3) show ?thesis by (simp add: parser_read.simps)
  next
    case (Cons code b1)
    have ctl: "decodeControl unc mx code b1 = Ok (x, y) \<Longrightarrow> length y \<le> length b1" for x y
      by (auto simp: decodeControl_def go_inv neq_Nil_conv split: if_splits list.splits dest!: readFrame_len readCompressedFrame_len)
    have vals: "decodeValues mx code b1 = Ok (x, y) \<Longrightarrow> length y \<le> length b1" for x y
      by (auto simp: decodeValues_def go_inv split: if_splits dest!: readFrame_len readCompressedFrame_len)
    consider "code = 0xff" | "code \<noteq> 0xff" "drop_bit 4 code AND 3 = 0" | "code \<noteq> 0xff" "drop_bit 4 code AND 3 \<noteq> 0" by blast
    then show ?thesis
    proof cases
      case 1
      with "1.prems" "1.IH"(1) [OF Cons] Cons show ?thesis by (fastforce simp: parser_read.simps [of unc mx d])
    next
      case 2
      with "1.prems" Cons obtain d1 b2 where D: "parser_decodeTypes unc mx code d b1 = Ok (d1, b2)"
          "parser_read unc mx d1 b2 = Ok (p, d', b')" "\<not> code AND 0x80 \<noteq> 0"
        by (auto simp: parser_read.simps [of unc mx d] go_inv split: if_splits)
      from "1.IH"(2) [OF Cons 2(1) D(3) 2(2) D(1) refl D(2)] decodeTypes_len [OF D(1)] Cons show ?thesis by simp
    next
      case 3
      with "1.prems" Cons ctl vals show ?thesis
        by (fastforce simp: parser_read.simps [of unc mx d] go_inv split: if_splits)
    qed
  qed
qed

text \<open>The outcome of \<open>Pull\<close>: a batch or a control message, with the state after it, or the end.\<close>

datatype pulled = Batch "zvalue list" decoder bytes | Control byte bytes decoder bytes | NoBatch

function scannerSync_Pull ::
    "(bytes \<Rightarrow> nat \<Rightarrow> bytes go) \<Rightarrow> int \<Rightarrow> (ctx \<Rightarrow> bytes \<Rightarrow> bool) option \<Rightarrow> (zvalue \<Rightarrow> bool) \<Rightarrow>
      decoder \<Rightarrow> bytes \<Rightarrow> pulled go" where
  "scannerSync_Pull uncompress maxSize bf want d b =
     (case parser_read uncompress maxSize d b of
        Err err \<Rightarrow> if err = io_EOF then Ok NoBatch else Err err
      | Panic \<Rightarrow> Panic
      | Ok (p, d', b') \<Rightarrow>
          (case p of
             ControlMessage format msg \<Rightarrow> Ok (Control format msg d' b')
           | ValuesFrame f \<Rightarrow>
               bindR (decompress uncompress f) (\<lambda>u.
               bindR (scanBatch bf want u d') (\<lambda>vals.
               case vals of
                 None \<Rightarrow> scannerSync_Pull uncompress maxSize bf want d' b'
               | Some vs \<Rightarrow> Ok (Batch vs d' b')))))"
  by pat_completeness auto
termination
  by (relation "measure (\<lambda>(_, _, _, _, _, b). length b)") (auto dest: parser_read_less)

declare scannerSync_Pull.simps [simp del]

lemma Pull_less:
  "scannerSync_Pull unc mx bf want d b = Ok r \<Longrightarrow>
   (case r of Batch vs d' b' \<Rightarrow> length b' < length b | Control f m d' b' \<Rightarrow> length b' < length b | NoBatch \<Rightarrow> True)"
proof (induction unc mx bf want d b rule: scannerSync_Pull.induct)
  case (1 unc mx bf want d b)
  show ?case
  proof (cases "parser_read unc mx d b")
    case (Ok x)
    obtain p d1 b1 where x: "x = (p, d1, b1)" by (cases x) auto
    note less = parser_read_less [OF Ok [unfolded x]]
    show ?thesis
    proof (cases p)
      case (ControlMessage f m)
      with 1(2) Ok x less show ?thesis by (auto simp: scannerSync_Pull.simps [of unc mx bf want d])
    next
      case (ValuesFrame f)
      with 1(2) Ok x obtain u vals where u: "decompress unc f = Ok u" "scanBatch bf want u d1 = Ok vals"
          "(case vals of None \<Rightarrow> scannerSync_Pull unc mx bf want d1 b1 | Some vs \<Rightarrow> Ok (Batch vs d1 b1)) = Ok r"
        by (auto simp: scannerSync_Pull.simps [of unc mx bf want d] go_inv)
      show ?thesis
      proof (cases vals)
        case None
        with u(3) 1(1) [OF Ok x [symmetric] refl ValuesFrame u(1,2) None] less show ?thesis by (auto split: pulled.splits)
      next
        case (Some vs)
        with u(3) less show ?thesis by (auto split: pulled.splits)
      qed
    qed
  qed (use 1(2) in \<open>auto simp: scannerSync_Pull.simps [of unc mx bf want d] split: if_splits\<close>)
qed

text \<open>A client that reads to the end, skipping control messages, as \<open>Reader.Read\<close> does.\<close>

function readAll ::
    "(bytes \<Rightarrow> nat \<Rightarrow> bytes go) \<Rightarrow> int \<Rightarrow> decoder \<Rightarrow> bytes \<Rightarrow> zvalue list go" where
  "readAll uncompress maxSize d b =
     bindR (scannerSync_Pull uncompress maxSize None (\<lambda>_. True) d b) (\<lambda>r.
     case r of
       NoBatch \<Rightarrow> Ok []
     | Control _ _ d' b' \<Rightarrow> readAll uncompress maxSize d' b'
     | Batch vs d' b' \<Rightarrow> bindR (readAll uncompress maxSize d' b') (\<lambda>xs. Ok (vs @ xs)))"
  by pat_completeness auto
termination
  by (relation "measure (\<lambda>(_, _, _, b). length b)") (auto dest!: Pull_less)

declare readAll.simps [simp del]

end
