(* ===== verification/ZngFrames.thy ===== *)
theory ZngFrames
  imports ZngRead
begin

text \<open>
  Frames as written and read: a block of bytes that the writer writes is read back by the
  parser, compressed or not.
\<close>

section \<open>Frame headers\<close>

lemma low_nibble: "(of_nat n :: u64) AND 0xf = of_nat (n mod 16)"
proof -
  have "(of_nat n :: u64) AND mask 4 = of_nat (take_bit 4 n)"
    by (simp only: take_bit_eq_mask [symmetric] take_bit_of_nat)
  then show ?thesis by (simp add: take_bit_eq_mod mask_eq_exp_minus_1)
qed

lemma less_16: "m < 16 \<Longrightarrow> m = 0 \<or> m = 1 \<or> m = 2 \<or> m = 3 \<or> m = 4 \<or> m = 5 \<or> m = 6 \<or> m = 7 \<or>
    m = 8 \<or> m = 9 \<or> m = 10 \<or> m = 11 \<or> m = 12 \<or> m = 13 \<or> m = 14 \<or> m = (15 :: nat)"
  by arith

lemma header_bits:
  assumes "bt = 0 \<or> bt = 1 \<or> bt = (2 :: nat)" "m < 16"
  shows "\<And>c. c = (ucast (push_bit 4 (of_nat bt) OR of_nat m :: u64) :: byte) \<Longrightarrow>
      c \<noteq> 0xff \<and> c AND 0x80 = 0 \<and> drop_bit 4 c AND 3 = of_nat bt \<and> c AND 0x40 = 0 \<and> (ucast c AND 0xf :: u64) = of_nat m"
    "\<And>c. c = (ucast ((push_bit 4 (of_nat bt) OR of_nat m) OR 0x40 :: u64) :: byte) \<Longrightarrow>
      c \<noteq> 0xff \<and> c AND 0x80 = 0 \<and> drop_bit 4 c AND 3 = of_nat bt \<and> c AND 0x40 \<noteq> 0 \<and> (ucast c AND 0xf :: u64) = of_nat m"
  using assms(1) less_16 [OF assms(2)] by (elim disjE; simp)+

definition plainCode :: "nat \<Rightarrow> nat \<Rightarrow> byte" where
  "plainCode bt n = ucast (header_code bt n)"

definition compCode :: "nat \<Rightarrow> nat \<Rightarrow> byte" where
  "compCode bt n = ucast (header_code bt n OR 0x40)"

lemma plainCode_bits:
  assumes "bt = 0 \<or> bt = 1 \<or> bt = (2 :: nat)"
  shows "plainCode bt n \<noteq> 0xff" "plainCode bt n AND 0x80 = 0" "drop_bit 4 (plainCode bt n) AND 3 = of_nat bt"
    "plainCode bt n AND 0x40 = 0" "(ucast (plainCode bt n) AND 0xf :: u64) = of_nat (n mod 16)"
  using header_bits(1) [OF assms, of "n mod 16" "plainCode bt n"] by (simp_all add: plainCode_def header_code_def low_nibble)

lemma compCode_bits:
  assumes "bt = 0 \<or> bt = 1 \<or> bt = (2 :: nat)"
  shows "compCode bt n \<noteq> 0xff" "compCode bt n AND 0x80 = 0" "drop_bit 4 (compCode bt n) AND 3 = of_nat bt"
    "compCode bt n AND 0x40 \<noteq> 0" "(ucast (compCode bt n) AND 0xf :: u64) = of_nat (n mod 16)"
  using header_bits(2) [OF assms, of "n mod 16" "compCode bt n"] by (simp_all add: compCode_def header_code_def low_nibble)

lemma nibble_join:
  assumes "n < 2 ^ 62"
  shows "push_bit 4 (of_nat (n div 16) :: u64) OR of_nat (n mod 16) = of_nat n"
proof -
  have "unat (drop_bit 4 (of_nat n :: u64)) = unat (of_nat (n div 16) :: u64)"
    using assms order_le_less_trans [OF div_le_dividend assms, of 16]
    by (simp add: unat_drop_bit_u64 unat_of_nat)
  then have "(of_nat (n div 16) :: u64) = drop_bit 4 (of_nat n)" by (metis word_unat_eq_iff)
  moreover have "(of_nat (n mod 16) :: u64) = take_bit 4 (of_nat n)"
    unfolding take_bit_of_nat by (simp add: take_bit_nat_def)
  moreover have "push_bit 4 (drop_bit 4 w) OR take_bit 4 w = w" for w :: u64
    by (rule bit_eqI) (auto simp: bit_or_iff bit_push_bit_iff bit_drop_bit_eq bit_take_bit_iff)
  ultimately show ?thesis by metis
qed

lemma decodeLength_emit:
  assumes "n < 2 ^ 62" "(ucast code AND 0xf :: u64) = of_nat (n mod 16)"
  shows "parser_decodeLength code (emitLen (n div 16) @ rest) = Ok (int n, rest)"
  using nibble_join [OF assms(1)] sint_of_nat_small [of n] assms
  by (simp add: parser_decodeLength_def emitLen_def ReadUvarint_emit)

section \<open>Blocks\<close>

definition plainBlock :: "nat \<Rightarrow> bytes \<Rightarrow> bytes" where
  "plainBlock bt b = plainCode bt (length b) # emitLen (length b div 16) @ b"

definition compLen :: "bytes \<Rightarrow> bytes \<Rightarrow> nat" where
  "compLen b z = length z + 1 + SizeOfUvarint (of_nat (length b))"

definition compBlock :: "nat \<Rightarrow> bytes \<Rightarrow> bytes \<Rightarrow> bytes" where
  "compBlock bt b z = compCode bt (compLen b z) # emitLen (compLen b z div 16) @ 0 # emitLen (length b) @ z"

lemma len_bound: "int n \<le> mx \<Longrightarrow> mx < 2 ^ k \<Longrightarrow> n < 2 ^ k"
  by (metis of_nat_less_iff of_nat_numeral of_nat_power order_le_less_trans)

lemma readFrame_block:
  assumes "bt = 0 \<or> bt = 1 \<or> bt = 2" "b \<noteq> []" "int (length b) \<le> mx" "mx < 2 ^ 62"
  shows "readFrame mx (plainCode bt (length b)) (emitLen (length b div 16) @ b @ rest) = Ok (b, rest)"
proof -
  have "length b < 2 ^ 62" by (rule len_bound [OF assms(3,4)])
  then show ?thesis
    using decodeLength_emit [OF _ plainCode_bits(5) [OF assms(1), of "length b"]] assms(2,3)
    by (simp add: readFrame_def peeker_Read_def)
qed

lemma readCompressedFrame_block:
  assumes "bt = 0 \<or> bt = 1 \<or> bt = 2" "z \<noteq> []" "length z \<le> length b" "int (length b) \<le> mx" "mx < 2 ^ 61"
  shows "readCompressedFrame mx (compCode bt (compLen b z))
      (emitLen (compLen b z div 16) @ 0 # emitLen (length b) @ z @ rest) = Ok (Compressed 0 z (length b), rest)"
proof -
  have len: "length b < 2 ^ 61" by (rule len_bound [OF assms(4,5)])
  then have len63: "length b < 2 ^ 63" by simp
  have s: "SizeOfUvarint (of_nat (length b)) \<le> 10"
    using length_appendUvarint_le [of "of_nat (length b)"] by (simp add: SizeOfUvarint_length)
  have c: "compLen b z < 2 ^ 62" using len s assms(3) by (simp add: compLen_def)
  have w: "wrap64 (int (compLen b z) - (1 + int (SizeOfUvarint (of_nat (length b))))) = int (length z)"
    using len assms(3) by (simp add: compLen_def wrap64_id)
  show ?thesis
    using decodeLength_emit [OF c compCode_bits(5) [OF assms(1)]] assms(2,3,4) w sint_of_nat_small [OF len63]
    by (simp add: readCompressedFrame_def peeker_ReadByte_def emitLen_def ReadUvarint_emit Let_def peeker_Read_def)
qed

text \<open>What lz4 promises: a block that is compressed is no longer than the input and
  uncompresses to it.\<close>

definition lz4_ok :: "lz4 \<Rightarrow> (bytes \<Rightarrow> nat \<Rightarrow> bytes go) \<Rightarrow> bool" where
  "lz4_ok compress uncompress \<longleftrightarrow>
     (\<forall>b. \<exists>z. compress b = Ok z \<and> (z \<noteq> [] \<longrightarrow> length z \<le> length b \<and> uncompress z (length b) = Ok b))"

text \<open>The bytes of a block.\<close>

definition block :: "lz4 \<Rightarrow> bool \<Rightarrow> nat \<Rightarrow> bytes \<Rightarrow> bytes" where
  "block compress cmp bt b =
     (if b = [] then []
      else case compress b of Ok z \<Rightarrow> if cmp \<and> z \<noteq> [] then compBlock bt b z else plainBlock bt b
           | _ \<Rightarrow> plainBlock bt b)"

definition no_fail :: sink where
  "no_fail out p = None"

lemma writeBlock_block:
  assumes "lz4_ok compress uncompress"
  shows "writeBlock no_fail compress bt b w =
    (None, w\<lparr>w_out := w_out w @ block compress (w_compressor w) bt b,
             w_position := w_position w + length (block compress (w_compressor w) bt b)\<rparr>)"
proof -
  obtain z where z: "compress b = Ok z" using assms by (auto simp: lz4_ok_def)
  have "writeHeader no_fail bt (length b) w = (None, w\<lparr>w_out := w_out w @ plainCode bt (length b) # emitLen (length b div 16),
      w_position := w_position w + length (plainCode bt (length b) # emitLen (length b div 16))\<rparr>)"
    by (simp add: writeHeader_def Writer_write_def no_fail_def appendUvarint_emitLen plainCode_def)
  moreover have "writeCompHeader no_fail bt (length b) (length z) w =
      (None, w\<lparr>w_out := w_out w @ compCode bt (compLen b z) # emitLen (compLen b z div 16) @ 0 # emitLen (length b),
        w_position := w_position w + length (compCode bt (compLen b z) # emitLen (compLen b z div 16) @ 0 # emitLen (length b))\<rparr>)"
    by (simp add: writeCompHeader_def Writer_write_def no_fail_def appendUvarint_emitLen compCode_def compLen_def Let_def)
  ultimately show ?thesis
    using z by (simp add: writeBlock_def block_def Writer_write_def no_fail_def plainBlock_def compBlock_def Let_def)
qed

lemma plain_or_comp:
  assumes "lz4_ok compress uncompress" "b \<noteq> []"
  obtains "block compress cmp bt b = plainBlock bt b"
  | z where "block compress cmp bt b = compBlock bt b z" "z \<noteq> []" "length z \<le> length b" "uncompress z (length b) = Ok b"
proof -
  obtain z where "compress b = Ok z" "z \<noteq> [] \<longrightarrow> length z \<le> length b \<and> uncompress z (length b) = Ok b"
    using assms(1) unfolding lz4_ok_def by blast
  with assms(2) that show thesis by (cases "cmp \<and> z \<noteq> []") (auto simp: block_def)
qed

text \<open>Reading a block of each type.\<close>

lemma parser_read_types:
  assumes "lz4_ok compress uncompress" "b \<noteq> []" "int (length b) \<le> mx" "mx < 2 ^ 61" "Decoder_decode d b = Ok d'"
  shows "parser_read uncompress mx d (block compress cmp 0 b @ rest) = parser_read uncompress mx d' rest"
proof (cases rule: plain_or_comp [OF assms(1,2), of cmp 0])
  case 1
  note bits = plainCode_bits [of 0 "length b", simplified]
  show ?thesis
    using readFrame_block [of 0 b mx rest] assms 1 bits
    by (simp add: parser_read.simps [of uncompress mx d] plainBlock_def parser_decodeTypes_def)
next
  case (2 z)
  note bits = compCode_bits [of 0 "compLen b z", simplified]
  show ?thesis
    using readCompressedFrame_block [of 0 z b mx rest] assms 2 bits
    by (simp add: parser_read.simps [of uncompress mx d] compBlock_def parser_decodeTypes_def decompress_def)
qed

lemma parser_read_plain:
  assumes "b \<noteq> []" "int (length b) \<le> mx" "mx < 2 ^ 61"
  shows "parser_read uncompress mx d (plainBlock 1 b @ rest) = Ok (ValuesFrame (Uncompressed b), d, rest)"
  using readFrame_block [of 1 b mx rest] assms plainCode_bits [of 1 "length b", simplified]
  by (simp add: parser_read.simps [of uncompress mx d] plainBlock_def decodeValues_def)

lemma parser_read_values:
  assumes "lz4_ok compress uncompress" "b \<noteq> []" "int (length b) \<le> mx" "mx < 2 ^ 61"
  shows "\<exists>f. parser_read uncompress mx d (block compress cmp 1 b @ rest) = Ok (ValuesFrame f, d, rest) \<and>
    decompress uncompress f = Ok b"
proof (cases rule: plain_or_comp [OF assms(1,2), of cmp 1])
  case 1
  then show ?thesis using parser_read_plain [OF assms(2,3)] assms(4) by (simp add: decompress_def)
next
  case (2 z)
  note bits = compCode_bits [of 1 "compLen b z", simplified]
  show ?thesis
    using readCompressedFrame_block [of 1 z b mx rest] assms 2 bits
    by (simp add: parser_read.simps [of uncompress mx d] compBlock_def decodeValues_def decompress_def)
qed

end
