(* ===== verification/ZngRound.thy ===== *)
theory ZngRound
  imports ZngFrames
begin

text \<open>
  What is written to a ZNG stream is read back: the invariant of a writer says that a reader of
  the bytes written so far has the values that were flushed and is in step with the context at
  the last flush, and that the two buffers are the typedefs since then and the values since then.
\<close>

section \<open>Values\<close>

text \<open>The same value in another context: the same bytes, and a type of the same structure.\<close>

definition same :: "zvalue \<Rightarrow> zvalue \<Rightarrow> bool" where
  "same v u \<longleftrightarrow> snd u = snd v \<and> erase (fst u) = erase (fst v)"

lemma same_trans: "list_all2 same xs ys \<Longrightarrow> list_all2 same ys zs \<Longrightarrow> list_all2 same xs zs"
  by (rule list_all2_trans [of same same same]) (auto simp: same_def)

definition emitV :: "zvalue \<Rightarrow> bytes" where
  "emitV v = emitLen (TypeID (fst v)) @ Append [] (snd v)"

lemma Mapper_Lookup_in_step:
  assumes "in_step c d" "inC c t"
  obtains u where "Mapper_Lookup (local_mapper d) (int (TypeID t)) = Some u" "erase u = erase t"
proof (cases "isPrim t")
  case True
  then obtain p where "t = TypePrimitive p" by (cases t) simp_all
  then show thesis using that [of t]
    by (cases p) (simp_all add: Mapper_Lookup_def TypeID_def IDTypeComplex_def LookupPrimitiveByID_def)
next
  case False
  with assms(2) have t: "t \<in> types c" by (simp add: inC_def)
  have wf: "wf_ctx c" using assms(1) by (simp add: in_step_def)
  obtain u where "entry (local_mapper d) (TypeID t) = Some u" "twins c (dec_zctx d) t u"
    using assms(1) t by (auto simp: in_step_def)
  then show thesis
    using that [of u] types_TypeID [OF wf_typesD(1) [OF wf_ctxD(1) [OF wf]] t] by (simp add: Mapper_Lookup_entry twins_def)
qed

lemma ReadTag_Append:
  "small v \<Longrightarrow> ReadTag (Append [] (Some v) @ rest) = Ok (int (length v), v @ rest)"
  "ReadTag (Append [] None @ rest) = Ok (-1, rest)"
  using ReadUvarint_emit [of 0 rest]
  by (simp_all add: ReadTag_def Append_def ReadUvarint_emit tagIsNull_def tagLength_def toTag_facts tagNull_def)

lemma decodeVal_emit:
  assumes st: "in_step c d" and t: "inC c (fst v)" and len: "length (byID c) < 2 ^ 62"
    and cache: "cache_ok (local_mapper d) cache" and sv: "\<And>b. snd v = Some b \<Longrightarrow> small b"
  shows "\<exists>u cache'. decodeVal (local_mapper d) cache (emitV v @ rest) = Ok (u, cache', rest) \<and>
      cache_ok (local_mapper d) cache' \<and> same v u"
proof -
  have wf: "wf_ctx c" using st by (simp add: in_step_def)
  obtain t' where t': "Mapper_Lookup (local_mapper d) (int (TypeID (fst v))) = Some t'" "erase t' = erase (fst v)"
    using Mapper_Lookup_in_step [OF st t] by blast
  obtain cache' where c': "MapperLookupCache_Lookup (local_mapper d) (int (TypeID (fst v))) cache = Ok (Some t', cache')"
      "cache_ok (local_mapper d) cache'"
    using MapperLookupCache_transparent [OF cache] t'(1) by metis
  note id = readUvarintAsInt_emit [OF TypeID_bound [OF wf t len]]
  show ?thesis
  proof (cases "snd v")
    case None
    then show ?thesis using t'(2) c' by (simp add: emitV_def decodeVal_def id ReadTag_Append orBad_def same_def)
  next
    case (Some b)
    then show ?thesis using t'(2) c' sv [OF Some]
      by (auto simp: emitV_def decodeVal_def id ReadTag_Append orBad_def buffer_read_def same_def)
  qed
qed

lemma emitV_nonempty: "emitV v \<noteq> []"
proof
  assume "emitV v = []"
  then have "emitLen (TypeID (fst v)) = []" by (simp add: emitV_def)
  then show False using ReadUvarint_less [OF ReadUvarint_emit [of "of_nat (TypeID (fst v))" "[]"]] by (simp add: emitLen_def)
qed

lemma scanLoop_emit:
  assumes st: "in_step c d" and len: "length (byID c) < 2 ^ 62"
  shows "\<forall>v \<in> set vs. inC c (fst v) \<and> (\<forall>b. snd v = Some b \<longrightarrow> small b) \<Longrightarrow> cache_ok (local_mapper d) cache \<Longrightarrow>
    \<exists>us. scanLoop (\<lambda>_. True) (local_mapper d) cache (concat (map emitV vs)) acc = Ok (acc @ us) \<and> list_all2 same vs us"
proof (induction vs arbitrary: cache acc)
  case (Cons v vs)
  obtain u cache' where u: "decodeVal (local_mapper d) cache (emitV v @ concat (map emitV vs)) = Ok (u, cache', concat (map emitV vs))"
      "cache_ok (local_mapper d) cache'" "same v u"
    using decodeVal_emit [OF st _ len Cons.prems(2), of v "concat (map emitV vs)"] Cons.prems(1) by auto
  obtain us where "scanLoop (\<lambda>_. True) (local_mapper d) cache' (concat (map emitV vs)) (acc @ [u]) = Ok (acc @ u # us)" "list_all2 same vs us"
    using Cons.IH [OF _ u(2), of "acc @ [u]"] Cons.prems(1) by auto
  moreover obtain x xs where "emitV v = x # xs" using emitV_nonempty [of v] by (cases "emitV v") auto
  ultimately show ?case using u by auto
qed simp

section \<open>Reading\<close>

definition prepend :: "zvalue list \<Rightarrow> zvalue list go \<Rightarrow> zvalue list go" where
  "prepend us r = bindR r (\<lambda>xs. Ok (us @ xs))"

lemma prepend_simps [simp]: "prepend us (Ok xs) = Ok (us @ xs)" "prepend [] r = r" "prepend us (prepend vs r) = prepend (us @ vs) r"
  by (cases r; simp add: prepend_def)+

text \<open>A reader at \<open>d\<close> that reads the bytes \<open>b\<close> has the values \<open>us\<close> and goes on at \<open>d'\<close>.\<close>

definition reads :: "(bytes \<Rightarrow> nat \<Rightarrow> bytes go) \<Rightarrow> int \<Rightarrow> decoder \<Rightarrow> bytes \<Rightarrow> zvalue list \<Rightarrow> decoder \<Rightarrow> bool" where
  "reads uncompress mx d b us d' \<longleftrightarrow> (\<forall>rest. readAll uncompress mx d (b @ rest) = prepend us (readAll uncompress mx d' rest))"

lemma reads_refl: "reads unc mx d [] [] d"
  by (simp add: reads_def)

lemma reads_trans: "reads unc mx d b us d1 \<Longrightarrow> reads unc mx d1 b' us' d2 \<Longrightarrow> reads unc mx d (b @ b') (us @ us') d2"
  by (simp add: reads_def)

lemma Pull_cong: "parser_read unc mx d b = parser_read unc mx d' b' \<Longrightarrow>
    scannerSync_Pull unc mx bf want d b = scannerSync_Pull unc mx bf want d' b'"
  by (simp add: scannerSync_Pull.simps [of unc mx bf want d b] scannerSync_Pull.simps [of unc mx bf want d' b'])

lemma readAll_cong:
  assumes "parser_read unc mx d b = parser_read unc mx d' b'"
  shows "readAll unc mx d b = readAll unc mx d' b'"
  by (simp add: readAll.simps [of unc mx d b] readAll.simps [of unc mx d' b'] Pull_cong [OF assms])

lemma reads_types:
  assumes "lz4_ok compress unc" "int (length b) \<le> mx" "mx < 2 ^ 61" "Decoder_decode d b = Ok d'"
  shows "reads unc mx d (block compress cmp 0 b) [] d'"
proof (cases "b = []")
  case True
  with assms(4) reads_refl show ?thesis by (simp add: block_def)
next
  case False
  then show ?thesis using readAll_cong [OF parser_read_types [OF assms(1) _ assms(2-4)]] by (simp add: reads_def)
qed

lemma readAll_values:
  assumes "parser_read unc mx d b = Ok (ValuesFrame f, d1, rest)" "decompress unc f = Ok x"
    "scanLoop (\<lambda>_. True) (local_mapper d1) [] x [] = Ok us"
  shows "readAll unc mx d b = prepend us (readAll unc mx d1 rest)"
proof (cases "us = []")
  case True
  have "scannerSync_Pull unc mx None (\<lambda>_. True) d b = scannerSync_Pull unc mx None (\<lambda>_. True) d1 rest"
    using assms True by (simp add: scannerSync_Pull.simps [of unc mx _ _ d b] scanBatch_def)
  with True show ?thesis by (simp add: readAll.simps [of unc mx d b] readAll.simps [of unc mx d1 rest])
next
  case False
  then have "scannerSync_Pull unc mx None (\<lambda>_. True) d b = Ok (Batch us d1 rest)"
    using assms by (simp add: scannerSync_Pull.simps [of unc mx _ _ d b] scanBatch_def)
  then show ?thesis by (simp add: readAll.simps [of unc mx d b] prepend_def)
qed

lemma reads_values:
  assumes lz: "lz4_ok compress unc" and mx: "int (length b) \<le> mx" "mx < 2 ^ 61"
    and scan: "scanLoop (\<lambda>_. True) (local_mapper d) [] b [] = Ok us"
  shows "reads unc mx d (block compress cmp 1 b) us d"
proof (cases "b = []")
  case True
  with scan reads_refl show ?thesis by (simp add: block_def)
next
  case False
  have "readAll unc mx d (block compress cmp 1 b @ rest) = prepend us (readAll unc mx d rest)" for rest
    using parser_read_values [OF lz False mx] readAll_values [OF _ _ scan] by blast
  then show ?thesis by (simp add: reads_def)
qed

lemma readAll_end: "readAll unc mx d [] = Ok []" "readAll unc mx d [0xff] = Ok []"
proof -
  show "readAll unc mx d [] = Ok []" for d
    by (simp add: readAll.simps [of unc mx d "[]"] scannerSync_Pull.simps [of unc mx _ _ d "[]"] parser_read.simps [of unc mx d "[]"])
  then show "readAll unc mx d [0xff] = Ok []"
    using readAll_cong [of unc mx d "[0xff]" "Decoder_reset d" "[]"] by (simp add: parser_read.simps [of unc mx d "[0xff]"])
qed

section \<open>The writer's invariant\<close>

text \<open>\<open>d0\<close> is the reader at the start, \<open>vs\<close> the values written so far.\<close>

definition winv ::
    "(bytes \<Rightarrow> nat \<Rightarrow> bytes go) \<Rightarrow> int \<Rightarrow> decoder \<Rightarrow> zvalue list \<Rightarrow> writer \<Rightarrow> bool" where
  "winv uncompress mx d0 vs w \<longleftrightarrow> enc_ok (w_types w) \<and> length (byID (enc_zctx (w_types w))) < 2 ^ 62 \<and>
     (\<exists>d us c pend. reads uncompress mx d0 (w_out w) us d \<and> in_step c d \<and>
        syncs c (enc_bytes (w_types w)) (enc_zctx (w_types w)) \<and>
        w_values w = concat (map emitV pend) \<and>
        (\<forall>v \<in> set pend. inC (enc_zctx (w_types w)) (fst v) \<and> (\<forall>b. snd v = Some b \<longrightarrow> small b)) \<and>
        list_all2 same vs (us @ pend))"

lemma winvI:
  assumes "enc_ok (w_types w)" "length (byID (enc_zctx (w_types w))) < 2 ^ 62"
    "reads unc mx d0 (w_out w) us d" "in_step c d" "syncs c (enc_bytes (w_types w)) (enc_zctx (w_types w))"
    "w_values w = concat (map emitV pend)"
    "\<forall>v \<in> set pend. inC (enc_zctx (w_types w)) (fst v) \<and> (\<forall>b. snd v = Some b \<longrightarrow> small b)"
    "list_all2 same vs (us @ pend)"
  shows "winv unc mx d0 vs w"
  unfolding winv_def using assms by blast

text \<open>The buffers fit in a frame that the reader accepts.\<close>

definition fits :: "int \<Rightarrow> writer \<Rightarrow> bool" where
  "fits mx w \<longleftrightarrow> int (length (w_values w)) \<le> mx \<and> int (length (enc_bytes (w_types w))) \<le> mx \<and>
     length (byID (enc_zctx (w_types w))) < 2 ^ 62"

lemma syncs_refl: "wf_ctx c \<Longrightarrow> syncs c [] c"
  unfolding syncs_def using keeps_refl by (fastforce simp: in_step_def)

lemma winv_flush:
  assumes lz: "lz4_ok compress unc" and mx: "mx < 2 ^ 61" and inv: "winv unc mx d0 vs w" and fit: "fits mx w"
  shows "\<exists>w'. Writer_flush no_fail compress w = (None, w') \<and> winv unc mx d0 vs w' \<and>
      w_values w' = [] \<and> enc_bytes (w_types w') = [] \<and> enc_zctx (w_types w') = enc_zctx (w_types w) \<and>
      (\<exists>x. w_out w' = w_out w @ x \<and> w_position w' = w_position w + length x) \<and>
      w_flushed w' = w_flushed w \<and> w_thresh w' = w_thresh w"
proof -
  let ?c' = "enc_zctx (w_types w)" and ?tb = "enc_bytes (w_types w)"
  let ?b0 = "block compress (w_compressor w) 0 ?tb" and ?b1 = "block compress (w_compressor w) 1 (w_values w)"
  obtain d us c pend where I: "reads unc mx d0 (w_out w) us d" "in_step c d" "syncs c ?tb ?c'"
      "w_values w = concat (map emitV pend)"
      "\<forall>v \<in> set pend. inC ?c' (fst v) \<and> (\<forall>b. snd v = Some b \<longrightarrow> small b)"
      "list_all2 same vs (us @ pend)"
    using inv unfolding winv_def by blast
  have ok: "enc_ok (w_types w)" "wf_ctx ?c'" and len: "length (byID ?c') < 2 ^ 62"
    using inv by (simp_all add: winv_def enc_ok_def)
  obtain d1 where d1: "in_step ?c' d1" "Decoder_decode d (?tb @ []) = Decoder_decode d1 []"
    using I(2,3) unfolding syncs_def by blast
  obtain xs where xs: "scanLoop (\<lambda>_. True) (local_mapper d1) [] (w_values w) [] = Ok xs" "list_all2 same pend xs"
    using scanLoop_emit [OF d1(1) len I(5) cache_ok_empty, of "[]"] I(4) by auto
  have r: "reads unc mx d0 (w_out w @ ?b0 @ ?b1) (us @ [] @ xs) d1"
    using d1(2) fit unfolding fits_def
    by (intro reads_trans [OF I(1) reads_trans [OF reads_types [OF lz _ mx] reads_values [OF lz _ mx xs(1)]]]) simp_all
  have eq: "Writer_flush no_fail compress w = (None, w\<lparr>w_out := w_out w @ ?b0 @ ?b1,
      w_position := w_position w + length (?b0 @ ?b1), w_types := Encoder_Flush (w_types w), w_values := []\<rparr>)" (is "_ = (None, ?w)")
    by (simp add: Writer_flush_def writeBlock_block [OF lz])
  have "list_all2 same vs (us @ xs)"
    by (rule same_trans [OF I(6)]) (simp add: list_all2_appendI xs(2) list.rel_refl same_def)
  then have "winv unc mx d0 vs ?w"
    using r ok len d1(1) syncs_refl [OF ok(2)]
    by (intro winvI [where d = d1 and c = ?c' and us = "us @ xs" and pend = "[]"]) (simp_all add: Encoder_Flush_def enc_ok_def)
  with eq show ?thesis by (simp add: Encoder_Flush_def)
qed

text \<open>The state in which a call of \<open>Write\<close> decides whether to flush.\<close>

definition buffered :: "zvalue \<Rightarrow> writer \<Rightarrow> writer" where
  "buffered val w =
     (case (case Encoder_Lookup (w_types w) (fst val) of
              Some typ \<Rightarrow> Ok (typ, w_types w)
            | None \<Rightarrow> Encode (fst val) (w_types w)) of
        Ok (typ, enc) \<Rightarrow> w\<lparr>w_types := enc, w_values := Append (appendLen (w_values w) (TypeID typ)) (snd val)\<rparr>
      | _ \<Rightarrow> w)"

lemma Encoder_Lookup_Encode:
  "(case Encoder_Lookup e x of Some t \<Rightarrow> Ok (t, e) | None \<Rightarrow> Encode x e) = Encode x e"
  by (simp add: Encoder_Lookup_def split: option.splits)

lemma buffered_Ok:
  "Encode (fst v) (w_types w) = Ok (t, e) \<Longrightarrow>
   buffered v w = w\<lparr>w_types := e, w_values := Append (appendLen (w_values w) (TypeID t)) (snd v)\<rparr>"
  unfolding buffered_def Encoder_Lookup_Encode by (simp only: result.case prod.case)

lemma Write_Ok:
  "Encode (fst v) (w_types w) = Ok (t, e) \<Longrightarrow> Writer_Write sink compress v w =
     (if int (length (w_values (buffered v w))) \<ge> w_thresh w \<or> int (length (enc_bytes (w_types (buffered v w)))) \<ge> w_thresh w
      then Writer_flush sink compress (buffered v w) else (None, buffered v w))"
  unfolding Writer_Write_def Encoder_Lookup_Encode by (simp only: buffered_Ok result.case prod.case Let_def) simp

lemma Append_acc: "Append (appendLen b n) v = b @ emitLen n @ Append [] v"
  by (cases v) (simp_all add: Append_def appendUvarint_emitLen tagNull_def appendUvarint_append [of "b @ emitLen n"])

lemma Write_buffered:
  assumes D: "wf_types D" "inC D (fst v)" "no_empty_union (fst v)" and small: "\<And>b. snd v = Some b \<Longrightarrow> small b"
    and inv: "winv unc mx d0 vs w" and len: "length (byID (enc_zctx (w_types (buffered v w)))) < 2 ^ 62"
  shows "winv unc mx d0 (vs @ [v]) (buffered v w)"
    "Writer_Write sink compress v w =
      (if int (length (w_values (buffered v w))) \<ge> w_thresh w \<or> int (length (enc_bytes (w_types (buffered v w)))) \<ge> w_thresh w
       then Writer_flush sink compress (buffered v w) else (None, buffered v w))"
proof -
  have ok: "enc_ok (w_types w)" using inv by (simp add: winv_def)
  obtain d us c pend where I: "reads unc mx d0 (w_out w) us d" "in_step c d" "syncs c (enc_bytes (w_types w)) (enc_zctx (w_types w))"
      "w_values w = concat (map emitV pend)"
      "\<forall>v \<in> set pend. inC (enc_zctx (w_types w)) (fst v) \<and> (\<forall>b. snd v = Some b \<longrightarrow> small b)"
      "list_all2 same vs (us @ pend)"
    using inv unfolding winv_def by blast
  obtain t e where t: "Encode (fst v) (w_types w) = Ok (t, e)" "emits (w_types w) e" "enc_ok e" "wf_ctx (enc_zctx e)"
      "inC (enc_zctx e) t" "erase t = erase (fst v)"
    using encodesE [OF Encode_encodes(1) [OF D ok]] by metis
  note b = buffered_Ok [OF t(1)]
  show "Writer_Write sink compress v w =
      (if int (length (w_values (buffered v w))) \<ge> w_thresh w \<or> int (length (enc_bytes (w_types (buffered v w)))) \<ge> w_thresh w
       then Writer_flush sink compress (buffered v w) else (None, buffered v w))"
    by (rule Write_Ok [OF t(1)])
  obtain x where x: "enc_bytes e = enc_bytes (w_types w) @ x" "syncs (enc_zctx (w_types w)) x (enc_zctx e)"
    using t(2) len unfolding emits_def syncs_def b by auto
  show "winv unc mx d0 (vs @ [v]) (buffered v w)"
  proof (rule winvI [where pend = "pend @ [(t, snd v)]", OF _ len _ I(2)])
    show "reads unc mx d0 (w_out (buffered v w)) us d" using I(1) b by simp
    show "list_all2 same (vs @ [v]) (us @ pend @ [(t, snd v)])"
      using list_all2_appendI [OF I(6), of "[v]" "[(t, snd v)]"] t(6) by (simp add: same_def)
    show "\<forall>u\<in>set (pend @ [(t, snd v)]). inC (enc_zctx (w_types (buffered v w))) (fst u) \<and> (\<forall>b. snd u = Some b \<longrightarrow> small b)"
      using I(5) t(5) small keeps_inC [OF emits_keeps [OF t(2)]] b by auto
  qed (use t(3) x syncs_trans [OF I(3) x(2)] I(4) b in \<open>simp_all add: Append_acc emitV_def\<close>)
qed

section \<open>Writing a sequence of values\<close>

fun WriteAll :: "sink \<Rightarrow> lz4 \<Rightarrow> zvalue list \<Rightarrow> writer \<Rightarrow> goerror option \<times> writer" where
  "WriteAll sink compress [] w = (None, w)"
| "WriteAll sink compress (v # vs) w =
     (case Writer_Write sink compress v w of
        (Some err, w) \<Rightarrow> (Some err, w)
      | (None, w) \<Rightarrow> WriteAll sink compress vs w)"

text \<open>Every frame that is written fits.\<close>

fun allFit :: "int \<Rightarrow> lz4 \<Rightarrow> zvalue list \<Rightarrow> writer \<Rightarrow> bool" where
  "allFit mx compress [] w = fits mx w"
| "allFit mx compress (v # vs) w =
     (fits mx (buffered v w) \<and> allFit mx compress vs (snd (Writer_Write no_fail compress v w)))"

lemma winv_WriteAll:
  assumes lz: "lz4_ok compress unc" and mx: "mx < 2 ^ 61" and D: "wf_types D"
  shows "\<forall>v \<in> set vs. inC D (fst v) \<and> no_empty_union (fst v) \<and> (\<forall>b. snd v = Some b \<longrightarrow> small b) \<Longrightarrow>
    winv unc mx d0 us w \<Longrightarrow> allFit mx compress vs w \<Longrightarrow>
    \<exists>w'. WriteAll no_fail compress vs w = (None, w') \<and> winv unc mx d0 (us @ vs) w' \<and> fits mx w'"
proof (induction vs arbitrary: w us)
  case (Cons v vs)
  let ?b = "buffered v w"
  have b: "winv unc mx d0 (us @ [v]) ?b" "fits mx ?b"
    and w: "Writer_Write no_fail compress v w = (if int (length (w_values ?b)) \<ge> w_thresh w \<or>
        int (length (enc_bytes (w_types ?b))) \<ge> w_thresh w then Writer_flush no_fail compress ?b else (None, ?b))"
    using Write_buffered [OF D _ _ _ Cons.prems(2), of v] Cons.prems by (auto simp: fits_def)
  have "\<exists>w1. Writer_Write no_fail compress v w = (None, w1) \<and> winv unc mx d0 (us @ [v]) w1"
    using winv_flush [OF lz mx b] b(1) w by auto
  then obtain w1 where w1: "Writer_Write no_fail compress v w = (None, w1)" "winv unc mx d0 (us @ [v]) w1" by blast
  from Cons.IH [OF _ this(2)] this(1) Cons.prems show ?case by simp
qed simp

lemma winv_start:
  assumes "wf_ctx C"
  shows "winv unc mx (NewDecoder C) [] (NewWriterWithOpts cmp thresh)"
proof -
  have "wf_ctx NewContext" by (rule reachable_wf [OF reachable.New])
  moreover have "in_step NewContext (NewDecoder C)"
    using assms calculation by (simp add: in_step_def NewDecoder_def types_def NewContext_def)
  ultimately show ?thesis
    using reads_refl syncs_refl
    by (intro winvI [where d = "NewDecoder C" and c = NewContext and us = "[]" and pend = "[]"])
       (simp_all add: NewWriterWithOpts_def NewEncoder_def enc_ok_def NewContext_def IDTypeComplex_def)
qed

lemma EndStream_reads:
  assumes lz: "lz4_ok compress unc" and mx: "mx < 2 ^ 61" and inv: "winv unc mx d0 vs w" and fit: "fits mx w"
  shows "\<exists>w' us. EndStream no_fail compress w = (None, w') \<and> readAll unc mx d0 (w_out w') = Ok us \<and> list_all2 same vs us"
proof -
  obtain w1 where w1: "Writer_flush no_fail compress w = (None, w1)" "winv unc mx d0 vs w1" "w_values w1 = []"
    using winv_flush [OF assms] by blast
  obtain us d where r: "reads unc mx d0 (w_out w1) us d" "list_all2 same vs us"
    using w1(2,3) emitV_nonempty unfolding winv_def
    by (smt (verit) concat_eq_Nil_conv append_Nil2 list.set_intros(1) list.simps(9) neq_Nil_conv)
  have "readAll unc mx d0 (w_out w1 @ rest) = prepend us (readAll unc mx d rest)" for rest
    using r(1) by (simp add: reads_def)
  from this [of "[]"] this [of "[0xff]"] r(2) w1(1) show ?thesis
    by (auto simp: EndStream_def Writer_write_def no_fail_def readAll_end)
qed

end
