(* ===== verification/ZngProps.thy ===== *)
theory ZngProps
  imports ZngRound ContextProps
begin

text \<open>
  The properties of ZNG streams: what is written is read back, the typedefs bring a reader in
  step with the writer, and what the reader does with input that no writer produces.
\<close>

section \<open>Round trip\<close>

text \<open>C1: values of any types of a context that have no union of zero types, written one by one and then ended, are read back
  by a reader with any context of its own, in the same order, with the same bytes and with types of the
  same structure, whatever the frame threshold and with or without compression.  The sink accepts all
  bytes, \<open>lz4_ok\<close> says what the compressor promises, and every frame fits the reader's maximum.\<close>

theorem Writer_Reader_roundtrip:
  assumes "reachable D" "\<forall>v \<in> set vs. inC D (fst v) \<and> no_empty_union (fst v) \<and> (\<forall>b. snd v = Some b \<longrightarrow> small b)"
    and "reachable C" "lz4_ok compress uncompress" "mx < 2 ^ 61"
    and "allFit mx compress vs (NewWriterWithOpts cmp thresh)"
  shows "\<exists>w w' us. WriteAll no_fail compress vs (NewWriterWithOpts cmp thresh) = (None, w) \<and>
      EndStream no_fail compress w = (None, w') \<and>
      readAll uncompress mx (NewDecoder C) (w_out w') = Ok us \<and> list_all2 same vs us"
proof -
  note D = reachable_types [OF assms(1)] and C = reachable_wf [OF assms(3)]
  obtain w where "WriteAll no_fail compress vs (NewWriterWithOpts cmp thresh) = (None, w)"
      "winv uncompress mx (NewDecoder C) vs w" "fits mx w"
    using winv_WriteAll [OF assms(4,5) D assms(2) winv_start [OF C] assms(6)] by auto
  with EndStream_reads [OF assms(4,5)] show ?thesis by blast
qed

definition wvals :: "zvalue list" where
  "wvals = [(TypeArray 30 (TypePrimitive TypeInt64), Some [2, 4]), (TypePrimitive TypeString, None)]"

definition nocomp :: lz4 where
  "nocomp b = Ok []"

lemma nocomp_ok: "lz4_ok nocomp (\<lambda>z n. Err io_EOF)"
  by (simp add: lz4_ok_def nocomp_def)

definition wenc :: encoder where
  "wenc = \<lparr>enc_zctx = arrayContext, encoded = [TypePrimitive TypeInt64 \<mapsto> TypePrimitive TypeInt64,
     TypeArray 30 (TypePrimitive TypeInt64) \<mapsto> TypeArray 30 (TypePrimitive TypeInt64)], enc_bytes = [1, 9]\<rparr>"

lemma emit_small: "x < 0x80 \<Longrightarrow> appendUvarint b x = b @ [ucast x]"
  by (simp add: appendUvarint_append [of b] appendUvarint_small not_le)

lemma wenc_Encode:
  "Encode (TypeArray 30 (TypePrimitive TypeInt64)) NewEncoder = Ok (TypeArray 30 (TypePrimitive TypeInt64), wenc)"
  by (simp add: NewEncoder_def typedefArray_def wenc_def LookupTypeArray_NewContext TypeID_def emit_small)

lemma wvals_fit: "allFit 1024 nocomp wvals (NewWriterWithOpts True 64)"
proof -
  let ?v = "(TypeArray 30 (TypePrimitive TypeInt64), Some [2, 4]) :: zvalue" and ?w = "NewWriterWithOpts True 64"
  let ?w1 = "?w\<lparr>w_types := wenc, w_values := [30, 3, 2, 4]\<rparr>"
  have e: "Encode (fst ?v) (w_types ?w) = Ok (TypeArray 30 (TypePrimitive TypeInt64), wenc)"
    using wenc_Encode by (simp only: NewWriterWithOpts_def writer.simps fst_conv)
  have b: "buffered ?v ?w = ?w1"
    unfolding buffered_Ok [OF e] by (simp add: NewWriterWithOpts_def Append_def TypeID_def emit_small toTag_def)
  have w: "Writer_Write no_fail nocomp ?v ?w = (None, ?w1)"
    unfolding Write_Ok [OF e] b by (simp add: NewWriterWithOpts_def wenc_def)
  have e2: "Encode (TypePrimitive TypeString) wenc = Ok (TypePrimitive TypeString,
      wenc\<lparr>encoded := (encoded wenc)(TypePrimitive TypeString \<mapsto> TypePrimitive TypeString)\<rparr>)"
    by (simp add: wenc_def)
  have b2: "w_values (buffered (TypePrimitive TypeString, None) ?w1) = [30, 3, 2, 4, 25, 0]"
      "w_types (buffered (TypePrimitive TypeString, None) ?w1) =
        wenc\<lparr>encoded := (encoded wenc)(TypePrimitive TypeString \<mapsto> TypePrimitive TypeString)\<rparr>"
    using buffered_Ok [of "(TypePrimitive TypeString, None)" ?w1] e2
    by (simp_all del: Encode.simps add: Append_def TypeID_def emit_small tagNull_def)
  have w2: "Writer_Write no_fail nocomp (TypePrimitive TypeString, None) ?w1 = (None, buffered (TypePrimitive TypeString, None) ?w1)"
    using Write_Ok [of "(TypePrimitive TypeString, None)" ?w1] e2 b2
    by (simp del: Encode.simps) (simp add: wenc_def NewWriterWithOpts_def)
  show ?thesis
    using b w b2 w2 by (simp add: wvals_def fits_def wenc_def arrayContext_def enterWithLock_def NewContext_def IDTypeComplex_def)
qed

theorem Writer_Reader_roundtrip_witness:
  "\<exists>w w' us. WriteAll no_fail nocomp wvals (NewWriterWithOpts True 64) = (None, w) \<and>
      EndStream no_fail nocomp w = (None, w') \<and>
      readAll (\<lambda>z n. Err io_EOF) 1024 (NewDecoder NewContext) (w_out w') = Ok us \<and> list_all2 same wvals us"
  by (rule Writer_Reader_roundtrip [OF arrayContext_facts(1) _ reachable.New nocomp_ok _ wvals_fit])
     (simp_all add: wvals_def arrayContext_facts(2) small_def)

section \<open>Typedefs\<close>

text \<open>C32: the typedefs that an encoder emits for a list of types of any context, none with a union of zero types, make a decoder
  build the encoder's context, and the ID under which each type was encoded is mapped to a type of
  the decoder's shared context with the structure of the original type.\<close>

theorem Encoder_Decoder_in_step:
  assumes "reachable D" "reachable C" "\<forall>x \<in> set xs. inC D x \<and> no_empty_union x"
  shows "\<exists>us e. encodeTypes xs NewEncoder = Ok (us, e) \<and> (length (byID (enc_zctx e)) < 2 ^ 62 \<longrightarrow>
      (\<exists>d. Decoder_decode (NewDecoder C) (enc_bytes e) = Ok d \<and> local_zctx d = enc_zctx e \<and>
        list_all2 (\<lambda>x u. \<exists>v. Mapper_Lookup (local_mapper d) (int (TypeID u)) = Some v \<and> erase v = erase x) xs us))"
proof -
  have wf: "wf_ctx NewContext" by (rule reachable_wf [OF reachable.New])
  have st: "in_step NewContext (NewDecoder C)"
    using wf reachable_wf [OF assms(2)] by (simp add: in_step_def NewDecoder_def types_def NewContext_def)
  obtain us e where e: "encodeTypes xs NewEncoder = Ok (us, e)" "emits NewEncoder e"
      "list_all2 (twins D (enc_zctx e)) xs us"
    using Encode_encodes(4) [OF reachable_types [OF assms(1)] assms(3), of NewEncoder] wf
    by (auto simp: enc_ok_def NewEncoder_def)
  have "\<exists>d. Decoder_decode (NewDecoder C) (enc_bytes e) = Ok d \<and> local_zctx d = enc_zctx e \<and>
        list_all2 (\<lambda>x u. \<exists>v. Mapper_Lookup (local_mapper d) (int (TypeID u)) = Some v \<and> erase v = erase x) xs us"
    if len: "length (byID (enc_zctx e)) < 2 ^ 62"
  proof -
    have "syncs NewContext (enc_bytes e) (enc_zctx e)"
      using e(2) len by (auto simp: emits_def syncs_def NewEncoder_def)
    then obtain d where d: "in_step (enc_zctx e) d" "Decoder_decode (NewDecoder C) (enc_bytes e @ []) = Decoder_decode d []"
      using st unfolding syncs_def by blast
    have "\<exists>v. Mapper_Lookup (local_mapper d) (int (TypeID u)) = Some v \<and> erase v = erase x" if "twins D (enc_zctx e) x u" for x u
      using that Mapper_Lookup_in_step [OF d(1), of u] unfolding twins_def by metis
    with d e(3) list_all2_mono [OF e(3)] show ?thesis by (simp add: in_step_def)
  qed
  with e(1) show ?thesis by blast
qed

theorem Encoder_Decoder_in_step_witness:
  "\<exists>d v. Decoder_decode (NewDecoder NewContext) [1, 9] = Ok d \<and> local_zctx d = arrayContext \<and>
     Mapper_Lookup (local_mapper d) 30 = Some v \<and> erase v = TypeArray 0 (TypePrimitive TypeInt64)"
proof -
  have e: "encodeTypes [TypeArray 30 (TypePrimitive TypeInt64)] NewEncoder = Ok ([TypeArray 30 (TypePrimitive TypeInt64)], wenc)"
    by (simp add: wenc_Encode del: Encode.simps)
  show ?thesis
    using Encoder_Decoder_in_step [OF arrayContext_facts(1) reachable.New, of "[TypeArray 30 (TypePrimitive TypeInt64)]"]
      arrayContext_facts(2)
    unfolding e by (auto simp: wenc_def arrayContext_def enterWithLock_def NewContext_def IDTypeComplex_def TypeID_def)
qed

section \<open>Failures\<close>

text \<open>C33: when every write to the sink fails, ending the stream reports success all the same,
  whatever was buffered: the error of writing a frame is dropped, and nothing has been written.\<close>

theorem EndStream_hides_write_errors:
  assumes "\<And>out p. sink out p = Some err" "w_flushed w = w_position w"
  shows "\<exists>w'. EndStream sink compress w = (None, w') \<and> w_out w' = w_out w"
proof -
  have fail: "writeBlock sink compress bt b w = (Some e, w') \<or> writeBlock sink compress bt b w = (None, w') \<Longrightarrow> w' = w" for bt b e w'
    using assms(1) by (auto simp: writeBlock_def writeHeader_def writeCompHeader_def Writer_write_def Let_def
        split: if_splits result.splits)
  have "\<exists>w'. Writer_flush sink compress w = (None, w') \<and> w_out w' = w_out w \<and> w_flushed w' = w_position w'"
    using fail assms(2) unfolding Writer_flush_def
    by (cases "writeBlock sink compress 0 (enc_bytes (w_types w)) w"; cases "writeBlock sink compress 1 (w_values w) w")
       (fastforce split: option.splits)
  then show ?thesis by (auto simp: EndStream_def)
qed

theorem EndStream_hides_write_errors_witness:
  "\<exists>w'. EndStream (\<lambda>_ _. Some io_EOF) nocomp ((NewWriterWithOpts False 64)\<lparr>w_values := [9, 0]\<rparr>) = (None, w') \<and> w_out w' = []"
  using EndStream_hides_write_errors [of "\<lambda>_ _. Some io_EOF" io_EOF "(NewWriterWithOpts False 64)\<lparr>w_values := [9, 0]\<rparr>" nocomp]
  by (simp add: NewWriterWithOpts_def)

section \<open>Input that no writer produces\<close>

text \<open>A stream that is cut off right after the header of an uncompressed values frame, or
  after the first byte of it, is read to its end without an error; the frame is lost.\<close>

theorem cut_after_header:
  assumes "b \<noteq> []" "int (length b) \<le> mx" "mx < 2 ^ 61"
  shows "readAll uncompress mx d (plainCode 1 (length b) # emitLen (length b div 16)) = Ok [] \<and>
    readAll uncompress mx d [plainCode 1 (length b)] = Ok []"
proof
  have "length b < 2 ^ 62" using len_bound [OF assms(2), of 62] assms(3) by simp
  note len = decodeLength_emit [OF this plainCode_bits(5) [of 1 "length b"], simplified, of "[]"]
  note bits = plainCode_bits [of 1 "length b", simplified]
  have eof: "readAll uncompress mx d x = Ok []" if "parser_read uncompress mx d x = Err io_EOF" for x
    using that by (simp add: readAll.simps [of _ _ _ x] scannerSync_Pull.simps [of _ _ _ _ _ x])
  show "readAll uncompress mx d (plainCode 1 (length b) # emitLen (length b div 16)) = Ok []"
    using assms(2) len bits
    by (intro eof) (simp add: parser_read.simps [of _ _ _ "_ # _"] decodeValues_def readFrame_def peeker_Read_def)
  show "readAll uncompress mx d [plainCode 1 (length b)] = Ok []"
    using bits by (intro eof) (simp add: parser_read.simps [of _ _ _ "_ # _"] decodeValues_def readFrame_def
        parser_decodeLength_def ReadUvarint_def split: prod.splits)
qed

theorem cut_after_header_witness:
  "readAll (\<lambda>z n. Err io_EOF) 1024 (NewDecoder NewContext) [0x15, 0] = Ok []"
  using cut_after_header [of "replicate 5 0" 1024 "\<lambda>z n. Err io_EOF" "NewDecoder NewContext"]
  by (simp add: plainCode_def header_code_def emitLen_def)

text \<open>The default limit of a reader.\<close>

definition MaxSize :: int where
  "MaxSize = 1024 * 1024 * 1024"

text \<open>In a values frame whose last value has its tag but none of its bytes, that value is
  read as null instead of being refused.\<close>

theorem missing_bytes_read_as_null:
  "readAll uncompress MaxSize d [0x12, 0, 9, 6] = Ok [(TypePrimitive TypeInt64, None)]"
proof -
  have "scanLoop (\<lambda>_. True) (local_mapper d) [] [9, 6] [] = Ok [(TypePrimitive TypeInt64, None)]"
    by (simp add: decodeVal_def readUvarintAsInt_def ReadUvarint_def uvarint_def ReadTag_def tagIsNull_def tagNull_def
        tagLength_def orBad_def buffer_read_def MapperLookupCache_Lookup_def Mapper_Lookup_def IDTypeComplex_def LookupPrimitiveByID_def Let_def)
  moreover have "parser_read uncompress MaxSize d [0x12, 0, 9, 6] = Ok (ValuesFrame (Uncompressed [9, 6]), d, [])"
    by (simp add: parser_read.simps [of _ _ _ "_ # _"] decodeValues_def readFrame_def peeker_Read_def MaxSize_def
        parser_decodeLength_def ReadUvarint_def uvarint_def)
  ultimately show ?thesis using readAll_values [of uncompress MaxSize d] by (simp add: decompress_def readAll_end)
qed

lemma readAll_panic: "parser_read unc mx d b = Panic \<Longrightarrow> readAll unc mx d b = Panic"
  by (simp add: readAll.simps [of unc mx d b] scannerSync_Pull.simps [of unc mx _ _ d b])

lemma readAll_panics:
  assumes "parser_read unc mx d b = Ok (ValuesFrame f, d1, rest)" "decompress unc f = Ok x"
    "scanLoop (\<lambda>_. True) (local_mapper d1) [] x [] = Panic"
  shows "readAll unc mx d b = Panic"
  using assms by (simp add: readAll.simps [of unc mx d b] scannerSync_Pull.simps [of unc mx _ _ d b] scanBatch_def)

text \<open>Three inputs on which a reader panics: a values frame whose type ID is \<open>2^63\<close>
  (negative as an \<open>int\<close>, it indexes the lookup cache), a compressed frame of size \<open>2^63\<close>, and a
  record typedef with a field name of length \<open>2^63\<close>.\<close>

theorem reader_panics:
  "readAll uncompress MaxSize d (plainBlock 1 (appendUvarint [] 0x8000000000000000 @ [0]) @ rest) = Panic \<and>
   readAll uncompress MaxSize d ([0x5b, 0, 0] @ appendUvarint [] 0x8000000000000000 @ rest) = Panic \<and>
   Decoder_decode d ([0, 1] @ appendUvarint [] 0x8000000000000000 @ rest) = Panic"
proof (intro conjI)
  let ?v = "appendUvarint [] (0x8000000000000000 :: u64)" and ?b = "appendUvarint [] (0x8000000000000000 :: u64) @ [0]"
  have big: "length ?v \<le> 10" "SizeOfUvarint (0x8000000000000000 :: u64) = 10"
    using length_appendUvarint_le [of "0x8000000000000000"] by (auto simp: SizeOfUvarint_def) code_simp
  have "scanLoop (\<lambda>_. True) (local_mapper d) [] ?b [] = Panic"
    using ReadUvarint_emit [of "0x8000000000000000" "[0]"]
    by (cases ?b) (simp_all add: decodeVal_def readUvarintAsInt_def ReadTag_def ReadUvarint_def [of "[0]"] uvarint_def
        tagIsNull_def tagNull_def orBad_def MapperLookupCache_Lookup_def)
  moreover have "parser_read uncompress MaxSize d (plainBlock 1 ?b @ rest) = Ok (ValuesFrame (Uncompressed ?b), d, rest)"
    using big(1) by (intro parser_read_plain) (simp_all add: MaxSize_def)
  ultimately show "readAll uncompress MaxSize d (plainBlock 1 ?b @ rest) = Panic"
    by (intro readAll_panics [where f = "Uncompressed ?b" and x = ?b]) (simp_all add: decompress_def)
  show "readAll uncompress MaxSize d ([0x5b, 0, 0] @ ?v @ rest) = Panic"
    using ReadUvarint_emit [of "0x8000000000000000" rest] big
    by (intro readAll_panic) (simp add: parser_read.simps [of _ _ _ "_ # _"] decodeValues_def readCompressedFrame_def parser_decodeLength_def
        ReadUvarint_def [of "0 # _"] uvarint_def [of "0 # _"] peeker_ReadByte_def peeker_Read_def MaxSize_def Let_def wrap64_def)
  show "Decoder_decode d ([0, 1] @ ?v @ rest) = Panic"
    using ReadUvarint_emit [of "0x8000000000000000" rest]
    by (simp add: readTypedef_def readTypeRecord_def readField_def readCountedString_def readUvarintAsInt_def
        ReadUvarint_def [of "1 # _"] uvarint_def [of "1 # _"] orBad_def buffer_read_def)
qed

text \<open>The encoder emits a typedef for a union of no types, which the context accepts, and
  every decoder refuses it.\<close>

theorem empty_union_refused:
  "\<exists>t c e err. LookupTypeUnion [] NewContext = Ok (t, c) \<and> Encode t NewEncoder = Ok (t, e) \<and>
     Decoder_decode d (enc_bytes e) = Err err"
proof -
  have l: "LookupTypeUnion [] NewContext = Ok (TypeUnion 30 [], enterWithLock [34, 0] (TypeUnion 30 []) NewContext)"
    by (simp add: LookupTypeUnion_def sortTypes_def SliceStable_def AppendTypeValue_eq EncodeTypeValue_eq emitLen_def NewContext_def
        nextIDWithLock_def IDTypeComplex_def Let_def)
  then have "\<exists>e. Encode (TypeUnion 30 []) NewEncoder = Ok (TypeUnion 30 [], e) \<and> enc_bytes e = [4, 0]"
    by (simp add: NewEncoder_def typedefUnion_def sortTypes_def SliceStable_def emit_small)
  moreover have "\<exists>err. Decoder_decode d [4, 0] = Err err"
    by (simp add: readTypedef_def readTypeUnion_def readUvarintAsInt_def ReadUvarint_def uvarint_def orBad_def)
  ultimately show ?thesis using l by metis
qed

end
