(* ===== verification/Journal.thy ===== *)
theory Journal
  imports Prelude "HOL-Library.AList"
begin

text \<open>
  The journal of the lake (\<open>lake/journal\<close>): \<open>queue.go\<close> numbers entries and keeps the position of the
  last one in the file HEAD, \<open>reader.go\<close> reads a range of entries, and \<open>store.go\<close> is a table of keys
  that is kept as the journal of its changes.

  A storage holds the files of one journal.  An entry file and the snapshot file stand for the
  values that are read from them; how values are serialized is not modelled here.  Every file
  operation happens at once.  Positions are 64 bit unsigned numbers, with wrap-around written out.
\<close>

section \<open>Decimal numbers\<close>

text \<open>\<open>strconv.FormatUint(n, 10)\<close>, \<open>strconv.ParseUint(s, 10, 64)\<close> and \<open>strings.Split(s, " ")\<close>.\<close>

definition digit :: "nat \<Rightarrow> char" where
  "digit d = char_of (48 + d)"

fun FormatUint :: "nat \<Rightarrow> string" where
  "FormatUint n = (if n < 10 then [digit n] else FormatUint (n div 10) @ [digit (n mod 10)])"

declare FormatUint.simps [simp del]

fun ParseUint_loop :: "nat \<Rightarrow> string \<Rightarrow> nat option" where
  "ParseUint_loop n [] = Some n"
| "ParseUint_loop n (c # s) =
     (let d = of_char c :: nat in
      if d < 48 \<or> d > 57 then None
      else if n * 10 + (d - 48) \<ge> 2 ^ 64 then None
      else ParseUint_loop (n * 10 + (d - 48)) s)"

definition ParseUint :: "string \<Rightarrow> nat option" where
  "ParseUint s = (if s = [] then None else ParseUint_loop 0 s)"

fun Split :: "string \<Rightarrow> string list" where
  "Split [] = [[]]"
| "Split (c # s) =
     (if c = CHR '' '' then [] # Split s
      else case Split s of [] \<Rightarrow> [[c]] | w # ws \<Rightarrow> (c # w) # ws)"

section \<open>Storage\<close>

type_synonym jid = nat

definition Nil_ID :: jid where "Nil_ID = 0"

definition nextID :: "jid \<Rightarrow> jid" where
  "nextID i = (i + 1) mod 2 ^ 64"

definition prevID :: "jid \<Rightarrow> jid" where
  "prevID i = (i + (2 ^ 64 - 1)) mod 2 ^ 64"

definition subID :: "jid \<Rightarrow> jid \<Rightarrow> jid" where
  "subID i j = (i + (2 ^ 64 - j)) mod 2 ^ 64"

text \<open>
  The values of an entry file.  An entry of the table is its key and the rest of it; \<open>Unknown\<close> is a
  value that is none of the three records.
\<close>

datatype 'v jrecord = Add string 'v | Update string 'v | Delete string | Unknown

text \<open>The values of the snapshot file, and the error with which reading it ends, if any.\<close>

datatype 'v snapval = UintVal jid | EntryVal string 'v | OtherVal

record 'v snapfile =
  snap_vals :: "'v snapval list"
  snap_err :: "goerror option"

record 'v jstorage =
  headFile :: "string option"
  tailFile :: "string option"
  entryFile :: "jid \<rightharpoonup> 'v jrecord list"
  snapFile :: "'v snapfile option"

definition ErrNotExist :: goerror where "ErrNotExist = Errorf ''file does not exist''"
definition ErrExist :: goerror where "ErrExist = Errorf ''file already exists''"

definition getFile :: "'a option \<Rightarrow> 'a go" where
  "getFile f = (case f of None \<Rightarrow> Err ErrNotExist | Some x \<Rightarrow> Ok x)"

section \<open>The queue\<close>

definition MaxReadRetry :: nat where "MaxReadRetry = 10"

definition parseID :: "string \<Rightarrow> (jid \<times> jid) option" where
  "parseID b =
     (let list = Split b in
      case ParseUint (list ! 0) of
        None \<Rightarrow> None
      | Some i \<Rightarrow>
          if length list = 1 then Some (i, Nil_ID)
          else case ParseUint (list ! 1) of None \<Rightarrow> None | Some base \<Rightarrow> Some (i, base))"

text \<open>
  The loop of \<open>readID\<close>: \<open>file k\<close> is the file at the \<open>k\<close>-th read, \<open>rnd\<close> the random source.  Durations are
  in nanoseconds.  A cancelled context is not modelled.
\<close>

function readID_loop :: "(nat \<Rightarrow> string option) \<Rightarrow> (nat \<Rightarrow> nat) \<Rightarrow> nat \<Rightarrow> nat \<Rightarrow> (jid \<times> jid) go" where
  "readID_loop file rnd retry timeout =
     bindR (getFile (file retry)) (\<lambda>b.
     case parseID b of
       Some r \<Rightarrow> Ok r
     | None \<Rightarrow>
         (let retry = retry + 1 in
          if retry > MaxReadRetry \<or> timeout > 5000000000
          then Err (Errorf ''can read but not parse contents of journal HEAD'')
          else readID_loop file rnd retry (2 * timeout + rnd retry mod (2 * timeout))))"
  by pat_completeness auto
termination
  by (relation "measure (\<lambda>(_, _, retry, _). Suc MaxReadRetry - retry)") auto

declare readID_loop.simps [simp del]

definition readID :: "(nat \<Rightarrow> string option) \<Rightarrow> (nat \<Rightarrow> nat) \<Rightarrow> (jid \<times> jid) go" where
  "readID file rnd = readID_loop file rnd 0 1000000"

definition ReadHead :: "'v jstorage \<Rightarrow> jid go" where
  "ReadHead s = mapR fst (readID (\<lambda>_. headFile s) (\<lambda>_. 0))"

definition writeHead :: "jid \<Rightarrow> 'v jstorage \<Rightarrow> 'v jstorage" where
  "writeHead i s = s\<lparr>headFile := Some (FormatUint i)\<rparr>"

definition ReadTail :: "'v jstorage \<Rightarrow> (jid \<times> jid) go" where
  "ReadTail s = readID (\<lambda>_. tailFile s) (\<lambda>_. 0)"

definition writeTail :: "jid \<Rightarrow> jid \<Rightarrow> 'v jstorage \<Rightarrow> 'v jstorage" where
  "writeTail i base s = s\<lparr>tailFile := Some (FormatUint i @ '' '' @ FormatUint base)\<rparr>"

definition MoveTail :: "jid \<Rightarrow> jid \<Rightarrow> 'v jstorage \<Rightarrow> 'v jstorage" where
  "MoveTail i base s = writeTail i base s"

definition Boundaries :: "'v jstorage \<Rightarrow> (jid \<times> jid) go" where
  "Boundaries s = bindR (ReadHead s) (\<lambda>head. bindR (ReadTail s) (\<lambda>(tail, _). Ok (head, tail)))"

text \<open>
  The first half of \<open>CommitAt\<close> writes the entry and the second half the new HEAD.  \<open>excl\<close> says
  whether the engine supports \<open>PutIfNotExists\<close>; where it does not, the entry is overwritten.
\<close>

definition putEntry :: "bool \<Rightarrow> jid \<Rightarrow> 'v jrecord list \<Rightarrow> 'v jstorage \<Rightarrow> goerror option \<times> 'v jstorage" where
  "putEntry excl at b s =
     (let uri = nextID at in
      if excl \<and> entryFile s uri \<noteq> None then (Some ErrExist, s)
      else (None, s\<lparr>entryFile := (entryFile s)(uri \<mapsto> b)\<rparr>))"

definition CommitAt :: "bool \<Rightarrow> jid \<Rightarrow> 'v jrecord list \<Rightarrow> 'v jstorage \<Rightarrow> goerror option \<times> 'v jstorage" where
  "CommitAt excl at b s =
     (case putEntry excl at b s of
        (Some err, s) \<Rightarrow> (Some err, s)
      | (None, s) \<Rightarrow> (None, writeHead (nextID at) s))"

definition Queue_Commit :: "bool \<Rightarrow> 'v jrecord list \<Rightarrow> 'v jstorage \<Rightarrow> jid go \<times> 'v jstorage" where
  "Queue_Commit excl b s =
     (case ReadHead s of
        Ok head \<Rightarrow>
          (case CommitAt excl head b s of
             (Some err, s) \<Rightarrow> (Err err, s)
           | (None, s) \<Rightarrow> (Ok (nextID head), s))
      | Err err \<Rightarrow> (Err err, s)
      | Panic \<Rightarrow> (Panic, s))"

definition Queue_Create :: "jid \<Rightarrow> 'v jstorage \<Rightarrow> 'v jstorage" where
  "Queue_Create base s = writeTail 1 base (writeHead Nil_ID s)"

text \<open>
  \<open>Open\<close> decides on the range, and the reader loads each file after its cursor.  \<open>None\<close> is the empty
  reader of an empty journal.
\<close>

definition Queue_Open :: "jid \<Rightarrow> jid \<Rightarrow> 'v jstorage \<Rightarrow> (jid \<times> jid) option go" where
  "Queue_Open head tail s =
     bindR (if head = Nil_ID then ReadHead s else Ok head) (\<lambda>head.
     if head = Nil_ID then Ok None
     else bindR (if tail = Nil_ID then mapR fst (ReadTail s) else Ok tail) (\<lambda>tail.
          Ok (Some (prevID tail, head))))"

section \<open>Playing records\<close>

text \<open>A Go map may be nil: reading it finds nothing, and adding to it panics.\<close>

type_synonym 'v table = "(string \<times> 'v) list"

definition rd :: "'v table option \<Rightarrow> string \<rightharpoonup> 'v" where
  "rd t = (case t of None \<Rightarrow> Map.empty | Some m \<Rightarrow> map_of m)"

fun playRecord :: "'v jrecord \<Rightarrow> 'v table option \<Rightarrow> 'v table option go" where
  "playRecord (Add k v) t = (case t of None \<Rightarrow> Panic | Some m \<Rightarrow> Ok (Some (AList.update k v m)))"
| "playRecord (Update k v) t =
     (if rd t k = None then Err (Errorf ''update to non-existent key in journal store'')
      else case t of None \<Rightarrow> Panic | Some m \<Rightarrow> Ok (Some (AList.update k v m)))"
| "playRecord (Delete k) t = Ok (map_option (AList.delete k) t)"
| "playRecord Unknown t = Err (Errorf ''unknown type in journal store'')"

fun playRecords :: "'v jrecord list \<Rightarrow> 'v table option \<Rightarrow> 'v table option go" where
  "playRecords [] t = Ok t"
| "playRecords (r # rs) t = bindR (playRecord r t) (playRecords rs)"

text \<open>The loop of \<open>load\<close> over a reader: it plays each file as it is loaded.\<close>

function replay :: "'v jstorage \<Rightarrow> jid \<Rightarrow> jid \<Rightarrow> 'v table option \<Rightarrow> 'v table option go" where
  "replay s cursor stop t =
     (if cursor \<ge> stop then Ok t
      else bindR (getFile (entryFile s (cursor + 1))) (\<lambda>b.
           bindR (playRecords b t) (\<lambda>t. replay s (cursor + 1) stop t)))"
  by pat_completeness auto
termination
  by (relation "measure (\<lambda>(_, cursor, stop, _). stop - cursor)") auto

declare replay.simps [simp del]

section \<open>The store\<close>

text \<open>A client's copy of the table, the position it was loaded at and the time of loading.\<close>

record 'v jstore =
  js_table :: "'v table option"
  js_at :: jid
  js_loadTime :: int

definition newStore :: "'v jstore" where
  "newStore = \<lparr>js_table = None, js_at = Nil_ID, js_loadTime = 0\<rparr>"

text \<open>Reading the snapshot file: the position, the table (nil when an entry does not unmarshal) and
  the error.\<close>

fun getSnapshot_loop :: "goerror option \<Rightarrow> 'v table \<Rightarrow> 'v snapval list \<Rightarrow> 'v table option \<times> goerror option" where
  "getSnapshot_loop fin t [] = (Some t, fin)"
| "getSnapshot_loop fin t (EntryVal k v # vals) = getSnapshot_loop fin (AList.update k v t) vals"
| "getSnapshot_loop fin t (_ # vals) = (None, Some (Errorf ''unmarshal''))"

definition getSnapshot :: "'v jstorage \<Rightarrow> jid \<times> 'v table option \<times> goerror option" where
  "getSnapshot s =
     (case snapFile s of
        None \<Rightarrow> (Nil_ID, Some [], Some ErrNotExist)
      | Some f \<Rightarrow>
          (case snap_vals f of
             [] \<Rightarrow> (Nil_ID, Some [], snap_err f)
           | UintVal at # vals \<Rightarrow> (at, getSnapshot_loop (snap_err f) [] vals)
           | _ # vals \<Rightarrow> (Nil_ID, Some [], Some (Errorf ''corrupted journal snapshot''))))"

text \<open>Ranging over a map visits its entries in any order, here that of \<open>perm\<close>.\<close>

definition putSnapshot :: "('v table \<Rightarrow> 'v table) \<Rightarrow> jid \<Rightarrow> 'v table option \<Rightarrow> 'v jstorage \<Rightarrow> 'v jstorage" where
  "putSnapshot perm at t s =
     s\<lparr>snapFile := Some \<lparr>snap_vals = UintVal at # map (\<lambda>(k, v). EntryVal k v) (perm (case t of None \<Rightarrow> [] | Some m \<Rightarrow> m)),
                        snap_err = None\<rparr>\<rparr>"

text \<open>
  \<open>load\<close>, in the pieces between which other clients of the storage may run: the read of HEAD, the read
  of the snapshot, reading and playing the entries, installing the table, and the write of a new snapshot.
  An error of reading the snapshot is only logged.
\<close>

definition load_replay :: "jid \<Rightarrow> jid \<Rightarrow> 'v table option \<Rightarrow> 'v jstorage \<Rightarrow> 'v table option go" where
  "load_replay head at t s =
     bindR (Queue_Open head at s) (\<lambda>r.
     case r of None \<Rightarrow> Ok t | Some (cursor, stop) \<Rightarrow> replay s cursor stop t)"

definition load_install :: "int \<Rightarrow> jid \<Rightarrow> 'v table option \<Rightarrow> 'v jstore \<Rightarrow> 'v jstore" where
  "load_install now head t st = st\<lparr>js_table := t, js_at := head, js_loadTime := now\<rparr>"

definition load_snapshot :: "('v table \<Rightarrow> 'v table) \<Rightarrow> jid \<Rightarrow> jid \<Rightarrow> 'v table option \<Rightarrow> 'v jstorage \<Rightarrow> 'v jstorage" where
  "load_snapshot perm head at t s = (if subID head at > 10 then putSnapshot perm head t s else s)"

definition load :: "('v table \<Rightarrow> 'v table) \<Rightarrow> int \<Rightarrow> 'v jstorage \<Rightarrow> 'v jstore \<Rightarrow> (unit go \<times> 'v jstorage \<times> 'v jstore)" where
  "load perm now s st =
     (case ReadHead s of
        Err err \<Rightarrow> (Err err, s, st)
      | Panic \<Rightarrow> (Panic, s, st)
      | Ok head \<Rightarrow>
          if head = js_at st then (Ok (), s, st)
          else (case getSnapshot s of
                  (at, t, err) \<Rightarrow>
                    (case load_replay head at t s of
                       Err err \<Rightarrow> (Err err, s, st)
                     | Panic \<Rightarrow> (Panic, s, st)
                     | Ok t \<Rightarrow> (Ok (), load_snapshot perm head at t s, load_install now head t st))))"

definition stale :: "int \<Rightarrow> 'v jstore \<Rightarrow> bool" where
  "stale now st \<longleftrightarrow> now - js_loadTime st > 1000000000"

definition Store_All :: "('v table \<Rightarrow> 'v table) \<Rightarrow> int \<Rightarrow> 'v jstorage \<Rightarrow> 'v jstore \<Rightarrow> ('v table go \<times> 'v jstorage \<times> 'v jstore)" where
  "Store_All perm now s st =
     (case load perm now s st of
        (r, s, st) \<Rightarrow> (bindR r (\<lambda>_. Ok (perm (case js_table st of None \<Rightarrow> [] | Some m \<Rightarrow> m))), s, st))"

definition Store_Keys :: "('v table \<Rightarrow> 'v table) \<Rightarrow> int \<Rightarrow> 'v jstorage \<Rightarrow> 'v jstore \<Rightarrow> (string list go \<times> 'v jstorage \<times> 'v jstore)" where
  "Store_Keys perm now s st =
     (case load perm now s st of
        (r, s, st) \<Rightarrow> (bindR r (\<lambda>_. Ok (map fst (perm (case js_table st of None \<Rightarrow> [] | Some m \<Rightarrow> m)))), s, st))"

definition Store_Values :: "('v table \<Rightarrow> 'v table) \<Rightarrow> int \<Rightarrow> 'v jstorage \<Rightarrow> 'v jstore \<Rightarrow> ('v table go \<times> 'v jstorage \<times> 'v jstore)" where
  "Store_Values perm now s st =
     (case load perm now s st of
        (r, s, st) \<Rightarrow> (bindR r (\<lambda>_. Ok (perm (case js_table st of None \<Rightarrow> [] | Some m \<Rightarrow> m))), s, st))"

definition CreateStore :: "'v jstorage \<Rightarrow> 'v jstorage \<times> 'v jstore" where
  "CreateStore s = (Queue_Create Nil_ID s, newStore)"

definition Journal_Open :: "'v jstorage \<Rightarrow> unit go" where
  "Journal_Open s = (case ReadHead s of Ok _ \<Rightarrow> Ok () | Panic \<Rightarrow> Panic | Err _ \<Rightarrow> Err (Errorf ''no such journal''))"

definition OpenStore :: "'v jstorage \<Rightarrow> 'v jstore go" where
  "OpenStore s = bindR (Journal_Open s) (\<lambda>_. Ok newStore)"

definition ErrNoSuchKey :: goerror where "ErrNoSuchKey = Errorf ''no such key''"
definition ErrKeyExists :: goerror where "ErrKeyExists = Errorf ''key already exists''"
definition ErrConstraint :: goerror where "ErrConstraint = Errorf ''constraint failed''"
definition ErrRetriesExceeded :: goerror where "ErrRetriesExceeded = Errorf ''config journal unavailable''"

definition Store_Lookup ::
    "('v table \<Rightarrow> 'v table) \<Rightarrow> int \<Rightarrow> string \<Rightarrow> 'v jstorage \<Rightarrow> 'v jstore \<Rightarrow> ('v go \<times> 'v jstorage \<times> 'v jstore)" where
  "Store_Lookup perm now k s st =
     (let fresh = stale now st;
          find = (\<lambda>(r, s, st).
            (bindR r (\<lambda>_. case rd (js_table st) k of None \<Rightarrow> Err ErrNoSuchKey | Some v \<Rightarrow> Ok v), s, st))
      in if fresh then find (load perm now s st)
         else case rd (js_table st) k of
                Some v \<Rightarrow> (Ok v, s, st)
              | None \<Rightarrow> find (load perm now s st))"

text \<open>The changes of the table: the check each one makes before it commits, and its records.\<close>

datatype 'v change =
    InsertC string 'v
  | MoveC string string 'v
  | DeleteC string "('v \<Rightarrow> bool) option"
  | UpdateC string 'v "('v \<Rightarrow> bool) option"

definition withConstraint :: "string \<Rightarrow> ('v \<Rightarrow> bool) option \<Rightarrow> (string \<rightharpoonup> 'v) \<Rightarrow> goerror option" where
  "withConstraint k c t =
     (case t k of
        None \<Rightarrow> Some ErrNoSuchKey
      | Some old \<Rightarrow> (case c of None \<Rightarrow> None | Some p \<Rightarrow> if p old then None else Some ErrConstraint))"

fun check :: "'v change \<Rightarrow> (string \<rightharpoonup> 'v) \<Rightarrow> goerror option" where
  "check (InsertC k v) t = (if t k \<noteq> None then Some ErrKeyExists else None)"
| "check (MoveC old k v) t =
     (if t old = None then Some ErrNoSuchKey else if t k \<noteq> None then Some ErrKeyExists else None)"
| "check (DeleteC k c) t = withConstraint k c t"
| "check (UpdateC k v c) t = withConstraint k c t"

fun recordsOf :: "'v change \<Rightarrow> 'v jrecord list" where
  "recordsOf (InsertC k v) = [Add k v]"
| "recordsOf (MoveC old k v) = [Delete old, Add k v]"
| "recordsOf (DeleteC k c) = [Delete k]"
| "recordsOf (UpdateC k v c) = [Update k v]"

definition maxRetries :: nat where "maxRetries = 10"

text \<open>\<open>commit\<close>, run without interference from other clients; \<open>n\<close> counts the attempts that are left.\<close>

fun commit_loop :: "bool \<Rightarrow> ('v table \<Rightarrow> 'v table) \<Rightarrow> int \<Rightarrow> 'v change \<Rightarrow> nat \<Rightarrow> 'v jstorage \<Rightarrow> 'v jstore \<Rightarrow>
    (unit go \<times> 'v jstorage \<times> 'v jstore)" where
  "commit_loop excl perm now ch 0 s st = (Err ErrRetriesExceeded, s, st)"
| "commit_loop excl perm now ch (Suc n) s st =
     (case load perm now s st of
        (Err err, s, st) \<Rightarrow> (Err err, s, st)
      | (Panic, s, st) \<Rightarrow> (Panic, s, st)
      | (Ok _, s, st) \<Rightarrow>
          (case check ch (rd (js_table st)) of
             Some err \<Rightarrow> (Err err, s, st)
           | None \<Rightarrow>
               (case CommitAt excl (js_at st) (recordsOf ch) s of
                  (Some err, s) \<Rightarrow> if err = ErrExist then commit_loop excl perm now ch n s st else (Err err, s, st)
                | (None, s) \<Rightarrow> (Ok (), s, st\<lparr>js_at := Nil_ID\<rparr>))))"

definition commit :: "bool \<Rightarrow> ('v table \<Rightarrow> 'v table) \<Rightarrow> int \<Rightarrow> 'v change \<Rightarrow> 'v jstorage \<Rightarrow> 'v jstore \<Rightarrow>
    (unit go \<times> 'v jstorage \<times> 'v jstore)" where
  "commit excl perm now ch s st = commit_loop excl perm now ch maxRetries s st"

definition Store_Insert where "Store_Insert excl perm now k v = commit excl perm now (InsertC k v)"
definition Store_Move where "Store_Move excl perm now old k v = commit excl perm now (MoveC old k v)"
definition Store_Delete where "Store_Delete excl perm now k c = commit excl perm now (DeleteC k c)"
definition Store_Update where "Store_Update excl perm now k v c = commit excl perm now (UpdateC k v c)"

section \<open>Numbers and files\<close>

lemma of_char_digit: "d < 10 \<Longrightarrow> of_char (digit d) = 48 + d"
  by (simp add: digit_def of_char_of)

lemma digit_space: "d < 10 \<Longrightarrow> digit d \<noteq> CHR '' ''"
proof
  assume "d < 10" "digit d = CHR '' ''"
  then have "(of_char (digit d) :: nat) = of_char CHR '' ''" by simp
  with \<open>d < 10\<close> show False by (simp add: of_char_digit)
qed

lemma FormatUint_nonempty: "FormatUint n \<noteq> []"
  by (subst FormatUint.simps) simp

lemma FormatUint_no_space: "CHR '' '' \<notin> set (FormatUint n)"
proof (induction n rule: FormatUint.induct)
  case (1 n)
  show ?case
  proof (cases "n < 10")
    case True
    then show ?thesis using digit_space [of n] by (subst FormatUint.simps) auto
  next
    case False
    then show ?thesis using 1 digit_space [of "n mod 10"] by (subst FormatUint.simps) auto
  qed
qed

lemma ParseUint_loop_append:
  "ParseUint_loop n (xs @ ys) = (case ParseUint_loop n xs of None \<Rightarrow> None | Some m \<Rightarrow> ParseUint_loop m ys)"
  by (induction n xs rule: ParseUint_loop.induct) (simp_all add: Let_def)

lemma ParseUint_FormatUint: "n < 2 ^ 64 \<Longrightarrow> ParseUint_loop 0 (FormatUint n) = Some n"
proof (induction n rule: FormatUint.induct)
  case (1 n)
  show ?case
  proof (cases "n < 10")
    case True
    with 1 show ?thesis by (subst FormatUint.simps) (simp add: of_char_digit)
  next
    case False
    then show ?thesis using 1 by (subst FormatUint.simps) (simp add: ParseUint_loop_append of_char_digit Let_def)
  qed
qed

lemma Split_word: "CHR '' '' \<notin> set s \<Longrightarrow> Split s = [s]"
  by (induction s) auto

lemma Split_two: "CHR '' '' \<notin> set s \<Longrightarrow> Split (s @ '' '' @ r) = s # Split r"
  by (induction s) auto

lemma parseID_one: "n < 2 ^ 64 \<Longrightarrow> parseID (FormatUint n) = Some (n, Nil_ID)"
  by (simp add: parseID_def Split_word FormatUint_no_space ParseUint_def FormatUint_nonempty ParseUint_FormatUint)

lemma parseID_two: "n < 2 ^ 64 \<Longrightarrow> b < 2 ^ 64 \<Longrightarrow> parseID (FormatUint n @ '' '' @ FormatUint b) = Some (n, b)"
  using Split_two [OF FormatUint_no_space, of n "FormatUint b"]
  by (simp add: parseID_def Split_word FormatUint_no_space ParseUint_def FormatUint_nonempty ParseUint_FormatUint)

lemma readID_parsed: "f 0 = Some b \<Longrightarrow> parseID b = Some r \<Longrightarrow> readID f rnd = Ok r"
  by (simp add: readID_def readID_loop.simps [of f rnd 0] getFile_def)

lemma ReadHead_eq: "headFile s = Some (FormatUint n) \<Longrightarrow> n < 2 ^ 64 \<Longrightarrow> ReadHead s = Ok n"
  by (simp add: ReadHead_def readID_parsed [OF _ parseID_one])

lemma ReadTail_eq:
  "tailFile s = Some (FormatUint n @ '' '' @ FormatUint b) \<Longrightarrow> n < 2 ^ 64 \<Longrightarrow> b < 2 ^ 64 \<Longrightarrow> ReadTail s = Ok (n, b)"
  by (simp only: ReadTail_def readID_parsed [OF _ parseID_two])

lemma ID_simps [simp]:
  "i < 2 ^ 64 - 1 \<Longrightarrow> nextID i = i + 1"
  "1 \<le> i \<Longrightarrow> i < 2 ^ 64 \<Longrightarrow> prevID i = i - 1"
  "j \<le> i \<Longrightarrow> i < 2 ^ 64 \<Longrightarrow> subID i j = i - j"
proof -
  show "i < 2 ^ 64 - 1 \<Longrightarrow> nextID i = i + 1" by (simp add: nextID_def)
  assume "1 \<le> i" "i < 2 ^ 64"
  then have "i + (2 ^ 64 - 1) = (i - 1) + 2 ^ 64" by simp
  then have "prevID i = (i - 1) mod 2 ^ 64" by (simp only: prevID_def mod_add_self2)
  then show "prevID i = i - 1" using \<open>i < 2 ^ 64\<close> by simp
next
  assume "j \<le> i" "i < 2 ^ 64"
  then have "i + (2 ^ 64 - j) = (i - j) + 2 ^ 64" by simp
  then have "subID i j = (i - j) mod 2 ^ 64" by (simp only: subID_def mod_add_self2)
  then show "subID i j = i - j" using \<open>i < 2 ^ 64\<close> by simp
qed

lemma map_of_update [simp]: "map_of (AList.update k v m) = (map_of m)(k \<mapsto> v)"
  by (rule ext) (simp add: update_conv)

lemma getSnapshot_loop_entries:
  "distinct (map fst t) \<Longrightarrow> \<exists>t'. getSnapshot_loop fin t (map (\<lambda>(k, v). EntryVal k v) m) = (Some t', fin) \<and>
     map_of t' = map_of t ++ map_of (rev m) \<and> distinct (map fst t')"
proof (induction m arbitrary: t)
  case (Cons e m)
  then show ?case
    using Cons.IH [of "AList.update (fst e) (snd e) t"]
    by (cases e) (fastforce simp: distinct_update map_add_assoc)
qed simp

lemma map_of_rev_distinct: "distinct (map fst m) \<Longrightarrow> map_of (rev m) = map_of m"
  by (simp add: map_of_inject_set rev_map [symmetric])

text \<open>Reading a snapshot file that \<open>putSnapshot\<close> wrote.\<close>

definition permutes :: "('v table \<Rightarrow> 'v table) \<Rightarrow> bool" where
  "permutes perm \<longleftrightarrow> (\<forall>m. distinct (map fst m) \<longrightarrow> map_of (perm m) = map_of m \<and> distinct (map fst (perm m)))"

lemma putSnapshot_files [simp]:
  "entryFile (putSnapshot perm at t s) = entryFile s" "headFile (putSnapshot perm at t s) = headFile s"
  "tailFile (putSnapshot perm at t s) = tailFile s"
  by (simp_all add: putSnapshot_def)

lemma getSnapshot_putSnapshot:
  assumes "permutes perm" "distinct (map fst m)"
  shows "\<exists>t. getSnapshot (putSnapshot perm at (Some m) s) = (at, Some t, None) \<and> map_of t = map_of m \<and> distinct (map fst t)"
  using assms getSnapshot_loop_entries [of "[]" None "perm m"] map_of_rev_distinct [of "perm m"]
  by (auto simp: getSnapshot_def putSnapshot_def permutes_def)

end
