(* ===== verification/JournalSys.thy ===== *)
theory JournalSys
  imports Journal
begin

text \<open>
  Clients of one journal that run at the same time: each process goes through \<open>commit\<close> and \<open>load\<close>
  in steps, one for each access to the storage or to the state of its store, in any interleaving.
  A file is written in one step, as an engine with atomic puts does; in particular the snapshot, of which the source says
  that its put should be atomic.
  Several processes may share a store.  A process that stops for ever is one that is never scheduled again.
\<close>

section \<open>Processes\<close>

datatype 'v task = Read | Change "'v change" nat

datatype 'v phase =
    Done "unit go"
  | AtHead "'v task"
  | AtSnap jid "'v task"
  | AtReplay jid jid "'v table option" "'v task"
  | AtPutSnap jid jid "'v table option" "'v task"
  | AtCheck "'v change" nat
  | AtPut jid "'v change" nat
  | AtWriteHead jid "'v change"
  | AtForce

record 'v sys =
  sy_files :: "'v jstorage"
  sy_store :: "nat \<Rightarrow> 'v jstore"
  sy_phase :: "nat \<Rightarrow> 'v phase"

fun afterLoad :: "'v task \<Rightarrow> 'v phase" where
  "afterLoad Read = Done (Ok ())"
| "afterLoad (Change ch n) = AtCheck ch n"

text \<open>The next step of process \<open>p\<close>, whose store is \<open>i\<close>.\<close>

definition run :: "('v table \<Rightarrow> 'v table) \<Rightarrow> int \<Rightarrow> nat \<Rightarrow> nat \<Rightarrow> 'v sys \<Rightarrow> 'v sys" where
  "run perm now i p y =
     (let s = sy_files y; st = sy_store y i;
          goto = (\<lambda>ph y. y\<lparr>sy_phase := (sy_phase y)(p := ph)\<rparr>);
          files = (\<lambda>s y. y\<lparr>sy_files := s\<rparr>);
          store = (\<lambda>st y. y\<lparr>sy_store := (sy_store y)(i := st)\<rparr>)
      in case sy_phase y p of
           Done r \<Rightarrow> y
         | AtHead task \<Rightarrow>
             (case ReadHead s of
                Err err \<Rightarrow> goto (Done (Err err)) y
              | Panic \<Rightarrow> goto (Done Panic) y
              | Ok head \<Rightarrow> if head = js_at st then goto (afterLoad task) y else goto (AtSnap head task) y)
         | AtSnap head task \<Rightarrow> (case getSnapshot s of (at, t, err) \<Rightarrow> goto (AtReplay head at t task) y)
         | AtReplay head at t task \<Rightarrow>
             (case load_replay head at t s of
                Err err \<Rightarrow> goto (Done (Err err)) y
              | Panic \<Rightarrow> goto (Done Panic) y
              | Ok t \<Rightarrow> goto (AtPutSnap head at t task) (store (load_install now head t st) y))
         | AtPutSnap head at t task \<Rightarrow> goto (afterLoad task) (files (load_snapshot perm head at t s) y)
         | AtCheck ch n \<Rightarrow>
             (case check ch (rd (js_table st)) of
                Some err \<Rightarrow> goto (Done (Err err)) y
              | None \<Rightarrow> goto (AtPut (js_at st) ch n) y)
         | AtPut at ch n \<Rightarrow>
             (case putEntry True at (recordsOf ch) s of
                (Some err, s) \<Rightarrow>
                  (if err = ErrExist then
                     (if n \<le> 1 then goto (Done (Err ErrRetriesExceeded)) y else goto (AtHead (Change ch (n - 1))) y)
                   else goto (Done (Err err)) y)
              | (None, s) \<Rightarrow> goto (AtWriteHead at ch) (files s y))
         | AtWriteHead at ch \<Rightarrow> goto AtForce (files (writeHead (nextID at) s) y)
         | AtForce \<Rightarrow> goto (Done (Ok ())) (store (st\<lparr>js_at := Nil_ID\<rparr>) y))"

definition start :: "nat \<Rightarrow> 'v task \<Rightarrow> 'v sys \<Rightarrow> 'v sys" where
  "start p task y = y\<lparr>sy_phase := (sy_phase y)(p := AtHead task)\<rparr>"

definition emptyStorage :: "'v jstorage" where
  "emptyStorage = \<lparr>headFile = None, tailFile = None, entryFile = Map.empty, snapFile = None\<rparr>"

definition init :: "'v sys" where
  "init = \<lparr>sy_files = Queue_Create Nil_ID emptyStorage, sy_store = (\<lambda>_. newStore), sy_phase = (\<lambda>_. Done (Ok ()))\<rparr>"

text \<open>The states that clients reach who start only changes that satisfy \<open>Q\<close>.\<close>

fun taskOK :: "('v change \<Rightarrow> bool) \<Rightarrow> 'v task \<Rightarrow> bool" where
  "taskOK Q Read = True"
| "taskOK Q (Change ch n) = Q ch"

inductive jreach :: "('v change \<Rightarrow> bool) \<Rightarrow> 'v sys \<Rightarrow> bool" for Q where
  Init: "jreach Q init"
| Start: "jreach Q y \<Longrightarrow> sy_phase y p = Done r \<Longrightarrow> taskOK Q task \<Longrightarrow> jreach Q (start p task y)"
| Run: "jreach Q y \<Longrightarrow> permutes perm \<Longrightarrow> jreach Q (run perm now i p y)"
| OpenStore: "jreach Q y \<Longrightarrow> jreach Q (y\<lparr>sy_store := (sy_store y)(i := newStore)\<rparr>)"

section \<open>The log and its state\<close>

type_synonym 'v log = "jid \<rightharpoonup> 'v jrecord list"

fun applyR :: "'v jrecord \<Rightarrow> (string \<rightharpoonup> 'v) \<Rightarrow> (string \<rightharpoonup> 'v)" where
  "applyR (Add k v) m = m(k \<mapsto> v)"
| "applyR (Update k v) m = m(k \<mapsto> v)"
| "applyR (Delete k) m = m(k := None)"
| "applyR Unknown m = m"

fun keysOf :: "'v jrecord \<Rightarrow> string set" where
  "keysOf (Add k v) = {k}"
| "keysOf (Update k v) = {k}"
| "keysOf (Delete k) = {k}"
| "keysOf Unknown = {}"

definition applyRs :: "'v jrecord list \<Rightarrow> (string \<rightharpoonup> 'v) \<Rightarrow> (string \<rightharpoonup> 'v)" where
  "applyRs rs m = fold applyR rs m"

definition writes :: "'v jrecord list \<Rightarrow> string set" where
  "writes rs = (\<Union>r \<in> set rs. keysOf r)"

text \<open>The table after the first \<open>n\<close> entries.\<close>

primrec stateAt :: "'v log \<Rightarrow> nat \<Rightarrow> (string \<rightharpoonup> 'v)" where
  "stateAt es 0 = Map.empty"
| "stateAt es (Suc n) = applyRs (the (es (Suc n))) (stateAt es n)"

definition touched :: "'v log \<Rightarrow> nat \<Rightarrow> nat \<Rightarrow> string set" where
  "touched es a n = (\<Union>i \<in> {a<..n}. writes (the (es i)))"

text \<open>A table that may be trusted at position \<open>a\<close>: only keys that later entries write may differ.\<close>

definition goodAt :: "'v log \<Rightarrow> nat \<Rightarrow> nat \<Rightarrow> (string \<rightharpoonup> 'v) \<Rightarrow> bool" where
  "goodAt es n a m \<longleftrightarrow> (\<forall>k. k \<notin> touched es a n \<longrightarrow> m k = stateAt es n k)"

lemma applyR_other: "k \<notin> keysOf r \<Longrightarrow> applyR r m k = m k"
  by (cases r) auto

lemma applyR_indep: "k \<in> keysOf r \<Longrightarrow> applyR r m k = applyR r m' k"
  by (cases r) auto

lemma applyRs_other: "k \<notin> writes rs \<Longrightarrow> applyRs rs m k = m k"
  by (induction rs arbitrary: m) (simp_all add: applyRs_def writes_def applyR_other)

lemma applyRs_agree: "m k = m' k \<or> k \<in> writes rs \<Longrightarrow> applyRs rs m k = applyRs rs m' k"
proof (induction rs arbitrary: m m')
  case (Cons r rs)
  have "applyR r m k = applyR r m' k \<or> k \<in> writes rs"
    using Cons.prems applyR_indep [of k r m m'] applyR_other [of k r]
    by (cases "k \<in> keysOf r") (auto simp: writes_def)
  from Cons.IH [of "applyR r m" "applyR r m'", OF this] show ?case by (simp add: applyRs_def)
qed (simp_all add: applyRs_def writes_def)

lemma stateAt_other: "a \<le> n \<Longrightarrow> k \<notin> touched es a n \<Longrightarrow> stateAt es n k = stateAt es a k"
proof (induction n)
  case (Suc n)
  show ?case
  proof (cases "a = Suc n")
    case False
    with Suc have "k \<notin> touched es a n" "k \<notin> writes (the (es (Suc n)))" by (auto simp: touched_def)
    with Suc False show ?thesis by (simp add: applyRs_other)
  qed simp
qed simp

lemma stateAt_cong: "(\<And>i. 1 \<le> i \<Longrightarrow> i \<le> n \<Longrightarrow> es i = es' i) \<Longrightarrow> stateAt es n = stateAt es' n"
  by (induction n) simp_all

lemma goodAt_exact: "goodAt es n n m \<Longrightarrow> m = stateAt es n"
  by (rule ext) (simp add: goodAt_def touched_def)

lemma goodAt_stateAt: "a \<le> n \<Longrightarrow> goodAt es n a (stateAt es a)"
  by (simp add: goodAt_def stateAt_other)

lemma goodAt_mono: "goodAt es n b m \<Longrightarrow> a \<le> b \<Longrightarrow> goodAt es n a m"
  by (auto simp: goodAt_def touched_def)

lemma goodAt_append:
  assumes "goodAt es n a m" "a \<le> n"
  shows "goodAt (es(Suc n \<mapsto> rs)) (Suc n) a m"
proof -
  have st: "stateAt (es(Suc n \<mapsto> rs)) n = stateAt es n" by (rule stateAt_cong) simp
  have "touched (es(Suc n \<mapsto> rs)) a (Suc n) = touched es a n \<union> writes rs"
  proof -
    have "{a<..Suc n} = insert (Suc n) {a<..n}" using assms(2) by auto
    then show ?thesis by (auto simp: touched_def split: if_splits)
  qed
  with assms(1) st show ?thesis by (simp add: goodAt_def applyRs_other)
qed

text \<open>Playing records on a table.\<close>

lemma playRecords_Ok:
  "playRecords rs (Some m) = Ok t \<Longrightarrow> distinct (map fst m) \<Longrightarrow>
   \<exists>m'. t = Some m' \<and> distinct (map fst m') \<and> map_of m' = applyRs rs (map_of m)"
proof (induction rs arbitrary: m)
  case Nil
  then show ?case by (auto simp: applyRs_def)
next
  case (Cons r rs)
  then obtain t1 where t1: "playRecord r (Some m) = Ok t1" "playRecords rs t1 = Ok t" by (auto simp: go_inv)
  have "\<exists>m1. t1 = Some m1 \<and> distinct (map fst m1) \<and> map_of m1 = applyR r (map_of m)"
    using t1(1) Cons.prems(2)
    by (cases r) (auto simp: distinct_update distinct_delete delete_conv' split: if_splits)
  with Cons.IH t1(2) show ?case by (fastforce simp: applyRs_def)
qed

text \<open>Replaying a range of the log over a table that may be trusted at the start of the range.\<close>

lemma replay_goodAt:
  assumes dom: "dom (entryFile s) = {1..n}"
  shows "replay s c h (Some m) = Ok t \<Longrightarrow> c \<le> h \<Longrightarrow> h \<le> n \<Longrightarrow> distinct (map fst m) \<Longrightarrow> goodAt (entryFile s) n c (map_of m) \<Longrightarrow>
    \<exists>m'. t = Some m' \<and> distinct (map fst m') \<and> goodAt (entryFile s) n h (map_of m')"
proof (induction "h - c" arbitrary: c m)
  case 0
  then show ?case by (auto simp: replay.simps [of s c])
next
  case (Suc x)
  let ?es = "entryFile s"
  have c: "c < h" "\<not> c \<ge> h" using Suc.hyps(2) by simp_all
  obtain b where b: "?es (Suc c) = Some b" using dom c Suc.prems(3) by (fastforce simp: dom_def set_eq_iff)
  obtain t1 where t1: "playRecords b (Some m) = Ok t1" "replay s (Suc c) h t1 = Ok t"
    using Suc.prems(1) c b by (auto simp: replay.simps [of s c] getFile_def go_inv)
  obtain m1 where m1: "t1 = Some m1" "distinct (map fst m1)" "map_of m1 = applyRs b (map_of m)"
    using playRecords_Ok [OF t1(1) Suc.prems(4)] by blast
  have "goodAt ?es n (Suc c) (map_of m1)"
    unfolding goodAt_def
  proof (intro allI impI)
    fix k assume k: "k \<notin> touched ?es (Suc c) n"
    have "k \<in> writes b \<or> k \<notin> touched ?es c n"
    proof -
      have "{c<..n} = insert (Suc c) {Suc c<..n}" using c Suc.prems(3) by auto
      with k b show ?thesis by (auto simp: touched_def)
    qed
    then show "map_of m1 k = stateAt ?es n k"
    proof
      assume w: "k \<in> writes b"
      have "stateAt ?es n k = stateAt ?es (Suc c) k" using stateAt_other [OF _ k] c Suc.prems(3) by simp
      also have "\<dots> = applyRs b (stateAt ?es c) k" using b by simp
      also have "\<dots> = map_of m1 k" using applyRs_agree [of "stateAt ?es c" k "map_of m" b] w m1(3) by simp
      finally show ?thesis by simp
    next
      assume nt: "k \<notin> touched ?es c n"
      have "Suc c \<in> {c<..n}" using c Suc.prems(3) by simp
      then have "k \<notin> writes b" using nt b unfolding touched_def by force
      then show ?thesis using Suc.prems(5) nt m1(3) by (simp add: goodAt_def applyRs_other)
    qed
  qed
  with Suc.hyps(1) [of "Suc c" m1] Suc.hyps(2) Suc.prems(3) t1(2) m1(1,2) c(1) show ?case by simp
qed

section \<open>The invariant\<close>

text \<open>Each entry is a change whose check held in the state before it.\<close>

definition validLog :: "('v change \<Rightarrow> bool) \<Rightarrow> 'v log \<Rightarrow> nat \<Rightarrow> bool" where
  "validLog Q es n \<longleftrightarrow> (\<forall>i < n. \<exists>ch. Q ch \<and> es (Suc i) = Some (recordsOf ch) \<and> check ch (stateAt es i) = None)"

definition tableOK :: "'v log \<Rightarrow> nat \<Rightarrow> nat \<Rightarrow> 'v table option \<Rightarrow> bool" where
  "tableOK es n a t \<longleftrightarrow> (\<exists>m. t = Some m \<and> distinct (map fst m) \<and> goodAt es n a (map_of m))"

definition snapFileOK :: "'v log \<Rightarrow> nat \<Rightarrow> 'v jstorage \<Rightarrow> bool" where
  "snapFileOK es n s \<longleftrightarrow> (case getSnapshot s of (a, t, err) \<Rightarrow> a \<le> n \<and> tableOK es n a t)"

definition storeOK :: "'v log \<Rightarrow> nat \<Rightarrow> nat \<Rightarrow> 'v jstore \<Rightarrow> bool" where
  "storeOK es n h st \<longleftrightarrow> js_at st \<le> h \<and> goodAt es n (js_at st) (rd (js_table st))"

fun phaseOK :: "('v change \<Rightarrow> bool) \<Rightarrow> 'v log \<Rightarrow> nat \<Rightarrow> nat \<Rightarrow> 'v phase \<Rightarrow> bool" where
  "phaseOK Q es n h (AtHead task) = taskOK Q task"
| "phaseOK Q es n h (AtSnap h' task) = (1 \<le> h' \<and> h' \<le> h \<and> taskOK Q task)"
| "phaseOK Q es n h (AtReplay h' a t task) = (1 \<le> h' \<and> h' \<le> h \<and> a \<le> n \<and> tableOK es n a t \<and> taskOK Q task)"
| "phaseOK Q es n h (AtPutSnap h' a t task) = (1 \<le> h' \<and> h' \<le> h \<and> tableOK es n h' t \<and> taskOK Q task)"
| "phaseOK Q es n h (AtCheck ch k) = Q ch"
| "phaseOK Q es n h (AtPut at ch k) = (at \<le> h \<and> (at = n \<longrightarrow> check ch (stateAt es n) = None) \<and> Q ch)"
| "phaseOK Q es n h (AtWriteHead at ch) = (at = h \<and> n = Suc h)"
| "phaseOK Q es n h _ = True"

definition filesOK :: "('v change \<Rightarrow> bool) \<Rightarrow> nat \<Rightarrow> nat \<Rightarrow> 'v jstorage \<Rightarrow> bool" where
  "filesOK Q n h s \<longleftrightarrow> dom (entryFile s) = {1..n} \<and> n < 2 ^ 64 - 1 \<and> h \<le> n \<and> n \<le> Suc h \<and>
     headFile s = Some (FormatUint h) \<and> tailFile s = Some (FormatUint 1 @ '' '' @ FormatUint 0) \<and>
     validLog Q (entryFile s) n \<and> snapFileOK (entryFile s) n s"

definition jinv :: "('v change \<Rightarrow> bool) \<Rightarrow> nat \<Rightarrow> nat \<Rightarrow> 'v sys \<Rightarrow> bool" where
  "jinv Q n h y \<longleftrightarrow> filesOK Q n h (sy_files y) \<and>
     (\<forall>i. storeOK (entryFile (sy_files y)) n h (sy_store y i)) \<and>
     (\<forall>p. phaseOK Q (entryFile (sy_files y)) n h (sy_phase y p)) \<and>
     (\<forall>p q a b c d. sy_phase y p = AtWriteHead a b \<longrightarrow> sy_phase y q = AtWriteHead c d \<longrightarrow> p = q)"

lemma storeOK_new: "storeOK es n h newStore"
  using goodAt_stateAt [of 0 n es] by (simp add: storeOK_def newStore_def rd_def Nil_ID_def)

lemma tableOK_append: "tableOK es n a t \<Longrightarrow> a \<le> n \<Longrightarrow> tableOK (es(Suc n \<mapsto> rs)) (Suc n) a t"
  using goodAt_append by (fastforce simp: tableOK_def)

lemma storeOK_append: "storeOK es n h st \<Longrightarrow> h \<le> n \<Longrightarrow> storeOK (es(Suc n \<mapsto> rs)) (Suc n) h st"
  using goodAt_append [of es n "js_at st"] by (simp add: storeOK_def)

lemma phaseOK_append: "phaseOK Q es n n ph \<Longrightarrow> phaseOK Q (es(Suc n \<mapsto> rs)) (Suc n) n ph"
  using tableOK_append by (cases ph) auto

lemma phaseOK_head: "phaseOK Q es n h ph \<Longrightarrow> (\<And>a ch. ph \<noteq> AtWriteHead a ch) \<Longrightarrow> phaseOK Q es n (Suc h) ph"
  by (cases ph) auto

lemma storeOK_head: "storeOK es n h st \<Longrightarrow> storeOK es n (Suc h) st"
  by (simp add: storeOK_def)

lemma validLog_append:
  assumes "validLog Q es n" "check ch (stateAt es n) = None" "Q ch"
  shows "validLog Q (es(Suc n \<mapsto> recordsOf ch)) (Suc n)"
proof -
  have "stateAt (es(Suc n \<mapsto> recordsOf ch)) i = stateAt es i" if "i \<le> n" for i
    using that by (intro stateAt_cong) simp
  note st = this
  show ?thesis unfolding validLog_def
  proof (intro allI impI)
    fix i assume "i < Suc n"
    then consider "i = n" | "i < n" by linarith
    then show "\<exists>c. Q c \<and> (es(Suc n \<mapsto> recordsOf ch)) (Suc i) = Some (recordsOf c) \<and>
        check c (stateAt (es(Suc n \<mapsto> recordsOf ch)) i) = None"
      by cases (use assms st in \<open>auto simp: validLog_def\<close>)
  qed
qed

lemma inv_init: "jinv Q 0 0 init"
  using storeOK_new goodAt_stateAt [of 0 0]
  by (auto simp: jinv_def init_def filesOK_def Queue_Create_def writeTail_def writeHead_def emptyStorage_def Nil_ID_def
      validLog_def snapFileOK_def getSnapshot_def tableOK_def)

lemma inv_head:
  assumes "jinv Q n h y"
  shows "ReadHead (sy_files y) = Ok h"
  using assms ReadHead_eq [of "sy_files y" h] by (simp add: jinv_def filesOK_def)

lemma load_replay_tableOK:
  assumes f: "filesOK Q n h s" and h': "1 \<le> h'" "h' \<le> n" and a: "a \<le> n" and t: "tableOK (entryFile s) n a t"
    and r: "load_replay h' a t s = Ok t'"
  shows "tableOK (entryFile s) n h' t'"
proof -
  obtain m where m: "t = Some m" "distinct (map fst m)" "goodAt (entryFile s) n a (map_of m)" using t by (auto simp: tableOK_def)
  have tail: "ReadTail s = Ok (1, 0)" using f ReadTail_eq [of s 1 0] by (simp add: filesOK_def)
  have "Queue_Open h' a s = Ok (Some (a - 1, h'))"
    using h' a f tail by (auto simp: Queue_Open_def Nil_ID_def filesOK_def)
  then have p: "replay s (a - 1) h' (Some m) = Ok t'" using r m(1) by (simp add: load_replay_def)
  show ?thesis
  proof (cases "a - 1 \<le> h'")
    case True
    from replay_goodAt [OF _ p True h'(2) m(2) goodAt_mono [OF m(3)]] f show ?thesis
      by (simp add: filesOK_def tableOK_def)
  next
    case False
    then have "t' = Some m" using p by (simp add: replay.simps [of s])
    with m(2) goodAt_mono [OF m(3), of h'] False show ?thesis by (simp add: tableOK_def)
  qed
qed

lemma snapFileOK_put:
  assumes "tableOK (entryFile s) n a t" "a \<le> n" "permutes perm"
  shows "snapFileOK (entryFile s) n (putSnapshot perm a t s)"
proof -
  obtain m where m: "t = Some m" "distinct (map fst m)" "goodAt (entryFile s) n a (map_of m)"
    using assms(1) by (auto simp: tableOK_def)
  with getSnapshot_putSnapshot [OF assms(3) m(2), of a s] assms(2) show ?thesis
    by (auto simp: snapFileOK_def tableOK_def)
qed

lemma snapFileOK_cong: "snapFile s' = snapFile s \<Longrightarrow> snapFileOK es n s' = snapFileOK es n s"
  by (simp add: snapFileOK_def getSnapshot_def)

text \<open>The steps, one lemma for each kind.\<close>

lemma inv_goto:
  assumes "jinv Q n h y" "phaseOK Q (entryFile (sy_files y)) n h ph" "\<And>a ch. ph \<noteq> AtWriteHead a ch"
  shows "jinv Q n h (y\<lparr>sy_phase := (sy_phase y)(p := ph)\<rparr>)"
  using assms by (auto simp: jinv_def)

lemma inv_store:
  assumes "jinv Q n h y" "storeOK (entryFile (sy_files y)) n h st"
  shows "jinv Q n h (y\<lparr>sy_store := (sy_store y)(i := st)\<rparr>)"
  using assms by (auto simp: jinv_def)

lemma inv_snapshot:
  assumes "jinv Q n h y" "tableOK (entryFile (sy_files y)) n h' t" "h' \<le> h" "permutes perm"
  shows "jinv Q n h (y\<lparr>sy_files := load_snapshot perm h' a t (sy_files y)\<rparr>)"
proof -
  have f: "filesOK Q n h (sy_files y)" using assms(1) by (simp add: jinv_def)
  then have "h' \<le> n" using assms(3) by (simp add: filesOK_def)
  from snapFileOK_put [OF assms(2) this assms(4)] f
  have "filesOK Q n h (load_snapshot perm h' a t (sy_files y))"
    by (simp add: filesOK_def load_snapshot_def putSnapshot_def)
  with assms(1) show ?thesis by (simp add: jinv_def load_snapshot_def putSnapshot_def)
qed

text \<open>An entry that can be put is the next one, and its check holds in the state before it.\<close>

lemma putEntry_appends:
  assumes inv: "jinv Q n h y" and ph: "sy_phase y p = AtPut at ch k"
    and put: "putEntry True at (recordsOf ch) (sy_files y) = (None, s')"
  shows "at = n" "h = n" "s' = (sy_files y)\<lparr>entryFile := (entryFile (sy_files y))(Suc n \<mapsto> recordsOf ch)\<rparr>"
    "entryFile (sy_files y) (Suc n) = None" "check ch (stateAt (entryFile (sy_files y)) n) = None" "Q ch"
proof -
  let ?es = "entryFile (sy_files y)"
  have f: "filesOK Q n h (sy_files y)" and pk: "phaseOK Q ?es n h (sy_phase y p)" using inv by (simp_all add: jinv_def)
  have at: "at \<le> h" "at = n \<longrightarrow> check ch (stateAt ?es n) = None" and q: "Q ch" using pk ph by simp_all
  have dom: "dom ?es = {1..n}" "n < 2 ^ 64 - 1" "h \<le> n" using f by (simp_all add: filesOK_def)
  have id: "nextID at = Suc at" using at(1) dom by simp
  have free: "?es (Suc at) = None" using put id by (auto simp: putEntry_def Let_def split: if_splits)
  then have "Suc at \<notin> {1..n}" using dom(1) by blast
  then show eq: "at = n" "h = n" using dom(3) at(1) by simp_all
  show "s' = (sy_files y)\<lparr>entryFile := ?es(Suc n \<mapsto> recordsOf ch)\<rparr>"
    using put id eq by (auto simp: putEntry_def Let_def split: if_splits)
  show "?es (Suc n) = None" "check ch (stateAt ?es n) = None" "Q ch" using free eq at(2) q by simp_all
qed

lemma inv_putEntry:
  assumes inv: "jinv Q n h y" and ph: "sy_phase y p = AtPut at ch k"
    and put: "putEntry True at (recordsOf ch) (sy_files y) = (None, s')" and small: "entryFile s' (2 ^ 64 - 1) = None"
  shows "jinv Q (Suc n) h (y\<lparr>sy_files := s', sy_phase := (sy_phase y)(p := AtWriteHead at ch)\<rparr>)"
proof -
  let ?es = "entryFile (sy_files y)"
  have f: "filesOK Q n h (sy_files y)" and pk: "\<And>q. phaseOK Q ?es n h (sy_phase y q)" and sk: "\<And>i. storeOK ?es n h (sy_store y i)"
    using inv by (simp_all add: jinv_def)
  have dom: "n < 2 ^ 64 - 1" "h \<le> n" using f by (simp_all add: filesOK_def)
  note app = putEntry_appends [OF inv ph put]
  note eq = app(1,2) and s' = app(3)
  have n: "Suc n < 2 ^ 64 - 1" using small dom(1) s' by (cases "Suc n = 2 ^ 64 - 1") auto
  have "filesOK Q (Suc n) h s'"
    using f s' n validLog_append [of Q ?es n ch] app(5,6) eq tableOK_append
    by (auto simp: filesOK_def snapFileOK_def getSnapshot_def split: option.splits prod.splits list.splits snapval.splits)
  moreover have "storeOK (entryFile s') (Suc n) h (sy_store y i)" for i
    using storeOK_append [OF sk] dom(2) s' by simp
  moreover have "phaseOK Q (entryFile s') (Suc n) h (sy_phase y q)" for q
    using phaseOK_append [of Q ?es n "sy_phase y q"] pk eq s' by simp
  moreover have "sy_phase y q \<noteq> AtWriteHead a b" for q a b
    using pk [of q] eq by auto
  ultimately show ?thesis using eq by (auto simp: jinv_def)
qed

lemma inv_writeHead:
  assumes inv: "jinv Q n h y" and ph: "sy_phase y p = AtWriteHead at ch"
  shows "jinv Q n (Suc h) (y\<lparr>sy_files := writeHead (nextID at) (sy_files y), sy_phase := (sy_phase y)(p := AtForce)\<rparr>)"
proof -
  have at: "at = h" "n = Suc h" using inv ph by (auto simp: jinv_def dest: spec [of _ p])
  have f: "filesOK Q n h (sy_files y)" using inv by (simp add: jinv_def)
  have id: "nextID at = Suc h" using f at by (simp add: filesOK_def)
  have w: "sy_phase y q \<noteq> AtWriteHead a b" if "q \<noteq> p" for q a b
    using inv ph that unfolding jinv_def by blast
  have "filesOK Q n (Suc h) (writeHead (Suc h) (sy_files y))"
    using f at snapFileOK_cong [of "writeHead (Suc h) (sy_files y)" "sy_files y"] by (simp add: filesOK_def writeHead_def)
  moreover have "phaseOK Q (entryFile (sy_files y)) n (Suc h) (sy_phase y q)" if "q \<noteq> p" for q
    using inv w [OF that] by (intro phaseOK_head) (simp_all add: jinv_def)
  moreover have "storeOK (entryFile (sy_files y)) n (Suc h) (sy_store y i)" for i
    using inv by (intro storeOK_head) (simp add: jinv_def)
  ultimately show ?thesis using w id by (auto simp: jinv_def writeHead_def)
qed

lemma tableOK_le: "tableOK es n a t \<Longrightarrow> b \<le> a \<Longrightarrow> tableOK es n b t"
  using goodAt_mono by (fastforce simp: tableOK_def)

lemma phaseOK_afterLoad: "taskOK Q task \<Longrightarrow> phaseOK Q es n h (afterLoad task)" "afterLoad task \<noteq> AtWriteHead a ch"
  by (cases task; simp)+

lemma inv_afterLoad: "jinv Q n h y \<Longrightarrow> taskOK Q task \<Longrightarrow> jinv Q n h (y\<lparr>sy_phase := (sy_phase y)(p := afterLoad task)\<rparr>)"
  by (rule inv_goto) (simp_all add: phaseOK_afterLoad)

lemma inv_Done: "jinv Q n h y \<Longrightarrow> jinv Q n h (y\<lparr>sy_phase := (sy_phase y)(p := Done r)\<rparr>)"
  by (rule inv_goto) simp_all

lemma inv_run:
  assumes inv: "jinv Q n h y" and perm: "permutes perm"
    and small: "entryFile (sy_files (run perm now i p y)) (2 ^ 64 - 1) = None"
  shows "\<exists>n' h'. jinv Q n' h' (run perm now i p y)"
proof -
  let ?es = "entryFile (sy_files y)"
  have f: "filesOK Q n h (sy_files y)" and pk: "phaseOK Q ?es n h (sy_phase y p)" and sk: "storeOK ?es n h (sy_store y i)"
    using inv by (simp_all add: jinv_def)
  have hn: "h \<le> n" using f by (simp add: filesOK_def)
  note go = inv_goto [OF inv]
  show ?thesis
  proof (cases "sy_phase y p")
    case (Done r)
    then show ?thesis using inv by (auto simp: run_def)
  next
    case (AtHead task)
    have "h \<noteq> js_at (sy_store y i) \<Longrightarrow> 1 \<le> h" using sk by (simp add: storeOK_def)
    then show ?thesis
      using AtHead inv_head [OF inv] go [of "AtSnap h task" p] inv_afterLoad [OF inv, of task p] pk
      by (auto simp: run_def)
  next
    case (AtSnap h' task)
    obtain a t err where g: "getSnapshot (sy_files y) = (a, t, err)" by (metis prod_cases3)
    then have "a \<le> n" "tableOK ?es n a t" using f by (simp_all add: filesOK_def snapFileOK_def)
    then show ?thesis using AtSnap g pk go [of "AtReplay h' a t task" p] by (auto simp: run_def)
  next
    case (AtReplay h' a t task)
    show ?thesis
    proof (cases "load_replay h' a t (sy_files y)")
      case (Ok t')
      have ok: "tableOK ?es n h' t'" using load_replay_tableOK [OF f _ _ _ _ Ok] pk AtReplay hn by simp
      let ?y = "y\<lparr>sy_store := (sy_store y)(i := load_install now h' t' (sy_store y i))\<rparr>"
      have "jinv Q n h ?y"
        using ok pk AtReplay by (intro inv_store [OF inv]) (auto simp: storeOK_def load_install_def tableOK_def rd_def)
      from inv_goto [OF this, of "AtPutSnap h' a t' task" p] show ?thesis
        using ok pk AtReplay Ok by (auto simp: run_def)
    qed (use AtReplay inv_Done [OF inv] in \<open>fastforce simp: run_def\<close>)+
  next
    case (AtPutSnap h' a t task)
    let ?y = "y\<lparr>sy_files := load_snapshot perm h' a t (sy_files y)\<rparr>"
    have "jinv Q n h ?y" using inv_snapshot [OF inv _ _ perm] pk AtPutSnap by simp
    from inv_afterLoad [OF this, of task p] AtPutSnap pk show ?thesis
      by (auto simp: run_def)
  next
    case (AtCheck ch k)
    have "js_at (sy_store y i) = n \<Longrightarrow> rd (js_table (sy_store y i)) = stateAt ?es n"
      using sk goodAt_exact by (auto simp: storeOK_def)
    then have "check ch (rd (js_table (sy_store y i))) = None \<Longrightarrow>
        jinv Q n h (y\<lparr>sy_phase := (sy_phase y)(p := AtPut (js_at (sy_store y i)) ch k)\<rparr>)"
      using sk pk AtCheck by (intro go) (auto simp: storeOK_def)
    then show ?thesis using AtCheck inv_Done [OF inv, of p]
      by (cases "check ch (rd (js_table (sy_store y i)))") (fastforce simp: run_def Let_def)+
  next
    case (AtPut a ch k)
    show ?thesis
    proof (cases "putEntry True a (recordsOf ch) (sy_files y)")
      case (Pair err s')
      show ?thesis
      proof (cases err)
        case None
        with inv_putEntry [OF inv AtPut] Pair small AtPut show ?thesis by (auto simp: run_def)
      next
        case (Some e)
        then show ?thesis using AtPut Pair pk go [of "Done _" p] go [of "AtHead (Change ch (k - 1))" p] by (auto simp: run_def)
      qed
    qed
  next
    case (AtWriteHead a ch)
    then show ?thesis using inv_writeHead [OF inv AtWriteHead] by (auto simp: run_def)
  next
    case AtForce
    have "storeOK ?es n h ((sy_store y i)\<lparr>js_at := Nil_ID\<rparr>)"
      using sk goodAt_mono by (fastforce simp: storeOK_def Nil_ID_def)
    from inv_Done [OF inv_store [OF inv this, of i], of p "Ok ()"] AtForce show ?thesis by (auto simp: run_def)
  qed
qed

lemma run_entries: "entryFile (sy_files (run perm now i p y)) k = None \<Longrightarrow> entryFile (sy_files y) k = None"
proof (cases "sy_phase y p")
  case (AtHead task)
  then show "entryFile (sy_files (run perm now i p y)) k = None \<Longrightarrow> ?thesis"
    by (cases "ReadHead (sy_files y)") (auto simp: run_def split: if_splits)
next
  case (AtReplay h a t task)
  then show "entryFile (sy_files (run perm now i p y)) k = None \<Longrightarrow> ?thesis"
    by (cases "load_replay h a t (sy_files y)") (auto simp: run_def)
qed (auto simp: run_def putEntry_def load_snapshot_def putSnapshot_def writeHead_def Let_def
      split: option.splits prod.splits if_splits)

theorem jreach_inv: "jreach Q y \<Longrightarrow> entryFile (sy_files y) (2 ^ 64 - 1) = None \<Longrightarrow> \<exists>n h. jinv Q n h y"
proof (induction rule: jreach.induct)
  case Init
  show ?case using inv_init by blast
next
  case (Start y p r task)
  then obtain n h where "jinv Q n h y" by (auto simp: start_def)
  from inv_goto [OF this, of "AtHead task" p] Start.hyps(3) show ?case unfolding start_def by auto
next
  case (Run y perm now i p)
  have "entryFile (sy_files y) (2 ^ 64 - 1) = None" by (rule run_entries [OF Run.prems])
  with Run.IH obtain n h where "jinv Q n h y" by blast
  from inv_run [OF this Run.hyps(2) Run.prems] show ?case .
next
  case (OpenStore y i)
  then obtain n h where "jinv Q n h y" by auto
  from inv_store [OF this storeOK_new] show ?case by blast
qed

end
