(* ===== verification/JournalProps.thy ===== *)
theory JournalProps
  imports JournalSys
begin

text \<open>
  Properties of the journal store: concurrent commits are serializable, a store that runs alone
  refines a map, and two ways in which the store fails: a snapshot that is written late, and a client
  that stops before it writes HEAD.
\<close>

section \<open>Playing a valid log\<close>

lemma check_play:
  assumes "check ch M = None" "map_of m = M \<or> map_of m = applyRs (recordsOf ch) M" "distinct (map fst m)"
  shows "\<exists>m'. playRecords (recordsOf ch) (Some m) = Ok (Some m') \<and> distinct (map fst m') \<and>
    map_of m' = applyRs (recordsOf ch) M"
proof -
  have "\<exists>t. playRecords (recordsOf ch) (Some m) = Ok t"
  proof (cases ch)
    case (UpdateC k v c)
    have "M k \<noteq> None" using assms(1) UpdateC by (cases "M k") (simp_all add: withConstraint_def)
    then have "map_of m k \<noteq> None" using assms(2) UpdateC by (elim disjE) (simp_all add: applyRs_def)
    then show ?thesis using UpdateC by (simp add: rd_def)
  qed simp_all
  then obtain t where t: "playRecords (recordsOf ch) (Some m) = Ok t" ..
  have "applyRs (recordsOf ch) (applyRs (recordsOf ch) M) = applyRs (recordsOf ch) M"
    using assms(1) by (cases ch) (auto simp: applyRs_def fun_eq_iff split: if_splits)
  with playRecords_Ok [OF t assms(3)] t assms(2) show ?thesis by auto
qed

lemma replay_exact:
  assumes dom: "dom (entryFile s) = {1..n}" and valid: "validLog (\<lambda>_. True) (entryFile s) n"
  shows "h \<le> n \<Longrightarrow> c \<le> h \<Longrightarrow> distinct (map fst m) \<Longrightarrow>
    map_of m = stateAt (entryFile s) c \<or> (c < h \<and> map_of m = stateAt (entryFile s) (Suc c)) \<Longrightarrow>
    \<exists>m'. replay s c h (Some m) = Ok (Some m') \<and> distinct (map fst m') \<and> map_of m' = stateAt (entryFile s) h"
proof (induction "h - c" arbitrary: c m)
  case 0
  then show ?case by (simp add: replay.simps [of s c])
next
  case (Suc x)
  have c: "c < h" "\<not> c \<ge> h" using Suc.hyps(2) by simp_all
  obtain ch where ch: "entryFile s (Suc c) = Some (recordsOf ch)" "check ch (stateAt (entryFile s) c) = None"
    using valid c Suc.prems(1) unfolding validLog_def by (meson less_le_trans)
  obtain m1 where m1: "playRecords (recordsOf ch) (Some m) = Ok (Some m1)" "distinct (map fst m1)"
      "map_of m1 = stateAt (entryFile s) (Suc c)"
    using check_play [OF ch(2) _ Suc.prems(3)] Suc.prems(4) ch(1) by auto
  from Suc.hyps(1) [of "Suc c" m1] Suc.hyps(2) Suc.prems(1) c m1 ch show ?case
    by (simp add: replay.simps [of s c] getFile_def)
qed

text \<open>A journal that no client is writing to, whose snapshot is the state at its position.\<close>

definition quiet :: "nat \<Rightarrow> 'v jstorage \<Rightarrow> bool" where
  "quiet n s \<longleftrightarrow> filesOK (\<lambda>_. True) n n s \<and>
     (case getSnapshot s of (a, t, err) \<Rightarrow> a \<le> n \<and> (\<exists>m. t = Some m \<and> distinct (map fst m) \<and> map_of m = stateAt (entryFile s) a))"

lemma load_quiet:
  assumes q: "quiet n s" and st: "storeOK (entryFile s) n n st" and perm: "permutes perm"
  shows "\<exists>s' st'. load perm now s st = (Ok (), s', st') \<and> quiet n s' \<and> entryFile s' = entryFile s \<and>
    js_at st' = n \<and> rd (js_table st') = stateAt (entryFile s) n"
proof -
  have f: "filesOK (\<lambda>_. True) n n s" using q by (simp add: quiet_def)
  then have d: "dom (entryFile s) = {1..n}" "validLog (\<lambda>_. True) (entryFile s) n" "n < 2 ^ 64 - 1" by (simp_all add: filesOK_def)
  have hd: "ReadHead s = Ok n" using f ReadHead_eq [of s n] by (simp add: filesOK_def)
  have tail: "ReadTail s = Ok (1, 0)" using f ReadTail_eq [of s 1 0] by (simp add: filesOK_def)
  obtain a t err where g: "getSnapshot s = (a, t, err)" by (metis prod_cases3)
  then obtain m where m: "t = Some m" "distinct (map fst m)" "map_of m = stateAt (entryFile s) a" "a \<le> n"
    using q by (auto simp: quiet_def)
  show ?thesis
  proof (cases "n = js_at st")
    case True
    then show ?thesis using hd q st goodAt_exact by (auto simp: load_def storeOK_def)
  next
    case False
    with st have n: "1 \<le> n" by (simp add: storeOK_def)
    obtain m' where m': "replay s (a - 1) n (Some m) = Ok (Some m')" "distinct (map fst m')" "map_of m' = stateAt (entryFile s) n"
    proof -
      have "map_of m = stateAt (entryFile s) (a - 1) \<or> (a - 1 < n \<and> map_of m = stateAt (entryFile s) (Suc (a - 1)))"
        using m(3,4) n by (cases a) auto
      from replay_exact [OF d(1,2) order_refl _ m(2) this] m(4) that show thesis by (meson diff_le_self le_trans)
    qed
    have r: "load_replay n a t s = Ok (Some m')"
      using m' m n tail d(3) by (auto simp: load_replay_def Queue_Open_def Nil_ID_def)
    have "quiet n (load_snapshot perm n a (Some m') s)"
    proof (cases "subID n a > 10")
      case True
      have "tableOK (entryFile s) n n (Some m')" using m'(2,3) goodAt_stateAt [of n n] by (simp add: tableOK_def)
      from snapFileOK_put [OF this _ perm] getSnapshot_putSnapshot [OF perm m'(2), of n s] m'(3) f True show ?thesis
        by (auto simp only: quiet_def load_snapshot_def filesOK_def putSnapshot_files prod.case if_True)
    qed (simp add: load_snapshot_def q)
    then show ?thesis using False hd g r m'(3)
      by (simp add: load_def load_install_def rd_def load_snapshot_def)
  qed
qed

section \<open>A store that runs alone\<close>

lemma quiet_CommitAt:
  assumes q: "quiet n s" and ch: "check ch (stateAt (entryFile s) n) = None" and n: "n < 2 ^ 64 - 2"
  shows "\<exists>s'. CommitAt True n (recordsOf ch) s = (None, s') \<and> quiet (Suc n) s' \<and>
    entryFile s' = (entryFile s)(Suc n \<mapsto> recordsOf ch)"
proof -
  let ?es = "(entryFile s)(Suc n \<mapsto> recordsOf ch)"
  let ?s = "writeHead (Suc n) (s\<lparr>entryFile := ?es\<rparr>)"
  have f: "filesOK (\<lambda>_. True) n n s" using q by (simp add: quiet_def)
  then have "Suc n \<notin> dom (entryFile s)" by (simp add: filesOK_def)
  then have "entryFile s (Suc n) = None" by blast
  then have "CommitAt True n (recordsOf ch) s = (None, ?s)"
    using n by (simp add: CommitAt_def putEntry_def)
  moreover have "filesOK (\<lambda>_. True) (Suc n) (Suc n) ?s"
    using f n validLog_append [OF _ ch] tableOK_append
    by (auto simp: filesOK_def writeHead_def snapFileOK_def getSnapshot_def split: option.splits prod.splits list.splits snapval.splits)
  moreover have "stateAt ?es a = stateAt (entryFile s) a" if "a \<le> n" for a
    using that by (intro stateAt_cong) simp
  ultimately show ?thesis
    using q by (auto simp: quiet_def writeHead_def getSnapshot_def split: option.splits prod.splits list.splits snapval.splits)
qed

lemma storeOK_loaded:
  assumes "js_at st = n" "rd (js_table st) = stateAt es n"
  shows "storeOK es n n st" "storeOK es n n (st\<lparr>js_at := Nil_ID\<rparr>)"
  using assms goodAt_stateAt [of n n es] goodAt_mono [of es n n _ 0] by (auto simp: storeOK_def Nil_ID_def)

text \<open>A change by a client that runs alone, on every branch.\<close>

lemma commit_quiet:
  assumes q: "quiet n s" and n: "n < 2 ^ 64 - 2" and st: "storeOK (entryFile s) n n st" and perm: "permutes perm"
  shows "\<exists>s' st'. case check ch (stateAt (entryFile s) n) of
      Some err \<Rightarrow> commit True perm now ch s st = (Err err, s', st') \<and> quiet n s' \<and> entryFile s' = entryFile s \<and>
        storeOK (entryFile s') n n st'
    | None \<Rightarrow> commit True perm now ch s st = (Ok (), s', st') \<and> quiet (Suc n) s' \<and>
        storeOK (entryFile s') (Suc n) (Suc n) st' \<and>
        stateAt (entryFile s') (Suc n) = applyRs (recordsOf ch) (stateAt (entryFile s) n)"
proof -
  obtain s1 st1 where l: "load perm now s st = (Ok (), s1, st1)" "quiet n s1" "entryFile s1 = entryFile s"
      "js_at st1 = n" "rd (js_table st1) = stateAt (entryFile s) n"
    using load_quiet [OF q st perm, of now] by (elim exE conjE) (rule that)
  obtain k where k: "maxRetries = Suc k" by (simp add: maxRetries_def)
  have c: "commit True perm now ch s st = commit_loop True perm now ch (Suc k) s st"
    by (simp only: commit_def k)
  show ?thesis
  proof (cases "check ch (stateAt (entryFile s) n)")
    case (Some err)
    then have "commit True perm now ch s st = (Err err, s1, st1)" using l(1,5) c by simp
    moreover have "storeOK (entryFile s1) n n st1" using storeOK_loaded(1) [OF l(4,5)] l(3) by simp
    ultimately show ?thesis unfolding Some option.case using l(2,3) by blast
  next
    case None
    obtain s2 where s2: "CommitAt True n (recordsOf ch) s1 = (None, s2)" "quiet (Suc n) s2"
        "entryFile s2 = (entryFile s1)(Suc n \<mapsto> recordsOf ch)"
      using quiet_CommitAt [OF l(2) _ n] None l(3) by auto
    have "stateAt (entryFile s2) n = stateAt (entryFile s) n" using s2(3) l(3) by (intro stateAt_cong) simp
    then have "stateAt (entryFile s2) (Suc n) = applyRs (recordsOf ch) (stateAt (entryFile s) n)" using s2(3) by simp
    moreover have "commit True perm now ch s st = (Ok (), s2, st1\<lparr>js_at := Nil_ID\<rparr>)"
      using None l c s2(1) by simp
    moreover have "storeOK (entryFile s2) (Suc n) (Suc n) (st1\<lparr>js_at := Nil_ID\<rparr>)"
      using storeOK_head [OF storeOK_append [OF storeOK_loaded(2) [OF l(4,5)] order_refl, of "recordsOf ch"]] s2(3) l(3) by simp
    ultimately show ?thesis unfolding None option.case using s2(2) by blast
  qed
qed

text \<open>C3: a change made by a client that runs alone behaves as on a map: it fails with the error of its
  check in the current table and changes nothing, or it succeeds, and the table of the journal becomes
  the old one with the change made.\<close>

theorem commit_refines_map:
  assumes "quiet n s" "n < 2 ^ 64 - 2" "storeOK (entryFile s) n n st" "permutes perm"
  shows "\<exists>s' st'. case check ch (stateAt (entryFile s) n) of
      Some err \<Rightarrow> commit True perm now ch s st = (Err err, s', st') \<and> quiet n s' \<and> entryFile s' = entryFile s
    | None \<Rightarrow> commit True perm now ch s st = (Ok (), s', st') \<and> quiet (Suc n) s' \<and>
        stateAt (entryFile s') (Suc n) = applyRs (recordsOf ch) (stateAt (entryFile s) n)"
  using commit_quiet [OF assms, of now ch] by (cases "check ch (stateAt (entryFile s) n)") auto

lemma quiet_new: "quiet 0 (Queue_Create Nil_ID emptyStorage)"
  using inv_init by (auto simp: quiet_def jinv_def init_def getSnapshot_def Queue_Create_def writeTail_def writeHead_def emptyStorage_def Nil_ID_def)

lemma permutes_id: "permutes (\<lambda>m. m)"
  by (simp add: permutes_def)

theorem commit_refines_map_witness:
  "\<exists>s' st'. commit True (\<lambda>m. m) 0 (InsertC ''k'' (1 :: nat)) (Queue_Create Nil_ID emptyStorage) newStore = (Ok (), s', st') \<and>
     quiet 1 s' \<and> stateAt (entryFile s') 1 = [''k'' \<mapsto> 1]"
  using commit_refines_map [OF quiet_new _ storeOK_new permutes_id, of 0 "InsertC ''k'' (1 :: nat)"]
  by (simp add: applyRs_def)

section \<open>Concurrent clients\<close>

text \<open>C2: whatever the interleaving of clients, the entries of the journal are numbered without gaps,
  each of them is a change that a client started (it satisfies what all started changes satisfy) and whose
  check, with its constraint, held in the table of the entries before it, and HEAD is the last entry or the
  one before it.  So at most one of two concurrent inserts of a key succeeds.\<close>

theorem journal_serializable:
  assumes "jreach Q y" "entryFile (sy_files y) (2 ^ 64 - 1) = None"
  shows "\<exists>n. dom (entryFile (sy_files y)) = {1..n} \<and>
      (\<forall>i < n. \<exists>ch. Q ch \<and> entryFile (sy_files y) (Suc i) = Some (recordsOf ch) \<and>
        check ch (stateAt (entryFile (sy_files y)) i) = None) \<and>
      ReadHead (sy_files y) \<in> {Ok n, Ok (n - 1)}"
proof -
  obtain n h where inv: "jinv Q n h y" using jreach_inv [OF assms] by blast
  then have f: "filesOK Q n h (sy_files y)" by (simp add: jinv_def)
  then have "h = n \<or> h = n - 1" by (auto simp: filesOK_def)
  with f inv_head [OF inv] show ?thesis by (auto simp: filesOK_def validLog_def)
qed

text \<open>Schedules, with process \<open>p\<close> on store \<open>p\<close>.\<close>

datatype 'v event = S nat "'v task" | R nat

fun exec :: "'v event list \<Rightarrow> 'v sys \<Rightarrow> 'v sys" where
  "exec [] y = y"
| "exec (S p task # evs) y = (case sy_phase y p of Done r \<Rightarrow> exec evs (start p task y) | _ \<Rightarrow> exec evs y)"
| "exec (R p # evs) y = exec evs (run (\<lambda>m. m) 0 p p y)"

lemma taskOK_True [simp]: "taskOK (\<lambda>_. True) task"
  by (cases task) simp_all

lemma exec_reach: "jreach Q y \<Longrightarrow> (\<And>p task. S p task \<in> set evs \<Longrightarrow> taskOK Q task) \<Longrightarrow> jreach Q (exec evs y)"
proof (induction evs y rule: exec.induct)
  case (2 p task evs y)
  then show ?case by (cases "sy_phase y p") (auto intro: jreach.Start)
next
  case (3 p evs y)
  then show ?case by (auto intro: jreach.Run permutes_id)
qed simp

definition change :: "nat \<Rightarrow> 'v change \<Rightarrow> 'v event list" where
  "change p ch = S p (Change ch maxRetries) # [R p, R p, R p, R p, R p, R p, R p, R p]"

definition one :: "nat sys" where
  "one = exec (change 0 (InsertC ''k'' 1)) init"

text \<open>What evaluates a schedule.\<close>

lemmas eval = exec.simps start_def change_def init_def Queue_Create_def writeTail_def writeHead_def emptyStorage_def Nil_ID_def
  newStore_def ReadHead_eq putEntry_def ErrExist_def getSnapshot_def load_replay_def load_install_def load_snapshot_def
  Queue_Open_def ReadTail_eq replay.simps getFile_def rd_def maxRetries_def Let_def run_def

theorem journal_serializable_witness:
  "\<exists>ch. ch = InsertC ''k'' 1 \<and> entryFile (sy_files one) 1 = Some (recordsOf ch) \<and> check ch Map.empty = None"
proof -
  let ?Q = "\<lambda>ch. ch = InsertC ''k'' 1"
  have r: "jreach ?Q one" unfolding one_def by (rule exec_reach [OF jreach.Init]) (auto simp: change_def)
  have e: "entryFile (sy_files one) = [1 \<mapsto> [Add ''k'' 1]]" by (simp add: one_def eval)
  have "entryFile (sy_files one) (2 ^ 64 - 1) = None" by (simp add: e)
  from journal_serializable [OF r this] obtain n where n: "dom (entryFile (sy_files one)) = {1..n}"
      "\<forall>i < n. \<exists>ch. ?Q ch \<and> entryFile (sy_files one) (Suc i) = Some (recordsOf ch) \<and> check ch (stateAt (entryFile (sy_files one)) i) = None"
    by blast
  have "1 \<in> {1..n}" unfolding n(1) [symmetric] by (simp add: e)
  then have "0 < n" by simp
  from n(2) [rule_format, OF this] show ?thesis by simp
qed

definition late :: "nat sys" where
  "late = exec (change 0 (InsertC ''k'' 1) @ change 0 (InsertC ''y'' 1) @ [S 1 Read, R 1] @
     change 0 (UpdateC ''k'' 2 None) @ change 0 (DeleteC ''k'' None) @
     concat (map (\<lambda>c. change 0 (InsertC [c] 1)) ''abcdefg'') @ [S 2 Read, R 2, R 2, R 2, R 2] @ [R 1, R 1, R 1]) init"

lemma late_files:
  "ReadHead (sy_files late) = Ok 11 \<and> ReadTail (sy_files late) = Ok (1, 0) \<and>
   entryFile (sy_files late) 2 = Some [Add ''y'' 1] \<and> entryFile (sy_files late) 3 = Some [Update ''k'' 2] \<and>
   snapFile (sy_files late) = Some \<lparr>snap_vals = UintVal 2 # map (\<lambda>c. EntryVal [c] 1) ''yabcdefg'', snap_err = None\<rparr>"
  unfolding late_def by (simp add: eval putSnapshot_def withConstraint_def subID_def)

section \<open>Failures\<close>

text \<open>C34: a schedule of three clients after which every store that is opened fails to load, for ever.
  A client that read HEAD early gets a snapshot newer than its HEAD, takes the difference of the
  positions, which wraps around, for more than ten new entries, and writes the newer table as the
  snapshot of the older position; playing the journal from there updates a key that the table no
  longer has.\<close>

theorem late_snapshot_breaks_store:
  "jreach (\<lambda>_. True) late \<and> (\<forall>p. \<exists>r. sy_phase late p = Done r) \<and>
   load perm now (sy_files late) newStore =
     (Err (Errorf ''update to non-existent key in journal store''), sy_files late, newStore)"
proof (intro conjI)
  show "jreach (\<lambda>_. True) late" unfolding late_def by (rule exec_reach [OF jreach.Init]) simp
  show "\<forall>p. \<exists>r. sy_phase late p = Done r"
    unfolding late_def by (simp add: eval putSnapshot_def withConstraint_def subID_def)
  have "getSnapshot (sy_files late) = (2, Some (map (\<lambda>c. ([c], 1)) ''yabcdefg''), None)"
    using late_files by (simp add: getSnapshot_def)
  moreover have "prevID 2 = 1" by simp
  ultimately show "load perm now (sy_files late) newStore =
      (Err (Errorf ''update to non-existent key in journal store''), sy_files late, newStore)"
    using late_files
    by (simp add: load_def newStore_def Nil_ID_def load_replay_def Queue_Open_def replay.simps [of _ _ 11]
        getFile_def rd_def numeral_2_eq_2 numeral_3_eq_3)
qed

lemma load_keeps:
  assumes "load perm now s st = (Ok (), s', st')" "ReadHead s = Ok h"
  shows "entryFile s' = entryFile s" "ReadHead s' = Ok h" "js_at st' = h"
  using assms by (auto simp: load_def load_snapshot_def load_install_def ReadHead_def split: if_splits result.splits prod.splits)

text \<open>When HEAD is behind, because a client stopped after it had written its entry and before it wrote
  HEAD, no change ever succeeds again, and the entries stay as they are.\<close>

theorem lost_head_blocks_commits:
  assumes "ReadHead s = Ok h" "entryFile s (nextID h) \<noteq> None"
  shows "\<exists>r s' st'. commit True perm now ch s st = (r, s', st') \<and> r \<noteq> Ok () \<and> entryFile s' = entryFile s"
proof -
  have "ReadHead s = Ok h \<Longrightarrow> entryFile s (nextID h) \<noteq> None \<Longrightarrow>
    \<exists>r s' st'. commit_loop True perm now ch k s st = (r, s', st') \<and> r \<noteq> Ok () \<and> entryFile s' = entryFile s" for k s st
  proof (induction k arbitrary: s st)
    case (Suc k)
    obtain r s1 st1 where l: "load perm now s st = (r, s1, st1)" by (metis prod_cases3)
    show ?case
    proof (cases r)
      case (Ok u)
      note k = load_keeps [OF l [unfolded Ok, simplified] Suc.prems(1)]
      have "CommitAt True h (recordsOf ch) s1 = (Some ErrExist, s1)"
        using k(1) Suc.prems(2) by (auto simp: CommitAt_def putEntry_def Let_def)
      with Suc.IH [OF k(2), of st1] Suc.prems(2) l k Ok show ?thesis
        by (cases "check ch (rd (js_table st1))") auto
    qed (use l in \<open>auto simp: load_def split: result.splits if_splits prod.splits\<close>)
  qed simp
  from this [OF assms, of maxRetries st] show ?thesis by (simp add: commit_def)
qed

definition headless :: "nat jstorage" where
  "headless = (Queue_Create 0 emptyStorage)\<lparr>entryFile := [1 \<mapsto> [Add ''k'' 1]]\<rparr>"

theorem lost_head_blocks_commits_witness:
  "\<exists>r s' st'. commit True (\<lambda>m. m) 0 (InsertC ''z'' 2) headless newStore = (r, s', st') \<and> r \<noteq> Ok () \<and>
     entryFile s' = [1 \<mapsto> [Add ''k'' 1]]"
  using lost_head_blocks_commits [of headless 0 "\<lambda>m. m" 0 "InsertC ''z'' 2" newStore] ReadHead_eq [of headless 0]
  by (simp add: headless_def Queue_Create_def writeHead_def writeTail_def Nil_ID_def)

text \<open>A snapshot file that breaks off after its position is used all the same: the entries that could not
  be read are missing from the table, and the load succeeds.\<close>

theorem broken_snapshot_is_used:
  assumes "ReadHead s = Ok n" "1 \<le> n" "n < 2 ^ 64" "entryFile s n = Some [Add k v]" "js_at st \<noteq> n"
    and "snapFile s = Some \<lparr>snap_vals = [UintVal n], snap_err = Some err\<rparr>"
  shows "\<exists>st'. load perm now s st = (Ok (), s, st') \<and> js_at st' = n \<and> rd (js_table st') = [k \<mapsto> v]"
proof -
  obtain i where n: "n = Suc i" using assms(2) by (cases n) auto
  have "replay s i n (Some []) = Ok (Some [(k, v)])"
    using assms(4) by (simp add: n replay.simps [of s i] replay.simps [of s "Suc i"] getFile_def)
  then have "load_replay n n (Some []) s = Ok (Some [(k, v)])"
    using assms(2,3) n by (simp add: load_replay_def Queue_Open_def Nil_ID_def)
  moreover have "getSnapshot s = (n, Some [], Some err)" using assms(6) by (simp add: getSnapshot_def)
  ultimately show ?thesis using assms(1,3,5)
    by (auto simp: load_def load_install_def load_snapshot_def rd_def)
qed

definition broken :: "nat jstorage" where
  "broken = \<lparr>headFile = Some (FormatUint 2), tailFile = None, entryFile = [1 \<mapsto> [Add ''a'' 1], 2 \<mapsto> [Add ''b'' 2]],
     snapFile = Some \<lparr>snap_vals = [UintVal 2], snap_err = Some (Errorf ''truncated input'')\<rparr>\<rparr>"

theorem broken_snapshot_is_used_witness:
  "\<exists>st'. load (\<lambda>m. m) 0 broken newStore = (Ok (), broken, st') \<and> js_at st' = 2 \<and> rd (js_table st') = [''b'' \<mapsto> 2]"
  using ReadHead_eq [of broken 2]
  by (intro broken_snapshot_is_used) (simp_all add: broken_def newStore_def Nil_ID_def)

section \<open>HEAD and TAIL\<close>

text \<open>The positions written to HEAD and TAIL are read back, for all 64 bit positions.\<close>

theorem head_tail_roundtrip:
  assumes "i < 2 ^ 64" "base < 2 ^ 64"
  shows "ReadHead (writeHead i s) = Ok i \<and> ReadTail (writeTail i base s) = Ok (i, base)"
proof
  show "ReadHead (writeHead i s) = Ok i" by (rule ReadHead_eq [OF _ assms(1)]) (simp add: writeHead_def)
  show "ReadTail (writeTail i base s) = Ok (i, base)" by (rule ReadTail_eq [OF _ assms]) (simp add: writeTail_def)
qed

theorem head_tail_roundtrip_witness:
  "ReadHead (writeHead 42 (emptyStorage :: nat jstorage)) = Ok 42 \<and>
   ReadTail (writeTail 42 7 (emptyStorage :: nat jstorage)) = Ok (42, 7)"
  by (rule head_tail_roundtrip) simp_all

section \<open>Values come from entries\<close>

text \<open>\<open>seen es k v\<close>: some entry of the journal sets the key \<open>k\<close> to \<open>v\<close>.\<close>

definition seen :: "'v log \<Rightarrow> string \<Rightarrow> 'v \<Rightarrow> bool" where
  "seen es k v \<longleftrightarrow> (\<exists>j rs. es j = Some rs \<and> (Add k v \<in> set rs \<or> Update k v \<in> set rs))"

definition seenIn :: "'v log \<Rightarrow> (string \<rightharpoonup> 'v) \<Rightarrow> bool" where
  "seenIn es m \<longleftrightarrow> (\<forall>k v. m k = Some v \<longrightarrow> seen es k v)"

fun phaseSeen :: "'v log \<Rightarrow> 'v phase \<Rightarrow> bool" where
  "phaseSeen es (AtReplay head at t task) = seenIn es (rd t)"
| "phaseSeen es (AtPutSnap head at t task) = seenIn es (rd t)"
| "phaseSeen es _ = True"

definition snapSeen :: "'v log \<Rightarrow> 'v jstorage \<Rightarrow> bool" where
  "snapSeen es s \<longleftrightarrow> seenIn es (rd (fst (snd (getSnapshot s))))"

definition jseen :: "'v sys \<Rightarrow> bool" where
  "jseen y \<longleftrightarrow> snapSeen (entryFile (sy_files y)) (sy_files y) \<and>
     (\<forall>i. seenIn (entryFile (sy_files y)) (rd (js_table (sy_store y i)))) \<and>
     (\<forall>p. phaseSeen (entryFile (sy_files y)) (sy_phase y p))"

lemma seenIn_empty [simp]: "seenIn es Map.empty" "seenIn es (rd None)"
  by (simp_all add: seenIn_def rd_def)

lemma seen_append: "seen (es(n \<mapsto> rs)) k v \<longleftrightarrow> seen es k v \<or> Add k v \<in> set rs \<or> Update k v \<in> set rs" if "es n = None" for n
proof
  assume "seen (es(n \<mapsto> rs)) k v"
  then show "seen es k v \<or> Add k v \<in> set rs \<or> Update k v \<in> set rs" unfolding seen_def by (auto split: if_splits)
next
  assume a: "seen es k v \<or> Add k v \<in> set rs \<or> Update k v \<in> set rs"
  show "seen (es(n \<mapsto> rs)) k v"
  proof (cases "seen es k v")
    case True
    then obtain j r where "es j = Some r" "Add k v \<in> set r \<or> Update k v \<in> set r" unfolding seen_def by blast
    moreover from this have "j \<noteq> n" using that by auto
    ultimately show ?thesis unfolding seen_def by (intro exI [of _ j] exI [of _ r]) simp
  qed (use a in \<open>auto simp: seen_def\<close>)
qed

lemma seenIn_append: "seenIn es m \<Longrightarrow> es n = None \<Longrightarrow> seenIn (es(n \<mapsto> rs)) m"
  by (auto simp: seenIn_def seen_append)

lemma phaseSeen_append: "phaseSeen es ph \<Longrightarrow> es n = None \<Longrightarrow> phaseSeen (es(n \<mapsto> rs)) ph"
  by (cases ph) (auto simp: seenIn_append)

lemma playRecords_seen:
  assumes "es j = Some rs0"
  shows "playRecords rs t = Ok t' \<Longrightarrow> set rs \<subseteq> set rs0 \<Longrightarrow> seenIn es (rd t) \<Longrightarrow> seenIn es (rd t')"
proof (induction rs arbitrary: t)
  case (Cons r rs)
  then obtain t1 where t1: "playRecord r t = Ok t1" "playRecords rs t1 = Ok t'" by (auto simp: bindR_Ok_iff)
  have "seen es k v" if "Add k v = r \<or> Update k v = r" for k v
    using that assms Cons.prems(2) unfolding seen_def by (intro exI [of _ j] exI [of _ rs0]) auto
  then have "seenIn es (rd t1)" using t1(1) Cons.prems(3)
    by (cases r; cases t) (auto simp: seenIn_def rd_def delete_conv' split: if_splits)
  with Cons.IH [OF t1(2)] Cons.prems(2) show ?case by simp
qed simp

lemma replay_seen: "replay s c h t = Ok t' \<Longrightarrow> seenIn (entryFile s) (rd t) \<Longrightarrow> seenIn (entryFile s) (rd t')"
proof (induction s c h t rule: replay.induct)
  case (1 s c h t)
  show ?case
  proof (cases "c \<ge> h")
    case False
    then obtain b t1 where b: "getFile (entryFile s (c + 1)) = Ok b" "playRecords b t = Ok t1" "replay s (c + 1) h t1 = Ok t'"
      using 1(2) by (auto simp: replay.simps [of s c] bindR_Ok_iff)
    then have "entryFile s (c + 1) = Some b" by (auto simp: getFile_def split: option.splits)
    from 1(1) [OF False b(3) playRecords_seen [OF this b(2) order_refl 1(3)]] show ?thesis .
  qed (use 1(2,3) in \<open>simp add: replay.simps [of s c]\<close>)
qed

lemma seen_goto: "jseen y \<Longrightarrow> phaseSeen (entryFile (sy_files y)) ph \<Longrightarrow> jseen (y\<lparr>sy_phase := (sy_phase y)(p := ph)\<rparr>)"
  by (auto simp: jseen_def)

lemma seen_afterLoad: "jseen y \<Longrightarrow> jseen (y\<lparr>sy_phase := (sy_phase y)(p := afterLoad task)\<rparr>)"
  by (rule seen_goto) (cases task; simp)+

lemma seen_store: "jseen y \<Longrightarrow> seenIn (entryFile (sy_files y)) (rd (js_table st)) \<Longrightarrow> jseen (y\<lparr>sy_store := (sy_store y)(i := st)\<rparr>)"
  by (auto simp: jseen_def)

lemma seen_snapshot:
  assumes "jseen y" "tableOK es n a t" "seenIn (entryFile (sy_files y)) (rd t)" "permutes perm"
  shows "jseen (y\<lparr>sy_files := load_snapshot perm h b t (sy_files y)\<rparr>)"
proof -
  obtain m where m: "t = Some m" "distinct (map fst m)" using assms(2) by (auto simp: tableOK_def)
  have "snapSeen (entryFile (sy_files y)) (putSnapshot perm h t (sy_files y))"
    using getSnapshot_putSnapshot [OF assms(4) m(2), of h "sy_files y"] assms(3) m(1) by (auto simp: snapSeen_def seenIn_def rd_def)
  then show ?thesis using assms(1) by (simp add: jseen_def load_snapshot_def)
qed

lemma seen_run:
  assumes inv: "jinv Q n h y" and s: "jseen y" and perm: "permutes perm"
  shows "jseen (run perm now i p y)"
proof -
  let ?es = "entryFile (sy_files y)"
  have pk: "phaseOK Q ?es n h (sy_phase y p)" using inv by (simp add: jinv_def)
  have ps: "phaseSeen ?es (sy_phase y p)" and ss: "seenIn ?es (rd (js_table (sy_store y i)))" using s by (simp_all add: jseen_def)
  note fin = seen_goto [OF s, of "Done _" p, simplified]
  show ?thesis
  proof (cases "sy_phase y p")
    case (AtHead task)
    then show ?thesis using fin seen_goto [OF s, of "AtSnap _ _" p] seen_afterLoad [OF s, of p task]
      by (cases "ReadHead (sy_files y)") (auto simp: run_def)
  next
    case (AtSnap h' task)
    obtain a t err where g: "getSnapshot (sy_files y) = (a, t, err)" by (metis prod_cases3)
    then have "seenIn ?es (rd t)" using s by (simp add: jseen_def snapSeen_def)
    then show ?thesis using AtSnap g seen_goto [OF s, of "AtReplay h' a t task" p] by (simp add: run_def)
  next
    case (AtReplay h' a t task)
    show ?thesis
    proof (cases "load_replay h' a t (sy_files y)")
      case (Ok t')
      then have "seenIn ?es (rd t')" using replay_seen [of "sy_files y"] ps AtReplay
        by (auto simp: load_replay_def bindR_Ok_iff split: option.splits)
      then show ?thesis using AtReplay Ok seen_goto [OF seen_store [OF s, of "load_install now h' t' (sy_store y i)" i], of "AtPutSnap h' a t' task" p]
        by (simp add: run_def load_install_def)
    qed (use AtReplay fin in \<open>simp_all add: run_def\<close>)
  next
    case (AtPutSnap h' a t task)
    have "jseen (y\<lparr>sy_files := load_snapshot perm h' a t (sy_files y)\<rparr>)"
      using seen_snapshot [OF s _ _ perm] pk ps AtPutSnap by auto
    from seen_afterLoad [OF this, of p task] AtPutSnap show ?thesis by (simp add: run_def)
  next
    case (AtCheck ch k)
    then show ?thesis using fin seen_goto [OF s, of "AtPut _ _ _" p] by (auto simp: run_def Let_def split: option.splits)
  next
    case (AtPut a ch k)
    obtain err s' where put: "putEntry True a (recordsOf ch) (sy_files y) = (err, s')" by fastforce
    show ?thesis
    proof (cases err)
      case None
      note app = putEntry_appends [OF inv AtPut put [unfolded None]]
      have "jseen (y\<lparr>sy_files := s'\<rparr>)"
        using s seenIn_append [where es = ?es and n = "Suc n", OF _ app(4)] phaseSeen_append [where es = ?es and n = "Suc n", OF _ app(4)] unfolding app(3)
        by (simp add: jseen_def snapSeen_def getSnapshot_def)
      from seen_goto [OF this, of "AtWriteHead a ch" p] AtPut put None show ?thesis by (simp add: run_def)
    next
      case (Some e)
      then show ?thesis using AtPut put fin seen_goto [OF s, of "AtHead _" p] by (auto simp: run_def)
    qed
  next
    case (AtWriteHead a ch)
    have "jseen (y\<lparr>sy_files := writeHead (nextID a) (sy_files y)\<rparr>)"
      using s by (simp add: jseen_def snapSeen_def writeHead_def getSnapshot_def)
    from seen_goto [OF this, of AtForce p] AtWriteHead show ?thesis by (simp add: run_def)
  next
    case AtForce
    from seen_goto [OF seen_store [OF s, of "(sy_store y i)\<lparr>js_at := Nil_ID\<rparr>" i], of "Done (Ok ())" p] ss AtForce
    show ?thesis by (simp add: run_def)
  qed (use s in \<open>simp add: run_def\<close>)
qed

end
