(* ===== verification/Commits.thy ===== *)
theory Commits
  imports Context "HOL-Library.AList" "HOL-Library.Multiset"
begin

text \<open>
  Commit objects, snapshots and patches of a pool (\<open>lake/commits\<close>: \<open>actions.go\<close>, \<open>object.go\<close>,
  \<open>snapshot.go\<close>, \<open>patch.go\<close>).  A snapshot is the set of data objects and vectors at a commit; a patch is a
  difference to a base, which is a snapshot or another patch.

  Go maps are association lists; ranging over one visits its entries in any order, which the parameter
  \<open>iter\<close> stands for.
\<close>

section \<open>Data objects, actions and commit objects\<close>

text \<open>A KSUID is identified by a number; the nil KSUID is 0.\<close>

type_synonym ksuid = nat

record dobject =
  obj_ID :: ksuid
  obj_Min :: zvalue
  obj_Max :: zvalue
  obj_Count :: u64
  obj_Size :: int

record commitrec =
  c_ID :: ksuid
  c_Parent :: ksuid
  c_Retries :: byte
  c_Author :: string
  c_Date :: int
  c_Message :: string
  c_Meta :: zvalue

datatype action =
    AddA ksuid dobject
  | DeleteA ksuid ksuid
  | AddVectorA ksuid ksuid
  | DeleteVectorA ksuid ksuid
  | CommitA commitrec

record cobject =
  co_Commit :: ksuid
  co_Parent :: ksuid
  co_Actions :: "action list"

fun CommitID :: "action \<Rightarrow> ksuid" where
  "CommitID (AddA c d) = c"
| "CommitID (DeleteA c i) = c"
| "CommitID (AddVectorA c i) = c"
| "CommitID (DeleteVectorA c i) = c"
| "CommitID (CommitA r) = c_ID r"

definition appendAction :: "action \<Rightarrow> cobject \<Rightarrow> cobject" where
  "appendAction a ob = ob\<lparr>co_Actions := co_Actions ob @ [a]\<rparr>"

text \<open>The KSUID and the time of a new object are drawn by its maker, here parameters.\<close>

definition NewObject :: "ksuid \<Rightarrow> int \<Rightarrow> ksuid \<Rightarrow> string \<Rightarrow> string \<Rightarrow> zvalue \<Rightarrow> nat \<Rightarrow> cobject" where
  "NewObject new now parent author message meta retries =
     appendAction
       (CommitA \<lparr>c_ID = new, c_Parent = parent, c_Retries = of_nat retries, c_Author = author, c_Date = now,
                c_Message = message, c_Meta = meta\<rparr>)
       \<lparr>co_Commit = new, co_Parent = parent, co_Actions = []\<rparr>"

definition appendAdd :: "dobject \<Rightarrow> cobject \<Rightarrow> cobject" where
  "appendAdd d ob = appendAction (AddA (co_Commit ob) d) ob"

definition appendDelete :: "ksuid \<Rightarrow> cobject \<Rightarrow> cobject" where
  "appendDelete i ob = appendAction (DeleteA (co_Commit ob) i) ob"

definition appendAddVector :: "ksuid \<Rightarrow> cobject \<Rightarrow> cobject" where
  "appendAddVector i ob = appendAction (AddVectorA (co_Commit ob) i) ob"

definition appendDeleteVector :: "ksuid \<Rightarrow> cobject \<Rightarrow> cobject" where
  "appendDeleteVector i ob = appendAction (DeleteVectorA (co_Commit ob) i) ob"

abbreviation znull :: zvalue where
  "znull \<equiv> (TypePrimitive TypeNull, None)"

definition NewAddsObject :: "ksuid \<Rightarrow> int \<Rightarrow> ksuid \<Rightarrow> nat \<Rightarrow> string \<Rightarrow> string \<Rightarrow> zvalue \<Rightarrow> dobject list \<Rightarrow> cobject" where
  "NewAddsObject new now parent retries author message meta objects =
     fold appendAdd objects (NewObject new now parent author message meta retries)"

definition NewDeletesObject :: "ksuid \<Rightarrow> int \<Rightarrow> ksuid \<Rightarrow> nat \<Rightarrow> string \<Rightarrow> string \<Rightarrow> ksuid list \<Rightarrow> cobject" where
  "NewDeletesObject new now parent retries author message ids =
     fold appendDelete ids (NewObject new now parent author message znull retries)"

definition NewAddVectorsObject :: "ksuid \<Rightarrow> int \<Rightarrow> ksuid \<Rightarrow> string \<Rightarrow> string \<Rightarrow> ksuid list \<Rightarrow> nat \<Rightarrow> cobject" where
  "NewAddVectorsObject new now parent author message ids retries =
     fold appendAddVector ids (NewObject new now parent author message znull retries)"

definition NewDeleteVectorsObject :: "ksuid \<Rightarrow> int \<Rightarrow> ksuid \<Rightarrow> string \<Rightarrow> string \<Rightarrow> ksuid list \<Rightarrow> nat \<Rightarrow> cobject" where
  "NewDeleteVectorsObject new now parent author message ids retries =
     fold appendDeleteVector ids (NewObject new now parent author message znull retries)"

definition ErrEmptyTransaction :: goerror where "ErrEmptyTransaction = Errorf ''empty transaction''"
definition ErrBadCommitObject :: goerror where "ErrBadCommitObject = Errorf ''first record of object not a commit''"

text \<open>A commit object in storage is the sequence of its actions.\<close>

definition Object_Serialize :: "cobject \<Rightarrow> action list go" where
  "Object_Serialize ob = (if co_Actions ob = [] then Err ErrEmptyTransaction else Ok (co_Actions ob))"

definition DecodeObject :: "action list \<Rightarrow> cobject go" where
  "DecodeObject acts =
     (case acts of
        [] \<Rightarrow> Ok \<lparr>co_Commit = 0, co_Parent = 0, co_Actions = []\<rparr>
      | CommitA first # _ \<Rightarrow> Ok \<lparr>co_Commit = c_ID first, co_Parent = c_Parent first, co_Actions = acts\<rparr>
      | _ # _ \<Rightarrow> Err ErrBadCommitObject)"

section \<open>Snapshots\<close>

record snapshot =
  sn_objects :: "(ksuid \<times> dobject) list"
  sn_vectors :: "ksuid list"

record iter =
  iterO :: "(ksuid \<times> dobject) list \<Rightarrow> (ksuid \<times> dobject) list"
  iterV :: "ksuid list \<Rightarrow> ksuid list"

definition ErrWriteConflict :: goerror where "ErrWriteConflict = Errorf ''write conflict''"
definition ErrExists :: goerror where "ErrExists = Errorf ''commit object already exists''"
definition ErrNotFound :: goerror where "ErrNotFound = Errorf ''commit object not found''"

definition NewSnapshot :: snapshot where
  "NewSnapshot = \<lparr>sn_objects = [], sn_vectors = []\<rparr>"

definition Snapshot_AddDataObject :: "dobject \<Rightarrow> snapshot \<Rightarrow> goerror option \<times> snapshot" where
  "Snapshot_AddDataObject d s =
     (if map_of (sn_objects s) (obj_ID d) \<noteq> None then (Some ErrWriteConflict, s)
      else (None, s\<lparr>sn_objects := AList.update (obj_ID d) d (sn_objects s)\<rparr>))"

definition Snapshot_DeleteObject :: "ksuid \<Rightarrow> snapshot \<Rightarrow> goerror option \<times> snapshot" where
  "Snapshot_DeleteObject i s =
     (if map_of (sn_objects s) i = None then (Some ErrWriteConflict, s)
      else (None, s\<lparr>sn_objects := AList.delete i (sn_objects s)\<rparr>))"

definition Snapshot_AddVector :: "ksuid \<Rightarrow> snapshot \<Rightarrow> goerror option \<times> snapshot" where
  "Snapshot_AddVector i s =
     (if i \<in> set (sn_vectors s) then (Some ErrWriteConflict, s)
      else (None, s\<lparr>sn_vectors := sn_vectors s @ [i]\<rparr>))"

definition Snapshot_DeleteVector :: "ksuid \<Rightarrow> snapshot \<Rightarrow> goerror option \<times> snapshot" where
  "Snapshot_DeleteVector i s =
     (if i \<notin> set (sn_vectors s) then (Some ErrWriteConflict, s)
      else (None, s\<lparr>sn_vectors := removeAll i (sn_vectors s)\<rparr>))"

definition Snapshot_Lookup :: "snapshot \<Rightarrow> ksuid \<Rightarrow> dobject go" where
  "Snapshot_Lookup s i = (case map_of (sn_objects s) i of None \<Rightarrow> Err ErrNotFound | Some d \<Rightarrow> Ok d)"

definition Snapshot_HasVector :: "snapshot \<Rightarrow> ksuid \<Rightarrow> bool" where
  "Snapshot_HasVector s i \<longleftrightarrow> i \<in> set (sn_vectors s)"

text \<open>\<open>hit\<close> is the test of \<open>Select\<close>: no span to scan, no span of the object, or spans that overlap.\<close>

definition Snapshot_Select :: "iter \<Rightarrow> (dobject \<Rightarrow> bool) \<Rightarrow> snapshot \<Rightarrow> dobject list" where
  "Snapshot_Select it hit s = filter hit (map snd (iterO it (sn_objects s)))"

definition Snapshot_SelectAll :: "iter \<Rightarrow> snapshot \<Rightarrow> dobject list" where
  "Snapshot_SelectAll it s = map snd (iterO it (sn_objects s))"

fun copyO_loop :: "(ksuid \<times> dobject) list \<Rightarrow> snapshot \<Rightarrow> snapshot" where
  "copyO_loop [] out = out"
| "copyO_loop ((k, d) # xs) out = copyO_loop xs (out\<lparr>sn_objects := AList.update k d (sn_objects out)\<rparr>)"

definition Snapshot_Copy :: "iter \<Rightarrow> snapshot \<Rightarrow> snapshot" where
  "Snapshot_Copy it s =
     (let out = copyO_loop (iterO it (sn_objects s)) NewSnapshot
      in out\<lparr>sn_vectors := fold (\<lambda>k vs. if k \<in> set vs then vs else vs @ [k]) (iterV it (sn_vectors s)) []\<rparr>)"

text \<open>Actions of a serialized snapshot have no commit ID.\<close>

definition Snapshot_serialize :: "iter \<Rightarrow> snapshot \<Rightarrow> action list" where
  "Snapshot_serialize it s =
     map (\<lambda>(k, d). AddA 0 d) (iterO it (sn_objects s)) @ map (AddVectorA 0) (iterV it (sn_vectors s))"

section \<open>Views and patches\<close>

text \<open>A view is a snapshot, or a patch with its base, its difference and what it deletes of the base.\<close>

datatype view =
    SnapV snapshot
  | PatchV view snapshot "ksuid list" "ksuid list"

definition NewPatch :: "view \<Rightarrow> view" where
  "NewPatch base = PatchV base NewSnapshot [] []"

fun Lookup :: "view \<Rightarrow> ksuid \<Rightarrow> dobject go" where
  "Lookup (SnapV s) i = Snapshot_Lookup s i"
| "Lookup (PatchV base diff delO delV) i =
     (case Snapshot_Lookup diff i of Ok d \<Rightarrow> Ok d | _ \<Rightarrow> Lookup base i)"

definition Exists :: "view \<Rightarrow> ksuid \<Rightarrow> bool" where
  "Exists v i = isOk (Lookup v i)"

fun HasVector :: "view \<Rightarrow> ksuid \<Rightarrow> bool" where
  "HasVector (SnapV s) i = Snapshot_HasVector s i"
| "HasVector (PatchV base diff delO delV) i = (Snapshot_HasVector diff i \<or> HasVector base i)"

fun Select :: "iter \<Rightarrow> (dobject \<Rightarrow> bool) \<Rightarrow> view \<Rightarrow> dobject list" where
  "Select it hit (SnapV s) = Snapshot_Select it hit s"
| "Select it hit (PatchV base diff delO delV) = Select it hit base @ Snapshot_Select it hit diff"

fun SelectAll :: "iter \<Rightarrow> view \<Rightarrow> dobject list" where
  "SelectAll it (SnapV s) = Snapshot_SelectAll it s"
| "SelectAll it (PatchV base diff delO delV) = SelectAll it base @ Snapshot_SelectAll it diff"

fun DataObjects :: "iter \<Rightarrow> view \<Rightarrow> ksuid list" where
  "DataObjects it (PatchV base diff delO delV) = map obj_ID (Snapshot_SelectAll it diff)"
| "DataObjects it (SnapV s) = []"

fun AddDataObject :: "dobject \<Rightarrow> view \<Rightarrow> goerror option \<times> view" where
  "AddDataObject d (SnapV s) = (case Snapshot_AddDataObject d s of (e, s) \<Rightarrow> (e, SnapV s))"
| "AddDataObject d (PatchV base diff delO delV) =
     (if Exists base (obj_ID d) then (Some ErrExists, PatchV base diff delO delV)
      else case Snapshot_AddDataObject d diff of (e, diff) \<Rightarrow> (e, PatchV base diff delO delV))"

fun DeleteObject :: "ksuid \<Rightarrow> view \<Rightarrow> goerror option \<times> view" where
  "DeleteObject i (SnapV s) = (case Snapshot_DeleteObject i s of (e, s) \<Rightarrow> (e, SnapV s))"
| "DeleteObject i (PatchV base diff delO delV) =
     (if isOk (Snapshot_Lookup diff i) then
        (case Snapshot_DeleteObject i diff of (e, diff) \<Rightarrow> (e, PatchV base diff delO delV))
      else if \<not> Exists base i then (Some ErrNotFound, PatchV base diff delO delV)
      else (None, PatchV base diff (delO @ [i]) delV))"

fun AddVector :: "ksuid \<Rightarrow> view \<Rightarrow> goerror option \<times> view" where
  "AddVector i (SnapV s) = (case Snapshot_AddVector i s of (e, s) \<Rightarrow> (e, SnapV s))"
| "AddVector i (PatchV base diff delO delV) =
     (if HasVector (PatchV base diff delO delV) i then (Some ErrExists, PatchV base diff delO delV)
      else case Snapshot_AddVector i diff of (e, diff) \<Rightarrow> (e, PatchV base diff delO delV))"

fun DeleteVector :: "ksuid \<Rightarrow> view \<Rightarrow> goerror option \<times> view" where
  "DeleteVector i (SnapV s) = (case Snapshot_DeleteVector i s of (e, s) \<Rightarrow> (e, SnapV s))"
| "DeleteVector i (PatchV base diff delO delV) =
     (if Snapshot_HasVector diff i then
        (case Snapshot_DeleteVector i diff of (e, diff) \<Rightarrow> (e, PatchV base diff delO delV))
      else if \<not> HasVector base i then (Some ErrNotFound, PatchV base diff delO delV)
      else (None, PatchV base diff delO (delV @ [i])))"

fun PlayAction :: "action \<Rightarrow> view \<Rightarrow> goerror option \<times> view" where
  "PlayAction (AddA c d) w = AddDataObject d w"
| "PlayAction (DeleteA c i) w = DeleteObject i w"
| "PlayAction (AddVectorA c i) w = AddVector i w"
| "PlayAction (DeleteVectorA c i) w = DeleteVector i w"
| "PlayAction (CommitA r) w = (None, w)"

fun playActions :: "action list \<Rightarrow> view \<Rightarrow> goerror option \<times> view" where
  "playActions [] w = (None, w)"
| "playActions (a # as) w =
     (case PlayAction a w of (Some err, w) \<Rightarrow> (Some err, w) | (None, w) \<Rightarrow> playActions as w)"

definition Play :: "cobject \<Rightarrow> view \<Rightarrow> goerror option \<times> view" where
  "Play ob w = playActions (co_Actions ob) w"

definition decodeSnapshot :: "action list \<Rightarrow> snapshot go" where
  "decodeSnapshot acts =
     (case playActions acts (SnapV NewSnapshot) of
        (None, SnapV s) \<Rightarrow> Ok s
      | (Some err, _) \<Rightarrow> Err err
      | (None, PatchV _ _ _ _) \<Rightarrow> Panic)"

definition Vectors :: "iter \<Rightarrow> view \<Rightarrow> snapshot" where
  "Vectors it v =
     fold (\<lambda>d s. if HasVector v (obj_ID d) then snd (Snapshot_AddDataObject d s) else s) (SelectAll it v) NewSnapshot"

section \<open>Commits from patches\<close>

fun NewCommitObject :: "iter \<Rightarrow> ksuid \<Rightarrow> int \<Rightarrow> ksuid \<Rightarrow> nat \<Rightarrow> string \<Rightarrow> string \<Rightarrow> zvalue \<Rightarrow> view \<Rightarrow> cobject" where
  "NewCommitObject it new now parent retries author message meta (PatchV base diff delO delV) =
     (let ob = NewObject new now parent author message meta retries;
          ob = fold appendDelete delO ob;
          ob = fold appendAdd (map snd (iterO it (sn_objects diff))) ob;
          ob = fold appendDeleteVector delV ob;
          ob = fold appendAddVector (iterV it (sn_vectors diff)) ob
      in ob)"
| "NewCommitObject it new now parent retries author message meta (SnapV s) =
     NewObject new now parent author message meta retries"

text \<open>The loops of \<open>Revert\<close> and \<open>Diff\<close>.\<close>

fun revert_adds :: "view \<Rightarrow> view \<Rightarrow> ksuid list \<Rightarrow> cobject \<Rightarrow> cobject go" where
  "revert_adds base tip [] ob = Ok ob"
| "revert_adds base tip (i # is) ob =
     bindR (Lookup base i) (\<lambda>d. revert_adds base tip is (if Exists tip (obj_ID d) then ob else appendAdd d ob))"

fun Patch_Revert :: "iter \<Rightarrow> ksuid \<Rightarrow> int \<Rightarrow> view \<Rightarrow> ksuid \<Rightarrow> nat \<Rightarrow> string \<Rightarrow> string \<Rightarrow> view \<Rightarrow> cobject go" where
  "Patch_Revert it new now tip parent retries author message (PatchV base diff delO delV) =
     (let ob = NewObject new now parent author message znull retries;
          ob = fold (\<lambda>d ob. if Exists tip (obj_ID d) then appendDelete (obj_ID d) ob else ob) (Snapshot_SelectAll it diff) ob
      in bindR (revert_adds base tip delO ob) (\<lambda>ob.
         if length (co_Actions ob) = 1 then Err (Errorf ''revert commit is empty'') else Ok ob))"
| "Patch_Revert it new now tip parent retries author message (SnapV s) = Panic"

fun diff_adds :: "view \<Rightarrow> ksuid list \<Rightarrow> dobject list \<Rightarrow> view \<Rightarrow> bool \<Rightarrow> (view \<times> bool) go" where
  "diff_adds parent deleted [] p dirty = Ok (p, dirty)"
| "diff_adds parent deleted (d # ds) p dirty =
     (if \<not> Exists parent (obj_ID d) then
        if obj_ID d \<in> set deleted then Err (Errorf ''parent branch deletes object that child branch adds'')
        else case AddDataObject d p of
               (Some err, _) \<Rightarrow> Err err
             | (None, p) \<Rightarrow> diff_adds parent deleted ds p True
      else diff_adds parent deleted ds p dirty)"

fun diff_deletes :: "view \<Rightarrow> ksuid list \<Rightarrow> view \<Rightarrow> bool \<Rightarrow> (view \<times> bool) go" where
  "diff_deletes parent [] p dirty = Ok (p, dirty)"
| "diff_deletes parent (i # is) p dirty =
     (if Exists parent i then
        (case DeleteObject i p of (Some err, _) \<Rightarrow> Err err | (None, p) \<Rightarrow> diff_deletes parent is p True)
      else Err (Errorf ''delete conflict''))"

fun deletedOf :: "view \<Rightarrow> ksuid list" where
  "deletedOf (PatchV base diff delO delV) = delO"
| "deletedOf (SnapV s) = []"

definition Diff :: "iter \<Rightarrow> view \<Rightarrow> view \<Rightarrow> view go" where
  "Diff it parent child =
     bindR (diff_adds parent (deletedOf child) (SelectAll it child) (NewPatch parent) False) (\<lambda>(p, dirty).
     bindR (diff_deletes parent (deletedOf child) p dirty) (\<lambda>(p, dirty).
     if dirty then Ok p else Err (Errorf ''difference is empty'')))"

end
