(* ===== verification/CommitsLaws.thy ===== *)
theory CommitsLaws
  imports Commits
begin

text \<open>
  The contract of the interface \<open>Writeable\<close> of \<open>snapshot.go\<close>, which snapshots and patches implement,
  and the relation between a patch and the snapshot it describes.
\<close>

section \<open>The interface\<close>

text \<open>
  What a writeable view promises of adding: an object or vector that it does not have is added, and
  one that it has is refused and nothing changes.
\<close>

locale writeable =
  fixes add :: "dobject \<Rightarrow> 'w \<Rightarrow> goerror option \<times> 'w"
    and addV :: "ksuid \<Rightarrow> 'w \<Rightarrow> goerror option \<times> 'w"
    and look :: "'w \<Rightarrow> ksuid \<Rightarrow> dobject go"
    and hasV :: "'w \<Rightarrow> ksuid \<Rightarrow> bool"
    and ok :: "'w \<Rightarrow> bool"
  assumes add_new: "ok w \<Longrightarrow> \<not> isOk (look w (obj_ID d)) \<Longrightarrow>
      \<exists>w'. add d w = (None, w') \<and> ok w' \<and> look w' = (look w)(obj_ID d := Ok d) \<and> hasV w' = hasV w"
    and add_dup: "ok w \<Longrightarrow> isOk (look w (obj_ID d)) \<Longrightarrow> \<exists>e. add d w = (Some e, w)"
    and addV_new: "ok w \<Longrightarrow> \<not> hasV w i \<Longrightarrow>
      \<exists>w'. addV i w = (None, w') \<and> ok w' \<and> look w' = look w \<and> hasV w' = (hasV w)(i := True)"
    and addV_dup: "ok w \<Longrightarrow> hasV w i \<Longrightarrow> \<exists>e. addV i w = (Some e, w)"
begin

primrec adds :: "dobject list \<Rightarrow> 'w \<Rightarrow> goerror option \<times> 'w" where
  "adds [] w = (None, w)"
| "adds (d # ds) w = (case add d w of (Some e, w) \<Rightarrow> (Some e, w) | (None, w) \<Rightarrow> adds ds w)"

lemma adds_ok:
  "ok w \<Longrightarrow> distinct (map obj_ID ds) \<Longrightarrow> \<forall>d \<in> set ds. \<not> isOk (look w (obj_ID d)) \<Longrightarrow>
   \<exists>w'. adds ds w = (None, w') \<and> ok w' \<and> hasV w' = hasV w \<and>
     (\<forall>d \<in> set ds. look w' (obj_ID d) = Ok d) \<and> (\<forall>i. i \<notin> obj_ID ` set ds \<longrightarrow> look w' i = look w i)"
proof (induction ds arbitrary: w)
  case (Cons d ds)
  obtain w1 where w1: "add d w = (None, w1)" "ok w1" "look w1 = (look w)(obj_ID d := Ok d)" "hasV w1 = hasV w"
    using add_new [of w d] Cons.prems by auto
  have "\<forall>x \<in> set ds. \<not> isOk (look w1 (obj_ID x))" using Cons.prems(2,3) w1(3) by (auto simp: image_iff)
  from Cons.IH [OF w1(2) _ this] Cons.prems(2) w1 show ?case by fastforce
qed simp

lemma adds_fail:
  "ok w \<Longrightarrow> \<exists>d \<in> set ds. isOk (look w (obj_ID d)) \<Longrightarrow> \<exists>e w'. adds ds w = (Some e, w')"
proof (induction ds arbitrary: w)
  case (Cons d ds)
  show ?case
  proof (cases "isOk (look w (obj_ID d))")
    case True
    then show ?thesis using add_dup [OF Cons.prems(1) True] by auto
  next
    case False
    obtain w1 where w1: "add d w = (None, w1)" "ok w1" "look w1 = (look w)(obj_ID d := Ok d)"
      using add_new [OF Cons.prems(1) False] by blast
    have "\<exists>x \<in> set ds. isOk (look w1 (obj_ID x))" using Cons.prems(2) False w1(3) by auto
    from Cons.IH [OF w1(2) this] w1(1) show ?thesis by simp
  qed
qed simp

end

section \<open>Snapshots and views implement it\<close>

definition snapOK :: "snapshot \<Rightarrow> bool" where
  "snapOK s \<longleftrightarrow> distinct (map fst (sn_objects s)) \<and> (\<forall>(k, d) \<in> set (sn_objects s). k = obj_ID d) \<and> distinct (sn_vectors s)"

abbreviation objs :: "snapshot \<Rightarrow> (ksuid \<rightharpoonup> dobject)" where
  "objs s \<equiv> map_of (sn_objects s)"

abbreviation vecs :: "snapshot \<Rightarrow> ksuid set" where
  "vecs s \<equiv> set (sn_vectors s)"

lemma map_of_AList_update [simp]: "map_of (AList.update k v m) = (map_of m)(k \<mapsto> v)"
  by (rule ext) (simp add: update_conv)

lemma snapOK_NewSnapshot [simp]: "snapOK NewSnapshot" "objs NewSnapshot = Map.empty" "vecs NewSnapshot = {}"
  by (simp_all add: snapOK_def NewSnapshot_def)

lemma set_update_new: "k \<notin> dom (map_of m) \<Longrightarrow> set (AList.update k v m) = insert (k, v) (set m)"
  by (induction m) auto

lemma set_deleteD: "x \<in> set (AList.delete k m) \<Longrightarrow> x \<in> set m"
  by (simp add: AList.delete_eq)

lemma Snapshot_ops:
  assumes "snapOK s"
  shows "objs s (obj_ID d) = None \<Longrightarrow> \<exists>s'. Snapshot_AddDataObject d s = (None, s') \<and> snapOK s' \<and>
      objs s' = (objs s)(obj_ID d \<mapsto> d) \<and> vecs s' = vecs s"
    "objs s (obj_ID d) \<noteq> None \<Longrightarrow> Snapshot_AddDataObject d s = (Some ErrWriteConflict, s)"
    "objs s i \<noteq> None \<Longrightarrow> \<exists>s'. Snapshot_DeleteObject i s = (None, s') \<and> snapOK s' \<and>
      objs s' = (objs s)(i := None) \<and> vecs s' = vecs s"
    "objs s i = None \<Longrightarrow> Snapshot_DeleteObject i s = (Some ErrWriteConflict, s)"
    "i \<notin> vecs s \<Longrightarrow> \<exists>s'. Snapshot_AddVector i s = (None, s') \<and> snapOK s' \<and> objs s' = objs s \<and> vecs s' = insert i (vecs s)"
    "i \<in> vecs s \<Longrightarrow> Snapshot_AddVector i s = (Some ErrWriteConflict, s)"
    "i \<in> vecs s \<Longrightarrow> \<exists>s'. Snapshot_DeleteVector i s = (None, s') \<and> snapOK s' \<and> objs s' = objs s \<and> vecs s' = vecs s - {i}"
    "i \<notin> vecs s \<Longrightarrow> Snapshot_DeleteVector i s = (Some ErrWriteConflict, s)"
  using assms
proof -
  show "objs s (obj_ID d) = None \<Longrightarrow> \<exists>s'. Snapshot_AddDataObject d s = (None, s') \<and> snapOK s' \<and>
      objs s' = (objs s)(obj_ID d \<mapsto> d) \<and> vecs s' = vecs s"
    using assms by (auto simp: Snapshot_AddDataObject_def snapOK_def distinct_update set_update_new domIff)
  show "objs s i \<noteq> None \<Longrightarrow> \<exists>s'. Snapshot_DeleteObject i s = (None, s') \<and> snapOK s' \<and>
      objs s' = (objs s)(i := None) \<and> vecs s' = vecs s"
    using assms by (auto simp: Snapshot_DeleteObject_def snapOK_def distinct_delete delete_conv' dest: set_deleteD)
qed (auto simp: Snapshot_AddDataObject_def Snapshot_DeleteObject_def Snapshot_AddVector_def Snapshot_DeleteVector_def
    snapOK_def distinct_removeAll)

lemma Snapshot_Lookup_isOk [simp]: "isOk (Snapshot_Lookup s i) \<longleftrightarrow> objs s i \<noteq> None"
  by (simp add: Snapshot_Lookup_def split: option.splits)

interpretation snap: writeable Snapshot_AddDataObject Snapshot_AddVector Snapshot_Lookup Snapshot_HasVector snapOK
proof (unfold_locales, goal_cases)
  case (1 w d)
  then obtain w' where "Snapshot_AddDataObject d w = (None, w')" "snapOK w'" "objs w' = (objs w)(obj_ID d \<mapsto> d)" "vecs w' = vecs w"
    using Snapshot_ops(1) [of w d] by auto
  then show ?case by (auto simp: Snapshot_Lookup_def Snapshot_HasVector_def fun_eq_iff)
next
  case (2 w d)
  then show ?case using Snapshot_ops(2) [of w d] by simp
next
  case (3 w i)
  then obtain w' where "Snapshot_AddVector i w = (None, w')" "snapOK w'" "objs w' = objs w" "vecs w' = insert i (vecs w)"
    using Snapshot_ops(5) [of w i] by (auto simp: Snapshot_HasVector_def)
  then show ?case by (auto simp: Snapshot_Lookup_def Snapshot_HasVector_def fun_eq_iff)
next
  case (4 w i)
  then show ?case using Snapshot_ops(6) [of w i] by (auto simp: Snapshot_HasVector_def)
qed

fun viewOK :: "view \<Rightarrow> bool" where
  "viewOK (SnapV s) = snapOK s"
| "viewOK (PatchV base diff delO delV) =
     (viewOK base \<and> snapOK diff \<and> (\<forall>i. objs diff i \<noteq> None \<longrightarrow> \<not> Exists base i) \<and>
      (\<forall>i \<in> vecs diff. \<not> HasVector base i))"

interpretation vw: writeable AddDataObject AddVector Lookup HasVector viewOK
proof (unfold_locales, goal_cases)
  case (1 w d)
  show ?case
  proof (cases w)
    case (SnapV s)
    then show ?thesis using 1 snap.add_new [of s d] by (auto simp: fun_eq_iff)
  next
    case (PatchV base diff delO delV)
    have n: "\<not> isOk (Snapshot_Lookup diff (obj_ID d))" "\<not> Exists base (obj_ID d)"
      using 1 PatchV by (auto simp: Exists_def isOk_iff split: result.splits)
    obtain diff' where d: "Snapshot_AddDataObject d diff = (None, diff')" "snapOK diff'"
        "Snapshot_Lookup diff' = (Snapshot_Lookup diff)(obj_ID d := Ok d)" "Snapshot_HasVector diff' = Snapshot_HasVector diff"
      using snap.add_new [OF _ n(1)] 1 PatchV by auto
    have o: "objs diff' i \<noteq> None \<longleftrightarrow> i = obj_ID d \<or> objs diff i \<noteq> None" for i
      using d(3) Snapshot_Lookup_isOk [of diff' i] Snapshot_Lookup_isOk [of diff i] by (auto split: if_splits)
    have v: "vecs diff' = vecs diff" using d(4) by (auto simp: Snapshot_HasVector_def fun_eq_iff)
    show ?thesis using 1 PatchV n d o v by (auto simp: fun_eq_iff)
  qed
next
  case (2 w d)
  show ?case
  proof (cases w)
    case (SnapV s)
    then show ?thesis using 2 snap.add_dup [of s d] by auto
  next
    case (PatchV base diff delO delV)
    then show ?thesis using 2 snap.add_dup [of diff d] by (auto simp: Exists_def isOk_iff split: result.splits)
  qed
next
  case (3 w i)
  show ?case
  proof (cases w)
    case (SnapV s)
    then show ?thesis using 3 snap.addV_new [of s i] by (auto simp: fun_eq_iff)
  next
    case (PatchV base diff delO delV)
    obtain diff' where d: "Snapshot_AddVector i diff = (None, diff')" "snapOK diff'" "objs diff' = objs diff" "vecs diff' = insert i (vecs diff)"
      using Snapshot_ops(5) [of diff i] 3 PatchV by (auto simp: Snapshot_HasVector_def)
    then have "Snapshot_Lookup diff' = Snapshot_Lookup diff" by (simp add: Snapshot_Lookup_def fun_eq_iff)
    with d 3 PatchV show ?thesis by (auto simp: fun_eq_iff Snapshot_HasVector_def)
  qed
next
  case (4 w i)
  show ?case
  proof (cases w)
    case (SnapV s)
    then show ?thesis using 4 snap.addV_dup [of s i] by auto
  next
    case (PatchV base diff delO delV)
    then show ?thesis using 4 by auto
  qed
qed

section \<open>A patch and the snapshot it describes\<close>

definition patchedO :: "snapshot \<Rightarrow> snapshot \<Rightarrow> ksuid list \<Rightarrow> (ksuid \<rightharpoonup> dobject)" where
  "patchedO s diff delO = (objs s |` (- set delO)) ++ objs diff"

definition patchedV :: "snapshot \<Rightarrow> snapshot \<Rightarrow> ksuid list \<Rightarrow> ksuid set" where
  "patchedV s diff delV = (vecs s - set delV) \<union> vecs diff"

definition patchOK :: "snapshot \<Rightarrow> snapshot \<Rightarrow> ksuid list \<Rightarrow> ksuid list \<Rightarrow> bool" where
  "patchOK s diff delO delV \<longleftrightarrow> snapOK s \<and> snapOK diff \<and> dom (objs diff) \<inter> dom (objs s) = {} \<and> set delO \<subseteq> dom (objs s) \<and>
     vecs diff \<inter> vecs s = {} \<and> set delV \<subseteq> vecs s"

lemma Exists_SnapV [simp]: "Exists (SnapV s) i \<longleftrightarrow> objs s i \<noteq> None"
  by (simp add: Exists_def)

lemma HasVector_SnapV [simp]: "HasVector (SnapV s) i \<longleftrightarrow> i \<in> vecs s"
  by (simp add: Snapshot_HasVector_def)

text \<open>One action on a patch that deletes nothing twice, and the same action on the snapshot it describes.\<close>

lemma PlayAction_patch:
  assumes ok: "patchOK s diff delO delV" and t: "snapOK t" "objs t = patchedO s diff delO" "vecs t = patchedV s diff delV"
    and play: "PlayAction a (PatchV (SnapV s) diff delO delV) = (None, w)"
  shows "\<exists>diff' xs ys. w = PatchV (SnapV s) diff' (delO @ xs) (delV @ ys) \<and> patchOK s diff' (delO @ xs) (delV @ ys) \<and>
    (distinct (delO @ xs) \<and> distinct (delV @ ys) \<longrightarrow>
      (\<exists>t'. PlayAction a (SnapV t) = (None, SnapV t') \<and> snapOK t' \<and>
        objs t' = patchedO s diff' (delO @ xs) \<and> vecs t' = patchedV s diff' (delV @ ys)))"
proof -
  have d: "snapOK diff" and dj: "dom (objs diff) \<inter> dom (objs s) = {}" "vecs diff \<inter> vecs s = {}"
    and del: "set delO \<subseteq> dom (objs s)" "set delV \<subseteq> vecs s"
    using ok by (simp_all add: patchOK_def)
  show ?thesis
  proof (cases a)
    case (AddA c o1)
    have n1: "objs s (obj_ID o1) = None" using play AddA by (auto split: if_splits)
    have n2: "objs diff (obj_ID o1) = None"
      using play AddA n1 Snapshot_ops(2) [OF d, of o1] by (cases "objs diff (obj_ID o1)") auto
    note n = n1 n2
    obtain diff' where d': "Snapshot_AddDataObject o1 diff = (None, diff')" "snapOK diff'" "objs diff' = (objs diff)(obj_ID o1 \<mapsto> o1)" "vecs diff' = vecs diff"
      using Snapshot_ops(1) [OF d n(2)] by blast
    have "objs t (obj_ID o1) = None" using t(2) n by (simp add: patchedO_def map_add_def restrict_map_def)
    from Snapshot_ops(1) [OF t(1) this] obtain t' where t': "Snapshot_AddDataObject o1 t = (None, t')" "snapOK t'"
        "objs t' = (objs t)(obj_ID o1 \<mapsto> o1)" "vecs t' = vecs t" by blast
    have "w = PatchV (SnapV s) diff' (delO @ []) (delV @ [])" using play AddA n d'(1) by simp
    moreover have "patchOK s diff' (delO @ []) (delV @ [])" using ok d' n by (auto simp: patchOK_def)
    ultimately show ?thesis using AddA t' t d' by (intro exI conjI impI) (auto simp: patchedO_def patchedV_def)
  next
    case (DeleteA c i)
    show ?thesis
    proof (cases "objs diff i = None")
      case False
      obtain diff' where d': "Snapshot_DeleteObject i diff = (None, diff')" "snapOK diff'" "objs diff' = (objs diff)(i := None)" "vecs diff' = vecs diff"
        using Snapshot_ops(3) [OF d False] by blast
      have si: "objs s i = None" using False dj by auto
      have "objs t i \<noteq> None" using t(2) False by (auto simp: patchedO_def map_add_def)
      from Snapshot_ops(3) [OF t(1) this] obtain t' where t': "Snapshot_DeleteObject i t = (None, t')" "snapOK t'"
          "objs t' = (objs t)(i := None)" "vecs t' = vecs t" by blast
      have "w = PatchV (SnapV s) diff' (delO @ []) (delV @ [])" using play DeleteA False d'(1) by simp
      moreover have "patchOK s diff' (delO @ []) (delV @ [])" using ok d' by (auto simp: patchOK_def)
      moreover have "objs t' = patchedO s diff' delO"
        using t'(3) t(2) d'(3) si by (auto simp: patchedO_def fun_eq_iff map_add_def restrict_map_def)
      ultimately show ?thesis using DeleteA t' t d' by (intro exI conjI impI) (auto simp: patchedV_def)
    next
      case True
      have si: "objs s i \<noteq> None" and w: "w = PatchV (SnapV s) diff (delO @ [i]) (delV @ [])"
        using play DeleteA True by (auto split: if_splits)
      have ok': "patchOK s diff (delO @ [i]) (delV @ [])" using ok si by (auto simp: patchOK_def)
      have "\<exists>t'. PlayAction a (SnapV t) = (None, SnapV t') \<and> snapOK t' \<and>
          objs t' = patchedO s diff (delO @ [i]) \<and> vecs t' = patchedV s diff (delV @ [])" if "distinct (delO @ [i])"
      proof -
        have "objs t i \<noteq> None" using t(2) si that True by (auto simp: patchedO_def map_add_def restrict_map_def)
        from Snapshot_ops(3) [OF t(1) this] obtain t' where t': "Snapshot_DeleteObject i t = (None, t')" "snapOK t'"
            "objs t' = (objs t)(i := None)" "vecs t' = vecs t" by blast
        moreover have "objs t' = patchedO s diff (delO @ [i])"
          using t'(3) t(2) True by (auto simp: patchedO_def fun_eq_iff map_add_def restrict_map_def)
        ultimately show ?thesis using DeleteA t(3) by simp
      qed
      with w ok' show ?thesis by blast
    qed
  next
    case (AddVectorA c i)
    have n: "i \<notin> vecs s" "i \<notin> vecs diff" using play AddVectorA by (auto simp: Snapshot_HasVector_def split: if_splits)
    obtain diff' where d': "Snapshot_AddVector i diff = (None, diff')" "snapOK diff'" "objs diff' = objs diff" "vecs diff' = insert i (vecs diff)"
      using Snapshot_ops(5) [OF d n(2)] by blast
    have "i \<notin> vecs t" using t(3) n by (simp add: patchedV_def)
    from Snapshot_ops(5) [OF t(1) this] obtain t' where t': "Snapshot_AddVector i t = (None, t')" "snapOK t'"
        "objs t' = objs t" "vecs t' = insert i (vecs t)" by blast
    have "w = PatchV (SnapV s) diff' (delO @ []) (delV @ [])" using play AddVectorA n d'(1) by (simp add: Snapshot_HasVector_def)
    moreover have "patchOK s diff' (delO @ []) (delV @ [])" using ok d' n by (auto simp: patchOK_def)
    ultimately show ?thesis using AddVectorA t' t d' by (intro exI conjI impI) (auto simp: patchedO_def patchedV_def)
  next
    case (DeleteVectorA c i)
    show ?thesis
    proof (cases "i \<in> vecs diff")
      case True
      obtain diff' where d': "Snapshot_DeleteVector i diff = (None, diff')" "snapOK diff'" "objs diff' = objs diff" "vecs diff' = vecs diff - {i}"
        using Snapshot_ops(7) [OF d True] by blast
      have "i \<in> vecs t" using t(3) True by (simp add: patchedV_def)
      from Snapshot_ops(7) [OF t(1) this] obtain t' where t': "Snapshot_DeleteVector i t = (None, t')" "snapOK t'"
          "objs t' = objs t" "vecs t' = vecs t - {i}" by blast
      have "w = PatchV (SnapV s) diff' (delO @ []) (delV @ [])" using play DeleteVectorA True d'(1) by (simp add: Snapshot_HasVector_def)
      moreover have "patchOK s diff' (delO @ []) (delV @ [])" using ok d' by (auto simp: patchOK_def)
      moreover have "vecs t' = patchedV s diff' delV" using t'(4) t(3) d'(4) True dj(2) by (auto simp: patchedV_def)
      ultimately show ?thesis using DeleteVectorA t' t d' by (intro exI conjI impI) (auto simp: patchedO_def)
    next
      case False
      have si: "i \<in> vecs s" and w: "w = PatchV (SnapV s) diff (delO @ []) (delV @ [i])"
        using play DeleteVectorA False by (auto simp: Snapshot_HasVector_def split: if_splits)
      have ok': "patchOK s diff (delO @ []) (delV @ [i])" using ok si by (auto simp: patchOK_def)
      have "\<exists>t'. PlayAction a (SnapV t) = (None, SnapV t') \<and> snapOK t' \<and>
          objs t' = patchedO s diff (delO @ []) \<and> vecs t' = patchedV s diff (delV @ [i])" if "distinct (delV @ [i])"
      proof -
        have "i \<in> vecs t" using t(3) si that by (auto simp: patchedV_def)
        from Snapshot_ops(7) [OF t(1) this] obtain t' where t': "Snapshot_DeleteVector i t = (None, t')" "snapOK t'"
            "objs t' = objs t" "vecs t' = vecs t - {i}" by blast
        moreover have "vecs t' = patchedV s diff (delV @ [i])" using t'(4) t(3) False by (auto simp: patchedV_def)
        ultimately show ?thesis using DeleteVectorA t(2) by simp
      qed
      with w ok' show ?thesis by blast
    qed
  next
    case (CommitA r)
    then have "w = PatchV (SnapV s) diff (delO @ []) (delV @ [])" using play by simp
    with CommitA ok t show ?thesis by (intro exI conjI impI) auto
  qed
qed

end
