(* ===== verification/CommitPlay.thy ===== *)
theory CommitPlay
  imports CommitsLaws
begin

text \<open>
  Playing whole commit objects: the actions that each constructor of \<open>object.go\<close> and \<open>patch.go\<close> writes,
  when they can be played on a snapshot, and what they make of it.
\<close>

section \<open>The actions of the constructors\<close>

lemma co_NewObject [simp]:
  "co_Commit (NewObject new now parent author message meta retries) = new"
  "co_Parent (NewObject new now parent author message meta retries) = parent"
  "\<exists>r. c_ID r = new \<and> c_Parent r = parent \<and> co_Actions (NewObject new now parent author message meta retries) = [CommitA r]"
  by (simp_all add: NewObject_def appendAction_def)

lemma fold_append:
  "co_Actions (fold appendAdd ds ob) = co_Actions ob @ map (AddA (co_Commit ob)) ds"
  "co_Actions (fold appendDelete is ob) = co_Actions ob @ map (DeleteA (co_Commit ob)) is"
  "co_Actions (fold appendAddVector is ob) = co_Actions ob @ map (AddVectorA (co_Commit ob)) is"
  "co_Actions (fold appendDeleteVector is ob) = co_Actions ob @ map (DeleteVectorA (co_Commit ob)) is"
  by (induction ds arbitrary: ob; simp add: appendAdd_def appendAction_def)
    (induction "is" arbitrary: ob; simp add: appendDelete_def appendAddVector_def appendDeleteVector_def appendAction_def)+

lemma fold_append_ids [simp]:
  "co_Commit (fold appendAdd ds ob) = co_Commit ob" "co_Parent (fold appendAdd ds ob) = co_Parent ob"
  "co_Commit (fold appendDelete is ob) = co_Commit ob" "co_Parent (fold appendDelete is ob) = co_Parent ob"
  "co_Commit (fold appendAddVector is ob) = co_Commit ob" "co_Parent (fold appendAddVector is ob) = co_Parent ob"
  "co_Commit (fold appendDeleteVector is ob) = co_Commit ob" "co_Parent (fold appendDeleteVector is ob) = co_Parent ob"
  by (induction ds arbitrary: ob; simp add: appendAdd_def appendAction_def)+
    (induction "is" arbitrary: ob; simp add: appendDelete_def appendAddVector_def appendDeleteVector_def appendAction_def)+

section \<open>Playing sequences\<close>

lemma playActions_append:
  "playActions (as @ bs) w = (case playActions as w of (Some e, w) \<Rightarrow> (Some e, w) | (None, w) \<Rightarrow> playActions bs w)"
  by (induction as arbitrary: w) (auto split: prod.splits option.splits)

lemma playActions_Commit [simp]: "playActions (CommitA r # as) w = playActions as w"
  by simp

text \<open>A run of actions on a snapshot that succeeds with the given objects and vectors.\<close>

definition plays :: "action list \<Rightarrow> snapshot \<Rightarrow> (ksuid \<rightharpoonup> dobject) \<Rightarrow> ksuid set \<Rightarrow> bool" where
  "plays as s om vs \<longleftrightarrow> (\<exists>t. playActions as (SnapV s) = (None, SnapV t) \<and> snapOK t \<and> objs t = om \<and> vecs t = vs)"

lemma plays_append:
  assumes "plays as s om vs" "\<And>t. snapOK t \<Longrightarrow> objs t = om \<Longrightarrow> vecs t = vs \<Longrightarrow> plays bs t om' vs'"
  shows "plays (as @ bs) s om' vs'"
proof -
  obtain t where "playActions as (SnapV s) = (None, SnapV t)" "snapOK t" "objs t = om" "vecs t = vs"
    using assms(1) by (auto simp: plays_def)
  with assms(2) [of t] show ?thesis by (auto simp: plays_def playActions_append)
qed

lemma plays_Cons: "PlayAction a (SnapV s) = (None, SnapV t) \<Longrightarrow> plays as t om vs \<Longrightarrow> plays (a # as) s om vs"
  by (simp add: plays_def)

lemma plays_deletes:
  "snapOK s \<Longrightarrow> distinct is \<Longrightarrow> set is \<subseteq> dom (objs s) \<Longrightarrow> plays (map (DeleteA c) is) s (objs s |` (- set is)) (vecs s)"
proof (induction "is" arbitrary: s)
  case (Cons i "is")
  obtain t where t: "Snapshot_DeleteObject i s = (None, t)" "snapOK t" "objs t = (objs s)(i := None)" "vecs t = vecs s"
    using Snapshot_ops(3) [OF Cons.prems(1), of i] Cons.prems(3) by auto
  have "set is \<subseteq> dom (objs t)" using Cons.prems(2,3) t(3) by (auto simp: domIff)
  moreover have "objs t |` (- set is) = objs s |` (- set (i # is))" using t(3) by (auto simp: restrict_map_def fun_eq_iff)
  moreover have "distinct is" using Cons.prems(2) by simp
  ultimately have "plays (map (DeleteA c) is) t (objs s |` (- set (i # is))) (vecs s)"
    using Cons.IH [OF t(2)] t(4) by metis
  then show ?case using t(1) by (simp add: plays_def)
qed (simp add: plays_def restrict_map_def)

lemma plays_adds:
  "snapOK s \<Longrightarrow> distinct (map obj_ID ds) \<Longrightarrow> obj_ID ` set ds \<inter> dom (objs s) = {} \<Longrightarrow>
   plays (map (AddA c) ds) s (objs s ++ map_of (map (\<lambda>d. (obj_ID d, d)) ds)) (vecs s)"
proof (induction ds arbitrary: s)
  case (Cons d ds)
  obtain t where t: "Snapshot_AddDataObject d s = (None, t)" "snapOK t" "objs t = (objs s)(obj_ID d \<mapsto> d)" "vecs t = vecs s"
    using Snapshot_ops(1) [OF Cons.prems(1), of d] Cons.prems(3) by auto
  have "obj_ID ` set ds \<inter> dom (objs t) = {}" using Cons.prems(2,3) t(3) by auto
  moreover have "objs t ++ map_of (map (\<lambda>d. (obj_ID d, d)) ds) = objs s ++ map_of (map (\<lambda>d. (obj_ID d, d)) (d # ds))"
    using t(3) Cons.prems(2) map_add_upd_left [of "obj_ID d" "map_of (map (\<lambda>d. (obj_ID d, d)) ds)" "objs s" d]
    by (force simp: dom_map_of_conv_image_fst)
  moreover have "distinct (map obj_ID ds)" using Cons.prems(2) by simp
  ultimately have "plays (map (AddA c) ds) t (objs s ++ map_of (map (\<lambda>d. (obj_ID d, d)) (d # ds))) (vecs s)"
    using Cons.IH [OF t(2)] t(4) by metis
  moreover have "PlayAction (AddA c d) (SnapV s) = (None, SnapV t)" using t(1) by simp
  ultimately show ?case unfolding list.map by (blast intro: plays_Cons)
qed (simp add: plays_def)

lemma plays_deleteVectors:
  "snapOK s \<Longrightarrow> distinct is \<Longrightarrow> set is \<subseteq> vecs s \<Longrightarrow> plays (map (DeleteVectorA c) is) s (objs s) (vecs s - set is)"
proof (induction "is" arbitrary: s)
  case (Cons i "is")
  obtain t where t: "Snapshot_DeleteVector i s = (None, t)" "snapOK t" "objs t = objs s" "vecs t = vecs s - {i}"
    using Snapshot_ops(7) [OF Cons.prems(1), of i] Cons.prems(3) by auto
  have "set is \<subseteq> vecs t" using Cons.prems(2,3) t(4) by auto
  moreover have "vecs t - set is = vecs s - set (i # is)" using t(4) by auto
  ultimately show ?case using Cons.IH [OF t(2)] Cons.prems(2) t by (simp add: plays_def)
qed (simp add: plays_def)

lemma plays_addVectors:
  "snapOK s \<Longrightarrow> distinct is \<Longrightarrow> set is \<inter> vecs s = {} \<Longrightarrow> plays (map (AddVectorA c) is) s (objs s) (vecs s \<union> set is)"
proof (induction "is" arbitrary: s)
  case (Cons i "is")
  obtain t where t: "Snapshot_AddVector i s = (None, t)" "snapOK t" "objs t = objs s" "vecs t = insert i (vecs s)"
    using Snapshot_ops(5) [OF Cons.prems(1), of i] Cons.prems(3) by auto
  have "set is \<inter> vecs t = {}" using Cons.prems(2,3) t(4) by auto
  moreover have "vecs t \<union> set is = vecs s \<union> set (i # is)" using t(4) by auto
  ultimately show ?case using Cons.IH [OF t(2)] Cons.prems(2) t by (simp add: plays_def)
qed (simp add: plays_def)

section \<open>Maps in any order\<close>

text \<open>Ranging over a Go map visits each entry once.\<close>

definition iterOK :: "iter \<Rightarrow> bool" where
  "iterOK it \<longleftrightarrow> (\<forall>xs. mset (iterO it xs) = mset xs) \<and> (\<forall>xs. mset (iterV it xs) = mset xs)"

lemma snapOK_objs: "snapOK s \<Longrightarrow> map_of (map (\<lambda>d. (obj_ID d, d)) (map snd (sn_objects s))) = objs s"
proof -
  assume "snapOK s"
  then have "map (\<lambda>d. (obj_ID d, d)) (map snd (sn_objects s)) = sn_objects s"
    by (auto simp: snapOK_def intro!: map_idI)
  then show ?thesis by simp
qed

lemma iter_objs:
  assumes "iterOK it" "snapOK s"
  shows "distinct (map obj_ID (map snd (iterO it (sn_objects s))))"
    "map_of (map (\<lambda>d. (obj_ID d, d)) (map snd (iterO it (sn_objects s)))) = objs s"
    "obj_ID ` set (map snd (iterO it (sn_objects s))) = dom (objs s)"
    "set (map snd (iterO it (sn_objects s))) = ran (objs s)"
proof -
  have m: "mset (iterO it (sn_objects s)) = mset (sn_objects s)" using assms(1) by (simp add: iterOK_def)
  then have st: "set (iterO it (sn_objects s)) = set (sn_objects s)" by (metis mset_eq_setD)
  have k: "\<forall>x \<in> set (iterO it (sn_objects s)). fst x = obj_ID (snd x)" using assms(2) st by (auto simp: snapOK_def)
  have f: "map obj_ID (map snd (iterO it (sn_objects s))) = map fst (iterO it (sn_objects s))" using k by simp
  have dk: "distinct (map fst (iterO it (sn_objects s)))"
    using assms(2) m by (metis snapOK_def mset_eq_imp_distinct_iff mset_map)
  show "distinct (map obj_ID (map snd (iterO it (sn_objects s))))" unfolding f by (rule dk)
  have "map (\<lambda>d. (obj_ID d, d)) (map snd (iterO it (sn_objects s))) = iterO it (sn_objects s)"
    using k by (auto intro!: map_idI)
  moreover have "map_of (iterO it (sn_objects s)) = objs s"
    using dk assms(2) st by (intro map_of_inject_set [THEN iffD2]) (auto simp: snapOK_def)
  ultimately show "map_of (map (\<lambda>d. (obj_ID d, d)) (map snd (iterO it (sn_objects s)))) = objs s" by simp
  show "obj_ID ` set (map snd (iterO it (sn_objects s))) = dom (objs s)"
    using f st by (metis dom_map_of_conv_image_fst list.set_map)
  show "set (map snd (iterO it (sn_objects s))) = ran (objs s)"
    using st assms(2) by (simp add: snapOK_def ran_distinct)
qed

lemma iter_vecs:
  assumes "iterOK it" "snapOK s"
  shows "distinct (iterV it (sn_vectors s))" "set (iterV it (sn_vectors s)) = vecs s"
  using assms by (metis iterOK_def snapOK_def mset_eq_imp_distinct_iff) (metis assms(1) iterOK_def mset_eq_setD)

section \<open>Stored snapshots\<close>

lemma Snapshot_serialize_plays:
  assumes it: "iterOK it" and s: "snapOK s"
  shows "plays (Snapshot_serialize it s) NewSnapshot (objs s) (vecs s)"
proof -
  have e: "Snapshot_serialize it s = map (AddA 0) (map snd (iterO it (sn_objects s))) @ map (AddVectorA 0) (iterV it (sn_vectors s))"
    by (auto simp: Snapshot_serialize_def)
  have "plays (map (AddA 0) (map snd (iterO it (sn_objects s)))) NewSnapshot (objs s) {}"
    using plays_adds [OF snapOK_NewSnapshot(1) iter_objs(1) [OF it s], of 0] iter_objs(2) [OF it s] by simp
  then show ?thesis unfolding e
  proof (rule plays_append, goal_cases)
    case (1 t)
    then show ?case using plays_addVectors [OF 1(1) iter_vecs(1) [OF it s], of 0] iter_vecs(2) [OF it s] by simp
  qed
qed

section \<open>The commit of a patch\<close>

lemma NewCommitObject_actions:
  "\<exists>r. c_ID r = new \<and> c_Parent r = parent \<and>
   co_Actions (NewCommitObject it new now parent retries author message meta (PatchV base diff delO delV)) =
     CommitA r # map (DeleteA new) delO @ map (AddA new) (map snd (iterO it (sn_objects diff))) @
     map (DeleteVectorA new) delV @ map (AddVectorA new) (iterV it (sn_vectors diff))"
  using co_NewObject(3) [of new parent now author message meta retries] by (auto simp: fold_append Let_def)

lemma NewCommitObject_plays:
  assumes "iterOK it" "snapOK t" "snapOK diff" "distinct delO" "distinct delV" "set delO \<subseteq> dom (objs t)" "set delV \<subseteq> vecs t"
    and "dom (objs diff) \<inter> dom (objs t) = {}" "vecs diff \<inter> vecs t = {}"
  shows "plays (co_Actions (NewCommitObject it new now parent retries author message meta (PatchV base diff delO delV))) t
     (patchedO t diff delO) (patchedV t diff delV)"
proof -
  have p: "plays (map (DeleteA new) delO @ map (AddA new) (map snd (iterO it (sn_objects diff))) @
      map (DeleteVectorA new) delV @ map (AddVectorA new) (iterV it (sn_vectors diff))) t (patchedO t diff delO) (patchedV t diff delV)"
  proof (rule plays_append [OF plays_deletes [OF assms(2,4,6)]], goal_cases)
    case (1 t1)
    show ?case
    proof (rule plays_append [OF plays_adds [OF 1(1) iter_objs(1) [OF assms(1,3)]]], goal_cases)
      case 1
      then show ?case using \<open>objs t1 = _\<close> assms(8) iter_objs(3) [OF assms(1,3)] by auto
    next
      case (2 t2)
      have o2: "objs t2 = patchedO t diff delO" using 2(2) \<open>objs t1 = _\<close> iter_objs(2) [OF assms(1,3)] by (simp add: patchedO_def)
      have v2: "vecs t2 = vecs t" using 2(3) \<open>vecs t1 = _\<close> by simp
      have "plays (map (DeleteVectorA new) delV) t2 (objs t2) (vecs t2 - set delV)"
        using plays_deleteVectors [OF 2(1) assms(5)] assms(7) v2 by simp
      then show ?case
      proof (rule plays_append, goal_cases)
        case (1 t3)
        have "set (iterV it (sn_vectors diff)) \<inter> vecs t3 = {}" using 1(3) v2 assms(9) iter_vecs(2) [OF assms(1,3)] by auto
        from plays_addVectors [OF 1(1) iter_vecs(1) [OF assms(1,3)] this]
        show ?case using 1(2,3) o2 v2 iter_vecs(2) [OF assms(1,3)] by (simp add: patchedV_def)
      qed
    qed
  qed
  obtain r where "co_Actions (NewCommitObject it new now parent retries author message meta (PatchV base diff delO delV)) =
     CommitA r # map (DeleteA new) delO @ map (AddA new) (map snd (iterO it (sn_objects diff))) @
     map (DeleteVectorA new) delV @ map (AddVectorA new) (iterV it (sn_vectors diff))"
    using NewCommitObject_actions by blast
  with p show ?thesis by (simp add: plays_def)
qed

section \<open>Playing on a patch and on the snapshot it describes\<close>

lemma patched_exists:
  assumes "patchOK s diff delO delV"
  shows "\<exists>u. snapOK u \<and> objs u = patchedO s diff delO \<and> vecs u = patchedV s diff delV"
proof -
  have "plays (map (DeleteA 0) (remdups delO) @ map (AddA 0) (map snd (sn_objects diff)) @
      map (DeleteVectorA 0) (remdups delV) @ map (AddVectorA 0) (sn_vectors diff)) s
      (patchedO s diff (remdups delO)) (patchedV s diff (remdups delV))"
    using NewCommitObject_plays [of "\<lparr>iterO = id, iterV = id\<rparr>" s diff "remdups delO" "remdups delV" 0 0 0 0 "[]" "[]" znull "SnapV s"]
      assms NewCommitObject_actions [of 0 0 "\<lparr>iterO = id, iterV = id\<rparr>" 0 0 "[]" "[]" znull "SnapV s" diff "remdups delO" "remdups delV"]
    by (auto simp: patchOK_def iterOK_def plays_def)
  then show ?thesis by (auto simp: plays_def patchedO_def patchedV_def)
qed

lemma playActions_patch:
  "patchOK s diff delO delV \<Longrightarrow> snapOK t \<Longrightarrow> objs t = patchedO s diff delO \<Longrightarrow> vecs t = patchedV s diff delV \<Longrightarrow>
   playActions as (PatchV (SnapV s) diff delO delV) = (None, w) \<Longrightarrow>
   \<exists>diff' xs ys. w = PatchV (SnapV s) diff' (delO @ xs) (delV @ ys) \<and> patchOK s diff' (delO @ xs) (delV @ ys) \<and>
     (distinct (delO @ xs) \<and> distinct (delV @ ys) \<longrightarrow>
        plays as t (patchedO s diff' (delO @ xs)) (patchedV s diff' (delV @ ys)))"
proof (induction as arbitrary: t diff delO delV)
  case Nil
  then show ?case by (intro exI [of _ diff] exI [of _ "[]"]) (auto simp: plays_def)
next
  case (Cons a as)
  obtain w1 where w1: "PlayAction a (PatchV (SnapV s) diff delO delV) = (None, w1)" "playActions as w1 = (None, w)"
    using Cons.prems(5) by (auto split: prod.splits option.splits)
  obtain diff1 xs1 ys1 where p1: "w1 = PatchV (SnapV s) diff1 (delO @ xs1) (delV @ ys1)" "patchOK s diff1 (delO @ xs1) (delV @ ys1)"
    and st: "distinct (delO @ xs1) \<and> distinct (delV @ ys1) \<longrightarrow>
      (\<exists>t'. PlayAction a (SnapV t) = (None, SnapV t') \<and> snapOK t' \<and>
        objs t' = patchedO s diff1 (delO @ xs1) \<and> vecs t' = patchedV s diff1 (delV @ ys1))"
    using PlayAction_patch [OF Cons.prems(1-4) w1(1)] by blast
  have ex: "\<exists>u. snapOK u \<and> objs u = patchedO s diff1 (delO @ xs1) \<and> vecs u = patchedV s diff1 (delV @ ys1)"
    by (rule patched_exists [OF p1(2)])
  then obtain u where u: "snapOK u" "objs u = patchedO s diff1 (delO @ xs1)" "vecs u = patchedV s diff1 (delV @ ys1)" by blast
  obtain diff' xs ys where d: "w = PatchV (SnapV s) diff' ((delO @ xs1) @ xs) ((delV @ ys1) @ ys)"
      "patchOK s diff' ((delO @ xs1) @ xs) ((delV @ ys1) @ ys)"
    using Cons.IH [OF p1(2) u w1(2) [unfolded p1(1)]] by blast
  have "plays (a # as) t (patchedO s diff' (delO @ xs1 @ xs)) (patchedV s diff' (delV @ ys1 @ ys))"
    if dis: "distinct (delO @ xs1 @ xs)" "distinct (delV @ ys1 @ ys)"
  proof -
    obtain t' where t': "PlayAction a (SnapV t) = (None, SnapV t')" "snapOK t'"
        "objs t' = patchedO s diff1 (delO @ xs1)" "vecs t' = patchedV s diff1 (delV @ ys1)"
      using st dis by auto
    from Cons.IH [OF p1(2) t'(2-4) w1(2) [unfolded p1(1)]] d(1) dis
    have "plays as t' (patchedO s diff' (delO @ xs1 @ xs)) (patchedV s diff' (delV @ ys1 @ ys))" by auto
    with t'(1) show ?thesis by (simp add: plays_def)
  qed
  with d show ?case by (intro exI [of _ diff'] exI [of _ "xs1 @ xs"] exI [of _ "ys1 @ ys"]) simp
qed

end
