(* ===== verification/CommitMerge.thy ===== *)
theory CommitMerge
  imports CommitPlay
begin

text \<open>
  \<open>Revert\<close> and \<open>Diff\<close> of \<open>patch.go\<close>: the objects that the commits they make add and delete, when those
  can be played on the tip of the branch, and what the tip becomes.
\<close>

section \<open>Deletes that cannot be played\<close>

lemma deletes_conflict:
  "snapOK s \<Longrightarrow> \<not> (distinct is \<and> set is \<subseteq> dom (objs s)) \<Longrightarrow>
   \<exists>t. playActions (map (DeleteA c) is @ as) (SnapV s) = (Some ErrWriteConflict, SnapV t)"
proof (induction "is" arbitrary: s)
  case (Cons i "is")
  show ?case
  proof (cases "objs s i = None")
    case True
    then show ?thesis using Snapshot_ops(4) [OF Cons.prems(1), of i] by simp
  next
    case False
    obtain t where t: "Snapshot_DeleteObject i s = (None, t)" "snapOK t" "objs t = (objs s)(i := None)"
      using Snapshot_ops(3) [OF Cons.prems(1) False] by blast
    have "\<not> (distinct is \<and> set is \<subseteq> dom (objs t))" using Cons.prems(2) False t(3) by (auto simp: domIff)
    from Cons.IH [OF t(2) this] t(1) show ?thesis by simp
  qed
qed simp

section \<open>Lookups in a patch of a snapshot\<close>

lemma Snapshot_Lookup_Ok: "Snapshot_Lookup s i = Ok d \<longleftrightarrow> objs s i = Some d"
  by (simp add: Snapshot_Lookup_def split: option.splits)

lemma Exists_PatchV [simp]: "Exists (PatchV (SnapV s) diff delO delV) i \<longleftrightarrow> objs diff i \<noteq> None \<or> objs s i \<noteq> None"
  by (cases "objs diff i"; cases "objs s i") (auto simp: Exists_def Snapshot_Lookup_def)

lemma snapOK_ID: "snapOK s \<Longrightarrow> objs s i = Some d \<Longrightarrow> obj_ID d = i"
  by (auto simp: snapOK_def dest: map_of_SomeD)

lemma map_of_filter_ID:
  "map_of (map (\<lambda>d. (obj_ID d, d)) (filter (\<lambda>d. Q (obj_ID d)) ds)) = map_of (map (\<lambda>d. (obj_ID d, d)) ds) |` Collect Q"
  by (induction ds) (auto simp: fun_eq_iff restrict_map_def)

section \<open>Reverting\<close>

lemma revert_deletes:
  "co_Actions (fold (\<lambda>d ob. if Exists tip (obj_ID d) then appendDelete (obj_ID d) ob else ob) ds ob) =
     co_Actions ob @ map (DeleteA (co_Commit ob)) (filter (Exists tip) (map obj_ID ds)) \<and>
   co_Commit (fold (\<lambda>d ob. if Exists tip (obj_ID d) then appendDelete (obj_ID d) ob else ob) ds ob) = co_Commit ob"
  by (induction ds arbitrary: ob) (simp_all add: appendDelete_def appendAction_def)

lemma revert_adds_eq:
  assumes "snapOK s"
  shows "set is \<subseteq> dom (objs s) \<Longrightarrow>
    \<exists>ob'. revert_adds (SnapV s) tip is ob = Ok ob' \<and> co_Commit ob' = co_Commit ob \<and>
      co_Actions ob' = co_Actions ob @ map (AddA (co_Commit ob)) (map (the \<circ> objs s) (filter (\<lambda>i. \<not> Exists tip i) is))"
proof (induction "is" arbitrary: ob)
  case (Cons i "is")
  then obtain d where d: "objs s i = Some d" by auto
  then have "Snapshot_Lookup s i = Ok d" "obj_ID d = i" using snapOK_ID [OF assms] by (auto simp: Snapshot_Lookup_Ok)
  with Cons.IH [of ob] Cons.IH [of "appendAdd d ob"] Cons.prems d show ?case
    by (auto simp: appendAdd_def appendAction_def)
qed simp

lemma the_objs:
  assumes "snapOK s" "set is \<subseteq> dom (objs s)"
  shows "map obj_ID (map (the \<circ> objs s) is) = is"
    "map_of (map (\<lambda>d. (obj_ID d, d)) (map (the \<circ> objs s) is)) = objs s |` set is"
proof -
  have k: "\<forall>i \<in> set is. obj_ID (the (objs s i)) = i" using assms snapOK_ID by fastforce
  then show "map obj_ID (map (the \<circ> objs s) is) = is" by (simp add: map_idI)
  have "map (\<lambda>d. (obj_ID d, d)) (map (the \<circ> objs s) is) = map (\<lambda>i. (i, the (objs s i))) is" using k by simp
  moreover have "map_of (map (\<lambda>i. (i, the (objs s i))) is) = objs s |` set is"
    using assms(2) by (auto simp: map_of_map_restrict fun_eq_iff restrict_map_def)
  ultimately show "map_of (map (\<lambda>d. (obj_ID d, d)) (map (the \<circ> objs s) is)) = objs s |` set is" by metis
qed

lemma Patch_Revert_plays:
  assumes it: "iterOK it" and ok: "patchOK s diff delO delV" and t: "snapOK t" and d: "distinct delO"
    and r: "Patch_Revert it new now (SnapV t) parent retries author message (PatchV (SnapV s) diff delO delV) = Ok ob"
  shows "co_Commit ob = new \<and>
    plays (co_Actions ob) t ((objs s |` set delO) ++ (objs t |` (- dom (objs diff)))) (vecs t)"
proof -
  have s: "snapOK s" "snapOK diff" and dj: "dom (objs diff) \<inter> dom (objs s) = {}" and del: "set delO \<subseteq> dom (objs s)"
    using ok by (simp_all add: patchOK_def)
  let ?ds = "map snd (iterO it (sn_objects diff))"
  let ?dels = "filter (Exists (SnapV t)) (map obj_ID ?ds)"
  let ?adds = "filter (\<lambda>i. \<not> Exists (SnapV t) i) delO"
  obtain rec where a: "co_Actions ob = CommitA rec # map (DeleteA new) ?dels @ map (AddA new) (map (the \<circ> objs s) ?adds)"
    and c: "co_Commit ob = new"
  proof -
    let ?o = "NewObject new now parent author message znull retries"
    let ?o1 = "fold (\<lambda>d ob. if Exists (SnapV t) (obj_ID d) then appendDelete (obj_ID d) ob else ob) (Snapshot_SelectAll it diff) ?o"
    obtain ob' where "revert_adds (SnapV s) (SnapV t) delO ?o1 = Ok ob'" "co_Commit ob' = co_Commit ?o1"
      "co_Actions ob' = co_Actions ?o1 @ map (AddA (co_Commit ?o1)) (map (the \<circ> objs s) ?adds)"
      using revert_adds_eq [OF s(1) del, of "SnapV t" ?o1] by blast
    moreover have "ob = ob'" using r calculation(1) by (auto simp: Let_def split: if_splits)
    moreover obtain rec where "co_Actions ?o = [CommitA rec]" using co_NewObject(3) by blast
    ultimately show ?thesis using that revert_deletes [of "SnapV t" "Snapshot_SelectAll it diff" ?o]
      by (simp add: Snapshot_SelectAll_def)
  qed
  have "distinct ?dels" using iter_objs(1) [OF it s(2)] by (rule distinct_filter)
  moreover have "set ?dels = obj_ID ` set ?ds \<inter> dom (objs t)" by (auto simp: domIff)
  ultimately have dd: "distinct ?dels" "set ?dels \<subseteq> dom (objs t)" "set ?dels = dom (objs diff) \<inter> dom (objs t)"
    unfolding iter_objs(3) [OF it s(2)] by auto
  have "plays (map (DeleteA new) ?dels @ map (AddA new) (map (the \<circ> objs s) ?adds)) t
      ((objs s |` set delO) ++ (objs t |` (- dom (objs diff)))) (vecs t)"
  proof (rule plays_append [OF plays_deletes [OF t dd(1,2)]], goal_cases)
    case (1 t1)
    have sub: "set ?adds \<subseteq> dom (objs s)" using del by auto
    have "distinct (map obj_ID (map (the \<circ> objs s) ?adds))" unfolding the_objs(1) [OF s(1) sub] using d by simp
    moreover have "obj_ID ` set (map (the \<circ> objs s) ?adds) \<inter> dom (objs t1) = {}"
    proof -
      have "obj_ID ` set (map (the \<circ> objs s) ?adds) = set ?adds" using the_objs(1) [OF s(1) sub] by (metis list.set_map)
      moreover have "dom (objs t1) \<subseteq> dom (objs t)" using 1(2) by (auto simp: restrict_map_def split: if_splits)
      ultimately show ?thesis by auto
    qed
    ultimately have "plays (map (AddA new) (map (the \<circ> objs s) ?adds)) t1 (objs t1 ++ (objs s |` set ?adds)) (vecs t1)"
      using plays_adds [OF 1(1), of "map (the \<circ> objs s) ?adds" new] the_objs(2) [OF s(1) sub] by simp
    moreover have "objs t1 ++ (objs s |` set ?adds) = (objs s |` set delO) ++ (objs t |` (- dom (objs diff)))"
      using 1(2) dd(3) dj del by (auto simp: fun_eq_iff map_add_def restrict_map_def domIff split: option.splits)
    ultimately show ?case using 1(3) by simp
  qed
  with a c show ?thesis by (simp add: plays_def)
qed

section \<open>Differences of branches\<close>

lemma iter_dom: "iterOK it \<Longrightarrow> snapOK s \<Longrightarrow> x \<in> set (iterO it (sn_objects s)) \<Longrightarrow> \<exists>d. objs s (obj_ID (snd x)) = Some d"
  using iter_objs(3) [of it s] by (auto simp: dom_def)

lemma diff_adds_eq:
  assumes "\<forall>i \<in> set deleted. Exists P i"
  shows "snapOK d \<Longrightarrow> \<forall>i \<in> dom (objs d). \<not> Exists P i \<Longrightarrow>
    distinct (map obj_ID (filter (\<lambda>x. \<not> Exists P (obj_ID x)) ds)) \<Longrightarrow>
    obj_ID ` set (filter (\<lambda>x. \<not> Exists P (obj_ID x)) ds) \<inter> dom (objs d) = {} \<Longrightarrow>
    \<exists>d'. diff_adds P deleted ds (PatchV P d [] []) dirty =
        Ok (PatchV P d' [] [], dirty \<or> filter (\<lambda>x. \<not> Exists P (obj_ID x)) ds \<noteq> []) \<and>
      snapOK d' \<and> objs d' = objs d ++ map_of (map (\<lambda>x. (obj_ID x, x)) (filter (\<lambda>x. \<not> Exists P (obj_ID x)) ds)) \<and> vecs d' = vecs d"
proof (induction ds arbitrary: d dirty)
  case (Cons x ds)
  show ?case
  proof (cases "Exists P (obj_ID x)")
    case True
    then show ?thesis using Cons.IH [OF Cons.prems(1,2), of dirty] Cons.prems(3,4) by simp
  next
    case False
    obtain d1 where d1: "Snapshot_AddDataObject x d = (None, d1)" "snapOK d1" "objs d1 = (objs d)(obj_ID x \<mapsto> x)" "vecs d1 = vecs d"
      using Snapshot_ops(1) [OF Cons.prems(1), of x] Cons.prems(4) False by auto
    let ?f = "filter (\<lambda>x. \<not> Exists P (obj_ID x)) ds"
    have n: "obj_ID x \<notin> obj_ID ` set ?f" using Cons.prems(3) False by auto
    have p: "\<forall>i \<in> dom (objs d1). \<not> Exists P i" "distinct (map obj_ID ?f)" "obj_ID ` set ?f \<inter> dom (objs d1) = {}"
      using Cons.prems(2,3,4) False d1(3) n by auto
    have "objs d1 ++ map_of (map (\<lambda>x. (obj_ID x, x)) ?f) = objs d ++ map_of (map (\<lambda>x. (obj_ID x, x)) (x # ?f))"
      using d1(3) n map_add_upd_left [of "obj_ID x" "map_of (map (\<lambda>x. (obj_ID x, x)) ?f)" "objs d" x]
      by (force simp: dom_map_of_conv_image_fst)
    note m = this
    obtain d' where d': "diff_adds P deleted ds (PatchV P d1 [] []) True = Ok (PatchV P d' [] [], True)" "snapOK d'"
        "objs d' = objs d1 ++ map_of (map (\<lambda>x. (obj_ID x, x)) ?f)" "vecs d' = vecs d1"
      using Cons.IH [OF d1(2) p, of True] by auto
    have f: "filter (\<lambda>x. \<not> Exists P (obj_ID x)) (x # ds) = x # ?f" using False by simp
    have "diff_adds P deleted (x # ds) (PatchV P d [] []) dirty = diff_adds P deleted ds (PatchV P d1 [] []) True"
      using assms False d1(1) by auto
    with d' d1(4) show ?thesis unfolding f m [symmetric] by (intro exI [of _ d'] conjI) auto
  qed
qed simp

lemma diff_deletes_eq:
  "\<forall>i \<in> set is. Exists P i \<and> objs d i = None \<Longrightarrow>
   diff_deletes P is (PatchV P d delO delV) dirty = Ok (PatchV P d (delO @ is) delV, dirty \<or> is \<noteq> [])"
  by (induction "is" arbitrary: delO dirty) auto

lemma Diff_eq:
  assumes it: "iterOK it" and P: "patchOK s diffP delP vP" and C: "patchOK s diffC delC vC"
    and ne: "delC \<noteq> [] \<or> \<not> dom (objs diffC) \<subseteq> dom (objs diffP)"
  shows "\<exists>d. Diff it (PatchV (SnapV s) diffP delP vP) (PatchV (SnapV s) diffC delC vC) =
      Ok (PatchV (PatchV (SnapV s) diffP delP vP) d delC []) \<and>
    snapOK d \<and> objs d = objs diffC |` (- dom (objs diffP)) \<and> vecs d = {}"
proof -
  let ?P = "PatchV (SnapV s) diffP delP vP" and ?C = "PatchV (SnapV s) diffC delC vC"
  have ok: "snapOK s" "snapOK diffC" "dom (objs diffC) \<inter> dom (objs s) = {}" "set delC \<subseteq> dom (objs s)"
    using C by (simp_all add: patchOK_def)
  let ?ds = "map snd (iterO it (sn_objects diffC))"
  have "filter (\<lambda>x. \<not> Exists ?P (obj_ID x)) (map snd (iterO it (sn_objects s))) = []"
    using iter_dom [OF it ok(1)] by (auto simp: filter_empty_conv)
  moreover have "filter (\<lambda>x. \<not> Exists ?P (obj_ID x)) ?ds = filter (\<lambda>x. obj_ID x \<in> - dom (objs diffP)) ?ds"
    using iter_dom [OF it ok(2)] ok(3) by (intro filter_cong) fastforce+
  ultimately have f: "filter (\<lambda>x. \<not> Exists ?P (obj_ID x)) (SelectAll it ?C) = filter (\<lambda>x. obj_ID x \<in> - dom (objs diffP)) ?ds"
    by (simp add: Snapshot_SelectAll_def)
  have m: "map_of (map (\<lambda>x. (obj_ID x, x)) (filter (\<lambda>x. obj_ID x \<in> - dom (objs diffP)) ?ds)) = objs diffC |` (- dom (objs diffP))"
    using map_of_filter_ID [of "\<lambda>i. i \<in> - dom (objs diffP)" ?ds] iter_objs(2) [OF it ok(2)] by (simp add: Collect_neg_eq)
  have dis: "distinct (map obj_ID (filter (\<lambda>x. obj_ID x \<in> - dom (objs diffP)) ?ds))"
    using iter_objs(1) [OF it ok(2)] by (rule distinct_map_filter)
  have nf: "filter (\<lambda>x. obj_ID x \<in> - dom (objs diffP)) ?ds \<noteq> [] \<longleftrightarrow> \<not> dom (objs diffC) \<subseteq> dom (objs diffP)"
    unfolding iter_objs(3) [OF it ok(2), symmetric] by (auto simp: filter_empty_conv)
  have del: "\<forall>i \<in> set delC. Exists ?P i" using ok(4) by auto
  obtain d where d: "diff_adds ?P delC (SelectAll it ?C) (PatchV ?P NewSnapshot [] []) False =
        Ok (PatchV ?P d [] [], \<not> dom (objs diffC) \<subseteq> dom (objs diffP))"
      "snapOK d" "objs d = objs diffC |` (- dom (objs diffP))" "vecs d = {}"
    using diff_adds_eq [OF del snapOK_NewSnapshot(1), of "SelectAll it ?C" False, unfolded f m] dis nf
    by (auto simp del: SelectAll.simps)
  have "\<forall>i \<in> set delC. Exists ?P i \<and> objs d i = None" using del d(3) ok(3,4) by (auto simp: restrict_map_def domIff)
  from diff_deletes_eq [OF this] d ne show ?thesis by (auto simp: Diff_def NewPatch_def)
qed

end
