(* ===== verification/CommitProps.thy ===== *)
theory CommitProps
  imports CommitMerge
begin

text \<open>
  The properties of commits: a patch and the commit made of it agree with playing the actions directly,
  stored snapshots are read back, a reverted commit is undone, and when merges can be played.
\<close>

section \<open>Patches\<close>

lemma patchOK_new [simp]: "snapOK s \<Longrightarrow> patchOK s NewSnapshot [] []"
  by (simp add: patchOK_def)

lemma patched_new [simp]: "patchedO s NewSnapshot [] = objs s" "patchedV s NewSnapshot [] = vecs s"
  by (simp_all add: patchedO_def patchedV_def restrict_map_def)

lemma played_patch:
  assumes "snapOK s" "playActions as (NewPatch (SnapV s)) = (None, PatchV (SnapV s) diff delO delV)"
  shows "patchOK s diff delO delV"
    and "distinct delO \<Longrightarrow> distinct delV \<Longrightarrow> plays as s (patchedO s diff delO) (patchedV s diff delV)"
  using playActions_patch [of s NewSnapshot "[]" "[]" s as] assms by (auto simp: NewPatch_def)

lemma played_tip:
  assumes "plays as s om vs" "playActions as (SnapV s) = (None, SnapV t)"
  shows "snapOK t" "objs t = om" "vecs t = vs"
  using assms by (auto simp: plays_def)

text \<open>C8: the commit object made of a patch does what the actions that were played into the patch do:
  when they have been played into a patch of a snapshot, and nothing was deleted twice, then they can
  be played on the snapshot itself, the commit object can be played on it, and the two results have the
  same objects and vectors.  The order in which the maps are visited does not matter.\<close>

theorem commit_of_patch:
  assumes s: "snapOK s" and it: "iterOK it"
    and p: "playActions as (NewPatch (SnapV s)) = (None, PatchV (SnapV s) diff delO delV)" and d: "distinct delO" "distinct delV"
  shows "\<exists>t u. playActions as (SnapV s) = (None, SnapV t) \<and>
    Play (NewCommitObject it new now parent retries author message meta (PatchV (SnapV s) diff delO delV)) (SnapV s) = (None, SnapV u) \<and>
    objs u = objs t \<and> vecs u = vecs t"
proof -
  have ok: "patchOK s diff delO delV" by (rule played_patch(1) [OF s p])
  have "plays (co_Actions (NewCommitObject it new now parent retries author message meta (PatchV (SnapV s) diff delO delV))) s
      (patchedO s diff delO) (patchedV s diff delV)"
    by (rule NewCommitObject_plays) (use ok it d in \<open>auto simp: patchOK_def\<close>)
  moreover have "plays as s (patchedO s diff delO) (patchedV s diff delV)" by (rule played_patch(2) [OF s p d])
  ultimately show ?thesis by (auto simp: plays_def Play_def)
qed

definition dob :: "ksuid \<Rightarrow> dobject" where
  "dob i = \<lparr>obj_ID = i, obj_Min = znull, obj_Max = znull, obj_Count = 1, obj_Size = 100\<rparr>"

definition idIter :: iter where
  "idIter = \<lparr>iterO = id, iterV = id\<rparr>"

definition two :: snapshot where
  "two = \<lparr>sn_objects = [(1, dob 1), (2, dob 2)], sn_vectors = [1]\<rparr>"

lemma iterOK_id [simp]: "iterOK idIter"
  by (simp add: iterOK_def idIter_def)

lemma snapOK_two [simp]: "snapOK two"
  by (simp add: snapOK_def two_def dob_def)

lemma objs_two: "dom (objs two) = {1, 2}"
  by (auto simp: two_def)

lemmas play_eval = NewPatch_def NewSnapshot_def two_def dob_def idIter_def Exists_def Snapshot_Lookup_def Snapshot_HasVector_def
  Snapshot_AddDataObject_def Snapshot_DeleteObject_def Snapshot_AddVector_def Snapshot_DeleteVector_def

text \<open>A patch that adds object 3 with a vector and deletes object 1 and its vector.\<close>

definition swap :: "action list" where
  "swap = [AddA 0 (dob 3), AddVectorA 0 3, DeleteA 0 1, DeleteVectorA 0 1]"

abbreviation three :: snapshot where
  "three \<equiv> \<lparr>sn_objects = [(3, dob 3)], sn_vectors = [3]\<rparr>"

lemma swap_patch: "playActions swap (NewPatch (SnapV two)) = (None, PatchV (SnapV two) three [1] [1])"
  by (simp add: swap_def play_eval)

theorem commit_of_patch_witness:
  "snapOK two \<and> iterOK idIter \<and>
   (\<exists>t u. playActions swap (SnapV two) = (None, SnapV t) \<and>
     Play (NewCommitObject idIter 9 0 8 0 '''' '''' znull (PatchV (SnapV two) three [1] [1])) (SnapV two) = (None, SnapV u) \<and>
     objs u = objs t \<and> vecs u = vecs t)"
  using commit_of_patch [OF snapOK_two iterOK_id swap_patch, of 9 0 8 0 "''''" "''''" znull] by simp

section \<open>Deletes\<close>

text \<open>A commit of deletes can be played exactly when every object that it deletes exists and
  none is named twice.  So \<open>Branch.Delete\<close>, which looks up each ID and accepts one that is given
  twice, writes a commit after which no snapshot of the branch can be computed.\<close>

theorem deletes_played:
  assumes "snapOK s"
  shows "fst (Play (NewDeletesObject new now parent retries author message ids) (SnapV s)) =
    (if distinct ids \<and> set ids \<subseteq> dom (objs s) then None else Some ErrWriteConflict)"
proof -
  obtain r where "co_Actions (NewObject new now parent author message znull retries) = [CommitA r]"
    using co_NewObject(3) by blast
  then have "Play (NewDeletesObject new now parent retries author message ids) (SnapV s) =
      playActions (map (DeleteA new) ids @ []) (SnapV s)"
    by (simp add: Play_def NewDeletesObject_def fold_append)
  moreover have "distinct ids \<and> set ids \<subseteq> dom (objs s) \<Longrightarrow> \<exists>t. playActions (map (DeleteA new) ids @ []) (SnapV s) = (None, SnapV t)"
    using plays_deletes [OF assms, of ids new] by (auto simp: plays_def)
  ultimately show ?thesis using deletes_conflict [OF assms, of ids new "[]"] by (metis fst_conv)
qed

theorem deletes_played_witness:
  "snapOK two \<and> fst (Play (NewDeletesObject 9 0 8 0 '''' '''' [2, 1]) (SnapV two)) = None \<and>
   fst (Play (NewDeletesObject 9 0 8 0 '''' '''' [2, 2]) (SnapV two)) = Some ErrWriteConflict"
  using deletes_played [OF snapOK_two, of 9 0 8 0 "''''" "''''" "[2, 1]"]
    deletes_played [OF snapOK_two, of 9 0 8 0 "''''" "''''" "[2, 2]"]
  by (simp add: objs_two)

section \<open>Stored snapshots\<close>

text \<open>A snapshot that is written to storage, whatever the order in which its maps are visited, is
  read back with the same objects and vectors.\<close>

theorem snapshot_roundtrip:
  assumes "iterOK it" "snapOK s"
  shows "\<exists>t. decodeSnapshot (Snapshot_serialize it s) = Ok t \<and> snapOK t \<and> objs t = objs s \<and> vecs t = vecs s"
  using Snapshot_serialize_plays [OF assms] by (auto simp: plays_def decodeSnapshot_def)

theorem snapshot_roundtrip_witness:
  "iterOK idIter \<and> snapOK two \<and>
   (\<exists>t. decodeSnapshot (Snapshot_serialize idIter two) = Ok t \<and> snapOK t \<and> objs t = objs two \<and> vecs t = vecs two)"
  using snapshot_roundtrip [OF iterOK_id snapOK_two] by simp

section \<open>Reverting\<close>

text \<open>The commit that reverts the last commit of a branch can be played on its tip, and gives the
  objects of the snapshot before the reverted commit.  Vectors are left as they are: those that the
  commit added stay, and those that it deleted stay deleted.\<close>

theorem revert_restores_objects:
  assumes s: "snapOK s" and it: "iterOK it"
    and p: "playActions as (NewPatch (SnapV s)) = (None, PatchV (SnapV s) diff delO delV)" and d: "distinct delO" "distinct delV"
    and tip: "playActions as (SnapV s) = (None, SnapV t)"
    and r: "Patch_Revert it new now (SnapV t) parent retries author message (PatchV (SnapV s) diff delO delV) = Ok ob"
  shows "\<exists>u. Play ob (SnapV t) = (None, SnapV u) \<and> objs u = objs s \<and> vecs u = vecs t"
proof -
  have ok: "patchOK s diff delO delV" by (rule played_patch(1) [OF s p])
  note t = played_tip [OF played_patch(2) [OF s p d] tip]
  have "(objs s |` set delO) ++ (objs t |` (- dom (objs diff))) = objs s"
    using ok t(2) by (auto simp: patchOK_def patchedO_def fun_eq_iff map_add_def restrict_map_def domIff split: option.splits)
  then have "plays (co_Actions ob) t (objs s) (vecs t)" using Patch_Revert_plays [OF it ok t(1) d(1) r] by metis
  then show ?thesis by (auto simp: plays_def Play_def)
qed

definition swapped :: snapshot where
  "swapped = \<lparr>sn_objects = [(2, dob 2), (3, dob 3)], sn_vectors = [3]\<rparr>"

lemma swap_tip: "playActions swap (SnapV two) = (None, SnapV swapped)"
  by (simp add: swap_def swapped_def play_eval)

definition unswap :: cobject where
  "unswap = appendAdd (dob 1) (appendDelete 3 (NewObject 9 0 8 '''' '''' znull 0))"

lemma unswap_revert: "Patch_Revert idIter 9 0 (SnapV swapped) 8 0 '''' '''' (PatchV (SnapV two) three [1] [1]) = Ok unswap"
  by (simp add: unswap_def swapped_def play_eval Snapshot_SelectAll_def appendAdd_def appendDelete_def NewObject_def appendAction_def)

theorem revert_restores_objects_witness:
  "snapOK two \<and> iterOK idIter \<and>
   (\<exists>u. Play unswap (SnapV swapped) = (None, SnapV u) \<and> objs u = objs two \<and> vecs u = vecs swapped)"
  using revert_restores_objects [OF snapOK_two iterOK_id swap_patch _ _ swap_tip unswap_revert] by simp

section \<open>Merging\<close>

text \<open>C9: when two branches have left a snapshot, no object is deleted on both, and the child has a change
  that the parent does not have, then the difference of their patches exists, its commit can be played on
  the tip of the parent, and gives the parent's objects without those that the child deleted and with those
  that it added.  The vectors of the child are not merged.\<close>

theorem merge_played:
  assumes s: "snapOK s" and it: "iterOK it"
    and P: "playActions asP (NewPatch (SnapV s)) = (None, PatchV (SnapV s) diffP delP vP)" "distinct delP" "distinct vP"
    and tip: "playActions asP (SnapV s) = (None, SnapV t)"
    and C: "playActions asC (NewPatch (SnapV s)) = (None, PatchV (SnapV s) diffC delC vC)" "distinct delC"
    and dj: "set delC \<inter> set delP = {}" and ne: "delC \<noteq> [] \<or> \<not> dom (objs diffC) \<subseteq> dom (objs diffP)"
  shows "\<exists>p u. Diff it (PatchV (SnapV s) diffP delP vP) (PatchV (SnapV s) diffC delC vC) = Ok p \<and>
    Play (NewCommitObject it new now parent retries author message meta p) (SnapV t) = (None, SnapV u) \<and>
    objs u = (objs t |` (- set delC)) ++ (objs diffC |` (- dom (objs diffP))) \<and> vecs u = vecs t"
proof -
  have okP: "patchOK s diffP delP vP" and okC: "patchOK s diffC delC vC"
    by (rule played_patch(1) [OF s P(1)], rule played_patch(1) [OF s C(1)])
  note t = played_tip [OF played_patch(2) [OF s P] tip]
  obtain d where d: "Diff it (PatchV (SnapV s) diffP delP vP) (PatchV (SnapV s) diffC delC vC) =
      Ok (PatchV (PatchV (SnapV s) diffP delP vP) d delC [])"
      "snapOK d" "objs d = objs diffC |` (- dom (objs diffP))" "vecs d = {}"
    using Diff_eq [OF it okP okC ne] by blast
  have "set delC \<subseteq> dom (objs t)"
  proof
    fix i assume "i \<in> set delC"
    then have "i \<in> dom (objs s)" "i \<notin> set delP" using okC dj by (auto simp: patchOK_def)
    then show "i \<in> dom (objs t)" using t(2) by (auto simp: patchedO_def restrict_map_def split: if_splits)
  qed
  moreover have "dom (objs d) \<inter> dom (objs t) = {}"
  proof -
    have "dom (objs t) \<subseteq> dom (objs s) \<union> dom (objs diffP)" using t(2) by (auto simp: patchedO_def restrict_map_def split: if_splits)
    moreover have "dom (objs diffC) \<inter> dom (objs s) = {}" using okC by (simp add: patchOK_def)
    ultimately show ?thesis using d(3) by auto
  qed
  ultimately have "plays (co_Actions (NewCommitObject it new now parent retries author message meta
      (PatchV (PatchV (SnapV s) diffP delP vP) d delC []))) t (patchedO t d delC) (patchedV t d [])"
    by (intro NewCommitObject_plays [OF it t(1) d(2) C(2)]) (simp_all add: d(4))
  with d show ?thesis by (auto simp: plays_def Play_def patchedO_def patchedV_def)
qed

lemma drop2_patch: "playActions [DeleteA 0 2] (NewPatch (SnapV two)) = (None, PatchV (SnapV two) NewSnapshot [2] [])"
  by (simp add: play_eval)

lemma drop2_tip: "playActions [DeleteA 0 2] (SnapV two) = (None, SnapV \<lparr>sn_objects = [(1, dob 1)], sn_vectors = [1]\<rparr>)"
  by (simp add: play_eval)

theorem merge_played_witness:
  "snapOK two \<and> iterOK idIter \<and>
   (\<exists>p u. Diff idIter (PatchV (SnapV two) NewSnapshot [2] []) (PatchV (SnapV two) three [1] [1]) = Ok p \<and>
     Play (NewCommitObject idIter 9 0 8 0 '''' '''' znull p) (SnapV \<lparr>sn_objects = [(1, dob 1)], sn_vectors = [1]\<rparr>) = (None, SnapV u) \<and>
     objs u = [3 \<mapsto> dob 3] \<and> vecs u = {1})"
proof -
  have e: "([1 \<mapsto> dob 1] |` (- {1})) ++ ([3 \<mapsto> dob 3] |` (- dom (objs NewSnapshot))) = [3 \<mapsto> dob 3]"
    by (auto simp: fun_eq_iff map_add_def restrict_map_def)
  have "\<exists>p u. Diff idIter (PatchV (SnapV two) NewSnapshot [2] []) (PatchV (SnapV two) three [1] [1]) = Ok p \<and>
     Play (NewCommitObject idIter 9 0 8 0 '''' '''' znull p) (SnapV \<lparr>sn_objects = [(1, dob 1)], sn_vectors = [1]\<rparr>) = (None, SnapV u) \<and>
     objs u = ([1 \<mapsto> dob 1] |` (- {1})) ++ ([3 \<mapsto> dob 3] |` (- dom (objs NewSnapshot))) \<and> vecs u = {1}"
    using merge_played [OF snapOK_two iterOK_id drop2_patch _ _ drop2_tip swap_patch, of 9 0 8 0 "''''" "''''" znull] by simp
  then show ?thesis unfolding e by simp
qed

text \<open>C35: an object that both branches deleted is not detected: the difference of the patches exists,
  because looking up an object in a patch still finds what the patch deletes, and its commit cannot be
  played on the tip of the parent.  After such a merge no snapshot of the parent can be computed.\<close>

theorem merge_misses_delete_conflict:
  assumes s: "snapOK s" and it: "iterOK it"
    and P: "playActions asP (NewPatch (SnapV s)) = (None, PatchV (SnapV s) diffP delP vP)" "distinct delP" "distinct vP"
    and tip: "playActions asP (SnapV s) = (None, SnapV t)"
    and C: "playActions asC (NewPatch (SnapV s)) = (None, PatchV (SnapV s) diffC delC vC)"
    and both: "i \<in> set delC" "i \<in> set delP"
  shows "\<exists>p. Diff it (PatchV (SnapV s) diffP delP vP) (PatchV (SnapV s) diffC delC vC) = Ok p \<and>
    fst (Play (NewCommitObject it new now parent retries author message meta p) (SnapV t)) = Some ErrWriteConflict"
proof -
  have okP: "patchOK s diffP delP vP" and okC: "patchOK s diffC delC vC"
    by (rule played_patch(1) [OF s P(1)], rule played_patch(1) [OF s C(1)])
  note t = played_tip [OF played_patch(2) [OF s P] tip]
  obtain d where d: "Diff it (PatchV (SnapV s) diffP delP vP) (PatchV (SnapV s) diffC delC vC) =
      Ok (PatchV (PatchV (SnapV s) diffP delP vP) d delC [])"
    using Diff_eq [OF it okP okC] both(1) by fastforce
  have "objs s i \<noteq> None" "objs diffP i = None" using both okP by (auto simp: patchOK_def)
  then have "objs t i = None" using t(2) both(2) by (simp add: patchedO_def map_add_def)
  then have "\<not> (distinct delC \<and> set delC \<subseteq> dom (objs t))" using both(1) by auto
  note conflict = deletes_conflict [OF t(1) this, of new]
  obtain r where "co_Actions (NewCommitObject it new now parent retries author message meta
      (PatchV (PatchV (SnapV s) diffP delP vP) d delC [])) = CommitA r # map (DeleteA new) delC @
        map (AddA new) (map snd (iterO it (sn_objects d))) @ map (DeleteVectorA new) [] @ map (AddVectorA new) (iterV it (sn_vectors d))"
    using NewCommitObject_actions [of new parent it now retries author message meta "PatchV (SnapV s) diffP delP vP" d delC "[]"] by blast
  with conflict d show ?thesis by (metis Play_def playActions_Commit fst_conv)
qed

theorem merge_misses_delete_conflict_witness:
  "snapOK two \<and> iterOK idIter \<and>
   (\<exists>p. Diff idIter (PatchV (SnapV two) NewSnapshot [2] []) (PatchV (SnapV two) NewSnapshot [2] []) = Ok p \<and>
     fst (Play (NewCommitObject idIter 9 0 8 0 '''' '''' znull p) (SnapV \<lparr>sn_objects = [(1, dob 1)], sn_vectors = [1]\<rparr>)) =
       Some ErrWriteConflict)"
  using merge_misses_delete_conflict [OF snapOK_two iterOK_id drop2_patch _ _ drop2_tip drop2_patch, of 2 9 0 8 0 "''''" "''''" znull]
  by simp

end
