(* ===== verification/CommitStore.thy ===== *)
theory CommitStore
  imports CommitPlay
begin

text \<open>
  The store of commit objects (\<open>lake/commits/store.go\<close>, \<open>reader.go\<close>): the files of commits and of snapshots,
  and a client's caches of objects, paths and snapshots.

  Each cache is a map.  \<open>evict n\<close> is the set of keys that the cache library drops at the \<open>n\<close>-th addition of the
  client, so that every policy of eviction is some \<open>evict\<close>.  Loops that follow parents may run for ever on files
  whose parents form a cycle: \<open>None\<close> stands for not returning.  Contexts are not cancelled, and the engine
  fails only for files that do not exist.
\<close>

section \<open>Files and caches\<close>

record cstore =
  cs_files :: "ksuid \<rightharpoonup> action list"
  cs_snaps :: "ksuid \<rightharpoonup> action list"
  cs_cache :: "ksuid \<rightharpoonup> cobject"
  cs_paths :: "ksuid \<rightharpoonup> ksuid list"
  cs_snapshots :: "ksuid \<rightharpoonup> snapshot"
  cs_tick :: nat

record env =
  e_iter :: iter
  e_evict :: "nat \<Rightarrow> ksuid set"

definition OpenCommitStore :: "cstore \<Rightarrow> cstore" where
  "OpenCommitStore st = st\<lparr>cs_cache := Map.empty, cs_paths := Map.empty, cs_snapshots := Map.empty\<rparr>"

definition cacheAdd :: "env \<Rightarrow> ksuid \<Rightarrow> cobject \<Rightarrow> cstore \<Rightarrow> cstore" where
  "cacheAdd E k ob st = st\<lparr>cs_cache := ((cs_cache st)(k \<mapsto> ob)) |` (- e_evict E (cs_tick st)), cs_tick := cs_tick st + 1\<rparr>"

definition pathsAdd :: "env \<Rightarrow> ksuid \<Rightarrow> ksuid list \<Rightarrow> cstore \<Rightarrow> cstore" where
  "pathsAdd E k p st = st\<lparr>cs_paths := ((cs_paths st)(k \<mapsto> p)) |` (- e_evict E (cs_tick st)), cs_tick := cs_tick st + 1\<rparr>"

definition snapshotsAdd :: "env \<Rightarrow> ksuid \<Rightarrow> snapshot \<Rightarrow> cstore \<Rightarrow> cstore" where
  "snapshotsAdd E k s st = st\<lparr>cs_snapshots := ((cs_snapshots st)(k \<mapsto> s)) |` (- e_evict E (cs_tick st)), cs_tick := cs_tick st + 1\<rparr>"

definition ErrFileNotExist :: goerror where "ErrFileNotExist = Errorf ''file does not exist''"

section \<open>Objects\<close>

definition Get :: "env \<Rightarrow> ksuid \<Rightarrow> cstore \<Rightarrow> cobject go \<times> cstore" where
  "Get E commit st =
     (case cs_cache st commit of
        Some ob \<Rightarrow> (Ok ob, st)
      | None \<Rightarrow>
          (case cs_files st commit of
             None \<Rightarrow> (Err ErrFileNotExist, st)
           | Some acts \<Rightarrow>
               (case DecodeObject acts of
                  Ok ob \<Rightarrow> (Ok ob, cacheAdd E commit ob st)
                | Err err \<Rightarrow> (Err (if err = ErrBadCommitObject then Errorf ''system error: first record of object not a commit'' else err), st)
                | Panic \<Rightarrow> (Panic, st))))"

definition Put :: "cobject \<Rightarrow> cstore \<Rightarrow> unit go \<times> cstore" where
  "Put ob st =
     (case Object_Serialize ob of
        Ok b \<Rightarrow> (Ok (), st\<lparr>cs_files := (cs_files st)(co_Commit ob \<mapsto> b)\<rparr>)
      | Err err \<Rightarrow> (Err err, st)
      | Panic \<Rightarrow> (Panic, st))"

definition Remove :: "cobject \<Rightarrow> cstore \<Rightarrow> unit go \<times> cstore" where
  "Remove ob st =
     (if cs_files st (co_Commit ob) = None then (Err ErrFileNotExist, st)
      else (Ok (), st\<lparr>cs_files := (cs_files st)(co_Commit ob := None)\<rparr>))"

section \<open>Snapshots of commits\<close>

definition getCommitSnapshot :: "ksuid \<Rightarrow> cstore \<Rightarrow> snapshot go" where
  "getCommitSnapshot commit st =
     (case cs_snaps st commit of None \<Rightarrow> Err ErrFileNotExist | Some acts \<Rightarrow> decodeSnapshot acts)"

definition putCommitSnapshot :: "env \<Rightarrow> ksuid \<Rightarrow> snapshot \<Rightarrow> cstore \<Rightarrow> cstore" where
  "putCommitSnapshot E commit s st = st\<lparr>cs_snaps := (cs_snaps st)(commit \<mapsto> Snapshot_serialize (e_iter E) s)\<rparr>"

text \<open>
  The walk of \<open>Snapshot\<close> to the nearest ancestor with a snapshot.  The object is fetched while the snapshot is
  looked for; here it is fetched first, and its error counts only when there is no snapshot.
\<close>

partial_function (option) snapshot_walk ::
    "env \<Rightarrow> ksuid \<Rightarrow> cobject list \<Rightarrow> cstore \<Rightarrow> ((snapshot option \<times> cobject list) go \<times> cstore) option" where
  "snapshot_walk E at objects st =
     (if at = 0 then Some (Ok (None, objects), st)
      else case cs_snapshots st at of
        Some snap \<Rightarrow> Some (Ok (Some snap, objects), st)
      | None \<Rightarrow>
          (case Get E at st of
             (r, st) \<Rightarrow>
               (case getCommitSnapshot at st of
                  Ok snap \<Rightarrow> Some (Ok (Some snap, objects), snapshotsAdd E at snap st)
                | _ \<Rightarrow>
                    (case r of
                       Ok ob \<Rightarrow> snapshot_walk E (co_Parent ob) (objects @ [ob]) st
                     | Err err \<Rightarrow> Some (Err err, st)
                     | Panic \<Rightarrow> Some (Panic, st)))))"

definition snapshot_play :: "env \<Rightarrow> snapshot option \<Rightarrow> cobject list \<Rightarrow> goerror option \<times> view" where
  "snapshot_play E base objects =
     playActions (concat (map co_Actions (rev objects)))
       (SnapV (case base of None \<Rightarrow> NewSnapshot | Some s \<Rightarrow> Snapshot_Copy (e_iter E) s))"

definition Store_Snapshot :: "env \<Rightarrow> ksuid \<Rightarrow> cstore \<Rightarrow> (snapshot go \<times> cstore) option" where
  "Store_Snapshot E leaf st =
     (case cs_snapshots st leaf of
        Some snap \<Rightarrow> Some (Ok snap, st)
      | None \<Rightarrow>
          (case getCommitSnapshot leaf st of
             Ok snap \<Rightarrow> Some (Ok snap, snapshotsAdd E leaf snap st)
           | _ \<Rightarrow>
               (case snapshot_walk E leaf [] st of
                  None \<Rightarrow> None
                | Some (Err err, st) \<Rightarrow> Some (Err err, st)
                | Some (Panic, st) \<Rightarrow> Some (Panic, st)
                | Some (Ok (base, objects), st) \<Rightarrow>
                    (case snapshot_play E base objects of
                       (Some err, _) \<Rightarrow> Some (Err err, st)
                     | (None, SnapV snap) \<Rightarrow>
                         Some (Ok snap, snapshotsAdd E leaf snap (putCommitSnapshot E leaf snap st))
                     | (None, PatchV _ _ _ _) \<Rightarrow> Some (Panic, st)))))"

section \<open>Paths\<close>

text \<open>The loop over a cached path: up to the commit \<open>to\<close>, or all of it.\<close>

fun take_to :: "ksuid \<Rightarrow> ksuid list \<Rightarrow> ksuid list" where
  "take_to to [] = []"
| "take_to to (i # is) = (if i = to then [i] else i # take_to to is)"

partial_function (option) path_walk :: "env \<Rightarrow> ksuid \<Rightarrow> ksuid \<Rightarrow> ksuid list \<Rightarrow> cstore \<Rightarrow> (ksuid list go \<times> cstore) option" where
  "path_walk E at to path st =
     (if at = 0 then Some (Ok path, st)
      else case cs_paths st at of
        Some cache \<Rightarrow> Some (Ok (path @ take_to to cache), st)
      | None \<Rightarrow>
          (case Get E at st of
             (Ok ob, st) \<Rightarrow>
               if at = to then Some (Ok (path @ [at]), st)
               else path_walk E (co_Parent ob) to (path @ [at]) st
           | (Err err, st) \<Rightarrow> Some (Err err, st)
           | (Panic, st) \<Rightarrow> Some (Panic, st)))"

definition PathRange :: "env \<Rightarrow> ksuid \<Rightarrow> ksuid \<Rightarrow> cstore \<Rightarrow> (ksuid list go \<times> cstore) option" where
  "PathRange E from to st = path_walk E from to [] st"

definition Path :: "env \<Rightarrow> ksuid \<Rightarrow> cstore \<Rightarrow> (ksuid list go \<times> cstore) option" where
  "Path E leaf st =
     (if leaf = 0 then Some (Err (Errorf ''no path for nil commit ID''), st)
      else case cs_paths st leaf of
        Some path \<Rightarrow> Some (Ok path, st)
      | None \<Rightarrow>
          (case PathRange E leaf 0 st of
             None \<Rightarrow> None
           | Some (Ok path, st) \<Rightarrow> Some (Ok path, pathsAdd E leaf path st)
           | Some (r, st) \<Rightarrow> Some (r, st)))"

section \<open>Reading the log\<close>

definition GetBytes :: "ksuid \<Rightarrow> cstore \<Rightarrow> (action list \<times> commitrec) go" where
  "GetBytes commit st =
     (case cs_files st commit of
        None \<Rightarrow> Err ErrFileNotExist
      | Some (CommitA first # acts) \<Rightarrow> Ok (CommitA first # acts, first)
      | Some _ \<Rightarrow> Err (Errorf ''system error: first record of commit object is not a commit action''))"

partial_function (option) readAll_loop :: "ksuid \<Rightarrow> ksuid \<Rightarrow> action list list \<Rightarrow> cstore \<Rightarrow> action list list go option" where
  "readAll_loop commit stop buffers st =
     (if commit = 0 \<or> commit = stop then Some (Ok buffers)
      else case GetBytes commit st of
        Ok (b, first) \<Rightarrow> readAll_loop (c_Parent first) stop (buffers @ [b]) st
      | Err err \<Rightarrow> Some (Err err)
      | Panic \<Rightarrow> Some Panic)"

definition ReadAll :: "ksuid \<Rightarrow> ksuid \<Rightarrow> cstore \<Rightarrow> action list go option" where
  "ReadAll commit stop st = map_option (mapR (\<lambda>buffers. concat (rev buffers))) (readAll_loop commit stop [] st)"

record logReader =
  lr_cursor :: ksuid
  lr_stop :: ksuid

definition newLogReader :: "ksuid \<Rightarrow> ksuid \<Rightarrow> logReader" where
  "newLogReader leaf stop = \<lparr>lr_cursor = leaf, lr_stop = stop\<rparr>"

definition LogReader_Read :: "cstore \<Rightarrow> logReader \<Rightarrow> commitrec option go \<times> logReader" where
  "LogReader_Read st r =
     (if lr_cursor r = 0 then (Ok None, r)
      else case GetBytes (lr_cursor r) st of
        Ok (b, first) \<Rightarrow>
          (Ok (Some first), r\<lparr>lr_cursor := if c_Parent first = lr_stop r then 0 else c_Parent first\<rparr>)
      | Err err \<Rightarrow> (Err err, r)
      | Panic \<Rightarrow> (Panic, r))"

section \<open>Patches of commits\<close>

definition PatchOfCommit :: "env \<Rightarrow> ksuid \<Rightarrow> cstore \<Rightarrow> (view go \<times> cstore) option" where
  "PatchOfCommit E commit st =
     (case Path E commit st of
        None \<Rightarrow> None
      | Some (Err err, st) \<Rightarrow> Some (Err err, st)
      | Some (Panic, st) \<Rightarrow> Some (Panic, st)
      | Some (Ok path, st) \<Rightarrow>
          if length path = 0 then Some (Err (Errorf ''system error: no error on pathless commit''), st)
          else case (if length path = 1 then Some (Ok NewSnapshot, st) else Store_Snapshot E (path ! 1) st) of
            None \<Rightarrow> None
          | Some (Err err, st) \<Rightarrow> Some (Err err, st)
          | Some (Panic, st) \<Rightarrow> Some (Panic, st)
          | Some (Ok base, st) \<Rightarrow>
              (case Get E commit st of
                 (Err err, st) \<Rightarrow> Some (Err err, st)
               | (Panic, st) \<Rightarrow> Some (Panic, st)
               | (Ok ob, st) \<Rightarrow>
                   (case playActions (co_Actions ob) (NewPatch (SnapV base)) of
                      (Some err, _) \<Rightarrow> Some (Err err, st)
                    | (None, patch) \<Rightarrow> Some (Ok patch, st))))"

text \<open>The commits are given in the order of playing.\<close>

fun patch_play :: "env \<Rightarrow> ksuid list \<Rightarrow> view \<Rightarrow> cstore \<Rightarrow> view go \<times> cstore" where
  "patch_play E [] patch st = (Ok patch, st)"
| "patch_play E (i # is) patch st =
     (case Get E i st of
        (Err err, st) \<Rightarrow> (Err err, st)
      | (Panic, st) \<Rightarrow> (Panic, st)
      | (Ok ob, st) \<Rightarrow>
          (case playActions (co_Actions ob) patch of
             (Some err, _) \<Rightarrow> (Err err, st)
           | (None, patch) \<Rightarrow> patch_play E is patch st))"

definition PatchOfPath :: "env \<Rightarrow> snapshot \<Rightarrow> ksuid \<Rightarrow> ksuid \<Rightarrow> cstore \<Rightarrow> (view go \<times> cstore) option" where
  "PatchOfPath E base baseID commit st =
     (case PathRange E commit baseID st of
        None \<Rightarrow> None
      | Some (Err err, st) \<Rightarrow> Some (Err err, st)
      | Some (Panic, st) \<Rightarrow> Some (Panic, st)
      | Some (Ok path, st) \<Rightarrow>
          if length path < 2 then Some (Ok (NewPatch (SnapV base)), st)
          else Some (patch_play E (rev (butlast path)) (NewPatch (SnapV base)) st))"

section \<open>Vacuuming\<close>

fun vacuum_actions :: "snapshot \<Rightarrow> action list \<Rightarrow> dobject list" where
  "vacuum_actions snap [] = []"
| "vacuum_actions snap (AddA c d # as) =
     (if isOk (Snapshot_Lookup snap (obj_ID d)) then vacuum_actions snap as else d # vacuum_actions snap as)"
| "vacuum_actions snap (_ # as) = vacuum_actions snap as"

text \<open>An object that cannot be read ends the loop without an error.\<close>

partial_function (option) vacuum_loop :: "env \<Rightarrow> ksuid \<Rightarrow> snapshot \<Rightarrow> ksuid \<Rightarrow> dobject list \<Rightarrow> cstore \<Rightarrow> (dobject list \<times> cstore) option" where
  "vacuum_loop E leaf snap at out st =
     (if at = 0 then Some (out, st)
      else case Get E at st of
        (Ok ob, st) \<Rightarrow>
          vacuum_loop E leaf snap (co_Parent ob)
            (if co_Commit ob = leaf then out else out @ vacuum_actions snap (co_Actions ob)) st
      | (_, st) \<Rightarrow> Some (out, st))"

definition Vacuumable :: "env \<Rightarrow> ksuid \<Rightarrow> cstore \<Rightarrow> (dobject list go \<times> cstore) option" where
  "Vacuumable E leaf st =
     (case Store_Snapshot E leaf st of
        None \<Rightarrow> None
      | Some (Err err, st) \<Rightarrow> Some (Err err, st)
      | Some (Panic, st) \<Rightarrow> Some (Panic, st)
      | Some (Ok snap, st) \<Rightarrow>
          (case vacuum_loop E leaf snap leaf [] st of
             None \<Rightarrow> None
           | Some (out, st) \<Rightarrow> Some (Ok out, st)))"

end
