(* ===== verification/CommitStoreLaws.thy ===== *)
theory CommitStoreLaws
  imports CommitStore
begin

text \<open>
  The invariant of a commit store: what is cached and what is stored as a snapshot agrees with the commit files.
  Every operation keeps it, and under it the operations return what the files alone determine.
\<close>

section \<open>Snapshots with the same contents\<close>

definition eqv :: "snapshot \<Rightarrow> snapshot \<Rightarrow> bool" where
  "eqv s t \<longleftrightarrow> snapOK s \<and> snapOK t \<and> objs s = objs t \<and> vecs s = vecs t"

lemma PlayAction_eqv:
  assumes "eqv s t"
  shows "\<exists>e s' t'. PlayAction a (SnapV s) = (e, SnapV s') \<and> PlayAction a (SnapV t) = (e, SnapV t') \<and> eqv s' t'"
proof -
  have s: "snapOK s" and t: "snapOK t" and o: "objs s = objs t" and v: "vecs s = vecs t" using assms by (auto simp: eqv_def)
  show ?thesis
  proof (cases a)
    case (AddA c d)
    show ?thesis
    proof (cases "objs s (obj_ID d)")
      case None
      with Snapshot_ops(1) [OF s, of d] Snapshot_ops(1) [OF t, of d] o v AddA show ?thesis by (auto simp: eqv_def)
    next
      case (Some x)
      with Snapshot_ops(2) [OF s, of d] Snapshot_ops(2) [OF t, of d] o AddA assms show ?thesis by auto
    qed
  next
    case (DeleteA c i)
    show ?thesis
    proof (cases "objs s i")
      case (Some x)
      with Snapshot_ops(3) [OF s, of i] Snapshot_ops(3) [OF t, of i] o v DeleteA show ?thesis by (auto simp: eqv_def)
    next
      case None
      with Snapshot_ops(4) [OF s, of i] Snapshot_ops(4) [OF t, of i] o DeleteA assms show ?thesis by auto
    qed
  next
    case (AddVectorA c i)
    with Snapshot_ops(5,6) [OF s, of i] Snapshot_ops(5,6) [OF t, of i] o v assms show ?thesis
      by (cases "i \<in> vecs s") (auto simp: eqv_def)
  next
    case (DeleteVectorA c i)
    with Snapshot_ops(7,8) [OF s, of i] Snapshot_ops(7,8) [OF t, of i] o v assms show ?thesis
      by (cases "i \<in> vecs s") (auto simp: eqv_def)
  next
    case (CommitA r)
    with assms show ?thesis by simp
  qed
qed

lemma playActions_eqv:
  "eqv s t \<Longrightarrow> \<exists>e s' t'. playActions as (SnapV s) = (e, SnapV s') \<and> playActions as (SnapV t) = (e, SnapV t') \<and> eqv s' t'"
proof (induction as arbitrary: s t)
  case (Cons a as)
  obtain e s1 t1 where p: "PlayAction a (SnapV s) = (e, SnapV s1)" "PlayAction a (SnapV t) = (e, SnapV t1)" "eqv s1 t1"
    using PlayAction_eqv [OF Cons.prems] by blast
  then show ?case using Cons.IH [OF p(3)] by (cases e) auto
qed simp

lemma copyO_loop_objs:
  "distinct (map fst (sn_objects out)) \<Longrightarrow> distinct (map fst xs) \<Longrightarrow> fst ` set xs \<inter> dom (objs out) = {} \<Longrightarrow>
   objs (copyO_loop xs out) = objs out ++ map_of xs \<and> distinct (map fst (sn_objects (copyO_loop xs out))) \<and>
   set (sn_objects (copyO_loop xs out)) = set (sn_objects out) \<union> set xs"
proof (induction xs out rule: copyO_loop.induct)
  case (2 k d xs out)
  let ?o = "out\<lparr>sn_objects := AList.update k d (sn_objects out)\<rparr>"
  have "distinct (map fst (sn_objects ?o))" using 2(2) by (simp add: distinct_update)
  moreover have "fst ` set xs \<inter> dom (objs ?o) = {}" using 2(3,4) by auto
  moreover have "distinct (map fst xs)" using 2(3) by simp
  ultimately have ih: "objs (copyO_loop xs ?o) = objs ?o ++ map_of xs" "distinct (map fst (sn_objects (copyO_loop xs ?o)))"
      "set (sn_objects (copyO_loop xs ?o)) = set (sn_objects ?o) \<union> set xs"
    using 2(1) by blast+
  have "set (sn_objects ?o) = insert (k, d) (set (sn_objects out))" using 2(4) set_update_new [of k "sn_objects out" d] by auto
  then have s: "set (sn_objects ?o) \<union> set xs = set (sn_objects out) \<union> set ((k, d) # xs)" by simp
  have m: "objs ?o ++ map_of xs = objs out ++ map_of ((k, d) # xs)"
    using 2(3) map_add_upd_left [of k "map_of xs" "objs out" d] by (simp add: dom_map_of_conv_image_fst)
  show ?case unfolding copyO_loop.simps(2) ih(1,3) s m using ih(2) by blast
qed simp

lemma copyV_loop:
  "distinct (vs @ xs) \<Longrightarrow> fold (\<lambda>k vs. if k \<in> set vs then vs else vs @ [k]) xs vs = vs @ xs"
  by (induction xs arbitrary: vs) auto

lemma Snapshot_Copy_eqv:
  assumes it: "iterOK it" and s: "snapOK s"
  shows "eqv (Snapshot_Copy it s) s"
proof -
  have m: "mset (iterO it (sn_objects s)) = mset (sn_objects s)" using it by (simp add: iterOK_def)
  then have st: "set (iterO it (sn_objects s)) = set (sn_objects s)" by (metis mset_eq_setD)
  have dk: "distinct (map fst (iterO it (sn_objects s)))"
    using s m by (metis snapOK_def mset_eq_imp_distinct_iff mset_map)
  have "map_of (iterO it (sn_objects s)) = objs s"
    using dk s st by (intro map_of_inject_set [THEN iffD2]) (auto simp: snapOK_def)
  with copyO_loop_objs [of NewSnapshot "iterO it (sn_objects s)"] dk st s copyV_loop [of "[]" "iterV it (sn_vectors s)"] iter_vecs [OF it s]
  show ?thesis by (simp add: eqv_def Snapshot_Copy_def snapOK_def NewSnapshot_def)
qed

section \<open>Chains of commits\<close>

text \<open>The commits from one to the root, each with its object, leaf first.\<close>

inductive chain :: "(ksuid \<rightharpoonup> action list) \<Rightarrow> ksuid \<Rightarrow> (ksuid \<times> cobject) list \<Rightarrow> bool" for f where
  Root: "chain f 0 []"
| Step: "c \<noteq> 0 \<Longrightarrow> f c = Some acts \<Longrightarrow> DecodeObject acts = Ok ob \<Longrightarrow> chain f (co_Parent ob) os \<Longrightarrow> chain f c ((c, ob) # os)"

inductive_cases chain_Nil: "chain f c []"
inductive_cases chain_Cons: "chain f c (x # os)"
inductive_simps chain_0 [simp]: "chain f 0 os"

lemma chain_unique: "chain f c os \<Longrightarrow> chain f c os' \<Longrightarrow> os = os'"
proof (induction arbitrary: os' rule: chain.induct)
  case (Step c acts ob os)
  obtain acts' ob' os1 where "os' = (c, ob') # os1" "f c = Some acts'" "DecodeObject acts' = Ok ob'" "chain f (co_Parent ob') os1"
    using Step.prems Step.hyps(1) by (cases rule: chain.cases) blast+
  with Step.hyps(2,3) Step.IH show ?case by simp
qed simp

definition acts_of :: "(ksuid \<times> cobject) list \<Rightarrow> action list" where
  "acts_of os = concat (map (\<lambda>x. co_Actions (snd x)) (rev os))"

lemma acts_of_split: "acts_of os = acts_of (drop k os) @ acts_of (take k os)"
  by (metis acts_of_def append_take_drop_id concat_append map_append rev_append)

lemma acts_of_snd: "concat (map co_Actions (rev (map snd os))) = acts_of os"
  by (simp add: acts_of_def rev_map comp_def)

section \<open>The invariant\<close>

definition snapAt :: "(ksuid \<rightharpoonup> action list) \<Rightarrow> ksuid \<Rightarrow> snapshot \<Rightarrow> bool" where
  "snapAt f c s \<longleftrightarrow> snapOK s \<and> (\<exists>os. chain f c os \<and> plays (acts_of os) NewSnapshot (objs s) (vecs s))"

definition cstoreOK :: "cstore \<Rightarrow> bool" where
  "cstoreOK st \<longleftrightarrow>
     (\<forall>c ob. cs_cache st c = Some ob \<longrightarrow> (\<exists>acts. cs_files st c = Some acts \<and> DecodeObject acts = Ok ob)) \<and>
     (\<forall>c p. cs_paths st c = Some p \<longrightarrow> c \<noteq> 0 \<and> (\<exists>os. chain (cs_files st) c os \<and> p = map fst os)) \<and>
     (\<forall>c s. cs_snapshots st c = Some s \<longrightarrow> snapAt (cs_files st) c s) \<and>
     (\<forall>c s. getCommitSnapshot c st = Ok s \<longrightarrow> snapAt (cs_files st) c s)"

lemma cstoreOKD:
  assumes "cstoreOK st"
  shows "cs_cache st c = Some ob \<Longrightarrow> \<exists>acts. cs_files st c = Some acts \<and> DecodeObject acts = Ok ob"
    "cs_paths st c = Some p \<Longrightarrow> c \<noteq> 0 \<and> (\<exists>os. chain (cs_files st) c os \<and> p = map fst os)"
    "cs_snapshots st c = Some s \<Longrightarrow> snapAt (cs_files st) c s"
    "getCommitSnapshot c st = Ok s \<Longrightarrow> snapAt (cs_files st) c s"
  using assms unfolding cstoreOK_def by blast+

lemma add_files [simp]:
  "cs_files (cacheAdd E k ob st) = cs_files st" "cs_files (pathsAdd E k p st) = cs_files st"
  "cs_files (snapshotsAdd E k s st) = cs_files st" "cs_files (putCommitSnapshot E k s st) = cs_files st"
  by (simp_all add: cacheAdd_def pathsAdd_def snapshotsAdd_def putCommitSnapshot_def)

lemma add_OK:
  assumes "cstoreOK st"
  shows "cs_files st k = Some acts \<Longrightarrow> DecodeObject acts = Ok ob \<Longrightarrow> cstoreOK (cacheAdd E k ob st)"
    "k \<noteq> 0 \<Longrightarrow> chain (cs_files st) k os \<Longrightarrow> cstoreOK (pathsAdd E k (map fst os) st)"
    "snapAt (cs_files st) k s \<Longrightarrow> cstoreOK (snapshotsAdd E k s st)"
  using assms
  by (auto simp: cstoreOK_def cacheAdd_def pathsAdd_def snapshotsAdd_def getCommitSnapshot_def restrict_map_def split: if_splits)

lemma Get_ok:
  assumes "cstoreOK st" "cs_files st c = Some acts" "DecodeObject acts = Ok ob"
  shows "\<exists>st'. Get E c st = (Ok ob, st') \<and> cstoreOK st' \<and> cs_files st' = cs_files st"
proof (cases "cs_cache st c")
  case (Some ob')
  with cstoreOKD(1) [OF assms(1) Some] assms show ?thesis by (auto simp: Get_def)
next
  case None
  with assms add_OK(1) [OF assms(1), of c acts ob E] show ?thesis by (simp add: Get_def)
qed

lemma snapAt_eqv: "snapAt f c s \<Longrightarrow> eqv s t \<Longrightarrow> snapAt f c t"
  by (auto simp: snapAt_def eqv_def)

section \<open>Snapshots\<close>

text \<open>What the walk returns: the nearest base and the objects after it.\<close>

definition walked :: "(ksuid \<times> cobject) list \<Rightarrow> snapshot option \<Rightarrow> nat \<Rightarrow> bool" where
  "walked os base k \<longleftrightarrow>
     (case base of None \<Rightarrow> drop k os = []
      | Some s \<Rightarrow> snapOK s \<and> plays (acts_of (drop k os)) NewSnapshot (objs s) (vecs s))"

lemma snapAt_walked: "snapAt f c s \<Longrightarrow> chain f c os \<Longrightarrow> walked os (Some s) 0"
  using chain_unique by (auto simp: snapAt_def walked_def)

lemma snapshot_walk_ok:
  "chain f at os \<Longrightarrow> cstoreOK st \<Longrightarrow> cs_files st = f \<Longrightarrow>
   \<exists>base k st'. snapshot_walk E at objects st = Some (Ok (base, objects @ map snd (take k os)), st') \<and>
     walked os base k \<and> cstoreOK st' \<and> cs_files st' = f"
proof (induction arbitrary: objects st rule: chain.induct)
  case Root
  then show ?case by (intro exI [of _ None] exI [of _ 0]) (simp add: snapshot_walk.simps walked_def)
next
  case (Step c acts ob os)
  have ch: "chain f c ((c, ob) # os)" using Step.hyps by (rule chain.Step)
  show ?case
  proof (cases "cs_snapshots st c")
    case (Some s)
    then have "walked ((c, ob) # os) (Some s) 0" using cstoreOKD(3) [OF Step.prems(1) Some] Step.prems(2) snapAt_walked ch by blast
    with Some Step show ?thesis by (intro exI [of _ "Some s"] exI [of _ 0]) (simp add: snapshot_walk.simps [of E c])
  next
    case None
    obtain st1 where g: "Get E c st = (Ok ob, st1)" "cstoreOK st1" "cs_files st1 = f"
      using Get_ok [OF Step.prems(1)] Step.prems(2) Step.hyps(2,3) by blast
    show ?thesis
    proof (cases "\<exists>s. getCommitSnapshot c st1 = Ok s")
      case True
      then obtain s where s: "getCommitSnapshot c st1 = Ok s" by blast
      have at: "snapAt f c s" using cstoreOKD(4) [OF g(2) s] g(3) by simp
      then have "walked ((c, ob) # os) (Some s) 0" "cstoreOK (snapshotsAdd E c s st1)"
        using snapAt_walked ch add_OK(3) [OF g(2)] g(3) by auto
      with None g s Step.hyps(1) show ?thesis
        by (intro exI [of _ "Some s"] exI [of _ 0]) (simp add: snapshot_walk.simps [of E c])
    next
      case False
      obtain base k st' where ih: "snapshot_walk E (co_Parent ob) (objects @ [ob]) st1 =
          Some (Ok (base, (objects @ [ob]) @ map snd (take k os)), st')" "walked os base k" "cstoreOK st'" "cs_files st' = f"
        using Step.IH [OF g(2,3)] by blast
      have "snapshot_walk E c objects st = snapshot_walk E (co_Parent ob) (objects @ [ob]) st1"
        using None g(1) False Step.hyps(1) by (cases "getCommitSnapshot c st1") (auto simp: snapshot_walk.simps [of E c])
      moreover have "walked ((c, ob) # os) base (Suc k)" using ih(2) by (cases base) (simp_all add: walked_def)
      ultimately show ?thesis using ih by (intro exI [of _ base] exI [of _ "Suc k"]) simp
    qed
  qed
qed

text \<open>Playing the walked objects on the base is playing the whole chain.\<close>

lemma snapshot_play_ok:
  assumes it: "iterOK (e_iter E)" and w: "walked os base k"
  shows "\<exists>e s t. snapshot_play E base (map snd (take k os)) = (e, SnapV s) \<and>
    playActions (acts_of os) (SnapV NewSnapshot) = (e, SnapV t) \<and> eqv s t"
proof (cases base)
  case None
  then have "take k os = os" using w by (simp add: walked_def)
  then show ?thesis using None playActions_eqv [of NewSnapshot NewSnapshot "acts_of os"]
    by (auto simp: snapshot_play_def acts_of_snd eqv_def)
next
  case (Some b)
  obtain t0 where t0: "playActions (acts_of (drop k os)) (SnapV NewSnapshot) = (None, SnapV t0)" "eqv b t0"
    using w Some by (auto simp: walked_def plays_def eqv_def)
  then have b: "eqv (Snapshot_Copy (e_iter E) b) t0" using Snapshot_Copy_eqv [OF it, of b] by (auto simp: eqv_def)
  show ?thesis
    using playActions_eqv [OF b, of "acts_of (take k os)"] t0(1) Some
    by (auto simp: snapshot_play_def acts_of_snd acts_of_split [of os k] playActions_append)
qed

lemma putCommitSnapshot_OK:
  assumes "iterOK (e_iter E)" "cstoreOK st" "snapAt (cs_files st) k s"
  shows "cstoreOK (putCommitSnapshot E k s st)"
proof -
  have "plays (Snapshot_serialize (e_iter E) s) NewSnapshot (objs s) (vecs s)"
    using Snapshot_serialize_plays [OF assms(1)] assms(3) by (simp add: snapAt_def)
  then obtain t where "decodeSnapshot (Snapshot_serialize (e_iter E) s) = Ok t" "eqv s t"
    using assms(3) by (auto simp: plays_def decodeSnapshot_def eqv_def snapAt_def)
  moreover from this(2) have "snapAt (cs_files st) k t" by (rule snapAt_eqv [OF assms(3)])
  ultimately show ?thesis using assms(2)
    by (auto simp: cstoreOK_def putCommitSnapshot_def getCommitSnapshot_def)
qed

lemma Store_Snapshot_ok:
  assumes E: "iterOK (e_iter E)" and st: "cstoreOK st" and ch: "chain (cs_files st) leaf os"
    and p: "playActions (acts_of os) (SnapV NewSnapshot) = (e, SnapV t)"
  shows "\<exists>r st'. Store_Snapshot E leaf st = Some (r, st') \<and> cstoreOK st' \<and> cs_files st' = cs_files st \<and>
    (case e of None \<Rightarrow> (\<exists>s. r = Ok s \<and> eqv s t) | Some err \<Rightarrow> r = Err err)"
proof -
  have found: "e = None \<and> eqv s t" if "snapAt (cs_files st) leaf s" for s
    using that ch p chain_unique by (fastforce simp: snapAt_def plays_def eqv_def)
  show ?thesis
  proof (cases "cs_snapshots st leaf")
    case (Some s)
    with found [OF cstoreOKD(3) [OF st Some]] st show ?thesis by (simp add: Store_Snapshot_def)
  next
    case None
    show ?thesis
    proof (cases "\<exists>s. getCommitSnapshot leaf st = Ok s")
      case True
      then obtain s where s: "getCommitSnapshot leaf st = Ok s" by blast
      with None found [OF cstoreOKD(4) [OF st s]] add_OK(3) [OF st cstoreOKD(4) [OF st s], of E] show ?thesis
        by (simp add: Store_Snapshot_def)
    next
      case False
      obtain base k st1 where w: "snapshot_walk E leaf [] st = Some (Ok (base, map snd (take k os)), st1)" "walked os base k"
          "cstoreOK st1" "cs_files st1 = cs_files st"
        using snapshot_walk_ok [OF ch st refl, of E "[]"] by auto
      obtain s where s: "snapshot_play E base (map snd (take k os)) = (e, SnapV s)" "eqv s t"
        using snapshot_play_ok [OF E w(2)] p by auto
      have go: "Store_Snapshot E leaf st = (case e of Some err \<Rightarrow> Some (Err err, st1)
          | None \<Rightarrow> Some (Ok s, snapshotsAdd E leaf s (putCommitSnapshot E leaf s st1)))"
        using None False w(1) s(1) by (cases "getCommitSnapshot leaf st"; cases e) (auto simp: Store_Snapshot_def)
      show ?thesis
      proof (cases e)
        case (Some err)
        with go w(3,4) show ?thesis by simp
      next
        case e: None
        have "snapAt (cs_files st1) leaf s" using p e s(2) ch w(4) by (auto simp: snapAt_def plays_def eqv_def)
        then have "cstoreOK (snapshotsAdd E leaf s (putCommitSnapshot E leaf s st1))"
          using putCommitSnapshot_OK [OF E w(3)] add_OK(3) by auto
        with go e w(4) s(2) show ?thesis by simp
      qed
    qed
  qed
qed

end
