(* ===== verification/CommitStoreProps.thy ===== *)
theory CommitStoreProps
  imports CommitStoreLaws CommitProps
begin

text \<open>
  What the operations of the commit store return, in terms of the chain of a commit: paths, snapshots, logs,
  patches and vacuumable objects.
\<close>

section \<open>Paths\<close>

lemma take_to_notin: "to \<notin> set xs \<Longrightarrow> take_to to xs = xs"
  by (induction xs) auto

lemma take_to_append: "to \<notin> set xs \<Longrightarrow> take_to to (xs @ to # ys) = xs @ [to]"
  by (induction xs) auto

lemma chain_nonzero: "chain f c os \<Longrightarrow> 0 \<notin> fst ` set os"
  by (induction rule: chain.induct) auto

lemma cached_path: "cstoreOK st \<Longrightarrow> cs_paths st c = Some p \<Longrightarrow> chain (cs_files st) c os \<Longrightarrow> p = map fst os"
  using cstoreOKD(2) [of st c p] chain_unique by blast

lemma path_walk_ok:
  "chain f at os \<Longrightarrow> cstoreOK st \<Longrightarrow> cs_files st = f \<Longrightarrow>
   \<exists>st'. path_walk E at to path st = Some (Ok (path @ take_to to (map fst os)), st') \<and> cstoreOK st' \<and> cs_files st' = f"
proof (induction arbitrary: path st rule: chain.induct)
  case Root
  then show ?case by (simp add: path_walk.simps)
next
  case (Step c acts ob os)
  have ch: "chain f c ((c, ob) # os)" using Step.hyps by (rule chain.Step)
  show ?case
  proof (cases "cs_paths st c")
    case (Some p)
    then have "p = map fst ((c, ob) # os)" using cached_path [OF Step.prems(1) Some] Step.prems(2) ch by simp
    with Some Step show ?thesis by (simp add: path_walk.simps [of E c])
  next
    case None
    obtain st1 where g: "Get E c st = (Ok ob, st1)" "cstoreOK st1" "cs_files st1 = f"
      using Get_ok [OF Step.prems(1)] Step.prems(2) Step.hyps(2,3) by blast
    with None Step.hyps(1) Step.IH [OF g(2,3), of "path @ [c]"] show ?thesis
      by (auto simp: path_walk.simps [of E c])
  qed
qed

lemma PathRange_ok:
  "cstoreOK st \<Longrightarrow> chain (cs_files st) c os \<Longrightarrow>
   \<exists>st'. PathRange E c to st = Some (Ok (take_to to (map fst os)), st') \<and> cstoreOK st' \<and> cs_files st' = cs_files st"
  using path_walk_ok [of "cs_files st" c os st E to "[]"] by (simp add: PathRange_def)

lemma Path_ok:
  assumes "cstoreOK st" "chain (cs_files st) c os" "c \<noteq> 0"
  shows "\<exists>st'. Path E c st = Some (Ok (map fst os), st') \<and> cstoreOK st' \<and> cs_files st' = cs_files st"
proof (cases "cs_paths st c")
  case (Some p)
  with cached_path [OF assms(1) Some assms(2)] assms show ?thesis by (simp add: Path_def)
next
  case None
  obtain st1 where r: "PathRange E c 0 st = Some (Ok (take_to 0 (map fst os)), st1)" "cstoreOK st1" "cs_files st1 = cs_files st"
    using PathRange_ok [OF assms(1,2), of E 0] by blast
  have "take_to 0 (map fst os) = map fst os" using chain_nonzero [OF assms(2)] by (intro take_to_notin) auto
  with None r assms add_OK(2) [OF r(2) assms(3), of os E] show ?thesis by (simp add: Path_def)
qed

section \<open>Patches\<close>

lemma eqv_NewSnapshot: "eqv NewSnapshot NewSnapshot"
  by (simp only: eqv_def snapOK_NewSnapshot)

lemma patch_play_ok:
  "cstoreOK st \<Longrightarrow> \<forall>(i, ob) \<in> set xs. \<exists>acts. cs_files st i = Some acts \<and> DecodeObject acts = Ok ob \<Longrightarrow>
   \<exists>st'. patch_play E (map fst xs) w st =
     ((case playActions (concat (map (\<lambda>x. co_Actions (snd x)) xs)) w of (Some err, _) \<Rightarrow> Err err | (None, w) \<Rightarrow> Ok w), st') \<and>
     cstoreOK st' \<and> cs_files st' = cs_files st"
proof (induction xs arbitrary: w st)
  case (Cons x xs)
  obtain i ob where x: "x = (i, ob)" by (cases x)
  then obtain st1 where g: "Get E i st = (Ok ob, st1)" "cstoreOK st1" "cs_files st1 = cs_files st"
    using Get_ok [OF Cons.prems(1)] Cons.prems(2) by fastforce
  obtain e w1 where p: "playActions (co_Actions ob) w = (e, w1)" by (cases "playActions (co_Actions ob) w")
  show ?case
  proof (cases e)
    case (Some err)
    then show ?thesis using x g p by (simp add: playActions_append)
  next
    case None
    then show ?thesis using Cons.IH [OF g(2), of w1] Cons.prems(2) x g p by (simp add: playActions_append)
  qed
qed simp

lemma chain_files: "chain f c os \<Longrightarrow> \<forall>(i, ob) \<in> set os. \<exists>acts. f i = Some acts \<and> DecodeObject acts = Ok ob"
  by (induction rule: chain.induct) auto

text \<open>The patch of a path is the play of the commits after the base, on the base.\<close>

lemma PatchOfPath_ok:
  assumes "cstoreOK st" "chain (cs_files st) c (xs @ (baseID, b) # ys)" "baseID \<notin> fst ` set xs"
  shows "\<exists>st'. PatchOfPath E base baseID c st =
      Some ((case playActions (acts_of xs) (NewPatch (SnapV base)) of (Some err, _) \<Rightarrow> Err err | (None, w) \<Rightarrow> Ok w), st') \<and>
    cstoreOK st' \<and> cs_files st' = cs_files st"
proof -
  obtain st1 where r: "PathRange E c baseID st = Some (Ok (map fst xs @ [baseID]), st1)" "cstoreOK st1" "cs_files st1 = cs_files st"
    using PathRange_ok [OF assms(1,2), of E baseID] take_to_append [of baseID "map fst xs" "map fst ys"] assms(3) by auto
  have "\<forall>(i, ob) \<in> set (rev xs). \<exists>acts. cs_files st1 i = Some acts \<and> DecodeObject acts = Ok ob"
    using chain_files [OF assms(2)] r(3) by auto
  from patch_play_ok [OF r(2) this, of E "NewPatch (SnapV base)"] r show ?thesis
    by (cases xs) (auto simp: PatchOfPath_def acts_of_def rev_map)
qed

lemma PatchOfCommit_ok:
  assumes E: "iterOK (e_iter E)" and st: "cstoreOK st" and ch: "chain (cs_files st) c ((c, ob) # os)"
    and p: "playActions (acts_of os) (SnapV NewSnapshot) = (None, SnapV t)"
  shows "\<exists>s st'. PatchOfCommit E c st =
      Some ((case playActions (co_Actions ob) (NewPatch (SnapV s)) of (Some err, _) \<Rightarrow> Err err | (None, w) \<Rightarrow> Ok w), st') \<and>
    eqv s t \<and> cstoreOK st' \<and> cs_files st' = cs_files st"
proof -
  obtain acts where f: "c \<noteq> 0" "cs_files st c = Some acts" "DecodeObject acts = Ok ob" "chain (cs_files st) (co_Parent ob) os"
    using ch by (auto elim: chain_Cons)
  obtain st1 where pa: "Path E c st = Some (Ok (c # map fst os), st1)" "cstoreOK st1" "cs_files st1 = cs_files st"
    using Path_ok [OF st ch f(1), of E] by auto
  have "\<exists>s st2. (if length (c # map fst os) = 1 then Some (Ok NewSnapshot, st1) else Store_Snapshot E ((c # map fst os) ! 1) st1) =
      Some (Ok s, st2) \<and> eqv s t \<and> cstoreOK st2 \<and> cs_files st2 = cs_files st"
  proof (cases os)
    case Nil
    then show ?thesis using p pa(2,3) by (auto simp: acts_of_def intro: eqv_NewSnapshot)
  next
    case (Cons x xs)
    have "co_Parent ob = fst x" using f(4) Cons by (auto elim: chain_Cons)
    then have "chain (cs_files st1) (fst x) os" using f(4) pa(3) by simp
    from Store_Snapshot_ok [OF E pa(2) this p] pa(3) Cons show ?thesis by auto
  qed
  then obtain s st2 where s: "(if length (c # map fst os) = 1 then Some (Ok NewSnapshot, st1) else Store_Snapshot E ((c # map fst os) ! 1) st1) =
      Some (Ok s, st2)" "eqv s t" "cstoreOK st2" "cs_files st2 = cs_files st" by blast
  obtain st3 where g: "Get E c st2 = (Ok ob, st3)" "cstoreOK st3" "cs_files st3 = cs_files st"
    using Get_ok [OF s(3)] s(4) f(2,3) by metis
  have "PatchOfCommit E c st =
      Some ((case playActions (co_Actions ob) (NewPatch (SnapV s)) of (Some err, _) \<Rightarrow> Err err | (None, w) \<Rightarrow> Ok w), st3)"
    using pa(1) s(1) g(1) by (auto simp: PatchOfCommit_def split: prod.splits option.splits)
  with s(2) g(2,3) show ?thesis by blast
qed

section \<open>Logs\<close>

lemma GetBytes_ok:
  "f c = Some acts \<Longrightarrow> cs_files st = f \<Longrightarrow> DecodeObject acts = Ok ob \<Longrightarrow> acts \<noteq> [] \<Longrightarrow>
   \<exists>r. GetBytes c st = Ok (co_Actions ob, r) \<and> c_Parent r = co_Parent ob"
  by (cases acts rule: list.exhaust; cases "hd acts") (auto simp: GetBytes_def DecodeObject_def)

lemma readAll_loop_ok:
  "chain f c os \<Longrightarrow> cs_files st = f \<Longrightarrow> \<forall>x \<in> set os. co_Actions (snd x) \<noteq> [] \<Longrightarrow>
   readAll_loop c 0 bs st = Some (Ok (bs @ map (\<lambda>x. co_Actions (snd x)) os))"
proof (induction arbitrary: bs rule: chain.induct)
  case Root
  then show ?case by (simp add: readAll_loop.simps)
next
  case (Step c acts ob os)
  have "acts \<noteq> []" using Step.prems(2) Step.hyps(3) by (auto simp: DecodeObject_def split: list.splits action.splits)
  then obtain r where "GetBytes c st = Ok (co_Actions ob, r)" "c_Parent r = co_Parent ob"
    using GetBytes_ok [of f c acts st ob] Step by auto
  with Step show ?case by (simp add: readAll_loop.simps [of c])
qed

section \<open>Vacuuming\<close>

lemma vacuum_actions_set:
  "set (vacuum_actions snap as) = {d. (\<exists>c. AddA c d \<in> set as) \<and> objs snap (obj_ID d) = None}"
  by (induction snap as rule: vacuum_actions.induct) auto

lemma vacuum_loop_ok:
  "chain f at os \<Longrightarrow> cstoreOK st \<Longrightarrow> cs_files st = f \<Longrightarrow>
   \<exists>st'. vacuum_loop E leaf snap at out st =
     Some (out @ concat (map (\<lambda>x. vacuum_actions snap (co_Actions (snd x))) (filter (\<lambda>x. co_Commit (snd x) \<noteq> leaf) os)), st') \<and>
     cstoreOK st' \<and> cs_files st' = f"
proof (induction arbitrary: out st rule: chain.induct)
  case Root
  then show ?case by (simp add: vacuum_loop.simps)
next
  case (Step c acts ob os)
  obtain st1 where g: "Get E c st = (Ok ob, st1)" "cstoreOK st1" "cs_files st1 = f"
    using Get_ok [OF Step.prems(1)] Step.prems(2) Step.hyps(2,3) by blast
  from Step.IH [OF g(2,3), of out] Step.IH [OF g(2,3), of "out @ vacuum_actions snap (co_Actions ob)"] g(1) Step.hyps(1)
  show ?case by (cases "co_Commit ob = leaf") (simp_all add: vacuum_loop.simps [of E leaf snap c])
qed

section \<open>New commits\<close>

lemma chain_mono: "chain f c os \<Longrightarrow> f \<subseteq>\<^sub>m f' \<Longrightarrow> chain f' c os"
  by (induction rule: chain.induct) (auto intro!: chain.intros simp: map_le_def dom_def)

lemma snapAt_mono: "snapAt f c s \<Longrightarrow> f \<subseteq>\<^sub>m f' \<Longrightarrow> snapAt f' c s"
  by (meson chain_mono snapAt_def)

lemma files_mono_OK:
  assumes "cstoreOK st" "cs_files st \<subseteq>\<^sub>m f"
  shows "cstoreOK (st\<lparr>cs_files := f\<rparr>)"
proof -
  have 1: "f c = Some acts" if "cs_files st c = Some acts" for c acts using assms(2) that by (force simp: map_le_def)
  have 2: "getCommitSnapshot c (st\<lparr>cs_files := f\<rparr>) = getCommitSnapshot c st" for c by (simp add: getCommitSnapshot_def)
  have 3: "\<exists>acts. f c = Some acts \<and> DecodeObject acts = Ok ob" if "cs_cache st c = Some ob" for c ob
    using cstoreOKD(1) [OF assms(1) that] 1 by blast
  have 4: "c \<noteq> 0 \<and> (\<exists>os. chain f c os \<and> p = map fst os)" if "cs_paths st c = Some p" for c p
    using cstoreOKD(2) [OF assms(1) that] chain_mono [OF _ assms(2)] by blast
  show ?thesis
    unfolding cstoreOK_def 2
    using 3 4 snapAt_mono [OF cstoreOKD(3) [OF assms(1)] assms(2)] snapAt_mono [OF cstoreOKD(4) [OF assms(1)] assms(2)] by simp
qed

text \<open>A commit object as the constructors make it: its first action is its commit record.\<close>

definition wellMade :: "cobject \<Rightarrow> bool" where
  "wellMade ob \<longleftrightarrow> (\<exists>r as. co_Actions ob = CommitA r # as \<and> c_ID r = co_Commit ob \<and> c_Parent r = co_Parent ob)"

lemma DecodeObject_wellMade: "wellMade ob \<Longrightarrow> DecodeObject (co_Actions ob) = Ok ob"
  by (auto simp: wellMade_def DecodeObject_def)

lemma Put_ok:
  assumes "cstoreOK st" "cs_files st (co_Commit ob) = None" "co_Commit ob \<noteq> 0" "wellMade ob" "chain (cs_files st) (co_Parent ob) os"
  shows "\<exists>st1. Put ob st = (Ok (), st1) \<and> cstoreOK st1 \<and> cs_files st1 = (cs_files st)(co_Commit ob \<mapsto> co_Actions ob) \<and>
    chain (cs_files st1) (co_Commit ob) ((co_Commit ob, ob) # os)"
proof -
  let ?f = "(cs_files st)(co_Commit ob \<mapsto> co_Actions ob)"
  have le: "cs_files st \<subseteq>\<^sub>m ?f" using assms(2) by (auto simp: map_le_def)
  have "chain ?f (co_Commit ob) ((co_Commit ob, ob) # os)"
    by (rule chain.Step [where acts = "co_Actions ob"]) (use assms DecodeObject_wellMade chain_mono [OF assms(5) le] in auto)
  moreover have "Put ob st = (Ok (), st\<lparr>cs_files := ?f\<rparr>)" using assms(4) by (auto simp: Put_def Object_Serialize_def wellMade_def)
  ultimately show ?thesis using files_mono_OK [OF assms(1) le] by auto
qed

section \<open>Properties\<close>

text \<open>C7: the snapshot of a commit is the play of all commits from the root to it, whatever has been cached or
  evicted and whichever ancestors have a stored snapshot: it has the objects and vectors of the play, or
  fails with its error; and the store stays consistent.\<close>

theorem Snapshot_is_replay:
  assumes "iterOK (e_iter E)" "cstoreOK st" "chain (cs_files st) leaf os"
    and "playActions (acts_of os) (SnapV NewSnapshot) = (e, SnapV t)"
  shows "\<exists>r st'. Store_Snapshot E leaf st = Some (r, st') \<and> cstoreOK st' \<and> cs_files st' = cs_files st \<and>
    (case e of None \<Rightarrow> (\<exists>s. r = Ok s \<and> objs s = objs t \<and> vecs s = vecs t) | Some err \<Rightarrow> r = Err err)"
  using Store_Snapshot_ok [OF assms] by (cases e) (auto simp: eqv_def)

definition adder :: cobject where
  "adder = NewAddsObject 1 0 0 0 [] [] znull [dob 11]"

definition replacer :: cobject where
  "replacer = appendAdd (dob 12) (NewDeletesObject 2 0 1 0 [] [] [11])"

definition twoFiles :: cstore where
  "twoFiles = \<lparr>cs_files = [1 \<mapsto> co_Actions adder, 2 \<mapsto> co_Actions replacer], cs_snaps = Map.empty,
     cs_cache = Map.empty, cs_paths = Map.empty, cs_snapshots = Map.empty, cs_tick = 0\<rparr>"

definition keepAll :: env where
  "keepAll = \<lparr>e_iter = idIter, e_evict = (\<lambda>_. {})\<rparr>"

lemmas made = adder_def replacer_def NewAddsObject_def NewDeletesObject_def NewObject_def appendAdd_def appendDelete_def appendAction_def

lemma wellMade_two: "wellMade adder" "wellMade replacer"
  by (simp_all add: wellMade_def made)

lemma made_ids: "co_Commit adder = 1" "co_Parent adder = 0" "co_Commit replacer = 2" "co_Parent replacer = 1"
  by (simp_all add: made)

lemma twoFiles_OK: "iterOK (e_iter keepAll)" "cstoreOK twoFiles"
  by (simp_all add: keepAll_def twoFiles_def cstoreOK_def getCommitSnapshot_def)

lemma chain_one: "chain (cs_files twoFiles) 1 [(1, adder)]"
  by (rule chain.Step [where acts = "co_Actions adder"])
    (auto simp: twoFiles_def made_ids DecodeObject_wellMade wellMade_two)

lemma chain_two: "chain (cs_files twoFiles) 2 [(2, replacer), (1, adder)]"
  by (rule chain.Step [where acts = "co_Actions replacer"])
    (use chain_one in \<open>auto simp: twoFiles_def made_ids DecodeObject_wellMade wellMade_two\<close>)

definition afterTwo :: snapshot where
  "afterTwo = \<lparr>sn_objects = [(12, dob 12)], sn_vectors = []\<rparr>"

lemma replay_two: "playActions (acts_of [(2, replacer), (1, adder)]) (SnapV NewSnapshot) = (None, SnapV afterTwo)"
  by (simp add: acts_of_def made play_eval afterTwo_def)

theorem Snapshot_is_replay_witness:
  "iterOK (e_iter keepAll) \<and> cstoreOK twoFiles \<and>
   (\<exists>s st'. Store_Snapshot keepAll 2 twoFiles = Some (Ok s, st') \<and> cstoreOK st' \<and> objs s = [12 \<mapsto> dob 12] \<and> vecs s = {})"
  using Snapshot_is_replay [OF twoFiles_OK chain_two replay_two] twoFiles_OK by (auto simp: afterTwo_def)

text \<open>Writing a new commit object and taking its snapshot plays the object on the snapshot of its parent.\<close>

theorem Put_then_Snapshot:
  assumes E: "iterOK (e_iter E)" and st: "cstoreOK st" "cs_files st (co_Commit ob) = None" "co_Commit ob \<noteq> 0" "wellMade ob"
    and ch: "chain (cs_files st) (co_Parent ob) os" and t: "playActions (acts_of os) (SnapV NewSnapshot) = (None, SnapV t)"
    and p: "Play ob (SnapV t) = (e, SnapV u)"
  shows "\<exists>st1 r st'. Put ob st = (Ok (), st1) \<and> Store_Snapshot E (co_Commit ob) st1 = Some (r, st') \<and> cstoreOK st' \<and>
    (case e of None \<Rightarrow> (\<exists>s. r = Ok s \<and> objs s = objs u \<and> vecs s = vecs u) | Some err \<Rightarrow> r = Err err)"
proof -
  obtain st1 where st1: "Put ob st = (Ok (), st1)" "cstoreOK st1" "chain (cs_files st1) (co_Commit ob) ((co_Commit ob, ob) # os)"
    using Put_ok [OF st ch] by blast
  have "playActions (acts_of ((co_Commit ob, ob) # os)) (SnapV NewSnapshot) = (e, SnapV u)"
    using t p by (simp add: acts_of_def playActions_append Play_def)
  from Store_Snapshot_ok [OF E st1(2,3) this] st1(1) show ?thesis by (cases e) (auto simp: eqv_def)
qed

definition oneFile :: cstore where
  "oneFile = twoFiles\<lparr>cs_files := [1 \<mapsto> co_Actions adder]\<rparr>"

theorem Put_then_Snapshot_witness:
  "cstoreOK oneFile \<and> wellMade replacer \<and>
   (\<exists>st1 s st'. Put replacer oneFile = (Ok (), st1) \<and> Store_Snapshot keepAll 2 st1 = Some (Ok s, st') \<and> cstoreOK st' \<and>
     objs s = [12 \<mapsto> dob 12] \<and> vecs s = {})"
proof -
  have ok: "cstoreOK oneFile" by (simp add: oneFile_def twoFiles_def cstoreOK_def getCommitSnapshot_def)
  have new: "cs_files oneFile (co_Commit replacer) = None" "co_Commit replacer \<noteq> 0" by (simp_all add: oneFile_def made_ids)
  have ch: "chain (cs_files oneFile) (co_Parent replacer) [(1, adder)]"
    unfolding made_ids
    by (rule chain.Step [where acts = "co_Actions adder"]) (auto simp: oneFile_def made_ids DecodeObject_wellMade wellMade_two)
  have t: "playActions (acts_of [(1, adder)]) (SnapV NewSnapshot) = (None, SnapV \<lparr>sn_objects = [(11, dob 11)], sn_vectors = []\<rparr>)"
    by (simp add: acts_of_def made play_eval)
  have u: "Play replacer (SnapV \<lparr>sn_objects = [(11, dob 11)], sn_vectors = []\<rparr>) = (None, SnapV afterTwo)"
    by (simp add: Play_def made play_eval afterTwo_def)
  from Put_then_Snapshot [OF twoFiles_OK(1) ok new wellMade_two(2) ch t u] ok wellMade_two show ?thesis
    by (auto simp: afterTwo_def made_ids)
qed

text \<open>C36: the objects that may be vacuumed at a commit are exactly those that an earlier commit of its chain
  added and that are not in its snapshot.  So no object of the snapshot is vacuumed, and none that could be is left out.\<close>

theorem Vacuumable_exact:
  assumes E: "iterOK (e_iter E)" and st: "cstoreOK st" and ch: "chain (cs_files st) leaf os"
    and p: "playActions (acts_of os) (SnapV NewSnapshot) = (None, SnapV t)"
  shows "\<exists>out st'. Vacuumable E leaf st = Some (Ok out, st') \<and>
    set out = {d. objs t (obj_ID d) = None \<and> (\<exists>x \<in> set os. co_Commit (snd x) \<noteq> leaf \<and> (\<exists>c. AddA c d \<in> set (co_Actions (snd x))))}"
proof -
  obtain s st1 where s: "Store_Snapshot E leaf st = Some (Ok s, st1)" "cstoreOK st1" "cs_files st1 = cs_files st" "eqv s t"
    using Store_Snapshot_ok [OF E st ch p] by auto
  obtain st' where "vacuum_loop E leaf s leaf [] st1 =
      Some (concat (map (\<lambda>x. vacuum_actions s (co_Actions (snd x))) (filter (\<lambda>x. co_Commit (snd x) \<noteq> leaf) os)), st')"
    using vacuum_loop_ok [OF ch s(2,3), of E leaf s "[]"] by auto
  with s show ?thesis by (auto simp: Vacuumable_def vacuum_actions_set eqv_def)
qed

theorem Vacuumable_exact_witness:
  "iterOK (e_iter keepAll) \<and> cstoreOK twoFiles \<and> (\<exists>out st'. Vacuumable keepAll 2 twoFiles = Some (Ok out, st') \<and> set out = {dob 11})"
proof -
  have "{d. objs afterTwo (obj_ID d) = None \<and> (\<exists>x \<in> set [(2, replacer), (1, adder)]. co_Commit (snd x) \<noteq> 2 \<and>
      (\<exists>c. AddA c d \<in> set (co_Actions (snd x))))} = {dob 11}"
    by (auto simp: made afterTwo_def dob_def)
  from Vacuumable_exact [OF twoFiles_OK chain_two replay_two, unfolded this] twoFiles_OK show ?thesis by blast
qed

end
