(* ===== verification/Branch.thy ===== *)
theory Branch
  imports Journal CommitStore
begin

text \<open>
  Branches of a pool (\<open>lake/branch.go\<close>, \<open>lake/branches\<close>, and the branch operations of \<open>lake/pool.go\<close>).
  A branch is an entry of a journal store with the ID of its last commit.  Each operation makes a commit object
  for the tip it finds, writes it, and moves the tip on the condition that it has not moved since.

  Parameters stand for what is outside: new IDs and the time, the text of an ID, quoting, parsing of metadata, the
  queries and writers of data, and the engine's answers about data files.
\<close>

section \<open>Branch configurations\<close>

record config =
  bc_Ts :: int
  bc_Name :: string
  bc_Commit :: ksuid

record penv =
  p_perm :: "config table \<Rightarrow> config table"
  p_now :: int
  p_env :: env
  p_new :: "nat \<Rightarrow> ksuid"
  p_str :: "ksuid \<Rightarrow> string"
  p_quote :: "string \<Rightarrow> string"
  p_parse :: "string \<Rightarrow> zvalue go"

record pool =
  pl_files :: "config jstorage"
  pl_branches :: "config jstore"
  pl_commits :: cstore

definition NewConfig :: "int \<Rightarrow> string \<Rightarrow> ksuid \<Rightarrow> config" where
  "NewConfig now name cid = \<lparr>bc_Ts = now, bc_Name = name, bc_Commit = cid\<rparr>"

definition ErrBranchExists :: goerror where "ErrBranchExists = Errorf ''branch already exists''"
definition ErrBranchNotFound :: goerror where "ErrBranchNotFound = Errorf ''branch not found''"

definition Branches_All :: "penv \<Rightarrow> pool \<Rightarrow> config list go \<times> pool" where
  "Branches_All P pl =
     (case Store_All (p_perm P) (p_now P) (pl_files pl) (pl_branches pl) of
        (r, s, st) \<Rightarrow> (mapR (map snd) r, pl\<lparr>pl_files := s, pl_branches := st\<rparr>))"

text \<open>An error of reading the journal is dropped, and the branch is then not found.\<close>

definition LookupByName :: "penv \<Rightarrow> string \<Rightarrow> pool \<Rightarrow> config go \<times> pool" where
  "LookupByName P name pl =
     (case Branches_All P pl of
        (Panic, pl) \<Rightarrow> (Panic, pl)
      | (r, pl) \<Rightarrow>
          (case find (\<lambda>c. bc_Name c = name) (case r of Ok list \<Rightarrow> list | _ \<Rightarrow> []) of
             Some c \<Rightarrow> (Ok c, pl)
           | None \<Rightarrow> (Err ErrBranchNotFound, pl)))"

definition Branches_Add :: "penv \<Rightarrow> config \<Rightarrow> pool \<Rightarrow> unit go \<times> pool" where
  "Branches_Add P c pl =
     (case Store_Insert True (p_perm P) (p_now P) (bc_Name c) c (pl_files pl) (pl_branches pl) of
        (r, s, st) \<Rightarrow> (r, pl\<lparr>pl_files := s, pl_branches := st\<rparr>))"

definition Branches_Update :: "penv \<Rightarrow> config \<Rightarrow> (config \<Rightarrow> bool) option \<Rightarrow> pool \<Rightarrow> unit go \<times> pool" where
  "Branches_Update P c con pl =
     (case Store_Update True (p_perm P) (p_now P) (bc_Name c) c con (pl_files pl) (pl_branches pl) of
        (r, s, st) \<Rightarrow> (r, pl\<lparr>pl_files := s, pl_branches := st\<rparr>))"

definition Branches_Remove :: "penv \<Rightarrow> config \<Rightarrow> pool \<Rightarrow> unit go \<times> pool" where
  "Branches_Remove P c pl =
     (case Store_Delete True (p_perm P) (p_now P) (bc_Name c) (Some (\<lambda>p. bc_Commit p = bc_Commit c)) (pl_files pl) (pl_branches pl) of
        (r, s, st) \<Rightarrow>
          ((case r of
              Err err \<Rightarrow>
                Err (if err = ErrNoSuchKey then ErrBranchNotFound
                     else if err = ErrConstraint then Errorf ''branch operated on during removal.. aborted'' else err)
            | r \<Rightarrow> r),
           pl\<lparr>pl_files := s, pl_branches := st\<rparr>))"

definition CreateBranch :: "penv \<Rightarrow> string \<Rightarrow> ksuid \<Rightarrow> pool \<Rightarrow> config go \<times> pool" where
  "CreateBranch P name parent pl =
     (case OpenStore (pl_files pl) of
        Err err \<Rightarrow> (Err err, pl)
      | Panic \<Rightarrow> (Panic, pl)
      | Ok store \<Rightarrow>
          (case LookupByName P name (pl\<lparr>pl_branches := store\<rparr>) of
             (Ok _, pl) \<Rightarrow> (Err ErrBranchExists, pl)
           | (Panic, pl) \<Rightarrow> (Panic, pl)
           | (Err _, pl) \<Rightarrow>
               (case Branches_Add P (NewConfig (p_now P) name parent) pl of
                  (r, pl) \<Rightarrow> (bindR r (\<lambda>_. Ok (NewConfig (p_now P) name parent)), pl))))"

definition CreatePool :: "penv \<Rightarrow> pool \<Rightarrow> unit go \<times> pool" where
  "CreatePool P pl =
     (case CreateStore (pl_files pl) of
        (s, st) \<Rightarrow>
          (case CreateBranch P ''main'' 0 (pl\<lparr>pl_files := s, pl_branches := st\<rparr>) of
             (r, pl) \<Rightarrow> (mapR (\<lambda>_. ()) r, pl)))"

definition removeBranch :: "penv \<Rightarrow> string \<Rightarrow> pool \<Rightarrow> unit go \<times> pool" where
  "removeBranch P name pl =
     (case LookupByName P name pl of
        (Err err, pl) \<Rightarrow> (Err err, pl)
      | (Panic, pl) \<Rightarrow> (Panic, pl)
      | (Ok c, pl) \<Rightarrow> Branches_Remove P c pl)"

section \<open>Messages\<close>

definition nl :: char where "nl = CHR 0x0A"

definition pluralSlice :: "'a list \<Rightarrow> string \<Rightarrow> string" where
  "pluralSlice xs suffix = (if length xs = 1 then '''' else suffix)"

text \<open>A missing object prints as \<open><nil>\<close>.\<close>

definition Object_String :: "(ksuid \<Rightarrow> string) \<Rightarrow> dobject option \<Rightarrow> string" where
  "Object_String sh od =
     (case od of
        None \<Rightarrow> ''<nil>''
      | Some d \<Rightarrow>
          sh (obj_ID d) @ '' '' @ FormatUint (unat (obj_Count d)) @ '' record'' @ (if obj_Count d = 1 then '''' else ''s'') @
          '' in '' @ (if obj_Size d < 0 then ''-'' else '''') @ FormatUint (nat \<bar>obj_Size d\<bar>) @ '' data bytes'')"

definition maxMessageObjects :: int where "maxMessageObjects = 10"

fun loadMessage_loop :: "(ksuid \<Rightarrow> string) \<Rightarrow> int \<Rightarrow> dobject list \<Rightarrow> string" where
  "loadMessage_loop sh k [] = ''''"
| "loadMessage_loop sh k (d # ds) =
     ''  '' @ Object_String sh (Some d) @ [nl] @
     (if k \<ge> maxMessageObjects then ''  ...'' @ [nl] else loadMessage_loop sh (k + 1) ds)"

definition loadMessage :: "(ksuid \<Rightarrow> string) \<Rightarrow> dobject list \<Rightarrow> string" where
  "loadMessage sh ds =
     ''loaded '' @ FormatUint (length ds) @ '' data object'' @ pluralSlice ds ''s'' @ [nl, nl] @ loadMessage_loop sh 0 ds"

fun printObjects_loop :: "(ksuid \<Rightarrow> string) \<Rightarrow> int \<Rightarrow> int \<Rightarrow> dobject option list \<Rightarrow> string" where
  "printObjects_loop sh limit k [] = ''''"
| "printObjects_loop sh limit k (d # ds) =
     ''  '' @ Object_String sh d @ [nl] @ (if k \<ge> limit then ''  ...'' @ [nl] else '''') @ printObjects_loop sh limit (k + 1) ds"

definition printObjects :: "(ksuid \<Rightarrow> string) \<Rightarrow> dobject option list \<Rightarrow> int \<Rightarrow> string" where
  "printObjects sh ds limit = printObjects_loop sh limit 0 ds"

definition deleteWhereMessage :: "(ksuid \<Rightarrow> string) \<Rightarrow> dobject option list \<Rightarrow> dobject option list \<Rightarrow> string" where
  "deleteWhereMessage sh deleted added =
     ''deleted '' @ FormatUint (length deleted) @ '' data object'' @ pluralSlice deleted ''s'' @ [nl, nl] @
     printObjects sh deleted maxMessageObjects @
     (if length added > 0 then
        [nl] @ ''added '' @ FormatUint (length added) @ '' data object'' @ pluralSlice added ''s'' @ [nl, nl] @
        printObjects sh added (maxMessageObjects - int (length deleted))
      else '''')"

definition vectorMessage :: "(ksuid \<Rightarrow> string) \<Rightarrow> string \<Rightarrow> ksuid list \<Rightarrow> string" where
  "vectorMessage sh kind ids =
     ''vector '' @ kind @ [nl, nl] @ concat (map (\<lambda>i. ''    '' @ sh i @ [nl]) ids)"

definition loadMeta :: "penv \<Rightarrow> string \<Rightarrow> zvalue go" where
  "loadMeta P meta =
     (if meta = '''' then Ok znull
      else case p_parse P meta of Ok v \<Rightarrow> Ok v | Err _ \<Rightarrow> Err (Errorf ''cannot parse ZSON string'') | Panic \<Rightarrow> Panic)"

section \<open>Committing to a branch\<close>

text \<open>
  A constructor makes the commit object for the branch as it is found.  It shares the variable \<open>message\<close> of its
  operation, which it may set, so that a retry finds it as the attempt before left it.
\<close>

type_synonym constructor = "config \<Rightarrow> nat \<Rightarrow> string \<Rightarrow> cstore \<Rightarrow> (cobject go \<times> string \<times> cstore) option"

definition maxCommitRetries :: nat where "maxCommitRetries = 10"

definition ErrCommitFailed :: goerror where "ErrCommitFailed = Errorf ''exceeded limit update attempts to branch tip: commit failed''"

fun commit_attempts :: "penv \<Rightarrow> string \<Rightarrow> constructor \<Rightarrow> nat \<Rightarrow> nat \<Rightarrow> string \<Rightarrow> pool \<Rightarrow> (ksuid go \<times> pool) option" where
  "commit_attempts P name create retries 0 message pl = Some (Err ErrCommitFailed, pl)"
| "commit_attempts P name create retries (Suc n) message pl =
     (case LookupByName P name pl of
        (Err err, pl) \<Rightarrow> Some (Err err, pl)
      | (Panic, pl) \<Rightarrow> Some (Panic, pl)
      | (Ok config, pl) \<Rightarrow>
          (case create config retries message (pl_commits pl) of
             None \<Rightarrow> None
           | Some (Err err, message, cs) \<Rightarrow> Some (Err err, pl\<lparr>pl_commits := cs\<rparr>)
           | Some (Panic, message, cs) \<Rightarrow> Some (Panic, pl\<lparr>pl_commits := cs\<rparr>)
           | Some (Ok ob, message, cs) \<Rightarrow>
               (case Put ob cs of
                  (Err err, cs) \<Rightarrow> Some (Err (Errorf ''branch failed to write commit object''), pl\<lparr>pl_commits := cs\<rparr>)
                | (Panic, cs) \<Rightarrow> Some (Panic, pl\<lparr>pl_commits := cs\<rparr>)
                | (Ok _, cs) \<Rightarrow>
                    (let parent = bc_Commit config;
                         config = config\<lparr>bc_Commit := co_Commit ob\<rparr>
                     in case Branches_Update P config (Some (\<lambda>e. bc_Commit e = parent)) (pl\<lparr>pl_commits := cs\<rparr>) of
                          (Ok _, pl) \<Rightarrow> Some (Ok (co_Commit ob), pl)
                        | (Panic, pl) \<Rightarrow> Some (Panic, pl)
                        | (Err err, pl) \<Rightarrow>
                            (case Remove ob (pl_commits pl) of
                               (rm, cs) \<Rightarrow>
                                 (let pl = pl\<lparr>pl_commits := cs\<rparr> in
                                  if err = ErrConstraint then
                                    case rm of
                                      Ok _ \<Rightarrow> commit_attempts P name create (retries + 1) n message pl
                                    | Err rmerr \<Rightarrow> Some (Err rmerr, pl)
                                    | Panic \<Rightarrow> Some (Panic, pl)
                                  else Some (Err err, pl)))))))"

definition Branch_commit :: "penv \<Rightarrow> string \<Rightarrow> constructor \<Rightarrow> string \<Rightarrow> pool \<Rightarrow> (ksuid go \<times> pool) option" where
  "Branch_commit P name create message pl = commit_attempts P name create 0 maxCommitRetries message pl"

section \<open>The operations\<close>

text \<open>\<open>written\<close> is what the writer of data returns: its objects, or the error of reading or writing.\<close>

definition load_create :: "penv \<Rightarrow> string \<Rightarrow> zvalue \<Rightarrow> dobject list \<Rightarrow> constructor" where
  "load_create P author meta objects parent retries message cs =
     Some (Ok (NewAddsObject (p_new P retries) (p_now P) (bc_Commit parent) retries author message meta objects), message, cs)"

definition Branch_Load :: "penv \<Rightarrow> string \<Rightarrow> dobject list go \<Rightarrow> string \<Rightarrow> string \<Rightarrow> string \<Rightarrow> pool \<Rightarrow> (ksuid go \<times> pool) option" where
  "Branch_Load P name written author message meta pl =
     (case written of
        Err err \<Rightarrow> Some (Err err, pl)
      | Panic \<Rightarrow> Some (Panic, pl)
      | Ok objects \<Rightarrow>
          if objects = [] then Some (Err ErrEmptyTransaction, pl)
          else (let message = (if message = '''' then loadMessage (p_str P) objects else message) in
                case loadMeta P meta of
                  Err err \<Rightarrow> Some (Err err, pl)
                | Panic \<Rightarrow> Some (Panic, pl)
                | Ok appMeta \<Rightarrow> Branch_commit P name (load_create P author appMeta objects) message pl))"

fun lookup_all :: "snapshot \<Rightarrow> ksuid list \<Rightarrow> dobject list go" where
  "lookup_all snap [] = Ok []"
| "lookup_all snap (i # is) = bindR (Snapshot_Lookup snap i) (\<lambda>d. mapR ((#) d) (lookup_all snap is))"

text \<open>Taking the snapshot at the tip, as most constructors begin.\<close>

definition with_tip :: "penv \<Rightarrow> ksuid \<Rightarrow> string \<Rightarrow> cstore \<Rightarrow>
    (snapshot \<Rightarrow> cstore \<Rightarrow> (cobject go \<times> string \<times> cstore) option) \<Rightarrow> (cobject go \<times> string \<times> cstore) option" where
  "with_tip P cid message cs k =
     (case Store_Snapshot (p_env P) cid cs of
        None \<Rightarrow> None
      | Some (Err err, cs) \<Rightarrow> Some (Err err, message, cs)
      | Some (Panic, cs) \<Rightarrow> Some (Panic, message, cs)
      | Some (Ok snap, cs) \<Rightarrow> k snap cs)"

definition delete_create :: "penv \<Rightarrow> ksuid list \<Rightarrow> string \<Rightarrow> constructor" where
  "delete_create P ids author parent retries message cs =
     with_tip P (bc_Commit parent) message cs (\<lambda>snap cs.
       case lookup_all snap ids of
         Err err \<Rightarrow> Some (Err err, message, cs)
       | Panic \<Rightarrow> Some (Panic, message, cs)
       | Ok objects \<Rightarrow>
           (let message = (if message = '''' then
                 ''deleted '' @ FormatUint (length objects) @ '' data object'' @ pluralSlice objects ''s'' @ [nl, nl] @
                 printObjects (p_str P) (map Some objects) maxMessageObjects
               else message)
            in Some (Ok (NewDeletesObject (p_new P retries) (p_now P) (bc_Commit parent) retries author message ids), message, cs)))"

definition Branch_Delete :: "penv \<Rightarrow> string \<Rightarrow> ksuid list \<Rightarrow> string \<Rightarrow> string \<Rightarrow> pool \<Rightarrow> (ksuid go \<times> pool) option" where
  "Branch_Delete P name ids author message pl = Branch_commit P name (delete_create P ids author) message pl"

text \<open>\<open>query c\<close> is the run of the delete query at commit \<open>c\<close>: the objects it deletes and those it writes.\<close>

definition deleteWhere_create :: "penv \<Rightarrow> (ksuid \<Rightarrow> (ksuid list \<times> dobject list) go) \<Rightarrow> string \<Rightarrow> zvalue \<Rightarrow> constructor" where
  "deleteWhere_create P query author appMeta parent retries message cs =
     (case query (bc_Commit parent) of
        Err err \<Rightarrow> Some (Err err, message, cs)
      | Panic \<Rightarrow> Some (Panic, message, cs)
      | Ok (deleted, objects) \<Rightarrow>
          with_tip P (bc_Commit parent) message cs (\<lambda>base cs.
            if deleted = [] then Some (Err ErrEmptyTransaction, message, cs)
            else (let patch = fold (\<lambda>i w. snd (DeleteObject i w)) deleted (NewPatch (SnapV base));
                      patch = fold (\<lambda>d w. snd (AddDataObject d w)) objects patch;
                      message = (if message = '''' then
                        deleteWhereMessage (p_str P)
                          (map (\<lambda>i. case Snapshot_Lookup base i of Ok d \<Rightarrow> Some d | _ \<Rightarrow> None) deleted) (map Some objects)
                        else message)
                  in Some (Ok (NewCommitObject (e_iter (p_env P)) (p_new P retries) (p_now P) (bc_Commit parent) retries
                               author message appMeta patch), message, cs))))"

definition Branch_DeleteWhere ::
    "penv \<Rightarrow> string \<Rightarrow> (ksuid \<Rightarrow> (ksuid list \<times> dobject list) go) \<Rightarrow> string \<Rightarrow> string \<Rightarrow> string \<Rightarrow> pool \<Rightarrow> (ksuid go \<times> pool) option" where
  "Branch_DeleteWhere P name query author message meta pl =
     (case loadMeta P meta of
        Err err \<Rightarrow> Some (Err err, pl)
      | Panic \<Rightarrow> Some (Panic, pl)
      | Ok appMeta \<Rightarrow> Branch_commit P name (deleteWhere_create P query author appMeta) message pl)"

definition revert_create :: "penv \<Rightarrow> ksuid \<Rightarrow> string \<Rightarrow> constructor" where
  "revert_create P cid author parent retries message cs =
     (case PatchOfCommit (p_env P) cid cs of
        None \<Rightarrow> None
      | Some (Err err, cs) \<Rightarrow> Some (Err (Errorf ''commit not found''), message, cs)
      | Some (Panic, cs) \<Rightarrow> Some (Panic, message, cs)
      | Some (Ok patch, cs) \<Rightarrow>
          with_tip P (bc_Commit parent) message cs (\<lambda>tip cs.
            (let message = (if message = '''' then ''reverted commit '' @ p_str P cid else message) in
             Some (Patch_Revert (e_iter (p_env P)) (p_new P retries) (p_now P) (SnapV tip) (bc_Commit parent) retries author message patch,
                   message, cs))))"

definition Branch_Revert :: "penv \<Rightarrow> string \<Rightarrow> ksuid \<Rightarrow> string \<Rightarrow> string \<Rightarrow> pool \<Rightarrow> (ksuid go \<times> pool) option" where
  "Branch_Revert P name cid author message pl = Branch_commit P name (revert_create P cid author) message pl"

fun stop_at_error :: "('a \<Rightarrow> view \<Rightarrow> goerror option \<times> view) \<Rightarrow> 'a list \<Rightarrow> view \<Rightarrow> goerror option \<times> view" where
  "stop_at_error f [] w = (None, w)"
| "stop_at_error f (x # xs) w = (case f x w of (Some err, w) \<Rightarrow> (Some err, w) | (None, w) \<Rightarrow> stop_at_error f xs w)"

definition compact_patch :: "dobject list \<Rightarrow> dobject list \<Rightarrow> ksuid list \<Rightarrow> view \<Rightarrow> goerror option \<times> view" where
  "compact_patch src rollup rollupVecs patch =
     (case stop_at_error AddDataObject rollup patch of
        (Some err, w) \<Rightarrow> (Some err, w)
      | (None, w) \<Rightarrow>
          (case stop_at_error AddVector rollupVecs w of
             (Some err, w) \<Rightarrow> (Some err, w)
           | (None, w) \<Rightarrow> stop_at_error (\<lambda>d. DeleteObject (obj_ID d)) src w))"

definition compact_create :: "penv \<Rightarrow> dobject list \<Rightarrow> dobject list \<Rightarrow> ksuid list \<Rightarrow> string \<Rightarrow> zvalue \<Rightarrow> constructor" where
  "compact_create P src rollup rollupVecs author appMeta parent retries message cs =
     with_tip P (bc_Commit parent) message cs (\<lambda>base cs.
       case compact_patch src rollup rollupVecs (NewPatch (SnapV base)) of
         (Some err, _) \<Rightarrow> Some (Err err, message, cs)
       | (None, patch) \<Rightarrow>
           (let message = (if message = '''' then
                 ''compacted '' @ FormatUint (length src) @ '' object'' @ pluralSlice src ''s'' @ [nl, nl] @
                 printObjects (p_str P) (map Some src) maxMessageObjects @
                 [nl] @ ''created '' @ FormatUint (length rollup) @ '' object'' @ pluralSlice rollup ''s'' @ [nl, nl] @
                 printObjects (p_str P) (map Some rollup) (maxMessageObjects - int (length src))
               else message)
            in Some (Ok (NewCommitObject (e_iter (p_env P)) (p_new P retries) (p_now P) (bc_Commit parent) retries
                         author message appMeta patch), message, cs)))"

definition CommitCompact ::
    "penv \<Rightarrow> string \<Rightarrow> dobject list \<Rightarrow> dobject list \<Rightarrow> ksuid list \<Rightarrow> string \<Rightarrow> string \<Rightarrow> string \<Rightarrow> pool \<Rightarrow> (ksuid go \<times> pool) option" where
  "CommitCompact P name src rollup rollupVecs author message meta pl =
     (if length rollup < 1 then Some (Err (Errorf ''compact: one or more rollup objects required''), pl)
      else case loadMeta P meta of
        Err err \<Rightarrow> Some (Err err, pl)
      | Panic \<Rightarrow> Some (Panic, pl)
      | Ok appMeta \<Rightarrow> Branch_commit P name (compact_create P src rollup rollupVecs author appMeta) message pl)"

section \<open>Merging\<close>

fun commonAncestor_loop :: "ksuid list \<Rightarrow> ksuid list \<Rightarrow> ksuid" where
  "commonAncestor_loop m [] = 0"
| "commonAncestor_loop m (i # is) = (if i \<in> set m then i else commonAncestor_loop m is)"

definition commonAncestor :: "ksuid list \<Rightarrow> ksuid list \<Rightarrow> ksuid" where
  "commonAncestor a b = commonAncestor_loop a b"

text \<open>Going on with the result of a step of the commit store.\<close>

definition andThen :: "('a go \<times> cstore) option \<Rightarrow> ('a \<Rightarrow> cstore \<Rightarrow> ('b go \<times> cstore) option) \<Rightarrow> ('b go \<times> cstore) option" where
  "andThen r k =
     (case r of
        None \<Rightarrow> None
      | Some (Err err, cs) \<Rightarrow> Some (Err err, cs)
      | Some (Panic, cs) \<Rightarrow> Some (Panic, cs)
      | Some (Ok x, cs) \<Rightarrow> k x cs)"

definition mergePatches :: "env \<Rightarrow> ksuid \<Rightarrow> ksuid \<Rightarrow> cstore \<Rightarrow> ((view \<times> view) go \<times> cstore) option" where
  "mergePatches E child parent cs =
     andThen (Path E child cs) (\<lambda>childPath cs.
     andThen (Path E parent cs) (\<lambda>parentPath cs.
     (let baseID = commonAncestor parentPath childPath in
      if baseID = 0 then Some (Err (Errorf ''system error: cannot locate common ancestor for branch merge''), cs)
      else
        andThen (Store_Snapshot E baseID cs) (\<lambda>base cs.
        andThen (PatchOfPath E base baseID child cs) (\<lambda>childPatch cs.
        andThen (PatchOfPath E base baseID parent cs) (\<lambda>parentPatch cs.
          Some (Ok (childPatch, parentPatch), cs)))))))"

definition buildMergeObject :: "penv \<Rightarrow> config \<Rightarrow> string \<Rightarrow> constructor" where
  "buildMergeObject P b author parent retries message cs =
     (case mergePatches (p_env P) (bc_Commit b) (bc_Commit parent) cs of
        None \<Rightarrow> None
      | Some (Err err, cs) \<Rightarrow> Some (Err err, message, cs)
      | Some (Panic, cs) \<Rightarrow> Some (Panic, message, cs)
      | Some (Ok (childPatch, parentPatch), cs) \<Rightarrow>
          (let text = (if message = '''' then
                 ''merged '' @ p_quote P (bc_Name b) @ '' into '' @ p_quote P (bc_Name parent) else message)
           in case Diff (e_iter (p_env P)) parentPatch childPatch of
                Err err \<Rightarrow> Some (Err (Errorf ''error merging''), message, cs)
              | Panic \<Rightarrow> Some (Panic, message, cs)
              | Ok diff \<Rightarrow>
                  Some (Ok (NewCommitObject (e_iter (p_env P)) (p_new P retries) (p_now P) (bc_Commit parent) retries
                            author text znull diff), message, cs)))"

text \<open>\<open>same\<close> says that the two branches are the same Go object.\<close>

definition mergeInto :: "penv \<Rightarrow> config \<Rightarrow> string \<Rightarrow> bool \<Rightarrow> string \<Rightarrow> string \<Rightarrow> pool \<Rightarrow> (ksuid go \<times> pool) option" where
  "mergeInto P b parentName same author message pl =
     (if same then Some (Err (Errorf ''cannot merge branch into itself''), pl)
      else Branch_commit P parentName (buildMergeObject P b author) message pl)"

section \<open>Tags and vectors\<close>

fun LookupTags :: "env \<Rightarrow> (ksuid \<Rightarrow> bool go) \<Rightarrow> ksuid list \<Rightarrow> cstore \<Rightarrow> (ksuid list go \<times> cstore) option" where
  "LookupTags E exists [] cs = Some (Ok [], cs)"
| "LookupTags E exists (tag # tags) cs =
     (case exists tag of
        Err err \<Rightarrow> Some (Err err, cs)
      | Panic \<Rightarrow> Some (Panic, cs)
      | Ok True \<Rightarrow> andThen (LookupTags E exists tags cs) (\<lambda>ids cs. Some (Ok (tag # ids), cs))
      | Ok False \<Rightarrow>
          (case PatchOfCommit E tag cs of
             None \<Rightarrow> None
           | Some (Panic, cs) \<Rightarrow> Some (Panic, cs)
           | Some (Err _, cs) \<Rightarrow> LookupTags E exists tags cs
           | Some (Ok patch, cs) \<Rightarrow>
               andThen (LookupTags E exists tags cs) (\<lambda>ids cs. Some (Ok (DataObjects (e_iter E) patch @ ids), cs))))"

fun check_vectors :: "bool \<Rightarrow> snapshot \<Rightarrow> ksuid list \<Rightarrow> goerror option" where
  "check_vectors has snap [] = None"
| "check_vectors has snap (i # is) =
     (if \<not> isOk (Snapshot_Lookup snap i) then Some (Errorf ''non-existent object: vector operation aborted'')
      else if Snapshot_HasVector snap i \<noteq> has then Some (Errorf ''vector operation aborted'')
      else check_vectors has snap is)"

definition addVectors_create :: "penv \<Rightarrow> ksuid list \<Rightarrow> string \<Rightarrow> constructor" where
  "addVectors_create P ids author parent retries message cs =
     with_tip P (bc_Commit parent) message cs (\<lambda>snap cs.
       case check_vectors False snap ids of
         Some err \<Rightarrow> Some (Err err, message, cs)
       | None \<Rightarrow> Some (Ok (NewAddVectorsObject (p_new P retries) (p_now P) (bc_Commit parent) author message ids retries), message, cs))"

definition deleteVectors_create :: "penv \<Rightarrow> ksuid list \<Rightarrow> string \<Rightarrow> constructor" where
  "deleteVectors_create P ids author parent retries message cs =
     with_tip P (bc_Commit parent) message cs (\<lambda>snap cs.
       case check_vectors True snap ids of
         Some err \<Rightarrow> Some (Err err, message, cs)
       | None \<Rightarrow> Some (Ok (NewDeleteVectorsObject (p_new P retries) (p_now P) (bc_Commit parent) author message ids retries), message, cs))"

fun create_vectors :: "(ksuid \<Rightarrow> unit go) \<Rightarrow> ksuid list \<Rightarrow> unit go" where
  "create_vectors create [] = Ok ()"
| "create_vectors create (i # is) = bindR (create i) (\<lambda>_. create_vectors create is)"

definition AddVectors :: "penv \<Rightarrow> string \<Rightarrow> (ksuid \<Rightarrow> unit go) \<Rightarrow> ksuid list \<Rightarrow> string \<Rightarrow> string \<Rightarrow> pool \<Rightarrow> (ksuid go \<times> pool) option" where
  "AddVectors P name create ids author message pl =
     (let message = (if message = '''' then vectorMessage (p_str P) ''add'' ids else message) in
      case create_vectors create ids of
        Err err \<Rightarrow> Some (Err err, pl)
      | Panic \<Rightarrow> Some (Panic, pl)
      | Ok _ \<Rightarrow> Branch_commit P name (addVectors_create P ids author) message pl)"

definition DeleteVectors :: "penv \<Rightarrow> string \<Rightarrow> ksuid list \<Rightarrow> string \<Rightarrow> string \<Rightarrow> pool \<Rightarrow> (ksuid go \<times> pool) option" where
  "DeleteVectors P name ids author message pl =
     (let message = (if message = '''' then vectorMessage (p_str P) ''delete'' ids else message) in
      Branch_commit P name (deleteVectors_create P ids author) message pl)"

end
