(* ===== verification/BranchLaws.thy ===== *)
theory BranchLaws
  imports Branch JournalProps CommitStoreProps
begin

text \<open>
  Branches over a journal that no other client writes to: the operations of the journal store and of the commit
  store together.
\<close>

section \<open>Tables with each key once\<close>

definition tdist :: "'v jstore \<Rightarrow> bool" where
  "tdist st \<longleftrightarrow> (\<forall>m. js_table st = Some m \<longrightarrow> distinct (map fst m))"

lemma playRecords_distinct:
  "playRecords rs t = Ok t' \<Longrightarrow> (\<forall>m. t = Some m \<longrightarrow> distinct (map fst m)) \<Longrightarrow> (\<forall>m. t' = Some m \<longrightarrow> distinct (map fst m))"
proof (induction rs arbitrary: t)
  case (Cons r rs)
  obtain t1 where t1: "playRecord r t = Ok t1" "playRecords rs t1 = Ok t'" using Cons.prems(1) by (auto simp: bindR_Ok_iff)
  have "\<forall>m. t1 = Some m \<longrightarrow> distinct (map fst m)"
    using t1(1) Cons.prems(2) by (cases r) (auto simp: distinct_update distinct_delete split: option.splits if_splits)
  from Cons.IH [OF t1(2) this] show ?case .
qed simp

lemma replay_distinct:
  "replay s c h t = Ok t' \<Longrightarrow> (\<forall>m. t = Some m \<longrightarrow> distinct (map fst m)) \<Longrightarrow> (\<forall>m. t' = Some m \<longrightarrow> distinct (map fst m))"
proof (induction s c h t rule: replay.induct)
  case (1 s c h t)
  show ?case
  proof (cases "c \<ge> h")
    case True
    with 1(2,3) show ?thesis by (simp add: replay.simps [of s c])
  next
    case False
    then obtain b t1 where b: "getFile (entryFile s (c + 1)) = Ok b" "playRecords b t = Ok t1" "replay s (c + 1) h t1 = Ok t'"
      using 1(2) by (auto simp: replay.simps [of s c] bindR_Ok_iff)
    from 1(1) [OF False b(3) playRecords_distinct [OF b(2) 1(3)]] show ?thesis .
  qed
qed

lemma getSnapshot_loop_distinct:
  "distinct (map fst t) \<Longrightarrow> getSnapshot_loop fin t vals = (Some m, err) \<Longrightarrow> distinct (map fst m)"
  by (induction fin t vals rule: getSnapshot_loop.induct) (auto simp: distinct_update)

lemma getSnapshot_distinct: "getSnapshot s = (a, Some m, err) \<Longrightarrow> distinct (map fst m)"
  using getSnapshot_loop_distinct [of "[]"] by (auto simp: getSnapshot_def split: option.splits list.splits snapval.splits)

lemma load_tdist:
  assumes "tdist st" "load perm now s st = (r, s', st')"
  shows "tdist st'"
proof -
  obtain a t err where g: "getSnapshot s = (a, t, err)" by (metis prod_cases3)
  have t: "\<forall>m. t = Some m \<longrightarrow> distinct (map fst m)" using getSnapshot_distinct g by blast
  have "\<forall>m. t' = Some m \<longrightarrow> distinct (map fst m)" if "load_replay h a t s = Ok t'" for h t'
    using that t replay_distinct [OF _ t] by (auto simp: load_replay_def bindR_Ok_iff split: option.splits)
  then show ?thesis using assms g
    by (auto simp: load_def tdist_def load_install_def split: result.splits if_splits)
qed

lemma commit_loop_tdist: "tdist st \<Longrightarrow> commit_loop x perm now ch k s st = (r, s', st') \<Longrightarrow> tdist st'"
proof (induction k arbitrary: s st)
  case (Suc k)
  obtain r1 s1 st1 where l: "load perm now s st = (r1, s1, st1)" by (metis prod_cases3)
  have d: "tdist st1" by (rule load_tdist [OF Suc.prems(1) l])
  then have d': "tdist (st1\<lparr>js_at := Nil_ID\<rparr>)" by (simp add: tdist_def)
  show ?case using Suc.prems(2) l d d' Suc.IH [OF d]
    by (auto split: result.splits option.splits prod.splits if_splits)
qed simp

section \<open>The invariant of a pool\<close>

abbreviation tips :: "pool \<Rightarrow> nat \<Rightarrow> string \<rightharpoonup> config" where
  "tips pl n \<equiv> stateAt (entryFile (pl_files pl)) n"

definition poolOK :: "nat \<Rightarrow> pool \<Rightarrow> bool" where
  "poolOK n pl \<longleftrightarrow> quiet n (pl_files pl) \<and> storeOK (entryFile (pl_files pl)) n n (pl_branches pl) \<and> tdist (pl_branches pl) \<and>
     cstoreOK (pl_commits pl) \<and> (\<forall>k c. tips pl n k = Some c \<longrightarrow> bc_Name c = k)"

lemma poolOK_commits: "poolOK n pl \<Longrightarrow> cstoreOK cs \<Longrightarrow> poolOK n (pl\<lparr>pl_commits := cs\<rparr>)"
  by (simp add: poolOK_def)

lemma rd_values:
  assumes "tdist st" "permutes perm"
  shows "set (map snd (perm (case js_table st of None \<Rightarrow> [] | Some m \<Rightarrow> m))) = ran (rd (js_table st))"
proof -
  define m where "m = (case js_table st of None \<Rightarrow> [] | Some m \<Rightarrow> m)"
  have d: "distinct (map fst m)" using assms(1) by (cases "js_table st") (simp_all add: m_def tdist_def)
  have "rd (js_table st) = map_of m" by (cases "js_table st") (simp_all add: m_def rd_def)
  moreover have "map_of (perm m) = map_of m" "distinct (map fst (perm m))" using assms(2) d by (simp_all add: permutes_def)
  ultimately show ?thesis unfolding m_def [symmetric] using ran_distinct [of "perm m"] by simp
qed

lemma find_in: "find p xs = Some x \<Longrightarrow> x \<in> set xs \<and> p x"
  by (induction xs) (auto split: if_splits)

lemma find_name:
  assumes set: "set list = ran M" and nm: "\<And>k c. M k = Some c \<Longrightarrow> bc_Name c = k"
  shows "find (\<lambda>c. bc_Name c = name) list = M name"
proof (cases "find (\<lambda>c. bc_Name c = name) list")
  case None
  have "M name = Some c \<Longrightarrow> False" for c
    using None [unfolded find_None_iff] set nm [of name c] ranI [of M name c] by blast
  then show ?thesis using None by (cases "M name") auto
next
  case (Some c)
  then obtain k where "M k = Some c" "bc_Name c = name" using find_in [OF Some] set by (auto simp: ran_def)
  with nm [of k c] Some show ?thesis by simp
qed

lemma LookupByName_ok:
  assumes ok: "poolOK n pl" and perm: "permutes (p_perm P)"
  shows "\<exists>pl'. LookupByName P name pl = ((case tips pl n name of Some c \<Rightarrow> Ok c | None \<Rightarrow> Err ErrBranchNotFound), pl') \<and>
    poolOK n pl' \<and> entryFile (pl_files pl') = entryFile (pl_files pl) \<and> pl_commits pl' = pl_commits pl"
proof -
  let ?es = "entryFile (pl_files pl)"
  have q: "quiet n (pl_files pl)" "storeOK ?es n n (pl_branches pl)" "tdist (pl_branches pl)"
    and nm: "\<And>k c. tips pl n k = Some c \<Longrightarrow> bc_Name c = k" using ok by (simp_all add: poolOK_def)
  obtain s st where l: "load (p_perm P) (p_now P) (pl_files pl) (pl_branches pl) = (Ok (), s, st)" "quiet n s" "entryFile s = ?es"
      "js_at st = n" "rd (js_table st) = stateAt ?es n" "tdist st"
  proof -
    obtain s st where l: "load (p_perm P) (p_now P) (pl_files pl) (pl_branches pl) = (Ok (), s, st)" "quiet n s" "entryFile s = ?es"
        "js_at st = n" "rd (js_table st) = stateAt ?es n"
      using load_quiet [OF q(1,2) perm, of "p_now P"] by blast
    from that [OF l load_tdist [OF q(3) l(1)]] show thesis .
  qed
  let ?list = "map snd (p_perm P (case js_table st of None \<Rightarrow> [] | Some m \<Rightarrow> m))"
  let ?pl = "pl\<lparr>pl_files := s, pl_branches := st\<rparr>"
  have all: "Branches_All P pl = (Ok ?list, ?pl)" by (simp add: Branches_All_def Store_All_def l(1))
  have set: "set ?list = ran (tips pl n)" using rd_values [OF l(6) perm] l(5) by simp
  have "find (\<lambda>c. bc_Name c = name) ?list = tips pl n name" by (rule find_name [OF set]) (rule nm)
  moreover have "poolOK n ?pl" using ok l storeOK_loaded(1) [OF l(4), of ?es] by (simp add: poolOK_def)
  moreover have "Branches_All P pl = (Ok list, pl') \<Longrightarrow> find (\<lambda>c. bc_Name c = name) list = tips pl n name \<Longrightarrow>
      LookupByName P name pl = ((case tips pl n name of Some c \<Rightarrow> Ok c | None \<Rightarrow> Err ErrBranchNotFound), pl')" for list pl'
    by (cases "tips pl n name") (simp_all add: LookupByName_def)
  ultimately show ?thesis using all l(3) by (intro exI [of _ ?pl] conjI) simp_all
qed

text \<open>The conditional update of a tip that has not moved.\<close>

lemma Branches_Update_ok:
  assumes ok: "poolOK n pl" and n: "n < 2 ^ 64 - 2" and perm: "permutes (p_perm P)"
    and c: "tips pl n (bc_Name c') = Some c" "con c"
  shows "\<exists>pl'. Branches_Update P c' (Some con) pl = (Ok (), pl') \<and> poolOK (Suc n) pl' \<and>
    tips pl' (Suc n) = (tips pl n)(bc_Name c' \<mapsto> c') \<and> pl_commits pl' = pl_commits pl"
proof -
  let ?ch = "UpdateC (bc_Name c') c' (Some con)"
  have q: "quiet n (pl_files pl)" "storeOK (entryFile (pl_files pl)) n n (pl_branches pl)" "tdist (pl_branches pl)"
    using ok by (simp_all add: poolOK_def)
  have chk: "check ?ch (tips pl n) = None" using c by (simp add: withConstraint_def)
  obtain s st where r: "commit True (p_perm P) (p_now P) ?ch (pl_files pl) (pl_branches pl) = (Ok (), s, st)" "quiet (Suc n) s"
      "storeOK (entryFile s) (Suc n) (Suc n) st" "tdist st" "stateAt (entryFile s) (Suc n) = applyRs (recordsOf ?ch) (tips pl n)"
  proof -
    obtain s st where "commit True (p_perm P) (p_now P) ?ch (pl_files pl) (pl_branches pl) = (Ok (), s, st)" "quiet (Suc n) s"
        "storeOK (entryFile s) (Suc n) (Suc n) st" "stateAt (entryFile s) (Suc n) = applyRs (recordsOf ?ch) (tips pl n)"
      using commit_quiet [OF q(1) n q(2) perm, of "p_now P" ?ch] unfolding chk option.case by blast
    moreover from this(1) have "tdist st" unfolding commit_def by (rule commit_loop_tdist [OF q(3)])
    ultimately show thesis using that by blast
  qed
  have "stateAt (entryFile s) (Suc n) = (tips pl n)(bc_Name c' \<mapsto> c')" unfolding r(5) by (simp add: applyRs_def)
  with ok r show ?thesis by (simp add: Branches_Update_def Store_Update_def poolOK_def)
qed

section \<open>A commit moves the tip\<close>

lemma Branch_commit_ok:
  assumes ok: "poolOK n pl" and n: "n < 2 ^ 64 - 2" and perm: "permutes (p_perm P)" and c: "tips pl n name = Some c"
    and cr: "create c 0 message (pl_commits pl) = Some (Ok ob, message', cs)"
    and cs: "cstoreOK cs" "cs_files cs = cs_files (pl_commits pl)"
    and ob: "cs_files (pl_commits pl) (co_Commit ob) = None" "co_Commit ob \<noteq> 0" "wellMade ob"
    and ch: "chain (cs_files (pl_commits pl)) (co_Parent ob) os"
  shows "\<exists>pl'. Branch_commit P name create message pl = Some (Ok (co_Commit ob), pl') \<and> poolOK (Suc n) pl' \<and>
    tips pl' (Suc n) = (tips pl n)(name \<mapsto> c\<lparr>bc_Commit := co_Commit ob\<rparr>) \<and>
    chain (cs_files (pl_commits pl')) (co_Commit ob) ((co_Commit ob, ob) # os)"
proof -
  have nm: "bc_Name c = name" using ok c by (simp add: poolOK_def)
  obtain pl1 where l: "LookupByName P name pl = (Ok c, pl1)" "poolOK n pl1" "entryFile (pl_files pl1) = entryFile (pl_files pl)"
      "pl_commits pl1 = pl_commits pl"
    using LookupByName_ok [OF ok perm, of name] c by auto
  obtain cs1 where p: "Put ob cs = (Ok (), cs1)" "cstoreOK cs1" "chain (cs_files cs1) (co_Commit ob) ((co_Commit ob, ob) # os)"
    using Put_ok [OF cs(1)] ob ch cs(2) by metis
  have "tips (pl1\<lparr>pl_commits := cs1\<rparr>) n (bc_Name (c\<lparr>bc_Commit := co_Commit ob\<rparr>)) = Some c" using c l(3) nm by simp
  from Branches_Update_ok [where con = "\<lambda>e. bc_Commit e = bc_Commit c", OF poolOK_commits [OF l(2) p(2)] n perm this refl]
  obtain pl2 where u: "Branches_Update P (c\<lparr>bc_Commit := co_Commit ob\<rparr>) (Some (\<lambda>e. bc_Commit e = bc_Commit c)) (pl1\<lparr>pl_commits := cs1\<rparr>) = (Ok (), pl2)"
      "poolOK (Suc n) pl2" "tips pl2 (Suc n) = (tips pl n)(name \<mapsto> c\<lparr>bc_Commit := co_Commit ob\<rparr>)" "pl_commits pl2 = cs1"
    using l(3) nm by auto
  obtain k where k: "maxCommitRetries = Suc k" by (simp add: maxCommitRetries_def)
  have "Branch_commit P name create message pl = Some (Ok (co_Commit ob), pl2)"
    using l(1,4) cr p(1) u(1) by (simp add: Branch_commit_def k)
  with u p(3) show ?thesis by simp
qed

section \<open>New branches\<close>

lemma Branches_Add_ok:
  assumes ok: "poolOK n pl" and n: "n < 2 ^ 64 - 2" and perm: "permutes (p_perm P)" and c: "tips pl n (bc_Name c) = None"
  shows "\<exists>pl'. Branches_Add P c pl = (Ok (), pl') \<and> poolOK (Suc n) pl' \<and>
    tips pl' (Suc n) = (tips pl n)(bc_Name c \<mapsto> c) \<and> pl_commits pl' = pl_commits pl"
proof -
  let ?ch = "InsertC (bc_Name c) c"
  have q: "quiet n (pl_files pl)" "storeOK (entryFile (pl_files pl)) n n (pl_branches pl)" "tdist (pl_branches pl)"
    using ok by (simp_all add: poolOK_def)
  have chk: "check ?ch (tips pl n) = None" using c by simp
  obtain s st where r: "commit True (p_perm P) (p_now P) ?ch (pl_files pl) (pl_branches pl) = (Ok (), s, st)" "quiet (Suc n) s"
      "storeOK (entryFile s) (Suc n) (Suc n) st" "stateAt (entryFile s) (Suc n) = applyRs (recordsOf ?ch) (tips pl n)"
    using commit_quiet [OF q(1) n q(2) perm, of "p_now P" ?ch] unfolding chk option.case by blast
  have "tdist st" using r(1) unfolding commit_def by (rule commit_loop_tdist [OF q(3)])
  moreover have "stateAt (entryFile s) (Suc n) = (tips pl n)(bc_Name c \<mapsto> c)" unfolding r(4) by (simp add: applyRs_def)
  ultimately show ?thesis using ok r(1-3) by (simp add: Branches_Add_def Store_Insert_def poolOK_def del: stateAt.simps)
qed

lemma poolOK_newStore: "poolOK n pl \<Longrightarrow> poolOK n (pl\<lparr>pl_branches := newStore\<rparr>)"
  using storeOK_new by (auto simp: poolOK_def tdist_def newStore_def)

lemma OpenStore_ok: "poolOK n pl \<Longrightarrow> OpenStore (pl_files pl) = Ok newStore"
  using ReadHead_eq [of "pl_files pl" n] by (simp add: poolOK_def quiet_def filesOK_def OpenStore_def Journal_Open_def)

lemma CreateBranch_ok:
  assumes ok: "poolOK n pl" and n: "n < 2 ^ 64 - 2" and perm: "permutes (p_perm P)"
  shows "\<exists>pl'. case tips pl n name of
      Some c \<Rightarrow> CreateBranch P name parent pl = (Err ErrBranchExists, pl') \<and> poolOK n pl' \<and> tips pl' n = tips pl n
    | None \<Rightarrow> CreateBranch P name parent pl = (Ok (NewConfig (p_now P) name parent), pl') \<and> poolOK (Suc n) pl' \<and>
        tips pl' (Suc n) = (tips pl n)(name \<mapsto> NewConfig (p_now P) name parent) \<and> pl_commits pl' = pl_commits pl"
proof -
  obtain pl1 where l: "LookupByName P name (pl\<lparr>pl_branches := newStore\<rparr>) =
      ((case tips pl n name of Some c \<Rightarrow> Ok c | None \<Rightarrow> Err ErrBranchNotFound), pl1)" "poolOK n pl1"
      "entryFile (pl_files pl1) = entryFile (pl_files pl)" "pl_commits pl1 = pl_commits pl"
    using LookupByName_ok [OF poolOK_newStore [OF ok] perm, of name] by auto
  show ?thesis
  proof (cases "tips pl n name")
    case (Some c)
    then show ?thesis using l OpenStore_ok [OF ok] by (simp add: CreateBranch_def)
  next
    case None
    then have "tips pl1 n (bc_Name (NewConfig (p_now P) name parent)) = None" using l(3) by (simp add: NewConfig_def)
    from Branches_Add_ok [OF l(2) n perm this] obtain pl2 where a: "Branches_Add P (NewConfig (p_now P) name parent) pl1 = (Ok (), pl2)"
        "poolOK (Suc n) pl2" "tips pl2 (Suc n) = (tips pl1 n)(bc_Name (NewConfig (p_now P) name parent) \<mapsto> NewConfig (p_now P) name parent)"
        "pl_commits pl2 = pl_commits pl1" by blast
    have "CreateBranch P name parent pl = (Ok (NewConfig (p_now P) name parent), pl2)"
      using None l(1) a(1) OpenStore_ok [OF ok] by (simp add: CreateBranch_def)
    moreover have "tips pl2 (Suc n) = (tips pl n)(name \<mapsto> NewConfig (p_now P) name parent)"
      using a(3) l(3) unfolding NewConfig_def by simp
    ultimately show ?thesis unfolding None option.case using a(2,4) l(4) by auto
  qed
qed

end
