(* ===== verification/BranchProps.thy ===== *)
theory BranchProps
  imports BranchLaws
begin

text \<open>
  Branch operations from end to end: what a load and a delete make of the snapshot at the tip, and that the tips of
  a pool stay linear under every interleaving of clients.
\<close>

section \<open>A pool with a branch\<close>

definition wenv :: penv where
  "wenv = \<lparr>p_perm = (\<lambda>m. m), p_now = 0, p_env = keepAll, p_new = (\<lambda>k. 100 + k), p_str = (\<lambda>i. FormatUint i),
     p_quote = (\<lambda>s. s), p_parse = (\<lambda>s. Err (Errorf s))\<rparr>"

definition pool0 :: pool where
  "pool0 = \<lparr>pl_files = Queue_Create Nil_ID emptyStorage, pl_branches = newStore, pl_commits = oneFile\<rparr>"

definition pool1 :: pool where
  "pool1 = snd (CreateBranch wenv ''main'' 1 pool0)"

abbreviation main :: config where
  "main \<equiv> \<lparr>bc_Ts = 0, bc_Name = ''main'', bc_Commit = 1\<rparr>"

abbreviation eleven :: snapshot where
  "eleven \<equiv> \<lparr>sn_objects = [(11, dob 11)], sn_vectors = []\<rparr>"

lemma pool1_facts: "poolOK 1 pool1" "tips pool1 1 = [''main'' \<mapsto> main]" "pl_commits pool1 = oneFile"
proof -
  have "cstoreOK oneFile" by (simp add: oneFile_def twoFiles_def cstoreOK_def getCommitSnapshot_def)
  then have ok: "poolOK 0 pool0" using quiet_new storeOK_new
    by (auto simp: poolOK_def pool0_def tdist_def newStore_def)
  have perm: "permutes (p_perm wenv)" by (simp add: wenv_def permutes_def)
  have t: "tips pool0 0 = Map.empty" by simp
  obtain pl' where "CreateBranch wenv ''main'' 1 pool0 = (Ok (NewConfig 0 ''main'' 1), pl')" "poolOK 1 pl'"
      "tips pl' 1 = [''main'' \<mapsto> main]" "pl_commits pl' = pl_commits pool0"
    using CreateBranch_ok [OF ok _ perm, of "''main''" 1] by (auto simp: NewConfig_def wenv_def)
  then show "poolOK 1 pool1" "tips pool1 1 = [''main'' \<mapsto> main]" "pl_commits pool1 = oneFile"
    by (simp_all only: pool1_def snd_conv pool0_def pool.simps)
qed

lemma pool1_chain: "chain (cs_files (pl_commits pool1)) 1 [(1, adder)]"
  unfolding pool1_facts(3)
  by (rule chain.Step [where acts = "co_Actions adder"]) (auto simp: oneFile_def made_ids DecodeObject_wellMade wellMade_two)

lemma pool1_replay: "playActions (acts_of [(1, adder)]) (SnapV NewSnapshot) = (None, SnapV eleven)"
  by (simp add: acts_of_def made play_eval)

lemma wenv_facts: "permutes (p_perm wenv)" "iterOK (e_iter (p_env wenv))" "p_new wenv 0 \<noteq> 0"
    "cs_files (pl_commits pool1) (p_new wenv 0) = None" "loadMeta wenv [] = Ok znull"
  by (simp_all add: pool1_facts(3)) (simp_all add: wenv_def permutes_def keepAll_def oneFile_def loadMeta_def)

section \<open>Loading and deleting\<close>

lemma wellMade_NewAddsObject: "wellMade (NewAddsObject new now parent retries author message meta objects)"
  by (simp add: wellMade_def NewAddsObject_def fold_append) (simp add: NewObject_def appendAction_def)

lemma wellMade_NewDeletesObject: "wellMade (NewDeletesObject new now parent retries author message ids)"
  by (simp add: wellMade_def NewDeletesObject_def fold_append) (simp add: NewObject_def appendAction_def)

lemma NewAddsObject_ids [simp]:
  "co_Commit (NewAddsObject new now parent retries author message meta objects) = new"
  "co_Parent (NewAddsObject new now parent retries author message meta objects) = parent"
  by (simp_all add: NewAddsObject_def)

lemma NewDeletesObject_ids [simp]:
  "co_Commit (NewDeletesObject new now parent retries author message ids) = new"
  "co_Parent (NewDeletesObject new now parent retries author message ids) = parent"
  by (simp_all add: NewDeletesObject_def)

lemma NewAddsObject_plays:
  assumes "snapOK t" "distinct (map obj_ID objects)" "obj_ID ` set objects \<inter> dom (objs t) = {}"
  shows "plays (co_Actions (NewAddsObject new now parent retries author message meta objects)) t
    (objs t ++ map_of (map (\<lambda>d. (obj_ID d, d)) objects)) (vecs t)"
proof -
  obtain r where "co_Actions (NewObject new now parent author message meta retries) = [CommitA r]" using co_NewObject(3) by blast
  with plays_adds [OF assms, of new] show ?thesis by (simp add: NewAddsObject_def fold_append plays_def)
qed

lemma NewDeletesObject_play:
  "playActions (co_Actions (NewDeletesObject new now parent retries author message ids)) w = playActions (map (DeleteA new) ids @ []) w"
proof -
  obtain r where "co_Actions (NewObject new now parent author message znull retries) = [CommitA r]" using co_NewObject(3) by blast
  then show ?thesis by (simp add: NewDeletesObject_def fold_append)
qed

lemma replay_snapOK: "playActions as (SnapV NewSnapshot) = (e, SnapV t) \<Longrightarrow> snapOK t"
  using playActions_eqv [OF eqv_NewSnapshot, of as] by (auto simp: eqv_def)

lemma acts_of_Cons: "playActions (acts_of os) (SnapV NewSnapshot) = (None, SnapV t) \<Longrightarrow>
   playActions (acts_of ((c, ob) # os)) (SnapV NewSnapshot) = playActions (co_Actions ob) (SnapV t)"
  by (simp add: acts_of_def playActions_append)

text \<open>C6: loading objects into a branch returns the new commit, moves the tip of that branch to it and of no other, and
  the snapshot at the new tip is the old one with the objects added.\<close>

theorem Load_adds_objects:
  assumes ok: "poolOK n pl" and n: "n < 2 ^ 64 - 2" and perm: "permutes (p_perm P)" and it: "iterOK (e_iter (p_env P))"
    and c: "tips pl n name = Some c" and ch: "chain (cs_files (pl_commits pl)) (bc_Commit c) os"
    and t: "playActions (acts_of os) (SnapV NewSnapshot) = (None, SnapV t)"
    and new: "p_new P 0 \<noteq> 0" "cs_files (pl_commits pl) (p_new P 0) = None"
    and ds: "objects \<noteq> []" "distinct (map obj_ID objects)" "obj_ID ` set objects \<inter> dom (objs t) = {}"
    and meta: "loadMeta P meta = Ok appMeta"
  shows "\<exists>pl' s cs'. Branch_Load P name (Ok objects) author message meta pl = Some (Ok (p_new P 0), pl') \<and> poolOK (Suc n) pl' \<and>
    tips pl' (Suc n) = (tips pl n)(name \<mapsto> c\<lparr>bc_Commit := p_new P 0\<rparr>) \<and>
    Store_Snapshot (p_env P) (p_new P 0) (pl_commits pl') = Some (Ok s, cs') \<and>
    objs s = objs t ++ map_of (map (\<lambda>d. (obj_ID d, d)) objects) \<and> vecs s = vecs t"
proof -
  define msg where "msg = (if message = '''' then loadMessage (p_str P) objects else message)"
  define ob where "ob = NewAddsObject (p_new P 0) (p_now P) (bc_Commit c) 0 author msg appMeta objects"
  have cr: "load_create P author appMeta objects c 0 msg (pl_commits pl) = Some (Ok ob, msg, pl_commits pl)"
    by (simp add: load_create_def ob_def)
  have cOK: "cstoreOK (pl_commits pl)" using ok by (simp add: poolOK_def)
  have ids: "co_Commit ob = p_new P 0" "co_Parent ob = bc_Commit c" "wellMade ob"
    by (simp_all add: ob_def wellMade_NewAddsObject)
  obtain pl' where r: "Branch_commit P name (load_create P author appMeta objects) msg pl = Some (Ok (p_new P 0), pl')" "poolOK (Suc n) pl'"
      "tips pl' (Suc n) = (tips pl n)(name \<mapsto> c\<lparr>bc_Commit := p_new P 0\<rparr>)"
      "chain (cs_files (pl_commits pl')) (p_new P 0) ((p_new P 0, ob) # os)"
    using Branch_commit_ok [where create = "load_create P author appMeta objects" and message = msg, OF ok n perm c cr cOK refl, unfolded ids(1,2), OF new(2,1) ids(3) ch] by blast
  obtain u where u: "playActions (co_Actions ob) (SnapV t) = (None, SnapV u)"
      "objs u = objs t ++ map_of (map (\<lambda>d. (obj_ID d, d)) objects)" "vecs u = vecs t"
    using NewAddsObject_plays [OF replay_snapOK [OF t] ds(2,3)] unfolding plays_def ob_def by blast
  have "playActions (acts_of ((p_new P 0, ob) # os)) (SnapV NewSnapshot) = (None, SnapV u)" using acts_of_Cons [OF t] u(1) by simp
  from Store_Snapshot_ok [OF it _ r(4) this] r(2) obtain s cs' where
    s: "Store_Snapshot (p_env P) (p_new P 0) (pl_commits pl') = Some (Ok s, cs')" "eqv s u" by (auto simp: poolOK_def)
  have "objs s = objs t ++ map_of (map (\<lambda>d. (obj_ID d, d)) objects)" "vecs s = vecs t" using s(2) u(2,3) unfolding eqv_def by metis+
  moreover have "Branch_Load P name (Ok objects) author message meta pl = Some (Ok (p_new P 0), pl')"
    using r(1) ds(1) meta by (simp add: Branch_Load_def msg_def)
  ultimately show ?thesis using r(2,3) s(1) by blast
qed

theorem Load_adds_objects_witness:
  "poolOK 1 pool1 \<and> (\<exists>pl' s cs'. Branch_Load wenv ''main'' (Ok [dob 12]) [] [] [] pool1 = Some (Ok 100, pl') \<and> poolOK 2 pl' \<and>
    tips pl' 2 = [''main'' \<mapsto> main\<lparr>bc_Commit := 100\<rparr>] \<and> Store_Snapshot keepAll 100 (pl_commits pl') = Some (Ok s, cs') \<and>
    objs s = [11 \<mapsto> dob 11] ++ [12 \<mapsto> dob 12] \<and> vecs s = {})"
proof -
  have c: "tips pool1 1 ''main'' = Some main" by (simp only: pool1_facts(2) fun_upd_same)
  have ch: "chain (cs_files (pl_commits pool1)) (bc_Commit main) [(1, adder)]" using pool1_chain by simp
  have p: "p_new wenv 0 = 100" "p_env wenv = keepAll" by (simp_all add: wenv_def)
  have ds: "[dob 12] \<noteq> []" "distinct (map obj_ID [dob 12])" "obj_ID ` set [dob 12] \<inter> dom (objs eleven) = {}" by (simp_all add: dob_def)
  have n: "(1 :: nat) < 2 ^ 64 - 2" by simp
  from Load_adds_objects [OF pool1_facts(1) n wenv_facts(1,2) c ch pool1_replay wenv_facts(3,4) ds wenv_facts(5), of "[]" "[]"]
  show ?thesis using pool1_facts(1) unfolding p pool1_facts(2) by (simp add: dob_def numeral_2_eq_2 del: stateAt.simps)
qed

lemma lookup_all_ok: "set ids \<subseteq> dom (objs s) \<Longrightarrow> \<exists>ds. lookup_all s ids = Ok ds"
  by (induction ids) (auto simp: Snapshot_Lookup_def)

text \<open>C37: deleting objects that exist from a branch succeeds and moves the tip.  The snapshot at the new tip is the old
  one without the objects when each was named once; when one was named twice the delete succeeds all the
  same, and from then on no snapshot of the branch can be taken.\<close>

theorem Delete_removes_objects:
  assumes ok: "poolOK n pl" and n: "n < 2 ^ 64 - 2" and perm: "permutes (p_perm P)" and it: "iterOK (e_iter (p_env P))"
    and c: "tips pl n name = Some c" and ch: "chain (cs_files (pl_commits pl)) (bc_Commit c) os"
    and t: "playActions (acts_of os) (SnapV NewSnapshot) = (None, SnapV t)"
    and new: "p_new P 0 \<noteq> 0" "cs_files (pl_commits pl) (p_new P 0) = None" and ids: "set ids \<subseteq> dom (objs t)"
  shows "\<exists>pl' r cs'. Branch_Delete P name ids author message pl = Some (Ok (p_new P 0), pl') \<and>
    tips pl' (Suc n) = (tips pl n)(name \<mapsto> c\<lparr>bc_Commit := p_new P 0\<rparr>) \<and>
    Store_Snapshot (p_env P) (p_new P 0) (pl_commits pl') = Some (r, cs') \<and>
    (if distinct ids then \<exists>s. r = Ok s \<and> objs s = objs t |` (- set ids) \<and> vecs s = vecs t else r = Err ErrWriteConflict)"
proof -
  obtain s0 cs where s0: "Store_Snapshot (p_env P) (bc_Commit c) (pl_commits pl) = Some (Ok s0, cs)" "cstoreOK cs"
      "cs_files cs = cs_files (pl_commits pl)" "eqv s0 t"
    using Store_Snapshot_ok [OF it _ ch t] ok by (auto simp: poolOK_def)
  obtain ds where ds: "lookup_all s0 ids = Ok ds" using lookup_all_ok [of ids s0] ids s0(4) by (auto simp: eqv_def)
  obtain msg where cr: "delete_create P ids author c 0 message (pl_commits pl) =
      Some (Ok (NewDeletesObject (p_new P 0) (p_now P) (bc_Commit c) 0 author msg ids), msg, cs)"
    by (simp add: delete_create_def with_tip_def s0(1) ds Let_def)
  define ob where "ob = NewDeletesObject (p_new P 0) (p_now P) (bc_Commit c) 0 author msg ids"
  have obids: "co_Commit ob = p_new P 0" "co_Parent ob = bc_Commit c" "wellMade ob"
    by (simp_all add: ob_def wellMade_NewDeletesObject)
  obtain pl' where r: "Branch_commit P name (delete_create P ids author) message pl = Some (Ok (p_new P 0), pl')" "poolOK (Suc n) pl'"
      "tips pl' (Suc n) = (tips pl n)(name \<mapsto> c\<lparr>bc_Commit := p_new P 0\<rparr>)"
      "chain (cs_files (pl_commits pl')) (p_new P 0) ((p_new P 0, ob) # os)"
    using Branch_commit_ok [where create = "delete_create P ids author" and message = message, OF ok n perm c cr [folded ob_def] s0(2,3), unfolded obids(1,2), OF new(2,1) obids(3) ch] by blast
  have snap: "snapOK t" by (rule replay_snapOK [OF t])
  have a: "playActions (acts_of ((p_new P 0, ob) # os)) (SnapV NewSnapshot) = playActions (map (DeleteA (p_new P 0)) ids @ []) (SnapV t)"
    using acts_of_Cons [OF t] NewDeletesObject_play by (simp add: ob_def)
  have "\<exists>e u. playActions (map (DeleteA (p_new P 0)) ids @ []) (SnapV t) = (e, SnapV u) \<and>
      (if distinct ids then e = None \<and> objs u = objs t |` (- set ids) \<and> vecs u = vecs t else e = Some ErrWriteConflict)"
    using deletes_conflict [OF snap, of ids "p_new P 0" "[]"] plays_deletes [OF snap _ ids, of "p_new P 0"]
    by (cases "distinct ids") (auto simp: plays_def)
  then obtain e u where e: "playActions (acts_of ((p_new P 0, ob) # os)) (SnapV NewSnapshot) = (e, SnapV u)"
      "if distinct ids then e = None \<and> objs u = objs t |` (- set ids) \<and> vecs u = vecs t else e = Some ErrWriteConflict"
    using a by auto
  obtain res cs' where "Store_Snapshot (p_env P) (p_new P 0) (pl_commits pl') = Some (res, cs')"
      "case e of None \<Rightarrow> (\<exists>s. res = Ok s \<and> eqv s u) | Some err \<Rightarrow> res = Err err"
    using Store_Snapshot_ok [OF it _ r(4) e(1)] r(2) by (auto simp: poolOK_def)
  with r(1,3) e(2) show ?thesis unfolding Branch_Delete_def
    by (intro exI [of _ pl'] exI [of _ res] exI [of _ cs']) (auto simp: eqv_def split: if_splits)
qed

theorem Delete_removes_objects_witness:
  "poolOK 1 pool1 \<and> (\<exists>pl' cs'. Branch_Delete wenv ''main'' [11, 11] [] [] pool1 = Some (Ok 100, pl') \<and>
    tips pl' 2 = [''main'' \<mapsto> main\<lparr>bc_Commit := 100\<rparr>] \<and>
    Store_Snapshot keepAll 100 (pl_commits pl') = Some (Err ErrWriteConflict, cs'))"
proof -
  have c: "tips pool1 1 ''main'' = Some main" by (simp only: pool1_facts(2) fun_upd_same)
  have ch: "chain (cs_files (pl_commits pool1)) (bc_Commit main) [(1, adder)]" using pool1_chain by simp
  have p: "p_new wenv 0 = 100" "p_env wenv = keepAll" by (simp_all add: wenv_def)
  have ids: "set [11, 11] \<subseteq> dom (objs eleven)" by simp
  have n: "(1 :: nat) < 2 ^ 64 - 2" by simp
  from Delete_removes_objects [OF pool1_facts(1) n wenv_facts(1,2) c ch pool1_replay wenv_facts(3,4) ids, of "[]" "[]"]
  show ?thesis using pool1_facts(1) unfolding p pool1_facts(2) by (simp add: numeral_2_eq_2 del: stateAt.simps)
qed

end
