(* ===== verification/BranchSys.thy ===== *)
theory BranchSys
  imports BranchProps
begin

text \<open>
  Clients that commit to the branches of a pool at the same time: the objects that the constructors make, the steps
  of \<open>Branch.commit\<close> over the journal of branches and the shared files of commits, and the invariant of its states.
\<close>

section \<open>What the constructors make\<close>

text \<open>A constructor whose objects name themselves by a new ID and name the tip that was found as their parent.\<close>

definition links :: "penv \<Rightarrow> constructor \<Rightarrow> bool" where
  "links P create \<longleftrightarrow> (\<forall>c k msg cs ob msg' cs'. create c k msg cs = Some (Ok ob, msg', cs') \<longrightarrow>
     wellMade ob \<and> co_Commit ob = p_new P k \<and> co_Parent ob = bc_Commit c)"

lemma linksI:
  "(\<And>c k msg cs ob msg' cs'. create c k msg cs = Some (Ok ob, msg', cs') \<Longrightarrow>
     wellMade ob \<and> co_Commit ob = p_new P k \<and> co_Parent ob = bc_Commit c) \<Longrightarrow> links P create"
  by (simp add: links_def)

lemma wellMade_append:
  "wellMade ob \<Longrightarrow> wellMade (fold appendAdd ds ob)" "wellMade ob \<Longrightarrow> wellMade (fold appendDelete is ob)"
  "wellMade ob \<Longrightarrow> wellMade (fold appendAddVector is ob)" "wellMade ob \<Longrightarrow> wellMade (fold appendDeleteVector is ob)"
  by (auto simp: wellMade_def fold_append)

lemma wellMade_NewObject: "wellMade (NewObject new now parent author message meta retries)"
  by (simp add: wellMade_def NewObject_def appendAction_def)

lemma NewCommitObject_made:
  "wellMade (NewCommitObject it new now parent retries author message meta p) \<and>
   co_Commit (NewCommitObject it new now parent retries author message meta p) = new \<and>
   co_Parent (NewCommitObject it new now parent retries author message meta p) = parent"
  by (cases p) (simp_all add: wellMade_append wellMade_NewObject)

lemma NewVectors_made:
  "wellMade (NewAddVectorsObject new now parent author message ids retries)"
  "wellMade (NewDeleteVectorsObject new now parent author message ids retries)"
  by (simp_all add: NewAddVectorsObject_def NewDeleteVectorsObject_def wellMade_append wellMade_NewObject)

lemma revert_adds_made:
  "wellMade ob \<Longrightarrow> revert_adds base tip is ob = Ok ob' \<Longrightarrow> wellMade ob' \<and> co_Commit ob' = co_Commit ob \<and> co_Parent ob' = co_Parent ob"
proof (induction "is" arbitrary: ob)
  case (Cons i "is")
  obtain d where "revert_adds base tip is (if Exists tip (obj_ID d) then ob else appendAdd d ob) = Ok ob'"
    using Cons.prems(2) by (auto simp: bindR_Ok_iff)
  moreover have "wellMade (appendAdd d ob)" using wellMade_append(1) [OF Cons.prems(1), of "[d]"] by simp
  ultimately show ?case using Cons.IH Cons.prems(1) by (auto simp: appendAdd_def appendAction_def split: if_splits)
qed simp

lemma revert_deletes_made:
  "wellMade ob \<Longrightarrow> wellMade (fold (\<lambda>d ob. if Exists tip (obj_ID d) then appendDelete (obj_ID d) ob else ob) ds ob) \<and>
   co_Commit (fold (\<lambda>d ob. if Exists tip (obj_ID d) then appendDelete (obj_ID d) ob else ob) ds ob) = co_Commit ob \<and>
   co_Parent (fold (\<lambda>d ob. if Exists tip (obj_ID d) then appendDelete (obj_ID d) ob else ob) ds ob) = co_Parent ob"
proof (induction ds arbitrary: ob)
  case (Cons d ds)
  have "wellMade (appendDelete (obj_ID d) ob)" using wellMade_append(2) [OF Cons.prems, of "[obj_ID d]"] by simp
  with Cons.IH Cons.prems show ?case by (simp add: appendDelete_def appendAction_def)
qed simp

lemma Patch_Revert_made:
  assumes "Patch_Revert it new now tip parent retries author message p = Ok ob"
  shows "wellMade ob \<and> co_Commit ob = new \<and> co_Parent ob = parent"
proof (cases p)
  case (PatchV base diff delO delV)
  let ?o = "NewObject new now parent author message znull retries"
  let ?o1 = "fold (\<lambda>d ob. if Exists tip (obj_ID d) then appendDelete (obj_ID d) ob else ob) (Snapshot_SelectAll it diff) ?o"
  have "revert_adds base tip delO ?o1 = Ok ob" using assms PatchV by (auto simp: Let_def bindR_Ok_iff split: if_splits)
  moreover note d = revert_deletes_made [OF wellMade_NewObject, of tip "Snapshot_SelectAll it diff" new now parent author message znull retries]
  ultimately show ?thesis using revert_adds_made [OF conjunct1 [OF d], of base tip delO ob] by simp
qed (use assms in simp)

lemmas made_by = wellMade_NewAddsObject wellMade_NewDeletesObject NewCommitObject_made NewVectors_made
  NewAddVectorsObject_def NewDeleteVectorsObject_def

lemma with_tipE:
  assumes "with_tip P cid msg cs k = Some (Ok ob, msg', cs')"
  obtains snap cs1 where "k snap cs1 = Some (Ok ob, msg', cs')"
  using assms by (auto simp: with_tip_def split: option.splits prod.splits result.splits)

lemma links_load: "links P (load_create P author meta objects)"
  by (rule linksI) (auto simp: load_create_def made_by)

lemma links_delete: "links P (delete_create P ids author)"
  by (rule linksI, unfold delete_create_def, elim with_tipE) (auto simp: Let_def made_by split: result.splits)

lemma links_vectors: "links P (addVectors_create P ids author)" "links P (deleteVectors_create P ids author)"
  by (rule linksI, unfold addVectors_create_def, elim with_tipE, use NewVectors_made in \<open>auto simp: made_by split: option.splits\<close>)
    (rule linksI, unfold deleteVectors_create_def, elim with_tipE, use NewVectors_made in \<open>auto simp: made_by split: option.splits\<close>)

lemma links_deleteWhere: "links P (deleteWhere_create P query author meta)"
  by (rule linksI, unfold deleteWhere_create_def, auto split: result.splits elim!: with_tipE simp del: NewCommitObject.simps)
    (auto simp: Let_def NewCommitObject_made split: if_splits simp del: NewCommitObject.simps)

lemma links_compact: "links P (compact_create P src rollup vs author meta)"
  by (rule linksI, unfold compact_create_def, elim with_tipE)
    (auto simp: Let_def NewCommitObject_made split: prod.splits option.splits simp del: NewCommitObject.simps)

lemma links_merge: "links P (buildMergeObject P b author)"
  by (rule linksI)
    (auto simp: buildMergeObject_def Let_def NewCommitObject_made split: option.splits prod.splits result.splits simp del: NewCommitObject.simps)

lemma links_revert: "links P (revert_create P cid author)"
  by (rule linksI, unfold revert_create_def, auto split: option.splits prod.splits result.splits elim!: with_tipE)
    (auto simp: Let_def dest: Patch_Revert_made)

section \<open>Clients of a pool\<close>

text \<open>The change of the journal of branches by which \<open>Branch.commit\<close> moves the tip.\<close>

definition tipUpdate :: "config \<Rightarrow> cobject \<Rightarrow> config change" where
  "tipUpdate c ob =
     (let parent = bc_Commit c; c' = c\<lparr>bc_Commit := co_Commit ob\<rparr>
      in UpdateC (bc_Name c') c' (Some (\<lambda>e. bc_Commit e = parent)))"

lemma Branches_Update_tip:
  "Branches_Update P (c\<lparr>bc_Commit := co_Commit ob\<rparr>) (Some (\<lambda>e. bc_Commit e = bc_Commit c)) pl =
     (case commit True (p_perm P) (p_now P) (tipUpdate c ob) (pl_files pl) (pl_branches pl) of
        (r, s, st) \<Rightarrow> (r, pl\<lparr>pl_files := s, pl_branches := st\<rparr>))"
  by (simp add: Branches_Update_def Store_Update_def tipUpdate_def)

text \<open>The constructors of the operations of a branch.\<close>

inductive branchOp :: "penv \<Rightarrow> constructor \<Rightarrow> bool" for P where
  "branchOp P (load_create P author meta objects)"
| "branchOp P (delete_create P ids author)"
| "branchOp P (deleteWhere_create P query author meta)"
| "branchOp P (revert_create P cid author)"
| "branchOp P (compact_create P src rollup vs author meta)"
| "branchOp P (buildMergeObject P child author)"
| "branchOp P (addVectors_create P ids author)"
| "branchOp P (deleteVectors_create P ids author)"

lemma branchOp_links: "branchOp P create \<Longrightarrow> links P create"
  by (induction rule: branchOp.induct)
     (rule links_load links_delete links_deleteWhere links_revert links_compact links_merge links_vectors)+

text \<open>
  Where a client is in \<open>Branch.commit\<close>: it has found a branch, it has written an object for it, and it is
  moving the tip to the object.  The commit files are shared; the journal is a system of \<open>JournalSys\<close>, in which the
  client is a process.
\<close>

datatype client = Idle | Found config | Placed config cobject | Moving cobject

record bsys =
  bs_sys :: "config sys"
  bs_files :: "ksuid \<rightharpoonup> action list"
  bs_client :: "nat \<Rightarrow> client"

abbreviation journal :: "bsys \<Rightarrow> config log" where
  "journal b \<equiv> entryFile (sy_files (bs_sys b))"

text \<open>The commits of the branches that there have been.\<close>

definition inBranch :: "bsys \<Rightarrow> ksuid \<Rightarrow> bool" where
  "inBranch b cid \<longleftrightarrow> cid = 0 \<or> (\<exists>k c os. seen (journal b) k c \<and> chain (bs_files b) (bc_Commit c) os \<and> cid \<in> fst ` set os)"

text \<open>
  The steps.  A client loads its store, and finds a branch in the table of its store.  The constructor runs on whatever
  it finds in files and caches; the ID of its object is new.  When the update fails, for any reason, the object is
  removed, and the client may begin again.  A new branch starts at a commit of some branch, which \<open>CreateBranch\<close>
  itself does not check.
\<close>

inductive breach :: "bsys \<Rightarrow> bool" where
  Init: "breach \<lparr>bs_sys = init, bs_files = Map.empty, bs_client = (\<lambda>_. Idle)\<rparr>"
| Run: "breach b \<Longrightarrow> permutes perm \<Longrightarrow> breach (b\<lparr>bs_sys := run perm now i p (bs_sys b)\<rparr>)"
| Reopen: "breach b \<Longrightarrow> breach (b\<lparr>bs_sys := (bs_sys b)\<lparr>sy_store := (sy_store (bs_sys b))(i := newStore)\<rparr>\<rparr>)"
| Load: "breach b \<Longrightarrow> bs_client b p = Idle \<Longrightarrow> sy_phase (bs_sys b) p = Done r \<Longrightarrow> breach (b\<lparr>bs_sys := start p Read (bs_sys b)\<rparr>)"
| Create: "breach b \<Longrightarrow> bs_client b p = Idle \<Longrightarrow> sy_phase (bs_sys b) p = Done r \<Longrightarrow> inBranch b parent \<Longrightarrow>
    breach (b\<lparr>bs_sys := start p (Change (InsertC name (NewConfig now name parent)) maxRetries) (bs_sys b)\<rparr>)"
| Drop: "breach b \<Longrightarrow> bs_client b p = Idle \<Longrightarrow> sy_phase (bs_sys b) p = Done r \<Longrightarrow>
    breach (b\<lparr>bs_sys := start p (Change (DeleteC name con) maxRetries) (bs_sys b)\<rparr>)"
| Find: "breach b \<Longrightarrow> bs_client b p = Idle \<Longrightarrow> sy_phase (bs_sys b) p = Done (Ok ()) \<Longrightarrow>
    c \<in> ran (rd (js_table (sy_store (bs_sys b) i))) \<Longrightarrow> breach (b\<lparr>bs_client := (bs_client b)(p := Found c)\<rparr>)"
| Abandon: "breach b \<Longrightarrow> bs_client b p = Found c \<Longrightarrow> breach (b\<lparr>bs_client := (bs_client b)(p := Idle)\<rparr>)"
| Make: "breach b \<Longrightarrow> bs_client b p = Found c \<Longrightarrow> branchOp P create \<Longrightarrow> create c retries msg cs0 = Some (Ok ob, msg', cs1) \<Longrightarrow>
    bs_files b (co_Commit ob) = None \<Longrightarrow> co_Commit ob \<noteq> 0 \<Longrightarrow> Put ob (cs1\<lparr>cs_files := bs_files b\<rparr>) = (Ok (), cs2) \<Longrightarrow>
    breach (b\<lparr>bs_files := cs_files cs2, bs_client := (bs_client b)(p := Placed c ob)\<rparr>)"
| Move: "breach b \<Longrightarrow> bs_client b p = Placed c ob \<Longrightarrow> sy_phase (bs_sys b) p = Done r \<Longrightarrow>
    breach (b\<lparr>bs_sys := start p (Change (tipUpdate c ob) maxRetries) (bs_sys b), bs_client := (bs_client b)(p := Moving ob)\<rparr>)"
| Moved: "breach b \<Longrightarrow> bs_client b p = Moving ob \<Longrightarrow> sy_phase (bs_sys b) p = Done (Ok ()) \<Longrightarrow>
    breach (b\<lparr>bs_client := (bs_client b)(p := Idle)\<rparr>)"
| Failed: "breach b \<Longrightarrow> bs_client b p = Moving ob \<Longrightarrow> sy_phase (bs_sys b) p = Done (Err e) \<Longrightarrow>
    Remove ob (cs\<lparr>cs_files := bs_files b\<rparr>) = (rm, cs2) \<Longrightarrow>
    breach (b\<lparr>bs_files := cs_files cs2, bs_client := (bs_client b)(p := Idle)\<rparr>)"

section \<open>The invariant\<close>

text \<open>\<open>K\<close> is the set of the commits of branches: each is a file whose parents are in \<open>K\<close>.\<close>

definition filesInv :: "(ksuid \<rightharpoonup> action list) \<Rightarrow> ksuid set \<Rightarrow> bool" where
  "filesInv f K \<longleftrightarrow> K \<subseteq> dom f \<and> (\<forall>cid acts. f cid = Some acts \<longrightarrow> cid \<noteq> 0 \<and>
     (\<exists>ob os. acts = co_Actions ob \<and> wellMade ob \<and> co_Commit ob = cid \<and> chain f (co_Parent ob) os \<and> fst ` set os \<subseteq> K))"

text \<open>Each update in the journal moved a branch from its tip to an object whose parent is that tip.\<close>

definition logInv :: "config log \<Rightarrow> (ksuid \<rightharpoonup> action list) \<Rightarrow> ksuid set \<Rightarrow> bool" where
  "logInv es f K \<longleftrightarrow> (\<forall>k c. seen es k c \<longrightarrow> bc_Commit c \<in> insert 0 K) \<and>
     (\<forall>i k c. es (Suc i) = Some [Update k c] \<longrightarrow>
       (\<exists>old ob. stateAt es i k = Some old \<and> f (bc_Commit c) = Some (co_Actions ob) \<and> wellMade ob \<and>
          co_Commit ob = bc_Commit c \<and> bc_Commit c \<in> K \<and> co_Parent ob = bc_Commit old))"

text \<open>What a process has still to do: nothing, a load, or a change.\<close>

fun changeOf :: "'v task \<Rightarrow> 'v change option" where
  "changeOf Read = None"
| "changeOf (Change ch n) = Some ch"

fun pend :: "'v phase \<Rightarrow> 'v change option option" where
  "pend (AtHead task) = Some (changeOf task)"
| "pend (AtSnap h task) = Some (changeOf task)"
| "pend (AtReplay h a t task) = Some (changeOf task)"
| "pend (AtPutSnap h a t task) = Some (changeOf task)"
| "pend (AtCheck ch n) = Some (Some ch)"
| "pend (AtPut at ch n) = Some (Some ch)"
| "pend _ = None"

fun written :: "'v phase \<Rightarrow> bool" where
  "written (AtWriteHead at ch) = True"
| "written AtForce = True"
| "written (Done r) = (r = Ok ())"
| "written _ = False"

definition placed :: "(ksuid \<rightharpoonup> action list) \<Rightarrow> ksuid set \<Rightarrow> cobject \<Rightarrow> bool" where
  "placed f K ob \<longleftrightarrow> wellMade ob \<and> f (co_Commit ob) = Some (co_Actions ob) \<and> co_Commit ob \<notin> K"

fun clientOK :: "(ksuid \<rightharpoonup> action list) \<Rightarrow> ksuid set \<Rightarrow> config phase \<Rightarrow> client \<Rightarrow> bool" where
  "clientOK f K ph Idle = True"
| "clientOK f K ph (Found c) = (bc_Commit c \<in> insert 0 K)"
| "clientOK f K ph (Placed c ob) = (placed f K ob \<and> co_Parent ob = bc_Commit c)"
| "clientOK f K ph (Moving ob) = (pend ph \<noteq> Some None \<and> (\<not> written ph \<longrightarrow> placed f K ob))"

fun changeOK :: "ksuid set \<Rightarrow> client \<Rightarrow> config change \<Rightarrow> bool" where
  "changeOK K cl (InsertC k c) = (bc_Commit c \<in> insert 0 K)"
| "changeOK K cl (UpdateC k v con) = (\<exists>c ob. UpdateC k v con = tipUpdate c ob \<and> cl = Moving ob \<and> co_Parent ob = bc_Commit c)"
| "changeOK K cl (DeleteC k con) = True"
| "changeOK K cl (MoveC old k v) = False"

text \<open>The object that a client has written, unless an entry of the journal has it.\<close>

fun flying :: "config phase \<Rightarrow> client \<Rightarrow> cobject option" where
  "flying ph (Placed c ob) = Some ob"
| "flying ph (Moving ob) = (if written ph then None else Some ob)"
| "flying ph _ = None"

definition clientsInv :: "(ksuid \<rightharpoonup> action list) \<Rightarrow> ksuid set \<Rightarrow> (nat \<Rightarrow> config phase) \<Rightarrow> (nat \<Rightarrow> client) \<Rightarrow> bool" where
  "clientsInv f K ph cl \<longleftrightarrow> (\<forall>p. clientOK f K (ph p) (cl p) \<and> (\<forall>ch. pend (ph p) = Some (Some ch) \<longrightarrow> changeOK K (cl p) ch)) \<and>
     (\<forall>p q ob ob'. flying (ph p) (cl p) = Some ob \<longrightarrow> flying (ph q) (cl q) = Some ob' \<longrightarrow> p \<noteq> q \<longrightarrow> co_Commit ob \<noteq> co_Commit ob')"

abbreviation noMove :: "'v change \<Rightarrow> bool" where
  "noMove ch \<equiv> (\<forall>old k v. ch \<noteq> MoveC old k v)"

definition binv :: "bsys \<Rightarrow> bool" where
  "binv b \<longleftrightarrow> (\<exists>n h K. jinv noMove n h (bs_sys b) \<and> jseen (bs_sys b) \<and> filesInv (bs_files b) K \<and> logInv (journal b) (bs_files b) K \<and>
     clientsInv (bs_files b) K (sy_phase (bs_sys b)) (bs_client b))"

lemma binvI:
  assumes "jinv noMove n h (bs_sys b)" "jseen (bs_sys b)" "filesInv (bs_files b) K" "logInv (journal b) (bs_files b) K"
    "clientsInv (bs_files b) K (sy_phase (bs_sys b)) (bs_client b)"
  shows "binv b"
  unfolding binv_def using assms by blast

lemma binvE:
  assumes "binv b"
  obtains n h K where "jinv noMove n h (bs_sys b)" "jseen (bs_sys b)" "filesInv (bs_files b) K" "logInv (journal b) (bs_files b) K"
    "clientsInv (bs_files b) K (sy_phase (bs_sys b)) (bs_client b)"
  using assms unfolding binv_def by blast

lemma filesInv_chain:
  assumes "filesInv f K" "cid \<in> insert 0 K"
  shows "\<exists>os. chain f cid os \<and> fst ` set os \<subseteq> K"
proof (cases "cid = 0")
  case False
  then obtain ob os where "cid \<in> K" "f cid = Some (co_Actions ob)" "wellMade ob" "chain f (co_Parent ob) os" "fst ` set os \<subseteq> K"
    using assms unfolding filesInv_def by (metis domD insertE subsetD)
  then show ?thesis using chain.Step [OF False _ DecodeObject_wellMade] by (intro exI [of _ "(cid, ob) # os"]) auto
qed (intro exI [of _ "[]"], simp)

lemma chain_keeps: "chain f cid os \<Longrightarrow> \<forall>i \<in> fst ` set os. g i = f i \<Longrightarrow> chain g cid os"
proof (induction rule: chain.induct)
  case (Step c acts ob os)
  then show ?case by (intro chain.Step [of c g acts ob os]) auto
qed (rule chain.Root)

lemma filesInv_grow: "filesInv f K \<Longrightarrow> K \<subseteq> K' \<Longrightarrow> K' \<subseteq> dom f \<Longrightarrow> filesInv f K'"
  unfolding filesInv_def by (elim conjE, intro conjI allI impI) (assumption | metis order.trans)+

lemma filesInv_add:
  assumes f: "filesInv f K" and ob: "f (co_Commit ob) = None" "co_Commit ob \<noteq> 0" "wellMade ob" and par: "co_Parent ob \<in> insert 0 K"
  shows "filesInv (f(co_Commit ob \<mapsto> co_Actions ob)) K"
proof -
  let ?f = "f(co_Commit ob \<mapsto> co_Actions ob)"
  have K: "K \<subseteq> dom f" using f by (simp add: filesInv_def)
  then have "co_Commit ob \<notin> K" using ob(1) by auto
  then have up: "chain ?f cid os" if "chain f cid os" "fst ` set os \<subseteq> K" for cid os
    using that by (intro chain_keeps [OF that(1)]) auto
  obtain os where os: "chain f (co_Parent ob) os" "fst ` set os \<subseteq> K" using filesInv_chain [OF f par] by blast
  show ?thesis unfolding filesInv_def
  proof (intro conjI allI impI)
    show "K \<subseteq> dom ?f" using K by auto
    fix cid acts assume a: "?f cid = Some acts"
    show "cid \<noteq> 0" using a f ob(2) by (auto simp: filesInv_def split: if_splits)
    show "\<exists>o1 os. acts = co_Actions o1 \<and> wellMade o1 \<and> co_Commit o1 = cid \<and> chain ?f (co_Parent o1) os \<and> fst ` set os \<subseteq> K"
    proof (cases "cid = co_Commit ob")
      case True
      then show ?thesis using a ob(3) up [OF os] os(2) by (intro exI [of _ ob] exI [of _ os]) simp
    next
      case False
      then obtain o1 os1 where "acts = co_Actions o1" "wellMade o1" "co_Commit o1 = cid" "chain f (co_Parent o1) os1" "fst ` set os1 \<subseteq> K"
        using a f unfolding filesInv_def by (metis fun_upd_other)
      then show ?thesis using up by blast
    qed
  qed
qed

lemma filesInv_remove:
  assumes f: "filesInv f K" and cid: "cid \<notin> K"
  shows "filesInv (f(cid := None)) K"
proof -
  have up: "chain (f(cid := None)) c os" if "chain f c os" "fst ` set os \<subseteq> K" for c os
    using that cid by (intro chain_keeps [OF that(1)]) auto
  have "\<exists>ob os. acts = co_Actions ob \<and> wellMade ob \<and> co_Commit ob = c \<and> chain (f(cid := None)) (co_Parent ob) os \<and> fst ` set os \<subseteq> K"
    if "f c = Some acts" for c acts
    using that f up unfolding filesInv_def by metis
  moreover have "K \<subseteq> dom (f(cid := None))" using f cid by (auto simp: filesInv_def)
  ultimately show ?thesis using f unfolding filesInv_def by (auto split: if_splits)
qed

end
