(* ===== verification/BranchHist.thy ===== *)
theory BranchHist
  imports BranchSys
begin

text \<open>
  The history of branches that clients commit to at the same time: every step keeps the invariant of
  \<open>BranchSys\<close>, and no commit is lost.
\<close>

section \<open>Steps\<close>

text \<open>A step of a process: an entry is put, or nothing changes but what the process has still to do.\<close>

definition moves :: "'v phase \<Rightarrow> 'v phase \<Rightarrow> bool" where
  "moves ph ph' \<longleftrightarrow> pend ph' = pend ph \<and> written ph' = written ph \<or>
     (\<exists>r. ph' = Done r \<and> pend ph \<noteq> None \<and> (r = Ok () \<longrightarrow> pend ph = Some None))"

lemma moves_afterLoad: "pend ph = Some (changeOf task) \<Longrightarrow> \<not> written ph \<Longrightarrow> moves ph (afterLoad task)"
  by (cases task) (auto simp: moves_def)

lemma run_effect:
  obtains (put) at ch k s' where "sy_phase y p = AtPut at ch k" "putEntry True at (recordsOf ch) (sy_files y) = (None, s')"
      "run perm now i p y = y\<lparr>sy_files := s', sy_phase := (sy_phase y)(p := AtWriteHead at ch)\<rparr>"
  | (other) ph' where "entryFile (sy_files (run perm now i p y)) = entryFile (sy_files y)"
      "sy_phase (run perm now i p y) = (sy_phase y)(p := ph')" "moves (sy_phase y p) ph'"
proof (cases "sy_phase y p")
  case (Done r)
  then show thesis by (intro other [of "Done r"]) (auto simp: run_def moves_def)
next
  case (AtHead task)
  show thesis
  proof (cases "ReadHead (sy_files y)")
    case (Ok hd)
    have "moves (AtHead task) (AtSnap hd task)" "moves (AtHead task) (afterLoad task)"
      using moves_afterLoad [of "AtHead task" task] by (simp_all add: moves_def)
    with AtHead Ok show thesis
      by (intro other [of "if hd = js_at (sy_store y i) then afterLoad task else AtSnap hd task"]) (simp_all add: run_def)
  qed (use AtHead in \<open>auto simp: run_def moves_def intro: other\<close>)
next
  case (AtSnap h task)
  obtain a t err where "getSnapshot (sy_files y) = (a, t, err)" by (metis prod_cases3)
  with AtSnap show thesis by (intro other [of "AtReplay h a t task"]) (simp_all add: run_def moves_def)
next
  case (AtReplay h a t task)
  then show thesis by (cases "load_replay h a t (sy_files y)") (auto simp: run_def moves_def intro: other)
next
  case (AtPutSnap h a t task)
  then show thesis using moves_afterLoad [of "AtPutSnap h a t task" task]
    by (intro other [of "afterLoad task"]) (auto simp: run_def load_snapshot_def Let_def)
next
  case (AtCheck ch k)
  then show thesis by (cases "check ch (rd (js_table (sy_store y i)))") (auto simp: run_def Let_def moves_def intro: other)
next
  case (AtPut at ch k)
  obtain err s' where pe: "putEntry True at (recordsOf ch) (sy_files y) = (err, s')" by fastforce
  show thesis
  proof (cases err)
    case None
    then show thesis using put [OF AtPut] pe AtPut by (simp add: run_def)
  next
    case (Some e)
    then show thesis using pe AtPut
      by (intro other [of "if e = ErrExist then if k \<le> 1 then Done (Err ErrRetriesExceeded) else AtHead (Change ch (k - 1)) else Done (Err e)"])
        (auto simp: run_def moves_def)
  qed
next
  case (AtWriteHead at ch)
  then show thesis by (intro other [of AtForce]) (simp_all add: run_def moves_def writeHead_def)
next
  case AtForce
  then show thesis by (intro other [of "Done (Ok ())"]) (simp_all add: run_def moves_def)
qed

lemma clientsInvD:
  assumes "clientsInv f K ph cl"
  shows "clientOK f K (ph p) (cl p)" "pend (ph p) = Some (Some ch) \<Longrightarrow> changeOK K (cl p) ch"
    "flying (ph p) (cl p) = Some ob \<Longrightarrow> flying (ph q) (cl q) = Some ob' \<Longrightarrow> p \<noteq> q \<Longrightarrow> co_Commit ob \<noteq> co_Commit ob'"
  using assms unfolding clientsInv_def by blast+

lemma flying_placed: "clientsInv f K ph cl \<Longrightarrow> flying (ph p) (cl p) = Some ob \<Longrightarrow> placed f K ob"
  using clientsInvD(1) [of f K ph cl p] by (cases "cl p") (auto split: if_splits)

text \<open>Changing one client, and what the others rely on.\<close>

lemma clientsInv_one:
  assumes "clientsInv f K ph cl" and p: "clientOK f' K' ph' cl'" "\<And>ch. pend ph' = Some (Some ch) \<Longrightarrow> changeOK K' cl' ch"
    and K: "K \<subseteq> K'" and f: "\<And>q ob. q \<noteq> p \<Longrightarrow> flying (ph q) (cl q) = Some ob \<Longrightarrow> placed f' K' ob"
    and new: "\<And>q ob ob'. q \<noteq> p \<Longrightarrow> flying (ph q) (cl q) = Some ob \<Longrightarrow> flying ph' cl' = Some ob' \<Longrightarrow> co_Commit ob \<noteq> co_Commit ob'"
  shows "clientsInv f' K' (ph(p := ph')) (cl(p := cl'))"
  unfolding clientsInv_def
proof (intro conjI allI impI)
  note d = clientsInvD [OF assms(1)]
  fix q
  show "clientOK f' K' ((ph(p := ph')) q) ((cl(p := cl')) q)"
  proof (cases "q = p")
    case False
    then show ?thesis using d(1) [of q] f [of q] K by (cases "cl q") (auto split: if_splits)
  qed (use p(1) in simp)
  have mono: "changeOK K cl ch \<Longrightarrow> changeOK K' cl ch" for cl ch using K by (cases ch) auto
  fix ch assume "pend ((ph(p := ph')) q) = Some (Some ch)"
  then show "changeOK K' ((cl(p := cl')) q) ch" using p(2) d(2) [of q] mono by (auto split: if_splits)
next
  note d = clientsInvD(3) [OF assms(1)]
  fix q r ob ob'
  assume "flying ((ph(p := ph')) q) ((cl(p := cl')) q) = Some ob" "flying ((ph(p := ph')) r) ((cl(p := cl')) r) = Some ob'" "q \<noteq> r"
  then show "co_Commit ob \<noteq> co_Commit ob'" using new [of q ob ob'] new [of r ob' ob] d [of q ob r ob'] by (auto split: if_splits)
qed

lemma clientsInv_same:
  assumes "clientsInv f K ph cl" "clientOK f K ph' cl'" "\<And>ch. pend ph' = Some (Some ch) \<Longrightarrow> changeOK K cl' ch"
    and "\<And>ob. flying ph' cl' = Some ob \<Longrightarrow> flying (ph p) (cl p) = Some ob"
  shows "clientsInv f K (ph(p := ph')) (cl(p := cl'))"
  by (rule clientsInv_one [OF assms(1-3)]) (use flying_placed [OF assms(1)] clientsInvD(3) [OF assms(1)] assms(4) in blast)+

lemma clientsInv_phase:
  assumes i: "clientsInv f K ph cl" and m: "moves (ph p) ph'"
  shows "clientsInv f K (ph(p := ph')) cl"
proof -
  have "clientsInv f K (ph(p := ph')) (cl(p := cl p))"
    by (rule clientsInv_same [OF i]) (use m clientsInvD [OF i, where p = p] in \<open>cases "cl p"; cases "ph p"; fastforce simp: moves_def split: if_splits\<close>)+
  then show ?thesis by simp
qed

lemma logInv_files: "logInv es f K \<Longrightarrow> (\<And>cid. cid \<in> K \<Longrightarrow> f' cid = f cid) \<Longrightarrow> logInv es f' K"
  unfolding logInv_def by metis

lemma logInv_append:
  assumes l: "logInv es f K" and dom: "dom es = {1..n}" and K: "K \<subseteq> K'"
    and new: "\<And>k c. Add k c \<in> set rs \<or> Update k c \<in> set rs \<Longrightarrow> bc_Commit c \<in> insert 0 K'"
    and upd: "\<And>k c. rs = [Update k c] \<Longrightarrow> \<exists>old ob. stateAt es n k = Some old \<and> f (bc_Commit c) = Some (co_Actions ob) \<and> wellMade ob \<and>
          co_Commit ob = bc_Commit c \<and> bc_Commit c \<in> K' \<and> co_Parent ob = bc_Commit old"
  shows "logInv (es(Suc n \<mapsto> rs)) f K'"
  unfolding logInv_def
proof (intro conjI allI impI)
  have "Suc n \<notin> dom es" using dom by simp
  then have free: "es (Suc n) = None" by blast
  show "bc_Commit c \<in> insert 0 K'" if "seen (es(Suc n \<mapsto> rs)) k c" for k c
    using that seen_append [where es = es and n = "Suc n", OF free] l K new unfolding logInv_def by blast
  fix i k c assume u: "(es(Suc n \<mapsto> rs)) (Suc i) = Some [Update k c]"
  have "i < n" if "i \<noteq> n"
  proof -
    have "Suc i \<in> dom es" using u that by auto
    then show ?thesis using dom by simp
  qed
  then have st: "stateAt (es(Suc n \<mapsto> rs)) i = stateAt es i" by (intro stateAt_cong) (cases "i = n", auto)
  show "\<exists>old ob. stateAt (es(Suc n \<mapsto> rs)) i k = Some old \<and> f (bc_Commit c) = Some (co_Actions ob) \<and> wellMade ob \<and>
      co_Commit ob = bc_Commit c \<and> bc_Commit c \<in> K' \<and> co_Parent ob = bc_Commit old"
  proof (cases "i = n")
    case False
    then have "es (Suc i) = Some [Update k c]" using u by simp
    then show ?thesis unfolding st using l K unfolding logInv_def by blast
  qed (use u upd st in simp)
qed

text \<open>A change enters the journal.\<close>

lemma binv_put:
  assumes inv: "jinv noMove n h (bs_sys b)" "jseen (bs_sys b)" "filesInv (bs_files b) K" "logInv (journal b) (bs_files b) K"
      "clientsInv (bs_files b) K (sy_phase (bs_sys b)) (bs_client b)"
    and ph: "sy_phase (bs_sys b) p = AtPut at ch k" and app: "check ch (stateAt (journal b) n) = None"
  shows "\<exists>K'. filesInv (bs_files b) K' \<and> logInv ((journal b)(Suc n \<mapsto> recordsOf ch)) (bs_files b) K' \<and>
    clientsInv (bs_files b) K' ((sy_phase (bs_sys b))(p := AtWriteHead at ch)) (bs_client b)"
proof -
  let ?es = "journal b" and ?f = "bs_files b" and ?ph = "sy_phase (bs_sys b)" and ?cl = "bs_client b"
  have dom: "dom ?es = {1..n}" using inv(1) by (simp add: jinv_def filesOK_def)
  have ok: "changeOK K (?cl p) ch" using clientsInvD(2) [OF inv(5), of p ch] ph by simp
  have p: "clientOK ?f K (?ph p) (?cl p)" by (rule clientsInvD(1) [OF inv(5)])
  show ?thesis
  proof (cases "\<exists>k v con. ch = UpdateC k v con")
    case False
    have "logInv (?es(Suc n \<mapsto> recordsOf ch)) ?f K"
      by (rule logInv_append [OF inv(4) dom order_refl]) (use ok False in \<open>cases ch; auto\<close>)+
    moreover have "clientsInv ?f K (?ph(p := AtWriteHead at ch)) (?cl(p := ?cl p))"
      by (rule clientsInv_same [OF inv(5)]) (use p in \<open>cases "?cl p"; auto\<close>)+
    ultimately show ?thesis using inv(3) by auto
  next
    case True
    then obtain c ob where u: "ch = tipUpdate c ob" "?cl p = Moving ob" "co_Parent ob = bc_Commit c" using ok by auto
    let ?K = "insert (co_Commit ob) K" and ?c = "c\<lparr>bc_Commit := co_Commit ob\<rparr>"
    have fly: "flying (?ph p) (?cl p) = Some ob" using u(2) ph by simp
    have ob: "wellMade ob" "?f (co_Commit ob) = Some (co_Actions ob)" using flying_placed [OF inv(5) fly] by (simp_all add: placed_def)
    obtain old where old: "stateAt ?es n (bc_Name c) = Some old" "bc_Commit old = bc_Commit c"
      using app by (auto simp: u(1) tipUpdate_def withConstraint_def split: option.splits if_splits)
    have "?K \<subseteq> dom ?f" using inv(3) ob(2) by (auto simp: filesInv_def)
    then have "filesInv ?f ?K" by (intro filesInv_grow [OF inv(3)]) auto
    moreover have "logInv (?es(Suc n \<mapsto> recordsOf ch)) ?f ?K"
      by (rule logInv_append [OF inv(4) dom]) (use u old ob in \<open>auto simp: tipUpdate_def\<close>)
    moreover have "clientsInv ?f ?K (?ph(p := AtWriteHead at ch)) (?cl(p := ?cl p))"
    proof (rule clientsInv_one [OF inv(5)])
      fix q ob' assume q: "q \<noteq> p" "flying (?ph q) (?cl q) = Some ob'"
      show "placed ?f ?K ob'" using flying_placed [OF inv(5) q(2)] clientsInvD(3) [OF inv(5) q(2) fly q(1)] by (simp add: placed_def)
    qed (use u(2) in auto)
    ultimately show ?thesis by auto
  qed
qed

lemma run_sys:
  assumes "jinv Q n h y" "jseen y" "permutes perm" "entryFile (sy_files (run perm now i p y)) (2 ^ 64 - 1) = None"
  shows "\<exists>n' h'. jinv Q n' h' (run perm now i p y) \<and> jseen (run perm now i p y)"
  using inv_run [OF assms(1,3,4)] seen_run [OF assms(1-3)] by blast

lemma binv_run:
  assumes "binv b" "permutes perm" "journal (b\<lparr>bs_sys := run perm now i p (bs_sys b)\<rparr>) (2 ^ 64 - 1) = None"
  shows "binv (b\<lparr>bs_sys := run perm now i p (bs_sys b)\<rparr>)"
proof -
  let ?y = "run perm now i p (bs_sys b)"
  obtain n h K where inv: "jinv noMove n h (bs_sys b)" "jseen (bs_sys b)" "filesInv (bs_files b) K" "logInv (journal b) (bs_files b) K"
      "clientsInv (bs_files b) K (sy_phase (bs_sys b)) (bs_client b)" by (rule binvE [OF assms(1)])
  have y: "\<exists>n' h'. jinv noMove n' h' ?y \<and> jseen ?y" using run_sys [OF inv(1,2) assms(2)] assms(3) by simp
  have "\<exists>K. filesInv (bs_files b) K \<and> logInv (entryFile (sy_files ?y)) (bs_files b) K \<and> clientsInv (bs_files b) K (sy_phase ?y) (bs_client b)"
  proof (cases rule: run_effect [of "bs_sys b" p perm now i])
    case (put at ch k s')
    note a = putEntry_appends [OF inv(1) put(1,2)]
    show ?thesis using binv_put [OF inv put(1) a(5)] put(3) a(3) by simp
  next
    case (other ph')
    then show ?thesis using inv(3,4) clientsInv_phase [OF inv(5) other(3)] by auto
  qed
  with y show ?thesis unfolding binv_def by (simp del: split_paired_Ex)
qed

lemma binv_sys:
  assumes "binv b" "\<And>n h. jinv noMove n h (bs_sys b) \<Longrightarrow> jinv noMove n h y'" "jseen (bs_sys b) \<Longrightarrow> jseen y'"
    "entryFile (sy_files y') = journal b"
    "\<And>K. filesInv (bs_files b) K \<Longrightarrow> logInv (journal b) (bs_files b) K \<Longrightarrow> clientsInv (bs_files b) K (sy_phase (bs_sys b)) (bs_client b) \<Longrightarrow>
       clientsInv (bs_files b) K (sy_phase y') cl'"
  shows "binv (b\<lparr>bs_sys := y', bs_client := cl'\<rparr>)"
proof -
  obtain n h K where inv: "jinv noMove n h (bs_sys b)" "jseen (bs_sys b)" "filesInv (bs_files b) K" "logInv (journal b) (bs_files b) K"
      "clientsInv (bs_files b) K (sy_phase (bs_sys b)) (bs_client b)" by (rule binvE [OF assms(1)])
  show ?thesis
    by (rule binvI [where n = n and h = h and K = K])
      (use inv(3,4) assms(2) [OF inv(1)] assms(3) [OF inv(2)] assms(4) assms(5) [OF inv(3-5)] in simp_all)
qed

lemma binv_start:
  assumes b: "binv b" and task: "taskOK noMove task"
    and ok: "\<And>K. filesInv (bs_files b) K \<Longrightarrow> logInv (journal b) (bs_files b) K \<Longrightarrow> clientOK (bs_files b) K (sy_phase (bs_sys b) p) (bs_client b p) \<Longrightarrow>
       clientOK (bs_files b) K (AtHead task) cl \<and> (\<forall>ch. changeOf task = Some ch \<longrightarrow> changeOK K cl ch)"
    and fly: "\<And>ob. flying (AtHead task) cl = Some ob \<Longrightarrow> flying (sy_phase (bs_sys b) p) (bs_client b p) = Some ob"
  shows "binv (b\<lparr>bs_sys := start p task (bs_sys b), bs_client := (bs_client b)(p := cl)\<rparr>)"
proof (rule binv_sys [OF b])
  show "jinv noMove n h (start p task (bs_sys b))" if "jinv noMove n h (bs_sys b)" for n h
    unfolding start_def by (rule inv_goto [OF that]) (use task in simp_all)
  show "jseen (start p task (bs_sys b))" if "jseen (bs_sys b)" unfolding start_def by (rule seen_goto [OF that]) simp
  fix K assume K: "filesInv (bs_files b) K" "logInv (journal b) (bs_files b) K" "clientsInv (bs_files b) K (sy_phase (bs_sys b)) (bs_client b)"
  from ok [OF K(1,2) clientsInvD(1) [OF K(3)]] fly
  show "clientsInv (bs_files b) K (sy_phase (start p task (bs_sys b))) ((bs_client b)(p := cl))"
    unfolding start_def by (simp, intro clientsInv_same [OF K(3)]) auto
qed (simp add: start_def)

lemma binv_create:
  assumes "binv b" "bs_client b p = Idle" "inBranch b parent"
  shows "binv (b\<lparr>bs_sys := start p (Change (InsertC name (NewConfig now name parent)) maxRetries) (bs_sys b), bs_client := (bs_client b)(p := Idle)\<rparr>)"
proof (rule binv_start [OF assms(1)])
  fix K assume K: "filesInv (bs_files b) K" "logInv (journal b) (bs_files b) K"
  have "parent \<in> insert 0 K"
  proof (cases "parent = 0")
    case False
    then obtain k c os where c: "seen (journal b) k c" "chain (bs_files b) (bc_Commit c) os" "parent \<in> fst ` set os"
      using assms(3) by (auto simp: inBranch_def)
    then have "bc_Commit c \<in> insert 0 K" using K(2) unfolding logInv_def by blast
    then obtain os' where "chain (bs_files b) (bc_Commit c) os'" "fst ` set os' \<subseteq> K" using filesInv_chain [OF K(1)] by blast
    then show ?thesis using c chain_unique by blast
  qed simp
  then show "clientOK (bs_files b) K (AtHead (Change (InsertC name (NewConfig now name parent)) maxRetries)) Idle \<and>
      (\<forall>ch. changeOf (Change (InsertC name (NewConfig now name parent)) maxRetries) = Some ch \<longrightarrow> changeOK K Idle ch)"
    by (simp add: NewConfig_def)
qed simp_all

lemma binv_client:
  assumes b: "binv b"
    and ok: "\<And>K. jseen (bs_sys b) \<Longrightarrow> filesInv (bs_files b) K \<Longrightarrow> logInv (journal b) (bs_files b) K \<Longrightarrow> clientOK (bs_files b) K (sy_phase (bs_sys b) p) cl"
    and fly: "flying (sy_phase (bs_sys b) p) cl = None" and pn: "pend (sy_phase (bs_sys b) p) = None \<or> cl = Idle \<and> (\<forall>ob. bs_client b p \<noteq> Moving ob)"
  shows "binv (b\<lparr>bs_client := (bs_client b)(p := cl)\<rparr>)"
proof -
  have j: "jseen (bs_sys b)" using b unfolding binv_def by blast
  have "binv (b\<lparr>bs_sys := bs_sys b, bs_client := (bs_client b)(p := cl)\<rparr>)"
  proof (rule binv_sys [OF b])
    fix K assume K: "filesInv (bs_files b) K" "logInv (journal b) (bs_files b) K" "clientsInv (bs_files b) K (sy_phase (bs_sys b)) (bs_client b)"
    have "changeOK K cl ch" if "pend (sy_phase (bs_sys b) p) = Some (Some ch)" for ch
      using pn clientsInvD(2) [OF K(3) that] that by (cases ch) auto
    with ok [OF j K(1,2)] fly have "clientsInv (bs_files b) K ((sy_phase (bs_sys b))(p := sy_phase (bs_sys b) p)) ((bs_client b)(p := cl))"
      by (intro clientsInv_same [OF K(3)]) auto
    then show "clientsInv (bs_files b) K (sy_phase (bs_sys b)) ((bs_client b)(p := cl))" by simp
  qed simp_all
  then show ?thesis by simp
qed

lemma binv_make:
  assumes b: "binv b" and c: "bs_client b p = Found c" and ob: "wellMade ob" "co_Parent ob = bc_Commit c"
    and new: "bs_files b (co_Commit ob) = None" "co_Commit ob \<noteq> 0"
  shows "binv (b\<lparr>bs_files := (bs_files b)(co_Commit ob \<mapsto> co_Actions ob), bs_client := (bs_client b)(p := Placed c ob)\<rparr>)"
proof -
  let ?f = "bs_files b" and ?f' = "(bs_files b)(co_Commit ob \<mapsto> co_Actions ob)" and ?ph = "sy_phase (bs_sys b)"
  obtain n h K where inv: "jinv noMove n h (bs_sys b)" "jseen (bs_sys b)" "filesInv ?f K" "logInv (journal b) ?f K" "clientsInv ?f K ?ph (bs_client b)"
    by (rule binvE [OF b])
  have par: "co_Parent ob \<in> insert 0 K" using clientsInvD(1) [OF inv(5), of p] c ob(2) by simp
  have nK: "co_Commit ob \<notin> K" using inv(3) new(1) by (auto simp: filesInv_def)
  have f: "filesInv ?f' K" by (rule filesInv_add [OF inv(3) new ob(1) par])
  have l: "logInv (journal b) ?f' K" by (rule logInv_files [OF inv(4)]) (use nK in auto)
  have "clientsInv ?f' K (?ph(p := ?ph p)) ((bs_client b)(p := Placed c ob))"
  proof (rule clientsInv_one [OF inv(5)])
    show "clientOK ?f' K (?ph p) (Placed c ob)" using ob nK by (simp add: placed_def)
    show "changeOK K (Placed c ob) ch" if "pend (?ph p) = Some (Some ch)" for ch
      using clientsInvD(2) [OF inv(5) that] c by (cases ch) auto
    fix q o1 assume "flying (?ph q) (bs_client b q) = Some o1"
    then have o1: "placed ?f K o1" by (rule flying_placed [OF inv(5)])
    then have ne: "co_Commit o1 \<noteq> co_Commit ob" using new(1) by (auto simp: placed_def)
    with o1 show "placed ?f' K o1" by (simp add: placed_def)
    show "co_Commit o1 \<noteq> co_Commit o2" if "flying (?ph p) (Placed c ob) = Some o2" for o2 using that ne by simp
  qed simp
  then show ?thesis by (intro binvI [where n = n and h = h and K = K]) (use inv(1,2) f l in simp_all)
qed

lemma binv_failed:
  assumes b: "binv b" and c: "bs_client b p = Moving ob" and r: "sy_phase (bs_sys b) p = Done (Err e)"
  shows "bs_files b (co_Commit ob) \<noteq> None"
    "binv (b\<lparr>bs_files := (bs_files b)(co_Commit ob := None), bs_client := (bs_client b)(p := Idle)\<rparr>)"
proof -
  let ?f = "bs_files b" and ?f' = "(bs_files b)(co_Commit ob := None)" and ?ph = "sy_phase (bs_sys b)"
  obtain n h K where inv: "jinv noMove n h (bs_sys b)" "jseen (bs_sys b)" "filesInv ?f K" "logInv (journal b) ?f K" "clientsInv ?f K ?ph (bs_client b)"
    by (rule binvE [OF b])
  have fly: "flying (?ph p) (bs_client b p) = Some ob" using c r by simp
  then have ob: "placed ?f K ob" by (rule flying_placed [OF inv(5)])
  then show "?f (co_Commit ob) \<noteq> None" by (simp add: placed_def)
  have f: "filesInv ?f' K" using filesInv_remove [OF inv(3)] ob by (simp add: placed_def)
  have l: "logInv (journal b) ?f' K" by (rule logInv_files [OF inv(4)]) (use ob in \<open>auto simp: placed_def\<close>)
  have "clientsInv ?f' K (?ph(p := ?ph p)) ((bs_client b)(p := Idle))"
  proof (rule clientsInv_one [OF inv(5)])
    fix q o1 assume q: "q \<noteq> p" "flying (?ph q) (bs_client b q) = Some o1"
    then show "placed ?f' K o1" using flying_placed [OF inv(5) q(2)] clientsInvD(3) [OF inv(5) q(2) fly q(1)] by (simp add: placed_def)
  qed (use r in simp_all)
  then show "binv (b\<lparr>bs_files := ?f', bs_client := (bs_client b)(p := Idle)\<rparr>)"
    by (intro binvI [where n = n and h = h and K = K]) (use inv(1,2) f l in simp_all)
qed

theorem breach_binv: "breach b \<Longrightarrow> journal b (2 ^ 64 - 1) = None \<Longrightarrow> binv b"
proof (induction rule: breach.induct)
  case Init
  have s: "jseen init" by (simp add: jseen_def init_def Queue_Create_def writeTail_def writeHead_def emptyStorage_def snapSeen_def getSnapshot_def newStore_def rd_def seenIn_def)
  have "journal \<lparr>bs_sys = init, bs_files = Map.empty, bs_client = (\<lambda>_. Idle)\<rparr> = Map.empty"
    by (simp add: init_def Queue_Create_def writeTail_def writeHead_def emptyStorage_def)
  then have "logInv (journal \<lparr>bs_sys = init, bs_files = Map.empty, bs_client = (\<lambda>_. Idle)\<rparr>) Map.empty {}"
    by (simp add: logInv_def seen_def)
  moreover have "clientsInv Map.empty {} (sy_phase init) (\<lambda>_. Idle)" by (simp add: clientsInv_def init_def)
  ultimately show ?case unfolding binv_def using inv_init [of noMove] s
    by (intro exI [of _ 0] exI [of _ "0 :: nat"] exI [of _ "{} :: ksuid set"]) (simp add: filesInv_def)
next
  case (Run b perm now i p)
  then show ?case using run_entries [of perm now i p "bs_sys b" "2 ^ 64 - 1"] by (intro binv_run) simp_all
next
  case (Reopen b i)
  then have "binv b" by simp
  moreover have "seenIn (journal b) (rd (js_table newStore))" by (simp add: newStore_def)
  ultimately have "binv (b\<lparr>bs_sys := (bs_sys b)\<lparr>sy_store := (sy_store (bs_sys b))(i := newStore)\<rparr>, bs_client := bs_client b\<rparr>)"
    by (intro binv_sys) (auto intro: inv_store storeOK_new seen_store)
  then show ?case by simp
next
  case (Load b p r)
  then show ?case using binv_start [where b = b and task = Read and cl = Idle and p = p] by (simp add: start_def fun_upd_idem)
next
  case (Create b p r parent name now)
  then show ?case using binv_create [of b p parent name now] by (simp add: start_def fun_upd_idem)
next
  case (Drop b p r name con)
  then show ?case using binv_start [where b = b and task = "Change (DeleteC name con) maxRetries" and cl = Idle and p = p] by (simp add: start_def fun_upd_idem)
next
  case (Find b p c i)
  then obtain k where "rd (js_table (sy_store (bs_sys b) i)) k = Some c" by (auto simp: ran_def)
  then have "jseen (bs_sys b) \<Longrightarrow> seen (journal b) k c" unfolding jseen_def seenIn_def by blast
  then have "jseen (bs_sys b) \<Longrightarrow> logInv (journal b) (bs_files b) K \<Longrightarrow> bc_Commit c \<in> insert 0 K" for K unfolding logInv_def by blast
  then show ?case using Find by (intro binv_client) simp_all
next
  case (Abandon b p c)
  then show ?case by (intro binv_client) auto
next
  case (Make b p c P create retries msg cs0 ob msg' cs1 cs2)
  have ob: "wellMade ob" "co_Parent ob = bc_Commit c" using branchOp_links [OF Make.hyps(3)] Make.hyps(4) unfolding links_def by blast+
  then have "cs_files cs2 = (bs_files b)(co_Commit ob \<mapsto> co_Actions ob)"
    using Make.hyps(7) by (auto simp: Put_def Object_Serialize_def split: result.splits if_splits)
  then show ?case using binv_make [OF Make.IH Make.hyps(2) ob Make.hyps(5,6)] Make.prems by simp
next
  case (Move b p c ob r)
  then show ?case by (intro binv_start) (auto simp: start_def tipUpdate_def)
next
  case (Moved b p ob)
  then show ?case by (intro binv_client) auto
next
  case (Failed b p ob e cs rm cs2)
  then have b: "binv b" by simp
  have "cs_files cs2 = (bs_files b)(co_Commit ob := None)"
    using Failed.hyps(4) binv_failed(1) [OF b Failed.hyps(2,3)] by (auto simp: Remove_def split: if_splits)
  then show ?case using binv_failed(2) [OF b Failed.hyps(2,3)] by simp
qed

section \<open>The history of a branch\<close>

lemma stateAt_seen:
  "dom es = {1..n} \<Longrightarrow> i \<le> n \<Longrightarrow> stateAt es i k = Some c \<Longrightarrow> seen es k c"
proof (induction i arbitrary: k c)
  case (Suc i)
  have "Suc i \<in> dom es" using Suc.prems(1,2) by simp
  then obtain rs where rs: "es (Suc i) = Some rs" by blast
  have "seenIn es (stateAt es i)" using Suc.IH [OF Suc.prems(1)] Suc.prems(2) by (simp add: seenIn_def)
  moreover have "seenIn es (fold applyR rs' m)" if "seenIn es m" "set rs' \<subseteq> set rs" for m rs'
    using that
  proof (induction rs' arbitrary: m)
    case (Cons r rs')
    have "seen es k v" if "r = Add k v \<or> r = Update k v" for k v
      using that rs Cons.prems(2) unfolding seen_def by (intro exI [of _ "Suc i"] exI [of _ rs]) auto
    then have "seenIn es (applyR r m)" using Cons.prems(1) by (cases r) (auto simp: seenIn_def)
    with Cons show ?case by simp
  qed simp
  ultimately have "seenIn es (stateAt es (Suc i))" using rs by (simp add: applyRs_def)
  then show ?case using Suc.prems(3) by (simp add: seenIn_def)
qed simp

text \<open>Unless the branch is removed in between, the commits of a tip are also commits of every later tip.\<close>

lemma history_extends:
  assumes v: "validLog noMove es n" and l: "logInv es f K" and fi: "filesInv f K"
    and c: "stateAt es i k = Some c" "chain f (bc_Commit c) os"
  shows "j \<le> n \<Longrightarrow> i \<le> j \<Longrightarrow> (\<forall>l \<in> {i<..j}. es l \<noteq> Some [Delete k]) \<Longrightarrow>
    \<exists>d xs. stateAt es j k = Some d \<and> chain f (bc_Commit d) (xs @ os)"
proof (induction j)
  case 0
  then show ?case using c by (intro exI [of _ c] exI [of _ "[]"]) simp
next
  case (Suc j)
  show ?case
  proof (cases "i = Suc j")
    case True
    then show ?thesis using c by (intro exI [of _ c] exI [of _ "[]"]) (simp del: stateAt.simps)
  next
    case False
    then obtain d xs where d: "stateAt es j k = Some d" "chain f (bc_Commit d) (xs @ os)" using Suc by auto
    obtain ch where ch: "noMove ch" "es (Suc j) = Some (recordsOf ch)" "check ch (stateAt es j) = None"
      using v Suc.prems(1) unfolding validLog_def by (meson Suc_le_lessD)
    have nd: "es (Suc j) \<noteq> Some [Delete k]" using Suc.prems(2,3) False by auto
    show ?thesis
    proof (cases "\<exists>c' con. ch = UpdateC k c' con")
      case True
      then obtain c' where u: "es (Suc j) = Some [Update k c']" using ch(2) by auto
      then obtain ob where ob: "f (bc_Commit c') = Some (co_Actions ob)" "wellMade ob" "co_Commit ob = bc_Commit c'" "co_Parent ob = bc_Commit d"
        using l d(1) unfolding logInv_def by (metis option.inject)
      have "bc_Commit c' \<noteq> 0" using fi ob(1) unfolding filesInv_def by blast
      from chain.Step [where f = f and c = "bc_Commit c'", OF this ob(1) DecodeObject_wellMade [OF ob(2)]] d(2) ob(4)
      have "chain f (bc_Commit c') (((bc_Commit c', ob) # xs) @ os)" by simp
      moreover have "stateAt es (Suc j) k = Some c'" using u by (simp add: applyRs_def)
      ultimately show ?thesis by blast
    next
      case other: False
      then have "applyRs (recordsOf ch) (stateAt es j) k = stateAt es j k"
        using ch d(1) nd by (cases ch) (auto simp: applyRs_def)
      then have "stateAt es (Suc j) k = Some d" using ch(2) d(1) by simp
      then show ?thesis using d(2) by blast
    qed
  qed
qed

text \<open>C4: clients create and remove branches and commit to them at the same time, in every interleaving of their
  accesses to the journal and to the commit files; new branches start at a commit of some branch, and IDs of
  commits are not used twice.  The object that is stored under each new tip names the tip that it
  replaced as its parent, and every tip has a chain of stored objects to the root.  No commit is lost: until the branch
  is removed, the chain of a tip ends in the chain of every tip that the branch had before.\<close>

theorem branch_history_linear:
  assumes "breach b" "journal b (2 ^ 64 - 1) = None"
  shows "\<exists>n. dom (journal b) = {1..n} \<and>
    (\<forall>i k c. journal b (Suc i) = Some [Update k c] \<longrightarrow>
      (\<exists>old acts ob. stateAt (journal b) i k = Some old \<and> bs_files b (bc_Commit c) = Some acts \<and> DecodeObject acts = Ok ob \<and>
        co_Commit ob = bc_Commit c \<and> co_Parent ob = bc_Commit old)) \<and>
    (\<forall>i j k c. i \<le> j \<and> j \<le> n \<and> stateAt (journal b) i k = Some c \<and> (\<forall>l \<in> {i<..j}. journal b l \<noteq> Some [Delete k]) \<longrightarrow>
      (\<exists>d xs os. stateAt (journal b) j k = Some d \<and> chain (bs_files b) (bc_Commit c) os \<and> chain (bs_files b) (bc_Commit d) (xs @ os)))"
proof -
  obtain n h K where inv: "jinv noMove n h (bs_sys b)" "filesInv (bs_files b) K" "logInv (journal b) (bs_files b) K"
    by (rule binvE [OF breach_binv [OF assms]])
  have d: "dom (journal b) = {1..n}" and v: "validLog noMove (journal b) n" using inv(1) by (simp_all add: jinv_def filesOK_def)
  have upd: "\<exists>old acts ob. stateAt (journal b) i k = Some old \<and> bs_files b (bc_Commit c) = Some acts \<and> DecodeObject acts = Ok ob \<and>
      co_Commit ob = bc_Commit c \<and> co_Parent ob = bc_Commit old" if "journal b (Suc i) = Some [Update k c]" for i k c
    using that inv(3) DecodeObject_wellMade unfolding logInv_def by meson
  have ext: "\<exists>d xs os. stateAt (journal b) j k = Some d \<and> chain (bs_files b) (bc_Commit c) os \<and> chain (bs_files b) (bc_Commit d) (xs @ os)"
    if a: "i \<le> j" "j \<le> n" "stateAt (journal b) i k = Some c" "\<forall>l \<in> {i<..j}. journal b l \<noteq> Some [Delete k]" for i j k c
  proof -
    have "seen (journal b) k c" using stateAt_seen [OF d _ a(3)] a(1,2) by simp
    then have "bc_Commit c \<in> insert 0 K" using inv(3) unfolding logInv_def by blast
    then obtain os where os: "chain (bs_files b) (bc_Commit c) os" using filesInv_chain [OF inv(2)] by blast
    from history_extends [OF v inv(3,2) a(3) os a(2,1,4)] os show ?thesis by blast
  qed
  show ?thesis
  proof (intro exI [of _ n] conjI allI impI)
    show "dom (journal b) = {1..n}" by (rule d)
  qed (use upd ext in blast)+
qed

text \<open>Two clients that commit to the same tip: the second one finds that it has moved, and removes its object.\<close>

abbreviation root :: config where
  "root \<equiv> \<lparr>bc_Ts = 0, bc_Name = ''main'', bc_Commit = 0\<rparr>"

definition addTo :: "ksuid \<Rightarrow> cobject" where
  "addTo new = NewAddsObject new 0 0 0 [] [] znull [dob 11]"

definition moveEvents :: "nat \<Rightarrow> config event list" where
  "moveEvents p = change p (tipUpdate root (addTo (p + 1)))"

definition loadEvents :: "nat \<Rightarrow> config event list" where
  "loadEvents p = [S p Read, R p, R p, R p, R p]"

definition race :: "nat \<Rightarrow> config sys" where
  "race n = exec (concat (take n [change 0 (InsertC ''main'' root), loadEvents 1, loadEvents 2, moveEvents 1, moveEvents 2])) init"

lemma exec_append: "exec (xs @ ys) y = exec ys (exec xs y)"
  by (induction xs y rule: exec.induct) (simp_all split: phase.split)

lemma breach_exec: "breach b \<Longrightarrow> \<forall>ev \<in> set evs. \<exists>p. ev = R p \<Longrightarrow> breach (b\<lparr>bs_sys := exec evs (bs_sys b)\<rparr>)"
proof (induction evs arbitrary: b)
  case (Cons ev evs)
  then obtain p where p: "ev = R p" by auto
  from Cons.IH [OF breach.Run [OF Cons.prems(1) permutes_id, of 0 p p]] Cons.prems(2) p show ?case by simp
qed simp

lemmas race_eval = race_def moveEvents_def loadEvents_def tipUpdate_def addTo_def NewAddsObject_ids eval withConstraint_def ErrConstraint_def

lemma race_facts:
  "sy_phase (race 1) 1 = Done (Ok ())" 
  "sy_phase (race 2) 1 = Done (Ok ())" "rd (js_table (sy_store (race 2) 1)) ''main'' = Some root" "sy_phase (race 2) 2 = Done (Ok ())"
  "sy_phase (race 3) 2 = Done (Ok ())" "rd (js_table (sy_store (race 3) 2)) ''main'' = Some root" "sy_phase (race 3) 1 = Done (Ok ())"
  "sy_phase (race 4) 1 = Done (Ok ())" "sy_phase (race 4) 2 = Done (Ok ())"
  "sy_phase (race 5) 2 = Done (Err ErrConstraint)"
  "entryFile (sy_files (race 5)) = [1 \<mapsto> [Add ''main'' root], Suc (Suc 0) \<mapsto> [Update ''main'' (root\<lparr>bc_Commit := Suc (Suc 0)\<rparr>)]]"
  by (simp_all add: race_eval)

lemma race_steps:
  "race 1 = exec (change 0 (InsertC ''main'' root)) init" "race 2 = exec (loadEvents 1) (race 1)" "race 3 = exec (loadEvents 2) (race 2)"
  "race 4 = exec (moveEvents 1) (race 3)" "race 5 = exec (moveEvents 2) (race 4)"
  by (simp_all add: race_def exec_append)

text \<open>A task that is started and run.\<close>

lemma breach_task:
  assumes "breach \<lparr>bs_sys = start p task y, bs_files = f, bs_client = cl\<rparr>" "sy_phase y p = Done r" "\<forall>ev \<in> set evs. \<exists>q. ev = R q"
  shows "breach \<lparr>bs_sys = exec (S p task # evs) y, bs_files = f, bs_client = cl\<rparr>"
  using breach_exec [OF assms(1,3)] assms(2) by simp

definition made :: "ksuid \<Rightarrow> penv" where
  "made new = wenv\<lparr>p_new := (\<lambda>_. new)\<rparr>"

lemma breach_make:
  assumes b: "breach b" "bs_client b p = Found root" and new: "bs_files b new = None" "new \<noteq> 0"
  shows "breach (b\<lparr>bs_files := (bs_files b)(new \<mapsto> co_Actions (addTo new)), bs_client := (bs_client b)(p := Placed root (addTo new))\<rparr>)"
proof -
  let ?cs = "oneFile\<lparr>cs_files := bs_files b\<rparr>"
  have id: "co_Commit (addTo new) = new" by (simp add: addTo_def)
  have "wellMade (addTo new)" by (simp add: addTo_def wellMade_NewAddsObject)
  then have put: "Put (addTo new) (oneFile\<lparr>cs_files := bs_files b\<rparr>) = (Ok (), ?cs\<lparr>cs_files := (bs_files b)(new \<mapsto> co_Actions (addTo new))\<rparr>)"
    by (auto simp: Put_def Object_Serialize_def wellMade_def id)
  have "load_create (made new) [] znull [dob 11] root 0 [] oneFile = Some (Ok (addTo new), [], oneFile)"
    by (simp add: load_create_def addTo_def made_def wenv_def)
  from breach.Make [OF b branchOp.intros(1) this _ _ put] new id show ?thesis by simp
qed

definition raced :: bsys where
  "raced = \<lparr>bs_sys = race 5, bs_files = [2 \<mapsto> co_Actions (addTo 2)], bs_client = (\<lambda>_. Idle)\<rparr>"

lemma breach_raced: "breach raced"
proof -
  let ?b = "\<lambda>n f cl. \<lparr>bs_sys = race n, bs_files = f, bs_client = cl\<rparr>" and ?f2 = "[2 \<mapsto> co_Actions (addTo 2)]"
  let ?f3 = "[2 \<mapsto> co_Actions (addTo 2), 3 \<mapsto> co_Actions (addTo 3)]"
  have run: "breach (?b n' f cl)" if "breach \<lparr>bs_sys = start p task (race n), bs_files = f, bs_client = cl\<rparr>" "sy_phase (race n) p = Done r"
      "race n' = exec (S p task # replicate k (R p)) (race n)" for n n' f cl p task r k
    unfolding that(3) by (rule breach_task [OF that(1,2)]) simp
  have ev: "loadEvents p = S p Read # replicate 4 (R p)" "change p ch = S p (Change ch maxRetries) # replicate 8 (R p)" for p ch
    by (simp_all add: loadEvents_def change_def eval_nat_numeral)
  have "sy_phase init 0 = Done (Ok ())" by (simp add: init_def)
  from breach_task [OF breach.Create [OF breach.Init, of 0 "Ok ()" 0 "''main''" 0, simplified] this, of "replicate 8 (R 0)"] this
  have 1: "breach (?b 1 Map.empty (\<lambda>_. Idle))" unfolding race_steps(1) ev by (simp add: inBranch_def NewConfig_def del: exec.simps)
  have 2: "breach (?b 2 Map.empty (\<lambda>_. Idle))"
    by (rule run [OF _ race_facts(1) race_steps(2) [unfolded ev]]) (use breach.Load [OF 1, of 1] race_facts(1) in simp)
  have "root \<in> ran (rd (js_table (sy_store (race 2) 1)))" using race_facts(3) by (rule ranI)
  from breach.Find [OF 2, of 1 root 1] this race_facts(2) have 3: "breach (?b 2 Map.empty ((\<lambda>_. Idle)(1 := Found root)))" by simp
  have 4: "breach (?b 3 Map.empty ((\<lambda>_. Idle)(1 := Found root)))"
    by (rule run [OF _ race_facts(4) race_steps(3) [unfolded ev]]) (use breach.Load [OF 3, of 2] race_facts(4) in simp)
  have "root \<in> ran (rd (js_table (sy_store (race 3) 2)))" using race_facts(6) by (rule ranI)
  from breach.Find [OF 4, of 2 root 2] this race_facts(5) have 5: "breach (?b 3 Map.empty ((\<lambda>_. Idle)(1 := Found root, 2 := Found root)))" by simp
  from breach_make [OF 5, of 1 2] have 6: "breach (?b 3 ?f2 ((\<lambda>_. Idle)(1 := Placed root (addTo 2), 2 := Found root)))" by (simp add: fun_upd_twist)
  from breach_make [OF 6, of 2 3] have 7: "breach (?b 3 ?f3 ((\<lambda>_. Idle)(1 := Placed root (addTo 2), 2 := Placed root (addTo 3))))" by simp
  have 8: "breach (?b 4 ?f3 ((\<lambda>_. Idle)(1 := Moving (addTo 2), 2 := Placed root (addTo 3))))"
    by (rule run [OF _ race_facts(7) race_steps(4) [unfolded moveEvents_def ev]])
      (use breach.Move [OF 7, of 1] race_facts(7) in \<open>simp add: fun_upd_twist numeral_2_eq_2 [symmetric] del: One_nat_def\<close>)
  from breach.Moved [OF 8, of 1] race_facts(8) have 9: "breach (?b 4 ?f3 ((\<lambda>_. Idle)(2 := Placed root (addTo 3))))" by (simp add: fun_upd_twist fun_upd_idem)
  have 10: "breach (?b 5 ?f3 ((\<lambda>_. Idle)(2 := Moving (addTo 3))))"
    by (rule run [OF _ race_facts(9) race_steps(5) [unfolded moveEvents_def ev]])
      (use breach.Move [OF 9, of 2] race_facts(9) in simp)
  have "Remove (addTo 3) (oneFile\<lparr>cs_files := ?f3\<rparr>) = (Ok (), oneFile\<lparr>cs_files := ?f2\<rparr>)"
    by (simp add: Remove_def addTo_def fun_upd_twist)
  then show ?thesis using breach.Failed [OF 10, of 2 "addTo 3" ErrConstraint oneFile "Ok ()" "oneFile\<lparr>cs_files := ?f2\<rparr>"] race_facts(10)
    unfolding raced_def by (simp add: fun_upd_idem)
qed

theorem branch_history_linear_witness:
  "breach raced \<and> (\<exists>old acts ob. stateAt (journal raced) 1 ''main'' = Some old \<and> bs_files raced 2 = Some acts \<and> DecodeObject acts = Ok ob \<and>
     co_Commit ob = 2 \<and> co_Parent ob = bc_Commit old)"
proof -
  have e: "journal raced = [1 \<mapsto> [Add ''main'' root], Suc (Suc 0) \<mapsto> [Update ''main'' (root\<lparr>bc_Commit := Suc (Suc 0)\<rparr>)]]"
    using race_facts(11) by (simp add: raced_def)
  have "journal raced (2 ^ 64 - 1) = None" unfolding e by simp
  from branch_history_linear [OF breach_raced this]
  have "\<forall>i k c. journal raced (Suc i) = Some [Update k c] \<longrightarrow>
      (\<exists>old acts ob. stateAt (journal raced) i k = Some old \<and> bs_files raced (bc_Commit c) = Some acts \<and> DecodeObject acts = Ok ob \<and>
        co_Commit ob = bc_Commit c \<and> co_Parent ob = bc_Commit old)" by blast
  from this [rule_format, of 1 "''main''" "root\<lparr>bc_Commit := Suc (Suc 0)\<rparr>"] breach_raced show ?thesis
    by (simp add: e numeral_2_eq_2 del: stateAt.simps)
qed

end
