(* ===== verification/Puller.thy ===== *)
theory Puller
  imports Context
begin

text \<open>
  The pull protocol of the query runtime (\<open>zbuf/batch.go\<close>, \<open>zbuf/array.go\<close>,
  \<open>zio/peeker.go\<close>, \<open>runtime/sam/op/catcher.go\<close>): batches of values, the \<open>Puller\<close> that makes
  batches of a reader, the reader that makes a value stream of a puller, and the peeker.

  An object behind the interface \<open>zbuf.Puller\<close> is a state and a function
  \<open>pull done s\<close>.  The function gives the pair that the Go method returns (a nil batch and a
  nil error, which is end of stream, are \<open>Ok None\<close>) with the state after the call, and
  \<open>None\<close> when the call does not return.  A \<open>zio.Reader\<close> is modelled in the same way.  The
  values of a batch are kept, and the variables in scope; reference counts, which only decide
  when memory is reused, are not.  \<open>Value.Copy\<close> is the identity.
\<close>

section \<open>Batches\<close>

record 'v batch =
  bvals :: "'v list"
  bvars :: "'v list"

definition NewArray :: "'v list \<Rightarrow> 'v batch" where
  "NewArray vals = \<lparr>bvals = vals, bvars = []\<rparr>"

definition CopyVars :: "'v batch \<Rightarrow> 'v list" where
  "CopyVars b = (let vars = bvars b in if 0 < length vars then map (\<lambda>v. v) vars else vars)"

definition NewBatch :: "'v batch \<Rightarrow> 'v list \<Rightarrow> 'v batch" where
  "NewBatch b vals = \<lparr>bvals = bvals (NewArray vals), bvars = CopyVars b\<rparr>"

text \<open>All the values of a sequence of batches.\<close>

definition valuesOf :: "'v batch list \<Rightarrow> 'v list" where
  "valuesOf bs = concat (map bvals bs)"

type_synonym ('v, 's) pull = "bool \<Rightarrow> 's \<Rightarrow> ('v batch option go \<times> 's) option"
type_synonym ('v, 'r) reader = "'r \<Rightarrow> ('v option go \<times> 'r) option"

text \<open>\<open>Array.Append\<close>, \<open>Array.Write\<close> and \<open>Array.Read\<close>: an array is a batch that can be read.\<close>

definition Array_Append :: "'v batch \<Rightarrow> 'v \<Rightarrow> 'v batch" where
  "Array_Append a r = a\<lparr>bvals := bvals a @ [r]\<rparr>"

definition Array_Write :: "'v batch \<Rightarrow> 'v \<Rightarrow> goerror option \<times> 'v batch" where
  "Array_Write a r = (None, Array_Append a r)"

definition Array_Read :: "('v, 'v batch) reader" where
  "Array_Read a =
     (if 0 < length (bvals a)
      then Some (Ok (Some (hd (bvals a))), a\<lparr>bvals := tl (bvals a)\<rparr>)
      else Some (Ok None, a))"

section \<open>A puller over a reader\<close>

definition PullerBatchBytes :: nat where
  "PullerBatchBytes = 512 * 1024"

record pullerBatch =
  pb_buf :: bytes
  pb_vals :: "zvalue list"
  pb_cap :: nat

text \<open>
  \<open>PullerBatchValues\<close> is a variable (100, or 1 when the output is line buffered), so the
  capacity of the values slice is a parameter.
\<close>

definition newPullerBatch :: "nat \<Rightarrow> pullerBatch" where
  "newPullerBatch PullerBatchValues = \<lparr>pb_buf = [], pb_vals = [], pb_cap = PullerBatchValues\<rparr>"

definition appendVal :: "pullerBatch \<Rightarrow> zvalue \<Rightarrow> pullerBatch \<times> bool" where
  "appendVal b val =
     (let (buf', bytes', bufFull) =
        (case snd val of
           None \<Rightarrow> (pb_buf b, None, False)
         | Some bs \<Rightarrow>
             (let avail = PullerBatchBytes - length (pb_buf b) in
              if length bs \<le> avail
              then (pb_buf b @ bs, Some (drop (length (pb_buf b)) (pb_buf b @ bs)), avail = length bs)
              else (pb_buf b, Some bs, True)));
        b' = b\<lparr>pb_buf := buf', pb_vals := pb_vals b @ [(fst val, bytes')]\<rparr>
      in (b', bufFull \<or> length (pb_vals b') = pb_cap b))"

record 'r zpuller =
  zr :: "'r option"

definition NewPuller :: "'r \<Rightarrow> 'r zpuller" where
  "NewPuller r = \<lparr>zr = Some r\<rparr>"

text \<open>The loop of \<open>puller.Pull\<close>.\<close>

partial_function (option) puller_fill ::
  "(zvalue, 'r) reader \<Rightarrow> 'r \<Rightarrow> pullerBatch \<Rightarrow> (zvalue batch option go \<times> 'r zpuller) option" where
  "puller_fill read r b =
     (case read r of
        None \<Rightarrow> None
      | Some (Err e, r') \<Rightarrow> Some (Err e, \<lparr>zr = Some r'\<rparr>)
      | Some (Panic, r') \<Rightarrow> Some (Panic, \<lparr>zr = Some r'\<rparr>)
      | Some (Ok None, r') \<Rightarrow>
          Some (Ok (if length (pb_vals b) = 0 then None else Some (NewArray (pb_vals b))), \<lparr>zr = None\<rparr>)
      | Some (Ok (Some val), r') \<Rightarrow>
          (let (b', full) = appendVal b val in
           if full then Some (Ok (Some (NewArray (pb_vals b'))), \<lparr>zr = Some r'\<rparr>)
           else puller_fill read r' b'))"

definition Puller_Pull :: "nat \<Rightarrow> (zvalue, 'r) reader \<Rightarrow> (zvalue, 'r zpuller) pull" where
  "Puller_Pull PullerBatchValues read done p =
     (let p = (if done then \<lparr>zr = None\<rparr> else p) in
      case zr p of
        None \<Rightarrow> Some (Ok None, p)
      | Some r \<Rightarrow> puller_fill read r (newPullerBatch PullerBatchValues))"

section \<open>A reader over a puller\<close>

record ('v, 's) pullerReader =
  pr_p :: 's
  pr_vals :: "'v list"

definition PullerReader :: "'s \<Rightarrow> ('v, 's) pullerReader" where
  "PullerReader p = \<lparr>pr_p = p, pr_vals = []\<rparr>"

partial_function (option) PullerReader_Read ::
  "('v, 's) pull \<Rightarrow> ('v, 's) pullerReader \<Rightarrow> ('v option go \<times> ('v, 's) pullerReader) option" where
  "PullerReader_Read pull r =
     (case pr_vals r of
        v # vs \<Rightarrow> Some (Ok (Some v), r\<lparr>pr_vals := vs\<rparr>)
      | [] \<Rightarrow>
          (case pull False (pr_p r) of
             None \<Rightarrow> None
           | Some (Err e, p) \<Rightarrow> Some (Err e, r\<lparr>pr_p := p\<rparr>)
           | Some (Panic, p) \<Rightarrow> Some (Panic, r\<lparr>pr_p := p\<rparr>)
           | Some (Ok None, p) \<Rightarrow> Some (Ok None, r\<lparr>pr_p := p\<rparr>)
           | Some (Ok (Some b), p) \<Rightarrow> PullerReader_Read pull (r\<lparr>pr_p := p, pr_vals := bvals b\<rparr>)))"

text \<open>
  \<open>WriteBatch\<close> and \<open>CopyPuller\<close>, over a \<open>zio.Writer\<close> whose \<open>Write\<close> gives an error or nil and
  the writer after the call.
\<close>

fun WriteBatch :: "('w \<Rightarrow> 'v \<Rightarrow> goerror option \<times> 'w) \<Rightarrow> 'w \<Rightarrow> 'v list \<Rightarrow> goerror option \<times> 'w" where
  "WriteBatch wr w [] = (None, w)"
| "WriteBatch wr w (v # vals) =
     (case wr w v of (Some e, w') \<Rightarrow> (Some e, w') | (None, w') \<Rightarrow> WriteBatch wr w' vals)"

partial_function (option) CopyPuller ::
  "('w \<Rightarrow> 'v \<Rightarrow> goerror option \<times> 'w) \<Rightarrow> ('v, 's) pull \<Rightarrow> 'w \<Rightarrow> 's \<Rightarrow> (unit go \<times> 'w \<times> 's) option" where
  "CopyPuller wr pull w p =
     (case pull False p of
        None \<Rightarrow> None
      | Some (Err e, p') \<Rightarrow> Some (Err e, w, p')
      | Some (Panic, p') \<Rightarrow> Some (Panic, w, p')
      | Some (Ok None, p') \<Rightarrow> Some (Ok (), w, p')
      | Some (Ok (Some b), p') \<Rightarrow>
          (case WriteBatch wr w (bvals b) of
             (Some e, w') \<Rightarrow> Some (Err e, w', p')
           | (None, w') \<Rightarrow> CopyPuller wr pull w' p'))"

section \<open>Peeker and catcher\<close>

record ('v, 'r) peeker =
  pk_Reader :: 'r
  pk_cache :: "'v option"

definition NewPeeker :: "'r \<Rightarrow> ('v, 'r) peeker" where
  "NewPeeker r = \<lparr>pk_Reader = r, pk_cache = None\<rparr>"

definition Peeker_Peek :: "('v, 'r) reader \<Rightarrow> ('v, ('v, 'r) peeker) reader" where
  "Peeker_Peek read p =
     (case pk_cache p of
        Some v \<Rightarrow> Some (Ok (Some v), p)
      | None \<Rightarrow>
          (case read (pk_Reader p) of
             None \<Rightarrow> None
           | Some (Ok v, r) \<Rightarrow> Some (Ok v, p\<lparr>pk_Reader := r, pk_cache := v\<rparr>)
           | Some (Err e, r) \<Rightarrow> Some (Err e, p\<lparr>pk_Reader := r\<rparr>)
           | Some (Panic, r) \<Rightarrow> Some (Panic, p\<lparr>pk_Reader := r\<rparr>)))"

definition Peeker_Read :: "('v, 'r) reader \<Rightarrow> ('v, ('v, 'r) peeker) reader" where
  "Peeker_Read read p =
     (case pk_cache p of
        Some v \<Rightarrow> Some (Ok (Some v), p\<lparr>pk_cache := None\<rparr>)
      | None \<Rightarrow>
          (case read (pk_Reader p) of
             None \<Rightarrow> None
           | Some (x, r) \<Rightarrow> Some (x, p\<lparr>pk_Reader := r\<rparr>)))"

text \<open>\<open>Catcher.Pull\<close> turns a panic of its parent into an error.\<close>

definition ErrPanic :: goerror where
  "ErrPanic = Errorf ''panic: %+v''"

definition Catcher_Pull :: "('v, 's) pull \<Rightarrow> ('v, 's) pull" where
  "Catcher_Pull pull done s =
     (case pull done s of
        None \<Rightarrow> None
      | Some (Panic, s') \<Rightarrow> Some (Err ErrPanic, s')
      | Some (Ok b, s') \<Rightarrow> Some (Ok b, s')
      | Some (Err e, s') \<Rightarrow> Some (Err e, s'))"

declare puller_fill.simps [code] PullerReader_Read.simps [code] CopyPuller.simps [code]

section \<open>Streams\<close>

text \<open>
  \<open>stream pull s bs res s'\<close>: pulled from \<open>s\<close> without a done, the puller returns the batches
  \<open>bs\<close> and then end of stream (\<open>res = None\<close>) or the error \<open>res = Some e\<close>, and is then in \<open>s'\<close>.
  \<open>reads\<close> says the same of a reader.
\<close>

inductive stream :: "('v, 's) pull \<Rightarrow> 's \<Rightarrow> 'v batch list \<Rightarrow> goerror option \<Rightarrow> 's \<Rightarrow> bool"
  for pull where
  stream_eos: "pull False s = Some (Ok None, s') \<Longrightarrow> stream pull s [] None s'"
| stream_err: "pull False s = Some (Err e, s') \<Longrightarrow> stream pull s [] (Some e) s'"
| stream_batch: "pull False s = Some (Ok (Some b), s1) \<Longrightarrow> stream pull s1 bs res s' \<Longrightarrow>
    stream pull s (b # bs) res s'"

inductive reads :: "('v, 'r) reader \<Rightarrow> 'r \<Rightarrow> 'v list \<Rightarrow> goerror option \<Rightarrow> 'r \<Rightarrow> bool"
  for read where
  reads_eos: "read r = Some (Ok None, r') \<Longrightarrow> reads read r [] None r'"
| reads_err: "read r = Some (Err e, r') \<Longrightarrow> reads read r [] (Some e) r'"
| reads_val: "read r = Some (Ok (Some v), r1) \<Longrightarrow> reads read r1 vs res r' \<Longrightarrow>
    reads read r (v # vs) res r'"

text \<open>\<open>pulls pull s bs s'\<close>: the next calls return the batches \<open>bs\<close>; the stream may go on.\<close>

inductive pulls :: "('v, 's) pull \<Rightarrow> 's \<Rightarrow> 'v batch list \<Rightarrow> 's \<Rightarrow> bool" for pull where
  pulls_none: "pulls pull s [] s"
| pulls_batch: "pull False s = Some (Ok (Some b), s1) \<Longrightarrow> pulls pull s1 bs s' \<Longrightarrow> pulls pull s (b # bs) s'"

inductive_cases stream_NilE: "stream pull s [] res s'"
inductive_cases stream_ConsE: "stream pull s (b # bs) res s'"
inductive_cases reads_NilE: "reads read r [] res r'"
inductive_cases reads_ConsE: "reads read r (v # vs) res r'"

lemma valuesOf_simps [simp]:
  "valuesOf [] = []" "valuesOf (b # bs) = bvals b @ valuesOf bs" "valuesOf (bs @ cs) = valuesOf bs @ valuesOf cs"
  by (simp_all add: valuesOf_def)

lemma NewBatch_simps [simp]: "bvals (NewBatch b vals) = vals" "bvars (NewBatch b vals) = bvars b"
  by (simp_all add: NewBatch_def NewArray_def CopyVars_def Let_def)

lemma NewArray_simps [simp]: "bvals (NewArray vals) = vals" "bvars (NewArray vals) = []"
  by (simp_all add: NewArray_def)

text \<open>
  The stream of a puller whose next call has the outcome \<open>x\<close>; operators are reasoned about
  through the outcome of one call.
\<close>

definition resume :: "('v, 's) pull \<Rightarrow> ('v batch option go \<times> 's) option \<Rightarrow> 'v batch list \<Rightarrow> goerror option \<Rightarrow> 's \<Rightarrow> bool" where
  "resume pull x bs res s' \<longleftrightarrow>
     (case bs of
        [] \<Rightarrow> x = Some (case res of None \<Rightarrow> Ok None | Some e \<Rightarrow> Err e, s')
      | b # bs' \<Rightarrow> (\<exists>s1. x = Some (Ok (Some b), s1) \<and> stream pull s1 bs' res s'))"

lemma stream_resume: "stream pull s bs res s' \<longleftrightarrow> resume pull (pull False s) bs res s'"
  by (cases bs; cases res)
    (auto simp: resume_def elim: stream_NilE stream_ConsE intro: stream.intros)

lemma resume_simps [simp]:
  "resume pull (Some (Ok None, s)) bs res s' \<longleftrightarrow> bs = [] \<and> res = None \<and> s' = s"
  "resume pull (Some (Err e, s)) bs res s' \<longleftrightarrow> bs = [] \<and> res = Some e \<and> s' = s"
  "resume pull (Some (Ok (Some b), s)) (b' # bs) res s' \<longleftrightarrow> b' = b \<and> stream pull s bs res s'"
  by (auto simp: resume_def split: list.splits option.splits)

lemma pulls_stream: "pulls pull s bs s1 \<Longrightarrow> stream pull s1 cs res s' \<Longrightarrow> stream pull s (bs @ cs) res s'"
  by (induction rule: pulls.induct) (auto intro: stream.intros)

lemma pulls_cong:
  assumes "pull False s = pull False s1" "pulls pull s1 bs s'" "bs \<noteq> []"
  shows "pulls pull s bs s'"
  using assms(2,3) by (cases rule: pulls.cases) (auto simp: assms(1) intro: pulls.intros)

text \<open>A stream is a function of the puller: the batches, the result and the last state are unique.\<close>

lemma stream_unique:
  "stream pull s bs res s' \<Longrightarrow> stream pull s bs' res' s'' \<Longrightarrow> bs' = bs \<and> res' = res \<and> s'' = s'"
proof (induction arbitrary: bs' rule: stream.induct)
  case (stream_eos s s') then show ?case by (cases bs') (auto elim: stream_NilE stream_ConsE)
next
  case (stream_err s e s') then show ?case by (cases bs') (auto elim: stream_NilE stream_ConsE)
next
  case (stream_batch s b s1 bs res s') then show ?case by (cases bs') (auto elim!: stream_NilE stream_ConsE)
qed

lemma reads_unique:
  "reads read r vs res r' \<Longrightarrow> reads read r vs' res' r'' \<Longrightarrow> vs' = vs \<and> res' = res \<and> r'' = r'"
proof (induction arbitrary: vs' rule: reads.induct)
  case (reads_eos s s') then show ?case by (cases vs') (auto elim: reads_NilE reads_ConsE)
next
  case (reads_err s e s') then show ?case by (cases vs') (auto elim: reads_NilE reads_ConsE)
next
  case (reads_val s b s1 bs res s') then show ?case by (cases vs') (auto elim!: reads_NilE reads_ConsE)
qed

end
