(* ===== verification/PullerLaws.thy ===== *)
theory PullerLaws
  imports Puller
begin

text \<open>
  What the pull protocol promises, as the locale \<open>puller\<close>, and the facts on the pullers and
  readers of \<open>zbuf\<close>: a puller over a reader delivers the values of the reader in order in
  batches of bounded size, a reader over a puller gives the values of its batches.
\<close>

section \<open>The protocol\<close>

text \<open>
  An implementation must return end of stream in response to a done; it never panics.  The
  invariant names the states in which the promise holds.
\<close>

locale puller =
  fixes pull :: "('v, 's) pull" and inv :: "'s \<Rightarrow> bool"
  assumes done_eos: "inv s \<Longrightarrow> \<exists>s'. pull True s = Some (Ok None, s') \<and> inv s'"
    and pull_inv: "inv s \<Longrightarrow> pull False s = Some (r, s') \<Longrightarrow> inv s' \<and> r \<noteq> Panic"
begin

lemma stream_inv: "stream pull s bs res s' \<Longrightarrow> inv s \<Longrightarrow> inv s'"
  by (induction rule: stream.induct) (auto dest: pull_inv)

lemma done_cases:
  assumes "inv s"
  obtains s' where "pull True s = Some (Ok None, s')" "inv s'"
  using done_eos [OF assms] by blast

text \<open>A catcher has nothing to catch and is such a puller itself.\<close>

lemma Catcher_Pull_same: "inv s \<Longrightarrow> Catcher_Pull pull done s = pull done s"
  by (cases "done"; cases "pull done s")
    (auto simp: Catcher_Pull_def split: option.splits prod.splits result.splits dest: pull_inv elim: done_cases)

end

section \<open>The puller over a reader\<close>

definition sizeOf :: "zvalue list \<Rightarrow> nat" where
  "sizeOf vs = sum_list (map (\<lambda>v. length (buf (snd v))) vs)"

definition pbOK :: "nat \<Rightarrow> pullerBatch \<Rightarrow> bool" where
  "pbOK n b \<longleftrightarrow> pb_cap b = n \<and> length (pb_vals b) < n \<and> sizeOf (pb_vals b) = length (pb_buf b) \<and>
     length (pb_buf b) \<le> PullerBatchBytes"

text \<open>A batch has between one and \<open>n\<close> values, and all but its last fit into the buffer.\<close>

definition batchOK :: "nat \<Rightarrow> zvalue batch \<Rightarrow> bool" where
  "batchOK n b \<longleftrightarrow> 0 < length (bvals b) \<and> length (bvals b) \<le> n \<and> sizeOf (butlast (bvals b)) \<le> PullerBatchBytes"

lemma sizeOf_simps [simp]:
  "sizeOf [] = 0" "sizeOf (v # vs) = length (buf (snd v)) + sizeOf vs" "sizeOf (vs @ ws) = sizeOf vs + sizeOf ws"
  by (simp_all add: sizeOf_def)

lemma pbOK_new [simp]: "0 < n \<Longrightarrow> pbOK n (newPullerBatch n)"
  by (simp add: pbOK_def newPullerBatch_def)

lemma appendVal_vals: "appendVal b v = (b', full) \<Longrightarrow> pb_vals b' = pb_vals b @ [v]"
  by (cases v) (auto simp: appendVal_def Let_def split: option.splits if_splits)

lemma appendVal_not_full: "pbOK n b \<Longrightarrow> appendVal b v = (b', False) \<Longrightarrow> pbOK n b'"
  by (cases v) (auto simp: appendVal_def pbOK_def Let_def split: option.splits if_splits)

lemma appendVal_full: "pbOK n b \<Longrightarrow> appendVal b v = (b', full) \<Longrightarrow> batchOK n (NewArray (pb_vals b'))"
  by (auto simp: batchOK_def pbOK_def dest!: appendVal_vals)

lemma Puller_Pull_some: "Puller_Pull n read False \<lparr>zr = Some r\<rparr> = puller_fill read r (newPullerBatch n)"
  by (simp add: Puller_Pull_def)

lemma Puller_Pull_none: "Puller_Pull n read d \<lparr>zr = None\<rparr> = Some (Ok None, \<lparr>zr = None\<rparr>)"
  by (simp add: Puller_Pull_def)

lemma puller_fill_reads:
  assumes "reads read r vs res r'" and "0 < n" and "pbOK n b"
  shows "\<exists>p bs lost. resume (Puller_Pull n read) (puller_fill read r b) bs res p
         \<and> valuesOf bs @ lost = pb_vals b @ vs \<and> list_all (batchOK n) bs
         \<and> length lost < n \<and> (case res of None \<Rightarrow> lost = [] \<and> p = \<lparr>zr = None\<rparr> | Some e \<Rightarrow> p = \<lparr>zr = Some r'\<rparr>)"
  using assms(1,3)
proof (induction arbitrary: b rule: reads.induct)
  case (reads_eos r r')
  show ?case
  proof (cases "pb_vals b = []")
    case True
    then show ?thesis using reads_eos \<open>0 < n\<close>
      by (intro exI [of _ "\<lparr>zr = None\<rparr>"] exI [of _ "[]"]) (simp add: puller_fill.simps [of read r])
  next
    case False
    then have "batchOK n (NewArray (pb_vals b))"
      using reads_eos(2) by (cases "pb_vals b" rule: rev_cases) (auto simp: batchOK_def pbOK_def)
    then show ?thesis using reads_eos(1) False \<open>0 < n\<close>
      by (intro exI [of _ "\<lparr>zr = None\<rparr>"] exI [of _ "[NewArray (pb_vals b)]"])
        (auto simp: puller_fill.simps [of read r] Puller_Pull_none intro: stream_eos)
  qed
next
  case (reads_err r e r')
  then show ?case
    by (intro exI [of _ "\<lparr>zr = Some r'\<rparr>"] exI [of _ "[]"] exI [of _ "pb_vals b"])
      (simp add: puller_fill.simps [of read r] pbOK_def)
next
  case (reads_val r v r1 vs res r')
  obtain b' full where a: "appendVal b v = (b', full)" by (cases "appendVal b v")
  have vals: "pb_vals b' = pb_vals b @ [v]" by (rule appendVal_vals [OF a])
  show ?case
  proof (cases full)
    case False
    then have "puller_fill read r b = puller_fill read r1 b'"
      using reads_val(1) a by (simp add: puller_fill.simps [of read r])
    moreover have "pbOK n b'" using appendVal_not_full [OF reads_val(4)] a False by simp
    ultimately show ?thesis using reads_val.IH [of b'] vals by simp
  next
    case True
    then have fill: "puller_fill read r b = Some (Ok (Some (NewArray (pb_vals b'))), \<lparr>zr = Some r1\<rparr>)"
      using reads_val(1) a by (simp add: puller_fill.simps [of read r])
    obtain p bs lost where
      "resume (Puller_Pull n read) (puller_fill read r1 (newPullerBatch n)) bs res p"
      and fin: "valuesOf bs @ lost = vs" "list_all (batchOK n) bs" "length lost < n"
        "case res of None \<Rightarrow> lost = [] \<and> p = \<lparr>zr = None\<rparr> | Some e \<Rightarrow> p = \<lparr>zr = Some r'\<rparr>"
      using reads_val.IH [OF pbOK_new [OF \<open>0 < n\<close>]] by (auto simp: newPullerBatch_def)
    then have "stream (Puller_Pull n read) \<lparr>zr = Some r1\<rparr> bs res p"
      by (simp add: stream_resume Puller_Pull_some)
    then show ?thesis
      using fill vals fin appendVal_full [OF reads_val(4) a]
      by (intro exI [of _ p] exI [of _ "NewArray (pb_vals b') # bs"] exI [of _ lost]) simp
  qed
qed

lemma NewPuller_stream:
  assumes "reads read r vs res r'" "0 < n"
  obtains bs lost p where "stream (Puller_Pull n read) (NewPuller r) bs res p" "valuesOf bs @ lost = vs"
    "list_all (batchOK n) bs" "length lost < n"
    "case res of None \<Rightarrow> lost = [] \<and> p = \<lparr>zr = None\<rparr> | Some e \<Rightarrow> p = \<lparr>zr = Some r'\<rparr>"
  using puller_fill_reads [OF assms pbOK_new [OF assms(2)]]
  by (auto simp: stream_resume NewPuller_def Puller_Pull_some newPullerBatch_def)

text \<open>Under a reader that does not panic the puller keeps the protocol.\<close>

definition noPanic :: "('v, 'r) reader \<Rightarrow> bool" where
  "noPanic read \<longleftrightarrow> (\<forall>r r'. read r \<noteq> Some (Panic, r'))"

lemma puller_fill_noPanic:
  assumes "noPanic read" and "puller_fill read r b = Some (x, p)"
  shows "x \<noteq> Panic"
proof -
  have "noPanic read \<longrightarrow> fst (x, p) \<noteq> Panic"
    by (rule puller_fill.raw_induct [where P = "\<lambda>read r b y. noPanic read \<longrightarrow> fst y \<noteq> Panic", OF _ assms(2)])
      (auto simp: noPanic_def Let_def split: option.splits prod.splits result.splits if_splits)
  then show ?thesis using assms(1) by simp
qed

section \<open>The reader over a puller\<close>

lemma PullerReader_vals:
  "reads (PullerReader_Read pull) \<lparr>pr_p = s, pr_vals = []\<rparr> vs res r \<Longrightarrow>
   reads (PullerReader_Read pull) \<lparr>pr_p = s, pr_vals = ws\<rparr> (ws @ vs) res r"
  by (induction ws) (auto simp: PullerReader_Read.simps [of pull] intro!: reads_val)

lemma PullerReader_skip:
  "pull False s = Some (Ok (Some b), s1) \<Longrightarrow>
   PullerReader_Read pull \<lparr>pr_p = s, pr_vals = []\<rparr> = PullerReader_Read pull \<lparr>pr_p = s1, pr_vals = bvals b\<rparr>"
  by (simp add: PullerReader_Read.simps [of pull "\<lparr>pr_p = s, pr_vals = []\<rparr>"])

lemma reads_cong:
  assumes "read r = read r1" "reads read r1 vs res r'"
  shows "reads read r vs res r'"
  using assms(2) by (cases rule: reads.cases) (auto simp: assms(1) intro: reads.intros)

lemma PullerReader_reads:
  "stream pull s bs res s' \<Longrightarrow> reads (PullerReader_Read pull) (PullerReader s) (valuesOf bs) res (PullerReader s')"
  unfolding PullerReader_def
proof (induction rule: stream.induct)
  case (stream_eos s s')
  then show ?case by (auto intro!: reads_eos simp: PullerReader_Read.simps [of pull])
next
  case (stream_err s e s')
  then show ?case by (auto intro!: reads_err simp: PullerReader_Read.simps [of pull])
next
  case (stream_batch s b s1 bs res s')
  show ?case
    using reads_cong [OF PullerReader_skip [of pull s b s1, OF stream_batch(1)]
        PullerReader_vals [OF stream_batch.IH, of "bvals b"]]
    by simp
qed

text \<open>Copying a stream writes its values in order and ends as the stream ends.\<close>

lemma WriteBatch_append: "WriteBatch wr w (xs @ ys) =
    (case WriteBatch wr w xs of (Some e, w') \<Rightarrow> (Some e, w') | (None, w') \<Rightarrow> WriteBatch wr w' ys)"
  by (induction xs arbitrary: w) (auto split: prod.splits option.splits)

lemma CopyPuller_stream:
  "stream pull s bs res s' \<Longrightarrow> WriteBatch wr w (valuesOf bs) = (None, w') \<Longrightarrow>
   CopyPuller wr pull w s = Some (case res of None \<Rightarrow> Ok () | Some e \<Rightarrow> Err e, w', s')"
proof (induction arbitrary: w rule: stream.induct)
  case (stream_batch s b s1 bs res s')
  then show ?case
    by (auto simp: CopyPuller.simps [of wr pull w s] WriteBatch_append split: prod.splits option.splits)
qed (simp_all add: CopyPuller.simps [of wr pull])

lemma WriteBatch_Array: "WriteBatch Array_Write a vs = (None, a\<lparr>bvals := bvals a @ vs\<rparr>)"
  by (induction vs arbitrary: a) (simp_all add: Array_Write_def Array_Append_def)

lemma Array_reads: "reads Array_Read (NewArray vs) vs None (NewArray [])"
  by (induction vs) (auto intro!: reads.intros simp: Array_Read_def NewArray_def)

lemma noPanic_Array: "noPanic Array_Read"
  by (simp add: noPanic_def Array_Read_def)

text \<open>The protocol of the puller over the array reader, the source of data that tests and \<open>over\<close> use.\<close>

lemma NewPuller_puller: "noPanic read \<Longrightarrow> puller (Puller_Pull n read) (\<lambda>p. True)"
  by unfold_locales (auto simp: Puller_Pull_def dest: puller_fill_noPanic split: option.splits)

interpretation zp: puller "Puller_Pull n (Array_Read :: (zvalue, zvalue batch) reader)" "\<lambda>p. True"
  by (rule NewPuller_puller) (rule noPanic_Array)

end
