(* ===== verification/HeadTail.thy ===== *)
theory HeadTail
  imports PullerLaws
begin

text \<open>
  The operators \<open>head\<close> and \<open>tail\<close> (\<open>runtime/sam/op/head/head.go\<close>,
  \<open>runtime/sam/op/tail/tail.go\<close>) over any parent that keeps the pull protocol.  \<open>head\<close> delivers
  the first values of its parent and stops the parent as soon as it has them; \<open>tail\<close> delivers
  the last ones.  Both end in their initial state, so that they can be restarted.
\<close>

section \<open>Head\<close>

record 's headOp =
  h_parent :: 's
  h_limit :: int
  h_count :: int

definition NewHead :: "'s \<Rightarrow> int \<Rightarrow> 's headOp" where
  "NewHead parent limit = \<lparr>h_parent = parent, h_limit = limit, h_count = 0\<rparr>"

text \<open>The part of \<open>Pull\<close> after the label \<open>again\<close>.\<close>

partial_function (option) head_again :: "('v, 's) pull \<Rightarrow> 's headOp \<Rightarrow> ('v batch option go \<times> 's headOp) option" where
  "head_again pull op =
     (case pull False (h_parent op) of
        None \<Rightarrow> None
      | Some (Err e, s) \<Rightarrow> Some (Err e, op\<lparr>h_parent := s, h_count := 0\<rparr>)
      | Some (Panic, s) \<Rightarrow> Some (Panic, op\<lparr>h_parent := s\<rparr>)
      | Some (Ok None, s) \<Rightarrow> Some (Ok None, op\<lparr>h_parent := s, h_count := 0\<rparr>)
      | Some (Ok (Some b), s) \<Rightarrow>
          (let remaining = h_limit op - h_count op in
           if remaining \<le> 0 then head_again pull (op\<lparr>h_parent := s\<rparr>)
           else
             let vals = bvals b; n = int (length vals) in
             if n < remaining then Some (Ok (Some b), op\<lparr>h_parent := s, h_count := h_count op + n\<rparr>)
             else
               (case pull True s of
                  None \<Rightarrow> None
                | Some (Err e, s') \<Rightarrow> Some (Err e, op\<lparr>h_parent := s'\<rparr>)
                | Some (Panic, s') \<Rightarrow> Some (Panic, op\<lparr>h_parent := s'\<rparr>)
                | Some (Ok _, s') \<Rightarrow>
                    Some (Ok (Some (NewBatch b (take (nat remaining) vals))),
                          op\<lparr>h_parent := s', h_count := h_limit op\<rparr>))))"

definition Head_Pull :: "('v, 's) pull \<Rightarrow> ('v, 's headOp) pull" where
  "Head_Pull pull done op =
     (if h_limit op \<le> h_count op then Some (Ok None, op\<lparr>h_count := 0\<rparr>)
      else if done then
        (case pull True (h_parent op) of
           None \<Rightarrow> None
         | Some (Err e, s) \<Rightarrow> Some (Err e, op\<lparr>h_parent := s\<rparr>)
         | Some (Panic, s) \<Rightarrow> Some (Panic, op\<lparr>h_parent := s\<rparr>)
         | Some (Ok (Some b), s) \<Rightarrow> Some (Panic, op\<lparr>h_parent := s\<rparr>)
         | Some (Ok None, s) \<Rightarrow> Some (Ok None, op\<lparr>h_parent := s, h_count := 0\<rparr>))
      else head_again pull op)"

section \<open>Tail\<close>

record ('v, 's) tailOp =
  t_parent :: 's
  t_limit :: int
  t_batches :: "'v batch list"
  t_eos :: bool

definition NewTail :: "'s \<Rightarrow> int \<Rightarrow> ('v, 's) tailOp" where
  "NewTail parent limit = \<lparr>t_parent = parent, t_limit = limit, t_batches = [], t_eos = False\<rparr>"

text \<open>The inner loop of \<open>tail\<close>, which drops the batches that are not needed.\<close>

fun tail_drop :: "int \<Rightarrow> 'v batch list \<Rightarrow> int \<Rightarrow> 'v batch list \<times> int" where
  "tail_drop limit [] n = ([], n)"
| "tail_drop limit (b # bs) n =
     (if limit \<le> n - int (length (bvals b)) then tail_drop limit bs (n - int (length (bvals b)))
      else (b # bs, n))"

text \<open>The end of \<open>tail\<close>, which shortens the first batch.\<close>

definition tail_trim :: "int \<Rightarrow> 'v batch list \<Rightarrow> int \<Rightarrow> 'v batch list go" where
  "tail_trim limit batches n =
     (if limit < n then
        (case batches of
           [] \<Rightarrow> Panic
         | b # bs \<Rightarrow>
             bindR (go_slice (bvals b) (n - limit) (int (length (bvals b))))
               (\<lambda>vals. Ok (NewBatch b vals # bs)))
      else Ok batches)"

partial_function (option) tail_loop ::
  "('v, 's) pull \<Rightarrow> int \<Rightarrow> 's \<Rightarrow> 'v batch list \<Rightarrow> int \<Rightarrow> ('v batch list go \<times> 's) option" where
  "tail_loop pull limit s batches n =
     (case pull False s of
        None \<Rightarrow> None
      | Some (Err e, s') \<Rightarrow> Some (Err e, s')
      | Some (Panic, s') \<Rightarrow> Some (Panic, s')
      | Some (Ok None, s') \<Rightarrow> Some (tail_trim limit batches n, s')
      | Some (Ok (Some b), s') \<Rightarrow>
          (let (batches', n') = tail_drop limit (batches @ [b]) (n + int (length (bvals b)))
           in tail_loop pull limit s' batches' n'))"

definition Tail_Pull :: "('v, 's) pull \<Rightarrow> ('v, ('v, 's) tailOp) pull" where
  "Tail_Pull pull done op =
     (let next = (\<lambda>op. case t_batches op of
            [] \<Rightarrow> Some (Panic, op)
          | b # bs \<Rightarrow> Some (Ok (Some b), op\<lparr>t_batches := bs, t_eos := (if length bs = 0 then True else t_eos op)\<rparr>))
      in
      if t_eos op then Some (Ok None, op\<lparr>t_batches := [], t_eos := False\<rparr>)
      else if done then
        (case pull True (t_parent op) of
           None \<Rightarrow> None
         | Some (r, s) \<Rightarrow> Some (r, op\<lparr>t_parent := s, t_batches := [], t_eos := False\<rparr>))
      else if length (t_batches op) = 0 then
        (case tail_loop pull (t_limit op) (t_parent op) [] 0 of
           None \<Rightarrow> None
         | Some (Err e, s) \<Rightarrow> Some (Err e, op\<lparr>t_parent := s\<rparr>)
         | Some (Panic, s) \<Rightarrow> Some (Panic, op\<lparr>t_parent := s\<rparr>)
         | Some (Ok batches, s) \<Rightarrow>
             if length batches = 0 then Some (Ok None, op\<lparr>t_parent := s\<rparr>)
             else next (op\<lparr>t_parent := s, t_batches := batches\<rparr>))
      else next op)"

declare head_again.simps [code] tail_loop.simps [code]

section \<open>The stream of a head\<close>

context puller
begin

lemma head_stream:
  assumes "stream pull s bs res s'" "inv s" "0 \<le> c" "c < limit"
  shows "\<exists>out res' s''. stream (Head_Pull pull) \<lparr>h_parent = s, h_limit = limit, h_count = c\<rparr> out res' (NewHead s'' limit)
     \<and> inv s'' \<and> valuesOf out = take (nat (limit - c)) (valuesOf bs)
     \<and> (if int (length (valuesOf bs)) < limit - c then out = bs \<and> res' = res \<and> s'' = s' else res' = None)"
  using assms
proof (induction arbitrary: c rule: stream.induct)
  case (stream_eos s s')
  then show ?case
    by (intro exI [of _ "[]"] exI [of _ None] exI [of _ s'])
      (auto simp: stream_resume Head_Pull_def head_again.simps [of pull "\<lparr>h_parent = s, h_limit = limit, h_count = c\<rparr>"]
        NewHead_def dest: pull_inv)
next
  case (stream_err s e s')
  then show ?case
    by (intro exI [of _ "[]"] exI [of _ "Some e"] exI [of _ s'])
      (auto simp: stream_resume Head_Pull_def head_again.simps [of pull "\<lparr>h_parent = s, h_limit = limit, h_count = c\<rparr>"]
        NewHead_def dest: pull_inv)
next
  case (stream_batch s b s1 bs res s')
  let ?op = "\<lambda>s c. \<lparr>h_parent = s, h_limit = limit, h_count = c\<rparr>" and ?n = "int (length (bvals b))"
  have inv1: "inv s1" using pull_inv stream_batch by blast
  show ?case
  proof (cases "?n < limit - c")
    case True
    have step: "Head_Pull pull False (?op s c) = Some (Ok (Some b), ?op s1 (c + ?n))"
      using stream_batch True by (simp add: Head_Pull_def head_again.simps [of pull "?op s c"])
    obtain out res' s'' where IH: "stream (Head_Pull pull) (?op s1 (c + ?n)) out res' (NewHead s'' limit)"
      "inv s''" "valuesOf out = take (nat (limit - (c + ?n))) (valuesOf bs)"
      "if int (length (valuesOf bs)) < limit - (c + ?n) then out = bs \<and> res' = res \<and> s'' = s' else res' = None"
      using stream_batch.IH [OF inv1, of "c + ?n"] stream_batch(4,5) True by auto
    have "take (nat (limit - c)) (bvals b @ valuesOf bs) = bvals b @ take (nat (limit - (c + ?n))) (valuesOf bs)"
    proof -
      have "nat (limit - c) - length (bvals b) = nat (limit - (c + ?n))" using True by linarith
      then show ?thesis using True by simp
    qed
    then show ?thesis
      using IH step by (intro exI [of _ "b # out"] exI [of _ res'] exI [of _ s'']) (auto simp: stream_resume [of _ "?op s c"] algebra_simps)
  next
    case False
    obtain s2 where d: "pull True s1 = Some (Ok None, s2)" "inv s2" using done_cases [OF inv1] .
    let ?b = "NewBatch b (take (nat (limit - c)) (bvals b))"
    have "Head_Pull pull False (?op s c) = Some (Ok (Some ?b), ?op s2 limit)"
      using stream_batch False d by (simp add: Head_Pull_def head_again.simps [of pull "?op s c"])
    moreover have "Head_Pull pull False (?op s2 limit) = Some (Ok None, NewHead s2 limit)"
      by (simp add: Head_Pull_def NewHead_def)
    ultimately show ?thesis using d(2) False
      by (intro exI [of _ "[?b]"] exI [of _ None] exI [of _ s2]) (auto simp: stream_resume)
  qed
qed

end

section \<open>The stream of a tail\<close>

lemma tail_drop_spec:
  assumes "tail_drop limit bs n = (bs', n')" "n = int (length (valuesOf bs))" "0 \<le> limit"
  shows "n' = int (length (valuesOf bs')) \<and> (\<exists>ds. bs = ds @ bs' \<and> (ds \<noteq> [] \<longrightarrow> limit \<le> n'))
    \<and> (case bs' of [] \<Rightarrow> True | b # _ \<Rightarrow> n' - int (length (bvals b)) < limit)"
  using assms
proof (induction limit bs n rule: tail_drop.induct)
  case (2 limit b bs n)
  show ?case
  proof (cases "limit \<le> n - int (length (bvals b))")
    case True
    then have "tail_drop limit bs (n - int (length (bvals b))) = (bs', n')" using 2(2) by simp
    from 2(1) [OF True this _ 2(4)] 2(3) obtain ds where "n' = int (length (valuesOf bs'))" "bs = ds @ bs'" "ds \<noteq> [] \<longrightarrow> limit \<le> n'"
      "case bs' of [] \<Rightarrow> True | b # _ \<Rightarrow> n' - int (length (bvals b)) < limit"
      by fastforce
    moreover have "limit \<le> n'" using calculation True 2(3) by (cases "ds = []") simp_all
    moreover have "b # bs = (b # ds) @ bs'" using calculation by simp
    ultimately show ?thesis by blast
  next
    case False
    then show ?thesis using 2 by auto
  qed
qed auto

text \<open>
  The batches that the loop keeps are a suffix \<open>ks\<close> of the batches seen so far, \<open>seen = ds @ ks\<close>: a
  dropped batch is one that is not needed, and the first batch kept is needed.
\<close>

definition keptOK :: "int \<Rightarrow> 'v batch list \<Rightarrow> 'v batch list \<Rightarrow> bool" where
  "keptOK limit seen ks \<longleftrightarrow>
     (\<exists>ds. seen = ds @ ks \<and> (ds \<noteq> [] \<longrightarrow> limit \<le> int (length (valuesOf ks))))
     \<and> (case ks of [] \<Rightarrow> True | b # _ \<Rightarrow> int (length (valuesOf ks)) - int (length (bvals b)) < limit)"

lemma keptOK_step:
  assumes "keptOK limit seen ks" "0 \<le> limit"
    and "tail_drop limit (ks @ [b]) (int (length (valuesOf ks)) + int (length (bvals b))) = (ks', n)"
  shows "keptOK limit (seen @ [b]) ks' \<and> n = int (length (valuesOf ks'))"
proof -
  obtain ds where ds: "seen = ds @ ks" "ds \<noteq> [] \<longrightarrow> limit \<le> int (length (valuesOf ks))"
    using assms(1) by (auto simp: keptOK_def)
  from tail_drop_spec [OF assms(3) _ assms(2)] obtain es where
    es: "ks @ [b] = es @ ks'" "es \<noteq> [] \<longrightarrow> limit \<le> n" "n = int (length (valuesOf ks'))"
    "case ks' of [] \<Rightarrow> True | b # _ \<Rightarrow> n - int (length (bvals b)) < limit"
    by auto
  have "limit \<le> n" if "ds @ es \<noteq> []"
  proof (cases "es = []")
    case True
    then have "ks' = ks @ [b]" using es(1) by simp
    then show ?thesis using that True ds(2) es(3) by auto
  qed (use es(2) in simp)
  moreover have "seen @ [b] = (ds @ es) @ ks'" using ds(1) es(1) by simp
  ultimately show ?thesis using es(3,4) by (auto simp: keptOK_def intro!: exI [of _ "ds @ es"])
qed

lemma tail_trim_kept:
  assumes "keptOK limit seen ks" "0 \<le> limit"
  obtains out where "tail_trim limit ks (int (length (valuesOf ks))) = Ok out"
    "valuesOf out = drop (length (valuesOf seen) - nat limit) (valuesOf seen)"
proof -
  obtain ds where ds: "seen = ds @ ks" "ds \<noteq> [] \<longrightarrow> limit \<le> int (length (valuesOf ks))"
    using assms(1) by (auto simp: keptOK_def)
  show thesis
  proof (cases "limit < int (length (valuesOf ks))")
    case True
    then obtain b bs where ks: "ks = b # bs" using assms(2) by (cases ks) auto
    let ?k = "int (length (valuesOf ks)) - limit"
    have k: "0 \<le> ?k" "?k \<le> int (length (bvals b))" using assms True by (auto simp: keptOK_def ks)
    let ?out = "NewBatch b (drop (nat ?k) (bvals b)) # bs"
    have "tail_trim limit ks (int (length (valuesOf ks))) = Ok ?out"
      using True k unfolding tail_trim_def by (simp add: ks go_slice_def)
    moreover have "valuesOf ?out = drop (length (valuesOf seen) - nat limit) (valuesOf seen)"
    proof -
      have "nat ?k = length (valuesOf seen) - nat limit - length (valuesOf ds)"
        "length (valuesOf ds) \<le> length (valuesOf seen) - nat limit"
        using k True ds(1) assms(2) by auto
      then show ?thesis using k True ds(1) assms(2) by (simp add: ks)
    qed
    ultimately show thesis using that by blast
  next
    case False
    then have trim: "tail_trim limit ks (int (length (valuesOf ks))) = Ok ks" by (simp add: tail_trim_def)
    from False have "drop (length (valuesOf seen) - nat limit) (valuesOf seen) = valuesOf ks"
    proof (cases "ds = []")
      case True
      then show ?thesis using False ds(1) by simp
    next
      case False
      then have "length (valuesOf ks) = nat limit" using \<open>\<not> limit < _\<close> ds(2) by simp
      then show ?thesis using ds(1) by simp
    qed
    from that [OF trim this [symmetric]] show thesis .
  qed
qed

lemma tail_loop_stream:
  assumes "stream pull s bs res s'" "keptOK limit seen ks" "0 \<le> limit"
  shows "\<exists>out. tail_loop pull limit s ks (int (length (valuesOf ks))) =
      Some (case res of None \<Rightarrow> Ok out | Some e \<Rightarrow> Err e, s')
    \<and> valuesOf out = drop (length (valuesOf (seen @ bs)) - nat limit) (valuesOf (seen @ bs))"
  using assms(1,2)
proof (induction arbitrary: seen ks rule: stream.induct)
  case (stream_eos s s')
  obtain out where "tail_trim limit ks (int (length (valuesOf ks))) = Ok out"
    "valuesOf out = drop (length (valuesOf seen) - nat limit) (valuesOf seen)"
    by (rule tail_trim_kept [OF stream_eos(2) assms(3)])
  then show ?case using stream_eos(1) by (auto simp: tail_loop.simps [of pull])
next
  case (stream_err s e s')
  obtain out where "valuesOf out = drop (length (valuesOf seen) - nat limit) (valuesOf seen)"
    by (rule tail_trim_kept [OF stream_err(2) assms(3)])
  then show ?case using stream_err(1) by (auto simp: tail_loop.simps [of pull])
next
  case (stream_batch s b s1 bs res s')
  obtain ks' n where d: "tail_drop limit (ks @ [b]) (int (length (valuesOf ks)) + int (length (bvals b))) = (ks', n)"
    by fastforce
  have "keptOK limit (seen @ [b]) ks'" "n = int (length (valuesOf ks'))"
    using keptOK_step [OF stream_batch(4) assms(3) d] by auto
  then show ?case
    using stream_batch.IH [of "seen @ [b]" ks'] stream_batch(1) d
    by (simp add: tail_loop.simps [of pull limit s])
qed

lemma tail_emit:
  assumes "bs \<noteq> []" "t_batches op = bs" "\<not> t_eos op"
  shows "stream (Tail_Pull pull) op bs None (NewTail (t_parent op) (t_limit op))"
  using assms
proof (induction bs arbitrary: op)
  case (Cons b bs)
  let ?op = "op\<lparr>t_batches := bs, t_eos := (bs = [])\<rparr>"
  have step: "Tail_Pull pull False op = Some (Ok (Some b), ?op)"
    using Cons.prems by (simp add: Tail_Pull_def)
  show ?case
  proof (cases "bs = []")
    case True
    have "Tail_Pull pull False ?op = Some (Ok None, NewTail (t_parent op) (t_limit op))"
      using True by (simp add: Tail_Pull_def NewTail_def)
    then show ?thesis using True step by (simp add: stream_resume)
  next
    case False
    then show ?thesis using Cons.IH [of ?op] step by (simp add: stream_resume [of _ op])
  qed
qed simp

lemma tail_stream:
  assumes "stream pull s bs res s'" "0 \<le> limit"
  shows "\<exists>out. stream (Tail_Pull pull) (NewTail s limit) out res (NewTail s' limit)
    \<and> (case res of None \<Rightarrow> valuesOf out = drop (length (valuesOf bs) - nat limit) (valuesOf bs) | Some e \<Rightarrow> out = [])"
proof -
  obtain out where loop: "tail_loop pull limit s [] 0 = Some (case res of None \<Rightarrow> Ok out | Some e \<Rightarrow> Err e, s')"
    and v: "valuesOf out = drop (length (valuesOf bs) - nat limit) (valuesOf bs)"
    using tail_loop_stream [OF assms(1) _ assms(2), of "[]" "[]"] by (auto simp: keptOK_def)
  show ?thesis
  proof (cases res)
    case (Some e)
    then show ?thesis using loop by (auto simp: stream_resume Tail_Pull_def NewTail_def)
  next
    case None
    show ?thesis
    proof (cases out)
      case Nil
      then show ?thesis using loop v None
        by (auto simp: stream_resume Tail_Pull_def NewTail_def intro!: exI [of _ "[]"])
    next
      case (Cons b bs')
      let ?op = "\<lambda>bs. \<lparr>t_parent = s', t_limit = limit, t_batches = bs, t_eos = False\<rparr>"
      have "stream (Tail_Pull pull) (?op out) out None (NewTail s' limit)"
        using tail_emit [of out "?op out"] Cons by simp
      moreover have "Tail_Pull pull False (NewTail s limit) = Tail_Pull pull False (?op out)"
        using loop None Cons by (simp add: Tail_Pull_def NewTail_def)
      ultimately show ?thesis using v None by (auto simp: stream_resume)
    qed
  qed
qed

section \<open>Head and tail keep the protocol\<close>

context puller
begin

lemma head_again_inv:
  assumes "head_again pull op = Some (r, op')" "inv (h_parent op)" "h_count op < h_limit op"
  shows "inv (h_parent op') \<and> r \<noteq> Panic"
proof -
  obtain x s1 where x: "pull False (h_parent op) = Some (x, s1)"
    using assms(1) by (cases "pull False (h_parent op)") (auto simp: head_again.simps [of pull op])
  then have inv1: "inv s1" "x \<noteq> Panic" using pull_inv [OF assms(2)] by auto
  obtain s2 where d: "pull True s1 = Some (Ok None, s2)" "inv s2" using done_cases [OF inv1(1)] .
  show ?thesis
    using assms(1,3) x inv1 d
    by (auto simp: head_again.simps [of pull op] Let_def split: option.splits result.splits if_splits)
qed

lemma Head_puller: "puller (Head_Pull pull) (\<lambda>op. inv (h_parent op))"
proof
  fix op :: "'s headOp"
  assume inv: "inv (h_parent op)"
  then show "\<exists>op'. Head_Pull pull True op = Some (Ok None, op') \<and> inv (h_parent op')"
    by (cases rule: done_cases) (use inv in \<open>auto simp: Head_Pull_def\<close>)
  fix r op' assume "Head_Pull pull False op = Some (r, op')"
  then show "inv (h_parent op') \<and> r \<noteq> Panic"
    using inv by (auto simp: Head_Pull_def dest: head_again_inv split: if_splits)
qed

lemma tail_loop_inv:
  assumes "tail_loop pull limit s ks n = Some (r, s')" "inv s" "0 \<le> limit"
    "keptOK limit seen ks" "n = int (length (valuesOf ks))"
  shows "inv s' \<and> r \<noteq> Panic"
proof -
  let ?P = "\<lambda>p l s ks n y. p = pull \<and> l = limit \<and> inv s \<and> n = int (length (valuesOf ks)) \<and>
    (\<exists>seen. keptOK limit seen ks) \<longrightarrow> inv (snd y) \<and> fst y \<noteq> Panic"
  have "?P pull limit s ks n (r, s')"
  proof (rule tail_loop.raw_induct [where P = ?P, OF _ assms(1)])
    fix f p l s ks n y
    assume IH: "\<And>p l s ks n y. f p l s ks n = Some y \<Longrightarrow> ?P p l s ks n y"
      and eq: "(case p False s of None \<Rightarrow> None
        | Some (Err e, s') \<Rightarrow> Some (Err e, s')
        | Some (Panic, s') \<Rightarrow> Some (Panic, s')
        | Some (Ok None, s') \<Rightarrow> Some (tail_trim l ks n, s')
        | Some (Ok (Some b), s') \<Rightarrow>
          (let (batches', n') = tail_drop l (ks @ [b]) (n + int (length (bvals b)))
           in f p l s' batches' n')) = Some y"
    show "?P p l s ks n y"
    proof (intro impI, elim conjE exE)
      fix seen
      assume a: "p = pull" "l = limit" "inv s" "n = int (length (valuesOf ks))" "keptOK limit seen ks"
      from eq obtain x s1 where x: "pull False s = Some (x, s1)" using a(1) by (cases "pull False s") auto
      then have inv1: "inv s1" "x \<noteq> Panic" using pull_inv [OF a(3)] by auto
      consider "x = Ok None" | b where "x = Ok (Some b)" | e where "x = Err e"
        using inv1(2) by (cases x) auto
      then show "inv (snd y) \<and> fst y \<noteq> Panic"
      proof cases
        case 1
        obtain out where "tail_trim limit ks n = Ok out"
          using tail_trim_kept [OF a(5) assms(3)] a(4) by metis
        then show ?thesis using eq x 1 inv1(1) a(1,2) by auto
      next
        case (2 b)
        obtain ks' n' where d: "tail_drop limit (ks @ [b]) (n + int (length (bvals b))) = (ks', n')" by fastforce
        then have "f pull limit s1 ks' n' = Some y" using eq x 2 a(1,2) by simp
        then show ?thesis
          using IH [of pull limit s1 ks' n' y] keptOK_step [OF a(5) assms(3), of b ks' n'] d a(4) inv1(1) by auto
      qed (use eq x inv1(1) a(1) in auto)
    qed
  qed
  then show ?thesis using assms by auto
qed

lemma Tail_puller: "puller (Tail_Pull pull) (\<lambda>op. inv (t_parent op) \<and> 0 \<le> t_limit op)"
proof
  fix op :: "('v, 's) tailOp"
  assume "inv (t_parent op) \<and> 0 \<le> t_limit op"
  then have inv: "inv (t_parent op)" "0 \<le> t_limit op" by auto
  from inv(1) show "\<exists>op'. Tail_Pull pull True op = Some (Ok None, op') \<and> inv (t_parent op') \<and> 0 \<le> t_limit op'"
    by (cases rule: done_cases) (use inv in \<open>auto simp: Tail_Pull_def\<close>)
  fix r op' assume "Tail_Pull pull False op = Some (r, op')"
  then show "(inv (t_parent op') \<and> 0 \<le> t_limit op') \<and> r \<noteq> Panic"
    using inv tail_loop_inv [of "t_limit op" "t_parent op" "[]" 0 _ _ "[]"]
    by (auto simp: Tail_Pull_def keptOK_def Let_def split: if_splits option.splits prod.splits result.splits list.splits)
qed

end

text \<open>
  The protocol is kept along a pipeline: here, \<open>head\<close> and \<open>tail\<close> over the puller of an array,
  and a \<open>tail\<close> over such a \<open>head\<close>.
\<close>

interpretation hp: puller "Head_Pull (Puller_Pull n (Array_Read :: (zvalue, zvalue batch) reader))" "\<lambda>op. True"
  using zp.Head_puller .

interpretation tp: puller "Tail_Pull (Head_Pull (Puller_Pull n (Array_Read :: (zvalue, zvalue batch) reader)))"
  "\<lambda>op. 0 \<le> t_limit op"
  using hp.Tail_puller by simp

end
