(* ===== verification/Value.thy ===== *)
theory Value
  imports Lookup ComplexTypes Counted
begin

text \<open>
  The methods of \<open>zed.Value\<close> (\<open>value.go\<close>) that the query operators use.  A value is its type and
  its bytes; the native representation of numbers is not modelled, since \<open>Bytes\<close> encodes it and
  \<open>Int\<close>, \<open>Uint\<close> and \<open>Bool\<close> give the same results for both.
\<close>

section \<open>Integers of a value\<close>

definition Value_Int :: "zvalue \<Rightarrow> u64 go" where
  "Value_Int v = (if \<not> IsSigned (ID (fst v)) then Panic else Ok (DecodeInt (snd v)))"

definition Value_Uint :: "zvalue \<Rightarrow> u64 go" where
  "Value_Uint v = (if 3 < ID (fst v) then Panic else Ok (DecodeUint (snd v)))"

definition Value_Bool :: "zvalue \<Rightarrow> bool go" where
  "Value_Bool v =
     (if ID (fst v) \<noteq> 23 then Panic
      else case snd v of None \<Rightarrow> Ok False | Some [] \<Rightarrow> Panic | Some (x # _) \<Rightarrow> Ok (x \<noteq> 0))"

definition Value_IsMissing :: "zvalue \<Rightarrow> bool" where
  "Value_IsMissing v = (case fst v of TypeError _ t \<Rightarrow> IsMissing t (buf (snd v)) | _ \<Rightarrow> False)"

section \<open>Underlying values\<close>

partial_function (option) Value_under :: "ztype \<Rightarrow> zbytes \<Rightarrow> zvalue go option" where
  "Value_under typ bs =
     (case TypeUnder typ of
        TypeUnion i tys \<Rightarrow>
          (case Untag i tys bs of
             Ok (typ', bs') \<Rightarrow> Value_under typ' bs'
           | Err e \<Rightarrow> Some (Err e)
           | Panic \<Rightarrow> Some Panic)
      | t \<Rightarrow> Some (Ok (t, bs)))"

definition Value_Under :: "zvalue \<Rightarrow> zvalue go option" where
  "Value_Under v =
     (case fst v of
        TypeUnion _ _ \<Rightarrow> Value_under (fst v) (snd v)
      | TypeNamed _ _ _ \<Rightarrow> Value_under (fst v) (snd v)
      | _ \<Rightarrow> Some (Ok v))"

definition TypeRecordOf :: "ztype \<Rightarrow> ztype option" where
  "TypeRecordOf typ = (case TypeUnder typ of TypeRecord i fs \<Rightarrow> Some (TypeRecord i fs) | _ \<Rightarrow> None)"

declare Value_under.simps [code]

text \<open>What \<open>Under\<close> returns when it returns; and a null union, on which it does not.\<close>

definition plainVal :: "zvalue go \<Rightarrow> bool" where
  "plainVal r \<longleftrightarrow> (case r of Ok (t, b) \<Rightarrow> TypeUnder t = t \<and> \<not> IsUnionType t | _ \<Rightarrow> True)"

lemma Value_under_result: "Value_under typ bs = Some r \<Longrightarrow> plainVal r"
proof (erule Value_under.raw_induct [where P = "\<lambda>typ bs r. plainVal r", rotated])
  fix f ty bs r
  assume IH: "\<And>typ bs r. f typ bs = Some r \<Longrightarrow> plainVal r"
    and eq: "(case TypeUnder ty of
        TypeUnion i tys \<Rightarrow>
          (case Untag i tys bs of Ok (typ', bs') \<Rightarrow> f typ' bs' | Err e \<Rightarrow> Some (Err e) | Panic \<Rightarrow> Some Panic)
      | t \<Rightarrow> Some (Ok (t, bs))) = Some r"
  show "plainVal r"
  proof (cases "IsUnionType ty")
    case True
    then obtain i tys where "TypeUnder ty = TypeUnion i tys" by (cases "TypeUnder ty") (auto simp: IsUnionType_def)
    moreover have "plainVal (Err e)" "plainVal Panic" for e by (simp_all add: plainVal_def)
    ultimately show ?thesis using eq IH by (cases "Untag i tys bs") (auto split: prod.splits)
  next
    case False
    then have "r = Ok (TypeUnder ty, bs)" using eq by (cases "TypeUnder ty") (auto simp: IsUnionType_def)
    then show ?thesis using False by (simp add: plainVal_def IsUnionType_def)
  qed
qed

lemma TypeRecordOf_Record [simp]: "TypeRecordOf (TypeRecord i fs) = Some (TypeRecord i fs)"
  by (simp add: TypeRecordOf_def)

lemma Value_Under_Record [simp]: "Value_Under (TypeRecord i fs, bs) = Some (Ok (TypeRecord i fs, bs))"
  by (simp add: Value_Under_def)

text \<open>Looking up a record type gives a record type with these fields.\<close>

lemma LookupTypeRecord_fields:
  assumes "wf_ctx c" "internable c (TypeRecord 0 fs)"
  obtains i c' where "LookupTypeRecord fs c = Ok (TypeRecord i fs, c')" "wf_ctx c'" "ext_ctx c c'" "inC c' (TypeRecord i fs)"
proof -
  obtain t c' where t: "intern (TypeRecord 0 fs) c = (t, c')" by fastforce
  note sp = intern_spec [OF assms t]
  then obtain i where "t = TypeRecord i fs" by (metis set_id.simps(2))
  then show thesis using that LookupTypeRecord_eq [OF assms] t sp by (auto simp: inC_def)
qed

end
