(* ===== verification/Uniq.thy ===== *)
theory Uniq
  imports HeadTail Value
begin

text \<open>
  The operator \<open>uniq\<close> (\<open>runtime/sam/op/uniq/uniq.go\<close>): it replaces each run of values with
  equal bytes by its first value, with the length of the run when \<open>-c\<close> is given.  The state
  keeps the run that is open across batches.
\<close>

record 's uniqOp =
  u_zctx :: ctx
  u_parent :: 's
  u_builder :: builder
  u_cflag :: bool
  u_count :: u64
  u_last :: "zvalue option"

definition NewUniq :: "ctx \<Rightarrow> 's \<Rightarrow> bool \<Rightarrow> 's uniqOp" where
  "NewUniq zctx parent cflag =
     \<lparr>u_zctx = zctx, u_parent = parent, u_builder = NewBuilder, u_cflag = cflag, u_count = 0, u_last = None\<rparr>"

definition uniq_wrap :: "'s uniqOp \<Rightarrow> zvalue \<Rightarrow> (zvalue \<times> 's uniqOp) go" where
  "uniq_wrap op t =
     (if u_cflag op then
        bindR (EncodeUint (u_count op)) (\<lambda>cnt.
        let b = Builder_Append (Builder_Append (Builder_Reset (u_builder op)) (snd t)) (Some cnt) in
        bindR (MustLookupTypeRecord
          [(str ''value'', fst t), (str ''count'', TypePrimitive TypeUint64)] (u_zctx op)) (\<lambda>(typ, zctx).
        bindR (Builder_Bytes b) (\<lambda>bs. Ok ((typ, bs), op\<lparr>u_builder := b, u_zctx := zctx\<rparr>))))
      else Ok (t, op))"

definition appendUniq :: "'s uniqOp \<Rightarrow> zvalue list \<Rightarrow> zvalue \<Rightarrow> (zvalue list \<times> 's uniqOp) go" where
  "appendUniq op out t =
     (if u_count op = 0 then Ok (out, op\<lparr>u_last := Some t, u_count := 1\<rparr>)
      else
        (case u_last op of
           None \<Rightarrow> Panic
         | Some l \<Rightarrow>
             if buf (snd t) = buf (snd l) then Ok (out, op\<lparr>u_count := u_count op + 1\<rparr>)
             else bindR (uniq_wrap op l) (\<lambda>(w, op). Ok (out @ [w], op\<lparr>u_last := Some t, u_count := 1\<rparr>))))"

fun uniq_vals :: "'s uniqOp \<Rightarrow> zvalue list \<Rightarrow> zvalue list \<Rightarrow> (zvalue list \<times> 's uniqOp) go" where
  "uniq_vals op out [] = Ok (out, op)"
| "uniq_vals op out (t # ts) = bindR (appendUniq op out t) (\<lambda>(out, op). uniq_vals op out ts)"

partial_function (option) Uniq_Pull ::
  "(zvalue, 's) pull \<Rightarrow> bool \<Rightarrow> 's uniqOp \<Rightarrow> (zvalue batch option go \<times> 's uniqOp) option" where
  "Uniq_Pull pull done op =
     (case pull done (u_parent op) of
        None \<Rightarrow> None
      | Some (Err e, s) \<Rightarrow> Some (Err e, op\<lparr>u_parent := s\<rparr>)
      | Some (Panic, s) \<Rightarrow> Some (Panic, op\<lparr>u_parent := s\<rparr>)
      | Some (Ok None, s) \<Rightarrow>
          (let op = op\<lparr>u_parent := s\<rparr> in
           case u_last op of
             None \<Rightarrow> Some (Ok None, op)
           | Some l \<Rightarrow>
               (case uniq_wrap op l of
                  Ok (t, op') \<Rightarrow> Some (Ok (Some (NewArray [t])), op'\<lparr>u_last := None\<rparr>)
                | Err e \<Rightarrow> Some (Err e, op)
                | Panic \<Rightarrow> Some (Panic, op)))
      | Some (Ok (Some b), s) \<Rightarrow>
          (let op = op\<lparr>u_parent := s\<rparr> in
           case uniq_vals op [] (bvals b) of
             Ok (out, op') \<Rightarrow>
               if 0 < length out then Some (Ok (Some (NewArray out)), op') else Uniq_Pull pull done op'
           | Err e \<Rightarrow> Some (Err e, op)
           | Panic \<Rightarrow> Some (Panic, op)))"

declare Uniq_Pull.simps [code]

section \<open>Reference\<close>

text \<open>The runs of a list: the first value of each and its length.\<close>

abbreviation sameBytes :: "zvalue \<Rightarrow> zvalue \<Rightarrow> bool" where
  "sameBytes v w \<equiv> buf (snd w) = buf (snd v)"

function runs :: "zvalue list \<Rightarrow> (zvalue \<times> nat) list" where
  "runs [] = []"
| "runs (v # vs) =
     (v, Suc (length (takeWhile (sameBytes v) vs))) # runs (dropWhile (sameBytes v) vs)"
  by pat_completeness auto
termination
  by (relation "measure length") (auto simp: less_Suc_eq_le length_dropWhile_le)

text \<open>The runs when \<open>k\<close> values equal to \<open>l\<close> have been seen.\<close>

fun runsFrom :: "zvalue \<Rightarrow> nat \<Rightarrow> zvalue list \<Rightarrow> (zvalue \<times> nat) list" where
  "runsFrom l k [] = [(l, k)]"
| "runsFrom l k (v # vs) = (if sameBytes l v then runsFrom l (Suc k) vs else (l, k) # runsFrom v 1 vs)"

lemma runsFrom_eq: "runsFrom l k vs = (l, k + length (takeWhile (sameBytes l) vs)) # runs (dropWhile (sameBytes l) vs)"
  by (induction l k vs rule: runsFrom.induct) auto

lemma runs_Cons: "runs (v # vs) = runsFrom v 1 vs"
  by (simp add: runsFrom_eq)

text \<open>\<open>runs\<close> accounts for every value, and neighbouring runs differ.\<close>

lemma sum_runs: "sum_list (map snd (runs vs)) = length vs"
proof (induction vs rule: runs.induct)
  case (2 v vs)
  then show ?case using takeWhile_dropWhile_id [of "sameBytes v" vs] by (simp flip: length_append)
qed simp

section \<open>What wrap returns\<close>

text \<open>
  The value that stands for a run: the value itself, or the record of value and count.
\<close>

definition wrapped :: "bool \<Rightarrow> zvalue \<times> nat \<Rightarrow> zvalue \<Rightarrow> bool" where
  "wrapped cflag r w \<longleftrightarrow>
     (case r of (v, k) \<Rightarrow>
        if cflag then
          \<exists>i d. w = (TypeRecord i [(str ''value'', fst v), (str ''count'', TypePrimitive TypeUint64)],
                     Some (Append [] (snd v) @ Append [] (Some d))) \<and> DecodeUint (Some d) = of_nat k
        else w = v)"

definition uniqInv :: "'s uniqOp \<Rightarrow> bool" where
  "uniqInv op \<longleftrightarrow> b_containers (u_builder op) = [] \<and> (u_cflag op \<longrightarrow> wf_ctx (u_zctx op))"

definition typesIn :: "'s uniqOp \<Rightarrow> zvalue list \<Rightarrow> bool" where
  "typesIn op vs \<longleftrightarrow> (u_cflag op \<longrightarrow> (\<forall>v \<in> set vs. inC (u_zctx op) (fst v)))"

text \<open>\<open>op'\<close> is \<open>op\<close> with a larger context; parent, flag and run are the ones of \<open>op\<close>.\<close>

definition sameRun :: "'s uniqOp \<Rightarrow> 's uniqOp \<Rightarrow> bool" where
  "sameRun op op' \<longleftrightarrow> u_parent op' = u_parent op \<and> u_cflag op' = u_cflag op \<and> u_count op' = u_count op \<and>
     u_last op' = u_last op \<and> ext_ctx (u_zctx op) (u_zctx op') \<and> uniqInv op'"

lemma uniq_wrap_ok:
  assumes "uniqInv op" "typesIn op [l]"
  obtains w op' where "uniq_wrap op l = Ok (w, op')" "sameRun op op'"
    "\<And>k. u_count op = of_nat k \<Longrightarrow> wrapped (u_cflag op) (l, k) w"
proof (cases "u_cflag op")
  case False
  then show thesis using that [of l op] assms(1) by (simp add: uniq_wrap_def wrapped_def sameRun_def ext_ctx_refl)
next
  case True
  let ?fs = "[(str ''value'', fst l), (str ''count'', TypePrimitive TypeUint64)]"
  have wf: "wf_ctx (u_zctx op)" and l: "inC (u_zctx op) (fst l)"
    using assms True by (auto simp: uniqInv_def typesIn_def)
  have i: "internable (u_zctx op) (TypeRecord 0 ?fs)"
    using l inC_lens_ok [OF wf_ctxD(1) [OF wf] l]
    by (simp add: internable_def small_def MaxRecordFields_def str_def)
  obtain j c where r: "LookupTypeRecord ?fs (u_zctx op) = Ok (TypeRecord j ?fs, c)" "wf_ctx c" "ext_ctx (u_zctx op) c"
    using LookupTypeRecord_fields [OF wf i] .
  let ?b = "Builder_Append (Builder_Append (Builder_Reset (u_builder op)) (snd l)) (Some (digits256 (u_count op)))"
  let ?op = "op\<lparr>u_builder := ?b, u_zctx := c\<rparr>"
  have w: "uniq_wrap op l = Ok ((TypeRecord j ?fs,
      Some (Append [] (snd l) @ Append [] (Some (digits256 (u_count op))))), ?op)"
    using True r(1) by (simp add: uniq_wrap_def EncodeUint_eq MustLookupTypeRecord_def Builder_Append_def Builder_Reset_def
        Builder_Bytes_def Let_def Append_append [of "Append [] (snd l)"])
  have "sameRun op ?op"
    using assms(1) r(2,3) by (simp add: sameRun_def uniqInv_def Builder_Append_def Builder_Reset_def)
  moreover have "wrapped (u_cflag op) (l, k) (TypeRecord j ?fs,
      Some (Append [] (snd l) @ Append [] (Some (digits256 (u_count op)))))" if "u_count op = of_nat k" for k
    using True that by (auto simp: wrapped_def DecodeUint_def Decode_digits256)
  ultimately show thesis using that w by blast
qed

section \<open>The values of a batch\<close>

text \<open>
  The open run of the state: none, or \<open>k\<close> values equal to the last one.  \<open>runsOf run vs\<close> are the
  runs of the whole input when \<open>vs\<close> is still to come.
\<close>

definition openRun :: "'s uniqOp \<Rightarrow> (zvalue \<times> nat) option \<Rightarrow> bool" where
  "openRun op run \<longleftrightarrow>
     (case run of
        None \<Rightarrow> u_last op = None \<and> u_count op = 0
      | Some (l, k) \<Rightarrow> u_last op = Some l \<and> u_count op = of_nat k \<and> 0 < k \<and> typesIn op [l])"

definition runsOf :: "(zvalue \<times> nat) option \<Rightarrow> zvalue list \<Rightarrow> (zvalue \<times> nat) list" where
  "runsOf run vs = (case run of None \<Rightarrow> runs vs | Some (l, k) \<Rightarrow> runsFrom l k vs)"

definition runLen :: "(zvalue \<times> nat) option \<Rightarrow> nat" where
  "runLen run = (case run of None \<Rightarrow> 0 | Some (l, k) \<Rightarrow> k)"

definition ofRun :: "(zvalue \<times> nat) option \<Rightarrow> (zvalue \<times> nat) list" where
  "ofRun run = (case run of None \<Rightarrow> [] | Some r \<Rightarrow> [r])"

lemma runsOf_Nil: "runsOf run [] = ofRun run"
  by (auto simp: runsOf_def ofRun_def split: option.splits)

text \<open>\<open>later op op'\<close>: the context has grown and the state is still sound.\<close>

definition later :: "'s uniqOp \<Rightarrow> 's uniqOp \<Rightarrow> bool" where
  "later op op' \<longleftrightarrow> u_parent op' = u_parent op \<and> u_cflag op' = u_cflag op \<and>
     ext_ctx (u_zctx op) (u_zctx op') \<and> uniqInv op'"

lemma typesIn_later: "typesIn op vs \<Longrightarrow> later op op' \<Longrightarrow> typesIn op' vs"
  by (auto simp: typesIn_def later_def intro: ext_ctx_inC)

lemma later_trans: "later op op' \<Longrightarrow> later op' op'' \<Longrightarrow> later op op''"
  by (auto simp: later_def intro: ext_ctx_trans)

lemma count_nonzero: "0 < k \<Longrightarrow> k < 2 ^ 64 \<Longrightarrow> (of_nat k :: u64) \<noteq> 0"
proof
  assume k: "0 < k" "k < 2 ^ 64" and "(of_nat k :: u64) = 0"
  then have "unat (of_nat k :: u64) = 0" by simp
  then show False using k by (simp add: unat_of_nat take_bit_nat_eq_self)
qed

lemma appendUniq_ok:
  assumes "uniqInv op" "openRun op run" "typesIn op [t]" "Suc (runLen run) < 2 ^ 64"
  shows "\<exists>ws op' run' rs. appendUniq op out t = Ok (out @ ws, op') \<and> later op op' \<and> openRun op' run'
    \<and> runLen run' \<le> Suc (runLen run) \<and> run' \<noteq> None
    \<and> list_all2 (wrapped (u_cflag op)) rs ws \<and> (\<forall>ts. runsOf run (t # ts) = rs @ runsOf run' ts)"
proof (cases run)
  case None
  then show ?thesis using assms
    by (intro exI [of _ "[]"] exI [of _ "op\<lparr>u_last := Some t, u_count := 1\<rparr>"] exI [of _ "Some (t, 1)"])
      (auto simp: appendUniq_def openRun_def later_def uniqInv_def typesIn_def ext_ctx_refl runLen_def runsOf_def runs_Cons
        simp del: runs.simps)
next
  case (Some lk)
  then obtain l k where run: "run = Some (l, k)" by (cases lk) auto
  have lk: "u_last op = Some l" "u_count op = of_nat k" "0 < k" "typesIn op [l]" "Suc k < 2 ^ 64"
    using assms(2,4) by (auto simp: openRun_def run runLen_def)
  then have c: "u_count op \<noteq> 0" using count_nonzero by simp
  show ?thesis
  proof (cases "sameBytes l t")
    case True
    then show ?thesis using assms lk c
      by (intro exI [of _ "[]"] exI [of _ "op\<lparr>u_count := u_count op + 1\<rparr>"] exI [of _ "Some (l, Suc k)"])
        (auto simp: appendUniq_def openRun_def later_def uniqInv_def typesIn_def ext_ctx_refl runLen_def runsOf_def run)
  next
    case False
    obtain w op' where w: "uniq_wrap op l = Ok (w, op')" "sameRun op op'" "wrapped (u_cflag op) (l, k) w"
      using uniq_wrap_ok [OF assms(1) lk(4)] lk(2) by metis
    let ?op = "op'\<lparr>u_last := Some t, u_count := 1\<rparr>"
    have lat: "later op ?op" using w(2) by (simp add: sameRun_def later_def uniqInv_def)
    then have "typesIn ?op [t]" using typesIn_later assms(3) by blast
    then show ?thesis using False w lk c lat
      by (intro exI [of _ "[w]"] exI [of _ ?op] exI [of _ "Some (t, 1)"] exI [of _ "[(l, k)]"])
        (auto simp: appendUniq_def openRun_def runLen_def runsOf_def run)
  qed
qed

lemma uniq_vals_ok:
  assumes "uniqInv op" "openRun op run" "typesIn op vs" "runLen run + length vs < 2 ^ 64"
  shows "\<exists>ws op' run' rs. uniq_vals op out vs = Ok (out @ ws, op') \<and> later op op' \<and> openRun op' run'
    \<and> runLen run' \<le> runLen run + length vs \<and> (run \<noteq> None \<or> vs \<noteq> [] \<longrightarrow> run' \<noteq> None)
    \<and> list_all2 (wrapped (u_cflag op)) rs ws \<and> (\<forall>ts. runsOf run (vs @ ts) = rs @ runsOf run' ts)"
  using assms
proof (induction vs arbitrary: op run out)
  case Nil
  then show ?case
    by (intro exI [of _ "[]"] exI [of _ op] exI [of _ run]) (auto simp: later_def ext_ctx_refl)
next
  case (Cons v vs)
  have v: "typesIn op [v]" "typesIn op vs" using Cons.prems(3) by (auto simp: typesIn_def)
  from appendUniq_ok [OF Cons.prems(1,2) v(1), of out] Cons.prems(4)
  obtain ws op1 run1 rs where 1: "appendUniq op out v = Ok (out @ ws, op1)" "later op op1" "openRun op1 run1"
    "runLen run1 \<le> Suc (runLen run)" "run1 \<noteq> None" "list_all2 (wrapped (u_cflag op)) rs ws"
    "\<And>ts. runsOf run (v # ts) = rs @ runsOf run1 ts"
    by auto
  have "uniqInv op1" "u_cflag op1 = u_cflag op" using 1(2) by (auto simp: later_def)
  moreover have "typesIn op1 vs" using typesIn_later v(2) 1(2) by blast
  moreover have "runLen run1 + length vs < 2 ^ 64" using 1(4) Cons.prems(4) by simp
  ultimately obtain ws2 op2 run2 rs2 where 2: "uniq_vals op1 (out @ ws) vs = Ok ((out @ ws) @ ws2, op2)"
    "later op1 op2" "openRun op2 run2" "runLen run2 \<le> runLen run1 + length vs" "run2 \<noteq> None"
    "list_all2 (wrapped (u_cflag op)) rs2 ws2" "\<And>ts. runsOf run1 (vs @ ts) = rs2 @ runsOf run2 ts"
    using Cons.IH [of op1 run1 "out @ ws"] 1(3,5) by auto
  show ?case
    using 1 2 later_trans [OF 1(2) 2(2)]
    by (intro exI [of _ "ws @ ws2"] exI [of _ op2] exI [of _ run2] exI [of _ "rs @ rs2"])
      (auto intro: list_all2_appendI)
qed

section \<open>The stream of a uniq\<close>

text \<open>Over a parent at end of stream, the open run is delivered and forgotten, but not its count.\<close>

lemma uniq_eos:
  assumes "pull False s = Some (Ok None, s')" "u_parent op = s" "uniqInv op" "openRun op (Some (l, k))"
  shows "\<exists>w op'. Uniq_Pull pull False op = Some (Ok (Some (NewArray [w])), op') \<and> wrapped (u_cflag op) (l, k) w
    \<and> u_parent op' = s' \<and> u_last op' = None \<and> u_count op' = of_nat k \<and> u_cflag op' = u_cflag op"
proof -
  let ?op = "op\<lparr>u_parent := s'\<rparr>"
  have l: "u_last ?op = Some l" "u_count ?op = of_nat k" "typesIn ?op [l]" "uniqInv ?op"
    using assms(3,4) by (auto simp: openRun_def uniqInv_def typesIn_def)
  obtain w op' where "uniq_wrap ?op l = Ok (w, op')" "sameRun ?op op'" "wrapped (u_cflag ?op) (l, k) w"
    using uniq_wrap_ok [OF l(4,3)] l(2) by metis
  then show ?thesis using assms(1,2) l(1,2)
    by (intro exI [of _ w] exI [of _ "op'\<lparr>u_last := None\<rparr>"]) (auto simp: Uniq_Pull.simps [of pull False op] sameRun_def)
qed

lemma uniq_pulls:
  assumes "stream pull s bs None s'" "u_parent op = s" "uniqInv op" "openRun op run" "typesIn op (valuesOf bs)"
    and "runLen run + length (valuesOf bs) < 2 ^ 64" "runsOf run (valuesOf bs) \<noteq> []"
  shows "\<exists>out op'. pulls (Uniq_Pull pull) op out op' \<and> out \<noteq> [] \<and>
      list_all2 (wrapped (u_cflag op)) (runsOf run (valuesOf bs)) (valuesOf out)
    \<and> u_parent op' = s' \<and> u_last op' = None \<and> u_count op' \<noteq> 0"
  using assms
proof (induction s bs "None :: goerror option" s' arbitrary: op run rule: stream.induct)
  case (stream_eos s s')
  obtain l k where run: "run = Some (l, k)" using stream_eos.prems(6) by (cases run) (auto simp: runsOf_def)
  obtain w op' where w: "Uniq_Pull pull False op = Some (Ok (Some (NewArray [w])), op')" "wrapped (u_cflag op) (l, k) w"
    "u_parent op' = s'" "u_last op' = None" "u_count op' = of_nat k"
    using uniq_eos [of pull s s' op l k] stream_eos.hyps(1) stream_eos.prems(1-3) run by auto
  moreover have "u_count op' \<noteq> 0"
    using w(5) count_nonzero [of k] stream_eos.prems(3,5) by (auto simp: openRun_def run runLen_def)
  ultimately show ?case
    by (intro exI [of _ "[NewArray [w]]"] exI [of _ op']) (auto simp: runsOf_def run intro!: pulls.intros)
next
  case (stream_batch s b s1 bs s')
  let ?op = "op\<lparr>u_parent := s1\<rparr>"
  have op: "uniqInv ?op" "openRun ?op run" "typesIn ?op (bvals b)" "typesIn ?op (valuesOf bs)"
    using stream_batch.prems(2-4) by (auto simp: uniqInv_def openRun_def typesIn_def split: option.splits)
  have "runLen run + length (bvals b) < 2 ^ 64" using stream_batch.prems(5) by simp
  from uniq_vals_ok [OF op(1,2,3) this, of "[]", unfolded append_Nil] obtain ws op1 run1 rs where
    1: "uniq_vals ?op [] (bvals b) = Ok (ws, op1)" "later ?op op1" "openRun op1 run1"
    "runLen run1 \<le> runLen run + length (bvals b)" "run \<noteq> None \<or> bvals b \<noteq> [] \<longrightarrow> run1 \<noteq> None"
    "list_all2 (wrapped (u_cflag ?op)) rs ws" "\<forall>ts. runsOf run (bvals b @ ts) = rs @ runsOf run1 ts"
    by blast
  have later: "u_parent op1 = s1" "uniqInv op1" "typesIn op1 (valuesOf bs)" "u_cflag op1 = u_cflag op"
    using 1(2) typesIn_later [OF op(4) 1(2)] by (auto simp: later_def)
  have "runsOf run1 (valuesOf bs) \<noteq> []"
    using stream_batch.prems(6) 1(5) by (cases run1; cases run) (auto simp: runsOf_def runsFrom_eq)
  moreover have "runLen run1 + length (valuesOf bs) < 2 ^ 64" using 1(4) stream_batch.prems(5) by simp
  ultimately obtain out op2 where 2: "pulls (Uniq_Pull pull) op1 out op2" "out \<noteq> []"
    "list_all2 (wrapped (u_cflag op)) (runsOf run1 (valuesOf bs)) (valuesOf out)"
    "u_parent op2 = s'" "u_last op2 = None" "u_count op2 \<noteq> 0"
    using stream_batch.hyps(3) [OF later(1,2) 1(3) later(3)] unfolding later(4) by blast
  have all: "list_all2 (wrapped (u_cflag op)) (runsOf run (valuesOf (b # bs))) (ws @ valuesOf out)"
    using 1(6,7) 2(3) by (auto intro: list_all2_appendI)
  show ?case
  proof (cases "ws = []")
    case True
    then have "Uniq_Pull pull False op = Uniq_Pull pull False op1"
      using stream_batch.hyps(1) stream_batch.prems(1) 1(1) by (simp add: Uniq_Pull.simps [of pull False op])
    then show ?thesis using pulls_cong [of "Uniq_Pull pull" op op1 out op2] 2 all True by auto
  next
    case False
    then have "Uniq_Pull pull False op = Some (Ok (Some (NewArray ws)), op1)"
      using stream_batch.hyps(1) stream_batch.prems(1) 1(1) by (simp add: Uniq_Pull.simps [of pull False op])
    then show ?thesis using 2 all
      by (intro exI [of _ "NewArray ws # out"] exI [of _ op2]) (auto intro: pulls.intros)
  qed
qed

lemma uniq_no_values:
  assumes "stream pull s bs None s'" "valuesOf bs = []" "u_last op = None" "u_parent op = s"
  shows "stream (Uniq_Pull pull) op [] None (op\<lparr>u_parent := s'\<rparr>)"
  using assms
proof (induction s bs "None :: goerror option" s' arbitrary: op rule: stream.induct)
  case (stream_eos s s')
  then show ?case by (simp add: stream_resume Uniq_Pull.simps [of pull False op])
next
  case (stream_batch s b s1 bs s')
  have "Uniq_Pull pull False op = Uniq_Pull pull False (op\<lparr>u_parent := s1\<rparr>)"
    using stream_batch by (simp add: Uniq_Pull.simps [of pull False op])
  then show ?case using stream_batch.hyps(3) [of "op\<lparr>u_parent := s1\<rparr>"] stream_batch.prems
    by (simp add: stream_resume)
qed

end
