(* ===== verification/OpsProps.thy ===== *)
theory OpsProps
  imports Uniq ContextSpec
begin

text \<open>
  The properties of the pullers and of \<open>head\<close>, \<open>tail\<close> and \<open>uniq\<close>, each with a witness on the
  puller of an array of three values.
\<close>

section \<open>A concrete source\<close>

definition sampleVals :: "zvalue list" where
  "sampleVals = [(TypePrimitive TypeInt64, Some [2]), (TypePrimitive TypeInt64, Some [4]), (TypePrimitive TypeString, Some [4])]"

definition samplePull :: "(zvalue, zvalue batch zpuller) pull" where
  "samplePull = Puller_Pull 2 Array_Read"

definition sampleSource :: "zvalue batch zpuller" where
  "sampleSource = NewPuller (NewArray sampleVals)"

lemmas sample_defs = samplePull_def sampleSource_def sampleVals_def

lemma sample_stream:
  "stream samplePull sampleSource [NewArray (take 2 sampleVals), NewArray (drop 2 sampleVals)] None \<lparr>zr = None\<rparr>"
  by (simp add: stream_resume sample_defs Puller_Pull_def NewPuller_def puller_fill.simps [of Array_Read] Array_Read_def
      NewArray_def newPullerBatch_def appendVal_def PullerBatchBytes_def)

lemma sample_eos: "samplePull False \<lparr>zr = None\<rparr> = Some (Ok None, \<lparr>zr = None\<rparr>)"
  by (simp add: samplePull_def Puller_Pull_none)

lemma sample_values: "valuesOf [NewArray (take 2 sampleVals), NewArray (drop 2 sampleVals)] = sampleVals"
  by simp

lemma sample_puller: "puller samplePull (\<lambda>p. True)"
  unfolding samplePull_def by (rule NewPuller_puller) (rule noPanic_Array)

text \<open>A source of two streams, one after the other, as an operator sees it inside of a scope.\<close>

fun twoStreams :: "(zvalue, zvalue batch option list) pull" where
  "twoStreams done [] = Some (Ok None, [])"
| "twoStreams done (b # bs) = (if done then Some (Ok None, bs) else Some (Ok b, bs))"

section \<open>Pullers and readers\<close>

text \<open>C16: a puller over a reader delivers exactly the values of the reader, in order, in batches of
  at least one and at most \<open>PullerBatchValues\<close> values whose bytes, but for the last value, fit
  into \<open>PullerBatchBytes\<close>; and a reader over this puller reads the values again.\<close>

theorem NewPuller_batches:
  assumes "reads read r vs None r'" "0 < n"
  shows "\<exists>bs. stream (Puller_Pull n read) (NewPuller r) bs None \<lparr>zr = None\<rparr> \<and> valuesOf bs = vs \<and>
      (\<forall>b \<in> set bs. 1 \<le> length (bvals b) \<and> length (bvals b) \<le> n \<and> sizeOf (butlast (bvals b)) \<le> PullerBatchBytes) \<and>
      reads (PullerReader_Read (Puller_Pull n read)) (PullerReader (NewPuller r)) vs None (PullerReader \<lparr>zr = None\<rparr>)"
proof -
  obtain bs where "stream (Puller_Pull n read) (NewPuller r) bs None \<lparr>zr = None\<rparr>" "valuesOf bs = vs" "list_all (batchOK n) bs"
    using NewPuller_stream [OF assms] by (metis append_Nil2 option.case(1))
  then show ?thesis
    using PullerReader_reads [of "Puller_Pull n read" "NewPuller r" bs None "\<lparr>zr = None\<rparr>"]
    by (intro exI [of _ bs]) (auto simp: list_all_iff batchOK_def Suc_le_eq)
qed

theorem NewPuller_batches_witness:
  "\<exists>bs. stream (Puller_Pull 2 Array_Read) (NewPuller (NewArray sampleVals)) bs None \<lparr>zr = None\<rparr> \<and> valuesOf bs = sampleVals \<and>
      (\<forall>b \<in> set bs. 1 \<le> length (bvals b) \<and> length (bvals b) \<le> 2 \<and> sizeOf (butlast (bvals b)) \<le> PullerBatchBytes) \<and>
      reads (PullerReader_Read (Puller_Pull 2 Array_Read)) (PullerReader (NewPuller (NewArray sampleVals))) sampleVals None
        (PullerReader \<lparr>zr = None\<rparr>)"
  by (rule NewPuller_batches [OF Array_reads]) simp

section \<open>Head and tail\<close>

text \<open>C17: over a parent that keeps the pull protocol, \<open>head\<close> delivers the first \<open>limit\<close> values of its
  parent; it passes everything on, and the error or the end of the stream, when there are
  fewer, and otherwise stops the parent and returns end of stream.  It is then in its initial
  state.\<close>

theorem head_delivers_first:
  assumes "puller pull I" "I s" "stream pull s bs res s'" "0 < limit"
  shows "\<exists>out res' s''. stream (Head_Pull pull) (NewHead s limit) out res' (NewHead s'' limit) \<and> I s'' \<and>
      valuesOf out = take (nat limit) (valuesOf bs) \<and>
      (if int (length (valuesOf bs)) < limit then out = bs \<and> res' = res \<and> s'' = s' else res' = None)"
  using puller.head_stream [OF assms(1,3,2), of 0] assms(4) by (simp add: NewHead_def)

theorem head_delivers_first_witness:
  "\<exists>out res' s''. stream (Head_Pull samplePull) (NewHead sampleSource 2) out res' (NewHead s'' 2) \<and> True \<and>
      valuesOf out = take (nat 2) (valuesOf [NewArray (take 2 sampleVals), NewArray (drop 2 sampleVals)]) \<and>
      (if int (length (valuesOf [NewArray (take 2 sampleVals), NewArray (drop 2 sampleVals)])) < 2
       then out = [NewArray (take 2 sampleVals), NewArray (drop 2 sampleVals)] \<and> res' = None \<and> s'' = \<lparr>zr = None\<rparr>
       else res' = None)"
  by (rule head_delivers_first [OF sample_puller _ sample_stream]) simp_all

text \<open>C18: \<open>tail\<close> delivers the last \<open>limit\<close> values of its parent, never more, in their order, and is
  then in its initial state; an error of the parent is passed on and nothing else.\<close>

theorem tail_delivers_last:
  assumes "stream pull s bs res s'" "0 \<le> limit"
  shows "\<exists>out. stream (Tail_Pull pull) (NewTail s limit) out res (NewTail s' limit) \<and>
      int (length (valuesOf out)) \<le> limit \<and>
      (case res of None \<Rightarrow> valuesOf out = drop (length (valuesOf bs) - nat limit) (valuesOf bs) | Some e \<Rightarrow> out = [])"
proof -
  obtain out where "stream (Tail_Pull pull) (NewTail s limit) out res (NewTail s' limit)"
    and "case res of None \<Rightarrow> valuesOf out = drop (length (valuesOf bs) - nat limit) (valuesOf bs) | Some e \<Rightarrow> out = []"
    using tail_stream [OF assms] by blast
  moreover from this(2) have "int (length (valuesOf out)) \<le> limit" using assms(2) by (cases res) auto
  ultimately show ?thesis by blast
qed

theorem tail_delivers_last_witness:
  "\<exists>out. stream (Tail_Pull samplePull) (NewTail sampleSource 1) out None (NewTail \<lparr>zr = None\<rparr> 1) \<and>
      int (length (valuesOf out)) \<le> 1 \<and>
      (case (None :: goerror option) of None \<Rightarrow> valuesOf out = drop (length (valuesOf [NewArray (take 2 sampleVals), NewArray (drop 2 sampleVals)]) - nat 1)
         (valuesOf [NewArray (take 2 sampleVals), NewArray (drop 2 sampleVals)]) | Some e \<Rightarrow> out = [])"
  by (rule tail_delivers_last [OF sample_stream]) simp

section \<open>Uniq\<close>

text \<open>C19: over a source, which stays at end of stream, \<open>uniq\<close> delivers one value for each run of
  values with equal bytes: the first value of the run, or with \<open>-c\<close> the record of this value
  and the length of the run.\<close>

theorem uniq_delivers_runs:
  assumes "stream pull s bs None s'" "pull False s' = Some (Ok None, s')" "length (valuesOf bs) < 2 ^ 64"
    and "cflag \<longrightarrow> wf_ctx c \<and> (\<forall>v \<in> set (valuesOf bs). inC c (fst v))"
  shows "\<exists>out op. stream (Uniq_Pull pull) (NewUniq c s cflag) out None op \<and>
      list_all2 (wrapped cflag) (runs (valuesOf bs)) (valuesOf out)"
proof (cases "valuesOf bs = []")
  case True
  then show ?thesis using uniq_no_values [OF assms(1) True, of "NewUniq c s cflag"]
    by (fastforce simp: NewUniq_def)
next
  case False
  have init: "uniqInv (NewUniq c s cflag)" "openRun (NewUniq c s cflag) None" "typesIn (NewUniq c s cflag) (valuesOf bs)"
    "runsOf None (valuesOf bs) \<noteq> []"
    using assms(4) False by (cases "valuesOf bs"; simp add: NewUniq_def uniqInv_def openRun_def typesIn_def NewBuilder_def runsOf_def)+
  obtain out op where o: "pulls (Uniq_Pull pull) (NewUniq c s cflag) out op"
    "list_all2 (wrapped cflag) (runs (valuesOf bs)) (valuesOf out)" "u_parent op = s'" "u_last op = None"
    using uniq_pulls [OF assms(1) _ init(1,2,3) _ init(4)] assms(3) by (auto simp: NewUniq_def runLen_def runsOf_def)
  have "stream (Uniq_Pull pull) op [] None (op\<lparr>u_parent := s'\<rparr>)"
    using assms(2) o(3,4) by (simp add: stream_resume Uniq_Pull.simps [of pull False op])
  then show ?thesis using pulls_stream [OF o(1)] o(2) by fastforce
qed

theorem uniq_delivers_runs_witness:
  "\<exists>out op. stream (Uniq_Pull samplePull) (NewUniq NewContext sampleSource True) out None op \<and>
      list_all2 (wrapped True) (runs (valuesOf [NewArray (take 2 sampleVals), NewArray (drop 2 sampleVals)])) (valuesOf out)"
  by (rule uniq_delivers_runs [OF sample_stream sample_eos])
    (auto simp: sampleVals_def wf_NewContext)

text \<open>C39: \<open>uniq\<close> does not keep the protocol.  It returns its last value when it is told to stop, where
  \<open>head\<close> panics, and after the end of a stream it keeps the count of the last run without its
  value, so it panics on the first value of the next stream.\<close>

theorem uniq_breaks_protocol:
  assumes "stream pull s bs None s'" "valuesOf bs \<noteq> []" "length (valuesOf bs) < 2 ^ 64"
    and "pull False s' = Some (Ok (Some b), s2)" "bvals b \<noteq> []"
    and "u_last op = Some l" "\<not> u_cflag op" "pull True (u_parent op) = Some (Ok None, s1)"
  shows "(\<exists>out op1 op2. pulls (Uniq_Pull pull) (NewUniq c s False) out op1 \<and> valuesOf out = map fst (runs (valuesOf bs)) \<and>
       Uniq_Pull pull False op1 = Some (Panic, op2)) \<and>
     (\<exists>op'. Uniq_Pull pull True op = Some (Ok (Some (NewArray [l])), op') \<and>
       Head_Pull (Uniq_Pull pull) True \<lparr>h_parent = op, h_limit = 1 + k, h_count = k\<rparr> =
         Some (Panic, \<lparr>h_parent = op', h_limit = 1 + k, h_count = k\<rparr>))"
proof
  have init: "uniqInv (NewUniq c s False)" "openRun (NewUniq c s False) None" "typesIn (NewUniq c s False) (valuesOf bs)"
    "runsOf None (valuesOf bs) \<noteq> []"
    using assms(2) by (cases "valuesOf bs"; simp add: NewUniq_def uniqInv_def openRun_def typesIn_def NewBuilder_def runsOf_def)+
  obtain out op1 where o: "pulls (Uniq_Pull pull) (NewUniq c s False) out op1"
    "list_all2 (wrapped False) (runs (valuesOf bs)) (valuesOf out)" "u_parent op1 = s'" "u_last op1 = None" "u_count op1 \<noteq> 0"
    using uniq_pulls [OF assms(1) _ init(1,2,3) _ init(4)] assms(3) by (auto simp: NewUniq_def runLen_def runsOf_def)
  obtain v vs where "bvals b = v # vs" using assms(5) by (cases "bvals b") auto
  then have "Uniq_Pull pull False op1 = Some (Panic, op1\<lparr>u_parent := s2\<rparr>)"
    using assms(4) o(3-5) by (simp add: Uniq_Pull.simps [of pull False op1] appendUniq_def)
  moreover have "valuesOf out = map fst (runs (valuesOf bs))"
    using o(2) by (auto simp: list_all2_conv_all_nth wrapped_def split_beta intro!: nth_equalityI)
  ultimately show "\<exists>out op1 op2. pulls (Uniq_Pull pull) (NewUniq c s False) out op1 \<and>
      valuesOf out = map fst (runs (valuesOf bs)) \<and> Uniq_Pull pull False op1 = Some (Panic, op2)"
    using o(1) by blast
  show "\<exists>op'. Uniq_Pull pull True op = Some (Ok (Some (NewArray [l])), op') \<and>
       Head_Pull (Uniq_Pull pull) True \<lparr>h_parent = op, h_limit = 1 + k, h_count = k\<rparr> =
         Some (Panic, \<lparr>h_parent = op', h_limit = 1 + k, h_count = k\<rparr>)"
    using assms(6-8) by (auto simp: Head_Pull_def Uniq_Pull.simps [of pull True] uniq_wrap_def)
qed

definition openUniq :: "zvalue batch option list uniqOp" where
  "openUniq = (NewUniq NewContext [None] False)\<lparr>u_last := Some (hd sampleVals), u_count := 1\<rparr>"

theorem uniq_breaks_protocol_witness:
  "(\<exists>out op1 op2. pulls (Uniq_Pull twoStreams)
        (NewUniq NewContext [Some (NewArray sampleVals), None, Some (NewArray sampleVals)] False) out op1 \<and>
       valuesOf out = map fst (runs (valuesOf [NewArray sampleVals])) \<and>
       Uniq_Pull twoStreams False op1 = Some (Panic, op2)) \<and>
     (\<exists>op'. Uniq_Pull twoStreams True openUniq = Some (Ok (Some (NewArray [hd sampleVals])), op') \<and>
       Head_Pull (Uniq_Pull twoStreams) True \<lparr>h_parent = openUniq, h_limit = 1 + 0, h_count = 0\<rparr> =
         Some (Panic, \<lparr>h_parent = op', h_limit = 1 + 0, h_count = 0\<rparr>))"
  by (rule uniq_breaks_protocol [where s' = "[Some (NewArray sampleVals)]" and ?s2.0 = "[]" and b = "NewArray sampleVals" and ?s1.0 = "[]"])
    (simp_all add: stream_resume sampleVals_def openUniq_def NewUniq_def)

end
