(* ===== verification/Compare.thy ===== *)
theory Compare
  imports Value
begin

text \<open>
  Comparison and sorting of values (\<open>runtime/sam/expr/sort.go\<close>, \<open>compareNumbers\<close> of
  \<open>runtime/sam/expr/eval.go\<close>).  Expressions are evaluator functions on values.  The comparison
  of two numbers of which one is a float is a parameter \<open>fl\<close>, since Go's floating-point
  arithmetic is not modelled; everything else is.
\<close>

section \<open>Numbers\<close>

type_synonym fcmp = "zvalue \<Rightarrow> zvalue \<Rightarrow> int go"

definition compareNumbers :: "fcmp \<Rightarrow> zvalue \<Rightarrow> zvalue \<Rightarrow> nat \<Rightarrow> nat \<Rightarrow> int go" where
  "compareNumbers fl a b aid bid =
     (if IsFloat aid then fl a b
      else if IsFloat bid then fl a b
      else if IsSigned aid then
        bindR (Value_Int a) (\<lambda>av.
        if IsUnsigned bid then
          (if sint av < 0 then Ok (-1) else bindR (Value_Uint b) (\<lambda>bv. Ok (go_cmp av bv)))
        else bindR (Value_Int b) (\<lambda>bv. Ok (go_cmp (sint av) (sint bv))))
      else if IsSigned bid then
        bindR (Value_Int b) (\<lambda>bv.
        if IsUnsigned aid then
          (if sint bv < 0 then Ok 1 else bindR (Value_Uint a) (\<lambda>av. Ok (go_cmp av bv)))
        else bindR (Value_Int a) (\<lambda>av. Ok (go_cmp (sint av) (sint bv))))
      else bindR (Value_Uint a) (\<lambda>av. bindR (Value_Uint b) (\<lambda>bv. Ok (go_cmp av bv))))"

section \<open>Values\<close>

text \<open>
  \<open>DecodeIP(a).Compare(DecodeIP(b))\<close>: an address has 0, 4, 16 or more bytes (an IPv6 address and
  its zone); addresses are ordered by size, then by bytes, then by zone.
\<close>

definition ipBits :: "bytes \<Rightarrow> nat go" where
  "ipBits b = (if length b = 0 then Ok 0 else if length b = 4 then Ok 32 else if 16 \<le> length b then Ok 128 else Panic)"

definition compareIP :: "bytes \<Rightarrow> bytes \<Rightarrow> int go" where
  "compareIP a b =
     bindR (ipBits a) (\<lambda>x. bindR (ipBits b) (\<lambda>y.
     Ok (if x \<noteq> y then go_cmp x y else strings_Compare a b)))"

text \<open>The case of type values, which are decoded in a fresh context.\<close>

definition compareTypeValues :: "bytes \<Rightarrow> bytes \<Rightarrow> int go" where
  "compareTypeValues a b =
     bindR (DecodeTypeValue NewContext a) (\<lambda>(av, c).
     bindR (DecodeTypeValue c b) (\<lambda>(bv, _).
     case (av, bv) of (Some (at, _), Some (bt, _)) \<Rightarrow> Ok (CompareTypes at bt) | _ \<Rightarrow> Panic))"

lemma go_slice_lengths:
  "go_slice s lo hi = Ok r \<Longrightarrow> 0 \<le> lo \<and> lo \<le> hi \<and> hi \<le> int (length s) \<and> length r = nat hi - nat lo"
  by (auto simp: go_slice_def split: if_splits)

lemma Iter_Next_shorter: "Iter_Next it = Ok (v, rest) \<Longrightarrow> length rest < length it"
  by (auto simp: Iter_Next_def Let_def bindR_Ok_iff split: prod.splits if_splits dest!: go_slice_lengths)

text \<open>The loop over the elements of two arrays or sets.\<close>

function compareElems :: "(zbytes \<Rightarrow> zbytes \<Rightarrow> int go) \<Rightarrow> bytes \<Rightarrow> bytes \<Rightarrow> int go" where
  "compareElems f ita itb =
     (if Iter_Done ita then Ok (if Iter_Done itb then 0 else -1)
      else if Iter_Done itb then Ok 1
      else
        bindR (Iter_Next ita) (\<lambda>(aa, ita').
        bindR (Iter_Next itb) (\<lambda>(bb, itb').
        bindR (f aa bb) (\<lambda>v.
        if v \<noteq> 0 then Ok v else compareElems f ita' itb'))))"
  by pat_completeness auto
termination
  by (relation "measure (\<lambda>(_, ita, _). length ita)") (auto dest: Iter_Next_shorter)

declare compareElems.simps [simp del]

lemma InnerType_smaller: "InnerType t = Some u \<Longrightarrow> size u < size t"
  by (auto simp: InnerType_def split: ztype.splits dest: under_smaller)

function compareValues :: "fcmp \<Rightarrow> bool \<Rightarrow> zvalue \<Rightarrow> zvalue \<Rightarrow> int go" where
  "compareValues fl nullsMax a b =
     (let nullA = (snd a = None); nullB = (snd b = None); aid = ID (fst a); bid = ID (fst b) in
      if nullA \<and> nullB then Ok 0
      else if nullA then Ok (if nullsMax then 1 else -1)
      else if nullB then Ok (if nullsMax then -1 else 1)
      else if IsNumber aid \<and> IsNumber bid then compareNumbers fl a b aid bid
      else if aid \<noteq> bid then Ok (CompareTypes (fst a) (fst b))
      else if aid = 23 then
        bindR (Value_Bool a) (\<lambda>av. bindR (Value_Bool b) (\<lambda>bv. Ok (if av = bv then 0 else if av then 1 else -1)))
      else if aid = 24 then Ok (strings_Compare (buf (snd a)) (buf (snd b)))
      else if aid = 25 then Ok (strings_Compare (buf (snd a)) (buf (snd b)))
      else if aid = 26 then compareIP (buf (snd a)) (buf (snd b))
      else if aid = 28 then compareTypeValues (buf (snd a)) (buf (snd b))
      else
        case InnerType (fst a) of
          Some innerType \<Rightarrow>
            compareElems (\<lambda>aa bb. compareValues fl nullsMax (innerType, aa) (innerType, bb)) (buf (snd a)) (buf (snd b))
        | None \<Rightarrow> Ok (strings_Compare (buf (snd a)) (buf (snd b))))"
  by pat_completeness auto
termination
  by (relation "measure (\<lambda>(_, _, a, _). size (fst a))") (auto dest: InnerType_smaller)

declare compareValues.simps [simp del]

section \<open>Comparators\<close>

text \<open>A sort expression: an evaluator and its order, \<open>True\<close> for descending.\<close>

record sortEvaluator =
  se_Eval :: "zvalue \<Rightarrow> zvalue"
  se_Desc :: bool

record comparator =
  c_exprs :: "sortEvaluator list"
  c_nullsMax :: bool

definition NewComparator :: "bool \<Rightarrow> sortEvaluator list \<Rightarrow> comparator" where
  "NewComparator nullsMax exprs = \<lparr>c_exprs = exprs, c_nullsMax = nullsMax\<rparr>"

definition missingAsNull :: "(zvalue \<Rightarrow> zvalue) \<Rightarrow> zvalue \<Rightarrow> zvalue" where
  "missingAsNull eval val =
     (let val = eval val in if Value_IsMissing val then (TypePrimitive TypeNull, None) else val)"

definition WithMissingAsNull :: "comparator \<Rightarrow> comparator" where
  "WithMissingAsNull c = c\<lparr>c_exprs := map (\<lambda>k. k\<lparr>se_Eval := missingAsNull (se_Eval k)\<rparr>) (c_exprs c)\<rparr>"

fun compare_exprs :: "fcmp \<Rightarrow> bool \<Rightarrow> sortEvaluator list \<Rightarrow> zvalue \<Rightarrow> zvalue \<Rightarrow> int go" where
  "compare_exprs fl nullsMax [] a b = Ok 0"
| "compare_exprs fl nullsMax (k # ks) a b =
     (let aval = se_Eval k a; bval = se_Eval k b;
          (aval, bval) = (if se_Desc k then (bval, aval) else (aval, bval)) in
      bindR (compareValues fl nullsMax aval bval) (\<lambda>v.
      if v \<noteq> 0 then Ok v else compare_exprs fl nullsMax ks a b))"

definition Comparator_Compare :: "fcmp \<Rightarrow> comparator \<Rightarrow> zvalue \<Rightarrow> zvalue \<Rightarrow> int go" where
  "Comparator_Compare fl c a b = compare_exprs fl (c_nullsMax c) (c_exprs c) a b"

definition NewCompareFn :: "fcmp \<Rightarrow> bool \<Rightarrow> (zvalue \<Rightarrow> zvalue) list \<Rightarrow> zvalue \<Rightarrow> zvalue \<Rightarrow> int go" where
  "NewCompareFn fl nullsMax exprs =
     Comparator_Compare fl (WithMissingAsNull (NewComparator nullsMax (map (\<lambda>e. \<lparr>se_Eval = e, se_Desc = False\<rparr>) exprs)))"

definition NewValueCompareFn :: "fcmp \<Rightarrow> bool \<Rightarrow> bool \<Rightarrow> zvalue \<Rightarrow> zvalue \<Rightarrow> int go" where
  "NewValueCompareFn fl desc nullsMax = Comparator_Compare fl (NewComparator nullsMax [\<lparr>se_Eval = (\<lambda>this. this), se_Desc = desc\<rparr>])"

section \<open>Stable sorting\<close>

definition MaxInt64 :: int where "MaxInt64 = 2 ^ 63 - 1"
definition MinInt64 :: int where "MinInt64 = - (2 ^ 63)"

text \<open>The 64-bit key of a value of an integer type.\<close>

definition i64key :: "bool \<Rightarrow> zvalue \<Rightarrow> int go" where
  "i64key nullsMax val =
     (if snd val = None then Ok (if nullsMax then MaxInt64 else MinInt64)
      else if IsSigned (ID (fst val)) then bindR (Value_Int val) (\<lambda>v. Ok (sint v))
      else bindR (Value_Uint val) (\<lambda>v. Ok (if MaxInt64 < uint v then MaxInt64 else uint v)))"

definition isNative :: "zvalue \<Rightarrow> bool" where
  "isNative val \<longleftrightarrow> ID (fst val) \<le> 13"

text \<open>
  A comparison that panics ends the sort; the functions below are only meant for values whose
  comparisons do not, and give such a comparison the result 0.
\<close>

definition okInt :: "int go \<Rightarrow> int" where
  "okInt r = (case r of Ok v \<Rightarrow> v | _ \<Rightarrow> 0)"

text \<open>The function passed to \<open>sort.SliceStable\<close>: the first expression from the tables, the others evaluated.\<close>

definition stable_less :: "fcmp \<Rightarrow> comparator \<Rightarrow> zvalue list \<Rightarrow> bool \<Rightarrow> int list \<Rightarrow> zvalue list \<Rightarrow> nat \<Rightarrow> nat \<Rightarrow> bool" where
  "stable_less fl c vals native i64s val0s i j =
     (case c_exprs c of
        [] \<Rightarrow> False
      | k # ks \<Rightarrow>
          (let (iidx, jidx) = (if se_Desc k then (j, i) else (i, j));
               i64 = i64s ! iidx; j64 = i64s ! jidx;
               rest = okInt (compare_exprs fl (c_nullsMax c) ks (vals ! i) (vals ! j)) < 0 in
           if native \<and> i64 \<noteq> j64 then i64 < j64
           else if native \<and> i64 \<noteq> MaxInt64 \<and> i64 \<noteq> MinInt64 then rest
           else
             let v = okInt (compareValues fl (c_nullsMax c) (val0s ! iidx) (val0s ! jidx)) in
             if v \<noteq> 0 then v < 0 else rest))"

definition sortStableIndices :: "fcmp \<Rightarrow> comparator \<Rightarrow> zvalue list \<Rightarrow> nat list go" where
  "sortStableIndices fl c vals =
     (case c_exprs c of
        [] \<Rightarrow> Ok []
      | k # _ \<Rightarrow>
          if 2 ^ 32 - 1 < length vals then Panic
          else
            let val0s = map (se_Eval k) vals;
                i64s = map (\<lambda>v. if isNative v then okInt (i64key (c_nullsMax c) v) else 0) val0s;
                native = list_all isNative val0s
            in Ok (SliceStable (stable_less fl c vals native i64s val0s) [0..<length vals]))"

text \<open>The loop of \<open>SortStable\<close>, which moves the values in place; \<open>tmp\<close> keeps the values overwritten.\<close>

fun sort_move :: "nat \<Rightarrow> nat list \<Rightarrow> zvalue list \<Rightarrow> zvalue list \<Rightarrow> zvalue list" where
  "sort_move i [] tmp vals = vals"
| "sort_move i (j # js) tmp vals =
     (let tmp = tmp[i := vals ! i];
          vals = (if i < j then vals[i := vals ! j] else if i > j then vals[i := tmp ! j] else vals)
      in sort_move (Suc i) js tmp vals)"

definition SortStable :: "fcmp \<Rightarrow> comparator \<Rightarrow> zvalue list \<Rightarrow> zvalue list go" where
  "SortStable fl c vals =
     bindR (sortStableIndices fl c vals) (\<lambda>indices.
     Ok (sort_move 0 indices (replicate (length vals) (TypePrimitive TypeNull, None)) vals))"

text \<open>\<open>SortStableReader\<close> and its \<open>Read\<close>.\<close>

record sortStableReader =
  ssr_indices :: "nat list"
  ssr_vals :: "zvalue list"

definition SortStableReader :: "fcmp \<Rightarrow> comparator \<Rightarrow> zvalue list \<Rightarrow> sortStableReader go" where
  "SortStableReader fl c vals =
     bindR (sortStableIndices fl c vals) (\<lambda>indices. Ok \<lparr>ssr_indices = indices, ssr_vals = vals\<rparr>)"

definition sortStableReader_Read :: "sortStableReader \<Rightarrow> zvalue option go \<times> sortStableReader" where
  "sortStableReader_Read s =
     (case ssr_indices s of
        [] \<Rightarrow> (Ok None, s)
      | i # is \<Rightarrow>
          if i < length (ssr_vals s) then (Ok (Some (ssr_vals s ! i)), s\<lparr>ssr_indices := is\<rparr>) else (Panic, s))"

section \<open>Guessing a sort key\<close>

text \<open>
  The sort key that is guessed when a query gives none (\<open>GuessSortKey\<close> and \<open>firstMatchingField\<close> of
  \<open>runtime/sam/op/sort/sort.go\<close>): the first integer field of the record in depth-first order,
  else the first float, else the first field that is not a time, else \<open>ts\<close>.  A path is the list
  of its field names; the nil path, which stands for the value itself, is the empty list.
\<close>

text \<open>The fields of the record that a type is, and none when it is no record.\<close>

definition recordFields :: "ztype \<Rightarrow> (gostring \<times> ztype) list" where
  "recordFields t = (case TypeRecordOf t of Some (TypeRecord i fs) \<Rightarrow> fs | _ \<Rightarrow> [])"

lemma recordFields_smaller: "size_list (size_prod (\<lambda>_. 0) size) (recordFields t) \<le> Suc (size t + n)"
  using size_TypeUnder [of t] by (auto simp: recordFields_def TypeRecordOf_def split: ztype.splits)

function firstMatchingField :: "(gostring \<times> ztype) list \<Rightarrow> (nat \<Rightarrow> bool) \<Rightarrow> gostring list option" where
  "firstMatchingField [] pred = None"
| "firstMatchingField ((name, t) # fs) pred =
     (if pred (ID t) then Some [name]
      else
        case firstMatchingField (recordFields t) pred of
          Some ff \<Rightarrow> Some (name # ff)
        | None \<Rightarrow> firstMatchingField fs pred)"
  by pat_completeness auto
termination
  by (relation "measure (\<lambda>(fs, _). size_list (size_prod (\<lambda>_. 0) size) fs)")
    (auto simp: less_Suc_eq_le recordFields_smaller)

definition GuessSortKey :: "ztype \<Rightarrow> gostring list" where
  "GuessSortKey t =
     (case TypeRecordOf t of
        Some (TypeRecord i fs) \<Rightarrow>
          (case firstMatchingField fs IsInteger of
             Some f \<Rightarrow> f
           | None \<Rightarrow>
               (case firstMatchingField fs IsFloat of
                  Some f \<Rightarrow> f
                | None \<Rightarrow>
                    (case firstMatchingField fs (\<lambda>i. i \<noteq> 13) of
                       Some f \<Rightarrow> f
                     | None \<Rightarrow> [str ''ts''])))
      | _ \<Rightarrow> [])"

text \<open>All paths into a record in depth-first order, each with the type that it leads to.\<close>

function allPaths :: "(gostring \<times> ztype) list \<Rightarrow> (gostring list \<times> ztype) list" where
  "allPaths [] = []"
| "allPaths ((name, t) # fs) =
     ([name], t) # map (\<lambda>(p, u). (name # p, u)) (allPaths (recordFields t)) @ allPaths fs"
  by pat_completeness auto
termination
  by (relation "measure (size_list (size_prod (\<lambda>_. 0) size))")
    (auto simp: less_Suc_eq_le recordFields_smaller)

lemma find_append: "find P (xs @ ys) = (case find P xs of None \<Rightarrow> find P ys | Some x \<Rightarrow> Some x)"
  by (induction xs) auto

lemma find_map: "find P (map f xs) = map_option f (find (\<lambda>x. P (f x)) xs)"
  by (induction xs) auto

lemma firstMatchingField_find: "firstMatchingField fs pred = map_option fst (find (\<lambda>(p, t). pred (ID t)) (allPaths fs))"
  by (induction fs pred rule: firstMatchingField.induct)
    (auto simp: find_append find_map split_beta option.map_comp comp_def split: option.splits)

end
