(* ===== verification/CompareLaws.thy ===== *)
theory CompareLaws
  imports Compare
begin

text \<open>
  Laws of comparisons and sorting.  A comparison function is an ordering on a set of values
  (locale \<open>ordering\<close>); merge, join and top rely on it.  The comparison of values that are
  null, integers, booleans, strings, bytes or networks is one.  \<open>SortStable\<close>, with its table of
  64-bit keys and its moves in place, is the stable sort by \<open>Compare\<close>.
\<close>

section \<open>Orderings\<close>

locale ordering =
  fixes cmp :: "'v \<Rightarrow> 'v \<Rightarrow> int" and V :: "'v \<Rightarrow> bool"
  assumes cmp_flip: "V a \<Longrightarrow> V b \<Longrightarrow> cmp b a < 0 \<longleftrightarrow> 0 < cmp a b"
    and cmp_trans: "V a \<Longrightarrow> V b \<Longrightarrow> V c \<Longrightarrow> cmp a b \<le> 0 \<Longrightarrow> cmp b c \<le> 0 \<Longrightarrow> cmp a c \<le> 0"
begin

lemma cmp_refl: "V a \<Longrightarrow> cmp a a = 0"
  using cmp_flip [of a a] by linarith

lemma cmp_total: "V a \<Longrightarrow> V b \<Longrightarrow> cmp a b \<le> 0 \<or> cmp b a \<le> 0"
  using cmp_flip [of a b] by linarith

lemma cmp_pos: "V a \<Longrightarrow> V b \<Longrightarrow> 0 < cmp a b \<longleftrightarrow> cmp b a < 0"
  using cmp_flip [of a b] by simp

lemma cmp_eq_sym: "V a \<Longrightarrow> V b \<Longrightarrow> cmp a b = 0 \<longleftrightarrow> cmp b a = 0"
  using cmp_flip [of a b] cmp_flip [of b a] by linarith

lemma cmp_less_le: "V a \<Longrightarrow> V b \<Longrightarrow> V c \<Longrightarrow> cmp a b < 0 \<Longrightarrow> cmp b c \<le> 0 \<Longrightarrow> cmp a c < 0"
  using cmp_trans [of b c a] cmp_flip [of c a] cmp_flip [of b a] by (metis linorder_not_less)

lemma cmp_le_less: "V a \<Longrightarrow> V b \<Longrightarrow> V c \<Longrightarrow> cmp a b \<le> 0 \<Longrightarrow> cmp b c < 0 \<Longrightarrow> cmp a c < 0"
  using cmp_trans [of c a b] cmp_flip [of c a] cmp_flip [of c b] by (metis linorder_not_less)

lemma cmp_eq_left: "V a \<Longrightarrow> V b \<Longrightarrow> V c \<Longrightarrow> cmp a b = 0 \<Longrightarrow> sgn (cmp a c) = sgn (cmp b c)"
proof -
  assume v: "V a" "V b" "V c" and eq: "cmp a b = 0"
  then have eq': "cmp b a = 0" using cmp_eq_sym by blast
  have "cmp a c \<le> 0 \<longleftrightarrow> cmp b c \<le> 0" using cmp_trans [of a b c] cmp_trans [of b a c] v eq eq' by auto
  moreover have "cmp a c < 0 \<longleftrightarrow> cmp b c < 0" using cmp_le_less [of a b c] cmp_le_less [of b a c] v eq eq' by auto
  ultimately show ?thesis by (auto simp: sgn_if)
qed

text \<open>Reversing an ordering gives an ordering: this is what \<open>Desc\<close> does.\<close>

lemma ordering_flip: "ordering (\<lambda>a b. cmp b a) V"
  using cmp_flip cmp_trans by unfold_locales blast+

end

lemma ordering_mono: "ordering cmp V \<Longrightarrow> (\<And>v. W v \<Longrightarrow> V v) \<Longrightarrow> ordering cmp W"
  unfolding ordering_def by blast

lemma ordering_cong:
  assumes "ordering c V" and "\<And>a b. V a \<Longrightarrow> V b \<Longrightarrow> c' a b = c a b"
  shows "ordering c' V"
proof
  fix a b assume "V a" "V b"
  then show "(c' b a < 0) = (0 < c' a b)" using ordering.cmp_flip [OF assms(1)] assms(2) by simp
next
  fix a b d assume "V a" "V b" "V d" "c' a b \<le> 0" "c' b d \<le> 0"
  then show "c' a d \<le> 0" using ordering.cmp_trans [OF assms(1), of a b d] assms(2) by simp
qed

lemma ordering_inv: "ordering cmp V \<Longrightarrow> (\<And>v. W v \<Longrightarrow> V (f v)) \<Longrightarrow> ordering (\<lambda>a b. cmp (f a) (f b)) W"
  unfolding ordering_def by blast

text \<open>Comparing by one ordering and, when it cannot decide, by another.\<close>

lemma ordering_then:
  assumes "ordering c1 V" "ordering c2 V"
  shows "ordering (\<lambda>a b. if c1 a b \<noteq> 0 then c1 a b else c2 a b) V"
proof
  note o1 = ordering.cmp_flip [OF assms(1)] ordering.cmp_flip [OF assms(2)]
  fix a b assume "V a" "V b"
  then show "((if c1 b a \<noteq> 0 then c1 b a else c2 b a) < 0) = (0 < (if c1 a b \<noteq> 0 then c1 a b else c2 a b))"
    using o1 [of a b] o1 [of b a] by auto
next
  note facts = ordering.cmp_less_le [OF assms(1)] ordering.cmp_le_less [OF assms(1)] ordering.cmp_trans [OF assms(1)]
    ordering.cmp_trans [OF assms(2)]
  fix a b c assume v: "V a" "V b" "V c"
    and le: "(if c1 a b \<noteq> 0 then c1 a b else c2 a b) \<le> 0" "(if c1 b c \<noteq> 0 then c1 b c else c2 b c) \<le> 0"
  then have "c1 a b \<le> 0" "c1 b c \<le> 0" by (auto split: if_splits)
  then have "c1 a c < 0 \<or> c1 a b = 0 \<and> c1 b c = 0 \<and> c1 a c \<le> 0"
    using facts(1-3) [of a b c] v by fastforce
  then show "(if c1 a c \<noteq> 0 then c1 a c else c2 a c) \<le> 0"
    using le facts(4) [of a b c] v by (auto split: if_splits)
qed

lemma ordering_go_cmp: "ordering go_cmp (\<lambda>v. True)"
  by unfold_locales (auto simp: go_cmp_def split: if_splits)

lemma ordering_strings_Compare: "ordering strings_Compare (\<lambda>v. True)"
proof
  fix a b show "(strings_Compare b a < 0) = (0 < strings_Compare a b)"
    using strings_Compare_antisym [of a b] by simp
qed (rule strings_Compare_trans)

section \<open>Integers\<close>

text \<open>The number that a value of an integer type stands for.\<close>

definition intOf :: "zvalue \<Rightarrow> int" where
  "intOf v = (if IsSigned (ID (fst v)) then sint (DecodeInt (snd v)) else uint (DecodeUint (snd v)))"

text \<open>IDs below 30 belong to primitive types; a context gives no others.\<close>

definition properID :: "ztype \<Rightarrow> bool" where
  "properID t \<longleftrightarrow> (case TypeUnder t of TypePrimitive p \<Rightarrow> True | u \<Rightarrow> 30 \<le> ID u)"

lemma native_cases:
  assumes "isNative v" "properID (fst v)"
  obtains "IsSigned (ID (fst v))" "\<not> IsUnsigned (ID (fst v))" "\<not> IsFloat (ID (fst v))" "IsNumber (ID (fst v))"
    "Value_Int v = Ok (DecodeInt (snd v))"
  | "\<not> IsSigned (ID (fst v))" "IsUnsigned (ID (fst v))" "\<not> IsFloat (ID (fst v))" "IsNumber (ID (fst v))"
    "Value_Uint v = Ok (DecodeUint (snd v))"
proof -
  obtain p where p: "TypeUnder (fst v) = TypePrimitive p"
    using assms ID_TypeUnder [of "fst v"] by (cases "TypeUnder (fst v)") (auto simp: properID_def isNative_def)
  then have "ID (fst v) = prim_ID p" using ID_TypeUnder [of "fst v"] by simp
  then show thesis
    using that assms(1)
    by (cases p) (auto simp: isNative_def IsSigned_def IsUnsigned_def IsFloat_def IsNumber_def Value_Int_def Value_Uint_def)
qed

lemma go_cmp_word: "go_cmp (a :: u64) b = go_cmp (uint a) (uint b)"
  by (simp add: go_cmp_def word_less_def)

lemma sint_nonneg: "0 \<le> sint (a :: u64) \<Longrightarrow> sint a = uint a"
proof -
  assume nonneg: "0 \<le> sint a"
  have "uint a < 2 ^ 63"
  proof (rule ccontr)
    assume "\<not> uint a < 2 ^ 63"
    moreover have "uint a < 2 ^ 64" using uint_lt2p [of a] by simp
    ultimately have "sint a = uint a - 2 ^ 64"
      by (simp add: sint_uint signed_take_bit_eq_take_bit_shift take_bit_eq_mod mod_pos_geq)
    then show False using nonneg \<open>uint a < 2 ^ 64\<close> by simp
  qed
  moreover have "- (2 ^ 63) \<le> uint a" by (rule order_trans [OF _ uint_ge_0]) simp
  ultimately show ?thesis using signed_take_bit_int_eq_self [of 63 "uint a"] by (simp add: sint_uint)
qed

lemma compareNumbers_integers:
  assumes "isNative a" "isNative b" "properID (fst a)" "properID (fst b)"
  shows "compareNumbers fl a b (ID (fst a)) (ID (fst b)) = Ok (go_cmp (intOf a) (intOf b))"
proof -
  have lt: "sint x < uint y" if "sint x < 0" for x y :: u64 using that uint_ge_0 [of y] by linarith
  show ?thesis
    using assms(1,3)
  proof (cases rule: native_cases)
    case 1
    note A = 1
    from assms(2,4) show ?thesis
    proof (cases rule: native_cases)
      case 1
      then show ?thesis using A by (simp add: compareNumbers_def intOf_def)
    next
      case 2
      then show ?thesis using A lt [of "DecodeInt (snd a)" "DecodeUint (snd b)"] sint_nonneg [of "DecodeInt (snd a)"]
        by (auto simp: compareNumbers_def intOf_def go_cmp_word) (simp add: go_cmp_def)
    qed
  next
    case 2
    note A = 2
    from assms(2,4) show ?thesis
    proof (cases rule: native_cases)
      case 1
      then show ?thesis using A lt [of "DecodeInt (snd b)" "DecodeUint (snd a)"] sint_nonneg [of "DecodeInt (snd b)"]
        by (auto simp: compareNumbers_def intOf_def go_cmp_word) (simp add: go_cmp_def)
    next
      case 2
      then show ?thesis using A by (simp add: compareNumbers_def intOf_def go_cmp_word)
    qed
  qed
qed

text \<open>Values of integer types: nulls at one end, otherwise by number.\<close>

lemma compareValues_native:
  assumes "isNative a" "isNative b" "properID (fst a)" "properID (fst b)"
  shows "compareValues fl nullsMax a b = Ok
    (if snd a = None \<and> snd b = None then 0
     else if snd a = None then (if nullsMax then 1 else -1)
     else if snd b = None then (if nullsMax then -1 else 1)
     else go_cmp (intOf a) (intOf b))"
proof -
  have "IsNumber (ID (fst a))" "IsNumber (ID (fst b))" using assms by (auto simp: isNative_def IsNumber_def)
  then show ?thesis using compareNumbers_integers [OF assms] by (simp add: compareValues.simps [of fl nullsMax a b] Let_def)
qed

lemma i64key_native:
  assumes "isNative v" "properID (fst v)"
  shows "i64key nullsMax v = Ok (if snd v = None then (if nullsMax then MaxInt64 else MinInt64) else min (intOf v) MaxInt64)"
  using assms
proof (cases rule: native_cases)
  case 1
  then show ?thesis using sint_less [of "DecodeInt (snd v)"] by (simp add: i64key_def intOf_def MaxInt64_def)
next
  case 2
  then show ?thesis by (simp add: i64key_def intOf_def MaxInt64_def)
qed

lemma intOf_ge: "MinInt64 \<le> intOf v"
proof -
  have "- (2 ^ 63) \<le> sint (DecodeInt (snd v))" using sint_ge [of "DecodeInt (snd v)"] by simp
  moreover have "- (2 ^ 63) \<le> uint (DecodeUint (snd v))" by (rule order_trans [OF _ uint_ge_0]) simp
  ultimately show ?thesis by (simp add: intOf_def MinInt64_def)
qed

text \<open>The table of 64-bit keys decides as \<open>compareValues\<close> does, where it decides.\<close>

lemma i64key_decides:
  assumes "isNative a" "isNative b" "properID (fst a)" "properID (fst b)"
    and "x = okInt (i64key nullsMax a)" "y = okInt (i64key nullsMax b)"
    and "v = okInt (compareValues fl nullsMax a b)"
  shows "x \<noteq> y \<Longrightarrow> v \<noteq> 0 \<and> (x < y \<longleftrightarrow> v < 0)" and "x = y \<Longrightarrow> x \<noteq> MaxInt64 \<Longrightarrow> x \<noteq> MinInt64 \<Longrightarrow> v = 0"
  using assms(5-7) intOf_ge [of a] intOf_ge [of b]
  by (auto simp: i64key_native [OF assms(1,3)] i64key_native [OF assms(2,4)] compareValues_native [OF assms(1-4)] okInt_def
      go_cmp_def min_def MaxInt64_def MinInt64_def split: if_splits)

section \<open>Sorting\<close>

text \<open>
  The moves of \<open>SortStable\<close>: when position \<open>i\<close> is written, the positions above still hold the old
  values, and \<open>tmp\<close> holds the old values below.
\<close>

lemma sort_move_spec:
  assumes "length js + i = n" "length tmp = n" "length vals = n" "\<forall>j \<in> set js. j < n"
    and "\<forall>k < i. tmp ! k = orig ! k" "\<forall>k. i \<le> k \<and> k < n \<longrightarrow> vals ! k = orig ! k"
  shows "sort_move i js tmp vals = take i vals @ map (\<lambda>j. orig ! j) js"
  using assms
proof (induction js arbitrary: i tmp vals)
  case (Cons j js)
  have i: "i < n" "j < n" using Cons.prems by auto
  let ?tmp = "tmp[i := vals ! i]"
  let ?vals = "if i < j then vals[i := vals ! j] else if i > j then vals[i := ?tmp ! j] else vals"
  have at_i: "?vals ! i = orig ! j" "length ?vals = n"
    using i Cons.prems by auto
  have above: "\<forall>k. Suc i \<le> k \<and> k < n \<longrightarrow> ?vals ! k = orig ! k"
    using Cons.prems(6) by auto
  have below: "\<forall>k < Suc i. ?tmp ! k = orig ! k"
    using Cons.prems(2,5,6) i by (auto simp: nth_list_update less_Suc_eq)
  have "sort_move (Suc i) js ?tmp ?vals = take (Suc i) ?vals @ map (\<lambda>j. orig ! j) js"
    by (rule Cons.IH) (use Cons.prems(1-4) at_i(2) below above in auto)
  moreover have "take (Suc i) ?vals = take i vals @ [orig ! j]"
    using at_i i by (simp add: take_Suc_conv_app_nth)
  ultimately show ?case by (simp add: Let_def)
qed simp

text \<open>The keys of the first expression are comparable by their table.\<close>

definition sortable :: "comparator \<Rightarrow> zvalue list \<Rightarrow> bool" where
  "sortable c vals \<longleftrightarrow> (\<forall>v \<in> set vals. \<forall>k \<in> set (c_exprs c). properID (fst (se_Eval k v)))"

lemma stable_less_Compare:
  assumes "sortable c vals" "c_exprs c = k # ks" "i < length vals" "j < length vals"
    and "\<forall>a \<in> set vals. \<forall>b \<in> set vals. isOk (compareValues fl (c_nullsMax c) (se_Eval k a) (se_Eval k b))"
    and "val0s = map (se_Eval k) vals"
    and "i64s = map (\<lambda>v. if isNative v then okInt (i64key (c_nullsMax c) v) else 0) val0s"
  shows "stable_less fl c vals (list_all isNative val0s) i64s val0s i j \<longleftrightarrow> okInt (Comparator_Compare fl c (vals ! i) (vals ! j)) < 0"
proof -
  let ?v = "\<lambda>i. se_Eval k (vals ! i)"
  let ?c = "\<lambda>i j. okInt (compareValues fl (c_nullsMax c) (?v i) (?v j))"
  define p q where "p = (if se_Desc k then j else i)" and "q = (if se_Desc k then i else j)"
  have pq: "p < length vals" "q < length vals" using assms(3,4) by (auto simp: p_def q_def)
  have "isOk (compareValues fl (c_nullsMax c) (?v p) (?v q))" using assms(5) pq by simp
  then obtain v where v: "compareValues fl (c_nullsMax c) (?v p) (?v q) = Ok v" by (auto simp: isOk_iff)
  have cmp: "okInt (Comparator_Compare fl c (vals ! i) (vals ! j)) =
      (if v \<noteq> 0 then v else okInt (compare_exprs fl (c_nullsMax c) ks (vals ! i) (vals ! j)))"
    using v assms(2) by (cases "se_Desc k") (auto simp: Comparator_Compare_def p_def q_def okInt_def Let_def)
  have less: "stable_less fl c vals n i64s val0s i j \<longleftrightarrow>
     (let rest = okInt (compare_exprs fl (c_nullsMax c) ks (vals ! i) (vals ! j)) < 0;
          v = okInt (compareValues fl (c_nullsMax c) (val0s ! p) (val0s ! q)) in
      if n \<and> i64s ! p \<noteq> i64s ! q then i64s ! p < i64s ! q
      else if n \<and> i64s ! p \<noteq> MaxInt64 \<and> i64s ! p \<noteq> MinInt64 then rest
      else if v \<noteq> 0 then v < 0 else rest)" for n
    using assms(2) by (cases "se_Desc k") (simp_all add: stable_less_def p_def q_def Let_def)
  have proper: "properID (fst (?v p))" "properID (fst (?v q))" using assms(1,2) pq by (auto simp: sortable_def)
  have tab: "val0s ! p = ?v p" "val0s ! q = ?v q" using pq assms(6) by auto
  show ?thesis
  proof (cases "list_all isNative val0s")
    case True
    then have nat: "isNative (?v p)" "isNative (?v q)" using pq assms(6) by (auto simp: list_all_iff)
    have keys: "i64s ! p = okInt (i64key (c_nullsMax c) (?v p))" "i64s ! q = okInt (i64key (c_nullsMax c) (?v q))"
      using pq nat assms(6,7) by auto
    have "v = okInt (compareValues fl (c_nullsMax c) (?v p) (?v q))" by (simp add: v okInt_def)
    note d = i64key_decides [OF nat proper keys this]
    have "okInt (compareValues fl (c_nullsMax c) (val0s ! p) (val0s ! q)) = v" by (simp add: tab v okInt_def)
    then show ?thesis
      unfolding less cmp Let_def using d True by auto
  next
    case False
    have "okInt (compareValues fl (c_nullsMax c) (val0s ! p) (val0s ! q)) = v" by (simp add: tab v okInt_def)
    then show ?thesis unfolding less cmp Let_def using False by auto
  qed
qed

lemma sortStableIndices_ok:
  assumes "sortable c vals" "c_exprs c = k # ks" "length vals < 2 ^ 32"
    and "\<forall>a \<in> set vals. \<forall>b \<in> set vals. isOk (compareValues fl (c_nullsMax c) (se_Eval k a) (se_Eval k b))"
  shows "\<exists>indices. sortStableIndices fl c vals = Ok indices \<and> set indices = {..<length vals} \<and> length indices = length vals
    \<and> map (\<lambda>i. vals ! i) indices = SliceStable (\<lambda>a b. okInt (Comparator_Compare fl c a b) < 0) vals"
proof -
  let ?val0s = "map (se_Eval k) vals"
  let ?i64s = "map (\<lambda>v. if isNative v then okInt (i64key (c_nullsMax c) v) else 0) ?val0s"
  let ?less = "stable_less fl c vals (list_all isNative ?val0s) ?i64s ?val0s"
  have "map (\<lambda>i. vals ! i) (SliceStable ?less [0..<length vals]) =
      SliceStable (\<lambda>a b. okInt (Comparator_Compare fl c a b) < 0) (map (\<lambda>i. vals ! i) [0..<length vals])"
    by (rule map_SliceStable) (use stable_less_Compare [OF assms(1,2) _ _ assms(4)] in auto)
  then have "map (\<lambda>i. vals ! i) (SliceStable ?less [0..<length vals]) =
      SliceStable (\<lambda>a b. okInt (Comparator_Compare fl c a b) < 0) vals"
    by (simp add: map_nth)
  moreover have "sortStableIndices fl c vals = Ok (SliceStable ?less [0..<length vals])"
    using assms(2,3) by (simp add: sortStableIndices_def Let_def)
  ultimately show ?thesis by (auto simp: atLeast0LessThan)
qed

lemma SortStable_eq:
  assumes "sortable c vals" "c_exprs c = k # ks" "length vals < 2 ^ 32"
    and "\<forall>a \<in> set vals. \<forall>b \<in> set vals. isOk (compareValues fl (c_nullsMax c) (se_Eval k a) (se_Eval k b))"
  shows "SortStable fl c vals = Ok (SliceStable (\<lambda>a b. okInt (Comparator_Compare fl c a b) < 0) vals)"
proof -
  obtain js where js: "sortStableIndices fl c vals = Ok js" "set js = {..<length vals}" "length js = length vals"
    "map (\<lambda>i. vals ! i) js = SliceStable (\<lambda>a b. okInt (Comparator_Compare fl c a b) < 0) vals"
    using sortStableIndices_ok [OF assms] by blast
  have "sort_move 0 js (replicate (length vals) (TypePrimitive TypeNull, None)) vals = map (\<lambda>i. vals ! i) js"
    using sort_move_spec [of js 0 "length vals" _ vals vals] js(2,3) by simp
  then show ?thesis using js by (simp add: SortStable_def)
qed

section \<open>The ordering of simple values\<close>

text \<open>Nulls, integers, booleans, strings, bytes and networks.\<close>

definition simpleVal :: "zvalue \<Rightarrow> bool" where
  "simpleVal v \<longleftrightarrow> properID (fst v) \<and>
     (snd v = None \<or> isNative v \<or> ID (fst v) = 23 \<and> buf (snd v) \<noteq> [] \<or> ID (fst v) \<in> {24, 25, 27})"

definition rankOf :: "bool \<Rightarrow> zvalue \<Rightarrow> nat" where
  "rankOf nullsMax v =
     (if snd v = None then (if nullsMax then 30 else 0) else if isNative v then 1 else ID (fst v))"

definition numOf :: "zvalue \<Rightarrow> int" where
  "numOf v =
     (if snd v = None then 0 else if isNative v then intOf v
      else if ID (fst v) = 23 \<and> hd (buf (snd v)) \<noteq> 0 then 1 else 0)"

definition bytesOf :: "zvalue \<Rightarrow> bytes" where
  "bytesOf v = (if isNative v \<or> ID (fst v) = 23 then [] else buf (snd v))"

definition simpleCmp :: "bool \<Rightarrow> zvalue \<Rightarrow> zvalue \<Rightarrow> int" where
  "simpleCmp nullsMax a b =
     (if go_cmp (rankOf nullsMax a) (rankOf nullsMax b) \<noteq> 0 then go_cmp (rankOf nullsMax a) (rankOf nullsMax b)
      else if go_cmp (numOf a) (numOf b) \<noteq> 0 then go_cmp (numOf a) (numOf b)
      else strings_Compare (bytesOf a) (bytesOf b))"

lemma CompareTypes_prims:
  assumes "properID t" "properID u" "ID t < 30" "ID u < 30" "ID t \<noteq> ID u"
  shows "CompareTypes t u = go_cmp (ID t) (ID u)"
proof -
  have prim: "\<exists>p. TypeUnder t = TypePrimitive p" if "properID t" "ID t < 30" for t
    using that ID_TypeUnder [of t] by (cases "TypeUnder t") (auto simp: properID_def)
  have Kind: "Kind t = Kind (TypeUnder t)" for t by (induction t rule: TypeUnder.induct) auto
  obtain p q where "TypeUnder t = TypePrimitive p" "TypeUnder u = TypePrimitive q"
    using prim assms by blast
  then show ?thesis using assms(5) Kind [of t] Kind [of u] by (simp add: CompareTypes.simps [of t u])
qed

lemma rankOf_bounds: "simpleVal v \<Longrightarrow> snd v \<noteq> None \<Longrightarrow> 0 < rankOf m v \<and> rankOf m v < 30"
  by (auto simp: simpleVal_def rankOf_def isNative_def)

lemma simpleCmp_nulls:
  assumes "simpleVal a" "simpleVal b" "snd a = None \<or> snd b = None"
  shows "compareValues fl nullsMax a b = Ok (simpleCmp nullsMax a b)"
proof -
  have r: "rankOf nullsMax v = (if nullsMax then 30 else 0)" "numOf v = 0" "bytesOf v = []" if "snd v = None" for v
    using that by (auto simp: rankOf_def numOf_def bytesOf_def)
  show ?thesis
  proof (cases "snd a = None")
    case True
    then show ?thesis using r [of a] r [of b] rankOf_bounds [OF assms(2), of nullsMax]
      by (cases "snd b = None") (auto simp: compareValues.simps [of fl nullsMax a b] simpleCmp_def go_cmp_def)
  next
    case False
    then show ?thesis using assms(3) r [of b] rankOf_bounds [OF assms(1), of nullsMax]
      by (auto simp: compareValues.simps [of fl nullsMax a b] simpleCmp_def go_cmp_def)
  qed
qed

lemma compareValues_simple:
  assumes "simpleVal a" "simpleVal b"
  shows "compareValues fl nullsMax a b = Ok (simpleCmp nullsMax a b)"
proof -
  have inner: "InnerType (fst v) = None" if "ID (fst v) = 27" "properID (fst v)" for v
    using that ID_TypeUnder [of "fst v"] by (cases "TypeUnder (fst v)") (auto simp: InnerType_def properID_def)
  consider "snd a = None \<or> snd b = None" | "isNative a" "isNative b" "snd a \<noteq> None" "snd b \<noteq> None"
    | "\<not> (isNative a \<and> isNative b)" "snd a \<noteq> None" "snd b \<noteq> None" by blast
  then show ?thesis
  proof cases
    case 1
    then show ?thesis by (rule simpleCmp_nulls [OF assms])
  next
    case 2
    have "compareValues fl nullsMax a b = Ok (go_cmp (intOf a) (intOf b))"
      using 2 assms compareValues_native [of a b fl nullsMax] by (simp only: simpleVal_def if_False simp_thms)
    moreover have "rankOf nullsMax v = 1" "numOf v = intOf v" "bytesOf v = []" if "isNative v" "snd v \<noteq> None" for v
      using that by (simp_all only: rankOf_def numOf_def bytesOf_def if_False if_True simp_thms)
    ultimately show ?thesis using 2 by (simp add: simpleCmp_def)
  next
    case 3
    then obtain x y where xy: "snd a = Some x" "snd b = Some y" by blast
    have notnum: "\<not> (IsNumber (ID (fst a)) \<and> IsNumber (ID (fst b)))"
      using 3(1) xy assms by (auto simp: simpleVal_def IsNumber_def isNative_def)
    note cv = compareValues.simps [of fl nullsMax a b, unfolded xy Let_def, simplified, unfolded if_not_P [OF notnum]]
    have rank: "rankOf nullsMax v = (if isNative v then 1 else ID (fst v))" if "snd v = Some z" for v z
      using that by (simp add: rankOf_def)
    show ?thesis
    proof (cases "ID (fst a) = ID (fst b)")
      case False
      have "CompareTypes (fst a) (fst b) = go_cmp (ID (fst a)) (ID (fst b))"
        by (rule CompareTypes_prims) (use False assms xy in \<open>auto simp: simpleVal_def isNative_def\<close>)
      moreover have "go_cmp (rankOf nullsMax a) (rankOf nullsMax b) = go_cmp (ID (fst a)) (ID (fst b))"
        using 3(1) assms xy rank [OF xy(1)] rank [OF xy(2)] by (auto simp: simpleVal_def isNative_def go_cmp_def)
      ultimately show ?thesis using False cv by (simp add: simpleCmp_def)
    next
      case True
      then have nat: "\<not> isNative a" "\<not> isNative b" using 3(1) by (auto simp: isNative_def)
      have rk: "rankOf nullsMax a = rankOf nullsMax b" using rank [OF xy(1)] rank [OF xy(2)] nat True by simp
      consider "ID (fst a) = 23" "x \<noteq> []" "y \<noteq> []" | "ID (fst a) \<in> {24, 25}" | "ID (fst a) = 27"
        using assms nat xy True by (auto simp: simpleVal_def)
      then show ?thesis
      proof cases
        case 1
        then show ?thesis using cv xy nat True rk
          by (cases x; cases y) (auto simp: simpleCmp_def numOf_def bytesOf_def Value_Bool_def go_cmp_def)
      next
        case 2
        then show ?thesis using cv xy nat True rk
          by (auto simp: simpleCmp_def numOf_def bytesOf_def)
      next
        case 3
        then show ?thesis using cv xy nat True rk inner [of a] assms(1)
          by (auto simp: simpleCmp_def numOf_def bytesOf_def simpleVal_def)
      qed
    qed
  qed
qed

text \<open>The comparison functions of the code are orderings on simple values.\<close>

interpretation sv: ordering "\<lambda>a b. okInt (compareValues fl nullsMax a b)" simpleVal
proof -
  have "ordering (simpleCmp nullsMax) simpleVal"
    unfolding simpleCmp_def
    by (intro ordering_then ordering_inv [OF ordering_go_cmp] ordering_inv [OF ordering_strings_Compare]) simp_all
  then show "ordering (\<lambda>a b. okInt (compareValues fl nullsMax a b)) simpleVal"
    by (rule ordering_cong) (simp add: compareValues_simple okInt_def)
qed

lemma compareValues_simple_Ok: "simpleVal a \<Longrightarrow> simpleVal b \<Longrightarrow> isOk (compareValues fl nullsMax a b)"
  by (simp add: compareValues_simple)

text \<open>A comparator is one on the values whose keys are simple.\<close>

definition simpleKeys :: "comparator \<Rightarrow> zvalue \<Rightarrow> bool" where
  "simpleKeys c v \<longleftrightarrow> (\<forall>k \<in> set (c_exprs c). simpleVal (se_Eval k v))"

lemma compare_exprs_ordering:
  "ordering (\<lambda>a b. okInt (compare_exprs fl nullsMax ks a b)) (\<lambda>v. \<forall>k \<in> set ks. simpleVal (se_Eval k v))"
proof (induction ks)
  case Nil
  show ?case by unfold_locales (simp_all add: okInt_def)
next
  case (Cons k ks)
  let ?V = "\<lambda>v. \<forall>k' \<in> set (k # ks). simpleVal (se_Eval k' v)"
  let ?c1 = "\<lambda>a b. okInt (if se_Desc k then compareValues fl nullsMax (se_Eval k b) (se_Eval k a)
      else compareValues fl nullsMax (se_Eval k a) (se_Eval k b))"
  have "ordering ?c1 ?V"
    using ordering_inv [OF sv.ordering_axioms, of ?V "se_Eval k" fl nullsMax]
      ordering_inv [OF sv.ordering_flip, of ?V "se_Eval k" fl nullsMax] by (cases "se_Desc k") simp_all
  then have "ordering (\<lambda>a b. if ?c1 a b \<noteq> 0 then ?c1 a b else okInt (compare_exprs fl nullsMax ks a b)) ?V"
    by (rule ordering_then) (rule ordering_mono [OF Cons.IH], simp)
  then show ?case
  proof (rule ordering_cong)
    fix a b assume v: "?V a" "?V b"
    show "okInt (compare_exprs fl nullsMax (k # ks) a b) =
      (if ?c1 a b \<noteq> 0 then ?c1 a b else okInt (compare_exprs fl nullsMax ks a b))"
    using v compareValues_simple [of "se_Eval k a" "se_Eval k b" fl nullsMax]
      compareValues_simple [of "se_Eval k b" "se_Eval k a" fl nullsMax]
    by (cases "se_Desc k") (auto simp: okInt_def Let_def)
  qed
qed

interpretation cc: ordering "\<lambda>a b. okInt (Comparator_Compare fl c a b)" "simpleKeys c"
  unfolding Comparator_Compare_def simpleKeys_def by (rule compare_exprs_ordering)

end
