(* ===== verification/Join.thy ===== *)
theory Join
  imports PullerLaws CompareLaws
begin

text \<open>
  The operator \<open>join\<close> (\<open>runtime/sam/op/join/join.go\<close>, \<open>runtime/sam/op/join/puller.go\<close>).  Both inputs are sorted by their keys; the left one is read value by
  value, and the right one is read through a peeker up to the key of the left value.  The key
  expressions, the cutter and the comparison function are function values of the operator.
  The goroutines that pull ahead of the operator deliver the results of their parents in order,
  so a parent is pulled here when its result is received.
\<close>

section \<open>The pullers of a join\<close>

text \<open>After end of stream or an error the channel is closed, and a receive gives a nil batch and no error.\<close>

record 's jpuller =
  jp_op :: 's
  jp_closed :: bool

definition JPuller_Pull :: "('v, 's) pull \<Rightarrow> ('v, 's jpuller) pull" where
  "JPuller_Pull pull done p =
     (if jp_closed p then Some (Ok None, p)
      else
        (case pull False (jp_op p) of
           None \<Rightarrow> None
         | Some (r, s) \<Rightarrow>
             Some (r, \<lparr>jp_op = s, jp_closed = (case r of Ok (Some b) \<Rightarrow> False | _ \<Rightarrow> True)\<rparr>)))"

definition newJPuller :: "'s \<Rightarrow> (zvalue, 's jpuller) pullerReader" where
  "newJPuller s = PullerReader \<lparr>jp_op = s, jp_closed = False\<rparr>"

abbreviation jread :: "(zvalue, 's) pull \<Rightarrow> (zvalue, (zvalue, 's jpuller) pullerReader) reader" where
  "jread pull \<equiv> PullerReader_Read (JPuller_Pull pull)"

section \<open>Combined records\<close>

function decimal :: "nat \<Rightarrow> bytes" where
  "decimal n = (if n < 10 then [of_nat (48 + n)] else decimal (n div 10) @ [of_nat (48 + n mod 10)])"
  by pat_completeness auto
termination by (relation "measure id") auto

declare decimal.simps [simp del]

text \<open>\<open>fmt.Sprintf("%s_%d", name, k)\<close>\<close>

definition numbered :: "gostring \<Rightarrow> nat \<Rightarrow> gostring" where
  "numbered name k = name @ str ''_'' @ decimal k"

text \<open>The state that \<open>splice\<close> changes: the type context and the table of combined types.\<close>

record spliceState =
  sp_zctx :: ctx
  sp_types :: "nat \<Rightarrow> nat \<rightharpoonup> ztype"

definition lookupType :: "spliceState \<Rightarrow> ztype \<Rightarrow> ztype \<Rightarrow> ztype option" where
  "lookupType st left right = sp_types st (ID left) (ID right)"

definition enterType :: "spliceState \<Rightarrow> ztype \<Rightarrow> ztype \<Rightarrow> ztype \<Rightarrow> spliceState" where
  "enterType st combined left right =
     st\<lparr>sp_types := (sp_types st)(ID left := (sp_types st (ID left))(ID right \<mapsto> combined))\<rparr>"

text \<open>Decimal numerals of different numbers differ, so a free name is found after finitely many attempts.\<close>

definition undecimal :: "bytes \<Rightarrow> nat" where
  "undecimal ds = foldl (\<lambda>n d. 10 * n + (unat d - 48)) 0 ds"

lemma undecimal_decimal: "undecimal (decimal n) = n"
proof (induction n rule: decimal.induct)
  case (1 n)
  have digit: "unat (of_nat (48 + d) :: byte) - 48 = d" if "d < 10" for d
    using that by (simp add: unat_of_nat take_bit_nat_eq_self del: of_nat_add)
  show ?case
  proof (cases "n < 10")
    case True
    then show ?thesis using digit [of n] by (simp add: decimal.simps [of n] undecimal_def)
  next
    case False
    then have "undecimal (decimal n) = 10 * undecimal (decimal (n div 10)) + n mod 10"
      using digit [of "n mod 10"] by (simp add: decimal.simps [of n] undecimal_def)
    then show ?thesis using 1 False by simp
  qed
qed

lemma numbered_inj: "numbered name j = numbered name k \<longleftrightarrow> j = k"
  by (metis append_same_eq numbered_def same_append_eq undecimal_decimal)

lemma finite_numbered: "finite {j. k \<le> j \<and> numbered name j \<in> set names}"
proof (rule finite_subset)
  show "{j. k \<le> j \<and> numbered name j \<in> set names} \<subseteq> numbered name -` set names" by auto
  show "finite (numbered name -` set names)"
    by (rule finite_vimageI) (auto intro: injI simp: numbered_inj)
qed

lemma card_from:
  fixes P :: "nat \<Rightarrow> bool"
  assumes "finite {j. k \<le> j \<and> P j}"
  shows "card {j. Suc k \<le> j \<and> P j} + (if P k then 1 else 0) = card {j. k \<le> j \<and> P j}"
proof (cases "P k")
  case True
  then have "{j. k \<le> j \<and> P j} = insert k {j. Suc k \<le> j \<and> P j}" by (auto simp: Suc_le_eq le_less)
  moreover have "finite {j. Suc k \<le> j \<and> P j}" by (rule finite_subset [OF _ assms]) auto
  ultimately show ?thesis using True by simp
next
  case False
  then have "{j. k \<le> j \<and> P j} = {j. Suc k \<le> j \<and> P j}" by (auto simp: Suc_le_eq le_less)
  then show ?thesis using False by simp
qed

lemma HasField_iff: "HasField flds name \<longleftrightarrow> name \<in> set (map fst flds)"
proof -
  have "dom (createLUT_loop k xs lut) = dom lut \<union> set xs" for k :: nat and xs :: "gostring list" and lut
    by (induction xs arbitrary: k lut) auto
  then have "dom (TypeRecord_createLUT flds) = set (map fst flds)" by (simp add: TypeRecord_createLUT_def)
  then show ?thesis by (auto simp: HasField_def)
qed

text \<open>The loop of \<open>buildType\<close> that renames a field: \<open>k\<close> is the number of the next attempt.\<close>

function fieldName :: "(gostring \<times> ztype) list \<Rightarrow> gostring \<Rightarrow> gostring \<Rightarrow> nat \<Rightarrow> gostring" where
  "fieldName left fname name k =
     (if HasField left name then fieldName left fname (numbered fname k) (Suc k) else name)"
  by pat_completeness auto
termination
proof (relation "measure (\<lambda>(left, fname, name, k).
    card {j. k \<le> j \<and> numbered fname j \<in> set (map fst left)} + (if HasField left name then 1 else 0))")
  fix left :: "(gostring \<times> ztype) list" and fname name :: gostring and k :: nat
  assume has: "HasField left name"
  have "card {j. Suc k \<le> j \<and> numbered fname j \<in> set (map fst left)} +
      (if numbered fname k \<in> set (map fst left) then 1 else 0) = card {j. k \<le> j \<and> numbered fname j \<in> set (map fst left)}"
    by (rule card_from) (rule finite_numbered)
  then show "((left, fname, numbered fname k, Suc k), left, fname, name, k) \<in> measure (\<lambda>(left, fname, name, k).
    card {j. k \<le> j \<and> numbered fname j \<in> set (map fst left)} + (if HasField left name then 1 else 0))"
    using has by (simp add: HasField_iff)
qed simp

declare fieldName.simps [simp del]

definition buildType :: "spliceState \<Rightarrow> (gostring \<times> ztype) list \<Rightarrow> (gostring \<times> ztype) list \<Rightarrow> (ztype \<times> spliceState) go" where
  "buildType st left right =
     (let fields = left @ map (\<lambda>(n, t). (fieldName left n n 2, t)) right in
      bindR (LookupTypeRecord fields (sp_zctx st)) (\<lambda>(typ, c). Ok (typ, st\<lparr>sp_zctx := c\<rparr>)))"

definition combinedType :: "spliceState \<Rightarrow> ztype option \<Rightarrow> ztype option \<Rightarrow> (ztype \<times> spliceState) go" where
  "combinedType st left right =
     (case (left, right) of
        (Some (TypeRecord i lf), Some (TypeRecord j rf)) \<Rightarrow>
          (let left = TypeRecord i lf; right = TypeRecord j rf in
           case lookupType st left right of
             Some typ \<Rightarrow> Ok (typ, st)
           | None \<Rightarrow> bindR (buildType st lf rf) (\<lambda>(typ, st). Ok (typ, enterType st typ left right)))
      | _ \<Rightarrow> Panic)"

definition splice :: "spliceState \<Rightarrow> zvalue \<Rightarrow> zvalue \<Rightarrow> (zvalue \<times> spliceState) go option" where
  "splice st left right =
     (case (Value_Under left, Value_Under right) of
        (Some (Ok left), Some (Ok right)) \<Rightarrow>
          Some (bindR (combinedType st (TypeRecordOf (fst left)) (TypeRecordOf (fst right))) (\<lambda>(typ, st).
            Ok ((typ, Some (buf (snd left) @ buf (snd right))), st)))
      | (None, _) \<Rightarrow> None
      | (Some (Ok _), None) \<Rightarrow> None
      | _ \<Rightarrow> Some Panic)"

text \<open>The loop of \<open>Pull\<close> over the matching values of the right.\<close>

fun spliceAll :: "(zvalue \<Rightarrow> zvalue) \<Rightarrow> zvalue \<Rightarrow> zvalue list \<Rightarrow> zvalue list \<Rightarrow> spliceState \<Rightarrow> (zvalue list go \<times> spliceState) option" where
  "spliceAll cutter left [] out st = Some (Ok out, st)"
| "spliceAll cutter left (r # rs) out st =
     (case splice st left (cutter r) of
        None \<Rightarrow> None
      | Some (Ok (rec, st)) \<Rightarrow> spliceAll cutter left rs (out @ [rec]) st
      | Some (Err e) \<Rightarrow> Some (Err e, st)
      | Some Panic \<Rightarrow> Some (Panic, st))"

section \<open>The operator\<close>

record ('l, 'r) joinOp =
  j_anti :: bool
  j_inner :: bool
  j_left :: "(zvalue, 'l jpuller) pullerReader"
  j_right :: "(zvalue, (zvalue, 'r jpuller) pullerReader) peeker"
  j_getLeftKey :: "zvalue \<Rightarrow> zvalue"
  j_getRightKey :: "zvalue \<Rightarrow> zvalue"
  j_compare :: "zvalue \<Rightarrow> zvalue \<Rightarrow> int"
  j_cutter :: "zvalue \<Rightarrow> zvalue"
  j_joinKey :: "zvalue option"
  j_joinSet :: "zvalue list"
  j_splice :: spliceState

text \<open>\<open>New\<close>: the order of the keys (descending if \<open>True\<close>), taken from the direction of an input that has one.\<close>

datatype direction = Down | Up | UnknownDir

definition HasOrder :: "direction \<Rightarrow> bool \<Rightarrow> bool" where
  "HasOrder d desc = (case d of Up \<Rightarrow> \<not> desc | Down \<Rightarrow> desc | UnknownDir \<Rightarrow> False)"

definition joinOrder :: "direction \<Rightarrow> direction \<Rightarrow> bool" where
  "joinOrder leftDir rightDir =
     (if leftDir \<noteq> UnknownDir then leftDir = Down else if rightDir \<noteq> UnknownDir then rightDir = Down else False)"

text \<open>The operator over its (sorted) inputs.\<close>

definition NewJoin :: "ctx \<Rightarrow> bool \<Rightarrow> bool \<Rightarrow> 'l \<Rightarrow> 'r \<Rightarrow> (zvalue \<Rightarrow> zvalue) \<Rightarrow> (zvalue \<Rightarrow> zvalue) \<Rightarrow>
    (zvalue \<Rightarrow> zvalue \<Rightarrow> int) \<Rightarrow> (zvalue \<Rightarrow> zvalue) \<Rightarrow> ('l, 'r) joinOp" where
  "NewJoin zctx anti inner left right leftKey rightKey compare cutter =
     \<lparr>j_anti = anti, j_inner = inner, j_left = newJPuller left, j_right = NewPeeker (newJPuller right),
      j_getLeftKey = leftKey, j_getRightKey = rightKey, j_compare = compare, j_cutter = cutter,
      j_joinKey = None, j_joinSet = [], j_splice = \<lparr>sp_zctx = zctx, sp_types = (\<lambda>_. Map.empty)\<rparr>\<rparr>"

text \<open>
  \<open>o.right.Read()\<close> after a successful \<open>Peek\<close> takes the peeked value; its result is dropped.
\<close>

definition dropRight :: "(zvalue, 'r) pull \<Rightarrow> ('l, 'r) joinOp \<Rightarrow> ('l, 'r) joinOp option" where
  "dropRight rpull op =
     (case Peeker_Read (jread rpull) (j_right op) of None \<Rightarrow> None | Some (_, p) \<Rightarrow> Some (op\<lparr>j_right := p\<rparr>))"

partial_function (option) readJoinSet ::
  "(zvalue, 'r) pull \<Rightarrow> ('l, 'r) joinOp \<Rightarrow> zvalue \<Rightarrow> zvalue list \<Rightarrow> (zvalue list go \<times> ('l, 'r) joinOp) option" where
  "readJoinSet rpull op joinKey recs =
     (case Peeker_Peek (jread rpull) (j_right op) of
        None \<Rightarrow> None
      | Some (Err e, p) \<Rightarrow> Some (Err e, op\<lparr>j_right := p\<rparr>)
      | Some (Panic, p) \<Rightarrow> Some (Panic, op\<lparr>j_right := p\<rparr>)
      | Some (Ok None, p) \<Rightarrow> Some (Ok recs, op\<lparr>j_right := p\<rparr>)
      | Some (Ok (Some rec), p) \<Rightarrow>
          (let op = op\<lparr>j_right := p\<rparr>; key = j_getRightKey op rec in
           if Value_IsMissing key then
             (case dropRight rpull op of None \<Rightarrow> None | Some op' \<Rightarrow> readJoinSet rpull op' joinKey recs)
           else if j_compare op key joinKey \<noteq> 0 then Some (Ok recs, op)
           else (case dropRight rpull op of None \<Rightarrow> None | Some op' \<Rightarrow> readJoinSet rpull op' joinKey (recs @ [rec]))))"

text \<open>The loop of \<open>getJoinSet\<close>; a nil slice and an empty one are the same list.\<close>

partial_function (option) getJoinSet_loop ::
  "(zvalue, 'r) pull \<Rightarrow> ('l, 'r) joinOp \<Rightarrow> zvalue \<Rightarrow> (zvalue list go \<times> ('l, 'r) joinOp) option" where
  "getJoinSet_loop rpull op leftKey =
     (case Peeker_Peek (jread rpull) (j_right op) of
        None \<Rightarrow> None
      | Some (Err e, p) \<Rightarrow> Some (Err e, op\<lparr>j_right := p\<rparr>)
      | Some (Panic, p) \<Rightarrow> Some (Panic, op\<lparr>j_right := p\<rparr>)
      | Some (Ok None, p) \<Rightarrow> Some (Ok [], op\<lparr>j_right := p\<rparr>)
      | Some (Ok (Some rec), p) \<Rightarrow>
          (let op = op\<lparr>j_right := p\<rparr>; rightKey = j_getRightKey op rec in
           if Value_IsMissing rightKey then
             (case dropRight rpull op of None \<Rightarrow> None | Some op' \<Rightarrow> getJoinSet_loop rpull op' leftKey)
           else
             let c = j_compare op leftKey rightKey in
             if c = 0 then
               (case readJoinSet rpull (op\<lparr>j_joinKey := Some leftKey\<rparr>) leftKey [] of
                  None \<Rightarrow> None
                | Some (Ok recs, op') \<Rightarrow> Some (Ok recs, op'\<lparr>j_joinSet := recs\<rparr>)
                | Some (Err e, op') \<Rightarrow> Some (Err e, op'\<lparr>j_joinSet := []\<rparr>)
                | Some (Panic, op') \<Rightarrow> Some (Panic, op'))
             else if c < 0 then Some (Ok [], op)
             else (case dropRight rpull op of None \<Rightarrow> None | Some op' \<Rightarrow> getJoinSet_loop rpull op' leftKey)))"

definition getJoinSet ::
  "(zvalue, 'r) pull \<Rightarrow> ('l, 'r) joinOp \<Rightarrow> zvalue \<Rightarrow> (zvalue list go \<times> ('l, 'r) joinOp) option" where
  "getJoinSet rpull op leftKey =
     (case j_joinKey op of
        Some k \<Rightarrow> if j_compare op leftKey k = 0 then Some (Ok (j_joinSet op), op) else getJoinSet_loop rpull op leftKey
      | None \<Rightarrow> getJoinSet_loop rpull op leftKey)"

partial_function (option) join_loop ::
  "(zvalue, 'l) pull \<Rightarrow> (zvalue, 'r) pull \<Rightarrow> ('l, 'r) joinOp \<Rightarrow> zvalue list \<Rightarrow>
     (zvalue batch option go \<times> ('l, 'r) joinOp) option" where
  "join_loop lpull rpull op out =
     (case jread lpull (j_left op) of
        None \<Rightarrow> None
      | Some (Err e, l) \<Rightarrow> Some (Err e, op\<lparr>j_left := l\<rparr>)
      | Some (Panic, l) \<Rightarrow> Some (Panic, op\<lparr>j_left := l\<rparr>)
      | Some (Ok None, l) \<Rightarrow>
          Some (Ok (if length out = 0 then None else Some (NewArray out)), op\<lparr>j_left := l\<rparr>)
      | Some (Ok (Some leftRec), l) \<Rightarrow>
          (let op = op\<lparr>j_left := l\<rparr>; key = j_getLeftKey op leftRec in
           if Value_IsMissing key then join_loop lpull rpull op out
           else
             (case getJoinSet rpull op key of
                None \<Rightarrow> None
              | Some (Err e, op) \<Rightarrow> Some (Err e, op)
              | Some (Panic, op) \<Rightarrow> Some (Panic, op)
              | Some (Ok rightRecs, op) \<Rightarrow>
                  if rightRecs = [] then join_loop lpull rpull op (if \<not> j_inner op then out @ [leftRec] else out)
                  else if j_anti op then join_loop lpull rpull op out
                  else
                    (case spliceAll (j_cutter op) leftRec rightRecs out (j_splice op) of
                       None \<Rightarrow> None
                     | Some (Ok out, st) \<Rightarrow> join_loop lpull rpull (op\<lparr>j_splice := st\<rparr>) out
                     | Some (Err e, st) \<Rightarrow> Some (Err e, op\<lparr>j_splice := st\<rparr>)
                     | Some (Panic, st) \<Rightarrow> Some (Panic, op\<lparr>j_splice := st\<rparr>)))))"

definition Join_Pull ::
  "(zvalue, 'l) pull \<Rightarrow> (zvalue, 'r) pull \<Rightarrow> (zvalue, ('l, 'r) joinOp) pull" where
  "Join_Pull lpull rpull done op = join_loop lpull rpull op []"

declare readJoinSet.simps [code] getJoinSet_loop.simps [code] join_loop.simps [code]

end
