(* ===== verification/JoinLaws.thy ===== *)
theory JoinLaws
  imports Join
begin

text \<open>
  The join of two inputs that are sorted by their keys is the nested loop over all pairs
  (\<open>nestedLoop\<close>).
\<close>

section \<open>What a peeker still has\<close>

definition remains :: "('v, 'r) reader \<Rightarrow> ('v, 'r) peeker \<Rightarrow> 'v list \<Rightarrow> bool" where
  "remains read p vs \<longleftrightarrow>
     (\<exists>r'. read r' = Some (Ok None, r') \<and>
        (case pk_cache p of
           None \<Rightarrow> reads read (pk_Reader p) vs None r'
         | Some v \<Rightarrow> \<exists>ws. vs = v # ws \<and> reads read (pk_Reader p) ws None r'))"

lemma remains_Peek_Cons:
  assumes "remains read p (v # vs)"
  obtains p' where "Peeker_Peek read p = Some (Ok (Some v), p')" "remains read p' (v # vs)" "pk_cache p' = Some v"
proof (cases "pk_cache p")
  case None
  then obtain r' where r': "read r' = Some (Ok None, r')" "reads read (pk_Reader p) (v # vs) None r'"
    using assms by (auto simp: remains_def)
  then obtain r1 where "read (pk_Reader p) = Some (Ok (Some v), r1)" "reads read r1 vs None r'"
    by (elim reads_ConsE) auto
  then show thesis using that [of "p\<lparr>pk_Reader := r1, pk_cache := Some v\<rparr>"] None r'(1)
    by (auto simp: Peeker_Peek_def remains_def)
next
  case (Some x)
  then show thesis using that [of p] assms by (auto simp: Peeker_Peek_def remains_def)
qed

lemma remains_Read:
  assumes "pk_cache p = Some v" "remains read p (v # vs)"
  shows "Peeker_Read read p = Some (Ok (Some v), p\<lparr>pk_cache := None\<rparr>)" "remains read (p\<lparr>pk_cache := None\<rparr>) vs"
  using assms by (auto simp: Peeker_Read_def remains_def)

lemma remains_Peek_Nil:
  assumes "remains read p []"
  obtains p' where "Peeker_Peek read p = Some (Ok None, p')" "remains read p' []"
proof -
  obtain r' where r': "pk_cache p = None" "read r' = Some (Ok None, r')" "reads read (pk_Reader p) [] None r'"
    using assms by (auto simp: remains_def split: option.splits)
  then have "read (pk_Reader p) = Some (Ok None, r')" by (elim reads_NilE) auto
  then show thesis using that [of "p\<lparr>pk_Reader := r', pk_cache := None\<rparr>"] r'
    by (auto simp: Peeker_Peek_def remains_def intro: reads_eos)
qed

text \<open>The puller of a join delivers its parent and then stays at end of stream.\<close>

lemma JPuller_stream:
  "stream pull s bs None s' \<Longrightarrow>
   stream (JPuller_Pull pull) \<lparr>jp_op = s, jp_closed = False\<rparr> bs None \<lparr>jp_op = s', jp_closed = True\<rparr>"
  by (induction s bs "None :: goerror option" s' rule: stream.induct) (auto simp: stream_resume JPuller_Pull_def)

lemma jread_reads:
  assumes "stream pull s bs None s'"
  shows "reads (jread pull) (newJPuller s) (valuesOf bs) None (PullerReader \<lparr>jp_op = s', jp_closed = True\<rparr>)"
  unfolding newJPuller_def by (rule PullerReader_reads [OF JPuller_stream [OF assms]])

lemma jread_closed: "jread pull (PullerReader \<lparr>jp_op = s, jp_closed = True\<rparr>) = Some (Ok None, PullerReader \<lparr>jp_op = s, jp_closed = True\<rparr>)"
  by (simp add: PullerReader_Read.simps PullerReader_def JPuller_Pull_def)

lemma remains_new: "stream pull s bs None s' \<Longrightarrow> remains (jread pull) (NewPeeker (newJPuller s)) (valuesOf bs)"
  using jread_reads jread_closed by (fastforce simp: remains_def NewPeeker_def)

lemma dropRight_remains:
  assumes "pk_cache (j_right op) = Some v" "remains (jread rpull) (j_right op) (v # vs)"
  obtains p' where "dropRight rpull op = Some (op\<lparr>j_right := p'\<rparr>)" "remains (jread rpull) p' vs"
  using remains_Read [OF assms] by (simp add: dropRight_def)

section \<open>The set of matching values\<close>

abbreviation live :: "(zvalue \<Rightarrow> zvalue) \<Rightarrow> zvalue \<Rightarrow> bool" where
  "live key v \<equiv> \<not> Value_IsMissing (key v)"

lemma readJoinSet_spec:
  assumes "remains (jread rpull) (j_right op) vs"
    and "W = (\<lambda>r. live (j_getRightKey op) r \<longrightarrow> j_compare op (j_getRightKey op r) jk = 0)"
  shows "\<exists>p. readJoinSet rpull op jk recs =
      Some (Ok (recs @ filter (live (j_getRightKey op)) (takeWhile W vs)), op\<lparr>j_right := p\<rparr>)
    \<and> remains (jread rpull) p (dropWhile W vs)"
  using assms
proof (induction vs arbitrary: op recs)
  case Nil
  obtain p where "Peeker_Peek (jread rpull) (j_right op) = Some (Ok None, p)" "remains (jread rpull) p []"
    using remains_Peek_Nil [OF Nil.prems(1)] .
  then show ?case by (auto simp: readJoinSet.simps [of rpull op])
next
  case (Cons v vs)
  obtain p where p: "Peeker_Peek (jread rpull) (j_right op) = Some (Ok (Some v), p)"
    "remains (jread rpull) p (v # vs)" "pk_cache p = Some v"
    using remains_Peek_Cons [OF Cons.prems(1)] .
  let ?op = "op\<lparr>j_right := p\<rparr>"
  obtain p' where d: "dropRight rpull ?op = Some (?op\<lparr>j_right := p'\<rparr>)" "remains (jread rpull) p' vs"
    using dropRight_remains [of ?op v rpull vs] p(2,3) by auto
  have IH: "\<exists>p. readJoinSet rpull (op\<lparr>j_right := p'\<rparr>) jk recs' =
      Some (Ok (recs' @ filter (live (j_getRightKey op)) (takeWhile W vs)), op\<lparr>j_right := p\<rparr>)
    \<and> remains (jread rpull) p (dropWhile W vs)" for recs'
    using Cons.IH [of "op\<lparr>j_right := p'\<rparr>" recs'] d(2) Cons.prems(2) by simp
  show ?case
  proof (cases "W v")
    case True
    then have "readJoinSet rpull op jk recs = readJoinSet rpull (op\<lparr>j_right := p'\<rparr>) jk
        (if live (j_getRightKey op) v then recs @ [v] else recs)"
      using p(1) d(1) Cons.prems(2) by (simp add: readJoinSet.simps [of rpull op])
    then show ?thesis using IH [of "if live (j_getRightKey op) v then recs @ [v] else recs"] True by auto
  next
    case False
    then have "readJoinSet rpull op jk recs = Some (Ok recs, ?op)"
      using p(1) Cons.prems(2) by (simp add: readJoinSet.simps [of rpull op])
    then show ?thesis using False p(2) by auto
  qed
qed

text \<open>Whether the first of the remaining values has the key \<open>k\<close>.\<close>

definition hits :: "('l, 'r) joinOp \<Rightarrow> zvalue \<Rightarrow> zvalue list \<Rightarrow> bool" where
  "hits op k ws = (case ws of [] \<Rightarrow> False | r # _ \<Rightarrow> j_compare op k (j_getRightKey op r) = 0)"

lemma getJoinSet_loop_spec:
  assumes "remains (jread rpull) (j_right op) vs"
    and "D = (\<lambda>r. live (j_getRightKey op) r \<longrightarrow> 0 < j_compare op k (j_getRightKey op r))"
    and "W = (\<lambda>r. live (j_getRightKey op) r \<longrightarrow> j_compare op (j_getRightKey op r) k = 0)"
    and "ws = dropWhile D vs" "recs = filter (live (j_getRightKey op)) (takeWhile W ws)"
  shows "\<exists>p. getJoinSet_loop rpull op k =
       Some (Ok (if hits op k ws then recs else []),
             op\<lparr>j_right := p, j_joinKey := (if hits op k ws then Some k else j_joinKey op),
                j_joinSet := (if hits op k ws then recs else j_joinSet op)\<rparr>)
     \<and> remains (jread rpull) p (if hits op k ws then dropWhile W ws else ws)"
  using assms
proof (induction vs arbitrary: op)
  case Nil
  obtain p where "Peeker_Peek (jread rpull) (j_right op) = Some (Ok None, p)" "remains (jread rpull) p []"
    using remains_Peek_Nil [OF Nil.prems(1)] .
  then show ?case using Nil.prems(4) by (intro exI [of _ p]) (simp add: getJoinSet_loop.simps [of rpull op] hits_def)
next
  case (Cons v vs)
  obtain p where p: "Peeker_Peek (jread rpull) (j_right op) = Some (Ok (Some v), p)"
    "remains (jread rpull) p (v # vs)" "pk_cache p = Some v"
    using remains_Peek_Cons [OF Cons.prems(1)] .
  let ?op = "op\<lparr>j_right := p\<rparr>"
  show ?case
  proof (cases "D v")
    case True
    obtain p' where d: "dropRight rpull ?op = Some (?op\<lparr>j_right := p'\<rparr>)" "remains (jread rpull) p' vs"
      using dropRight_remains [of ?op v rpull vs] p(2,3) by auto
    have "getJoinSet_loop rpull op k = getJoinSet_loop rpull (op\<lparr>j_right := p'\<rparr>) k"
      using True p(1) d(1) Cons.prems(2) by (auto simp: getJoinSet_loop.simps [of rpull op] Let_def)
    moreover have "ws = dropWhile D vs" using True Cons.prems(4) by simp
    moreover have "hits (op\<lparr>j_right := p'\<rparr>) k ws = hits op k ws" by (simp add: hits_def split: list.splits)
    ultimately show ?thesis using Cons.IH [of "op\<lparr>j_right := p'\<rparr>"] d(2) Cons.prems(2,3,5)
      by (cases "hits op k ws") simp_all
  next
    case False
    then have live: "live (j_getRightKey op) v" and le: "j_compare op k (j_getRightKey op v) \<le> 0" and ws: "ws = v # vs"
      using Cons.prems(2,4) by auto
    show ?thesis
    proof (cases "hits op k ws")
      case True
      then have c: "j_compare op k (j_getRightKey op v) = 0" by (simp add: hits_def ws)
      obtain p' where r: "readJoinSet rpull (?op\<lparr>j_joinKey := Some k\<rparr>) k [] = Some (Ok recs, ?op\<lparr>j_joinKey := Some k, j_right := p'\<rparr>)"
        "remains (jread rpull) p' (dropWhile W ws)"
        using readJoinSet_spec [of rpull "?op\<lparr>j_joinKey := Some k\<rparr>" "v # vs" W k "[]"] p(2) Cons.prems(3,5) ws by auto
      have "getJoinSet_loop rpull op k = Some (Ok recs, op\<lparr>j_right := p', j_joinKey := Some k, j_joinSet := recs\<rparr>)"
        using p(1) live c r(1) by (simp add: getJoinSet_loop.simps [of rpull op])
      then show ?thesis using True r(2) by (intro exI [of _ p']) simp
    next
      case neq: False
      then have "getJoinSet_loop rpull op k = Some (Ok [], ?op)"
        using p(1) live le by (simp add: getJoinSet_loop.simps [of rpull op] hits_def ws)
      then show ?thesis using neq p(2) ws by (intro exI [of _ p]) simp
    qed
  qed
qed

section \<open>The nested loop\<close>

definition matching :: "('l, 'r) joinOp \<Rightarrow> zvalue \<Rightarrow> zvalue list \<Rightarrow> zvalue list" where
  "matching op k rights =
     filter (\<lambda>r. live (j_getRightKey op) r \<and> j_compare op k (j_getRightKey op r) = 0) rights"

text \<open>
  Each left value with a key is combined with every right value of an equal key; without any,
  it is kept unless the join is an inner one; an anti join keeps only those.
\<close>

fun nestedLoop :: "('l, 'r) joinOp \<Rightarrow> zvalue list \<Rightarrow> zvalue list \<Rightarrow> zvalue list \<Rightarrow> spliceState \<Rightarrow> (zvalue list go \<times> spliceState) option" where
  "nestedLoop op rights [] out st = Some (Ok out, st)"
| "nestedLoop op rights (l # ls) out st =
     (if \<not> live (j_getLeftKey op) l then nestedLoop op rights ls out st
      else
        let ms = matching op (j_getLeftKey op l) rights in
        if ms = [] then nestedLoop op rights ls (if j_inner op then out else out @ [l]) st
        else if j_anti op then nestedLoop op rights ls out st
        else
          (case spliceAll (j_cutter op) l ms out st of
             None \<Rightarrow> None
           | Some (Ok out', st') \<Rightarrow> nestedLoop op rights ls out' st'
           | Some (Err e, st') \<Rightarrow> Some (Err e, st')
           | Some (Panic, st') \<Rightarrow> Some (Panic, st')))"

text \<open>The part of the operator that the calls do not change.\<close>

definition sameJoin :: "('l, 'r) joinOp \<Rightarrow> ('l, 'r) joinOp \<Rightarrow> bool" where
  "sameJoin op op' \<longleftrightarrow> j_anti op' = j_anti op \<and> j_inner op' = j_inner op \<and> j_getLeftKey op' = j_getLeftKey op \<and>
     j_getRightKey op' = j_getRightKey op \<and> j_compare op' = j_compare op \<and> j_cutter op' = j_cutter op"

lemma nestedLoop_same: "sameJoin op op' \<Longrightarrow> nestedLoop op' rights ls out st = nestedLoop op rights ls out st"
  by (induction op rights ls out st rule: nestedLoop.induct)
    (auto simp: sameJoin_def matching_def Let_def split: option.splits prod.splits result.splits)

lemma filter_sorted_prefix:
  assumes "sorted_wrt (\<lambda>a b. Q b \<longrightarrow> Q a) xs"
  shows "filter Q xs = takeWhile Q xs"
  using assms
proof (induction xs)
  case (Cons x xs)
  then show ?case by (auto simp: filter_empty_conv)
qed simp

text \<open>Sorted by key, as far as there is one.\<close>

definition keySorted :: "('v \<Rightarrow> 'v \<Rightarrow> int) \<Rightarrow> ('v \<Rightarrow> bool) \<Rightarrow> ('v \<Rightarrow> bool) \<Rightarrow> ('v \<Rightarrow> 'v) \<Rightarrow> 'v list \<Rightarrow> bool" where
  "keySorted cmp V ok key vs \<longleftrightarrow>
     sorted_wrt (\<lambda>a b. cmp (key a) (key b) \<le> 0) (filter ok vs) \<and> list_all (\<lambda>v. V (key v)) (filter ok vs)"

lemma keySorted_suffix: "keySorted cmp V ok key (us @ vs) \<Longrightarrow> keySorted cmp V ok key vs"
  by (auto simp: keySorted_def sorted_wrt_append)

lemma keySorted_ConsD:
  assumes "keySorted cmp V ok key (v # vs)" "ok v"
  shows "V (key v)" "keySorted cmp V ok key vs" "\<And>u. u \<in> set vs \<Longrightarrow> ok u \<Longrightarrow> V (key u) \<and> cmp (key v) (key u) \<le> 0"
  using assms by (auto simp: keySorted_def list_all_iff)

context ordering
begin

text \<open>Behind the first value that is not smaller than \<open>k\<close>, the values equal to \<open>k\<close> come first.\<close>

lemma filter_run:
  assumes "keySorted cmp V ok key ws" "V k" "\<And>w. w \<in> set ws \<Longrightarrow> ok w \<Longrightarrow> cmp k (key w) \<le> 0"
  shows "filter ok (takeWhile (\<lambda>r. ok r \<longrightarrow> cmp (key r) k = 0) ws) = filter (\<lambda>r. ok r \<and> cmp k (key r) = 0) ws"
  using assms
proof (induction ws)
  case (Cons w ws)
  show ?case
  proof (cases "ok w")
    case False
    then show ?thesis using Cons by (simp add: keySorted_def)
  next
    case True
    note w = keySorted_ConsD [OF Cons.prems(1) True]
    show ?thesis
    proof (cases "cmp k (key w) = 0")
      case eq: True
      then show ?thesis using True cmp_eq_sym [OF Cons.prems(2) w(1)] Cons.IH [OF w(2) Cons.prems(2)] Cons.prems(3) by simp
    next
      case False
      then have "cmp k (key w) < 0" using Cons.prems(3) [of w] True by simp
      then have "cmp k (key u) < 0" if "u \<in> set ws" "ok u" for u
        using cmp_less_le [OF Cons.prems(2) w(1)] w(3) [OF that] by blast
      then have "filter (\<lambda>r. ok r \<and> cmp k (key r) = 0) (w # ws) = []"
        using False by (fastforce simp: filter_empty_conv)
      then show ?thesis using True False cmp_eq_sym [OF Cons.prems(2) w(1)] by simp
    qed
  qed
qed simp

lemma keySorted_head_least:
  assumes "keySorted cmp V ok key (r # rs)" "ok r" "V k" "cmp k (key r) \<le> 0" "w \<in> set (r # rs)" "ok w"
  shows "cmp k (key w) \<le> 0"
  using assms keySorted_ConsD [OF assms(1,2)] cmp_trans [OF assms(3), of "key r" "key w"] by auto

end

section \<open>The state between two left values\<close>

text \<open>
  \<open>cs\<close> has been read from the right, \<open>rs\<close> is still to come and \<open>ls\<close> is left: what has been read is
  smaller than every key to come, or not above the key of the join set; and the join set holds
  all the values of its key.
\<close>

definition joinInv :: "(zvalue \<Rightarrow> bool) \<Rightarrow> ('l, 'r) joinOp \<Rightarrow> zvalue list \<Rightarrow> zvalue list \<Rightarrow> zvalue list \<Rightarrow> bool" where
  "joinInv V op cs rs ls \<longleftrightarrow>
     (\<forall>c l. c \<in> set cs \<and> live (j_getRightKey op) c \<and> l \<in> set ls \<and> live (j_getLeftKey op) l \<longrightarrow>
        j_compare op (j_getRightKey op c) (j_getLeftKey op l) < 0 \<or>
        (\<exists>jk. j_joinKey op = Some jk \<and> j_compare op (j_getRightKey op c) jk \<le> 0)) \<and>
     (\<forall>jk. j_joinKey op = Some jk \<longrightarrow> V jk \<and> j_joinSet op = matching op jk (cs @ rs) \<and>
        (\<forall>l. l \<in> set ls \<and> live (j_getLeftKey op) l \<longrightarrow> j_compare op jk (j_getLeftKey op l) \<le> 0))"

lemma joinInv_tl: "joinInv V op cs rs (l # ls) \<Longrightarrow> joinInv V op cs rs ls"
  unfolding joinInv_def by (meson list.set_intros(2))

lemma matching_append: "matching op k (us @ vs) = matching op k us @ matching op k vs"
  by (simp add: matching_def)

lemma matching_none:
  assumes "ordering (j_compare op) V" "V k"
    and "\<And>u. u \<in> set us \<Longrightarrow> live (j_getRightKey op) u \<Longrightarrow> V (j_getRightKey op u) \<and>
      (j_compare op (j_getRightKey op u) k < 0 \<or> j_compare op k (j_getRightKey op u) < 0)"
  shows "matching op k us = []"
proof -
  have "j_compare op k (j_getRightKey op u) \<noteq> 0" if u: "u \<in> set us" "live (j_getRightKey op) u" for u
    using assms(3) [OF u] ordering.cmp_flip [OF assms(1,2), of "j_getRightKey op u"] by linarith
  then show ?thesis by (auto simp: matching_def filter_empty_conv)
qed

lemma matching_equal:
  assumes "ordering (j_compare op) V" "V j" "V k" "j_compare op j k = 0" "list_all (\<lambda>v. V (j_getRightKey op v)) (filter (live (j_getRightKey op)) vs)"
  shows "matching op j vs = matching op k vs"
proof -
  have "j_compare op j (j_getRightKey op v) = 0 \<longleftrightarrow> j_compare op k (j_getRightKey op v) = 0"
    if "v \<in> set vs" "live (j_getRightKey op) v" for v
  proof -
    have "V (j_getRightKey op v)" using assms(5) that by (cases v) (simp add: list_all_iff)
    then have "sgn (j_compare op j (j_getRightKey op v)) = sgn (j_compare op k (j_getRightKey op v))"
      by (rule ordering.cmp_eq_left [OF assms(1-3) _ assms(4)])
    then show ?thesis by (metis sgn_0_0)
  qed
  then show ?thesis unfolding matching_def by (auto intro: filter_cong)
qed

lemma getJoinSet_ok:
  fixes op :: "('l, 'r) joinOp"
  assumes o: "ordering (j_compare op) V"
    and inv: "joinInv V op cs rs (l # ls)" and live: "live (j_getLeftKey op) l"
    and L: "keySorted (j_compare op) V (live (j_getLeftKey op)) (j_getLeftKey op) (l # ls)"
    and R: "keySorted (j_compare op) V (live (j_getRightKey op)) (j_getRightKey op) (cs @ rs)"
    and rem: "remains (jread rpull) (j_right op) rs"
  shows "\<exists>op' cs' rs'. getJoinSet rpull op (j_getLeftKey op l) = Some (Ok (matching op (j_getLeftKey op l) (cs @ rs)), op')
    \<and> sameJoin op op' \<and> j_left op' = j_left op \<and> j_splice op' = j_splice op \<and> cs' @ rs' = cs @ rs
    \<and> remains (jread rpull) (j_right op') rs' \<and> joinInv V op' cs' rs' ls"
proof -
  let ?k = "j_getLeftKey op l" and ?rk = "j_getRightKey op" and ?c = "j_compare op"
  note lD = keySorted_ConsD [OF L live]
  have Vr: "V (?rk v)" if "v \<in> set (cs @ rs)" "\<not> Value_IsMissing (?rk v)" for v
    using R that by (auto simp: keySorted_def list_all_iff)
  show ?thesis
  proof (cases "\<exists>jk. j_joinKey op = Some jk \<and> ?c ?k jk = 0")
    case True
    then obtain jk where jk: "j_joinKey op = Some jk" "?c ?k jk = 0" by blast
    then have "V jk" "j_joinSet op = matching op jk (cs @ rs)" using inv by (auto simp: joinInv_def)
    moreover have "matching op ?k (cs @ rs) = matching op jk (cs @ rs)"
      by (rule matching_equal [OF o lD(1) \<open>V jk\<close> jk(2)]) (use R in \<open>simp add: keySorted_def\<close>)
    ultimately have "getJoinSet rpull op ?k = Some (Ok (matching op ?k (cs @ rs)), op)"
      using jk by (simp add: getJoinSet_def)
    then show ?thesis using rem joinInv_tl [OF inv] by (intro exI [of _ op] exI [of _ cs] exI [of _ rs]) (simp add: sameJoin_def)
  next
    case False
    have less: "?c (?rk c) ?k < 0" if c: "c \<in> set cs" "\<not> Value_IsMissing (?rk c)" for c
    proof -
      consider "?c (?rk c) ?k < 0" | jk where "j_joinKey op = Some jk" "?c (?rk c) jk \<le> 0" "?c jk ?k \<le> 0" "V jk"
        using inv c live unfolding joinInv_def by (metis list.set_intros(1))
      then show ?thesis
      proof cases
        case (2 jk)
        then have "?c ?k jk \<noteq> 0" using False by blast
        then have "?c jk ?k < 0" using 2(3) ordering.cmp_eq_sym [OF o lD(1) 2(4)] by linarith
        then show ?thesis using ordering.cmp_le_less [OF o Vr 2(4) lD(1) 2(2)] c by simp
      qed
    qed
    define D where "D = (\<lambda>r. \<not> Value_IsMissing (?rk r) \<longrightarrow> 0 < ?c ?k (?rk r))"
    define W where "W = (\<lambda>r. \<not> Value_IsMissing (?rk r) \<longrightarrow> ?c (?rk r) ?k = 0)"
    define ds ws where "ds = takeWhile D rs" and "ws = dropWhile D rs"
    have rs: "rs = ds @ ws" by (simp add: ds_def ws_def)
    have dless: "?c (?rk d) ?k < 0" if "d \<in> set ds" "\<not> Value_IsMissing (?rk d)" for d
      using that set_takeWhileD [of d D rs] ordering.cmp_flip [OF o lD(1), of "?rk d"] Vr [of d]
      by (auto simp: ds_def D_def)
    have none: "matching op ?k (cs @ ds) = []"
      by (rule matching_none [OF o lD(1)]) (use less dless Vr rs in auto)
    have wsS: "keySorted ?c V (live ?rk) ?rk ws"
      using R keySorted_suffix [of _ _ _ _ "cs @ ds" ws] rs by simp
    have ge: "?c ?k (?rk w) \<le> 0" if w: "w \<in> set ws" "\<not> Value_IsMissing (?rk w)" for w
    proof -
      obtain r rest where r: "ws = r # rest" using w by (cases ws) auto
      then have "\<not> D r" using hd_dropWhile [of D rs] ws_def by auto
      then have "\<not> Value_IsMissing (?rk r)" "?c ?k (?rk r) \<le> 0" by (auto simp: D_def)
      then show ?thesis using ordering.keySorted_head_least [OF o wsS [unfolded r] _ lD(1) _ w(1) [unfolded r] w(2)] by blast
    qed
    define recs where "recs = filter (live ?rk) (takeWhile W ws)"
    have recs: "recs = matching op ?k ws"
      unfolding recs_def W_def matching_def by (rule ordering.filter_run [OF o wsS lD(1) ge])
    have all: "matching op ?k (cs @ rs) = recs" using none recs by (simp add: rs matching_append)
    have hit: "hits op ?k ws \<longleftrightarrow> recs \<noteq> []"
    proof (cases ws)
      case (Cons r rest)
      then have nD: "\<not> Value_IsMissing (?rk r)" "?c ?k (?rk r) \<le> 0"
        using hd_dropWhile [of D rs] by (auto simp: ws_def D_def)
      show ?thesis
      proof (cases "?c ?k (?rk r) = 0")
        case False
        then have "W r = False" using nD ordering.cmp_eq_sym [OF o lD(1) Vr [of r]] rs Cons by (simp add: W_def)
        then show ?thesis using False Cons by (simp add: hits_def recs_def)
      next
        case True
        then show ?thesis using nD recs Cons by (simp add: hits_def matching_def)
      qed
    qed (simp add: hits_def recs_def)
    obtain p where p: "getJoinSet_loop rpull op ?k =
       Some (Ok (if hits op ?k ws then recs else []),
             op\<lparr>j_right := p, j_joinKey := (if hits op ?k ws then Some ?k else j_joinKey op),
                j_joinSet := (if hits op ?k ws then recs else j_joinSet op)\<rparr>)"
      "remains (jread rpull) p (if hits op ?k ws then dropWhile W ws else ws)"
      using getJoinSet_loop_spec [OF rem D_def W_def ws_def recs_def] by blast
    have get: "getJoinSet rpull op ?k = getJoinSet_loop rpull op ?k"
      using False by (auto simp: getJoinSet_def split: option.splits)
    have later: "?c ?k (j_getLeftKey op l') \<le> 0 \<and> V (j_getLeftKey op l')"
      if "l' \<in> set ls" "\<not> Value_IsMissing (j_getLeftKey op l')" for l'
      using lD(3) [OF that] by blast
    show ?thesis
    proof (cases "hits op ?k ws")
      case True
      let ?op = "op\<lparr>j_right := p, j_joinKey := Some ?k, j_joinSet := recs\<rparr>"
      let ?cs = "cs @ ds @ takeWhile W ws" and ?rs = "dropWhile W ws"
      have "?c (?rk c) ?k \<le> 0" if "c \<in> set ?cs" "\<not> Value_IsMissing (?rk c)" for c
        using that less [of c] dless [of c] set_takeWhileD [of c W ws] by (auto simp: W_def)
      moreover have "recs = matching ?op ?k (?cs @ ?rs)" using all rs by (simp add: matching_def)
      ultimately have "joinInv V ?op ?cs ?rs ls" using lD(1) later by (simp add: joinInv_def)
      moreover have "getJoinSet rpull op ?k = Some (Ok (matching op ?k (cs @ rs)), ?op)" using get p(1) True all by simp
      ultimately show ?thesis using p(2) True rs
        by (intro exI [of _ ?op] exI [of _ ?cs] exI [of _ ?rs]) (simp add: sameJoin_def)
    next
      case False
      let ?op = "op\<lparr>j_right := p, j_joinKey := j_joinKey op, j_joinSet := j_joinSet op\<rparr>"
      have "?c (?rk c) (j_getLeftKey op l') < 0"
        if "c \<in> set (cs @ ds)" "\<not> Value_IsMissing (?rk c)" "l' \<in> set ls" "\<not> Value_IsMissing (j_getLeftKey op l')" for c l'
        using ordering.cmp_less_le [OF o Vr [of c] lD(1), of "j_getLeftKey op l'"] less [of c] dless [of c] later [OF that(3,4)] that(1,2) rs by auto
      then have "joinInv V ?op (cs @ ds) ws ls" using inv rs by (simp add: joinInv_def matching_def)
      moreover have "getJoinSet rpull op ?k = Some (Ok (matching op ?k (cs @ rs)), ?op)" using get p(1) False all hit by simp
      ultimately show ?thesis using p(2) False rs
        by (intro exI [of _ ?op] exI [of _ "cs @ ds"] exI [of _ ws]) (simp add: sameJoin_def)
    qed
  qed
qed

text \<open>The loop of the operator is the nested loop.\<close>

lemma join_loop_nested:
  fixes op :: "('l, 'r) joinOp"
  assumes "reads (jread lpull) (j_left op) ls None l'"
    and "ordering (j_compare op) V" "joinInv V op cs rs ls"
    and "keySorted (j_compare op) V (live (j_getLeftKey op)) (j_getLeftKey op) ls"
    and "keySorted (j_compare op) V (live (j_getRightKey op)) (j_getRightKey op) (cs @ rs)"
    and "remains (jread rpull) (j_right op) rs"
  shows "\<exists>op'. join_loop lpull rpull op out =
    map_option (\<lambda>(r, st). (mapR (\<lambda>out. if length out = 0 then None else Some (NewArray out)) r, op'\<lparr>j_splice := st\<rparr>))
      (nestedLoop op (cs @ rs) ls out (j_splice op))"
  using assms
proof (induction "j_left op" ls "None :: goerror option" l' arbitrary: op cs rs out rule: reads.induct)
  case (reads_eos r')
  then show ?case by (intro exI [of _ "op\<lparr>j_left := r'\<rparr>"]) (simp add: join_loop.simps [of lpull rpull op])
next
  case (reads_val l r1 ls r')
  let ?op = "op\<lparr>j_left := r1\<rparr>"
  have base: "ordering (j_compare ?op) V" "remains (jread rpull) (j_right ?op) rs"
    "keySorted (j_compare ?op) V (live (j_getLeftKey ?op)) (j_getLeftKey ?op) (l # ls)"
    "keySorted (j_compare ?op) V (live (j_getRightKey ?op)) (j_getRightKey ?op) (cs @ rs)"
    "joinInv V ?op cs rs (l # ls)"
    using reads_val.prems by (simp_all add: joinInv_def matching_def)
  have tl: "keySorted (j_compare op) V (live (j_getLeftKey op)) (j_getLeftKey op) ls"
    using keySorted_suffix [of _ _ _ _ "[l]" ls] reads_val.prems(3) by simp
  show ?case
  proof (cases "Value_IsMissing (j_getLeftKey op l)")
    case True
    have "join_loop lpull rpull op out = join_loop lpull rpull ?op out"
      using reads_val.hyps(1) True by (simp add: join_loop.simps [of lpull rpull op])
    moreover have "nestedLoop ?op rights ls out st = nestedLoop op rights ls out st" for rights out st
      by (rule nestedLoop_same) (simp add: sameJoin_def)
    ultimately show ?thesis
      using reads_val.hyps(3) [of ?op cs rs out] base tl True joinInv_tl [OF base(5)] by simp
  next
    case False
    obtain op' cs' rs' where g: "getJoinSet rpull ?op (j_getLeftKey op l) = Some (Ok (matching op (j_getLeftKey op l) (cs @ rs)), op')"
      "sameJoin op op'" "j_left op' = r1" "j_splice op' = j_splice op" "cs' @ rs' = cs @ rs"
      "remains (jread rpull) (j_right op') rs'" "joinInv V op' cs' rs' ls"
      using getJoinSet_ok [OF base(1,5) _ base(3,4,2)] False by (auto simp: sameJoin_def matching_def)
    let ?ms = "matching op (j_getLeftKey op l) (cs @ rs)"
    have IH: "\<exists>op''. join_loop lpull rpull (op'\<lparr>j_splice := st\<rparr>) out' =
        map_option (\<lambda>(r, st). (mapR (\<lambda>out. if length out = 0 then None else Some (NewArray out)) r, op''\<lparr>j_splice := st\<rparr>))
          (nestedLoop op (cs @ rs) ls out' st)" for out' st
    proof -
      have "joinInv V (op'\<lparr>j_splice := st\<rparr>) cs' rs' ls" using g(7) by (simp add: joinInv_def matching_def)
      moreover have "nestedLoop (op'\<lparr>j_splice := st\<rparr>) (cs @ rs) ls out' st = nestedLoop op (cs @ rs) ls out' st"
        by (rule nestedLoop_same) (use g(2) in \<open>simp add: sameJoin_def\<close>)
      ultimately show ?thesis
        using reads_val.hyps(3) [of "op'\<lparr>j_splice := st\<rparr>" cs' rs' out'] g(2-6) tl reads_val.prems(1,4)
        by (simp add: sameJoin_def)
    qed
    have step: "join_loop lpull rpull op out =
      (if ?ms = [] then join_loop lpull rpull op' (if \<not> j_inner op then out @ [l] else out)
       else if j_anti op then join_loop lpull rpull op' out
       else (case spliceAll (j_cutter op) l ?ms out (j_splice op) of
               None \<Rightarrow> None
             | Some (Ok out, st) \<Rightarrow> join_loop lpull rpull (op'\<lparr>j_splice := st\<rparr>) out
             | Some (Err e, st) \<Rightarrow> Some (Err e, op'\<lparr>j_splice := st\<rparr>)
             | Some (Panic, st) \<Rightarrow> Some (Panic, op'\<lparr>j_splice := st\<rparr>)))"
      using reads_val.hyps(1) False g(1,2,4) by (simp add: join_loop.simps [of lpull rpull op] sameJoin_def)
    have op': "op'\<lparr>j_splice := j_splice op\<rparr> = op'" using g(4) by simp
    show ?thesis
    proof (cases "?ms = [] \<or> j_anti op")
      case True
      define out1 where "out1 = (if ?ms = [] then (if j_inner op then out else out @ [l]) else out)"
      have "join_loop lpull rpull op out = join_loop lpull rpull op' out1"
        using step True by (cases "?ms = []") (simp_all add: out1_def)
      moreover have "nestedLoop op (cs @ rs) (l # ls) out (j_splice op) = nestedLoop op (cs @ rs) ls out1 (j_splice op)"
        using False True by (cases "?ms = []") (simp_all add: out1_def Let_def)
      ultimately show ?thesis using IH [of "j_splice op" out1] unfolding op' by (simp only:)
    next
      case ne: False
      then have n: "nestedLoop op (cs @ rs) (l # ls) out (j_splice op) =
          (case spliceAll (j_cutter op) l ?ms out (j_splice op) of
             None \<Rightarrow> None
           | Some (Ok out', st') \<Rightarrow> nestedLoop op (cs @ rs) ls out' st'
           | Some (Err e, st') \<Rightarrow> Some (Err e, st')
           | Some (Panic, st') \<Rightarrow> Some (Panic, st'))"
        using False by (simp add: Let_def)
      show ?thesis
      proof (cases "spliceAll (j_cutter op) l ?ms out (j_splice op)")
        case None
        then show ?thesis using step n ne by simp
      next
        case (Some x)
        then obtain y st where x: "spliceAll (j_cutter op) l ?ms out (j_splice op) = Some (y, st)" by (cases x) auto
        show ?thesis
        proof (cases y)
          case (Ok out')
          then show ?thesis using step n ne x IH [of st out'] by simp
        next
          case (Err e)
          then show ?thesis using step n ne x by (intro exI [of _ op']) simp
        next
          case Panic
          then show ?thesis using step n ne x by (intro exI [of _ op']) simp
        qed
      qed
    qed
  qed
qed

end
