(* ===== verification/JoinProps.thy ===== *)
theory JoinProps
  imports JoinLaws ContextSpec
begin

text \<open>
  The properties of \<open>join\<close>, of the names of combined records, of \<open>Value.Under\<close> and of sorting.
\<close>

section \<open>Join\<close>

text \<open>C14: the join of two inputs that are sorted by their keys, in an ordering of the keys, returns what the
  nested loop over all pairs returns, as one batch: inner, left and anti join alike, errors
  included.\<close>

theorem join_is_nested_loop:
  assumes "ordering cmp V" "stream lpull s bs None s'" "stream rpull t cs None t'"
    and "keySorted cmp V (live leftKey) leftKey (valuesOf bs)"
    and "keySorted cmp V (live rightKey) rightKey (valuesOf cs)"
  shows "\<exists>op. Join_Pull lpull rpull done (NewJoin zctx anti inner s t leftKey rightKey cmp cutter) =
      map_option (\<lambda>(r, st). (mapR (\<lambda>out. if length out = 0 then None else Some (NewArray out)) r, op\<lparr>j_splice := st\<rparr>))
        (nestedLoop (NewJoin zctx anti inner s t leftKey rightKey cmp cutter) (valuesOf cs) (valuesOf bs) []
          \<lparr>sp_zctx = zctx, sp_types = (\<lambda>_. Map.empty)\<rparr>)"
proof -
  let ?op = "NewJoin zctx anti inner s t leftKey rightKey cmp cutter"
  have "reads (jread lpull) (j_left ?op) (valuesOf bs) None (PullerReader \<lparr>jp_op = s', jp_closed = True\<rparr>)"
    using jread_reads [OF assms(2)] by (simp add: NewJoin_def)
  moreover have "remains (jread rpull) (j_right ?op) (valuesOf cs)"
    using remains_new [OF assms(3)] by (simp add: NewJoin_def)
  moreover have "joinInv V ?op [] (valuesOf cs) (valuesOf bs)" by (simp add: joinInv_def NewJoin_def)
  ultimately show ?thesis
    using join_loop_nested [of lpull ?op "valuesOf bs" _ V "[]" "valuesOf cs" rpull "[]"] assms(1,4,5)
    by (simp add: Join_Pull_def NewJoin_def)
qed

text \<open>Records of one field \<open>a\<close>, and the key of such a record.\<close>

definition recA :: "byte \<Rightarrow> zvalue" where
  "recA x = (TypeRecord 30 [(str ''a'', TypePrimitive TypeInt64)], Some [2, x])"

definition keyA :: "zvalue \<Rightarrow> zvalue" where
  "keyA v = (TypePrimitive TypeInt64, map_option tl (snd v))"

definition rowsPull :: "(zvalue, zvalue batch zpuller) pull" where
  "rowsPull = Puller_Pull 100 Array_Read"

lemma rows_stream: "stream rowsPull (NewPuller (NewArray [recA 2, recA 4])) [NewArray [recA 2, recA 4]] None \<lparr>zr = None\<rparr>"
  by (simp add: stream_resume rowsPull_def Puller_Pull_def NewPuller_def puller_fill.simps [of Array_Read] Array_Read_def
      NewArray_def newPullerBatch_def appendVal_def PullerBatchBytes_def recA_def)

lemma rows_sorted:
  "keySorted (\<lambda>a b. okInt (compareValues fl True a b)) simpleVal (live keyA) keyA (valuesOf [NewArray [recA 2, recA 4]])"
proof -
  have s: "simpleVal (keyA (recA x))" for x
    by (simp add: simpleVal_def keyA_def recA_def properID_def isNative_def)
  have "okInt (compareValues fl True (keyA (recA 2)) (keyA (recA 4))) = -1"
    using compareValues_simple [OF s s, of fl True 2 4]
    by (simp add: okInt_def simpleCmp_def keyA_def recA_def rankOf_def numOf_def intOf_def isNative_def IsSigned_def
        DecodeInt_def) code_simp
  then show ?thesis using s by (simp add: keySorted_def Value_IsMissing_def keyA_def)
qed

theorem join_is_nested_loop_witness:
  "\<exists>op. Join_Pull rowsPull rowsPull False (NewJoin NewContext False True (NewPuller (NewArray [recA 2, recA 4]))
        (NewPuller (NewArray [recA 2, recA 4])) keyA keyA (\<lambda>a b. okInt (compareValues (\<lambda>a b. Panic) True a b)) (\<lambda>v. v)) =
      map_option (\<lambda>(r, st). (mapR (\<lambda>out. if length out = 0 then None else Some (NewArray out)) r, op\<lparr>j_splice := st\<rparr>))
        (nestedLoop (NewJoin NewContext False True (NewPuller (NewArray [recA 2, recA 4]))
            (NewPuller (NewArray [recA 2, recA 4])) keyA keyA (\<lambda>a b. okInt (compareValues (\<lambda>a b. Panic) True a b)) (\<lambda>v. v))
          (valuesOf [NewArray [recA 2, recA 4]]) (valuesOf [NewArray [recA 2, recA 4]]) []
          \<lparr>sp_zctx = NewContext, sp_types = (\<lambda>_. Map.empty)\<rparr>)"
  by (rule join_is_nested_loop [OF sv.ordering_axioms rows_stream rows_stream rows_sorted rows_sorted])

section \<open>Combined records\<close>

lemma fieldName_free: "\<not> HasField left (fieldName left fname name k)"
  by (induction left fname name k rule: fieldName.induct) (auto simp: fieldName.simps)

lemma fieldName_keeps: "\<not> HasField left name \<Longrightarrow> fieldName left fname name k = name"
  by (simp add: fieldName.simps)

text \<open>When no new name of a right field is also the name of another right field, splicing two records of the
  context gives the record with the fields of the left, under their names, and those of the
  right, under names that the left does not have; its bytes are the bytes of both.\<close>

theorem splice_appends:
  assumes "wf_ctx c" "inC c (TypeRecord i lf)" "inC c (TypeRecord j rf)"
    and "fs = lf @ map (\<lambda>(n, t). (fieldName lf n n 2, t)) rf" "distinct (map (\<lambda>(n, t). fieldName lf n n 2) rf)"
    and "int (length fs) \<le> MaxRecordFields" "\<forall>f \<in> set fs. small (fst f)"
  shows "\<exists>k st. splice \<lparr>sp_zctx = c, sp_types = (\<lambda>_. Map.empty)\<rparr> (TypeRecord i lf, lbytes) (TypeRecord j rf, rbytes) =
      Some (Ok ((TypeRecord k fs, Some (buf lbytes @ buf rbytes)), st)) \<and> inC (sp_zctx st) (TypeRecord k fs) \<and>
      (\<forall>(n, t) \<in> set rf. fieldName lf n n 2 \<notin> set (map fst lf) \<and> (n \<notin> set (map fst lf) \<longrightarrow> fieldName lf n n 2 = n))"
proof -
  note wt = wf_ctxD(1) [OF assms(1)]
  have node: "distinct (map fst lf)" using assms(2) wf_typesD(3) [OF wt, of "TypeRecord i lf"] by (simp add: inC_def)
  have kids: "inC c t" if "(n, t) \<in> set fs" for n t
    using that inC_children [OF wt assms(2), of t] inC_children [OF wt assms(3), of t] assms(4) by force
  have free: "fieldName lf n n 2 \<notin> set (map fst lf)" for n using fieldName_free [of lf n n 2] by (simp only: HasField_iff not_False_eq_True)
  have "distinct (map fst fs)"
  proof -
    have "map fst fs = map fst lf @ map (\<lambda>(n, t). fieldName lf n n 2) rf" by (simp add: assms(4) comp_def split_def)
    moreover have "x \<notin> set (map fst lf)" if x: "x \<in> set (map (\<lambda>(n, t). fieldName lf n n 2) rf)" for x
    proof -
      obtain n where "x = fieldName lf n n 2" using x by auto
      then show ?thesis using free by blast
    qed
    then have "set (map fst lf) \<inter> set (map (\<lambda>(n, t). fieldName lf n n 2) rf) = {}" by blast
    ultimately show ?thesis using node assms(5) by (simp only: distinct_append)
  qed
  then have i: "internable c (TypeRecord 0 fs)"
    using kids assms(6,7) inC_lens_ok [OF wt] by (auto simp: internable_def small_def MaxRecordFields_def)
  obtain k c' where k: "LookupTypeRecord fs c = Ok (TypeRecord k fs, c')" "inC c' (TypeRecord k fs)"
    using LookupTypeRecord_fields [OF assms(1) i] by metis
  have "fieldName lf n n 2 = n" if "n \<notin> set (map fst lf)" for n
    using that by (intro fieldName_keeps) (simp only: HasField_iff not_False_eq_True)
  then show ?thesis using k free
    by (auto simp: splice_def combinedType_def lookupType_def buildType_def enterType_def assms(4))
qed

text \<open>The names given to the fields of the right are only checked against the left, so two records that have
  a field \<open>n\<close> each cannot be joined when the right also has a field \<open>n_2\<close>: the join ends with the
  error of a duplicate field.\<close>

theorem join_name_clash:
  assumes "toType c (AppendTypeValue [] (TypeRecord 0 (lf @ [(numbered n 2, t), (numbered n 2, u)]))) = None"
    and "n \<in> set (map fst lf)" "numbered n 2 \<notin> set (map fst lf)"
  shows "splice \<lparr>sp_zctx = c, sp_types = (\<lambda>_. Map.empty)\<rparr> (TypeRecord i lf, lbytes) (TypeRecord j [(n, t), (numbered n 2, u)], rbytes) =
    Some (Err (Errorf ''duplicate field''))"
proof -
  let ?n2 = "numbered n 2"
  have "fieldName lf n n 2 = ?n2" "fieldName lf ?n2 ?n2 2 = ?n2"
    using assms(2,3) by (simp_all only: fieldName.simps [of lf n n 2] fieldName.simps [of lf n ?n2] fieldName.simps [of lf ?n2 ?n2] HasField_iff if_True if_False)
  moreover have "duplicateField (lf @ [(?n2, t), (?n2, u)]) \<noteq> None"
    using duplicateField_None_iff [of "lf @ [(?n2, t), (?n2, u)]"] by simp
  ultimately show ?thesis using assms(1)
    by (auto simp: splice_def combinedType_def lookupType_def buildType_def LookupTypeRecord_def Let_def)
qed

definition fieldsA :: "(gostring \<times> ztype) list" where
  "fieldsA = [(str ''a'', TypePrimitive TypeInt64)]"

definition contextA :: ctx where
  "contextA = enterWithLock (AppendTypeValue [] (TypeRecord 0 fieldsA)) (TypeRecord 30 fieldsA) NewContext"

lemma contextA_facts: "wf_ctx contextA" "inC contextA (TypeRecord 30 fieldsA)"
proof -
  have i: "internable NewContext (TypeRecord 0 fieldsA)"
    by (simp add: internable_def fieldsA_def MaxRecordFields_def small_def str_def inC_def)
  have r: "LookupTypeRecord fieldsA NewContext = Ok (TypeRecord 30 fieldsA, contextA)"
    by (simp add: LookupTypeRecord_def contextA_def NewContext_def duplicateField_def nextIDWithLock_def IDTypeComplex_def
        Let_def fieldsA_def)
  show "wf_ctx contextA" "inC contextA (TypeRecord 30 fieldsA)"
    using rec.look_result [OF wf_NewContext i r] by (simp_all add: inC_def)
qed

lemma fieldName_A: "fieldName fieldsA (str ''a'') (str ''a'') 2 = numbered (str ''a'') 2"
proof -
  have "HasField fieldsA (str ''a'')" "\<not> HasField fieldsA (numbered (str ''a'') 2)"
    by (simp_all add: HasField_iff fieldsA_def numbered_def str_def)
  then show ?thesis by (simp add: fieldName.simps [of fieldsA])
qed

theorem splice_appends_witness:
  "\<exists>k st. splice \<lparr>sp_zctx = contextA, sp_types = (\<lambda>_. Map.empty)\<rparr> (TypeRecord 30 fieldsA, Some [2, 2]) (TypeRecord 30 fieldsA, Some [2, 4]) =
      Some (Ok ((TypeRecord k (fieldsA @ [(numbered (str ''a'') 2, TypePrimitive TypeInt64)]), Some (buf (Some [2, 2]) @ buf (Some [2, 4]))), st)) \<and>
      inC (sp_zctx st) (TypeRecord k (fieldsA @ [(numbered (str ''a'') 2, TypePrimitive TypeInt64)])) \<and>
      (\<forall>(n, t) \<in> set fieldsA. fieldName fieldsA n n 2 \<notin> set (map fst fieldsA) \<and>
        (n \<notin> set (map fst fieldsA) \<longrightarrow> fieldName fieldsA n n 2 = n))"
  by (rule splice_appends [OF contextA_facts contextA_facts(2)])
    (simp_all add: fieldsA_def fieldName_A [unfolded fieldsA_def] MaxRecordFields_def, simp add: small_def numbered_def decimal.simps str_def)

theorem join_name_clash_witness:
  "splice \<lparr>sp_zctx = NewContext, sp_types = (\<lambda>_. Map.empty)\<rparr> (TypeRecord 30 [(str ''a'', TypePrimitive TypeInt64)], Some [2, 2])
     (TypeRecord 31 [(str ''a'', TypePrimitive TypeInt64), (numbered (str ''a'') 2, TypePrimitive TypeInt64)], Some [2, 2, 2, 4]) =
    Some (Err (Errorf ''duplicate field''))"
  by (rule join_name_clash) (simp_all add: NewContext_def numbered_def str_def)

section \<open>Underlying values\<close>

text \<open>A value that is, or whose unions lead to, a null value of a union type.\<close>

inductive leadsToNullUnion :: "ztype \<Rightarrow> zbytes \<Rightarrow> bool" where
  null_union: "TypeUnder t = TypeUnion i tys \<Longrightarrow> leadsToNullUnion t None"
| through_union: "TypeUnder t = TypeUnion i tys \<Longrightarrow> Untag i tys (Some b) = Ok (t', b') \<Longrightarrow> leadsToNullUnion t' b' \<Longrightarrow>
    leadsToNullUnion t (Some b)"

lemma Value_under_null:
  assumes "TypeUnder t = TypeUnion i tys"
  shows "Value_under t None = None"
proof -
  have "\<not> (IsUnionType t \<and> bs = None)" if "Value_under t bs = Some r" for t bs r
  proof (rule Value_under.raw_induct [where P = "\<lambda>t bs r. \<not> (IsUnionType t \<and> bs = None)", OF _ that])
    fix f ty bs r
    assume IH: "\<And>ty bs r. f ty bs = Some r \<Longrightarrow> \<not> (IsUnionType ty \<and> bs = None)"
      and eq: "(case TypeUnder ty of
        TypeUnion i tys \<Rightarrow>
          (case Untag i tys bs of Ok (ty', bs') \<Rightarrow> f ty' bs' | Err e \<Rightarrow> Some (Err e) | Panic \<Rightarrow> Some Panic)
      | t \<Rightarrow> Some (Ok (t, bs))) = Some r"
    show "\<not> (IsUnionType ty \<and> bs = None)"
    proof
      assume u: "IsUnionType ty \<and> bs = None"
      then obtain i tys where "TypeUnder ty = TypeUnion i tys" by (cases "TypeUnder ty") (auto simp: IsUnionType_def)
      then have "f (TypeUnion i tys) None = Some r" using eq u by (simp add: Untag_def)
      then show False using IH by (fastforce simp: IsUnionType_def)
    qed
  qed
  moreover have "IsUnionType t" using assms by (simp add: IsUnionType_def)
  ultimately show ?thesis by (cases "Value_under t None") blast+
qed

lemma Untag_size:
  assumes "Untag i tys (Some b) = Ok (t', b')" "TypeUnder t = TypeUnion i tys"
  shows "size t' < size t"
proof -
  have "t' \<in> set tys"
    using assms(1) by (auto simp: Untag_def bindR_Ok_iff TypeUnion_Type_def split: result.splits if_splits)
  then show ?thesis using under_smaller(7) [OF assms(2)] by blast
qed

lemma Value_under_diverges: "Value_under t b = None \<longleftrightarrow> leadsToNullUnion t b"
proof
  show "Value_under t b = None" if "leadsToNullUnion t b"
    using that by induction (simp_all add: Value_under_null Value_under.simps [of _ "Some _"])
next
  show "leadsToNullUnion t b" if "Value_under t b = None"
    using that
  proof (induction "size t" arbitrary: t b rule: less_induct)
    case less
    obtain i tys where u: "TypeUnder t = TypeUnion i tys"
      using less.prems by (cases "TypeUnder t") (auto simp: Value_under.simps [of t])
    show ?case
    proof (cases b)
      case None
      then show ?thesis using u by (simp add: null_union)
    next
      case (Some bs)
      obtain t' b' where un: "Untag i tys (Some bs) = Ok (t', b')" "Value_under t' b' = None"
        using less.prems u Some by (cases "Untag i tys (Some bs)") (auto simp: Value_under.simps [of t])
      then show ?thesis using less.hyps [OF Untag_size [OF un(1) u] un(2)] through_union [OF u un(1)] Some by simp
    qed
  qed
qed

text \<open>C22: \<open>Value.Under\<close> loops forever exactly on the values that lead to a null value of a union type, such
  as the null union itself; when it returns a value, the type of that value is neither a union nor
  a named type.\<close>

theorem Under_null_union_diverges:
  "(Value_Under v = None \<longleftrightarrow> leadsToNullUnion (fst v) (snd v)) \<and>
   (Value_Under v = Some (Ok w) \<longrightarrow> TypeUnder (fst w) = fst w \<and> \<not> IsUnionType (fst w))"
proof
  show "Value_Under v = None \<longleftrightarrow> leadsToNullUnion (fst v) (snd v)"
    using Value_under_diverges [of "fst v" "snd v"]
    by (cases "fst v") (auto simp: Value_Under_def elim: leadsToNullUnion.cases)
  show "Value_Under v = Some (Ok w) \<longrightarrow> TypeUnder (fst w) = fst w \<and> \<not> IsUnionType (fst w)"
    using Value_under_result [of "fst v" "snd v" "Ok w"]
    by (cases "fst v") (auto simp: Value_Under_def plainVal_def IsUnionType_def)
qed

theorem Under_null_union_diverges_witness:
  "Value_Under (TypeUnion 30 [TypePrimitive TypeInt64], None) = None"
  using Under_null_union_diverges [of "(TypeUnion 30 [TypePrimitive TypeInt64], None)"] by (auto intro: null_union)

section \<open>Sorting\<close>

definition keyLess :: "fcmp \<Rightarrow> comparator \<Rightarrow> zvalue \<Rightarrow> zvalue \<Rightarrow> bool" where
  "keyLess fl c a b \<longleftrightarrow> okInt (Comparator_Compare fl c a b) < 0"

text \<open>C15: \<open>SortStable\<close>, with its table of 64-bit keys and its moves in place, and \<open>SortStableReader\<close> return the
  values in the order of the stable sort by \<open>Compare\<close>; when all keys are nulls, integers,
  booleans, strings, bytes or networks, this is in order.\<close>

theorem SortStable_is_stable_sort:
  assumes "c_exprs c \<noteq> []" "length vals < 2 ^ 32" "\<forall>v \<in> set vals. simpleKeys c v"
  shows "SortStable fl c vals = Ok (SliceStable (keyLess fl c) vals) \<and> ordered (keyLess fl c) (SliceStable (keyLess fl c) vals) \<and>
    mset (SliceStable (keyLess fl c) vals) = mset vals \<and>
    (\<exists>rd. SortStableReader fl c vals = Ok rd \<and> map (\<lambda>i. ssr_vals rd ! i) (ssr_indices rd) = SliceStable (keyLess fl c) vals)"
proof -
  have less: "keyLess fl c = (\<lambda>a b. okInt (Comparator_Compare fl c a b) < 0)" by (intro ext) (simp add: keyLess_def)
  obtain k ks where k: "c_exprs c = k # ks" using assms(1) by (cases "c_exprs c") auto
  have s: "sortable c vals" using assms(3) by (simp add: sortable_def simpleKeys_def simpleVal_def)
  have ok: "\<forall>a \<in> set vals. \<forall>b \<in> set vals. isOk (compareValues fl (c_nullsMax c) (se_Eval k a) (se_Eval k b))"
    using assms(3) k by (simp add: simpleKeys_def compareValues_simple_Ok)
  have "ordered (keyLess fl c) (SliceStable (keyLess fl c) vals)"
    unfolding less by (rule SliceStable_ordered_on) (use assms(3) cc.cmp_flip [of c _ _ fl] in force)
  moreover have "\<exists>rd. SortStableReader fl c vals = Ok rd \<and> map (\<lambda>i. ssr_vals rd ! i) (ssr_indices rd) = SliceStable (keyLess fl c) vals"
    using sortStableIndices_ok [OF s k assms(2) ok] unfolding less by (auto simp: SortStableReader_def)
  ultimately show ?thesis using SortStable_eq [OF s k assms(2) ok] unfolding less by simp
qed

theorem SortStable_is_stable_sort_witness:
  "SortStable (\<lambda>a b. Panic) (NewComparator True [\<lparr>se_Eval = keyA, se_Desc = True\<rparr>]) [recA 2, recA 4] =
      Ok (SliceStable (keyLess (\<lambda>a b. Panic) (NewComparator True [\<lparr>se_Eval = keyA, se_Desc = True\<rparr>])) [recA 2, recA 4])"
  using SortStable_is_stable_sort [of "NewComparator True [\<lparr>se_Eval = keyA, se_Desc = True\<rparr>]" "[recA 2, recA 4]" "\<lambda>a b. Panic"]
  by (simp add: NewComparator_def simpleKeys_def simpleVal_def keyA_def recA_def properID_def isNative_def)

end
