(* ===== verification/GoHeap.thy ===== *)
theory GoHeap
  imports CompareLaws
begin

text \<open>
  Go's \<open>container/heap\<close> over a slice, the priority queue of \<open>top\<close> and of the external merge sort:
  \<open>up\<close>, \<open>down\<close> and the operations \<open>Init\<close>, \<open>Push\<close>, \<open>Pop\<close> and \<open>Fix\<close> made of them.  The laws are
  proved once for every ordering.
\<close>

definition swap :: "'a list \<Rightarrow> nat \<Rightarrow> nat \<Rightarrow> 'a list" where
  "swap h i j = h[i := h ! j, j := h ! i]"

text \<open>The parent of position \<open>j\<close>; Go's \<open>(j-1)/2\<close> is 0 for \<open>j = 0\<close>, and \<open>up\<close> then stops.\<close>

fun heap_up :: "('a \<Rightarrow> 'a \<Rightarrow> bool) \<Rightarrow> 'a list \<Rightarrow> nat \<Rightarrow> 'a list" where
  "heap_up lt h j =
     (let i = (j - 1) div 2 in
      if i = j \<or> \<not> lt (h ! j) (h ! i) then h else heap_up lt (swap h i j) i)"

declare heap_up.simps [simp del]

text \<open>\<open>down\<close> returns whether it moved anything; \<open>n\<close> is the part of the slice that is the heap.\<close>

definition heap_child :: "('a \<Rightarrow> 'a \<Rightarrow> bool) \<Rightarrow> 'a list \<Rightarrow> nat \<Rightarrow> nat \<Rightarrow> nat" where
  "heap_child lt h i n =
     (let j1 = 2 * i + 1; j2 = j1 + 1 in if j2 < n \<and> lt (h ! j2) (h ! j1) then j2 else j1)"

function heap_down :: "('a \<Rightarrow> 'a \<Rightarrow> bool) \<Rightarrow> 'a list \<Rightarrow> nat \<Rightarrow> nat \<Rightarrow> 'a list \<times> bool" where
  "heap_down lt h i n =
     (if n \<le> 2 * i + 1 then (h, False)
      else
        let j = heap_child lt h i n in
        if \<not> lt (h ! j) (h ! i) then (h, False)
        else (fst (heap_down lt (swap h i j) j n), True))"
  by pat_completeness auto
termination
  by (relation "measure (\<lambda>(lt, h, i, n). n - i)") (auto simp: heap_child_def Let_def)

declare heap_down.simps [simp del]

fun heap_init_loop :: "('a \<Rightarrow> 'a \<Rightarrow> bool) \<Rightarrow> 'a list \<Rightarrow> nat \<Rightarrow> nat \<Rightarrow> 'a list" where
  "heap_init_loop lt h 0 n = h"
| "heap_init_loop lt h (Suc i) n = heap_init_loop lt (fst (heap_down lt h i n)) i n"

definition heap_Init :: "('a \<Rightarrow> 'a \<Rightarrow> bool) \<Rightarrow> 'a list \<Rightarrow> 'a list" where
  "heap_Init lt h = heap_init_loop lt h (length h div 2) (length h)"

definition heap_Push :: "('a \<Rightarrow> 'a \<Rightarrow> bool) \<Rightarrow> 'a list \<Rightarrow> 'a \<Rightarrow> 'a list" where
  "heap_Push lt h x = heap_up lt (h @ [x]) (length h)"

text \<open>\<open>Pop\<close> of a nonempty heap: the element and the heap without it.\<close>

definition heap_Pop :: "('a \<Rightarrow> 'a \<Rightarrow> bool) \<Rightarrow> 'a list \<Rightarrow> 'a \<times> 'a list" where
  "heap_Pop lt h =
     (let n = length h - 1; h' = fst (heap_down lt (swap h 0 n) 0 n) in (last h', butlast h'))"

definition heap_Fix :: "('a \<Rightarrow> 'a \<Rightarrow> bool) \<Rightarrow> 'a list \<Rightarrow> nat \<Rightarrow> 'a list" where
  "heap_Fix lt h i =
     (let (h', moved) = heap_down lt h i (length h) in if moved then h' else heap_up lt h' i)"

section \<open>The elements stay the same\<close>

lemma length_swap [simp]: "length (swap h i j) = length h"
  by (simp add: swap_def)

lemma nth_swap: "i < length h \<Longrightarrow> j < length h \<Longrightarrow> k < length h \<Longrightarrow>
    swap h i j ! k = (if k = j then h ! i else if k = i then h ! j else h ! k)"
  by (auto simp: swap_def nth_list_update)

lemma mset_swap_heap: "i < length h \<Longrightarrow> j < length h \<Longrightarrow> mset (swap h i j) = mset h"
  unfolding swap_def by (rule mset_swap)

lemma heap_up_mset: "j < length h \<Longrightarrow> mset (heap_up lt h j) = mset h"
proof (induction lt h j rule: heap_up.induct)
  case (1 lt h j)
  have "(j - 1) div 2 < length h" using 1(2) by simp
  then show ?case using 1 by (simp add: heap_up.simps [of lt h j] Let_def mset_swap_heap)
qed

lemma heap_child_bounds: "\<not> n \<le> 2 * i + 1 \<Longrightarrow> heap_child lt h i n < n \<and> i < heap_child lt h i n"
  by (auto simp: heap_child_def Let_def)

lemma heap_down_mset: "n \<le> length h \<Longrightarrow> mset (fst (heap_down lt h i n)) = mset h"
proof (induction lt h i n rule: heap_down.induct)
  case (1 lt h i n)
  then show ?case
    using heap_child_bounds [of n i lt h] by (auto simp: heap_down.simps [of lt h i n] Let_def mset_swap_heap)
qed

lemma heap_up_length [simp]: "j < length h \<Longrightarrow> length (heap_up lt h j) = length h"
  by (metis heap_up_mset size_mset)

lemma heap_down_length [simp]: "n \<le> length h \<Longrightarrow> length (fst (heap_down lt h i n)) = length h"
  by (metis heap_down_mset size_mset)

text \<open>\<open>down\<close> leaves the positions from \<open>n\<close> on alone, and returns its argument when it moves nothing.\<close>

lemma heap_down_beyond: "n \<le> k \<Longrightarrow> k < length h \<Longrightarrow> fst (heap_down lt h i n) ! k = h ! k"
proof (induction lt h i n rule: heap_down.induct)
  case (1 lt h i n)
  then show ?case
    using heap_child_bounds [of n i lt h] by (auto simp: heap_down.simps [of lt h i n] Let_def nth_swap)
qed

lemma heap_down_still: "heap_down lt h i n = (h', False) \<Longrightarrow> h' = h"
  by (auto simp: heap_down.simps [of lt h i n] Let_def split: if_splits)

text \<open>What follows the heap in the slice does not matter; so \<open>Pop\<close> never looks at the element it returns.\<close>

lemma swap_append: "i < length h \<Longrightarrow> j < length h \<Longrightarrow> swap (h @ ys) i j = swap h i j @ ys"
  by (simp add: swap_def nth_append list_update_append)

lemma heap_child_append: "n \<le> length h \<Longrightarrow> \<not> n \<le> 2 * i + 1 \<Longrightarrow> heap_child lt (h @ ys) i n = heap_child lt h i n"
  by (simp add: heap_child_def Let_def nth_append)

lemma heap_down_append:
  "n \<le> length h \<Longrightarrow> heap_down lt (h @ ys) i n = (fst (heap_down lt h i n) @ ys, snd (heap_down lt h i n))"
proof (induction lt h i n rule: heap_down.induct)
  case (1 lt h i n)
  show ?case
  proof (cases "n \<le> 2 * i + 1")
    case False
    then have b: "heap_child lt h i n < length h" "i < length h" using heap_child_bounds [of n i lt h] 1(2) by auto
    have IH: "heap_down lt (swap h i (heap_child lt h i n) @ ys) (heap_child lt h i n) n =
        (fst (heap_down lt (swap h i (heap_child lt h i n)) (heap_child lt h i n) n) @ ys,
         snd (heap_down lt (swap h i (heap_child lt h i n)) (heap_child lt h i n) n))"
      if "lt (h ! heap_child lt h i n) (h ! i)"
      by (rule 1(1)) (use False that 1(2) in simp_all)
    show ?thesis using False b IH 1(2)
      by (simp add: heap_down.simps [of lt "h @ ys"] heap_down.simps [of lt h] Let_def heap_child_append nth_append swap_append)
  qed (simp add: heap_down.simps)
qed

lemma swap_root: "swap (x # t) 0 (length t) = (if t = [] then [] else last t # butlast t) @ [x]"
  by (cases t rule: rev_cases) (auto simp: swap_def list_update_append nth_append)

lemma heap_Pop_root: "snd (heap_Pop lt (x # t)) = snd (heap_Pop lt (y # t))"
  by (simp add: heap_Pop_def Let_def swap_root heap_down_append)

section \<open>The heap property\<close>

text \<open>No position is less than its parent, as far as the parent is not before \<open>m\<close>.\<close>

context ordering
begin

abbreviation lt :: "'v \<Rightarrow> 'v \<Rightarrow> bool" where
  "lt a b \<equiv> cmp a b < 0"

definition heapFrom :: "nat \<Rightarrow> nat \<Rightarrow> 'v list \<Rightarrow> bool" where
  "heapFrom m n h \<longleftrightarrow> (\<forall>k. 0 < k \<and> k < n \<and> m \<le> (k - 1) div 2 \<longrightarrow> cmp (h ! ((k - 1) div 2)) (h ! k) \<le> 0)"

text \<open>The heap property but for the children of \<open>i\<close>, which are still above the parent of \<open>i\<close>.\<close>

definition heapExcept :: "nat \<Rightarrow> nat \<Rightarrow> nat \<Rightarrow> 'v list \<Rightarrow> bool" where
  "heapExcept i m n h \<longleftrightarrow>
     (\<forall>k. 0 < k \<and> k < n \<and> m \<le> (k - 1) div 2 \<longrightarrow>
        (if (k - 1) div 2 = i then 0 < i \<and> m \<le> (i - 1) div 2 \<longrightarrow> cmp (h ! ((i - 1) div 2)) (h ! k) \<le> 0
         else cmp (h ! ((k - 1) div 2)) (h ! k) \<le> 0))"

definition allV :: "'v list \<Rightarrow> bool" where
  "allV h \<longleftrightarrow> (\<forall>v \<in> set h. V v)"

lemma allV_nth: "allV h \<Longrightarrow> i < length h \<Longrightarrow> V (h ! i)"
  by (simp add: allV_def)

lemma allV_swap: "allV h \<Longrightarrow> i < length h \<Longrightarrow> j < length h \<Longrightarrow> allV (swap h i j)"
  using mset_swap_heap [of i h j] unfolding allV_def by (metis set_mset_mset)

lemma not_lt: "V a \<Longrightarrow> V b \<Longrightarrow> \<not> lt a b \<longleftrightarrow> cmp b a \<le> 0"
  using cmp_flip [of b a] by linarith

lemma child_parent: "0 < k \<Longrightarrow> (k - 1) div 2 = i \<longleftrightarrow> k = 2 * i + 1 \<or> k = 2 * i + 2" for k i :: nat
  by auto

lemma heap_child_least:
  assumes "allV h" "n \<le> length h" "\<not> n \<le> 2 * i + 1" "0 < k" "k < n" "(k - 1) div 2 = i"
  shows "cmp (h ! heap_child lt h i n) (h ! k) \<le> 0"
proof -
  have V: "V (h ! (2 * i + 1))" "2 * i + 2 < n \<Longrightarrow> V (h ! (2 * i + 2))" using assms(1-3) by (auto intro: allV_nth)
  have "k = 2 * i + 1 \<or> k = 2 * i + 2" using assms(4,6) child_parent by blast
  then show ?thesis
    using V assms(5) not_lt [of "h ! (2 * i + 2)" "h ! (2 * i + 1)"] cmp_refl [of "h ! (2 * i + 1)"] cmp_refl [of "h ! (2 * i + 2)"]
    by (auto simp: heap_child_def Let_def)
qed

text \<open>One step of \<open>down\<close> moves the exception to the child.\<close>

lemma heapExcept_swap:
  assumes ex: "heapExcept i m n h" and "m \<le> i" and n: "n \<le> length h" "\<not> n \<le> 2 * i + 1" and V: "allV h"
    and j: "j = heap_child lt h i n" "lt (h ! j) (h ! i)"
  shows "heapExcept j m n (swap h i j)"
  unfolding heapExcept_def
proof (intro allI impI)
  fix k assume k: "0 < k \<and> k < n \<and> m \<le> (k - 1) div 2"
  let ?p = "(k - 1) div 2"
  have b: "j < n" "i < j" "0 < j" "(j - 1) div 2 = i" using heap_child_bounds [OF n(2), of lt h] j(1) by (auto simp: heap_child_def Let_def)
  have sw: "swap h i j ! x = (if x = j then h ! i else if x = i then h ! j else h ! x)" if "x < n" for x
    using that b n(1) by (intro nth_swap) auto
  have pk: "?p < k" "?p < n" using k by auto
  show "if ?p = j then 0 < j \<and> m \<le> (j - 1) div 2 \<longrightarrow> cmp (swap h i j ! ((j - 1) div 2)) (swap h i j ! k) \<le> 0
        else cmp (swap h i j ! ?p) (swap h i j ! k) \<le> 0"
  proof (cases "?p = i")
    case True
    then have "cmp (h ! j) (h ! k) \<le> 0" using heap_child_least [OF V n] k j(1) by blast
    then show ?thesis using True b sw [of i] sw [of k] k pk j(2) by auto
  next
    case False
    have exk: "?p \<noteq> i \<Longrightarrow> cmp (h ! ?p) (h ! k) \<le> 0" using ex k unfolding heapExcept_def by metis
    have "k \<noteq> j" using False b(4) by auto
    show ?thesis
    proof (cases "k = i")
      case True
      have "cmp (h ! ((i - 1) div 2)) (h ! j) \<le> 0" using ex b k True unfolding heapExcept_def by (metis \<open>m \<le> i\<close>)
      then show ?thesis using True b sw [of i] sw [of ?p] pk by auto
    next
      case False
      then show ?thesis using \<open>?p \<noteq> i\<close> \<open>k \<noteq> j\<close> exk b sw [of k] sw [of ?p] sw [of i] k pk by auto
    qed
  qed
qed

lemma down_heap:
  assumes "heapExcept i m n h" "m \<le> i" "n \<le> length h" "allV h"
  shows "heapFrom m n (fst (heap_down lt h i n))"
  using assms
proof (induction "n - i" arbitrary: h i rule: less_induct)
  case less
  show ?case
  proof (cases "n \<le> 2 * i + 1")
    case True
    then have "heapFrom m n h" using less.prems(1) unfolding heapFrom_def heapExcept_def by (auto split: if_splits)
    then show ?thesis using True by (simp add: heap_down.simps [of lt h i n])
  next
    case False
    define j where "j = heap_child lt h i n"
    have b: "j < n" "i < j" using heap_child_bounds [OF False, of lt h] j_def by auto
    have Vij: "V (h ! i)" "V (h ! j)" using b less.prems(3,4) by (auto intro: allV_nth)
    show ?thesis
    proof (cases "lt (h ! j) (h ! i)")
      case True
      have "heapExcept j m n (swap h i j)"
        by (rule heapExcept_swap [OF less.prems(1-3) False less.prems(4) j_def True])
      then have "heapFrom m n (fst (heap_down lt (swap h i j) j n))"
        using less.hyps [of j "swap h i j"] b less.prems(2-4) allV_swap [of h i j] by auto
      then show ?thesis using True False j_def by (simp add: heap_down.simps [of lt h i n] Let_def)
    next
      case nlt: False
      have "cmp (h ! i) (h ! k) \<le> 0" if "0 < k" "k < n" "(k - 1) div 2 = i" for k
        using heap_child_least [OF less.prems(4,3) False that] nlt not_lt [OF Vij(2,1)] cmp_trans [OF Vij, of "h ! k"]
          allV_nth [OF less.prems(4), of k] that less.prems(3) j_def by auto
      then have "heapFrom m n h" using less.prems(1) unfolding heapFrom_def heapExcept_def by metis
      then show ?thesis using nlt False j_def by (simp add: heap_down.simps [of lt h i n] Let_def)
    qed
  qed
qed

text \<open>The heap property but for \<open>j\<close> and its parent.\<close>

definition heapBelow :: "nat \<Rightarrow> 'v list \<Rightarrow> bool" where
  "heapBelow j h \<longleftrightarrow>
     (\<forall>k. 0 < k \<and> k < length h \<and> k \<noteq> j \<longrightarrow> cmp (h ! ((k - 1) div 2)) (h ! k) \<le> 0) \<and>
     (\<forall>k. 0 < k \<and> k < length h \<and> (k - 1) div 2 = j \<and> 0 < j \<longrightarrow> cmp (h ! ((j - 1) div 2)) (h ! k) \<le> 0)"

lemma heapBelow_swap:
  assumes "heapBelow j h" "0 < j" "j < length h" "allV h" "i = (j - 1) div 2" "lt (h ! j) (h ! i)"
  shows "heapBelow i (swap h i j)"
proof -
  have i: "i < j" "i < length h" using assms(2,3,5) by auto
  have V: "V (h ! x)" if "x < length h" for x using that assms(4) by (rule allV_nth [rotated])
  have sw: "swap h i j ! x = (if x = j then h ! i else if x = i then h ! j else h ! x)" if "x < length h" for x
    using that i assms(3) by (intro nth_swap) auto
  have up: "cmp (h ! ((k - 1) div 2)) (h ! k) \<le> 0" if "0 < k" "k < length h" "k \<noteq> j" for k
    using assms(1) that unfolding heapBelow_def by blast
  have kid: "cmp (h ! i) (h ! k) \<le> 0" if "0 < k" "k < length h" "(k - 1) div 2 = j" for k
    using assms(1,2,5) that unfolding heapBelow_def by blast
  show ?thesis unfolding heapBelow_def
  proof (intro conjI allI impI)
    fix k assume k: "0 < k \<and> k < length (swap h i j) \<and> k \<noteq> i"
    then have p: "(k - 1) div 2 < length h" by auto
    consider "k = j" | "k \<noteq> j" "(k - 1) div 2 = i" | "k \<noteq> j" "(k - 1) div 2 = j" | "k \<noteq> j" "(k - 1) div 2 \<noteq> i" "(k - 1) div 2 \<noteq> j" by blast
    then show "cmp (swap h i j ! ((k - 1) div 2)) (swap h i j ! k) \<le> 0"
    proof cases
      case 1
      then show ?thesis using assms(5,6) sw [of i] sw [of j] i assms(3) by simp
    next
      case 2
      have "cmp (h ! i) (h ! k) \<le> 0" using up [of k] 2 k by simp
      then have "cmp (h ! j) (h ! k) \<le> 0" using cmp_trans [of "h ! j" "h ! i" "h ! k"] V assms(3,6) i k by simp
      then show ?thesis using 2 sw [of i] sw [of k] i k by simp
    next
      case 3
      then show ?thesis using kid [of k] sw [of j] sw [of k] k assms(3) by simp
    next
      case 4
      then show ?thesis using up [of k] sw [OF p] sw [of k] k by simp
    qed
  next
    fix k assume k: "0 < k \<and> k < length (swap h i j) \<and> (k - 1) div 2 = i \<and> 0 < i"
    then have "0 < i" by blast
    then have pi: "(i - 1) div 2 < i" by simp
    have top: "cmp (h ! ((i - 1) div 2)) (h ! i) \<le> 0" using up [of i] k i by auto
    show "cmp (swap h i j ! ((i - 1) div 2)) (swap h i j ! k) \<le> 0"
    proof (cases "k = j")
      case True
      then show ?thesis using top sw [of j] sw [of "(i - 1) div 2"] pi i assms(3) by auto
    next
      case False
      have "cmp (h ! i) (h ! k) \<le> 0" using up [of k] k False by simp
      then have "cmp (h ! ((i - 1) div 2)) (h ! k) \<le> 0"
        using top cmp_trans [of "h ! ((i - 1) div 2)" "h ! i" "h ! k"] V pi i k by simp
      then show ?thesis using False k sw [of k] sw [of "(i - 1) div 2"] pi i by auto
    qed
  qed
qed

lemma up_heap:
  assumes "heapBelow j h" "j < length h" "allV h"
  shows "heapFrom 0 (length h) (heap_up lt h j)"
  using assms
proof (induction j arbitrary: h rule: less_induct)
  case (less j)
  let ?i = "(j - 1) div 2"
  show ?case
  proof (cases "?i = j \<or> \<not> lt (h ! j) (h ! ?i)")
    case True
    have "cmp (h ! ?i) (h ! j) \<le> 0" if "0 < j"
    proof -
      have "V (h ! j)" "V (h ! ?i)" using less.prems(2,3) by (auto intro: allV_nth)
      then show ?thesis using True that not_lt [of "h ! j" "h ! ?i"] by auto
    qed
    then have "heapFrom 0 (length h) h" using less.prems(1) unfolding heapFrom_def heapBelow_def by blast
    then show ?thesis using True by (simp add: heap_up.simps [of lt h j] Let_def)
  next
    case False
    then have j: "0 < j" "?i < j" by auto
    have "heapBelow ?i (swap h ?i j)" by (rule heapBelow_swap) (use False j less.prems in auto)
    moreover have "allV (swap h ?i j)" using allV_swap [of h ?i j] less.prems j by auto
    ultimately have "heapFrom 0 (length (swap h ?i j)) (heap_up lt (swap h ?i j) ?i)"
      using less.IH [of ?i "swap h ?i j"] j less.prems(2) by simp
    then show ?thesis using False by (simp add: heap_up.simps [of lt h j] Let_def)
  qed
qed

section \<open>The operations\<close>

abbreviation isHeap :: "'v list \<Rightarrow> bool" where
  "isHeap h \<equiv> heapFrom 0 (length h) h \<and> allV h"

lemma allV_mset: "mset h' = mset h \<Longrightarrow> allV h \<Longrightarrow> allV h'"
  unfolding allV_def by (metis set_mset_mset)

text \<open>The first element of a heap is a least one.\<close>

lemma heap_least: "isHeap h \<Longrightarrow> k < length h \<Longrightarrow> cmp (h ! 0) (h ! k) \<le> 0"
proof (induction k rule: less_induct)
  case (less k)
  show ?case
  proof (cases "k = 0")
    case True
    then show ?thesis using less.prems cmp_refl allV_nth [of h 0] by auto
  next
    case False
    let ?p = "(k - 1) div 2"
    have p: "?p < k" using False by auto
    then have "cmp (h ! 0) (h ! ?p) \<le> 0" using less by simp
    moreover have "cmp (h ! ?p) (h ! k) \<le> 0" using less.prems False unfolding heapFrom_def by auto
    ultimately show ?thesis
      using cmp_trans [of "h ! 0" "h ! ?p" "h ! k"] allV_nth [of h] less.prems p by (metis gr_zeroI less_trans not_less_zero)
  qed
qed

lemma heap_Push_ok:
  assumes "isHeap h" "V x"
  shows "isHeap (heap_Push lt h x)" "mset (heap_Push lt h x) = add_mset x (mset h)"
proof -
  have ms: "mset (heap_Push lt h x) = add_mset x (mset h)" by (simp add: heap_Push_def heap_up_mset)
  have V: "allV (h @ [x])" using assms by (simp add: allV_def)
  have "heapBelow (length h) (h @ [x])"
    unfolding heapBelow_def
  proof (intro conjI allI impI)
    fix k assume k: "0 < k \<and> k < length (h @ [x]) \<and> k \<noteq> length h"
    then have "k < length h" "(k - 1) div 2 < length h" by auto
    then show "cmp ((h @ [x]) ! ((k - 1) div 2)) ((h @ [x]) ! k) \<le> 0"
      using assms(1) k unfolding heapFrom_def by (simp add: nth_append)
  qed auto
  then have "heapFrom 0 (length (h @ [x])) (heap_up lt (h @ [x]) (length h))" by (rule up_heap) (use V in auto)
  then show "isHeap (heap_Push lt h x)" using allV_mset [OF _ V, of "heap_Push lt h x"] ms by (simp add: heap_Push_def)
  show "mset (heap_Push lt h x) = add_mset x (mset h)" by (rule ms)
qed

lemma heapExcept_root: "heapFrom 0 n h \<Longrightarrow> heapExcept 0 0 n (h[0 := x])"
  unfolding heapFrom_def heapExcept_def by (auto simp: nth_list_update)

lemma heap_Pop_ok:
  assumes "isHeap h" "h \<noteq> []"
  obtains h' where "heap_Pop lt h = (h ! 0, h')" "isHeap h'" "mset h = add_mset (h ! 0) (mset h')" "length h = Suc (length h')"
proof -
  define n where "n = length h - 1"
  have n: "n < length h" "Suc n = length h" using assms(2) by (auto simp: n_def)
  define g where "g = fst (heap_down lt (swap h 0 n) 0 n)"
  have ms: "mset g = mset h" using heap_down_mset [of n "swap h 0 n" lt 0] mset_swap_heap [of 0 h n] n assms(2) by (simp add: g_def)
  have len: "length g = length h" using ms by (metis size_mset)
  have last: "g ! n = h ! 0"
    using heap_down_beyond [of n n "swap h 0 n" lt 0] n nth_swap [of 0 h n n] assms(2) by (simp add: g_def)
  have "g \<noteq> []" using n len by auto
  then have g: "g = butlast g @ [h ! 0]" using last n len by (metis append_butlast_last_id last_conv_nth diff_Suc_1)
  have V: "allV (swap h 0 n)" using allV_swap [of h 0 n] assms n by auto
  have "heapExcept 0 0 n (swap h 0 n)"
    using assms(1) n unfolding heapFrom_def heapExcept_def swap_def by (auto simp: nth_list_update)
  then have "heapFrom 0 n g" unfolding g_def by (rule down_heap) (use n V in auto)
  then have "heapFrom 0 n (butlast g)"
    using g len n unfolding heapFrom_def by (auto simp: nth_butlast)
  moreover have "allV (butlast g)" using allV_mset [OF ms] assms(1) by (auto simp: allV_def dest: in_set_butlastD)
  moreover have "mset h = add_mset (h ! 0) (mset (butlast g))" by (subst ms [symmetric], subst g) simp
  moreover have "heap_Pop lt h = (h ! 0, butlast g)"
  proof -
    have "last g = h ! 0" by (subst g) simp
    then show ?thesis by (simp add: heap_Pop_def g_def n_def Let_def)
  qed
  moreover have bl: "length (butlast g) = n" using len n by simp
  ultimately show thesis using that [of "butlast g"] n(2) by (metis bl)
qed

lemma heap_Fix_root:
  assumes "isHeap (x # h)" "V y"
  shows "isHeap (heap_Fix lt (y # h) 0)" "mset (heap_Fix lt (y # h) 0) = add_mset y (mset h)"
proof -
  let ?g = "fst (heap_down lt (y # h) 0 (length (y # h)))"
  have V: "allV (y # h)" using assms by (simp add: allV_def)
  have "heap_Fix lt (y # h) 0 = ?g"
    by (auto simp: heap_Fix_def heap_up.simps [of lt _ 0] split: prod.splits)
  moreover have "heapFrom 0 (length (y # h)) ?g"
    by (rule down_heap) (use V heapExcept_root [of _ "x # h" y] assms(1) in auto)
  moreover have "mset ?g = add_mset y (mset h)" using heap_down_mset [of "length (y # h)" "y # h"] by simp
  ultimately show "isHeap (heap_Fix lt (y # h) 0)" "mset (heap_Fix lt (y # h) 0) = add_mset y (mset h)"
    using allV_mset [OF _ V, of ?g] by auto
qed

lemma heap_init_loop_ok:
  "heapFrom i n h \<Longrightarrow> n = length h \<Longrightarrow> allV h \<Longrightarrow>
   heapFrom 0 n (heap_init_loop lt h i n) \<and> mset (heap_init_loop lt h i n) = mset h"
proof (induction i arbitrary: h)
  case (Suc i)
  let ?g = "fst (heap_down lt h i n)"
  have "heapExcept i i n h" using Suc.prems(1) unfolding heapFrom_def heapExcept_def by auto
  then have "heapFrom i n ?g" by (rule down_heap) (use Suc.prems in auto)
  moreover have "mset ?g = mset h" using heap_down_mset [of n h] Suc.prems(2) by simp
  ultimately show ?case using Suc.IH [of ?g] Suc.prems(2,3) allV_mset [of ?g h] by (metis heap_init_loop.simps(2) size_mset)
qed simp

lemma heap_Init_ok: "allV h \<Longrightarrow> isHeap (heap_Init lt h) \<and> mset (heap_Init lt h) = mset h"
proof -
  assume V: "allV h"
  have "heapFrom (length h div 2) (length h) h" by (auto simp: heapFrom_def)
  then have ok: "heapFrom 0 (length h) (heap_Init lt h)" "mset (heap_Init lt h) = mset h"
    using heap_init_loop_ok [of _ "length h" h] V unfolding heap_Init_def by auto
  then show ?thesis using allV_mset [OF ok(2) V] by (metis size_mset)
qed

end

end
