(* ===== verification/SortLaws.thy ===== *)
theory SortLaws
  imports GoHeap
begin

text \<open>
  Laws of the stable sort that merging sorted runs rests on: the first element of the result is
  the first of the least ones, a part of the list may be sorted beforehand, and sorting
  keeps a relation of the elements that the comparison respects.
\<close>

definition inserted :: "('a \<Rightarrow> 'a \<Rightarrow> bool) \<Rightarrow> 'a list \<Rightarrow> 'a list \<Rightarrow> 'a list" where
  "inserted lt acc xs = foldl (\<lambda>acc x. insert_left lt x acc) acc xs"

lemma inserted_simps [simp]:
  "inserted lt acc [] = acc" "inserted lt acc (x # xs) = inserted lt (insert_left lt x acc) xs"
  "inserted lt acc (xs @ ys) = inserted lt (inserted lt acc xs) ys"
  by (simp_all add: inserted_def)

lemma sort_loop_inserted: "sort_loop lt acc xs = rev (inserted lt acc xs)"
  by (induction xs arbitrary: acc) auto

lemma SliceStable_inserted: "SliceStable lt xs = rev (inserted lt [] xs)"
  by (simp add: SliceStable_def sort_loop_inserted)

lemma set_inserted [simp]: "set (inserted lt acc xs) = set acc \<union> set xs"
  by (induction xs arbitrary: acc) auto

section \<open>Selecting the first element\<close>

lemma insert_left_least: "\<forall>a \<in> set acc. lt x a \<Longrightarrow> insert_left lt x acc = acc @ [x]"
  by (induction acc) auto

lemma insert_left_above: "\<not> lt b x \<Longrightarrow> insert_left lt b (acc @ [x]) = insert_left lt b acc @ [x]"
  by (induction acc) auto

lemma inserted_above: "\<forall>b \<in> set bs. \<not> lt b x \<Longrightarrow> inserted lt (acc @ [x]) bs = inserted lt acc bs @ [x]"
  by (induction bs arbitrary: acc) (auto simp: insert_left_above)

lemma SliceStable_select:
  assumes "\<forall>a \<in> set as. lt x a" "\<forall>b \<in> set bs. \<not> lt b x"
  shows "SliceStable lt (as @ x # bs) = x # SliceStable lt (as @ bs)"
  using assms by (simp add: SliceStable_inserted insert_left_least inserted_above)

section \<open>Sorting a part beforehand\<close>

context ordering
begin

lemma insert_left_commute:
  assumes "lt x y" "V x" "V y"
  shows "\<forall>w \<in> set ws. V w \<Longrightarrow> insert_left lt y (insert_left lt x ws) = insert_left lt x (insert_left lt y ws)"
proof (induction ws)
  case Nil
  then show ?case using assms not_lt [of y x] by auto
next
  case (Cons w ws)
  have "lt y w \<Longrightarrow> lt x w" using cmp_le_less [of x y w] assms Cons.prems by simp
  moreover have "\<not> lt y x" using not_lt [of y x] assms by auto
  ultimately show ?case using Cons assms(1) by auto
qed

lemma inserted_insert_left:
  assumes "V x" "\<forall>w \<in> set acc. V w"
  shows "\<forall>y \<in> set ys. V y \<Longrightarrow> inserted lt acc (rev (insert_left lt x ys)) = insert_left lt x (inserted lt acc (rev ys))"
proof (induction ys)
  case (Cons y ys)
  then show ?case using assms insert_left_commute [of x y "inserted lt acc (rev ys)"] by auto
qed simp

lemma inserted_sorted:
  assumes "\<forall>w \<in> set acc. V w"
  shows "\<forall>x \<in> set xs. V x \<Longrightarrow> inserted lt acc (SliceStable lt xs) = inserted lt acc xs"
  by (induction xs rule: rev_induct)
    (use assms in \<open>auto simp: SliceStable_inserted inserted_insert_left\<close>)

lemma SliceStable_part:
  assumes "\<forall>v \<in> set as \<union> set xs. V v"
  shows "SliceStable lt (as @ SliceStable lt xs @ bs) = SliceStable lt (as @ xs @ bs)"
  unfolding SliceStable_inserted [of _ "as @ _"] using assms by (simp add: inserted_sorted)

lemma SliceStable_parts:
  assumes "\<forall>v \<in> set (concat xss). V v" "\<forall>v \<in> set as. V v"
  shows "SliceStable lt (as @ concat (map (SliceStable lt) xss)) = SliceStable lt (as @ concat xss)"
  using assms
proof (induction xss arbitrary: as)
  case (Cons xs xss)
  have "SliceStable lt (as @ SliceStable lt xs @ concat (map (SliceStable lt) xss)) =
      SliceStable lt ((as @ xs) @ concat (map (SliceStable lt) xss))"
    by (simp, rule SliceStable_part) (use Cons.prems in auto)
  then show ?case using Cons.IH [of "as @ xs"] Cons.prems by auto
qed simp

lemma successively_sorted_wrt:
  "\<forall>v \<in> set xs. V v \<Longrightarrow> successively (\<lambda>a b. cmp a b \<le> 0) xs \<Longrightarrow> sorted_wrt (\<lambda>a b. cmp a b \<le> 0) xs"
proof (induction xs)
  case (Cons x xs)
  then have IH: "sorted_wrt (\<lambda>a b. cmp a b \<le> 0) xs" by (auto simp: successively_Cons)
  have "cmp x y \<le> 0" if "y \<in> set xs" for y
  proof (cases xs)
    case (Cons z zs)
    then have "cmp x z \<le> 0" "z = y \<or> cmp z y \<le> 0" using Cons.prems IH that by auto
    then show ?thesis using cmp_trans [of x z y] Cons.prems(1) that Cons by auto
  qed (use that in simp)
  then show ?case using IH by simp
qed simp

lemma SliceStable_sorted_wrt:
  assumes "\<forall>v \<in> set xs. V v"
  shows "sorted_wrt (\<lambda>a b. cmp a b \<le> 0) (SliceStable lt xs)"
proof -
  have "ordered lt (SliceStable lt xs)"
    by (rule SliceStable_ordered_on) (use assms not_lt in force)
  then have "successively (\<lambda>a b. cmp a b \<le> 0) (SliceStable lt xs)"
    by (rule successively_mono) (use assms not_lt in auto)
  then show ?thesis using successively_sorted_wrt assms by simp
qed

end

section \<open>Relations\<close>

lemma insert_left_rel:
  assumes "\<And>a b a' b'. R a a' \<Longrightarrow> R b b' \<Longrightarrow> lt a b = lt a' b'"
  shows "R x x' \<Longrightarrow> list_all2 R ys ys' \<Longrightarrow> list_all2 R (insert_left lt x ys) (insert_left lt x' ys')"
  by (rotate_tac 1, induction rule: list_all2_induct) (auto simp: assms)

lemma SliceStable_rel:
  assumes "\<And>a b a' b'. R a a' \<Longrightarrow> R b b' \<Longrightarrow> lt a b = lt a' b'" "list_all2 R xs ys"
  shows "list_all2 R (SliceStable lt xs) (SliceStable lt ys)"
proof -
  have "list_all2 R acc acc' \<Longrightarrow> list_all2 R (inserted lt acc xs) (inserted lt acc' ys)" for acc acc'
    using assms(2)
  proof (induction arbitrary: acc acc' rule: list_all2_induct)
    case (Cons x xs y ys)
    then show ?case using insert_left_rel [of R lt] assms(1) by simp
  qed simp
  then show ?thesis by (simp add: SliceStable_inserted)
qed

end
