(* ===== verification/Spill.thy ===== *)
theory Spill
  imports SortLaws PullerLaws ZngRound
begin

text \<open>
  The external merge sort (\<open>runtime/sam/op/spill/merge.go\<close>, \<open>runtime/sam/op/spill/peeker.go\<close>).
  Chunks of values are sorted in memory, written to files of their own, and merged from there
  through a heap of the files' next values.  The files are the record \<open>fileOps\<close>: making the
  directory, writing a sorted
  chunk to the file of its number and rewinding it, reading a value, the size, and closing.  A
  comparison dereferences the next value of both runs, which is there as no empty chunk is
  spilled; cancellation of the query is not modelled.
\<close>

record 'f fileOps =
  fo_TempDir :: "goerror option"
  fo_create :: "nat \<Rightarrow> zvalue list \<Rightarrow> 'f go"
  fo_Read :: "(zvalue, 'f) reader"
  fo_Size :: "'f \<Rightarrow> nat go"
  fo_CloseAndRemove :: "'f \<Rightarrow> goerror option"

section \<open>Runs\<close>

record 'f spillRun =
  sr_File :: 'f
  sr_nextRecord :: "zvalue option"
  sr_ordinal :: nat

text \<open>\<open>zio.Copy\<close> of a sorted reader: the values that it reads.\<close>

function readSorted :: "sortStableReader \<Rightarrow> zvalue list go" where
  "readSorted s =
     (case sortStableReader_Read s of
        (Ok None, s') \<Rightarrow> Ok []
      | (Ok (Some v), s') \<Rightarrow> mapR (\<lambda>vs. v # vs) (readSorted s')
      | (Err e, s') \<Rightarrow> Err e
      | (Panic, s') \<Rightarrow> Panic)"
  by pat_completeness auto
termination
  by (relation "measure (\<lambda>s. length (ssr_indices s))") (auto simp: sortStableReader_Read_def split: list.splits if_splits)

declare readSorted.simps [simp del]

definition newRunPeeker :: "'f fileOps \<Rightarrow> nat \<Rightarrow> sortStableReader \<Rightarrow> 'f spillRun go option" where
  "newRunPeeker ops ordinal rd =
     (case bindR (readSorted rd) (fo_create ops ordinal) of
        Err e \<Rightarrow> Some (Err e)
      | Panic \<Rightarrow> Some Panic
      | Ok f \<Rightarrow>
          (case fo_Read ops f of
             None \<Rightarrow> None
           | Some (Err e, f') \<Rightarrow> Some (Err e)
           | Some (Panic, f') \<Rightarrow> Some Panic
           | Some (Ok first, f') \<Rightarrow> Some (Ok \<lparr>sr_File = f', sr_nextRecord = first, sr_ordinal = ordinal\<rparr>)))"

definition spillRun_read :: "'f fileOps \<Rightarrow> 'f spillRun \<Rightarrow> ((zvalue option \<times> bool) go \<times> 'f spillRun) option" where
  "spillRun_read ops p =
     (case fo_Read ops (sr_File p) of
        None \<Rightarrow> None
      | Some (Err e, f) \<Rightarrow> Some (Err e, p\<lparr>sr_File := f, sr_nextRecord := None\<rparr>)
      | Some (Panic, f) \<Rightarrow> Some (Panic, p)
      | Some (Ok next, f) \<Rightarrow> Some (Ok (sr_nextRecord p, next = None), p\<lparr>sr_File := f, sr_nextRecord := next\<rparr>))"

section \<open>Merge sort\<close>

record 'f mergeSort =
  ms_comparator :: comparator
  ms_nspill :: nat
  ms_runs :: "'f spillRun list"
  ms_spillSize :: nat

definition emptyMergeSort :: "comparator \<Rightarrow> 'f mergeSort" where
  "emptyMergeSort c = \<lparr>ms_comparator = c, ms_nspill = 0, ms_runs = [], ms_spillSize = 0\<rparr>"

definition NewMergeSort :: "'f fileOps \<Rightarrow> comparator \<Rightarrow> 'f mergeSort go" where
  "NewMergeSort ops c = (case fo_TempDir ops of Some err \<Rightarrow> Err err | None \<Rightarrow> Ok (emptyMergeSort c))"

definition MergeSort_Less :: "fcmp \<Rightarrow> comparator \<Rightarrow> 'f spillRun \<Rightarrow> 'f spillRun \<Rightarrow> bool" where
  "MergeSort_Less fl c p q =
     (case (sr_nextRecord p, sr_nextRecord q) of
        (Some a, Some b) \<Rightarrow>
          (let v = okInt (Comparator_Compare fl c a b) in if v \<noteq> 0 then v < 0 else sr_ordinal p < sr_ordinal q)
      | _ \<Rightarrow> False)"

definition Spill :: "'f fileOps \<Rightarrow> fcmp \<Rightarrow> 'f mergeSort \<Rightarrow> zvalue list \<Rightarrow> (unit go \<times> 'f mergeSort) option" where
  "Spill ops fl r vals =
     (case SortStableReader fl (ms_comparator r) vals of
        Err e \<Rightarrow> Some (Err e, r)
      | Panic \<Rightarrow> Some (Panic, r)
      | Ok rd \<Rightarrow>
          (case newRunPeeker ops (ms_nspill r) rd of
             None \<Rightarrow> None
           | Some (Err e) \<Rightarrow> Some (Err e, r)
           | Some Panic \<Rightarrow> Some (Panic, r)
           | Some (Ok runFile) \<Rightarrow>
               (case fo_Size ops (sr_File runFile) of
                  Err e \<Rightarrow> Some (Err e, r)
                | Panic \<Rightarrow> Some (Panic, r)
                | Ok sz \<Rightarrow>
                    Some (Ok (), r\<lparr>ms_nspill := ms_nspill r + 1, ms_spillSize := ms_spillSize r + sz,
                      ms_runs := heap_Push (MergeSort_Less fl (ms_comparator r)) (ms_runs r) runFile\<rparr>))))"

definition MergeSort_Peek :: "'f mergeSort \<Rightarrow> zvalue option go" where
  "MergeSort_Peek r = (case ms_runs r of [] \<Rightarrow> Ok None | p # _ \<Rightarrow> Ok (sr_nextRecord p))"

partial_function (option) MergeSort_Read :: "'f fileOps \<Rightarrow> fcmp \<Rightarrow> 'f mergeSort \<Rightarrow> (zvalue option go \<times> 'f mergeSort) option" where
  "MergeSort_Read ops fl r =
     (case ms_runs r of
        [] \<Rightarrow> Some (Ok None, r)
      | p # ps \<Rightarrow>
          (case spillRun_read ops p of
             None \<Rightarrow> None
           | Some (Err e, p') \<Rightarrow> Some (Err e, r\<lparr>ms_runs := p' # ps\<rparr>)
           | Some (Panic, p') \<Rightarrow> Some (Panic, r\<lparr>ms_runs := p' # ps\<rparr>)
           | Some (Ok (rec, eof), p') \<Rightarrow>
               (let less = MergeSort_Less fl (ms_comparator r);
                    closed = (if eof then fo_CloseAndRemove ops (sr_File p') else None);
                    runs = (if eof then snd (heap_Pop less (p' # ps)) else heap_Fix less (p' # ps) 0)
                in
                case closed of
                  Some e \<Rightarrow> Some (Err e, r\<lparr>ms_runs := p' # ps\<rparr>)
                | None \<Rightarrow>
                    (case rec of
                       Some v \<Rightarrow> Some (Ok (Some v), r\<lparr>ms_runs := runs\<rparr>)
                     | None \<Rightarrow> MergeSort_Read ops fl (r\<lparr>ms_runs := runs\<rparr>)))))"

declare MergeSort_Read.simps [code]

section \<open>The interface of the files\<close>

text \<open>
  What the merge sort relies on: a file reads back the values that were written to it, with the same
  bytes and types of the same structure, and closing does not fail.  \<open>W\<close> are the chunks
  that can be written.
\<close>

locale spillFiles =
  fixes ops :: "'f fileOps" and W :: "zvalue list \<Rightarrow> bool"
  assumes tempdir: "fo_TempDir ops = None"
    and create_reads: "W vs \<Longrightarrow> \<exists>f us f'. fo_create ops n vs = Ok f \<and> Puller.reads (fo_Read ops) f us None f' \<and> list_all2 same vs us"
    and sizes: "isOk (fo_Size ops f)"
    and closes: "fo_CloseAndRemove ops f = None"

section \<open>The ordering of runs\<close>

definition runCmp :: "fcmp \<Rightarrow> comparator \<Rightarrow> 'f spillRun \<Rightarrow> 'f spillRun \<Rightarrow> int" where
  "runCmp fl c p q =
     (case (sr_nextRecord p, sr_nextRecord q) of
        (Some a, Some b) \<Rightarrow>
          (let v = okInt (Comparator_Compare fl c a b) in if v \<noteq> 0 then v else go_cmp (sr_ordinal p) (sr_ordinal q))
      | _ \<Rightarrow> 0)"

definition liveRun :: "(zvalue \<Rightarrow> bool) \<Rightarrow> 'f spillRun \<Rightarrow> bool" where
  "liveRun V p \<longleftrightarrow> (\<exists>v. sr_nextRecord p = Some v \<and> V v)"

lemma MergeSort_Less_runCmp: "MergeSort_Less fl c = (\<lambda>p q. runCmp fl c p q < 0)"
  by (auto simp: MergeSort_Less_def runCmp_def go_cmp_def Let_def fun_eq_iff split: option.splits)

abbreviation valCmp :: "fcmp \<Rightarrow> comparator \<Rightarrow> zvalue \<Rightarrow> zvalue \<Rightarrow> int" where
  "valCmp fl c \<equiv> \<lambda>a b. okInt (Comparator_Compare fl c a b)"

lemma runCmp_ordering:
  assumes "ordering (valCmp fl c) V"
  shows "ordering (runCmp fl c) (liveRun V)"
proof -
  let ?n = "\<lambda>p. the (sr_nextRecord p)"
  have 1: "ordering (\<lambda>p q. valCmp fl c (?n p) (?n q)) (liveRun V)"
    by (rule ordering_inv [OF assms]) (auto simp: liveRun_def)
  have 2: "ordering (\<lambda>p q. go_cmp (sr_ordinal p) (sr_ordinal q)) (liveRun V)"
    by (rule ordering_inv [OF ordering_go_cmp]) simp
  show ?thesis
    by (rule ordering_cong [OF ordering_then [OF 1 2]]) (auto simp: runCmp_def liveRun_def Let_def)
qed

end
