(* ===== verification/SpillLaws.thy ===== *)
theory SpillLaws
  imports Spill
begin

text \<open>
  The external merge sort is a stable sort: the values read from the merged runs are those of the
  stable sort of all chunks in the order in which they were spilled.
\<close>

section \<open>What the runs hold\<close>

text \<open>\<open>L i\<close> are the values that the run of number \<open>i\<close> has still to deliver.\<close>

definition runHolds :: "'f fileOps \<Rightarrow> (nat \<Rightarrow> zvalue list) \<Rightarrow> 'f spillRun \<Rightarrow> bool" where
  "runHolds ops L p \<longleftrightarrow> (\<exists>v vs f. sr_nextRecord p = Some v \<and> L (sr_ordinal p) = v # vs \<and> Puller.reads (fo_Read ops) (sr_File p) vs None f)"

definition runsHold :: "'f fileOps \<Rightarrow> nat \<Rightarrow> (nat \<Rightarrow> zvalue list) \<Rightarrow> 'f spillRun list \<Rightarrow> bool" where
  "runsHold ops n L runs \<longleftrightarrow> distinct (map sr_ordinal runs) \<and> (\<forall>p \<in> set runs. sr_ordinal p < n \<and> runHolds ops L p) \<and>
     (\<forall>i. i \<notin> sr_ordinal ` set runs \<longrightarrow> L i = [])"

lemma runsHold_mset: "mset runs = mset runs' \<Longrightarrow> runsHold ops n L runs \<Longrightarrow> runsHold ops n L runs'"
proof -
  assume m: "mset runs = mset runs'" and h: "runsHold ops n L runs"
  have "distinct (map sr_ordinal runs')" using h m unfolding runsHold_def by (metis mset_eq_imp_distinct_iff mset_map)
  moreover have "set runs' = set runs" using m by (metis set_mset_mset)
  ultimately show ?thesis using h unfolding runsHold_def by simp
qed

lemma runHolds_upd: "sr_ordinal p \<noteq> i \<Longrightarrow> runHolds ops (L(i := vs)) p = runHolds ops L p"
  by (simp add: runHolds_def)

lemma runsHold_drop:
  assumes "runsHold ops n L (p # ps)"
  shows "runsHold ops n (L(sr_ordinal p := [])) ps"
  using assms unfolding runsHold_def by (auto simp: runHolds_upd image_iff)

lemma runsHold_put:
  assumes "runsHold ops n L ps" "sr_ordinal p < m" "sr_ordinal p \<notin> sr_ordinal ` set ps" "n \<le> m"
    and "runHolds ops (L(sr_ordinal p := vs)) p"
  shows "runsHold ops m (L(sr_ordinal p := vs)) (p # ps)"
  using assms unfolding runsHold_def by (force simp: runHolds_upd image_iff)

text \<open>All the values of the runs, in the order of their numbers.\<close>

definition remaining :: "nat \<Rightarrow> (nat \<Rightarrow> 'v list) \<Rightarrow> 'v list" where
  "remaining n L = concat (map L [0..<n])"

lemma remaining_split:
  assumes "i < n"
  shows "remaining n (L(i := xs)) = concat (map L [0..<i]) @ xs @ concat (map L [Suc i..<n])"
proof -
  have "[0..<n] = [0..<i] @ i # [Suc i..<n]" using assms upt_add_eq_append [of 0 i "n - i"] upt_conv_Cons [of i n] by simp
  moreover have "map (L(i := xs)) [0..<i] = map L [0..<i]" "map (L(i := xs)) [Suc i..<n] = map L [Suc i..<n]" by auto
  ultimately show ?thesis by (simp add: remaining_def)
qed

lemma remaining_Suc: "remaining (Suc n) (L(n := us)) = remaining n L @ us"
  using remaining_split [of n "Suc n" L us] by (simp add: remaining_def)

lemma list_all2_right: "list_all2 R xs ys \<Longrightarrow> u \<in> set ys \<Longrightarrow> \<exists>w \<in> set xs. R w u"
  by (induction rule: list_all2_induct) auto

text \<open>Spilling several chunks, one after the other.\<close>

fun spillAll :: "'f fileOps \<Rightarrow> fcmp \<Rightarrow> zvalue list list \<Rightarrow> 'f mergeSort \<Rightarrow> (unit go \<times> 'f mergeSort) option" where
  "spillAll ops fl [] r = Some (Ok (), r)"
| "spillAll ops fl (vals # chunks) r =
     (case Spill ops fl r vals of
        Some (Ok _, r') \<Rightarrow> spillAll ops fl chunks r'
      | x \<Rightarrow> x)"

section \<open>Merging\<close>

locale mergeSorting = spillFiles ops W + ordering "valCmp fl c" V for ops :: "'f fileOps" and W fl c V +
  assumes same_cmp: "V a \<Longrightarrow> V b \<Longrightarrow> same a a' \<Longrightarrow> same b b' \<Longrightarrow> valCmp fl c a' b' = valCmp fl c a b"
    and same_V: "V a \<Longrightarrow> same a a' \<Longrightarrow> V a'"
    and sorts_V: "\<forall>v \<in> set vs. V v \<Longrightarrow> length vs < 2 ^ 32 \<Longrightarrow> \<exists>rd. SortStableReader fl c vs = Ok rd \<and>
      readSorted rd = Ok (SliceStable (\<lambda>a b. valCmp fl c a b < 0) vs)"
    and sorts_mem: "\<forall>v \<in> set vs. V v \<Longrightarrow> length vs < 2 ^ 32 \<Longrightarrow> SortStable fl c vs = Ok (SliceStable (\<lambda>a b. valCmp fl c a b < 0) vs)"
begin

definition sortedRuns :: "(nat \<Rightarrow> zvalue list) \<Rightarrow> bool" where
  "sortedRuns L \<longleftrightarrow> (\<forall>i. (\<forall>v \<in> set (L i). V v) \<and> sorted_wrt (\<lambda>a b. valCmp fl c a b \<le> 0) (L i))"

end

sublocale mergeSorting < runs: ordering "runCmp fl c" "liveRun V"
  by (rule runCmp_ordering) (rule ordering_axioms)

context mergeSorting
begin

lemma holds_live:
  assumes "runsHold ops n L runs" "sortedRuns L"
  shows "runs.allV runs"
  using assms unfolding runs.allV_def runsHold_def runHolds_def liveRun_def sortedRuns_def
  by (metis list.set_intros(1))

lemma sortedRuns_V: "sortedRuns L \<Longrightarrow> v \<in> set (L i) \<Longrightarrow> V v"
  by (simp add: sortedRuns_def)

lemma sortedRuns_hd:
  assumes "sortedRuns L" "L i = w # ws" "b \<in> set (L i)"
  shows "V w" "valCmp fl c w b \<le> 0"
proof -
  show w: "V w" by (rule sortedRuns_V [OF assms(1), of w i]) (simp add: assms(2))
  have "sorted_wrt (\<lambda>a b. valCmp fl c a b \<le> 0) (w # ws)" using assms(1,2) unfolding sortedRuns_def by metis
  then show "valCmp fl c w b \<le> 0" using assms(2,3) cmp_refl [OF w] by auto
qed

text \<open>The first value of the root is below the values of earlier runs and not above the others.\<close>

lemma root_below:
  assumes h: "runsHold ops n L (p # ps)" and s: "sortedRuns L" and heap: "runs.isHeap (p # ps)"
    and v: "L (sr_ordinal p) = v # vs" and b: "b \<in> set (L j)"
  shows "valCmp fl c v b \<le> 0" "j < sr_ordinal p \<Longrightarrow> valCmp fl c v b < 0"
proof -
  have V: "V v" "V b" using sortedRuns_V [OF s, of v "sr_ordinal p"] v sortedRuns_V [OF s b] by auto
  show le: "valCmp fl c v b \<le> 0" and "j < sr_ordinal p \<Longrightarrow> valCmp fl c v b < 0"
  proof -
    have "L j \<noteq> []" using b by auto
    then have "j \<in> sr_ordinal ` set (p # ps)" using h unfolding runsHold_def by blast
    then obtain q where q: "q \<in> set (p # ps)" "sr_ordinal q = j" by blast
    obtain w ws where w: "sr_nextRecord q = Some w" "L j = w # ws" using h q unfolding runsHold_def runHolds_def by blast
    have p: "sr_nextRecord p = Some v" using h v unfolding runsHold_def runHolds_def by auto
    have r: "runCmp fl c p q \<le> 0" using runs.heap_least [OF heap] q(1) by (metis in_set_conv_nth nth_Cons_0)
    note wb = sortedRuns_hd [OF s w(2) b]
    have vw: "valCmp fl c v w \<le> 0" "j < sr_ordinal p \<Longrightarrow> valCmp fl c v w < 0"
      using r p w(1) q(2) by (auto simp: runCmp_def go_cmp_def Let_def split: if_splits)
    show "valCmp fl c v b \<le> 0" by (rule cmp_trans [OF V(1) wb(1) V(2) vw(1) wb(2)])
    show "valCmp fl c v b < 0" if "j < sr_ordinal p" by (rule cmp_less_le [OF V(1) wb(1) V(2) vw(2) [OF that] wb(2)])
  qed
qed

lemma merge_select:
  assumes h: "runsHold ops n L (p # ps)" and s: "sortedRuns L" and heap: "runs.isHeap (p # ps)"
    and v: "L (sr_ordinal p) = v # vs"
  shows "SliceStable lt (remaining n L) = v # SliceStable lt (remaining n (L(sr_ordinal p := vs)))"
proof -
  let ?i = "sr_ordinal p"
  have i: "?i < n" using h by (simp add: runsHold_def)
  have all: "remaining n L = concat (map L [0..<?i]) @ v # vs @ concat (map L [Suc ?i..<n])"
    using remaining_split [OF i, of L "v # vs"] v by (metis append_Cons fun_upd_triv)
  have V: "V v" by (rule sortedRuns_V [OF s, of v ?i]) (simp add: v)
  have "lt v a" if a: "a \<in> set (concat (map L [0..<?i]))" for a
  proof -
    obtain j where "j < ?i" "a \<in> set (L j)" using a by auto
    then show ?thesis using root_below(2) [OF h s heap v] by blast
  qed
  moreover have "\<not> lt b v" if b: "b \<in> set (vs @ concat (map L [Suc ?i..<n]))" for b
  proof -
    have "b \<in> set (L ?i) \<or> (\<exists>j. b \<in> set (L j))" using b unfolding v by auto
    then obtain j where j: "b \<in> set (L j)" by blast
    then have "V b" using s unfolding sortedRuns_def by blast
    then show ?thesis using root_below(1) [OF h s heap v j] not_lt [of b v] V by blast
  qed
  ultimately show ?thesis unfolding all remaining_split [OF i] by (intro SliceStable_select) auto
qed

lemma sortedRuns_upd: "sortedRuns L \<Longrightarrow> L i = v # vs \<Longrightarrow> sortedRuns (L(i := vs))"
proof -
  assume s: "sortedRuns L" and i: "L i = v # vs"
  have "(\<forall>v \<in> set (L i). V v) \<and> sorted_wrt (\<lambda>a b. valCmp fl c a b \<le> 0) (L i)" using s unfolding sortedRuns_def by blast
  then have "(\<forall>v \<in> set vs. V v) \<and> sorted_wrt (\<lambda>a b. valCmp fl c a b \<le> 0) vs" unfolding i by simp
  then show ?thesis using s unfolding sortedRuns_def by simp
qed

lemma MergeSort_Read_step:
  assumes h: "runsHold ops n L (ms_runs r)" and s: "sortedRuns L" and heap: "runs.isHeap (ms_runs r)"
    and r: "ms_comparator r = c" "ms_runs r = p # ps" and v: "L (sr_ordinal p) = v # vs"
  shows "\<exists>rs. MergeSort_Read ops fl r = Some (Ok (Some v), r\<lparr>ms_runs := rs\<rparr>) \<and>
     runsHold ops n (L(sr_ordinal p := vs)) rs \<and> runs.isHeap rs"
proof -
  let ?i = "sr_ordinal p" and ?less = "\<lambda>p q. runCmp fl c p q < 0"
  note hp = h [unfolded r(2)] and heap' = heap [unfolded r(2)]
  obtain f where p: "sr_nextRecord p = Some v" and f: "Puller.reads (fo_Read ops) (sr_File p) vs None f"
    using hp v unfolding runsHold_def runHolds_def by auto
  note less = MergeSort_Less_runCmp [of fl c]
  have s': "sortedRuns (L(?i := vs))" by (rule sortedRuns_upd [OF s v])
  show ?thesis
  proof (cases vs)
    case Nil
    then obtain f1 where f1: "fo_Read ops (sr_File p) = Some (Ok None, f1)" using f by (auto elim: Puller.reads_NilE)
    obtain hh where hh: "heap_Pop ?less (p # ps) = ((p # ps) ! 0, hh)" "runs.isHeap hh" "mset (p # ps) = add_mset ((p # ps) ! 0) (mset hh)"
      using runs.heap_Pop_ok [OF heap'] by blast
    have "runsHold ops n (L(?i := vs)) hh"
      using runsHold_mset [OF _ runsHold_drop [OF hp], of hh] hh(3) Nil by simp
    moreover have "snd (heap_Pop ?less (q # ps)) = hh" for q using heap_Pop_root [of ?less q ps p] hh(1) by simp
    ultimately show ?thesis using f1 r p hh(2) closes
      by (intro exI [of _ hh]) (simp add: MergeSort_Read.simps [of ops fl r] spillRun_read_def less Let_def)
  next
    case (Cons w ws)
    then obtain f1 where f1: "fo_Read ops (sr_File p) = Some (Ok (Some w), f1)" "Puller.reads (fo_Read ops) f1 ws None f"
      using f by (auto elim: Puller.reads_ConsE)
    let ?p = "p\<lparr>sr_File := f1, sr_nextRecord := Some w\<rparr>"
    have "liveRun V ?p" using sortedRuns_V [OF s', of w ?i] Cons unfolding liveRun_def by simp
    note fixed = runs.heap_Fix_root [OF heap' this]
    have "runsHold ops n ((L(?i := []))(sr_ordinal ?p := vs)) (?p # ps)"
      by (rule runsHold_put [OF runsHold_drop [OF hp]]) (use hp f1(2) Cons in \<open>auto simp: runsHold_def runHolds_def\<close>)
    then have "runsHold ops n (L(?i := vs)) (heap_Fix ?less (?p # ps) 0)"
      using runsHold_mset [of "?p # ps"] fixed(2) by simp
    then show ?thesis using f1(1) r p fixed(1)
      by (intro exI [of _ "heap_Fix ?less (?p # ps) 0"]) (simp add: MergeSort_Read.simps [of ops fl r] spillRun_read_def less Let_def)
  qed
qed

lemma merge_reads:
  "runsHold ops n L (ms_runs r) \<Longrightarrow> sortedRuns L \<Longrightarrow> runs.isHeap (ms_runs r) \<Longrightarrow> ms_comparator r = c \<Longrightarrow>
   Puller.reads (MergeSort_Read ops fl) r (SliceStable lt (remaining n L)) None (r\<lparr>ms_runs := []\<rparr>)"
proof (induction "length (remaining n L)" arbitrary: L r)
  case 0
  have "ms_runs r = []"
  proof (cases "ms_runs r")
    case (Cons p ps)
    then obtain v vs where "L (sr_ordinal p) = v # vs" "sr_ordinal p < n" using 0(2) unfolding runsHold_def runHolds_def by auto
    then show ?thesis using 0(1) unfolding remaining_def by force
  qed
  then show ?case using 0(1) by (auto simp: MergeSort_Read.simps [of ops fl r] SliceStable_def intro!: Puller.reads_eos)
next
  case (Suc k)
  show ?case
  proof (cases "ms_runs r")
    case Nil
    then have "remaining n L = []" using Suc.prems(1) unfolding runsHold_def remaining_def by simp
    then show ?thesis using Suc.hyps(2) by simp
  next
    case (Cons p ps)
    then obtain v vs where v: "L (sr_ordinal p) = v # vs" using Suc.prems(1) unfolding runsHold_def runHolds_def by auto
    obtain rs where rs: "MergeSort_Read ops fl r = Some (Ok (Some v), r\<lparr>ms_runs := rs\<rparr>)"
      "runsHold ops n (L(sr_ordinal p := vs)) rs" "runs.isHeap rs"
      using MergeSort_Read_step [OF Suc.prems Cons v] by blast
    have sel: "SliceStable lt (remaining n L) = v # SliceStable lt (remaining n (L(sr_ordinal p := vs)))"
      by (rule merge_select [OF _ Suc.prems(2) _ v]) (use Suc.prems(1,3) Cons in simp_all)
    then have "k = length (remaining n (L(sr_ordinal p := vs)))"
      using Suc.hyps(2) length_SliceStable [of lt "remaining n L", unfolded sel] by simp
    then have "Puller.reads (MergeSort_Read ops fl) (r\<lparr>ms_runs := rs\<rparr>) (SliceStable lt (remaining n (L(sr_ordinal p := vs)))) None (r\<lparr>ms_runs := []\<rparr>)"
      using Suc.hyps(1) [of "L(sr_ordinal p := vs)" "r\<lparr>ms_runs := rs\<rparr>"] rs(2,3) sortedRuns_upd [OF Suc.prems(2) v] Suc.prems(4) by simp
    then show ?thesis unfolding sel using Puller.reads_val [of "MergeSort_Read ops fl" r v] rs(1) by blast
  qed
qed

section \<open>Spilling\<close>

text \<open>The chunks have been spilled: run \<open>i\<close> holds what its file gives for the sorted chunk \<open>i\<close>.\<close>

definition spilled :: "zvalue list list \<Rightarrow> 'f mergeSort \<Rightarrow> bool" where
  "spilled chunks r \<longleftrightarrow> ms_comparator r = c \<and> ms_nspill r = length chunks \<and> runs.isHeap (ms_runs r) \<and>
     (\<forall>v \<in> set (concat chunks). V v) \<and>
     (\<exists>L. runsHold ops (length chunks) L (ms_runs r) \<and> sortedRuns L \<and>
        list_all2 same (concat (map (SliceStable lt) chunks)) (remaining (length chunks) L))"

lemma spilled_New: "spilled [] (emptyMergeSort c)"
  unfolding spilled_def emptyMergeSort_def
  by (auto simp: runsHold_def sortedRuns_def remaining_def runs.heapFrom_def runs.allV_def intro!: exI [of _ "\<lambda>i. []"])

lemma same_list_V: "list_all2 same vs us \<Longrightarrow> \<forall>v \<in> set vs. V v \<Longrightarrow> \<forall>u \<in> set us. V u"
  by (induction rule: list_all2_induct) (auto intro: same_V)

lemma same_sorted:
  "list_all2 same vs us \<Longrightarrow> \<forall>v \<in> set vs. V v \<Longrightarrow> sorted_wrt (\<lambda>a b. valCmp fl c a b \<le> 0) vs \<Longrightarrow> sorted_wrt (\<lambda>a b. valCmp fl c a b \<le> 0) us"
proof (induction rule: list_all2_induct)
  case (Cons x xs y ys)
  have "valCmp fl c y u \<le> 0" if u: "u \<in> set ys" for u
  proof -
    obtain w where w: "w \<in> set xs" "same w u" using list_all2_right [OF Cons.hyps(2) u] by blast
    then have "valCmp fl c y u = valCmp fl c x w" using same_cmp [of x w y u] Cons.hyps(1) Cons.prems(1) by simp
    then show ?thesis using Cons.prems(2) w(1) by simp
  qed
  then show ?case using Cons by simp
qed simp

lemma newRun_ok:
  assumes "readSorted rd = Ok vs" "W vs" "vs \<noteq> []" "\<forall>v \<in> set vs. V v" "sorted_wrt (\<lambda>a b. valCmp fl c a b \<le> 0) vs"
  shows "\<exists>p us. newRunPeeker ops n rd = Some (Ok p) \<and> list_all2 same vs us \<and> sr_ordinal p = n \<and> liveRun V p \<and>
    (\<forall>u \<in> set us. V u) \<and> sorted_wrt (\<lambda>a b. valCmp fl c a b \<le> 0) us \<and> (\<forall>L. runHolds ops (L(n := us)) p)"
proof -
  obtain f us f' where f: "fo_create ops n vs = Ok f" "Puller.reads (fo_Read ops) f us None f'" "list_all2 same vs us"
    using create_reads [OF assms(2)] by blast
  then obtain u us' where us: "us = u # us'" using assms(3) by (cases us) auto
  then obtain f1 where f1: "fo_Read ops f = Some (Ok (Some u), f1)" "Puller.reads (fo_Read ops) f1 us' None f'"
    using f(2) by (auto elim: Puller.reads_ConsE)
  have "\<forall>w \<in> set us. V w" by (rule same_list_V [OF f(3) assms(4)])
  moreover have "sorted_wrt (\<lambda>a b. valCmp fl c a b \<le> 0) us" by (rule same_sorted [OF f(3) assms(4,5)])
  ultimately show ?thesis using assms(1) f f1 us
    by (intro exI [of _ "\<lparr>sr_File = f1, sr_nextRecord = Some u, sr_ordinal = n\<rparr>"] exI [of _ us])
      (auto simp: newRunPeeker_def liveRun_def runHolds_def)
qed

lemma Spill_ok:
  assumes sp: "spilled chunks r" and "vals \<noteq> []" "\<forall>v \<in> set vals. V v" "length vals < 2 ^ 32" "W (SliceStable lt vals)"
  shows "\<exists>r'. Spill ops fl r vals = Some (Ok (), r') \<and> spilled (chunks @ [vals]) r'"
proof -
  let ?n = "length chunks" and ?less = "\<lambda>p q. runCmp fl c p q < 0"
  obtain L where r: "ms_comparator r = c" "ms_nspill r = ?n" "runs.isHeap (ms_runs r)" "\<forall>v \<in> set (concat chunks). V v"
    and L: "runsHold ops ?n L (ms_runs r)" "sortedRuns L" "list_all2 same (concat (map (SliceStable lt) chunks)) (remaining ?n L)"
    using sp unfolding spilled_def by blast
  obtain rd where rd: "SortStableReader fl c vals = Ok rd" "readSorted rd = Ok (SliceStable lt vals)"
    using sorts_V [OF assms(3,4)] by blast
  have "SliceStable lt vals \<noteq> []" using assms(2) by (metis length_0_conv length_SliceStable)
  then obtain p us where p: "newRunPeeker ops ?n rd = Some (Ok p)" "list_all2 same (SliceStable lt vals) us" "sr_ordinal p = ?n"
    "liveRun V p" "\<forall>u \<in> set us. V u" "sorted_wrt (\<lambda>a b. valCmp fl c a b \<le> 0) us" "runHolds ops (L(?n := us)) p"
    using newRun_ok [OF rd(2) assms(5), of ?n] SliceStable_sorted_wrt [OF assms(3)] assms(3) by (metis set_SliceStable)
  let ?runs = "heap_Push ?less (ms_runs r) p"
  note push = runs.heap_Push_ok [OF r(3) p(4)]
  have "sr_ordinal p \<notin> sr_ordinal ` set (ms_runs r)" using L(1) p(3) unfolding runsHold_def by fastforce
  then have "runsHold ops (Suc ?n) (L(?n := us)) (p # ms_runs r)"
    using runsHold_put [OF L(1), of p "Suc ?n" us] p(3,7) by simp
  then have "runsHold ops (Suc ?n) (L(?n := us)) ?runs" using runsHold_mset [of "p # ms_runs r"] push(2) by simp
  moreover have "sortedRuns (L(?n := us))" using L(2) p(5,6) unfolding sortedRuns_def by simp
  moreover have "list_all2 same (concat (map (SliceStable lt) (chunks @ [vals]))) (remaining (Suc ?n) (L(?n := us)))"
    using L(3) p(2) by (simp add: remaining_Suc list_all2_appendI)
  moreover obtain sz where "fo_Size ops (sr_File p) = Ok sz" using sizes [of "sr_File p"] by (cases "fo_Size ops (sr_File p)") auto
  ultimately show ?thesis using rd(1) p(1) r assms(3) push(1)
    by (auto simp: Spill_def spilled_def MergeSort_Less_runCmp intro!: exI [of _ "L(?n := us)"])
qed

text \<open>Reading the merged runs gives the stable sort of all the values.\<close>

lemma spilled_reads:
  assumes "spilled chunks r"
  shows "\<exists>out. Puller.reads (MergeSort_Read ops fl) r out None (r\<lparr>ms_runs := []\<rparr>) \<and>
    list_all2 same (SliceStable lt (concat chunks)) out"
proof -
  let ?R = "\<lambda>a b. same a b \<and> V a \<and> V b" and ?n = "length chunks"
  obtain L where r: "ms_comparator r = c" "runs.isHeap (ms_runs r)" "\<forall>v \<in> set (concat chunks). V v"
    and L: "runsHold ops ?n L (ms_runs r)" "sortedRuns L" "list_all2 same (concat (map (SliceStable lt) chunks)) (remaining ?n L)"
    using assms unfolding spilled_def by blast
  have V: "\<forall>v \<in> set (concat (map (SliceStable lt) chunks)). V v" using r(3) by auto
  have "list_all2 ?R (concat (map (SliceStable lt) chunks)) (remaining ?n L)"
    by (rule list.rel_mono_strong [OF L(3)]) (use V same_list_V [OF L(3) V] in blast)
  then have "list_all2 ?R (SliceStable lt (concat (map (SliceStable lt) chunks))) (SliceStable lt (remaining ?n L))"
    by (rule SliceStable_rel [rotated]) (use same_cmp in metis)
  then have "list_all2 same (SliceStable lt (concat (map (SliceStable lt) chunks))) (SliceStable lt (remaining ?n L))"
    by (rule list_all2_mono) blast
  then show ?thesis
    using merge_reads [OF L(1,2) r(2,1)] SliceStable_parts [of chunks "[]"] r(3) by auto
qed

lemma spillAll_ok:
  "spilled cs r \<Longrightarrow> \<forall>vals \<in> set chunks. vals \<noteq> [] \<and> length vals < 2 ^ 32 \<and> (\<forall>v \<in> set vals. V v) \<and> W (SliceStable lt vals) \<Longrightarrow>
   \<exists>r'. spillAll ops fl chunks r = Some (Ok (), r') \<and> spilled (cs @ chunks) r'"
proof (induction chunks arbitrary: cs r)
  case (Cons vals chunks)
  then obtain r1 where 1: "Spill ops fl r vals = Some (Ok (), r1)" "spilled (cs @ [vals]) r1" using Spill_ok [of cs r vals] by auto
  then show ?case using Cons.IH [OF 1(2)] Cons.prems(2) by simp
qed simp

lemma spillAll_reads:
  assumes "\<forall>vals \<in> set chunks. vals \<noteq> [] \<and> length vals < 2 ^ 32 \<and> (\<forall>v \<in> set vals. V v) \<and> W (SliceStable lt vals)"
  shows "\<exists>r out. spillAll ops fl chunks (emptyMergeSort c) = Some (Ok (), r) \<and>
    Puller.reads (MergeSort_Read ops fl) r out None (r\<lparr>ms_runs := []\<rparr>) \<and> list_all2 same (SliceStable lt (concat chunks)) out"
proof -
  obtain r where r: "spillAll ops fl chunks (emptyMergeSort c) = Some (Ok (), r)" "spilled ([] @ chunks) r"
    using spillAll_ok [OF spilled_New assms] by blast
  then show ?thesis using spilled_reads [of chunks r] by auto
qed

end

end
