(* ===== verification/SpillFile.thy ===== *)
theory SpillFile
  imports SpillLaws ZngSync
begin

text \<open>
  The files of the external merge sort (\<open>runtime/sam/op/spill/file.go\<close>) on the ZNG writer and
  reader, and the interpretation of the interfaces of the merge sort on them.  The reader of a
  rewound file is run to its end; \<open>Read\<close> hands its values out.  Its context is the new one of
  \<open>NewMergeSort\<close>; the contexts of several runs only differ in the types that are not primitive.
\<close>

section \<open>Files\<close>

definition DefaultFrameThresh :: int where
  "DefaultFrameThresh = 512 * 1024"

definition readerMax :: int where
  "readerMax = 1024 * 1024 * 1024"

record zngFile =
  zf_file :: bytes
  zf_Reader :: "zvalue list"

text \<open>The writer of a spill file does not compress, so neither function below is ever called.\<close>

definition noLz4 :: lz4 where
  "noLz4 b = Ok []"

definition noUnLz4 :: "bytes \<Rightarrow> nat \<Rightarrow> bytes go" where
  "noUnLz4 z n = Err io_EOF"

definition NewFile :: writer where
  "NewFile = NewWriterWithOpts False DefaultFrameThresh"

definition File_Rewind :: "ctx \<Rightarrow> writer \<Rightarrow> zngFile go" where
  "File_Rewind zctx w =
     (case EndStream no_fail noLz4 w of
        (Some err, w) \<Rightarrow> Err err
      | (None, w) \<Rightarrow>
          mapR (\<lambda>vs. \<lparr>zf_file = w_out w, zf_Reader = vs\<rparr>) (readAll noUnLz4 readerMax (NewDecoder zctx) (w_out w)))"

definition File_Read :: "(zvalue, zngFile) reader" where
  "File_Read f =
     (case zf_Reader f of
        [] \<Rightarrow> Some (Ok None, f)
      | v # vs \<Rightarrow> Some (Ok (Some v), f\<lparr>zf_Reader := vs\<rparr>))"

definition File_Size :: "zngFile \<Rightarrow> nat go" where
  "File_Size f = Ok (length (zf_file f))"

definition zngFiles :: "zngFile fileOps" where
  "zngFiles =
     \<lparr>fo_TempDir = None,
      fo_create = (\<lambda>n vs. case WriteAll no_fail noLz4 vs NewFile of (Some err, w) \<Rightarrow> Err err | (None, w) \<Rightarrow> File_Rewind NewContext w),
      fo_Read = File_Read, fo_Size = File_Size, fo_CloseAndRemove = (\<lambda>f. None)\<rparr>"

section \<open>Chunks that a file can hold\<close>

text \<open>Values with types of a context of which every frame fits the reader's maximum.\<close>

definition fileVals :: "ctx \<Rightarrow> zvalue list \<Rightarrow> bool" where
  "fileVals D vs \<longleftrightarrow> reachable D \<and>
     (\<forall>v \<in> set vs. inC D (fst v) \<and> no_empty_union (fst v) \<and> (\<forall>b. snd v = Some b \<longrightarrow> small b)) \<and>
     allFit readerMax noLz4 vs NewFile"

text \<open>Values of primitive types that fit into a frame; any number of them can be written to a file.\<close>

definition filePrims :: "zvalue list \<Rightarrow> bool" where
  "filePrims vs \<longleftrightarrow> (\<forall>v \<in> set vs. isPrim (fst v) \<and> length (emitV v) \<le> 2 ^ 29)"

definition plainWriter :: "writer \<Rightarrow> bool" where
  "plainWriter w \<longleftrightarrow> \<not> w_compressor w \<and> w_thresh w = DefaultFrameThresh \<and> enc_bytes (w_types w) = [] \<and> length (byID (enc_zctx (w_types w))) = IDTypeComplex \<and>
     (\<forall>p t. encoded (w_types w) (TypePrimitive p) = Some t \<longrightarrow> t = TypePrimitive p)"

lemma noLz4_ok: "lz4_ok noLz4 noUnLz4"
  by (simp add: lz4_ok_def noLz4_def)

lemma plainWriter_New: "plainWriter NewFile" "w_values NewFile = []"
  by (simp_all add: plainWriter_def NewFile_def NewWriterWithOpts_def NewEncoder_def NewContext_def)

lemma Writer_flush_plain:
  assumes "plainWriter w"
  shows "\<exists>w'. Writer_flush no_fail noLz4 w = (None, w') \<and> plainWriter w' \<and> w_values w' = []"
  using assms by (simp add: Writer_flush_def writeBlock_block [OF noLz4_ok] plainWriter_def Encoder_Flush_def)

lemma Write_plain:
  assumes w: "plainWriter w" "int (length (w_values w)) < DefaultFrameThresh" and v: "isPrim (fst v)" "length (emitV v) \<le> 2 ^ 29"
  shows "fits readerMax (buffered v w) \<and> (\<exists>w'. Writer_Write no_fail noLz4 v w = (None, w') \<and> plainWriter w' \<and>
    int (length (w_values w')) < DefaultFrameThresh)"
proof -
  obtain p where p: "fst v = TypePrimitive p" using v(1) by (cases "fst v") auto
  obtain e where e: "Encode (fst v) (w_types w) = Ok (TypePrimitive p, e)" "enc_bytes e = []" "length (byID (enc_zctx e)) = IDTypeComplex"
    "\<And>q t. encoded e (TypePrimitive q) = Some t \<Longrightarrow> t = TypePrimitive q"
  proof (cases "encoded (w_types w) (TypePrimitive p)")
    case None
    let ?e = "(w_types w)\<lparr>encoded := (encoded (w_types w))(TypePrimitive p \<mapsto> TypePrimitive p)\<rparr>"
    have "t = TypePrimitive q" if "encoded ?e (TypePrimitive q) = Some t" for q t
      using that w(1) by (cases "q = p") (auto simp: plainWriter_def)
    then show thesis using that [of ?e] None w(1) p by (simp add: plainWriter_def)
  next
    case (Some t)
    then show thesis using that [of "w_types w"] w(1) p by (auto simp: plainWriter_def)
  qed
  let ?b = "buffered v w"
  have b: "?b = w\<lparr>w_types := e, w_values := w_values w @ emitV v\<rparr>"
    unfolding buffered_Ok [OF e(1)] using p by (simp add: Append_acc emitV_def)
  have plain: "plainWriter ?b" using w(1) e(2-4) unfolding b by (auto simp: plainWriter_def)
  have "int (length (w_values ?b)) \<le> readerMax"
    using w(2) v(2) unfolding b by (simp add: readerMax_def DefaultFrameThresh_def)
  then have fits: "fits readerMax ?b" using plain by (simp add: fits_def plainWriter_def readerMax_def IDTypeComplex_def)
  have wr: "Writer_Write no_fail noLz4 v w =
      (if int (length (w_values ?b)) \<ge> w_thresh w \<or> int (length (enc_bytes (w_types ?b))) \<ge> w_thresh w
       then Writer_flush no_fail noLz4 ?b else (None, ?b))" by (rule Write_Ok [OF e(1)])
  show ?thesis
  proof (cases "int (length (w_values ?b)) \<ge> w_thresh w \<or> int (length (enc_bytes (w_types ?b))) \<ge> w_thresh w")
    case True
    then show ?thesis using Writer_flush_plain [OF plain] wr fits by (auto simp: DefaultFrameThresh_def)
  next
    case False
    moreover have "w_thresh w = DefaultFrameThresh" using w(1) by (simp add: plainWriter_def)
    ultimately show ?thesis using wr fits plain by auto
  qed
qed

lemma prims_fit:
  "filePrims vs \<Longrightarrow> plainWriter w \<Longrightarrow> int (length (w_values w)) < DefaultFrameThresh \<Longrightarrow> allFit readerMax noLz4 vs w"
proof (induction vs arbitrary: w)
  case Nil
  then show ?case by (simp add: fits_def plainWriter_def readerMax_def DefaultFrameThresh_def IDTypeComplex_def)
next
  case (Cons v vs)
  have v: "isPrim (fst v)" "length (emitV v) \<le> 2 ^ 29" "filePrims vs" using Cons.prems(1) by (auto simp: filePrims_def)
  obtain w' where "fits readerMax (buffered v w)" "Writer_Write no_fail noLz4 v w = (None, w')" "plainWriter w'"
    "int (length (w_values w')) < DefaultFrameThresh"
    using Write_plain [OF Cons.prems(2,3) v(1,2)] by blast
  then show ?case using Cons.IH [OF v(3)] by simp
qed

lemma File_reads: "Puller.reads File_Read f (zf_Reader f) None (f\<lparr>zf_Reader := []\<rparr>)"
proof (induction "zf_Reader f" arbitrary: f)
  case Nil
  then have "f\<lparr>zf_Reader := []\<rparr> = f" by simp
  then show ?case using Nil by (metis File_Read_def Puller.reads_eos list.case(1))
next
  case (Cons v vs)
  have "Puller.reads File_Read (f\<lparr>zf_Reader := vs\<rparr>) vs None (f\<lparr>zf_Reader := []\<rparr>)"
    using Cons.hyps(1) [of "f\<lparr>zf_Reader := vs\<rparr>"] by simp
  moreover have "File_Read f = Some (Ok (Some v), f\<lparr>zf_Reader := vs\<rparr>)" using Cons.hyps(2) by (simp add: File_Read_def flip: Cons.hyps(2))
  ultimately show ?case using Puller.reads_val [of File_Read f v] Cons.hyps(2) by metis
qed

lemma filePrims_fileVals:
  assumes "filePrims vs"
  shows "fileVals NewContext vs"
proof -
  have "small b" if "v \<in> set vs" "snd v = Some b" for v b
  proof -
    have "length b \<le> length (emitV v)" using that(2) by (simp add: emitV_def Append_def)
    moreover have "length (emitV v) \<le> 2 ^ 29" using that(1) assms by (simp add: filePrims_def)
    ultimately show ?thesis by (simp add: small_def)
  qed
  then have "\<forall>v \<in> set vs. inC NewContext (fst v) \<and> no_empty_union (fst v) \<and> (\<forall>b. snd v = Some b \<longrightarrow> small b)"
    using assms by (auto simp: filePrims_def inC_def elim!: isPrim.elims)
  moreover have "allFit readerMax noLz4 vs NewFile" by (rule prims_fit [OF assms plainWriter_New(1)]) (simp add: plainWriter_New DefaultFrameThresh_def)
  ultimately show ?thesis by (simp add: fileVals_def reachable.New)
qed

lemma zngFiles_create:
  assumes "fileVals D vs"
  shows "\<exists>f us. fo_create zngFiles n vs = Ok f \<and> zf_Reader f = us \<and> list_all2 same vs us"
proof -
  have wf: "wf_ctx NewContext" by (rule reachable_wf [OF reachable.New])
  have D: "wf_types D" using assms by (auto simp: fileVals_def dest: reachable_wf wf_ctxD(1))
  obtain w where w: "WriteAll no_fail noLz4 vs NewFile = (None, w)" "winv noUnLz4 readerMax (NewDecoder NewContext) vs w" "fits readerMax w"
    using winv_WriteAll [OF noLz4_ok _ D _ winv_start [OF wf], of readerMax vs False DefaultFrameThresh] assms
    by (auto simp: readerMax_def NewFile_def fileVals_def)
  obtain w' us where "EndStream no_fail noLz4 w = (None, w')" "readAll noUnLz4 readerMax (NewDecoder NewContext) (w_out w') = Ok us" "list_all2 same vs us"
    using EndStream_reads [OF noLz4_ok _ w(2,3)] by (auto simp: readerMax_def)
  then show ?thesis using w(1) by (simp add: zngFiles_def File_Rewind_def)
qed

interpretation zf: spillFiles zngFiles "fileVals D"
proof
  fix vs n assume "fileVals D vs"
  then show "\<exists>f us f'. fo_create zngFiles n vs = Ok f \<and> Puller.reads (fo_Read zngFiles) f us None f' \<and> list_all2 same vs us"
    using zngFiles_create [of D vs n] File_reads by (fastforce simp: zngFiles_def)
qed (simp_all add: zngFiles_def File_Size_def)

section \<open>Sorting by keys\<close>

lemma readSorted_indices:
  "set is \<subseteq> {..<length vals} \<Longrightarrow> readSorted \<lparr>ssr_indices = is, ssr_vals = vals\<rparr> = Ok (map (\<lambda>i. vals ! i) is)"
  by (induction "is") (auto simp: readSorted.simps sortStableReader_Read_def)

text \<open>The keys of a value are simple, and the same for the value that is read back from a file.\<close>

definition stableKeys :: "comparator \<Rightarrow> zvalue \<Rightarrow> bool" where
  "stableKeys c v \<longleftrightarrow> c_exprs c \<noteq> [] \<and> simpleKeys c v \<and> (\<forall>u. same v u \<longrightarrow> (\<forall>k \<in> set (c_exprs c). se_Eval k u = se_Eval k v))"

lemma same_prim: "isPrim (fst v) \<Longrightarrow> same v u \<Longrightarrow> u = v"
  by (cases v; cases u; cases "fst v"; cases "fst u") (auto simp: same_def)

lemma stableKeys_prim: "isPrim (fst v) \<Longrightarrow> c_exprs c \<noteq> [] \<Longrightarrow> simpleKeys c v \<Longrightarrow> stableKeys c v"
  using same_prim [of v] by (auto simp: stableKeys_def)

lemma stableKeys_eval: "stableKeys c v \<Longrightarrow> same v u \<Longrightarrow> k \<in> set (c_exprs c) \<Longrightarrow> se_Eval k u = se_Eval k v"
  unfolding stableKeys_def by blast

lemma stableKeys_same:
  assumes "stableKeys c v" "same v u"
  shows "stableKeys c u"
proof -
  have "se_Eval k w = se_Eval k v" if "same u w" "k \<in> set (c_exprs c)" for w k
    by (rule stableKeys_eval [OF assms(1) _ that(2)]) (use that(1) assms(2) in \<open>simp add: same_def\<close>)
  moreover note stableKeys_eval [OF assms]
  ultimately show ?thesis using assms(1) by (simp add: stableKeys_def simpleKeys_def)
qed

lemma compare_exprs_keys:
  "\<forall>k \<in> set ks. se_Eval k a' = se_Eval k a \<and> se_Eval k b' = se_Eval k b \<Longrightarrow>
   compare_exprs fl nullsMax ks a' b' = compare_exprs fl nullsMax ks a b"
proof (induction ks)
  case (Cons k ks)
  then have "compare_exprs fl nullsMax ks a' b' = compare_exprs fl nullsMax ks a b" by simp
  then show ?case using Cons.prems by (simp only: compare_exprs.simps) simp
qed simp

lemma SortStable_simple:
  assumes "\<forall>v \<in> set vs. c_exprs c \<noteq> [] \<and> simpleKeys c v" "length vs < 2 ^ 32"
  shows "SortStable fl c vs = Ok (SliceStable (\<lambda>a b. valCmp fl c a b < 0) vs)"
    and "\<exists>rd. SortStableReader fl c vs = Ok rd \<and> readSorted rd = Ok (SliceStable (\<lambda>a b. valCmp fl c a b < 0) vs)"
proof -
  let ?s = "SliceStable (\<lambda>a b. valCmp fl c a b < 0) vs"
  have "SortStable fl c vs = Ok ?s \<and> (\<exists>rd. SortStableReader fl c vs = Ok rd \<and> readSorted rd = Ok ?s)"
  proof (cases "c_exprs c")
    case Nil
    then have "vs = []" using assms(1) by (cases vs) auto
    then show ?thesis using Nil
      by (simp add: SortStableReader_def SortStable_def sortStableIndices_def readSorted_indices SliceStable_def)
  next
    case (Cons k ks)
    have s: "sortable c vs" using assms(1) by (simp add: sortable_def simpleKeys_def simpleVal_def)
    have ok: "\<forall>a \<in> set vs. \<forall>b \<in> set vs. isOk (compareValues fl (c_nullsMax c) (se_Eval k a) (se_Eval k b))"
      using assms(1) Cons by (simp add: simpleKeys_def compareValues_simple_Ok)
    show ?thesis using sortStableIndices_ok [OF s Cons assms(2) ok] SortStable_eq [OF s Cons assms(2) ok]
      by (auto simp: SortStableReader_def readSorted_indices)
  qed
  then show "SortStable fl c vs = Ok ?s" "\<exists>rd. SortStableReader fl c vs = Ok rd \<and> readSorted rd = Ok ?s" by auto
qed

interpretation zs: mergeSorting zngFiles "fileVals D" fl c "stableKeys c"
proof unfold_locales
  fix a b d :: zvalue
  show "stableKeys c a \<Longrightarrow> stableKeys c b \<Longrightarrow> (valCmp fl c b a < 0) = (0 < valCmp fl c a b)"
    by (rule cc.cmp_flip) (auto simp: stableKeys_def)
  show "stableKeys c a \<Longrightarrow> stableKeys c b \<Longrightarrow> stableKeys c d \<Longrightarrow> valCmp fl c a b \<le> 0 \<Longrightarrow> valCmp fl c b d \<le> 0 \<Longrightarrow> valCmp fl c a d \<le> 0"
    by (rule cc.cmp_trans [of c a b d]) (auto simp: stableKeys_def)
next
  fix a b a' b' :: zvalue
  show "stableKeys c a \<Longrightarrow> stableKeys c b \<Longrightarrow> same a a' \<Longrightarrow> same b b' \<Longrightarrow> valCmp fl c a' b' = valCmp fl c a b"
    unfolding Comparator_Compare_def using compare_exprs_keys [of "c_exprs c" a' a b' b] stableKeys_eval [of c] by metis
  show "stableKeys c a \<Longrightarrow> same a a' \<Longrightarrow> stableKeys c a'" by (rule stableKeys_same)
next
  fix vs :: "zvalue list"
  show "\<forall>v \<in> set vs. stableKeys c v \<Longrightarrow> length vs < 2 ^ 32 \<Longrightarrow> \<exists>rd. SortStableReader fl c vs = Ok rd \<and>
      readSorted rd = Ok (SliceStable (\<lambda>a b. valCmp fl c a b < 0) vs)"
    by (rule SortStable_simple) (simp_all add: stableKeys_def)
  show "\<forall>v \<in> set vs. stableKeys c v \<Longrightarrow> length vs < 2 ^ 32 \<Longrightarrow> SortStable fl c vs = Ok (SliceStable (\<lambda>a b. valCmp fl c a b < 0) vs)"
    by (rule SortStable_simple) (simp_all add: stableKeys_def)
qed

end
