(* ===== verification/SortOp.thy ===== *)
theory SortOp
  imports SpillFile
begin

text \<open>
  The operator \<open>sort\<close> (\<open>runtime/sam/op/sort/sort.go\<close>).  A goroutine collects the values of the
  parent; it sorts them in memory, or spills a chunk whenever the values kept reach \<open>MemMaxBytes\<close>
  and merges the chunks at end of stream.  It hands each result over on a channel, so the model
  is the code of the goroutine up to its next send, \<open>Sort_run\<close>; \<open>so_phase\<close> says where it has been
  left.  The goroutine is at most one result ahead of its consumer, which the operator does not
  see; here the parent is pulled when the result is received.  The resetter and the cancellation of the query are not modelled.
\<close>

section \<open>State\<close>

datatype 'f sortPhase = Reading | SendEOS | SendSpills "'f mergeSort zpuller"

record ('s, 'f) sortOp =
  so_parent :: 's
  so_nullsFirst :: bool
  so_reverse :: bool
  so_fieldResolvers :: "sortEvaluator list option"
  so_lastBatch :: "zvalue batch option"
  so_comparator :: "comparator option"
  so_spiller :: "'f mergeSort option"
  so_nbytes :: nat
  so_out :: "zvalue list"
  so_phase :: "'f sortPhase"

definition NewSort :: "'s \<Rightarrow> sortEvaluator list option \<Rightarrow> bool \<Rightarrow> bool \<Rightarrow> ('s, 'f) sortOp" where
  "NewSort parent flds nullsFirst reverse =
     \<lparr>so_parent = parent, so_nullsFirst = nullsFirst, so_reverse = reverse, so_fieldResolvers = flds, so_lastBatch = None,
      so_comparator = None, so_spiller = None, so_nbytes = 0, so_out = [], so_phase = Reading\<rparr>"

text \<open>The comparator for the first value \<open>r\<close>.\<close>

definition sortComparator :: "(gostring list \<Rightarrow> zvalue \<Rightarrow> zvalue) \<Rightarrow> sortEvaluator list option \<Rightarrow> bool \<Rightarrow> bool \<Rightarrow> zvalue \<Rightarrow> comparator go" where
  "sortComparator dotted flds nullsFirst reverse r =
     (let resolvers = (case flds of None \<Rightarrow> [\<lparr>se_Eval = dotted (GuessSortKey (fst r)), se_Desc = False\<rparr>] | Some fs \<Rightarrow> fs);
          nullsMax = (\<not> nullsFirst);
          resolvers = (if reverse then map (\<lambda>k. k\<lparr>se_Desc := \<not> se_Desc k\<rparr>) resolvers else resolvers)
      in case resolvers of
           [] \<Rightarrow> Panic
         | k # ks \<Rightarrow> Ok (WithMissingAsNull (NewComparator (if se_Desc k then \<not> nullsMax else nullsMax) resolvers)))"

definition setComparator :: "(gostring list \<Rightarrow> zvalue \<Rightarrow> zvalue) \<Rightarrow> ('s, 'f) sortOp \<Rightarrow> zvalue \<Rightarrow> ('s, 'f) sortOp go" where
  "setComparator dotted op r =
     mapR (\<lambda>c. op\<lparr>so_comparator := Some c\<rparr>) (sortComparator dotted (so_fieldResolvers op) (so_nullsFirst op) (so_reverse op) r)"

definition sort_append :: "zvalue list \<Rightarrow> zvalue batch \<Rightarrow> zvalue list \<times> nat" where
  "sort_append out batch = (out @ bvals batch, sum_list (map (\<lambda>v. length (buf (snd v))) (bvals batch)))"

text \<open>\<open>send\<close>: the batch that is sent.\<close>

definition sort_send :: "fcmp \<Rightarrow> ('s, 'f) sortOp \<Rightarrow> zvalue batch go" where
  "sort_send fl op =
     (case (so_comparator op, so_lastBatch op) of
        (Some c, Some lastBatch) \<Rightarrow> mapR (NewBatch lastBatch) (SortStable fl c (so_out op))
      | _ \<Rightarrow> Panic)"

definition sort_reset :: "('s, 'f) sortOp \<Rightarrow> ('s, 'f) sortOp" where
  "sort_reset op = op\<lparr>so_spiller := None, so_nbytes := 0, so_out := [], so_phase := Reading\<rparr>"

section \<open>The goroutine\<close>

text \<open>The part of the loop after a batch has been received: the state, and an error to be sent.\<close>

definition sort_spill :: "'f fileOps \<Rightarrow> fcmp \<Rightarrow> ('s, 'f) sortOp \<Rightarrow> (unit go \<times> ('s, 'f) sortOp) option" where
  "sort_spill ops fl op =
     (case so_comparator op of
        None \<Rightarrow> Some (Panic, op)
      | Some c \<Rightarrow>
          (case (case so_spiller op of Some sp \<Rightarrow> Ok sp | None \<Rightarrow> NewMergeSort ops c) of
             Err e \<Rightarrow> Some (Err e, op\<lparr>so_out := [], so_nbytes := 0\<rparr>)
           | Panic \<Rightarrow> Some (Panic, op)
           | Ok sp \<Rightarrow>
               (case Spill ops fl sp (so_out op) of
                  None \<Rightarrow> None
                | Some (r, sp') \<Rightarrow> Some (r, op\<lparr>so_spiller := Some sp', so_out := [], so_nbytes := 0\<rparr>))))"

definition sort_batch :: "(gostring list \<Rightarrow> zvalue \<Rightarrow> zvalue) \<Rightarrow> nat \<Rightarrow> 'f fileOps \<Rightarrow> fcmp \<Rightarrow> ('s, 'f) sortOp \<Rightarrow> zvalue batch \<Rightarrow>
    (unit go \<times> ('s, 'f) sortOp) option" where
  "sort_batch dotted MemMaxBytes ops fl op batch =
     (let (out, delta) = sort_append (so_out op) batch;
          op = op\<lparr>so_lastBatch := Some batch, so_out := out\<rparr>
      in case (if so_comparator op = None \<and> 0 < length out then setComparator dotted op (hd out) else Ok op) of
           Err e \<Rightarrow> Some (Err e, op)
         | Panic \<Rightarrow> Some (Panic, op)
         | Ok op \<Rightarrow>
             (let op = op\<lparr>so_nbytes := so_nbytes op + delta\<rparr> in
              if so_nbytes op < MemMaxBytes then Some (Ok (), op) else sort_spill ops fl op))"

partial_function (option) Sort_run ::
  "(gostring list \<Rightarrow> zvalue \<Rightarrow> zvalue) \<Rightarrow> nat \<Rightarrow> nat \<Rightarrow> 'f fileOps \<Rightarrow> fcmp \<Rightarrow> (zvalue, 's) pull \<Rightarrow> ('s, 'f) sortOp \<Rightarrow>
   (zvalue batch option go \<times> ('s, 'f) sortOp) option" where
  "Sort_run dotted MemMaxBytes PullerBatchValues ops fl pull op =
     (case so_phase op of
        SendEOS \<Rightarrow> Some (Ok None, sort_reset op)
      | SendSpills p \<Rightarrow>
          (case Puller_Pull PullerBatchValues (MergeSort_Read ops fl) False p of
             None \<Rightarrow> None
           | Some (Ok (Some b), p') \<Rightarrow> Some (Ok (Some b), op\<lparr>so_phase := SendSpills p'\<rparr>)
           | Some (Ok None, p') \<Rightarrow> Some (Ok None, sort_reset op)
           | Some (Err e, p') \<Rightarrow> Some (Err e, sort_reset op)
           | Some (Panic, p') \<Rightarrow> Some (Panic, op))
      | Reading \<Rightarrow>
          (case pull False (so_parent op) of
             None \<Rightarrow> None
           | Some (Err e, s) \<Rightarrow> Some (Err e, op\<lparr>so_parent := s\<rparr>)
           | Some (Panic, s) \<Rightarrow> Some (Panic, op\<lparr>so_parent := s\<rparr>)
           | Some (Ok None, s) \<Rightarrow>
               (let op = op\<lparr>so_parent := s\<rparr> in
                case so_spiller op of
                  None \<Rightarrow>
                    if 0 < length (so_out op)
                    then (case sort_send fl op of
                            Ok b \<Rightarrow> Some (Ok (Some b), op\<lparr>so_phase := SendEOS\<rparr>)
                          | Err e \<Rightarrow> Some (Err e, op)
                          | Panic \<Rightarrow> Some (Panic, op))
                    else Some (Ok None, sort_reset op)
                | Some sp \<Rightarrow>
                    if 0 < length (so_out op)
                    then (case Spill ops fl sp (so_out op) of
                            None \<Rightarrow> None
                          | Some (Err e, sp') \<Rightarrow> Some (Err e, sort_reset op)
                          | Some (Panic, sp') \<Rightarrow> Some (Panic, op)
                          | Some (Ok _, sp') \<Rightarrow>
                              Sort_run dotted MemMaxBytes PullerBatchValues ops fl pull (op\<lparr>so_phase := SendSpills (NewPuller sp')\<rparr>))
                    else Sort_run dotted MemMaxBytes PullerBatchValues ops fl pull (op\<lparr>so_phase := SendSpills (NewPuller sp)\<rparr>))
           | Some (Ok (Some batch), s) \<Rightarrow>
               (case sort_batch dotted MemMaxBytes ops fl (op\<lparr>so_parent := s\<rparr>) batch of
                  None \<Rightarrow> None
                | Some (Ok _, op') \<Rightarrow> Sort_run dotted MemMaxBytes PullerBatchValues ops fl pull op'
                | Some (Err e, op') \<Rightarrow> Some (Err e, op')
                | Some (Panic, op') \<Rightarrow> Some (Panic, op'))))"

text \<open>\<open>Pull\<close> receives the next result; told to stop, it receives and drops batches up to end of stream.\<close>

partial_function (option) Sort_Pull ::
  "(gostring list \<Rightarrow> zvalue \<Rightarrow> zvalue) \<Rightarrow> nat \<Rightarrow> nat \<Rightarrow> 'f fileOps \<Rightarrow> fcmp \<Rightarrow> (zvalue, 's) pull \<Rightarrow> bool \<Rightarrow> ('s, 'f) sortOp \<Rightarrow>
   (zvalue batch option go \<times> ('s, 'f) sortOp) option" where
  "Sort_Pull dotted MemMaxBytes PullerBatchValues ops fl pull done op =
     (case Sort_run dotted MemMaxBytes PullerBatchValues ops fl pull op of
        None \<Rightarrow> None
      | Some (Ok (Some b), op') \<Rightarrow>
          if done then Sort_Pull dotted MemMaxBytes PullerBatchValues ops fl pull done op' else Some (Ok (Some b), op')
      | Some (Ok None, op') \<Rightarrow> Some (Ok None, op')
      | Some (Err e, op') \<Rightarrow> Some (Err e, op')
      | Some (Panic, op') \<Rightarrow> Some (Panic, op'))"

declare Sort_run.simps [code] Sort_Pull.simps [code]

lemma Sort_Pull_run: "Sort_Pull dotted mem n ops fl pull False op = Sort_run dotted mem n ops fl pull op"
  by (auto simp: Sort_Pull.simps [of dotted mem n ops fl pull False op] split: option.splits prod.splits result.splits)

end
