(* ===== verification/SortOpLaws.thy ===== *)
theory SortOpLaws
  imports SortOp
begin

text \<open>
  The operator \<open>sort\<close> delivers the stable sort of the values of its parent, whether they fit into
  memory or not, and is then ready for the next stream.
\<close>

section \<open>Sending the merged chunks\<close>

lemma SendSpills_stream:
  assumes "stream (Puller_Pull n (MergeSort_Read ops fl)) p bs None p'"
  shows "so_phase op = SendSpills p \<Longrightarrow> \<exists>op'. stream (Sort_Pull dotted mem n ops fl pull) op bs None op' \<and> op' = sort_reset op"
  using assms
proof (induction p bs "None :: goerror option" p' arbitrary: op rule: stream.induct)
  case (stream_eos p p')
  then show ?case by (auto intro!: Puller.stream_eos simp: Sort_Pull_run Sort_run.simps [of dotted mem n ops fl pull op])
next
  case (stream_batch p b p1 bs p')
  let ?op = "op\<lparr>so_phase := SendSpills p1\<rparr>"
  have "Sort_Pull dotted mem n ops fl pull False op = Some (Ok (Some b), ?op)"
    using stream_batch.hyps(1) stream_batch.prems by (simp add: Sort_Pull_run Sort_run.simps [of dotted mem n ops fl pull op])
  moreover have "stream (Sort_Pull dotted mem n ops fl pull) ?op bs None (sort_reset ?op)" using stream_batch.hyps(3) [of ?op] by simp
  moreover have "sort_reset ?op = sort_reset op" by (simp add: sort_reset_def)
  ultimately show ?case using Puller.stream_batch [of "Sort_Pull dotted mem n ops fl pull" op b ?op bs None] by simp
qed

context mergeSorting
begin

section \<open>Collecting\<close>

text \<open>
  The operator has received the values of \<open>chunks\<close>, which have been spilled, and \<open>o\<close>, which are in
  memory.
\<close>

definition sortHolds :: "zvalue list list \<Rightarrow> zvalue list \<Rightarrow> ('s, 'f) sortOp \<Rightarrow> bool" where
  "sortHolds chunks vs op \<longleftrightarrow> so_phase op = Reading \<and> so_out op = vs \<and> (\<forall>v \<in> set vs. V v) \<and>
     (case so_spiller op of None \<Rightarrow> chunks = [] | Some sp \<Rightarrow> chunks \<noteq> [] \<and> spilled chunks sp) \<and>
     so_comparator op \<in> (if chunks = [] \<and> vs = [] then {None, Some c} else {Some c}) \<and> (vs \<noteq> [] \<longrightarrow> so_lastBatch op \<noteq> None)"

definition startsWith :: "(gostring list \<Rightarrow> zvalue \<Rightarrow> zvalue) \<Rightarrow> ('s, 'f) sortOp \<Rightarrow> zvalue list \<Rightarrow> bool" where
  "startsWith dotted op vals \<longleftrightarrow> (so_comparator op = None \<and> vals \<noteq> [] \<longrightarrow>
     sortComparator dotted (so_fieldResolvers op) (so_nullsFirst op) (so_reverse op) (hd vals) = Ok c)"

definition writable :: "zvalue list \<Rightarrow> bool" where
  "writable vals \<longleftrightarrow> (\<forall>ws. set ws \<subseteq> set vals \<longrightarrow> W ws)"

lemma sort_spill_ok:
  assumes h: "sortHolds chunks vs op" and "vs \<noteq> []" "length vs < 2 ^ 32" "writable vs"
  shows "\<exists>op'. sort_spill ops fl op = Some (Ok (), op') \<and> sortHolds (chunks @ [vs]) [] op' \<and>
    so_parent op' = so_parent op \<and> so_nbytes op' = 0"
proof -
  have c: "so_comparator op = Some c" and out: "so_out op = vs" "\<forall>v \<in> set vs. V v" using h assms(2) by (auto simp: sortHolds_def)
  obtain sp where sp: "(case so_spiller op of Some sp \<Rightarrow> Ok sp | None \<Rightarrow> NewMergeSort ops c) = Ok sp" "spilled chunks sp"
  proof (cases "so_spiller op")
    case None
    then have "chunks = []" using h by (simp add: sortHolds_def)
    then show thesis using that [of "emptyMergeSort c"] None spilled_New tempdir by (simp add: NewMergeSort_def)
  qed (use h that in \<open>auto simp: sortHolds_def\<close>)
  have "W (SliceStable lt vs)" using assms(4) by (simp add: writable_def)
  then obtain sp' where sp': "Spill ops fl sp vs = Some (Ok (), sp')" "spilled (chunks @ [vs]) sp'"
    using Spill_ok [OF sp(2) assms(2) out(2) assms(3)] by blast
  let ?op = "op\<lparr>so_spiller := Some sp', so_out := [], so_nbytes := 0\<rparr>"
  have "sort_spill ops fl op = Some (Ok (), ?op)" unfolding sort_spill_def using c sp(1) sp'(1) out(1) by (simp split del: option.splits)
  moreover have "sortHolds (chunks @ [vs]) [] ?op" using h sp'(2) c by (simp add: sortHolds_def)
  ultimately show ?thesis by simp
qed

text \<open>The state after a batch has been appended.\<close>

definition sortGrown :: "('s, 'f) sortOp \<Rightarrow> zvalue batch \<Rightarrow> ('s, 'f) sortOp" where
  "sortGrown op b = op\<lparr>so_lastBatch := Some b, so_out := so_out op @ bvals b,
     so_comparator := (if so_out op @ bvals b = [] then so_comparator op else Some c), so_nbytes := so_nbytes op + sizeOf (bvals b)\<rparr>"

lemma sort_batch_grown:
  assumes h: "sortHolds chunks vs op" and "chunks = [] \<and> vs = [] \<Longrightarrow> startsWith dotted op (bvals b @ rest)"
  shows "sort_batch dotted mem ops fl op b =
     (if so_nbytes op + sizeOf (bvals b) < mem then Some (Ok (), sortGrown op b) else sort_spill ops fl (sortGrown op b))"
proof -
  let ?op = "op\<lparr>so_lastBatch := Some b, so_out := so_out op @ bvals b\<rparr>"
  let ?set = "if so_comparator ?op = None \<and> 0 < length (so_out op @ bvals b) then setComparator dotted ?op (hd (so_out op @ bvals b)) else Ok ?op"
  let ?c = "if so_out op @ bvals b = [] then so_comparator op else Some c"
  have set: "?set = Ok (?op\<lparr>so_comparator := ?c\<rparr>)"
  proof (cases "so_comparator op = None \<and> bvals b \<noteq> []")
    case True
    then have "chunks = []" "vs = []" using h by (auto simp: sortHolds_def split: if_splits)
    then have "hd (bvals b @ rest) = hd (bvals b)" "startsWith dotted op (bvals b @ rest)" "so_out op = []" using assms True by (auto simp: sortHolds_def)
    then show ?thesis using True by (auto simp: setComparator_def startsWith_def)
  next
    case False
    then show ?thesis using h by (auto simp: sortHolds_def split: if_splits)
  qed
  have "sizeOf (bvals b) = sum_list (map (\<lambda>v. length (buf (snd v))) (bvals b))" by (simp add: sizeOf_def)
  then show ?thesis unfolding sort_batch_def sort_append_def Let_def prod.case using set
    by (cases "so_nbytes op + sizeOf (bvals b) < mem") (simp_all add: sortGrown_def split del: if_split)
qed

lemma sortHolds_grown:
  "sortHolds chunks vs op \<Longrightarrow> \<forall>v \<in> set (bvals b). V v \<Longrightarrow> sortHolds chunks (vs @ bvals b) (sortGrown op b)"
  by (auto simp: sortHolds_def sortGrown_def split: option.splits)

lemma sort_batch_ok:
  assumes h: "sortHolds chunks vs op" and b: "\<forall>v \<in> set (bvals b). V v"
    and start: "chunks = [] \<and> vs = [] \<Longrightarrow> startsWith dotted op (bvals b @ rest)"
    and len: "length (vs @ bvals b) < 2 ^ 32" and wr: "writable (vs @ bvals b)" and mem: "so_nbytes op < mem"
  shows "\<exists>op' chunks' vs'. sort_batch dotted mem ops fl op b = Some (Ok (), op') \<and> sortHolds chunks' vs' op' \<and>
     concat chunks' @ vs' = concat chunks @ vs @ bvals b \<and> so_parent op' = so_parent op \<and> so_nbytes op' < mem \<and>
     (chunks' = [] \<and> vs' = [] \<longrightarrow> startsWith dotted op' rest)"
proof (cases "so_nbytes op + sizeOf (bvals b) < mem")
  case True
  have "startsWith dotted (sortGrown op b) rest" if "chunks = []" "vs @ bvals b = []"
    using that start h by (auto simp: startsWith_def sortGrown_def sortHolds_def)
  then show ?thesis using True sort_batch_grown [OF h start] sortHolds_grown [OF h b]
    by (intro exI [of _ "sortGrown op b"] exI [of _ chunks] exI [of _ "vs @ bvals b"]) (auto simp: sortGrown_def)
next
  case False
  then have "vs @ bvals b \<noteq> []" using mem by auto
  then obtain op' where "sort_spill ops fl (sortGrown op b) = Some (Ok (), op')" "sortHolds (chunks @ [vs @ bvals b]) [] op'"
    "so_parent op' = so_parent (sortGrown op b)" "so_nbytes op' = 0"
    using sort_spill_ok [OF sortHolds_grown [OF h b]] len wr by blast
  then show ?thesis using False sort_batch_grown [OF h start, of mem] mem
    by (intro exI [of _ op'] exI [of _ "chunks @ [vs @ bvals b]"] exI [of _ "[]"]) (auto simp: sortGrown_def)
qed

section \<open>The end of the stream\<close>

lemma writable_mono: "writable vs \<Longrightarrow> set ws \<subseteq> set vs \<Longrightarrow> writable ws"
  by (auto simp: writable_def)

lemma same_refl: "list_all2 same vs vs"
  by (simp add: list_all2_same same_def)

lemma sort_eos_mem:
  assumes h: "sortHolds [] vs op" and eos: "pull False (so_parent op) = Some (Ok None, s')" and "length vs < 2 ^ 32"
  shows "\<exists>bs'. stream (Sort_Pull dotted mem n ops fl pull) op bs' None (sort_reset (op\<lparr>so_parent := s'\<rparr>)) \<and>
    valuesOf bs' = SliceStable lt vs"
proof (cases "vs = []")
  case True
  then show ?thesis using h eos
    by (intro exI [of _ "[]"])
      (auto intro!: Puller.stream_eos simp: Sort_Pull_run Sort_run.simps [of dotted mem n ops fl pull op] sortHolds_def
        SliceStable_def split: option.splits)
next
  case False
  then obtain lb where lb: "so_lastBatch op = Some lb" and c: "so_comparator op = Some c" and vs: "so_out op = vs" "\<forall>v \<in> set vs. V v"
    and sp: "so_spiller op = None" "so_phase op = Reading"
    using h by (auto simp: sortHolds_def split: option.splits)
  let ?b = "NewBatch lb (SliceStable lt vs)" and ?op = "op\<lparr>so_parent := s', so_phase := SendEOS\<rparr>"
  have "sort_send fl (op\<lparr>so_parent := s'\<rparr>) = Ok ?b" using sorts_mem [OF vs(2) assms(3)] lb c vs(1) by (simp add: sort_send_def)
  then have "Sort_Pull dotted mem n ops fl pull False op = Some (Ok (Some ?b), ?op)"
    using False eos sp vs(1) by (simp add: Sort_Pull_run Sort_run.simps [of dotted mem n ops fl pull op])
  moreover have "Sort_Pull dotted mem n ops fl pull False ?op = Some (Ok None, sort_reset (op\<lparr>so_parent := s'\<rparr>))"
    by (simp add: Sort_Pull_run Sort_run.simps [of dotted mem n ops fl pull ?op] sort_reset_def)
  ultimately show ?thesis
    by (intro exI [of _ "[?b]"] conjI Puller.stream_batch [of _ _ ?b ?op] Puller.stream_eos) auto
qed

lemma sort_eos_spilled:
  assumes h: "sortHolds chunks vs op" "chunks \<noteq> []" and eos: "pull False (so_parent op) = Some (Ok None, s')"
    and "length vs < 2 ^ 32" "writable vs" "0 < n"
  shows "\<exists>bs'. stream (Sort_Pull dotted mem n ops fl pull) op bs' None (sort_reset (op\<lparr>so_parent := s'\<rparr>)) \<and>
    list_all2 same (SliceStable lt (concat chunks @ vs)) (valuesOf bs')"
proof -
  obtain sp where sp: "so_spiller op = Some sp" "spilled chunks sp" and ph: "so_phase op = Reading" "so_out op = vs" "\<forall>v \<in> set vs. V v"
    using h by (auto simp: sortHolds_def split: option.splits)
  obtain sp' where sp': "spilled (if vs = [] then chunks else chunks @ [vs]) sp'"
    "Sort_run dotted mem n ops fl pull op = Sort_run dotted mem n ops fl pull (op\<lparr>so_parent := s', so_phase := SendSpills (NewPuller sp')\<rparr>)"
  proof (cases "vs = []")
    case True
    then show thesis using that [of sp] sp ph eos by (simp add: Sort_run.simps [of dotted mem n ops fl pull op])
  next
    case False
    have "W (SliceStable lt vs)" using assms(5) by (simp add: writable_def)
    then obtain r where "Spill ops fl sp vs = Some (Ok (), r)" "spilled (chunks @ [vs]) r"
      using Spill_ok [OF sp(2) False ph(3) assms(4)] by blast
    then show thesis using that [of r] False sp ph eos by (simp add: Sort_run.simps [of dotted mem n ops fl pull op])
  qed
  let ?op = "op\<lparr>so_parent := s', so_phase := SendSpills (NewPuller sp')\<rparr>"
  obtain out where out: "Puller.reads (MergeSort_Read ops fl) sp' out None (sp'\<lparr>ms_runs := []\<rparr>)"
    "list_all2 same (SliceStable lt (concat chunks @ vs)) out"
    using spilled_reads [OF sp'(1)] by (auto split: if_splits)
  obtain bs' p where bs': "stream (Puller_Pull n (MergeSort_Read ops fl)) (NewPuller sp') bs' None p" "valuesOf bs' = out"
    using NewPuller_stream [OF out(1) assms(6)] by (metis append_Nil2 option.case(1))
  have "stream (Sort_Pull dotted mem n ops fl pull) ?op bs' None (sort_reset ?op)"
    using SendSpills_stream [OF bs'(1), of ?op] by simp
  then have "stream (Sort_Pull dotted mem n ops fl pull) op bs' None (sort_reset ?op)"
    using sp'(2) by (simp add: stream_resume Sort_Pull_run)
  moreover have "sort_reset ?op = sort_reset (op\<lparr>so_parent := s'\<rparr>)" by (simp add: sort_reset_def)
  ultimately show ?thesis using bs'(2) out(2) by auto
qed

text \<open>From any point of the stream on.\<close>

definition sortDone :: "'s \<Rightarrow> ('s, 'f) sortOp \<Rightarrow> bool" where
  "sortDone s op \<longleftrightarrow> so_parent op = s \<and> so_phase op = Reading \<and> so_out op = [] \<and> so_nbytes op = 0 \<and> so_spiller op = None"

lemma sort_stream:
  assumes "stream pull s bs None s'" "so_parent op = s" "sortHolds chunks vs op" "\<forall>v \<in> set (valuesOf bs). V v"
    and "chunks = [] \<and> vs = [] \<Longrightarrow> startsWith dotted op (valuesOf bs)"
    and "length (concat chunks @ vs @ valuesOf bs) < 2 ^ 32" "writable (concat chunks @ vs @ valuesOf bs)" "so_nbytes op < mem" "0 < n"
  shows "\<exists>bs' op'. stream (Sort_Pull dotted mem n ops fl pull) op bs' None op' \<and> sortDone s' op' \<and>
    list_all2 same (SliceStable lt (concat chunks @ vs @ valuesOf bs)) (valuesOf bs')"
  using assms
proof (induction s bs "None :: goerror option" s' arbitrary: op chunks vs rule: stream.induct)
  case (stream_eos s s')
  have len: "length vs < 2 ^ 32" "writable vs" using stream_eos.prems(5,6) by (auto intro: writable_mono)
  have fin: "sortDone s' (sort_reset (op\<lparr>so_parent := s'\<rparr>))" by (simp add: sortDone_def sort_reset_def)
  show ?case
  proof (cases "chunks = []")
    case True
    have "pull False (so_parent op) = Some (Ok None, s')" using stream_eos.hyps(1) stream_eos.prems(1) by simp
    then obtain bs' where bs': "stream (Sort_Pull dotted mem n ops fl pull) op bs' None (sort_reset (op\<lparr>so_parent := s'\<rparr>))"
      "valuesOf bs' = SliceStable lt vs"
      using sort_eos_mem [OF stream_eos.prems(2) [unfolded True] _ len(1)] by blast
    have "list_all2 same (SliceStable lt (concat chunks @ vs @ valuesOf [])) (valuesOf bs')"
      using True same_refl unfolding bs'(2) by simp
    then show ?thesis using bs'(1) fin by blast
  next
    case False
    have "pull False (so_parent op) = Some (Ok None, s')" using stream_eos.hyps(1) stream_eos.prems(1) by simp
    then show ?thesis
      using sort_eos_spilled [where pull = pull, OF stream_eos.prems(2) False _ len stream_eos.prems(8), of s' dotted mem] fin by auto
  qed
next
  case (stream_batch s b s1 bs s')
  let ?op = "op\<lparr>so_parent := s1\<rparr>"
  have h: "sortHolds chunks vs ?op" using stream_batch.prems(2) by (simp add: sortHolds_def)
  have st: "chunks = [] \<and> vs = [] \<Longrightarrow> startsWith dotted ?op (bvals b @ valuesOf bs)" using stream_batch.prems(4) by (simp add: startsWith_def)
  have Vb: "\<forall>v \<in> set (bvals b). V v" "\<forall>v \<in> set (valuesOf bs). V v" using stream_batch.prems(3) by auto
  have len: "length (vs @ bvals b) < 2 ^ 32" "writable (vs @ bvals b)" "so_nbytes ?op < mem"
    using stream_batch.prems(5,6,7) by (auto intro: writable_mono)
  obtain op1 chunks1 vs1 where 1: "sort_batch dotted mem ops fl ?op b = Some (Ok (), op1)" "sortHolds chunks1 vs1 op1"
    "concat chunks1 @ vs1 = concat chunks @ vs @ bvals b" "so_parent op1 = so_parent ?op" "so_nbytes op1 < mem"
    "chunks1 = [] \<and> vs1 = [] \<longrightarrow> startsWith dotted op1 (valuesOf bs)"
    using sort_batch_ok [OF h Vb(1) st len] by blast
  have all: "concat chunks1 @ vs1 @ valuesOf bs = concat chunks @ vs @ valuesOf (b # bs)"
    using 1(3) by (metis append.assoc valuesOf_simps(2))
  have "so_parent op1 = s1" using 1(4) by simp
  from stream_batch.hyps(3) [OF this 1(2) Vb(2) _ _ _ 1(5) stream_batch.prems(8), unfolded all, OF _ stream_batch.prems(5,6)] 1(6)
  obtain bs' op' where 2: "stream (Sort_Pull dotted mem n ops fl pull) op1 bs' None op'" "sortDone s' op'"
    "list_all2 same (SliceStable lt (concat chunks @ vs @ valuesOf (b # bs))) (valuesOf bs')"
    by blast
  have "so_phase op = Reading" using stream_batch.prems(2) by (simp add: sortHolds_def)
  then have "Sort_run dotted mem n ops fl pull op = Sort_run dotted mem n ops fl pull op1"
    using stream_batch.hyps(1) stream_batch.prems(1) 1(1) by (simp add: Sort_run.simps [of dotted mem n ops fl pull op])
  then have "stream (Sort_Pull dotted mem n ops fl pull) op bs' None op'" using 2(1) by (simp add: stream_resume Sort_Pull_run)
  then show ?case using 2(2,3) by blast
qed

lemma NewSort_stream:
  assumes "stream pull s bs None s'" "\<forall>v \<in> set (valuesOf bs). V v"
    and "valuesOf bs \<noteq> [] \<Longrightarrow> sortComparator dotted flds nullsFirst reverse (hd (valuesOf bs)) = Ok c"
    and "length (valuesOf bs) < 2 ^ 32" "\<forall>ws. set ws \<subseteq> set (valuesOf bs) \<longrightarrow> W ws" "0 < mem" "0 < n"
  shows "\<exists>out op. stream (Sort_Pull dotted mem n ops fl pull) (NewSort s flds nullsFirst reverse) out None op \<and>
     so_parent op = s' \<and> so_phase op = Reading \<and> so_out op = [] \<and> so_spiller op = None \<and>
     list_all2 same (SliceStable lt (valuesOf bs)) (valuesOf out)"
proof -
  let ?op = "NewSort s flds nullsFirst reverse"
  have h: "sortHolds [] [] ?op" by (simp add: sortHolds_def NewSort_def)
  obtain out op where "stream (Sort_Pull dotted mem n ops fl pull) ?op out None op" "sortDone s' op"
    "list_all2 same (SliceStable lt (concat [] @ [] @ valuesOf bs)) (valuesOf out)"
    using sort_stream [OF assms(1) _ h assms(2), of dotted mem n] assms(3-7)
    by (auto simp: NewSort_def startsWith_def writable_def)
  then show ?thesis by (auto simp: sortDone_def)
qed

end

end
