(* ===== verification/Top.thy ===== *)
theory Top
  imports GoHeap PullerLaws
begin

text \<open>
  The operator \<open>top\<close> (\<open>runtime/sam/op/top/top.go\<close>, \<open>RecordSlice\<close> of
  \<open>runtime/sam/expr/sort.go\<close>): the largest values of its parent, kept in a heap of at most
  \<open>limit\<close> values of which the least is at the root.  The expressions of the operator are function
  values, as is the function \<open>dotted\<close> that makes the expression of a guessed sort key.  The
  resetter only concerns aggregate functions inside of expressions.
\<close>

section \<open>The operator\<close>

definition RecordSlice_Less :: "(zvalue \<Rightarrow> zvalue \<Rightarrow> int go) \<Rightarrow> zvalue \<Rightarrow> zvalue \<Rightarrow> bool" where
  "RecordSlice_Less compare a b \<longleftrightarrow> okInt (compare a b) < 0"

record 's topOp =
  tp_parent :: 's
  tp_limit :: int
  tp_fields :: "(zvalue \<Rightarrow> zvalue) list option"
  tp_flushEvery :: bool
  tp_records :: "zvalue list option"
  tp_compare :: "zvalue \<Rightarrow> zvalue \<Rightarrow> int go"

definition defaultTopLimit :: int where
  "defaultTopLimit = 100"

definition NewTop :: "'s \<Rightarrow> int \<Rightarrow> (zvalue \<Rightarrow> zvalue) list option \<Rightarrow> bool \<Rightarrow> 's topOp" where
  "NewTop parent limit flds flushEvery =
     \<lparr>tp_parent = parent, tp_limit = (if limit = 0 then defaultTopLimit else limit), tp_fields = flds,
      tp_flushEvery = flushEvery, tp_records = None, tp_compare = (\<lambda>a b. Panic)\<rparr>"

text \<open>The end of \<open>consume\<close>: the value enters the heap when there is room or it is above the root.\<close>

definition top_offer :: "('v \<Rightarrow> 'v \<Rightarrow> bool) \<Rightarrow> int \<Rightarrow> 'v list \<Rightarrow> 'v \<Rightarrow> 'v list go" where
  "top_offer lt limit records rec =
     (if \<not> int (length records) < limit \<and> length records = 0 then Panic
      else
        let records = (if int (length records) < limit \<or> lt (records ! 0) rec then heap_Push lt records rec else records)
        in Ok (if int (length records) > limit then snd (heap_Pop lt records) else records))"

definition top_consume :: "fcmp \<Rightarrow> (gostring list \<Rightarrow> zvalue \<Rightarrow> zvalue) \<Rightarrow> 's topOp \<Rightarrow> zvalue \<Rightarrow> 's topOp go" where
  "top_consume fl dotted op rec =
     (let flds = (case tp_fields op of None \<Rightarrow> [dotted (GuessSortKey (fst rec))] | Some fs \<Rightarrow> fs);
          (records, compare) =
            (case tp_records op of
               None \<Rightarrow> (let c = NewCompareFn fl False flds in (heap_Init (RecordSlice_Less c) [], c))
             | Some rs \<Rightarrow> (rs, tp_compare op))
      in bindR (top_offer (RecordSlice_Less compare) (tp_limit op) records rec) (\<lambda>records.
           Ok (op\<lparr>tp_fields := Some flds, tp_records := Some records, tp_compare := compare\<rparr>)))"

fun top_consume_all :: "fcmp \<Rightarrow> (gostring list \<Rightarrow> zvalue \<Rightarrow> zvalue) \<Rightarrow> 's topOp \<Rightarrow> zvalue list \<Rightarrow> 's topOp go" where
  "top_consume_all fl dotted op [] = Ok op"
| "top_consume_all fl dotted op (v # vals) =
     bindR (top_consume fl dotted op v) (\<lambda>op. top_consume_all fl dotted op vals)"

text \<open>The loop of \<open>sorted\<close> fills the result from its end.\<close>

fun top_drain :: "('v \<Rightarrow> 'v \<Rightarrow> bool) \<Rightarrow> nat \<Rightarrow> 'v list \<Rightarrow> 'v list \<Rightarrow> 'v list" where
  "top_drain lt 0 records out = out"
| "top_drain lt (Suc n) records out =
     (let (rec, records) = heap_Pop lt records in top_drain lt n records (rec # out))"

definition top_sorted :: "'s topOp \<Rightarrow> zvalue batch option \<times> 's topOp" where
  "top_sorted op =
     (case tp_records op of
        None \<Rightarrow> (None, op)
      | Some records \<Rightarrow>
          (Some (NewArray (top_drain (RecordSlice_Less (tp_compare op)) (length records) records [])), op\<lparr>tp_records := None\<rparr>))"

partial_function (option) Top_Pull ::
  "fcmp \<Rightarrow> (gostring list \<Rightarrow> zvalue \<Rightarrow> zvalue) \<Rightarrow> (zvalue, 's) pull \<Rightarrow> bool \<Rightarrow> 's topOp \<Rightarrow> (zvalue batch option go \<times> 's topOp) option" where
  "Top_Pull fl dotted pull done op =
     (case pull done (tp_parent op) of
        None \<Rightarrow> None
      | Some (Err e, s) \<Rightarrow> Some (Err e, op\<lparr>tp_parent := s\<rparr>)
      | Some (Panic, s) \<Rightarrow> Some (Panic, op\<lparr>tp_parent := s\<rparr>)
      | Some (Ok None, s) \<Rightarrow>
          (let (b, op) = top_sorted (op\<lparr>tp_parent := s\<rparr>) in Some (Ok b, op))
      | Some (Ok (Some batch), s) \<Rightarrow>
          (case top_consume_all fl dotted (op\<lparr>tp_parent := s\<rparr>) (bvals batch) of
             Err e \<Rightarrow> Some (Err e, op\<lparr>tp_parent := s\<rparr>)
           | Panic \<Rightarrow> Some (Panic, op\<lparr>tp_parent := s\<rparr>)
           | Ok op \<Rightarrow>
               if tp_flushEvery op then (let (b, op) = top_sorted op in Some (Ok b, op))
               else Top_Pull fl dotted pull done op))"

declare Top_Pull.simps [code]

section \<open>The heap holds the largest values\<close>

context ordering
begin

text \<open>\<open>records\<close> are the \<open>limit\<close> largest of the values \<open>vs\<close>, as a heap.\<close>

definition largest :: "nat \<Rightarrow> 'v list \<Rightarrow> 'v list \<Rightarrow> bool" where
  "largest limit vs records \<longleftrightarrow> isHeap records \<and> allV vs \<and> length records = min limit (length vs) \<and>
     (\<exists>rest. mset vs = mset records + rest \<and> (\<forall>x \<in># rest. \<forall>y \<in> set records. cmp x y \<le> 0))"

lemma largest_Nil: "largest limit [] []"
  by (simp add: largest_def heapFrom_def allV_def)

lemma heap_root_least: "isHeap h \<Longrightarrow> y \<in> set h \<Longrightarrow> cmp (h ! 0) y \<le> 0"
  by (metis heap_least in_set_conv_nth)

lemma top_offer_room:
  assumes "largest limit vs records" "length records < limit" "V x"
  shows "\<exists>records'. top_offer lt (int limit) records x = Ok records' \<and> largest limit (vs @ [x]) records'"
proof -
  let ?h = "heap_Push lt records x"
  have h: "isHeap ?h" "mset ?h = add_mset x (mset records)"
    using heap_Push_ok [of records x] assms(1,3) by (auto simp: largest_def)
  have len: "length ?h = Suc (length records)" using h(2) by (metis size_mset size_add_mset)
  have "length records = length vs" using assms(1,2) by (auto simp: largest_def)
  then have all: "mset vs = mset records" using assms(1) unfolding largest_def
    by (metis add.right_neutral add_left_cancel size_eq_0_iff_empty size_mset size_union)
  have "largest limit (vs @ [x]) ?h" unfolding largest_def
  proof (intro conjI exI [of _ "{#}"])
    show "allV (vs @ [x])" using assms(1,3) by (auto simp: largest_def allV_def)
    show "mset (vs @ [x]) = mset ?h + {#}" by (simp add: h(2) all)
    show "length ?h = min limit (length (vs @ [x]))" using len assms(2) \<open>length records = length vs\<close> by simp
  qed (use h in auto)
  then show ?thesis using assms(2) len by (simp add: top_offer_def Let_def)
qed

lemma top_offer_full:
  assumes l: "largest limit vs records" and len: "length records = limit" "0 < limit" and "V x"
  shows "\<exists>records'. top_offer lt (int limit) records x = Ok records' \<and> largest limit (vs @ [x]) records'"
proof -
  have hp: "isHeap records" and vs: "allV vs" "limit \<le> length vs" using l len by (auto simp: largest_def)
  obtain rest where rest: "mset vs = mset records + rest" "\<And>d y. d \<in># rest \<Longrightarrow> y \<in> set records \<Longrightarrow> cmp d y \<le> 0"
    using l unfolding largest_def by blast
  have ne: "records \<noteq> []" using len by auto
  have root: "V (records ! 0)" "records ! 0 \<in> set records" using hp ne allV_nth [of records 0] by auto
  have Vd: "V d" if "d \<in># rest" for d using that rest(1) vs(1) unfolding allV_def
    by (metis set_mset_mset union_iff)
  have vx: "allV (vs @ [x])" using vs(1) assms(4) by (auto simp: allV_def)
  show ?thesis
  proof (cases "lt (records ! 0) x")
    case True
    let ?h = "heap_Push lt records x"
    have h: "isHeap ?h" "mset ?h = add_mset x (mset records)" using heap_Push_ok [OF hp assms(4)] by auto
    then have hl: "length ?h = Suc limit" by (metis size_mset size_add_mset len(1))
    then have "?h \<noteq> []" by auto
    then obtain h' where p: "heap_Pop lt ?h = (?h ! 0, h')" "isHeap h'" "mset ?h = add_mset (?h ! 0) (mset h')" "length ?h = Suc (length h')"
      using heap_Pop_ok [OF h(1)] by blast
    have mem: "set h' \<subseteq> insert x (set records)" "set h' \<subseteq> set ?h"
      using p(3) h(2) by (metis set_mset_add_mset_insert set_mset_mset subset_insertI)+
    have least: "cmp (?h ! 0) y \<le> 0" if "y \<in> set h'" for y using that mem(2) heap_root_least [OF h(1)] by blast
    have old: "cmp d y \<le> 0" if d: "d \<in># rest" and y: "y \<in> set h'" for d y
    proof (cases "y = x")
      case True
      have "cmp d (records ! 0) \<le> 0" using rest(2) [OF d root(2)] .
      then show ?thesis using cmp_trans [OF Vd [OF d] root(1) assms(4)] \<open>lt (records ! 0) x\<close> True by simp
    qed (use rest(2) d y mem(1) in auto)
    have "largest limit (vs @ [x]) h'" unfolding largest_def
    proof (intro conjI exI [of _ "add_mset (?h ! 0) rest"])
      show "mset (vs @ [x]) = mset h' + add_mset (?h ! 0) rest" using rest(1) p(3) h(2) by simp
      show "length h' = min limit (length (vs @ [x]))" using p(4) hl vs(2) by simp
      show "\<forall>d \<in># add_mset (?h ! 0) rest. \<forall>y \<in> set h'. cmp d y \<le> 0" using least old by auto
    qed (use p(2) vx in auto)
    then show ?thesis using True hl p(1) ne by (simp add: top_offer_def Let_def)
  next
    case False
    then have "cmp x (records ! 0) \<le> 0" using not_lt root(1) assms(4) by blast
    then have "cmp x y \<le> 0" if "y \<in> set records" for y
      using cmp_trans [OF assms(4) root(1), of y] heap_root_least [OF hp that] hp that by (auto simp: allV_def)
    then have "largest limit (vs @ [x]) records" unfolding largest_def
      by (intro conjI exI [of _ "add_mset x rest"]) (use rest hp vx len vs in auto)
    then show ?thesis using False len ne by (auto simp: top_offer_def Let_def)
  qed
qed

lemma top_offer_ok:
  assumes "largest limit vs records" "0 < limit" "V x"
  shows "\<exists>records'. top_offer lt (int limit) records x = Ok records' \<and> largest limit (vs @ [x]) records'"
proof (cases "length records < limit")
  case False
  then have "length records = limit" using assms(1) by (simp add: largest_def)
  then show ?thesis using top_offer_full [OF assms(1) _ assms(2,3)] by blast
qed (use top_offer_room [OF assms(1) _ assms(3)] in blast)

text \<open>\<open>sorted\<close> empties the heap into descending order.\<close>

lemma top_drain_ok:
  "isHeap records \<Longrightarrow> length records = n \<Longrightarrow>
   \<exists>ws. top_drain lt n records out = ws @ out \<and> mset ws = mset records \<and> sorted_wrt (\<lambda>a b. cmp b a \<le> 0) ws"
proof (induction n arbitrary: records out)
  case (Suc n)
  then have "records \<noteq> []" by auto
  then obtain h' where p: "heap_Pop lt records = (records ! 0, h')" "isHeap h'" "mset records = add_mset (records ! 0) (mset h')"
    "length records = Suc (length h')" using heap_Pop_ok [OF Suc.prems(1)] by blast
  have "length h' = n" using p(4) Suc.prems(2) by simp
  then obtain ws where ws: "top_drain lt n h' (records ! 0 # out) = ws @ records ! 0 # out" "mset ws = mset h'"
    "sorted_wrt (\<lambda>a b. cmp b a \<le> 0) ws" using Suc.IH [OF p(2), of "records ! 0 # out"] by blast
  have "cmp (records ! 0) y \<le> 0" if "y \<in> set ws" for y
    using that heap_root_least [OF Suc.prems(1)] p(3) ws(2) by (metis insert_iff set_mset_add_mset_insert set_mset_mset)
  then have "sorted_wrt (\<lambda>a b. cmp b a \<le> 0) (ws @ [records ! 0])" using ws(3) by (simp add: sorted_wrt_append)
  moreover have "mset (ws @ [records ! 0]) = mset records" using p(3) ws(2) by simp
  moreover have "top_drain lt (Suc n) records out = (ws @ [records ! 0]) @ out" using p(1) ws(1) by simp
  ultimately show ?case by blast
qed simp

end

section \<open>The stream of a top\<close>

text \<open>The comparison by the expressions \<open>fs\<close>, and the expressions that the operator uses.\<close>

definition topCmp :: "fcmp \<Rightarrow> (zvalue \<Rightarrow> zvalue) list \<Rightarrow> zvalue \<Rightarrow> zvalue \<Rightarrow> int" where
  "topCmp fl fs a b = okInt (NewCompareFn fl False fs a b)"

definition topFields :: "(gostring list \<Rightarrow> zvalue \<Rightarrow> zvalue) \<Rightarrow> (zvalue \<Rightarrow> zvalue) list option \<Rightarrow> zvalue list \<Rightarrow> (zvalue \<Rightarrow> zvalue) list" where
  "topFields dotted flds vals =
     (case flds of Some fs \<Rightarrow> fs | None \<Rightarrow> (case vals of [] \<Rightarrow> [] | v # _ \<Rightarrow> [dotted (GuessSortKey (fst v))]))"

text \<open>\<open>out\<close> has the \<open>limit\<close> largest of the values, in descending order.\<close>

definition isTop :: "('v \<Rightarrow> 'v \<Rightarrow> int) \<Rightarrow> nat \<Rightarrow> 'v list \<Rightarrow> 'v list \<Rightarrow> bool" where
  "isTop cmp limit vals out \<longleftrightarrow> length out = min limit (length vals) \<and> sorted_wrt (\<lambda>a b. cmp b a \<le> 0) out \<and>
     (\<exists>rest. mset vals = mset out + rest \<and> (\<forall>x \<in># rest. \<forall>y \<in> set out. cmp x y \<le> 0))"

definition topHolds :: "fcmp \<Rightarrow> (zvalue \<Rightarrow> bool) \<Rightarrow> (zvalue \<Rightarrow> zvalue) list \<Rightarrow> nat \<Rightarrow> zvalue list \<Rightarrow> 's topOp \<Rightarrow> bool" where
  "topHolds fl V fs limit vs op \<longleftrightarrow> tp_limit op = int limit \<and>
     (if vs = [] then tp_records op = None
      else tp_fields op = Some fs \<and> tp_compare op = NewCompareFn fl False fs \<and>
        (\<exists>rs. tp_records op = Some rs \<and> ordering.largest (topCmp fl fs) V limit vs rs))"

lemma RecordSlice_Less_topCmp: "RecordSlice_Less (NewCompareFn fl False fs) = (\<lambda>a b. topCmp fl fs a b < 0)"
  by (simp add: RecordSlice_Less_def topCmp_def fun_eq_iff)

lemma top_consume_ok:
  assumes o: "ordering (topCmp fl fs) V" and h: "topHolds fl V fs limit vs op" and "0 < limit" "V v"
    and "vs = [] \<Longrightarrow> topFields dotted (tp_fields op) [v] = fs"
  shows "\<exists>op'. top_consume fl dotted op v = Ok op' \<and> topHolds fl V fs limit (vs @ [v]) op' \<and>
      tp_parent op' = tp_parent op \<and> tp_flushEvery op' = tp_flushEvery op"
proof -
  let ?lt = "\<lambda>a b. topCmp fl fs a b < 0"
  define rs where "rs = (if vs = [] then [] else the (tp_records op))"
  have "ordering.largest (topCmp fl fs) V limit vs rs"
    using h ordering.largest_Nil [OF o] by (auto simp: rs_def topHolds_def)
  then obtain rs' where rs': "top_offer ?lt (int limit) rs v = Ok rs'" "ordering.largest (topCmp fl fs) V limit (vs @ [v]) rs'"
    using ordering.top_offer_ok [OF o _ assms(3,4)] by blast
  have flds: "(case tp_fields op of None \<Rightarrow> [dotted (GuessSortKey (fst v))] | Some fs \<Rightarrow> fs) = fs"
    using h assms(5) by (cases "vs = []") (auto simp: topHolds_def topFields_def split: option.splits)
  let ?op = "op\<lparr>tp_fields := Some fs, tp_records := Some rs', tp_compare := NewCompareFn fl False fs\<rparr>"
  have "top_consume fl dotted op v = Ok ?op"
    using h rs'(1) by (cases "vs = []")
      (auto simp: top_consume_def flds topHolds_def rs_def heap_Init_def RecordSlice_Less_topCmp)
  moreover have "topHolds fl V fs limit (vs @ [v]) ?op" using h rs'(2) by (simp add: topHolds_def)
  ultimately show ?thesis by simp
qed

lemma top_consume_all_ok:
  assumes o: "ordering (topCmp fl fs) V" and "0 < limit"
  shows "topHolds fl V fs limit vs op \<Longrightarrow> (\<forall>w \<in> set ws. V w) \<Longrightarrow>
    (vs = [] \<Longrightarrow> ws \<noteq> [] \<Longrightarrow> topFields dotted (tp_fields op) ws = fs) \<Longrightarrow>
    \<exists>op'. top_consume_all fl dotted op ws = Ok op' \<and> topHolds fl V fs limit (vs @ ws) op' \<and>
      tp_parent op' = tp_parent op \<and> tp_flushEvery op' = tp_flushEvery op \<and> (ws = [] \<longrightarrow> op' = op)"
proof (induction ws arbitrary: vs op)
  case (Cons w ws)
  have "vs = [] \<Longrightarrow> topFields dotted (tp_fields op) [w] = fs" using Cons.prems(3) by (simp add: topFields_def split: option.splits)
  then obtain op1 where 1: "top_consume fl dotted op w = Ok op1" "topHolds fl V fs limit (vs @ [w]) op1"
    "tp_parent op1 = tp_parent op" "tp_flushEvery op1 = tp_flushEvery op"
    using top_consume_ok [OF o Cons.prems(1) assms(2), of w dotted] Cons.prems(2) by auto
  then obtain op2 where "top_consume_all fl dotted op1 ws = Ok op2" "topHolds fl V fs limit ((vs @ [w]) @ ws) op2"
    "tp_parent op2 = tp_parent op1" "tp_flushEvery op2 = tp_flushEvery op1"
    using Cons.IH [OF 1(2)] Cons.prems(2) by auto
  then show ?case using 1 by simp
qed simp

lemma top_sorted_ok:
  assumes o: "ordering (topCmp fl fs) V" and h: "topHolds fl V fs limit vs op"
  shows "\<exists>out. top_sorted op = (if vs = [] then None else Some (NewArray out), op\<lparr>tp_records := None\<rparr>) \<and>
     isTop (topCmp fl fs) limit vs out"
proof (cases "vs = []")
  case True
  then show ?thesis using h by (auto simp: top_sorted_def topHolds_def isTop_def)
next
  case False
  then obtain rs where rs: "tp_compare op = NewCompareFn fl False fs" "tp_records op = Some rs" "ordering.largest (topCmp fl fs) V limit vs rs"
    using h by (auto simp: topHolds_def)
  note big = rs(3) [unfolded ordering.largest_def [OF o]]
  obtain out where out: "top_drain (\<lambda>a b. topCmp fl fs a b < 0) (length rs) rs [] = out" "mset out = mset rs"
    "sorted_wrt (\<lambda>a b. topCmp fl fs b a \<le> 0) out"
    using ordering.top_drain_ok [OF o, of rs "length rs" "[]"] big by auto
  have "length out = length rs" "set out = set rs" using out(2) by (metis size_mset, metis set_mset_mset)
  then have "isTop (topCmp fl fs) limit vs out" using big out(2,3) by (auto simp: isTop_def)
  then show ?thesis using False rs out(1) by (auto simp: top_sorted_def RecordSlice_Less_topCmp)
qed

lemma top_eos:
  assumes "ordering (topCmp fl fs) V" "topHolds fl V fs limit vs op" "pull done (tp_parent op) = Some (Ok None, s')"
  shows "\<exists>out. Top_Pull fl dotted pull done op =
      Some (Ok (if vs = [] then None else Some (NewArray out)), op\<lparr>tp_parent := s', tp_records := None\<rparr>) \<and>
      isTop (topCmp fl fs) limit vs out"
proof -
  have "topHolds fl V fs limit vs (op\<lparr>tp_parent := s'\<rparr>)" using assms(2) by (simp add: topHolds_def)
  from top_sorted_ok [OF assms(1) this] show ?thesis
    using assms(3) by (auto simp: Top_Pull.simps [of fl dotted pull "done" op])
qed

lemma top_stream:
  assumes o: "ordering (topCmp fl fs) V" and "0 < limit"
  shows "stream pull s bs None s' \<Longrightarrow> tp_parent op = s \<Longrightarrow> \<not> tp_flushEvery op \<Longrightarrow> topHolds fl V fs limit vs op \<Longrightarrow>
    (\<forall>w \<in> set (valuesOf bs). V w) \<Longrightarrow> (vs = [] \<Longrightarrow> valuesOf bs \<noteq> [] \<Longrightarrow> topFields dotted (tp_fields op) (valuesOf bs) = fs) \<Longrightarrow>
    \<exists>out op'. Top_Pull fl dotted pull False op =
       Some (Ok (if vs @ valuesOf bs = [] then None else Some (NewArray out)), op') \<and>
       isTop (topCmp fl fs) limit (vs @ valuesOf bs) out \<and> topHolds fl V fs limit [] op' \<and> tp_parent op' = s' \<and> \<not> tp_flushEvery op' \<and>
       (tp_fields op' = (if vs @ valuesOf bs = [] then tp_fields op else Some fs))"
proof (induction s bs "None :: goerror option" s' arbitrary: op vs rule: stream.induct)
  case (stream_eos s s')
  have "tp_fields op = Some fs" if "vs \<noteq> []" using stream_eos.prems(3) that by (simp add: topHolds_def)
  moreover have "topHolds fl V fs limit [] (op\<lparr>tp_parent := s', tp_records := None\<rparr>)"
    using stream_eos.prems(3) by (simp add: topHolds_def)
  ultimately show ?case
    using top_eos [OF o stream_eos.prems(3), of pull False s' dotted] stream_eos.hyps(1) stream_eos.prems(1,2) by auto
next
  case (stream_batch s b s1 bs s')
  let ?op = "op\<lparr>tp_parent := s1\<rparr>"
  have h: "topHolds fl V fs limit vs ?op" using stream_batch.prems(3) by (simp add: topHolds_def)
  have Vb: "\<forall>w \<in> set (bvals b). V w" "\<forall>w \<in> set (valuesOf bs). V w" using stream_batch.prems(4) by auto
  have "vs = [] \<Longrightarrow> bvals b \<noteq> [] \<Longrightarrow> topFields dotted (tp_fields ?op) (bvals b) = fs"
    using stream_batch.prems(5) by (cases "bvals b") (auto simp: topFields_def split: option.splits)
  from top_consume_all_ok [OF o assms(2) h Vb(1) this] obtain op1 where
    1: "top_consume_all fl dotted ?op (bvals b) = Ok op1" "topHolds fl V fs limit (vs @ bvals b) op1"
    "tp_parent op1 = s1" "\<not> tp_flushEvery op1" "bvals b = [] \<longrightarrow> op1 = ?op"
    using stream_batch.prems(2) by auto
  have "vs @ bvals b = [] \<Longrightarrow> valuesOf bs \<noteq> [] \<Longrightarrow> topFields dotted (tp_fields op1) (valuesOf bs) = fs"
    using 1(5) stream_batch.prems(5) by auto
  from stream_batch.hyps(3) [OF 1(3,4,2) Vb(2) this] obtain out op' where
    2: "Top_Pull fl dotted pull False op1 = Some (Ok (if (vs @ bvals b) @ valuesOf bs = [] then None else Some (NewArray out)), op')"
    "isTop (topCmp fl fs) limit ((vs @ bvals b) @ valuesOf bs) out" "topHolds fl V fs limit [] op'" "tp_parent op' = s'"
    "\<not> tp_flushEvery op'" "tp_fields op' = (if (vs @ bvals b) @ valuesOf bs = [] then tp_fields op1 else Some fs)"
    by blast
  have "Top_Pull fl dotted pull False op = Top_Pull fl dotted pull False op1"
    using stream_batch.hyps(1) stream_batch.prems(1) 1(1,4) by (simp add: Top_Pull.simps [of fl dotted pull False op])
  then show ?case using 2 1(5) by (intro exI [of _ out] exI [of _ op']) auto
qed

end
