(* ===== verification/SortProps.thy ===== *)
theory SortProps
  imports SortOpLaws Top OpsProps
begin

text \<open>
  The properties of the operators \<open>sort\<close> and \<open>top\<close> and of the external merge sort, with
  witnesses on the source of \<open>OpsProps\<close>.
\<close>

section \<open>External merge sort\<close>

text \<open>C11: chunks that are sorted and spilled to ZNG files one after the other are read back as the stable
  sort of all their values in the order in which they came: the same bytes, and types of the
  same structure.  The keys are simple values and do not depend on the context of a type.\<close>

theorem spill_then_merge:
  assumes "\<forall>vals \<in> set chunks. vals \<noteq> [] \<and> length vals < 2 ^ 32 \<and> (\<forall>v \<in> set vals. stableKeys c v) \<and>
      fileVals D (SliceStable (\<lambda>a b. okInt (Comparator_Compare fl c a b) < 0) vals)"
  shows "\<exists>r out. spillAll zngFiles fl chunks (emptyMergeSort c) = Some (Ok (), r) \<and>
    Puller.reads (MergeSort_Read zngFiles fl) r out None (r\<lparr>ms_runs := []\<rparr>) \<and>
    list_all2 same (SliceStable (\<lambda>a b. okInt (Comparator_Compare fl c a b) < 0) (concat chunks)) out"
  by (rule zs.spillAll_reads [OF assms])

text \<open>The comparator that orders values by themselves, and a chunk of the sample values.\<close>

definition byThis :: comparator where
  "byThis = WithMissingAsNull (NewComparator True [\<lparr>se_Eval = (\<lambda>this. this), se_Desc = False\<rparr>])"

lemmas byThis_defs = byThis_def NewComparator_def WithMissingAsNull_def missingAsNull_def Value_IsMissing_def

lemma sample_keys: "\<forall>v \<in> set sampleVals. isPrim (fst v) \<and> stableKeys byThis v \<and> length (emitV v) \<le> 2 ^ 29"
proof -
  have "isPrim (fst v) \<and> simpleKeys byThis v \<and> length (emitV v) \<le> 2 ^ 29" if "v \<in> set sampleVals" for v
    using that
    by (auto simp: sampleVals_def simpleKeys_def byThis_defs simpleVal_def properID_def isNative_def
        emitV_def TypeID_def emitLen_def Append_def appendUvarint_small toTag_def)
  then show ?thesis using stableKeys_prim [of _ byThis] by (auto simp: byThis_defs)
qed

lemma sample_file: "set ws \<subseteq> set sampleVals \<Longrightarrow> fileVals NewContext ws"
  using sample_keys by (intro filePrims_fileVals) (auto simp: filePrims_def)

theorem spill_then_merge_witness:
  "\<exists>r out. spillAll zngFiles (\<lambda>a b. Panic) [sampleVals, sampleVals] (emptyMergeSort byThis) = Some (Ok (), r) \<and>
    Puller.reads (MergeSort_Read zngFiles (\<lambda>a b. Panic)) r out None (r\<lparr>ms_runs := []\<rparr>) \<and>
    list_all2 same (SliceStable (\<lambda>a b. okInt (Comparator_Compare (\<lambda>a b. Panic) byThis a b) < 0) (concat [sampleVals, sampleVals])) out"
  by (rule spill_then_merge [of _ byThis NewContext]) (use sample_keys sample_file in \<open>auto simp: sampleVals_def\<close>)

section \<open>Sort\<close>

text \<open>C10: \<open>sort\<close> delivers the stable sort of the values of its parent by the comparator of the
  first value, whatever \<open>MemMaxBytes\<close> is, and hence whether and how often it spills; it is then ready
  for the next stream.  The keys are simple: nulls, integers, booleans, strings, bytes and networks.\<close>

theorem sort_delivers_stable_sort:
  assumes "stream pull s bs None s'" "valuesOf bs \<noteq> []"
    and "sortComparator dotted flds nullsFirst reverse (hd (valuesOf bs)) = Ok c"
    and "\<forall>v \<in> set (valuesOf bs). stableKeys c v" "length (valuesOf bs) < 2 ^ 32"
    and "\<forall>ws. set ws \<subseteq> set (valuesOf bs) \<longrightarrow> fileVals D ws" "0 < MemMaxBytes" "0 < PullerBatchValues"
  shows "\<exists>out op. stream (Sort_Pull dotted MemMaxBytes PullerBatchValues zngFiles fl pull) (NewSort s flds nullsFirst reverse) out None op \<and>
     so_parent op = s' \<and> so_phase op = Reading \<and> so_out op = [] \<and> so_spiller op = None \<and>
     list_all2 same (SliceStable (\<lambda>a b. okInt (Comparator_Compare fl c a b) < 0) (valuesOf bs)) (valuesOf out)"
  by (rule zs.NewSort_stream [OF assms(1,4) assms(3) assms(5-8)])

theorem sort_delivers_stable_sort_witness:
  "\<exists>out op. stream (Sort_Pull (\<lambda>p v. v) 2 100 zngFiles (\<lambda>a b. Panic) samplePull)
        (NewSort sampleSource (Some [\<lparr>se_Eval = (\<lambda>this. this), se_Desc = False\<rparr>]) False False) out None op \<and>
     so_parent op = \<lparr>zr = None\<rparr> \<and> so_phase op = Reading \<and> so_out op = [] \<and> so_spiller op = None \<and>
     list_all2 same (SliceStable (\<lambda>a b. okInt (Comparator_Compare (\<lambda>a b. Panic) byThis a b) < 0)
       (valuesOf [NewArray (take 2 sampleVals), NewArray (drop 2 sampleVals)])) (valuesOf out)"
proof (rule sort_delivers_stable_sort [OF sample_stream, where D = NewContext], unfold sample_values)
  show "\<forall>v \<in> set sampleVals. stableKeys byThis v" using sample_keys by blast
  show "\<forall>ws. set ws \<subseteq> set sampleVals \<longrightarrow> fileVals NewContext ws" using sample_file by blast
qed (simp_all add: sampleVals_def sortComparator_def byThis_def)

section \<open>Top\<close>

lemma topHolds_New: "0 < limit \<Longrightarrow> topHolds fl V fs limit [] (NewTop s (int limit) flds False)"
  by (simp add: topHolds_def NewTop_def)

lemma NewTop_simps [simp]:
  "tp_parent (NewTop s limit flds flush) = s" "tp_fields (NewTop s limit flds flush) = flds" "tp_flushEvery (NewTop s limit flds flush) = flush"
  by (simp_all add: NewTop_def)

lemma top_at_eos:
  assumes "topHolds fl V fs limit [] op" "pull False (tp_parent op) = Some (Ok None, s')"
  shows "\<exists>op'. stream (Top_Pull fl dotted pull) op [] None op'"
  using assms by (auto simp: stream_resume Top_Pull.simps [of fl dotted pull False op] top_sorted_def topHolds_def)

text \<open>C12: \<open>top\<close> delivers the \<open>limit\<close> largest values of its parent in descending order and in one batch, if
  there are any: no value that it drops is above one that it keeps.\<close>

theorem top_delivers_largest:
  assumes "stream pull s bs None s'" "pull False s' = Some (Ok None, s')" "0 < limit"
    and "topFields dotted flds (valuesOf bs) = fs" "ordering (topCmp fl fs) V" "\<forall>v \<in> set (valuesOf bs). V v"
  shows "\<exists>out op. stream (Top_Pull fl dotted pull) (NewTop s (int limit) flds False) out None op \<and>
     isTop (topCmp fl fs) limit (valuesOf bs) (valuesOf out) \<and> length out \<le> 1"
proof -
  let ?op = "NewTop s (int limit) flds False"
  obtain out op' where op': "Top_Pull fl dotted pull False ?op = Some (Ok (if valuesOf bs = [] then None else Some (NewArray out)), op')"
    "isTop (topCmp fl fs) limit (valuesOf bs) out" "topHolds fl V fs limit [] op'" "tp_parent op' = s'"
    using top_stream [OF assms(5,3,1), of ?op "[]" dotted] topHolds_New [OF assms(3), of fl V fs s flds] assms(4,6) by auto
  show ?thesis
  proof (cases "valuesOf bs = []")
    case True
    then have "stream (Top_Pull fl dotted pull) ?op [] None op'" using op'(1) by (simp add: stream_resume)
    then show ?thesis using op'(2) True by (intro exI [of _ "[]"] exI [of _ op']) (auto simp: isTop_def)
  next
    case False
    obtain op'' where "stream (Top_Pull fl dotted pull) op' [] None op''"
      using top_at_eos [OF op'(3), of pull s' dotted] op'(4) assms(2) by auto
    then have "stream (Top_Pull fl dotted pull) ?op [NewArray out] None op''"
      using op'(1) False by (auto intro: Puller.stream_batch)
    then show ?thesis using op'(2) by (intro exI [of _ "[NewArray out]"] exI [of _ op'']) auto
  qed
qed

lemma topCmp_this: "topCmp fl [\<lambda>v. v] = (\<lambda>a b. okInt (Comparator_Compare fl (byThis\<lparr>c_nullsMax := False\<rparr>) a b))"
  by (simp add: topCmp_def NewCompareFn_def byThis_defs fun_eq_iff)

lemma top_sample: "ordering (topCmp fl [\<lambda>v. v]) (simpleKeys (byThis\<lparr>c_nullsMax := False\<rparr>))"
  "\<forall>v \<in> set sampleVals. simpleKeys (byThis\<lparr>c_nullsMax := False\<rparr>) v"
proof -
  show "ordering (topCmp fl [\<lambda>v. v]) (simpleKeys (byThis\<lparr>c_nullsMax := False\<rparr>))" unfolding topCmp_this by (rule cc.ordering_axioms)
  show "\<forall>v \<in> set sampleVals. simpleKeys (byThis\<lparr>c_nullsMax := False\<rparr>) v"
    using sample_keys by (auto simp: stableKeys_def simpleKeys_def)
qed

theorem top_delivers_largest_witness:
  "\<exists>out op. stream (Top_Pull (\<lambda>a b. Panic) (\<lambda>p v. v) samplePull) (NewTop sampleSource (int 2) (Some [\<lambda>v. v]) False) out None op \<and>
     isTop (topCmp (\<lambda>a b. Panic) [\<lambda>v. v]) 2 (valuesOf [NewArray (take 2 sampleVals), NewArray (drop 2 sampleVals)]) (valuesOf out) \<and> length out \<le> 1"
  by (rule top_delivers_largest [OF sample_stream sample_eos _ _ top_sample(1)])
    (use top_sample(2) in \<open>simp_all only: sample_values topFields_def option.case\<close>)

text \<open>C38: \<open>top\<close> returns its batch when its parent is at end of stream and goes on with the next stream
  when it is pulled again, so inside of a scope the end between two streams is lost.\<close>

theorem top_loses_end_of_stream:
  assumes "stream pull s bs None s1" "stream pull s1 cs None s2" "pull False s2 = Some (Ok None, s3)" "0 < limit"
    and "valuesOf bs \<noteq> []" "valuesOf cs \<noteq> []" "ordering (topCmp fl fs) V" "\<forall>v \<in> set (valuesOf bs) \<union> set (valuesOf cs). V v"
  shows "\<exists>b1 b2 op. stream (Top_Pull fl dotted pull) (NewTop s (int limit) (Some fs) False) [b1, b2] None op \<and>
     isTop (topCmp fl fs) limit (valuesOf bs) (bvals b1) \<and> isTop (topCmp fl fs) limit (valuesOf cs) (bvals b2)"
proof -
  let ?op = "NewTop s (int limit) (Some fs) False" and ?pull = "Top_Pull fl dotted pull"
  obtain out1 op1 where 1: "?pull False ?op = Some (Ok (Some (NewArray out1)), op1)" "isTop (topCmp fl fs) limit (valuesOf bs) out1"
    "topHolds fl V fs limit [] op1" "tp_parent op1 = s1" "\<not> tp_flushEvery op1" "tp_fields op1 = Some fs"
    using top_stream [OF assms(7,4,1), of ?op "[]" dotted] topHolds_New [OF assms(4), of fl V fs s "Some fs"] assms(5,8)
    by (auto simp: topFields_def)
  obtain out2 op2 where 2: "?pull False op1 = Some (Ok (Some (NewArray out2)), op2)" "isTop (topCmp fl fs) limit (valuesOf cs) out2"
    "topHolds fl V fs limit [] op2" "tp_parent op2 = s2"
    using top_stream [OF assms(7,4,2) 1(4,5,3), of dotted] 1(6) assms(6,8) by (auto simp: topFields_def)
  obtain op3 where "stream ?pull op2 [] None op3" using top_at_eos [OF 2(3)] 2(4) assms(3) by blast
  then have "stream ?pull ?op [NewArray out1, NewArray out2] None op3"
    using Puller.stream_batch [of ?pull ?op "NewArray out1" op1] Puller.stream_batch [of ?pull op1 "NewArray out2" op2] 1(1) 2(1) by blast
  then show ?thesis using 1(2) 2(2) by (intro exI [of _ "NewArray out1"] exI [of _ "NewArray out2"] exI [of _ op3]) simp
qed

theorem top_loses_end_of_stream_witness:
  "\<exists>b1 b2 op. stream (Top_Pull (\<lambda>a b. Panic) (\<lambda>p v. v) twoStreams)
        (NewTop [Some (NewArray sampleVals), None, Some (NewArray sampleVals), None] (int 1) (Some [\<lambda>v. v]) False) [b1, b2] None op \<and>
     isTop (topCmp (\<lambda>a b. Panic) [\<lambda>v. v]) 1 (valuesOf [NewArray sampleVals]) (bvals b1) \<and>
     isTop (topCmp (\<lambda>a b. Panic) [\<lambda>v. v]) 1 (valuesOf [NewArray sampleVals]) (bvals b2)"
  by (rule top_loses_end_of_stream [OF _ _ _ _ _ _ top_sample(1), where ?s1.0 = "[Some (NewArray sampleVals), None]" and ?s2.0 = "[]" and ?s3.0 = "[]"])
    (use top_sample(2) in \<open>auto simp: stream_resume sampleVals_def\<close>)

end
