(* ===== verification/Merge.thy ===== *)
theory Merge
  imports GoHeap PullerLaws
begin

text \<open>
  The operator \<open>merge\<close> (\<open>runtime/sam/op/merge/merge.go\<close>): the values of several sorted parents in one
  sorted stream.  Each parent is pulled by a goroutine of its own that is one result ahead of the
  operator, so a parent that is told to stop has been pulled once more before.  The head-of-line
  queue is a heap of the parents that have values, ordered by their first values.

  A parent is identified by its number.  \<open>mg_parents\<close> has the parents that are not in the queue; one
  that is in the queue is kept there, and is written back when it leaves.  A comparison with a
  parent whose batch has no values panics: \<open>holPush\<close> and \<open>holFix\<close> say when an operation of the heap
  makes one.  Cancellation is not modelled.
\<close>

section \<open>The pullers\<close>

record 's mpuller =
  mp_id :: nat
  mp_op :: 's
  mp_dead :: bool
  mp_batch :: "zvalue batch option"
  mp_vals :: "zvalue list"
  mp_blocked :: bool

definition newMPuller :: "nat \<Rightarrow> 's \<Rightarrow> 's mpuller" where
  "newMPuller i parent = \<lparr>mp_id = i, mp_op = parent, mp_dead = False, mp_batch = None, mp_vals = [], mp_blocked = False\<rparr>"

text \<open>
  \<open>replenish\<close> receives the next result of the goroutine, which ends after an error and then never
  sends again.
\<close>

definition replenish :: "(zvalue, 's) pull \<Rightarrow> 's mpuller \<Rightarrow> (bool go \<times> 's mpuller) option" where
  "replenish pull p =
     (if mp_dead p then None
      else
        case Catcher_Pull pull False (mp_op p) of
          None \<Rightarrow> None
        | Some (Err e, s) \<Rightarrow> Some (Err e, p\<lparr>mp_op := s, mp_dead := True\<rparr>)
        | Some (Panic, s) \<Rightarrow> Some (Panic, p\<lparr>mp_op := s\<rparr>)
        | Some (Ok (Some b), s) \<Rightarrow> Some (Ok True, p\<lparr>mp_op := s, mp_batch := Some b, mp_vals := bvals b\<rparr>)
        | Some (Ok None, s) \<Rightarrow> Some (Ok False, p\<lparr>mp_op := s, mp_batch := None, mp_blocked := True\<rparr>))"

text \<open>A send on \<open>doneCh\<close>: the goroutine drops the result that it has pulled, and stops its parent.\<close>

definition mpuller_done :: "(zvalue, 's) pull \<Rightarrow> 's mpuller \<Rightarrow> (unit go \<times> 's mpuller) option" where
  "mpuller_done pull p =
     (if mp_dead p then None
      else
        case Catcher_Pull pull False (mp_op p) of
          None \<Rightarrow> None
        | Some (_, s) \<Rightarrow>
            (case Catcher_Pull pull True s of
               None \<Rightarrow> None
             | Some (Ok (Some b), s') \<Rightarrow> Some (Panic, p\<lparr>mp_op := s'\<rparr>)
             | Some (_, s') \<Rightarrow> Some (Ok (), p\<lparr>mp_op := s', mp_batch := None\<rparr>)))"

section \<open>The operator\<close>

record 's mergeOp =
  mg_once :: bool
  mg_parents :: "'s mpuller list"
  mg_hol :: "'s mpuller list"

definition NewMerge :: "'s list \<Rightarrow> 's mergeOp" where
  "NewMerge parents = \<lparr>mg_once = False, mg_parents = map (\<lambda>i. newMPuller i (parents ! i)) [0..<length parents], mg_hol = []\<rparr>"

definition Merge_Less :: "(zvalue \<Rightarrow> zvalue \<Rightarrow> int) \<Rightarrow> 's mpuller \<Rightarrow> 's mpuller \<Rightarrow> bool" where
  "Merge_Less cmp p q = (case (mp_vals p, mp_vals q) of (a # _, b # _) \<Rightarrow> cmp a b < 0 | _ \<Rightarrow> False)"

definition putBack :: "'s mpuller \<Rightarrow> 's mergeOp \<Rightarrow> 's mergeOp" where
  "putBack p op = op\<lparr>mg_parents := (mg_parents op)[mp_id p := p]\<rparr>"

text \<open>
  \<open>heap.Push\<close> and \<open>heap.Fix\<close> at the root compare the new parent with others as soon as there are
  others, and \<open>Less\<close> panics when one of the two has no values.
\<close>

definition emptyHead :: "'s mpuller list \<Rightarrow> bool" where
  "emptyHead hol \<longleftrightarrow> 2 \<le> length hol \<and> list_ex (\<lambda>p. mp_vals p = []) hol"

definition holPush :: "(zvalue \<Rightarrow> zvalue \<Rightarrow> int) \<Rightarrow> 's mpuller list \<Rightarrow> 's mpuller \<Rightarrow> 's mpuller list go" where
  "holPush cmp hol p = (if emptyHead (p # hol) then Panic else Ok (heap_Push (Merge_Less cmp) hol p))"

definition holFix :: "(zvalue \<Rightarrow> zvalue \<Rightarrow> int) \<Rightarrow> 's mpuller list \<Rightarrow> 's mpuller list go" where
  "holFix cmp hol = (if emptyHead hol then Panic else Ok (heap_Fix (Merge_Less cmp) hol 0))"

definition withHol :: "'a \<Rightarrow> 's mergeOp \<Rightarrow> 's mpuller list go \<Rightarrow> 'a go \<times> 's mergeOp" where
  "withHol x op r = (case r of Ok hol \<Rightarrow> (Ok x, op\<lparr>mg_hol := hol\<rparr>) | Err e \<Rightarrow> (Err e, op) | Panic \<Rightarrow> (Panic, op))"

text \<open>The loop of \<open>start\<close> over the parents.\<close>

fun start_loop :: "(zvalue, 's) pull \<Rightarrow> (zvalue \<Rightarrow> zvalue \<Rightarrow> int) \<Rightarrow> 's mpuller list \<Rightarrow> 's mergeOp \<Rightarrow> (unit go \<times> 's mergeOp) option" where
  "start_loop pull cmp [] op = Some (Ok (), op\<lparr>mg_hol := heap_Init (Merge_Less cmp) (mg_hol op)\<rparr>)"
| "start_loop pull cmp (p # ps) op =
     (case replenish pull (p\<lparr>mp_blocked := False\<rparr>) of
        None \<Rightarrow> None
      | Some (Err e, p') \<Rightarrow> Some (Err e, putBack p' op)
      | Some (Panic, p') \<Rightarrow> Some (Panic, putBack p' op)
      | Some (Ok ok, p') \<Rightarrow>
          if ok then
            (case holPush cmp (mg_hol op) p' of
               Ok hol \<Rightarrow> start_loop pull cmp ps (op\<lparr>mg_hol := hol\<rparr>)
             | Err e \<Rightarrow> Some (Err e, op)
             | Panic \<Rightarrow> Some (Panic, op))
          else start_loop pull cmp ps (putBack p' op))"

definition Merge_start :: "(zvalue, 's) pull \<Rightarrow> (zvalue \<Rightarrow> zvalue \<Rightarrow> int) \<Rightarrow> 's mergeOp \<Rightarrow> (unit go \<times> 's mergeOp) option" where
  "Merge_start pull cmp op = start_loop pull cmp (mg_parents op) (op\<lparr>mg_hol := []\<rparr>)"

definition Merge_Read :: "(zvalue, 's) pull \<Rightarrow> (zvalue \<Rightarrow> zvalue \<Rightarrow> int) \<Rightarrow> (zvalue, 's mergeOp) reader" where
  "Merge_Read pull cmp op =
     (case mg_hol op of
        [] \<Rightarrow> Some (Ok None, op)
      | u # us \<Rightarrow>
          (case mp_vals u of
             [] \<Rightarrow> Some (Panic, op)
           | val # vals \<Rightarrow>
               (let u = u\<lparr>mp_vals := vals\<rparr> in
                if vals = [] then
                  (case replenish pull u of
                     None \<Rightarrow> None
                   | Some (Err e, u') \<Rightarrow> Some (Err e, op\<lparr>mg_hol := u' # us\<rparr>)
                   | Some (Panic, u') \<Rightarrow> Some (Panic, op\<lparr>mg_hol := u' # us\<rparr>)
                   | Some (Ok ok, u') \<Rightarrow>
                       Some (if ok then withHol (Some val) op (holFix cmp (u' # us))
                         else (Ok (Some val), putBack u' (op\<lparr>mg_hol := snd (heap_Pop (Merge_Less cmp) (u' # us))\<rparr>))))
                else Some (withHol (Some val) op (holFix cmp (u # us))))))"

text \<open>\<open>zbuf.NewPuller(o).Pull(false)\<close>: the loop of \<open>puller.Pull\<close> over the operator itself.\<close>

partial_function (option) merge_fill ::
  "(zvalue, 's) pull \<Rightarrow> (zvalue \<Rightarrow> zvalue \<Rightarrow> int) \<Rightarrow> 's mergeOp \<Rightarrow> pullerBatch \<Rightarrow> (zvalue batch option go \<times> 's mergeOp) option" where
  "merge_fill pull cmp op b =
     (case Merge_Read pull cmp op of
        None \<Rightarrow> None
      | Some (Err e, op') \<Rightarrow> Some (Err e, op')
      | Some (Panic, op') \<Rightarrow> Some (Panic, op')
      | Some (Ok None, op') \<Rightarrow> Some (Ok (if length (pb_vals b) = 0 then None else Some (NewArray (pb_vals b))), op')
      | Some (Ok (Some val), op') \<Rightarrow>
          (let (b', full) = appendVal b val in
           if full then Some (Ok (Some (NewArray (pb_vals b'))), op') else merge_fill pull cmp op' b'))"

fun done_loop :: "(zvalue, 's) pull \<Rightarrow> 's mpuller list \<Rightarrow> 's mergeOp \<Rightarrow> (unit go \<times> 's mergeOp) option" where
  "done_loop pull [] op = Some (Ok (), op)"
| "done_loop pull (p # ps) op =
     (case mpuller_done pull p of
        None \<Rightarrow> None
      | Some (Ok _, p') \<Rightarrow> done_loop pull ps (putBack p' op)
      | Some (Err e, p') \<Rightarrow> Some (Err e, putBack p' op)
      | Some (Panic, p') \<Rightarrow> Some (Panic, putBack p' op))"

definition propagateDone :: "(zvalue, 's) pull \<Rightarrow> (zvalue \<Rightarrow> zvalue \<Rightarrow> int) \<Rightarrow> 's mergeOp \<Rightarrow> (unit go \<times> 's mergeOp) option" where
  "propagateDone pull cmp op =
     (case done_loop pull (rev (mg_hol op)) (op\<lparr>mg_hol := []\<rparr>) of
        None \<Rightarrow> None
      | Some (Ok _, op') \<Rightarrow> Merge_start pull cmp op'
      | Some (Err e, op') \<Rightarrow> Some (Err e, op')
      | Some (Panic, op') \<Rightarrow> Some (Panic, op'))"

definition eosOf :: "(unit go \<times> 's) option \<Rightarrow> (zvalue batch option go \<times> 's) option" where
  "eosOf x = map_option (\<lambda>(r, op). (mapR (\<lambda>_. None) r, op)) x"

text \<open>The rest of the batch of a parent, and the part of \<open>Pull\<close> that takes the parent with the least first value.\<close>

definition restBatch :: "'s mpuller \<Rightarrow> zvalue batch" where
  "restBatch m =
     (case mp_batch m of
        Some b \<Rightarrow> if length (mp_vals m) < length (bvals b) then NewArray (mp_vals m) else b
      | None \<Rightarrow> NewArray (mp_vals m))"

definition merge_next :: "(zvalue, 's) pull \<Rightarrow> (zvalue \<Rightarrow> zvalue \<Rightarrow> int) \<Rightarrow> nat \<Rightarrow> 's mergeOp \<Rightarrow> (zvalue batch option go \<times> 's mergeOp) option" where
  "merge_next pull cmp PullerBatchValues op =
     (let (m, hol) = heap_Pop (Merge_Less cmp) (mg_hol op) in
      if length hol = 0 \<or> cmp (last (mp_vals m)) (hd (mp_vals (hd hol))) \<le> 0 then
        (let batch = restBatch m
         in case replenish pull m of
              None \<Rightarrow> None
            | Some (Err e, m') \<Rightarrow> Some (Err e, putBack m' (op\<lparr>mg_hol := hol\<rparr>))
            | Some (Panic, m') \<Rightarrow> Some (Panic, putBack m' (op\<lparr>mg_hol := hol\<rparr>))
            | Some (Ok ok, m') \<Rightarrow>
                Some (if ok then withHol (Some batch) op (holPush cmp hol m') else (Ok (Some batch), putBack m' (op\<lparr>mg_hol := hol\<rparr>))))
      else merge_fill pull cmp (op\<lparr>mg_hol := heap_Push (Merge_Less cmp) hol m\<rparr>) (newPullerBatch PullerBatchValues))"

definition Merge_Pull :: "(zvalue \<Rightarrow> zvalue \<Rightarrow> int) \<Rightarrow> nat \<Rightarrow> (zvalue, 's) pull \<Rightarrow> (zvalue, 's mergeOp) pull" where
  "Merge_Pull cmp PullerBatchValues pull done op =
     (case (if mg_once op then Some (Ok (), op) else Merge_start pull cmp (op\<lparr>mg_once := True\<rparr>)) of
        None \<Rightarrow> None
      | Some (Err e, op) \<Rightarrow> Some (Err e, op)
      | Some (Panic, op) \<Rightarrow> Some (Panic, op)
      | Some (Ok _, op) \<Rightarrow>
          if done then eosOf (propagateDone pull cmp op)
          else if length (mg_hol op) = 0 then eosOf (Merge_start pull cmp op)
          else merge_next pull cmp PullerBatchValues op)"

declare merge_fill.simps [code]

section \<open>The ordering of the queue\<close>

definition headCmp :: "(zvalue \<Rightarrow> zvalue \<Rightarrow> int) \<Rightarrow> 's mpuller \<Rightarrow> 's mpuller \<Rightarrow> int" where
  "headCmp cmp p q = (case (mp_vals p, mp_vals q) of (a # _, b # _) \<Rightarrow> cmp a b | _ \<Rightarrow> 0)"

definition hasHead :: "(zvalue \<Rightarrow> bool) \<Rightarrow> 's mpuller \<Rightarrow> bool" where
  "hasHead V p \<longleftrightarrow> (\<exists>v vs. mp_vals p = v # vs \<and> V v)"

lemma Merge_Less_headCmp: "Merge_Less cmp = (\<lambda>p q. headCmp cmp p q < 0)"
  by (auto simp: Merge_Less_def headCmp_def fun_eq_iff split: list.splits)

lemma headCmp_ordering:
  assumes "ordering cmp V"
  shows "ordering (headCmp cmp) (hasHead V)"
proof -
  have "ordering (\<lambda>p q. cmp (hd (mp_vals p)) (hd (mp_vals q))) (hasHead V)"
    by (rule ordering_inv [OF assms]) (auto simp: hasHead_def)
  then show ?thesis by (rule ordering_cong) (auto simp: headCmp_def hasHead_def)
qed

end
