(* ===== verification/MergeLaws.thy ===== *)
theory MergeLaws
  imports Merge SpillLaws
begin

text \<open>
  The operator \<open>merge\<close> delivers the values of its sorted parents in order.
\<close>

section \<open>What the parents hold\<close>

text \<open>
  \<open>R i\<close> are the values that parent \<open>i\<close> has still to deliver before its next end of stream, after
  which it is in the state \<open>E i\<close>.  A parent in the queue has some of them in its batch, and the
  others are in the rest of its stream; a parent that is not in the queue is in \<open>E i\<close>.
\<close>

definition feeds :: "(zvalue, 's) pull \<Rightarrow> 's \<Rightarrow> zvalue list \<Rightarrow> 's \<Rightarrow> bool" where
  "feeds pull s vs s' \<longleftrightarrow> (\<exists>bs. stream pull s bs None s' \<and> (\<forall>b \<in> set bs. bvals b \<noteq> []) \<and> valuesOf bs = vs)"

definition queued :: "(zvalue, 's) pull \<Rightarrow> (nat \<Rightarrow> zvalue list) \<Rightarrow> (nat \<Rightarrow> 's) \<Rightarrow> 's mpuller \<Rightarrow> bool" where
  "queued pull R E p \<longleftrightarrow> \<not> mp_dead p \<and> mp_vals p \<noteq> [] \<and> (\<exists>b pre. mp_batch p = Some b \<and> bvals b = pre @ mp_vals p) \<and>
     (\<exists>vs. R (mp_id p) = mp_vals p @ vs \<and> feeds pull (mp_op p) vs (E (mp_id p)))"

definition idle :: "(nat \<Rightarrow> 's) \<Rightarrow> 's mpuller \<Rightarrow> bool" where
  "idle E p \<longleftrightarrow> \<not> mp_dead p \<and> mp_op p = E (mp_id p)"

definition mergeHolds :: "(zvalue, 's) pull \<Rightarrow> nat \<Rightarrow> (nat \<Rightarrow> zvalue list) \<Rightarrow> (nat \<Rightarrow> 's) \<Rightarrow> 's mergeOp \<Rightarrow> bool" where
  "mergeHolds pull n R E op \<longleftrightarrow> mg_once op \<and> length (mg_parents op) = n \<and> distinct (map mp_id (mg_hol op)) \<and>
     (\<forall>p \<in> set (mg_hol op). mp_id p < n \<and> queued pull R E p) \<and>
     (\<forall>i < n. mp_id (mg_parents op ! i) = i \<and> (i \<notin> mp_id ` set (mg_hol op) \<longrightarrow> R i = [] \<and> idle E (mg_parents op ! i)))"

lemma feeds_cases:
  assumes "feeds pull s vs s'"
  obtains (eos) "pull False s = Some (Ok None, s')" "vs = []"
  | (batch) b s1 ws where "pull False s = Some (Ok (Some b), s1)" "bvals b \<noteq> []" "vs = bvals b @ ws" "feeds pull s1 ws s'"
proof -
  obtain bs where bs: "stream pull s bs None s'" "\<forall>b \<in> set bs. bvals b \<noteq> []" "valuesOf bs = vs"
    using assms unfolding feeds_def by blast
  show thesis
  proof (cases bs)
    case Nil
    then have "pull False s = Some (Ok None, s')" using bs(1) by (auto elim: stream_NilE)
    then show thesis using eos bs(3) Nil by simp
  next
    case (Cons b cs)
    then obtain s1 where "pull False s = Some (Ok (Some b), s1)" "stream pull s1 cs None s'" using bs(1) by (auto elim: stream_ConsE)
    then show thesis using batch [of b s1 "valuesOf cs"] bs(2-3) Cons unfolding feeds_def by auto
  qed
qed

lemma replenish_cases:
  assumes "\<not> mp_dead p" "feeds pull (mp_op p) vs (E (mp_id p))"
  obtains (eos) p' where "replenish pull p = Some (Ok False, p')" "vs = []" "idle E p'" "mp_id p' = mp_id p"
  | (batch) b p' ws where "replenish pull p = Some (Ok True, p')" "vs = mp_vals p' @ ws" "mp_vals p' \<noteq> []" "mp_batch p' = Some b"
      "mp_vals p' = bvals b" "\<not> mp_dead p'" "feeds pull (mp_op p') ws (E (mp_id p))" "mp_id p' = mp_id p"
  using assms(2)
proof (cases rule: feeds_cases)
  case eos
  show thesis
    by (rule that(1) [of "p\<lparr>mp_op := E (mp_id p), mp_batch := None, mp_blocked := True\<rparr>"])
      (use eos assms(1) in \<open>simp_all add: replenish_def Catcher_Pull_def idle_def\<close>)
next
  case (batch b s1 ws)
  show thesis
    by (rule that(2) [of "p\<lparr>mp_op := s1, mp_batch := Some b, mp_vals := bvals b\<rparr>" ws b])
      (use batch assms(1) in \<open>simp_all add: replenish_def Catcher_Pull_def\<close>)
qed

text \<open>Replacing the first parent of the queue, and taking it out of the queue.\<close>

lemma queued_upd: "mp_id p \<noteq> i \<Longrightarrow> queued pull (R(i := vs)) E p = queued pull R E p"
  by (simp add: queued_def)

lemma mergeHolds_put:
  assumes "mergeHolds pull n R E op" "mset (mg_hol op) = add_mset u (mset us)" "mset hol = add_mset p (mset us)"
    and "mp_id p = mp_id u" "queued pull (R(mp_id u := vs)) E p"
  shows "mergeHolds pull n (R(mp_id u := vs)) E (op\<lparr>mg_hol := hol\<rparr>)"
proof -
  have m: "mset (map mp_id hol) = mset (map mp_id (mg_hol op))" using assms(2-4) by simp
  then have ids: "distinct (map mp_id hol)" "mp_id ` set hol = mp_id ` set (mg_hol op)"
    using assms(1) unfolding mergeHolds_def by (metis mset_eq_imp_distinct_iff, metis list.set_map set_mset_mset)
  have sets: "set hol = insert p (set us)" "set (mg_hol op) = insert u (set us)" using assms(2,3) by (metis set_mset_add_mset_insert set_mset_mset)+
  have u: "mp_id u < n" using assms(1) sets(2) unfolding mergeHolds_def by simp
  have other: "mp_id q \<noteq> mp_id u" if "q \<in> set us" for q
  proof -
    have "distinct (map mp_id (u # us))" using assms(1,2) unfolding mergeHolds_def by (metis mset.simps(2) mset_eq_imp_distinct_iff mset_map)
    then have "mp_id u \<notin> mp_id ` set us" by simp
    then show ?thesis using that by (metis imageI)
  qed
  have "mp_id q < n \<and> queued pull (R(mp_id u := vs)) E q" if "q \<in> set hol" for q
    using that sets assms(1,4,5) u other queued_upd [of q "mp_id u" pull R vs E] unfolding mergeHolds_def by auto
  moreover have "mp_id (mg_parents op ! i) = i \<and> (i \<notin> mp_id ` set hol \<longrightarrow> (R(mp_id u := vs)) i = [] \<and> idle E (mg_parents op ! i))" if "i < n" for i
    using that assms(1,4) sets unfolding mergeHolds_def ids(2) by auto
  ultimately show ?thesis using assms(1) ids(1) unfolding mergeHolds_def by simp
qed

lemma mergeHolds_drop:
  assumes "mergeHolds pull n R E op" "mset (mg_hol op) = add_mset u (mset hol)" "mp_id p = mp_id u" "idle E p"
  shows "mergeHolds pull n (R(mp_id u := [])) E (putBack p (op\<lparr>mg_hol := hol\<rparr>))"
proof -
  have d: "distinct (map mp_id (u # hol))" using assms(1,2) unfolding mergeHolds_def by (metis mset.simps(2) mset_eq_imp_distinct_iff mset_map)
  have sets: "set (mg_hol op) = insert u (set hol)" using assms(2) by (metis set_mset_add_mset_insert set_mset_mset)
  have u: "mp_id u < n" using assms(1) sets unfolding mergeHolds_def by simp
  have "mp_id q < n \<and> queued pull (R(mp_id u := [])) E q" if "q \<in> set hol" for q
  proof -
    have "mp_id u \<notin> mp_id ` set hol" using d by simp
    then have "mp_id q \<noteq> mp_id u" using that by (metis imageI)
    then show ?thesis using assms(1) sets that unfolding mergeHolds_def by (simp add: queued_upd)
  qed
  moreover have "mp_id ((mg_parents op)[mp_id p := p] ! i) = i \<and> (i \<notin> mp_id ` set hol \<longrightarrow>
      (R(mp_id u := [])) i = [] \<and> idle E ((mg_parents op)[mp_id p := p] ! i))" if "i < n" for i
    using that assms(1,3,4) sets u unfolding mergeHolds_def by (auto simp: nth_list_update)
  ultimately show ?thesis using assms(1) d unfolding mergeHolds_def putBack_def by simp
qed

section \<open>Emitting the least values\<close>

locale merging = ordering cmp V for cmp :: "zvalue \<Rightarrow> zvalue \<Rightarrow> int" and V
begin

definition sortedParents :: "(nat \<Rightarrow> zvalue list) \<Rightarrow> bool" where
  "sortedParents R \<longleftrightarrow> (\<forall>i. (\<forall>v \<in> set (R i). V v) \<and> sorted_wrt (\<lambda>a b. cmp a b \<le> 0) (R i))"

text \<open>The parents give up \<open>xs\<close>, in order, and none of the values that they keep is below one of these.\<close>

definition handsOut :: "nat \<Rightarrow> (nat \<Rightarrow> zvalue list) \<Rightarrow> zvalue list \<Rightarrow> (nat \<Rightarrow> zvalue list) \<Rightarrow> bool" where
  "handsOut n R xs R' \<longleftrightarrow> mset (remaining n R) = mset xs + mset (remaining n R') \<and> sorted_wrt (\<lambda>a b. cmp a b \<le> 0) xs \<and>
     (\<forall>x \<in> set xs. \<forall>b \<in> set (remaining n R'). cmp x b \<le> 0)"

lemma handsOut_nil: "handsOut n R [] R"
  by (simp add: handsOut_def)

lemma handsOut_trans:
  assumes "handsOut n R xs R'" "handsOut n R' ys R''"
  shows "handsOut n R (xs @ ys) R''"
proof -
  have m: "mset (remaining n R') = mset ys + mset (remaining n R'')" using assms(2) by (simp add: handsOut_def)
  then have "set (remaining n R') = set ys \<union> set (remaining n R'')" by (metis set_mset_mset set_mset_union)
  then show ?thesis using assms m unfolding handsOut_def by (auto simp: sorted_wrt_append ac_simps)
qed

lemma set_remaining: "b \<in> set (remaining n R) \<longleftrightarrow> (\<exists>j < n. b \<in> set (R j))"
  by (auto simp: remaining_def)

lemma sortedParents_rest: "sortedParents R \<Longrightarrow> R i = xs @ ys \<Longrightarrow> sortedParents (R(i := ys))"
proof -
  assume s: "sortedParents R" and i: "R i = xs @ ys"
  have "(\<forall>v \<in> set (R i). V v) \<and> sorted_wrt (\<lambda>a b. cmp a b \<le> 0) (R i)" using s unfolding sortedParents_def by blast
  then have "(\<forall>v \<in> set ys. V v) \<and> sorted_wrt (\<lambda>a b. cmp a b \<le> 0) ys" unfolding i by (simp add: sorted_wrt_append)
  then show ?thesis using s unfolding sortedParents_def by simp
qed

lemma handsOut_front:
  assumes s: "sortedParents R" and i: "i < n" "R i = xs @ ys"
    and others: "\<And>x j b. x \<in> set xs \<Longrightarrow> j < n \<Longrightarrow> j \<noteq> i \<Longrightarrow> b \<in> set (R j) \<Longrightarrow> cmp x b \<le> 0"
  shows "handsOut n R xs (R(i := ys))"
proof -
  have "sorted_wrt (\<lambda>a b. cmp a b \<le> 0) (R i)" using s unfolding sortedParents_def by blast
  then have xs: "sorted_wrt (\<lambda>a b. cmp a b \<le> 0) xs" "\<forall>x \<in> set xs. \<forall>y \<in> set ys. cmp x y \<le> 0" unfolding i(2) by (simp_all add: sorted_wrt_append)
  have "mset (remaining n R) = mset xs + mset (remaining n (R(i := ys)))"
    using remaining_split [OF i(1), of R "xs @ ys"] remaining_split [OF i(1), of R ys] i(2) by (simp add: fun_upd_idem)
  moreover have "cmp x b \<le> 0" if x: "x \<in> set xs" and b: "b \<in> set (remaining n (R(i := ys)))" for x b
  proof -
    obtain j where j: "j < n" "b \<in> set ((R(i := ys)) j)" using b unfolding set_remaining by blast
    show ?thesis
    proof (cases "j = i")
      case True
      then show ?thesis using xs(2) x j(2) by simp
    next
      case False
      then show ?thesis using others [OF x j(1)] j(2) by simp
    qed
  qed
  ultimately show ?thesis using xs(1) unfolding handsOut_def by blast
qed

end

sublocale merging < hol: ordering "headCmp cmp" "hasHead V"
  by (rule headCmp_ordering) (rule ordering_axioms)

context merging
begin

definition ready :: "(zvalue, 's) pull \<Rightarrow> nat \<Rightarrow> (nat \<Rightarrow> zvalue list) \<Rightarrow> (nat \<Rightarrow> 's) \<Rightarrow> 's mergeOp \<Rightarrow> bool" where
  "ready pull n R E op \<longleftrightarrow> mergeHolds pull n R E op \<and> sortedParents R \<and> hol.isHeap (mg_hol op)"

lemma queued_head:
  assumes "queued pull R E p" "sortedParents R" "b \<in> set (R (mp_id p))"
  obtains v vs where "mp_vals p = v # vs" "V v" "cmp v b \<le> 0" "hasHead V p"
proof -
  obtain v vs ws where v: "mp_vals p = v # vs" "R (mp_id p) = v # vs @ ws"
    using assms(1) unfolding queued_def by (cases "mp_vals p") auto
  have "(\<forall>v \<in> set (R (mp_id p)). V v) \<and> sorted_wrt (\<lambda>a b. cmp a b \<le> 0) (R (mp_id p))" using assms(2) unfolding sortedParents_def by blast
  then have "V v" "\<forall>b \<in> set (vs @ ws). cmp v b \<le> 0" unfolding v(2) by auto
  then show thesis using that v assms(3) cmp_refl [of v] by (auto simp: hasHead_def)
qed

lemma queued_hasHead: "queued pull R E p \<Longrightarrow> sortedParents R \<Longrightarrow> hasHead V p"
  by (rule queued_head [of pull R E p "hd (mp_vals p)"]) (auto simp: queued_def)

text \<open>The first value of the root of the queue is least among the values of the parents in the queue.\<close>

lemma hol_below:
  assumes h: "hol.isHeap (w # ws)" and q: "\<forall>p \<in> set (w # ws). queued pull R E p" and s: "sortedParents R"
    and p: "p \<in> set (w # ws)" "b \<in> set (R (mp_id p))"
  shows "cmp (hd (mp_vals w)) b \<le> 0"
proof -
  obtain v vs where v: "mp_vals p = v # vs" "V v" "cmp v b \<le> 0" using queued_head [OF _ s p(2)] q p(1) by metis
  obtain a as where a: "mp_vals w = a # as" "V a" using queued_hasHead [OF _ s, of pull E w] q unfolding hasHead_def by auto
  have "headCmp cmp w p \<le> 0" using hol.heap_least [OF h] p(1) by (metis in_set_conv_nth nth_Cons_0)
  then have "cmp a v \<le> 0" using a(1) v(1) by (simp add: headCmp_def)
  moreover have "V b" using s p(2) unfolding sortedParents_def by blast
  ultimately show ?thesis using cmp_trans [OF a(2) v(2)] v(3) a(1) by simp
qed

text \<open>So what is in front of a parent, and not above the heads of the others, can be taken.\<close>

lemma ready_R: "ready pull n R E op \<Longrightarrow> j < n \<Longrightarrow> b \<in> set (R j) \<Longrightarrow> \<exists>q \<in> set (mg_hol op). mp_id q = j"
  unfolding ready_def mergeHolds_def by (metis empty_iff imageE list.set(1))

lemma ready_queued: "ready pull n R E op \<Longrightarrow> p \<in> set (mg_hol op) \<Longrightarrow> mp_id p < n \<and> queued pull R E p"
  by (simp add: ready_def mergeHolds_def)

lemma queued_no_empty: "\<forall>p \<in> set hol. queued pull R E p \<Longrightarrow> \<not> emptyHead hol"
  by (auto simp: emptyHead_def list_ex_iff queued_def)

lemma ready_put:
  assumes r: "ready pull n R E op" and m: "mset (mg_hol op) = add_mset u (mset us)" "mset hol = add_mset p (mset us)"
    and p: "mp_id p = mp_id u" "queued pull (R(mp_id u := ys)) E p" and R: "R (mp_id u) = xs @ ys" and h: "hol.isHeap hol"
  shows "ready pull n (R(mp_id u := ys)) E (op\<lparr>mg_hol := hol\<rparr>)"
  using mergeHolds_put [OF _ m p] r h sortedParents_rest [of R "mp_id u" xs ys] R unfolding ready_def by simp

lemma ready_drop:
  assumes r: "ready pull n R E op" and m: "mset (mg_hol op) = add_mset u (mset hol)"
    and p: "mp_id p = mp_id u" "idle E p" and h: "hol.isHeap hol"
  shows "ready pull n (R(mp_id u := [])) E (putBack p (op\<lparr>mg_hol := hol\<rparr>))"
  using mergeHolds_drop [OF _ m p] r h sortedParents_rest [of R "mp_id u" "R (mp_id u)" "[]"] unfolding ready_def by (simp add: putBack_def)

lemma Merge_Read_more:
  assumes "mg_hol op = u # us" "mp_vals u = v # vs" "vs \<noteq> []"
  shows "Merge_Read pull cmp op = Some (withHol (Some v) op (holFix cmp (u\<lparr>mp_vals := vs\<rparr> # us)))"
  using assms by (simp add: Merge_Read_def)

lemma Merge_Read_refill:
  assumes "mg_hol op = u # us" "mp_vals u = [v]" "replenish pull (u\<lparr>mp_vals := []\<rparr>) = Some (Ok True, p)"
  shows "Merge_Read pull cmp op = Some (withHol (Some v) op (holFix cmp (p # us)))"
  using assms by (simp add: Merge_Read_def)

lemma Merge_Read_last:
  assumes "mg_hol op = u # us" "mp_vals u = [v]" "replenish pull (u\<lparr>mp_vals := []\<rparr>) = Some (Ok False, p)"
  shows "Merge_Read pull cmp op = Some (Ok (Some v), putBack p (op\<lparr>mg_hol := snd (heap_Pop (Merge_Less cmp) (u # us))\<rparr>))"
  using assms heap_Pop_root [of "Merge_Less cmp" p us u] by (simp add: Merge_Read_def)

lemma ready_fix:
  assumes r: "ready pull n R E op" "mg_hol op = u # us" and p: "mp_id p = mp_id u" "queued pull (R(mp_id u := ys)) E p"
    and R: "R (mp_id u) = xs @ ys"
  shows "\<exists>op'. withHol x op (holFix cmp (p # us)) = (Ok x, op') \<and> ready pull n (R(mp_id u := ys)) E op'"
proof -
  have h: "hol.isHeap (u # us)" and s: "sortedParents R" using r unfolding ready_def by auto
  have "hasHead V p" by (rule queued_hasHead [OF p(2) sortedParents_rest [of R "mp_id u" xs ys, OF s R]])
  note fx = hol.heap_Fix_root [OF h this, folded Merge_Less_headCmp]
  have "queued pull R E q" if "q \<in> set us" for q using ready_queued [OF r(1), of q] r(2) that by simp
  then have "\<not> emptyHead (p # us)" using p(2) by (auto simp: emptyHead_def list_ex_iff queued_def)
  moreover have "ready pull n (R(mp_id u := ys)) E (op\<lparr>mg_hol := heap_Fix (Merge_Less cmp) (p # us) 0\<rparr>)"
    by (rule ready_put [OF r(1) _ fx(2) p R fx(1)]) (simp add: r(2))
  ultimately show ?thesis by (simp add: holFix_def withHol_def)
qed

lemma ready_pop:
  assumes r: "ready pull n R E op" "mg_hol op = u # us"
  obtains hh where "heap_Pop (Merge_Less cmp) (u # us) = (u, hh)" "hol.isHeap hh" "mset (u # us) = add_mset u (mset hh)"
proof -
  have "hol.isHeap (u # us)" using r unfolding ready_def by auto
  then show thesis by (rule hol.heap_Pop_ok) (use that in \<open>auto simp: Merge_Less_headCmp\<close>)
qed

text \<open>The values in front of \<open>u\<close> that are not above the heads of the others.\<close>

lemma ready_handsOut:
  assumes r: "ready pull n R E op" and u: "u \<in> set (mg_hol op)" "R (mp_id u) = xs @ ys"
    and le: "\<And>x q b. x \<in> set xs \<Longrightarrow> q \<in> set (mg_hol op) \<Longrightarrow> mp_id q \<noteq> mp_id u \<Longrightarrow> b \<in> set (R (mp_id q)) \<Longrightarrow> cmp x b \<le> 0"
  shows "handsOut n R xs (R(mp_id u := ys))"
proof (rule handsOut_front)
  show "sortedParents R" using r by (simp add: ready_def)
  show "mp_id u < n" using ready_queued [OF r u(1)] by simp
  show "cmp x b \<le> 0" if a: "x \<in> set xs" "j < n" "j \<noteq> mp_id u" "b \<in> set (R j)" for x j b
  proof -
    obtain q where "q \<in> set (mg_hol op)" "mp_id q = j" using ready_R [OF r a(2,4)] by auto
    then show ?thesis using le [OF a(1)] a(3,4) by blast
  qed
qed (rule u(2))

lemma Merge_Read_step:
  assumes r: "ready pull n R E op" and hol: "mg_hol op = u # us"
  shows "\<exists>v op' R'. Merge_Read pull cmp op = Some (Ok (Some v), op') \<and> ready pull n R' E op' \<and> handsOut n R [v] R'"
proof -
  note qs = ready_queued [OF r, unfolded hol]
  have u: "queued pull R E u" using qs by simp
  have heap: "hol.isHeap (u # us)" and s: "sortedParents R" using r hol unfolding ready_def by auto
  obtain v vs ws where v: "mp_vals u = v # vs" "R (mp_id u) = v # vs @ ws" and f: "\<not> mp_dead u" "feeds pull (mp_op u) ws (E (mp_id u))"
    and b: "\<exists>b pre. mp_batch u = Some b \<and> bvals b = pre @ v # vs"
    using u unfolding queued_def by (cases "mp_vals u") auto
  let ?R = "R(mp_id u := vs @ ws)"
  have below: "cmp v b \<le> 0" if "q \<in> set (u # us)" "b \<in> set (R (mp_id q))" for q b
    using hol_below [OF heap _ s that, of pull E] qs v(1) by simp
  have em: "handsOut n R [v] ?R" by (rule ready_handsOut [OF r]) (use v hol below in auto)
  have R: "R (mp_id u) = [v] @ vs @ ws" using v(2) by simp
  show ?thesis
  proof (cases "vs = []")
    case False
    let ?u = "u\<lparr>mp_vals := vs\<rparr>"
    have q: "queued pull ?R E ?u" using False f b unfolding queued_def by auto
    obtain op' where o: "withHol (Some v) op (holFix cmp (?u # us)) = (Ok (Some v), op')" "ready pull n ?R E op'"
      using ready_fix [OF r hol _ q R, of "Some v"] by auto
    show ?thesis using Merge_Read_more [OF hol v(1) False, of pull, unfolded o(1)] o(2) em by blast
  next
    case True
    let ?u = "u\<lparr>mp_vals := []\<rparr>"
    have v1: "mp_vals u = [v]" using v(1) True by simp
    have "\<not> mp_dead ?u" "feeds pull (mp_op ?u) ws (E (mp_id ?u))" using f by simp_all
    then show ?thesis
    proof (cases rule: replenish_cases)
      case (eos p')
      obtain hh where hh: "heap_Pop (Merge_Less cmp) (u # us) = (u, hh)" "hol.isHeap hh" "mset (u # us) = add_mset u (mset hh)"
        by (rule ready_pop [OF r hol])
      have "ready pull n (R(mp_id u := [])) E (putBack p' (op\<lparr>mg_hol := hh\<rparr>))"
        by (rule ready_drop [OF r _ _ eos(3) hh(2)]) (use hol hh(3) eos(4) in simp_all)
      moreover have "?R = R(mp_id u := [])" using eos(2) True by simp
      moreover have "Merge_Read pull cmp op = Some (Ok (Some v), putBack p' (op\<lparr>mg_hol := hh\<rparr>))"
        using Merge_Read_last [OF hol v1 eos(1)] hh(1) by simp
      ultimately show ?thesis using em by metis
    next
      case (batch b p' ws')
      have q: "queued pull ?R E p'" using batch True unfolding queued_def by auto
      obtain op' where o: "withHol (Some v) op (holFix cmp (p' # us)) = (Ok (Some v), op')" "ready pull n ?R E op'"
        using ready_fix [OF r hol _ q R, of "Some v"] batch(8) by auto
      show ?thesis using Merge_Read_refill [OF hol v1 batch(1), unfolded o(1)] o(2) em by blast
    qed
  qed
qed

text \<open>The parents have values as long as the queue is not empty.\<close>

lemma ready_remaining:
  assumes r: "ready pull n R E op"
  shows "mg_hol op = [] \<longleftrightarrow> remaining n R = []"
proof (cases "mg_hol op")
  case Nil
  then have "b \<notin> set (R j)" if "j < n" for b j using ready_R [OF r that, of b] by auto
  then have "b \<notin> set (remaining n R)" for b unfolding set_remaining by blast
  then have "remaining n R = []" by (metis equals0I set_empty)
  then show ?thesis using Nil by simp
next
  case (Cons u us)
  then have u: "mp_id u < n" "R (mp_id u) \<noteq> []" using ready_queued [OF r, of u] unfolding queued_def by auto
  then have "hd (R (mp_id u)) \<in> set (remaining n R)" unfolding set_remaining by auto
  then show ?thesis using Cons by (cases "remaining n R") auto
qed

lemma merge_fill_ok:
  "ready pull n R E op \<Longrightarrow> pbOK k b \<Longrightarrow> pb_vals b \<noteq> [] \<or> mg_hol op \<noteq> [] \<Longrightarrow>
   \<exists>xs op' R'. merge_fill pull cmp op b = Some (Ok (Some (NewArray (pb_vals b @ xs))), op') \<and> pb_vals b @ xs \<noteq> [] \<and>
     ready pull n R' E op' \<and> handsOut n R xs R'"
proof (induction "length (remaining n R)" arbitrary: R op b)
  case 0
  then have "mg_hol op = []" using ready_remaining [OF 0(2)] by simp
  then have "merge_fill pull cmp op b = Some (Ok (Some (NewArray (pb_vals b))), op)"
    using 0(4) by (simp add: merge_fill.simps [of pull cmp op] Merge_Read_def)
  then show ?case using 0(2,4) \<open>mg_hol op = []\<close> handsOut_nil by (intro exI [of _ "[]"]) auto
next
  case (Suc l)
  then obtain u us where "mg_hol op = u # us" using ready_remaining [OF Suc.prems(1)] by (cases "mg_hol op") auto
  then obtain v op1 R1 where 1: "Merge_Read pull cmp op = Some (Ok (Some v), op1)" "ready pull n R1 E op1" "handsOut n R [v] R1"
    using Merge_Read_step [OF Suc.prems(1)] by blast
  obtain b' full where a: "appendVal b v = (b', full)" by (cases "appendVal b v")
  note vals = appendVal_vals [OF a]
  have step: "merge_fill pull cmp op b = (if full then Some (Ok (Some (NewArray (pb_vals b'))), op1) else merge_fill pull cmp op1 b')"
    using 1(1) a by (simp add: merge_fill.simps [of pull cmp op])
  show ?case
  proof (cases full)
    case True
    then have "merge_fill pull cmp op b = Some (Ok (Some (NewArray (pb_vals b @ [v]))), op1)" using step vals by simp
    then show ?thesis using 1(2,3) by (metis append_is_Nil_conv list.distinct(1))
  next
    case False
    have "mset (remaining n R) = add_mset v (mset (remaining n R1))" using 1(3) by (simp add: handsOut_def)
    then have l: "l = length (remaining n R1)" using Suc.hyps(2) by (metis Suc_inject size_add_mset size_mset)
    obtain xs op' R' where x: "merge_fill pull cmp op1 b' = Some (Ok (Some (NewArray (pb_vals b' @ xs))), op')"
      "ready pull n R' E op'" "handsOut n R1 xs R'"
      using Suc.hyps(1) [OF l 1(2) appendVal_not_full [OF Suc.prems(2)], of v b'] a False vals by auto
    have "merge_fill pull cmp op b = Some (Ok (Some (NewArray (pb_vals b @ v # xs))), op')" using step x(1) vals False by simp
    moreover have "handsOut n R (v # xs) R'" using handsOut_trans [OF 1(3) x(3)] by simp
    ultimately show ?thesis using x(2) by (metis append_is_Nil_conv list.distinct(1))
  qed
qed

lemma ready_push:
  assumes r: "ready pull n R E op" "mset (mg_hol op) = add_mset u (mset hh)" and p: "mp_id p = mp_id u" "queued pull (R(mp_id u := ys)) E p"
    and R: "R (mp_id u) = xs @ ys" and h: "hol.isHeap hh"
  shows "holPush cmp hh p = Ok (heap_Push (Merge_Less cmp) hh p)"
    and "ready pull n (R(mp_id u := ys)) E (op\<lparr>mg_hol := heap_Push (Merge_Less cmp) hh p\<rparr>)"
proof -
  have s: "sortedParents R" using r unfolding ready_def by auto
  have "hasHead V p" by (rule queued_hasHead [OF p(2) sortedParents_rest [of R "mp_id u" xs ys, OF s R]])
  note ps = hol.heap_Push_ok [OF h this, folded Merge_Less_headCmp]
  have "set hh \<subseteq> set (mg_hol op)" using r(2) by (metis set_mset_add_mset_insert set_mset_mset subset_insertI)
  then have "queued pull R E q" if "q \<in> set hh" for q using ready_queued [OF r(1)] that by blast
  then have "\<not> emptyHead (p # hh)" using p(2) by (auto simp: emptyHead_def list_ex_iff queued_def)
  then show "holPush cmp hh p = Ok (heap_Push (Merge_Less cmp) hh p)" by (simp add: holPush_def)
  show "ready pull n (R(mp_id u := ys)) E (op\<lparr>mg_hol := heap_Push (Merge_Less cmp) hh p\<rparr>)"
    by (rule ready_put [OF r(1) r(2) ps(2) p R ps(1)])
qed

lemma sorted_last:
  assumes "sorted_wrt (\<lambda>a b. cmp a b \<le> 0) xs" "x \<in> set xs" "V x"
  shows "cmp x (last xs) \<le> 0"
  using assms by (cases xs rule: rev_cases) (auto simp: sorted_wrt_append cmp_refl)

text \<open>The values of the root can all go when the last one is not above the head of the next parent.\<close>

lemma batch_below:
  assumes r: "ready pull n R E op" "mset (mg_hol op) = add_mset u (mset (w # ws))" and h: "hol.isHeap (w # ws)"
    and le: "cmp (last (mp_vals u)) (hd (mp_vals w)) \<le> 0" and u: "mp_vals u \<noteq> []" "\<forall>v \<in> set (mp_vals u). V v" "sorted_wrt (\<lambda>a b. cmp a b \<le> 0) (mp_vals u)"
    and a: "x \<in> set (mp_vals u)" "q \<in> set (w # ws)" "b \<in> set (R (mp_id q))"
  shows "cmp x b \<le> 0"
proof -
  have s: "sortedParents R" using r(1) by (simp add: ready_def)
  have V3: "V x" "V (last (mp_vals u))" "V b" using u(1,2) a(1,3) s unfolding sortedParents_def by auto
  have "set (w # ws) \<subseteq> set (mg_hol op)" using r(2) by (metis set_mset_add_mset_insert set_mset_mset subset_insertI)
  then have qs: "\<forall>p \<in> set (w # ws). queued pull R E p" using ready_queued [OF r(1)] by blast
  then have "V (hd (mp_vals w))" using queued_hasHead [OF _ s, of pull E w] by (auto simp: hasHead_def)
  then have "cmp (last (mp_vals u)) b \<le> 0" using cmp_trans [OF V3(2) _ V3(3) le] hol_below [OF h qs s a(2,3)] by blast
  then show ?thesis using cmp_trans [OF V3 sorted_last [OF u(3) a(1) V3(1)]] by blast
qed

lemma merge_next_ok:
  assumes r: "ready pull n R E op" and hol: "mg_hol op \<noteq> []" and k: "0 < k"
  shows "\<exists>b op' R'. merge_next pull cmp k op = Some (Ok (Some b), op') \<and> bvals b \<noteq> [] \<and> ready pull n R' E op' \<and> handsOut n R (bvals b) R'"
proof -
  obtain u us where us: "mg_hol op = u # us" using hol by (cases "mg_hol op") auto
  obtain hh where hh: "heap_Pop (Merge_Less cmp) (mg_hol op) = (u, hh)" "hol.isHeap hh" "mset (mg_hol op) = add_mset u (mset hh)"
    using ready_pop [OF r us] us by metis
  have sets: "set (mg_hol op) = insert u (set hh)" using hh(3) by (metis set_mset_add_mset_insert set_mset_mset)
  note qs = ready_queued [OF r]
  obtain b pre ws where u: "mp_vals u \<noteq> []" "mp_batch u = Some b" "bvals b = pre @ mp_vals u" "R (mp_id u) = mp_vals u @ ws"
    "\<not> mp_dead u" "feeds pull (mp_op u) ws (E (mp_id u))" using qs [of u] us unfolding queued_def by auto
  have s: "sortedParents R" using r by (simp add: ready_def)
  show ?thesis
  proof (cases "length hh = 0 \<or> cmp (last (mp_vals u)) (hd (mp_vals (hd hh))) \<le> 0")
    case True
    have batch: "bvals (restBatch u) = mp_vals u" using u(2,3) by (cases pre) (auto simp: restBatch_def)
    have V: "\<forall>v \<in> set (mp_vals u). V v" "sorted_wrt (\<lambda>a b. cmp a b \<le> 0) (mp_vals u)"
      using s u(4) unfolding sortedParents_def by (metis Un_iff set_append, metis sorted_wrt_append)
    have em: "handsOut n R (mp_vals u) (R(mp_id u := ws))"
    proof (rule ready_handsOut [OF r _ u(4)])
      show "u \<in> set (mg_hol op)" using sets by simp
      show "cmp x b \<le> 0" if a: "x \<in> set (mp_vals u)" "q \<in> set (mg_hol op)" "mp_id q \<noteq> mp_id u" "b \<in> set (R (mp_id q))" for x q b
      proof -
        have q: "q \<in> set hh" using a(2,3) sets by auto
        then obtain w ws' where w: "hh = w # ws'" by (cases hh) auto
        show ?thesis by (rule batch_below [OF r hh(3) [unfolded w] hh(2) [unfolded w] _ u(1) V a(1) q [unfolded w] a(4)]) (use True w in simp)
      qed
    qed
    note step = merge_next_def [of pull cmp k op, unfolded hh(1)]
    show ?thesis using u(5,6)
    proof (cases rule: replenish_cases)
      case (eos p)
      have "ready pull n (R(mp_id u := [])) E (putBack p (op\<lparr>mg_hol := hh\<rparr>))" by (rule ready_drop [OF r hh(3) eos(4,3) hh(2)])
      moreover have "merge_next pull cmp k op = Some (Ok (Some (restBatch u)), putBack p (op\<lparr>mg_hol := hh\<rparr>))" using step True eos(1) by simp
      ultimately show ?thesis using em eos(2) batch u(1) by metis
    next
      case (batch b' p ws')
      have "queued pull (R(mp_id u := ws)) E p" using batch unfolding queued_def by auto
      note ps = ready_push [OF r hh(3) batch(8) this u(4) hh(2)]
      have "merge_next pull cmp k op = Some (Ok (Some (restBatch u)), op\<lparr>mg_hol := heap_Push (Merge_Less cmp) hh p\<rparr>)"
        using step True batch(1) ps(1) by (simp add: withHol_def)
      then show ?thesis using ps(2) em \<open>bvals (restBatch u) = mp_vals u\<close> u(1) by metis
    qed
  next
    case False
    let ?op = "op\<lparr>mg_hol := heap_Push (Merge_Less cmp) hh u\<rparr>"
    have "queued pull (R(mp_id u := R (mp_id u))) E u" using qs [of u] sets by simp
    from ready_push [OF r hh(3) refl this _ hh(2), of "[]"] have ps: "ready pull n R E ?op" by simp
    have "mg_hol ?op \<noteq> []" using hol.heap_Push_ok(2) [OF hh(2), of u] queued_hasHead [OF _ s, of pull E u] qs [of u] sets
      by (auto simp: Merge_Less_headCmp)
    then obtain xs op' R' where "merge_fill pull cmp ?op (newPullerBatch k) = Some (Ok (Some (NewArray xs)), op')" "xs \<noteq> []"
      "ready pull n R' E op'" "handsOut n R xs R'"
      using merge_fill_ok [OF ps pbOK_new [OF k]] by (auto simp: newPullerBatch_def)
    moreover have "merge_next pull cmp k op = merge_fill pull cmp ?op (newPullerBatch k)" using hh(1) False by (auto simp: merge_next_def)
    ultimately show ?thesis by (intro exI [of _ "NewArray xs"] exI [of _ op'] exI [of _ R']) simp
  qed
qed

end

end
