(* ===== verification/MergeRounds.thy ===== *)
theory MergeRounds
  imports MergeLaws
begin

text \<open>
  The rounds of \<open>merge\<close>: at the end of a stream the operator starts its parents again, so the parents'
  streams are merged one by one.
\<close>

text \<open>The streams that a puller delivers one after the other, without empty batches.\<close>

fun rounds :: "(zvalue, 's) pull \<Rightarrow> 's \<Rightarrow> zvalue list list \<Rightarrow> bool" where
  "rounds pull s [] = True"
| "rounds pull s (vs # vss) = (\<exists>s'. feeds pull s vs s' \<and> rounds pull s' vss)"

lemma feeds_first: "pull False s = pull False t \<Longrightarrow> feeds pull s vs s' = feeds pull t vs s'"
  by (simp add: feeds_def stream_resume)

lemma rounds_first: "pull False s = pull False t \<Longrightarrow> rounds pull s vss = rounds pull t vss"
  using feeds_first [of pull s t] by (cases vss) simp_all

lemma feeds_end: "pull False s = Some (Ok None, s') \<Longrightarrow> feeds pull s [] s'"
  by (auto simp: feeds_def stream_resume intro!: exI [of _ "[]"])

lemma feeds_batch: "pull False s = Some (Ok (Some b), s1) \<Longrightarrow> bvals b \<noteq> [] \<Longrightarrow> feeds pull s1 vs s' \<Longrightarrow> feeds pull s (bvals b @ vs) s'"
proof -
  assume b: "pull False s = Some (Ok (Some b), s1)" "bvals b \<noteq> []" and f: "feeds pull s1 vs s'"
  obtain bs where "stream pull s1 bs None s'" "\<forall>b \<in> set bs. bvals b \<noteq> []" "valuesOf bs = vs" using f unfolding feeds_def by blast
  then show ?thesis using b unfolding feeds_def by (intro exI [of _ "b # bs"]) (simp add: stream_resume [of pull s])
qed

context merging
begin

section \<open>Starting a round\<close>

lemma mergeHolds_mset:
  assumes "mergeHolds pull n R E op" "mset hol = mset (mg_hol op)"
  shows "mergeHolds pull n R E (op\<lparr>mg_hol := hol\<rparr>)"
proof -
  have "set hol = set (mg_hol op)" "distinct (map mp_id hol)"
    using assms unfolding mergeHolds_def by (metis set_mset_mset, metis mset_eq_imp_distinct_iff mset_map)
  then show ?thesis using assms(1) unfolding mergeHolds_def by simp
qed

text \<open>Parent \<open>i\<close>, which had no values, is pulled into the next round: it ends at once, or it joins the queue.\<close>

lemma mergeHolds_ended:
  assumes "mergeHolds pull n R E op" "i < n" "R i = []" "mp_id p = i" "idle (E(i := e)) p"
  shows "mergeHolds pull n R (E(i := e)) (putBack p op)"
proof -
  have i: "i \<notin> mp_id ` set (mg_hol op)" using assms(1,3) unfolding mergeHolds_def queued_def by auto
  have "mp_id q < n \<and> queued pull R (E(i := e)) q" if "q \<in> set (mg_hol op)" for q
    using assms(1) i that unfolding mergeHolds_def queued_def by auto
  moreover have "mp_id ((mg_parents op)[i := p] ! j) = j \<and> (j \<notin> mp_id ` set (mg_hol op) \<longrightarrow>
      R j = [] \<and> idle (E(i := e)) ((mg_parents op)[i := p] ! j))" if "j < n" for j
    using that assms unfolding mergeHolds_def idle_def by (auto simp: nth_list_update)
  ultimately show ?thesis using assms(1,4) unfolding mergeHolds_def putBack_def by simp
qed

lemma mergeHolds_joined:
  assumes "mergeHolds pull n R E op" "i < n" "R i = []" "mp_id p = i" "queued pull (R(i := vs)) (E(i := e)) p"
    and "mset hol = add_mset p (mset (mg_hol op))"
  shows "mergeHolds pull n (R(i := vs)) (E(i := e)) (op\<lparr>mg_hol := hol\<rparr>)"
proof -
  have i: "i \<notin> mp_id ` set (mg_hol op)" using assms(1,3) unfolding mergeHolds_def queued_def by auto
  have sets: "set hol = insert p (set (mg_hol op))" using assms(6) by (metis set_mset_add_mset_insert set_mset_mset)
  have "mset (map mp_id hol) = mset (map mp_id (p # mg_hol op))" using assms(6) by simp
  moreover have "distinct (map mp_id (p # mg_hol op))" using assms(1,4) i unfolding mergeHolds_def by simp
  ultimately have "distinct (map mp_id hol)" by (metis mset_eq_imp_distinct_iff)
  moreover have "mp_id q < n \<and> queued pull (R(i := vs)) (E(i := e)) q" if "q \<in> set hol" for q
    using assms(1,2,4,5) i that sets unfolding mergeHolds_def queued_def by auto
  moreover have "mp_id (mg_parents op ! j) = j \<and> (j \<notin> mp_id ` set hol \<longrightarrow>
      (R(i := vs)) j = [] \<and> idle (E(i := e)) (mg_parents op ! j))" if "j < n" for j
    using that assms(1,4) sets unfolding mergeHolds_def idle_def by auto
  ultimately show ?thesis using assms(1) unfolding mergeHolds_def by simp
qed

text \<open>The parents below \<open>i\<close> are in the new round, the others at the end of the last one.\<close>

definition uptoR :: "nat \<Rightarrow> (nat \<Rightarrow> zvalue list) \<Rightarrow> nat \<Rightarrow> zvalue list" where
  "uptoR i R j = (if j < i then R j else [])"

definition uptoE :: "nat \<Rightarrow> (nat \<Rightarrow> 's) \<Rightarrow> (nat \<Rightarrow> 's) \<Rightarrow> nat \<Rightarrow> 's" where
  "uptoE i E' E j = (if j < i then E' j else E j)"

lemma upto_Suc: "(uptoR i R)(i := R i) = uptoR (Suc i) R" "(uptoE i E' E)(i := E' i) = uptoE (Suc i) E' E"
  by (auto simp: uptoR_def uptoE_def fun_eq_iff less_Suc_eq)

lemma uptoR_sorted: "sortedParents R \<Longrightarrow> sortedParents (uptoR i R)"
  by (auto simp: sortedParents_def uptoR_def)

lemma start_loop_ok:
  assumes s: "sortedParents R" and f: "\<forall>j < n. feeds pull (E j) (R j) (E' j)"
  shows "ready pull n (uptoR i R) (uptoE i E' E) op \<Longrightarrow> ps = drop i (mg_parents op) \<Longrightarrow> i \<le> n \<Longrightarrow>
    \<exists>op'. start_loop pull cmp ps op = Some (Ok (), op') \<and> ready pull n (uptoR n R) (uptoE n E' E) op'"
proof (induction ps arbitrary: i op)
  case Nil
  have i: "i = n" using Nil unfolding ready_def mergeHolds_def by auto
  have "hol.allV (mg_hol op)" using Nil(1) by (simp add: ready_def)
  then have h: "hol.isHeap (heap_Init (Merge_Less cmp) (mg_hol op))" "mset (heap_Init (Merge_Less cmp) (mg_hol op)) = mset (mg_hol op)"
    using hol.heap_Init_ok unfolding Merge_Less_headCmp by auto
  then show ?case using mergeHolds_mset [OF _ h(2)] Nil(1) i unfolding ready_def by simp
next
  case (Cons p ps)
  note r = Cons.prems(1)
  have len: "length (mg_parents op) = n" using r unfolding ready_def mergeHolds_def by simp
  then have i: "i < n" using Cons.prems(2) by (metis drop_all list.distinct(1) not_le)
  have p: "p = mg_parents op ! i" "ps = drop (Suc i) (mg_parents op)"
    using Cons.prems(2) i len by (metis Cons_nth_drop_Suc list.inject)+
  have Ri: "uptoR i R i = []" by (simp add: uptoR_def)
  have "i \<notin> mp_id ` set (mg_hol op)" using r Ri unfolding ready_def mergeHolds_def queued_def by auto
  then have idle: "\<not> mp_dead p" "mp_op p = E i" "mp_id p = i"
    using r i p(1) unfolding ready_def mergeHolds_def idle_def uptoE_def by auto
  let ?p = "p\<lparr>mp_blocked := False\<rparr>" and ?R = "uptoR (Suc i) R" and ?E = "uptoE (Suc i) E' E"
  have holds: "mergeHolds pull n (uptoR i R) (uptoE i E' E) op" "hol.isHeap (mg_hol op)" using r by (auto simp: ready_def)
  have "\<not> mp_dead ?p" "feeds pull (mp_op ?p) (R i) (?E (mp_id ?p))" using idle f i by (simp_all add: uptoE_def)
  then show ?case
  proof (cases rule: replenish_cases)
    case (eos p')
    have "mergeHolds pull n (uptoR i R) ((uptoE i E' E)(i := E' i)) (putBack p' op)"
      by (rule mergeHolds_ended [OF holds(1) i Ri]) (use eos idle in \<open>auto simp: upto_Suc\<close>)
    moreover have "uptoR i R = ?R" using upto_Suc(1) [of i R] eos(2) Ri by (metis fun_upd_triv)
    ultimately have "ready pull n ?R ?E (putBack p' op)" using holds(2) uptoR_sorted [OF s] by (simp add: ready_def upto_Suc putBack_def)
    moreover have "ps = drop (Suc i) (mg_parents (putBack p' op))" using p(2) eos(4) idle(3) by (simp add: putBack_def)
    ultimately show ?thesis using Cons.IH [of "Suc i" "putBack p' op"] eos(1) i by simp
  next
    case (batch b p' ws)
    have q: "queued pull ?R ?E p'" using batch idle(3) unfolding queued_def by (auto simp: uptoR_def uptoE_def)
    have "hasHead V p'" by (rule queued_hasHead [OF q uptoR_sorted [OF s]])
    note ps = hol.heap_Push_ok [OF holds(2) this, folded Merge_Less_headCmp]
    let ?op = "op\<lparr>mg_hol := heap_Push (Merge_Less cmp) (mg_hol op) p'\<rparr>"
    have "mergeHolds pull n ((uptoR i R)(i := R i)) ((uptoE i E' E)(i := E' i)) ?op"
      by (rule mergeHolds_joined [OF holds(1) i Ri _ _ ps(2)]) (use batch(8) idle(3) q in \<open>simp_all add: upto_Suc\<close>)
    then have "ready pull n ?R ?E ?op" using ps(1) uptoR_sorted [OF s] by (simp add: ready_def upto_Suc)
    moreover have "holPush cmp (mg_hol op) p' = Ok (heap_Push (Merge_Less cmp) (mg_hol op) p')"
      using holds(1) q unfolding holPush_def emptyHead_def list_ex_iff mergeHolds_def queued_def by auto
    ultimately show ?thesis using Cons.IH [of "Suc i" ?op] batch(1) p(2) i by simp
  qed
qed

lemma Merge_start_ok:
  assumes h: "mergeHolds pull n (\<lambda>j. []) E (op\<lparr>mg_hol := []\<rparr>)" and s: "sortedParents R" and f: "\<forall>j < n. feeds pull (E j) (R j) (E' j)"
  shows "\<exists>op' E''. Merge_start pull cmp op = Some (Ok (), op') \<and> ready pull n (uptoR n R) E'' op' \<and> (\<forall>j < n. E'' j = E' j)"
proof -
  have "uptoR 0 R = (\<lambda>j. [])" "uptoE 0 E' E = E" by (auto simp: uptoR_def uptoE_def)
  then have "ready pull n (uptoR 0 R) (uptoE 0 E' E) (op\<lparr>mg_hol := []\<rparr>)"
    using h by (simp add: ready_def sortedParents_def hol.heapFrom_def hol.allV_def)
  then obtain op' where "Merge_start pull cmp op = Some (Ok (), op')" "ready pull n (uptoR n R) (uptoE n E' E) op'"
    using start_loop_ok [OF s f, of 0 "op\<lparr>mg_hol := []\<rparr>" "mg_parents op"] by (auto simp: Merge_start_def)
  then show ?thesis by (intro exI [of _ op'] exI [of _ "uptoE n E' E"]) (simp add: uptoE_def)
qed

section \<open>Rounds\<close>

text \<open>Pulled from a started round, the operator delivers its values in order and starts the next round.\<close>

lemma merge_round:
  assumes k: "0 < k" and s: "sortedParents R2" and f: "\<forall>j < n. feeds pull (E j) (R2 j) (E2 j)"
  shows "ready pull n R E op \<Longrightarrow> \<exists>vs op' E'. feeds (Merge_Pull cmp k pull) op vs op' \<and> ready pull n (uptoR n R2) E' op' \<and> (\<forall>j < n. E' j = E2 j) \<and>
     sorted_wrt (\<lambda>a b. cmp a b \<le> 0) vs \<and> mset vs = mset (remaining n R)"
proof (induction "length (remaining n R)" arbitrary: R op rule: less_induct)
  case less
  have once: "mg_once op" using less.prems by (simp add: ready_def mergeHolds_def)
  show ?case
  proof (cases "mg_hol op")
    case Nil
    have e: "remaining n R = []" using ready_remaining [OF less.prems] Nil by simp
    have "op\<lparr>mg_hol := []\<rparr> = op" using Nil by simp
    moreover have "mergeHolds pull n (\<lambda>j. []) E op" using less.prems Nil unfolding ready_def mergeHolds_def by simp
    ultimately obtain op' E' where "Merge_start pull cmp op = Some (Ok (), op')" "ready pull n (uptoR n R2) E' op'" "\<forall>j < n. E' j = E2 j"
      using Merge_start_ok [OF _ s f, of op] by auto
    moreover from this(1) have "Merge_Pull cmp k pull False op = Some (Ok None, op')" using Nil once by (simp add: Merge_Pull_def eosOf_def)
    ultimately show ?thesis using feeds_end e by (intro exI [of _ "[]"]) force
  next
    case (Cons u us)
    then have "mg_hol op \<noteq> []" by simp
    then obtain b op1 R1 where 1: "merge_next pull cmp k op = Some (Ok (Some b), op1)" "bvals b \<noteq> []" "ready pull n R1 E op1" "handsOut n R (bvals b) R1"
      using merge_next_ok [OF less.prems _ k] by blast
    have m: "mset (remaining n R) = mset (bvals b) + mset (remaining n R1)" using 1(4) by (simp add: handsOut_def)
    then have "length (remaining n R) = length (bvals b) + length (remaining n R1)" by (metis size_mset size_union)
    then obtain vs op' E' where 2: "feeds (Merge_Pull cmp k pull) op1 vs op'" "ready pull n (uptoR n R2) E' op'" "\<forall>j < n. E' j = E2 j"
      "sorted_wrt (\<lambda>a b. cmp a b \<le> 0) vs" "mset vs = mset (remaining n R1)"
      using less.hyps [OF _ 1(3)] 1(2) by auto
    have "Merge_Pull cmp k pull False op = Some (Ok (Some b), op1)" using 1(1) Cons once by (simp add: Merge_Pull_def)
    then have "feeds (Merge_Pull cmp k pull) op (bvals b @ vs) op'" by (rule feeds_batch [OF _ 1(2) 2(1)])
    moreover have "set vs = set (remaining n R1)" using 2(5) by (metis set_mset_mset)
    moreover have "sorted_wrt (\<lambda>a b. cmp a b \<le> 0) (bvals b @ vs)" using 1(4) 2(4) calculation(2) by (auto simp: handsOut_def sorted_wrt_append)
    ultimately show ?thesis using 2(2,3,5) m by (intro exI [of _ "bvals b @ vs"] exI [of _ op'] exI [of _ E']) simp
  qed
qed

lemma uptoR_id: "(\<And>j. n \<le> j \<Longrightarrow> R j = []) \<Longrightarrow> uptoR n R = R"
  by (auto simp: uptoR_def fun_eq_iff)

text \<open>The operator is one round ahead: the parents have one more round than it delivers.\<close>

lemma merge_rounds:
  assumes k: "0 < k"
  shows "ready pull n (Rs 0) E op \<Longrightarrow> \<forall>r. sortedParents (Rs r) \<Longrightarrow> \<forall>r j. n \<le> j \<longrightarrow> Rs r j = [] \<Longrightarrow>
    \<forall>j < n. rounds pull (E j) (map (\<lambda>r. Rs (Suc r) j) [0..<m]) \<Longrightarrow>
    \<exists>outs. length outs = m \<and> rounds (Merge_Pull cmp k pull) op outs \<and>
      (\<forall>r < m. sorted_wrt (\<lambda>a b. cmp a b \<le> 0) (outs ! r) \<and> mset (outs ! r) = mset (remaining n (Rs r)))"
proof (induction m arbitrary: Rs E op)
  case (Suc m)
  let ?Rs = "\<lambda>r. Rs (Suc r)"
  have "map (\<lambda>r. Rs (Suc r) j) [0..<Suc m] = Rs 1 j # map (\<lambda>r. ?Rs (Suc r) j) [0..<m]" for j
    by (simp add: map_upt_Suc del: upt_Suc)
  then have "\<forall>j < n. \<exists>s'. feeds pull (E j) (Rs 1 j) s' \<and> rounds pull s' (map (\<lambda>r. ?Rs (Suc r) j) [0..<m])"
    using Suc.prems(4) by (metis rounds.simps(2))
  then obtain E2 where E2: "\<forall>j < n. feeds pull (E j) (Rs 1 j) (E2 j) \<and> rounds pull (E2 j) (map (\<lambda>r. ?Rs (Suc r) j) [0..<m])"
    by metis
  obtain vs op' E' where 1: "feeds (Merge_Pull cmp k pull) op vs op'" "ready pull n (uptoR n (Rs 1)) E' op'" "\<forall>j < n. E' j = E2 j"
     "sorted_wrt (\<lambda>a b. cmp a b \<le> 0) vs" "mset vs = mset (remaining n (Rs 0))"
    using merge_round [OF k _ _ Suc.prems(1), of "Rs 1" E2] Suc.prems(2) E2 by blast
  have "uptoR n (Rs 1) = ?Rs 0" using Suc.prems(3) by (simp add: uptoR_id)
  then obtain outs where 2: "length outs = m" "rounds (Merge_Pull cmp k pull) op' outs"
     "\<forall>r < m. sorted_wrt (\<lambda>a b. cmp a b \<le> 0) (outs ! r) \<and> mset (outs ! r) = mset (remaining n (?Rs r))"
    using Suc.IH [of ?Rs E' op'] 1(2,3) Suc.prems(2,3) E2 by auto
  have "\<forall>r < Suc m. sorted_wrt (\<lambda>a b. cmp a b \<le> 0) ((vs # outs) ! r) \<and> mset ((vs # outs) ! r) = mset (remaining n (Rs r))"
    using 1(4,5) 2(3) by (simp add: All_less_Suc2)
  then show ?case using 1(1) 2(1,2) by (intro exI [of _ "vs # outs"]) auto
qed simp

lemma NewMerge_rounds:
  assumes k: "0 < k" and s: "\<forall>r. sortedParents (Rs r)" "\<forall>r j. length parents \<le> j \<longrightarrow> Rs r j = []"
    and p: "\<forall>j < length parents. rounds pull (parents ! j) (map (\<lambda>r. Rs r j) [0..<Suc m])"
  shows "\<exists>outs. length outs = m \<and> rounds (Merge_Pull cmp k pull) (NewMerge parents) outs \<and>
      (\<forall>r < m. sorted_wrt (\<lambda>a b. cmp a b \<le> 0) (outs ! r) \<and> mset (outs ! r) = mset (remaining (length parents) (Rs r)))"
proof -
  let ?n = "length parents" and ?op = "(NewMerge parents)\<lparr>mg_once := True\<rparr>" and ?S = "\<lambda>j. parents ! j"
  have "map (\<lambda>r. Rs r j) [0..<Suc m] = Rs 0 j # map (\<lambda>r. Rs (Suc r) j) [0..<m]" for j
    by (simp add: map_upt_Suc del: upt_Suc)
  then have "\<forall>j < ?n. \<exists>s'. feeds pull (?S j) (Rs 0 j) s' \<and> rounds pull s' (map (\<lambda>r. Rs (Suc r) j) [0..<m])"
    using p by (metis rounds.simps(2))
  then obtain E where E: "\<forall>j < ?n. feeds pull (?S j) (Rs 0 j) (E j) \<and> rounds pull (E j) (map (\<lambda>r. Rs (Suc r) j) [0..<m])"
    by metis
  have "mergeHolds pull ?n (\<lambda>j. []) ?S (?op\<lparr>mg_hol := []\<rparr>)" by (simp add: mergeHolds_def NewMerge_def newMPuller_def idle_def)
  then obtain op' E' where 1: "Merge_start pull cmp ?op = Some (Ok (), op')" "ready pull ?n (uptoR ?n (Rs 0)) E' op'" "\<forall>j < ?n. E' j = E j"
    using Merge_start_ok [OF _ spec [OF s(1)], of pull ?n ?S ?op 0 E] E by blast
  have once: "mg_once op'" using 1(2) by (simp add: ready_def mergeHolds_def)
  have "Merge_Pull cmp k pull False (NewMerge parents) = Merge_Pull cmp k pull False op'"
    using 1(1) once by (simp add: Merge_Pull_def NewMerge_def)
  then have same: "rounds (Merge_Pull cmp k pull) (NewMerge parents) vss = rounds (Merge_Pull cmp k pull) op' vss" for vss
    by (rule rounds_first)
  have "ready pull ?n (Rs 0) E' op'" using 1(2) s(2) by (simp add: uptoR_id)
  moreover have "\<forall>j < ?n. rounds pull (E' j) (map (\<lambda>r. Rs (Suc r) j) [0..<m])" using 1(3) E by simp
  ultimately show ?thesis unfolding same using merge_rounds [where Rs = Rs, OF k _ s] by blast
qed

end

end
