(* ===== verification/MergeProps.thy ===== *)
theory MergeProps
  imports MergeRounds SortProps
begin

text \<open>The properties of the operator \<open>merge\<close>.\<close>

interpretation mg: merging "\<lambda>a b. okInt (Comparator_Compare fl c a b)" "simpleKeys c"
  unfolding merging_def by (rule cc.ordering_axioms)

text \<open>C13: over parents that deliver sorted streams without empty batches, \<open>merge\<close> delivers, stream by
  stream, the values of the parents' streams in order, and none is lost: the parents' first streams
  are merged before their second ones.  The operator is one stream ahead of what it delivers.\<close>

theorem merge_delivers_sorted:
  assumes "\<forall>j < length parents. rounds pull (parents ! j) (map (vs j) [0..<Suc m])" "0 < PullerBatchValues"
    and "\<forall>j < length parents. \<forall>r \<le> m. (\<forall>v \<in> set (vs j r). simpleKeys c v) \<and> sorted_wrt (\<lambda>a b. okInt (Comparator_Compare fl c a b) \<le> 0) (vs j r)"
  shows "\<exists>outs. length outs = m \<and>
     rounds (Merge_Pull (\<lambda>a b. okInt (Comparator_Compare fl c a b)) PullerBatchValues pull) (NewMerge parents) outs \<and>
     (\<forall>r < m. sorted_wrt (\<lambda>a b. okInt (Comparator_Compare fl c a b) \<le> 0) (outs ! r) \<and>
        mset (outs ! r) = mset (concat (map (\<lambda>j. vs j r) [0..<length parents])))"
proof -
  define Rs where "Rs r j = (if j < length parents \<and> r \<le> m then vs j r else [])" for r j
  have "\<forall>r. mg.sortedParents fl c (Rs r)" unfolding mg.sortedParents_def Rs_def using assms(3) by auto
  moreover have "\<forall>j < length parents. rounds pull (parents ! j) (map (\<lambda>r. Rs r j) [0..<Suc m])"
  proof (intro allI impI)
    fix j assume j: "j < length parents"
    have "map (\<lambda>r. Rs r j) [0..<Suc m] = map (vs j) [0..<Suc m]" by (rule map_cong) (use j in \<open>auto simp: Rs_def\<close>)
    then show "rounds pull (parents ! j) (map (\<lambda>r. Rs r j) [0..<Suc m])" using assms(1) j by metis
  qed
  moreover have "remaining (length parents) (Rs r) = concat (map (\<lambda>j. vs j r) [0..<length parents])" if "r < m" for r
    unfolding remaining_def by (rule arg_cong [of _ _ concat], rule map_cong) (use that in \<open>auto simp: Rs_def\<close>)
  moreover have "\<forall>r j. length parents \<le> j \<longrightarrow> Rs r j = []" by (simp add: Rs_def)
  ultimately show ?thesis using mg.NewMerge_rounds [OF assms(2), of fl c Rs parents pull m] by (simp del: upt_Suc)
qed

text \<open>A source that delivers streams one after the other; a done drops what is left of the current one.\<close>

fun scoped :: "(zvalue, zvalue batch list list) pull" where
  "scoped done [] = Some (Ok None, [])"
| "scoped done (bs # rest) = (case bs of b # bs' \<Rightarrow> if done then Some (Ok None, rest) else Some (Ok (Some b), bs' # rest) | [] \<Rightarrow> Some (Ok None, rest))"

lemma scoped_stream: "stream scoped (bs # rest) bs None rest"
  by (induction bs) (simp_all add: stream_resume)

lemma scoped_feeds: "\<forall>b \<in> set bs. bvals b \<noteq> [] \<Longrightarrow> feeds scoped (bs # rest) (valuesOf bs) rest"
  unfolding feeds_def using scoped_stream by blast

lemma scoped_end: "feeds scoped [] [] []"
  by (rule feeds_end) simp

definition oneValue :: "nat \<Rightarrow> zvalue batch list" where
  "oneValue i = [NewArray [sampleVals ! i]]"

lemma oneValue_feeds: "feeds scoped (oneValue i # rest) [sampleVals ! i] rest"
  using scoped_feeds [of "oneValue i" rest] by (simp add: oneValue_def)

theorem merge_delivers_sorted_witness:
  "\<exists>outs. length outs = 1 \<and>
     rounds (Merge_Pull (\<lambda>a b. okInt (Comparator_Compare (\<lambda>a b. Panic) byThis a b)) 100 scoped)
       (NewMerge [[oneValue 1, oneValue 0], [oneValue 0, oneValue 1]]) outs \<and>
     (\<forall>r < 1. sorted_wrt (\<lambda>a b. okInt (Comparator_Compare (\<lambda>a b. Panic) byThis a b) \<le> 0) (outs ! r) \<and>
        mset (outs ! r) = mset (concat (map (\<lambda>j. [sampleVals ! (if j = r then 1 else 0)])
          [0..<length [[oneValue 1, oneValue 0], [oneValue 0, oneValue 1]]])))"
proof (rule merge_delivers_sorted, intro allI impI)
  fix j :: nat assume "j < length [[oneValue 1, oneValue 0], [oneValue 0, oneValue 1]]"
  then have "j = 0 \<or> j = 1" by auto
  then show "rounds scoped ([[oneValue 1, oneValue 0], [oneValue 0, oneValue 1]] ! j) (map (\<lambda>r. [sampleVals ! (if j = r then 1 else 0)]) [0..<Suc 1])"
    using oneValue_feeds by auto
next
  have "\<forall>v \<in> set sampleVals. simpleKeys byThis v" using sample_keys by (auto simp: stableKeys_def)
  then show "\<forall>j < length [[oneValue 1, oneValue 0], [oneValue 0, oneValue 1]]. \<forall>r \<le> 1.
      (\<forall>v \<in> set [sampleVals ! (if j = r then 1 else 0)]. simpleKeys byThis v) \<and>
      sorted_wrt (\<lambda>a b. okInt (Comparator_Compare (\<lambda>a b. Panic) byThis a b) \<le> 0) [sampleVals ! (if j = r then 1 else 0)]"
    by (simp add: sampleVals_def)
qed simp

text \<open>A done that reaches a parent whose pending result is the end of its stream is passed on to the
  parent's next stream, which is lost: here the parent has one batch, the first call of \<open>merge\<close> is a
  done, and what \<open>merge\<close> then delivers is not the stream that starts in \<open>s2\<close> but the one after it.\<close>

theorem merge_done_skips_stream:
  assumes "pull False s = Some (Ok (Some b), s1)" "pull False s1 = Some (Ok None, s2)" "pull True s2 = Some (Ok None, s3)"
    and "feeds pull s3 vs s4" "feeds pull s4 ws s5" "0 < PullerBatchValues"
    and "\<forall>v \<in> set vs \<union> set ws. simpleKeys c v" "sorted_wrt (\<lambda>a b. okInt (Comparator_Compare fl c a b) \<le> 0) vs"
    and "sorted_wrt (\<lambda>a b. okInt (Comparator_Compare fl c a b) \<le> 0) ws"
  shows "\<exists>op1 vs' op2. Merge_Pull (\<lambda>a b. okInt (Comparator_Compare fl c a b)) PullerBatchValues pull True (NewMerge [s]) = Some (Ok None, op1) \<and>
    feeds (Merge_Pull (\<lambda>a b. okInt (Comparator_Compare fl c a b)) PullerBatchValues pull) op1 vs' op2 \<and> mset vs' = mset vs"
proof -
  let ?cmp = "\<lambda>a b. okInt (Comparator_Compare fl c a b)"
  let ?p = "(newMPuller 0 s)\<lparr>mp_op := s1, mp_batch := Some b, mp_vals := bvals b\<rparr>"
  let ?op = "\<lparr>mg_once = True, mg_parents = [newMPuller 0 s], mg_hol = [?p]\<rparr>"
  have start: "Merge_start pull ?cmp ((NewMerge [s])\<lparr>mg_once := True\<rparr>) = Some (Ok (), ?op)"
    using assms(1) by (simp add: Merge_start_def NewMerge_def replenish_def Catcher_Pull_def newMPuller_def holPush_def emptyHead_def
        heap_Push_def heap_Init_def heap_up.simps)
  let ?q = "?p\<lparr>mp_op := s3, mp_batch := None\<rparr>"
  let ?op' = "\<lparr>mg_once = True, mg_parents = [?q], mg_hol = []\<rparr>"
  have don: "done_loop pull (rev (mg_hol ?op)) (?op\<lparr>mg_hol := []\<rparr>) = Some (Ok (), ?op')"
    using assms(2,3) by (simp add: mpuller_done_def Catcher_Pull_def newMPuller_def putBack_def)
  define R1 R2 where "R1 j = (if j = 0 then vs else [])" and "R2 j = (if j = 0 then ws else [])" for j :: nat
  have s: "mg.sortedParents fl c R1" "mg.sortedParents fl c R2"
    unfolding mg.sortedParents_def R1_def R2_def using assms(7-9) by auto
  have "mergeHolds pull 1 (\<lambda>j. []) (\<lambda>j. s3) (?op'\<lparr>mg_hol := []\<rparr>)" by (simp add: mergeHolds_def idle_def newMPuller_def)
  from mg.Merge_start_ok [OF this s(1), of "\<lambda>j. s4"] obtain op1 E where 1: "Merge_start pull ?cmp ?op' = Some (Ok (), op1)"
    "mg.ready fl c pull 1 (mg.uptoR 1 R1) E op1" "E 0 = s4" using assms(4) by (auto simp: R1_def)
  have up: "mg.uptoR 1 R1 = R1" by (rule mg.uptoR_id) (simp add: R1_def)
  obtain vs' op2 where 2: "feeds (Merge_Pull ?cmp PullerBatchValues pull) op1 vs' op2" "mset vs' = mset (remaining 1 R1)"
    using mg.merge_round [OF assms(6) s(2), of 1 pull E "\<lambda>j. s5" R1 op1] 1(2,3) assms(5) up by (auto simp: R2_def)
  have "Merge_Pull ?cmp PullerBatchValues pull True (NewMerge [s]) = Some (Ok None, op1)"
    using start don 1(1) by (simp add: Merge_Pull_def NewMerge_def propagateDone_def eosOf_def)
  then show ?thesis using 2 by (auto simp: remaining_def R1_def)
qed

theorem merge_done_skips_stream_witness:
  "\<exists>op1 vs' op2. Merge_Pull (\<lambda>a b. okInt (Comparator_Compare (\<lambda>a b. Panic) byThis a b)) 100 scoped True
      (NewMerge [[oneValue 0, oneValue 1, oneValue 0]]) = Some (Ok None, op1) \<and>
    feeds (Merge_Pull (\<lambda>a b. okInt (Comparator_Compare (\<lambda>a b. Panic) byThis a b)) 100 scoped) op1 vs' op2 \<and> mset vs' = mset [sampleVals ! 0]"
proof -
  have k: "simpleKeys byThis (sampleVals ! 0)" using sample_keys by (auto simp: stableKeys_def sampleVals_def)
  show ?thesis
    by (rule merge_done_skips_stream [OF _ _ _ oneValue_feeds scoped_end, where ?s1.0 = "[[], oneValue 1, oneValue 0]" and ?s2.0 = "[oneValue 1, oneValue 0]"])
      (use k in \<open>simp_all add: oneValue_def\<close>)
qed

end
