(* ===== verification/Walk.thy ===== *)
theory Walk
  imports Compare
begin

text \<open>
  Walking over a value (\<open>walk.go\<close>), the check of its structure (\<open>Value.Validate\<close>) and the accessors of
  \<open>value.go\<close> that take a value apart.  A visitor is a function with a state; \<open>Walk\<close> returns because types are
  finite and every item that is read shortens the body.
\<close>

section \<open>Walk\<close>

datatype visited = VisitNil | SkipContainer | VisitErr goerror | VisitPanic

type_synonym 's visitor = "ztype \<Rightarrow> zbytes \<Rightarrow> 's \<Rightarrow> visited \<times> 's"
type_synonym 's walked = "unit go \<times> 's"

definition thenWalk :: "'s walked \<Rightarrow> ('s \<Rightarrow> 's walked) \<Rightarrow> 's walked" where
  "thenWalk r k = (case r of (Ok _, s) \<Rightarrow> k s | r \<Rightarrow> r)"

fun walkFields :: "(zbytes \<Rightarrow> 's \<Rightarrow> 's walked) list \<Rightarrow> bytes \<Rightarrow> 's \<Rightarrow> 's walked" where
  "walkFields [] it s = (Ok (), s)"
| "walkFields (w # ws) it s =
     (if Iter_Done it then (Err (Errorf ''record missing a field''), s)
      else case Iter_Next it of
             Ok (b, it') \<Rightarrow> thenWalk (w b s) (walkFields ws it')
           | Err e \<Rightarrow> (Err e, s)
           | Panic \<Rightarrow> (Panic, s))"

definition walkRecord :: "(zbytes \<Rightarrow> 's \<Rightarrow> 's walked) list \<Rightarrow> zbytes \<Rightarrow> 's \<Rightarrow> 's walked" where
  "walkRecord ws body s = (case body of None \<Rightarrow> (Ok (), s) | Some it \<Rightarrow> walkFields ws it s)"

text \<open>The loop of \<open>walkArray\<close> and \<open>walkSet\<close>.\<close>

function walkElems :: "(zbytes \<Rightarrow> 's \<Rightarrow> 's walked) \<Rightarrow> bytes \<Rightarrow> 's \<Rightarrow> 's walked" where
  "walkElems w it s =
     (if Iter_Done it then (Ok (), s)
      else case Iter_Next it of
             Ok (b, it') \<Rightarrow> thenWalk (w b s) (walkElems w it')
           | Err e \<Rightarrow> (Err e, s)
           | Panic \<Rightarrow> (Panic, s))"
  by pat_completeness auto
termination
  by (relation "measure (\<lambda>(_, it, _). length it)") (auto dest: Iter_Next_shorter)

definition walkArray :: "(zbytes \<Rightarrow> 's \<Rightarrow> 's walked) \<Rightarrow> zbytes \<Rightarrow> 's \<Rightarrow> 's walked" where
  "walkArray w body s = (case body of None \<Rightarrow> (Ok (), s) | Some it \<Rightarrow> walkElems w it s)"

text \<open>The loop of \<open>walkMap\<close>: a key without a value panics.\<close>

function walkEntries :: "(zbytes \<Rightarrow> 's \<Rightarrow> 's walked) \<Rightarrow> (zbytes \<Rightarrow> 's \<Rightarrow> 's walked) \<Rightarrow> bytes \<Rightarrow> 's \<Rightarrow> 's walked" where
  "walkEntries wk wv it s =
     (if Iter_Done it then (Ok (), s)
      else case Iter_Next it of
             Ok (k, it') \<Rightarrow>
               thenWalk (wk k s) (\<lambda>s.
                 case Iter_Next it' of
                   Ok (v, it'') \<Rightarrow> thenWalk (wv v s) (walkEntries wk wv it'')
                 | Err e \<Rightarrow> (Err e, s)
                 | Panic \<Rightarrow> (Panic, s))
           | Err e \<Rightarrow> (Err e, s)
           | Panic \<Rightarrow> (Panic, s))"
  by pat_completeness auto
termination
  by (relation "measure (\<lambda>(_, _, it, _). length it)") (auto dest!: Iter_Next_shorter)

declare walkElems.simps [simp del] walkEntries.simps [simp del]

definition walkMap :: "(zbytes \<Rightarrow> 's \<Rightarrow> 's walked) \<Rightarrow> (zbytes \<Rightarrow> 's \<Rightarrow> 's walked) \<Rightarrow> zbytes \<Rightarrow> 's \<Rightarrow> 's walked" where
  "walkMap wk wv body s = (case body of None \<Rightarrow> (Ok (), s) | Some it \<Rightarrow> walkEntries wk wv it s)"

definition walkUnion :: "(zbytes \<Rightarrow> 's \<Rightarrow> 's walked) list \<Rightarrow> zbytes \<Rightarrow> 's \<Rightarrow> 's walked" where
  "walkUnion ws body s =
     (case body of
        None \<Rightarrow> (Ok (), s)
      | Some it \<Rightarrow>
          if length it = 0 then (Err (Errorf ''union has empty body''), s)
          else case Iter_Next it of
                 Ok (t, it) \<Rightarrow>
                   (let tag = sint (DecodeInt t) in
                    if tag < 0 \<or> tag \<ge> int (length ws) then (Err (Errorf ''bad union tag''), s)
                    else case Iter_Next it of
                           Ok (b, it) \<Rightarrow>
                             if \<not> Iter_Done it then (Err (Errorf ''union value container has more than two items''), s)
                             else (ws ! nat tag) b s
                         | Err e \<Rightarrow> (Err e, s)
                         | Panic \<Rightarrow> (Panic, s))
               | Err e \<Rightarrow> (Err e, s)
               | Panic \<Rightarrow> (Panic, s))"

function Walk :: "'s visitor \<Rightarrow> ztype \<Rightarrow> zbytes \<Rightarrow> 's \<Rightarrow> 's walked" where
  "Walk visit typ body s =
     (case visit typ body s of
        (SkipContainer, s) \<Rightarrow> (Ok (), s)
      | (VisitErr e, s) \<Rightarrow> (Err e, s)
      | (VisitPanic, s) \<Rightarrow> (Panic, s)
      | (VisitNil, s) \<Rightarrow>
          (case typ of
             TypeNamed _ _ t \<Rightarrow> Walk visit t body s
           | TypeRecord _ fs \<Rightarrow> walkRecord (map (\<lambda>f. Walk visit (snd f)) fs) body s
           | TypeArray _ t \<Rightarrow> walkArray (Walk visit t) body s
           | TypeSet _ t \<Rightarrow> walkArray (Walk visit (TypeUnder t)) body s
           | TypeUnion _ ts \<Rightarrow> walkUnion (map (Walk visit) ts) body s
           | TypeMap _ k v \<Rightarrow> walkMap (Walk visit (TypeUnder k)) (Walk visit (TypeUnder v)) body s
           | TypeError _ t \<Rightarrow> Walk visit t body s
           | _ \<Rightarrow> (Ok (), s)))"
  by pat_completeness auto
termination
  by (relation "measure (\<lambda>(_, typ, _). size typ)")
    (auto dest: size_field_less size_union_less simp: less_Suc_eq_le size_TypeUnder trans_le_add1 intro: order.trans [OF size_TypeUnder])

declare Walk.simps [simp del]

section \<open>Validate\<close>

text \<open>
  The loop of \<open>checkSet\<close> ends although the iterator may stay where it is, on a tag whose length
  wraps around: the element is then empty and the next one is a duplicate.
\<close>

lemma Iter_NextTagAndBody_shorter:
  "Iter_NextTagAndBody it = Ok (e, rest) \<Longrightarrow> length rest < length it \<or> rest = it \<and> e = []"
  by (auto simp: Iter_NextTagAndBody_def Let_def bindR_Ok_iff go_slice_def split: prod.splits if_splits)

function checkSet_loop :: "bytes option \<Rightarrow> bytes \<Rightarrow> unit go" where
  "checkSet_loop prev it =
     (if Iter_Done it then Ok ()
      else case Iter_NextTagAndBody it of
             Ok (tagAndBody, it') \<Rightarrow>
               if prev \<noteq> None \<and> strings_Compare (buf prev) tagAndBody = 0 then Err (Errorf ''invalid ZNG: duplicate set element'')
               else if prev \<noteq> None \<and> strings_Compare (buf prev) tagAndBody = 1 then Err (Errorf ''invalid ZNG: set elements not sorted'')
               else checkSet_loop (Some tagAndBody) it'
           | Err e \<Rightarrow> Err e
           | Panic \<Rightarrow> Panic)"
  by pat_completeness auto
termination
  by (relation "measures [\<lambda>(_, it). length it, \<lambda>(prev, _). if prev = Some [] then 0 else 1]")
    (auto dest!: Iter_NextTagAndBody_shorter simp: strings_Compare_refl)

declare checkSet_loop.simps [simp del]

definition checkSet :: "zbytes \<Rightarrow> unit go" where
  "checkSet body = (case body of None \<Rightarrow> Ok () | Some it \<Rightarrow> checkSet_loop None it)"

definition checkEnum :: "gostring list \<Rightarrow> zbytes \<Rightarrow> unit go" where
  "checkEnum symbols body =
     (if body = None then Ok ()
      else if sint (DecodeUint body) \<ge> int (length symbols) then Err (Errorf ''enum selector out of range'')
      else Ok ())"

definition skipAfter :: "unit go \<Rightarrow> visited" where
  "skipAfter r = (case r of Ok _ \<Rightarrow> SkipContainer | Err e \<Rightarrow> VisitErr e | Panic \<Rightarrow> VisitPanic)"

definition validateVisitor :: "unit visitor" where
  "validateVisitor typ body s =
     (case typ of
        TypeSet _ _ \<Rightarrow> (skipAfter (checkSet body), s)
      | TypeEnum _ symbols \<Rightarrow> (skipAfter (checkEnum symbols body), s)
      | _ \<Rightarrow> (VisitNil, s))"

text \<open>A panic is recovered and becomes an error.\<close>

definition Value_Validate :: "zvalue \<Rightarrow> unit go" where
  "Value_Validate v =
     (case fst (Walk validateVisitor (fst v) (snd v) ()) of Panic \<Rightarrow> Err (Errorf ''panic'') | r \<Rightarrow> r)"

section \<open>Accessors\<close>

text \<open>The loop of \<open>ArrayIndex\<close>, from position \<open>i\<close> on.\<close>

function ArrayIndex_loop :: "ztype \<Rightarrow> int \<Rightarrow> int \<Rightarrow> bytes \<Rightarrow> zvalue go" where
  "ArrayIndex_loop typ idx i it =
     (if Iter_Done it then Err (Errorf ''array index out of bounds'')
      else case Iter_Next it of
             Ok (b, it') \<Rightarrow> if i = idx then Ok (typ, b) else ArrayIndex_loop typ idx (i + 1) it'
           | Err e \<Rightarrow> Err e
           | Panic \<Rightarrow> Panic)"
  by pat_completeness auto
termination
  by (relation "measure (\<lambda>(_, _, _, it). length it)") (auto dest: Iter_Next_shorter)

declare ArrayIndex_loop.simps [simp del]

definition ArrayIndex :: "zvalue \<Rightarrow> int \<Rightarrow> zvalue go" where
  "ArrayIndex v idx =
     (case fst v of
        TypeArray _ t \<Rightarrow> if idx < 0 then Err (Errorf ''array index out of bounds'') else ArrayIndex_loop t idx 0 (buf (snd v))
      | _ \<Rightarrow> Err (Errorf ''cannot index a non-array''))"

function Elements_loop :: "ztype \<Rightarrow> bytes \<Rightarrow> zvalue list \<Rightarrow> zvalue list go" where
  "Elements_loop typ it elements =
     (if Iter_Done it then Ok elements
      else case Iter_Next it of
             Ok (b, it') \<Rightarrow> Elements_loop typ it' (elements @ [(typ, b)])
           | Err e \<Rightarrow> Err e
           | Panic \<Rightarrow> Panic)"
  by pat_completeness auto
termination
  by (relation "measure (\<lambda>(_, it, _). length it)") (auto dest: Iter_Next_shorter)

declare Elements_loop.simps [simp del]

definition Value_Elements :: "zvalue \<Rightarrow> zvalue list go" where
  "Value_Elements v =
     (case InnerType (fst v) of
        None \<Rightarrow> Err (Errorf ''expected container type, got primitive'')
      | Some innerType \<Rightarrow> Elements_loop innerType (buf (snd v)) [])"

text \<open>The loops of \<open>ContainerLength\<close>, with one and with two items for each turn.\<close>

function countItems :: "bytes \<Rightarrow> nat \<Rightarrow> nat go" where
  "countItems it n =
     (if Iter_Done it then Ok n
      else case Iter_Next it of
             Ok (_, it') \<Rightarrow> countItems it' (n + 1)
           | Err e \<Rightarrow> Err e
           | Panic \<Rightarrow> Panic)"
  by pat_completeness auto
termination
  by (relation "measure (\<lambda>(it, _). length it)") (auto dest: Iter_Next_shorter)

function countPairs :: "bytes \<Rightarrow> nat \<Rightarrow> nat go" where
  "countPairs it n =
     (if Iter_Done it then Ok n
      else case Iter_Next it of
             Ok (_, it') \<Rightarrow>
               (case Iter_Next it' of
                  Ok (_, it'') \<Rightarrow> countPairs it'' (n + 1)
                | Err e \<Rightarrow> Err e
                | Panic \<Rightarrow> Panic)
           | Err e \<Rightarrow> Err e
           | Panic \<Rightarrow> Panic)"
  by pat_completeness auto
termination
  by (relation "measure (\<lambda>(it, _). length it)") (auto dest!: Iter_Next_shorter)

declare countItems.simps [simp del] countPairs.simps [simp del]

definition ContainerLength :: "zvalue \<Rightarrow> int go" where
  "ContainerLength v =
     (case fst v of
        TypeSet _ _ \<Rightarrow> if snd v = None then Ok 0 else mapR int (countItems (buf (snd v)) 0)
      | TypeArray _ _ \<Rightarrow> if snd v = None then Ok 0 else mapR int (countItems (buf (snd v)) 0)
      | TypeMap _ _ _ \<Rightarrow> if snd v = None then Ok 0 else mapR int (countPairs (buf (snd v)) 0)
      | _ \<Rightarrow> Err (Errorf ''expected container type, got primitive''))"

text \<open>\<open>nth\<close>: nil for a null item, and when there are not enough items.\<close>

fun nth_loop :: "nat \<Rightarrow> bytes \<Rightarrow> zbytes go" where
  "nth_loop 0 it = (if Iter_Done it then Ok None else mapR fst (Iter_Next it))"
| "nth_loop (Suc n) it =
     (if Iter_Done it then Ok None else bindR (Iter_Next it) (\<lambda>(_, it'). nth_loop n it'))"

definition Value_nth :: "zvalue \<Rightarrow> nat \<Rightarrow> zbytes go" where
  "Value_nth v n = nth_loop n (buf (snd v))"

text \<open>A null pointer is \<open>None\<close>.\<close>

definition DerefByColumn :: "zvalue option \<Rightarrow> nat \<Rightarrow> zvalue option go" where
  "DerefByColumn v col =
     (case v of
        None \<Rightarrow> Ok None
      | Some v \<Rightarrow>
          bindR (Value_nth v col) (\<lambda>b.
          case b of
            None \<Rightarrow> Ok None
          | Some b \<Rightarrow>
              (case TypeRecordOf (fst v) of
                 Some (TypeRecord _ fs) \<Rightarrow> if col < length fs then Ok (Some (snd (fs ! col), Some b)) else Panic
               | _ \<Rightarrow> Panic)))"

definition Value_IndexOfField :: "zvalue \<Rightarrow> gostring \<Rightarrow> nat option" where
  "Value_IndexOfField v name = (case TypeRecordOf (fst v) of Some (TypeRecord _ fs) \<Rightarrow> IndexOfField fs name | _ \<Rightarrow> None)"

definition Deref :: "zvalue option \<Rightarrow> gostring \<Rightarrow> zvalue option go" where
  "Deref v name =
     (case v of
        None \<Rightarrow> Ok None
      | Some w \<Rightarrow> (case Value_IndexOfField w name of None \<Rightarrow> Ok None | Some i \<Rightarrow> DerefByColumn (Some w) i))"

fun DerefPath :: "zvalue option \<Rightarrow> gostring list \<Rightarrow> zvalue option go" where
  "DerefPath v [] = Ok v"
| "DerefPath v (name # path) = bindR (Deref v name) (\<lambda>v. DerefPath v path)"

end
