(* ===== verification/WalkLaws.thy ===== *)
theory WalkLaws
  imports Walk
begin

text \<open>
  What \<open>Validate\<close> accepts, what its documentation promises, and what the accessors may rely on.
\<close>

section \<open>Items\<close>

text \<open>\<open>itemsTo it bs rest\<close>: reading from \<open>it\<close> gives the items \<open>bs\<close> and leaves \<open>rest\<close>.\<close>

inductive itemsTo :: "bytes \<Rightarrow> zbytes list \<Rightarrow> bytes \<Rightarrow> bool" where
  itemsTo_Nil: "itemsTo it [] it"
| itemsTo_Cons: "Iter_Next it = Ok (b, it') \<Longrightarrow> itemsTo it' bs rest \<Longrightarrow> itemsTo it (b # bs) rest"

inductive_simps itemsTo_Nil_iff [simp]: "itemsTo it [] rest"
inductive_simps itemsTo_Cons_iff [simp]: "itemsTo it (b # bs) rest"

text \<open>The elements of a set with their tags.\<close>

inductive tagged :: "bytes \<Rightarrow> bytes list \<Rightarrow> bool" where
  tagged_Nil: "tagged [] []"
| tagged_Cons: "Iter_NextTagAndBody it = Ok (e, it') \<Longrightarrow> tagged it' es \<Longrightarrow> tagged it (e # es)"

inductive_simps tagged_Cons_iff [simp]: "tagged it (e # es)"
inductive_cases tagged_NilE: "tagged it []"

lemma uvarint_Nil [simp]: "uvarint [] = (0, 0)"
  by (simp add: uvarint_def)

lemma Iter_Next_Nil [simp]: "Iter_Next [] = Panic" "Iter_NextTagAndBody [] = Panic"
  by (simp_all add: Iter_Next_def Iter_NextTagAndBody_def)

lemma Iter_Done_Nil [simp]: "Iter_Done it \<longleftrightarrow> it = []"
  by (simp add: Iter_Done_def)

lemma itemsTo_done [simp]: "itemsTo [] bs rest \<longleftrightarrow> bs = [] \<and> rest = []"
  by (cases bs) auto

lemma itemsTo_Append: "small (buf b) \<Longrightarrow> itemsTo it bs rest \<Longrightarrow> itemsTo (Append [] b @ it) (b # bs) rest"
  by (auto simp: Iter_Next_Append)

lemma itemsTo_items: "\<forall>b \<in> set bs. small (buf b) \<Longrightarrow> itemsTo (concat (map (Append []) bs) @ rest) bs rest"
  by (induction bs) (auto simp: Iter_Next_Append)

section \<open>What is accepted\<close>

text \<open>
  The values that \<open>Validate\<close> accepts, by rules.  They have the gaps that the code has: nothing is asked of the
  elements of a set but their order, the selector of an enum is compared as a signed number, and bytes may
  follow the last field of a record.
\<close>

inductive accepted :: "ztype \<Rightarrow> zbytes \<Rightarrow> bool" where
  accepted_null: "accepted t None"
| accepted_primitive: "accepted (TypePrimitive p) (Some it)"
| accepted_enum: "sint (DecodeUint (Some it)) < int (length symbols) \<Longrightarrow> accepted (TypeEnum i symbols) (Some it)"
| accepted_named: "accepted t (Some it) \<Longrightarrow> accepted (TypeNamed i name t) (Some it)"
| accepted_error: "accepted t (Some it) \<Longrightarrow> accepted (TypeError i t) (Some it)"
| accepted_record: "itemsTo it bs rest \<Longrightarrow> list_all2 accepted (map snd fs) bs \<Longrightarrow> accepted (TypeRecord i fs) (Some it)"
| accepted_array: "itemsTo it bs [] \<Longrightarrow> \<forall>b \<in> set bs. accepted t b \<Longrightarrow> accepted (TypeArray i t) (Some it)"
| accepted_set: "tagged it es \<Longrightarrow> sorted_wrt less_bytes es \<Longrightarrow> accepted (TypeSet i t) (Some it)"
| accepted_map: "itemsTo it (concat (map (\<lambda>(k, v). [k, v]) es)) [] \<Longrightarrow> \<forall>(k, v) \<in> set es. accepted kt k \<and> accepted vt v \<Longrightarrow>
    accepted (TypeMap i kt vt) (Some it)"
| accepted_union: "itemsTo it [tag, b] [] \<Longrightarrow> 0 \<le> sint (DecodeInt tag) \<Longrightarrow> sint (DecodeInt tag) < int (length ts) \<Longrightarrow>
    accepted (ts ! nat (sint (DecodeInt tag))) b \<Longrightarrow> accepted (TypeUnion i ts) (Some it)"
monos list.rel_mono

inductive_simps accepted_simps:
  "accepted (TypePrimitive p) (Some it)" "accepted (TypeEnum i symbols) (Some it)" "accepted (TypeNamed i name t) (Some it)" "accepted (TypeError i t) (Some it)"
  "accepted (TypeRecord i fs) (Some it)" "accepted (TypeArray i t) (Some it)" "accepted (TypeSet i t) (Some it)" "accepted (TypeMap i kt vt) (Some it)"
  "accepted (TypeUnion i ts) (Some it)"

lemma accepted_None [simp]: "accepted t None"
  by (rule accepted_null)

lemma accepted_Named [simp]: "accepted (TypeNamed i name t) b \<longleftrightarrow> accepted t b"
  by (cases b) (auto simp: accepted_simps)

lemma accepted_TypeUnder [simp]: "accepted (TypeUnder t) b \<longleftrightarrow> accepted t b"
  by (induction t rule: TypeUnder.induct) auto

section \<open>The loops\<close>

abbreviation passes :: "(zbytes \<Rightarrow> unit \<Rightarrow> unit walked) \<Rightarrow> zbytes \<Rightarrow> bool" where
  "passes w b \<equiv> fst (w b ()) = Ok ()"

lemma thenWalk_Ok: "fst (thenWalk r k) = Ok () \<longleftrightarrow> fst r = Ok () \<and> fst (k ()) = Ok ()" for r :: "unit walked"
  by (cases r; cases "fst r") (auto simp: thenWalk_def)

lemma walkFields_Ok: "fst (walkFields ws it ()) = Ok () \<longleftrightarrow> (\<exists>bs rest. itemsTo it bs rest \<and> list_all2 passes ws bs)"
proof (induction ws arbitrary: it)
  case (Cons w ws)
  have "fst (walkFields (w # ws) it ()) = Ok () \<longleftrightarrow> (\<exists>b it'. Iter_Next it = Ok (b, it') \<and> passes w b \<and> fst (walkFields ws it' ()) = Ok ())"
    by (cases "Iter_Next it"; cases it) (auto simp: thenWalk_Ok)
  also have "\<dots> \<longleftrightarrow> (\<exists>b it' bs rest. Iter_Next it = Ok (b, it') \<and> passes w b \<and> itemsTo it' bs rest \<and> list_all2 passes ws bs)"
    using Cons.IH by blast
  also have "\<dots> \<longleftrightarrow> (\<exists>bs rest. itemsTo it bs rest \<and> list_all2 passes (w # ws) bs)" (is "?l = ?r")
  proof
    assume ?l
    then obtain b it' bs rest where "Iter_Next it = Ok (b, it')" "passes w b" "itemsTo it' bs rest" "list_all2 passes ws bs" by blast
    then show ?r by (intro exI [of _ "b # bs"] exI [of _ rest]) auto
  next
    assume ?r
    then obtain b bs rest where "itemsTo it (b # bs) rest" "passes w b" "list_all2 passes ws bs" by (auto simp: list_all2_Cons1)
    then show ?l by auto
  qed
  finally show ?case .
qed auto

lemma walkElems_Ok: "fst (walkElems w it ()) = Ok () \<longleftrightarrow> (\<exists>bs. itemsTo it bs [] \<and> (\<forall>b \<in> set bs. passes w b))"
proof (induction it rule: measure_induct_rule [of length])
  case (less it)
  show ?case
  proof (cases "it = []")
    case False
    have "fst (walkElems w it ()) = Ok () \<longleftrightarrow> (\<exists>b it'. Iter_Next it = Ok (b, it') \<and> passes w b \<and> fst (walkElems w it' ()) = Ok ())"
      using False by (cases "Iter_Next it") (auto simp: thenWalk_Ok walkElems.simps [of w it])
    also have "\<dots> \<longleftrightarrow> (\<exists>b it' bs. Iter_Next it = Ok (b, it') \<and> passes w b \<and> itemsTo it' bs [] \<and> (\<forall>b \<in> set bs. passes w b))"
      using less Iter_Next_shorter by blast
    also have "\<dots> \<longleftrightarrow> (\<exists>bs. itemsTo it bs [] \<and> (\<forall>b \<in> set bs. passes w b))" (is "?l = ?r")
    proof
      assume ?l then show ?r by (metis itemsTo_Cons set_ConsD)
    next
      assume ?r
      then obtain bs where "itemsTo it bs []" "\<forall>b \<in> set bs. passes w b" by blast
      then show ?l using False by (cases bs) auto
    qed
    finally show ?thesis .
  qed (simp add: walkElems.simps [of w "[]"])
qed

abbreviation flatten :: "('a \<times> 'a) list \<Rightarrow> 'a list" where
  "flatten es \<equiv> concat (map (\<lambda>(k, v). [k, v]) es)"

lemma walkEntries_Ok:
  "fst (walkEntries wk wv it ()) = Ok () \<longleftrightarrow> (\<exists>es. itemsTo it (flatten es) [] \<and> (\<forall>(k, v) \<in> set es. passes wk k \<and> passes wv v))"
proof (induction it rule: measure_induct_rule [of length])
  case (less it)
  show ?case
  proof (cases "it = []")
    case False
    let ?step = "\<lambda>k v it''. \<exists>it'. Iter_Next it = Ok (k, it') \<and> Iter_Next it' = Ok (v, it'') \<and> passes wk k \<and> passes wv v"
    have short: "?step k v it'' \<Longrightarrow> length it'' < length it" for k v it'' by (auto dest!: Iter_Next_shorter)
    have "fst (walkEntries wk wv it ()) = Ok () \<longleftrightarrow> (\<exists>k v it''. ?step k v it'' \<and> fst (walkEntries wk wv it'' ()) = Ok ())"
    proof (cases "Iter_Next it")
      case (Ok r)
      then obtain k it' where k: "Iter_Next it = Ok (k, it')" by (cases r) auto
      show ?thesis using False k by (cases "Iter_Next it'") (auto simp: thenWalk_Ok walkEntries.simps [of wk wv it])
    qed (use False in \<open>auto simp: walkEntries.simps [of wk wv it]\<close>)
    also have "\<dots> \<longleftrightarrow> (\<exists>k v it'' es. ?step k v it'' \<and> itemsTo it'' (flatten es) [] \<and> (\<forall>(k, v) \<in> set es. passes wk k \<and> passes wv v))"
      using less short by blast
    also have "\<dots> \<longleftrightarrow> (\<exists>es. itemsTo it (flatten es) [] \<and> (\<forall>(k, v) \<in> set es. passes wk k \<and> passes wv v))" (is "?l = ?r")
    proof
      assume ?l
      then obtain k v it'' es where "?step k v it''" "itemsTo it'' (flatten es) []" "\<forall>(k, v) \<in> set es. passes wk k \<and> passes wv v" by blast
      then show ?r by (intro exI [of _ "(k, v) # es"]) auto
    next
      assume ?r
      then obtain es where es: "itemsTo it (flatten es) []" "\<forall>(k, v) \<in> set es. passes wk k \<and> passes wv v" by blast
      then obtain k v es' where "es = (k, v) # es'" using False by (cases es) auto
      then show ?l using es by auto
    qed
    finally show ?thesis .
  qed (auto simp: walkEntries.simps [of wk wv "[]"] intro!: exI [of _ "[]"])
qed

lemma less_bytes_trans: "less_bytes a b \<Longrightarrow> less_bytes b c \<Longrightarrow> less_bytes a c"
  using less_bytes_trans_le [of a b c] by fastforce

text \<open>The elements of an accepted set are in strictly ascending order.\<close>

lemma checkSet_loop_Ok:
  "checkSet_loop prev it = Ok () \<longleftrightarrow> (\<exists>es. tagged it es \<and> sorted_wrt less_bytes (case prev of None \<Rightarrow> es | Some p \<Rightarrow> p # es))"
proof (induction prev it rule: checkSet_loop.induct)
  case (1 prev it)
  show ?case
  proof (cases "it = []")
    case True
    have "tagged [] es \<longleftrightarrow> es = []" for es by (cases es) (auto intro: tagged_Nil)
    then show ?thesis using True by (auto simp: checkSet_loop.simps [of prev] split: option.splits)
  next
    case False
    let ?srt = "\<lambda>es. sorted_wrt less_bytes (case prev of None \<Rightarrow> es | Some p \<Rightarrow> p # es)"
    have ex: "(\<exists>es. tagged it es \<and> ?srt es) \<longleftrightarrow> (\<exists>e it' es. Iter_NextTagAndBody it = Ok (e, it') \<and> tagged it' es \<and> ?srt (e # es))" (is "?l = ?r")
    proof
      assume ?l
      then obtain es where "tagged it es" "?srt es" by blast
      then show ?r using False by (cases es) (auto elim: tagged_NilE)
    qed (metis tagged_Cons)
    show ?thesis
    proof (cases "Iter_NextTagAndBody it")
      case (Ok r)
      then obtain e it' where e: "Iter_NextTagAndBody it = Ok (e, it')" by (cases r) auto
      have below: "?srt (e # es) \<longleftrightarrow> (prev = None \<or> less_bytes (buf prev) e) \<and> sorted_wrt less_bytes (e # es)" for es
        using less_bytes_trans [of "buf prev" e] by (cases prev) auto
      show ?thesis
      proof (cases "prev = None \<or> less_bytes (buf prev) e")
        case True
        then have "checkSet_loop prev it = checkSet_loop (Some e) it'" using e False by (auto simp: checkSet_loop.simps [of prev it])
        moreover have "checkSet_loop (Some e) it' = Ok () \<longleftrightarrow> (\<exists>es. tagged it' es \<and> sorted_wrt less_bytes (e # es))"
        proof -
          have "prev = None \<or> buf prev \<noteq> e" using True by auto
          then show ?thesis using 1 [OF _ e refl] True False by auto
        qed
        ultimately show ?thesis unfolding ex using e below True by auto
      next
        case c: False
        then have "strings_Compare (buf prev) e = 0 \<or> strings_Compare (buf prev) e = 1" "prev \<noteq> None"
          using strings_Compare_range [of "buf prev" e] by auto
        then have "checkSet_loop prev it \<noteq> Ok ()" using e False by (auto simp: checkSet_loop.simps [of prev it])
        then show ?thesis unfolding ex using e below c by auto
      qed
    qed (use False in \<open>auto simp: checkSet_loop.simps [of prev it] ex\<close>)
  qed
qed

section \<open>Validate\<close>

lemma skipAfter_walk: "fst (case (skipAfter r, s) of (SkipContainer, s) \<Rightarrow> (Ok (), s) | (VisitErr e, s) \<Rightarrow> (Err e, s) | (VisitPanic, s) \<Rightarrow> (Panic, s)
     | (VisitNil, s) \<Rightarrow> k s) = r" for r :: "unit go"
  by (cases r) (auto simp: skipAfter_def)

lemma Walk_set: "fst (Walk validateVisitor (TypeSet i t) body s) = checkSet body"
  unfolding Walk.simps [of validateVisitor "TypeSet i t"] validateVisitor_def ztype.case by (rule skipAfter_walk)

lemma Walk_enum: "fst (Walk validateVisitor (TypeEnum i ss) body s) = checkEnum ss body"
  unfolding Walk.simps [of validateVisitor "TypeEnum i ss"] validateVisitor_def ztype.case by (rule skipAfter_walk)

lemma Walk_visit:
  "Walk validateVisitor (TypePrimitive p) body () = (Ok (), ())"
  "Walk validateVisitor (TypeNamed i n t) body () = Walk validateVisitor t body ()"
  "Walk validateVisitor (TypeError i t) body () = Walk validateVisitor t body ()"
  "Walk validateVisitor (TypeRecord i fs) body () = walkRecord (map (\<lambda>f. Walk validateVisitor (snd f)) fs) body ()"
  "Walk validateVisitor (TypeArray i t) body () = walkArray (Walk validateVisitor t) body ()"
  "Walk validateVisitor (TypeMap i t t') body () = walkMap (Walk validateVisitor (TypeUnder t)) (Walk validateVisitor (TypeUnder t')) body ()"
  "Walk validateVisitor (TypeUnion i ts) body () = walkUnion (map (Walk validateVisitor) ts) body ()"
  by (subst Walk.simps, simp only: validateVisitor_def ztype.case prod.case visited.case)+

lemma walkUnion_Ok:
  "fst (walkUnion ws (Some it) ()) = Ok () \<longleftrightarrow> (\<exists>tag b. itemsTo it [tag, b] [] \<and> 0 \<le> sint (DecodeInt tag) \<and> sint (DecodeInt tag) < int (length ws) \<and>
     passes (ws ! nat (sint (DecodeInt tag))) b)"
proof (cases "Iter_Next it")
  case (Ok r)
  then obtain tag it' where t: "Iter_Next it = Ok (tag, it')" by (cases r) auto
  then have "it \<noteq> []" by auto
  then show ?thesis using t by (cases "Iter_Next it'") (auto simp: walkUnion_def Let_def split: if_splits)
qed (auto simp: walkUnion_def)

lemma Walk_null: "fst (Walk validateVisitor ty None ()) = Ok ()"
proof (induction ty rule: measure_induct_rule [of size])
  case (less ty)
  show ?case
  proof (cases ty)
    case (TypeNamed i n t) then show ?thesis using less [of t] by (simp add: Walk_visit)
  next
    case (TypeError i t) then show ?thesis using less [of t] by (simp add: Walk_visit)
  qed (simp_all add: Walk_set Walk_enum checkSet_def checkEnum_def, simp_all add: Walk_visit walkRecord_def walkArray_def walkMap_def walkUnion_def)
qed

lemma Walk_accepted: "fst (Walk validateVisitor ty body ()) = Ok () \<longleftrightarrow> accepted ty body"
proof (induction ty arbitrary: body rule: measure_induct_rule [of size])
  case (less ty)
  note IH = less
  show ?case
  proof (cases body)
    case None then show ?thesis by (simp add: Walk_null)
  next
    case (Some it)
    show ?thesis
    proof (cases ty)
      case (TypePrimitive p) then show ?thesis using Some by (simp add: Walk_visit accepted_simps)
    next
      case (TypeRecord i fs)
      have "list_all2 passes (map (\<lambda>f. Walk validateVisitor (snd f)) fs) bs = list_all2 accepted (map snd fs) bs" for bs
        unfolding list_all2_map1 by (rule list.rel_cong) (use IH size_field_less [of _ fs i] TypeRecord in auto)
      then show ?thesis using TypeRecord Some by (simp add: Walk_visit walkRecord_def walkFields_Ok accepted_simps)
    next
      case (TypeArray i t)
      then have "passes (Walk validateVisitor t) b = accepted t b" for b using IH [of t b] by simp
      then show ?thesis using TypeArray Some by (simp add: Walk_visit walkArray_def walkElems_Ok accepted_simps)
    next
      case (TypeSet i t)
      then show ?thesis using Some by (simp add: Walk_set checkSet_def checkSet_loop_Ok accepted_simps)
    next
      case (TypeMap i k v)
      then have "passes (Walk validateVisitor (TypeUnder k)) b = accepted k b" "passes (Walk validateVisitor (TypeUnder v)) b = accepted v b" for b
        using IH [of "TypeUnder k" b] IH [of "TypeUnder v" b] size_TypeUnder [of k] size_TypeUnder [of v] by auto
      then show ?thesis using TypeMap Some by (simp add: Walk_visit walkMap_def walkEntries_Ok accepted_simps)
    next
      case (TypeUnion i ts)
      then have "passes (map (Walk validateVisitor) ts ! nat x) b = accepted (ts ! nat x) b" if "0 \<le> x" "x < int (length ts)" for x b
        using that IH [of "ts ! nat x" b] size_union_less [of "ts ! nat x" ts i] by (simp add: nat_less_iff)
      then show ?thesis using TypeUnion Some by (simp add: Walk_visit walkUnion_Ok accepted_simps cong: conj_cong)
    next
      case (TypeEnum i ss)
      then show ?thesis using Some by (auto simp: Walk_enum checkEnum_def accepted_simps)
    next
      case (TypeError i t)
      then show ?thesis using Some IH [of t body] by (simp add: Walk_visit accepted_simps)
    next
      case (TypeNamed i n t)
      then show ?thesis using Some IH [of t body] by (simp add: Walk_visit accepted_simps)
    qed
  qed
qed

lemma Validate_accepted: "Value_Validate v = Ok () \<longleftrightarrow> accepted (fst v) (snd v)"
  unfolding Walk_accepted [symmetric] Value_Validate_def by (cases "fst (Walk validateVisitor (fst v) (snd v) ())") auto

lemma Validate_no_panic: "Value_Validate v \<noteq> Panic"
  by (auto simp: Value_Validate_def split: result.splits)

section \<open>Consistency\<close>

text \<open>
  The documented promise, that the bytes of a value are structurally consistent with its type: the fields of
  a record are all there, and unless \<open>slack\<close> nothing follows them; the elements of an array and of a set and
  the entries of a map are consistent, and those of a set are in strictly ascending order; the selector of an enum and
  the tag of a union are in range.
\<close>

inductive consistent :: "bool \<Rightarrow> ztype \<Rightarrow> zbytes \<Rightarrow> bool" for slack where
  consistent_null: "consistent slack t None"
| consistent_primitive: "consistent slack (TypePrimitive p) (Some it)"
| consistent_enum: "unat (DecodeUint (Some it)) < length symbols \<Longrightarrow> consistent slack (TypeEnum i symbols) (Some it)"
| consistent_named: "consistent slack t (Some it) \<Longrightarrow> consistent slack (TypeNamed i name t) (Some it)"
| consistent_error: "consistent slack t (Some it) \<Longrightarrow> consistent slack (TypeError i t) (Some it)"
| consistent_record: "itemsTo it bs rest \<Longrightarrow> rest = [] \<or> slack \<Longrightarrow> list_all2 (consistent slack) (map snd fs) bs \<Longrightarrow>
    consistent slack (TypeRecord i fs) (Some it)"
| consistent_array: "itemsTo it bs [] \<Longrightarrow> \<forall>b \<in> set bs. consistent slack t b \<Longrightarrow> consistent slack (TypeArray i t) (Some it)"
| consistent_set: "itemsTo it bs [] \<Longrightarrow> \<forall>b \<in> set bs. consistent slack t b \<Longrightarrow> tagged it es \<Longrightarrow> sorted_wrt less_bytes es \<Longrightarrow>
    consistent slack (TypeSet i t) (Some it)"
| consistent_map: "itemsTo it (concat (map (\<lambda>(k, v). [k, v]) es)) [] \<Longrightarrow>
    \<forall>(k, v) \<in> set es. consistent slack kt k \<and> consistent slack vt v \<Longrightarrow> consistent slack (TypeMap i kt vt) (Some it)"
| consistent_union: "itemsTo it [tag, b] [] \<Longrightarrow> 0 \<le> sint (DecodeInt tag) \<Longrightarrow> sint (DecodeInt tag) < int (length ts) \<Longrightarrow>
    consistent slack (ts ! nat (sint (DecodeInt tag))) b \<Longrightarrow> consistent slack (TypeUnion i ts) (Some it)"
monos list.rel_mono

lemma consistent_accepted: "consistent slack t b \<Longrightarrow> accepted t b"
proof (induction rule: consistent.induct)
  case (consistent_enum it symbols i)
  have "sint w \<le> uint w" for w :: u64
    using order.trans [OF _ uint_nonnegative, of "- (2 ^ 63)" w] by (simp add: sint_uint signed_take_bit_int_less_eq_self_iff)
  then have "sint (DecodeUint (Some it)) < int (length symbols)" using consistent_enum by (metis le_less_trans of_nat_less_iff uint_nat)
  then show ?case by (rule accepted_enum)
next
  case (consistent_record it bs rest fs i)
  have "list_all2 accepted (map snd fs) bs" by (rule list.rel_mono_strong [OF consistent_record(3)]) simp
  then show ?case by (rule accepted_record [OF consistent_record(1)])
next
  case (consistent_map it es kt vt i)
  then show ?case by (intro accepted_map [OF consistent_map(1)]) auto
qed (auto intro: accepted.intros)

text \<open>Types without sets and enums.\<close>

function plainType :: "ztype \<Rightarrow> bool" where
  "plainType t =
     (case t of
        TypePrimitive _ \<Rightarrow> True
      | TypeRecord _ fs \<Rightarrow> \<forall>f \<in> set fs. plainType (snd f)
      | TypeArray _ t \<Rightarrow> plainType t
      | TypeMap _ k v \<Rightarrow> plainType k \<and> plainType v
      | TypeUnion _ ts \<Rightarrow> \<forall>t \<in> set ts. plainType t
      | TypeError _ t \<Rightarrow> plainType t
      | TypeNamed _ _ t \<Rightarrow> plainType t
      | TypeSet _ _ \<Rightarrow> False
      | TypeEnum _ _ \<Rightarrow> False)"
  by pat_completeness auto
termination
  by (relation "measure size") (auto dest: size_field_less size_union_less)

declare plainType.simps [simp del]

lemmas plainType_simps =
  plainType.simps [of "TypePrimitive p" for p] plainType.simps [of "TypeRecord i fs" for i fs] plainType.simps [of "TypeArray i t" for i t]
  plainType.simps [of "TypeMap i k v" for i k v] plainType.simps [of "TypeUnion i ts" for i ts] plainType.simps [of "TypeError i t" for i t]
  plainType.simps [of "TypeNamed i n t" for i n t] plainType.simps [of "TypeSet i t" for i t] plainType.simps [of "TypeEnum i ss" for i ss]

lemma accepted_consistent: "accepted t b \<Longrightarrow> plainType t \<Longrightarrow> consistent True t b"
proof (induction rule: accepted.induct)
  case (accepted_record it bs rest fs i)
  have "list_all2 (consistent True) (map snd fs) bs"
    by (rule list.rel_mono_strong [OF accepted_record(2)]) (use accepted_record(3) in \<open>auto simp: plainType_simps\<close>)
  then show ?case by (intro consistent_record [OF accepted_record(1)]) simp_all
next
  case (accepted_map it es kt vt i)
  then show ?case by (intro consistent_map [OF accepted_map(1)]) (auto simp: plainType_simps)
next
  case (accepted_union it tag b ts i)
  then show ?case by (intro consistent_union [OF accepted_union(1-3)]) (auto simp: plainType_simps nat_less_iff)
qed (auto simp: plainType_simps intro: consistent.intros)

section \<open>Accessors\<close>

text \<open>The loops of the accessors, on items that can be read.\<close>

lemma Elements_loop_items:
  assumes "itemsTo it bs []"
  shows "Elements_loop t it acc = Ok (acc @ map (Pair t) bs)"
proof -
  have "rest = [] \<Longrightarrow> Elements_loop t it acc = Ok (acc @ map (Pair t) bs)" if "itemsTo it bs rest" for rest
    using that
  proof (induction arbitrary: acc rule: itemsTo.induct)
    case (itemsTo_Cons it b it' bs rest)
    then have "it \<noteq> []" by auto
    then show ?case using itemsTo_Cons by (simp add: Elements_loop.simps [of t it])
  qed (simp add: Elements_loop.simps)
  then show ?thesis using assms by blast
qed

lemma countItems_items: "itemsTo it bs rest \<Longrightarrow> rest = [] \<Longrightarrow> countItems it n = Ok (n + length bs)"
proof (induction arbitrary: n rule: itemsTo.induct)
  case (itemsTo_Cons it b it' bs rest)
  then have "it \<noteq> []" by auto
  then show ?case using itemsTo_Cons by (simp add: countItems.simps [of it])
qed (simp add: countItems.simps)

lemma countPairs_items: "itemsTo it (flatten es) [] \<Longrightarrow> countPairs it n = Ok (n + length es)"
proof (induction es arbitrary: it n)
  case (Cons e es)
  obtain k v where e: "e = (k, v)" by (cases e)
  then obtain it' it'' where it: "Iter_Next it = Ok (k, it')" "Iter_Next it' = Ok (v, it'')" "itemsTo it'' (flatten es) []" using Cons.prems by auto
  then have "it \<noteq> []" by auto
  then show ?case using it Cons.IH by (simp add: countPairs.simps [of it])
qed (simp add: countPairs.simps)

lemma ArrayIndex_loop_items:
  "itemsTo it bs rest \<Longrightarrow> rest = [] \<Longrightarrow> i \<le> idx \<Longrightarrow>
   ArrayIndex_loop t idx i it = (if nat (idx - i) < length bs then Ok (t, bs ! nat (idx - i)) else Err (Errorf ''array index out of bounds''))"
proof (induction arbitrary: i rule: itemsTo.induct)
  case (itemsTo_Cons it b it' bs rest)
  then have it: "it \<noteq> []" by auto
  show ?case
  proof (cases "i = idx")
    case False
    then have "nat (idx - i) = Suc (nat (idx - (i + 1)))" using itemsTo_Cons.prems by simp
    then show ?thesis using it False itemsTo_Cons by (simp add: ArrayIndex_loop.simps [of t idx i it])
  qed (use it itemsTo_Cons in \<open>simp add: ArrayIndex_loop.simps [of t idx idx it]\<close>)
qed (simp add: ArrayIndex_loop.simps)

lemma nth_loop_items: "itemsTo it bs rest \<Longrightarrow> n < length bs \<Longrightarrow> nth_loop n it = Ok (bs ! n)"
proof (induction arbitrary: n rule: itemsTo.induct)
  case (itemsTo_Cons it b it' bs rest)
  then have "it \<noteq> []" by auto
  then show ?case using itemsTo_Cons by (cases n) simp_all
qed simp

lemma IndexOfField_bound: "IndexOfField fs name = Some i \<Longrightarrow> i < length fs"
proof -
  have "createLUT_loop n ks m k = Some i \<Longrightarrow> (\<And>j. m k = Some j \<Longrightarrow> j < n) \<Longrightarrow> i < n + length ks" for n m k i and ks :: "gostring list"
  proof (induction ks arbitrary: n m)
    case (Cons a ks)
    have "j < Suc n" if "(m(a \<mapsto> n)) k = Some j" for j using that Cons.prems(2) by (fastforce split: if_splits)
    then show ?case using Cons.IH [of "Suc n" "m(a \<mapsto> n)"] Cons.prems(1) by (simp del: fun_upd_apply)
  qed auto
  from this [of 0 _ Map.empty] show "IndexOfField fs name = Some i \<Longrightarrow> i < length fs"
    by (fastforce simp: IndexOfField_def TypeRecord_createLUT_def)
qed

text \<open>A field of an accepted value can be read, and what is read is accepted.\<close>

definition safe :: "zvalue option go \<Rightarrow> bool" where
  "safe r \<longleftrightarrow> (\<exists>w. r = Ok w \<and> (\<forall>u. w = Some u \<longrightarrow> accepted (fst u) (snd u)))"

lemma Deref_safe:
  assumes "\<forall>v. w = Some v \<longrightarrow> accepted (fst v) (snd v)"
  shows "safe (Deref w name)"
proof (cases w)
  case (Some v)
  show ?thesis
  proof (cases "Value_IndexOfField v name")
    case None
    then show ?thesis using Some by (simp add: Deref_def safe_def)
  next
    case i: (Some i)
    then obtain k fs where fs: "TypeRecordOf (fst v) = Some (TypeRecord k fs)" "IndexOfField fs name = Some i"
      by (auto simp: Value_IndexOfField_def split: option.splits ztype.splits)
    have lt: "i < length fs" by (rule IndexOfField_bound [OF fs(2)])
    have "TypeUnder (fst v) = TypeRecord k fs" using fs(1) by (auto simp: TypeRecordOf_def split: ztype.splits)
    then have f: "accepted (TypeRecord k fs) (snd v)" using assms Some accepted_TypeUnder [of "fst v" "snd v"] by simp
    show ?thesis
    proof (cases "snd v")
      case None
      then have "nth_loop i (buf (snd v)) = Ok None" by (cases i) simp_all
      then show ?thesis using Some i by (simp add: Deref_def DerefByColumn_def Value_nth_def safe_def)
    next
      case (Some it)
      then obtain bs rest where bs: "itemsTo it bs rest" "list_all2 accepted (map snd fs) bs" using f by (auto simp: accepted_simps)
      then have "nth_loop i it = Ok (bs ! i)" "accepted (snd (fs ! i)) (bs ! i)"
        using nth_loop_items [OF bs(1), of i] list_all2_lengthD [OF bs(2)] list_all2_nthD2 [OF bs(2), of i] lt by simp_all
      then show ?thesis using \<open>w = Some v\<close> i fs(1) Some lt
        by (auto simp: Deref_def DerefByColumn_def Value_nth_def safe_def split: option.splits)
    qed
  qed
qed (simp add: Deref_def safe_def)

lemma DerefPath_safe: "\<forall>v. w = Some v \<longrightarrow> accepted (fst v) (snd v) \<Longrightarrow> safe (DerefPath w path)"
proof (induction path arbitrary: w)
  case (Cons name path)
  obtain u where u: "Deref w name = Ok u" "\<forall>v. u = Some v \<longrightarrow> accepted (fst v) (snd v)" using Deref_safe [OF Cons.prems, of name] unfolding safe_def by blast
  then show ?case using Cons.IH [OF u(2)] by simp
qed (simp add: safe_def)

end
