(* ===== verification/WalkProps.thy ===== *)
theory WalkProps
  imports WalkLaws
begin

text \<open>The properties of \<open>Validate\<close>.\<close>



text \<open>C20: of a value that \<open>Validate\<close> accepts, a path of fields of records, the elements of an array, an element of an
  array by index, the length of a map and the value of a union are read without a panic, and the
  fields, elements and union values that are read are again accepted.  (A null union is untagged to itself.)  This is not
  so for the elements and the length of a set, as is shown below.\<close>

theorem Validate_type_safe:
  assumes "Value_Validate (t, b) = Ok ()"
  shows "(\<exists>w. DerefPath (Some (t, b)) path = Ok w \<and> (\<forall>u. w = Some u \<longrightarrow> Value_Validate u = Ok ())) \<and>
    (\<forall>i t'. TypeUnder t = TypeArray i t' \<longrightarrow> (\<exists>vs. Value_Elements (t, b) = Ok vs \<and> (\<forall>v \<in> set vs. Value_Validate v = Ok ()))) \<and>
    (\<forall>n. ArrayIndex (t, b) n \<noteq> Panic \<and> (\<forall>v. ArrayIndex (t, b) n = Ok v \<longrightarrow> Value_Validate v = Ok ())) \<and>
    (\<forall>i k v. t = TypeMap i k v \<longrightarrow> (\<exists>n. ContainerLength (t, b) = Ok n)) \<and>
    (\<forall>i ts. t = TypeUnion i ts \<longrightarrow> (\<exists>v. Untag i ts b = Ok v \<and> Value_Validate v = Ok ()))"
proof (intro conjI allI impI)
  have f: "accepted t b" using assms by (simp add: Validate_accepted)
  show "\<exists>w. DerefPath (Some (t, b)) path = Ok w \<and> (\<forall>u. w = Some u \<longrightarrow> Value_Validate u = Ok ())"
    using DerefPath_safe [of "Some (t, b)" path] f by (simp add: safe_def Validate_accepted)
  show "\<exists>vs. Value_Elements (t, b) = Ok vs \<and> (\<forall>v \<in> set vs. Value_Validate v = Ok ())" if a: "TypeUnder t = TypeArray i t'" for i t'
  proof -
    have "accepted (TypeArray i t') b" using f a accepted_TypeUnder [of t b] by simp
    then obtain bs where "itemsTo (buf b) bs []" "\<forall>x \<in> set bs. accepted t' x" by (cases b) (auto simp: accepted_simps)
    then show ?thesis using Elements_loop_items [of "buf b" bs t' "[]"] a by (simp add: Value_Elements_def InnerType_def Validate_accepted)
  qed
  have index: "\<exists>bs. (\<forall>x \<in> set bs. accepted t' x) \<and> ArrayIndex (t, b) n =
      (if 0 \<le> n \<and> nat n < length bs then Ok (t', bs ! nat n) else Err (Errorf ''array index out of bounds''))" if a: "t = TypeArray i t'" for n i t'
  proof -
    obtain bs where "itemsTo (buf b) bs []" "\<forall>x \<in> set bs. accepted t' x" using f a by (cases b) (auto simp: accepted_simps)
    then show ?thesis using ArrayIndex_loop_items [of "buf b" bs "[]" 0 n t'] a by (auto simp: ArrayIndex_def)
  qed
  show "ArrayIndex (t, b) n \<noteq> Panic" for n
  proof (cases "\<exists>i t'. t = TypeArray i t'")
    case True then show ?thesis using index [of _ _ n] by (auto split: if_splits)
  qed (auto simp: ArrayIndex_def split: ztype.splits)
  show "Value_Validate v = Ok ()" if v: "ArrayIndex (t, b) n = Ok v" for n v
  proof (cases "\<exists>i t'. t = TypeArray i t'")
    case True then show ?thesis using index [of _ _ n] v by (auto simp: Validate_accepted split: if_splits)
  qed (use v in \<open>auto simp: ArrayIndex_def split: ztype.splits\<close>)
  show "\<exists>n. ContainerLength (t, b) = Ok n" if "t = TypeMap i k v" for i k v
    using f that by (cases b) (auto simp: ContainerLength_def accepted_simps countPairs_items)
  show "\<exists>v. Untag i ts b = Ok v \<and> Value_Validate v = Ok ()" if "t = TypeUnion i ts" for i ts
    using f that by (cases b) (auto simp: Untag_def accepted_simps TypeUnion_Type_def Validate_accepted)
qed

text \<open>A record with an array of integers.\<close>

definition sampleRecord :: zvalue where
  "sampleRecord = (TypeRecord 30 [(str ''a'', TypeArray 31 (TypePrimitive TypeInt64))], Some [3, 2, 2])"

lemma sampleRecord_accepted: "Value_Validate sampleRecord = Ok ()"
  by (simp add: sampleRecord_def) code_simp

theorem Validate_type_safe_witness:
  "\<exists>w. DerefPath (Some sampleRecord) [str ''a''] = Ok w \<and> (\<forall>u. w = Some u \<longrightarrow> Value_Validate u = Ok ())"
  using Validate_type_safe [of "fst sampleRecord" "snd sampleRecord" "[str ''a'']"] sampleRecord_accepted by simp

text \<open>An element whose tag is \<open>2 ^ 64 - 2\<close>, which ends before its tag does, and an element of 32766 bytes.\<close>

definition wrappedSet :: bytes where
  "wrappedSet = [0xfe, 0xff, 0xff, 0xff, 0xff, 0xff, 0xff] @ Append [] (Some (replicate 32766 0))"

text \<open>C38: the elements of a set are not checked, and \<open>checkSet\<close> reads them in a way that allows a tag whose length
  wraps around: there are sets that \<open>Validate\<close> accepts and whose elements and length panic.\<close>

theorem Validate_accepts_bad_set:
  "Value_Validate (TypeSet i t, Some wrappedSet) = Ok () \<and> Value_Elements (TypeSet i t, Some wrappedSet) = Panic \<and>
   ContainerLength (TypeSet i t, Some wrappedSet) = Panic"
proof -
  let ?e1 = "[0xfe, 0xff, 0xff, 0xff, 0xff, 0xff, 0xff] :: bytes" and ?e2 = "Append [] (Some (replicate 32766 (0 :: byte)))"
  have tag: "appendUvarint [] (toTag 32766) = [0xff, 0xff, 1]" by code_simp
  have e2: "?e2 = 0xff # 0xff # 1 # replicate 32766 0" by (simp add: Append_def tag)
  have len: "length wrappedSet = 32776" by (simp add: wrappedSet_def e2)
  have w: "wrappedSet = [0xfe, 0xff, 0xff, 0xff, 0xff, 0xff, 0xff, 0xff, 0xff, 1] @ replicate 32766 0" by (simp add: wrappedSet_def e2)
  have uv: "uvarint wrappedSet = (0xfffffffffffffffe, 10)" unfolding w by (simp add: uvarint_def)
  have "Iter_NextTagAndBody wrappedSet = Ok (?e1, ?e2)"
    by (simp add: Iter_NextTagAndBody_def uv tagIsNull_def tagNull_def tagLength_def wrap64_def go_slice_def len) (simp add: wrappedSet_def)
  moreover have "Iter_NextTagAndBody ?e2 = Ok (?e2, [])" using Iter_NextTagAndBody_Append [of "Some (replicate 32766 0)" "[]"] by (simp add: small_def)
  ultimately have "tagged wrappedSet [?e1, ?e2]" by (auto intro: tagged_Nil)
  moreover have "sorted_wrt less_bytes [?e1, ?e2]" by (simp add: e2 go_cmp_def)
  ultimately have "Value_Validate (TypeSet i t, Some wrappedSet) = Ok ()" unfolding Validate_accepted fst_conv snd_conv by (rule accepted_set)
  moreover have n: "Iter_Next wrappedSet = Panic"
    by (simp add: Iter_Next_def uv tagIsNull_def tagNull_def tagLength_def wrap64_def go_slice_def len)
  moreover have "wrappedSet \<noteq> []" by (simp add: wrappedSet_def)
  ultimately show ?thesis
    by (simp add: Value_Elements_def InnerType_def ContainerLength_def Elements_loop.simps [of t wrappedSet] countItems.simps [of wrappedSet])
qed

text \<open>An enum is accepted when its selector is \<open>2 ^ 63\<close> or more, since the selector is compared as a signed
  number, and a record with bytes after its last field is accepted too.\<close>

lemma Validate_accepts_big_enum: "Value_Validate (TypeEnum i symbols, Some (replicate 8 0xff)) = Ok ()"
proof -
  have "DecodeUint (Some (replicate 8 0xff)) = -1" by code_simp
  then show ?thesis unfolding Validate_accepted fst_conv snd_conv by (intro accepted_enum) simp
qed

lemma Validate_accepts_extra_field: "Value_Validate (TypeRecord i [], Some it) = Ok ()"
  unfolding Validate_accepted fst_conv snd_conv by (rule accepted_record [OF itemsTo_Nil]) simp

end
