(* ===== verification/VngPrim.thy ===== *)
theory VngPrim
  imports Compare Builder
begin

text \<open>
  The primitive vectors of VNG (\<open>vng/primitive.go\<close>, \<open>int.go\<close>, \<open>segment.go\<close>).  Lz4 is a pair of
  parameters: \<open>compress\<close> returns no bytes when a block does not get smaller, and \<open>uncompress\<close> has
  the size of the result as an argument.  A Go map from bytes to counts is an association list; ranging
  over it may give its entries in any order, so the order is a parameter \<open>rng\<close> of each call that
  ranges, and so is the unstable \<open>sort.Slice\<close>.  Counts are 32 bits wide.
\<close>

type_synonym lz4c = "bytes \<Rightarrow> bytes go"
type_synonym lz4u = "nat \<Rightarrow> bytes \<Rightarrow> bytes go"

section \<open>Segments\<close>

record segment =
  seg_Offset :: nat
  seg_Length :: nat
  seg_MemLength :: nat
  seg_CompressionFormat :: nat

definition compressBuffer :: "lz4c \<Rightarrow> bytes \<Rightarrow> (nat \<times> bytes) go" where
  "compressBuffer compress b =
     (if length b = 0 then Ok (0, [])
      else bindR (compress b) (\<lambda>z. if length z > 0 then Ok (1, z) else Ok (0, b)))"

text \<open>\<open>ReadAt\<close> of a section reader over the data section; \<open>io.EOF\<close> when the bytes are not all there.\<close>

abbreviation ioEOF :: goerror where "ioEOF \<equiv> Errorf ''EOF''"

definition ReadAt :: "bytes \<Rightarrow> nat \<Rightarrow> nat \<Rightarrow> bytes go" where
  "ReadAt data off n = (if length data \<le> off \<or> length data < off + n then Err ioEOF else Ok (take n (drop off data)))"

definition Segment_Read :: "lz4u \<Rightarrow> bytes \<Rightarrow> segment \<Rightarrow> bytes go" where
  "Segment_Read uncompress data s =
     (if seg_CompressionFormat s = 0 then ReadAt data (seg_Offset s) (seg_MemLength s)
      else if seg_CompressionFormat s = 1 then
        bindR (ReadAt data (seg_Offset s) (seg_Length s)) (\<lambda>z.
        bindR (uncompress (seg_MemLength s) z) (\<lambda>b.
        if length b \<noteq> seg_MemLength s then Err (Errorf ''vng: wrong number of uncompressed bytes'') else Ok b))
      else Err (Errorf ''vng: unknown compression format''))"

section \<open>The encoder\<close>

definition inc32 :: "nat \<Rightarrow> nat" where
  "inc32 n = (n + 1) mod 2 ^ 32"

definition MaxDictSize :: nat where
  "MaxDictSize = 256"

record primEncoder =
  pe_typ :: ztype
  pe_bytes :: bytes
  pe_bytesLen :: nat
  pe_format :: nat
  pe_out :: bytes
  pe_dict :: "(bytes \<times> nat) list option"
  pe_min :: "zvalue option"
  pe_max :: "zvalue option"
  pe_count :: nat

definition NewPrimitiveEncoder :: "ztype \<Rightarrow> bool \<Rightarrow> primEncoder" where
  "NewPrimitiveEncoder typ useDict =
     \<lparr>pe_typ = typ, pe_bytes = [], pe_bytesLen = 0, pe_format = 0, pe_out = [],
      pe_dict = (if useDict \<and> ID typ \<noteq> 0 \<and> ID typ \<noteq> 6 \<and> ID typ \<noteq> 23 then Some [] else None),
      pe_min = None, pe_max = None, pe_count = 0\<rparr>"

fun dictInc :: "bytes \<Rightarrow> (bytes \<times> nat) list \<Rightarrow> (bytes \<times> nat) list" where
  "dictInc k [] = [(k, 1)]"
| "dictInc k ((k', n) # d) = (if k = k' then (k', inc32 n) # d else (k', n) # dictInc k d)"

text \<open>The new minimum or maximum: the value replaces the old one when the comparison says so.\<close>

definition better :: "(zvalue \<Rightarrow> zvalue \<Rightarrow> int go) \<Rightarrow> (int \<Rightarrow> bool) \<Rightarrow> zvalue \<Rightarrow> zvalue option \<Rightarrow> zvalue option go" where
  "better cmp wins val old =
     (case old of None \<Rightarrow> Ok (Some val) | Some m \<Rightarrow> bindR (cmp val m) (\<lambda>c. Ok (Some (if wins c then val else m))))"

definition PrimitiveEncoder_update :: "fcmp \<Rightarrow> zbytes \<Rightarrow> primEncoder \<Rightarrow> primEncoder go" where
  "PrimitiveEncoder_update fl body p =
     (case body of
        None \<Rightarrow> Panic
      | Some bs \<Rightarrow>
          (let cmp = NewValueCompareFn fl False False; val = (pe_typ p, Some bs) in
           bindR (better cmp (\<lambda>c. c < 0) val (pe_min p)) (\<lambda>mn.
           bindR (better cmp (\<lambda>c. c > 0) val (pe_max p)) (\<lambda>mx.
           let dict = (case pe_dict p of
                         None \<Rightarrow> None
                       | Some d \<Rightarrow> (let d = dictInc bs d in if length d > MaxDictSize then None else Some d))
           in Ok (p\<lparr>pe_dict := dict, pe_min := mn, pe_max := mx, pe_count := inc32 (pe_count p)\<rparr>)))))"

definition PrimitiveEncoder_Write :: "fcmp \<Rightarrow> primEncoder \<Rightarrow> zbytes \<Rightarrow> primEncoder go" where
  "PrimitiveEncoder_Write fl p body =
     bindR (PrimitiveEncoder_update fl body p) (\<lambda>p. Ok (p\<lparr>pe_bytes := Append (pe_bytes p) body\<rparr>))"

text \<open>
  The dictionary with its entries in the order of the values.  A comparison that panics makes the
  sort panic: whether it does depends on one of the two values alone, and each value is compared
  with another one.
\<close>

type_synonym rng = "(bytes \<times> nat) list \<Rightarrow> (bytes \<times> nat) list"
type_synonym sorter = "((zvalue \<times> nat \<Rightarrow> zvalue \<times> nat \<Rightarrow> bool) \<Rightarrow> (zvalue \<times> nat) list \<Rightarrow> (zvalue \<times> nat) list)"

definition sortDict :: "sorter \<Rightarrow> (zvalue \<Rightarrow> zvalue \<Rightarrow> int go) \<Rightarrow> (zvalue \<times> nat) list \<Rightarrow> (zvalue \<times> nat) list go" where
  "sortDict sort_Slice cmp entries =
     (if list_all (\<lambda>a. list_all (\<lambda>b. a = b \<or> isOk (cmp (fst a) (fst b))) entries) entries
      then Ok (sort_Slice (\<lambda>a b. okInt (cmp (fst a) (fst b)) < 0) entries) else Panic)"

definition makeDict :: "sorter \<Rightarrow> rng \<Rightarrow> fcmp \<Rightarrow> primEncoder \<Rightarrow> (zvalue \<times> nat) list go" where
  "makeDict sort_Slice rng fl p =
     (let entries = map (\<lambda>(key, cnt). ((pe_typ p, Some key), cnt)) (rng (case pe_dict p of Some d \<Rightarrow> d | None \<Rightarrow> [])) in
      sortDict sort_Slice (NewValueCompareFn fl False False) entries)"

text \<open>The loop over the written values, and the map from a value to its position in the dictionary.\<close>

fun dictPos :: "nat \<Rightarrow> (zvalue \<times> nat) list \<Rightarrow> (bytes \<rightharpoonup> byte)" where
  "dictPos off [] = Map.empty"
| "dictPos off (entry # dict) =
     (case snd (fst entry) of
        None \<Rightarrow> dictPos (Suc off) dict
      | Some bytes \<Rightarrow> (\<lambda>k. case dictPos (Suc off) dict k of Some p \<Rightarrow> Some p | None \<Rightarrow> if k = bytes then Some (of_nat off) else None))"

function dictVector_loop :: "(bytes \<rightharpoonup> byte) \<Rightarrow> bytes \<Rightarrow> bytes \<Rightarrow> bytes go" where
  "dictVector_loop pos it out =
     (if Iter_Done it then Ok out
      else bindR (Iter_Next it) (\<lambda>(b, it').
        case b of
          None \<Rightarrow> dictVector_loop pos it' (out @ [0])
        | Some bs \<Rightarrow> (case pos bs of None \<Rightarrow> Panic | Some off \<Rightarrow> dictVector_loop pos it' (out @ [off]))))"
  by pat_completeness auto
termination
  by (relation "measure (\<lambda>(_, it, _). length it)") (auto dest: Iter_Next_shorter)

declare dictVector_loop.simps [simp del]

definition makeDictVector :: "sorter \<Rightarrow> rng \<Rightarrow> fcmp \<Rightarrow> primEncoder \<Rightarrow> bytes go" where
  "makeDictVector sort_Slice rng fl p =
     bindR (makeDict sort_Slice rng fl p) (\<lambda>dict. dictVector_loop (dictPos 0 dict) (pe_bytes p) [])"

definition PrimitiveEncoder_Encode :: "sorter \<Rightarrow> rng \<Rightarrow> lz4c \<Rightarrow> fcmp \<Rightarrow> primEncoder \<Rightarrow> primEncoder go" where
  "PrimitiveEncoder_Encode sort_Slice rng compress fl p =
     bindR (if pe_dict p \<noteq> None then makeDictVector sort_Slice rng fl p else Ok (pe_bytes p)) (\<lambda>bytes.
     bindR (compressBuffer compress bytes) (\<lambda>(fmt, out).
     Ok (p\<lparr>pe_bytes := [], pe_bytesLen := length bytes, pe_format := fmt, pe_out := out\<rparr>)))"

section \<open>Metadata of primitive vectors\<close>

datatype metadata =
    MRecord nat "(gostring \<times> metadata) list"
  | MArray nat segment metadata
  | MSet nat segment metadata
  | MMap nat segment metadata metadata
  | MUnion nat segment "metadata list"
  | MNamed gostring metadata
  | MError metadata
  | MPrimitive ztype segment "(zvalue \<times> nat) list" "zvalue option" "zvalue option" nat
  | MNulls segment metadata nat
  | MConst zvalue nat
  | MDynamic segment "metadata list" nat

fun Metadata_Len :: "metadata \<Rightarrow> nat" where
  "Metadata_Len (MRecord n _) = n"
| "Metadata_Len (MArray n _ _) = n"
| "Metadata_Len (MSet n _ _) = n"
| "Metadata_Len (MMap n _ _ _) = n"
| "Metadata_Len (MUnion n _ _) = n"
| "Metadata_Len (MNamed _ m) = Metadata_Len m"
| "Metadata_Len (MError m) = Metadata_Len m"
| "Metadata_Len (MPrimitive _ _ _ _ _ n) = n"
| "Metadata_Len (MNulls _ m n) = (n + Metadata_Len m) mod 2 ^ 32"
| "Metadata_Len (MConst _ n) = n"
| "Metadata_Len (MDynamic _ _ n) = n"

definition PrimitiveEncoder_segment :: "nat \<Rightarrow> primEncoder \<Rightarrow> segment" where
  "PrimitiveEncoder_segment off p =
     \<lparr>seg_Offset = off, seg_Length = length (pe_out p), seg_MemLength = pe_bytesLen p, seg_CompressionFormat = pe_format p\<rparr>"

text \<open>\<open>Metadata\<close> returns the next offset and the metadata; it changes the encoder of a constant vector, which then has no output.\<close>

definition PrimitiveEncoder_Metadata ::
    "sorter \<Rightarrow> rng \<Rightarrow> fcmp \<Rightarrow> nat \<Rightarrow> primEncoder \<Rightarrow> (nat \<times> metadata \<times> primEncoder) go" where
  "PrimitiveEncoder_Metadata sort_Slice rng fl off p =
     (case pe_dict p of
        Some [(key, _)] \<Rightarrow> Ok (off, MConst (pe_typ p, Some key) (pe_count p), p\<lparr>pe_out := []\<rparr>)
      | _ \<Rightarrow>
          bindR (if pe_dict p = None \<or> pe_dict p = Some [] then Ok [] else makeDict sort_Slice rng fl p) (\<lambda>dict.
          Ok (off + length (pe_out p),
              MPrimitive (pe_typ p) (PrimitiveEncoder_segment off p) dict (pe_min p) (pe_max p) (pe_count p), p)))"

section \<open>Vectors of integers\<close>

definition NewInt64Encoder :: primEncoder where
  "NewInt64Encoder = NewPrimitiveEncoder (TypePrimitive TypeInt64) False"

definition Int64Encoder_Write :: "fcmp \<Rightarrow> primEncoder \<Rightarrow> u64 \<Rightarrow> primEncoder go" where
  "Int64Encoder_Write fl p v = bindR (EncodeInt v) (\<lambda>b. PrimitiveEncoder_Write fl p (Some b))"

section \<open>The builders\<close>

text \<open>The reader of a primitive vector: its buffer once it has been read, and the rest of it.\<close>

record primBuilder =
  pb_loc :: segment
  pb_rest :: "bytes option"

definition NewPrimitiveBuilder :: "segment \<Rightarrow> primBuilder" where
  "NewPrimitiveBuilder loc = \<lparr>pb_loc = loc, pb_rest = None\<rparr>"

definition PrimitiveBuilder_ReadBytes :: "lz4u \<Rightarrow> bytes \<Rightarrow> primBuilder \<Rightarrow> (zbytes \<times> primBuilder) go" where
  "PrimitiveBuilder_ReadBytes uncompress data p =
     bindR (case pb_rest p of None \<Rightarrow> Segment_Read uncompress data (pb_loc p) | Some it \<Rightarrow> Ok it) (\<lambda>it.
     if Iter_Done it then Err ioEOF
     else bindR (Iter_Next it) (\<lambda>(b, it'). Ok (b, p\<lparr>pb_rest := Some it'\<rparr>)))"

definition Int64Decoder_Next :: "lz4u \<Rightarrow> bytes \<Rightarrow> primBuilder \<Rightarrow> (u64 \<times> primBuilder) go" where
  "Int64Decoder_Next uncompress data p =
     bindR (PrimitiveBuilder_ReadBytes uncompress data p) (\<lambda>(zv, p). Ok (DecodeInt zv, p))"

record dictBuilder =
  db_loc :: segment
  db_dict :: "(zvalue \<times> nat) list"
  db_selectors :: "bytes option"
  db_off :: nat

definition NewDictBuilder :: "segment \<Rightarrow> (zvalue \<times> nat) list \<Rightarrow> dictBuilder" where
  "NewDictBuilder loc dict = \<lparr>db_loc = loc, db_dict = dict, db_selectors = None, db_off = 0\<rparr>"

definition DictBuilder_ReadBytes :: "lz4u \<Rightarrow> bytes \<Rightarrow> dictBuilder \<Rightarrow> (zbytes \<times> dictBuilder) go" where
  "DictBuilder_ReadBytes uncompress data d =
     bindR (case db_selectors d of None \<Rightarrow> Segment_Read uncompress data (db_loc d) | Some s \<Rightarrow> Ok s) (\<lambda>selectors.
     if length selectors \<le> db_off d then Err ioEOF
     else
       (let sel = unat (selectors ! db_off d) in
        if length (db_dict d) \<le> sel then Err (Errorf ''corrupt VNG: selector out of range'')
        else Ok (snd (fst (db_dict d ! sel)), d\<lparr>db_selectors := Some selectors, db_off := db_off d + 1\<rparr>)))"

end
