(* ===== verification/VngEncode.thy ===== *)
theory VngEncode
  imports VngPrim
begin

text \<open>
  The encoders of VNG (\<open>vng/encoder.go\<close>, \<open>nulls.go\<close>, \<open>array.go\<close>, \<open>map.go\<close>, \<open>record.go\<close>, \<open>field.go\<close>,
  \<open>union.go\<close>).  An encoder is a value of a datatype with the state of the Go objects: \<open>Write\<close> adds a
  value, \<open>Encode\<close> compresses the vectors, \<open>Metadata\<close> lays them out and \<open>Emit\<close> gives the bytes of the data
  section.  The goroutines of \<open>Encode\<close> work on different vectors, so they are run one after the
  other.  A write that panics ends the program, so the items of a container are read first.
\<close>

datatype vencoder =
    NamedEncoder gostring vencoder
  | ErrorEncoder vencoder
  | NullsEncoder vencoder primEncoder u64 bool nat
  | RecordEncoder "(gostring \<times> vencoder) list" nat
  | ArrayEncoder vencoder primEncoder nat
  | SetEncoder vencoder primEncoder nat
  | MapEncoder vencoder vencoder primEncoder nat
  | UnionEncoder nat "ztype list" "vencoder list" primEncoder nat
  | PrimitiveEncoder primEncoder

section \<open>Results over lists\<close>

fun traverseR :: "('a \<Rightarrow> ('e, 'b) result) \<Rightarrow> 'a list \<Rightarrow> ('e, 'b list) result" where
  "traverseR f [] = Ok []"
| "traverseR f (x # xs) = bindR (f x) (\<lambda>y. bindR (traverseR f xs) (\<lambda>ys. Ok (y # ys)))"

fun foldR :: "('b \<Rightarrow> 'a \<Rightarrow> ('e, 'b) result) \<Rightarrow> 'b \<Rightarrow> 'a list \<Rightarrow> ('e, 'b) result" where
  "foldR f acc [] = Ok acc"
| "foldR f acc (x # xs) = bindR (f acc x) (\<lambda>acc. foldR f acc xs)"

lemma traverseR_cong [fundef_cong]: "xs = ys \<Longrightarrow> (\<And>x. x \<in> set ys \<Longrightarrow> f x = g x) \<Longrightarrow> traverseR f xs = traverseR g ys"
  by (induction xs arbitrary: ys) auto

lemma foldR_cong [fundef_cong]:
  "acc = acc' \<Longrightarrow> xs = ys \<Longrightarrow> (\<And>x acc. x \<in> set ys \<Longrightarrow> f acc x = g acc x) \<Longrightarrow> foldR f acc xs = foldR g acc' ys"
proof (induction xs arbitrary: ys acc acc')
  case (Cons x xs)
  then have "foldR f a xs = foldR g a xs" for a by auto
  then show ?case using Cons.prems by (cases "g acc' x") auto
qed auto

section \<open>New encoders\<close>

definition NewNullsEncoder :: "vencoder \<Rightarrow> vencoder" where
  "NewNullsEncoder values = NullsEncoder values NewInt64Encoder 0 False 0"

definition NewRecordEncoder :: "(gostring \<times> vencoder) list \<Rightarrow> vencoder" where
  "NewRecordEncoder flds = RecordEncoder flds 0"

definition NewArrayEncoder :: "vencoder \<Rightarrow> vencoder" where
  "NewArrayEncoder values = ArrayEncoder values NewInt64Encoder 0"

definition NewSetEncoder :: "vencoder \<Rightarrow> vencoder" where
  "NewSetEncoder values = SetEncoder values NewInt64Encoder 0"

definition NewMapEncoder :: "vencoder \<Rightarrow> vencoder \<Rightarrow> vencoder" where
  "NewMapEncoder keys values = MapEncoder keys values NewInt64Encoder 0"

definition NewUnionEncoder :: "nat \<Rightarrow> ztype list \<Rightarrow> vencoder list \<Rightarrow> vencoder" where
  "NewUnionEncoder i ts values = UnionEncoder i ts values NewInt64Encoder 0"

text \<open>The encoders of the parts are made first and passed to the constructors.\<close>

function vng_NewEncoder :: "ztype \<Rightarrow> vencoder go" where
  "vng_NewEncoder typ =
     (case typ of
        TypeNamed _ name t \<Rightarrow> mapR (NamedEncoder name) (vng_NewEncoder t)
      | TypeError _ t \<Rightarrow> mapR ErrorEncoder (vng_NewEncoder t)
      | TypeRecord _ fs \<Rightarrow>
          bindR (traverseR (\<lambda>f. bindR (vng_NewEncoder (snd f)) (\<lambda>e. Ok (fst f, e))) fs) (\<lambda>flds.
          Ok (NewNullsEncoder (NewRecordEncoder flds)))
      | TypeArray _ t \<Rightarrow> bindR (vng_NewEncoder t) (\<lambda>e. Ok (NewNullsEncoder (NewArrayEncoder e)))
      | TypeSet _ t \<Rightarrow> bindR (vng_NewEncoder t) (\<lambda>e. Ok (NewNullsEncoder (NewSetEncoder e)))
      | TypeMap _ k v \<Rightarrow>
          bindR (vng_NewEncoder k) (\<lambda>ke. bindR (vng_NewEncoder v) (\<lambda>ve. Ok (NewNullsEncoder (NewMapEncoder ke ve))))
      | TypeUnion i ts \<Rightarrow>
          bindR (traverseR vng_NewEncoder ts) (\<lambda>values. Ok (NewNullsEncoder (NewUnionEncoder i ts values)))
      | TypeEnum _ _ \<Rightarrow> Panic
      | TypePrimitive p \<Rightarrow> Ok (NewNullsEncoder (PrimitiveEncoder (NewPrimitiveEncoder (TypePrimitive p) True))))"
  by pat_completeness auto
termination
  by (relation "measure size") (auto dest: size_field_less size_union_less)

declare vng_NewEncoder.simps [simp del]

lemmas vng_NewEncoder_simps = vng_NewEncoder.simps [unfolded NewRecordEncoder_def NewArrayEncoder_def NewSetEncoder_def NewMapEncoder_def NewUnionEncoder_def]

section \<open>Write\<close>

text \<open>All items of a body, and the first ones.\<close>

function allItems :: "bytes \<Rightarrow> zbytes list go" where
  "allItems it =
     (if Iter_Done it then Ok []
      else bindR (Iter_Next it) (\<lambda>(b, it'). bindR (allItems it') (\<lambda>bs. Ok (b # bs))))"
  by pat_completeness auto
termination
  by (relation "measure length") (auto dest: Iter_Next_shorter)

declare allItems.simps [simp del]

fun firstItems :: "nat \<Rightarrow> bytes \<Rightarrow> zbytes list go" where
  "firstItems 0 it = Ok []"
| "firstItems (Suc n) it = bindR (Iter_Next it) (\<lambda>(b, it'). bindR (firstItems n it') (\<lambda>bs. Ok (b # bs)))"

fun pairItems :: "zbytes list \<Rightarrow> (zbytes \<times> zbytes) list go" where
  "pairItems [] = Ok []"
| "pairItems [k] = Panic"
| "pairItems (k # v # bs) = bindR (pairItems bs) (\<lambda>ps. Ok ((k, v) # ps))"

lemma Iter_Next_item: "Iter_Next it = Ok (b, it') \<Longrightarrow> length (buf b) + length it' < length it"
  by (auto simp: Iter_Next_def Let_def bindR_Ok_iff split: prod.splits if_splits dest!: go_slice_lengths)

lemma allItems_smaller: "allItems it = Ok bs \<Longrightarrow> b \<in> set bs \<Longrightarrow> length (buf b) < length it"
proof (induction it arbitrary: bs rule: measure_induct_rule [of length])
  case (less it)
  show ?case
  proof (cases "Iter_Done it")
    case False
    then obtain c it' cs where it: "Iter_Next it = Ok (c, it')" "allItems it' = Ok cs" "bs = c # cs"
      using less.prems(1) by (auto simp: allItems.simps [of it] bindR_Ok_iff)
    then show ?thesis using less.IH [OF _ it(2)] Iter_Next_item [OF it(1)] less.prems(2) by fastforce
  qed (use less.prems in \<open>simp add: allItems.simps [of it]\<close>)
qed

lemma firstItems_smaller: "firstItems n it = Ok bs \<Longrightarrow> b \<in> set bs \<Longrightarrow> length (buf b) < length it"
proof (induction n arbitrary: it bs)
  case (Suc n)
  then obtain c it' cs where it: "Iter_Next it = Ok (c, it')" "firstItems n it' = Ok cs" "bs = c # cs"
    by (auto simp: bindR_Ok_iff)
  then show ?case using Suc.IH [OF it(2)] Iter_Next_item [OF it(1)] Suc.prems(2) by fastforce
qed simp

lemma zip_smaller: "firstItems n it = Ok bs \<Longrightarrow> (f, b) \<in> set (zip fs bs) \<Longrightarrow> length (buf b) < length it"
  by (auto dest: firstItems_smaller set_zip_rightD)

lemma pairItems_members: "pairItems bs = Ok ps \<Longrightarrow> p \<in> set ps \<Longrightarrow> fst p \<in> set bs \<and> snd p \<in> set bs"
  by (induction bs arbitrary: ps rule: pairItems.induct) (auto simp: bindR_Ok_iff)

lemma pair_smaller:
  assumes "allItems it = Ok bs" "pairItems bs = Ok ps" "p \<in> set ps"
  shows "length (buf (fst p)) < length it" "length (buf (snd p)) < length it"
  using pairItems_members [OF assms(2,3)] allItems_smaller [OF assms(1)] by auto

lemma Untag_smaller: "Untag i ts (Some it) = Ok (t, b) \<Longrightarrow> length (buf b) < length it"
proof -
  assume "Untag i ts (Some it) = Ok (t, b)"
  then obtain a it1 it2 where "Iter_Next it = Ok (a, it1)" "Iter_Next it1 = Ok (b, it2)"
    by (cases "Iter_Next it") (auto simp: Untag_def bindR_Ok_iff split: result.splits prod.splits)
  from Iter_Next_item [OF this(1)] Iter_Next_item [OF this(2)] show ?thesis by simp
qed

text \<open>The run lengths of \<open>NullsEncoder\<close>: \<open>touchValue\<close> for a value and \<open>touchNull\<close> for a null.\<close>

definition touchValue :: "fcmp \<Rightarrow> primEncoder \<Rightarrow> u64 \<Rightarrow> bool \<Rightarrow> (primEncoder \<times> u64 \<times> bool) go" where
  "touchValue fl runs run null =
     (if \<not> null then Ok (runs, run + 1, null)
      else bindR (Int64Encoder_Write fl runs run) (\<lambda>runs. Ok (runs, 1, False)))"

definition touchNull :: "fcmp \<Rightarrow> primEncoder \<Rightarrow> u64 \<Rightarrow> bool \<Rightarrow> (primEncoder \<times> u64 \<times> bool) go" where
  "touchNull fl runs run null =
     (if null then Ok (runs, run + 1, null)
      else bindR (Int64Encoder_Write fl runs run) (\<lambda>runs. Ok (runs, 1, True)))"

text \<open>
  The methods \<open>Write\<close>; \<open>wr\<close> is the method of the encoders of the parts.  \<open>touchNull\<close> also counts the nulls, which is part of \<open>Write\<close>
  here.  A set is an array with other metadata, so \<open>mk\<close> is one of the two constructors.
\<close>

definition NullsEncoder_Write :: "fcmp \<Rightarrow> (vencoder \<Rightarrow> zbytes \<Rightarrow> vencoder go) \<Rightarrow> vencoder \<Rightarrow> primEncoder \<Rightarrow> u64 \<Rightarrow> bool \<Rightarrow> nat \<Rightarrow> zbytes \<Rightarrow> vencoder go" where
  "NullsEncoder_Write fl wr values runs run null cnt body =
     (case body of
        Some _ \<Rightarrow>
          bindR (touchValue fl runs run null) (\<lambda>(runs, run, null).
          bindR (wr values body) (\<lambda>values. Ok (NullsEncoder values runs run null cnt)))
      | None \<Rightarrow>
          bindR (touchNull fl runs run null) (\<lambda>(runs, run, null). Ok (NullsEncoder values runs run null (inc32 cnt))))"

definition FieldEncoder_write :: "(vencoder \<Rightarrow> zbytes \<Rightarrow> vencoder go) \<Rightarrow> gostring \<times> vencoder \<Rightarrow> zbytes \<Rightarrow> (gostring \<times> vencoder) go" where
  "FieldEncoder_write wr f body = bindR (wr (snd f) body) (\<lambda>e. Ok (fst f, e))"

definition RecordEncoder_Write :: "(vencoder \<Rightarrow> zbytes \<Rightarrow> vencoder go) \<Rightarrow> (gostring \<times> vencoder) list \<Rightarrow> nat \<Rightarrow> zbytes \<Rightarrow> vencoder go" where
  "RecordEncoder_Write wr flds cnt body =
     bindR (firstItems (length flds) (buf body)) (\<lambda>bs.
     bindR (traverseR (\<lambda>(f, b). FieldEncoder_write wr f b) (zip flds bs)) (\<lambda>flds.
     Ok (RecordEncoder flds (inc32 cnt))))"

definition ArrayEncoder_Write ::
    "fcmp \<Rightarrow> (vencoder \<Rightarrow> zbytes \<Rightarrow> vencoder go) \<Rightarrow> (vencoder \<Rightarrow> primEncoder \<Rightarrow> nat \<Rightarrow> vencoder) \<Rightarrow> vencoder \<Rightarrow> primEncoder \<Rightarrow> nat \<Rightarrow> zbytes \<Rightarrow> vencoder go" where
  "ArrayEncoder_Write fl wr mk values lengths cnt body =
     bindR (allItems (buf body)) (\<lambda>bs.
     bindR (foldR wr values bs) (\<lambda>values.
     bindR (Int64Encoder_Write fl lengths (of_nat (length bs))) (\<lambda>lengths. Ok (mk values lengths (inc32 cnt)))))"

definition MapEncoder_Write :: "fcmp \<Rightarrow> (vencoder \<Rightarrow> zbytes \<Rightarrow> vencoder go) \<Rightarrow> vencoder \<Rightarrow> vencoder \<Rightarrow> primEncoder \<Rightarrow> nat \<Rightarrow> zbytes \<Rightarrow> vencoder go" where
  "MapEncoder_Write fl wr keys values lengths cnt body =
     bindR (allItems (buf body)) (\<lambda>bs.
     bindR (pairItems bs) (\<lambda>ps.
     bindR (foldR (\<lambda>e p. bindR (wr (fst e) (fst p)) (\<lambda>ke. bindR (wr (snd e) (snd p)) (\<lambda>ve. Ok (ke, ve)))) (keys, values) ps) (\<lambda>(keys, values).
     bindR (Int64Encoder_Write fl lengths (of_nat (length ps))) (\<lambda>lengths. Ok (MapEncoder keys values lengths (inc32 cnt))))))"

definition UnionEncoder_Write ::
    "fcmp \<Rightarrow> (vencoder \<Rightarrow> zbytes \<Rightarrow> vencoder go) \<Rightarrow> nat \<Rightarrow> ztype list \<Rightarrow> vencoder list \<Rightarrow> primEncoder \<Rightarrow> nat \<Rightarrow> zbytes \<Rightarrow> vencoder go" where
  "UnionEncoder_Write fl wr i ts values tags cnt body =
     (case body of
        None \<Rightarrow> Panic
      | Some it \<Rightarrow>
          bindR (Untag i ts (Some it)) (\<lambda>(t, zv).
          let tag = TagOf ts t in
          if tag < 0 \<or> int (length values) \<le> tag then Panic
          else
            bindR (Int64Encoder_Write fl tags (of_int tag)) (\<lambda>tags.
            bindR (wr (values ! nat tag) zv) (\<lambda>e.
            Ok (UnionEncoder i ts (values[nat tag := e]) tags (inc32 cnt))))))"

lemma NullsEncoder_Write_cong [fundef_cong]:
  "values = values' \<Longrightarrow> body = body' \<Longrightarrow> wr values' body' = wr' values' body' \<Longrightarrow>
   NullsEncoder_Write fl wr values runs run null cnt body = NullsEncoder_Write fl wr' values' runs run null cnt body'"
  by (auto simp: NullsEncoder_Write_def split: option.splits)

lemma RecordEncoder_Write_cong [fundef_cong]:
  "flds = flds' \<Longrightarrow> body = body' \<Longrightarrow> (\<And>f b bs. firstItems (length flds') (buf body') = Ok bs \<Longrightarrow> (f, b) \<in> set (zip flds' bs) \<Longrightarrow> wr (snd f) b = wr' (snd f) b) \<Longrightarrow>
   RecordEncoder_Write wr flds cnt body = RecordEncoder_Write wr' flds' cnt body'"
  unfolding RecordEncoder_Write_def FieldEncoder_write_def by (intro bindR_cong traverseR_cong) auto

lemma ArrayEncoder_Write_cong [fundef_cong]:
  "values = values' \<Longrightarrow> body = body' \<Longrightarrow> (\<And>e b bs. allItems (buf body') = Ok bs \<Longrightarrow> b \<in> set bs \<Longrightarrow> wr e b = wr' e b) \<Longrightarrow>
   ArrayEncoder_Write fl wr mk values lengths cnt body = ArrayEncoder_Write fl wr' mk values' lengths cnt body'"
  unfolding ArrayEncoder_Write_def by (intro bindR_cong foldR_cong) auto

lemma MapEncoder_Write_cong [fundef_cong]:
  "keys = keys' \<Longrightarrow> values = values' \<Longrightarrow> body = body' \<Longrightarrow>
   (\<And>e p bs ps. allItems (buf body') = Ok bs \<Longrightarrow> pairItems bs = Ok ps \<Longrightarrow> p \<in> set ps \<Longrightarrow> wr e (fst p) = wr' e (fst p)) \<Longrightarrow>
   (\<And>e p bs ps. allItems (buf body') = Ok bs \<Longrightarrow> pairItems bs = Ok ps \<Longrightarrow> p \<in> set ps \<Longrightarrow> wr e (snd p) = wr' e (snd p)) \<Longrightarrow>
   MapEncoder_Write fl wr keys values lengths cnt body = MapEncoder_Write fl wr' keys' values' lengths cnt body'"
  unfolding MapEncoder_Write_def by (intro bindR_cong foldR_cong) auto

lemma UnionEncoder_Write_cong [fundef_cong]:
  "values = values' \<Longrightarrow> body = body' \<Longrightarrow> (\<And>e it t zv. body' = Some it \<Longrightarrow> Untag i ts (Some it) = Ok (t, zv) \<Longrightarrow> wr e zv = wr' e zv) \<Longrightarrow>
   UnionEncoder_Write fl wr i ts values tags cnt body = UnionEncoder_Write fl wr' i ts values' tags cnt body'"
  unfolding UnionEncoder_Write_def by (auto simp: Let_def split: option.splits intro!: bindR_cong)

function Encoder_Write :: "fcmp \<Rightarrow> vencoder \<Rightarrow> zbytes \<Rightarrow> vencoder go" where
  "Encoder_Write fl (NamedEncoder name e) body = mapR (NamedEncoder name) (Encoder_Write fl e body)"
| "Encoder_Write fl (ErrorEncoder e) body = mapR ErrorEncoder (Encoder_Write fl e body)"
| "Encoder_Write fl (NullsEncoder values runs run null cnt) body =
     NullsEncoder_Write fl (\<lambda>e b. Encoder_Write fl e b) values runs run null cnt body"
| "Encoder_Write fl (RecordEncoder flds cnt) body = RecordEncoder_Write (\<lambda>e b. Encoder_Write fl e b) flds cnt body"
| "Encoder_Write fl (ArrayEncoder values lengths cnt) body =
     ArrayEncoder_Write fl (\<lambda>e b. Encoder_Write fl e b) ArrayEncoder values lengths cnt body"
| "Encoder_Write fl (SetEncoder values lengths cnt) body =
     ArrayEncoder_Write fl (\<lambda>e b. Encoder_Write fl e b) SetEncoder values lengths cnt body"
| "Encoder_Write fl (MapEncoder keys values lengths cnt) body =
     MapEncoder_Write fl (\<lambda>e b. Encoder_Write fl e b) keys values lengths cnt body"
| "Encoder_Write fl (UnionEncoder i ts values tags cnt) body =
     UnionEncoder_Write fl (\<lambda>e b. Encoder_Write fl e b) i ts values tags cnt body"
| "Encoder_Write fl (PrimitiveEncoder p) body = mapR PrimitiveEncoder (PrimitiveEncoder_Write fl p body)"
  by pat_completeness auto
termination
  by (relation "measures [\<lambda>(_, _, b). length (buf b), \<lambda>(_, e, _). size e]")
    (auto dest: allItems_smaller Untag_smaller pair_smaller zip_smaller)

declare Encoder_Write.simps [simp del]

lemmas Encoder_Write_simps = Encoder_Write.simps [unfolded NullsEncoder_Write_def RecordEncoder_Write_def FieldEncoder_write_def ArrayEncoder_Write_def
  MapEncoder_Write_def UnionEncoder_Write_def]

section \<open>Encode\<close>

text \<open>The last run is written when there was a null.\<close>

definition NullsEncoder_runs :: "fcmp \<Rightarrow> primEncoder \<Rightarrow> u64 \<Rightarrow> primEncoder go" where
  "NullsEncoder_runs fl runs run = (if sint run > 0 then Int64Encoder_Write fl runs run else Ok runs)"

text \<open>What \<open>Encode\<close> and \<open>Metadata\<close> use of their surroundings.\<close>

record vngEnv =
  ve_sort :: sorter
  ve_rngE :: rng
  ve_rngM :: rng
  ve_compress :: lz4c
  ve_fl :: fcmp

definition primEncode :: "vngEnv \<Rightarrow> primEncoder \<Rightarrow> primEncoder go" where
  "primEncode env p = PrimitiveEncoder_Encode (ve_sort env) (ve_rngE env) (ve_compress env) (ve_fl env) p"

definition primMetadata :: "vngEnv \<Rightarrow> nat \<Rightarrow> primEncoder \<Rightarrow> (nat \<times> metadata \<times> primEncoder) go" where
  "primMetadata env off p = PrimitiveEncoder_Metadata (ve_sort env) (ve_rngM env) (ve_fl env) off p"

text \<open>The methods \<open>Encode\<close>, with the results of the encoders of the parts.\<close>

definition NullsEncoder_Encode :: "vngEnv \<Rightarrow> vencoder go \<Rightarrow> primEncoder \<Rightarrow> u64 \<Rightarrow> bool \<Rightarrow> nat \<Rightarrow> vencoder go" where
  "NullsEncoder_Encode env evalues runs run null cnt =
     bindR evalues (\<lambda>values.
     if cnt = 0 then Ok (NullsEncoder values runs run null cnt)
     else
       bindR (NullsEncoder_runs (ve_fl env) runs run) (\<lambda>runs.
       bindR (primEncode env runs) (\<lambda>runs. Ok (NullsEncoder values runs run null cnt))))"

definition ArrayEncoder_Encode :: "vngEnv \<Rightarrow> (vencoder \<Rightarrow> primEncoder \<Rightarrow> nat \<Rightarrow> vencoder) \<Rightarrow> vencoder go \<Rightarrow> primEncoder \<Rightarrow> nat \<Rightarrow> vencoder go" where
  "ArrayEncoder_Encode env mk evalues lengths cnt =
     bindR (primEncode env lengths) (\<lambda>lengths. bindR evalues (\<lambda>values. Ok (mk values lengths cnt)))"

definition MapEncoder_Encode :: "vngEnv \<Rightarrow> vencoder go \<Rightarrow> vencoder go \<Rightarrow> primEncoder \<Rightarrow> nat \<Rightarrow> vencoder go" where
  "MapEncoder_Encode env ekeys evalues lengths cnt =
     bindR (primEncode env lengths) (\<lambda>lengths. bindR ekeys (\<lambda>keys. bindR evalues (\<lambda>values. Ok (MapEncoder keys values lengths cnt))))"

definition FieldEncoder_Encode :: "gostring \<Rightarrow> vencoder go \<Rightarrow> (gostring \<times> vencoder) go" where
  "FieldEncoder_Encode name evalues = bindR evalues (\<lambda>e. Ok (name, e))"

definition RecordEncoder_Encode :: "(gostring \<times> vencoder) list go \<Rightarrow> nat \<Rightarrow> vencoder go" where
  "RecordEncoder_Encode eflds cnt = bindR eflds (\<lambda>flds. Ok (RecordEncoder flds cnt))"

definition UnionEncoder_Encode :: "vngEnv \<Rightarrow> nat \<Rightarrow> ztype list \<Rightarrow> vencoder list go \<Rightarrow> primEncoder \<Rightarrow> nat \<Rightarrow> vencoder go" where
  "UnionEncoder_Encode env i ts evalues tags cnt =
     bindR (primEncode env tags) (\<lambda>tags. bindR evalues (\<lambda>values. Ok (UnionEncoder i ts values tags cnt)))"

fun Encoder_Encode :: "vngEnv \<Rightarrow> vencoder \<Rightarrow> vencoder go" where
  "Encoder_Encode env (NamedEncoder name e) = mapR (NamedEncoder name) (Encoder_Encode env e)"
| "Encoder_Encode env (ErrorEncoder e) = mapR ErrorEncoder (Encoder_Encode env e)"
| "Encoder_Encode env (NullsEncoder values runs run null cnt) = NullsEncoder_Encode env (Encoder_Encode env values) runs run null cnt"
| "Encoder_Encode env (RecordEncoder flds cnt) =
     RecordEncoder_Encode (traverseR (\<lambda>f. FieldEncoder_Encode (fst f) (Encoder_Encode env (snd f))) flds) cnt"
| "Encoder_Encode env (ArrayEncoder values lengths cnt) = ArrayEncoder_Encode env ArrayEncoder (Encoder_Encode env values) lengths cnt"
| "Encoder_Encode env (SetEncoder values lengths cnt) = ArrayEncoder_Encode env SetEncoder (Encoder_Encode env values) lengths cnt"
| "Encoder_Encode env (MapEncoder keys values lengths cnt) =
     MapEncoder_Encode env (Encoder_Encode env keys) (Encoder_Encode env values) lengths cnt"
| "Encoder_Encode env (UnionEncoder i ts values tags cnt) =
     UnionEncoder_Encode env i ts (traverseR (\<lambda>e. Encoder_Encode env e) values) tags cnt"
| "Encoder_Encode env (PrimitiveEncoder p) = mapR PrimitiveEncoder (primEncode env p)"

declare Encoder_Encode.simps [simp del]

lemmas Encoder_Encode_simps [simp] = Encoder_Encode.simps [unfolded NullsEncoder_Encode_def RecordEncoder_Encode_def FieldEncoder_Encode_def
  ArrayEncoder_Encode_def MapEncoder_Encode_def UnionEncoder_Encode_def]

section \<open>Metadata\<close>

text \<open>Laying out several vectors one after the other.\<close>

fun layout :: "(nat \<Rightarrow> 'a \<Rightarrow> (nat \<times> 'm \<times> 'a) go) \<Rightarrow> nat \<Rightarrow> 'a list \<Rightarrow> (nat \<times> 'm list \<times> 'a list) go" where
  "layout f off [] = Ok (off, [], [])"
| "layout f off (x # xs) =
     bindR (f off x) (\<lambda>(off, m, x). bindR (layout f off xs) (\<lambda>(off, ms, xs). Ok (off, m # ms, x # xs)))"

lemma layout_cong [fundef_cong]:
  "off = off' \<Longrightarrow> xs = ys \<Longrightarrow> (\<And>off x. x \<in> set ys \<Longrightarrow> f off x = g off x) \<Longrightarrow> layout f off xs = layout g off' ys"
proof (induction xs arbitrary: off off' ys)
  case (Cons x xs)
  then have "layout f o' xs = layout g o' xs" for o' by auto
  then show ?case using Cons.prems by auto
qed auto

text \<open>\<open>lens.(*Primitive).Location\<close>: the type assertion panics on other metadata.\<close>

definition locationOf :: "metadata \<Rightarrow> segment go" where
  "locationOf m = (case m of MPrimitive _ loc _ _ _ _ \<Rightarrow> Ok loc | _ \<Rightarrow> Panic)"

definition primLocation :: "vngEnv \<Rightarrow> nat \<Rightarrow> primEncoder \<Rightarrow> (nat \<times> segment \<times> primEncoder) go" where
  "primLocation env off p = bindR (primMetadata env off p) (\<lambda>(off, m, p). bindR (locationOf m) (\<lambda>loc. Ok (off, loc, p)))"

text \<open>The methods \<open>Metadata\<close>; \<open>md\<close> is the method of the encoder of a part, from an offset on.\<close>

definition NamedEncoder_Metadata :: "gostring \<Rightarrow> (nat \<Rightarrow> (nat \<times> metadata \<times> vencoder) go) \<Rightarrow> nat \<Rightarrow> (nat \<times> metadata \<times> vencoder) go" where
  "NamedEncoder_Metadata name md off = bindR (md off) (\<lambda>(off, m, e). Ok (off, MNamed name m, NamedEncoder name e))"

definition ErrorEncoder_Metadata :: "(nat \<Rightarrow> (nat \<times> metadata \<times> vencoder) go) \<Rightarrow> nat \<Rightarrow> (nat \<times> metadata \<times> vencoder) go" where
  "ErrorEncoder_Metadata md off = bindR (md off) (\<lambda>(off, m, e). Ok (off, MError m, ErrorEncoder e))"

definition NullsEncoder_Metadata :: "vngEnv \<Rightarrow> (nat \<Rightarrow> (nat \<times> metadata \<times> vencoder) go) \<Rightarrow> nat \<Rightarrow> primEncoder \<Rightarrow> u64 \<Rightarrow> bool \<Rightarrow> nat \<Rightarrow> (nat \<times> metadata \<times> vencoder) go" where
  "NullsEncoder_Metadata env md off runs run null cnt =
     bindR (md off) (\<lambda>(off, m, values).
     if cnt = 0 then Ok (off, m, NullsEncoder values runs run null cnt)
     else bindR (primLocation env off runs) (\<lambda>(off, loc, runs). Ok (off, MNulls loc m cnt, NullsEncoder values runs run null cnt)))"

definition FieldEncoder_Metadata ::
    "gostring \<Rightarrow> (nat \<Rightarrow> (nat \<times> metadata \<times> vencoder) go) \<Rightarrow> nat \<Rightarrow> (nat \<times> (gostring \<times> metadata) \<times> (gostring \<times> vencoder)) go" where
  "FieldEncoder_Metadata name md off = bindR (md off) (\<lambda>(off, m, e). Ok (off, (name, m), (name, e)))"

definition RecordEncoder_Metadata ::
    "(nat \<times> (gostring \<times> metadata) list \<times> (gostring \<times> vencoder) list) go \<Rightarrow> nat \<Rightarrow> (nat \<times> metadata \<times> vencoder) go" where
  "RecordEncoder_Metadata parts cnt = bindR parts (\<lambda>(off, ms, flds). Ok (off, MRecord cnt ms, RecordEncoder flds cnt))"

definition ArrayEncoder_Metadata :: "vngEnv \<Rightarrow> (nat \<Rightarrow> (nat \<times> metadata \<times> vencoder) go) \<Rightarrow> nat \<Rightarrow> primEncoder \<Rightarrow> nat \<Rightarrow> (nat \<times> metadata \<times> vencoder) go" where
  "ArrayEncoder_Metadata env md off lengths cnt =
     bindR (primLocation env off lengths) (\<lambda>(off, loc, lengths).
     bindR (md off) (\<lambda>(off, m, values). Ok (off, MArray cnt loc m, ArrayEncoder values lengths cnt)))"

definition SetEncoder_Metadata :: "vngEnv \<Rightarrow> (nat \<Rightarrow> (nat \<times> metadata \<times> vencoder) go) \<Rightarrow> nat \<Rightarrow> primEncoder \<Rightarrow> nat \<Rightarrow> (nat \<times> metadata \<times> vencoder) go" where
  "SetEncoder_Metadata env md off lengths cnt =
     bindR (primLocation env off lengths) (\<lambda>(off, loc, lengths).
     bindR (md off) (\<lambda>(off, m, values). Ok (off, MSet cnt loc m, SetEncoder values lengths cnt)))"

definition MapEncoder_Metadata :: "vngEnv \<Rightarrow> (nat \<Rightarrow> (nat \<times> metadata \<times> vencoder) go) \<Rightarrow> (nat \<Rightarrow> (nat \<times> metadata \<times> vencoder) go) \<Rightarrow> nat \<Rightarrow> primEncoder \<Rightarrow> nat \<Rightarrow> (nat \<times> metadata \<times> vencoder) go" where
  "MapEncoder_Metadata env mdkeys mdvalues off lengths cnt =
     bindR (primLocation env off lengths) (\<lambda>(off, loc, lengths).
     bindR (mdkeys off) (\<lambda>(off, km, keys).
     bindR (mdvalues off) (\<lambda>(off, vm, values). Ok (off, MMap cnt loc km vm, MapEncoder keys values lengths cnt))))"

definition UnionEncoder_Metadata ::
    "vngEnv \<Rightarrow> (nat \<Rightarrow> (nat \<times> metadata list \<times> vencoder list) go) \<Rightarrow> nat \<Rightarrow> nat \<Rightarrow> ztype list \<Rightarrow> primEncoder \<Rightarrow> nat \<Rightarrow> (nat \<times> metadata \<times> vencoder) go" where
  "UnionEncoder_Metadata env mds off i ts tags cnt =
     bindR (primLocation env off tags) (\<lambda>(off, loc, tags).
     bindR (mds off) (\<lambda>(off, ms, values). Ok (off, MUnion cnt loc ms, UnionEncoder i ts values tags cnt)))"

fun Encoder_Metadata :: "vngEnv \<Rightarrow> nat \<Rightarrow> vencoder \<Rightarrow> (nat \<times> metadata \<times> vencoder) go" where
  "Encoder_Metadata env off (NamedEncoder name e) = NamedEncoder_Metadata name (\<lambda>off. Encoder_Metadata env off e) off"
| "Encoder_Metadata env off (ErrorEncoder e) = ErrorEncoder_Metadata (\<lambda>off. Encoder_Metadata env off e) off"
| "Encoder_Metadata env off (NullsEncoder values runs run null cnt) =
     NullsEncoder_Metadata env (\<lambda>off. Encoder_Metadata env off values) off runs run null cnt"
| "Encoder_Metadata env off (RecordEncoder flds cnt) =
     RecordEncoder_Metadata (layout (\<lambda>off f. FieldEncoder_Metadata (fst f) (\<lambda>off. Encoder_Metadata env off (snd f)) off) off flds) cnt"
| "Encoder_Metadata env off (ArrayEncoder values lengths cnt) =
     ArrayEncoder_Metadata env (\<lambda>off. Encoder_Metadata env off values) off lengths cnt"
| "Encoder_Metadata env off (SetEncoder values lengths cnt) =
     SetEncoder_Metadata env (\<lambda>off. Encoder_Metadata env off values) off lengths cnt"
| "Encoder_Metadata env off (MapEncoder keys values lengths cnt) =
     MapEncoder_Metadata env (\<lambda>off. Encoder_Metadata env off keys) (\<lambda>off. Encoder_Metadata env off values) off lengths cnt"
| "Encoder_Metadata env off (UnionEncoder i ts values tags cnt) =
     UnionEncoder_Metadata env (\<lambda>off. layout (\<lambda>off e. Encoder_Metadata env off e) off values) off i ts tags cnt"
| "Encoder_Metadata env off (PrimitiveEncoder p) =
     bindR (primMetadata env off p) (\<lambda>(off, m, p). Ok (off, m, PrimitiveEncoder p))"

declare Encoder_Metadata.simps [simp del]

lemmas Encoder_Metadata_simps [simp] = Encoder_Metadata.simps [unfolded NamedEncoder_Metadata_def ErrorEncoder_Metadata_def NullsEncoder_Metadata_def
  FieldEncoder_Metadata_def RecordEncoder_Metadata_def ArrayEncoder_Metadata_def SetEncoder_Metadata_def MapEncoder_Metadata_def UnionEncoder_Metadata_def]

section \<open>Emit\<close>

text \<open>The methods \<open>Emit\<close>, with the bytes of the parts.\<close>

definition NullsEncoder_Emit :: "bytes \<Rightarrow> primEncoder \<Rightarrow> nat \<Rightarrow> bytes" where
  "NullsEncoder_Emit values runs cnt = values @ (if cnt \<noteq> 0 then pe_out runs else [])"

definition ArrayEncoder_Emit :: "primEncoder \<Rightarrow> bytes \<Rightarrow> bytes" where
  "ArrayEncoder_Emit lengths values = pe_out lengths @ values"

definition MapEncoder_Emit :: "primEncoder \<Rightarrow> bytes \<Rightarrow> bytes \<Rightarrow> bytes" where
  "MapEncoder_Emit lengths keys values = pe_out lengths @ keys @ values"

definition RecordEncoder_Emit :: "bytes list \<Rightarrow> bytes" where
  "RecordEncoder_Emit flds = concat flds"

definition UnionEncoder_Emit :: "primEncoder \<Rightarrow> bytes list \<Rightarrow> bytes" where
  "UnionEncoder_Emit tags values = pe_out tags @ concat values"

fun Encoder_Emit :: "vencoder \<Rightarrow> bytes" where
  "Encoder_Emit (NamedEncoder name e) = Encoder_Emit e"
| "Encoder_Emit (ErrorEncoder e) = Encoder_Emit e"
| "Encoder_Emit (NullsEncoder values runs run null cnt) = NullsEncoder_Emit (Encoder_Emit values) runs cnt"
| "Encoder_Emit (RecordEncoder flds cnt) = RecordEncoder_Emit (map (\<lambda>f. Encoder_Emit (snd f)) flds)"
| "Encoder_Emit (ArrayEncoder values lengths cnt) = ArrayEncoder_Emit lengths (Encoder_Emit values)"
| "Encoder_Emit (SetEncoder values lengths cnt) = ArrayEncoder_Emit lengths (Encoder_Emit values)"
| "Encoder_Emit (MapEncoder keys values lengths cnt) = MapEncoder_Emit lengths (Encoder_Emit keys) (Encoder_Emit values)"
| "Encoder_Emit (UnionEncoder i ts values tags cnt) = UnionEncoder_Emit tags (map Encoder_Emit values)"
| "Encoder_Emit (PrimitiveEncoder p) = pe_out p"

declare Encoder_Emit.simps [simp del]

lemmas Encoder_Emit_simps [simp] = Encoder_Emit.simps [unfolded NullsEncoder_Emit_def ArrayEncoder_Emit_def MapEncoder_Emit_def RecordEncoder_Emit_def UnionEncoder_Emit_def]

end
