(* ===== verification/VngBuild.thy ===== *)
theory VngBuild
  imports VngEncode
begin

text \<open>
  The builders of VNG (\<open>vng/builder.go\<close> and the second halves of the files of the encoders), which read values
  back from the data section.  A builder is a value of a datatype with the state of the Go objects; after
  an error it is not used again, so an error has no state.

  A builder may call the builders of its parts any number of times, and each call changes them.  What
  does not change is the depth of a builder, so \<open>Builder_Build\<close> has the depth as an argument; \<open>Build\<close>
  starts it with the depth of the builder.
\<close>

datatype vbuilder =
    NullsBuilder vbuilder primBuilder bool u64
  | VRecordBuilder "vbuilder list"
  | ArrayBuilder vbuilder primBuilder
  | MapBuilder vbuilder vbuilder primBuilder
  | UnionBuilder "vbuilder list" primBuilder
  | PrimitiveBuilder primBuilder
  | DictBuilder dictBuilder
  | ConstBuilder zbytes nat

section \<open>New builders\<close>

text \<open>The builders of the parts are passed to the constructors.\<close>

definition NewNullsBuilder :: "vbuilder \<Rightarrow> segment \<Rightarrow> vbuilder" where
  "NewNullsBuilder values loc = NullsBuilder values (NewPrimitiveBuilder loc) True 0"

definition NewRecordBuilder :: "vbuilder list go \<Rightarrow> vbuilder go" where
  "NewRecordBuilder values = mapR VRecordBuilder values"

definition NewArrayBuilder :: "segment \<Rightarrow> vbuilder go \<Rightarrow> vbuilder go" where
  "NewArrayBuilder lengths elems = bindR elems (\<lambda>elems. Ok (ArrayBuilder elems (NewPrimitiveBuilder lengths)))"

definition NewMapBuilder :: "segment \<Rightarrow> vbuilder go \<Rightarrow> vbuilder go \<Rightarrow> vbuilder go" where
  "NewMapBuilder lengths keys values =
     bindR keys (\<lambda>keys. bindR values (\<lambda>values. Ok (MapBuilder keys values (NewPrimitiveBuilder lengths))))"

definition NewUnionBuilder :: "segment \<Rightarrow> vbuilder list go \<Rightarrow> vbuilder go" where
  "NewUnionBuilder tags builders = bindR builders (\<lambda>builders. Ok (UnionBuilder builders (NewPrimitiveBuilder tags)))"

definition NewConstBuilder :: "zvalue \<Rightarrow> nat \<Rightarrow> vbuilder" where
  "NewConstBuilder val cnt = ConstBuilder (snd val) cnt"

fun NewBuilderOf :: "metadata \<Rightarrow> vbuilder go" where
  "NewBuilderOf (MNulls runs values _) = bindR (NewBuilderOf values) (\<lambda>inner. Ok (NewNullsBuilder inner runs))"
| "NewBuilderOf (MNamed _ values) = NewBuilderOf values"
| "NewBuilderOf (MError values) = NewBuilderOf values"
| "NewBuilderOf (MRecord _ flds) = NewRecordBuilder (traverseR (\<lambda>f. NewBuilderOf (snd f)) flds)"
| "NewBuilderOf (MArray _ lengths values) = NewArrayBuilder lengths (NewBuilderOf values)"
| "NewBuilderOf (MSet _ lengths values) = NewArrayBuilder lengths (NewBuilderOf values)"
| "NewBuilderOf (MMap _ lengths keys values) = NewMapBuilder lengths (NewBuilderOf keys) (NewBuilderOf values)"
| "NewBuilderOf (MUnion _ tags values) = NewUnionBuilder tags (traverseR (\<lambda>m. NewBuilderOf m) values)"
| "NewBuilderOf (MPrimitive _ loc dict _ _ _) =
     Ok (if length dict \<noteq> 0 then DictBuilder (NewDictBuilder loc dict) else PrimitiveBuilder (NewPrimitiveBuilder loc))"
| "NewBuilderOf (MConst val cnt) = Ok (NewConstBuilder val cnt)"
| "NewBuilderOf (MDynamic _ _ _) = Err (Errorf ''unknown VNG metadata type'')"

declare NewBuilderOf.simps [simp del]

lemmas NewBuilderOf_simps [simp] = NewBuilderOf.simps [unfolded NewNullsBuilder_def NewRecordBuilder_def NewArrayBuilder_def NewMapBuilder_def NewUnionBuilder_def
  NewConstBuilder_def]

section \<open>Build\<close>

text \<open>The loop of \<open>NullsBuilder\<close> reads runs until one is not empty; each run shortens the rest of the vector.\<close>

definition unread :: "primBuilder \<Rightarrow> nat" where
  "unread p = (case pb_rest p of None \<Rightarrow> Suc (seg_MemLength (pb_loc p)) | Some it \<Rightarrow> length it)"

lemma Segment_Read_length: "Segment_Read uncompress data s = Ok b \<Longrightarrow> length b = seg_MemLength s"
  by (auto simp: Segment_Read_def ReadAt_def bindR_Ok_iff split: if_splits)

lemma ReadBytes_unread: "PrimitiveBuilder_ReadBytes uncompress data p = Ok (b, p') \<Longrightarrow> unread p' < unread p"
  by (auto simp: PrimitiveBuilder_ReadBytes_def unread_def bindR_Ok_iff split: option.splits if_splits
      dest!: Iter_Next_shorter Segment_Read_length)

lemma Next_unread: "Int64Decoder_Next uncompress data p = Ok (v, p') \<Longrightarrow> unread p' < unread p"
  by (auto simp: Int64Decoder_Next_def bindR_Ok_iff dest: ReadBytes_unread)

function nullsRun :: "lz4u \<Rightarrow> bytes \<Rightarrow> primBuilder \<Rightarrow> bool \<Rightarrow> u64 \<Rightarrow> (primBuilder \<times> bool \<times> u64) go" where
  "nullsRun uncompress data runs null run =
     (if run \<noteq> 0 then Ok (runs, null, run)
      else bindR (Int64Decoder_Next uncompress data runs) (\<lambda>(v, runs). nullsRun uncompress data runs (\<not> null) v))"
  by pat_completeness auto
termination
  by (relation "measure (\<lambda>(_, _, runs, _, _). unread runs)") (auto dest: Next_unread)

declare nullsRun.simps [simp del]

text \<open>Building \<open>k\<close> times with the same builder, and once with each of several builders.\<close>

fun buildTimes :: "('a \<Rightarrow> builder \<Rightarrow> ('a \<times> builder) go) \<Rightarrow> nat \<Rightarrow> 'a \<Rightarrow> builder \<Rightarrow> ('a \<times> builder) go" where
  "buildTimes f 0 v b = Ok (v, b)"
| "buildTimes f (Suc k) v b = bindR (f v b) (\<lambda>(v, b). buildTimes f k v b)"

fun buildEach :: "('a \<Rightarrow> builder \<Rightarrow> ('a \<times> builder) go) \<Rightarrow> 'a list \<Rightarrow> builder \<Rightarrow> ('a list \<times> builder) go" where
  "buildEach f [] b = Ok ([], b)"
| "buildEach f (v # vs) b = bindR (f v b) (\<lambda>(v, b). bindR (buildEach f vs b) (\<lambda>(vs, b). Ok (v # vs, b)))"

text \<open>The methods \<open>Build\<close>; \<open>bld\<close> is the method of the builders of the parts.\<close>

definition NullsBuilder_Build :: "lz4u \<Rightarrow> bytes \<Rightarrow> (vbuilder \<Rightarrow> builder \<Rightarrow> (vbuilder \<times> builder) go) \<Rightarrow> vbuilder \<Rightarrow> primBuilder \<Rightarrow> bool \<Rightarrow> u64 \<Rightarrow> builder \<Rightarrow> (vbuilder \<times> builder) go" where
  "NullsBuilder_Build uncompress data bld values runs null run b =
     bindR (nullsRun uncompress data runs null run) (\<lambda>(runs, null, run).
     if null then Ok (NullsBuilder values runs null (run - 1), Builder_Append b None)
     else bindR (bld values b) (\<lambda>(values, b). Ok (NullsBuilder values runs null (run - 1), b)))"

definition RecordBuilder_Build :: "(vbuilder \<Rightarrow> builder \<Rightarrow> (vbuilder \<times> builder) go) \<Rightarrow> vbuilder list \<Rightarrow> builder \<Rightarrow> (vbuilder \<times> builder) go" where
  "RecordBuilder_Build bld values b =
     bindR (buildEach bld values (BeginContainer b)) (\<lambda>(values, b).
     bindR (EndContainer b) (\<lambda>b. Ok (VRecordBuilder values, b)))"

definition ArrayBuilder_Build :: "lz4u \<Rightarrow> bytes \<Rightarrow> (vbuilder \<Rightarrow> builder \<Rightarrow> (vbuilder \<times> builder) go) \<Rightarrow> vbuilder \<Rightarrow> primBuilder \<Rightarrow> builder \<Rightarrow> (vbuilder \<times> builder) go" where
  "ArrayBuilder_Build uncompress data bld elems lengths b =
     bindR (Int64Decoder_Next uncompress data lengths) (\<lambda>(len, lengths).
     bindR (buildTimes bld (nat (sint len)) elems (BeginContainer b)) (\<lambda>(elems, b).
     bindR (EndContainer b) (\<lambda>b. Ok (ArrayBuilder elems lengths, b))))"

definition MapBuilder_Build :: "lz4u \<Rightarrow> bytes \<Rightarrow> (vbuilder \<Rightarrow> builder \<Rightarrow> (vbuilder \<times> builder) go) \<Rightarrow> vbuilder \<Rightarrow> vbuilder \<Rightarrow> primBuilder \<Rightarrow> builder \<Rightarrow> (vbuilder \<times> builder) go" where
  "MapBuilder_Build uncompress data bld keys values lengths b =
     bindR (Int64Decoder_Next uncompress data lengths) (\<lambda>(len, lengths).
     bindR (buildTimes (\<lambda>(keys, values) b.
              bindR (bld keys b) (\<lambda>(keys, b).
              bindR (bld values b) (\<lambda>(values, b). Ok ((keys, values), b))))
            (nat (sint len)) (keys, values) (BeginContainer b)) (\<lambda>((keys, values), b).
     bindR (EndContainer b) (\<lambda>b. Ok (MapBuilder keys values lengths, b))))"

definition UnionBuilder_Build :: "lz4u \<Rightarrow> bytes \<Rightarrow> (vbuilder \<Rightarrow> builder \<Rightarrow> (vbuilder \<times> builder) go) \<Rightarrow> vbuilder list \<Rightarrow> primBuilder \<Rightarrow> builder \<Rightarrow> (vbuilder \<times> builder) go" where
  "UnionBuilder_Build uncompress data bld builders tags b =
     bindR (Int64Decoder_Next uncompress data tags) (\<lambda>(tag, tags).
     if sint tag < 0 \<or> int (length builders) \<le> sint tag then Err (Errorf ''bad tag in VNG union builder'')
     else
       bindR (EncodeInt tag) (\<lambda>t.
       bindR (bld (builders ! nat (sint tag)) (Builder_Append (BeginContainer b) (Some t))) (\<lambda>(v, b).
       bindR (EndContainer b) (\<lambda>b. Ok (UnionBuilder (builders[nat (sint tag) := v]) tags, b)))))"

definition PrimitiveBuilder_Build :: "lz4u \<Rightarrow> bytes \<Rightarrow> primBuilder \<Rightarrow> builder \<Rightarrow> (vbuilder \<times> builder) go" where
  "PrimitiveBuilder_Build uncompress data p b =
     bindR (PrimitiveBuilder_ReadBytes uncompress data p) (\<lambda>(zv, p). Ok (PrimitiveBuilder p, Builder_Append b zv))"

definition DictBuilder_Build :: "lz4u \<Rightarrow> bytes \<Rightarrow> dictBuilder \<Rightarrow> builder \<Rightarrow> (vbuilder \<times> builder) go" where
  "DictBuilder_Build uncompress data d b =
     bindR (DictBuilder_ReadBytes uncompress data d) (\<lambda>(zv, d). Ok (DictBuilder d, Builder_Append b zv))"

definition ConstBuilder_Build :: "zbytes \<Rightarrow> nat \<Rightarrow> builder \<Rightarrow> (vbuilder \<times> builder) go" where
  "ConstBuilder_Build bs cnt b = (if cnt = 0 then Err ioEOF else Ok (ConstBuilder bs (cnt - 1), Builder_Append b bs))"

fun Builder_Build :: "nat \<Rightarrow> lz4u \<Rightarrow> bytes \<Rightarrow> vbuilder \<Rightarrow> builder \<Rightarrow> (vbuilder \<times> builder) go" where
  "Builder_Build 0 uncompress data v b = Panic"
| "Builder_Build (Suc n) uncompress data (NullsBuilder values runs null run) b =
     NullsBuilder_Build uncompress data (Builder_Build n uncompress data) values runs null run b"
| "Builder_Build (Suc n) uncompress data (VRecordBuilder values) b = RecordBuilder_Build (Builder_Build n uncompress data) values b"
| "Builder_Build (Suc n) uncompress data (ArrayBuilder elems lengths) b =
     ArrayBuilder_Build uncompress data (Builder_Build n uncompress data) elems lengths b"
| "Builder_Build (Suc n) uncompress data (MapBuilder keys values lengths) b =
     MapBuilder_Build uncompress data (Builder_Build n uncompress data) keys values lengths b"
| "Builder_Build (Suc n) uncompress data (UnionBuilder builders tags) b =
     UnionBuilder_Build uncompress data (Builder_Build n uncompress data) builders tags b"
| "Builder_Build (Suc n) uncompress data (PrimitiveBuilder p) b = PrimitiveBuilder_Build uncompress data p b"
| "Builder_Build (Suc n) uncompress data (DictBuilder d) b = DictBuilder_Build uncompress data d b"
| "Builder_Build (Suc n) uncompress data (ConstBuilder bs cnt) b = ConstBuilder_Build bs cnt b"

declare Builder_Build.simps [simp del]

lemmas Builder_Build_simps [simp] = Builder_Build.simps [unfolded NullsBuilder_Build_def RecordBuilder_Build_def ArrayBuilder_Build_def MapBuilder_Build_def
  UnionBuilder_Build_def PrimitiveBuilder_Build_def DictBuilder_Build_def ConstBuilder_Build_def]

fun depth :: "vbuilder \<Rightarrow> nat" where
  "depth (NullsBuilder values _ _ _) = Suc (depth values)"
| "depth (VRecordBuilder values) = Suc (foldr max (map depth values) 0)"
| "depth (ArrayBuilder elems _) = Suc (depth elems)"
| "depth (MapBuilder keys values _) = Suc (max (depth keys) (depth values))"
| "depth (UnionBuilder builders _) = Suc (foldr max (map depth builders) 0)"
| "depth (PrimitiveBuilder _) = 1"
| "depth (DictBuilder _) = 1"
| "depth (ConstBuilder _ _) = 1"

definition Build :: "lz4u \<Rightarrow> bytes \<Rightarrow> vbuilder \<Rightarrow> builder \<Rightarrow> (vbuilder \<times> builder) go" where
  "Build uncompress data v b = Builder_Build (depth v) uncompress data v b"

end
