(* ===== verification/VngPrimLaws.thy ===== *)
theory VngPrimLaws
  imports VngBuild CompareLaws WalkLaws
begin

text \<open>
  Primitive vectors are read back as they were written, with and without a dictionary, compressed or
  not, and constant vectors.
\<close>

section \<open>What a builder yields\<close>

definition pushes :: "zbytes \<Rightarrow> builder \<Rightarrow> builder \<Rightarrow> bool" where
  "pushes x b b' \<longleftrightarrow> Builder_inv b' \<and> Builder_frames b' = push_top (Append [] x) (Builder_frames b)"

text \<open>Called again and again, the step adds the values \<open>xs\<close>, one for each call, to whatever is being built.\<close>

fun yields :: "('a \<Rightarrow> builder \<Rightarrow> ('a \<times> builder) go) \<Rightarrow> 'a \<Rightarrow> zbytes list \<Rightarrow> bool" where
  "yields step v [] = True"
| "yields step v (x # xs) = (\<exists>v'. (\<forall>b. Builder_inv b \<longrightarrow> (\<exists>b'. step v b = Ok (v', b') \<and> pushes x b b')) \<and> yields step v' xs)"

lemma pushes_Append: "Builder_inv b \<Longrightarrow> pushes x b (Builder_Append b x)"
  by (simp add: pushes_def zb.frames_app zb.invar_app)

section \<open>Reading a segment\<close>

lemma sorted_wrt_unique:
  "sorted_wrt R xs \<Longrightarrow> sorted_wrt R ys \<Longrightarrow> mset xs = mset ys \<Longrightarrow> (\<And>a b. a \<in> set xs \<Longrightarrow> b \<in> set xs \<Longrightarrow> R a b \<Longrightarrow> R b a \<Longrightarrow> a = b) \<Longrightarrow> xs = ys"
proof (induction xs arbitrary: ys)
  case (Cons x xs)
  then obtain y ys' where y: "ys = y # ys'" by (cases ys) auto
  have sets: "set (x # xs) = set (y # ys')" using Cons.prems(3) y by (metis set_mset_mset)
  have "x = y"
  proof (rule ccontr)
    assume "x \<noteq> y"
    then have "R x y" "R y x" using sets Cons.prems(1,2) y by auto
    moreover have "y \<in> set (x # xs)" using sets by simp
    ultimately show False using Cons.prems(4) [of x y] \<open>x \<noteq> y\<close> by simp
  qed
  then show ?case using Cons y by auto
qed simp

section \<open>The surroundings\<close>

text \<open>Lz4 gives back what it compressed, ranging over a map visits each entry once, and \<open>sort.Slice\<close> sorts.\<close>

definition envOK :: "lz4u \<Rightarrow> vngEnv \<Rightarrow> bool" where
  "envOK uncompress env \<longleftrightarrow> sorts (ve_sort env) \<and> (\<forall>d. mset (ve_rngE env d) = mset d) \<and> (\<forall>d. mset (ve_rngM env d) = mset d) \<and>
     (\<forall>b. \<exists>z. ve_compress env b = Ok z \<and> (z \<noteq> [] \<longrightarrow> uncompress (length b) z = Ok b))"

abbreviation leafCmp :: "fcmp \<Rightarrow> ztype \<Rightarrow> bytes \<Rightarrow> bytes \<Rightarrow> int" where
  "leafCmp fl t a b \<equiv> okInt (NewValueCompareFn fl False False (t, Some a) (t, Some b))"

text \<open>
  The leaves of a column: their comparison does not panic and is an order in which only equal leaves
  are equal.  The integers that VNG itself writes are such leaves.
\<close>

locale vngLeaves =
  fixes fl :: fcmp and K :: "ztype \<Rightarrow> bytes \<Rightarrow> bool"
  assumes cmp_ok: "K t a \<Longrightarrow> K t b \<Longrightarrow> isOk (NewValueCompareFn fl False False (t, Some a) (t, Some b))"
    and leaf_order: "ordering (leafCmp fl t) (K t)"
    and leaf_inj: "K t a \<Longrightarrow> K t b \<Longrightarrow> leafCmp fl t a b = 0 \<Longrightarrow> a = b"
    and leaf_int: "EncodeInt v = Ok b \<Longrightarrow> K (TypePrimitive TypeInt64) b"
    and leaf_small: "K t a \<Longrightarrow> small a"
begin

section \<open>Writing\<close>

abbreviation plain :: "bytes list \<Rightarrow> bytes" where
  "plain xs \<equiv> concat (map (\<lambda>x. Append [] (Some x)) xs)"

definition extremeOK :: "ztype \<Rightarrow> zvalue option \<Rightarrow> bool" where
  "extremeOK t m \<longleftrightarrow> m = None \<or> (\<exists>b. m = Some (t, Some b) \<and> K t b)"

definition dictOK :: "(bytes \<times> nat) list \<Rightarrow> bytes list \<Rightarrow> bool" where
  "dictOK d xs \<longleftrightarrow> distinct (map fst d) \<and> set (map fst d) = set xs \<and> length d \<le> MaxDictSize"

definition primHolds :: "ztype \<Rightarrow> bool \<Rightarrow> bytes list \<Rightarrow> primEncoder \<Rightarrow> bool" where
  "primHolds t useDict xs p \<longleftrightarrow> pe_typ p = t \<and> pe_bytes p = plain xs \<and> (\<forall>x \<in> set xs. K t x) \<and> pe_count p = length xs mod 2 ^ 32 \<and>
     extremeOK t (pe_min p) \<and> extremeOK t (pe_max p) \<and> (case pe_dict p of None \<Rightarrow> True | Some d \<Rightarrow> useDict \<and> dictOK d xs)"

lemma primHolds_New: "primHolds t u [] (NewPrimitiveEncoder t u)"
  by (simp add: primHolds_def NewPrimitiveEncoder_def extremeOK_def dictOK_def)

lemma dictInc_keys: "map fst (dictInc k d) = (if k \<in> set (map fst d) then map fst d else map fst d @ [k])"
  by (induction k d rule: dictInc.induct) auto

lemma dictInc_OK: "dictOK d xs \<Longrightarrow> length (dictInc x d) \<le> MaxDictSize \<Longrightarrow> dictOK (dictInc x d) (xs @ [x])"
  unfolding dictOK_def by (auto simp: dictInc_keys)

lemma better_ok:
  assumes "extremeOK t m" "K t x"
  shows "\<exists>m'. better (NewValueCompareFn fl False False) w (t, Some x) m = Ok m' \<and> extremeOK t m'"
proof (cases m)
  case None
  then show ?thesis using assms(2) by (simp add: better_def extremeOK_def)
next
  case (Some v)
  then obtain b where b: "v = (t, Some b)" "K t b" using assms(1) by (auto simp: extremeOK_def)
  then obtain c where "NewValueCompareFn fl False False (t, Some x) (t, Some b) = Ok c" using cmp_ok [OF assms(2) b(2)] by (auto simp: isOk_iff)
  then show ?thesis using Some b assms(2) by (auto simp: better_def extremeOK_def)
qed

lemma PrimitiveEncoder_Write_ok:
  assumes p: "primHolds t u xs p" and x: "K t x"
  shows "\<exists>p'. PrimitiveEncoder_Write fl p (Some x) = Ok p' \<and> primHolds t u (xs @ [x]) p'"
proof -
  have t: "pe_typ p = t" using p by (simp add: primHolds_def)
  obtain mn mx where m: "better (NewValueCompareFn fl False False) (\<lambda>c. c < 0) (t, Some x) (pe_min p) = Ok mn" "extremeOK t mn"
    "better (NewValueCompareFn fl False False) (\<lambda>c. c > 0) (t, Some x) (pe_max p) = Ok mx" "extremeOK t mx"
    using better_ok [OF _ x] p unfolding primHolds_def by meson
  define dict where "dict = (case pe_dict p of None \<Rightarrow> None | Some d \<Rightarrow> (let d = dictInc x d in if length d > MaxDictSize then None else Some d))"
  have "case dict of None \<Rightarrow> True | Some d \<Rightarrow> u \<and> dictOK d (xs @ [x])"
    using p dictInc_OK [of _ xs x] unfolding primHolds_def dict_def by (auto simp: Let_def split: option.splits)
  moreover have "inc32 (length xs mod 2 ^ 32) = length (xs @ [x]) mod 2 ^ 32" by (simp add: inc32_def mod_Suc_eq)
  moreover have "Append (plain xs) (Some x) = plain (xs @ [x])" by (simp add: Append_append [of "plain xs"])
  ultimately show ?thesis using p x m t
    by (simp add: PrimitiveEncoder_Write_def PrimitiveEncoder_update_def Let_def primHolds_def dict_def [symmetric] del: map_append)
qed

lemma primWrites:
  "primHolds t u xs p \<Longrightarrow> \<forall>y \<in> set ys. K t y \<Longrightarrow> \<exists>p'. foldR (PrimitiveEncoder_Write fl) p (map Some ys) = Ok p' \<and> primHolds t u (xs @ ys) p'"
proof (induction ys arbitrary: xs p)
  case (Cons y ys)
  obtain p1 where "PrimitiveEncoder_Write fl p (Some y) = Ok p1" "primHolds t u (xs @ [y]) p1"
    using PrimitiveEncoder_Write_ok [OF Cons.prems(1), of y] Cons.prems(2) by auto
  then show ?case using Cons.IH [of "xs @ [y]" p1] Cons.prems(2) by simp
qed simp

section \<open>Encoding\<close>

text \<open>A vector and its segment: the segment gives the content of the vector.\<close>

definition segmentOf :: "nat \<Rightarrow> bytes \<Rightarrow> nat \<Rightarrow> bytes \<Rightarrow> segment" where
  "segmentOf off content fmt out = \<lparr>seg_Offset = off, seg_Length = length out, seg_MemLength = length content, seg_CompressionFormat = fmt\<rparr>"

lemma compressBuffer_ok:
  assumes "envOK uncompress env"
  shows "\<exists>fmt out. compressBuffer (ve_compress env) b = Ok (fmt, out) \<and>
    (b \<noteq> [] \<longrightarrow> (\<forall>pre post. Segment_Read uncompress (pre @ out @ post) (segmentOf (length pre) b fmt out) = Ok b))"
proof -
  obtain z where z: "ve_compress env b = Ok z" "z \<noteq> [] \<longrightarrow> uncompress (length b) z = Ok b" using assms unfolding envOK_def by blast
  show ?thesis
  proof (cases "b = [] \<or> z = []")
    case True
    then show ?thesis using z(1) by (auto simp: compressBuffer_def Segment_Read_def ReadAt_def segmentOf_def)
  next
    case False
    then show ?thesis using z by (simp add: compressBuffer_def Segment_Read_def ReadAt_def segmentOf_def)
  qed
qed

text \<open>The two dictionaries that \<open>Encode\<close> and \<open>Metadata\<close> make are the same.\<close>

definition entriesOf :: "ztype \<Rightarrow> (bytes \<times> nat) list \<Rightarrow> (zvalue \<times> nat) list" where
  "entriesOf t d = map (\<lambda>(key, cnt). ((t, Some key), cnt)) d"

definition dictKeys :: "(zvalue \<times> nat) list \<Rightarrow> bytes list" where
  "dictKeys D = map (\<lambda>e. buf (snd (fst e))) D"

abbreviation entryLe :: "ztype \<Rightarrow> zvalue \<times> nat \<Rightarrow> zvalue \<times> nat \<Rightarrow> bool" where
  "entryLe t a b \<equiv> leafCmp fl t (buf (snd (fst a))) (buf (snd (fst b))) \<le> 0"

lemmas leaf_flip = ordering.cmp_flip [OF leaf_order] and leaf_trans = ordering.cmp_trans [OF leaf_order]

lemma sortDict_ok:
  assumes srt: "sorts srt" and K: "\<forall>k \<in> set (map fst d). K t k"
  shows "\<exists>D. sortDict srt (NewValueCompareFn fl False False) (entriesOf t d) = Ok D \<and> mset D = mset (entriesOf t d) \<and> sorted_wrt (entryLe t) D"
proof -
  let ?cmp = "NewValueCompareFn fl False False" and ?es = "entriesOf t d"
  let ?lt = "\<lambda>a b. okInt (?cmp (fst a) (fst b)) < 0" and ?key = "\<lambda>a. buf (snd (fst a))"
  have e1: "\<exists>k. fst a = (t, Some k)" if "a \<in> set ?es" for a using that by (auto simp: entriesOf_def)
  have e2: "K t (?key a)" if "a \<in> set ?es" for a using that K by (auto simp: entriesOf_def)
  have cmp: "?cmp (fst a) (fst b) = ?cmp (t, Some (?key a)) (t, Some (?key b))" if ab: "a \<in> set ?es" "b \<in> set ?es" for a b
  proof -
    obtain ka kb where "fst a = (t, Some ka)" "fst b = (t, Some kb)" using e1 [OF ab(1)] e1 [OF ab(2)] by blast
    then show ?thesis by simp
  qed
  have lt: "?lt a b \<longleftrightarrow> leafCmp fl t (?key a) (?key b) < 0" if "a \<in> set ?es" "b \<in> set ?es" for a b
    unfolding cmp [OF that] by (rule refl)
  have ok: "isOk (?cmp (fst a) (fst b))" if "a \<in> set ?es" "b \<in> set ?es" for a b
    unfolding cmp [OF that] by (rule cmp_ok [OF e2 [OF that(1)] e2 [OF that(2)]])
  let ?D = "srt ?lt ?es"
  have D: "mset ?D = mset ?es" by (rule sorts_mset [OF srt])
  then have D2: "set ?D = set ?es" by (rule mset_eq_setD)
  have le: "\<not> ?lt b a \<longleftrightarrow> entryLe t a b" if "a \<in> set ?es" "b \<in> set ?es" for a b
    using lt [OF that(2,1)] leaf_flip [OF e2 [OF that(1)] e2 [OF that(2)]] by linarith
  have tr: "entryLe t a c" if "a \<in> set ?es" "b \<in> set ?es" "c \<in> set ?es" "entryLe t a b" "entryLe t b c" for a b c
    by (rule leaf_trans [OF e2 [OF that(1)] e2 [OF that(2)] e2 [OF that(3)] that(4,5)])
  have "strictWeak ?lt (set ?es)"
  proof (rule strictWeakI)
    fix a b assume ab: "a \<in> set ?es" "b \<in> set ?es" "?lt a b"
    then show "\<not> ?lt b a" using le [OF ab(1,2)] lt [OF ab(1,2)] by linarith
  next
    fix a b c assume abc: "a \<in> set ?es" "b \<in> set ?es" "c \<in> set ?es" "\<not> ?lt b a" "\<not> ?lt c b"
    then show "\<not> ?lt c a" using le [OF abc(1,2)] le [OF abc(2,3)] le [OF abc(1,3)] tr [OF abc(1-3)] by blast
  qed
  then have "ordered ?lt ?D" by (rule sorts_ordered [OF srt])
  then have "successively (entryLe t) ?D"
  proof (rule successively_mono)
    fix a b assume "a \<in> set ?D" "b \<in> set ?D" "\<not> ?lt b a"
    then show "entryLe t a b" using le [of a b] D2 by simp
  qed
  then have "sorted_wrt (entryLe t) ?D" using successively_iff_sorted_wrt_strong [of ?D "entryLe t"] tr unfolding D2 by blast
  moreover have "list_all (\<lambda>a. list_all (\<lambda>b. a = b \<or> isOk (?cmp (fst a) (fst b))) ?es) ?es" unfolding list_all_iff using ok by blast
  ultimately show ?thesis using D by (intro exI [of _ ?D]) (simp only: sortDict_def if_True simp_thms)
qed

lemma makeDict_same:
  assumes env: "envOK uncompress env" and d: "pe_dict p = Some d" "distinct (map fst d)" "\<forall>k \<in> set (map fst d). K (pe_typ p) k"
  shows "\<exists>D. makeDict (ve_sort env) (ve_rngE env) fl p = Ok D \<and> makeDict (ve_sort env) (ve_rngM env) fl p = Ok D \<and>
    mset D = mset (entriesOf (pe_typ p) d)"
proof -
  let ?t = "pe_typ p" and ?E = "ve_rngE env d" and ?M = "ve_rngM env d"
  have m: "mset ?E = mset d" "mset ?M = mset d" and srt: "sorts (ve_sort env)" using env by (auto simp: envOK_def)
  have sets: "set (map fst ?E) = set (map fst d)" "set (map fst ?M) = set (map fst d)"
    using m by (metis mset_map set_mset_mset)+
  have ms: "mset (entriesOf ?t ?E) = mset (entriesOf ?t d)" "mset (entriesOf ?t ?M) = mset (entriesOf ?t d)"
    using m by (simp_all add: entriesOf_def)
  obtain D1 D2 where D: "sortDict (ve_sort env) (NewValueCompareFn fl False False) (entriesOf ?t ?E) = Ok D1" "mset D1 = mset (entriesOf ?t d)" "sorted_wrt (entryLe ?t) D1"
    "sortDict (ve_sort env) (NewValueCompareFn fl False False) (entriesOf ?t ?M) = Ok D2" "mset D2 = mset (entriesOf ?t d)" "sorted_wrt (entryLe ?t) D2"
    using sortDict_ok [OF srt, of ?E ?t] sortDict_ok [OF srt, of ?M ?t] d(3) sets ms by metis
  have "a = b" if ab: "a \<in> set D1" "b \<in> set D1" "entryLe ?t a b" "entryLe ?t b a" for a b
  proof -
    have "set D1 = set (entriesOf ?t d)" using D(2) by (metis set_mset_mset)
    then obtain k n k' n' where e: "a = ((?t, Some k), n)" "(k, n) \<in> set d" "b = ((?t, Some k'), n')" "(k', n') \<in> set d"
      using ab(1,2) unfolding entriesOf_def by auto
    then have K: "K ?t k" "K ?t k'" using d(3) by force+
    then have "leafCmp fl ?t k k' = 0" using ab(3,4) e leaf_flip [OF K] leaf_flip [OF K(2,1)] by auto
    then have "k = k'" using leaf_inj [OF K] by blast
    then show ?thesis using e d(2) by (metis eq_key_imp_eq_value)
  qed
  then have "D1 = D2" using sorted_wrt_unique [OF D(3,6)] D(2,5) by metis
  then show ?thesis using D d(1) by (auto simp: makeDict_def entriesOf_def)
qed

section \<open>Dictionary vectors\<close>

lemma dictPos_index:
  assumes "distinct (dictKeys D)" "\<forall>e \<in> set D. snd (fst e) \<noteq> None" "i < length D"
  shows "dictPos off D (dictKeys D ! i) = Some (of_nat (off + i))"
  using assms
proof (induction D arbitrary: off i)
  case (Cons e D)
  obtain k where k: "snd (fst e) = Some k" using Cons.prems(2) by auto
  have none: "dictPos o' D k' = None" if "k' \<notin> set (dictKeys D)" for o' k'
    using that Cons.prems(2) by (induction D arbitrary: o') (auto simp: dictKeys_def split: option.splits)
  show ?case
  proof (cases i)
    case 0
    then show ?thesis using k none [of k "Suc off"] Cons.prems(1) by (simp add: dictKeys_def)
  next
    case (Suc j)
    then show ?thesis using k Cons.IH [of j "Suc off"] Cons.prems by (simp add: dictKeys_def)
  qed
qed simp

lemma dictVector_loop_ok:
  assumes "\<forall>x \<in> set xs. pos x = Some (sel x) \<and> small x"
  shows "dictVector_loop pos (plain xs) out = Ok (out @ map sel xs)"
  using assms
proof (induction xs arbitrary: out)
  case (Cons x xs)
  then show ?case using Iter_Next_Append [of "Some x" "plain xs"]
    by (simp add: dictVector_loop.simps [of pos "Append [] (Some x) @ plain xs"])
qed (simp add: dictVector_loop.simps)

lemma makeDictVector_ok:
  assumes p: "primHolds t u xs p" and d: "pe_dict p = Some d" and env: "envOK uncompress env"
  shows "\<exists>D sels. makeDictVector (ve_sort env) (ve_rngE env) fl p = Ok sels \<and> makeDict (ve_sort env) (ve_rngM env) fl p = Ok D \<and>
    length sels = length xs \<and> length D = length d \<and> (\<forall>i < length xs. unat (sels ! i) < length D \<and> snd (fst (D ! unat (sels ! i))) = Some (xs ! i))"
proof -
  have ph: "pe_typ p = t" "pe_bytes p = plain xs" "\<forall>x \<in> set xs. K t x" "distinct (map fst d)" "set (map fst d) = set xs" "length d \<le> 256"
    using p d by (auto simp: primHolds_def dictOK_def MaxDictSize_def)
  obtain D where D: "makeDict (ve_sort env) (ve_rngE env) fl p = Ok D" "makeDict (ve_sort env) (ve_rngM env) fl p = Ok D" "mset D = mset (entriesOf t d)"
    using makeDict_same [OF env d ph(4)] ph(1,3,5) by auto
  have "dictKeys (entriesOf t d) = map fst d" by (auto simp: dictKeys_def entriesOf_def)
  then have mk: "mset (dictKeys D) = mset (map fst d)" using D(3) by (metis dictKeys_def mset_map)
  have keys: "distinct (dictKeys D)" "set (dictKeys D) = set xs" "length D = length d"
    using mset_eq_imp_distinct_iff [OF mk] ph(4) mset_eq_setD [OF mk] ph(5) mset_eq_length [OF mk] by (simp_all add: dictKeys_def)
  have "set D = set (entriesOf t d)" using D(3) by (rule mset_eq_setD)
  then have some: "\<exists>k. snd (fst e) = Some k" if "e \<in> set D" for e using that by (auto simp: entriesOf_def)
  define sel where "sel x = (of_nat (SOME i. i < length D \<and> dictKeys D ! i = x) :: byte)" for x
  have idx: "\<exists>i. i < length D \<and> dictKeys D ! i = x \<and> sel x = of_nat i \<and> unat (sel x) = i" if x: "x \<in> set xs" for x
  proof -
    obtain i where i: "i < length D" "dictKeys D ! i = x" using x keys(2) by (metis in_set_conv_nth dictKeys_def length_map)
    have "(SOME i. i < length D \<and> dictKeys D ! i = x) = i"
      by (rule some_equality) (use i nth_eq_iff_index_eq [OF keys(1)] in \<open>auto simp: dictKeys_def\<close>)
    moreover have "unat (of_nat i :: byte) = i" using i(1) keys(3) ph(6) by (simp add: unat_of_nat)
    ultimately show ?thesis using i by (auto simp: sel_def)
  qed
  have "dictPos 0 D x = Some (sel x) \<and> small x" if x: "x \<in> set xs" for x
  proof -
    obtain i where i: "i < length D" "dictKeys D ! i = x" "sel x = of_nat i" using idx [OF x] by blast
    have "dictPos 0 D (dictKeys D ! i) = Some (of_nat (0 + i))" by (rule dictPos_index [OF keys(1) _ i(1)]) (use some in force)
    then show ?thesis using i leaf_small [of t x] ph(3) x by simp
  qed
  then have "dictVector_loop (dictPos 0 D) (plain xs) [] = Ok (map sel xs)" using dictVector_loop_ok [of xs "dictPos 0 D" sel "[]"] by simp
  moreover have "unat (sel (xs ! i)) < length D \<and> snd (fst (D ! unat (sel (xs ! i)))) = Some (xs ! i)" if "i < length xs" for i
  proof -
    have x: "xs ! i \<in> set xs" using that by simp
    obtain j where j: "j < length D" "dictKeys D ! j = xs ! i" "unat (sel (xs ! i)) = j" using idx [OF x] by blast
    obtain k where "snd (fst (D ! j)) = Some k" using some [of "D ! j"] j(1) by auto
    then show ?thesis using j by (simp add: dictKeys_def)
  qed
  ultimately show ?thesis using D(1,2) ph(2) keys(3) by (intro exI [of _ D] exI [of _ "map sel xs"]) (simp add: makeDictVector_def)
qed

section \<open>Reading\<close>

text \<open>The items of a primitive vector that are still to be read, before its end.\<close>

fun primReads :: "lz4u \<Rightarrow> bytes \<Rightarrow> primBuilder \<Rightarrow> bytes list \<Rightarrow> bool" where
  "primReads uncompress data p [] = (PrimitiveBuilder_ReadBytes uncompress data p = Err ioEOF)"
| "primReads uncompress data p (x # xs) =
     (\<exists>p'. PrimitiveBuilder_ReadBytes uncompress data p = Ok (Some x, p') \<and> primReads uncompress data p' xs)"

lemma primReads_rest: "\<forall>x \<in> set xs. small x \<Longrightarrow> primReads uncompress data \<lparr>pb_loc = loc, pb_rest = Some (plain xs)\<rparr> xs"
proof (induction xs)
  case (Cons x xs)
  then have "PrimitiveBuilder_ReadBytes uncompress data \<lparr>pb_loc = loc, pb_rest = Some (plain (x # xs))\<rparr> =
      Ok (Some x, \<lparr>pb_loc = loc, pb_rest = Some (plain xs)\<rparr>)"
    using Iter_Next_Append [of "Some x" "plain xs"] by (simp add: PrimitiveBuilder_ReadBytes_def)
  then show ?case using Cons by simp
qed (simp add: PrimitiveBuilder_ReadBytes_def)

lemma primReads_New:
  assumes "xs \<noteq> [] \<Longrightarrow> Segment_Read uncompress data loc = Ok (plain xs)" "\<forall>x \<in> set xs. small x"
    and "xs = [] \<Longrightarrow> seg_MemLength loc = 0 \<and> seg_CompressionFormat loc = 0"
  shows "primReads uncompress data (NewPrimitiveBuilder loc) xs"
proof (cases xs)
  case (Cons x ys)
  have "PrimitiveBuilder_ReadBytes uncompress data (NewPrimitiveBuilder loc) =
      PrimitiveBuilder_ReadBytes uncompress data \<lparr>pb_loc = loc, pb_rest = Some (plain xs)\<rparr>"
    using assms(1) Cons by (simp add: PrimitiveBuilder_ReadBytes_def NewPrimitiveBuilder_def)
  then show ?thesis using primReads_rest [OF assms(2), of uncompress data loc] Cons by simp
qed (use assms(3) in \<open>simp add: PrimitiveBuilder_ReadBytes_def NewPrimitiveBuilder_def Segment_Read_def ReadAt_def\<close>)

lemma primReads_yields: "primReads uncompress data p xs \<Longrightarrow> yields (Builder_Build (Suc n) uncompress data) (PrimitiveBuilder p) (map Some xs)"
proof (induction xs arbitrary: p)
  case (Cons x xs)
  then obtain p' where p': "PrimitiveBuilder_ReadBytes uncompress data p = Ok (Some x, p')" "primReads uncompress data p' xs" by auto
  then show ?case using Cons.IH [OF p'(2)] pushes_Append by (auto intro!: exI [of _ "PrimitiveBuilder p'"])
qed simp

lemma dict_yields:
  assumes sel: "\<forall>i < length xs. unat (sels ! i) < length D \<and> snd (fst (D ! unat (sels ! i))) = Some (xs ! i)" "length sels = length xs"
  shows "j + length ys = length xs \<Longrightarrow> ys = drop j xs \<Longrightarrow>
    yields (Builder_Build (Suc n) uncompress data) (DictBuilder \<lparr>db_loc = loc, db_dict = D, db_selectors = Some sels, db_off = j\<rparr>) (map Some ys)"
proof (induction ys arbitrary: j)
  case (Cons y ys)
  have j: "j < length xs" using Cons.prems(1) by simp
  then have y: "y = xs ! j" "ys = drop (Suc j) xs" using Cons.prems(2) by (metis Cons_nth_drop_Suc list.inject)+
  have "DictBuilder_ReadBytes uncompress data \<lparr>db_loc = loc, db_dict = D, db_selectors = Some sels, db_off = j\<rparr> =
      Ok (Some y, \<lparr>db_loc = loc, db_dict = D, db_selectors = Some sels, db_off = Suc j\<rparr>)"
    using spec [OF sel(1), of j] sel(2) j y(1) by (simp add: DictBuilder_ReadBytes_def Let_def not_le)
  then show ?case using Cons.IH [of "Suc j"] Cons.prems(1) y(2) pushes_Append
    by (auto intro!: exI [of _ "DictBuilder \<lparr>db_loc = loc, db_dict = D, db_selectors = Some sels, db_off = Suc j\<rparr>"])
qed simp

lemma dict_yields_New:
  assumes "\<forall>i < length xs. unat (sels ! i) < length D \<and> snd (fst (D ! unat (sels ! i))) = Some (xs ! i)" "length sels = length xs"
    and "xs \<noteq> [] \<Longrightarrow> Segment_Read uncompress data loc = Ok sels"
  shows "yields (Builder_Build (Suc n) uncompress data) (DictBuilder (NewDictBuilder loc D)) (map Some xs)"
proof (cases xs)
  case (Cons x ys)
  have "Builder_Build (Suc n) uncompress data (DictBuilder (NewDictBuilder loc D)) b =
      Builder_Build (Suc n) uncompress data (DictBuilder \<lparr>db_loc = loc, db_dict = D, db_selectors = Some sels, db_off = 0\<rparr>) b" for b
    using assms(3) Cons by (simp add: DictBuilder_ReadBytes_def NewDictBuilder_def Let_def)
  then show ?thesis using dict_yields [OF assms(1,2), of 0 xs n uncompress data loc] Cons by simp
qed simp

lemma const_yields: "yields (Builder_Build (Suc n) uncompress data) (ConstBuilder x (length xs)) (map (\<lambda>_. x) xs)"
  by (induction xs) (auto simp: pushes_Append intro!: exI)

section \<open>Primitive vectors\<close>

text \<open>Vectors without a dictionary, and so the vectors of integers.\<close>

lemma plain_encode:
  assumes p: "primHolds t u xs p" "pe_dict p = None \<or> pe_dict p = Some []" and env: "envOK uncompress env" "ve_fl env = fl"
  shows "\<exists>p1. primEncode env p = Ok p1 \<and> (\<forall>off. \<exists>loc mn mx. primMetadata env off p1 = Ok (off + length (pe_out p1), MPrimitive t loc [] mn mx (length xs mod 2 ^ 32), p1) \<and>
    (\<forall>pre post. length pre = off \<longrightarrow> primReads uncompress (pre @ pe_out p1 @ post) (NewPrimitiveBuilder loc) xs))"
proof -
  have ph: "pe_typ p = t" "pe_bytes p = plain xs" "\<forall>x \<in> set xs. K t x" "pe_count p = length xs mod 2 ^ 32"
    and nodict: "pe_dict p = Some [] \<Longrightarrow> xs = []" using p by (auto simp: primHolds_def dictOK_def)
  obtain fmt out where c: "compressBuffer (ve_compress env) (plain xs) = Ok (fmt, out)"
    and r: "plain xs \<noteq> [] \<Longrightarrow> Segment_Read uncompress (pre @ out @ post) (segmentOf (length pre) (plain xs) fmt out) = Ok (plain xs)" for pre post
    using compressBuffer_ok [OF env(1), of "plain xs"] by blast
  have dv: "(if pe_dict p \<noteq> None then makeDictVector (ve_sort env) (ve_rngE env) (ve_fl env) p else Ok (pe_bytes p)) = Ok (plain xs)"
  proof (cases "pe_dict p")
    case (Some d)
    then have "pe_dict p = Some []" "xs = []" using p(2) nodict by auto
    then obtain D sels where "makeDictVector (ve_sort env) (ve_rngE env) fl p = Ok sels" "length sels = length xs"
      using makeDictVector_ok [OF p(1) _ env(1)] by blast
    then show ?thesis using \<open>xs = []\<close> Some env(2) by simp
  qed (simp add: ph(2))
  let ?p1 = "p\<lparr>pe_bytes := [], pe_bytesLen := length (plain xs), pe_format := fmt, pe_out := out\<rparr>"
  have e: "primEncode env p = Ok ?p1" using dv c by (simp add: primEncode_def PrimitiveEncoder_Encode_def)
  have m: "primMetadata env off ?p1 = Ok (off + length out, MPrimitive t (segmentOf off (plain xs) fmt out) [] (pe_min p) (pe_max p) (length xs mod 2 ^ 32), ?p1)" for off
    using p(2) ph by (auto simp: primMetadata_def PrimitiveEncoder_Metadata_def PrimitiveEncoder_segment_def segmentOf_def)
  have "plain xs \<noteq> []" if "xs \<noteq> []" using that by (cases xs) auto
  then have "primReads uncompress (pre @ out @ post) (NewPrimitiveBuilder (segmentOf (length pre) (plain xs) fmt out)) xs" for pre post
    by (intro primReads_New r) (use ph(3) leaf_small c in \<open>auto simp: segmentOf_def compressBuffer_def\<close>)
  then show ?thesis using e m by (intro exI [of _ ?p1]) auto
qed

text \<open>The vectors of a column of leaves: plain, constant or with a dictionary.\<close>

lemma prim_encode:
  assumes p: "primHolds t u xs p" and env: "envOK uncompress env" "ve_fl env = fl" and n: "length xs < 2 ^ 32"
  shows "\<exists>p1. primEncode env p = Ok p1 \<and> (\<forall>off. \<exists>m p2. primMetadata env off p1 = Ok (off + length (pe_out p2), m, p2) \<and> Metadata_Len m = length xs \<and>
    (\<forall>pre post. length pre = off \<longrightarrow> (\<exists>vb. NewBuilderOf m = Ok vb \<and> 1 \<le> depth vb \<and>
       (\<forall>n \<ge> depth vb. yields (Builder_Build n uncompress (pre @ pe_out p2 @ post)) vb (map Some xs)))))"
proof (cases "pe_dict p = None \<or> pe_dict p = Some []")
  case True
  obtain p1 where p1: "primEncode env p = Ok p1"
    "\<And>off. \<exists>loc mn mx. primMetadata env off p1 = Ok (off + length (pe_out p1), MPrimitive t loc [] mn mx (length xs mod 2 ^ 32), p1) \<and>
      (\<forall>pre post. length pre = off \<longrightarrow> primReads uncompress (pre @ pe_out p1 @ post) (NewPrimitiveBuilder loc) xs)"
    using plain_encode [OF p True env] by blast
  show ?thesis
  proof (rule exI [of _ p1], intro conjI allI, rule p1(1))
    fix off
    obtain loc mn mx where m: "primMetadata env off p1 = Ok (off + length (pe_out p1), MPrimitive t loc [] mn mx (length xs mod 2 ^ 32), p1)"
      "\<forall>pre post. length pre = off \<longrightarrow> primReads uncompress (pre @ pe_out p1 @ post) (NewPrimitiveBuilder loc) xs" using p1(2) by blast
    have "yields (Builder_Build k uncompress (pre @ pe_out p1 @ post)) (PrimitiveBuilder (NewPrimitiveBuilder loc)) (map Some xs)"
      if "length pre = off" "1 \<le> k" for pre post k
      using primReads_yields [of uncompress "pre @ pe_out p1 @ post" "NewPrimitiveBuilder loc" xs "k - 1"] m(2) that by simp
    then show "\<exists>m p2. primMetadata env off p1 = Ok (off + length (pe_out p2), m, p2) \<and> Metadata_Len m = length xs \<and>
      (\<forall>pre post. length pre = off \<longrightarrow> (\<exists>vb. NewBuilderOf m = Ok vb \<and> 1 \<le> depth vb \<and>
       (\<forall>n \<ge> depth vb. yields (Builder_Build n uncompress (pre @ pe_out p2 @ post)) vb (map Some xs))))"
      using m(1) n by (intro exI [of _ "MPrimitive t loc [] mn mx (length xs mod 2 ^ 32)"] exI [of _ p1]) simp
  qed
next
  case False
  then obtain d where d: "pe_dict p = Some d" "d \<noteq> []" by auto
  have ph: "pe_typ p = t" "pe_bytes p = plain xs" "\<forall>x \<in> set xs. K t x" "pe_count p = length xs" "distinct (map fst d)" "set (map fst d) = set xs"
    using p d(1) n by (auto simp: primHolds_def dictOK_def)
  obtain D sels where s: "makeDictVector (ve_sort env) (ve_rngE env) fl p = Ok sels" "makeDict (ve_sort env) (ve_rngM env) fl p = Ok D"
    "length sels = length xs" "length D = length d" "\<forall>i < length xs. unat (sels ! i) < length D \<and> snd (fst (D ! unat (sels ! i))) = Some (xs ! i)"
    using makeDictVector_ok [OF p d(1) env(1)] by blast
  obtain fmt out where c: "compressBuffer (ve_compress env) sels = Ok (fmt, out)"
    and r: "sels \<noteq> [] \<Longrightarrow> Segment_Read uncompress (pre @ out @ post) (segmentOf (length pre) sels fmt out) = Ok sels" for pre post
    using compressBuffer_ok [OF env(1), of sels] by blast
  let ?p1 = "p\<lparr>pe_bytes := [], pe_bytesLen := length sels, pe_format := fmt, pe_out := out\<rparr>"
  have e: "primEncode env p = Ok ?p1" using s(1) c d env(2) by (simp add: primEncode_def PrimitiveEncoder_Encode_def)
  have mk: "makeDict (ve_sort env) (ve_rngM env) fl ?p1 = Ok D" using s(2) by (simp add: makeDict_def)
  show ?thesis
  proof (rule exI [of _ ?p1], intro conjI allI, rule e)
    fix off
    show "\<exists>m p2. primMetadata env off ?p1 = Ok (off + length (pe_out p2), m, p2) \<and> Metadata_Len m = length xs \<and>
      (\<forall>pre post. length pre = off \<longrightarrow> (\<exists>vb. NewBuilderOf m = Ok vb \<and> 1 \<le> depth vb \<and>
       (\<forall>n \<ge> depth vb. yields (Builder_Build n uncompress (pre @ pe_out p2 @ post)) vb (map Some xs))))"
    proof (cases "\<exists>k c. d = [(k, c)]")
      case True
      then obtain k c where k: "d = [(k, c)]" by blast
      then have same: "map Some xs = map (\<lambda>_. Some k) xs" using ph(6) by auto
      have "primMetadata env off ?p1 = Ok (off, MConst (t, Some k) (length xs), ?p1\<lparr>pe_out := []\<rparr>)"
        using d(1) k ph by (simp add: primMetadata_def PrimitiveEncoder_Metadata_def)
      moreover have "yields (Builder_Build j uncompress data) (ConstBuilder (Some k) (length xs)) (map Some xs)" if "1 \<le> j" for j data
        unfolding same using const_yields [of "j - 1" uncompress data "Some k" xs] that by simp
      ultimately show ?thesis by (intro exI [of _ "MConst (t, Some k) (length xs)"] exI [of _ "?p1\<lparr>pe_out := []\<rparr>"]) simp
    next
      case False
      then have many: "\<not> (\<exists>k c. pe_dict ?p1 = Some [(k, c)])" using d by simp
      let ?m = "MPrimitive t (segmentOf off sels fmt out) D (pe_min p) (pe_max p) (length xs)"
      have "primMetadata env off ?p1 = Ok (off + length out, ?m, ?p1)"
        using d many mk env(2) ph by (auto simp: primMetadata_def PrimitiveEncoder_Metadata_def PrimitiveEncoder_segment_def segmentOf_def split: list.splits)
      moreover have "yields (Builder_Build j uncompress (pre @ out @ post)) (DictBuilder (NewDictBuilder (segmentOf off sels fmt out) D)) (map Some xs)"
        if "length pre = off" "1 \<le> j" for pre post j
        using dict_yields_New [OF s(5,3), of uncompress "pre @ out @ post" "segmentOf off sels fmt out" "j - 1"] r [of pre post] that s(3) by fastforce
      moreover have "D \<noteq> []" using s(4) d(2) by auto
      ultimately show ?thesis by (intro exI [of _ ?m] exI [of _ ?p1]) simp
    qed
  qed
qed

end

end
