(* ===== verification/VngLaws.thy ===== *)
theory VngLaws
  imports VngPrimLaws
begin

text \<open>Every encoder lays its values out so that the builders read them back, provided its parts do.\<close>

section \<open>Vectors of integers\<close>

definition encInt :: "u64 \<Rightarrow> bytes" where
  "encInt v = (case EncodeInt v of Ok b \<Rightarrow> b | _ \<Rightarrow> [])"

lemma EncodeInt_encInt: "EncodeInt v = Ok (encInt v)" and DecodeInt_encInt: "DecodeInt (Some (encInt v)) = v"
  and encInt_short: "length (encInt v) \<le> 8"
  by (simp_all only: encInt_def EncodeInt_eq result.case DecodeInt_def buf_simps unzigzag length_digits256_le_8)

text \<open>The integers that are still to be read from a vector, before its end.\<close>

fun intReads :: "lz4u \<Rightarrow> bytes \<Rightarrow> primBuilder \<Rightarrow> u64 list \<Rightarrow> bool" where
  "intReads uncompress data p [] = (Int64Decoder_Next uncompress data p = Err ioEOF)"
| "intReads uncompress data p (v # vs) = (\<exists>p'. Int64Decoder_Next uncompress data p = Ok (v, p') \<and> intReads uncompress data p' vs)"

context vngLeaves
begin

abbreviation intHolds :: "u64 list \<Rightarrow> primEncoder \<Rightarrow> bool" where
  "intHolds vs p \<equiv> primHolds (TypePrimitive TypeInt64) False (map encInt vs) p"

lemma intHolds_New: "intHolds [] NewInt64Encoder"
  unfolding NewInt64Encoder_def list.map by (rule primHolds_New)

lemma Int64Encoder_Write_ok: "intHolds vs p \<Longrightarrow> \<exists>p'. Int64Encoder_Write fl p v = Ok p' \<and> intHolds (vs @ [v]) p'"
  using PrimitiveEncoder_Write_ok [of _ False "map encInt vs" p "encInt v"] leaf_int [OF EncodeInt_encInt]
  by (auto simp: Int64Encoder_Write_def EncodeInt_encInt)

lemma primReads_ints: "primReads uncompress data p (map encInt vs) \<Longrightarrow> intReads uncompress data p vs"
  by (induction vs arbitrary: p) (auto simp: Int64Decoder_Next_def DecodeInt_encInt)

lemma int_encode:
  assumes p: "intHolds vs p" and env: "envOK uncompress env" "ve_fl env = fl"
  shows "\<exists>p1. primEncode env p = Ok p1 \<and> (\<forall>off. \<exists>loc. primLocation env off p1 = Ok (off + length (pe_out p1), loc, p1) \<and>
    (\<forall>pre post. length pre = off \<longrightarrow> intReads uncompress (pre @ pe_out p1 @ post) (NewPrimitiveBuilder loc) vs))"
proof -
  have "pe_dict p = None" using p by (auto simp: primHolds_def split: option.splits)
  then obtain p1 where p1: "primEncode env p = Ok p1"
    "\<And>off. \<exists>loc mn mx. primMetadata env off p1 = Ok (off + length (pe_out p1), MPrimitive (TypePrimitive TypeInt64) loc [] mn mx (length (map encInt vs) mod 2 ^ 32), p1) \<and>
      (\<forall>pre post. length pre = off \<longrightarrow> primReads uncompress (pre @ pe_out p1 @ post) (NewPrimitiveBuilder loc) (map encInt vs))"
    using plain_encode [OF p _ env] by blast
  show ?thesis
  proof (rule exI [of _ p1], intro conjI allI, rule p1(1))
    fix off
    show "\<exists>loc. primLocation env off p1 = Ok (off + length (pe_out p1), loc, p1) \<and>
      (\<forall>pre post. length pre = off \<longrightarrow> intReads uncompress (pre @ pe_out p1 @ post) (NewPrimitiveBuilder loc) vs)"
      using p1(2) [of off] primReads_ints by (auto simp: primLocation_def locationOf_def)
  qed
qed

end

section \<open>What a laid out encoder promises\<close>

text \<open>\<open>builds uncompress data m vs\<close>: the builder of the metadata yields \<open>vs\<close> from the data.\<close>

definition builds :: "lz4u \<Rightarrow> bytes \<Rightarrow> metadata \<Rightarrow> zbytes list \<Rightarrow> bool" where
  "builds uncompress data m vs \<longleftrightarrow> (\<exists>vb. NewBuilderOf m = Ok vb \<and> 1 \<le> depth vb \<and> (\<forall>n \<ge> depth vb. yields (Builder_Build n uncompress data) vb vs))"

definition laid :: "lz4u \<Rightarrow> vngEnv \<Rightarrow> vencoder \<Rightarrow> zbytes list \<Rightarrow> bool" where
  "laid uncompress env e vs \<longleftrightarrow> (\<exists>e1. Encoder_Encode env e = Ok e1 \<and>
     (\<forall>off. \<exists>m e2. Encoder_Metadata env off e1 = Ok (off + length (Encoder_Emit e2), m, e2) \<and> Metadata_Len m = length vs \<and>
       (\<forall>pre post. length pre = off \<longrightarrow> builds uncompress (pre @ Encoder_Emit e2 @ post) m vs)))"

lemma laidE:
  assumes "laid uncompress env e vs"
  obtains e1 m e2 where "Encoder_Encode env e = Ok e1"
    "\<And>off. Encoder_Metadata env off e1 = Ok (off + length (Encoder_Emit (e2 off)), m off, e2 off)" "\<And>off. Metadata_Len (m off) = length vs"
    "\<And>off pre post. length pre = off \<Longrightarrow> builds uncompress (pre @ Encoder_Emit (e2 off) @ post) (m off) vs"
proof -
  obtain e1 where e1: "Encoder_Encode env e = Ok e1" "\<forall>off. \<exists>m e2. Encoder_Metadata env off e1 = Ok (off + length (Encoder_Emit e2), m, e2) \<and> Metadata_Len m = length vs \<and>
       (\<forall>pre post. length pre = off \<longrightarrow> builds uncompress (pre @ Encoder_Emit e2 @ post) m vs)"
    using assms unfolding laid_def by blast
  then obtain m e2 where "\<forall>off. Encoder_Metadata env off e1 = Ok (off + length (Encoder_Emit (e2 off)), m off, e2 off) \<and> Metadata_Len (m off) = length vs \<and>
       (\<forall>pre post. length pre = off \<longrightarrow> builds uncompress (pre @ Encoder_Emit (e2 off) @ post) (m off) vs)" by metis
  then show thesis using that [OF e1(1), of e2 m] by blast
qed

lemma laidI:
  assumes "Encoder_Encode env e = Ok e1" "\<And>off. Encoder_Metadata env off e1 = Ok (off + length (Encoder_Emit (e2 off)), m off, e2 off)"
    "\<And>off. Metadata_Len (m off) = length vs" "\<And>off pre post. length pre = off \<Longrightarrow> builds uncompress (pre @ Encoder_Emit (e2 off) @ post) (m off) vs"
  shows "laid uncompress env e vs"
  unfolding laid_def using assms by blast

lemma laid_named: "laid uncompress env e vs \<Longrightarrow> laid uncompress env (NamedEncoder name e) vs"
proof (erule laidE)
  fix e1 m e2 assume "Encoder_Encode env e = Ok e1"
    "\<And>off. Encoder_Metadata env off e1 = Ok (off + length (Encoder_Emit (e2 off)), m off, e2 off)" "\<And>off. Metadata_Len (m off) = length vs"
    "\<And>off pre post. length pre = off \<Longrightarrow> builds uncompress (pre @ Encoder_Emit (e2 off) @ post) (m off) vs"
  then show ?thesis
    by (intro laidI [where ?e1.0 = "NamedEncoder name e1" and ?e2.0 = "\<lambda>off. NamedEncoder name (e2 off)" and m = "\<lambda>off. MNamed name (m off)"]) (simp_all add: builds_def)
qed

lemma laid_error: "laid uncompress env e vs \<Longrightarrow> laid uncompress env (ErrorEncoder e) vs"
proof (erule laidE)
  fix e1 m e2 assume "Encoder_Encode env e = Ok e1"
    "\<And>off. Encoder_Metadata env off e1 = Ok (off + length (Encoder_Emit (e2 off)), m off, e2 off)" "\<And>off. Metadata_Len (m off) = length vs"
    "\<And>off pre post. length pre = off \<Longrightarrow> builds uncompress (pre @ Encoder_Emit (e2 off) @ post) (m off) vs"
  then show ?thesis
    by (intro laidI [where ?e1.0 = "ErrorEncoder e1" and ?e2.0 = "\<lambda>off. ErrorEncoder (e2 off)" and m = "\<lambda>off. MError (m off)"]) (simp_all add: builds_def)
qed

section \<open>Several values\<close>

abbreviation items :: "zbytes list \<Rightarrow> bytes" where
  "items xs \<equiv> concat (map (Append []) xs)"

definition pushesAll :: "zbytes list \<Rightarrow> builder \<Rightarrow> builder \<Rightarrow> bool" where
  "pushesAll xs b b' \<longleftrightarrow> Builder_inv b' \<and> Builder_frames b' = push_top (items xs) (Builder_frames b)"

lemma pushesAll_Nil: "Builder_inv b \<Longrightarrow> pushesAll [] b b"
  by (simp add: pushesAll_def)

lemma pushesAll_Cons: "pushes x b b1 \<Longrightarrow> pushesAll xs b1 b2 \<Longrightarrow> pushesAll (x # xs) b b2"
  by (simp add: pushesAll_def pushes_def)

lemma pushes_inv: "pushes x b b1 \<Longrightarrow> Builder_inv b1"
  by (simp add: pushes_def)

text \<open>A container holds what was pushed between its begin and its end.\<close>

lemma container_pushes:
  assumes b: "Builder_inv b" and xs: "pushesAll xs (BeginContainer b) b1"
  shows "\<exists>b2. EndContainer b1 = Ok b2 \<and> pushes (Some (items xs)) b b2"
proof -
  have f: "Builder_frames b1 = items xs # Builder_frames b" "Builder_inv b1" using xs zb.frames_bgn [OF b] by (auto simp: pushesAll_def)
  obtain g gs where g: "Builder_frames b = g # gs" using zb.frames_nonempty [OF b] by (cases "Builder_frames b") auto
  show ?thesis using zb.endc_frames [OF f(2)] f(1) g by (auto simp: pushes_def)
qed

lemma yields_buildTimes:
  "yields step v (xs @ ys) \<Longrightarrow> \<exists>v'. (\<forall>b. Builder_inv b \<longrightarrow> (\<exists>b'. buildTimes step (length xs) v b = Ok (v', b') \<and> pushesAll xs b b')) \<and> yields step v' ys"
proof (induction xs arbitrary: v)
  case (Cons x xs)
  then obtain v1 where v1: "\<forall>b. Builder_inv b \<longrightarrow> (\<exists>b'. step v b = Ok (v1, b') \<and> pushes x b b')" "yields step v1 (xs @ ys)" by auto
  obtain v2 where v2: "\<forall>b. Builder_inv b \<longrightarrow> (\<exists>b'. buildTimes step (length xs) v1 b = Ok (v2, b') \<and> pushesAll xs b b')" "yields step v2 ys"
    using Cons.IH [OF v1(2)] by blast
  have "\<exists>b'. buildTimes step (length (x # xs)) v b = Ok (v2, b') \<and> pushesAll (x # xs) b b'" if b: "Builder_inv b" for b
  proof -
    obtain b1 where b1: "step v b = Ok (v1, b1)" "pushes x b b1" using v1(1) b by blast
    obtain b2 where "buildTimes step (length xs) v1 b1 = Ok (v2, b2)" "pushesAll xs b1 b2" using v2(1) pushes_inv [OF b1(2)] by blast
    then show ?thesis using b1 pushesAll_Cons by auto
  qed
  then show ?case using v2(2) by blast
qed (auto intro!: exI pushesAll_Nil)

lemma yields_buildEach:
  "list_all2 (\<lambda>v c. \<exists>x xs. c = x # xs \<and> yields step v c) vs cs \<Longrightarrow>
   \<exists>vs'. (\<forall>b. Builder_inv b \<longrightarrow> (\<exists>b'. buildEach step vs b = Ok (vs', b') \<and> pushesAll (map hd cs) b b')) \<and> list_all2 (\<lambda>v c. yields step v (tl c)) vs' cs"
proof (induction rule: list_all2_induct)
  case (Cons v vs c cs)
  then obtain x xs v1 where c: "c = x # xs" and v1: "\<forall>b. Builder_inv b \<longrightarrow> (\<exists>b'. step v b = Ok (v1, b') \<and> pushes x b b')" "yields step v1 xs" by auto
  obtain vs' where vs': "\<forall>b. Builder_inv b \<longrightarrow> (\<exists>b'. buildEach step vs b = Ok (vs', b') \<and> pushesAll (map hd cs) b b')" "list_all2 (\<lambda>v c. yields step v (tl c)) vs' cs"
    using Cons.IH by blast
  have "\<exists>b'. buildEach step (v # vs) b = Ok (v1 # vs', b') \<and> pushesAll (map hd (c # cs)) b b'" if b: "Builder_inv b" for b
  proof -
    obtain b1 where b1: "step v b = Ok (v1, b1)" "pushes x b b1" using v1(1) b by blast
    obtain b2 where "buildEach step vs b1 = Ok (vs', b2)" "pushesAll (map hd cs) b1 b2" using vs'(1) pushes_inv [OF b1(2)] by blast
    then show ?thesis using b1 pushesAll_Cons c by auto
  qed
  then show ?case using vs'(2) v1(2) c by (intro exI [of _ "v1 # vs'"]) simp
qed (auto intro!: pushesAll_Nil)

section \<open>Parts laid out one after the other\<close>

text \<open>The encoders of \<open>es\<close> hold the columns \<open>cs\<close>; \<open>builds\<close> of each of them from the bytes of all of them.\<close>

abbreviation emitAll :: "vencoder list \<Rightarrow> bytes" where
  "emitAll es \<equiv> concat (map Encoder_Emit es)"

lemma laid_parts:
  assumes "list_all2 (laid uncompress env) es cs"
  shows "\<exists>es1. traverseR (Encoder_Encode env) es = Ok es1 \<and> length es1 = length es \<and>
    (\<forall>off. \<exists>ms es2. layout (Encoder_Metadata env) off es1 = Ok (off + length (emitAll es2), ms, es2) \<and> length es2 = length es \<and>
       list_all2 (\<lambda>m c. Metadata_Len m = length c) ms cs \<and>
       (\<forall>pre post. length pre = off \<longrightarrow> list_all2 (builds uncompress (pre @ emitAll es2 @ post)) ms cs))"
  using assms
proof (induction rule: list_all2_induct)
  case (Cons e es c cs)
  obtain e1 m e2 where e: "Encoder_Encode env e = Ok e1"
    "\<And>off. Encoder_Metadata env off e1 = Ok (off + length (Encoder_Emit (e2 off)), m off, e2 off)" "\<And>off. Metadata_Len (m off) = length c"
    "\<And>off pre post. length pre = off \<Longrightarrow> builds uncompress (pre @ Encoder_Emit (e2 off) @ post) (m off) c"
    by (rule laidE [OF Cons.hyps(1)]) (rule that)
  obtain es1 where es1: "traverseR (Encoder_Encode env) es = Ok es1" "length es1 = length es" and
    more: "\<And>off. \<exists>ms es2. layout (Encoder_Metadata env) off es1 = Ok (off + length (emitAll es2), ms, es2) \<and> length es2 = length es \<and>
       list_all2 (\<lambda>m c. Metadata_Len m = length c) ms cs \<and>
       (\<forall>pre post. length pre = off \<longrightarrow> list_all2 (builds uncompress (pre @ emitAll es2 @ post)) ms cs)" using Cons.IH by blast
  have "\<exists>ms es2. layout (Encoder_Metadata env) off (e1 # es1) = Ok (off + length (emitAll es2), ms, es2) \<and> length es2 = length (e # es) \<and>
       list_all2 (\<lambda>m c. Metadata_Len m = length c) ms (c # cs) \<and>
       (\<forall>pre post. length pre = off \<longrightarrow> list_all2 (builds uncompress (pre @ emitAll es2 @ post)) ms (c # cs))" for off
  proof -
    obtain ms es2 where l: "layout (Encoder_Metadata env) (off + length (Encoder_Emit (e2 off))) es1 = Ok (off + length (Encoder_Emit (e2 off)) + length (emitAll es2), ms, es2)"
      "length es2 = length es" "list_all2 (\<lambda>m c. Metadata_Len m = length c) ms cs"
      "\<forall>pre post. length pre = off + length (Encoder_Emit (e2 off)) \<longrightarrow> list_all2 (builds uncompress (pre @ emitAll es2 @ post)) ms cs"
      using more [of "off + length (Encoder_Emit (e2 off))"] by blast
    have "list_all2 (builds uncompress (pre @ emitAll (e2 off # es2) @ post)) (m off # ms) (c # cs)" if "length pre = off" for pre post
      using e(4) [OF that, of "emitAll es2 @ post"] spec [OF spec [OF l(4), of "pre @ Encoder_Emit (e2 off)"], of post] that by simp
    then show ?thesis using e(2,3) l(1-3) by (intro exI [of _ "m off # ms"] exI [of _ "e2 off # es2"]) simp
  qed
  then show ?case using e(1) es1 by (intro exI [of _ "e1 # es1"]) simp
qed simp

lemma laid_partsE:
  assumes "list_all2 (laid uncompress env) es cs"
  obtains es1 ms es2 where "traverseR (Encoder_Encode env) es = Ok es1" "length es1 = length es"
    "\<And>off. layout (Encoder_Metadata env) off es1 = Ok (off + length (emitAll (es2 off)), ms off, es2 off)"
    "\<And>off. length (es2 off) = length es" "\<And>off. list_all2 (\<lambda>m c. Metadata_Len m = length c) (ms off) cs"
    "\<And>off pre post. length pre = off \<Longrightarrow> list_all2 (builds uncompress (pre @ emitAll (es2 off) @ post)) (ms off) cs"
proof -
  obtain es1 where es1: "traverseR (Encoder_Encode env) es = Ok es1" "length es1 = length es"
    "\<forall>off. \<exists>ms es2. layout (Encoder_Metadata env) off es1 = Ok (off + length (emitAll es2), ms, es2) \<and> length es2 = length es \<and>
       list_all2 (\<lambda>m c. Metadata_Len m = length c) ms cs \<and>
       (\<forall>pre post. length pre = off \<longrightarrow> list_all2 (builds uncompress (pre @ emitAll es2 @ post)) ms cs)"
    using laid_parts [OF assms] by blast
  then obtain ms es2 where "\<forall>off. layout (Encoder_Metadata env) off es1 = Ok (off + length (emitAll (es2 off)), ms off, es2 off) \<and> length (es2 off) = length es \<and>
       list_all2 (\<lambda>m c. Metadata_Len m = length c) (ms off) cs \<and>
       (\<forall>pre post. length pre = off \<longrightarrow> list_all2 (builds uncompress (pre @ emitAll (es2 off) @ post)) (ms off) cs)" by metis
  then show thesis using that [OF es1(1,2), of es2 ms] by blast
qed

text \<open>The builders of several parts.\<close>

lemma builds_parts:
  "list_all2 (builds uncompress data) ms cs \<Longrightarrow> \<exists>vbs. traverseR NewBuilderOf ms = Ok vbs \<and>
     (\<forall>n \<ge> foldr max (map depth vbs) 0. list_all2 (\<lambda>vb c. yields (Builder_Build n uncompress data) vb c) vbs cs)"
proof (induction rule: list_all2_induct)
  case (Cons m ms c cs)
  obtain vb where vb: "NewBuilderOf m = Ok vb" "\<forall>n \<ge> depth vb. yields (Builder_Build n uncompress data) vb c" using Cons.hyps(1) unfolding builds_def by blast
  then show ?case using Cons.IH by auto
qed auto

end
