(* ===== verification/VngYields.thy ===== *)
theory VngYields
  imports VngLaws
begin

text \<open>The builders of nulls, arrays, sets, maps, records and unions yield their values when the builders of their parts do.\<close>

section \<open>Runs of nulls\<close>

text \<open>The runs of a \<open>Nulls\<close> vector alternate, beginning with values.\<close>

fun expand :: "bool \<Rightarrow> u64 list \<Rightarrow> bool list" where
  "expand null [] = []"
| "expand null (r # rs) = replicate (unat r) null @ expand (\<not> null) rs"

lemma expand_append: "expand null (rs @ rs') = expand null rs @ expand (null = even (length rs)) rs'"
proof (induction rs arbitrary: null)
  case (Cons r rs)
  have "((\<not> null) = even (length rs)) = (null = even (length (r # rs)))" by auto
  then show ?case using Cons [of "\<not> null"] by (simp del: length_Cons)
qed simp

lemma unat_pred: "w \<noteq> 0 \<Longrightarrow> unat w = Suc (unat (w - 1))" for w :: u64
  using unat_minus_one [of w] unat_gt_0 [of w] by simp

lemma expand_zero: "expand null (rs @ [0]) = expand null rs"
  by (simp add: expand_append)

lemma nullsRun_ok:
  "intReads uncompress data p rs \<Longrightarrow> replicate (unat run) null @ expand (\<not> null) rs = b # bs \<Longrightarrow>
   \<exists>p' run' rs'. nullsRun uncompress data p null run = Ok (p', b, run') \<and> intReads uncompress data p' rs' \<and>
     bs = replicate (unat (run' - 1)) b @ expand (\<not> b) rs'"
proof (induction rs arbitrary: p null run)
  case Nil
  then have "run \<noteq> 0" by auto
  then show ?case using Nil unat_pred [of run] by (intro exI [of _ p] exI [of _ run] exI [of _ "[]"]) (auto simp: nullsRun.simps)
next
  case (Cons r rs)
  show ?case
  proof (cases "run = 0")
    case True
    obtain p1 where p1: "Int64Decoder_Next uncompress data p = Ok (r, p1)" "intReads uncompress data p1 rs" using Cons.prems(1) by auto
    show ?thesis using Cons.IH [OF p1(2), of r "\<not> null"] Cons.prems(2) p1(1) True by (simp add: nullsRun.simps [of _ _ p])
  next
    case False
    then show ?thesis using Cons.prems unat_pred [of run] by (intro exI [of _ p] exI [of _ run] exI [of _ "r # rs"]) (auto simp: nullsRun.simps)
  qed
qed

lemma nulls_yields:
  "intReads uncompress data p rs \<Longrightarrow> replicate (unat run) null @ expand (\<not> null) rs = map (\<lambda>v. v = None) vs \<Longrightarrow>
   yields (Builder_Build n uncompress data) inner (filter (\<lambda>v. v \<noteq> None) vs) \<Longrightarrow>
   yields (Builder_Build (Suc n) uncompress data) (NullsBuilder inner p null run) vs"
proof (induction vs arbitrary: p rs run null inner)
  case (Cons v vs)
  obtain p' run' rs' where r: "nullsRun uncompress data p null run = Ok (p', v = None, run')" "intReads uncompress data p' rs'"
    "map (\<lambda>v. v = None) vs = replicate (unat (run' - 1)) (v = None) @ expand (v \<noteq> None) rs'"
    using nullsRun_ok [OF Cons.prems(1), of run null "v = None"] Cons.prems(2) by auto
  show ?case
  proof (cases v)
    case None
    then have "yields (Builder_Build (Suc n) uncompress data) (NullsBuilder inner p' True (run' - 1)) vs"
      using Cons.IH [OF r(2), of "run' - 1" True inner] r(3) Cons.prems(3) None by simp
    then show ?thesis using r(1) None pushes_Append by (auto intro!: exI [of _ "NullsBuilder inner p' True (run' - 1)"])
  next
    case (Some x)
    obtain inner' where i: "\<forall>b. Builder_inv b \<longrightarrow> (\<exists>b'. Builder_Build n uncompress data inner b = Ok (inner', b') \<and> pushes v b b')"
      "yields (Builder_Build n uncompress data) inner' (filter (\<lambda>v. v \<noteq> None) vs)" using Cons.prems(3) Some by auto
    have "yields (Builder_Build (Suc n) uncompress data) (NullsBuilder inner' p' False (run' - 1)) vs"
      using Cons.IH [OF r(2), of "run' - 1" False inner'] r(3) i(2) Some by simp
    moreover have "\<exists>b'. Builder_Build (Suc n) uncompress data (NullsBuilder inner p null run) b = Ok (NullsBuilder inner' p' False (run' - 1), b') \<and> pushes v b b'"
      if b: "Builder_inv b" for b
    proof -
      obtain b' where "Builder_Build n uncompress data inner b = Ok (inner', b')" "pushes v b b'" using i(1) b by blast
      then show ?thesis using r(1) Some by simp
    qed
    ultimately show ?thesis by auto
  qed
qed simp

lemma builds_nulls:
  assumes "builds uncompress data m (filter (\<lambda>v. v \<noteq> None) vs)" "intReads uncompress data (NewPrimitiveBuilder loc) rs" "expand False rs = map (\<lambda>v. v = None) vs"
  shows "builds uncompress data (MNulls loc m cnt) vs"
proof -
  obtain vb where vb: "NewBuilderOf m = Ok vb" "\<And>n. n \<ge> depth vb \<Longrightarrow> yields (Builder_Build n uncompress data) vb (filter (\<lambda>v. v \<noteq> None) vs)"
    using assms(1) unfolding builds_def by blast
  have "yields (Builder_Build k uncompress data) (NullsBuilder vb (NewPrimitiveBuilder loc) True 0) vs" if "Suc (depth vb) \<le> k" for k
    using nulls_yields [OF assms(2), of 0 True vs "k - 1" vb] assms(3) vb(2) [of "k - 1"] that by (cases k) auto
  then show ?thesis using vb(1) by (simp add: builds_def)
qed

lemma traverseR_map: "traverseR f (map g xs) = traverseR (\<lambda>x. f (g x)) xs"
  by (induction xs) auto

section \<open>Arrays and sets\<close>

abbreviation body :: "zbytes list \<Rightarrow> zbytes" where
  "body its \<equiv> Some (items its)"

abbreviation lens :: "'a list list \<Rightarrow> u64 list" where
  "lens xss \<equiv> map (\<lambda>xs. of_nat (length xs)) xss"

lemma array_yields:
  "intReads uncompress data p (lens itss) \<Longrightarrow> \<forall>its \<in> set itss. length its < 2 ^ 63 \<Longrightarrow>
   yields (Builder_Build n uncompress data) elems (concat itss) \<Longrightarrow>
   yields (Builder_Build (Suc n) uncompress data) (ArrayBuilder elems p) (map body itss)"
proof (induction itss arbitrary: p elems)
  case (Cons its itss)
  obtain p1 where p1: "Int64Decoder_Next uncompress data p = Ok (of_nat (length its), p1)" "intReads uncompress data p1 (lens itss)" using Cons.prems(1) by auto
  obtain elems' where e: "\<forall>b. Builder_inv b \<longrightarrow> (\<exists>b'. buildTimes (Builder_Build n uncompress data) (length its) elems b = Ok (elems', b') \<and> pushesAll its b b')"
    "yields (Builder_Build n uncompress data) elems' (concat itss)" using yields_buildTimes [of "Builder_Build n uncompress data" elems its "concat itss"] Cons.prems(3) by auto
  have "\<exists>b'. Builder_Build (Suc n) uncompress data (ArrayBuilder elems p) b = Ok (ArrayBuilder elems' p1, b') \<and> pushes (body its) b b'" if b: "Builder_inv b" for b
  proof -
    obtain b1 where b1: "buildTimes (Builder_Build n uncompress data) (length its) elems (BeginContainer b) = Ok (elems', b1)" "pushesAll its (BeginContainer b) b1"
      using e(1) zb.invar_bgn [OF b] by blast
    obtain b2 where "EndContainer b1 = Ok b2" "pushes (body its) b b2" using container_pushes [OF b b1(2)] by blast
    then show ?thesis using p1(1) b1(1) sint_of_nat_small [of "length its"] Cons.prems(2) by simp
  qed
  moreover have "yields (Builder_Build (Suc n) uncompress data) (ArrayBuilder elems' p1) (map body itss)" by (rule Cons.IH) (use p1 e(2) Cons.prems(2) in simp_all)
  ultimately show ?case by auto
qed simp

lemma builds_array:
  assumes "builds uncompress data m (concat itss)" "intReads uncompress data (NewPrimitiveBuilder loc) (lens itss)" "\<forall>its \<in> set itss. length its < 2 ^ 63"
  shows "builds uncompress data (MArray cnt loc m) (map body itss)" "builds uncompress data (MSet cnt loc m) (map body itss)"
proof -
  obtain vb where vb: "NewBuilderOf m = Ok vb" "\<And>n. n \<ge> depth vb \<Longrightarrow> yields (Builder_Build n uncompress data) vb (concat itss)"
    using assms(1) unfolding builds_def by blast
  have "yields (Builder_Build k uncompress data) (ArrayBuilder vb (NewPrimitiveBuilder loc)) (map body itss)" if "Suc (depth vb) \<le> k" for k
    using array_yields [OF assms(2,3), of "k - 1" vb] vb(2) [of "k - 1"] that by (cases k) auto
  then show "builds uncompress data (MArray cnt loc m) (map body itss)" "builds uncompress data (MSet cnt loc m) (map body itss)"
    using vb(1) by (simp_all add: builds_def)
qed

section \<open>Maps\<close>

abbreviation flat :: "('a \<times> 'a) list \<Rightarrow> 'a list" where
  "flat kvs \<equiv> concat (map (\<lambda>(k, v). [k, v]) kvs)"

abbreviation pairStep :: "('a \<Rightarrow> builder \<Rightarrow> ('a \<times> builder) go) \<Rightarrow> 'a \<times> 'a \<Rightarrow> builder \<Rightarrow> (('a \<times> 'a) \<times> builder) go" where
  "pairStep step \<equiv> (\<lambda>(keys, values) b. bindR (step keys b) (\<lambda>(keys, b). bindR (step values b) (\<lambda>(values, b). Ok ((keys, values), b))))"

lemma yields_pairs:
  "yields step ks (map fst kvs @ xs) \<Longrightarrow> yields step vs (map snd kvs @ ys) \<Longrightarrow>
   \<exists>ks' vs'. (\<forall>b. Builder_inv b \<longrightarrow> (\<exists>b'. buildTimes (pairStep step) (length kvs) (ks, vs) b = Ok ((ks', vs'), b') \<and> pushesAll (flat kvs) b b')) \<and>
     yields step ks' xs \<and> yields step vs' ys"
proof (induction kvs arbitrary: ks vs)
  case (Cons kv kvs)
  obtain ks1 where k: "\<forall>b. Builder_inv b \<longrightarrow> (\<exists>b'. step ks b = Ok (ks1, b') \<and> pushes (fst kv) b b')" "yields step ks1 (map fst kvs @ xs)" using Cons.prems(1) by auto
  obtain vs1 where v: "\<forall>b. Builder_inv b \<longrightarrow> (\<exists>b'. step vs b = Ok (vs1, b') \<and> pushes (snd kv) b b')" "yields step vs1 (map snd kvs @ ys)" using Cons.prems(2) by auto
  obtain ks' vs' where i: "\<forall>b. Builder_inv b \<longrightarrow> (\<exists>b'. buildTimes (pairStep step) (length kvs) (ks1, vs1) b = Ok ((ks', vs'), b') \<and> pushesAll (flat kvs) b b')"
    "yields step ks' xs" "yields step vs' ys" using Cons.IH [OF k(2) v(2)] by blast
  have "\<exists>b'. buildTimes (pairStep step) (length (kv # kvs)) (ks, vs) b = Ok ((ks', vs'), b') \<and> pushesAll (flat (kv # kvs)) b b'" if b: "Builder_inv b" for b
  proof -
    obtain b1 where b1: "step ks b = Ok (ks1, b1)" "pushes (fst kv) b b1" using k(1) b by blast
    obtain b2 where b2: "step vs b1 = Ok (vs1, b2)" "pushes (snd kv) b1 b2" using v(1) pushes_inv [OF b1(2)] by blast
    obtain b3 where b3: "buildTimes (pairStep step) (length kvs) (ks1, vs1) b2 = Ok ((ks', vs'), b3)" "pushesAll (flat kvs) b2 b3" using i(1) pushes_inv [OF b2(2)] by blast
    have "flat (kv # kvs) = fst kv # snd kv # flat kvs" by (simp add: case_prod_beta)
    then have "pushesAll (flat (kv # kvs)) b b3" using pushesAll_Cons [OF b1(2) pushesAll_Cons [OF b2(2) b3(2)]] by simp
    then show ?thesis using b1(1) b2(1) b3(1) by simp
  qed
  then show ?case using i(2,3) by blast
qed (auto intro!: exI pushesAll_Nil)

lemma map_yields:
  "intReads uncompress data p (lens kvss) \<Longrightarrow> \<forall>kvs \<in> set kvss. length kvs < 2 ^ 63 \<Longrightarrow>
   yields (Builder_Build n uncompress data) ks (map fst (concat kvss)) \<Longrightarrow> yields (Builder_Build n uncompress data) vs (map snd (concat kvss)) \<Longrightarrow>
   yields (Builder_Build (Suc n) uncompress data) (MapBuilder ks vs p) (map (\<lambda>kvs. body (flat kvs)) kvss)"
proof (induction kvss arbitrary: p ks vs)
  case (Cons kvs kvss)
  obtain p1 where p1: "Int64Decoder_Next uncompress data p = Ok (of_nat (length kvs), p1)" "intReads uncompress data p1 (lens kvss)" using Cons.prems(1) by auto
  obtain ks' vs' where e: "\<forall>b. Builder_inv b \<longrightarrow> (\<exists>b'. buildTimes (pairStep (Builder_Build n uncompress data)) (length kvs) (ks, vs) b = Ok ((ks', vs'), b') \<and> pushesAll (flat kvs) b b')"
    "yields (Builder_Build n uncompress data) ks' (map fst (concat kvss))" "yields (Builder_Build n uncompress data) vs' (map snd (concat kvss))"
    using yields_pairs [of "Builder_Build n uncompress data" ks kvs "map fst (concat kvss)" vs "map snd (concat kvss)"] Cons.prems(3,4) by (simp only: list.map concat.simps map_append) blast
  have "\<exists>b'. Builder_Build (Suc n) uncompress data (MapBuilder ks vs p) b = Ok (MapBuilder ks' vs' p1, b') \<and> pushes (body (flat kvs)) b b'" if b: "Builder_inv b" for b
  proof -
    obtain b1 where b1: "buildTimes (pairStep (Builder_Build n uncompress data)) (length kvs) (ks, vs) (BeginContainer b) = Ok ((ks', vs'), b1)" "pushesAll (flat kvs) (BeginContainer b) b1"
      using e(1) zb.invar_bgn [OF b] by blast
    obtain b2 where "EndContainer b1 = Ok b2" "pushes (body (flat kvs)) b b2" using container_pushes [OF b b1(2)] by blast
    then show ?thesis using p1(1) b1(1) sint_of_nat_small [of "length kvs"] Cons.prems(2) by simp
  qed
  moreover have "yields (Builder_Build (Suc n) uncompress data) (MapBuilder ks' vs' p1) (map (\<lambda>kvs. body (flat kvs)) kvss)"
    by (rule Cons.IH) (use p1 e(2,3) Cons.prems(2) in simp_all)
  ultimately show ?case by auto
qed simp

lemma builds_map:
  assumes "builds uncompress data km (map fst (concat kvss))" "builds uncompress data vm (map snd (concat kvss))"
    "intReads uncompress data (NewPrimitiveBuilder loc) (lens kvss)" "\<forall>kvs \<in> set kvss. length kvs < 2 ^ 63"
  shows "builds uncompress data (MMap cnt loc km vm) (map (\<lambda>kvs. body (flat kvs)) kvss)"
proof -
  obtain ks where ks: "NewBuilderOf km = Ok ks" "\<And>n. n \<ge> depth ks \<Longrightarrow> yields (Builder_Build n uncompress data) ks (map fst (concat kvss))"
    using assms(1) unfolding builds_def by blast
  obtain vs where vs: "NewBuilderOf vm = Ok vs" "\<And>n. n \<ge> depth vs \<Longrightarrow> yields (Builder_Build n uncompress data) vs (map snd (concat kvss))"
    using assms(2) unfolding builds_def by blast
  have "yields (Builder_Build k uncompress data) (MapBuilder ks vs (NewPrimitiveBuilder loc)) (map (\<lambda>kvs. body (flat kvs)) kvss)" if "Suc (max (depth ks) (depth vs)) \<le> k" for k
    using map_yields [OF assms(3,4), of "k - 1" ks vs] ks(2) [of "k - 1"] vs(2) [of "k - 1"] that by (cases k) auto
  then show ?thesis using ks(1) vs(1) by (simp add: builds_def)
qed

section \<open>Records\<close>

text \<open>The columns of rows of \<open>k\<close> fields.\<close>

abbreviation column :: "zbytes list list \<Rightarrow> nat \<Rightarrow> zbytes list" where
  "column rows i \<equiv> map (\<lambda>row. row ! i) rows"

abbreviation columns :: "nat \<Rightarrow> zbytes list list \<Rightarrow> zbytes list list" where
  "columns k rows \<equiv> map (column rows) [0..<k]"

lemma record_yields:
  "list_all2 (yields (Builder_Build n uncompress data)) vbs (columns (length vbs) rows) \<Longrightarrow> \<forall>row \<in> set rows. length row = length vbs \<Longrightarrow>
   yields (Builder_Build (Suc n) uncompress data) (VRecordBuilder vbs) (map body rows)"
proof (induction rows arbitrary: vbs)
  case (Cons row rows)
  let ?step = "Builder_Build n uncompress data" and ?cs = "columns (length vbs) (row # rows)"
  have "list_all2 (\<lambda>v c. \<exists>x xs. c = x # xs \<and> yields ?step v c) vbs ?cs" using Cons.prems(1) by (auto simp: list_all2_conv_all_nth)
  then obtain vbs' where v: "\<forall>b. Builder_inv b \<longrightarrow> (\<exists>b'. buildEach ?step vbs b = Ok (vbs', b') \<and> pushesAll (map hd ?cs) b b')"
    "list_all2 (\<lambda>v c. yields ?step v (tl c)) vbs' ?cs" using yields_buildEach by blast
  have len: "length vbs' = length vbs" using list_all2_lengthD [OF v(2)] by simp
  have row: "map hd ?cs = row" using Cons.prems(2) by (auto intro: nth_equalityI)
  have "\<exists>b'. Builder_Build (Suc n) uncompress data (VRecordBuilder vbs) b = Ok (VRecordBuilder vbs', b') \<and> pushes (body row) b b'" if b: "Builder_inv b" for b
  proof -
    obtain b1 where b1: "buildEach ?step vbs (BeginContainer b) = Ok (vbs', b1)" "pushesAll row (BeginContainer b) b1"
      using v(1) zb.invar_bgn [OF b] row by metis
    obtain b2 where "EndContainer b1 = Ok b2" "pushes (body row) b b2" using container_pushes [OF b b1(2)] by blast
    then show ?thesis using b1(1) by simp
  qed
  moreover have "list_all2 (yields ?step) vbs' (columns (length vbs') rows)" using v(2) len by (auto simp: list_all2_conv_all_nth)
  then have "yields (Builder_Build (Suc n) uncompress data) (VRecordBuilder vbs') (map body rows)" by (rule Cons.IH) (use Cons.prems(2) len in simp)
  ultimately show ?case by auto
qed simp

lemma builds_record:
  assumes ms: "list_all2 (builds uncompress data) (map snd flds) (columns (length flds) rows)" and rows: "\<forall>row \<in> set rows. length row = length flds"
  shows "builds uncompress data (MRecord cnt flds) (map body rows)"
proof -
  obtain vbs where v: "traverseR NewBuilderOf (map snd flds) = Ok vbs"
    "\<And>n. n \<ge> foldr max (map depth vbs) 0 \<Longrightarrow> list_all2 (yields (Builder_Build n uncompress data)) vbs (columns (length flds) rows)"
    using builds_parts [OF ms] by blast
  have len: "length vbs = length flds" using list_all2_lengthD [OF v(2) [OF order_refl]] by simp
  have tr: "traverseR (\<lambda>f. NewBuilderOf (snd f)) flds = Ok vbs" using v(1) by (simp add: traverseR_map)
  have "yields (Builder_Build k uncompress data) (VRecordBuilder vbs) (map body rows)" if "Suc (foldr max (map depth vbs) 0) \<le> k" for k
    using record_yields [of "k - 1" uncompress data vbs rows] v(2) [of "k - 1"] rows len that by (cases k) auto
  then show ?thesis using tr by (simp add: builds_def)
qed

section \<open>Unions\<close>

text \<open>The values of a union with their tags, and those with the tag \<open>i\<close>.\<close>

abbreviation tagVals :: "(nat \<times> zbytes) list \<Rightarrow> nat \<Rightarrow> zbytes list" where
  "tagVals tvs i \<equiv> map snd (filter (\<lambda>tv. fst tv = i) tvs)"

abbreviation unionBody :: "nat \<times> zbytes \<Rightarrow> zbytes" where
  "unionBody tv \<equiv> body [Some (encInt (of_nat (fst tv))), snd tv]"

lemma union_yields:
  "intReads uncompress data p (map (\<lambda>tv. of_nat (fst tv)) tvs) \<Longrightarrow> \<forall>tv \<in> set tvs. fst tv < length vbs \<and> fst tv < 2 ^ 63 \<Longrightarrow>
   \<forall>i < length vbs. yields (Builder_Build n uncompress data) (vbs ! i) (tagVals tvs i) \<Longrightarrow>
   yields (Builder_Build (Suc n) uncompress data) (UnionBuilder vbs p) (map unionBody tvs)"
proof (induction tvs arbitrary: p vbs)
  case (Cons tv tvs)
  let ?step = "Builder_Build n uncompress data"
  obtain i v where tv: "tv = (i, v)" by (cases tv)
  have i: "i < length vbs" using Cons.prems(2) tv by simp
  have si: "sint (of_nat i :: u64) = int i" using Cons.prems(2) tv by (simp add: sint_of_nat_small)
  obtain p1 where p1: "Int64Decoder_Next uncompress data p = Ok (of_nat i, p1)" "intReads uncompress data p1 (map (\<lambda>tv. of_nat (fst tv)) tvs)" using Cons.prems(1) tv by auto
  obtain vb where vb: "\<forall>b. Builder_inv b \<longrightarrow> (\<exists>b'. ?step (vbs ! i) b = Ok (vb, b') \<and> pushes v b b')" "yields ?step vb (tagVals tvs i)"
    using spec [OF Cons.prems(3), of i] i tv by auto
  have "\<exists>b'. Builder_Build (Suc n) uncompress data (UnionBuilder vbs p) b = Ok (UnionBuilder (vbs[i := vb]) p1, b') \<and> pushes (unionBody tv) b b'" if b: "Builder_inv b" for b
  proof -
    let ?b0 = "Builder_Append (BeginContainer b) (Some (encInt (of_nat i)))"
    have b0: "pushes (Some (encInt (of_nat i))) (BeginContainer b) ?b0" by (rule pushes_Append [OF zb.invar_bgn [OF b]])
    obtain b1 where b1: "?step (vbs ! i) ?b0 = Ok (vb, b1)" "pushes v ?b0 b1" using vb(1) pushes_inv [OF b0] by blast
    have "pushesAll [Some (encInt (of_nat i)), v] (BeginContainer b) b1"
      by (rule pushesAll_Cons [OF b0 pushesAll_Cons [OF b1(2) pushesAll_Nil [OF pushes_inv [OF b1(2)]]]])
    then obtain b2 where "EndContainer b1 = Ok b2" "pushes (body [Some (encInt (of_nat i)), v]) b b2" using container_pushes [OF b] by blast
    then show ?thesis using p1(1) b1(1) si i tv by (simp add: EncodeInt_encInt)
  qed
  moreover have "yields (Builder_Build (Suc n) uncompress data) (UnionBuilder (vbs[i := vb]) p1) (map unionBody tvs)"
  proof (rule Cons.IH [OF p1(2)])
    have "yields ?step (vbs[i := vb] ! j) (tagVals tvs j)" if "j < length vbs" for j
      using spec [OF Cons.prems(3), of j] vb(2) tv i that by (cases "j = i") auto
    then show "\<forall>j < length (vbs[i := vb]). yields ?step (vbs[i := vb] ! j) (tagVals tvs j)" by simp
  qed (use Cons.prems(2) in auto)
  ultimately show ?case by auto
qed simp

lemma builds_union:
  assumes ms: "list_all2 (builds uncompress data) ms (map (tagVals tvs) [0..<length ms])" and tags: "intReads uncompress data (NewPrimitiveBuilder loc) (map (\<lambda>tv. of_nat (fst tv)) tvs)"
    and tvs: "\<forall>tv \<in> set tvs. fst tv < length ms \<and> fst tv < 2 ^ 63"
  shows "builds uncompress data (MUnion cnt loc ms) (map unionBody tvs)"
proof -
  obtain vbs where v: "traverseR NewBuilderOf ms = Ok vbs"
    "\<And>n. n \<ge> foldr max (map depth vbs) 0 \<Longrightarrow> list_all2 (yields (Builder_Build n uncompress data)) vbs (map (tagVals tvs) [0..<length ms])"
    using builds_parts [OF ms] by blast
  have len: "length vbs = length ms" using list_all2_lengthD [OF v(2) [OF order_refl]] by simp
  have "yields (Builder_Build k uncompress data) (UnionBuilder vbs (NewPrimitiveBuilder loc)) (map unionBody tvs)" if "Suc (foldr max (map depth vbs) 0) \<le> k" for k
    using union_yields [OF tags, of vbs "k - 1"] v(2) [of "k - 1"] tvs len that by (cases k) (auto simp: list_all2_conv_all_nth)
  then show ?thesis using v(1) by (simp add: builds_def)
qed

end
