(* ===== verification/VngLaid.thy ===== *)
theory VngLaid
  imports VngYields
begin

text \<open>Every encoder lays its values out so that the builders read them back, provided its parts do.\<close>

section \<open>Named parts\<close>

lemma traverseR_named: "traverseR (\<lambda>f. bindR (g (snd f)) (\<lambda>e. Ok (fst f, e))) flds = mapR (zip (map fst flds)) (traverseR g (map snd flds))"
proof (induction flds)
  case (Cons f flds)
  then show ?case by (cases "g (snd f)"; cases "traverseR g (map snd flds)") (auto simp: mapR_def)
qed (simp add: mapR_def)

lemma layout_named:
  "length names = length es \<Longrightarrow>
   layout (\<lambda>off f. bindR (g off (snd f)) (\<lambda>(off, m, e). Ok (off, (fst f, m), (fst f, e)))) off (zip names es) =
   bindR (layout g off es) (\<lambda>(off, ms, es). Ok (off, zip names ms, zip names es))"
proof (induction names es arbitrary: off rule: list_induct2)
  case (Cons name names e es)
  show ?case
  proof (cases "g off e")
    case (Ok r)
    obtain off' m e' where r: "r = (off', m, e')" by (cases r)
    show ?thesis using Cons.IH [of off'] Ok r by (cases "layout g off' es") auto
  qed auto
qed simp

context vngLeaves
begin

section \<open>Vectors of leaves and of integers\<close>

lemma laid_primitive:
  assumes p: "primHolds t u xs p" and env: "envOK uncompress env" "ve_fl env = fl" and n: "length xs < 2 ^ 32"
  shows "laid uncompress env (PrimitiveEncoder p) (map Some xs)"
proof -
  obtain p1 where p1: "primEncode env p = Ok p1" "\<forall>off. \<exists>m p2. primMetadata env off p1 = Ok (off + length (pe_out p2), m, p2) \<and> Metadata_Len m = length xs \<and>
    (\<forall>pre post. length pre = off \<longrightarrow> builds uncompress (pre @ pe_out p2 @ post) m (map Some xs))"
    using prim_encode [OF assms] unfolding builds_def by blast
  then obtain m p2 where "\<forall>off. primMetadata env off p1 = Ok (off + length (pe_out (p2 off)), m off, p2 off) \<and> Metadata_Len (m off) = length xs \<and>
    (\<forall>pre post. length pre = off \<longrightarrow> builds uncompress (pre @ pe_out (p2 off) @ post) (m off) (map Some xs))" by metis
  then show ?thesis using p1(1)
    by (intro laidI [where ?e1.0 = "PrimitiveEncoder p1" and ?e2.0 = "\<lambda>off. PrimitiveEncoder (p2 off)" and m = m]) simp_all
qed

lemma intE:
  assumes "intHolds vs p" "envOK uncompress env" "ve_fl env = fl"
  obtains p1 loc where "primEncode env p = Ok p1" "\<And>off. primLocation env off p1 = Ok (off + length (pe_out p1), loc off, p1)"
    "\<And>off pre post. length pre = off \<Longrightarrow> intReads uncompress (pre @ pe_out p1 @ post) (NewPrimitiveBuilder (loc off)) vs"
proof -
  obtain p1 where p1: "primEncode env p = Ok p1" "\<forall>off. \<exists>loc. primLocation env off p1 = Ok (off + length (pe_out p1), loc, p1) \<and>
    (\<forall>pre post. length pre = off \<longrightarrow> intReads uncompress (pre @ pe_out p1 @ post) (NewPrimitiveBuilder loc) vs)"
    using int_encode [OF assms] by blast
  then obtain loc where "\<forall>off. primLocation env off p1 = Ok (off + length (pe_out p1), loc off, p1) \<and>
    (\<forall>pre post. length pre = off \<longrightarrow> intReads uncompress (pre @ pe_out p1 @ post) (NewPrimitiveBuilder (loc off)) vs)" by metis
  then show thesis using that [OF p1(1), of loc] by blast
qed

section \<open>Nulls\<close>

lemma NullsEncoder_runs_ok:
  assumes "intHolds rs runs" "unat run < 2 ^ 63"
  shows "\<exists>runs' rs'. NullsEncoder_runs fl runs run = Ok runs' \<and> intHolds rs' runs' \<and> expand b rs' = expand b (rs @ [run])"
proof (cases "run = 0")
  case True
  then show ?thesis using assms(1) by (intro exI [of _ runs] exI [of _ rs]) (simp add: NullsEncoder_runs_def expand_zero)
next
  case False
  then have "sint run > 0" using sint_of_nat_small [OF assms(2)] uint_0_iff [of run] by (simp add: less_le)
  moreover obtain runs' where "Int64Encoder_Write fl runs run = Ok runs'" "intHolds (rs @ [run]) runs'"
    using Int64Encoder_Write_ok [OF assms(1), of run] by blast
  ultimately show ?thesis by (intro exI [of _ runs'] exI [of _ "rs @ [run]"]) (simp add: NullsEncoder_runs_def)
qed

lemma laid_nulls:
  assumes e: "laid uncompress env e (filter (\<lambda>v. v \<noteq> None) vs)" and rs: "intHolds rs runs" "expand False (rs @ [run]) = map (\<lambda>v. v = None) vs"
    and n: "length vs < 2 ^ 32" "cnt = length (filter (\<lambda>v. v = None) vs)" and env: "envOK uncompress env" "ve_fl env = fl"
  shows "laid uncompress env (NullsEncoder e runs run null cnt) vs"
proof -
  obtain e1 m e2 where l: "Encoder_Encode env e = Ok e1"
    "\<And>off. Encoder_Metadata env off e1 = Ok (off + length (Encoder_Emit (e2 off)), m off, e2 off)" "\<And>off. Metadata_Len (m off) = length (filter (\<lambda>v. v \<noteq> None) vs)"
    "\<And>off pre post. length pre = off \<Longrightarrow> builds uncompress (pre @ Encoder_Emit (e2 off) @ post) (m off) (filter (\<lambda>v. v \<noteq> None) vs)"
    by (rule laidE [OF e]) (rule that)
  show ?thesis
  proof (cases "cnt = 0")
    case True
    then have "filter (\<lambda>v. v \<noteq> None) vs = vs" using n(2) by (simp add: filter_empty_conv filter_id_conv)
    then show ?thesis using l True
      by (intro laidI [where ?e1.0 = "NullsEncoder e1 runs run null cnt" and ?e2.0 = "\<lambda>off. NullsEncoder (e2 off) runs run null cnt" and m = m]) simp_all
  next
    case False
    have "unat run \<le> length (expand False (rs @ [run]))" by (simp add: expand_append)
    then have "unat run < 2 ^ 63" using rs(2) n(1) by simp
    then obtain runs' rs' where r: "NullsEncoder_runs fl runs run = Ok runs'" "intHolds rs' runs'" "expand False rs' = map (\<lambda>v. v = None) vs"
      using NullsEncoder_runs_ok [OF rs(1), of run False] rs(2) by auto
    obtain p1 loc where p: "primEncode env runs' = Ok p1" "\<And>off. primLocation env off p1 = Ok (off + length (pe_out p1), loc off, p1)"
      "\<And>off pre post. length pre = off \<Longrightarrow> intReads uncompress (pre @ pe_out p1 @ post) (NewPrimitiveBuilder (loc off)) rs'"
      by (rule intE [OF r(2) env]) (rule that)
    let ?loc = "\<lambda>off. loc (off + length (Encoder_Emit (e2 off)))"
    have len: "(cnt + length (filter (\<lambda>v. v \<noteq> None) vs)) mod 2 ^ 32 = length vs" using n sum_length_filter_compl [of "\<lambda>v. v = None" vs] by simp
    have b: "builds uncompress (pre @ (Encoder_Emit (e2 off) @ pe_out p1) @ post) (MNulls (?loc off) (m off) cnt) vs" if "length pre = off" for off pre post
      using builds_nulls [OF _ p(3) [of "pre @ Encoder_Emit (e2 off)", OF refl] r(3)] l(4) [OF that, of "pe_out p1 @ post"] that by simp
    show ?thesis
      by (rule laidI [where ?e1.0 = "NullsEncoder e1 p1 run null cnt" and ?e2.0 = "\<lambda>off. NullsEncoder (e2 off) p1 run null cnt" and m = "\<lambda>off. MNulls (?loc off) (m off) cnt"])
        (use l(1-3) p(1,2) r(1) env(2) False len b in simp_all)
  qed
qed

section \<open>Arrays, sets and maps\<close>

lemma laid_array:
  assumes e: "laid uncompress env e (concat itss)" and ls: "intHolds (lens itss) lengths" and n: "\<forall>its \<in> set itss. length its < 2 ^ 63" "cnt = length itss"
    and env: "envOK uncompress env" "ve_fl env = fl"
  shows "laid uncompress env (ArrayEncoder e lengths cnt) (map body itss)" "laid uncompress env (SetEncoder e lengths cnt) (map body itss)"
proof -
  obtain e1 m e2 where l: "Encoder_Encode env e = Ok e1"
    "\<And>off. Encoder_Metadata env off e1 = Ok (off + length (Encoder_Emit (e2 off)), m off, e2 off)" "\<And>off. Metadata_Len (m off) = length (concat itss)"
    "\<And>off pre post. length pre = off \<Longrightarrow> builds uncompress (pre @ Encoder_Emit (e2 off) @ post) (m off) (concat itss)"
    by (rule laidE [OF e]) (rule that)
  obtain p1 loc where p: "primEncode env lengths = Ok p1" "\<And>off. primLocation env off p1 = Ok (off + length (pe_out p1), loc off, p1)"
    "\<And>off pre post. length pre = off \<Longrightarrow> intReads uncompress (pre @ pe_out p1 @ post) (NewPrimitiveBuilder (loc off)) (lens itss)"
    by (rule intE [OF ls env]) (rule that)
  let ?off = "\<lambda>off. off + length (pe_out p1)"
  have b: "builds uncompress (pre @ (pe_out p1 @ Encoder_Emit (e2 (?off off))) @ post) (MArray cnt (loc off) (m (?off off))) (map body itss)"
    "builds uncompress (pre @ (pe_out p1 @ Encoder_Emit (e2 (?off off))) @ post) (MSet cnt (loc off) (m (?off off))) (map body itss)" if "length pre = off" for off pre post
    using builds_array [OF _ p(3) [OF that] n(1)] l(4) [of "pre @ pe_out p1" "?off off"] that by simp_all
  show "laid uncompress env (ArrayEncoder e lengths cnt) (map body itss)"
    by (rule laidI [where ?e1.0 = "ArrayEncoder e1 p1 cnt" and ?e2.0 = "\<lambda>off. ArrayEncoder (e2 (?off off)) p1 cnt" and m = "\<lambda>off. MArray cnt (loc off) (m (?off off))"])
      (use l(1-3) p(1,2) n(2) b in simp_all)
  show "laid uncompress env (SetEncoder e lengths cnt) (map body itss)"
    by (rule laidI [where ?e1.0 = "SetEncoder e1 p1 cnt" and ?e2.0 = "\<lambda>off. SetEncoder (e2 (?off off)) p1 cnt" and m = "\<lambda>off. MSet cnt (loc off) (m (?off off))"])
      (use l(1-3) p(1,2) n(2) b in simp_all)
qed

lemma laid_map:
  assumes k: "laid uncompress env ke (map fst (concat kvss))" and v: "laid uncompress env ve (map snd (concat kvss))" and ls: "intHolds (lens kvss) lengths"
    and n: "\<forall>kvs \<in> set kvss. length kvs < 2 ^ 63" "cnt = length kvss" and env: "envOK uncompress env" "ve_fl env = fl"
  shows "laid uncompress env (MapEncoder ke ve lengths cnt) (map (\<lambda>kvs. body (flat kvs)) kvss)"
proof -
  obtain k1 km k2 where kl: "Encoder_Encode env ke = Ok k1"
    "\<And>off. Encoder_Metadata env off k1 = Ok (off + length (Encoder_Emit (k2 off)), km off, k2 off)" "\<And>off. Metadata_Len (km off) = length (map fst (concat kvss))"
    "\<And>off pre post. length pre = off \<Longrightarrow> builds uncompress (pre @ Encoder_Emit (k2 off) @ post) (km off) (map fst (concat kvss))"
    by (rule laidE [OF k]) (rule that)
  obtain v1 vm v2 where vl: "Encoder_Encode env ve = Ok v1"
    "\<And>off. Encoder_Metadata env off v1 = Ok (off + length (Encoder_Emit (v2 off)), vm off, v2 off)" "\<And>off. Metadata_Len (vm off) = length (map snd (concat kvss))"
    "\<And>off pre post. length pre = off \<Longrightarrow> builds uncompress (pre @ Encoder_Emit (v2 off) @ post) (vm off) (map snd (concat kvss))"
    by (rule laidE [OF v]) (rule that)
  obtain p1 loc where p: "primEncode env lengths = Ok p1" "\<And>off. primLocation env off p1 = Ok (off + length (pe_out p1), loc off, p1)"
    "\<And>off pre post. length pre = off \<Longrightarrow> intReads uncompress (pre @ pe_out p1 @ post) (NewPrimitiveBuilder (loc off)) (lens kvss)"
    by (rule intE [OF ls env]) (rule that)
  define ko where "ko off = off + length (pe_out p1)" for off
  define vo where "vo off = ko off + length (Encoder_Emit (k2 (ko off)))" for off
  have b: "builds uncompress (pre @ (pe_out p1 @ Encoder_Emit (k2 (ko off)) @ Encoder_Emit (v2 (vo off))) @ post) (MMap cnt (loc off) (km (ko off)) (vm (vo off)))
      (map (\<lambda>kvs. body (flat kvs)) kvss)" if off: "length pre = off" for off pre post
  proof (rule builds_map [OF _ _ _ n(1)])
    let ?data = "pre @ (pe_out p1 @ Encoder_Emit (k2 (ko off)) @ Encoder_Emit (v2 (vo off))) @ post"
    show "builds uncompress ?data (km (ko off)) (map fst (concat kvss))" using kl(4) [of "pre @ pe_out p1" "ko off"] off by (simp add: ko_def)
    show "builds uncompress ?data (vm (vo off)) (map snd (concat kvss))"
      using vl(4) [of "pre @ pe_out p1 @ Encoder_Emit (k2 (ko off))" "vo off"] off by (simp add: vo_def ko_def)
    show "intReads uncompress ?data (NewPrimitiveBuilder (loc off)) (lens kvss)" using p(3) [OF off] by simp
  qed
  show ?thesis
    by (rule laidI [where ?e1.0 = "MapEncoder k1 v1 p1 cnt" and ?e2.0 = "\<lambda>off. MapEncoder (k2 (ko off)) (v2 (vo off)) p1 cnt" and m = "\<lambda>off. MMap cnt (loc off) (km (ko off)) (vm (vo off))"])
      (use kl(1,2) vl(1,2) p(1,2) n(2) b in \<open>simp_all add: ko_def vo_def\<close>)
qed

section \<open>Records and unions\<close>

lemma laid_record:
  assumes es: "list_all2 (laid uncompress env) (map snd flds) (columns (length flds) rows)" and n: "\<forall>row \<in> set rows. length row = length flds" "cnt = length rows"
  shows "laid uncompress env (RecordEncoder flds cnt) (map body rows)"
proof -
  let ?names = "map fst flds"
  obtain es1 ms es2 where es1: "traverseR (Encoder_Encode env) (map snd flds) = Ok es1" "length es1 = length (map snd flds)"
    and l: "\<And>off. layout (Encoder_Metadata env) off es1 = Ok (off + length (emitAll (es2 off)), ms off, es2 off)"
    "\<And>off. length (es2 off) = length (map snd flds)" "\<And>off. list_all2 (\<lambda>m c. Metadata_Len m = length c) (ms off) (columns (length flds) rows)"
    "\<And>off pre post. length pre = off \<Longrightarrow> list_all2 (builds uncompress (pre @ emitAll (es2 off) @ post)) (ms off) (columns (length flds) rows)"
    by (rule laid_partsE [OF es]) (rule that)
  have len: "length (ms off) = length flds" for off using list_all2_lengthD [OF l(3)] by simp
  have e: "Encoder_Encode env (RecordEncoder flds cnt) = Ok (RecordEncoder (zip ?names es1) cnt)" using es1(1) by (simp add: traverseR_named mapR_def)
  have m: "Encoder_Metadata env off (RecordEncoder (zip ?names es1) cnt) = Ok (off + length (emitAll (es2 off)), MRecord cnt (zip ?names (ms off)), RecordEncoder (zip ?names (es2 off)) cnt)" for off
    using l(1) [of off] es1(2) by (simp add: layout_named)
  have emit: "Encoder_Emit (RecordEncoder (zip ?names (es2 off)) cnt) = emitAll (es2 off)" for off
    using l(2) [of off] map_snd_zip [of ?names "es2 off"] by (simp flip: map_map [unfolded comp_def])
  have "builds uncompress (pre @ emitAll (es2 off) @ post) (MRecord cnt (zip ?names (ms off))) (map body rows)" if "length pre = off" for off pre post
    by (rule builds_record) (use l(4) [OF that] n(1) len in simp_all)
  then show ?thesis
    by (intro laidI [where ?e1.0 = "RecordEncoder (zip ?names es1) cnt" and ?e2.0 = "\<lambda>off. RecordEncoder (zip ?names (es2 off)) cnt" and m = "\<lambda>off. MRecord cnt (zip ?names (ms off))"] e)
      (simp_all only: m emit Metadata_Len.simps length_map, rule n(2))
qed

lemma laid_union:
  assumes es: "list_all2 (laid uncompress env) es (map (tagVals tvs) [0..<length es])" and ts: "intHolds (map (\<lambda>tv. of_nat (fst tv)) tvs) tags"
    and n: "\<forall>tv \<in> set tvs. fst tv < length es \<and> fst tv < 2 ^ 63" "cnt = length tvs" and env: "envOK uncompress env" "ve_fl env = fl"
  shows "laid uncompress env (UnionEncoder i tys es tags cnt) (map unionBody tvs)"
proof -
  obtain es1 ms es2 where es1: "traverseR (Encoder_Encode env) es = Ok es1" "length es1 = length es"
    and l: "\<And>off. layout (Encoder_Metadata env) off es1 = Ok (off + length (emitAll (es2 off)), ms off, es2 off)"
    "\<And>off. length (es2 off) = length es" "\<And>off. list_all2 (\<lambda>m c. Metadata_Len m = length c) (ms off) (map (tagVals tvs) [0..<length es])"
    "\<And>off pre post. length pre = off \<Longrightarrow> list_all2 (builds uncompress (pre @ emitAll (es2 off) @ post)) (ms off) (map (tagVals tvs) [0..<length es])"
    by (rule laid_partsE [OF es]) (rule that)
  obtain p1 loc where p: "primEncode env tags = Ok p1" "\<And>off. primLocation env off p1 = Ok (off + length (pe_out p1), loc off, p1)"
    "\<And>off pre post. length pre = off \<Longrightarrow> intReads uncompress (pre @ pe_out p1 @ post) (NewPrimitiveBuilder (loc off)) (map (\<lambda>tv. of_nat (fst tv)) tvs)"
    by (rule intE [OF ts env]) (rule that)
  let ?off = "\<lambda>off. off + length (pe_out p1)"
  have b: "builds uncompress (pre @ (pe_out p1 @ emitAll (es2 (?off off))) @ post) (MUnion cnt (loc off) (ms (?off off))) (map unionBody tvs)" if off: "length pre = off" for off pre post
  proof -
    let ?data = "pre @ (pe_out p1 @ emitAll (es2 (?off off))) @ post"
    have ms: "list_all2 (builds uncompress ?data) (ms (?off off)) (map (tagVals tvs) [0..<length es])" using l(4) [of "pre @ pe_out p1" "?off off"] off by simp
    then have len: "length (ms (?off off)) = length es" using list_all2_lengthD [OF ms] by simp
    show ?thesis by (rule builds_union) (use ms len n(1) p(3) [OF off] in simp_all)
  qed
  show ?thesis
    by (rule laidI [where ?e1.0 = "UnionEncoder i tys es1 p1 cnt" and ?e2.0 = "\<lambda>off. UnionEncoder i tys (es2 (?off off)) p1 cnt" and m = "\<lambda>off. MUnion cnt (loc off) (ms (?off off))"])
      (use es1(1) l(1) p(1,2) n(2) b in simp_all)
qed

end

end
