(* ===== verification/VngWrite.thy ===== *)
theory VngWrite
  imports VngLaid
begin

text \<open>What an encoder holds after a sequence of writes.\<close>

section \<open>The size of values\<close>

text \<open>The size of a sequence of values bounds the length of every column that they are spread over.\<close>

definition weight :: "zbytes \<Rightarrow> nat" where
  "weight v = Suc (length (buf v))"

definition sz :: "zbytes list \<Rightarrow> nat" where
  "sz vs = sum_list (map weight vs)"

lemma sz_simps [simp]: "sz [] = 0" "sz (v # vs) = weight v + sz vs" "sz (xs @ ys) = sz xs + sz ys"
  by (simp_all add: sz_def)

lemma weight_pos: "0 < weight v"
  by (simp add: weight_def)

lemma weight_Append: "weight v \<le> length (Append [] v)"
proof -
  have "0 < length (appendUvarint [] x)" for x by simp
  then show ?thesis by (cases v) (simp_all add: weight_def Append_def Suc_le_eq)
qed

lemma sz_items: "sz its \<le> length (items its)"
  using weight_Append by (induction its) (auto intro: add_mono)

lemma sz_body: "sz its < weight (body its)"
  using sz_items [of its] by (simp add: weight_def)

lemma length_sz: "length vs \<le> sz vs"
  by (induction vs) (auto simp: weight_def)

lemma sz_filter: "sz (filter P vs) \<le> sz vs"
  by (induction vs) auto

lemma sz_concat: "sz (concat itss) \<le> sz (map body itss)"
proof (induction itss)
  case (Cons its itss)
  then show ?case using sz_body [of its] by simp
qed simp

lemma sz_member: "v \<in> set vs \<Longrightarrow> weight v \<le> sz vs"
  by (induction vs) auto

lemma sz_column: "\<forall>row \<in> set rows. i < length row \<Longrightarrow> sz (column rows i) \<le> sz (map body rows)"
proof (induction rows)
  case (Cons row rows)
  have "weight (row ! i) \<le> sz row" using Cons.prems sz_member [of "row ! i" row] by simp
  then show ?case using Cons sz_body [of row] by simp
qed simp

lemma sz_flat: "sz (map fst kvs) + sz (map snd kvs) = sz (flat kvs)"
  by (induction kvs) auto

lemma sz_pairs: "sz (map fst (concat kvss)) + sz (map snd (concat kvss)) \<le> sz (map (\<lambda>kvs. body (flat kvs)) kvss)"
proof (induction kvss)
  case (Cons kvs kvss)
  then show ?case using sz_body [of "flat kvs"] sz_flat [of kvs] by simp
qed simp

lemma weight_unionBody: "weight (snd tv) < weight (unionBody tv)"
  using sz_body [of "[Some (encInt (of_nat (fst tv))), snd tv]"] by simp

lemma sz_tagVals: "sz (tagVals tvs i) \<le> sz (map unionBody tvs)"
proof (induction tvs)
  case (Cons tv tvs)
  then show ?case using weight_unionBody [of tv] by auto
qed simp

lemma length_bound: "sz (map body itss) < 2 ^ 32 \<Longrightarrow> \<forall>its \<in> set itss. length its < 2 ^ 63"
proof
  fix its assume "sz (map body itss) < 2 ^ 32" "its \<in> set itss"
  then show "length its < 2 ^ 63" using sz_member [of "body its" "map body itss"] sz_body [of its] length_sz [of its] by simp
qed

lemma length_bound_map: "sz (map (\<lambda>kvs. body (flat kvs)) kvss) < 2 ^ 32 \<Longrightarrow> \<forall>kvs \<in> set kvss. length kvs < 2 ^ 63"
proof
  fix kvs assume "sz (map (\<lambda>kvs. body (flat kvs)) kvss) < 2 ^ 32" "kvs \<in> set kvss"
  then show "length kvs < 2 ^ 63"
    using sz_member [of "body (flat kvs)" "map (\<lambda>kvs. body (flat kvs)) kvss"] sz_body [of "flat kvs"] length_sz [of "map fst kvs"] sz_flat [of kvs] by simp
qed

section \<open>Storable values\<close>

text \<open>
  Values of a type in their canonical encoding, with leaves of a given kind.  The types of a union
  are different from each other.
\<close>

inductive storable :: "(ztype \<Rightarrow> bytes \<Rightarrow> bool) \<Rightarrow> ztype \<Rightarrow> zbytes \<Rightarrow> bool" for K where
  st_null: "storable K t None"
| st_leaf: "K (TypePrimitive p) x \<Longrightarrow> storable K (TypePrimitive p) (Some x)"
| st_named: "storable K t v \<Longrightarrow> storable K (TypeNamed i name t) v"
| st_error: "storable K t v \<Longrightarrow> storable K (TypeError i t) v"
| st_record: "list_all2 (storable K) (map snd fs) its \<Longrightarrow> storable K (TypeRecord i fs) (body its)"
| st_array: "\<forall>it \<in> set its. storable K t it \<Longrightarrow> storable K (TypeArray i t) (body its)"
| st_set: "\<forall>it \<in> set its. storable K t it \<Longrightarrow> storable K (TypeSet i t) (body its)"
| st_map: "\<forall>(k, v) \<in> set kvs. storable K kt k \<and> storable K vt v \<Longrightarrow> storable K (TypeMap i kt vt) (body (flat kvs))"
| st_union: "tag < length ts \<Longrightarrow> tag < 2 ^ 63 \<Longrightarrow> distinct ts \<Longrightarrow> storable K (ts ! tag) v \<Longrightarrow> storable K (TypeUnion i ts) (unionBody (tag, v))"

section \<open>Reading the items of a body\<close>

lemma small_items: "small (items its) \<Longrightarrow> it \<in> set its \<Longrightarrow> small (buf it)"
  using sz_items [of its] sz_member [of it its] by (simp add: small_def weight_def)

lemma allItems_items: "\<forall>it \<in> set its. small (buf it) \<Longrightarrow> allItems (items its) = Ok its"
proof (induction its)
  case (Cons it its)
  have "Append [] it \<noteq> []" using weight_Append [of it] by (auto simp: weight_def)
  then show ?case using Cons Iter_Next_Append [of it "items its"] by (simp add: allItems.simps [of "Append [] it @ items its"])
qed (simp add: allItems.simps)

lemma firstItems_items: "\<forall>it \<in> set its. small (buf it) \<Longrightarrow> firstItems (length its) (items its) = Ok its"
  using Iter_Next_Append by (induction its) auto

lemma pairItems_flat: "pairItems (flat kvs) = Ok kvs"
  by (induction kvs) auto

lemma TagOf_nth: "distinct ts \<Longrightarrow> k < length ts \<Longrightarrow> TagOf ts (ts ! k) = int k"
  by (simp add: TagOf_def TypeUnion_createLUT_def createLUT_loop_nth)

lemma encInt_small: "small (encInt v)"
  using encInt_short [of v] by (simp add: small_def)

lemma Untag_unionBody:
  assumes "k < length ts" "k < 2 ^ 63" "small (buf v)"
  shows "Untag i ts (unionBody (k, v)) = Ok (ts ! k, v)"
  using assms Iter_Next_Append [of "Some (encInt (of_nat k))" "Append [] v"] Iter_Next_Append [of v "[]"] encInt_small
  by (simp add: Untag_def DecodeInt_encInt TypeUnion_Type_def sint_of_nat_small)

section \<open>What an encoder holds\<close>

context vngLeaves
begin

inductive enc :: "ztype \<Rightarrow> vencoder \<Rightarrow> zbytes list \<Rightarrow> bool" and core :: "ztype \<Rightarrow> vencoder \<Rightarrow> zbytes list \<Rightarrow> bool" where
  enc_named: "enc t e vs \<Longrightarrow> enc (TypeNamed i name t) (NamedEncoder name e) vs"
| enc_error: "enc t e vs \<Longrightarrow> enc (TypeError i t) (ErrorEncoder e) vs"
| enc_nulls: "core t e (filter (\<lambda>v. v \<noteq> None) vs) \<Longrightarrow> intHolds rs runs \<Longrightarrow> expand False (rs @ [run]) = map (\<lambda>v. v = None) vs \<Longrightarrow>
    null = odd (length rs) \<Longrightarrow> cnt = length (filter (\<lambda>v. v = None) vs) \<Longrightarrow> enc t (NullsEncoder e runs run null cnt) vs"
| core_prim: "primHolds (TypePrimitive p) True xs pe \<Longrightarrow> core (TypePrimitive p) (PrimitiveEncoder pe) (map Some xs)"
| core_array: "enc t e (concat itss) \<Longrightarrow> intHolds (lens itss) ls \<Longrightarrow> core (TypeArray i t) (ArrayEncoder e ls (length itss)) (map body itss)"
| core_set: "enc t e (concat itss) \<Longrightarrow> intHolds (lens itss) ls \<Longrightarrow> core (TypeSet i t) (SetEncoder e ls (length itss)) (map body itss)"
| core_map: "enc kt ke (map fst (concat kvss)) \<Longrightarrow> enc vt ve (map snd (concat kvss)) \<Longrightarrow> intHolds (lens kvss) ls \<Longrightarrow>
    core (TypeMap i kt vt) (MapEncoder ke ve ls (length kvss)) (map (\<lambda>kvs. body (flat kvs)) kvss)"
| core_record: "map fst flds = map fst fs \<Longrightarrow> length flds = length fs \<Longrightarrow> \<forall>row \<in> set rows. length row = length fs \<Longrightarrow>
    (\<And>j. j < length fs \<Longrightarrow> enc (snd (fs ! j)) (snd (flds ! j)) (column rows j)) \<Longrightarrow>
    core (TypeRecord i fs) (RecordEncoder flds (length rows)) (map body rows)"
| core_union: "length es = length ts \<Longrightarrow> \<forall>tv \<in> set tvs. fst tv < length ts \<and> fst tv < 2 ^ 63 \<Longrightarrow>
    (\<And>j. j < length ts \<Longrightarrow> enc (ts ! j) (es ! j) (tagVals tvs j)) \<Longrightarrow> intHolds (map (\<lambda>tv. of_nat (fst tv)) tvs) tags \<Longrightarrow>
    core (TypeUnion i ts) (UnionEncoder i ts es tags (length tvs)) (map unionBody tvs)"

section \<open>Laid out\<close>

lemma enc_laid:
  assumes env: "envOK uncompress env" "ve_fl env = fl"
  shows "enc t e vs \<Longrightarrow> sz vs < 2 ^ 32 \<Longrightarrow> laid uncompress env e vs"
    and "core t e vs \<Longrightarrow> sz vs < 2 ^ 32 \<Longrightarrow> laid uncompress env e vs"
proof (induction rule: enc_core.inducts)
  case (enc_nulls t e vs rs runs run null cnt)
  have "length vs < 2 ^ 32" using length_sz [of vs] enc_nulls.prems by simp
  then show ?case using enc_nulls sz_filter [of "\<lambda>v. v \<noteq> None" vs] env by (intro laid_nulls) auto
next
  case (core_prim p xs pe)
  then show ?case using length_sz [of "map Some xs"] env by (intro laid_primitive) auto
next
  case (core_array t e itss ls i)
  then show ?case using sz_concat [of itss] length_bound [of itss] env by (intro laid_array) auto
next
  case (core_set t e itss ls i)
  then show ?case using sz_concat [of itss] length_bound [of itss] env by (intro laid_array) auto
next
  case (core_map kt ke kvss vt ve ls i)
  then show ?case using sz_pairs [of kvss] length_bound_map [of kvss] env by (intro laid_map) auto
next
  case (core_record flds fs rows i)
  have "laid uncompress env (snd (flds ! j)) (column rows j)" if j: "j < length fs" for j
    using core_record.IH [OF j] sz_column [of rows j] core_record.prems core_record.hyps(3) j by auto
  then show ?case using core_record.hyps by (intro laid_record) (auto simp: list_all2_conv_all_nth)
next
  case (core_union es ts tvs tags i)
  have "laid uncompress env (es ! j) (tagVals tvs j)" if j: "j < length ts" for j
    using core_union.IH(2) [OF j] sz_tagVals [of j tvs] core_union.prems by auto
  then show ?case using core_union.hyps core_union.IH(3) env by (intro laid_union) (auto simp: list_all2_conv_all_nth)
qed (simp_all add: laid_named laid_error)

end

end
