(* ===== verification/VngStep.thy ===== *)
theory VngStep
  imports VngWrite
begin

text \<open>Writing a storable value adds it to what the encoder holds, and a new encoder holds nothing.\<close>

lemma traverseR_nth:
  "(\<And>j. j < length xs \<Longrightarrow> \<exists>y. f (xs ! j) = Ok y \<and> P j y) \<Longrightarrow> \<exists>ys. traverseR f xs = Ok ys \<and> length ys = length xs \<and> (\<forall>j < length xs. P j (ys ! j))"
proof (induction xs arbitrary: P)
  case (Cons x xs)
  obtain y where y: "f x = Ok y" "P 0 y" using Cons.prems [of 0] by auto
  obtain ys where ys: "traverseR f xs = Ok ys" "length ys = length xs" "\<forall>j < length xs. P (Suc j) (ys ! j)"
    using Cons.IH [of "\<lambda>j. P (Suc j)"] Cons.prems [of "Suc _"] by auto
  have "P j ((y # ys) ! j)" if "j < length (x # xs)" for j using that y(2) ys(3) by (cases j) auto
  then show ?case using y(1) ys(1,2) by (intro exI [of _ "y # ys"]) auto
qed simp

lemma traverseR_OkD: "traverseR f xs = Ok ys \<Longrightarrow> length ys = length xs \<and> (\<forall>j < length xs. f (xs ! j) = Ok (ys ! j))"
proof (induction xs arbitrary: ys)
  case (Cons x xs)
  then obtain y ys' where y: "f x = Ok y" "traverseR f xs = Ok ys'" "ys = y # ys'" by (auto simp: bindR_Ok_iff)
  have "f ((x # xs) ! j) = Ok (ys ! j)" if "j < length (x # xs)" for j using that y Cons.IH [OF y(2)] by (cases j) auto
  then show ?case using Cons.IH [OF y(2)] y(3) by simp
qed simp

lemma inc32_small: "Suc n < 2 ^ 32 \<Longrightarrow> inc32 n = Suc n"
  by (simp add: inc32_def)

lemma length_sz_less: "sz (vs @ [v]) < 2 ^ 32 \<Longrightarrow> Suc (length vs) < 2 ^ 32"
  using length_sz [of "vs @ [v]"] weight_pos [of v] by simp

lemma sz_small: "sz (vs @ [v]) < 2 ^ 32 \<Longrightarrow> small (buf v)"
  by (simp add: small_def weight_def)

lemma small_item: "sz (vs @ [body its]) < 2 ^ 32 \<Longrightarrow> \<forall>it \<in> set its. small (buf it)"
  using sz_small [of vs "body its"] small_items by simp

context vngLeaves
begin

section \<open>New encoders\<close>

lemma enc_NewNulls: "core t e [] \<Longrightarrow> enc t (NewNullsEncoder e) []"
  unfolding NewNullsEncoder_def by (rule enc_nulls [where rs = "[]"]) (simp_all add: intHolds_New [simplified])

lemmas core_empty = core_prim [where xs = "[]", simplified, OF primHolds_New] core_array [where itss = "[]", simplified] core_set [where itss = "[]", simplified]
  core_map [where kvss = "[]", simplified] core_record [where rows = "[]", simplified] core_union [where tvs = "[]", simplified]

lemma enc_NewEncoder: "vng_NewEncoder ty = Ok e \<Longrightarrow> enc ty e []"
proof (induction ty arbitrary: e rule: measure_induct_rule [of size])
  case (less ty)
  note IH = less.IH and new = less.prems [unfolded vng_NewEncoder_simps [of ty]]
  show ?case
  proof (cases ty)
    case (TypeRecord i fs)
    obtain flds where flds: "traverseR (\<lambda>f. bindR (vng_NewEncoder (snd f)) (\<lambda>e. Ok (fst f, e))) fs = Ok flds" "e = NewNullsEncoder (RecordEncoder flds 0)"
      using new TypeRecord by (auto simp: bindR_Ok_iff)
    then obtain es where es: "traverseR vng_NewEncoder (map snd fs) = Ok es" "flds = zip (map fst fs) es" by (auto simp: traverseR_named mapR_def bindR_Ok_iff)
    have l: "length es = length fs" "\<And>j. j < length fs \<Longrightarrow> vng_NewEncoder (snd (fs ! j)) = Ok (es ! j)" using traverseR_OkD [OF es(1)] by auto
    have "enc (snd (fs ! j)) (snd (flds ! j)) []" if j: "j < length fs" for j
      using IH [OF _ l(2) [OF j]] TypeRecord es(2) l(1) j size_field_less [of "fs ! j" fs] by simp
    then show ?thesis using TypeRecord flds(2) es(2) l(1) by (auto intro!: enc_NewNulls core_empty)
  next
    case (TypeUnion i ts)
    obtain es where es: "traverseR vng_NewEncoder ts = Ok es" "e = NewNullsEncoder (UnionEncoder i ts es NewInt64Encoder 0)" using new TypeUnion by (auto simp: bindR_Ok_iff)
    have l: "length es = length ts" "\<And>j. j < length ts \<Longrightarrow> vng_NewEncoder (ts ! j) = Ok (es ! j)" using traverseR_OkD [OF es(1)] by auto
    have "enc (ts ! j) (es ! j) []" if j: "j < length ts" for j
      using IH [OF _ l(2) [OF j]] TypeUnion j size_union_less [of "ts ! j" ts] by simp
    then show ?thesis using TypeUnion es(2) l(1) intHolds_New by (auto intro!: enc_NewNulls core_empty)
  qed (use new IH intHolds_New in \<open>auto simp: bindR_Ok_iff mapR_def split: result.splits intro!: enc_NewNulls core_empty enc_named enc_error\<close>)
qed

section \<open>Nulls and values\<close>

lemma touch_ok:
  assumes r: "intHolds rs runs" "expand False (rs @ [run]) = bs" "null = odd (length rs)" and n: "length bs < 2 ^ 32"
  shows "\<exists>rs' runs' run'. touchValue fl runs run null = Ok (runs', run', False) \<and> intHolds rs' runs' \<and> expand False (rs' @ [run']) = bs @ [False] \<and> even (length rs')"
    "\<exists>rs' runs' run'. touchNull fl runs run null = Ok (runs', run', True) \<and> intHolds rs' runs' \<and> expand False (rs' @ [run']) = bs @ [True] \<and> odd (length rs')"
proof -
  have "unat run < 2 ^ 32" using r(2) n by (auto simp: expand_append)
  then have "run + 1 \<noteq> 0" by (auto simp: unsigned_minus_1_eq_mask mask_eq_exp_minus_1 simp flip: eq_neg_iff_add_eq_0)
  then have up: "unat (run + 1) = Suc (unat run)" using unat_pred [of "run + 1"] by simp
  have more: "expand False (rs @ [run + 1]) = bs @ [null]" using r(2,3) by (auto simp: expand_append up replicate_append_same)
  obtain runs' where w: "Int64Encoder_Write fl runs run = Ok runs'" "intHolds (rs @ [run]) runs'" using Int64Encoder_Write_ok [OF r(1)] by blast
  have nxt: "expand False ((rs @ [run]) @ [1]) = bs @ [\<not> null]" using r(2,3) by (simp only: expand_append [of False "rs @ [run]"]) simp
  show "\<exists>rs' runs' run'. touchValue fl runs run null = Ok (runs', run', False) \<and> intHolds rs' runs' \<and> expand False (rs' @ [run']) = bs @ [False] \<and> even (length rs')"
  proof (cases null)
    case True
    then show ?thesis using w nxt r(3) by (intro exI [of _ "rs @ [run]"] exI [of _ runs'] exI [of _ 1]) (simp add: touchValue_def)
  next
    case False
    then show ?thesis using r(1,3) more by (intro exI [of _ rs] exI [of _ runs] exI [of _ "run + 1"]) (simp add: touchValue_def)
  qed
  show "\<exists>rs' runs' run'. touchNull fl runs run null = Ok (runs', run', True) \<and> intHolds rs' runs' \<and> expand False (rs' @ [run']) = bs @ [True] \<and> odd (length rs')"
  proof (cases null)
    case False
    then show ?thesis using w nxt r(3) by (intro exI [of _ "rs @ [run]"] exI [of _ runs'] exI [of _ 1]) (simp add: touchNull_def)
  next
    case True
    then show ?thesis using r(1,3) more by (intro exI [of _ rs] exI [of _ runs] exI [of _ "run + 1"]) (simp add: touchNull_def)
  qed
qed

lemma Write_null: "enc t e vs \<Longrightarrow> Suc (length vs) < 2 ^ 32 \<Longrightarrow> \<exists>e'. Encoder_Write fl e None = Ok e' \<and> enc t e' (vs @ [None])"
proof (induction t arbitrary: e rule: measure_induct_rule [of size])
  case (less t)
  from less.prems(1) show ?case
  proof cases
    case (enc_nulls e0 rs runs run null cnt)
    obtain rs' runs' run' where r: "touchNull fl runs run null = Ok (runs', run', True)" "intHolds rs' runs'"
      "expand False (rs' @ [run']) = map (\<lambda>v. v = None) vs @ [True]" "odd (length rs')"
      using touch_ok(2) [OF enc_nulls(3,4,5)] less.prems(2) by auto
    have "cnt \<le> length vs" unfolding enc_nulls(6) by (rule length_filter_le)
    then have "inc32 cnt = Suc cnt" using less.prems(2) by (intro inc32_small) simp
    then have "enc t (NullsEncoder e0 runs' run' True (inc32 cnt)) (vs @ [None])" using enc_nulls r by (intro vngLeaves.enc_nulls [OF vngLeaves_axioms, where rs = rs']) auto
    then show ?thesis using enc_nulls(1) r(1) by (simp add: Encoder_Write_simps)
  qed (use less.IH less.prems(2) in \<open>fastforce simp: Encoder_Write_simps mapR_def intro: enc_named enc_error\<close>)+
qed

lemma Write_value:
  assumes e: "enc t e vs" and t: "\<And>i name u. t \<noteq> TypeNamed i name u" "\<And>i u. t \<noteq> TypeError i u" and n: "sz (vs @ [Some x]) < 2 ^ 32"
    and step: "\<And>e xs. core t e xs \<Longrightarrow> sz (xs @ [Some x]) < 2 ^ 32 \<Longrightarrow> \<exists>e'. Encoder_Write fl e (Some x) = Ok e' \<and> core t e' (xs @ [Some x])"
  shows "\<exists>e'. Encoder_Write fl e (Some x) = Ok e' \<and> enc t e' (vs @ [Some x])"
  using e
proof cases
  case (enc_nulls e0 rs runs run null cnt)
  have "length vs < 2 ^ 32" using length_sz_less [OF n] by simp
  then obtain rs' runs' run' where r: "touchValue fl runs run null = Ok (runs', run', False)" "intHolds rs' runs'"
    "expand False (rs' @ [run']) = map (\<lambda>v. v = None) vs @ [False]" "even (length rs')"
    using touch_ok(1) [OF enc_nulls(3,4,5)] by auto
  have "sz (filter (\<lambda>v. v \<noteq> None) vs @ [Some x]) < 2 ^ 32" using n sz_filter [of "\<lambda>v. v \<noteq> None" vs] by simp
  then obtain e' where e': "Encoder_Write fl e0 (Some x) = Ok e'" "core t e' (filter (\<lambda>v. v \<noteq> None) vs @ [Some x])" using step [OF enc_nulls(2)] by blast
  have "enc t (NullsEncoder e' runs' run' False cnt) (vs @ [Some x])" using enc_nulls r e'(2) by (intro vngLeaves.enc_nulls [OF vngLeaves_axioms, where rs = rs']) auto
  then show ?thesis using enc_nulls(1) r(1) e'(1) by (simp add: Encoder_Write_simps)
qed (use t in auto)

section \<open>Writing a value\<close>

abbreviation writesTo :: "ztype \<Rightarrow> zbytes \<Rightarrow> bool" where
  "writesTo t v \<equiv> (\<forall>e vs. enc t e vs \<longrightarrow> sz (vs @ [v]) < 2 ^ 32 \<longrightarrow> (\<exists>e'. Encoder_Write fl e v = Ok e' \<and> enc t e' (vs @ [v])))"

lemma Write_items:
  "\<forall>it \<in> set its. writesTo t it \<Longrightarrow> enc t e vs \<Longrightarrow> sz (vs @ its) < 2 ^ 32 \<Longrightarrow> \<exists>e'. foldR (\<lambda>e b. Encoder_Write fl e b) e its = Ok e' \<and> enc t e' (vs @ its)"
proof (induction its arbitrary: e vs)
  case (Cons it its)
  obtain e1 where e1: "Encoder_Write fl e it = Ok e1" "enc t e1 (vs @ [it])" using Cons.prems by fastforce
  then show ?case using Cons.IH [OF _ e1(2)] Cons.prems(1,3) by simp
qed simp

lemma Write_pairs:
  "\<forall>(k, v) \<in> set kvs. writesTo kt k \<and> writesTo vt v \<Longrightarrow> enc kt ke ks \<Longrightarrow> enc vt ve vs \<Longrightarrow> sz (ks @ map fst kvs) < 2 ^ 32 \<Longrightarrow> sz (vs @ map snd kvs) < 2 ^ 32 \<Longrightarrow>
   \<exists>ke' ve'. foldR (\<lambda>e p. bindR (Encoder_Write fl (fst e) (fst p)) (\<lambda>ke. bindR (Encoder_Write fl (snd e) (snd p)) (\<lambda>ve. Ok (ke, ve)))) (ke, ve) kvs = Ok (ke', ve') \<and>
     enc kt ke' (ks @ map fst kvs) \<and> enc vt ve' (vs @ map snd kvs)"
proof (induction kvs arbitrary: ke ve ks vs)
  case (Cons kv kvs)
  obtain k v where kv: "kv = (k, v)" by (cases kv)
  have w: "writesTo kt k" "writesTo vt v" "\<forall>(k, v) \<in> set kvs. writesTo kt k \<and> writesTo vt v" using bspec [OF Cons.prems(1), of kv] Cons.prems(1) kv by simp_all
  have n: "sz (ks @ [k]) < 2 ^ 32" "sz (vs @ [v]) < 2 ^ 32" "sz ((ks @ [k]) @ map fst kvs) < 2 ^ 32" "sz ((vs @ [v]) @ map snd kvs) < 2 ^ 32" using Cons.prems(4,5) kv by simp_all
  obtain ke1 where k1: "Encoder_Write fl ke k = Ok ke1" "enc kt ke1 (ks @ [k])" using w(1) Cons.prems(2) n(1) by blast
  obtain ve1 where v1: "Encoder_Write fl ve v = Ok ve1" "enc vt ve1 (vs @ [v])" using w(2) Cons.prems(3) n(2) by blast
  show ?case using Cons.IH [OF w(3) k1(2) v1(2) n(3,4)] k1(1) v1(1) kv by simp
qed simp

lemma Write_leaf:
  assumes "core (TypePrimitive p) e xs" "K (TypePrimitive p) x"
  shows "\<exists>e'. Encoder_Write fl e (Some x) = Ok e' \<and> core (TypePrimitive p) e' (xs @ [Some x])"
  using assms(1)
proof cases
  case pe: (core_prim ys pe)
  obtain pe' where "PrimitiveEncoder_Write fl pe (Some x) = Ok pe'" "primHolds (TypePrimitive p) True (ys @ [x]) pe'"
    using PrimitiveEncoder_Write_ok [OF pe(3) assms(2)] by blast
  then show ?thesis using pe(1,2) core_prim [of p "ys @ [x]" pe'] by (simp add: Encoder_Write_simps mapR_def)
qed

lemma Write_array_parts:
  assumes e: "enc t e (concat itss)" "intHolds (lens itss) ls" and its: "\<forall>it \<in> set its. writesTo t it" "sz (map body itss @ [body its]) < 2 ^ 32"
  shows "\<exists>e' ls'. allItems (items its) = Ok its \<and> foldR (\<lambda>e b. Encoder_Write fl e b) e its = Ok e' \<and> Int64Encoder_Write fl ls (of_nat (length its)) = Ok ls' \<and>
    inc32 (length itss) = length (itss @ [its]) \<and> enc t e' (concat (itss @ [its])) \<and> intHolds (lens (itss @ [its])) ls'"
proof -
  have "sz (concat itss @ its) < 2 ^ 32" using sz_concat [of "itss @ [its]"] its(2) by simp
  then obtain e' where e': "foldR (\<lambda>e b. Encoder_Write fl e b) e its = Ok e'" "enc t e' (concat itss @ its)" using Write_items [OF its(1) e(1)] by blast
  obtain ls' where "Int64Encoder_Write fl ls (of_nat (length its)) = Ok ls'" "intHolds (lens itss @ [of_nat (length its)]) ls'" using Int64Encoder_Write_ok [OF e(2)] by blast
  moreover have "allItems (items its) = Ok its" by (rule allItems_items [OF small_item [OF its(2)]])
  moreover have "inc32 (length itss) = length (itss @ [its])" using inc32_small length_sz_less [OF its(2)] by simp
  ultimately show ?thesis using e' by (intro exI [of _ e'] exI [of _ ls']) simp
qed

lemma Write_array:
  assumes e: "core (TypeArray i t) e xs" and its: "\<forall>it \<in> set its. writesTo t it" "sz (xs @ [body its]) < 2 ^ 32"
  shows "\<exists>e'. Encoder_Write fl e (body its) = Ok e' \<and> core (TypeArray i t) e' (xs @ [body its])"
  using e
proof cases
  case a: (core_array e0 itss ls)
  show ?thesis using Write_array_parts [OF a(3,4) its(1) its(2) [unfolded a(2)]] a(1,2) core_array [of t _ "itss @ [its]" _ i] by (fastforce simp: Encoder_Write_simps)
qed

lemma Write_set:
  assumes e: "core (TypeSet i t) e xs" and its: "\<forall>it \<in> set its. writesTo t it" "sz (xs @ [body its]) < 2 ^ 32"
  shows "\<exists>e'. Encoder_Write fl e (body its) = Ok e' \<and> core (TypeSet i t) e' (xs @ [body its])"
  using e
proof cases
  case a: (core_set e0 itss ls)
  show ?thesis using Write_array_parts [OF a(3,4) its(1) its(2) [unfolded a(2)]] a(1,2) core_set [of t _ "itss @ [its]" _ i] by (fastforce simp: Encoder_Write_simps)
qed

lemma Write_map:
  assumes e: "core (TypeMap i kt vt) e xs" and kvs: "\<forall>(k, v) \<in> set kvs. writesTo kt k \<and> writesTo vt v" "sz (xs @ [body (flat kvs)]) < 2 ^ 32"
  shows "\<exists>e'. Encoder_Write fl e (body (flat kvs)) = Ok e' \<and> core (TypeMap i kt vt) e' (xs @ [body (flat kvs)])"
  using e
proof cases
  case a: (core_map ke kvss ve ls)
  have n: "sz (map fst (concat kvss) @ map fst kvs) < 2 ^ 32" "sz (map snd (concat kvss) @ map snd kvs) < 2 ^ 32"
    using sz_pairs [of "kvss @ [kvs]"] kvs(2) a(2) by simp_all
  obtain ke' ve' where e': "foldR (\<lambda>e p. bindR (Encoder_Write fl (fst e) (fst p)) (\<lambda>ke. bindR (Encoder_Write fl (snd e) (snd p)) (\<lambda>ve. Ok (ke, ve)))) (ke, ve) kvs = Ok (ke', ve')"
    "enc kt ke' (map fst (concat kvss) @ map fst kvs)" "enc vt ve' (map snd (concat kvss) @ map snd kvs)"
    using Write_pairs [OF kvs(1) a(3,4) n] by blast
  obtain ls' where ls': "Int64Encoder_Write fl ls (of_nat (length kvs)) = Ok ls'" "intHolds (lens kvss @ [of_nat (length kvs)]) ls'" using Int64Encoder_Write_ok [OF a(5)] by blast
  have "allItems (items (flat kvs)) = Ok (flat kvs)" by (rule allItems_items [OF small_item [OF kvs(2)]])
  moreover have "inc32 (length kvss) = length (kvss @ [kvs])" using inc32_small length_sz_less [OF kvs(2)] a(2) by simp
  moreover have "core (TypeMap i kt vt) (MapEncoder ke' ve' ls' (length (kvss @ [kvs]))) (map (\<lambda>kvs. body (flat kvs)) (kvss @ [kvs]))"
    by (rule core_map) (use e'(2,3) ls'(2) in simp_all)
  ultimately show ?thesis using a(1,2) e'(1) ls'(1) by (simp add: Encoder_Write_simps pairItems_flat)
qed

lemma Write_record:
  assumes e: "core (TypeRecord i fs) e xs" and its: "length its = length fs" "\<And>j. j < length fs \<Longrightarrow> writesTo (snd (fs ! j)) (its ! j)" "sz (xs @ [body its]) < 2 ^ 32"
  shows "\<exists>e'. Encoder_Write fl e (body its) = Ok e' \<and> core (TypeRecord i fs) e' (xs @ [body its])"
  using e
proof cases
  case a: (core_record flds rows)
  let ?w = "\<lambda>(f, b). bindR (Encoder_Write fl (snd f) b) (\<lambda>e. Ok (fst f, e))"
  let ?P = "\<lambda>j f. fst f = fst (flds ! j) \<and> enc (snd (fs ! j)) (snd f) (column (rows @ [its]) j)"
  have rows: "\<forall>row \<in> set (rows @ [its]). length row = length fs" using a(5) its(1) by simp
  have "\<exists>f. ?w (zip flds its ! j) = Ok f \<and> ?P j f" if "j < length (zip flds its)" for j
  proof -
    have j: "j < length fs" using that a(4) its(1) by simp
    have "sz (column (rows @ [its]) j) \<le> sz (map body (rows @ [its]))" by (rule sz_column) (use rows j in simp)
    then have "sz (column rows j @ [its ! j]) < 2 ^ 32" using its(3) a(2) by simp
    then obtain e' where "Encoder_Write fl (snd (flds ! j)) (its ! j) = Ok e'" "enc (snd (fs ! j)) e' (column rows j @ [its ! j])" using its(2) [OF j] a(6) [OF j] by blast
    then show ?thesis using that by simp
  qed
  then obtain flds' where f: "traverseR ?w (zip flds its) = Ok flds'" "length flds' = length (zip flds its)" "\<forall>j < length (zip flds its). ?P j (flds' ! j)"
    using traverseR_nth [of "zip flds its" ?w ?P] by blast
  have "map fst flds' = map fst flds" by (rule nth_equalityI) (use f(2,3) a(4) its(1) in simp_all)
  then have names: "map fst flds' = map fst fs" using a(3) by simp
  have "core (TypeRecord i fs) (RecordEncoder flds' (length (rows @ [its]))) (map body (rows @ [its]))"
    by (rule core_record) (use f(2,3) names rows a(4) its(1) in simp_all)
  moreover have "firstItems (length flds) (items its) = Ok its" using firstItems_items [OF small_item [OF its(3)]] a(4) its(1) by simp
  moreover have "inc32 (length rows) = length (rows @ [its])" using inc32_small length_sz_less [OF its(3)] a(2) by simp
  ultimately show ?thesis using a(1,2) f(1) by (simp add: Encoder_Write_simps)
qed

lemma Write_union:
  assumes e: "core (TypeUnion i ts) e xs" and v: "tag < length ts" "tag < 2 ^ 63" "distinct ts" "writesTo (ts ! tag) v" "sz (xs @ [unionBody (tag, v)]) < 2 ^ 32"
  shows "\<exists>e'. Encoder_Write fl e (unionBody (tag, v)) = Ok e' \<and> core (TypeUnion i ts) e' (xs @ [unionBody (tag, v)])"
  using e
proof cases
  case a: (core_union es tvs tags)
  have "sz (tagVals (tvs @ [(tag, v)]) tag) \<le> sz (map unionBody (tvs @ [(tag, v)]))" by (rule sz_tagVals)
  then have "sz (tagVals tvs tag @ [v]) < 2 ^ 32" using v(5) a(2) by simp
  then obtain e' where e': "Encoder_Write fl (es ! tag) v = Ok e'" "enc (ts ! tag) e' (tagVals tvs tag @ [v])" using v(4) a(5) [OF v(1)] by blast
  obtain tags' where t: "Int64Encoder_Write fl tags (of_nat tag) = Ok tags'" "intHolds (map (\<lambda>tv. of_nat (fst tv)) tvs @ [of_nat tag]) tags'"
    using Int64Encoder_Write_ok [OF a(6)] by blast
  have u: "Untag i ts (unionBody (tag, v)) = Ok (ts ! tag, v)" by (rule Untag_unionBody [OF v(1,2)]) (use small_item [OF v(5)] in simp)
  have "enc (ts ! j) (es[tag := e'] ! j) (tagVals (tvs @ [(tag, v)]) j)" if "j < length ts" for j
    using that a(3) a(5) [OF that] e'(2) by (cases "j = tag") simp_all
  then have "core (TypeUnion i ts) (UnionEncoder i ts (es[tag := e']) tags' (length (tvs @ [(tag, v)]))) (map unionBody (tvs @ [(tag, v)]))"
    by (intro core_union) (use a(3,4) t(2) v(1,2) in simp_all)
  moreover have "inc32 (length tvs) = length (tvs @ [(tag, v)])" using inc32_small length_sz_less [OF v(5)] a(2) by simp
  ultimately show ?thesis using a(1-3) e'(1) t(1) u v(1) by (simp add: Encoder_Write_simps TagOf_nth [OF v(3)] Let_def)
qed

lemma Write_wrapped:
  "writesTo t v \<Longrightarrow> writesTo (TypeNamed i name t) v" "writesTo t v \<Longrightarrow> writesTo (TypeError i t) v"
  by (auto elim!: enc.cases [of "TypeNamed i name t"] enc.cases [of "TypeError i t"] core.cases [of "TypeNamed i name t"] core.cases [of "TypeError i t"]
      intro: enc_named enc_error simp: Encoder_Write_simps mapR_def) (fastforce intro: enc_named enc_error)+

lemma Write_storable: "storable K t v \<Longrightarrow> writesTo t v"
proof (induction rule: storable.induct)
  case (st_null t)
  then show ?case using Write_null length_sz_less by blast
next
  case (st_record fs its i)
  then have r: "length its = length fs" "\<And>j. j < length fs \<Longrightarrow> writesTo (snd (fs ! j)) (its ! j)" by (auto simp: list_all2_conv_all_nth)
  show ?case by (intro allI impI Write_value) (use Write_record [OF _ r] in auto)
next
  case (st_union tag ts v i)
  then show ?case by (intro allI impI Write_value) (use Write_union [of i ts _ _ tag v] in auto)
qed (use Write_wrapped in \<open>auto intro!: Write_value Write_leaf Write_array Write_set Write_map\<close>)

end

end
