(* ===== verification/VngDynamic.thy ===== *)
theory VngDynamic
  imports VngBuild Context
begin

text \<open>
  The dynamic encoder of VNG, which spreads the values that are written over one encoder for each type, and the
  readers of its result (\<open>vng/dynamic.go\<close>, \<open>metadata.go\<close>, \<open>header.go\<close>).  A reader gives the values
  with types of its own context, which it looks up from the metadata.
\<close>

section \<open>The dynamic encoder\<close>

record dynEncoder =
  dy_tags :: primEncoder
  dy_values :: "vencoder list"
  dy_which :: "ztype \<rightharpoonup> nat"
  dy_len :: nat

definition NewDynamicEncoder :: dynEncoder where
  "NewDynamicEncoder = \<lparr>dy_tags = NewInt64Encoder, dy_values = [], dy_which = Map.empty, dy_len = 0\<rparr>"

definition DynamicEncoder_Write :: "fcmp \<Rightarrow> dynEncoder \<Rightarrow> zvalue \<Rightarrow> dynEncoder go" where
  "DynamicEncoder_Write fl d val =
     bindR (case dy_which d (fst val) of
              Some tag \<Rightarrow> Ok (tag, d)
            | None \<Rightarrow>
                bindR (vng_NewEncoder (fst val)) (\<lambda>e.
                let tag = length (dy_values d)
                in Ok (tag, d\<lparr>dy_values := dy_values d @ [e], dy_which := (dy_which d)(fst val \<mapsto> tag)\<rparr>)))
       (\<lambda>(tag, d).
     bindR (Int64Encoder_Write fl (dy_tags d) (of_nat tag)) (\<lambda>tags.
     if length (dy_values d) \<le> tag then Panic
     else
       bindR (Encoder_Write fl (dy_values d ! tag) (snd val)) (\<lambda>e.
       Ok (d\<lparr>dy_tags := tags, dy_len := inc32 (dy_len d), dy_values := (dy_values d)[tag := e]\<rparr>))))"

definition DynamicEncoder_Encode :: "vngEnv \<Rightarrow> dynEncoder \<Rightarrow> (metadata \<times> nat \<times> dynEncoder) go" where
  "DynamicEncoder_Encode env d =
     bindR (if length (dy_values d) > 1 then primEncode env (dy_tags d) else Ok (dy_tags d)) (\<lambda>tags.
     bindR (traverseR (Encoder_Encode env) (dy_values d)) (\<lambda>values.
     case values of
       [v] \<Rightarrow> bindR (Encoder_Metadata env 0 v) (\<lambda>(off, meta, v). Ok (meta, off, d\<lparr>dy_tags := tags, dy_values := [v]\<rparr>))
     | _ \<Rightarrow>
         bindR (primLocation env 0 tags) (\<lambda>(off, loc, tags).
         bindR (layout (Encoder_Metadata env) off values) (\<lambda>(off, ms, values).
         Ok (MDynamic loc ms (dy_len d), off, d\<lparr>dy_tags := tags, dy_values := values\<rparr>)))))"

definition DynamicEncoder_Emit :: "dynEncoder \<Rightarrow> bytes" where
  "DynamicEncoder_Emit d =
     (if length (dy_values d) > 1 then pe_out (dy_tags d) else []) @ concat (map Encoder_Emit (dy_values d))"

section \<open>The types of metadata\<close>

fun traverseS :: "('a \<Rightarrow> 's \<Rightarrow> ('b \<times> 's) go) \<Rightarrow> 'a list \<Rightarrow> 's \<Rightarrow> ('b list \<times> 's) go" where
  "traverseS f [] s = Ok ([], s)"
| "traverseS f (x # xs) s = bindR (f x s) (\<lambda>(y, s). bindR (traverseS f xs s) (\<lambda>(ys, s). Ok (y # ys, s)))"

lemma traverseS_cong [fundef_cong]:
  "xs = ys \<Longrightarrow> s = s' \<Longrightarrow> (\<And>x s. x \<in> set ys \<Longrightarrow> f x s = g x s) \<Longrightarrow> traverseS f xs s = traverseS g ys s'"
proof (induction xs arbitrary: ys s s')
  case (Cons x xs)
  then have "traverseS f xs a = traverseS g xs a" for a by auto
  then show ?case using Cons.prems by auto
qed auto

fun Metadata_Type :: "metadata \<Rightarrow> ctx \<Rightarrow> (ztype \<times> ctx) go" where
  "Metadata_Type (MRecord _ flds) c =
     bindR (traverseS (\<lambda>f c. bindR (Metadata_Type (snd f) c) (\<lambda>(t, c). Ok ((fst f, t), c))) flds c) (\<lambda>(flds, c).
     MustLookupTypeRecord flds c)"
| "Metadata_Type (MArray _ _ values) c = bindR (Metadata_Type values c) (\<lambda>(t, c). LookupTypeArray t c)"
| "Metadata_Type (MSet _ _ values) c = bindR (Metadata_Type values c) (\<lambda>(t, c). LookupTypeSet t c)"
| "Metadata_Type (MMap _ _ keys values) c =
     bindR (Metadata_Type keys c) (\<lambda>(kt, c). bindR (Metadata_Type values c) (\<lambda>(vt, c). LookupTypeMap kt vt c))"
| "Metadata_Type (MUnion _ _ values) c = bindR (traverseS (\<lambda>m c. Metadata_Type m c) values c) (\<lambda>(ts, c). LookupTypeUnion ts c)"
| "Metadata_Type (MNamed name values) c =
     bindR (Metadata_Type values c) (\<lambda>(t, c). case LookupTypeNamed name t c of Err e \<Rightarrow> Panic | r \<Rightarrow> r)"
| "Metadata_Type (MError values) c = bindR (Metadata_Type values c) (\<lambda>(t, c). LookupTypeError t c)"
| "Metadata_Type (MPrimitive t _ _ _ _ _) c = Ok (t, c)"
| "Metadata_Type (MNulls _ values _) c = Metadata_Type values c"
| "Metadata_Type (MConst val _) c = Ok (fst val, c)"
| "Metadata_Type (MDynamic _ _ _) c = Panic"

section \<open>Looking up fields in metadata\<close>

fun Metadata_Under :: "metadata \<Rightarrow> metadata" where
  "Metadata_Under (MNamed _ values) = Metadata_Under values"
| "Metadata_Under (MNulls _ values _) = Metadata_Under values"
| "Metadata_Under meta = meta"

fun LookupField :: "(gostring \<times> metadata) list \<Rightarrow> gostring \<Rightarrow> (gostring \<times> metadata) option" where
  "LookupField [] name = None"
| "LookupField (f # flds) name = (if fst f = name then Some f else LookupField flds name)"

text \<open>\<open>Lookup\<close> stops at a field that is not a record, even when there are names left.\<close>

fun Metadata_Lookup :: "(gostring \<times> metadata) list \<Rightarrow> gostring list \<Rightarrow> (gostring \<times> metadata) option" where
  "Metadata_Lookup flds [] = None"
| "Metadata_Lookup flds (name # path) =
     (case LookupField flds name of
        None \<Rightarrow> None
      | Some f \<Rightarrow>
          (case Metadata_Under (snd f) of
             MRecord _ next \<Rightarrow> if path = [] then Some f else Metadata_Lookup next path
           | _ \<Rightarrow> Some f))"

section \<open>Whole vectors of integers\<close>

function readInts :: "lz4u \<Rightarrow> bytes \<Rightarrow> primBuilder \<Rightarrow> u64 list go" where
  "readInts uncompress data p =
     (case Int64Decoder_Next uncompress data p of
        Panic \<Rightarrow> Panic
      | Err e \<Rightarrow> if e = ioEOF then Ok [] else Err e
      | Ok r \<Rightarrow> bindR (readInts uncompress data (snd r)) (\<lambda>out. Ok (fst r # out)))"
  by pat_completeness auto
termination
  by (relation "measure (\<lambda>(_, _, p). unread p)") (auto dest: Next_unread)

declare readInts.simps [simp del]

definition ReadIntVector :: "lz4u \<Rightarrow> bytes \<Rightarrow> segment \<Rightarrow> 32 word list go" where
  "ReadIntVector uncompress data loc = mapR (map ucast) (readInts uncompress data (NewPrimitiveBuilder loc))"

section \<open>The readers\<close>

record dynamicBuilder =
  dn_types :: "ztype list"
  dn_tags :: primBuilder
  dn_values :: "vbuilder list"
  dn_builder :: builder

record vectorBuilder =
  vc_typ :: ztype
  vc_values :: vbuilder
  vc_builder :: builder
  vc_count :: nat

datatype zedReader = DynamicReader dynamicBuilder | VectorReader vectorBuilder

definition newDynamicBuilder :: "segment \<Rightarrow> metadata list \<Rightarrow> ctx \<Rightarrow> (dynamicBuilder \<times> ctx) go" where
  "newDynamicBuilder tags ms c =
     bindR (traverseS (\<lambda>m c. bindR (NewBuilderOf m) (\<lambda>v. bindR (Metadata_Type m c) (\<lambda>(t, c). Ok ((v, t), c)))) ms c) (\<lambda>(vts, c).
     Ok (\<lparr>dn_types = map snd vts, dn_tags = NewPrimitiveBuilder tags, dn_values = map fst vts, dn_builder = NewBuilder\<rparr>, c))"

definition NewZedReader :: "metadata \<Rightarrow> ctx \<Rightarrow> (zedReader \<times> ctx) go" where
  "NewZedReader meta c =
     (case meta of
        MDynamic tags ms _ \<Rightarrow> bindR (newDynamicBuilder tags ms c) (\<lambda>(d, c). Ok (DynamicReader d, c))
      | _ \<Rightarrow>
          bindR (NewBuilderOf meta) (\<lambda>values.
          bindR (Metadata_Type meta c) (\<lambda>(t, c).
          Ok (VectorReader \<lparr>vc_typ = t, vc_values = values, vc_builder = NewBuilder, vc_count = Metadata_Len meta\<rparr>, c))))"

text \<open>The body of the one value that was built.\<close>

definition builtBody :: "builder \<Rightarrow> zbytes go" where
  "builtBody b = bindR (Builder_Bytes b) (\<lambda>bs. Bytes_Body (buf bs))"

text \<open>\<open>Read\<close> gives no value at the end.\<close>

definition dynamicBuilder_Read :: "lz4u \<Rightarrow> bytes \<Rightarrow> dynamicBuilder \<Rightarrow> (zvalue option \<times> dynamicBuilder) go" where
  "dynamicBuilder_Read uncompress data d =
     (let b = Builder_Truncate (dn_builder d) in
      case Int64Decoder_Next uncompress data (dn_tags d) of
        Panic \<Rightarrow> Panic
      | Err e \<Rightarrow> if e = ioEOF then Ok (None, d) else Err e
      | Ok (tag, tags) \<Rightarrow>
          (if sint tag \<ge> int (length (dn_types d)) then Err (Errorf ''bad tag encountered scanning VNG dynamic'')
           else if sint tag < 0 then Panic
           else
             (let i = nat (sint tag) in
              bindR (Build uncompress data (dn_values d ! i) b) (\<lambda>(v, b).
              bindR (builtBody b) (\<lambda>body.
              Ok (Some (dn_types d ! i, body), d\<lparr>dn_tags := tags, dn_values := (dn_values d)[i := v], dn_builder := b\<rparr>))))))"

definition vectorBuilder_Read :: "lz4u \<Rightarrow> bytes \<Rightarrow> vectorBuilder \<Rightarrow> (zvalue option \<times> vectorBuilder) go" where
  "vectorBuilder_Read uncompress data v =
     (if vc_count v = 0 then Ok (None, v)
      else
        bindR (Build uncompress data (vc_values v) (Builder_Truncate (vc_builder v))) (\<lambda>(values, b).
        bindR (builtBody b) (\<lambda>body.
        Ok (Some (vc_typ v, body), v\<lparr>vc_values := values, vc_builder := b, vc_count := vc_count v - 1\<rparr>))))"

definition ZedReader_Read :: "lz4u \<Rightarrow> bytes \<Rightarrow> zedReader \<Rightarrow> (zvalue option \<times> zedReader) go" where
  "ZedReader_Read uncompress data r =
     (case r of
        DynamicReader d \<Rightarrow> bindR (dynamicBuilder_Read uncompress data d) (\<lambda>(v, d). Ok (v, DynamicReader d))
      | VectorReader v \<Rightarrow> bindR (vectorBuilder_Read uncompress data v) (\<lambda>(x, v). Ok (x, VectorReader v)))"

text \<open>Reading until there is no value, at most \<open>n\<close> times.\<close>

fun readValues :: "nat \<Rightarrow> lz4u \<Rightarrow> bytes \<Rightarrow> zedReader \<Rightarrow> zvalue list go" where
  "readValues 0 uncompress data r = Panic"
| "readValues (Suc n) uncompress data r =
     bindR (ZedReader_Read uncompress data r) (\<lambda>(v, r).
     case v of None \<Rightarrow> Ok [] | Some val \<Rightarrow> bindR (readValues n uncompress data r) (\<lambda>vals. Ok (val # vals)))"

section \<open>The header\<close>

record vngHeader =
  vh_Version :: "32 word"
  vh_MetaSize :: u64
  vh_DataSize :: u64

definition MaxMetaSize :: u64 where "MaxMetaSize = 100 * 1024 * 1024"
definition MaxDataSize :: u64 where "MaxDataSize = 2 * 1024 * 1024 * 1024"

text \<open>\<open>binary.LittleEndian\<close>: the bytes of a word, the low ones first, and back.\<close>

definition putLE :: "nat \<Rightarrow> 'a::len word \<Rightarrow> bytes" where
  "putLE n w = map (\<lambda>i. ucast (drop_bit (8 * i) w)) [0..<n]"

fun getLE :: "bytes \<Rightarrow> 'a::len word" where
  "getLE [] = 0"
| "getLE (b # bs) = ucast b OR push_bit 8 (getLE bs)"

definition Header_Serialize :: "vngHeader \<Rightarrow> bytes" where
  "Header_Serialize h = str ''VNG'' @ [0] @ putLE 4 (vh_Version h) @ putLE 8 (vh_MetaSize h) @ putLE 8 (vh_DataSize h)"

definition Header_Deserialize :: "bytes \<Rightarrow> vngHeader go" where
  "Header_Deserialize bs =
     (if length bs \<noteq> 24 \<or> take 4 bs \<noteq> str ''VNG'' @ [0] then Err (Errorf ''invalid VNG header'')
      else
        (let h = \<lparr>vh_Version = getLE (take 4 (drop 4 bs)), vh_MetaSize = getLE (take 8 (drop 8 bs)), vh_DataSize = getLE (drop 16 bs)\<rparr> in
         if vh_Version h \<noteq> 4 then Err (Errorf ''unsupport VNG version'')
         else if vh_MetaSize h > MaxMetaSize then Err (Errorf ''VNG metadata section too big'')
         else if vh_MetaSize h > MaxDataSize then Err (Errorf ''VNG data section too big'')
         else Ok h))"

text \<open>\<open>ReadHeader\<close> of what the reader's \<open>Read\<close> gives for 24 bytes: the bytes and an error.\<close>

definition ReadHeader :: "bytes \<times> goerror option \<Rightarrow> vngHeader go" where
  "ReadHeader r =
     (case snd r of
        Some err \<Rightarrow> Err err
      | None \<Rightarrow> if length (fst r) < 24 then Err (Errorf ''short VNG file'') else Header_Deserialize (fst r))"

end
