(* ===== verification/VngMeta.thy ===== *)
theory VngMeta
  imports VngStep VngDynamic ContextSpec
begin

text \<open>The metadata of a column has the type of the column, and a reader finds a type of the same structure in its context.\<close>

section \<open>Encoders and metadata for a type\<close>

inductive encFor :: "ztype \<Rightarrow> vencoder \<Rightarrow> bool" where
  ef_named: "encFor t e \<Longrightarrow> encFor (TypeNamed i name t) (NamedEncoder name e)"
| ef_error: "encFor t e \<Longrightarrow> encFor (TypeError i t) (ErrorEncoder e)"
| ef_nulls: "encFor t e \<Longrightarrow> encFor t (NullsEncoder e runs run null cnt)"
| ef_prim: "pe_typ p = TypePrimitive q \<Longrightarrow> encFor (TypePrimitive q) (PrimitiveEncoder p)"
| ef_array: "encFor t e \<Longrightarrow> encFor (TypeArray i t) (ArrayEncoder e ls cnt)"
| ef_set: "encFor t e \<Longrightarrow> encFor (TypeSet i t) (SetEncoder e ls cnt)"
| ef_map: "encFor kt ke \<Longrightarrow> encFor vt ve \<Longrightarrow> encFor (TypeMap i kt vt) (MapEncoder ke ve ls cnt)"
| ef_record: "map fst flds = map fst fs \<Longrightarrow> list_all2 encFor (map snd fs) (map snd flds) \<Longrightarrow> encFor (TypeRecord i fs) (RecordEncoder flds cnt)"
| ef_union: "list_all2 encFor ts es \<Longrightarrow> encFor (TypeUnion i ts) (UnionEncoder j ts' es tags cnt)"

inductive metaFor :: "ztype \<Rightarrow> metadata \<Rightarrow> bool" where
  mf_named: "metaFor t m \<Longrightarrow> metaFor (TypeNamed i name t) (MNamed name m)"
| mf_error: "metaFor t m \<Longrightarrow> metaFor (TypeError i t) (MError m)"
| mf_nulls: "metaFor t m \<Longrightarrow> metaFor t (MNulls loc m n)"
| mf_prim: "metaFor (TypePrimitive q) (MPrimitive (TypePrimitive q) loc dict mn mx n)"
| mf_const: "metaFor (TypePrimitive q) (MConst (TypePrimitive q, b) n)"
| mf_array: "metaFor t m \<Longrightarrow> metaFor (TypeArray i t) (MArray n loc m)"
| mf_set: "metaFor t m \<Longrightarrow> metaFor (TypeSet i t) (MSet n loc m)"
| mf_map: "metaFor kt km \<Longrightarrow> metaFor vt vm \<Longrightarrow> metaFor (TypeMap i kt vt) (MMap n loc km vm)"
| mf_record: "map fst ms = map fst fs \<Longrightarrow> list_all2 metaFor (map snd fs) (map snd ms) \<Longrightarrow> metaFor (TypeRecord i fs) (MRecord n ms)"
| mf_union: "list_all2 metaFor ts ms \<Longrightarrow> metaFor (TypeUnion i ts) (MUnion n loc ms)"

context vngLeaves
begin

lemma enc_encFor: "enc t e vs \<Longrightarrow> encFor t e" and core_encFor: "core t e vs \<Longrightarrow> encFor t e"
proof (induction rule: enc_core.inducts)
  case (core_record flds fs rows i)
  then show ?case by (intro ef_record) (auto simp: list_all2_conv_all_nth)
next
  case (core_union es ts tvs tags i)
  then show ?case by (intro ef_union) (auto simp: list_all2_conv_all_nth)
qed (auto intro: encFor.intros simp: primHolds_def)

end

lemma traverseR_list_all2:
  "list_all2 (\<lambda>t x. \<forall>y. f x = Ok y \<longrightarrow> Q t y) ts xs \<Longrightarrow> traverseR f xs = Ok ys \<Longrightarrow> list_all2 Q ts ys"
proof (induction arbitrary: ys rule: list_all2_induct)
  case (Cons t ts x xs)
  then show ?case by (auto simp: bindR_Ok_iff)
qed simp

lemma primEncode_typ: "primEncode env p = Ok p' \<Longrightarrow> pe_typ p' = pe_typ p"
  by (auto simp: primEncode_def PrimitiveEncoder_Encode_def bindR_Ok_iff)

lemma Encode_encFor: "encFor t e \<Longrightarrow> Encoder_Encode env e = Ok e' \<Longrightarrow> encFor t e'"
proof (induction arbitrary: e' rule: encFor.induct)
  case (ef_nulls t e runs run null cnt)
  then show ?case by (auto simp: bindR_Ok_iff split: if_splits intro: encFor.ef_nulls)
next
  case (ef_prim p q)
  then show ?case by (auto simp: mapR_def bindR_Ok_iff dest!: primEncode_typ intro: encFor.ef_prim)
next
  case (ef_record flds fs i cnt)
  obtain es where es: "traverseR (Encoder_Encode env) (map snd flds) = Ok es" "e' = RecordEncoder (zip (map fst flds) es) cnt"
    using ef_record.prems by (auto simp: traverseR_named mapR_def bindR_Ok_iff)
  have l: "list_all2 encFor (map snd fs) es" by (rule traverseR_list_all2 [OF list_all2_mono [OF ef_record.IH] es(1)]) blast
  then show ?case using es(2) ef_record.hyps list_all2_lengthD [OF l] by (auto intro!: encFor.ef_record)
next
  case (ef_union ts es i j ts' tags cnt)
  obtain es' tags' where es: "traverseR (Encoder_Encode env) es = Ok es'" "e' = UnionEncoder j ts' es' tags' cnt"
    using ef_union.prems by (auto simp: bindR_Ok_iff)
  have "list_all2 encFor ts es'" by (rule traverseR_list_all2 [OF list_all2_mono [OF ef_union.IH] es(1)]) blast
  then show ?case using es(2) by (auto intro!: encFor.ef_union)
qed (auto simp: mapR_def bindR_Ok_iff intro: encFor.intros)

lemma layout_list_all2:
  "list_all2 (\<lambda>t x. \<forall>off off' m y. f off x = Ok (off', m, y) \<longrightarrow> Q t m) ts xs \<Longrightarrow> layout f off xs = Ok (off', ms, ys) \<Longrightarrow> list_all2 Q ts ms"
proof (induction arbitrary: off ms ys rule: list_all2_induct)
  case (Cons t ts x xs)
  then show ?case by (auto simp: bindR_Ok_iff)
qed simp

lemma primMetadata_metaFor:
  "primMetadata env off p = Ok (off', m, p') \<Longrightarrow> pe_typ p = TypePrimitive q \<Longrightarrow> metaFor (TypePrimitive q) m"
  by (auto simp: primMetadata_def PrimitiveEncoder_Metadata_def bindR_Ok_iff split: option.splits list.splits if_splits prod.splits intro: metaFor.intros)

lemma Metadata_metaFor: "encFor t e \<Longrightarrow> Encoder_Metadata env off e = Ok (off', m, e') \<Longrightarrow> metaFor t m"
proof (induction arbitrary: off off' m e' rule: encFor.induct)
  case (ef_nulls t e runs run null cnt)
  then show ?case by (auto simp: bindR_Ok_iff split: if_splits intro: mf_nulls)
next
  case (ef_prim p q)
  then show ?case by (auto simp: bindR_Ok_iff intro: primMetadata_metaFor)
next
  case (ef_record flds fs i cnt)
  obtain ms es where l: "layout (Encoder_Metadata env) off (map snd flds) = Ok (off', ms, es)" "m = MRecord cnt (zip (map fst flds) ms)"
    using ef_record.prems layout_named [of "map fst flds" "map snd flds" "Encoder_Metadata env" off] by (auto simp: bindR_Ok_iff zip_map_fst_snd)
  have "list_all2 metaFor (map snd fs) ms" by (rule layout_list_all2 [OF list_all2_mono [OF ef_record.IH] l(1)]) blast
  then show ?case using l(2) ef_record.hyps by (auto intro!: mf_record simp: list_all2_lengthD [symmetric] dest: list_all2_lengthD)
next
  case (ef_union ts es i j ts' tags cnt)
  obtain off1 ms es' loc where l: "layout (Encoder_Metadata env) off1 es = Ok (off', ms, es')" "m = MUnion cnt loc ms"
    using ef_union.prems by (auto simp: bindR_Ok_iff)
  have "list_all2 metaFor ts ms" by (rule layout_list_all2 [OF list_all2_mono [OF ef_union.IH] l(1)]) blast
  then show ?case using l(2) by (auto intro!: mf_union)
qed (auto simp: bindR_Ok_iff intro: metaFor.intros)

section \<open>Types in the context of a reader\<close>

lemma looked:
  assumes "\<exists>u c'. r = Ok (u, c') \<and> wf_ctx c' \<and> ext_ctx c c' \<and> u \<in> types c' \<and> erase u = erase n" "inC d t" "erase n = erase t"
  shows "\<exists>u c'. r = Ok (u, c') \<and> keeps c c' \<and> twins d c' t u"
  using assms by (auto simp: keeps_def twins_def inC_def)

lemma traverseS_types:
  "list_all2 (\<lambda>t x. \<forall>c. wf_ctx c \<longrightarrow> (\<exists>u c'. g x c = Ok (u, c') \<and> keeps c c' \<and> twins d c' t u)) ts xs \<Longrightarrow> wf_ctx c \<Longrightarrow>
   \<exists>us c'. traverseS g xs c = Ok (us, c') \<and> keeps c c' \<and> list_all2 (twins d c') ts us"
proof (induction arbitrary: c rule: list_all2_induct)
  case (Cons t ts x xs)
  obtain u c1 where u: "g x c = Ok (u, c1)" "keeps c c1" "twins d c1 t u" using Cons.hyps(1) Cons.prems by blast
  obtain us c2 where us: "traverseS g xs c1 = Ok (us, c2)" "keeps c1 c2" "list_all2 (twins d c2) ts us" using Cons.IH [OF keeps_wf [OF u(2)]] by blast
  then show ?case using u keeps_trans [OF u(2) us(2)] twins_keeps [OF us(2) u(3)] by simp
qed (simp add: keeps_refl)

lemma traverseS_named:
  "traverseS (\<lambda>f c. bindR (g (snd f) c) (\<lambda>(t, c). Ok ((fst f, t), c))) flds c = bindR (traverseS g (map snd flds) c) (\<lambda>(ts, c). Ok (zip (map fst flds) ts, c))"
proof (induction flds arbitrary: c)
  case (Cons f flds)
  show ?case
  proof (cases "g (snd f) c")
    case (Ok r)
    obtain t c' where r: "r = (t, c')" by (cases r)
    show ?thesis using Cons.IH [of c'] Ok r by (cases "traverseS g (map snd flds) c'") auto
  qed auto
qed simp

lemma types_step:
  assumes "keeps c c1" "\<exists>u c'. r = Ok (u, c') \<and> keeps c1 c' \<and> twins d c' t u"
  shows "\<exists>u c'. r = Ok (u, c') \<and> keeps c c' \<and> twins d c' t u"
  using assms keeps_trans by blast

lemma inC_part: "wf_types d \<Longrightarrow> inC d t \<Longrightarrow> s \<in> set (children t) \<Longrightarrow> inC d s"
  by (rule inC_children)

lemma twin_inner:
  assumes "wf_ctx c" "inC c u"
  shows "internable c (TypeArray 0 u)" "internable c (TypeSet 0 u)" "internable c (TypeError 0 u)"
  using assms inC_lens_ok [OF wf_ctxD(1)] by (simp_all add: internable_def)

lemma Metadata_Type_twins:
  "metaFor t m \<Longrightarrow> wf_types d \<Longrightarrow> inC d t \<Longrightarrow> wf_ctx c \<Longrightarrow> \<exists>u c'. Metadata_Type m c = Ok (u, c') \<and> keeps c c' \<and> twins d c' t u"
proof (induction arbitrary: c rule: metaFor.induct)
  case (mf_named t m i name)
  have ch: "inC d t" by (rule inC_part [OF mf_named.prems(1,2)]) simp
  obtain u c1 where u: "Metadata_Type m c = Ok (u, c1)" "keeps c c1" "twins d c1 t u" using mf_named.IH [OF mf_named.prems(1) ch mf_named.prems(3)] by blast
  have i: "internable c1 (TypeNamed 0 name u)" by (rule twin_named [OF mf_named.prems(1) keeps_wf [OF u(2)] mf_named.prems(2)]) (use u(3) in \<open>simp add: twins_def\<close>)
  have "\<exists>v c'. LookupTypeNamed name u c1 = Ok (v, c') \<and> keeps c1 c' \<and> twins d c' (TypeNamed i name t) v"
    by (rule looked [where n = "TypeNamed 0 name u"]) (use LookupTypeNamed_ok [OF keeps_wf [OF u(2)] i] mf_named.prems(2) u(3) in \<open>auto simp: twins_def\<close>)
  then have "\<exists>v c'. Metadata_Type (MNamed name m) c = Ok (v, c') \<and> keeps c1 c' \<and> twins d c' (TypeNamed i name t) v" using u(1) by auto
  then show ?case by (rule types_step [OF u(2)])
next
  case (mf_error t m i)
  have ch: "inC d t" by (rule inC_part [OF mf_error.prems(1,2)]) simp
  obtain u c1 where u: "Metadata_Type m c = Ok (u, c1)" "keeps c c1" "twins d c1 t u" using mf_error.IH [OF mf_error.prems(1) ch mf_error.prems(3)] by blast
  have "\<exists>v c'. LookupTypeError u c1 = Ok (v, c') \<and> keeps c1 c' \<and> twins d c' (TypeError i t) v"
    by (rule looked [OF err.look_ok [OF keeps_wf [OF u(2)] twin_inner(3) [OF keeps_wf [OF u(2)]]]]) (use mf_error.prems(2) u(3) in \<open>auto simp: twins_def\<close>)
  then have "\<exists>v c'. Metadata_Type (MError m) c = Ok (v, c') \<and> keeps c1 c' \<and> twins d c' (TypeError i t) v" using u(1) by simp
  then show ?case by (rule types_step [OF u(2)])
next
  case (mf_array t m i n loc)
  have ch: "inC d t" by (rule inC_part [OF mf_array.prems(1,2)]) simp
  obtain u c1 where u: "Metadata_Type m c = Ok (u, c1)" "keeps c c1" "twins d c1 t u" using mf_array.IH [OF mf_array.prems(1) ch mf_array.prems(3)] by blast
  have "\<exists>v c'. LookupTypeArray u c1 = Ok (v, c') \<and> keeps c1 c' \<and> twins d c' (TypeArray i t) v"
    by (rule looked [OF arr.look_ok [OF keeps_wf [OF u(2)] twin_inner(1) [OF keeps_wf [OF u(2)]]]]) (use mf_array.prems(2) u(3) in \<open>auto simp: twins_def\<close>)
  then have "\<exists>v c'. Metadata_Type (MArray n loc m) c = Ok (v, c') \<and> keeps c1 c' \<and> twins d c' (TypeArray i t) v" using u(1) by simp
  then show ?case by (rule types_step [OF u(2)])
next
  case (mf_set t m i n loc)
  have ch: "inC d t" by (rule inC_part [OF mf_set.prems(1,2)]) simp
  obtain u c1 where u: "Metadata_Type m c = Ok (u, c1)" "keeps c c1" "twins d c1 t u" using mf_set.IH [OF mf_set.prems(1) ch mf_set.prems(3)] by blast
  have "\<exists>v c'. LookupTypeSet u c1 = Ok (v, c') \<and> keeps c1 c' \<and> twins d c' (TypeSet i t) v"
    by (rule looked [OF set.look_ok [OF keeps_wf [OF u(2)] twin_inner(2) [OF keeps_wf [OF u(2)]]]]) (use mf_set.prems(2) u(3) in \<open>auto simp: twins_def\<close>)
  then have "\<exists>v c'. Metadata_Type (MSet n loc m) c = Ok (v, c') \<and> keeps c1 c' \<and> twins d c' (TypeSet i t) v" using u(1) by simp
  then show ?case by (rule types_step [OF u(2)])
next
  case (mf_map kt km vt vm i n loc)
  have ch: "inC d kt" "inC d vt" using inC_part [OF mf_map.prems(1,2)] by auto
  obtain u c1 where u: "Metadata_Type km c = Ok (u, c1)" "keeps c c1" "twins d c1 kt u" using mf_map.IH(1) [OF mf_map.prems(1) ch(1) mf_map.prems(3)] by blast
  obtain w c2 where w: "Metadata_Type vm c1 = Ok (w, c2)" "keeps c1 c2" "twins d c2 vt w" using mf_map.IH(2) [OF mf_map.prems(1) ch(2) keeps_wf [OF u(2)]] by blast
  have u2: "twins d c2 kt u" by (rule twins_keeps [OF w(2) u(3)])
  have i: "internable c2 (TypeMap 0 u w)" using u2 w(3) inC_lens_ok [OF wf_ctxD(1) [OF keeps_wf [OF w(2)]]] by (simp add: internable_def twins_def)
  have "\<exists>v c'. LookupTypeMap u w c2 = Ok (v, c') \<and> keeps c2 c' \<and> twins d c' (TypeMap i kt vt) v"
    by (rule looked [OF map.look_ok [OF keeps_wf [OF w(2)], of "(u, w)", unfolded split_conv, OF i]]) (use mf_map.prems(2) u2 w(3) in \<open>auto simp: twins_def\<close>)
  then have "\<exists>v c'. Metadata_Type (MMap n loc km vm) c = Ok (v, c') \<and> keeps c2 c' \<and> twins d c' (TypeMap i kt vt) v" using u(1) w(1) by simp
  then show ?case by (rule types_step [OF keeps_trans [OF u(2) w(2)]])
next
  case (mf_record ms fs i n)
  have "list_all2 (\<lambda>t x. \<forall>c. wf_ctx c \<longrightarrow> (\<exists>u c'. Metadata_Type x c = Ok (u, c') \<and> keeps c c' \<and> twins d c' t u)) (map snd fs) (map snd ms)"
    using mf_record.IH mf_record.prems(1) inC_part [OF mf_record.prems(1,2)] by (auto simp: list_all2_conv_all_nth)
  then obtain us c1 where us: "traverseS Metadata_Type (map snd ms) c = Ok (us, c1)" "keeps c c1" "list_all2 (twins d c1) (map snd fs) us"
    using traverseS_types mf_record.prems(3) by blast
  let ?gs = "zip (map fst fs) us"
  have gs: "map fst ?gs = map fst fs" "map snd ?gs = us" using list_all2_lengthD [OF us(3)] by simp_all
  have tw: "list_all2 (twins d c1) (map snd fs) (map snd ?gs)" using us(3) gs(2) by simp
  note t = twin_record [OF mf_record.prems(1) keeps_wf [OF us(2)] mf_record.prems(2) gs(1) tw]
  have "\<exists>v c'. LookupTypeRecord ?gs c1 = Ok (v, c') \<and> keeps c1 c' \<and> twins d c' (TypeRecord i fs) v"
    by (rule looked [OF rec.look_ok [OF keeps_wf [OF us(2)] t(1)] mf_record.prems(2) t(2)])
  then have "\<exists>v c'. MustLookupTypeRecord ?gs c1 = Ok (v, c') \<and> keeps c1 c' \<and> twins d c' (TypeRecord i fs) v" by (auto simp: MustLookupTypeRecord_def)
  then have "\<exists>v c'. Metadata_Type (MRecord n ms) c = Ok (v, c') \<and> keeps c1 c' \<and> twins d c' (TypeRecord i fs) v"
    using us(1) mf_record.hyps(1) by (simp add: traverseS_named)
  then show ?case by (rule types_step [OF us(2)])
next
  case (mf_union ts ms i n loc)
  have "list_all2 (\<lambda>t x. \<forall>c. wf_ctx c \<longrightarrow> (\<exists>u c'. Metadata_Type x c = Ok (u, c') \<and> keeps c c' \<and> twins d c' t u)) ts ms"
    using mf_union.IH mf_union.prems(1) inC_part [OF mf_union.prems(1,2)] by (auto simp: list_all2_conv_all_nth)
  then obtain us c1 where us: "traverseS Metadata_Type ms c = Ok (us, c1)" "keeps c c1" "list_all2 (twins d c1) ts us"
    using traverseS_types mf_union.prems(3) by blast
  note t = twin_union [OF mf_union.prems(1) keeps_wf [OF us(2)] mf_union.prems(2) us(3)]
  have "\<exists>v c'. LookupTypeUnion us c1 = Ok (v, c') \<and> keeps c1 c' \<and> twins d c' (TypeUnion i ts) v"
    by (rule looked [OF uni.look_ok [OF keeps_wf [OF us(2)] t(1)] mf_union.prems(2) t(2)])
  then have "\<exists>v c'. Metadata_Type (MUnion n loc ms) c = Ok (v, c') \<and> keeps c1 c' \<and> twins d c' (TypeUnion i ts) v" using us(1) by simp
  then show ?case by (rule types_step [OF us(2)])
qed (auto simp: keeps_refl twins_def)

end
