(* ===== verification/VngRound.thy ===== *)
theory VngRound
  imports VngMeta
begin

text \<open>The readers give the values that the vectors hold; a dynamic encoder, and a reader of what it encoded.\<close>

section \<open>Builders keep their depth\<close>

lemma buildTimes_keeps:
  assumes "\<And>v b v' b'. f v b = Ok (v', b') \<Longrightarrow> g v' = g v"
  shows "buildTimes f k v b = Ok (v', b') \<Longrightarrow> g v' = g v"
proof (induction k arbitrary: v b)
  case (Suc k)
  then obtain v1 b1 where "f v b = Ok (v1, b1)" "buildTimes f k v1 b1 = Ok (v', b')" by (auto simp: bindR_Ok_iff)
  then show ?case using Suc.IH assms by metis
qed simp

lemma buildEach_keeps:
  assumes "\<And>v b v' b'. f v b = Ok (v', b') \<Longrightarrow> g v' = g v"
  shows "buildEach f vs b = Ok (vs', b') \<Longrightarrow> map g vs' = map g vs"
proof (induction vs arbitrary: b vs')
  case (Cons v vs)
  then obtain v1 b1 vs1 where "f v b = Ok (v1, b1)" "buildEach f vs b1 = Ok (vs1, b')" "vs' = v1 # vs1" by (auto simp: bindR_Ok_iff)
  then show ?case using Cons.IH assms by simp
qed simp

lemma pairStep_keeps:
  assumes "\<And>v b v' b'. f v b = Ok (v', b') \<Longrightarrow> g v' = g v"
  shows "pairStep f p b = Ok (p', b') \<Longrightarrow> (g (fst p'), g (snd p')) = (g (fst p), g (snd p))"
  by (cases p) (auto simp: bindR_Ok_iff dest!: assms)

lemma Build_depth: "Builder_Build n uncompress data v b = Ok (v', b') \<Longrightarrow> depth v' = depth v"
proof (induction n arbitrary: v b v' b')
  case (Suc n)
  let ?f = "Builder_Build n uncompress data"
  have each: "map depth vs' = map depth vs" if "buildEach ?f vs b = Ok (vs', b')" for vs b vs' b'
    by (rule buildEach_keeps [OF _ that]) (rule Suc.IH)
  have times: "depth e' = depth e" if "buildTimes ?f k e b = Ok (e', b')" for k e b e' b'
    by (rule buildTimes_keeps [OF _ that]) (rule Suc.IH)
  have pairs: "(depth (fst p'), depth (snd p')) = (depth (fst p), depth (snd p))" if "buildTimes (pairStep ?f) k p b = Ok (p', b')" for k p b p' b'
    by (rule buildTimes_keeps [OF _ that]) (rule pairStep_keeps [where f = ?f and g = depth, rotated], assumption, rule Suc.IH)
  show ?case
  proof (cases v)
    case (NullsBuilder vs runs null run)
    then show ?thesis using Suc.prems by (auto simp: bindR_Ok_iff split: if_splits dest!: Suc.IH)
  next
    case (VRecordBuilder vs)
    obtain vs' b1 where r: "buildEach (Builder_Build n uncompress data) vs (BeginContainer b) = Ok (vs', b1)" "v' = VRecordBuilder vs'"
      using Suc.prems VRecordBuilder by (auto simp: bindR_Ok_iff)
    show ?thesis using each [OF r(1)] r(2) VRecordBuilder by simp
  next
    case (ArrayBuilder elems lengths)
    obtain k e' ls b1 where r: "buildTimes (Builder_Build n uncompress data) k elems (BeginContainer b) = Ok (e', b1)" "v' = ArrayBuilder e' ls"
      using Suc.prems ArrayBuilder by (auto simp: bindR_Ok_iff)
    show ?thesis using times [OF r(1)] r(2) ArrayBuilder by simp
  next
    case (MapBuilder keys vals lengths)
    obtain k ls ks vs b1 where m: "buildTimes (pairStep (Builder_Build n uncompress data)) k (keys, vals) (BeginContainer b) = Ok ((ks, vs), b1)" "v' = MapBuilder ks vs ls"
      using Suc.prems MapBuilder by (auto simp: bindR_Ok_iff)
    show ?thesis using pairs [OF m(1)] m(2) MapBuilder by simp
  next
    case (UnionBuilder builders tags)
    obtain i tags' w b1 b2 where u: "Builder_Build n uncompress data (builders ! i) b1 = Ok (w, b2)" "v' = UnionBuilder (builders[i := w]) tags'" "i < length builders"
      using Suc.prems UnionBuilder by (auto simp: bindR_Ok_iff nat_less_iff not_le not_less split: if_splits)
    have "map depth (builders[i := w]) = map depth builders" using Suc.IH [OF u(1)] u(3) by (simp add: map_update list_update_same_conv)
    then show ?thesis using u(2) UnionBuilder by simp
  qed (use Suc.prems in \<open>auto simp: bindR_Ok_iff split: if_splits\<close>)
qed simp

lemma yields_Build:
  "yields (Builder_Build k uncompress data) v xs \<Longrightarrow> depth v = k \<Longrightarrow> yields (Build uncompress data) v xs"
proof (induction xs arbitrary: v)
  case (Cons x xs)
  then obtain v1 where v1: "\<forall>b. Builder_inv b \<longrightarrow> (\<exists>b'. Builder_Build k uncompress data v b = Ok (v1, b') \<and> pushes x b b')" "yields (Builder_Build k uncompress data) v1 xs" by auto
  have "depth v1 = k" using v1(1) Builder_inv_New Build_depth Cons.prems(2) by metis
  then show ?case using v1 Cons.IH [OF v1(2)] Cons.prems(2) by (auto simp: Build_def)
qed simp

lemma builds_Build: "builds uncompress data m vs \<Longrightarrow> \<exists>vb. NewBuilderOf m = Ok vb \<and> yields (Build uncompress data) vb vs"
  unfolding builds_def using yields_Build by blast

section \<open>One value\<close>

lemma Truncate_frames: "Builder_inv (Builder_Truncate b) \<and> Builder_frames (Builder_Truncate b) = [[]]"
  by (cases "b_bytes b") (auto simp: Builder_inv_def Builder_frames_def Builder_Truncate_def)

lemma builtBody_one: "pushes x (Builder_Truncate b) b' \<Longrightarrow> small (buf x) \<Longrightarrow> builtBody b' = Ok x"
  using Builder_frames_single [of b' "Append [] x"] Truncate_frames [of b] Iter_Next_Append [of x "[]"]
  by (auto simp: pushes_def builtBody_def Builder_Bytes_def Bytes_Body_def)

lemma yields_one:
  assumes "yields (Build uncompress data) v (x # xs)" "small (buf x)"
  obtains v' where "\<And>b. \<exists>b'. Build uncompress data v (Builder_Truncate b) = Ok (v', b') \<and> builtBody b' = Ok x" "yields (Build uncompress data) v' xs"
proof -
  obtain v' where v': "\<forall>b. Builder_inv b \<longrightarrow> (\<exists>b'. Build uncompress data v b = Ok (v', b') \<and> pushes x b b')" "yields (Build uncompress data) v' xs" using assms(1) by auto
  show thesis by (rule that [OF _ v'(2)]) (use v'(1) Truncate_frames builtBody_one assms(2) in blast)
qed

section \<open>All values\<close>

lemma readValues_vector:
  "yields (Build uncompress data) v xs \<Longrightarrow> \<forall>x \<in> set xs. small (buf x) \<Longrightarrow>
   readValues (Suc (length xs)) uncompress data (VectorReader \<lparr>vc_typ = t, vc_values = v, vc_builder = b, vc_count = length xs\<rparr>) = Ok (map (\<lambda>x. (t, x)) xs)"
proof (induction xs arbitrary: v b)
  case (Cons x xs)
  obtain v' where v': "\<And>b. \<exists>b'. Build uncompress data v (Builder_Truncate b) = Ok (v', b') \<and> builtBody b' = Ok x" "yields (Build uncompress data) v' xs"
    using yields_one [OF Cons.prems(1)] Cons.prems(2) by auto
  obtain b' where b': "Build uncompress data v (Builder_Truncate b) = Ok (v', b')" "builtBody b' = Ok x" using v'(1) by blast
  have "readValues (Suc (length xs)) uncompress data (VectorReader \<lparr>vc_typ = t, vc_values = v', vc_builder = b', vc_count = length xs\<rparr>) = Ok (map (\<lambda>x. (t, x)) xs)"
    by (rule Cons.IH [OF v'(2)]) (use Cons.prems(2) in simp)
  then show ?case using b' by (simp add: ZedReader_Read_def vectorBuilder_Read_def del: readValues.simps(2)) (simp add: readValues.simps(2) [of "Suc _"] ZedReader_Read_def vectorBuilder_Read_def)
qed (simp add: ZedReader_Read_def vectorBuilder_Read_def)

lemma readValues_dynamic:
  "intReads uncompress data p (map (\<lambda>tv. of_nat (fst tv)) tvs) \<Longrightarrow> \<forall>tv \<in> set tvs. fst tv < length vbs \<and> fst tv < 2 ^ 63 \<and> small (buf (snd tv)) \<Longrightarrow>
   \<forall>j < length vbs. yields (Build uncompress data) (vbs ! j) (tagVals tvs j) \<Longrightarrow> length ts = length vbs \<Longrightarrow>
   readValues (Suc (length tvs)) uncompress data (DynamicReader \<lparr>dn_types = ts, dn_tags = p, dn_values = vbs, dn_builder = b\<rparr>) = Ok (map (\<lambda>tv. (ts ! fst tv, snd tv)) tvs)"
proof (induction tvs arbitrary: p vbs b)
  case (Cons tv tvs)
  obtain i x where tv: "tv = (i, x)" by (cases tv)
  have i: "i < length vbs" "sint (of_nat i :: u64) = int i" "small (buf x)" using Cons.prems(2) tv by (auto simp: sint_of_nat_small)
  obtain p1 where p1: "Int64Decoder_Next uncompress data p = Ok (of_nat i, p1)" "intReads uncompress data p1 (map (\<lambda>tv. of_nat (fst tv)) tvs)" using Cons.prems(1) tv by auto
  have "yields (Build uncompress data) (vbs ! i) (x # tagVals tvs i)" using spec [OF Cons.prems(3), of i] i(1) tv by simp
  then obtain v' where v': "\<And>b. \<exists>b'. Build uncompress data (vbs ! i) (Builder_Truncate b) = Ok (v', b') \<and> builtBody b' = Ok x" "yields (Build uncompress data) v' (tagVals tvs i)"
    using yields_one i(3) by metis
  obtain b' where b': "Build uncompress data (vbs ! i) (Builder_Truncate b) = Ok (v', b')" "builtBody b' = Ok x" using v'(1) by blast
  have "yields (Build uncompress data) (vbs[i := v'] ! j) (tagVals tvs j)" if "j < length vbs" for j
    using spec [OF Cons.prems(3), of j] v'(2) tv i(1) that by (cases "j = i") auto
  then have "readValues (Suc (length tvs)) uncompress data (DynamicReader \<lparr>dn_types = ts, dn_tags = p1, dn_values = vbs[i := v'], dn_builder = b'\<rparr>) = Ok (map (\<lambda>tv. (ts ! fst tv, snd tv)) tvs)"
    by (intro Cons.IH [OF p1(2)]) (use Cons.prems(2,4) in auto)
  then show ?case using b' p1(1) i tv Cons.prems(4)
    by (simp add: readValues.simps(2) [of "Suc _"] ZedReader_Read_def dynamicBuilder_Read_def Let_def del: readValues.simps(2))
qed (simp add: ZedReader_Read_def dynamicBuilder_Read_def Let_def)

section \<open>Vectors of integers\<close>

lemma readInts_all: "intReads uncompress data p vs \<Longrightarrow> readInts uncompress data p = Ok vs"
  by (induction vs arbitrary: p) (auto simp: readInts.simps)

text \<open>A vector of lengths, tags or runs is read back whole; \<open>ReadIntVector\<close> keeps the low 32 bits of each integer.\<close>

context vngLeaves
begin

lemma int_vector_roundtrip:
  assumes "intHolds vs p" "envOK uncompress env" "ve_fl env = fl"
  shows "\<exists>p1 loc. primEncode env p = Ok p1 \<and> primLocation env 0 p1 = Ok (length (pe_out p1), loc, p1) \<and>
    ReadIntVector uncompress (pe_out p1 @ rest) loc = Ok (map ucast vs)"
proof -
  obtain p1 loc where p: "primEncode env p = Ok p1" "\<And>off. primLocation env off p1 = Ok (off + length (pe_out p1), loc off, p1)"
    "\<And>off pre post. length pre = off \<Longrightarrow> intReads uncompress (pre @ pe_out p1 @ post) (NewPrimitiveBuilder (loc off)) vs"
    by (rule intE [OF assms]) (rule that)
  then show ?thesis using readInts_all [OF p(3) [of "[]" 0 rest]] by (intro exI [of _ p1] exI [of _ "loc 0"]) (simp add: ReadIntVector_def mapR_def)
qed

end

section \<open>Dynamic encoders and their readers\<close>

lemma sz_tagged: "sz (tagVals tvs i) \<le> sz (map snd tvs)"
  by (induction tvs) auto

context vngLeaves
begin

section \<open>Writing\<close>

text \<open>The types in the order of their first values, and the values with the positions of their types.\<close>

definition dynHolds :: "ztype list \<Rightarrow> (nat \<times> zbytes) list \<Rightarrow> dynEncoder \<Rightarrow> bool" where
  "dynHolds ts tvs d \<longleftrightarrow> distinct ts \<and> length (dy_values d) = length ts \<and> length ts \<le> length tvs \<and>
     (\<forall>t i. dy_which d t = Some i \<longleftrightarrow> i < length ts \<and> ts ! i = t) \<and> (\<forall>tv \<in> set tvs. fst tv < length ts) \<and>
     intHolds (map (\<lambda>tv. of_nat (fst tv)) tvs) (dy_tags d) \<and> (\<forall>j < length ts. enc (ts ! j) (dy_values d ! j) (tagVals tvs j))"

lemma dynHolds_New: "dynHolds [] [] NewDynamicEncoder"
  using intHolds_New by (simp add: dynHolds_def NewDynamicEncoder_def)

text \<open>The encoder of the type of a value, which may be new.\<close>

definition entered :: "zvalue \<Rightarrow> dynEncoder \<Rightarrow> (nat \<times> dynEncoder) go" where
  "entered val d =
     (case dy_which d (fst val) of
        Some tag \<Rightarrow> Ok (tag, d)
      | None \<Rightarrow>
          bindR (vng_NewEncoder (fst val)) (\<lambda>e.
          let tag = length (dy_values d)
          in Ok (tag, d\<lparr>dy_values := dy_values d @ [e], dy_which := (dy_which d)(fst val \<mapsto> tag)\<rparr>)))"

lemma entered_ok:
  assumes d: "dynHolds ts tvs d" and t: "isOk (vng_NewEncoder (fst val))"
  shows "\<exists>ts' i d'. entered val d = Ok (i, d') \<and> i < length ts' \<and> ts' ! i = fst val \<and> (ts' = ts \<or> ts' = ts @ [fst val]) \<and> distinct ts' \<and>
    length (dy_values d') = length ts' \<and> dy_tags d' = dy_tags d \<and> dy_len d' = dy_len d \<and>
    (\<forall>t i. dy_which d' t = Some i \<longleftrightarrow> i < length ts' \<and> ts' ! i = t) \<and> (\<forall>j < length ts'. enc (ts' ! j) (dy_values d' ! j) (tagVals tvs j))"
proof (cases "dy_which d (fst val)")
  case (Some i)
  then have "entered val d = Ok (i, d)" by (simp add: entered_def)
  then show ?thesis using d Some by (intro exI [of _ ts] exI [of _ i] exI [of _ d]) (auto simp: dynHolds_def)
next
  case None
  obtain e where e: "vng_NewEncoder (fst val) = Ok e" using t by (auto simp: isOk_iff)
  have D: "distinct ts" "length (dy_values d) = length ts" "\<And>t i. dy_which d t = Some i \<longleftrightarrow> i < length ts \<and> ts ! i = t"
    "\<forall>tv \<in> set tvs. fst tv < length ts" "\<forall>j < length ts. enc (ts ! j) (dy_values d ! j) (tagVals tvs j)" using d by (auto simp: dynHolds_def)
  let ?d = "d\<lparr>dy_values := dy_values d @ [e], dy_which := (dy_which d)(fst val \<mapsto> length ts)\<rparr>" and ?ts = "ts @ [fst val]"
  have new: "fst val \<notin> set ts" using D(3) [of "fst val"] None by (auto simp: in_set_conv_nth)
  have new': "ts ! i \<noteq> fst val" if "i < length ts" for i using new nth_mem [OF that] by auto
  have "tagVals tvs (length ts) = []" using D(4) by (auto simp: filter_empty_conv)
  then have en: "\<forall>j < length ?ts. enc (?ts ! j) (dy_values ?d ! j) (tagVals tvs j)" using D(2,5) enc_NewEncoder [OF e] by (auto simp: nth_append less_Suc_eq)
  have wh: "dy_which ?d t = Some i \<longleftrightarrow> i < length ?ts \<and> ?ts ! i = t" for t i using D(3) new' by (auto simp: nth_append less_Suc_eq)
  have "entered val d = Ok (length ts, ?d)" using None e D(2) by (simp add: entered_def Let_def)
  then show ?thesis using D(1,2) new wh en by (intro exI [of _ ?ts] exI [of _ "length ts"] exI [of _ ?d]) simp
qed

lemma dyn_Write:
  assumes d: "dynHolds ts tvs d" and t: "isOk (vng_NewEncoder (fst val))" "storable K (fst val) (snd val)" and n: "sz (map snd tvs @ [snd val]) < 2 ^ 32"
  shows "\<exists>ts' i d'. DynamicEncoder_Write fl d val = Ok d' \<and> dynHolds ts' (tvs @ [(i, snd val)]) d' \<and> i < length ts' \<and> ts' ! i = fst val \<and> (ts' = ts \<or> ts' = ts @ [fst val])"
proof -
  obtain ts' i d1 where e: "entered val d = Ok (i, d1)" "i < length ts'" "ts' ! i = fst val" "ts' = ts \<or> ts' = ts @ [fst val]" "distinct ts'"
    "length (dy_values d1) = length ts'" "dy_tags d1 = dy_tags d" "\<forall>t i. dy_which d1 t = Some i \<longleftrightarrow> i < length ts' \<and> ts' ! i = t"
    "\<forall>j < length ts'. enc (ts' ! j) (dy_values d1 ! j) (tagVals tvs j)" using entered_ok [OF d t(1)] by blast
  have D: "length ts \<le> length tvs" "\<forall>tv \<in> set tvs. fst tv < length ts" "intHolds (map (\<lambda>tv. of_nat (fst tv)) tvs) (dy_tags d)" using d by (auto simp: dynHolds_def)
  obtain tags where tags: "Int64Encoder_Write fl (dy_tags d) (of_nat i) = Ok tags" "intHolds (map (\<lambda>tv. of_nat (fst tv)) tvs @ [of_nat i]) tags"
    using Int64Encoder_Write_ok [OF D(3)] by blast
  have "sz (tagVals tvs i @ [snd val]) < 2 ^ 32" using n sz_tagged [of i tvs] by simp
  then obtain v where v: "Encoder_Write fl (dy_values d1 ! i) (snd val) = Ok v" "enc (fst val) v (tagVals tvs i @ [snd val])"
    using Write_storable [OF t(2)] e(2,3,9) by metis
  let ?d = "d1\<lparr>dy_tags := tags, dy_len := inc32 (dy_len d1), dy_values := (dy_values d1)[i := v]\<rparr>"
  have "DynamicEncoder_Write fl d val = Ok ?d"
    using e(1,2,6,7) tags(1) v(1) by (simp add: DynamicEncoder_Write_def entered_def [symmetric])
  moreover have "enc (ts' ! j) (dy_values ?d ! j) (tagVals (tvs @ [(i, snd val)]) j)" if "j < length ts'" for j
    using that e(3,6,9) v(2) by (cases "j = i") auto
  then have "dynHolds ts' (tvs @ [(i, snd val)]) ?d" using e D tags(2) by (auto simp: dynHolds_def)
  ultimately show ?thesis using e(2-4) by blast
qed

abbreviation valsOf :: "ztype list \<Rightarrow> (nat \<times> zbytes) list \<Rightarrow> zvalue list" where
  "valsOf ts tvs \<equiv> map (\<lambda>tv. (ts ! fst tv, snd tv)) tvs"

lemma dyn_writes:
  "dynHolds ts tvs d \<Longrightarrow> \<forall>val \<in> set vals. isOk (vng_NewEncoder (fst val)) \<and> storable K (fst val) (snd val) \<Longrightarrow> sz (map snd tvs @ map snd vals) < 2 ^ 32 \<Longrightarrow>
   \<exists>ts' tvs' d'. foldR (DynamicEncoder_Write fl) d vals = Ok d' \<and> dynHolds ts' tvs' d' \<and> valsOf ts' tvs' = valsOf ts tvs @ vals \<and>
     set ts' \<subseteq> set ts \<union> fst ` set vals"
proof (induction vals arbitrary: ts tvs d)
  case (Cons val vals)
  obtain ts1 i d1 where w: "DynamicEncoder_Write fl d val = Ok d1" "dynHolds ts1 (tvs @ [(i, snd val)]) d1" "i < length ts1" "ts1 ! i = fst val" "ts1 = ts \<or> ts1 = ts @ [fst val]"
    using dyn_Write [OF Cons.prems(1), of val] Cons.prems(2,3) by auto
  have "\<forall>tv \<in> set tvs. fst tv < length ts" using Cons.prems(1) by (simp add: dynHolds_def)
  then have same: "valsOf ts1 (tvs @ [(i, snd val)]) = valsOf ts tvs @ [val]" using w(4,5) by (auto simp: nth_append)
  obtain ts' tvs' d' where r: "foldR (DynamicEncoder_Write fl) d1 vals = Ok d'" "dynHolds ts' tvs' d'" "valsOf ts' tvs' = valsOf ts1 (tvs @ [(i, snd val)]) @ vals"
    "set ts' \<subseteq> set ts1 \<union> fst ` set vals" using Cons.IH [OF w(2)] Cons.prems(2,3) by auto
  show ?case using w(1,5) r same by (intro exI [of _ ts'] exI [of _ tvs'] exI [of _ d']) auto
qed auto

section \<open>Encoding and reading\<close>

lemma dyn_laid:
  assumes d: "dynHolds ts tvs d" and n: "sz (map snd tvs) < 2 ^ 32" and env: "envOK uncompress env" "ve_fl env = fl"
  shows "list_all2 (laid uncompress env) (dy_values d) (map (tagVals tvs) [0..<length ts])" "list_all2 encFor ts (dy_values d)"
proof -
  have "laid uncompress env (dy_values d ! j) (tagVals tvs j)" if "j < length ts" for j
    by (rule enc_laid(1) [OF env]) (use d n sz_tagged [of j tvs] that in \<open>auto simp: dynHolds_def\<close>)
  then show "list_all2 (laid uncompress env) (dy_values d) (map (tagVals tvs) [0..<length ts])" using d by (auto simp: list_all2_conv_all_nth dynHolds_def)
  show "list_all2 encFor ts (dy_values d)" using d enc_encFor by (auto simp: list_all2_conv_all_nth dynHolds_def)
qed

lemma tag_bounds:
  assumes d: "dynHolds ts tvs d" and n: "sz (map snd tvs) < 2 ^ 32"
  shows "\<forall>tv \<in> set tvs. fst tv < length ts \<and> fst tv < 2 ^ 63 \<and> small (buf (snd tv))"
proof
  fix tv assume tv: "tv \<in> set tvs"
  have "fst tv < length ts" "length ts \<le> length tvs" using d tv by (auto simp: dynHolds_def)
  moreover have "length tvs < 2 ^ 32" using length_sz [of "map snd tvs"] n by simp
  moreover have "weight (snd tv) < 2 ^ 32" using sz_member [of "snd tv" "map snd tvs"] tv n by simp
  ultimately show "fst tv < length ts \<and> fst tv < 2 ^ 63 \<and> small (buf (snd tv))" by (simp add: small_def weight_def)
qed

lemma newDynamicBuilder_ok:
  assumes ms: "list_all2 (builds uncompress data) ms cs" "list_all2 metaFor ts ms" and d: "wf_types d" "\<forall>t \<in> set ts. inC d t" and c: "wf_ctx c"
  shows "\<exists>vbs us c'. newDynamicBuilder loc ms c = Ok (\<lparr>dn_types = us, dn_tags = NewPrimitiveBuilder loc, dn_values = vbs, dn_builder = NewBuilder\<rparr>, c') \<and>
    keeps c c' \<and> list_all2 (twins d c') ts us \<and> list_all2 (yields (Build uncompress data)) vbs cs"
proof -
  let ?f = "\<lambda>m c. bindR (NewBuilderOf m) (\<lambda>v. bindR (Metadata_Type m c) (\<lambda>(t, c). Ok ((v, t), c)))"
  have "\<exists>vts c'. traverseS ?f ms c = Ok (vts, c') \<and> keeps c c' \<and> list_all2 (twins d c') ts (map snd vts) \<and> list_all2 (yields (Build uncompress data)) (map fst vts) cs"
    using ms d(2) c
  proof (induction ms arbitrary: ts cs c)
    case Nil
    then show ?case by (simp add: keeps_refl)
  next
    case (Cons m ms)
    obtain x xs t ts' where x: "cs = x # xs" "builds uncompress data m x" "list_all2 (builds uncompress data) ms xs" "ts = t # ts'" "metaFor t m" "list_all2 metaFor ts' ms"
      using Cons.prems(1,2) by (auto simp: list_all2_Cons1 list_all2_Cons2)
    obtain vb where vb: "NewBuilderOf m = Ok vb" "yields (Build uncompress data) vb x" using builds_Build [OF x(2)] by blast
    obtain u c1 where u: "Metadata_Type m c = Ok (u, c1)" "keeps c c1" "twins d c1 t u" using Metadata_Type_twins [OF x(5) d(1) _ Cons.prems(4)] Cons.prems(3) x(4) by auto
    obtain vts c' where i: "traverseS ?f ms c1 = Ok (vts, c')" "keeps c1 c'" "list_all2 (twins d c') ts' (map snd vts)" "list_all2 (yields (Build uncompress data)) (map fst vts) xs"
      using Cons.IH [OF x(3,6) _ keeps_wf [OF u(2)]] Cons.prems(3) x(4) by auto
    show ?case using x(1,4) vb u i keeps_trans [OF u(2) i(2)] twins_keeps [OF i(2) u(3)] by (intro exI [of _ "(vb, u) # vts"] exI [of _ c']) simp
  qed
  then show ?thesis by (auto simp: newDynamicBuilder_def)
qed

text \<open>What is read back from an encoder that holds the values \<open>tvs\<close> of the types \<open>ts\<close>.\<close>

definition readBack :: "lz4u \<Rightarrow> vngEnv \<Rightarrow> ctx \<Rightarrow> ctx \<Rightarrow> dynEncoder \<Rightarrow> ztype list \<Rightarrow> (nat \<times> zbytes) list \<Rightarrow> bool" where
  "readBack uncompress env d c e ts tvs \<longleftrightarrow> (\<exists>m e' r c' us. DynamicEncoder_Encode env e = Ok (m, length (DynamicEncoder_Emit e'), e') \<and>
     NewZedReader m c = Ok (r, c') \<and> keeps c c' \<and> list_all2 (twins d c') ts us \<and>
     readValues (Suc (length tvs)) uncompress (DynamicEncoder_Emit e') r = Ok (valsOf us tvs))"

lemma readBack_one:
  assumes e: "dynHolds [t] tvs e" and n: "sz (map snd tvs) < 2 ^ 32" and env: "envOK uncompress env" "ve_fl env = fl"
    and d: "wf_types d" "inC d t" and c: "wf_ctx c"
  shows "readBack uncompress env d c e [t] tvs"
proof -
  obtain v where v: "dy_values e = [v]" using e by (cases "dy_values e") (auto simp: dynHolds_def)
  have bnd: "\<forall>tv \<in> set tvs. fst tv < length [t] \<and> fst tv < 2 ^ 63 \<and> small (buf (snd tv))" by (rule tag_bounds [OF e n])
  then have tv0: "tagVals tvs 0 = map snd tvs" "\<forall>x \<in> set (map snd tvs). small (buf x)" "\<And>us. valsOf us tvs = map (\<lambda>x. (us ! 0, x)) (map snd tvs)" by auto
  have l: "laid uncompress env v (map snd tvs)" and ef: "encFor t v" using dyn_laid [OF e n env] v tv0(1) by auto
  obtain e1 m e2 where l: "Encoder_Encode env v = Ok e1"
    "\<And>off. Encoder_Metadata env off e1 = Ok (off + length (Encoder_Emit (e2 off)), m off, e2 off)" "\<And>off. Metadata_Len (m off) = length (map snd tvs)"
    "\<And>off pre post. length pre = off \<Longrightarrow> builds uncompress (pre @ Encoder_Emit (e2 off) @ post) (m off) (map snd tvs)"
    by (rule laidE [OF l]) (rule that)
  let ?e = "e\<lparr>dy_values := [e2 0]\<rparr>"
  have enc: "DynamicEncoder_Encode env e = Ok (m 0, length (DynamicEncoder_Emit ?e), ?e)" using v l(1,2) by (simp add: DynamicEncoder_Encode_def DynamicEncoder_Emit_def)
  have data: "DynamicEncoder_Emit ?e = Encoder_Emit (e2 0)" by (simp add: DynamicEncoder_Emit_def)
  have mf: "metaFor t (m 0)" by (rule Metadata_metaFor [OF Encode_encFor [OF ef l(1)] l(2)])
  obtain vb where vb: "NewBuilderOf (m 0) = Ok vb" "yields (Build uncompress (Encoder_Emit (e2 0))) vb (map snd tvs)" using builds_Build [OF l(4) [of "[]" 0 "[]"]] by auto
  obtain u c' where u: "Metadata_Type (m 0) c = Ok (u, c')" "keeps c c'" "twins d c' t u" using Metadata_Type_twins [OF mf d c] by blast
  let ?r = "VectorReader \<lparr>vc_typ = u, vc_values = vb, vc_builder = NewBuilder, vc_count = length (map snd tvs)\<rparr>"
  have "NewZedReader (m 0) c = Ok (?r, c')" using vb(1) u(1) l(3) [of 0] mf by (cases "m 0") (auto simp: NewZedReader_def elim: metaFor.cases)
  moreover have "readValues (Suc (length tvs)) uncompress (DynamicEncoder_Emit ?e) ?r = Ok (valsOf [u] tvs)"
    using readValues_vector [OF vb(2) tv0(2), of u NewBuilder] by (simp only: data tv0(3) length_map nth_Cons_0)
  ultimately show ?thesis unfolding readBack_def using enc u(2,3) by (intro exI [of _ "m 0"] exI [of _ ?e] exI [of _ ?r] exI [of _ c'] exI [of _ "[u]"]) simp
qed

lemma readBack_many:
  assumes e: "dynHolds ts tvs e" and n: "sz (map snd tvs) < 2 ^ 32" and env: "envOK uncompress env" "ve_fl env = fl"
    and d: "wf_types d" "\<forall>t \<in> set ts. inC d t" and c: "wf_ctx c" and ts: "1 < length ts"
  shows "readBack uncompress env d c e ts tvs"
proof -
  let ?cs = "map (tagVals tvs) [0..<length ts]"
  note l = dyn_laid [OF e n env] and bnd = tag_bounds [OF e n]
  have len: "length (dy_values e) = length ts" and tags: "intHolds (map (\<lambda>tv. of_nat (fst tv)) tvs) (dy_tags e)" using e by (auto simp: dynHolds_def)
  obtain p1 loc where p: "primEncode env (dy_tags e) = Ok p1" "\<And>off. primLocation env off p1 = Ok (off + length (pe_out p1), loc off, p1)"
    "\<And>off pre post. length pre = off \<Longrightarrow> intReads uncompress (pre @ pe_out p1 @ post) (NewPrimitiveBuilder (loc off)) (map (\<lambda>tv. of_nat (fst tv)) tvs)"
    by (rule intE [OF tags env]) (rule that)
  obtain es1 ms es2 where es: "traverseR (Encoder_Encode env) (dy_values e) = Ok es1" "length es1 = length (dy_values e)"
    "\<And>off. layout (Encoder_Metadata env) off es1 = Ok (off + length (emitAll (es2 off)), ms off, es2 off)"
    "\<And>off. length (es2 off) = length (dy_values e)" "\<And>off. list_all2 (\<lambda>m c. Metadata_Len m = length c) (ms off) ?cs"
    "\<And>off pre post. length pre = off \<Longrightarrow> list_all2 (builds uncompress (pre @ emitAll (es2 off) @ post)) (ms off) ?cs"
    by (rule laid_partsE [OF l(1)]) (rule that)
  let ?off = "length (pe_out p1)"
  let ?e = "e\<lparr>dy_tags := p1, dy_values := es2 ?off\<rparr>" and ?data = "pe_out p1 @ emitAll (es2 ?off)" and ?m = "MDynamic (loc 0) (ms ?off) (dy_len e)"
  have data: "DynamicEncoder_Emit ?e = ?data" using es(4) [of ?off] len ts by (simp add: DynamicEncoder_Emit_def)
  have two: "\<exists>a b rest. es1 = a # b # rest" using es(2) len ts by (cases es1; cases "tl es1") auto
  then have enc: "DynamicEncoder_Encode env e = Ok (?m, length (DynamicEncoder_Emit ?e), ?e)"
    using p(1,2) es(1) es(3) [of ?off] len ts data by (auto simp: DynamicEncoder_Encode_def)
  have efs: "list_all2 encFor ts es1" by (rule traverseR_list_all2 [OF list_all2_mono [OF l(2)] es(1)]) (blast intro: Encode_encFor)
  have mf: "list_all2 metaFor ts (ms ?off)" by (rule layout_list_all2 [OF list_all2_mono [OF efs] es(3)]) (blast intro: Metadata_metaFor)
  have bs: "list_all2 (builds uncompress ?data) (ms ?off) ?cs" using es(6) [of "pe_out p1" ?off "[]"] by simp
  obtain vbs us c' where r: "newDynamicBuilder (loc 0) (ms ?off) c = Ok (\<lparr>dn_types = us, dn_tags = NewPrimitiveBuilder (loc 0), dn_values = vbs, dn_builder = NewBuilder\<rparr>, c')"
    "keeps c c'" "list_all2 (twins d c') ts us" "list_all2 (yields (Build uncompress ?data)) vbs ?cs" using newDynamicBuilder_ok [OF bs mf d c] by blast
  let ?r = "DynamicReader \<lparr>dn_types = us, dn_tags = NewPrimitiveBuilder (loc 0), dn_values = vbs, dn_builder = NewBuilder\<rparr>"
  have lens: "length us = length ts" "length vbs = length ts" using list_all2_lengthD [OF r(3)] list_all2_lengthD [OF r(4)] by simp_all
  have ys: "\<forall>j < length vbs. yields (Build uncompress ?data) (vbs ! j) (tagVals tvs j)" using r(4) lens(2) by (auto simp: list_all2_conv_all_nth)
  have "readValues (Suc (length tvs)) uncompress ?data ?r = Ok (valsOf us tvs)"
    by (rule readValues_dynamic) (use p(3) [of "[]" 0] bnd ys lens in simp_all)
  moreover have "NewZedReader ?m c = Ok (?r, c')" using r(1) by (simp add: NewZedReader_def)
  ultimately show ?thesis unfolding readBack_def
    by (intro exI [of _ ?m] exI [of _ ?e] exI [of _ ?r] exI [of _ c'] exI [of _ us] conjI) (rule enc, assumption, rule r(2), rule r(3), simp only: data)
qed

lemma readBack_none: "readValues 1 uncompress (DynamicEncoder_Emit NewDynamicEncoder) (DynamicReader \<lparr>dn_types = [], dn_tags = NewPrimitiveBuilder
    (PrimitiveEncoder_segment 0 NewInt64Encoder), dn_values = [], dn_builder = NewBuilder\<rparr>) = Ok []"
  by (simp add: ZedReader_Read_def dynamicBuilder_Read_def Let_def DynamicEncoder_Emit_def NewDynamicEncoder_def Int64Decoder_Next_def
      PrimitiveBuilder_ReadBytes_def NewPrimitiveBuilder_def Segment_Read_def ReadAt_def PrimitiveEncoder_segment_def NewInt64Encoder_def NewPrimitiveEncoder_def)

lemma roundtrip:
  assumes env: "envOK uncompress env" "ve_fl env = fl" and d: "wf_types d" and c: "wf_ctx c"
    and vals: "\<forall>val \<in> set vals. inC d (fst val) \<and> isOk (vng_NewEncoder (fst val)) \<and> storable K (fst val) (snd val)" and n: "sz (map snd vals) < 2 ^ 32"
  shows "\<exists>e m e' r c' us. foldR (DynamicEncoder_Write fl) NewDynamicEncoder vals = Ok e \<and>
    DynamicEncoder_Encode env e = Ok (m, length (DynamicEncoder_Emit e'), e') \<and> NewZedReader m c = Ok (r, c') \<and> keeps c c' \<and>
    readValues (Suc (length vals)) uncompress (DynamicEncoder_Emit e') r = Ok (zip us (map snd vals)) \<and> list_all2 (twins d c') (map fst vals) us"
proof (cases "vals = []")
  case True
  let ?m = "MDynamic (PrimitiveEncoder_segment 0 NewInt64Encoder) [] 0"
  have "DynamicEncoder_Encode env NewDynamicEncoder = Ok (?m, length (DynamicEncoder_Emit NewDynamicEncoder), NewDynamicEncoder)"
    by (simp add: DynamicEncoder_Encode_def DynamicEncoder_Emit_def NewDynamicEncoder_def primLocation_def primMetadata_def PrimitiveEncoder_Metadata_def locationOf_def
        NewInt64Encoder_def NewPrimitiveEncoder_def)
  moreover have "NewZedReader ?m c = Ok (DynamicReader \<lparr>dn_types = [], dn_tags = NewPrimitiveBuilder (PrimitiveEncoder_segment 0 NewInt64Encoder), dn_values = [], dn_builder = NewBuilder\<rparr>, c)"
    by (simp add: NewZedReader_def newDynamicBuilder_def)
  moreover have "foldR (DynamicEncoder_Write fl) NewDynamicEncoder vals = Ok NewDynamicEncoder" "readValues (Suc (length vals)) = readValues 1" "zip [] (map snd vals) = []"
    "list_all2 (twins d c) (map fst vals) []" using True by simp_all
  ultimately show ?thesis using readBack_none keeps_refl [OF c] by metis
next
  case False
  obtain ts tvs e where w: "foldR (DynamicEncoder_Write fl) NewDynamicEncoder vals = Ok e" "dynHolds ts tvs e" "valsOf ts tvs = vals" "set ts \<subseteq> fst ` set vals"
    using dyn_writes [OF dynHolds_New, of vals] vals n by auto
  have snds: "map snd tvs = map snd vals" and len: "length tvs = length vals" using w(3) by auto
  have bnd: "\<forall>tv \<in> set tvs. fst tv < length ts" using w(2) by (simp add: dynHolds_def)
  have ts: "\<forall>t \<in> set ts. inC d t" using w(4) vals by auto
  have "ts \<noteq> []" using False len bnd by (cases tvs) auto
  then consider t where "ts = [t]" | "1 < length ts" by (cases ts; cases "tl ts") auto
  then have "readBack uncompress env d c e ts tvs"
  proof cases
    case (1 t)
    then show ?thesis using readBack_one [OF w(2) [unfolded 1] _ env d _ c] n snds ts by simp
  next
    case 2
    then show ?thesis using readBack_many [OF w(2) _ env d ts c] n snds by simp
  qed
  then obtain m e' r c' us where r: "DynamicEncoder_Encode env e = Ok (m, length (DynamicEncoder_Emit e'), e')" "NewZedReader m c = Ok (r, c')" "keeps c c'"
    "list_all2 (twins d c') ts us" "readValues (Suc (length tvs)) uncompress (DynamicEncoder_Emit e') r = Ok (valsOf us tvs)" unfolding readBack_def by blast
  let ?us = "map (\<lambda>tv. us ! fst tv) tvs"
  have "valsOf us tvs = zip ?us (map snd vals)" unfolding snds [symmetric] by (induction tvs) auto
  moreover have "list_all2 (twins d c') (map fst vals) ?us" unfolding w(3) [symmetric] using r(4) bnd by (auto simp: list_all2_conv_all_nth)
  moreover have "readValues (Suc (length vals)) uncompress (DynamicEncoder_Emit e') r = Ok (valsOf us tvs)" using r(5) unfolding len .
  ultimately show ?thesis using w(1) r(1-3) by (intro exI [of _ e] exI [of _ m] exI [of _ e'] exI [of _ r] exI [of _ c'] exI [of _ ?us]) (simp only: simp_thms)
qed

end

end
