(* ===== verification/VngProps.thy ===== *)
theory VngProps
  imports VngRound ContextProps
begin

text \<open>The properties of the columnar format: what is read back, and what may not be.\<close>

section \<open>Leaves\<close>

text \<open>
  The leaves of the round trip: integers, times and durations in the encoding that Zed itself
  writes, booleans of one byte 0 or 1, strings, bytes and networks.
\<close>

definition plainLeaf :: "ztype \<Rightarrow> bytes \<Rightarrow> bool" where
  "plainLeaf t b \<longleftrightarrow> isPrim t \<and> small b \<and>
     (ID t \<le> 13 \<and> (if IsSigned (ID t) then EncodeInt (DecodeInt (Some b)) = Ok b else EncodeUint (DecodeUint (Some b)) = Ok b) \<or>
      ID t = 23 \<and> (b = [0] \<or> b = [1]) \<or> ID t \<in> {24, 25, 27})"

lemma plainLeaf_simple: "plainLeaf t b \<Longrightarrow> simpleVal (t, Some b)"
  by (cases t) (auto simp: plainLeaf_def simpleVal_def properID_def isNative_def)

lemma valueCompare_simple:
  assumes "plainLeaf t a" "plainLeaf t b"
  shows "NewValueCompareFn fl False False (t, Some a) (t, Some b) = Ok (simpleCmp False (t, Some a) (t, Some b))"
  using compareValues_simple [OF plainLeaf_simple [OF assms(1)] plainLeaf_simple [OF assms(2)], of fl False]
  by (simp add: NewValueCompareFn_def Comparator_Compare_def NewComparator_def)

lemma simpleCmp_0D:
  "simpleCmp False (t, Some a) (t, Some b) = 0 \<Longrightarrow> numOf (t, Some a) = numOf (t, Some b) \<and> bytesOf (t, Some a) = bytesOf (t, Some b)"
  unfolding simpleCmp_def by (simp only: go_cmp_def strings_Compare_0 split: if_splits) (simp_all split: if_splits)

lemma plainLeaf_cases:
  assumes "plainLeaf t a" "plainLeaf t b"
  obtains "ID t \<le> 13" | "ID t = 23" "a = [0] \<or> a = [1]" "b = [0] \<or> b = [1]" | "ID t \<in> {24, 25, 27}"
  using assms unfolding plainLeaf_def by force

lemma plainLeaf_int:
  "plainLeaf t b \<Longrightarrow> ID t \<le> 13 \<Longrightarrow> if IsSigned (ID t) then EncodeInt (DecodeInt (Some b)) = Ok b else EncodeUint (DecodeUint (Some b)) = Ok b"
  by (auto simp: plainLeaf_def)

lemma intOf_inj:
  assumes "plainLeaf t a" "plainLeaf t b" "ID t \<le> 13" "intOf (t, Some a) = intOf (t, Some b)"
  shows "a = b"
proof (cases "IsSigned (ID t)")
  case True
  then have "DecodeInt (Some a) = DecodeInt (Some b)" using assms(4) by (simp add: intOf_def signed_word_eqI)
  then have "Ok a = (Ok b :: bytes go)" using plainLeaf_int [OF assms(1,3)] plainLeaf_int [OF assms(2,3)] True by metis
  then show ?thesis by simp
next
  case False
  then have "DecodeUint (Some a) = DecodeUint (Some b)" using assms(4) by (simp add: intOf_def word_uint_eqI)
  then have "Ok a = (Ok b :: bytes go)" using plainLeaf_int [OF assms(1,3)] plainLeaf_int [OF assms(2,3)] False by metis
  then show ?thesis by simp
qed

lemma plainLeaf_inj:
  assumes "plainLeaf t a" "plainLeaf t b" "simpleCmp False (t, Some a) (t, Some b) = 0"
  shows "a = b"
  using assms(1,2)
proof (cases rule: plainLeaf_cases)
  case 1
  then show ?thesis using intOf_inj [OF assms(1,2)] simpleCmp_0D [OF assms(3)] by (simp add: numOf_def isNative_def)
next
  case 2
  have "numOf (t, Some x) = (if hd x \<noteq> 0 then 1 else 0)" for x using 2(1) by (simp add: numOf_def isNative_def)
  then show ?thesis using 2(2,3) simpleCmp_0D [OF assms(3)] by auto
next
  case 3
  then have "bytesOf (t, Some x) = x" for x by (auto simp: bytesOf_def isNative_def)
  then show ?thesis using simpleCmp_0D [OF assms(3)] by simp
qed

interpretation vng: vngLeaves fl plainLeaf for fl
proof (rule vngLeaves.intro)
  fix t a b
  assume ab: "plainLeaf t a" "plainLeaf t b"
  show "isOk (NewValueCompareFn fl False False (t, Some a) (t, Some b))" using valueCompare_simple [OF ab] by simp
  show "leafCmp fl t a b = 0 \<Longrightarrow> a = b" using valueCompare_simple [OF ab] plainLeaf_inj [OF ab] by (simp add: okInt_def)
next
  fix t
  have "ordering (\<lambda>a b. okInt (Comparator_Compare fl (NewComparator False [\<lparr>se_Eval = (\<lambda>this. this), se_Desc = False\<rparr>]) (t, Some a) (t, Some b))) (plainLeaf t)"
    by (rule ordering_inv [OF cc.ordering_axioms]) (simp add: simpleKeys_def NewComparator_def plainLeaf_simple)
  then show "ordering (leafCmp fl t) (plainLeaf t)" by (simp add: NewValueCompareFn_def)
next
  fix v b assume "EncodeInt v = Ok b"
  then have "b = encInt v" using EncodeInt_encInt by simp
  then show "plainLeaf (TypePrimitive TypeInt64) b"
    using EncodeInt_encInt [of v] DecodeInt_encInt [of v] encInt_small by (simp add: plainLeaf_def IsSigned_def)
next
  fix t a assume "plainLeaf t a"
  then show "small a" by (simp add: plainLeaf_def)
qed

section \<open>Round trip\<close>

lemma sz_sum: "sz (map snd vals) = (\<Sum>val \<leftarrow> vals. 1 + length (buf (snd val)))"
  by (induction vals) (auto simp: weight_def)

text \<open>C5: values of types without enums, whose leaves are integers, times, durations, booleans, strings, bytes and
  networks in their canonical encoding, and which are less than 4 GiB in all, are written without an error; the metadata, which
  is handed on as a value, and the data section then give a reader, whose context may be another
  one, that reads the same values in the same order, each with a type of the same structure, and then nothing.
  This holds for every order in which Go ranges over the dictionaries and for every sorting algorithm.  Other leaves may
  compare as equal although they differ, as floats do, and are not covered; see the next section.\<close>

theorem vng_roundtrip:
  assumes env: "envOK uncompress env" and d: "reachable d" and c: "reachable c"
    and vals: "\<forall>val \<in> set vals. inC d (fst val) \<and> isOk (vng_NewEncoder (fst val)) \<and> storable plainLeaf (fst val) (snd val)"
    and n: "(\<Sum>val \<leftarrow> vals. 1 + length (buf (snd val))) < 2 ^ 32"
  shows "\<exists>e meta e' r c' us. foldR (DynamicEncoder_Write (ve_fl env)) NewDynamicEncoder vals = Ok e \<and>
    DynamicEncoder_Encode env e = Ok (meta, length (DynamicEncoder_Emit e'), e') \<and> NewZedReader meta c = Ok (r, c') \<and>
    readValues (Suc (length vals)) uncompress (DynamicEncoder_Emit e') r = Ok (zip us (map snd vals)) \<and>
    list_all2 (\<lambda>val u. inC c' u \<and> erase u = erase (fst val)) vals us"
proof -
  obtain e m e' r c' us where r: "foldR (DynamicEncoder_Write (ve_fl env)) NewDynamicEncoder vals = Ok e"
    "DynamicEncoder_Encode env e = Ok (m, length (DynamicEncoder_Emit e'), e')" "NewZedReader m c = Ok (r, c')"
    "readValues (Suc (length vals)) uncompress (DynamicEncoder_Emit e') r = Ok (zip us (map snd vals))" "list_all2 (twins d c') (map fst vals) us"
    using vng.roundtrip [OF env refl wf_ctxD(1) [OF reachable_wf [OF d]] reachable_wf [OF c] vals] n unfolding sz_sum by blast
  have "list_all2 (\<lambda>val u. inC c' u \<and> erase u = erase (fst val)) vals us" using r(5) by (auto simp: list_all2_conv_all_nth twins_def)
  then show ?thesis using r(1-4) by blast
qed

text \<open>An environment without compression, and two values of different types.\<close>

definition plainEnv :: "fcmp \<Rightarrow> vngEnv" where
  "plainEnv fl = \<lparr>ve_sort = SliceStable, ve_rngE = (\<lambda>d. d), ve_rngM = rev, ve_compress = (\<lambda>b. Ok []), ve_fl = fl\<rparr>"

lemma plainEnv_OK: "envOK uncompress (plainEnv fl)"
  using SliceStable_sorts by (simp add: envOK_def plainEnv_def)

theorem vng_roundtrip_witness:
  "\<exists>e meta e' r c' us. foldR (DynamicEncoder_Write (\<lambda>a b. Ok 0)) NewDynamicEncoder
      [(TypeArray 30 (TypePrimitive TypeInt64), Some (items [Some [4], None])), (TypePrimitive TypeString, Some [97])] = Ok e \<and>
    DynamicEncoder_Encode (plainEnv (\<lambda>a b. Ok 0)) e = Ok (meta, length (DynamicEncoder_Emit e'), e') \<and> NewZedReader meta NewContext = Ok (r, c') \<and>
    readValues 3 (\<lambda>n b. Panic) (DynamicEncoder_Emit e') r = Ok (zip us [Some (items [Some [4], None]), Some [97]]) \<and>
    map erase us = [TypeArray 0 (TypePrimitive TypeInt64), TypePrimitive TypeString]"
proof -
  let ?vals = "[(TypeArray 30 (TypePrimitive TypeInt64), Some (items [Some [4], None])), (TypePrimitive TypeString, Some [97])]"
  have "EncodeInt (DecodeInt (Some [4])) = Ok [4]" by code_simp
  then have leaf: "plainLeaf (TypePrimitive TypeInt64) [4]" "plainLeaf (TypePrimitive TypeString) [97]" by (simp_all add: plainLeaf_def small_def IsSigned_def)
  have st: "storable plainLeaf (TypeArray 30 (TypePrimitive TypeInt64)) (Some (items [Some [4], None]))" "storable plainLeaf (TypePrimitive TypeString) (Some [97])"
    by (rule st_array) (use leaf in \<open>auto intro: storable.intros\<close>)
  have len: "length (Append [] (Some [4])) = 2" "length (Append [] None) = 1" by code_simp+
  have ok: "isOk (vng_NewEncoder (TypeArray 30 (TypePrimitive TypeInt64)))" "isOk (vng_NewEncoder (TypePrimitive TypeString))" by (simp_all add: vng_NewEncoder_simps)
  have "\<exists>e meta e' r c' us. foldR (DynamicEncoder_Write (ve_fl (plainEnv (\<lambda>a b. Ok 0)))) NewDynamicEncoder ?vals = Ok e \<and>
    DynamicEncoder_Encode (plainEnv (\<lambda>a b. Ok 0)) e = Ok (meta, length (DynamicEncoder_Emit e'), e') \<and> NewZedReader meta NewContext = Ok (r, c') \<and>
    readValues (Suc (length ?vals)) (\<lambda>n b. Panic) (DynamicEncoder_Emit e') r = Ok (zip us (map snd ?vals)) \<and>
    list_all2 (\<lambda>val u. inC c' u \<and> erase u = erase (fst val)) ?vals us"
    by (rule vng_roundtrip [OF plainEnv_OK arrayContext_facts(1) reachable.New]) (use arrayContext_facts(2) st ok len in simp_all)
  then obtain e meta e' r c' us where r: "foldR (DynamicEncoder_Write (ve_fl (plainEnv (\<lambda>a b. Ok 0)))) NewDynamicEncoder ?vals = Ok e"
    "DynamicEncoder_Encode (plainEnv (\<lambda>a b. Ok 0)) e = Ok (meta, length (DynamicEncoder_Emit e'), e')" "NewZedReader meta NewContext = Ok (r, c')"
    "readValues (Suc (length ?vals)) (\<lambda>n b. Panic) (DynamicEncoder_Emit e') r = Ok (zip us (map snd ?vals))"
    "list_all2 (\<lambda>val u. inC c' u \<and> erase u = erase (fst val)) ?vals us" by blast
  have "map erase us = [TypeArray 0 (TypePrimitive TypeInt64), TypePrimitive TypeString]" using r(5) by (auto simp: list_all2_Cons1)
  moreover have "ve_fl (plainEnv (\<lambda>a b. Ok 0)) = (\<lambda>a b. Ok 0)" "Suc (length ?vals) = 3" "map snd ?vals = [Some (items [Some [4], None]), Some [97]]" by (simp_all add: plainEnv_def)
  ultimately show ?thesis using r(1-4) by metis
qed

section \<open>Values that compare as equal\<close>

text \<open>Writing, encoding and reading back.\<close>

definition vngTrip :: "vngEnv \<Rightarrow> lz4u \<Rightarrow> ctx \<Rightarrow> zvalue list \<Rightarrow> zvalue list go" where
  "vngTrip env uncompress c vals =
     bindR (foldR (DynamicEncoder_Write (ve_fl env)) NewDynamicEncoder vals) (\<lambda>e.
     bindR (DynamicEncoder_Encode env e) (\<lambda>(meta, _, e).
     bindR (NewZedReader meta c) (\<lambda>(r, _). readValues (Suc (length vals)) uncompress (DynamicEncoder_Emit e) r)))"

text \<open>The encoder of a primitive type after two different values that compare as equal.\<close>

definition twoEqual :: "ztype \<Rightarrow> bytes \<Rightarrow> bytes \<Rightarrow> primEncoder" where
  "twoEqual t a b = \<lparr>pe_typ = t, pe_bytes = Append [] (Some a) @ Append [] (Some b), pe_bytesLen = 0, pe_format = 0, pe_out = [],
     pe_dict = Some [(a, 1), (b, 1)], pe_min = Some (t, Some a), pe_max = Some (t, Some a), pe_count = 2\<rparr>"

definition tied :: "fcmp \<Rightarrow> ztype \<Rightarrow> bytes \<Rightarrow> bytes \<Rightarrow> bool" where
  "tied fl t a b \<longleftrightarrow> a \<noteq> b \<and> small a \<and> small b \<and>
     (\<forall>x \<in> {a, b}. \<forall>y \<in> {a, b}. NewValueCompareFn fl False False (t, Some x) (t, Some y) = Ok 0)"

lemma twoEqual_writes:
  assumes p: "ID t \<notin> {0, 6, 23}" and t: "tied fl t a b"
  shows "foldR (PrimitiveEncoder_Write fl) (NewPrimitiveEncoder t True) [Some a, Some b] = Ok (twoEqual t a b)"
  using assms
  by (auto simp: NewPrimitiveEncoder_def PrimitiveEncoder_Write_def PrimitiveEncoder_update_def better_def MaxDictSize_def inc32_def tied_def Let_def twoEqual_def
      Append_append [of "Append [] (Some a)"])

lemma tied_dict:
  assumes t: "tied fl t a b"
  shows "makeDict SliceStable (\<lambda>d. d) fl (twoEqual t a b) = Ok [((t, Some a), 1), ((t, Some b), 1)]"
    "makeDict SliceStable rev fl (twoEqual t a b\<lparr>pe_bytes := x, pe_bytesLen := y, pe_format := z, pe_out := w\<rparr>) = Ok [((t, Some b), 1), ((t, Some a), 1)]"
  using assms by (auto simp: makeDict_def sortDict_def twoEqual_def tied_def Let_def SliceStable_def okInt_def)

lemma tied_encode:
  assumes t: "tied fl t a b"
  shows "primEncode (plainEnv fl) (twoEqual t a b) = Ok (twoEqual t a b\<lparr>pe_bytes := [], pe_bytesLen := 2, pe_format := 0, pe_out := [0, 1]\<rparr>)"
proof -
  have "dictVector_loop (dictPos 0 [((t, Some a), 1), ((t, Some b), 1)]) (concat (map (\<lambda>x. Append [] (Some x)) [a, b])) [] = Ok ([] @ map (\<lambda>x. if x = a then 0 else 1) [a, b])"
    by (rule vng.dictVector_loop_ok) (use t in \<open>auto simp: tied_def\<close>)
  then show ?thesis using tied_dict(1) [OF t] t
    by (auto simp: primEncode_def PrimitiveEncoder_Encode_def plainEnv_def makeDictVector_def compressBuffer_def twoEqual_def tied_def numeral_2_eq_2)
qed

lemma tied_read:
  assumes t: "tied fl t a b" 
  shows "readValues 3 u [0, 1] (VectorReader \<lparr>vc_typ = t, vc_values = DictBuilder (NewDictBuilder \<lparr>seg_Offset = 0, seg_Length = 2, seg_MemLength = 2, seg_CompressionFormat = 0\<rparr>
     [((t, Some b), 1), ((t, Some a), 1)]), vc_builder = NewBuilder, vc_count = 2\<rparr>) = Ok [(t, Some b), (t, Some a)]"
proof -
  let ?data = "[0, 1] :: bytes" and ?loc = "\<lparr>seg_Offset = 0, seg_Length = 2, seg_MemLength = 2, seg_CompressionFormat = 0\<rparr>"
  have "yields (Builder_Build (Suc 0) u ?data) (DictBuilder (NewDictBuilder ?loc [((t, Some b), 1), ((t, Some a), 1)])) (map Some [b, a])"
    by (rule vng.dict_yields_New [where sels = ?data]) (auto simp: Segment_Read_def ReadAt_def nth_Cons' less_Suc_eq)
  then have y: "yields (Build u ?data) (DictBuilder (NewDictBuilder ?loc [((t, Some b), 1), ((t, Some a), 1)])) (map Some [b, a])"
    by (rule yields_Build) simp
  show ?thesis using readValues_vector [OF y, of t NewBuilder] t by (simp add: tied_def numeral_3_eq_3 numeral_2_eq_2 del: readValues.simps)
qed

text \<open>C39: two different values of a primitive type that compare as equal, as 0.0 and -0.0 do, may come back in the
  wrong order: \<open>Encode\<close> and \<open>Metadata\<close> make the dictionary anew, ranging over a map, so the two dictionaries can differ
  although lz4, the map and the sort behave as documented.\<close>

theorem vng_swaps_equal_values:
  assumes p: "prim_ID p \<notin> {0, 6, 23}" and t: "tied fl (TypePrimitive p) a b"
  shows "envOK u (plainEnv fl) \<and> vngTrip (plainEnv fl) u c [(TypePrimitive p, Some a), (TypePrimitive p, Some b)] = Ok [(TypePrimitive p, Some b), (TypePrimitive p, Some a)]"
proof -
  let ?t = "TypePrimitive p" and ?P = "twoEqual (TypePrimitive p) a b" and ?P1 = "twoEqual (TypePrimitive p) a b\<lparr>pe_bytes := [], pe_bytesLen := 2, pe_format := 0, pe_out := [0, 1]\<rparr>"
  obtain T1 where T1: "Int64Encoder_Write fl NewInt64Encoder 0 = Ok T1" "vng.intHolds ([] @ [0]) T1" using vng.Int64Encoder_Write_ok [OF vng.intHolds_New] by blast
  obtain T2 where T2: "Int64Encoder_Write fl T1 0 = Ok T2" using vng.Int64Encoder_Write_ok [OF T1(2)] by blast
  obtain P0 where P0: "PrimitiveEncoder_Write fl (NewPrimitiveEncoder ?t True) (Some a) = Ok P0" "PrimitiveEncoder_Write fl P0 (Some b) = Ok ?P"
    using twoEqual_writes [OF _ t] p by (auto simp: bindR_Ok_iff)
  let ?d = "\<lparr>dy_tags = T2, dy_values = [NullsEncoder (PrimitiveEncoder ?P) NewInt64Encoder 2 False 0], dy_which = [?t \<mapsto> 0], dy_len = 2\<rparr>"
  have w: "foldR (DynamicEncoder_Write fl) NewDynamicEncoder [(?t, Some a), (?t, Some b)] = Ok ?d"
    using T1(1) T2 P0 by (simp add: DynamicEncoder_Write_def NewDynamicEncoder_def vng_NewEncoder_simps NewNullsEncoder_def Let_def Encoder_Write_simps touchValue_def mapR_def inc32_def)
  let ?loc = "\<lparr>seg_Offset = 0, seg_Length = 2, seg_MemLength = 2, seg_CompressionFormat = 0\<rparr>"
  let ?m = "MPrimitive ?t ?loc [((?t, Some b), 1), ((?t, Some a), 1)] (Some (?t, Some a)) (Some (?t, Some a)) 2"
  have m: "primMetadata (plainEnv fl) 0 ?P1 = Ok (2, ?m, ?P1)"
    using tied_dict(2) [OF t, where x = "[]" and y = 2 and z = 0 and w = "[0, 1]"] by (simp add: primMetadata_def PrimitiveEncoder_Metadata_def PrimitiveEncoder_segment_def plainEnv_def twoEqual_def)
  let ?d' = "?d\<lparr>dy_values := [NullsEncoder (PrimitiveEncoder ?P1) NewInt64Encoder 2 False 0]\<rparr>"
  have e: "DynamicEncoder_Encode (plainEnv fl) ?d = Ok (?m, 2, ?d')" using tied_encode [OF t] m by (simp add: DynamicEncoder_Encode_def mapR_def)
  have data: "DynamicEncoder_Emit ?d' = [0, 1]" by (simp add: DynamicEncoder_Emit_def)
  have r: "NewZedReader ?m c = Ok (VectorReader \<lparr>vc_typ = ?t, vc_values = DictBuilder (NewDictBuilder ?loc [((?t, Some b), 1), ((?t, Some a), 1)]), vc_builder = NewBuilder, vc_count = 2\<rparr>, c)"
    by (simp add: NewZedReader_def)
  have "ve_fl (plainEnv fl) = fl" "Suc (length [(?t, Some a), (?t, Some b)]) = 3" by (simp_all add: plainEnv_def)
  then show ?thesis using plainEnv_OK by (simp only: vngTrip_def w e data r tied_read [OF t, of u] bindR.simps split_conv simp_thms)
qed

theorem vng_swaps_equal_values_witness:
  "vngTrip (plainEnv (\<lambda>a b. Ok 0)) (\<lambda>n b. Panic) NewContext
     [(TypePrimitive TypeFloat64, Some [0, 0, 0, 0, 0, 0, 0, 0]), (TypePrimitive TypeFloat64, Some [0, 0, 0, 0, 0, 0, 0, 0x80])] =
   Ok [(TypePrimitive TypeFloat64, Some [0, 0, 0, 0, 0, 0, 0, 0x80]), (TypePrimitive TypeFloat64, Some [0, 0, 0, 0, 0, 0, 0, 0])]"
proof -
  have "tied (\<lambda>a b. Ok 0) (TypePrimitive TypeFloat64) [0, 0, 0, 0, 0, 0, 0, 0] [0, 0, 0, 0, 0, 0, 0, 0x80]"
    by (simp add: tied_def small_def NewValueCompareFn_def Comparator_Compare_def NewComparator_def compareValues.simps IsNumber_def compareNumbers_def IsFloat_def)
  then show ?thesis using vng_swaps_equal_values [of TypeFloat64 "\<lambda>a b. Ok 0" _ _ "\<lambda>n b. Panic" NewContext] by simp
qed

section \<open>The header\<close>

text \<open>Little-endian words of enough bytes are read back.\<close>

lemma bit_getLE: "bit (getLE bs :: 'a::len word) i \<longleftrightarrow> i < LENGTH('a) \<and> i div 8 < length bs \<and> bit (bs ! (i div 8)) (i mod 8)"
proof (induction bs arbitrary: i)
  case (Cons b bs)
  show ?case
  proof (cases "i < 8")
    case True
    then show ?thesis by (auto simp: bit_or_iff bit_push_bit_iff bit_ucast_iff)
  next
    case False
    then have "\<not> bit b i" using bit_imp_le_length [of b i] by auto
    moreover have "i div 8 = Suc ((i - 8) div 8)" "i mod 8 = (i - 8) mod 8" using False by (simp_all add: le_div_geq le_mod_geq)
    ultimately show ?thesis using False Cons.IH [of "i - 8"] by (auto simp: bit_or_iff bit_push_bit_iff bit_ucast_iff)
  qed
qed simp

lemma getLE_putLE: "LENGTH('a) \<le> 8 * n \<Longrightarrow> getLE (putLE n w) = (w :: 'a::len word)"
proof (rule bit_word_eqI)
  fix i assume n: "LENGTH('a) \<le> 8 * n" and i: "i < LENGTH('a)"
  then have "i div 8 < n" by auto
  then show "bit (getLE (putLE n w) :: 'a word) i = bit w i" using i by (simp add: bit_getLE putLE_def bit_ucast_iff bit_drop_bit_eq)
qed

lemma length_putLE [simp]: "length (putLE n w) = n"
  by (simp add: putLE_def)

text \<open>C40: a header that was written is accepted exactly when its version is the current one and the metadata is
  not too big; then it is read back as it was written.  The limit of the data section does not
  matter, since the check compares the size of the metadata with it.\<close>

theorem Header_DataSize_unchecked:
  "Header_Deserialize (Header_Serialize h) =
     (if vh_Version h \<noteq> 4 then Err (Errorf ''unsupport VNG version'')
      else if vh_MetaSize h > MaxMetaSize then Err (Errorf ''VNG metadata section too big'') else Ok h)"
proof -
  have l: "length (str ''VNG'') = 3" by (simp add: str_def)
  have p: "getLE (putLE 4 (vh_Version h)) = vh_Version h" "getLE (putLE 8 (vh_MetaSize h)) = vh_MetaSize h" "getLE (putLE 8 (vh_DataSize h)) = vh_DataSize h"
    by (simp_all add: getLE_putLE)
  have m: "MaxMetaSize < MaxDataSize" by (simp add: MaxMetaSize_def MaxDataSize_def)
  show ?thesis using p m by (auto simp: Header_Deserialize_def Header_Serialize_def l Let_def)
qed

end
