(* ===== verification/Spec2Isabelle.thy ===== *)
theory Spec2Isabelle
  imports ContextProps Counted Builder ComplexTypes ZngProps JournalProps CommitProps CommitStoreProps BranchHist OpsProps JoinProps SortProps MergeProps WalkProps VngProps
begin

text \<open>
  A verification library for the core of Zed (brimdata/zed): its type system, its binary format ZNG, the data lake's
  journals, commits and branches, the pull protocol and some operators of its query runtime, and the columnar format VNG.

  \<^bold>\<open>The program.\<close>  A Zed value is a type and bytes.  Types are interned in a \<open>Context\<close> (\<open>context.go\<close>), so that within
  one context types with the same structure are the same pointer; between contexts they travel as type values
  (\<open>type.go\<close>) or as ZNG typedefs (\<open>zio/zngio/types.go\<close>).  Bytes are sequences of tagged containers (\<open>zcode\<close>).  The
  ZNG writer frames typedefs, values and control messages, and the reader decodes the frames into the context of
  its caller through a \<open>Mapper\<close>.  A lake keeps its pools and the branches of a pool in journals (\<open>lake/journal\<close>): numbered
  files with a HEAD and a TAIL, over which a key-value store is replayed.  A pool's data is the set of objects of
  a snapshot; a commit object (\<open>lake/commits\<close>) is a list of actions that turn the snapshot of its parent into its
  own, and a branch (\<open>lake/branch.go\<close>) is the ID of its last commit.  A query is a graph of operators
  (\<open>runtime/sam/op\<close>) that pull batches of values from their parents (\<open>zbuf\<close>) and compare values by comparators
  (\<open>runtime/sam/expr/sort.go\<close>).

  \<^bold>\<open>Values and types.\<close>  \<open>Prelude\<close> has Go's results (a value, an error, or a panic), slices and 64 bit integers.
  \<open>Zcode\<close> models \<open>zcode/bytes.go\<close> and \<open>iter.go\<close>, \<open>Builder\<close> \<open>zcode/builder.go\<close> with its stack of open containers, and \<open>Counted\<close>
  the integers of \<open>zcode/counted.go\<close> and \<open>primitive.go\<close>.  \<open>Types\<close> has the types of \<open>type.go\<close> and \<open>complex.go\<close> as one
  datatype with IDs, and \<open>CompareTypes\<close>; \<open>TypeValue\<close> the encoding of types; \<open>Context\<close> the record of \<open>context.go\<close>
  with every lookup and the mutually recursive decoder of type values, whose termination is proved.
  \<open>ContextInv\<close>, \<open>Lookup\<close>, \<open>Decode\<close>, \<open>DecodeWf\<close>, \<open>DecodeRT\<close> and \<open>ContextSpec\<close> build the invariant: IDs are positions, the
  table of type values is exact, and structure determines identity.  \<open>ContextProps\<close> states the properties: pointer equality, the
  round trips of type values and translations, the order of types, and decoding of arbitrary bytes.
  \<open>ComplexTypes\<close> has field tables, unions and the normal form of sets and maps; \<open>Mapper\<close> the ID tables.  \<open>Walk\<close> models
  \<open>walk.go\<close>, \<open>Validate\<close> and the accessors of \<open>value.go\<close> that take a value apart; \<open>WalkLaws\<close> has two sets of typing
  rules, \<open>consistent\<close> for the structural consistency that the comment of \<open>Validate\<close> speaks of and \<open>accepted\<close> for what the code lets through.
  \<open>WalkProps\<close> shows that \<open>Validate\<close> agrees with the first on types without sets and enums, up to bytes after the last field of a record, that field
  access, array elements, map lengths and unions do not panic on what it accepts, and that it accepts sets whose elements make readers panic.

  \<^bold>\<open>ZNG.\<close>  \<open>ZngTypes\<close> models the typedef encoder and decoder, \<open>ZngSync\<close> shows that a decoder that reads an encoder's bytes
  builds the same context, \<open>ZngStream\<close> has the writer, the peeker and the frame parser, \<open>ZngRead\<close> the scanner, \<open>ZngFrames\<close> and
  \<open>ZngRound\<close> the proofs about frames and streams, and \<open>ZngProps\<close> the round trip from writer to reader for every
  threshold and every compressor that its decompressor inverts, and what happens to cut and malformed streams.  The reader's
  loops end because each step consumes input.

  \<^bold>\<open>Journals.\<close>  \<open>Journal\<close> models \<open>queue.go\<close>, \<open>reader.go\<close> and \<open>store.go\<close>: positions are numbers below \<open>2 ^ 64\<close> with the
  wrap-around of the code, storage is a record of files.  \<open>JournalSys\<close> runs any number of clients in steps of one storage
  access and proves the invariant by rule induction; \<open>JournalProps\<close> has serializability, the refinement of a map by
  a client that runs alone, three failures, and that every value a store holds was put there by an entry.  The loops are bounded by the constants of the code (ten retries), so no fuel is
  chosen.

  \<^bold>\<open>Commits.\<close>  \<open>Commits\<close> models actions, commit objects, snapshots and patches; Go maps are association lists and the order of
  ranging over them is a parameter that permutes.  \<open>CommitsLaws\<close> states the contract of the interface
  \<open>Writeable\<close> as a locale and interprets it on snapshots and on views; \<open>CommitPlay\<close> and \<open>CommitMerge\<close> compute what commit objects,
  reverts and merges play to; \<open>CommitProps\<close> has their properties.  \<open>CommitStore\<close> models \<open>store.go\<close> with caches that
  may evict anything at any time; walks along parents are partial functions, since files with a cycle of parents
  would make them run for ever, and \<open>CommitStoreLaws\<close> proves that they return for every commit whose parents lead to the
  root, with the result that the files determine.  \<open>CommitStoreProps\<close> has snapshots, new commits and vacuuming.

  \<^bold>\<open>Branches.\<close>  \<open>Branch\<close> models every operation of \<open>branch.go\<close> and the branch configurations, composed of the journal store and the
  commit store.  \<open>BranchLaws\<close> proves the commit loop for a client that runs alone, \<open>BranchProps\<close> follows a load and a delete to the
  snapshot at the new tip.  \<open>BranchSys\<close> runs any number of clients of the branches of a pool as the step relation \<open>breach\<close>: a client builds a commit object on the tip it
  read, stores the object, and moves the branch by \<open>Branches_Update\<close> with the constraint of \<open>Branch.commit\<close>, interleaved with the steps
  of the journal's other clients.  Its invariant \<open>binv\<close> ties the stored objects to the entries of the branch's journal, and \<open>BranchHist\<close> proves it
  by rule induction and shows that each update of the branch stores an object whose parent is the tip that it replaces, so that no commit is lost.

  \<^bold>\<open>Operators.\<close>  \<open>Puller\<close> models batches, pullers and readers (\<open>zbuf/batch.go\<close>, \<open>zbuf/array.go\<close>, \<open>zio/peeker.go\<close>): an
  object is a state and a function that may not return, so a loop that pulls is a partial function, and
  \<open>stream\<close> says which batches a puller delivers and how it ends.  \<open>PullerLaws\<close> states the protocol as the locale
  \<open>puller\<close>; \<open>HeadTail\<close> and \<open>Uniq\<close> model three operators over any parent and show which keep it;
  \<open>OpsProps\<close> has their properties.  \<open>Value\<close> has methods of \<open>value.go\<close>, \<open>Compare\<close> the comparison and the stable sort of values,
  \<open>CompareLaws\<close> the locale \<open>ordering\<close> with the comparators that are orderings and the proof of the sort.  \<open>Join\<close> models the
  merge join, \<open>JoinLaws\<close> proves its loop equal to the nested loop, and \<open>JoinProps\<close> has the properties of joins,
  of \<open>Under\<close> and of sorting.  \<open>GoHeap\<close> models Go's \<open>container/heap\<close> and proves its operations for every ordering.  \<open>Compare\<close> also
  guesses the sort key of a record, and \<open>Top\<close> models the operator \<open>top\<close>, whose heap holds the largest values.  \<open>Spill\<close> models the external
  merge sort over an interface of files, the locale \<open>spillFiles\<close>; \<open>SortLaws\<close> and \<open>SpillLaws\<close>, with the locale \<open>mergeSorting\<close>, prove
  that spilling and merging is the stable sort of all values, and \<open>SpillFile\<close> interprets both locales on files that
  are written and read by the ZNG model.  \<open>SortOp\<close> models the operator \<open>sort\<close>, \<open>SortOpLaws\<close> follows its streams, and
  \<open>SortProps\<close> has the properties of \<open>sort\<close>, \<open>top\<close> and the merge sort.  \<open>Merge\<close> models the operator \<open>merge\<close> with the goroutines of its
  parents, each one result ahead; \<open>MergeLaws\<close> (the locale \<open>merging\<close>) and \<open>MergeRounds\<close> follow its heap of parents through the streams, and
  \<open>MergeProps\<close> shows that it delivers all values in order.  Theorems about streams say that the stream of the operator exists, so they include that every
  call returns.

  \<^bold>\<open>The columnar format.\<close>  \<open>VngPrim\<close> models segments and the vectors of primitive values with their dictionaries (\<open>vng/primitive.go\<close>,
  \<open>int.go\<close>, \<open>segment.go\<close>), \<open>VngEncode\<close> the encoders of all types as a datatype with one definition for each method (\<open>nulls.go\<close>, \<open>array.go\<close>,
  \<open>map.go\<close>, \<open>record.go\<close>, \<open>union.go\<close>), \<open>VngBuild\<close> the builders that read them, and \<open>VngDynamic\<close> the dynamic encoder, the types of metadata, the
  readers and the header (\<open>dynamic.go\<close>, \<open>metadata.go\<close>, \<open>header.go\<close>).  Lz4, the order in which Go ranges over a map, and \<open>sort.Slice\<close> are the
  fields of an environment, and \<open>envOK\<close> says what they promise.  The locale \<open>vngLeaves\<close> says what a column needs of its leaves: a comparison that is an
  order and tells different leaves apart.  \<open>VngPrimLaws\<close> and \<open>VngLaws\<close> prove the vectors of leaves and of integers, \<open>VngYields\<close> the
  builders, \<open>VngLaid\<close> the layout of each encoder, \<open>VngWrite\<close> and \<open>VngStep\<close> what encoders hold after writes, \<open>VngMeta\<close> the types, and
  \<open>VngRound\<close> the readers.  \<open>VngProps\<close> interprets the locale on integers, booleans, strings, bytes and networks and has the round trip
  for values whose leaves are of these kinds; for floats it shows that values that compare equal come back swapped.  \<open>Builder_Build\<close> has the
  depth of the builder as an argument, which is enough since no call changes it (\<open>Build_depth\<close>); the bound of 4 GiB on the values
  keeps the 32 bit counts from wrapping around.

  \<^bold>\<open>Not modelled.\<close>  The language front end (\<open>compiler\<close>, \<open>zfmt\<close>), the other operators (\<open>runtime/sam/op\<close>), the vector
  runtime (\<open>runtime/vam\<close>) and expression evaluation, which the operators take as functions; comparisons of floats;
  reference counts of batches; ZSON and marshalling by reflection (\<open>zson\<close>); among them the marshalling of VNG metadata, which the reader takes as a value, and of commit objects and snapshots, whose files
  hold the list of actions itself; the in-memory vectors (\<open>vector\<close>,
  \<open>runtime/vcache\<close>) and the other formats of \<open>zio\<close>; data objects' files, seek indexes and the lake's root and pool configurations; the service, the
  clients and the commands.  LZ4, KSUIDs, regular expressions and LRU caches are third-party code and appear as parameters
  where the model needs them.  The concurrent scanner of ZNG is represented by the sequential one; locks are not modelled, and a
  method that holds one is a step.  Cancelled contexts and failures of the storage other than missing files are
  not modelled.
\<close>

end
